(* ===== verification/Prelude.thy ===== *)
theory Prelude
  imports Main "HOL-Library.Word" "HOL-Library.Code_Target_Nat"
begin

text \<open>
  What every component theory shares: the machine integers of
  \<^verbatim>\<open>include/fnx/types.h\<close>, the error numbers of \<^verbatim>\<open>include/fnx/errno.h\<close>
  as a datatype, the status values that stand for the \<open>0 / -errno\<close> results of the C
  functions, the little-endian layout of integers in memory, and the generic lemmas on
  lists and words that the component proofs use. The named collections gather the
  simplification rules of a group of proofs.
\<close>

unbundle bit_operations_syntax

named_theorems acl_simps \<open>unfolding rules of the access control lists\<close>
named_theorems query_simps \<open>unfolding rules of the query engine\<close>
named_theorems alloc_simps \<open>unfolding rules of the block allocator\<close>
named_theorems log_simps \<open>unfolding rules of the journal\<close>

subsection \<open>Machine integers and errors\<close>

type_synonym byte = "8 word"
type_synonym u16 = "16 word"
type_synonym u32 = "32 word"
type_synonym u64 = "64 word"

text \<open>
  The error numbers the modelled code returns. A C function that returns \<open>0\<close> or
  \<open>-E\<close> has a \<open>status\<close>: \<open>None\<close> is \<open>0\<close> and \<open>Some E\<close> is \<open>-E\<close>. A function that
  returns a value or \<open>-E\<close> has a \<open>'a result\<close>.
\<close>

datatype errno = EPERM | ENOENT | EINTR | EIO | EBADF | EAGAIN | ENOMEM | EACCES | EFAULT
  | EBUSY | EEXIST | ENODEV | ENOTDIR | EISDIR | EINVAL | ENFILE | EMFILE | ENOTTY | EFBIG
  | ENOSPC | EROFS | ERANGE | ENAMETOOLONG | ENOLCK | ENOSYS | ENOTEMPTY | ENODATA | EOPNOTSUPP

type_synonym status = "errno option"
type_synonym 'a result = "errno + 'a"

subsection \<open>Integers in memory\<close>

text \<open>
  The target is little-endian: \<open>le_val\<close> is the value of the bytes a \<^verbatim>\<open>memcpy\<close> into an
  unsigned integer reads, \<open>le_enc n v\<close> the \<open>n\<close> bytes a store of \<open>v\<close> writes.
\<close>

fun le_val :: "byte list \<Rightarrow> nat" where
  "le_val [] = 0"
| "le_val (b # bs) = unat b + 256 * le_val bs"

fun le_enc :: "nat \<Rightarrow> nat \<Rightarrow> byte list" where
  "le_enc 0 v = []"
| "le_enc (Suc n) v = of_nat v # le_enc n (v div 256)"

lemma length_le_enc [simp]: "length (le_enc n v) = n"
  by (induction n arbitrary: v) auto

lemma le_val_less: "le_val bs < 256 ^ length bs"
proof (induction bs)
  case (Cons b bs)
  have b: "unat b < 256" using unsigned_less [of b, where ?'a=nat] by simp
  have "le_val (b # bs) < 256 + 256 * le_val bs" using b by simp
  also have "\<dots> = 256 * Suc (le_val bs)" by simp
  also have "\<dots> \<le> 256 * 256 ^ length bs" using Cons.IH by (intro mult_le_mono) auto
  finally show ?case by simp
qed simp

lemma unat_of_nat_byte: "unat (of_nat v :: byte) = v mod 256"
  by (simp add: unat_of_nat)

lemma le_val_le_enc: "le_val (le_enc n v) = v mod 256 ^ n"
proof (induction n arbitrary: v)
  case (Suc n)
  have "le_val (le_enc (Suc n) v) = v mod 256 + 256 * (v div 256 mod 256 ^ n)"
    by (simp add: Suc.IH unat_of_nat_byte)
  also have "\<dots> = v mod (256 * 256 ^ n)"
    by (simp add: mod_mult2_eq)
  finally show ?case by simp
qed simp

lemma le_val_le_enc_small [simp]: "v < 256 ^ n \<Longrightarrow> le_val (le_enc n v) = v"
  by (simp add: le_val_le_enc)

lemma le_enc_le_val [simp]: "le_enc (length bs) (le_val bs) = bs"
proof (induction bs)
  case (Cons b bs)
  have b: "unat b < 256" using unsigned_less [of b, where ?'a=nat] by simp
  have "(unat b + 256 * le_val bs) div 256 = le_val bs" using b by simp
  moreover have "of_nat (unat b + 256 * le_val bs) = b"
  proof -
    have "unat (of_nat (unat b + 256 * le_val bs) :: byte) = unat b"
      using b by (simp only: unat_of_nat_byte) simp
    then show ?thesis by (simp only: word_unat_eq_iff)
  qed
  ultimately show ?case using Cons.IH by simp
qed simp

lemma of_nat_unat_mod:
  fixes w :: "'a::len word"
  assumes "LENGTH('a) = 8 * n"
  shows "of_nat (le_val (le_enc n (unat w))) = w"
proof -
  have "(256::nat) ^ n = 2 ^ LENGTH('a)" by (simp add: assms power_mult)
  moreover have "unat w < 2 ^ LENGTH('a)" by (rule unsigned_less)
  ultimately show ?thesis by simp
qed

lemma le_enc_take: "k = length (take k bs) \<Longrightarrow> le_enc k (le_val (take k bs)) = take k bs"
  by (metis le_enc_le_val)

subsection \<open>Ranges of bytes\<close>

definition mem_get :: "nat \<Rightarrow> nat \<Rightarrow> byte list \<Rightarrow> byte list" where
  "mem_get off n data = take n (drop off data)"

definition mem_put :: "nat \<Rightarrow> byte list \<Rightarrow> byte list \<Rightarrow> byte list" where
  "mem_put off bs data = take off data @ bs @ drop (off + length bs) data"

lemma length_mem_put [simp]: "off + length bs \<le> length data \<Longrightarrow> length (mem_put off bs data) = length data"
  by (simp add: mem_put_def)

lemma length_mem_get [simp]: "off + n \<le> length data \<Longrightarrow> length (mem_get off n data) = n"
  by (simp add: mem_get_def)

lemma mem_get_put_same:
  "off \<le> length data \<Longrightarrow> n = length bs \<Longrightarrow> mem_get off n (mem_put off bs data) = bs"
  by (simp add: mem_get_def mem_put_def)

lemma mem_get_put_after:
  "p + length bs \<le> off \<Longrightarrow> p + length bs \<le> length data \<Longrightarrow> mem_get off n (mem_put p bs data) = mem_get off n data"
  by (simp add: mem_get_def mem_put_def add.commute)

lemma mem_get_put_before:
  "off + n \<le> p \<Longrightarrow> p \<le> length data \<Longrightarrow> mem_get off n (mem_put p bs data) = mem_get off n data"
  by (simp add: mem_get_def mem_put_def drop_take min_absorb1)

lemma mem_get_get: "off + n \<le> m \<Longrightarrow> mem_get off n (mem_get p m data) = mem_get (p + off) n data"
  by (simp add: mem_get_def drop_take min_absorb1 add.commute)

lemma mem_get_append:
  "mem_get off n (xs @ ys) =
     (if off + n \<le> length xs then mem_get off n xs
      else if length xs \<le> off then mem_get (off - length xs) n ys
      else drop off xs @ take (n - (length xs - off)) ys)"
  by (auto simp: mem_get_def)

lemma mem_put_append1: "length xs = off \<Longrightarrow> length ys = length bs \<Longrightarrow> mem_put off bs (xs @ ys @ zs) = xs @ bs @ zs"
  by (simp add: mem_put_def)

lemma mem_get_append1: "length xs = off \<Longrightarrow> length ys = n \<Longrightarrow> mem_get off n (xs @ ys @ zs) = ys"
  by (simp add: mem_get_def)

subsection \<open>Memory allocation\<close>

text \<open>
  The outcomes of the successive \<^verbatim>\<open>kmalloc\<close> calls of a computation are a list of booleans,
  consumed from the front; when it is exhausted every further allocation succeeds.
\<close>

type_synonym mem = "bool list"

definition kmalloc_ok :: "mem \<Rightarrow> bool" where
  "kmalloc_ok m = (case m of [] \<Rightarrow> True | b # _ \<Rightarrow> b)"

definition kmalloc_rest :: "mem \<Rightarrow> mem" where
  "kmalloc_rest m = tl m"

definition mem_ok :: "mem \<Rightarrow> bool" where
  "mem_ok m \<longleftrightarrow> list_all (\<lambda>b. b) m"

lemma mem_ok_kmalloc [simp]: "mem_ok m \<Longrightarrow> kmalloc_ok m" "mem_ok m \<Longrightarrow> mem_ok (kmalloc_rest m)"
  by (cases m; simp add: mem_ok_def kmalloc_ok_def kmalloc_rest_def)+

end
