(* ===== verification/Query_Match.thy ===== *)
theory Query_Match
  imports Prelude
begin

text \<open>
  Values, patterns and comparisons of the query engine, \<^verbatim>\<open>fs/agfs/query.c\<close>: the conversion of
  a value text to the key type of an index, the wildcard patterns, and the test of one stored
  key against one equation.

  A C string is the byte list from the pointer on; \<open>ch\<close> reads the character at the pointer,
  and the end of the list reads as the terminating zero. \<^verbatim>\<open>char\<close> is signed on the target, so
  ordered comparisons of characters go through \<open>sint\<close>.
\<close>

definition ch :: "byte list \<Rightarrow> byte" where
  "ch p = (case p of [] \<Rightarrow> 0 | c # _ \<Rightarrow> c)"

definition ch_at :: "byte list \<Rightarrow> nat \<Rightarrow> byte" where
  "ch_at p k = ch (drop k p)"

abbreviation (input) CH_TAB :: byte where "CH_TAB \<equiv> 0x09"
abbreviation (input) CH_NL :: byte where "CH_NL \<equiv> 0x0A"
abbreviation (input) CH_SP :: byte where "CH_SP \<equiv> 0x20"
abbreviation (input) CH_BANG :: byte where "CH_BANG \<equiv> 0x21"
abbreviation (input) CH_DQUOTE :: byte where "CH_DQUOTE \<equiv> 0x22"
abbreviation (input) CH_AMP :: byte where "CH_AMP \<equiv> 0x26"
abbreviation (input) CH_QUOTE :: byte where "CH_QUOTE \<equiv> 0x27"
abbreviation (input) CH_LPAR :: byte where "CH_LPAR \<equiv> 0x28"
abbreviation (input) CH_RPAR :: byte where "CH_RPAR \<equiv> 0x29"
abbreviation (input) CH_STAR :: byte where "CH_STAR \<equiv> 0x2A"
abbreviation (input) CH_PLUS :: byte where "CH_PLUS \<equiv> 0x2B"
abbreviation (input) CH_MINUS :: byte where "CH_MINUS \<equiv> 0x2D"
abbreviation (input) CH_0 :: byte where "CH_0 \<equiv> 0x30"
abbreviation (input) CH_9 :: byte where "CH_9 \<equiv> 0x39"
abbreviation (input) CH_LT :: byte where "CH_LT \<equiv> 0x3C"
abbreviation (input) CH_EQ :: byte where "CH_EQ \<equiv> 0x3D"
abbreviation (input) CH_GT :: byte where "CH_GT \<equiv> 0x3E"
abbreviation (input) CH_QMARK :: byte where "CH_QMARK \<equiv> 0x3F"
abbreviation (input) CH_UA :: byte where "CH_UA \<equiv> 0x41"
abbreviation (input) CH_UF :: byte where "CH_UF \<equiv> 0x46"
abbreviation (input) CH_UX :: byte where "CH_UX \<equiv> 0x58"
abbreviation (input) CH_LBRACK :: byte where "CH_LBRACK \<equiv> 0x5B"
abbreviation (input) CH_BSLASH :: byte where "CH_BSLASH \<equiv> 0x5C"
abbreviation (input) CH_RBRACK :: byte where "CH_RBRACK \<equiv> 0x5D"
abbreviation (input) CH_CARET :: byte where "CH_CARET \<equiv> 0x5E"
abbreviation (input) CH_LA :: byte where "CH_LA \<equiv> 0x61"
abbreviation (input) CH_LF :: byte where "CH_LF \<equiv> 0x66"
abbreviation (input) CH_LX :: byte where "CH_LX \<equiv> 0x78"
abbreviation (input) CH_BAR :: byte where "CH_BAR \<equiv> 0x7C"

subsection \<open>Number texts\<close>

definition q_blanks :: "byte list \<Rightarrow> byte list" where
  "q_blanks s = dropWhile (\<lambda>c. c = CH_SP \<or> c = CH_TAB) s"

definition q_digit :: "byte \<Rightarrow> nat option" where
  "q_digit c =
     (if CH_0 \<le> c \<and> c \<le> CH_9 then Some (unat c - 0x30)
      else if CH_LA \<le> c \<and> c \<le> CH_LF then Some (unat c - 0x61 + 10)
      else if CH_UA \<le> c \<and> c \<le> CH_UF then Some (unat c - 0x41 + 10)
      else None)"

fun q_digits :: "nat \<Rightarrow> byte list \<Rightarrow> u64 \<Rightarrow> u64" where
  "q_digits base [] v = v"
| "q_digits base (c # s) v =
     (if c = 0 then v
      else
        (case q_digit c of
           None \<Rightarrow> v
         | Some d \<Rightarrow> if base \<le> d then v else q_digits base s (v * of_nat base + of_nat d)))"

definition agfs_q_strtou64 :: "byte list \<Rightarrow> nat \<Rightarrow> u64" where
  "agfs_q_strtou64 s0 base =
     (let s1 = q_blanks s0;
          s2 = (if ch s1 = CH_PLUS then tl s1 else s1)
      in if base = 0 then
           (if ch s2 = CH_0 then
              (let s3 = tl s2 in
               if ch s3 = CH_LX \<or> ch s3 = CH_UX then q_digits 16 (tl s3) 0 else q_digits 8 s3 0)
            else q_digits 10 s2 0)
         else q_digits base s2 0)"

definition agfs_q_strto64 :: "byte list \<Rightarrow> nat \<Rightarrow> u64" where
  "agfs_q_strto64 s0 base =
     (let s1 = q_blanks s0 in
      if ch s1 = CH_MINUS then 0 - agfs_q_strtou64 (tl s1) base
      else if ch s1 = CH_PLUS then agfs_q_strtou64 (tl s1) base
      else agfs_q_strtou64 s1 base)"

datatype qtype = STRING_TYPE | INT8_TYPE | INT16_TYPE | INT32_TYPE | UINT32_TYPE | INT64_TYPE
  | UINT64_TYPE | FLOAT_TYPE | DOUBLE_TYPE

fun agfs_qtype_size :: "qtype \<Rightarrow> nat" where
  "agfs_qtype_size INT8_TYPE = 1"
| "agfs_qtype_size INT16_TYPE = 2"
| "agfs_qtype_size INT32_TYPE = 4"
| "agfs_qtype_size UINT32_TYPE = 4"
| "agfs_qtype_size FLOAT_TYPE = 4"
| "agfs_qtype_size INT64_TYPE = 8"
| "agfs_qtype_size UINT64_TYPE = 8"
| "agfs_qtype_size DOUBLE_TYPE = 8"
| "agfs_qtype_size STRING_TYPE = 0"

text \<open>
  The floating point unit is a parameter: the parse of a text to the four or eight bytes of a
  \<^verbatim>\<open>float\<close> or \<^verbatim>\<open>double\<close>, and the orders of them.
\<close>

record fpu =
  fpu_float :: "byte list \<Rightarrow> byte list"
  fpu_double :: "byte list \<Rightarrow> byte list"
  fpu_float_less :: "byte list \<Rightarrow> byte list \<Rightarrow> bool"
  fpu_double_less :: "byte list \<Rightarrow> byte list \<Rightarrow> bool"

definition agfs_q_parse_value :: "fpu \<Rightarrow> qtype \<Rightarrow> byte list \<Rightarrow> byte list result" where
  "agfs_q_parse_value fp dtype v =
     (let tmp = take 63 v in
      case dtype of
        INT8_TYPE \<Rightarrow> Inr (le_enc 1 (unat (agfs_q_strto64 tmp 0)))
      | INT16_TYPE \<Rightarrow> Inr (le_enc 2 (unat (agfs_q_strto64 tmp 0)))
      | INT32_TYPE \<Rightarrow> Inr (le_enc 4 (unat (agfs_q_strto64 tmp 0)))
      | UINT32_TYPE \<Rightarrow> Inr (le_enc 4 (unat (agfs_q_strtou64 tmp 0)))
      | INT64_TYPE \<Rightarrow> Inr (le_enc 8 (unat (agfs_q_strto64 tmp 0)))
      | UINT64_TYPE \<Rightarrow> Inr (le_enc 8 (unat (agfs_q_strtou64 tmp 0)))
      | FLOAT_TYPE \<Rightarrow> Inr (fpu_float fp tmp)
      | DOUBLE_TYPE \<Rightarrow> Inr (fpu_double fp tmp)
      | STRING_TYPE \<Rightarrow> Inl EINVAL)"

subsection \<open>Patterns\<close>

function q_class_loop :: "byte list \<Rightarrow> byte \<Rightarrow> bool \<Rightarrow> bool \<times> byte list" where
  "q_class_loop p c matched =
     (if ch p = 0 \<or> ch p = CH_RBRACK then (matched, p)
      else if ch_at p 1 = CH_MINUS \<and> ch_at p 2 \<noteq> 0 \<and> ch_at p 2 \<noteq> CH_RBRACK then
        q_class_loop (drop 3 p) c
          (matched \<or> sint (ch p) \<le> sint c \<and> sint c \<le> sint (ch_at p 2))
      else q_class_loop (drop 1 p) c (matched \<or> c = ch p))"
  by pat_completeness auto
termination
proof (relation "measure (\<lambda>(p, c, m). length p)", goal_cases)
  case (2 p c m)
  then have "p \<noteq> []" by (auto simp: ch_def)
  then show ?case by simp
next
  case (3 p c m)
  then have "p \<noteq> []" by (auto simp: ch_def)
  then show ?case by simp
qed simp

declare q_class_loop.simps [simp del]

text \<open>The value \<open>-1\<close> for an unterminated class is \<open>None\<close>; otherwise the result and the rest of the pattern.\<close>

definition agfs_q_class_match :: "byte list \<Rightarrow> byte \<Rightarrow> (bool \<times> byte list) option" where
  "agfs_q_class_match p0 c =
     (let invert = (ch p0 = CH_CARET \<or> ch p0 = CH_BANG);
          (matched, p) = q_class_loop (if invert then tl p0 else p0) c False
      in if ch p \<noteq> CH_RBRACK then None
         else Some (if invert then \<not> matched else matched, tl p))"

lemma ch_nonempty: "ch p \<noteq> 0 \<Longrightarrow> p \<noteq> []"
  by (auto simp: ch_def)

lemma q_class_loop_length: "q_class_loop p c m = (m', p') \<Longrightarrow> length p' \<le> length p"
proof (induction p c m rule: q_class_loop.induct)
  case (1 p c m)
  consider "ch p = 0 \<or> ch p = CH_RBRACK"
    | "\<not> (ch p = 0 \<or> ch p = CH_RBRACK)" "ch_at p 1 = CH_MINUS \<and> ch_at p 2 \<noteq> 0 \<and> ch_at p 2 \<noteq> CH_RBRACK"
    | "\<not> (ch p = 0 \<or> ch p = CH_RBRACK)" "\<not> (ch_at p 1 = CH_MINUS \<and> ch_at p 2 \<noteq> 0 \<and> ch_at p 2 \<noteq> CH_RBRACK)"
    by blast
  then show ?case
  proof cases
    case 1
    then show ?thesis using "1.prems" by (simp add: q_class_loop.simps [of p])
  next
    case 2
    then show ?thesis using "1.IH"(1) "1.prems" by (simp add: q_class_loop.simps [of p])
  next
    case 3
    then show ?thesis using "1.IH"(2) [OF 3] "1.prems"
      by (simp only: q_class_loop.simps [of p] if_False) fastforce
  qed
qed

lemma agfs_q_class_match_length:
  assumes "agfs_q_class_match p c = Some (r, p')"
  shows "length p' < length p"
proof -
  let ?q = "if ch p = CH_CARET \<or> ch p = CH_BANG then tl p else p"
  obtain m p1 where l: "q_class_loop ?q c False = (m, p1)" by fastforce
  then have "ch p1 = CH_RBRACK" "p' = tl p1"
    using assms by (auto simp: agfs_q_class_match_def Let_def split: if_splits)
  then have "p1 \<noteq> []" "p' = tl p1" by (auto simp: ch_def)
  moreover have "length p1 \<le> length ?q" by (rule q_class_loop_length [OF l])
  moreover have "length ?q \<le> length p" by simp
  ultimately show ?thesis by (cases p1) auto
qed

function agfs_q_pattern_match :: "byte list \<Rightarrow> byte list \<Rightarrow> bool"
  and q_star_match :: "byte list \<Rightarrow> byte list \<Rightarrow> bool" where
  "agfs_q_pattern_match pat s =
     (if ch pat = 0 then ch s = 0
      else if ch pat = CH_STAR then
        (let pat' = dropWhile (\<lambda>c. c = CH_STAR) pat in
         if ch pat' = 0 then True else q_star_match pat' s)
      else if ch pat = CH_QMARK then
        (if ch s = 0 then False else agfs_q_pattern_match (tl pat) (tl s))
      else if ch pat = CH_LBRACK then
        (if ch s = 0 then False
         else
           (case agfs_q_class_match (tl pat) (ch s) of
              None \<Rightarrow> False
            | Some (m, pat') \<Rightarrow> if \<not> m then False else agfs_q_pattern_match pat' (tl s)))
      else
        (let pat' = (if ch pat = CH_BSLASH \<and> ch_at pat 1 \<noteq> 0 then tl pat else pat) in
         if ch pat' \<noteq> ch s then False else agfs_q_pattern_match (tl pat') (tl s)))"
| "q_star_match pat s =
     (if ch s = 0 then False
      else if agfs_q_pattern_match pat s then True
      else q_star_match pat (tl s))"
  by pat_completeness auto
termination
proof (relation "measures [\<lambda>x. case x of Inl (p, s) \<Rightarrow> length p | Inr (p, s) \<Rightarrow> length p,
    \<lambda>x. case x of Inl (p, s) \<Rightarrow> length s | Inr (p, s) \<Rightarrow> length s,
    \<lambda>x. case x of Inl _ \<Rightarrow> 0 | Inr _ \<Rightarrow> 1]", goal_cases)
  case (2 pat s pat')
  then have "pat \<noteq> []" "hd pat = CH_STAR" by (auto simp: ch_def split: list.splits)
  then have "length pat' < length pat" using 2(3) length_dropWhile_le [of _ "tl pat"]
    by (cases pat) (auto simp: less_Suc_eq_le)
  then show ?case by simp
next
  case (4 pat s x m pat')
  then have "length pat' < length (tl pat)" using agfs_q_class_match_length by blast
  then have "length pat' < length pat" by (cases pat) auto
  then show ?case by simp
qed (auto simp: ch_def split: list.splits)

declare agfs_q_pattern_match.simps [simp del] q_star_match.simps [simp del]

definition agfs_q_is_pattern :: "byte list \<Rightarrow> bool" where
  "agfs_q_is_pattern v = list_ex (\<lambda>c. c = CH_STAR \<or> c = CH_QMARK \<or> c = CH_LBRACK) v"

subsection \<open>One equation against one key\<close>

datatype qop = OP_EQUAL | OP_NOT_EQUAL | OP_GREATER_THAN | OP_GREATER_THAN_OR_EQUAL
  | OP_LESS_THAN | OP_LESS_THAN_OR_EQUAL

text \<open>\<^verbatim>\<open>strncmp\<close> of \<^verbatim>\<open>lib/string.c\<close>, as a number of the sign the C function returns.\<close>

fun strncmp :: "byte list \<Rightarrow> byte list \<Rightarrow> nat \<Rightarrow> int" where
  "strncmp s1 s2 0 = 0"
| "strncmp s1 s2 (Suc n) =
     (if ch s1 \<noteq> 0 \<and> ch s2 \<noteq> 0 then
        (if ch s1 \<noteq> ch s2 then (if sint (ch s1) < sint (ch s2) then -1 else 1)
         else strncmp (tl s1) (tl s2) n)
      else if sint (ch s1) < sint (ch s2) then -1
      else if sint (ch s2) < sint (ch s1) then 1
      else 0)"

text \<open>
  The context of an index walk: the equation's operator and value, the type of the index, the
  parsed value and the pattern flag.
\<close>

record q_ctx =
  qx_op :: qop
  qx_value :: "byte list"
  qx_dtype :: qtype
  qx_key :: "byte list"
  qx_use_pattern :: bool

definition q_op_holds :: "qop \<Rightarrow> int \<Rightarrow> bool" where
  "q_op_holds op cmp =
     (case op of
        OP_EQUAL \<Rightarrow> cmp = 0
      | OP_NOT_EQUAL \<Rightarrow> cmp \<noteq> 0
      | OP_GREATER_THAN \<Rightarrow> cmp > 0
      | OP_GREATER_THAN_OR_EQUAL \<Rightarrow> cmp \<ge> 0
      | OP_LESS_THAN \<Rightarrow> cmp < 0
      | OP_LESS_THAN_OR_EQUAL \<Rightarrow> cmp \<le> 0)"

definition q_cmp3 :: "bool \<Rightarrow> bool \<Rightarrow> int" where
  "q_cmp3 lt gt = (if lt then -1 else if gt then 1 else 0)"

text \<open>
  The copy of \<open>n\<close> key bytes into a zeroed 64-bit variable: the high bytes stay zero, for the
  signed types too.
\<close>

definition q_load :: "nat \<Rightarrow> byte list \<Rightarrow> u64" where
  "q_load n key = of_nat (le_val (take n key))"

definition q_cmp_signed :: "nat \<Rightarrow> byte list \<Rightarrow> byte list \<Rightarrow> int" where
  "q_cmp_signed n k1 k2 =
     (let s1 = sint (q_load n k1); s2 = sint (q_load n k2) in q_cmp3 (s1 < s2) (s1 > s2))"

definition q_cmp_unsigned :: "nat \<Rightarrow> byte list \<Rightarrow> byte list \<Rightarrow> int" where
  "q_cmp_unsigned n k1 k2 =
     (let u1 = q_load n k1; u2 = q_load n k2 in q_cmp3 (u1 < u2) (u1 > u2))"

text \<open>The comparison of a numeric key of the index's size with the parsed value.\<close>

definition q_cmp_numeric :: "fpu \<Rightarrow> qtype \<Rightarrow> byte list \<Rightarrow> byte list \<Rightarrow> int" where
  "q_cmp_numeric fp dtype key val =
     (case dtype of
        INT8_TYPE \<Rightarrow> q_cmp_signed 1 key val
      | INT16_TYPE \<Rightarrow> q_cmp_signed 2 key val
      | INT32_TYPE \<Rightarrow> q_cmp_signed 4 key val
      | INT64_TYPE \<Rightarrow> q_cmp_signed 8 key val
      | UINT32_TYPE \<Rightarrow> q_cmp_unsigned 4 key val
      | UINT64_TYPE \<Rightarrow> q_cmp_unsigned 8 key val
      | FLOAT_TYPE \<Rightarrow> q_cmp3 (fpu_float_less fp (take 4 key) (take 4 val))
                          (fpu_float_less fp (take 4 val) (take 4 key))
      | DOUBLE_TYPE \<Rightarrow> q_cmp3 (fpu_double_less fp (take 8 key) (take 8 val))
                          (fpu_double_less fp (take 8 val) (take 8 key))
      | STRING_TYPE \<Rightarrow> 0)"

definition agfs_q_key_matches :: "fpu \<Rightarrow> q_ctx \<Rightarrow> byte list \<Rightarrow> bool" where
  "agfs_q_key_matches fp c key =
     (if qx_dtype c = STRING_TYPE then
        (if (qx_op c = OP_EQUAL \<or> qx_op c = OP_NOT_EQUAL) \<and> qx_use_pattern c then
           (let m = agfs_q_pattern_match (qx_value c) key in
            if qx_op c = OP_EQUAL then m else \<not> m)
         else
           (let cmp = strncmp key (qx_value c) (min (length key) (length (qx_value c))) in
            q_op_holds (qx_op c)
              (if cmp = 0 then int (length key) - int (length (qx_value c)) else cmp)))
      else if length key \<noteq> agfs_qtype_size (qx_dtype c) then False
      else q_op_holds (qx_op c) (q_cmp_numeric fp (qx_dtype c) key (qx_key c)))"

subsection \<open>What a pattern means\<close>

text \<open>
  The reference: a pattern is a sequence of tokens, and a token sequence denotes a language.
  An unterminated class matches nothing.
\<close>

datatype gtok = GLit byte | GAny | GStar | GClass bool "(byte \<times> byte) list" | GFail

function q_ranges :: "byte list \<Rightarrow> (byte \<times> byte) list \<times> byte list" where
  "q_ranges p =
     (if ch p = 0 \<or> ch p = CH_RBRACK then ([], p)
      else if ch_at p 1 = CH_MINUS \<and> ch_at p 2 \<noteq> 0 \<and> ch_at p 2 \<noteq> CH_RBRACK
      then (let r = q_ranges (drop 3 p) in ((ch p, ch_at p 2) # fst r, snd r))
      else (let r = q_ranges (drop 1 p) in ((ch p, ch p) # fst r, snd r)))"
  by pat_completeness auto
termination
  by (relation "measure length") (auto simp: ch_def split: list.splits)

declare q_ranges.simps [simp del]

definition in_ranges :: "byte \<Rightarrow> (byte \<times> byte) list \<Rightarrow> bool" where
  "in_ranges c rs \<longleftrightarrow> (\<exists>(lo, hi)\<in>set rs. sint lo \<le> sint c \<and> sint c \<le> sint hi)"

lemma sint_eq_iff: "sint (a::byte) = sint b \<longleftrightarrow> a = b"
  by (auto dest: signed_word_eqI)

lemma q_class_loop_ranges:
  "q_class_loop p c m = (m \<or> in_ranges c (fst (q_ranges p)), snd (q_ranges p))"
proof (induction p c m rule: q_class_loop.induct)
  case (1 p c m)
  have eq: "sint (ch p) \<le> sint c \<and> sint c \<le> sint (ch p) \<longleftrightarrow> c = ch p"
    using sint_eq_iff [of c "ch p"] by auto
  consider "ch p = 0 \<or> ch p = CH_RBRACK"
    | "\<not> (ch p = 0 \<or> ch p = CH_RBRACK)" "ch_at p 1 = CH_MINUS \<and> ch_at p 2 \<noteq> 0 \<and> ch_at p 2 \<noteq> CH_RBRACK"
    | "\<not> (ch p = 0 \<or> ch p = CH_RBRACK)" "\<not> (ch_at p 1 = CH_MINUS \<and> ch_at p 2 \<noteq> 0 \<and> ch_at p 2 \<noteq> CH_RBRACK)"
    by blast
  then show ?case
  proof cases
    case 1
    then show ?thesis by (simp add: q_class_loop.simps [of p] q_ranges.simps [of p] in_ranges_def)
  next
    case 2
    show ?thesis unfolding q_class_loop.simps [of p] q_ranges.simps [of p]
      using 2 "1.IH"(1) [OF 2] by (simp only: if_True if_False Let_def fst_conv snd_conv) (auto simp: in_ranges_def)
  next
    case 3
    show ?thesis unfolding q_class_loop.simps [of p] q_ranges.simps [of p]
      using 3 "1.IH"(2) [OF 3] eq by (simp only: if_True if_False Let_def fst_conv snd_conv) (auto simp: in_ranges_def)
  qed
qed

definition q_class :: "byte list \<Rightarrow> (bool \<times> (byte \<times> byte) list \<times> byte list) option" where
  "q_class p =
     (let invert = (ch p = CH_CARET \<or> ch p = CH_BANG);
          r = q_ranges (if invert then tl p else p)
      in if ch (snd r) \<noteq> CH_RBRACK then None else Some (invert, fst r, tl (snd r)))"

lemma agfs_q_class_match_class:
  "agfs_q_class_match p c = map_option (\<lambda>(neg, rs, p'). (neg \<noteq> in_ranges c rs, p')) (q_class p)"
  by (simp add: agfs_q_class_match_def q_class_def q_class_loop_ranges Let_def)

lemma q_class_length: "q_class p = Some (neg, rs, p') \<Longrightarrow> length p' < length p"
  using agfs_q_class_match_length [of p 0 "neg \<noteq> in_ranges 0 rs" p']
  by (simp add: agfs_q_class_match_class)

function q_tokens :: "byte list \<Rightarrow> gtok list" where
  "q_tokens p =
     (if ch p = 0 then []
      else if ch p = CH_STAR then GStar # q_tokens (tl p)
      else if ch p = CH_QMARK then GAny # q_tokens (tl p)
      else if ch p = CH_LBRACK then
        (case q_class (tl p) of
           None \<Rightarrow> [GFail]
         | Some (neg, rs, p') \<Rightarrow> GClass neg rs # q_tokens p')
      else if ch p = CH_BSLASH \<and> ch_at p 1 \<noteq> 0 then GLit (ch_at p 1) # q_tokens (drop 2 p)
      else GLit (ch p) # q_tokens (tl p))"
  by pat_completeness auto
termination
proof (relation "measure length", goal_cases)
  case (4 p x neg y rs p')
  then have "length p' < length (tl p)" using q_class_length by blast
  then have "length p' < length p" by (cases p) auto
  then show ?case by simp
qed (auto simp: ch_def split: list.splits)

declare q_tokens.simps [simp del]

inductive gmatch :: "gtok list \<Rightarrow> byte list \<Rightarrow> bool" where
  gm_nil: "gmatch [] []"
| gm_lit: "gmatch ts s \<Longrightarrow> gmatch (GLit c # ts) (c # s)"
| gm_any: "gmatch ts s \<Longrightarrow> gmatch (GAny # ts) (c # s)"
| gm_class: "gmatch ts s \<Longrightarrow> neg \<noteq> in_ranges c rs \<Longrightarrow> gmatch (GClass neg rs # ts) (c # s)"
| gm_skip: "gmatch ts s \<Longrightarrow> gmatch (GStar # ts) s"
| gm_eat: "gmatch (GStar # ts) s \<Longrightarrow> gmatch (GStar # ts) (c # s)"

inductive_simps gmatch_Nil [simp]: "gmatch [] s"
inductive_simps gmatch_Lit [simp]: "gmatch (GLit c # ts) s"
inductive_simps gmatch_Any [simp]: "gmatch (GAny # ts) s"
inductive_simps gmatch_Class [simp]: "gmatch (GClass neg rs # ts) s"
inductive_simps gmatch_Fail [simp]: "gmatch (GFail # ts) s"
inductive_simps gmatch_Star_Nil: "gmatch (GStar # ts) []"
inductive_simps gmatch_Star_Cons: "gmatch (GStar # ts) (c # s)"

lemma gmatch_star_suffix: "gmatch (GStar # ts) s \<longleftrightarrow> (\<exists>k\<le>length s. gmatch ts (drop k s))"
proof (induction s)
  case Nil
  then show ?case by (simp add: gmatch_Star_Nil)
next
  case (Cons c s)
  have "(\<exists>k\<le>length (c # s). gmatch ts (drop k (c # s))) \<longleftrightarrow>
      gmatch ts (c # s) \<or> (\<exists>k\<le>length s. gmatch ts (drop k s))"
    by (metis Suc_le_mono drop0 drop_Suc_Cons length_Cons not0_implies_Suc zero_le)
  then show ?case using Cons by (simp add: gmatch_Star_Cons)
qed

lemma gmatch_star_star: "gmatch (GStar # GStar # ts) s \<longleftrightarrow> gmatch (GStar # ts) s"
proof
  assume "gmatch (GStar # GStar # ts) s"
  then obtain k l where "gmatch ts (drop l (drop k s))" "k \<le> length s" "l \<le> length s - k"
    by (auto simp: gmatch_star_suffix)
  then show "gmatch (GStar # ts) s" by (auto simp: gmatch_star_suffix intro!: exI [of _ "l + k"])
qed (rule gm_skip)

definition cstr :: "byte list \<Rightarrow> byte list" where
  "cstr s = takeWhile (\<lambda>c. c \<noteq> 0) s"

lemma cstr_ch: "cstr s = (if ch s = 0 then [] else ch s # cstr (tl s))"
  by (cases s) (auto simp: cstr_def ch_def)

lemma q_star_match_suffix:
  assumes "\<And>s. agfs_q_pattern_match pat s \<longleftrightarrow> gmatch ts (cstr s)" "\<not> gmatch ts []"
  shows "q_star_match pat s \<longleftrightarrow> gmatch (GStar # ts) (cstr s)"
proof (induction s)
  case Nil
  then show ?case using assms(2) by (simp add: q_star_match.simps ch_def cstr_def gmatch_Star_Nil)
next
  case (Cons c s)
  then show ?case
    using assms by (subst q_star_match.simps) (auto simp: ch_def cstr_def gmatch_Star_Nil gmatch_Star_Cons)
qed

lemma q_tokens_head_star: "q_tokens p = GStar # ts \<Longrightarrow> ch p = CH_STAR"
  by (subst (asm) q_tokens.simps) (auto split: if_splits option.splits)

lemma q_tokens_empty: "ch p \<noteq> 0 \<Longrightarrow> ch p \<noteq> CH_STAR \<Longrightarrow> \<not> gmatch (q_tokens p) []"
  by (subst q_tokens.simps) (auto split: option.splits)

lemma q_tokens_stars:
  "gmatch (q_tokens (CH_STAR # p)) s \<longleftrightarrow> gmatch (GStar # q_tokens (dropWhile (\<lambda>c. c = CH_STAR) p)) s"
proof (induction p)
  case Nil
  show ?case by (simp add: q_tokens.simps [of "[CH_STAR]"] ch_def)
next
  case (Cons c p)
  show ?case
  proof (cases "c = CH_STAR")
    case True
    have "q_tokens (CH_STAR # CH_STAR # p) = GStar # GStar # q_tokens p"
      by (simp add: q_tokens.simps [of "_ # _"] ch_def)
    moreover have "q_tokens (CH_STAR # p) = GStar # q_tokens p" by (simp add: q_tokens.simps [of "_ # _"] ch_def)
    ultimately show ?thesis using Cons True by (simp add: gmatch_star_star)
  next
    case False
    then show ?thesis by (simp add: q_tokens.simps [of "CH_STAR # c # p"] ch_def)
  qed
qed

lemma gmatch_star_all: "gmatch [GStar] s"
  by (auto simp: gmatch_star_suffix intro!: exI [of _ "length s"])

lemma agfs_q_pattern_match_gmatch:
  "agfs_q_pattern_match pat s \<longleftrightarrow> gmatch (q_tokens pat) (cstr s)"
proof (induction "length pat" arbitrary: pat s rule: less_induct)
  case less
  note IH = less
  show ?case
  proof (cases "ch pat = 0")
    case True
    then show ?thesis
      by (simp add: agfs_q_pattern_match.simps [of pat] q_tokens.simps [of pat] cstr_ch [of s])
  next
    case nz: False
    then obtain c p where pat: "pat = c # p" "c \<noteq> 0" by (cases pat) (auto simp: ch_def)
    have tl: "agfs_q_pattern_match p t \<longleftrightarrow> gmatch (q_tokens p) (cstr t)" for t using IH [of p] pat by simp
    consider (star) "c = CH_STAR" | (any) "c = CH_QMARK" | (cl) "c = CH_LBRACK"
      | (esc) "c = CH_BSLASH" "ch p \<noteq> 0" 
      | (lit) "c \<noteq> CH_STAR" "c \<noteq> CH_QMARK" "c \<noteq> CH_LBRACK" "\<not> (c = CH_BSLASH \<and> ch p \<noteq> 0)" by blast
    then show ?thesis
    proof cases
      case star
      let ?q = "dropWhile (\<lambda>c. c = CH_STAR) p"
      have m: "agfs_q_pattern_match pat s \<longleftrightarrow> ch ?q = 0 \<or> q_star_match ?q s"
        unfolding pat star by (subst agfs_q_pattern_match.simps) (auto simp: ch_def [of "_ # _"] Let_def)
      have len: "length ?q < length pat" using pat length_dropWhile_le [of _ p] by (simp add: le_imp_less_Suc)
      have st: "ch ?q \<noteq> CH_STAR" by (induction p) (auto simp: ch_def)
      show ?thesis
      proof (cases "ch ?q = 0")
        case True
        then have "q_tokens ?q = []" by (simp add: q_tokens.simps [of ?q])
        then show ?thesis using m True pat star by (simp add: q_tokens_stars gmatch_star_all)
      next
        case False
        then show ?thesis using m pat star q_star_match_suffix [OF IH [OF len] q_tokens_empty [OF False st]]
          by (simp add: q_tokens_stars)
      qed
    next
      case any
      show ?thesis unfolding pat(1) any
        by (subst agfs_q_pattern_match.simps, subst q_tokens.simps)
           (simp add: ch_def [of "_ # _"] cstr_ch [of s] tl)
    next
      case cl
      have r: "agfs_q_pattern_match q t \<longleftrightarrow> gmatch (q_tokens q) (cstr t)" if "q_class p = Some (n, rs, q)" for n rs q t
        using IH [of q t] q_class_length [OF that] pat by simp
      show ?thesis unfolding pat(1) cl
        by (subst agfs_q_pattern_match.simps, subst q_tokens.simps)
           (auto simp: ch_def [of "_ # _"] cstr_ch [of s] agfs_q_class_match_class r split: option.splits)
    next
      case esc
      then obtain d p' where p: "p = d # p'" "d \<noteq> 0" by (cases p) (auto simp: ch_def)
      have "agfs_q_pattern_match p' t \<longleftrightarrow> gmatch (q_tokens p') (cstr t)" for t using IH [of p'] pat p by simp
      then show ?thesis unfolding pat(1) esc(1) p(1) using p(2)
        by (subst agfs_q_pattern_match.simps, subst q_tokens.simps)
           (auto simp: ch_def [of "_ # _"] ch_at_def cstr_ch [of s])
    next
      case lit
      then show ?thesis unfolding pat(1) using pat(2) tl
        by (subst agfs_q_pattern_match.simps, subst q_tokens.simps)
           (auto simp: ch_def [of "_ # _"] ch_at_def cstr_ch [of s])
    qed
  qed
qed

subsection \<open>Decimal texts\<close>

fun dec_digits :: "nat \<Rightarrow> nat list" where
  "dec_digits n = (if n < 10 then [n] else dec_digits (n div 10) @ [n mod 10])"

declare dec_digits.simps [simp del]

definition dec_text :: "nat \<Rightarrow> byte list" where
  "dec_text n = map (\<lambda>d. of_nat (0x30 + d)) (dec_digits n)"

lemma dec_digits_bound: "\<forall>d\<in>set (dec_digits n). d < 10"
  by (induction n rule: dec_digits.induct) (subst dec_digits.simps, auto)

lemma dec_digits_value: "foldl (\<lambda>a d. a * 10 + d) 0 (dec_digits n) = n"
  by (induction n rule: dec_digits.induct) (subst dec_digits.simps, auto)

lemma dec_digits_length: "n < 10 ^ Suc k \<Longrightarrow> length (dec_digits n) \<le> Suc k"
proof (induction n arbitrary: k rule: dec_digits.induct)
  case (1 n)
  show ?case
  proof (cases "n < 10")
    case True
    then show ?thesis by (simp add: dec_digits.simps [of n])
  next
    case False
    then obtain k' where k: "k = Suc k'" using "1.prems" by (cases k) auto
    have "n div 10 < 10 ^ Suc k'" using "1.prems" k by (simp add: less_mult_imp_div_less)
    then show ?thesis using "1.IH" [OF False] False k by (simp add: dec_digits.simps [of n])
  qed
qed

lemma dec_digits_head: "0 < n \<Longrightarrow> hd (dec_digits n) \<noteq> 0 \<and> dec_digits n \<noteq> []"
proof (induction n rule: dec_digits.induct)
  case (1 n)
  then show ?case
    by (cases "n < 10") (simp_all add: dec_digits.simps [of n] hd_append)
qed

lemma q_digit_dec: "d < 10 \<Longrightarrow> q_digit (of_nat (0x30 + d)) = Some d"
proof -
  assume d: "d < 10"
  then have "unat (of_nat (0x30 + d) :: byte) = 0x30 + d" by (simp only: unat_of_nat_byte) simp
  then show ?thesis using d by (simp add: q_digit_def word_le_nat_alt del: of_nat_add)
qed

lemma q_digits_dec:
  assumes "\<forall>d\<in>set ds. d < 10"
  shows "q_digits 10 (map (\<lambda>d. of_nat (0x30 + d)) ds) (of_nat a) = of_nat (foldl (\<lambda>a d. a * 10 + d) a ds)"
  using assms
proof (induction ds arbitrary: a)
  case (Cons d ds)
  have nz: "(of_nat (0x30 + d) :: byte) \<noteq> 0"
  proof
    assume "(of_nat (0x30 + d) :: byte) = 0"
    then have "unat (of_nat (0x30 + d) :: byte) = 0" by simp
    then show False using Cons.prems by (simp only: unat_of_nat_byte) simp
  qed
  have "of_nat a * of_nat 10 + of_nat d = (of_nat (a * 10 + d) :: u64)" by simp
  then show ?case using Cons nz q_digit_dec [of d] by (simp del: of_nat_add of_nat_mult)
qed simp

lemma agfs_q_strtou64_dec: "agfs_q_strtou64 (dec_text n) 0 = of_nat n"
proof (cases "n = 0")
  case True
  then show ?thesis by (simp add: dec_text_def dec_digits.simps agfs_q_strtou64_def q_blanks_def ch_def)
next
  case False
  obtain d ds where d: "dec_digits n = d # ds" "d \<noteq> 0" using dec_digits_head [of n] False by (cases "dec_digits n") auto
  have lt: "d < 10" using dec_digits_bound [of n] d by simp
  let ?c = "of_nat (0x30 + d) :: byte"
  have u: "unat ?c = 0x30 + d" using lt by (simp only: unat_of_nat_byte) simp
  then have c: "?c \<noteq> CH_SP" "?c \<noteq> CH_TAB" "?c \<noteq> CH_PLUS" "?c \<noteq> CH_0"
    using d(2) by (auto simp: word_unat_eq_iff simp del: of_nat_add)
  have t: "dec_text n = ?c # map (\<lambda>d. of_nat (0x30 + d)) ds" by (simp add: dec_text_def d)
  have "agfs_q_strtou64 (dec_text n) 0 = q_digits 10 (dec_text n) (of_nat 0)"
    using c by (simp add: agfs_q_strtou64_def t q_blanks_def ch_def del: of_nat_add of_nat_numeral)
  also have "\<dots> = of_nat n"
    unfolding dec_text_def using q_digits_dec [OF dec_digits_bound, of n 0] by (simp add: dec_digits_value)
  finally show ?thesis .
qed

text \<open>
  A decimal text is read back exactly. For every 64-bit value, the query text of its
  decimal digits gives the eight key bytes of that value for an unsigned 64-bit index.
\<close>

theorem parse_value_decimal:
  assumes "n < 2 ^ 64"
  shows "agfs_q_parse_value fp UINT64_TYPE (dec_text n) = Inr (le_enc 8 n)"
proof -
  have "n < 10 ^ Suc 62" using assms by (rule less_le_trans) simp
  then have "take 63 (dec_text n) = dec_text n" using dec_digits_length [of n 62] by (simp add: dec_text_def)
  moreover have "unat (of_nat n :: u64) = n" using assms by (simp add: unat_of_nat)
  ultimately show ?thesis by (simp add: agfs_q_parse_value_def agfs_q_strtou64_dec)
qed

definition no_fpu :: fpu where
  "no_fpu = \<lparr>fpu_float = (\<lambda>s. []), fpu_double = (\<lambda>s. []), fpu_float_less = (\<lambda>x y. False),
     fpu_double_less = (\<lambda>x y. False)\<rparr>"

theorem parse_value_decimal_witness:
  "agfs_q_parse_value no_fpu UINT64_TYPE (dec_text 4095) = Inr [0xFF, 0x0F, 0, 0, 0, 0, 0, 0]"
proof -
  have "le_enc 8 4095 = [0xFF, 0x0F, 0, 0, 0, 0, 0, 0]" by code_simp
  then show ?thesis using parse_value_decimal [of 4095 no_fpu] by simp
qed

text \<open>
  C21: the wildcard matcher decides the language of the pattern: \<^verbatim>\<open>*\<close> any run, \<^verbatim>\<open>?\<close> one
  character, \<^verbatim>\<open>[...]\<close> a class of characters and ranges with \<^verbatim>\<open>^\<close> or \<^verbatim>\<open>!\<close> for the complement,
  a backslash the next character; in particular the backtracking search terminates on every
  pattern and text.
\<close>

theorem pattern_match_language:
  "agfs_q_pattern_match pat s \<longleftrightarrow> gmatch (q_tokens pat) (cstr s)"
  by (rule agfs_q_pattern_match_gmatch)

subsection \<open>The order of numeric keys\<close>

lemma unat_q_load: "length k = n \<Longrightarrow> n \<le> 8 \<Longrightarrow> unat (q_load n k) = le_val k"
proof -
  assume a: "length k = n" "n \<le> 8"
  have "le_val k < 256 ^ n" using le_val_less [of k] a by simp
  also have "(256::nat) ^ n \<le> 256 ^ 8" using a(2) by (rule power_increasing) simp
  finally show ?thesis using a(1) by (simp add: q_load_def unat_of_nat)
qed

lemma q_cmp_unsigned_sgn:
  assumes "length k = n" "length v = n" "n \<le> 8"
  shows "q_cmp_unsigned n k v = sgn (int (le_val k) - int (le_val v))"
  using unat_q_load [OF assms(1,3)] unat_q_load [OF assms(2,3)]
  by (auto simp: q_cmp_unsigned_def q_cmp3_def Let_def word_less_nat_alt sgn_if)

lemma sint_q_load_small:
  assumes "length k = n" "n < 8"
  shows "sint (q_load n k) = int (le_val k)"
proof -
  have "le_val k < 256 ^ n" using le_val_less [of k] assms by simp
  also have "(256::nat) ^ n \<le> 256 ^ 7" using assms(2) by (intro power_increasing) auto
  finally have "le_val k < 256 ^ 7" .
  then have "int (le_val k) < 2 ^ 63" by simp
  moreover have "uint (q_load n k) = int (unat (q_load n k))" by simp
  then have "uint (q_load n k) = int (le_val k)" using unat_q_load [of k n] assms by simp
  ultimately show ?thesis by (simp add: sint_uint signed_take_bit_int_eq_self)
qed

lemma q_cmp_signed_narrow:
  assumes "length k = n" "length v = n" "n < 8"
  shows "q_cmp_signed n k v = sgn (int (le_val k) - int (le_val v))"
  using sint_q_load_small [OF assms(1,3)] sint_q_load_small [OF assms(2,3)]
  by (auto simp: q_cmp_signed_def q_cmp3_def Let_def sgn_if)

text \<open>
  On the narrow signed index types the keys are ordered by their unsigned value: the sign
  of a stored negative key is lost, because the low bytes are copied into a zeroed 64-bit
  variable without sign extension.
\<close>

theorem narrow_signed_keys_compare_unsigned:
  assumes "dtype \<in> {INT8_TYPE, INT16_TYPE, INT32_TYPE}" "qx_dtype c = dtype"
    and "length key = agfs_qtype_size dtype" "length (qx_key c) = agfs_qtype_size dtype"
  shows "agfs_q_key_matches fp c key \<longleftrightarrow>
    q_op_holds (qx_op c) (sgn (int (le_val key) - int (le_val (qx_key c))))"
  using assms by (auto simp: agfs_q_key_matches_def q_cmp_numeric_def q_cmp_signed_narrow)

text \<open>The stored key \<open>-1\<close> satisfies the equation \<open>attr > 1\<close>.\<close>

theorem narrow_signed_keys_witness:
  "agfs_q_key_matches no_fpu \<lparr>qx_op = OP_GREATER_THAN, qx_value = [0x31], qx_dtype = INT32_TYPE,
     qx_key = le_enc 4 1, qx_use_pattern = False\<rparr> (le_enc 4 (unat (-1 :: u32)))"
proof -
  have "le_val (le_enc 4 (unat (-1 :: u32))) = 4294967295" "le_val (le_enc 4 1) = 1" by code_simp+
  then show ?thesis
    by (subst narrow_signed_keys_compare_unsigned [of INT32_TYPE]) (simp_all add: q_op_holds_def)
qed

text \<open>
  The other integer index types order their keys by value: unsigned keys as unsigned
  numbers, 64-bit signed keys as two's complement numbers.
\<close>

theorem wide_keys_compare_by_value:
  assumes "length key = agfs_qtype_size (qx_dtype c)" "length (qx_key c) = agfs_qtype_size (qx_dtype c)"
  shows "(qx_dtype c \<in> {UINT32_TYPE, UINT64_TYPE} \<longrightarrow>
      agfs_q_key_matches fp c key = q_op_holds (qx_op c) (sgn (int (le_val key) - int (le_val (qx_key c)))))
    \<and> (qx_dtype c = INT64_TYPE \<longrightarrow>
      agfs_q_key_matches fp c key =
        q_op_holds (qx_op c) (sgn (sint (of_nat (le_val key) :: u64) - sint (of_nat (le_val (qx_key c)) :: u64))))"
  using assms
  by (auto simp: agfs_q_key_matches_def q_cmp_numeric_def q_cmp_unsigned_sgn q_cmp_signed_def q_load_def
      q_cmp3_def Let_def sgn_if)

theorem wide_keys_compare_by_value_witness:
  "\<not> agfs_q_key_matches no_fpu \<lparr>qx_op = OP_GREATER_THAN, qx_value = [0x31], qx_dtype = INT64_TYPE,
     qx_key = le_enc 8 1, qx_use_pattern = False\<rparr> (le_enc 8 (unat (-1 :: u64)))"
proof -
  let ?c = "\<lparr>qx_op = OP_GREATER_THAN, qx_value = [0x31], qx_dtype = INT64_TYPE,
     qx_key = le_enc 8 1, qx_use_pattern = False\<rparr>"
  have "sgn (sint (of_nat (le_val (le_enc 8 (unat (-1 :: u64)))) :: u64) - sint (of_nat (le_val (le_enc 8 1)) :: u64)) = -1"
    by code_simp
  then show ?thesis using wide_keys_compare_by_value [of "le_enc 8 (unat (-1 :: u64))" ?c no_fpu]
    by (simp add: q_op_holds_def)
qed

end
