(* ===== verification/Query_Set.thy ===== *)
theory Query_Set
  imports Prelude
begin

text \<open>
  The inode sets of the query engine, \<^verbatim>\<open>fs/agfs/query.c\<close>: a sorted sequence of inode
  numbers kept in a linked list of fixed-size chunks, with insertion by binary search and
  cascading overflow, intersection in place and union into a fresh set.

  A set is the list of its chunks in link order; the \<^verbatim>\<open>tail\<close> pointer, which the code only
  writes, is the last of them. A chunk is its array of \<open>1021\<close> slots and its count. The
  outcomes of the successive \<^verbatim>\<open>kmalloc\<close> calls are a list of booleans, consumed from the
  front; when it is exhausted every further allocation succeeds.
\<close>

subsection \<open>Data\<close>

definition AGFS_QCHUNK_CAP :: nat where
  "AGFS_QCHUNK_CAP = 1020"

record agfs_qchunk =
  qc_inos :: "u32 list"
  qc_count :: nat

record agfs_qset =
  qs_chunks :: "agfs_qchunk list"
  qs_count :: nat

definition agfs_qset_empty :: agfs_qset where
  "agfs_qset_empty = \<lparr>qs_chunks = [], qs_count = 0\<rparr>"

definition agfs_qset_free :: "agfs_qset \<Rightarrow> agfs_qset" where
  "agfs_qset_free s = s\<lparr>qs_chunks := [], qs_count := 0\<rparr>"

text \<open>A fresh chunk: the slots hold whatever the memory held, here zeros; they are written before they are read.\<close>

definition agfs_qchunk_new :: agfs_qchunk where
  "agfs_qchunk_new = \<lparr>qc_inos = replicate (AGFS_QCHUNK_CAP + 1) 0, qc_count = 0\<rparr>"

subsection \<open>Insertion\<close>

function qchunk_bsearch_loop :: "u32 list \<Rightarrow> u32 \<Rightarrow> nat \<Rightarrow> nat \<Rightarrow> nat" where
  "qchunk_bsearch_loop inos ino lo hi =
     (if lo < hi then
        (let mid = (lo + hi) div 2 in
         if inos ! mid < ino then qchunk_bsearch_loop inos ino (mid + 1) hi
         else qchunk_bsearch_loop inos ino lo mid)
      else lo)"
  by pat_completeness auto
termination
  by (relation "measure (\<lambda>(inos, ino, lo, hi). hi - lo)") auto

declare qchunk_bsearch_loop.simps [simp del]

definition agfs_qchunk_bsearch :: "agfs_qchunk \<Rightarrow> u32 \<Rightarrow> nat" where
  "agfs_qchunk_bsearch c ino = qchunk_bsearch_loop (qc_inos c) ino 0 (qc_count c)"

text \<open>The \<^verbatim>\<open>memmove\<close> of the entries from \<open>off\<close> on by one slot, and the store at \<open>off\<close>.\<close>

definition qchunk_shift :: "agfs_qchunk \<Rightarrow> nat \<Rightarrow> u32 \<Rightarrow> agfs_qchunk" where
  "qchunk_shift c off ino =
     c\<lparr>qc_inos := take off (qc_inos c) @ ino # take (qc_count c - off) (drop off (qc_inos c))
                  @ drop (qc_count c + 1) (qc_inos c),
       qc_count := qc_count c + 1\<rparr>"

text \<open>
  \<^verbatim>\<open>agfs_qchunk_insert\<close> on the chunks from the one inserted into: the new chunks, the new
  total, the status and the remaining allocations.
\<close>

function agfs_qchunk_insert ::
    "mem \<Rightarrow> agfs_qchunk list \<Rightarrow> nat \<Rightarrow> nat \<Rightarrow> u32 \<Rightarrow> agfs_qchunk list \<times> nat \<times> status \<times> mem" where
  "agfs_qchunk_insert m [] cnt off ino = ([], cnt, None, m)"
| "agfs_qchunk_insert m (c # cs) cnt off ino =
     (let c' = qchunk_shift c off ino in
      if qc_count c' \<le> AGFS_QCHUNK_CAP then (c' # cs, cnt + 1, None, m)
      else
        (let tailv = qc_inos c' ! AGFS_QCHUNK_CAP;
             c'' = c'\<lparr>qc_count := AGFS_QCHUNK_CAP\<rparr>
         in case cs of
              [] \<Rightarrow>
                (if \<not> kmalloc_ok m then ([c''], cnt, Some ENOMEM, kmalloc_rest m)
                 else (let r = agfs_qchunk_insert (kmalloc_rest m) [agfs_qchunk_new] cnt 0 tailv
                       in (c'' # fst r, snd r)))
            | _ # _ \<Rightarrow>
                (let r = agfs_qchunk_insert m cs cnt 0 tailv in (c'' # fst r, snd r))))"
  by pat_completeness auto
termination
  by (relation "measures [\<lambda>(m, cs, cnt, off, ino). length cs,
        \<lambda>(m, cs, cnt, off, ino). case cs of [] \<Rightarrow> 0 | c # _ \<Rightarrow> qc_count c]")
     (auto simp: agfs_qchunk_new_def qchunk_shift_def AGFS_QCHUNK_CAP_def)

text \<open>The search for the chunk, and the insertion there.\<close>

fun qset_add_loop ::
    "mem \<Rightarrow> agfs_qchunk list \<Rightarrow> nat \<Rightarrow> u32 \<Rightarrow> agfs_qchunk list \<times> nat \<times> status \<times> mem" where
  "qset_add_loop m [] cnt ino = ([], cnt, None, m)"
| "qset_add_loop m (c # cs) cnt ino =
     (let mx = qc_inos c ! (qc_count c - 1) in
      if cs \<noteq> [] \<and> mx < ino then
        (let r = qset_add_loop m cs cnt ino in (c # fst r, snd r))
      else if mx < ino then
        (if qc_count c < AGFS_QCHUNK_CAP then
           (c\<lparr>qc_inos := (qc_inos c)[qc_count c := ino], qc_count := qc_count c + 1\<rparr> # cs,
            cnt + 1, None, m)
         else if \<not> kmalloc_ok m then (c # cs, cnt, Some ENOMEM, kmalloc_rest m)
         else (let r = agfs_qchunk_insert (kmalloc_rest m) [agfs_qchunk_new] cnt 0 ino
               in (c # fst r, snd r)))
      else
        (let off = agfs_qchunk_bsearch c ino in
         if off < qc_count c \<and> qc_inos c ! off = ino then (c # cs, cnt, None, m)
         else agfs_qchunk_insert m (c # cs) cnt off ino))"

definition agfs_qset_add :: "mem \<Rightarrow> agfs_qset \<Rightarrow> u32 \<Rightarrow> agfs_qset \<times> status \<times> mem" where
  "agfs_qset_add m s ino =
     (if ino = 0 then (s, None, m)
      else
        (case qs_chunks s of
           [] \<Rightarrow>
             (if \<not> kmalloc_ok m then (s, Some ENOMEM, kmalloc_rest m)
              else (s\<lparr>qs_chunks := [agfs_qchunk_new\<lparr>qc_inos := (qc_inos agfs_qchunk_new)[0 := ino],
                                                     qc_count := 1\<rparr>],
                      qs_count := 1\<rparr>, None, kmalloc_rest m))
         | _ # _ \<Rightarrow>
             (let (cs, cnt, st, m') = qset_add_loop m (qs_chunks s) (qs_count s) ino
              in (s\<lparr>qs_chunks := cs, qs_count := cnt\<rparr>, st, m'))))"

subsection \<open>Intersection\<close>

text \<open>
  A cursor is a chunk position and a slot: the pointers \<^verbatim>\<open>c1\<close> and \<^verbatim>\<open>i\<close> of the code, where a
  position past the last chunk is the null pointer. \<open>qcursor\<close> skips the exhausted chunks.
\<close>

function qcursor :: "agfs_qchunk list \<Rightarrow> nat \<Rightarrow> nat \<Rightarrow> nat \<times> nat" where
  "qcursor cs k i =
     (if k < length cs \<and> qc_count (cs ! k) \<le> i then qcursor cs (Suc k) 0 else (k, i))"
  by pat_completeness auto
termination
  by (relation "measure (\<lambda>(cs, k, i). length cs - k)") auto

declare qcursor.simps [simp del]

definition qread :: "agfs_qchunk list \<Rightarrow> nat \<Rightarrow> nat \<Rightarrow> u32" where
  "qread cs k i = qc_inos (cs ! k) ! i"

definition qwrite :: "agfs_qchunk list \<Rightarrow> nat \<Rightarrow> nat \<Rightarrow> u32 \<Rightarrow> agfs_qchunk list" where
  "qwrite cs k i v = cs[k := (cs ! k)\<lparr>qc_inos := (qc_inos (cs ! k))[i := v]\<rparr>]"

text \<open>
  The state of the loop of \<^verbatim>\<open>agfs_qset_and\<close>: the chunks of the first set, which are read and
  overwritten, the two cursors, the write position, the last chunk written and the number
  of entries written.
\<close>

record qand =
  qa_cs :: "agfs_qchunk list"
  qa_k1 :: nat
  qa_i :: nat
  qa_k2 :: nat
  qa_j :: nat
  qa_w :: nat
  qa_wi :: nat
  qa_lastw :: "nat option"
  qa_n :: nat

definition qand_step :: "agfs_qchunk list \<Rightarrow> qand \<Rightarrow> qand option" where
  "qand_step ds a =
     (if \<not> (qa_k1 a < length (qa_cs a) \<and> qa_k2 a < length ds) then None
      else
        (let (k1, i) = qcursor (qa_cs a) (qa_k1 a) (qa_i a);
             (k2, j) = qcursor ds (qa_k2 a) (qa_j a)
         in if \<not> (k1 < length (qa_cs a) \<and> k2 < length ds) then None
            else
              (let x = qread (qa_cs a) k1 i; y = qread ds k2 j in
               if x < y then Some (a\<lparr>qa_k1 := k1, qa_i := i + 1, qa_k2 := k2, qa_j := j\<rparr>)
               else if x > y then Some (a\<lparr>qa_k1 := k1, qa_i := i, qa_k2 := k2, qa_j := j + 1\<rparr>)
               else
                 (let (w, wi) = (if qa_wi a = AGFS_QCHUNK_CAP then (qa_w a + 1, 0)
                                 else (qa_w a, qa_wi a))
                  in Some (a\<lparr>qa_cs := qwrite (qa_cs a) w wi x, qa_k1 := k1, qa_i := i + 1,
                             qa_k2 := k2, qa_j := j + 1, qa_w := w, qa_wi := wi + 1,
                             qa_lastw := Some w, qa_n := qa_n a + 1\<rparr>)))))"

text \<open>The entries a cursor has left, by the counts of the chunks: the loops end because it shrinks.\<close>

definition qremain :: "agfs_qchunk list \<Rightarrow> nat \<Rightarrow> nat \<Rightarrow> nat" where
  "qremain cs k i =
     (if k < length cs then (qc_count (cs ! k) - i) + sum_list (map qc_count (drop (Suc k) cs)) else 0)"

lemma qremain_cursor: "qcursor cs k i = (k', i') \<Longrightarrow> qremain cs k' i' = qremain cs k i"
proof (induction cs k i rule: qcursor.induct)
  case (1 cs k i)
  show ?case
  proof (cases "k < length cs \<and> qc_count (cs ! k) \<le> i")
    case True
    then have "qremain cs (Suc k) 0 = qremain cs k i"
      by (cases "Suc k < length cs") (auto simp: qremain_def Cons_nth_drop_Suc [symmetric])
    then show ?thesis using 1 True by (subst (asm) qcursor.simps) simp
  next
    case False
    then show ?thesis using 1(2) by (subst (asm) qcursor.simps) auto
  qed
qed

lemma qcursor_valid: "qcursor cs k i = (k', i') \<Longrightarrow> k' < length cs \<Longrightarrow> i' < qc_count (cs ! k')"
  by (induction cs k i rule: qcursor.induct) (subst (asm) (2) qcursor.simps, auto split: if_splits)

lemma qremain_Suc:
  "k < length cs \<Longrightarrow> i < qc_count (cs ! k) \<Longrightarrow> qremain cs k i = Suc (qremain cs k (Suc i))"
  by (simp add: qremain_def)

lemma qwrite_counts [simp]:
  "length (qwrite cs k i v) = length cs" "map qc_count (qwrite cs k i v) = map qc_count cs"
  by (simp_all add: qwrite_def map_update list_update_same_conv nth_map [symmetric] del: nth_map)
     (metis list_update_beyond list_update_id nth_map not_less length_map)

lemma qremain_qwrite [simp]: "qremain (qwrite cs w wi v) k i = qremain cs k i"
proof -
  have "map qc_count (drop (Suc k) (qwrite cs w wi v)) = map qc_count (drop (Suc k) cs)"
    by (metis drop_map qwrite_counts(2))
  moreover have "qc_count (qwrite cs w wi v ! k) = qc_count (cs ! k)" if "k < length cs"
    using that by (metis nth_map qwrite_counts)
  ultimately show ?thesis by (simp add: qremain_def)
qed

definition qand_measure :: "agfs_qchunk list \<Rightarrow> qand \<Rightarrow> nat" where
  "qand_measure ds a = qremain (qa_cs a) (qa_k1 a) (qa_i a) + qremain ds (qa_k2 a) (qa_j a)"

lemma qand_step_measure:
  assumes "qand_step ds a = Some a'"
  shows "qand_measure ds a' < qand_measure ds a"
proof -
  obtain k1 i where c1: "qcursor (qa_cs a) (qa_k1 a) (qa_i a) = (k1, i)" by fastforce
  obtain k2 j where c2: "qcursor ds (qa_k2 a) (qa_j a) = (k2, j)" by fastforce
  have v: "k1 < length (qa_cs a)" "k2 < length ds"
    using assms by (auto simp: qand_step_def c1 c2 split: if_splits)
  note r1 = qremain_cursor [OF c1] qremain_Suc [OF v(1) qcursor_valid [OF c1 v(1)]]
  note r2 = qremain_cursor [OF c2] qremain_Suc [OF v(2) qcursor_valid [OF c2 v(2)]]
  show ?thesis using assms r1 r2
    by (auto simp: qand_step_def qand_measure_def c1 c2 Let_def split: if_splits)
qed

function qand_loop :: "agfs_qchunk list \<Rightarrow> qand \<Rightarrow> qand" where
  "qand_loop ds a = (case qand_step ds a of None \<Rightarrow> a | Some a' \<Rightarrow> qand_loop ds a')"
  by pat_completeness auto
termination
  by (relation "measure (\<lambda>(ds, a). qand_measure ds a)") (auto simp: qand_step_measure)

declare qand_loop.simps [simp del]

definition agfs_qset_and :: "agfs_qset \<Rightarrow> agfs_qset \<Rightarrow> agfs_qset" where
  "agfs_qset_and s1 s2 =
     (let a = qand_loop (qs_chunks s2)
            \<lparr>qa_cs = qs_chunks s1, qa_k1 = 0, qa_i = 0, qa_k2 = 0, qa_j = 0, qa_w = 0, qa_wi = 0,
             qa_lastw = None, qa_n = 0\<rparr>
      in case qa_lastw a of
           None \<Rightarrow> agfs_qset_free s1
         | Some lastw \<Rightarrow>
             s1\<lparr>qs_chunks := take (Suc lastw)
                    ((qa_cs a)[lastw := (qa_cs a ! lastw)\<lparr>qc_count := qa_wi a\<rparr>]),
                qs_count := qa_n a\<rparr>)"

subsection \<open>Union\<close>

text \<open>
  The state of \<^verbatim>\<open>agfs_qset_or\<close>: the two cursors, the chunks of the result (the last one is
  \<^verbatim>\<open>tail\<close>, whose count is stored when it is left), the write slot and the allocations left.
\<close>

record qor =
  qo_k1 :: nat
  qo_i :: nat
  qo_k2 :: nat
  qo_j :: nat
  qo_out :: "agfs_qchunk list"
  qo_wi :: nat
  qo_n :: nat
  qo_mem :: mem

definition qset_count_last :: "agfs_qchunk list \<Rightarrow> nat \<Rightarrow> agfs_qchunk list" where
  "qset_count_last cs wi =
     (if cs = [] then [] else cs[length cs - 1 := (last cs)\<lparr>qc_count := wi\<rparr>])"

definition qor_emit :: "u32 \<Rightarrow> qor \<Rightarrow> qor result" where
  "qor_emit v a =
     (if qo_out a = [] \<or> qo_wi a = AGFS_QCHUNK_CAP then
        (if \<not> kmalloc_ok (qo_mem a) then Inl ENOMEM
         else Inr (a\<lparr>qo_out := qwrite (qset_count_last (qo_out a) (qo_wi a) @ [agfs_qchunk_new])
                                (length (qo_out a)) 0 v,
                     qo_wi := 1, qo_n := qo_n a + 1, qo_mem := kmalloc_rest (qo_mem a)\<rparr>))
      else Inr (a\<lparr>qo_out := qwrite (qo_out a) (length (qo_out a) - 1) (qo_wi a) v,
                  qo_wi := qo_wi a + 1, qo_n := qo_n a + 1\<rparr>))"

definition qor_pick ::
    "agfs_qchunk list \<Rightarrow> agfs_qchunk list \<Rightarrow> nat \<Rightarrow> nat \<Rightarrow> nat \<Rightarrow> nat \<Rightarrow> u32 \<times> nat \<times> nat" where
  "qor_pick cs ds k1 i k2 j =
     (let c1 = k1 < length cs; c2 = k2 < length ds in
      if c1 \<and> (\<not> c2 \<or> qread cs k1 i < qread ds k2 j) then (qread cs k1 i, i + 1, j)
      else if c2 \<and> (\<not> c1 \<or> qread ds k2 j < qread cs k1 i) then (qread ds k2 j, i, j + 1)
      else (qread cs k1 i, i + 1, j + 1))"

definition qor_step :: "agfs_qchunk list \<Rightarrow> agfs_qchunk list \<Rightarrow> qor \<Rightarrow> qor option result" where
  "qor_step cs ds a =
     (if \<not> (qo_k1 a < length cs \<or> qo_k2 a < length ds) then Inr None
      else
        (let (k1, i) = qcursor cs (qo_k1 a) (qo_i a);
             (k2, j) = qcursor ds (qo_k2 a) (qo_j a)
         in if \<not> k1 < length cs \<and> \<not> k2 < length ds then Inr None
            else
              (let (v, i', j') = qor_pick cs ds k1 i k2 j in
               case qor_emit v (a\<lparr>qo_k1 := k1, qo_i := i', qo_k2 := k2, qo_j := j'\<rparr>) of
                 Inl e \<Rightarrow> Inl e
               | Inr a' \<Rightarrow> Inr (Some a'))))"

definition qor_measure :: "agfs_qchunk list \<Rightarrow> agfs_qchunk list \<Rightarrow> qor \<Rightarrow> nat" where
  "qor_measure cs ds a = qremain cs (qo_k1 a) (qo_i a) + qremain ds (qo_k2 a) (qo_j a)"

lemma qor_emit_cursors:
  "qor_emit v a = Inr a' \<Longrightarrow>
     qo_k1 a' = qo_k1 a \<and> qo_i a' = qo_i a \<and> qo_k2 a' = qo_k2 a \<and> qo_j a' = qo_j a"
  by (auto simp: qor_emit_def split: if_splits)

lemma qor_step_measure:
  assumes "qor_step cs ds a = Inr (Some a')"
  shows "qor_measure cs ds a' < qor_measure cs ds a"
proof -
  obtain k1 i where c1: "qcursor cs (qo_k1 a) (qo_i a) = (k1, i)" by fastforce
  obtain k2 j where c2: "qcursor ds (qo_k2 a) (qo_j a) = (k2, j)" by fastforce
  have v: "k1 < length cs \<or> k2 < length ds"
    using assms by (auto simp: qor_step_def c1 c2 split: if_splits)
  obtain x i' j' where p: "qor_pick cs ds k1 i k2 j = (x, i', j')" using prod_cases3 by blast
  have a': "qo_k1 a' = k1" "qo_i a' = i'" "qo_k2 a' = k2" "qo_j a' = j'"
    using assms by (auto simp: qor_step_def c1 c2 p dest!: qor_emit_cursors split: if_splits sum.splits)
  note r1 = qremain_cursor [OF c1] qremain_Suc [of k1 cs i] qcursor_valid [OF c1]
  note r2 = qremain_cursor [OF c2] qremain_Suc [of k2 ds j] qcursor_valid [OF c2]
  show ?thesis using p v r1 r2
    by (auto simp: qor_measure_def a' qor_pick_def Let_def split: if_splits)
qed

function qor_loop :: "agfs_qchunk list \<Rightarrow> agfs_qchunk list \<Rightarrow> qor \<Rightarrow> qor result" where
  "qor_loop cs ds a =
     (case qor_step cs ds a of
        Inl e \<Rightarrow> Inl e
      | Inr None \<Rightarrow> Inr a
      | Inr (Some a') \<Rightarrow> qor_loop cs ds a')"
  by pat_completeness auto
termination
  by (relation "measure (\<lambda>(cs, ds, a). qor_measure cs ds a)") (auto simp: qor_step_measure)

definition agfs_qset_or :: "mem \<Rightarrow> agfs_qset \<Rightarrow> agfs_qset \<Rightarrow> (agfs_qset \<times> mem) result" where
  "agfs_qset_or m s1 s2 =
     (case qor_loop (qs_chunks s1) (qs_chunks s2)
             \<lparr>qo_k1 = 0, qo_i = 0, qo_k2 = 0, qo_j = 0, qo_out = [], qo_wi = 0, qo_n = 0, qo_mem = m\<rparr> of
        Inl e \<Rightarrow> Inl e
      | Inr a \<Rightarrow> Inr (\<lparr>qs_chunks = qset_count_last (qo_out a) (qo_wi a), qs_count = qo_n a\<rparr>, qo_mem a))"

declare qor_loop.simps [simp del]

subsection \<open>Abstraction and invariant\<close>

definition qlive :: "agfs_qchunk \<Rightarrow> u32 list" where
  "qlive c = take (qc_count c) (qc_inos c)"

definition qflat :: "agfs_qchunk list \<Rightarrow> u32 list" where
  "qflat cs = concat (map qlive cs)"

definition qchunk_ok :: "agfs_qchunk \<Rightarrow> bool" where
  "qchunk_ok c \<longleftrightarrow> length (qc_inos c) = AGFS_QCHUNK_CAP + 1 \<and> qc_count c \<le> AGFS_QCHUNK_CAP"

definition qpacked :: "agfs_qchunk list \<Rightarrow> bool" where
  "qpacked cs \<longleftrightarrow> list_all qchunk_ok cs \<and> list_all (\<lambda>c. qc_count c = AGFS_QCHUNK_CAP) (butlast cs)"

definition qlast_used :: "agfs_qchunk list \<Rightarrow> bool" where
  "qlast_used cs \<longleftrightarrow> (cs \<noteq> [] \<longrightarrow> 0 < qc_count (last cs))"

definition qs_elems :: "agfs_qset \<Rightarrow> u32 list" where
  "qs_elems s = qflat (qs_chunks s)"

definition qs_ok :: "agfs_qset \<Rightarrow> bool" where
  "qs_ok s \<longleftrightarrow> qpacked (qs_chunks s) \<and> qlast_used (qs_chunks s) \<and> sorted_wrt (<) (qs_elems s)
     \<and> 0 \<notin> set (qs_elems s) \<and> qs_count s = length (qs_elems s)"

lemma cap_pos: "0 < AGFS_QCHUNK_CAP" "1 \<le> AGFS_QCHUNK_CAP"
  by (simp_all add: AGFS_QCHUNK_CAP_def)

lemma qflat_simps [simp]: "qflat [] = []" "qflat (c # cs) = qlive c @ qflat cs"
  "qflat (cs @ ds) = qflat cs @ qflat ds"
  by (simp_all add: qflat_def)

lemma length_qlive [simp]: "qchunk_ok c \<Longrightarrow> length (qlive c) = qc_count c"
  by (simp add: qlive_def qchunk_ok_def)

lemma qpacked_Cons:
  "qpacked (c # cs) \<longleftrightarrow> qchunk_ok c \<and> (cs \<noteq> [] \<longrightarrow> qc_count c = AGFS_QCHUNK_CAP) \<and> qpacked cs"
  by (auto simp: qpacked_def)

lemma qpacked_Nil [simp]: "qpacked []"
  by (simp add: qpacked_def)

lemma qlast_used_Cons [simp]: "qlast_used (c # cs) \<longleftrightarrow> (if cs = [] then 0 < qc_count c else qlast_used cs)"
  by (simp add: qlast_used_def)

lemma qlast_used_Nil [simp]: "qlast_used []"
  by (simp add: qlast_used_def)

lemma qchunk_new_ok [simp]: "qchunk_ok agfs_qchunk_new" "qlive agfs_qchunk_new = []"
  "qc_count agfs_qchunk_new = 0"
  by (simp_all add: qchunk_ok_def agfs_qchunk_new_def qlive_def)

lemma qlive_nth: "i < qc_count c \<Longrightarrow> qlive c ! i = qc_inos c ! i"
  by (simp add: qlive_def)

subsection \<open>Insertion\<close>

lemma qchunk_shift_live:
  assumes "qchunk_ok c" "off \<le> qc_count c"
  shows "qlive (qchunk_shift c off ino) = take off (qlive c) @ ino # drop off (qlive c)"
    "length (qc_inos (qchunk_shift c off ino)) = AGFS_QCHUNK_CAP + 1"
    "qc_count (qchunk_shift c off ino) = qc_count c + 1"
  using assms by (auto simp: qchunk_ok_def qchunk_shift_def qlive_def min_def drop_take Suc_diff_le)

lemma qchunk_overflow:
  assumes "length (qc_inos c) = AGFS_QCHUNK_CAP + 1" "qc_count c = AGFS_QCHUNK_CAP + 1"
  shows "qlive c = qlive (c\<lparr>qc_count := AGFS_QCHUNK_CAP\<rparr>) @ [qc_inos c ! AGFS_QCHUNK_CAP]"
  using assms take_Suc_conv_app_nth [of AGFS_QCHUNK_CAP "qc_inos c"] by (simp add: qlive_def)

lemma agfs_qchunk_insert_flat:
  assumes "agfs_qchunk_insert m cs cnt off ino = (cs', cnt', None, m')"
    and "qpacked cs" "cs \<noteq> []" "off \<le> qc_count (hd cs)"
  shows "qflat cs' = take off (qflat cs) @ ino # drop off (qflat cs)
    \<and> qpacked cs' \<and> qlast_used cs' \<and> cs' \<noteq> [] \<and> cnt' = cnt + 1"
  using assms
proof (induction m cs cnt off ino arbitrary: cs' rule: agfs_qchunk_insert.induct)
  case (2 m c cs cnt off ino)
  let ?s = "qchunk_shift c off ino" 
  let ?t = "?s\<lparr>qc_count := AGFS_QCHUNK_CAP\<rparr>" and ?v = "qc_inos ?s ! AGFS_QCHUNK_CAP"
  have c: "qchunk_ok c" "cs \<noteq> [] \<Longrightarrow> qc_count c = AGFS_QCHUNK_CAP" "qpacked cs" "off \<le> qc_count c"
    using 2 by (auto simp: qpacked_Cons)
  note s = qchunk_shift_live [OF c(1,4), of ino]
  have fl: "take off (qflat (c # cs)) @ ino # drop off (qflat (c # cs)) = qlive ?s @ qflat cs"
    using c(1,4) by (simp add: s)
  show ?case
  proof (cases "qc_count ?s \<le> AGFS_QCHUNK_CAP")
    case True
    with c(2) s have "cs = []" by auto
    with True 2(3) show ?thesis using c s fl by (auto simp: Let_def qpacked_Cons qchunk_ok_def)
  next
    case False
    then have full: "qc_count ?s = AGFS_QCHUNK_CAP + 1" using c(1) s(3) by (simp add: qchunk_ok_def)
    have t: "qlive ?s = qlive ?t @ [?v]" using qchunk_overflow [OF s(2) full] .
    have tok: "qchunk_ok ?t" "qc_count ?t = AGFS_QCHUNK_CAP" using s(2) by (simp_all add: qchunk_ok_def)
    show ?thesis
    proof (cases cs)
      case Nil
      with 2(3) False have al: "kmalloc_ok m" by (auto simp: Let_def split: if_splits)
      obtain r where r: "agfs_qchunk_insert (kmalloc_rest m) [agfs_qchunk_new] cnt 0 ?v = (r, cnt', None, m')"
        and cs': "cs' = ?t # r"
        using 2(3) False Nil al by (auto simp: Let_def prod_eq_iff)
      have "qflat r = [?v] \<and> qpacked r \<and> qlast_used r \<and> r \<noteq> [] \<and> cnt' = cnt + 1"
        using 2(1) [OF refl False refl refl Nil _ r] al by (simp add: qpacked_Cons)
      then show ?thesis using fl t tok by (auto simp: cs' Nil qpacked_Cons)
    next
      case (Cons d ds)
      obtain r where r: "agfs_qchunk_insert m cs cnt 0 ?v = (r, cnt', None, m')" and cs': "cs' = ?t # r"
        using 2(3) False Cons by (auto simp: Let_def prod_eq_iff)
      have "qflat r = ?v # qflat cs \<and> qpacked r \<and> qlast_used r \<and> r \<noteq> [] \<and> cnt' = cnt + 1"
        using 2(2) [OF refl False refl refl Cons r] c(3) Cons by simp
      then show ?thesis using fl t tok by (auto simp: cs' qpacked_Cons)
    qed
  qed
qed simp

lemma sorted_nth_le:
  assumes "sorted_wrt (<) (xs :: u32 list)" "i \<le> j" "j < length xs"
  shows "xs ! i \<le> xs ! j"
proof (cases "i = j")
  case False
  then show ?thesis using assms by (intro order.strict_implies_order) (simp add: sorted_wrt_iff_nth_less)
qed simp

lemma qchunk_bsearch_loop_bounds:
  assumes "sorted_wrt (<) (take n inos)" "lo \<le> hi" "hi \<le> n" "n \<le> length inos"
    and "\<forall>k<lo. inos ! k < ino" "\<forall>k. hi \<le> k \<and> k < n \<longrightarrow> ino \<le> inos ! k"
  shows "qchunk_bsearch_loop inos ino lo hi \<le> n
    \<and> (\<forall>k<qchunk_bsearch_loop inos ino lo hi. inos ! k < ino)
    \<and> (\<forall>k. qchunk_bsearch_loop inos ino lo hi \<le> k \<and> k < n \<longrightarrow> ino \<le> inos ! k)"
  using assms
proof (induction inos ino lo hi rule: qchunk_bsearch_loop.induct)
  case (1 inos ino lo hi)
  show ?case
  proof (cases "lo < hi")
    case True
    let ?m = "(lo + hi) div 2"
    have m: "lo \<le> ?m" "?m < hi" "?m < n" using True 1(5) by auto
    have le: "inos ! k \<le> inos ! l" if "k \<le> l" "l < n" for k l
      using that 1(3) 1(6) by (cases "k = l") (auto simp: sorted_wrt_iff_nth_less intro: order.strict_implies_order)
    show ?thesis
    proof (cases "inos ! ?m < ino")
      case lt: True
      have "inos ! k < ino" if "k < ?m + 1" for k
        using le [of k ?m] m(3) lt that by (simp add: less_Suc_eq_le)
      then have "\<forall>k<?m + 1. inos ! k < ino" by blast
      moreover have e: "qchunk_bsearch_loop inos ino lo hi = qchunk_bsearch_loop inos ino (?m + 1) hi"
        by (subst qchunk_bsearch_loop.simps) (simp only: True lt if_True Let_def)
      moreover have "?m + 1 \<le> hi" using m(2) by simp
      ultimately show ?thesis unfolding e using 1(1) [OF True refl lt 1(3) _ 1(5,6) _ 1(8)] by blast
    next
      case ge: False
      have "\<forall>k. ?m \<le> k \<and> k < n \<longrightarrow> ino \<le> inos ! k" using le m ge by (meson not_less order_trans)
      moreover have e: "qchunk_bsearch_loop inos ino lo hi = qchunk_bsearch_loop inos ino lo ?m"
        by (subst qchunk_bsearch_loop.simps) (simp only: True ge if_True if_False Let_def)
      moreover have "?m \<le> n" using m(3) by simp
      ultimately show ?thesis unfolding e using 1(2) [OF True refl ge 1(3) m(1) _ 1(6,7)] by blast
    qed
  next
    case False
    then have "qchunk_bsearch_loop inos ino lo hi = lo" by (subst qchunk_bsearch_loop.simps) simp
    then show ?thesis using False 1(3-8) by auto
  qed
qed

lemma agfs_qchunk_bsearch_bounds:
  fixes ino
  assumes "qchunk_ok c" "sorted_wrt (<) (qlive c)"
  defines "off \<equiv> agfs_qchunk_bsearch c ino"
  shows "off \<le> qc_count c" "\<forall>x\<in>set (take off (qlive c)). x < ino" "\<forall>x\<in>set (drop off (qlive c)). ino \<le> x"
proof -
  have v: "\<forall>k. qc_count c \<le> k \<and> k < qc_count c \<longrightarrow> ino \<le> qc_inos c ! k" by auto
  have *: "off \<le> qc_count c" "\<forall>k<off. qc_inos c ! k < ino" "\<forall>k. off \<le> k \<and> k < qc_count c \<longrightarrow> ino \<le> qc_inos c ! k"
    using qchunk_bsearch_loop_bounds [of "qc_count c" "qc_inos c" 0 "qc_count c" ino, OF _ _ _ _ _ v] assms
    by (auto simp: agfs_qchunk_bsearch_def qlive_def qchunk_ok_def)
  then show "off \<le> qc_count c" "\<forall>x\<in>set (take off (qlive c)). x < ino"
    "\<forall>x\<in>set (drop off (qlive c)). ino \<le> x"
    using assms(1) by (auto simp: in_set_conv_nth qlive_nth)
qed

lemma qpacked_hd_count: "qpacked (c # cs) \<Longrightarrow> qlast_used (c # cs) \<Longrightarrow> 0 < qc_count c"
  using cap_pos by (auto simp: qpacked_Cons split: if_splits)

lemma qlive_last: "qchunk_ok c \<Longrightarrow> 0 < qc_count c \<Longrightarrow> last (qlive c) = qc_inos c ! (qc_count c - 1)"
  by (subst last_conv_nth) (auto simp: qlive_nth qlive_def qchunk_ok_def)

lemma sorted_last_max: "sorted_wrt (<) xs \<Longrightarrow> x \<in> set xs \<Longrightarrow> x \<le> (last xs :: u32)"
  by (induction xs) (auto intro: order.strict_implies_order)

lemma sorted_insert_at:
  assumes "sorted_wrt (<) xs" "\<forall>x\<in>set (take off xs). x < (v::u32)" "\<forall>x\<in>set (drop off xs). v < x"
  shows "sorted_wrt (<) (take off xs @ v # drop off xs)"
    "set (take off xs @ v # drop off xs) = insert v (set xs)"
proof -
  have "sorted_wrt (<) (take off xs @ drop off xs)" using assms(1) by simp
  then show "sorted_wrt (<) (take off xs @ v # drop off xs)"
    using assms(2,3) unfolding sorted_wrt_append by auto
  show "set (take off xs @ v # drop off xs) = insert v (set xs)"
    by (metis append_take_drop_id list.simps(15) set_append Un_insert_right)
qed

lemma qset_add_loop_flat:
  assumes "qset_add_loop m cs cnt ino = (cs', cnt', None, m')"
    and "qpacked cs" "qlast_used cs" "cs \<noteq> []" "sorted_wrt (<) (qflat cs)"
  shows "qpacked cs' \<and> qlast_used cs' \<and> cs' \<noteq> [] \<and> sorted_wrt (<) (qflat cs')
    \<and> set (qflat cs') = insert ino (set (qflat cs)) \<and> cnt' + length (qflat cs) = cnt + length (qflat cs')"
  using assms
proof (induction m cs cnt ino arbitrary: cs' rule: qset_add_loop.induct)
  case (2 m c cs cnt ino)
  let ?mx = "qc_inos c ! (qc_count c - 1)"
  have c: "qchunk_ok c" "cs \<noteq> [] \<Longrightarrow> qc_count c = AGFS_QCHUNK_CAP" "qpacked cs"
    "cs \<noteq> [] \<Longrightarrow> qlast_used cs" "0 < qc_count c"
    "sorted_wrt (<) (qlive c)" "sorted_wrt (<) (qflat cs)" "\<forall>x\<in>set (qlive c). \<forall>y\<in>set (qflat cs). x < y"
    using 2(3,4,6) qpacked_hd_count [OF 2(3,4)] by (auto simp: qpacked_Cons sorted_wrt_append split: if_splits)
  have mx: "last (qlive c) = ?mx" "\<forall>x\<in>set (qlive c). x \<le> ?mx" "?mx \<in> set (qlive c)"
  proof -
    show l: "last (qlive c) = ?mx" by (rule qlive_last [OF c(1,5)])
    show "\<forall>x\<in>set (qlive c). x \<le> ?mx" using sorted_last_max [OF c(6)] l by simp
    have "qlive c \<noteq> []" using c(5) length_qlive [OF c(1)] by (metis list.size(3) not_less0)
    then show "?mx \<in> set (qlive c)" using l last_in_set by metis
  qed
  show ?case
  proof (cases "?mx < ino")
    case lt: True
    then have below: "\<forall>x\<in>set (qlive c). x < ino" using mx(2) by (meson le_less_trans)
    show ?thesis
    proof (cases cs)
      case (Cons d ds)
      then have ne: "cs \<noteq> []" by simp
      obtain r where r: "qset_add_loop m cs cnt ino = (r, cnt', None, m')" "cs' = c # r"
        using 2(2) lt ne by (auto simp: Let_def prod_eq_iff)
      have "cs \<noteq> [] \<and> ?mx < ino" using ne lt by simp
      from 2(1) [OF refl this r(1) c(3) c(4) ne c(7)] ne
      show ?thesis using c below ne by (auto simp: r(2) qpacked_Cons sorted_wrt_append)
    next
      case Nil
      show ?thesis
      proof (cases "qc_count c < AGFS_QCHUNK_CAP")
        case True
        let ?c = "c\<lparr>qc_inos := (qc_inos c)[qc_count c := ino], qc_count := qc_count c + 1\<rparr>"
        have l: "qlive ?c = qlive c @ [ino]"
          using c(1) by (simp add: qlive_def qchunk_ok_def take_Suc_conv_app_nth)
        have cs': "cs' = [?c]" "cnt' = cnt + 1" using 2(2) lt Nil True by (auto simp: Let_def)
        show ?thesis unfolding cs'
          using c(1,6) True below by (simp add: l [simplified] Nil qpacked_Cons sorted_wrt_append qchunk_ok_def)
      next
        case False
        then have full: "qc_count c = AGFS_QCHUNK_CAP" using c(1) by (simp add: qchunk_ok_def)
        obtain r where r: "agfs_qchunk_insert (kmalloc_rest m) [agfs_qchunk_new] cnt 0 ino = (r, cnt', None, m')"
          "cs' = c # r"
          using 2(2) lt Nil False
          by (auto simp: Let_def prod_eq_iff simp del: agfs_qchunk_insert.simps split: if_splits)
        have "qflat r = [ino] \<and> qpacked r \<and> qlast_used r \<and> r \<noteq> [] \<and> cnt' = cnt + 1"
          using agfs_qchunk_insert_flat [OF r(1)] by (simp add: qpacked_Cons)
        then show ?thesis using c(1,6) full below by (simp add: r(2) Nil qpacked_Cons sorted_wrt_append)
      qed
    qed
  next
    case ge: False
    let ?off = "agfs_qchunk_bsearch c ino"
    note b = agfs_qchunk_bsearch_bounds [OF c(1,6), of ino]
    show ?thesis
    proof (cases "?off < qc_count c \<and> qc_inos c ! ?off = ino")
      case True
      then have "ino \<in> set (qlive c)" using c(1) qlive_nth nth_mem length_qlive by metis
      moreover have "cs' = c # cs" "cnt' = cnt" using 2(2) ge True by (auto simp: Let_def)
      ultimately show ?thesis using 2(3-6) by auto
    next
      case False
      then have ins: "agfs_qchunk_insert m (c # cs) cnt ?off ino = (cs', cnt', None, m')"
        using 2(2) ge by (auto simp: Let_def simp del: agfs_qchunk_insert.simps)
      have nin: "ino \<notin> set (drop ?off (qlive c))"
      proof
        assume "ino \<in> set (drop ?off (qlive c))"
        then obtain k where k: "k < length (qlive c) - ?off" "qlive c ! (?off + k) = ino"
          by (auto simp: in_set_conv_nth)
        then have o: "?off < qc_count c" using c(1) by simp
        then have "qlive c ! ?off \<le> ino" using sorted_nth_le [OF c(6), of ?off "?off + k"] k by simp
        moreover have "ino \<le> qlive c ! ?off"
          using b(3) o c(1) by (metis Cons_nth_drop_Suc length_qlive list.set_intros(1))
        ultimately show False using False o by (simp add: qlive_nth)
      qed
      have "\<forall>x\<in>set (drop ?off (qlive c)). ino < x" using b(3) nin by (metis order_le_less)
      moreover have "\<forall>y\<in>set (qflat cs). ino < y" using c(8) mx(3) ge by (meson not_less le_less_trans)
      ultimately have dr: "\<forall>x\<in>set (drop ?off (qflat (c # cs))). ino < x" using b(1) c(1) by auto
      have tk: "\<forall>x\<in>set (take ?off (qflat (c # cs))). x < ino" using b(1,2) c(1) by simp
      note f = agfs_qchunk_insert_flat [OF ins 2(3)]
      show ?thesis using f sorted_insert_at [OF 2(6) tk dr] b(1)
        by (simp del: qflat_simps) 
    qed
  qed
qed simp

lemma agfs_qset_add_ok:
  assumes "qs_ok s" "agfs_qset_add m s ino = (s', None, m')"
  shows "qs_ok s' \<and> set (qs_elems s') = (if ino = 0 then set (qs_elems s) else insert ino (set (qs_elems s)))"
proof (cases "ino = 0")
  case True
  then show ?thesis using assms by (simp add: agfs_qset_add_def)
next
  case nz: False
  show ?thesis
  proof (cases "qs_chunks s")
    case Nil
    let ?c = "agfs_qchunk_new\<lparr>qc_inos := (qc_inos agfs_qchunk_new)[0 := ino], qc_count := 1\<rparr>"
    have l: "qlive ?c = [ino]" by (simp add: qlive_def agfs_qchunk_new_def)
    have ok: "qchunk_ok ?c" using cap_pos by (simp add: qchunk_ok_def agfs_qchunk_new_def)
    have "s' = s\<lparr>qs_chunks := [?c], qs_count := 1\<rparr>"
      using assms(2) nz Nil by (simp add: agfs_qset_add_def split: if_splits)
    then show ?thesis using nz Nil l ok
      by (simp add: qs_ok_def qs_elems_def qpacked_Cons del: One_nat_def)
  next
    case (Cons c cs)
    obtain cs' cnt' where r: "qset_add_loop m (qs_chunks s) (qs_count s) ino = (cs', cnt', None, m')"
      and s': "s' = s\<lparr>qs_chunks := cs', qs_count := cnt'\<rparr>"
      using assms(2) nz Cons by (auto simp: agfs_qset_add_def simp del: qset_add_loop.simps split: prod.splits)
    have "qs_chunks s \<noteq> []" using Cons by simp
    with qset_add_loop_flat [OF r] assms(1) nz show ?thesis
      by (auto simp: qs_ok_def qs_elems_def s')
  qed
qed

subsection \<open>Positions in a packed list of chunks\<close>

lemma qflat_split:
  assumes "qpacked cs" "k < length cs"
  shows "qflat cs = qflat (take k cs) @ qlive (cs ! k) @ qflat (drop (Suc k) cs)"
    "length (qflat (take k cs)) = k * AGFS_QCHUNK_CAP" "qchunk_ok (cs ! k)"
    "Suc k < length cs \<Longrightarrow> qc_count (cs ! k) = AGFS_QCHUNK_CAP"
  using assms
proof (induction cs arbitrary: k)
  case (Cons c cs)
  {
    case 1 then show ?case using Cons(1) [of "k - 1"] by (cases k) (auto simp: qpacked_Cons)
  next
    case 2 then show ?case using Cons(2) [of "k - 1"] by (cases k) (auto simp: qpacked_Cons)
  next
    case 3 then show ?case using Cons(3) [of "k - 1"] by (cases k) (auto simp: qpacked_Cons)
  next
    case 4 then show ?case using Cons(4) [of "k - 1"] by (cases k) (auto simp: qpacked_Cons)
  }
qed simp_all

lemma qread_flat:
  assumes "qpacked cs" "k < length cs" "i < qc_count (cs ! k)"
  shows "k * AGFS_QCHUNK_CAP + i < length (qflat cs)"
    "qflat cs ! (k * AGFS_QCHUNK_CAP + i) = qread cs k i"
proof -
  note f = qflat_split [OF assms(1,2)]
  have l: "length (qlive (cs ! k)) = qc_count (cs ! k)" using f(3) by simp
  have "length (qflat cs) = k * AGFS_QCHUNK_CAP + qc_count (cs ! k) + length (qflat (drop (Suc k) cs))"
    by (subst f(1)) (simp add: f(2) l)
  then show "k * AGFS_QCHUNK_CAP + i < length (qflat cs)" using assms(3) by simp
  show "qflat cs ! (k * AGFS_QCHUNK_CAP + i) = qread cs k i"
    by (subst f(1)) (simp add: nth_append f(2) l assms(3) qlive_nth qread_def)
qed

lemma qwrite_live:
  "qlive (c\<lparr>qc_inos := (qc_inos c)[i := v]\<rparr>) = (qlive c)[i := v]"
  by (simp add: qlive_def take_update_swap)

lemma qwrite_flat:
  assumes "qpacked cs" "k < length cs" "i < qc_count (cs ! k)"
  shows "qflat (qwrite cs k i v) = (qflat cs)[k * AGFS_QCHUNK_CAP + i := v]" "qpacked (qwrite cs k i v)"
proof -
  note f = qflat_split [OF assms(1,2)]
  have l: "length (qlive (cs ! k)) = qc_count (cs ! k)" using f(3) by simp
  have "qwrite cs k i v = take k cs @ (cs ! k)\<lparr>qc_inos := (qc_inos (cs ! k))[i := v]\<rparr> # drop (Suc k) cs"
    using assms(2) by (simp add: qwrite_def upd_conv_take_nth_drop)
  then have "qflat (qwrite cs k i v) = qflat (take k cs) @ (qlive (cs ! k))[i := v] @ qflat (drop (Suc k) cs)"
    by (simp add: qwrite_live)
  also have "\<dots> = (qflat cs)[k * AGFS_QCHUNK_CAP + i := v]"
    by (subst f(1)) (simp add: list_update_append f(2) l assms(3))
  finally show "qflat (qwrite cs k i v) = (qflat cs)[k * AGFS_QCHUNK_CAP + i := v]" .
  have "qchunk_ok ((cs ! k)\<lparr>qc_inos := (qc_inos (cs ! k))[i := v]\<rparr>)" using f(3) by (simp add: qchunk_ok_def)
  then show "qpacked (qwrite cs k i v)" using assms(1,2) f(4)
    by (auto simp: qpacked_def qwrite_def list_all_length nth_list_update butlast_list_update nth_butlast)
qed

text \<open>The position a cursor stands for.\<close>

definition qpos :: "agfs_qchunk list \<Rightarrow> nat \<Rightarrow> nat \<Rightarrow> nat \<Rightarrow> bool" where
  "qpos cs k i p \<longleftrightarrow>
     (if k < length cs then i \<le> qc_count (cs ! k) \<and> p = k * AGFS_QCHUNK_CAP + i else p = length (qflat cs))"

lemma qflat_length_last:
  assumes "qpacked cs" "Suc k = length cs"
  shows "length (qflat cs) = k * AGFS_QCHUNK_CAP + qc_count (cs ! k)"
  using qflat_split [OF assms(1), of k] assms(2) by (metis add.right_neutral drop_all le_refl length_append
      length_qlive less_Suc_eq_le list.size(3) qflat_simps(1))

lemma qcursor_pos:
  assumes "qcursor cs k i = (k', i')" "qpacked cs" "qpos cs k i p"
  shows "qpos cs k' i' p \<and> (k' < length cs \<longleftrightarrow> p < length (qflat cs))"
  using assms
proof (induction cs k i rule: qcursor.induct)
  case (1 cs k i)
  show ?case
  proof (cases "k < length cs \<and> qc_count (cs ! k) \<le> i")
    case True
    then have c: "qcursor cs (Suc k) 0 = (k', i')" using 1(2) by (subst (asm) qcursor.simps) simp
    have "qpos cs (Suc k) 0 p"
    proof (cases "Suc k < length cs")
      case less: True
      with True 1(4) qflat_split(4) [OF 1(3), of k] show ?thesis by (auto simp: qpos_def)
    next
      case False
      with True have "Suc k = length cs" by simp
      with True 1(4) show ?thesis using qflat_length_last [OF 1(3), of k] by (auto simp: qpos_def)
    qed
    then show ?thesis using 1(1) [OF True c 1(3)] by simp
  next
    case False
    then have "k' = k" "i' = i" using 1(2) by (auto simp: qcursor.simps [of cs k i])
    then show ?thesis using False 1(4) qread_flat(1) [OF 1(3), of k i] by (auto simp: qpos_def)
  qed
qed

lemma qpos_advance:
  assumes "qpacked cs" "qpos cs k i p" "k < length cs" "i < qc_count (cs ! k)"
  shows "qpos cs k (Suc i) (Suc p)"
  using assms by (simp add: qpos_def)

lemma qpos_start: "qpacked cs \<Longrightarrow> qpos cs 0 0 0"
  by (simp add: qpos_def)

subsection \<open>Intersection in place\<close>

lemma qpos_qwrite:
  assumes "qpacked cs" "w < length cs" "wi < qc_count (cs ! w)"
  shows "qpos (qwrite cs w wi v) k i p \<longleftrightarrow> qpos cs k i p"
proof -
  have "qc_count (qwrite cs w wi v ! k) = qc_count (cs ! k)" if "k < length cs"
    using that by (metis nth_map qwrite_counts)
  then show ?thesis by (simp add: qpos_def qwrite_flat [OF assms])
qed

definition qand_writer :: "qand \<Rightarrow> bool" where
  "qand_writer a \<longleftrightarrow>
     (case qa_lastw a of
        None \<Rightarrow> qa_w a = 0 \<and> qa_wi a = 0 \<and> qa_n a = 0
      | Some w \<Rightarrow> qa_w a = w \<and> 1 \<le> qa_wi a \<and> qa_wi a \<le> AGFS_QCHUNK_CAP
          \<and> qa_n a = w * AGFS_QCHUNK_CAP + qa_wi a)"

definition qand_inv :: "u32 list \<Rightarrow> agfs_qchunk list \<Rightarrow> qand \<Rightarrow> nat \<Rightarrow> nat \<Rightarrow> bool" where
  "qand_inv F ds a p q \<longleftrightarrow>
     qpacked (qa_cs a) \<and> length (qflat (qa_cs a)) = length F
     \<and> qpos (qa_cs a) (qa_k1 a) (qa_i a) p \<and> qpos ds (qa_k2 a) (qa_j a) q
     \<and> p \<le> length F \<and> q \<le> length (qflat ds) \<and> qa_n a \<le> p \<and> qand_writer a
     \<and> drop p (qflat (qa_cs a)) = drop p F
     \<and> take (qa_n a) (qflat (qa_cs a)) = filter (\<lambda>x. x \<in> set (qflat ds)) (take p F)
     \<and> (\<forall>x\<in>set (take q (qflat ds)). \<forall>y\<in>set (drop p F). x < y)"

lemma qand_writer_cursor [simp]:
  "qand_writer (a\<lparr>qa_k1 := k1, qa_i := i, qa_k2 := k2, qa_j := j\<rparr>) = qand_writer a"
  by (simp add: qand_writer_def split: option.splits)

lemma qflat_length_bound:
  "qpacked cs \<Longrightarrow> length cs \<le> k \<Longrightarrow> length (qflat cs) \<le> k * AGFS_QCHUNK_CAP"
proof (induction cs arbitrary: k)
  case (Cons c cs)
  then obtain k' where k: "k = Suc k'" by (cases k) auto
  have "length (qflat cs) \<le> k' * AGFS_QCHUNK_CAP" using Cons k by (simp add: qpacked_Cons)
  moreover have "length (qlive c) \<le> AGFS_QCHUNK_CAP"
    using Cons.prems(1) by (simp add: qpacked_Cons) (simp add: qchunk_ok_def)
  ultimately show ?case by (simp add: k)
qed simp

text \<open>Where the writer puts the next entry: behind the reader, in a chunk that exists.\<close>

lemma qand_writer_slot:
  assumes "qand_writer a" "qpacked cs" "qa_n a < length (qflat cs)"
  defines "w \<equiv> fst (if qa_wi a = AGFS_QCHUNK_CAP then (qa_w a + 1, 0) else (qa_w a, qa_wi a))"
  defines "wi \<equiv> snd (if qa_wi a = AGFS_QCHUNK_CAP then (qa_w a + 1, 0) else (qa_w a, qa_wi a))"
  shows "w < length cs" "wi < qc_count (cs ! w)" "qa_n a = w * AGFS_QCHUNK_CAP + wi" "wi < AGFS_QCHUNK_CAP"
proof -
  show n: "qa_n a = w * AGFS_QCHUNK_CAP + wi" and lt: "wi < AGFS_QCHUNK_CAP"
    using assms(1) cap_pos by (auto simp: qand_writer_def w_def wi_def split: option.splits)
  show wl: "w < length cs" using qflat_length_bound [OF assms(2), of w] n assms(3) by (cases "w < length cs") auto
  show "wi < qc_count (cs ! w)"
  proof (cases "Suc w < length cs")
    case True
    then show ?thesis using qflat_split(4) [OF assms(2) wl] lt by simp
  next
    case False
    then have "Suc w = length cs" using wl by simp
    then show ?thesis using qflat_length_last [OF assms(2)] n assms(3) by simp
  qed
qed

lemma sorted_notin_between:
  assumes "sorted_wrt (<) (G :: u32 list)" "q < length G" "\<forall>x\<in>set (take q G). x < y" "y < G ! q"
  shows "y \<notin> set G"
proof
  assume "y \<in> set G"
  then obtain k where k: "k < length G" "G ! k = y" by (auto simp: in_set_conv_nth)
  show False
  proof (cases "k < q")
    case True
    then have "y \<in> set (take q G)" using k assms(2) by (auto simp: in_set_conv_nth)
    then show False using assms(3) by auto
  next
    case False
    then have "G ! q \<le> y" using sorted_nth_le [OF assms(1), of q k] k by simp
    then show False using assms(4) by simp
  qed
qed

lemma qand_step_inv:
  assumes inv: "qand_inv F ds a p q" and F: "sorted_wrt (<) F" and ds: "qpacked ds" "sorted_wrt (<) (qflat ds)"
    and step: "qand_step ds a = Some a'"
  shows "\<exists>p' q'. qand_inv F ds a' p' q'"
proof -
  let ?cs = "qa_cs a" and ?G = "qflat ds"
  obtain k1 i where c1: "qcursor ?cs (qa_k1 a) (qa_i a) = (k1, i)" by fastforce
  obtain k2 j where c2: "qcursor ds (qa_k2 a) (qa_j a) = (k2, j)" by fastforce
  have v: "k1 < length ?cs" "k2 < length ds"
    using step by (auto simp: qand_step_def c1 c2 split: if_splits)
  have pk: "qpacked ?cs" and lenF: "length (qflat ?cs) = length F" and n: "qa_n a \<le> p"
    and wr: "qand_writer a" and dr: "drop p (qflat ?cs) = drop p F"
    and tk: "take (qa_n a) (qflat ?cs) = filter (\<lambda>x. x \<in> set ?G) (take p F)"
    and below: "\<forall>x\<in>set (take q ?G). \<forall>y\<in>set (drop p F). x < y"
    and ps: "qpos ?cs (qa_k1 a) (qa_i a) p" "qpos ds (qa_k2 a) (qa_j a) q"
    using inv by (auto simp: qand_inv_def)
  have p1: "qpos ?cs k1 i p" "p < length F" using qcursor_pos [OF c1 pk ps(1)] v lenF by auto
  have p2: "qpos ds k2 j q" "q < length ?G" using qcursor_pos [OF c2 ds(1) ps(2)] v by auto
  have i: "i < qc_count (?cs ! k1)" "j < qc_count (ds ! k2)" using qcursor_valid c1 c2 v by auto
  have x: "qread ?cs k1 i = F ! p"
  proof -
    have "qread ?cs k1 i = qflat ?cs ! p" using qread_flat(2) [OF pk v(1) i(1)] p1 v by (simp add: qpos_def)
    also have "\<dots> = F ! p" using dr p1(2) lenF by (metis hd_drop_conv_nth)
    finally show ?thesis .
  qed
  have y: "qread ds k2 j = ?G ! q" using qread_flat(2) [OF ds(1) v(2) i(2)] p2 v by (simp add: qpos_def)
  have dp: "drop p F = F ! p # drop (Suc p) F" using p1(2) by (simp add: Cons_nth_drop_Suc)
  have tp: "take (Suc p) F = take p F @ [F ! p]" using p1(2) by (simp add: take_Suc_conv_app_nth)
  have tq: "take (Suc q) ?G = take q ?G @ [?G ! q]" using p2(2) by (simp add: take_Suc_conv_app_nth)
  have dr': "drop (Suc p) (qflat ?cs) = drop (Suc p) F" using dr by (metis drop_Suc tl_drop)
  have Fgt: "\<forall>z\<in>set (drop (Suc p) F). F ! p < z" using F
    by (metis append_take_drop_id dp list.set_intros(1) sorted_wrt.simps(2) sorted_wrt_append)
  consider (lt) "F ! p < ?G ! q" | (gt) "?G ! q < F ! p" | (eq) "F ! p = ?G ! q" by fastforce
  then show ?thesis
  proof cases
    case lt
    then have a': "a' = a\<lparr>qa_k1 := k1, qa_i := Suc i, qa_k2 := k2, qa_j := j\<rparr>"
      using step v by (simp add: qand_step_def c1 c2 x y split: if_splits)
    have "F ! p \<notin> set ?G" using sorted_notin_between [OF ds(2) p2(2) _ lt] dp below by auto
    then have "qand_inv F ds a' (Suc p) q"
      using inv n p1(2) qpos_advance [OF pk p1(1) v(1) i(1)] p2(1) dr' dp
      unfolding qand_inv_def by (intro conjI) (simp_all add: a' tp)
    then show ?thesis by blast
  next
    case gt
    then have a': "a' = a\<lparr>qa_k1 := k1, qa_i := i, qa_k2 := k2, qa_j := Suc j\<rparr>"
      using step v order_less_not_sym [OF gt]
      by (simp add: qand_step_def c1 c2 x y Let_def split: if_split_asm)
    have "\<forall>z\<in>set (drop p F). ?G ! q < z" using gt Fgt dp by auto
    then have "qand_inv F ds a' p (Suc q)"
      using inv p2(2) qpos_advance [OF ds(1) p2(1) v(2) i(2)] p1(1)
      unfolding qand_inv_def by (intro conjI) (auto simp: a' tq)
    then show ?thesis by blast
  next
    case eq
    define w where "w = fst (if qa_wi a = AGFS_QCHUNK_CAP then (qa_w a + 1, 0) else (qa_w a, qa_wi a))"
    define wi where "wi = snd (if qa_wi a = AGFS_QCHUNK_CAP then (qa_w a + 1, 0) else (qa_w a, qa_wi a))"
    have nl: "qa_n a < length (qflat ?cs)" using n p1(2) lenF by simp
    note s = qand_writer_slot [OF wr pk nl, folded w_def wi_def]
    note wf = qwrite_flat [OF pk s(1,2), of "F ! p"] and wp = qpos_qwrite [OF pk s(1,2), of "F ! p"]
    have a': "a' = a\<lparr>qa_cs := qwrite ?cs w wi (F ! p), qa_k1 := k1, qa_i := Suc i, qa_k2 := k2,
        qa_j := Suc j, qa_w := w, qa_wi := Suc wi, qa_lastw := Some w, qa_n := Suc (qa_n a)\<rparr>"
      using step v eq by (simp add: qand_step_def c1 c2 x y w_def wi_def Let_def split: if_splits)
    have fl: "qflat (qwrite ?cs w wi (F ! p)) = (qflat ?cs)[qa_n a := F ! p]" by (simp add: wf s(3))
    have inG: "F ! p \<in> set ?G" using eq p2(2) by auto
    have "take (Suc (qa_n a)) ((qflat ?cs)[qa_n a := F ! p]) = take (qa_n a) (qflat ?cs) @ [F ! p]"
      using nl by (simp add: take_Suc_conv_app_nth)
    moreover have "drop (Suc p) ((qflat ?cs)[qa_n a := F ! p]) = drop (Suc p) F"
      using n dr' by (simp add: drop_update_cancel)
    moreover have "\<forall>x\<in>set (take (Suc q) ?G). \<forall>y\<in>set (drop (Suc p) F). x < y"
      using below Fgt eq dp by (auto simp: tq)
    ultimately have "qand_inv F ds a' (Suc p) (Suc q)"
      using n p1 p2 s lenF wf(2) qpos_advance [OF pk p1(1) v(1) i(1)] qpos_advance [OF ds(1) p2(1) v(2) i(2)]
      unfolding qand_inv_def by (intro conjI) (simp_all add: a' tp fl tk [unfolded s(3)] inG wp qand_writer_def)
    then show ?thesis by blast
  qed
qed

lemma qand_loop_inv:
  assumes "qand_inv F ds a p q" "sorted_wrt (<) F" "qpacked ds" "sorted_wrt (<) (qflat ds)"
  shows "\<exists>p q. qand_inv F ds (qand_loop ds a) p q \<and> qand_step ds (qand_loop ds a) = None"
  using assms
proof (induction ds a arbitrary: p q rule: qand_loop.induct)
  case (1 ds a)
  show ?case
  proof (cases "qand_step ds a")
    case None
    then have "qand_loop ds a = a" by (simp add: qand_loop.simps)
    then show ?thesis using 1(2) None by auto
  next
    case (Some a')
    then obtain p' q' where "qand_inv F ds a' p' q'" using qand_step_inv [OF 1(2-5)] by blast
    then show ?thesis using 1(1) [OF Some _ 1(3-5)] Some by (simp add: qand_loop.simps [of ds a])
  qed
qed

lemma qand_step_None:
  assumes "qand_inv F ds a p q" "qpacked ds" "qand_step ds a = None"
  shows "p = length F \<or> q = length (qflat ds)"
proof -
  obtain k1 i where c1: "qcursor (qa_cs a) (qa_k1 a) (qa_i a) = (k1, i)" by fastforce
  obtain k2 j where c2: "qcursor ds (qa_k2 a) (qa_j a) = (k2, j)" by fastforce
  have inv: "qpacked (qa_cs a)" "length (qflat (qa_cs a)) = length F" "p \<le> length F" "q \<le> length (qflat ds)"
    "qpos (qa_cs a) (qa_k1 a) (qa_i a) p" "qpos ds (qa_k2 a) (qa_j a) q"
    using assms(1) by (auto simp: qand_inv_def)
  show ?thesis
  proof (rule ccontr)
    assume "\<not> ?thesis"
    then have l: "p < length (qflat (qa_cs a))" "q < length (qflat ds)" using inv(2-4) by auto
    then have "k1 < length (qa_cs a)" "k2 < length ds"
      using qcursor_pos [OF c1 inv(1,5)] qcursor_pos [OF c2 assms(2) inv(6)] by auto
    moreover have "qa_k1 a < length (qa_cs a)" "qa_k2 a < length ds"
      using inv(5,6) l by (auto simp: qpos_def split: if_splits)
    ultimately show False using assms(3)
      by (simp add: qand_step_def c1 c2 Let_def split: if_split_asm prod.splits)
  qed
qed

text \<open>The chunks kept at the end: up to the last one written, cut at the write position.\<close>

lemma qflat_cut:
  assumes "qpacked cs" "w < length cs" "0 < wi" "w * AGFS_QCHUNK_CAP + wi \<le> length (qflat cs)" "wi \<le> AGFS_QCHUNK_CAP"
  defines "cs' \<equiv> take (Suc w) (cs[w := (cs ! w)\<lparr>qc_count := wi\<rparr>])"
  shows "qflat cs' = take (w * AGFS_QCHUNK_CAP + wi) (qflat cs)" "qpacked cs'" "qlast_used cs'"
proof -
  note f = qflat_split [OF assms(1,2)]
  have e: "cs' = take w cs @ [(cs ! w)\<lparr>qc_count := wi\<rparr>]"
    unfolding cs'_def using assms(2) by (simp add: take_Suc_conv_app_nth)
  have le: "wi \<le> qc_count (cs ! w)"
  proof (cases "Suc w < length cs")
    case False
    then have "Suc w = length cs" using assms(2) by simp
    then show ?thesis using qflat_length_last [OF assms(1)] assms(4) by simp
  qed (use f(4) assms(5) in simp)
  have "qlive ((cs ! w)\<lparr>qc_count := wi\<rparr>) = take wi (qlive (cs ! w))" using le by (simp add: qlive_def)
  then show "qflat cs' = take (w * AGFS_QCHUNK_CAP + wi) (qflat cs)"
    by (subst f(1)) (use f(2,3) le in \<open>simp add: e\<close>)
  have "list_all (\<lambda>c. qc_count c = AGFS_QCHUNK_CAP) (take w cs)"
    using qflat_split(4) [OF assms(1)] assms(2) by (auto simp: list_all_length)
  moreover have "list_all qchunk_ok (take w cs)" using assms(1,2) by (auto simp: qpacked_def list_all_length)
  moreover have "qchunk_ok ((cs ! w)\<lparr>qc_count := wi\<rparr>)" using f(3) assms(5) by (simp add: qchunk_ok_def)
  ultimately show "qpacked cs'" by (simp add: e qpacked_def)
  show "qlast_used cs'" using assms(3) by (simp add: e qlast_used_def)
qed

lemma agfs_qset_and_elems:
  assumes "qs_ok s1" "qs_ok s2"
  shows "qs_elems (agfs_qset_and s1 s2) = filter (\<lambda>x. x \<in> set (qs_elems s2)) (qs_elems s1)"
    "qs_ok (agfs_qset_and s1 s2)"
proof -
  let ?a0 = "\<lparr>qa_cs = qs_chunks s1, qa_k1 = 0, qa_i = 0, qa_k2 = 0, qa_j = 0, qa_w = 0, qa_wi = 0,
             qa_lastw = None, qa_n = 0\<rparr>"
  let ?F = "qs_elems s1" and ?ds = "qs_chunks s2"
  let ?R = "filter (\<lambda>x. x \<in> set (qs_elems s2)) ?F"
  have ok: "qpacked (qs_chunks s1)" "sorted_wrt (<) ?F" "qpacked ?ds" "sorted_wrt (<) (qflat ?ds)" "0 \<notin> set ?F"
    using assms by (auto simp: qs_ok_def qs_elems_def)
  have "qand_inv ?F ?ds ?a0 0 0" using ok by (auto simp: qand_inv_def qpos_start qs_elems_def qand_writer_def)
  from qand_loop_inv [OF this ok(2-4)] obtain p q
    where inv': "qand_inv ?F ?ds (qand_loop ?ds ?a0) p q" "qand_step ?ds (qand_loop ?ds ?a0) = None"
    by auto
  define a where a: "a = qand_loop ?ds ?a0"
  have inv: "qand_inv ?F ?ds a p q" and e: "qand_step ?ds a = None" using inv' by (simp_all only: a)
  have n: "take (qa_n a) (qflat (qa_cs a)) = ?R"
  proof -
    have "filter (\<lambda>x. x \<in> set (qflat ?ds)) (drop p ?F) = []"
      using qand_step_None [OF inv ok(3) e]
    proof
      assume "q = length (qflat ?ds)"
      then have "\<forall>x\<in>set (qflat ?ds). \<forall>y\<in>set (drop p ?F). x < y" using inv by (simp add: qand_inv_def)
      then show ?thesis by (auto simp: filter_empty_conv)
    qed simp
    then have "filter (\<lambda>x. x \<in> set (qflat ?ds)) (take p ?F) = filter (\<lambda>x. x \<in> set (qflat ?ds)) ?F"
      by (metis append_Nil2 append_take_drop_id filter_append)
    then show ?thesis using inv by (simp add: qand_inv_def qs_elems_def)
  qed
  have pk: "qpacked (qa_cs a)" and nl: "qa_n a \<le> length (qflat (qa_cs a))" and wr: "qand_writer a"
    using inv by (auto simp: qand_inv_def)
  have res: "qs_elems (agfs_qset_and s1 s2) = ?R \<and> qpacked (qs_chunks (agfs_qset_and s1 s2))
      \<and> qlast_used (qs_chunks (agfs_qset_and s1 s2)) \<and> qs_count (agfs_qset_and s1 s2) = length ?R"
  proof (cases "qa_lastw a")
    case None
    then have "?R = []" using n wr by (simp add: qand_writer_def)
    then show ?thesis using None
      by (simp add: agfs_qset_and_def Let_def a [symmetric] agfs_qset_free_def qs_elems_def)
  next
    case (Some w)
    have w: "1 \<le> qa_wi a" "qa_wi a \<le> AGFS_QCHUNK_CAP" "qa_n a = w * AGFS_QCHUNK_CAP + qa_wi a"
      using wr Some by (auto simp: qand_writer_def)
    have "w < length (qa_cs a)"
      using qflat_length_bound [OF pk, of w] w nl by (cases "w < length (qa_cs a)") auto
    note c = qflat_cut [OF pk this _ _ w(2)]
    have len: "length ?R = qa_n a" using n nl by (metis length_take min.absorb2)
    show ?thesis using Some c w nl n len
      by (simp add: agfs_qset_and_def Let_def a [symmetric] qs_elems_def)
  qed
  show "qs_elems (agfs_qset_and s1 s2) = ?R" using res by simp
  show "qs_ok (agfs_qset_and s1 s2)" using res ok by (simp add: qs_ok_def sorted_wrt_filter)
qed

subsection \<open>Union\<close>

lemma qset_count_last_simps [simp]:
  "qset_count_last [] wi = []" "qset_count_last (cs @ [c]) wi = cs @ [c\<lparr>qc_count := wi\<rparr>]"
  by (simp_all add: qset_count_last_def)

lemma qpacked_snoc:
  "qpacked (cs @ [c]) \<longleftrightarrow> list_all qchunk_ok cs \<and> list_all (\<lambda>c. qc_count c = AGFS_QCHUNK_CAP) cs \<and> qchunk_ok c"
  by (auto simp: qpacked_def)

definition qor_out :: "qor \<Rightarrow> agfs_qchunk list" where
  "qor_out a = qset_count_last (qo_out a) (qo_wi a)"

definition qor_out_ok :: "qor \<Rightarrow> bool" where
  "qor_out_ok a \<longleftrightarrow> qpacked (qor_out a) \<and> qo_n a = length (qflat (qor_out a))
     \<and> (qo_out a \<noteq> [] \<longrightarrow> 1 \<le> qo_wi a \<and> qo_wi a \<le> AGFS_QCHUNK_CAP)"

lemma qor_emit_out:
  assumes "qor_emit v a = Inr a'" "qor_out_ok a"
  shows "qor_out_ok a'" "qflat (qor_out a') = qflat (qor_out a) @ [v]"
proof -
  have "qor_out_ok a' \<and> qflat (qor_out a') = qflat (qor_out a) @ [v]"
  proof (cases "qo_out a = [] \<or> qo_wi a = AGFS_QCHUNK_CAP")
    case True
    let ?c = "agfs_qchunk_new\<lparr>qc_inos := (qc_inos agfs_qchunk_new)[0 := v]\<rparr>"
    have len: "length (qor_out a) = length (qo_out a)" by (simp add: qor_out_def qset_count_last_def)
    have out: "qo_out a' = qor_out a @ [?c]" "qo_wi a' = 1" "qo_n a' = Suc (qo_n a)"
      using assms(1) True len by (auto simp: qor_emit_def qwrite_def qor_out_def [symmetric]
          list_update_append nth_append split: if_splits)
    have c: "qlive (?c\<lparr>qc_count := 1\<rparr>) = [v]" "qchunk_ok (?c\<lparr>qc_count := 1\<rparr>)"
      using cap_pos by (simp_all add: qlive_def agfs_qchunk_new_def qchunk_ok_def)
    have "list_all (\<lambda>c. qc_count c = AGFS_QCHUNK_CAP) (qor_out a)"
    proof (cases "qo_out a" rule: rev_cases)
      case (snoc cs c)
      then show ?thesis using True assms(2) by (simp add: qor_out_ok_def qor_out_def qpacked_snoc)
    qed (simp add: qor_out_def)
    then have "qpacked (qor_out a @ [?c\<lparr>qc_count := 1\<rparr>])"
      using assms(2) c by (simp add: qpacked_snoc qor_out_ok_def qpacked_def)
    moreover have "qor_out a' = qor_out a @ [?c\<lparr>qc_count := 1\<rparr>]" by (simp only: qor_out_def [of a'] out qset_count_last_simps)
    ultimately show ?thesis using c(1) out(2,3) assms(2) cap_pos by (simp add: qor_out_ok_def)
  next
    case False
    then obtain cs c where o: "qo_out a = cs @ [c]" by (cases "qo_out a" rule: rev_cases) auto
    let ?c = "c\<lparr>qc_inos := (qc_inos c)[qo_wi a := v], qc_count := qo_wi a + 1\<rparr>"
    have out: "qor_out a = cs @ [c\<lparr>qc_count := qo_wi a\<rparr>]" by (simp add: qor_out_def o)
    have wi: "1 \<le> qo_wi a" "qo_wi a < AGFS_QCHUNK_CAP" using False assms(2) by (auto simp: qor_out_ok_def)
    have ok: "length (qc_inos c) = AGFS_QCHUNK_CAP + 1"
      using assms(2) by (simp add: qor_out_ok_def out qpacked_snoc qchunk_ok_def)
    have "qor_out a' = cs @ [?c]" "qo_wi a' = qo_wi a + 1" "qo_n a' = Suc (qo_n a)"
      using assms(1) False by (auto simp: qor_emit_def o qwrite_def qor_out_def list_update_append)
    moreover have "qlive ?c = qlive (c\<lparr>qc_count := qo_wi a\<rparr>) @ [v]"
      using ok wi by (simp add: qlive_def take_Suc_conv_app_nth)
    moreover have "qchunk_ok ?c" using ok wi by (simp add: qchunk_ok_def)
    ultimately show ?thesis using assms(2) wi by (simp add: qor_out_ok_def out qpacked_snoc)
  qed
  then show "qor_out_ok a'" "qflat (qor_out a') = qflat (qor_out a) @ [v]" by auto
qed

definition qor_inv :: "agfs_qchunk list \<Rightarrow> agfs_qchunk list \<Rightarrow> qor \<Rightarrow> nat \<Rightarrow> nat \<Rightarrow> bool" where
  "qor_inv cs ds a p q \<longleftrightarrow>
     qpos cs (qo_k1 a) (qo_i a) p \<and> qpos ds (qo_k2 a) (qo_j a) q
     \<and> p \<le> length (qflat cs) \<and> q \<le> length (qflat ds) \<and> qor_out_ok a
     \<and> sorted_wrt (<) (qflat (qor_out a))
     \<and> set (qflat (qor_out a)) = set (take p (qflat cs)) \<union> set (take q (qflat ds))
     \<and> (\<forall>x\<in>set (qflat (qor_out a)). \<forall>y\<in>set (drop p (qflat cs)) \<union> set (drop q (qflat ds)). x < y)"

text \<open>What the merge takes next: the least of the two heads, and both cursors when they are equal.\<close>

lemma qor_pick_cases:
  assumes "qpacked cs" "qpacked ds" "qpos cs k1 i p" "qpos ds k2 j q"
    and "k1 < length cs \<longleftrightarrow> p < length (qflat cs)" "k2 < length ds \<longleftrightarrow> q < length (qflat ds)"
    and "k1 < length cs \<longrightarrow> i < qc_count (cs ! k1)" "k2 < length ds \<longrightarrow> j < qc_count (ds ! k2)"
    and "k1 < length cs \<or> k2 < length ds" "qor_pick cs ds k1 i k2 j = (v, i', j')"
  obtains
    (left) "i' = i + 1" "j' = j" "p < length (qflat cs)" "v = qflat cs ! p"
      "q < length (qflat ds) \<Longrightarrow> v < qflat ds ! q"
  | (right) "i' = i" "j' = j + 1" "q < length (qflat ds)" "v = qflat ds ! q"
      "p < length (qflat cs) \<Longrightarrow> v < qflat cs ! p"
  | (both) "i' = i + 1" "j' = j + 1" "p < length (qflat cs)" "q < length (qflat ds)"
      "v = qflat cs ! p" "v = qflat ds ! q"
proof -
  have r1: "qread cs k1 i = qflat cs ! p" if "k1 < length cs"
    using qread_flat(2) [OF assms(1) that assms(7) [rule_format, OF that]] assms(3) that by (simp add: qpos_def)
  have r2: "qread ds k2 j = qflat ds ! q" if "k2 < length ds"
    using qread_flat(2) [OF assms(2) that assms(8) [rule_format, OF that]] assms(4) that by (simp add: qpos_def)
  consider (l) "k1 < length cs \<and> (\<not> k2 < length ds \<or> qread cs k1 i < qread ds k2 j)"
    | (r) "\<not> (k1 < length cs \<and> (\<not> k2 < length ds \<or> qread cs k1 i < qread ds k2 j))"
        "k2 < length ds \<and> (\<not> k1 < length cs \<or> qread ds k2 j < qread cs k1 i)"
    | (b) "\<not> (k1 < length cs \<and> (\<not> k2 < length ds \<or> qread cs k1 i < qread ds k2 j))"
        "\<not> (k2 < length ds \<and> (\<not> k1 < length cs \<or> qread ds k2 j < qread cs k1 i))" by blast
  then show ?thesis
  proof cases
    case l
    then show ?thesis using left assms(5,6,10) r1 r2 by (auto simp: qor_pick_def)
  next
    case r
    then have "v = qread ds k2 j \<and> i' = i \<and> j' = j + 1"
      using assms(10) unfolding qor_pick_def Let_def by (simp only: if_True if_False prod.inject) simp
    then show ?thesis using right r assms(5,6) r1 r2 by auto
  next
    case b
    with assms(9) have k: "k1 < length cs" "k2 < length ds" "qread cs k1 i = qread ds k2 j" by fastforce+
    then show ?thesis using both b assms(5,6,10) r1 r2 by (simp add: qor_pick_def)
  qed
qed

lemma qor_step_inv:
  assumes inv: "qor_inv cs ds a p q" and cs: "qpacked cs" "sorted_wrt (<) (qflat cs)"
    and ds: "qpacked ds" "sorted_wrt (<) (qflat ds)"
    and step: "qor_step cs ds a = Inr (Some a')"
  shows "\<exists>p' q'. qor_inv cs ds a' p' q'"
proof -
  let ?F = "qflat cs" and ?G = "qflat ds"
  obtain k1 i where c1: "qcursor cs (qo_k1 a) (qo_i a) = (k1, i)" by fastforce
  obtain k2 j where c2: "qcursor ds (qo_k2 a) (qo_j a) = (k2, j)" by fastforce
  obtain v i' j' where pk: "qor_pick cs ds k1 i k2 j = (v, i', j')" using prod_cases3 by blast
  have k: "k1 < length cs \<or> k2 < length ds"
    and em: "qor_emit v (a\<lparr>qo_k1 := k1, qo_i := i', qo_k2 := k2, qo_j := j'\<rparr>) = Inr a'"
    using step by (auto simp: qor_step_def c1 c2 pk split: if_splits sum.splits)
  have I: "qpos cs (qo_k1 a) (qo_i a) p" "qpos ds (qo_k2 a) (qo_j a) q" "p \<le> length ?F" "q \<le> length ?G"
    "qor_out_ok a" "sorted_wrt (<) (qflat (qor_out a))"
    "set (qflat (qor_out a)) = set (take p ?F) \<union> set (take q ?G)"
    "\<forall>x\<in>set (qflat (qor_out a)). \<forall>y\<in>set (drop p ?F) \<union> set (drop q ?G). x < y"
    using inv by (simp_all add: qor_inv_def)
  note P1 = qcursor_pos [OF c1 cs(1) I(1)] and P2 = qcursor_pos [OF c2 ds(1) I(2)]
  have V1: "k1 < length cs \<longrightarrow> i < qc_count (cs ! k1)" and V2: "k2 < length ds \<longrightarrow> j < qc_count (ds ! k2)"
    using qcursor_valid [OF c1] qcursor_valid [OF c2] by auto
  have oo: "qor_out_ok (a\<lparr>qo_k1 := k1, qo_i := i', qo_k2 := k2, qo_j := j'\<rparr>)"
    "qor_out (a\<lparr>qo_k1 := k1, qo_i := i', qo_k2 := k2, qo_j := j'\<rparr>) = qor_out a"
    using I(5) by (simp_all add: qor_out_ok_def qor_out_def)
  note E = qor_emit_out [OF em oo(1), unfolded oo(2)] and C = qor_emit_cursors [OF em]
  have dF: "drop p ?F = ?F ! p # drop (Suc p) ?F" "take (Suc p) ?F = take p ?F @ [?F ! p]" if "p < length ?F"
    using that by (simp_all add: Cons_nth_drop_Suc take_Suc_conv_app_nth)
  have dG: "drop q ?G = ?G ! q # drop (Suc q) ?G" "take (Suc q) ?G = take q ?G @ [?G ! q]" if "q < length ?G"
    using that by (simp_all add: Cons_nth_drop_Suc take_Suc_conv_app_nth)
  have sF: "\<forall>y\<in>set (drop (Suc p) ?F). ?F ! p < y" if "p < length ?F"
    using cs(2) dF(1) [OF that] by (metis sorted_wrt_drop sorted_wrt.simps(2))
  have sG: "\<forall>y\<in>set (drop (Suc q) ?G). ?G ! q < y" if "q < length ?G"
    using ds(2) dG(1) [OF that] by (metis sorted_wrt_drop sorted_wrt.simps(2))
  have A: "qpos cs k1 i p" "qpos ds k2 j q" "k1 < length cs \<longleftrightarrow> p < length ?F" "k2 < length ds \<longleftrightarrow> q < length ?G"
    using P1 P2 by auto
  show ?thesis
  proof (cases rule: qor_pick_cases [OF cs(1) ds(1) A V1 V2 k pk, case_names left right both])
    case left
    have "\<forall>y\<in>set (drop q ?G). v < y"
    proof (cases "q < length ?G")
      case True
      then show ?thesis using left(5) dG(1) sG by (auto intro: less_trans)
    qed simp
    then have "qor_inv cs ds a' (Suc p) q"
      using I A E C left dF [OF left(3)] sF [OF left(3)] qpos_advance [OF cs(1) A(1)] V1
      unfolding qor_inv_def by (intro conjI) (auto simp: sorted_wrt_append)
    then show ?thesis by blast
  next
    case right
    have "\<forall>y\<in>set (drop p ?F). v < y"
    proof (cases "p < length ?F")
      case True
      then show ?thesis using right(5) dF(1) sF by (auto intro: less_trans)
    qed simp
    then have "qor_inv cs ds a' p (Suc q)"
      using I A E C right dG [OF right(3)] sG [OF right(3)] qpos_advance [OF ds(1) A(2)] V2
      unfolding qor_inv_def by (intro conjI) (auto simp: sorted_wrt_append)
    then show ?thesis by blast
  next
    case both
    then have "qor_inv cs ds a' (Suc p) (Suc q)"
      using I A E C dF [OF both(3)] dG [OF both(4)] sF [OF both(3)] sG [OF both(4)]
        qpos_advance [OF cs(1) A(1)] qpos_advance [OF ds(1) A(2)] V1 V2
      unfolding qor_inv_def by (intro conjI) (auto simp: sorted_wrt_append)
    then show ?thesis by blast
  qed
qed

lemma qor_step_None:
  assumes "qor_inv cs ds a p q" "qpacked cs" "qpacked ds" "qor_step cs ds a = Inr None"
  shows "p = length (qflat cs) \<and> q = length (qflat ds)"
proof -
  obtain k1 i where c1: "qcursor cs (qo_k1 a) (qo_i a) = (k1, i)" by fastforce
  obtain k2 j where c2: "qcursor ds (qo_k2 a) (qo_j a) = (k2, j)" by fastforce
  have inv: "p \<le> length (qflat cs)" "q \<le> length (qflat ds)"
    "qpos cs (qo_k1 a) (qo_i a) p" "qpos ds (qo_k2 a) (qo_j a) q"
    using assms(1) by (auto simp: qor_inv_def)
  have "\<not> (qo_k1 a < length cs \<or> qo_k2 a < length ds) \<or> \<not> k1 < length cs \<and> \<not> k2 < length ds"
  proof -
    obtain v i' j' where "qor_pick cs ds k1 i k2 j = (v, i', j')" using prod_cases3 by blast
    then show ?thesis using assms(4)
      by (cases "qor_emit v (a\<lparr>qo_k1 := k1, qo_i := i', qo_k2 := k2, qo_j := j'\<rparr>)")
         (auto simp: qor_step_def c1 c2)
  qed
  then show ?thesis
  proof
    assume "\<not> (qo_k1 a < length cs \<or> qo_k2 a < length ds)"
    then show ?thesis using inv(3,4) by (simp add: qpos_def)
  next
    assume k: "\<not> k1 < length cs \<and> \<not> k2 < length ds"
    have "\<not> p < length (qflat cs)" using qcursor_pos [OF c1 assms(2) inv(3)] k by blast
    moreover have "\<not> q < length (qflat ds)" using qcursor_pos [OF c2 assms(3) inv(4)] k by blast
    ultimately show ?thesis using inv(1,2) by simp
  qed
qed

lemma qor_loop_inv:
  assumes "qor_inv cs ds a p q" "qpacked cs" "sorted_wrt (<) (qflat cs)" "qpacked ds" "sorted_wrt (<) (qflat ds)"
    and "qor_loop cs ds a = Inr a'"
  shows "qor_inv cs ds a' (length (qflat cs)) (length (qflat ds))"
  using assms
proof (induction cs ds a arbitrary: p q rule: qor_loop.induct)
  case (1 cs ds a)
  show ?case
  proof (cases "qor_step cs ds a")
    case (Inl e)
    then show ?thesis using 1(7) by (simp add: qor_loop.simps)
  next
    case (Inr r)
    show ?thesis
    proof (cases r)
      case None
      with Inr have "qor_step cs ds a = Inr None" by simp
      with 1(7) qor_step_None [OF 1(2,3,5)] 1(2) show ?thesis by (auto simp: qor_loop.simps [of cs ds a])
    next
      case (Some a1)
      with Inr have st: "qor_step cs ds a = Inr (Some a1)" by simp
      then obtain p' q' where i: "qor_inv cs ds a1 p' q'" using qor_step_inv [OF 1(2-6)] by blast
      have "qor_loop cs ds a1 = Inr a'" using 1(7) st by (simp add: qor_loop.simps [of cs ds a])
      then show ?thesis using 1(1) [OF Inr Some i 1(3-6)] by simp
    qed
  qed
qed

lemma agfs_qset_or_elems:
  assumes "qs_ok s1" "qs_ok s2" "agfs_qset_or m s1 s2 = Inr (s, m')"
  shows "qs_ok s" "set (qs_elems s) = set (qs_elems s1) \<union> set (qs_elems s2)"
proof -
  let ?a0 = "\<lparr>qo_k1 = 0, qo_i = 0, qo_k2 = 0, qo_j = 0, qo_out = [], qo_wi = 0, qo_n = 0, qo_mem = m\<rparr>"
  let ?cs = "qs_chunks s1" and ?ds = "qs_chunks s2"
  have ok: "qpacked ?cs" "sorted_wrt (<) (qflat ?cs)" "qpacked ?ds" "sorted_wrt (<) (qflat ?ds)"
    "0 \<notin> set (qflat ?cs)" "0 \<notin> set (qflat ?ds)"
    using assms by (auto simp: qs_ok_def qs_elems_def)
  obtain a where a: "qor_loop ?cs ?ds ?a0 = Inr a"
    and s: "s = \<lparr>qs_chunks = qor_out a, qs_count = qo_n a\<rparr>"
    using assms(3) by (auto simp: agfs_qset_or_def qor_out_def split: sum.splits)
  have "qor_inv ?cs ?ds ?a0 0 0"
    using ok by (simp add: qor_inv_def qpos_start qor_out_ok_def qor_out_def)
  from qor_loop_inv [OF this ok(1-4) a] have i: "qor_out_ok a" "sorted_wrt (<) (qflat (qor_out a))"
    "set (qflat (qor_out a)) = set (qflat ?cs) \<union> set (qflat ?ds)"
    by (simp_all add: qor_inv_def)
  have "qlast_used (qor_out a)"
  proof (cases "qo_out a" rule: rev_cases)
    case (snoc cs c)
    then show ?thesis using i(1) by (simp add: qor_out_ok_def qor_out_def qlast_used_def)
  qed (simp add: qor_out_def)
  then show "qs_ok s" using i ok by (simp add: s qs_ok_def qs_elems_def qor_out_ok_def)
  show "set (qs_elems s) = set (qs_elems s1) \<union> set (qs_elems s2)" using i by (simp add: s qs_elems_def)
qed

subsection \<open>Enough memory\<close>

lemma agfs_qchunk_insert_mem:
  "mem_ok m \<Longrightarrow> \<exists>cs' cnt' m'. agfs_qchunk_insert m cs cnt off ino = (cs', cnt', None, m') \<and> mem_ok m'"
proof (induction m cs cnt off ino rule: agfs_qchunk_insert.induct)
  case (2 m c cs cnt off ino)
  let ?s = "qchunk_shift c off ino"
  show ?case
  proof (cases "qc_count ?s \<le> AGFS_QCHUNK_CAP")
    case True
    then show ?thesis using 2(3) by (simp add: Let_def)
  next
    case False
    show ?thesis
    proof (cases cs)
      case Nil
      with 2(1) [OF refl False refl refl Nil] 2(3) False show ?thesis
        by (auto simp: Let_def simp del: agfs_qchunk_insert.simps(2)
            simp add: agfs_qchunk_insert.simps(2) [of m c "[]"])
    next
      case (Cons d ds)
      with 2(2) [OF refl False refl refl Cons 2(3)] False show ?thesis
        by (auto simp: Let_def simp del: agfs_qchunk_insert.simps(2)
            simp add: agfs_qchunk_insert.simps(2) [of m c "d # ds"])
    qed
  qed
qed simp

lemma qset_add_loop_mem:
  "mem_ok m \<Longrightarrow> \<exists>cs' cnt' m'. qset_add_loop m cs cnt ino = (cs', cnt', None, m') \<and> mem_ok m'"
proof (induction m cs cnt ino rule: qset_add_loop.induct)
  case (2 m c cs cnt ino)
  have i: "\<exists>cs' cnt' m'. agfs_qchunk_insert (kmalloc_rest m) [agfs_qchunk_new] cnt 0 ino = (cs', cnt', None, m') \<and> mem_ok m'"
    "\<exists>cs' cnt' m'. agfs_qchunk_insert m (c # cs) cnt (agfs_qchunk_bsearch c ino) ino = (cs', cnt', None, m') \<and> mem_ok m'"
    using 2(2) by (auto intro!: agfs_qchunk_insert_mem simp del: agfs_qchunk_insert.simps)
  show ?case using 2(1) [OF refl _ 2(2)] 2(2) i
    by (auto simp: Let_def simp del: agfs_qchunk_insert.simps)
qed simp

lemma agfs_qset_add_mem:
  "mem_ok m \<Longrightarrow> \<exists>s' m'. agfs_qset_add m s ino = (s', None, m') \<and> mem_ok m'"
  using qset_add_loop_mem [of m "qs_chunks s" "qs_count s" ino]
  by (auto simp: agfs_qset_add_def simp del: qset_add_loop.simps split: list.split)

lemma qor_emit_mem: "mem_ok (qo_mem a) \<Longrightarrow> \<exists>a'. qor_emit v a = Inr a' \<and> mem_ok (qo_mem a')"
  by (simp add: qor_emit_def)

lemma qor_step_mem:
  assumes "mem_ok (qo_mem a)"
  shows "qor_step cs ds a = Inr None \<or> (\<exists>a'. qor_step cs ds a = Inr (Some a') \<and> mem_ok (qo_mem a'))"
proof -
  obtain k1 i where c1: "qcursor cs (qo_k1 a) (qo_i a) = (k1, i)" by fastforce
  obtain k2 j where c2: "qcursor ds (qo_k2 a) (qo_j a) = (k2, j)" by fastforce
  obtain v i' j' where pk: "qor_pick cs ds k1 i k2 j = (v, i', j')" using prod_cases3 by blast
  obtain a' where "qor_emit v (a\<lparr>qo_k1 := k1, qo_i := i', qo_k2 := k2, qo_j := j'\<rparr>) = Inr a'" "mem_ok (qo_mem a')"
    using qor_emit_mem [of "a\<lparr>qo_k1 := k1, qo_i := i', qo_k2 := k2, qo_j := j'\<rparr>" v] assms by auto
  then show ?thesis by (simp add: qor_step_def c1 c2 pk)
qed

lemma qor_loop_mem: "mem_ok (qo_mem a) \<Longrightarrow> \<exists>a'. qor_loop cs ds a = Inr a' \<and> mem_ok (qo_mem a')"
proof (induction cs ds a rule: qor_loop.induct)
  case (1 cs ds a)
  from qor_step_mem [OF 1(2), of cs ds] show ?case
  proof (elim disjE exE conjE)
    fix a' assume "qor_step cs ds a = Inr (Some a')" "mem_ok (qo_mem a')"
    then show ?thesis using 1(1) [OF _ refl, of a'] by (simp add: qor_loop.simps [of cs ds a])
  qed (simp add: qor_loop.simps [of cs ds a] 1(2))
qed

lemma agfs_qset_or_mem: "mem_ok m \<Longrightarrow> \<exists>s m'. agfs_qset_or m s1 s2 = Inr (s, m') \<and> mem_ok m'"
  using qor_loop_mem [of "\<lparr>qo_k1 = 0, qo_i = 0, qo_k2 = 0, qo_j = 0, qo_out = [], qo_wi = 0, qo_n = 0, qo_mem = m\<rparr>"
      "qs_chunks s1" "qs_chunks s2"]
  by (auto simp: agfs_qset_or_def)

subsection \<open>The interface the query evaluation relies on\<close>

locale inode_set =
  fixes ok :: "'s \<Rightarrow> bool"
    and elems :: "'s \<Rightarrow> u32 list"
    and none :: "'s"
    and add :: "mem \<Rightarrow> 's \<Rightarrow> u32 \<Rightarrow> 's \<times> status \<times> mem"
    and conj :: "'s \<Rightarrow> 's \<Rightarrow> 's"
    and disj :: "mem \<Rightarrow> 's \<Rightarrow> 's \<Rightarrow> ('s \<times> mem) result"
  assumes none_ok: "ok none" and none_elems: "elems none = []"
    and ok_sorted: "ok s \<Longrightarrow> sorted_wrt (<) (elems s)"
    and ok_nonzero: "ok s \<Longrightarrow> 0 \<notin> set (elems s)"
    and add_ok: "ok s \<Longrightarrow> add m s x = (s', None, m') \<Longrightarrow> ok s'"
    and add_elems: "ok s \<Longrightarrow> add m s x = (s', None, m') \<Longrightarrow>
      set (elems s') = (if x = 0 then set (elems s) else insert x (set (elems s)))"
    and add_mem: "mem_ok m \<Longrightarrow> \<exists>s' m'. add m s x = (s', None, m') \<and> mem_ok m'"
    and conj_ok: "ok s \<Longrightarrow> ok t \<Longrightarrow> ok (conj s t)"
    and conj_elems: "ok s \<Longrightarrow> ok t \<Longrightarrow> set (elems (conj s t)) = set (elems s) \<inter> set (elems t)"
    and disj_ok: "ok s \<Longrightarrow> ok t \<Longrightarrow> disj m s t = Inr (r, m') \<Longrightarrow> ok r"
    and disj_elems: "ok s \<Longrightarrow> ok t \<Longrightarrow> disj m s t = Inr (r, m') \<Longrightarrow>
      set (elems r) = set (elems s) \<union> set (elems t)"
    and disj_mem: "mem_ok m \<Longrightarrow> \<exists>r m'. disj m s t = Inr (r, m') \<and> mem_ok m'"
begin

text \<open>A set is determined by its members: the sequence is the sorted list of them.\<close>

lemma elems_sorted_list: "ok s \<Longrightarrow> elems s = sorted_list_of_set (set (elems s))"
  using ok_sorted [of s] by (simp add: strict_sorted_iff sorted_list_of_set.idem_if_sorted_distinct)

lemma elems_eqI: "ok s \<Longrightarrow> ok t \<Longrightarrow> set (elems s) = set (elems t) \<Longrightarrow> elems s = elems t"
  using elems_sorted_list by metis

lemma elems_distinct: "ok s \<Longrightarrow> distinct (elems s)"
  using ok_sorted [of s] by (simp add: strict_sorted_iff)

end

interpretation qset: inode_set qs_ok qs_elems agfs_qset_empty agfs_qset_add agfs_qset_and agfs_qset_or
proof unfold_locales
  show "qs_ok agfs_qset_empty" "qs_elems agfs_qset_empty = []"
    by (simp_all add: qs_ok_def qs_elems_def agfs_qset_empty_def)
qed (auto simp: agfs_qset_add_ok agfs_qset_and_elems agfs_qset_or_mem
      dest: agfs_qset_add_ok agfs_qset_or_elems intro: agfs_qset_add_mem, auto simp: qs_ok_def)

subsection \<open>Properties\<close>

text \<open>
  Insertion keeps the set: on a well-formed set with enough memory, \<^verbatim>\<open>agfs_qset_add\<close>
  succeeds, keeps every chunk but the last full and the numbers strictly increasing, and adds
  exactly the given inode number; the number zero is ignored.
\<close>

theorem qset_add_inserts:
  assumes "qs_ok s" "mem_ok m"
  shows "\<exists>s' m'. agfs_qset_add m s ino = (s', None, m') \<and> qs_ok s' \<and> mem_ok m'
    \<and> qs_elems s' = sorted_list_of_set (insert ino (set (qs_elems s)) - {0})"
proof -
  obtain s' m' where a: "agfs_qset_add m s ino = (s', None, m')" "mem_ok m'"
    using agfs_qset_add_mem [OF assms(2)] by blast
  have k: "qs_ok s'" using agfs_qset_add_ok [OF assms(1) a(1)] by simp
  have "set (qs_elems s') = insert ino (set (qs_elems s)) - {0}"
    using agfs_qset_add_ok [OF assms(1) a(1)] qset.ok_nonzero [OF assms(1)] by auto
  then show ?thesis using a k qset.elems_sorted_list [OF k] by metis
qed

theorem qset_add_inserts_witness:
  "\<exists>s' m'. agfs_qset_add [] agfs_qset_empty 9 = (s', None, m') \<and> qs_ok s' \<and> mem_ok m' \<and> qs_elems s' = [9]"
proof -
  have "mem_ok []" by (simp add: mem_ok_def)
  from qset_add_inserts [OF qset.none_ok this, of 9] show ?thesis
    by (simp add: qset.none_elems)
qed

text \<open>
  C20: the intersection in place is safe: although \<^verbatim>\<open>agfs_qset_and\<close> overwrites the chunks of the
  first set while it still reads them, the result is exactly the numbers of the first set that
  are in the second, in order, and well-formed.
\<close>

theorem qset_and_intersects:
  assumes "qs_ok s1" "qs_ok s2"
  shows "qs_ok (agfs_qset_and s1 s2)
    \<and> qs_elems (agfs_qset_and s1 s2) = filter (\<lambda>x. x \<in> set (qs_elems s2)) (qs_elems s1)"
  using agfs_qset_and_elems [OF assms] by simp

definition qset_of :: "u32 list \<Rightarrow> agfs_qset" where
  "qset_of xs = fold (\<lambda>x s. fst (agfs_qset_add [] s x)) xs agfs_qset_empty"

lemma qset_of_ok: "qs_ok (qset_of xs) \<and> set (qs_elems (qset_of xs)) = set xs - {0}"
proof -
  have "qs_ok (fold (\<lambda>x s. fst (agfs_qset_add [] s x)) xs s)
    \<and> set (qs_elems (fold (\<lambda>x s. fst (agfs_qset_add [] s x)) xs s)) = set (qs_elems s) \<union> (set xs - {0})"
    if "qs_ok s" for s
    using that
  proof (induction xs arbitrary: s)
    case (Cons x xs)
    obtain s' m' where a: "agfs_qset_add [] s x = (s', None, m')"
      using agfs_qset_add_mem [of "[]" s x] by (auto simp: mem_ok_def)
    have k: "qs_ok s'" "set (qs_elems s') = (if x = 0 then set (qs_elems s) else insert x (set (qs_elems s)))"
      using agfs_qset_add_ok [OF Cons.prems a] by auto
    show ?case using Cons.IH [OF k(1)] k(2) by (auto simp: a)
  qed simp
  from this [OF qset.none_ok] show ?thesis by (simp add: qset_of_def qset.none_elems)
qed

theorem qset_and_intersects_witness:
  "set (qs_elems (agfs_qset_and (qset_of [7, 3, 5]) (qset_of [5, 7, 9]))) = {5, 7}"
  using qset_and_intersects [of "qset_of [7, 3, 5]" "qset_of [5, 7, 9]"] qset_of_ok [of "[7, 3, 5]"]
    qset_of_ok [of "[5, 7, 9]"] by auto

lemma agfs_qset_or_error: "agfs_qset_or m s1 s2 = Inl e \<Longrightarrow> e = ENOMEM"
proof -
  have "qor_loop cs ds a = Inl e \<Longrightarrow> e = ENOMEM" for cs ds a
  proof (induction cs ds a rule: qor_loop.induct)
    case (1 cs ds a)
    show ?case
    proof (cases "qor_step cs ds a")
      case (Inl e')
      then have "e' = ENOMEM"
        by (auto simp: qor_step_def qor_emit_def Let_def split: if_splits prod.splits sum.splits)
      then show ?thesis using "1.prems" Inl by (simp add: qor_loop.simps [of cs ds a])
    next
      case (Inr r)
      then show ?thesis using 1 by (cases r) (auto simp: qor_loop.simps [of cs ds a])
    qed
  qed
  then show "agfs_qset_or m s1 s2 = Inl e \<Longrightarrow> e = ENOMEM"
    by (auto simp: agfs_qset_or_def split: sum.splits)
qed

text \<open>
  The union: with enough memory \<^verbatim>\<open>agfs_qset_or\<close> succeeds and returns the well-formed set of
  the numbers that are in one of the two sets; when it fails it reports \<^verbatim>\<open>ENOMEM\<close>.
\<close>

theorem qset_or_unites:
  assumes "qs_ok s1" "qs_ok s2"
  shows "(case agfs_qset_or m s1 s2 of
      Inl e \<Rightarrow> e = ENOMEM \<and> \<not> mem_ok m
    | Inr (s, m') \<Rightarrow> qs_ok s \<and> qs_elems s = sorted_list_of_set (set (qs_elems s1) \<union> set (qs_elems s2)))"
proof (cases "agfs_qset_or m s1 s2")
  case (Inl e)
  then show ?thesis using agfs_qset_or_error [OF Inl] agfs_qset_or_mem [of m s1 s2] by auto
next
  case (Inr r)
  obtain s m' where r: "r = (s, m')" by fastforce
  have k: "qs_ok s" "set (qs_elems s) = set (qs_elems s1) \<union> set (qs_elems s2)"
    using agfs_qset_or_elems [OF assms, of m s m'] Inr r by auto
  have "qs_elems s = sorted_list_of_set (set (qs_elems s))" by (rule qset.elems_sorted_list [OF k(1)])
  then show ?thesis using Inr r k by simp
qed

theorem qset_or_unites_witness:
  "(case agfs_qset_or [] (qset_of [7, 3]) (qset_of [5, 7]) of
      Inl e \<Rightarrow> False
    | Inr (s, m') \<Rightarrow> qs_ok s \<and> set (qs_elems s) = {3, 5, 7})"
proof -
  have "set (sorted_list_of_set (set (qs_elems (qset_of [7, 3])) \<union> set (qs_elems (qset_of [5, 7])))) = {3, 5, 7}"
    using qset_of_ok [of "[7, 3]"] qset_of_ok [of "[5, 7]"] by auto
  then show ?thesis using qset_or_unites [of "qset_of [7, 3]" "qset_of [5, 7]" "[]"] qset_of_ok
    by (auto simp: mem_ok_def split: sum.splits)
qed

end
