(* ===== verification/Query_Parse.thy ===== *)
theory Query_Parse
  imports Query_Match Query_Set
begin

text \<open>
  The query parser, \<^verbatim>\<open>fs/agfs/query.c\<close>: a recursive descent over the query text that builds the
  tree of equations, with a bound on the nesting of parentheses and De Morgan negation of
  parenthesised terms.

  A parse function takes the text from the pointer on and returns the tree and the rest of the
  text, or the error number; the nodes it allocates consume the outcomes of \<^verbatim>\<open>kmalloc\<close>. The
  loops of \<^verbatim>\<open>agfs_q_parse_and\<close> and \<^verbatim>\<open>agfs_q_parse_expr\<close> are functions of their own.
\<close>

datatype agfs_qnode = BQ_FORMULA qop "byte list" "byte list"
  | BQ_AND agfs_qnode agfs_qnode
  | BQ_OR agfs_qnode agfs_qnode

type_synonym parsed = "(agfs_qnode \<times> byte list \<times> mem) result"

abbreviation (input) AGFS_BTREE_MAX_KEY_LEN :: nat where "AGFS_BTREE_MAX_KEY_LEN \<equiv> 256"

definition agfs_q_skip :: "byte list \<Rightarrow> byte list" where
  "agfs_q_skip p = dropWhile (\<lambda>c. c = CH_SP \<or> c = CH_TAB \<or> c = CH_NL) p"

fun q_negate_op :: "qop \<Rightarrow> qop" where
  "q_negate_op OP_EQUAL = OP_NOT_EQUAL"
| "q_negate_op OP_NOT_EQUAL = OP_EQUAL"
| "q_negate_op OP_GREATER_THAN = OP_LESS_THAN_OR_EQUAL"
| "q_negate_op OP_GREATER_THAN_OR_EQUAL = OP_LESS_THAN"
| "q_negate_op OP_LESS_THAN = OP_GREATER_THAN_OR_EQUAL"
| "q_negate_op OP_LESS_THAN_OR_EQUAL = OP_GREATER_THAN"

text \<open>The children are negated in place and swapped. Both exist in every tree the parser builds, so the null test never fires.\<close>

fun agfs_q_negate :: "agfs_qnode \<Rightarrow> agfs_qnode" where
  "agfs_q_negate (BQ_FORMULA op attr v) = BQ_FORMULA (q_negate_op op) attr v"
| "agfs_q_negate (BQ_AND l r) = BQ_OR (agfs_q_negate r) (agfs_q_negate l)"
| "agfs_q_negate (BQ_OR l r) = BQ_AND (agfs_q_negate r) (agfs_q_negate l)"

subsection \<open>One equation\<close>

text \<open>The copy loops: characters up to a stop character, \<open>None\<close> when the buffer is full.\<close>

fun q_run :: "(byte \<Rightarrow> bool) \<Rightarrow> byte list \<Rightarrow> nat \<Rightarrow> (byte list \<times> byte list) option" where
  "q_run stop [] n = Some ([], [])"
| "q_run stop (c # p) n =
     (if c = 0 \<or> stop c then Some ([], c # p)
      else if n \<ge> AGFS_BTREE_MAX_KEY_LEN - 1 then None
      else map_option (\<lambda>(v, r). (c # v, r)) (q_run stop p (Suc n)))"

fun q_quoted :: "byte \<Rightarrow> byte list \<Rightarrow> nat \<Rightarrow> (byte list \<times> byte list) option" where
  "q_quoted quote [] n = None"
| "q_quoted quote (c # p) n =
     (if c = 0 then None
      else if c = quote then Some ([], p)
      else if c = CH_BSLASH \<and> ch p \<noteq> 0 then
        (case p of
           [] \<Rightarrow> None
         | d # p' \<Rightarrow>
            (if n \<ge> AGFS_BTREE_MAX_KEY_LEN - 1 then None
             else map_option (\<lambda>(v, r). (d # v, r)) (q_quoted quote p' (Suc n))))
      else if n \<ge> AGFS_BTREE_MAX_KEY_LEN - 1 then None
      else map_option (\<lambda>(v, r). (c # v, r)) (q_quoted quote p (Suc n)))"

definition q_attr_stop :: "byte \<Rightarrow> bool" where
  "q_attr_stop c \<longleftrightarrow> c = CH_EQ \<or> c = CH_BANG \<or> c = CH_GT \<or> c = CH_LT \<or> c = CH_SP \<or> c = CH_TAB
     \<or> c = CH_LPAR \<or> c = CH_RPAR"

definition q_value_stop :: "byte \<Rightarrow> bool" where
  "q_value_stop c \<longleftrightarrow> c = CH_SP \<or> c = CH_TAB \<or> c = CH_RPAR \<or> c = CH_LPAR"

definition q_parse_op :: "byte list \<Rightarrow> (qop \<times> byte list) option" where
  "q_parse_op p =
     (if ch p = CH_EQ then Some (OP_EQUAL, drop 1 p)
      else if ch p = CH_BANG \<and> ch_at p 1 = CH_EQ then Some (OP_NOT_EQUAL, drop 2 p)
      else if ch p = CH_GT \<and> ch_at p 1 = CH_EQ then Some (OP_GREATER_THAN_OR_EQUAL, drop 2 p)
      else if ch p = CH_GT then Some (OP_GREATER_THAN, drop 1 p)
      else if ch p = CH_LT \<and> ch_at p 1 = CH_EQ then Some (OP_LESS_THAN_OR_EQUAL, drop 2 p)
      else if ch p = CH_LT then Some (OP_LESS_THAN, drop 1 p)
      else None)"

definition q_parse_val :: "byte list \<Rightarrow> (byte list \<times> byte list) option" where
  "q_parse_val p =
     (if ch p = CH_QUOTE \<or> ch p = CH_DQUOTE then q_quoted (ch p) (tl p) 0
      else q_run q_value_stop p 0)"

definition agfs_q_parse_formula :: "mem \<Rightarrow> byte list \<Rightarrow> parsed" where
  "agfs_q_parse_formula m p =
     (if \<not> kmalloc_ok m then Inl ENOMEM
      else
        (case q_run q_attr_stop p 0 of
           None \<Rightarrow> Inl EINVAL
         | Some (attr, p1) \<Rightarrow>
            (let p2 = agfs_q_skip p1 in
             if ch p2 = 0 then Inl EINVAL
             else
               (case q_parse_op p2 of
                  None \<Rightarrow> Inl EINVAL
                | Some (op, p3) \<Rightarrow>
                   (let p4 = agfs_q_skip p3 in
                    if ch p4 = 0 then Inl EINVAL
                    else
                      (case q_parse_val p4 of
                         None \<Rightarrow> Inl EINVAL
                       | Some (v, p5) \<Rightarrow> Inr (BQ_FORMULA op attr v, p5, kmalloc_rest m)))))))"

subsection \<open>Terms, conjunctions, disjunctions\<close>

definition q_close :: "parsed \<Rightarrow> parsed" where
  "q_close r =
     (case r of
        Inl e \<Rightarrow> Inl e
      | Inr (n, p, m) \<Rightarrow>
         (let p' = agfs_q_skip p in
          if ch p' \<noteq> CH_RPAR then Inl EINVAL else Inr (n, tl p', m)))"

function agfs_q_parse_term :: "mem \<Rightarrow> byte list \<Rightarrow> nat \<Rightarrow> parsed"
  and agfs_q_parse_and :: "mem \<Rightarrow> byte list \<Rightarrow> nat \<Rightarrow> parsed"
  and q_and_loop :: "mem \<Rightarrow> agfs_qnode \<Rightarrow> byte list \<Rightarrow> nat \<Rightarrow> parsed"
  and agfs_q_parse_expr :: "mem \<Rightarrow> byte list \<Rightarrow> nat \<Rightarrow> parsed"
  and q_or_loop :: "mem \<Rightarrow> agfs_qnode \<Rightarrow> byte list \<Rightarrow> nat \<Rightarrow> parsed" where
  "agfs_q_parse_term m p0 depth =
     (let p = agfs_q_skip p0 in
      if ch p = CH_LPAR then
        (if depth \<ge> 32 then Inl EINVAL else q_close (agfs_q_parse_expr m (tl p) (depth + 1)))
      else if ch p = CH_BANG then
        (let p1 = agfs_q_skip (tl p) in
         if ch p1 \<noteq> CH_LPAR then Inl EINVAL
         else if depth \<ge> 32 then Inl EINVAL
         else
           (case q_close (agfs_q_parse_expr m (tl p1) (depth + 1)) of
              Inl e \<Rightarrow> Inl e
            | Inr (n, p2, m2) \<Rightarrow> Inr (agfs_q_negate n, p2, m2)))
      else agfs_q_parse_formula m p)"
| "agfs_q_parse_and m p depth =
     (case agfs_q_parse_term m p depth of
        Inl e \<Rightarrow> Inl e
      | Inr (n, p1, m1) \<Rightarrow> q_and_loop m1 n p1 depth)"
| "q_and_loop m n p0 depth =
     (let p = agfs_q_skip p0 in
      if ch p = CH_AMP \<and> ch_at p 1 = CH_AMP then
        (case agfs_q_parse_term m (drop 2 p) depth of
           Inl e \<Rightarrow> Inl e
         | Inr (r, p1, m1) \<Rightarrow>
            (if \<not> kmalloc_ok m1 then Inl ENOMEM
             else q_and_loop (kmalloc_rest m1) (BQ_AND n r) p1 depth))
      else Inr (n, p0, m))"
| "agfs_q_parse_expr m p depth =
     (case agfs_q_parse_and m p depth of
        Inl e \<Rightarrow> Inl e
      | Inr (n, p1, m1) \<Rightarrow> q_or_loop m1 n p1 depth)"
| "q_or_loop m n p0 depth =
     (let p = agfs_q_skip p0 in
      if ch p = CH_BAR \<and> ch_at p 1 = CH_BAR then
        (case agfs_q_parse_and m (drop 2 p) depth of
           Inl e \<Rightarrow> Inl e
         | Inr (r, p1, m1) \<Rightarrow>
            (if \<not> kmalloc_ok m1 then Inl ENOMEM
             else q_or_loop (kmalloc_rest m1) (BQ_OR n r) p1 depth))
      else Inr (n, p0, m))"
  by pat_completeness auto

text \<open>What a parse function returns is a rest of the text, so the loops make progress.\<close>

definition q_rest :: "byte list \<Rightarrow> parsed \<Rightarrow> bool" where
  "q_rest p r \<longleftrightarrow> (case r of Inl _ \<Rightarrow> True | Inr (n, p', m') \<Rightarrow> length p' \<le> length p)"

lemma q_restD: "q_rest p r \<Longrightarrow> r = Inr (n, p', m') \<Longrightarrow> length p' \<le> length p"
  by (simp add: q_rest_def)

lemma q_rest_Inl [simp]: "q_rest p (Inl e)"
  by (simp add: q_rest_def)

lemma q_rest_Inr [simp]: "q_rest p (Inr (n, p', m')) \<longleftrightarrow> length p' \<le> length p"
  by (simp add: q_rest_def)

lemma length_agfs_q_skip: "length (agfs_q_skip p) \<le> length p"
  by (simp add: agfs_q_skip_def length_dropWhile_le)

lemma q_run_rest: "q_run stop p n = Some (v, r) \<Longrightarrow> length r \<le> length p"
  by (induction stop p n arbitrary: v r rule: q_run.induct) (fastforce split: if_splits)+

lemma q_quoted_rest: "q_quoted quote p n = Some (v, r) \<Longrightarrow> length r \<le> length p"
proof (induction quote p n arbitrary: v r rule: q_quoted.induct)
  case (2 quote c p n)
  then show ?case by (fastforce split: if_splits list.splits)
qed simp

lemma q_parse_op_rest: "q_parse_op p = Some (op, r) \<Longrightarrow> length r < length p"
  by (auto simp: q_parse_op_def ch_def split: if_splits list.splits)

lemma q_parse_val_rest: "q_parse_val p = Some (v, r) \<Longrightarrow> length r \<le> length p"
  using q_quoted_rest [of "ch p" "tl p" 0 v r] q_run_rest [of q_value_stop p 0 v r]
  by (auto simp: q_parse_val_def split: if_splits)

lemma agfs_q_parse_formula_rest: "q_rest p (agfs_q_parse_formula m p)"
proof -
  have "length p5 \<le> length p"
    if "q_run q_attr_stop p 0 = Some (attr, p1)" "q_parse_op (agfs_q_skip p1) = Some (op, p3)"
      "q_parse_val (agfs_q_skip p3) = Some (v, p5)" for attr p1 op p3 v p5
    using q_run_rest [OF that(1)] q_parse_op_rest [OF that(2)] q_parse_val_rest [OF that(3)]
      length_agfs_q_skip [of p1] length_agfs_q_skip [of p3] by linarith
  then show ?thesis by (auto simp: agfs_q_parse_formula_def Let_def split: option.splits)
qed

lemma q_close_rest: "q_rest p r \<Longrightarrow> q_rest p (q_close r)"
proof -
  assume r: "q_rest p r"
  have "length (tl (agfs_q_skip x)) \<le> length p" if "length x \<le> length p" for x
    using that length_agfs_q_skip [of x] by simp
  then show ?thesis using r by (auto simp: q_close_def q_rest_def Let_def split: sum.splits if_splits)
qed

lemma q_rest_mono: "q_rest p r \<Longrightarrow> length p \<le> length q \<Longrightarrow> q_rest q r"
  by (auto simp: q_rest_def split: sum.splits)

lemma length_drop2_skip:
  "ch (agfs_q_skip p) \<noteq> 0 \<Longrightarrow> length (drop 2 (agfs_q_skip p)) < length p"
  using length_agfs_q_skip [of p] by (cases "agfs_q_skip p") (auto simp: ch_def)

lemma length_tl_skip: "ch (agfs_q_skip p) \<noteq> 0 \<Longrightarrow> length (tl (agfs_q_skip p)) < length p"
  using length_agfs_q_skip [of p] by (cases "agfs_q_skip p") (auto simp: ch_def)

lemma q_parse_rest:
  "agfs_q_parse_term_agfs_q_parse_and_q_and_loop_agfs_q_parse_expr_q_or_loop_dom (Inl (Inl (m, p, d)))
     \<Longrightarrow> q_rest p (agfs_q_parse_term m p d)"
  "agfs_q_parse_term_agfs_q_parse_and_q_and_loop_agfs_q_parse_expr_q_or_loop_dom (Inl (Inr (m, p, d)))
     \<Longrightarrow> q_rest p (agfs_q_parse_and m p d)"
  "agfs_q_parse_term_agfs_q_parse_and_q_and_loop_agfs_q_parse_expr_q_or_loop_dom (Inr (Inl (m, n, p, d)))
     \<Longrightarrow> q_rest p (q_and_loop m n p d)"
  "agfs_q_parse_term_agfs_q_parse_and_q_and_loop_agfs_q_parse_expr_q_or_loop_dom (Inr (Inr (Inl (m, p, d))))
     \<Longrightarrow> q_rest p (agfs_q_parse_expr m p d)"
  "agfs_q_parse_term_agfs_q_parse_and_q_and_loop_agfs_q_parse_expr_q_or_loop_dom (Inr (Inr (Inr (m, n, p, d))))
     \<Longrightarrow> q_rest p (q_or_loop m n p d)"
proof (induction m p d and m p d and m n p d and m p d and m n p d
    rule: agfs_q_parse_term_agfs_q_parse_and_q_and_loop_agfs_q_parse_expr_q_or_loop.pinduct)
  case (1 m p0 depth)
  let ?p = "agfs_q_skip p0" and ?p1 = "agfs_q_skip (tl (agfs_q_skip p0))"
  have a: "q_rest p0 (q_close (agfs_q_parse_expr m (tl ?p) (depth + 1)))" if "ch ?p = CH_LPAR" "\<not> 32 \<le> depth"
    using q_rest_mono [OF q_close_rest [OF 1(2) [OF refl that]]] length_tl_skip [of p0] that by simp
  have b: "q_rest p0 (q_close (agfs_q_parse_expr m (tl ?p1) (depth + 1)))"
    if "ch ?p = CH_BANG" "ch ?p1 = CH_LPAR" "\<not> 32 \<le> depth"
  proof -
    have "length (tl ?p1) \<le> length p0"
      using length_tl_skip [of p0] length_tl_skip [of "tl ?p"] that by simp
    then show ?thesis using q_rest_mono [OF q_close_rest [OF 1(3) [OF refl _ that(1) refl _ that(3)]]] that by simp
  qed
  have c: "q_rest p0 (agfs_q_parse_formula m ?p)"
    using q_rest_mono [OF agfs_q_parse_formula_rest length_agfs_q_skip] .
  show ?case unfolding agfs_q_parse_term.psimps [OF 1(1)] using a b c
    by (auto simp: Let_def split: sum.splits)
next
  case (2 m p depth)
  show ?case
  proof (cases "agfs_q_parse_term m p depth")
    case (Inr b)
    obtain x xa ya where b: "b = (x, xa, ya)" by (cases b)
    have "length xa \<le> length p" using 2(2) Inr b by simp
    then show ?thesis unfolding agfs_q_parse_and.psimps [OF 2(1)]
      using q_rest_mono [OF 2(3) [OF Inr, of x "(xa, ya)" xa ya]] Inr b by simp
  qed (simp add: agfs_q_parse_and.psimps [OF 2(1)])
next
  case (3 m n p0 depth)
  let ?p = "agfs_q_skip p0"
  show ?case
  proof (cases "ch ?p = CH_AMP \<and> ch_at ?p 1 = CH_AMP")
    case True
    then have l: "length (drop 2 ?p) \<le> length p0" using length_drop2_skip [of p0] by simp
    show ?thesis
    proof (cases "agfs_q_parse_term m (drop 2 ?p) depth")
      case (Inl e)
      then show ?thesis unfolding q_and_loop.psimps [OF 3(1)] using True by (simp add: Let_def)
    next
      case (Inr b)
      obtain r xa ya where b: "b = (r, xa, ya)" by (cases b)
      have "length xa \<le> length p0" using 3(2) [OF refl True] Inr b l by simp
      then show ?thesis unfolding q_and_loop.psimps [OF 3(1)]
        using q_rest_mono [OF 3(3) [OF refl True Inr, of r "(xa, ya)" xa ya]] Inr b True by (simp add: Let_def)
    qed
  next
    case False
    then show ?thesis unfolding q_and_loop.psimps [OF 3(1)] by (auto simp: Let_def)
  qed
next
  case (4 m p depth)
  show ?case
  proof (cases "agfs_q_parse_and m p depth")
    case (Inr b)
    obtain x xa ya where b: "b = (x, xa, ya)" by (cases b)
    have "length xa \<le> length p" using 4(2) Inr b by simp
    then show ?thesis unfolding agfs_q_parse_expr.psimps [OF 4(1)]
      using q_rest_mono [OF 4(3) [OF Inr, of x "(xa, ya)" xa ya]] Inr b by simp
  qed (simp add: agfs_q_parse_expr.psimps [OF 4(1)])
next
  case (5 m n p0 depth)
  let ?p = "agfs_q_skip p0"
  show ?case
  proof (cases "ch ?p = CH_BAR \<and> ch_at ?p 1 = CH_BAR")
    case True
    then have l: "length (drop 2 ?p) \<le> length p0" using length_drop2_skip [of p0] by simp
    show ?thesis
    proof (cases "agfs_q_parse_and m (drop 2 ?p) depth")
      case (Inl e)
      then show ?thesis unfolding q_or_loop.psimps [OF 5(1)] using True by (simp add: Let_def)
    next
      case (Inr b)
      obtain r xa ya where b: "b = (r, xa, ya)" by (cases b)
      have "length xa \<le> length p0" using 5(2) [OF refl True] Inr b l by simp
      then show ?thesis unfolding q_or_loop.psimps [OF 5(1)]
        using q_rest_mono [OF 5(3) [OF refl True Inr, of r "(xa, ya)" xa ya]] Inr b True by (simp add: Let_def)
    qed
  next
    case False
    then show ?thesis unfolding q_or_loop.psimps [OF 5(1)] by (auto simp: Let_def)
  qed
qed

termination agfs_q_parse_term
proof (relation "measures
    [\<lambda>x. case x of Inl (Inl (m, p, d)) \<Rightarrow> length p | Inl (Inr (m, p, d)) \<Rightarrow> length p
       | Inr (Inl (m, n, p, d)) \<Rightarrow> length p | Inr (Inr (Inl (m, p, d))) \<Rightarrow> length p
       | Inr (Inr (Inr (m, n, p, d))) \<Rightarrow> length p,
     \<lambda>x. case x of Inl (Inl _) \<Rightarrow> 0 | Inl (Inr _) \<Rightarrow> 2 | Inr (Inl _) \<Rightarrow> 1 | Inr (Inr (Inl _)) \<Rightarrow> 3
       | Inr (Inr (Inr _)) \<Rightarrow> 1]", goal_cases)
  case (2 m p0 depth p)
  then show ?case using length_tl_skip [of p0] by simp
next
  case (3 m p0 depth p p1)
  then show ?case using length_tl_skip [of p0] length_tl_skip [of "tl p"] by auto
next
  case (5 m p depth b x y xa ya)
  then show ?case using q_restD [OF q_parse_rest(1) [OF 5(4)]] by (auto simp: less_Suc_eq_le order_le_less)
next
  case (6 m n p0 depth x)
  then show ?case using length_drop2_skip [of p0] by auto
next
  case (7 m n p0 depth x b xa y xb ya)
  then have "length xb \<le> length (drop 2 x)" using q_restD [OF q_parse_rest(1) [OF 7(7)]] by auto
  then show ?case using 7 length_drop2_skip [of p0] by auto
next
  case (9 m p depth b x y xa ya)
  then show ?case using q_restD [OF q_parse_rest(2) [OF 9(4)]] by (auto simp: less_Suc_eq_le order_le_less)
next
  case (10 m n p0 depth x)
  then show ?case using length_drop2_skip [of p0] by auto
next
  case (11 m n p0 depth x b xa y xb ya)
  then have "length xb \<le> length (drop 2 x)" using q_restD [OF q_parse_rest(2) [OF 11(7)]] by auto
  then show ?case using 11 length_drop2_skip [of p0] by auto
qed auto

declare agfs_q_parse_term.simps [simp del] agfs_q_parse_and.simps [simp del] q_and_loop.simps [simp del]
  agfs_q_parse_expr.simps [simp del] q_or_loop.simps [simp del]

end
