(* ===== verification/Query_Eval.thy ===== *)
theory Query_Eval
  imports Query_Parse
begin

text \<open>
  The evaluation of a query, \<^verbatim>\<open>fs/agfs/query.c\<close>: one equation by a walk of the attribute's index,
  the trees by the set operations, and the entry point \<^verbatim>\<open>agfs_query\<close>.

  What the engine reads of the volume is a record of functions: the inode cache, the lookup in
  the index directory, the mode and the tree header of an index file, and the pairs of key and
  inode number that a walk of its tree visits, with the status in which the walk ends.
\<close>

record 'i qvol =
  qv_indices_inode :: u32
  qv_iget :: "u32 \<Rightarrow> 'i option"
  qv_btree_find :: "'i \<Rightarrow> byte list \<Rightarrow> u32"
  qv_raw_mode :: "'i \<Rightarrow> u32"
  qv_header_type :: "'i \<Rightarrow> qtype result"
  qv_entries :: "'i \<Rightarrow> (byte list \<times> u32) list"
  qv_walk_end :: "'i \<Rightarrow> status"

definition agfs_q_index_dtype :: "u32 \<Rightarrow> qtype option" where
  "agfs_q_index_dtype m =
     (if m AND 0x01000000 \<noteq> 0 then Some STRING_TYPE
      else if m AND 0x02000000 \<noteq> 0 then Some INT32_TYPE
      else if m AND 0x04000000 \<noteq> 0 then Some UINT32_TYPE
      else if m AND 0x00200000 \<noteq> 0 then Some INT64_TYPE
      else if m AND 0x00400000 \<noteq> 0 then Some UINT64_TYPE
      else if m AND 0x00800000 \<noteq> 0 then Some FLOAT_TYPE
      else if m AND 0x00040000 \<noteq> 0 then Some DOUBLE_TYPE
      else None)"

definition agfs_q_find_index :: "'i qvol \<Rightarrow> byte list \<Rightarrow> ('i \<times> qtype) option" where
  "agfs_q_find_index sb attr =
     (if qv_indices_inode sb = 0 then None
      else
        (case qv_iget sb (qv_indices_inode sb) of
           None \<Rightarrow> None
         | Some dir \<Rightarrow>
            (let ino = qv_btree_find sb dir attr in
             if ino = 0 then None
             else
               (case qv_iget sb ino of
                  None \<Rightarrow> None
                | Some idx \<Rightarrow>
                   (case agfs_q_index_dtype (qv_raw_mode sb idx) of
                      None \<Rightarrow> None
                    | Some dtype \<Rightarrow> Some (idx, dtype))))))"

text \<open>The walk of an index stops at the first nonzero result of the callback, and then reports success.\<close>

fun q_walk ::
    "(byte list \<Rightarrow> u32 \<Rightarrow> 's \<Rightarrow> 's \<times> status) \<Rightarrow> status \<Rightarrow> (byte list \<times> u32) list \<Rightarrow> 's \<Rightarrow> 's \<times> status" where
  "q_walk fn fin [] st = (st, fin)"
| "q_walk fn fin ((key, ino) # es) st =
     (case fn key ino st of
        (st', Some e) \<Rightarrow> (st', None)
      | (st', None) \<Rightarrow> q_walk fn fin es st')"

definition q_iterate_values ::
    "'i qvol \<Rightarrow> 'i \<Rightarrow> qtype \<Rightarrow> (byte list \<Rightarrow> u32 \<Rightarrow> 's \<Rightarrow> 's \<times> status) \<Rightarrow> 's \<Rightarrow> 's \<times> status" where
  "q_iterate_values sb idx dtype fn st =
     (case qv_header_type sb idx of
        Inl e \<Rightarrow> (st, Some e)
      | Inr t \<Rightarrow>
         (if t \<noteq> dtype \<and> dtype \<noteq> STRING_TYPE then (st, Some EINVAL)
          else q_walk fn (qv_walk_end sb idx) (qv_entries sb idx) st))"

definition agfs_q_collect_cb ::
    "fpu \<Rightarrow> q_ctx \<Rightarrow> byte list \<Rightarrow> u32 \<Rightarrow> agfs_qset \<times> mem \<Rightarrow> (agfs_qset \<times> mem) \<times> status" where
  "agfs_q_collect_cb fp c key ino st =
     (if agfs_q_key_matches fp c key then
        (let (s', res, m') = agfs_qset_add (snd st) (fst st) ino in ((s', m'), res))
      else (st, None))"

definition q_formula_ctx :: "fpu \<Rightarrow> qtype \<Rightarrow> qop \<Rightarrow> byte list \<Rightarrow> q_ctx result" where
  "q_formula_ctx fp dtype op v =
     (if dtype = STRING_TYPE then
        Inr \<lparr>qx_op = op, qx_value = v, qx_dtype = dtype, qx_key = v,
             qx_use_pattern = ((op = OP_EQUAL \<or> op = OP_NOT_EQUAL) \<and> agfs_q_is_pattern v)\<rparr>
      else
        (case agfs_q_parse_value fp dtype v of
           Inl e \<Rightarrow> Inl EINVAL
         | Inr k \<Rightarrow> Inr \<lparr>qx_op = op, qx_value = v, qx_dtype = dtype, qx_key = k,
                          qx_use_pattern = False\<rparr>))"

definition agfs_q_eval_formula ::
    "fpu \<Rightarrow> 'i qvol \<Rightarrow> mem \<Rightarrow> qop \<Rightarrow> byte list \<Rightarrow> byte list \<Rightarrow> (agfs_qset \<times> mem) result" where
  "agfs_q_eval_formula fp sb m op attr v =
     (case agfs_q_find_index sb attr of
        None \<Rightarrow> Inr (agfs_qset_empty, m)
      | Some (idx, dtype) \<Rightarrow>
         (case q_formula_ctx fp dtype op v of
            Inl e \<Rightarrow> Inl e
          | Inr c \<Rightarrow>
             (case q_iterate_values sb idx dtype (agfs_q_collect_cb fp c) (agfs_qset_empty, m) of
                (st, Some e) \<Rightarrow> Inl e
              | (st, None) \<Rightarrow> Inr st)))"

fun agfs_q_eval :: "fpu \<Rightarrow> 'i qvol \<Rightarrow> mem \<Rightarrow> agfs_qnode \<Rightarrow> (agfs_qset \<times> mem) result" where
  "agfs_q_eval fp sb m (BQ_FORMULA op attr v) = agfs_q_eval_formula fp sb m op attr v"
| "agfs_q_eval fp sb m (BQ_AND l r) =
     (case agfs_q_eval fp sb m l of
        Inl e \<Rightarrow> Inl e
      | Inr (s1, m1) \<Rightarrow>
         (case agfs_q_eval fp sb m1 r of
            Inl e \<Rightarrow> Inl e
          | Inr (s2, m2) \<Rightarrow> Inr (agfs_qset_and s1 s2, m2)))"
| "agfs_q_eval fp sb m (BQ_OR l r) =
     (case agfs_q_eval fp sb m l of
        Inl e \<Rightarrow> Inl e
      | Inr (s1, m1) \<Rightarrow>
         (case agfs_q_eval fp sb m1 r of
            Inl e \<Rightarrow> Inl e
          | Inr (s2, m2) \<Rightarrow> agfs_qset_or m2 s1 s2))"

text \<open>The copy of the result to the caller's array, chunk by chunk, up to \<open>n\<close> entries.\<close>

fun q_copy_out :: "agfs_qchunk list \<Rightarrow> nat \<Rightarrow> nat \<Rightarrow> u32 list" where
  "q_copy_out [] d n = []"
| "q_copy_out (c # cs) d n =
     (if d < n then
        (let k = (if d + qc_count c > n then n - d else qc_count c)
         in take k (qc_inos c) @ q_copy_out cs (d + k) n)
      else [])"

text \<open>The result: the total number of matches and the inode numbers written, or the error.\<close>

definition agfs_query :: "fpu \<Rightarrow> 'i qvol \<Rightarrow> mem \<Rightarrow> byte list option \<Rightarrow> nat \<Rightarrow> (nat \<times> u32 list) result" where
  "agfs_query fp sb m qo cap =
     (case qo of
        None \<Rightarrow> Inr (0, [])
      | Some q \<Rightarrow>
         (if ch q = 0 \<or> ch (agfs_q_skip q) = 0 then Inr (0, [])
          else
            (case agfs_q_parse_expr m q 0 of
               Inl e \<Rightarrow> Inl e
             | Inr (tree, p, m1) \<Rightarrow>
                (if ch (agfs_q_skip p) \<noteq> 0 then Inl EINVAL
                 else
                   (case agfs_q_eval fp sb m1 tree of
                      Inl e \<Rightarrow> Inl e
                    | Inr (s, m2) \<Rightarrow>
                       (let n = (if qs_count s < cap then qs_count s else cap)
                        in Inr (qs_count s, q_copy_out (qs_chunks s) 0 n)))))))"

subsection \<open>The meaning of a query tree\<close>

text \<open>The inodes of an equation: those under a key of the attribute's index that satisfies it.\<close>

fun q_sem :: "fpu \<Rightarrow> 'i qvol \<Rightarrow> agfs_qnode \<Rightarrow> u32 set" where
  "q_sem fp sb (BQ_FORMULA op attr v) =
     (case agfs_q_find_index sb attr of
        None \<Rightarrow> {}
      | Some (idx, dtype) \<Rightarrow>
         (case q_formula_ctx fp dtype op v of
            Inl e \<Rightarrow> {}
          | Inr c \<Rightarrow> snd ` {e \<in> set (qv_entries sb idx). agfs_q_key_matches fp c (fst e)} - {0}))"
| "q_sem fp sb (BQ_AND l r) = q_sem fp sb l \<inter> q_sem fp sb r"
| "q_sem fp sb (BQ_OR l r) = q_sem fp sb l \<union> q_sem fp sb r"

text \<open>The indices a tree names can be read: the header has the type of the index, the walk ends without error.\<close>

fun q_readable :: "'i qvol \<Rightarrow> agfs_qnode \<Rightarrow> bool" where
  "q_readable sb (BQ_FORMULA op attr v) =
     (case agfs_q_find_index sb attr of
        None \<Rightarrow> True
      | Some (idx, dtype) \<Rightarrow>
         (case qv_header_type sb idx of
            Inl e \<Rightarrow> False
          | Inr t \<Rightarrow> (t = dtype \<or> dtype = STRING_TYPE) \<and> qv_walk_end sb idx = None))"
| "q_readable sb (BQ_AND l r) = (q_readable sb l \<and> q_readable sb r)"
| "q_readable sb (BQ_OR l r) = (q_readable sb l \<and> q_readable sb r)"

context inode_set
begin

lemma walk_collects:
  assumes cb: "\<And>key ino s m. fn key ino (s, m) =
      (if P key then (let (s', r, m') = add m s ino in ((s', m'), r)) else ((s, m), None))"
    and "ok s" "mem_ok m"
  shows "\<exists>s' m'. q_walk fn fin es (s, m) = ((s', m'), fin) \<and> ok s' \<and> mem_ok m'
    \<and> set (elems s') = set (elems s) \<union> (snd ` {e \<in> set es. P (fst e)} - {0})"
  using assms(2,3)
proof (induction es arbitrary: s m)
  case (Cons e es)
  obtain key ino where e: "e = (key, ino)" by fastforce
  show ?case
  proof (cases "P key")
    case True
    obtain s1 m1 where a: "add m s ino = (s1, None, m1)" "mem_ok m1" using add_mem [OF Cons.prems(2)] by blast
    note k = add_ok [OF Cons.prems(1) a(1)] add_elems [OF Cons.prems(1) a(1)]
    obtain s' m' where r: "q_walk fn fin es (s1, m1) = ((s', m'), fin)" "ok s'" "mem_ok m'"
      "set (elems s') = set (elems s1) \<union> (snd ` {e \<in> set es. P (fst e)} - {0})"
      using Cons.IH [OF k(1) a(2)] by blast
    have "q_walk fn fin (e # es) (s, m) = ((s', m'), fin)" using r(1) True by (simp add: e cb a(1))
    moreover have "set (elems s') = set (elems s) \<union> (snd ` {x \<in> set (e # es). P (fst x)} - {0})"
      using r(4) k(2) True by (auto simp: e image_iff split: if_splits)
    ultimately show ?thesis using r(2,3) by blast
  next
    case False
    then show ?thesis using Cons.IH [OF Cons.prems] by (auto simp: e cb)
  qed
qed simp

lemma elems_of_set: "ok s \<Longrightarrow> set (elems s) = S \<Longrightarrow> elems s = sorted_list_of_set S \<and> length (elems s) = card S"
  using elems_sorted_list elems_distinct distinct_card by metis

end

lemma agfs_q_eval_formula_sem:
  assumes "q_readable sb (BQ_FORMULA op attr v)" "mem_ok m"
  shows "\<exists>s m'. agfs_q_eval_formula fp sb m op attr v = Inr (s, m') \<and> qs_ok s \<and> mem_ok m'
    \<and> set (qs_elems s) = q_sem fp sb (BQ_FORMULA op attr v)"
proof (cases "agfs_q_find_index sb attr")
  case None
  then show ?thesis using assms(2) qset.none_ok qset.none_elems by (simp add: agfs_q_eval_formula_def)
next
  case (Some x)
  obtain idx dtype where x: "x = (idx, dtype)" by fastforce
  obtain t where t: "qv_header_type sb idx = Inr t" "t = dtype \<or> dtype = STRING_TYPE" "qv_walk_end sb idx = None"
    using assms(1) Some x by (auto split: sum.splits)
  obtain c where c: "q_formula_ctx fp dtype op v = Inr c"
    by (cases dtype) (auto simp: q_formula_ctx_def agfs_q_parse_value_def Let_def)
  have cb: "agfs_q_collect_cb fp c key ino (s, m) =
      (if agfs_q_key_matches fp c key then (let (s', r, m') = agfs_qset_add m s ino in ((s', m'), r))
       else ((s, m), None))" for key ino s m
    by (simp add: agfs_q_collect_cb_def)
  from qset.walk_collects [where fn = "agfs_q_collect_cb fp c" and P = "agfs_q_key_matches fp c"
      and fin = None and es = "qv_entries sb idx", OF cb qset.none_ok assms(2)]
  obtain s m' where "q_walk (agfs_q_collect_cb fp c) None (qv_entries sb idx) (agfs_qset_empty, m) = ((s, m'), None)"
    "qs_ok s" "mem_ok m'"
    "set (qs_elems s) = snd ` {e \<in> set (qv_entries sb idx). agfs_q_key_matches fp c (fst e)} - {0}"
    using qset.none_elems by auto
  then show ?thesis using Some x t c
    by (auto simp: agfs_q_eval_formula_def q_iterate_values_def)
qed

lemma agfs_q_eval_sem:
  "q_readable sb t \<Longrightarrow> mem_ok m \<Longrightarrow>
     \<exists>s m'. agfs_q_eval fp sb m t = Inr (s, m') \<and> qs_ok s \<and> mem_ok m' \<and> set (qs_elems s) = q_sem fp sb t"
proof (induction t arbitrary: m)
  case (BQ_FORMULA op attr v)
  then show ?case using agfs_q_eval_formula_sem by (simp del: q_sem.simps q_readable.simps)
next
  case (BQ_AND l r)
  from BQ_AND.IH(1) [of m] BQ_AND.prems obtain s1 m1 where
    l: "agfs_q_eval fp sb m l = Inr (s1, m1)" "qs_ok s1" "mem_ok m1" "set (qs_elems s1) = q_sem fp sb l" by auto
  from BQ_AND.IH(2) [OF _ l(3)] BQ_AND.prems obtain s2 m2 where
    r: "agfs_q_eval fp sb m1 r = Inr (s2, m2)" "qs_ok s2" "mem_ok m2" "set (qs_elems s2) = q_sem fp sb r" by auto
  then show ?case using l qset.conj_ok qset.conj_elems by simp
next
  case (BQ_OR l r)
  from BQ_OR.IH(1) [of m] BQ_OR.prems obtain s1 m1 where
    l: "agfs_q_eval fp sb m l = Inr (s1, m1)" "qs_ok s1" "mem_ok m1" "set (qs_elems s1) = q_sem fp sb l" by auto
  from BQ_OR.IH(2) [OF _ l(3)] BQ_OR.prems obtain s2 m2 where
    r: "agfs_q_eval fp sb m1 r = Inr (s2, m2)" "qs_ok s2" "mem_ok m2" "set (qs_elems s2) = q_sem fp sb r" by auto
  obtain s m' where o: "agfs_qset_or m2 s1 s2 = Inr (s, m')" "mem_ok m'" using qset.disj_mem [OF r(3)] by blast
  show ?case using l r o qset.disj_ok [OF l(2) r(2) o(1)] qset.disj_elems [OF l(2) r(2) o(1)] by simp
qed

lemma q_copy_out_take:
  assumes "list_all qchunk_ok cs"
  shows "q_copy_out cs d n = take (n - d) (qflat cs)"
  using assms
proof (induction cs d n rule: q_copy_out.induct)
  case (2 c cs d n)
  show ?case
  proof (cases "d < n")
    case True
    let ?k = "if d + qc_count c > n then n - d else qc_count c"
    have k: "take ?k (qc_inos c) = take (n - d) (qlive c)"
    proof (cases "d + qc_count c > n")
      case False
      then have "min (n - d) (qc_count c) = qc_count c" by simp
      then show ?thesis using False by (simp add: qlive_def)
    next
      case True
      then have "min (n - d) (qc_count c) = n - d" by simp
      then show ?thesis using True by (simp add: qlive_def)
    qed
    have "q_copy_out cs (d + ?k) n = take (n - (d + ?k)) (qflat cs)" using 2 True by simp
    moreover have "n - (d + ?k) = (n - d) - length (qlive c)" using True 2(2) by auto
    ultimately show ?thesis using True k by (simp add: Let_def)
  qed simp
qed simp

subsection \<open>Memory through the parser\<close>

definition parsed_mem_ok :: "parsed \<Rightarrow> bool" where
  "parsed_mem_ok r \<longleftrightarrow> (case r of Inl _ \<Rightarrow> True | Inr (n, p, m) \<Rightarrow> mem_ok m)"

lemma parsed_mem_ok_simps [simp]:
  "parsed_mem_ok (Inl e)" "parsed_mem_ok (Inr (n, p, m)) \<longleftrightarrow> mem_ok m"
  by (simp_all add: parsed_mem_ok_def)

lemma q_close_mem: "parsed_mem_ok r \<Longrightarrow> parsed_mem_ok (q_close r)"
  by (auto simp: q_close_def parsed_mem_ok_def Let_def split: sum.splits)

lemma agfs_q_parse_formula_mem: "mem_ok m \<Longrightarrow> parsed_mem_ok (agfs_q_parse_formula m p)"
  by (auto simp: agfs_q_parse_formula_def Let_def split: option.splits)

lemma q_parse_mem:
  "mem_ok m \<Longrightarrow> parsed_mem_ok (agfs_q_parse_term m p d)"
  "mem_ok m \<Longrightarrow> parsed_mem_ok (agfs_q_parse_and m p d)"
  "mem_ok m \<Longrightarrow> parsed_mem_ok (q_and_loop m n p d)"
  "mem_ok m \<Longrightarrow> parsed_mem_ok (agfs_q_parse_expr m p d)"
  "mem_ok m \<Longrightarrow> parsed_mem_ok (q_or_loop m n p d)"
proof (induction m p d and m p d and m n p d and m p d and m n p d
    rule: agfs_q_parse_term_agfs_q_parse_and_q_and_loop_agfs_q_parse_expr_q_or_loop.induct)
  case (1 m p0 depth)
  let ?p = "agfs_q_skip p0" and ?p1 = "agfs_q_skip (tl (agfs_q_skip p0))"
  have b: "parsed_mem_ok (q_close (agfs_q_parse_expr m (tl ?p1) (depth + 1)))"
    if "ch ?p = CH_BANG" "ch ?p1 = CH_LPAR" "\<not> 32 \<le> depth"
    using q_close_mem [OF 1(2) [OF refl _ that(1) refl _ that(3) 1(3)]] that by simp
  show ?case
    unfolding agfs_q_parse_term.simps [of m p0] Let_def
    using q_close_mem [OF 1(1) [OF refl _ _ 1(3)]] b agfs_q_parse_formula_mem [OF 1(3)]
    by (auto split: sum.splits)
next
  case (2 m p depth)
  show ?case
  proof (cases "agfs_q_parse_term m p depth")
    case (Inr b)
    obtain x xa ya where b: "b = (x, xa, ya)" by (cases b)
    then show ?thesis using 2(1) [OF 2(3)] 2(2) [OF Inr, of x "(xa, ya)" xa ya] Inr
      by (simp add: agfs_q_parse_and.simps [of m p])
  qed (simp add: agfs_q_parse_and.simps [of m p])
next
  case (3 m n p0 depth)
  let ?p = "agfs_q_skip p0"
  show ?case
  proof (cases "ch ?p = CH_AMP \<and> ch_at ?p 1 = CH_AMP")
    case True
    note IH = 3(1) [OF refl True 3(3)] 3(2) [OF refl True]
    show ?thesis
    proof (cases "agfs_q_parse_term m (drop 2 ?p) depth")
      case (Inr b)
      obtain x xa ya where b: "b = (x, xa, ya)" by (cases b)
      show ?thesis using True IH(1) IH(2) [OF Inr, of x "(xa, ya)" xa ya] Inr b
        by (simp add: q_and_loop.simps [of m n p0] Let_def)
    qed (use True in \<open>simp add: q_and_loop.simps [of m n p0] Let_def\<close>)
  next
    case False
    then show ?thesis using 3(3) by (auto simp: q_and_loop.simps [of m n p0] Let_def)
  qed
next
  case (4 m p depth)
  show ?case
  proof (cases "agfs_q_parse_and m p depth")
    case (Inr b)
    obtain x xa ya where b: "b = (x, xa, ya)" by (cases b)
    then show ?thesis using 4(1) [OF 4(3)] 4(2) [OF Inr, of x "(xa, ya)" xa ya] Inr
      by (simp add: agfs_q_parse_expr.simps [of m p])
  qed (simp add: agfs_q_parse_expr.simps [of m p])
next
  case (5 m n p0 depth)
  let ?p = "agfs_q_skip p0"
  show ?case
  proof (cases "ch ?p = CH_BAR \<and> ch_at ?p 1 = CH_BAR")
    case True
    note IH = 5(1) [OF refl True 5(3)] 5(2) [OF refl True]
    show ?thesis
    proof (cases "agfs_q_parse_and m (drop 2 ?p) depth")
      case (Inr b)
      obtain x xa ya where b: "b = (x, xa, ya)" by (cases b)
      show ?thesis using True IH(1) IH(2) [OF Inr, of x "(xa, ya)" xa ya] Inr b
        by (simp add: q_or_loop.simps [of m n p0] Let_def)
    qed (use True in \<open>simp add: q_or_loop.simps [of m n p0] Let_def\<close>)
  next
    case False
    then show ?thesis using 5(3) by (auto simp: q_or_loop.simps [of m n p0] Let_def)
  qed
qed

lemma agfs_query_answer:
  assumes "mem_ok m" "agfs_q_parse_expr m q 0 = Inr (tree, p, m1)" "ch (agfs_q_skip p) = 0"
    and "ch (agfs_q_skip q) \<noteq> 0" "q_readable sb tree"
  shows "agfs_query fp sb m (Some q) cap =
    Inr (card (q_sem fp sb tree), take cap (sorted_list_of_set (q_sem fp sb tree)))"
proof -
  have "ch q \<noteq> 0" using assms(4) by (cases q) (auto simp: ch_def agfs_q_skip_def split: if_splits)
  moreover have "mem_ok m1" using q_parse_mem(4) [OF assms(1), of q 0] assms(2) by simp
  then obtain s m2 where e: "agfs_q_eval fp sb m1 tree = Inr (s, m2)" "qs_ok s" "set (qs_elems s) = q_sem fp sb tree"
    using agfs_q_eval_sem [OF assms(5)] by blast
  note l = qset.elems_of_set [OF e(2,3)]
  have c: "qs_count s = card (q_sem fp sb tree)" "list_all qchunk_ok (qs_chunks s)"
    using e(2) l by (auto simp: qs_ok_def qpacked_def)
  have "q_copy_out (qs_chunks s) 0 (if qs_count s < cap then qs_count s else cap)
      = take cap (sorted_list_of_set (q_sem fp sb tree))"
    unfolding q_copy_out_take [OF c(2)] using l c(1) by (auto simp: qs_elems_def)
  ultimately show ?thesis using assms(2-4) e(1) c(1) by (simp add: agfs_query_def)
qed

subsection \<open>Negation\<close>

lemma q_op_holds_negate: "q_op_holds (q_negate_op op) cmp \<longleftrightarrow> \<not> q_op_holds op cmp"
  by (cases op) (auto simp: q_op_holds_def)

lemma q_formula_ctx_negate:
  "q_formula_ctx fp dtype (q_negate_op op) v =
     (case q_formula_ctx fp dtype op v of Inl e \<Rightarrow> Inl e | Inr c \<Rightarrow> Inr (c\<lparr>qx_op := q_negate_op op\<rparr>))"
  by (cases op) (auto simp: q_formula_ctx_def split: sum.splits)

lemma q_formula_ctx_op: "q_formula_ctx fp dtype op v = Inr c \<Longrightarrow> qx_op c = op \<and> qx_dtype c = dtype"
  by (auto simp: q_formula_ctx_def split: if_splits sum.splits)

lemma agfs_q_key_matches_negate:
  assumes "qx_op c = op" "qx_dtype c = STRING_TYPE \<or> length key = agfs_qtype_size (qx_dtype c)"
  shows "agfs_q_key_matches fp (c\<lparr>qx_op := q_negate_op op\<rparr>) key \<longleftrightarrow> \<not> agfs_q_key_matches fp c key"
  using assms by (cases op) (auto simp: agfs_q_key_matches_def q_op_holds_negate Let_def q_op_holds_def)

text \<open>Every inode of \<open>U\<close> is under exactly one key, of the size of the type, in each index a tree names.\<close>

fun q_total :: "'i qvol \<Rightarrow> u32 set \<Rightarrow> agfs_qnode \<Rightarrow> bool" where
  "q_total sb U (BQ_FORMULA op attr v) =
     (case agfs_q_find_index sb attr of
        None \<Rightarrow> False
      | Some (idx, dtype) \<Rightarrow>
         distinct (map snd (qv_entries sb idx)) \<and> set (map snd (qv_entries sb idx)) = U \<and> 0 \<notin> U
         \<and> (dtype = STRING_TYPE \<or> list_all (\<lambda>e. length (fst e) = agfs_qtype_size dtype) (qv_entries sb idx)))"
| "q_total sb U (BQ_AND l r) = (q_total sb U l \<and> q_total sb U r)"
| "q_total sb U (BQ_OR l r) = (q_total sb U l \<and> q_total sb U r)"

lemma snd_filter_complement:
  assumes "distinct (map snd es)"
  shows "snd ` {e \<in> set es. \<not> P e} = set (map snd es) - snd ` {e \<in> set es. P e}"
proof -
  have "inj_on snd (set es)" using assms by (simp add: distinct_map)
  then show ?thesis by (auto simp: inj_on_def)
qed

lemma q_sem_negate_formula:
  assumes "q_total sb U (BQ_FORMULA op attr v)"
  shows "q_sem fp sb (agfs_q_negate (BQ_FORMULA op attr v)) = U - q_sem fp sb (BQ_FORMULA op attr v)"
proof -
  obtain idx dtype where f: "agfs_q_find_index sb attr = Some (idx, dtype)"
    and d: "distinct (map snd (qv_entries sb idx))" "set (map snd (qv_entries sb idx)) = U" "0 \<notin> U"
    and k: "dtype = STRING_TYPE \<or> list_all (\<lambda>e. length (fst e) = agfs_qtype_size dtype) (qv_entries sb idx)"
    using assms by (auto split: option.splits)
  obtain c where c: "q_formula_ctx fp dtype op v = Inr c"
    by (cases dtype) (auto simp: q_formula_ctx_def agfs_q_parse_value_def Let_def)
  let ?E = "set (qv_entries sb idx)"
  have "agfs_q_key_matches fp (c\<lparr>qx_op := q_negate_op op\<rparr>) (fst e) \<longleftrightarrow> \<not> agfs_q_key_matches fp c (fst e)"
    if "e \<in> ?E" for e
    using k that q_formula_ctx_op [OF c] by (intro agfs_q_key_matches_negate) (auto simp: list_all_iff)
  then have "{e \<in> ?E. agfs_q_key_matches fp (c\<lparr>qx_op := q_negate_op op\<rparr>) (fst e)}
      = {e \<in> ?E. \<not> agfs_q_key_matches fp c (fst e)}" by auto
  then have "q_sem fp sb (agfs_q_negate (BQ_FORMULA op attr v))
      = snd ` {e \<in> ?E. \<not> agfs_q_key_matches fp c (fst e)} - {0}"
    by (simp add: f q_formula_ctx_negate c)
  also have "\<dots> = U - (snd ` {e \<in> ?E. agfs_q_key_matches fp c (fst e)} - {0})"
    using d snd_filter_complement [OF d(1), of "\<lambda>e. agfs_q_key_matches fp c (fst e)"] by auto
  finally show ?thesis by (simp add: f c)
qed

lemma q_sem_negate: "q_total sb U t \<Longrightarrow> q_sem fp sb (agfs_q_negate t) = U - q_sem fp sb t"
proof (induction t)
  case (BQ_FORMULA op attr v)
  then show ?case by (rule q_sem_negate_formula)
qed auto

subsection \<open>Printing\<close>

fun q_op_text :: "qop \<Rightarrow> byte list" where
  "q_op_text OP_EQUAL = [CH_EQ]"
| "q_op_text OP_NOT_EQUAL = [CH_BANG, CH_EQ]"
| "q_op_text OP_GREATER_THAN = [CH_GT]"
| "q_op_text OP_GREATER_THAN_OR_EQUAL = [CH_GT, CH_EQ]"
| "q_op_text OP_LESS_THAN = [CH_LT]"
| "q_op_text OP_LESS_THAN_OR_EQUAL = [CH_LT, CH_EQ]"

definition q_escape :: "byte list \<Rightarrow> byte list" where
  "q_escape v = concat (map (\<lambda>c. if c = CH_QUOTE \<or> c = CH_BSLASH then [CH_BSLASH, c] else [c]) v)"

fun q_text :: "agfs_qnode \<Rightarrow> byte list" where
  "q_text (BQ_FORMULA op attr v) = attr @ q_op_text op @ CH_QUOTE # q_escape v @ [CH_QUOTE]"
| "q_text (BQ_AND l r) = CH_LPAR # q_text l @ [CH_AMP, CH_AMP] @ q_text r @ [CH_RPAR]"
| "q_text (BQ_OR l r) = CH_LPAR # q_text l @ [CH_BAR, CH_BAR] @ q_text r @ [CH_RPAR]"

fun q_depth :: "agfs_qnode \<Rightarrow> nat" where
  "q_depth (BQ_FORMULA op attr v) = 0"
| "q_depth (BQ_AND l r) = Suc (max (q_depth l) (q_depth r))"
| "q_depth (BQ_OR l r) = Suc (max (q_depth l) (q_depth r))"

fun q_printable :: "agfs_qnode \<Rightarrow> bool" where
  "q_printable (BQ_FORMULA op attr v) \<longleftrightarrow>
     attr \<noteq> [] \<and> length attr < AGFS_BTREE_MAX_KEY_LEN \<and> length v < AGFS_BTREE_MAX_KEY_LEN
     \<and> list_all (\<lambda>c. c \<noteq> 0 \<and> c \<noteq> CH_NL \<and> \<not> q_attr_stop c) attr \<and> list_all (\<lambda>c. c \<noteq> 0) v"
| "q_printable (BQ_AND l r) \<longleftrightarrow> q_printable l \<and> q_printable r"
| "q_printable (BQ_OR l r) \<longleftrightarrow> q_printable l \<and> q_printable r"

lemma q_run_attr:
  assumes "list_all (\<lambda>c. c \<noteq> 0 \<and> \<not> stop c) a" "n + length a < AGFS_BTREE_MAX_KEY_LEN" "r = c # r'" "stop c"
  shows "q_run stop (a @ r) n = Some (a, r)"
  using assms by (induction a arbitrary: n) auto

lemma q_quoted_escape:
  assumes "list_all (\<lambda>c. c \<noteq> 0) v" "n + length v < AGFS_BTREE_MAX_KEY_LEN"
  shows "q_quoted CH_QUOTE (q_escape v @ CH_QUOTE # r) n = Some (v, r)"
  using assms
proof (induction v arbitrary: n)
  case (Cons c v)
  then show ?case
    by (cases "c = CH_QUOTE \<or> c = CH_BSLASH") (auto simp: q_escape_def ch_def)
qed (simp add: q_escape_def)

lemma ch_Cons [simp]: "ch (c # p) = c"
  by (simp add: ch_def)

lemma agfs_q_skip_Cons [simp]:
  "c \<noteq> CH_SP \<Longrightarrow> c \<noteq> CH_TAB \<Longrightarrow> c \<noteq> CH_NL \<Longrightarrow> agfs_q_skip (c # p) = c # p"
  by (simp add: agfs_q_skip_def)

lemma q_op_text_parse:
  "q_parse_op (q_op_text op @ CH_QUOTE # r) = Some (op, CH_QUOTE # r)"
  "\<exists>c t. q_op_text op @ r = c # t \<and> q_attr_stop c \<and> c \<noteq> CH_SP \<and> c \<noteq> CH_TAB \<and> c \<noteq> CH_NL \<and> c \<noteq> 0"
  by (cases op; simp add: q_parse_op_def ch_at_def q_attr_stop_def)+

lemma agfs_q_parse_formula_text:
  assumes "q_printable (BQ_FORMULA op attr v)" "mem_ok m"
  shows "agfs_q_parse_formula m (q_text (BQ_FORMULA op attr v) @ r) = Inr (BQ_FORMULA op attr v, r, kmalloc_rest m)"
proof -
  let ?r = "q_op_text op @ CH_QUOTE # q_escape v @ CH_QUOTE # r"
  obtain c t where t: "?r = c # t" "q_attr_stop c" "c \<noteq> CH_SP" "c \<noteq> CH_TAB" "c \<noteq> CH_NL" "c \<noteq> 0"
    using q_op_text_parse(2) by blast
  have "list_all (\<lambda>c. c \<noteq> 0 \<and> \<not> q_attr_stop c) attr" using assms(1) by (auto simp: list_all_iff)
  then have a: "q_run q_attr_stop (attr @ ?r) 0 = Some (attr, ?r)"
    using assms(1) q_run_attr [of q_attr_stop attr 0 ?r c t] t(1,2) by simp
  have s: "agfs_q_skip ?r = ?r" "ch ?r \<noteq> 0" using t by auto
  have v: "q_parse_val (CH_QUOTE # q_escape v @ CH_QUOTE # r) = Some (v, r)"
    using q_quoted_escape [of v 0 r] assms(1) by (simp add: q_parse_val_def)
  show ?thesis
    using a s v q_op_text_parse(1) [of op "q_escape v @ CH_QUOTE # r"] assms(2)
    by (simp add: agfs_q_parse_formula_def Let_def)
qed

lemma q_and_loop_exit: "ch (agfs_q_skip p) \<noteq> CH_AMP \<Longrightarrow> q_and_loop m n p d = Inr (n, p, m)"
  by (simp add: q_and_loop.simps Let_def)

lemma q_or_loop_exit: "ch (agfs_q_skip p) \<noteq> CH_BAR \<Longrightarrow> q_or_loop m n p d = Inr (n, p, m)"
  by (simp add: q_or_loop.simps Let_def)

lemma q_text_head:
  assumes "q_printable (BQ_FORMULA op attr v)"
  obtains c p where "q_text (BQ_FORMULA op attr v) @ r = c # p" "agfs_q_skip (c # p) = c # p"
    "c \<noteq> CH_LPAR" "c \<noteq> CH_BANG"
proof -
  obtain c a where a: "attr = c # a" using assms by (cases attr) auto
  with assms have "c \<noteq> CH_NL" "\<not> q_attr_stop c" by auto
  then show ?thesis using that [of c "a @ q_op_text op @ CH_QUOTE # q_escape v @ [CH_QUOTE] @ r"] a
    by (auto simp: q_attr_stop_def)
qed

lemma agfs_q_parse_term_text:
  assumes "q_printable t" "mem_ok m" "d + q_depth t \<le> 32"
  shows "\<exists>m'. agfs_q_parse_term m (q_text t @ r) d = Inr (t, r, m') \<and> mem_ok m'"
  using assms
proof (induction t arbitrary: m d r)
  case (BQ_FORMULA op attr v)
  obtain c p where h: "q_text (BQ_FORMULA op attr v) @ r = c # p" "agfs_q_skip (c # p) = c # p"
    "c \<noteq> CH_LPAR" "c \<noteq> CH_BANG" using q_text_head [OF BQ_FORMULA(1)] by blast
  have "agfs_q_parse_term m (q_text (BQ_FORMULA op attr v) @ r) d
      = agfs_q_parse_formula m (q_text (BQ_FORMULA op attr v) @ r)"
    unfolding h(1) using h(2-4) by (simp add: agfs_q_parse_term.simps Let_def)
  then show ?case using agfs_q_parse_formula_text [OF BQ_FORMULA(1,2)] BQ_FORMULA(2) by simp
next
  case (BQ_AND t1 t2)
  obtain m1 where t1: "agfs_q_parse_term m (q_text t1 @ CH_AMP # CH_AMP # q_text t2 @ CH_RPAR # r) (Suc d)
      = Inr (t1, CH_AMP # CH_AMP # q_text t2 @ CH_RPAR # r, m1)" "mem_ok m1"
    using BQ_AND.IH(1) [of m "Suc d"] BQ_AND.prems by fastforce
  obtain m2 where t2: "agfs_q_parse_term m1 (q_text t2 @ CH_RPAR # r) (Suc d) = Inr (t2, CH_RPAR # r, m2)" "mem_ok m2"
    using BQ_AND.IH(2) [of m1 "Suc d"] BQ_AND.prems t1(2) by fastforce
  have l: "q_and_loop m1 t1 (CH_AMP # CH_AMP # q_text t2 @ CH_RPAR # r) (Suc d)
      = Inr (BQ_AND t1 t2, CH_RPAR # r, kmalloc_rest m2)"
    using t2 by (subst q_and_loop.simps) (simp add: Let_def ch_at_def q_and_loop_exit)
  have "agfs_q_parse_expr m (q_text t1 @ CH_AMP # CH_AMP # q_text t2 @ CH_RPAR # r) (Suc d)
      = Inr (BQ_AND t1 t2, CH_RPAR # r, kmalloc_rest m2)"
    using t1 l by (simp add: agfs_q_parse_expr.simps agfs_q_parse_and.simps q_or_loop_exit)
  then show ?case using BQ_AND.prems t2(2)
    by (simp add: agfs_q_parse_term.simps [of m "CH_LPAR # _"] Let_def q_close_def)
next
  case (BQ_OR t1 t2)
  obtain m1 where t1: "agfs_q_parse_term m (q_text t1 @ CH_BAR # CH_BAR # q_text t2 @ CH_RPAR # r) (Suc d)
      = Inr (t1, CH_BAR # CH_BAR # q_text t2 @ CH_RPAR # r, m1)" "mem_ok m1"
    using BQ_OR.IH(1) [of m "Suc d"] BQ_OR.prems by fastforce
  obtain m2 where t2: "agfs_q_parse_term m1 (q_text t2 @ CH_RPAR # r) (Suc d) = Inr (t2, CH_RPAR # r, m2)" "mem_ok m2"
    using BQ_OR.IH(2) [of m1 "Suc d"] BQ_OR.prems t1(2) by fastforce
  have l: "q_or_loop m1 t1 (CH_BAR # CH_BAR # q_text t2 @ CH_RPAR # r) (Suc d)
      = Inr (BQ_OR t1 t2, CH_RPAR # r, kmalloc_rest m2)"
    using t2 by (subst q_or_loop.simps)
      (simp add: Let_def ch_at_def agfs_q_parse_and.simps q_and_loop_exit q_or_loop_exit)
  have "agfs_q_parse_expr m (q_text t1 @ CH_BAR # CH_BAR # q_text t2 @ CH_RPAR # r) (Suc d)
      = Inr (BQ_OR t1 t2, CH_RPAR # r, kmalloc_rest m2)"
    using t1 l by (simp add: agfs_q_parse_expr.simps agfs_q_parse_and.simps q_and_loop_exit)
  then show ?case using BQ_OR.prems t2(2)
    by (simp add: agfs_q_parse_term.simps [of m "CH_LPAR # _"] Let_def q_close_def)
qed

lemma agfs_q_parse_expr_text:
  assumes "q_printable t" "mem_ok m" "q_depth t \<le> 32"
  shows "\<exists>m'. agfs_q_parse_expr m (q_text t) 0 = Inr (t, [], m') \<and> mem_ok m'"
proof -
  obtain m' where "agfs_q_parse_term m (q_text t) 0 = Inr (t, [], m')" "mem_ok m'"
    using agfs_q_parse_term_text [OF assms(1,2), of 0 "[]"] assms(3) by auto
  then show ?thesis
    by (simp add: agfs_q_parse_expr.simps agfs_q_parse_and.simps q_and_loop_exit q_or_loop_exit
        agfs_q_skip_def ch_def [of "[]"])
qed

lemma q_text_nonblank: "q_printable t \<Longrightarrow> ch (agfs_q_skip (q_text t)) \<noteq> 0"
proof (induction t)
  case (BQ_FORMULA op attr v)
  then obtain c a where "attr = c # a" "c \<noteq> 0" "c \<noteq> CH_NL" "\<not> q_attr_stop c" by (cases attr) auto
  then show ?case by (simp add: q_attr_stop_def)
qed simp_all

subsection \<open>Properties\<close>

text \<open>A volume with a string index of the attribute \<open>n\<close>: key \<open>a\<close> for inode 5, key \<open>b\<close> for inode 7.\<close>

definition q_example :: "nat qvol" where
  "q_example = \<lparr>qv_indices_inode = 1, qv_iget = (\<lambda>i. if i = 1 then Some 1 else if i = 2 then Some 2 else None),
     qv_btree_find = (\<lambda>d a. if d = 1 \<and> a = [0x6E] then 2 else 0), qv_raw_mode = (\<lambda>i. 0x01000000),
     qv_header_type = (\<lambda>i. Inr STRING_TYPE), qv_entries = (\<lambda>i. [([0x61], 5), ([0x62], 7)]),
     qv_walk_end = (\<lambda>i. None)\<rparr>"

definition q_example_tree :: agfs_qnode where
  "q_example_tree = BQ_OR (BQ_FORMULA OP_EQUAL [0x6E] [0x61]) (BQ_FORMULA OP_GREATER_THAN [0x6E] [0x61])"

text \<open>
  C6: \<^verbatim>\<open>agfs_query\<close> answers the query. When the text parses to a tree, the indices it names can
  be read and memory suffices, the total is the number of inodes in the meaning of the tree and
  the array receives the first \<open>cap\<close> of them in increasing order.
\<close>

theorem agfs_query_answers:
  assumes "mem_ok m" "agfs_q_parse_expr m q 0 = Inr (tree, p, m1)" "ch (agfs_q_skip p) = 0"
    and "ch (agfs_q_skip q) \<noteq> 0" "q_readable sb tree"
  shows "agfs_query fp sb m (Some q) cap =
    Inr (card (q_sem fp sb tree), take cap (sorted_list_of_set (q_sem fp sb tree)))"
  by (rule agfs_query_answer [OF assms])

theorem agfs_query_answers_witness:
  "agfs_query no_fpu q_example [] (Some (q_text q_example_tree)) 1 = Inr (2, [5])"
proof -
  have s: "q_sem no_fpu q_example q_example_tree = {5, 7}" by code_simp
  have "agfs_query no_fpu q_example [] (Some (q_text q_example_tree)) 1 =
      Inr (card (q_sem no_fpu q_example q_example_tree),
           take 1 (sorted_list_of_set (q_sem no_fpu q_example q_example_tree)))"
  proof (rule agfs_query_answers)
    show "mem_ok []" by (simp add: mem_ok_def)
    show "agfs_q_parse_expr [] (q_text q_example_tree) 0 = Inr (q_example_tree, [], [])" by code_simp
    show "ch (agfs_q_skip []) = 0" by code_simp
    show "ch (agfs_q_skip (q_text q_example_tree)) \<noteq> 0" by code_simp
    show "q_readable q_example q_example_tree" by code_simp
  qed
  then show ?thesis by (simp add: s)
qed

text \<open>
  C29: printing and parsing a tree: for every tree whose attribute names and values are
  representable, with at most 32 levels of parentheses, the parser reads the printed text back
  to the same tree and consumes all of it.
\<close>

theorem parse_text_roundtrip:
  assumes "q_printable t" "mem_ok m" "q_depth t \<le> 32"
  shows "\<exists>m'. agfs_q_parse_expr m (q_text t) 0 = Inr (t, [], m') \<and> mem_ok m'"
  by (rule agfs_q_parse_expr_text [OF assms])

theorem parse_text_roundtrip_witness:
  "\<exists>m'. agfs_q_parse_expr [] (q_text q_example_tree) 0 = Inr (q_example_tree, [], m') \<and> mem_ok m'"
proof -
  have "q_printable q_example_tree" "mem_ok []" "q_depth q_example_tree \<le> 32" by code_simp+
  then show ?thesis by (rule parse_text_roundtrip)
qed

text \<open>
  C30: \<^verbatim>\<open>agfs_q_negate\<close> is the complement: over a set of inodes that every index of the tree
  covers with one key each, the evaluation of the negated tree gives the inodes of the set that
  the tree does not select.
\<close>

theorem negate_is_complement:
  assumes "q_total sb U t" "q_readable sb (agfs_q_negate t)" "mem_ok m"
  shows "\<exists>s m'. agfs_q_eval fp sb m (agfs_q_negate t) = Inr (s, m') \<and> qs_ok s
    \<and> set (qs_elems s) = U - q_sem fp sb t"
  using agfs_q_eval_sem [OF assms(2,3), of fp] q_sem_negate [OF assms(1), of fp] by auto

theorem negate_is_complement_witness:
  "\<exists>s m'. agfs_q_eval no_fpu q_example [] (agfs_q_negate (BQ_FORMULA OP_EQUAL [0x6E] [0x61])) = Inr (s, m')
    \<and> qs_ok s \<and> set (qs_elems s) = {7}"
proof -
  have "q_total q_example {5, 7} (BQ_FORMULA OP_EQUAL [0x6E] [0x61])"
    "q_readable q_example (agfs_q_negate (BQ_FORMULA OP_EQUAL [0x6E] [0x61]))" "mem_ok []"
    by code_simp+
  note w = negate_is_complement [OF this, of no_fpu]
  have "{5, 7} - q_sem no_fpu q_example (BQ_FORMULA OP_EQUAL [0x6E] [0x61]) = {7}" by code_simp
  with w show ?thesis by simp
qed

text \<open>
  An allocation failure in the walk is not reported. When the chunk for the first match
  cannot be allocated, the equation evaluates successfully to the empty set, although an inode
  matches.
\<close>

theorem walk_drops_enomem:
  assumes "agfs_q_find_index sb attr = Some (idx, dtype)" "q_formula_ctx fp dtype op v = Inr c"
    and "qv_header_type sb idx = Inr dtype" "qv_entries sb idx = (key, ino) # es"
    and "agfs_q_key_matches fp c key" "ino \<noteq> 0" "\<not> kmalloc_ok m"
  shows "agfs_q_eval_formula fp sb m op attr v = Inr (agfs_qset_empty, kmalloc_rest m)
    \<and> ino \<in> q_sem fp sb (BQ_FORMULA op attr v)"
  using assms
  by (auto simp: agfs_q_eval_formula_def q_iterate_values_def agfs_q_collect_cb_def agfs_qset_add_def
      agfs_qset_empty_def intro!: image_eqI [of _ _ "(key, ino)"])

theorem walk_drops_enomem_witness:
  "agfs_q_eval_formula no_fpu q_example [False] OP_EQUAL [0x6E] [0x61] = Inr (agfs_qset_empty, [])
   \<and> 5 \<in> q_sem no_fpu q_example (BQ_FORMULA OP_EQUAL [0x6E] [0x61])"
proof -
  let ?c = "\<lparr>qx_op = OP_EQUAL, qx_value = [0x61], qx_dtype = STRING_TYPE, qx_key = [0x61], qx_use_pattern = False\<rparr>"
  have "agfs_q_find_index q_example [0x6E] = Some (2, STRING_TYPE)"
    "q_formula_ctx no_fpu STRING_TYPE OP_EQUAL [0x61] = Inr ?c"
    "qv_header_type q_example 2 = Inr STRING_TYPE" "qv_entries q_example 2 = [([0x61], 5), ([0x62], 7)]"
    "agfs_q_key_matches no_fpu ?c [0x61]" "(5::u32) \<noteq> 0" "\<not> kmalloc_ok [False]"
    by code_simp+
  note w = walk_drops_enomem [OF this]
  have "kmalloc_rest [False] = []" by (simp add: kmalloc_rest_def)
  with w show ?thesis by simp
qed

end
