(* ===== verification/Btree_Node.thy ===== *)
theory Btree_Node
  imports Query_Match
begin

text \<open>
  The nodes of the AGFS B+tree, \<^verbatim>\<open>fs/agfs/btree.c\<close>, at the level of bytes: the header with the links,
  the key area, the index of key ends and the values. The accessors read these fields, and
  \<open>agfs_btree_serialize\<close> and \<open>agfs_btree_remove_at\<close> write them, as the code does with pointers into the
  block. A write that would run past the node has no result. Offsets in the stream and values are
  natural numbers below \<open>2 ^ 64\<close>; \<open>AGFS_BTREE_NULL\<close> is \<open>-1\<close> in 64 bits. The lemmas show that a
  node holds the pairs it was built from, and that removal in place takes out one pair.
\<close>

subsection \<open>Keys\<close>

abbreviation (input) AGFS_BTREE_NODE_SIZE :: nat where "AGFS_BTREE_NODE_SIZE \<equiv> 1024"
abbreviation (input) AGFS_BTREE_MAX_PAIRS :: nat where "AGFS_BTREE_MAX_PAIRS \<equiv> 128"
abbreviation (input) AGFS_BTREE_MAX_KEY_LEN :: nat where "AGFS_BTREE_MAX_KEY_LEN \<equiv> 256"
abbreviation (input) AGFS_BTREE_NULL :: nat where "AGFS_BTREE_NULL \<equiv> 18446744073709551615"

abbreviation (input) AGFS_BTREE_STRING_TYPE :: nat where "AGFS_BTREE_STRING_TYPE \<equiv> 0"
abbreviation (input) AGFS_BTREE_UINT64_TYPE :: nat where "AGFS_BTREE_UINT64_TYPE \<equiv> 6"

type_synonym bkey = "byte list"
type_synonym bpair = "bkey \<times> nat"

definition cmp3 :: "bool \<Rightarrow> bool \<Rightarrow> int" where
  "cmp3 lt gt = (if lt then -1 else if gt then 1 else 0)"

text \<open>The comparison of fixed-size keys: the bytes as integers of the host, or by the unit for floating point.\<close>

definition bt_cmp_num :: "nat \<Rightarrow> (bkey \<Rightarrow> bkey \<Rightarrow> bool) \<Rightarrow> bkey \<Rightarrow> bkey \<Rightarrow> int" where
  "bt_cmp_num sz less_key k1 k2 =
     (if length k1 \<noteq> sz \<or> length k2 \<noteq> sz then int (length k1) - int (length k2)
      else cmp3 (less_key k1 k2) (less_key k2 k1))"

definition agfs_btree_key_cmp :: "fpu \<Rightarrow> nat \<Rightarrow> bkey \<Rightarrow> bkey \<Rightarrow> int" where
  "agfs_btree_key_cmp fp dtype k1 k2 =
     (if dtype = 3 then bt_cmp_num 4 (\<lambda>a b. sint (of_nat (le_val a) :: 32 word) < sint (of_nat (le_val b) :: 32 word)) k1 k2
      else if dtype = 4 then bt_cmp_num 4 (\<lambda>a b. le_val a < le_val b) k1 k2
      else if dtype = 5 then bt_cmp_num 8 (\<lambda>a b. sint (of_nat (le_val a) :: 64 word) < sint (of_nat (le_val b) :: 64 word)) k1 k2
      else if dtype = AGFS_BTREE_UINT64_TYPE then bt_cmp_num 8 (\<lambda>a b. le_val a < le_val b) k1 k2
      else if dtype = 7 then bt_cmp_num 4 (fpu_float_less fp) k1 k2
      else if dtype = 8 then bt_cmp_num 8 (fpu_double_less fp) k1 k2
      else if dtype = 1 then bt_cmp_num 1 (\<lambda>a b. sint (of_nat (le_val a) :: 8 word) < sint (of_nat (le_val b) :: 8 word)) k1 k2
      else if dtype = 2 then bt_cmp_num 2 (\<lambda>a b. sint (of_nat (le_val a) :: 16 word) < sint (of_nat (le_val b) :: 16 word)) k1 k2
      else
        (let cmp = strncmp k1 k2 (min (length k1) (length k2))
         in if cmp = 0 then int (length k1) - int (length k2) else cmp))"

subsection \<open>The layout of a node\<close>

definition bt_align :: "nat \<Rightarrow> nat" where
  "bt_align n = (n + 7) div 8 * 8"

definition nd_left :: "byte list \<Rightarrow> nat" where
  "nd_left n = le_val (mem_get 0 8 n)"

definition nd_right :: "byte list \<Rightarrow> nat" where
  "nd_right n = le_val (mem_get 8 8 n)"

definition nd_overflow :: "byte list \<Rightarrow> nat" where
  "nd_overflow n = le_val (mem_get 16 8 n)"

definition nd_count :: "byte list \<Rightarrow> nat" where
  "nd_count n = le_val (mem_get 24 2 n)"

definition nd_key_length :: "byte list \<Rightarrow> nat" where
  "nd_key_length n = le_val (mem_get 26 2 n)"

definition agfs_btree_keylen_index :: "byte list \<Rightarrow> nat" where
  "agfs_btree_keylen_index n = bt_align (28 + nd_key_length n)"

definition nd_key_end :: "byte list \<Rightarrow> nat \<Rightarrow> nat" where
  "nd_key_end n i = le_val (mem_get (agfs_btree_keylen_index n + 2 * i) 2 n)"

definition agfs_btree_values :: "byte list \<Rightarrow> nat" where
  "agfs_btree_values n = agfs_btree_keylen_index n + 2 * nd_count n"

definition nd_value :: "byte list \<Rightarrow> nat \<Rightarrow> nat" where
  "nd_value n i = le_val (mem_get (agfs_btree_values n + 8 * i) 8 n)"

definition agfs_btree_key :: "byte list \<Rightarrow> nat \<Rightarrow> bkey" where
  "agfs_btree_key n i =
     (let prev = (if i = 0 then 0 else nd_key_end n (i - 1)) in mem_get (28 + prev) (nd_key_end n i - prev) n)"

subsection \<open>Search\<close>

text \<open>The binary search: the index of the key, or the place where it would be inserted.\<close>

function bt_search_loop :: "fpu \<Rightarrow> nat \<Rightarrow> byte list \<Rightarrow> bkey \<Rightarrow> int \<Rightarrow> int \<Rightarrow> nat + nat" where
  "bt_search_loop fp dtype n key lo hi =
     (if lo > hi then Inl (nat lo)
      else
        (let mid = (lo + hi) div 2;
             cmp = agfs_btree_key_cmp fp dtype key (agfs_btree_key n (nat mid))
         in if cmp = 0 then Inr (nat mid)
            else if cmp < 0 then bt_search_loop fp dtype n key lo (mid - 1)
            else bt_search_loop fp dtype n key (mid + 1) hi))"
  by pat_completeness auto
termination bt_search_loop
  by (relation "measure (\<lambda>(fp, dtype, n, key, lo, hi). nat (hi - lo + 1))") auto

declare bt_search_loop.simps [simp del]

definition agfs_btree_search_node_t :: "fpu \<Rightarrow> nat \<Rightarrow> byte list \<Rightarrow> bkey \<Rightarrow> nat + nat" where
  "agfs_btree_search_node_t fp dtype n key = bt_search_loop fp dtype n key 0 (int (nd_count n) - 1)"

text \<open>The child of an interior node; the scan has the bound of the code.\<close>

fun bt_pick_loop :: "fpu \<Rightarrow> nat \<Rightarrow> byte list \<Rightarrow> bkey \<Rightarrow> nat list \<Rightarrow> nat" where
  "bt_pick_loop fp dtype n key [] = nd_value n (nd_count n - 1)"
| "bt_pick_loop fp dtype n key (i # is) =
     (if agfs_btree_key_cmp fp dtype key (agfs_btree_key n i) \<le> 0 then nd_value n i else bt_pick_loop fp dtype n key is)"

definition agfs_btree_pick_child_t :: "fpu \<Rightarrow> nat \<Rightarrow> byte list \<Rightarrow> bkey \<Rightarrow> nat" where
  "agfs_btree_pick_child_t fp dtype n key =
     (if nd_count n = 0 then nd_overflow n
      else if agfs_btree_key_cmp fp dtype key (agfs_btree_key n (nd_count n - 1)) > 0 then
        (if nd_overflow n \<noteq> AGFS_BTREE_NULL then nd_overflow n else nd_value n (nd_count n - 1))
      else bt_pick_loop fp dtype n key [0..<min (nd_count n) (AGFS_BTREE_MAX_PAIRS + 2)])"

subsection \<open>Building a node\<close>

definition agfs_btree_node_room :: "byte list \<Rightarrow> nat \<Rightarrow> bool" where
  "agfs_btree_node_room n keylen =
     (let used = 28 + nd_key_length n + keylen; cnt = nd_count n + 1
      in cnt \<le> AGFS_BTREE_MAX_PAIRS + 1 \<and> bt_align used + cnt * 2 + cnt * 8 \<le> AGFS_BTREE_NODE_SIZE)"

text \<open>The position of a new key among the pairs, unless it is there.\<close>

fun bt_insert_index :: "fpu \<Rightarrow> nat \<Rightarrow> bkey \<Rightarrow> nat \<Rightarrow> bpair list \<Rightarrow> nat option" where
  "bt_insert_index fp dtype key i [] = Some i"
| "bt_insert_index fp dtype key i ((k, v) # ps) =
     (let cmp = agfs_btree_key_cmp fp dtype key k
      in if cmp = 0 then None else if cmp < 0 then Some i else bt_insert_index fp dtype key (i + 1) ps)"

definition node_pairs :: "byte list \<Rightarrow> bpair list" where
  "node_pairs n = map (\<lambda>i. (agfs_btree_key n i, nd_value n i)) [0..<nd_count n]"

definition agfs_btree_collect_t :: "fpu \<Rightarrow> nat \<Rightarrow> byte list \<Rightarrow> nat \<Rightarrow> bpair option \<Rightarrow> bpair list option" where
  "agfs_btree_collect_t fp dtype n mx ins =
     (if nd_count n > mx then None
      else
        (let ps = node_pairs n
         in case ins of
              None \<Rightarrow> Some ps
            | Some (key, v) \<Rightarrow>
                (case bt_insert_index fp dtype key 0 ps of
                   None \<Rightarrow> None
                 | Some i \<Rightarrow> if i \<ge> mx then None else Some (take i ps @ (key, v) # drop i ps))))"

fun key_ends :: "nat \<Rightarrow> bkey list \<Rightarrow> nat list" where
  "key_ends off [] = []"
| "key_ends off (k # ks) = (off + length k) # key_ends (off + length k) ks"

definition keys_length :: "bpair list \<Rightarrow> nat" where
  "keys_length ps = sum_list (map (length \<circ> fst) ps)"

definition pairs_size :: "bpair list \<Rightarrow> nat" where
  "pairs_size ps = bt_align (28 + keys_length ps) + 2 * length ps + 8 * length ps"

definition node_bytes :: "nat \<Rightarrow> nat \<Rightarrow> nat \<Rightarrow> bpair list \<Rightarrow> byte list \<Rightarrow> byte list \<Rightarrow> byte list" where
  "node_bytes left right ov ps pad rest =
     le_enc 8 left @ le_enc 8 right @ le_enc 8 ov @ le_enc 2 (length ps) @ le_enc 2 (keys_length ps)
     @ concat (map fst ps) @ pad @ concat (map (le_enc 2) (key_ends 0 (map fst ps))) @ concat (map (le_enc 8 \<circ> snd) ps) @ rest"

definition node_build :: "nat \<Rightarrow> nat \<Rightarrow> nat \<Rightarrow> bpair list \<Rightarrow> byte list" where
  "node_build left right ov ps =
     node_bytes left right ov ps (replicate (bt_align (28 + keys_length ps) - (28 + keys_length ps)) 0)
       (replicate (AGFS_BTREE_NODE_SIZE - pairs_size ps) 0)"

text \<open>
  The node rebuilt from pairs, or unchanged when the scratch buffer cannot be allocated. There is no
  result when the keys do not fit the scratch buffer or the pairs do not fit the node.
\<close>

definition agfs_btree_serialize ::
  "mem \<Rightarrow> byte list \<Rightarrow> bpair list \<Rightarrow> nat \<Rightarrow> nat \<Rightarrow> nat \<Rightarrow> (mem \<times> byte list \<times> status) option" where
  "agfs_btree_serialize m n ps ov right left =
     (if \<not> kmalloc_ok m then Some (kmalloc_rest m, n, Some ENOMEM)
      else if keys_length ps > AGFS_BTREE_NODE_SIZE \<or> pairs_size ps > AGFS_BTREE_NODE_SIZE then None
      else Some (kmalloc_rest m, node_build left right ov ps, None))"

subsection \<open>Removal in place\<close>

definition mem_move :: "nat \<Rightarrow> nat \<Rightarrow> nat \<Rightarrow> byte list \<Rightarrow> byte list" where
  "mem_move dst src len data = mem_put dst (mem_get src len data) data"

definition bt_shift_ends :: "nat \<Rightarrow> nat \<Rightarrow> nat list \<Rightarrow> byte list \<Rightarrow> byte list" where
  "bt_shift_ends kl klen js n =
     fold (\<lambda>j n. mem_put (kl + 2 * j) (le_enc 2 (le_val (mem_get (kl + 2 * (j + 1)) 2 n) - klen)) n) js n"

definition agfs_btree_remove_at :: "byte list \<Rightarrow> nat \<Rightarrow> byte list" where
  "agfs_btree_remove_at n i =
     (let kl = agfs_btree_keylen_index n;
          values = agfs_btree_values n;
          old_count = nd_count n;
          start = (if i = 0 then 0 else nd_key_end n (i - 1));
          key_end = nd_key_end n i;
          klen = key_end - start;
          tail = nd_key_length n - key_end;
          old_align = bt_align (28 + nd_key_length n);
          n1 = mem_move (28 + start) (28 + key_end) tail n;
          n2 = bt_shift_ends kl klen [i..<old_count - 1] n1;
          n3 = mem_move (values + 8 * i) (values + 8 * (i + 1)) (8 * (old_count - i - 1)) n2;
          count = old_count - 1;
          key_length = nd_key_length n - klen;
          n4 = mem_put 26 (le_enc 2 key_length) (mem_put 24 (le_enc 2 count) n3);
          new_align = bt_align (28 + key_length);
          n5 = (if new_align \<noteq> old_align then mem_move new_align old_align (2 * old_count) n4 else n4)
      in mem_move (new_align + 2 * count) (old_align + 2 * old_count) (8 * count) n5)"

subsection \<open>What a node holds\<close>

definition node_is :: "byte list \<Rightarrow> nat \<Rightarrow> nat \<Rightarrow> nat \<Rightarrow> bpair list \<Rightarrow> bool" where
  "node_is n l r ov ps \<longleftrightarrow>
     length n = AGFS_BTREE_NODE_SIZE \<and> l < 2 ^ 64 \<and> r < 2 ^ 64 \<and> ov < 2 ^ 64 \<and> (\<forall>p \<in> set ps. snd p < 2 ^ 64) \<and>
     (\<exists>pad rest. n = node_bytes l r ov ps pad rest \<and>
        length pad = bt_align (28 + keys_length ps) - (28 + keys_length ps))"

lemma bt_align_ge: "n \<le> bt_align n"
  unfolding bt_align_def by presburger

lemma bt_align_le: "bt_align n \<le> n + 7"
  unfolding bt_align_def by presburger

lemma bt_align_mono: "m \<le> n \<Longrightarrow> bt_align m \<le> bt_align n"
  unfolding bt_align_def by (intro mult_le_mono div_le_mono) auto

lemma keys_length_simps [simp]:
  "keys_length [] = 0" "keys_length (p # ps) = length (fst p) + keys_length ps"
  "keys_length (ps @ qs) = keys_length ps + keys_length qs"
  by (simp_all add: keys_length_def)

lemma length_key_ends [simp]: "length (key_ends off ks) = length ks"
  by (induction ks arbitrary: off) auto

lemma length_concat_map_const: "\<forall>x \<in> set xs. length (f x) = k \<Longrightarrow> length (concat (map f xs)) = k * length xs"
  by (induction xs) auto

lemma length_concat_keys [simp]: "length (concat (map fst ps)) = keys_length ps"
  by (simp add: length_concat keys_length_def comp_def)

lemma length_ends_bytes [simp]: "length (concat (map (le_enc 2) es)) = 2 * length es"
  by (rule length_concat_map_const) simp

lemma length_vals_bytes [simp]: "length (concat (map (le_enc 8 \<circ> snd) ps)) = 8 * length ps"
  by (rule length_concat_map_const) simp

lemma length_node_bytes:
  "length (node_bytes l r ov ps pad rest) = 28 + keys_length ps + length pad + 10 * length ps + length rest"
  by (simp add: node_bytes_def)

lemma mem_get_concat:
  assumes "i < length xs"
  shows "mem_get (length (concat (map f (take i xs)))) (length (f (xs ! i))) (concat (map f xs) @ zs) = f (xs ! i)"
proof -
  have "xs = take i xs @ xs ! i # drop (Suc i) xs" by (rule id_take_nth_drop [OF assms])
  then have "concat (map f xs) = concat (map f (take i xs)) @ f (xs ! i) @ concat (map f (drop (Suc i) xs))"
    by (metis concat.simps(2) concat_append list.simps(9) map_append)
  then show ?thesis by (simp add: mem_get_append1)
qed

lemma mem_get_concat_const:
  assumes "i < length xs" "\<forall>x \<in> set xs. length (f x) = k"
  shows "mem_get (k * i) k (concat (map f xs) @ zs) = f (xs ! i)"
proof -
  have "\<forall>x \<in> set (take i xs). length (f x) = k" using assms(2) by (meson in_set_takeD)
  then have "length (concat (map f (take i xs))) = k * i"
    using assms(1) length_concat_map_const [of "take i xs" f k] by simp
  moreover have "length (f (xs ! i)) = k" using assms by simp
  ultimately show ?thesis using mem_get_concat [OF assms(1), of f zs] by simp
qed

lemma mem_get_shift: "length xs \<le> off \<Longrightarrow> mem_get off n (xs @ ys) = mem_get (off - length xs) n ys"
  by (simp add: mem_get_def)

lemma nth_key_ends: "i < length ks \<Longrightarrow> key_ends off ks ! i = off + sum_list (map length (take (Suc i) ks))"
proof (induction ks arbitrary: off i)
  case (Cons k ks)
  then show ?case by (cases i) auto
qed simp

lemma node_bytes_links:
  "mem_get 0 8 (node_bytes l r ov ps pad rest) = le_enc 8 l"
  "mem_get 8 8 (node_bytes l r ov ps pad rest) = le_enc 8 r"
  "mem_get 16 8 (node_bytes l r ov ps pad rest) = le_enc 8 ov"
  "mem_get 24 2 (node_bytes l r ov ps pad rest) = le_enc 2 (length ps)"
  "mem_get 26 2 (node_bytes l r ov ps pad rest) = le_enc 2 (keys_length ps)"
  by (simp_all add: node_bytes_def mem_get_append mem_get_def)

lemma node_isD:
  assumes "node_is n l r ov ps"
  shows "length n = 1024" "l < 2 ^ 64" "r < 2 ^ 64" "ov < 2 ^ 64" "p \<in> set ps \<Longrightarrow> snd p < 2 ^ 64"
    "pairs_size ps \<le> 1024" "keys_length ps \<le> 996" "length ps \<le> 99"
proof -
  obtain pad rest where n: "n = node_bytes l r ov ps pad rest"
      "length pad = bt_align (28 + keys_length ps) - (28 + keys_length ps)" and len: "length n = 1024"
    using assms unfolding node_is_def by blast
  have "pairs_size ps + length rest = 1024"
    using len n bt_align_ge [of "28 + keys_length ps"] unfolding pairs_size_def by (simp add: length_node_bytes)
  then show "pairs_size ps \<le> 1024" "keys_length ps \<le> 996" "length ps \<le> 99"
    using bt_align_ge [of "28 + keys_length ps"] unfolding pairs_size_def by auto
qed (use assms in \<open>auto simp: node_is_def\<close>)

lemma node_is_fields:
  assumes "node_is n l r ov ps"
  shows "nd_left n = l" "nd_right n = r" "nd_overflow n = ov" "nd_count n = length ps" "nd_key_length n = keys_length ps"
proof -
  obtain pad rest where n: "n = node_bytes l r ov ps pad rest" using assms unfolding node_is_def by blast
  note d = node_isD [OF assms]
  show "nd_left n = l" "nd_right n = r" "nd_overflow n = ov"
    using d unfolding nd_left_def nd_right_def nd_overflow_def n node_bytes_links by simp_all
  show "nd_count n = length ps" "nd_key_length n = keys_length ps"
    using d unfolding nd_count_def nd_key_length_def n node_bytes_links by simp_all
qed

lemma node_is_values: "node_is n l r ov ps \<Longrightarrow> agfs_btree_values n = bt_align (28 + keys_length ps) + 2 * length ps"
  by (simp add: agfs_btree_values_def agfs_btree_keylen_index_def node_is_fields)

lemma node_is_key_end:
  assumes "node_is n l r ov ps" "i < length ps"
  shows "nd_key_end n i = keys_length (take (Suc i) ps)"
proof -
  obtain pad rest where n: "n = node_bytes l r ov ps pad rest"
      "length pad = bt_align (28 + keys_length ps) - (28 + keys_length ps)"
    using assms unfolding node_is_def by blast
  let ?a = "bt_align (28 + keys_length ps)"
  let ?es = "key_ends 0 (map fst ps)"
  have ge: "28 + keys_length ps \<le> ?a" by (rule bt_align_ge)
  have k: "?es ! i = keys_length (take (Suc i) ps)"
    using assms(2) by (simp add: nth_key_ends keys_length_def comp_def take_map del: take_Suc)
  have "keys_length ps = keys_length (take (Suc i) ps) + keys_length (drop (Suc i) ps)"
    by (simp flip: keys_length_simps(3))
  then have small: "keys_length (take (Suc i) ps) < 256 ^ 2" using node_isD(7) [OF assms(1)] by simp
  have "mem_get (?a + 2 * i) 2 n = mem_get (2 * i) 2 (concat (map (le_enc 2) ?es) @ (concat (map (le_enc 8 \<circ> snd) ps) @ rest))"
    using n ge by (simp add: node_bytes_def mem_get_shift)
  also have "\<dots> = le_enc 2 (?es ! i)" by (rule mem_get_concat_const) (use assms(2) in auto)
  finally show ?thesis
    using small by (simp add: nd_key_end_def agfs_btree_keylen_index_def node_is_fields [OF assms(1)] k)
qed

lemma node_is_value:
  assumes "node_is n l r ov ps" "i < length ps"
  shows "nd_value n i = snd (ps ! i)"
proof -
  obtain pad rest where n: "n = node_bytes l r ov ps pad rest"
      "length pad = bt_align (28 + keys_length ps) - (28 + keys_length ps)"
    using assms unfolding node_is_def by blast
  let ?a = "bt_align (28 + keys_length ps)"
  have ge: "28 + keys_length ps \<le> ?a" by (rule bt_align_ge)
  have "mem_get (?a + 2 * length ps + 8 * i) 8 n = mem_get (8 * i) 8 (concat (map (le_enc 8 \<circ> snd) ps) @ rest)"
    using n ge by (simp add: node_bytes_def mem_get_shift)
  also have "\<dots> = (le_enc 8 \<circ> snd) (ps ! i)" by (rule mem_get_concat_const) (use assms(2) in auto)
  finally show ?thesis
    using node_isD(5) [OF assms(1), of "ps ! i"] assms(2)
    by (simp add: nd_value_def node_is_values [OF assms(1)] add.assoc)
qed

lemma node_is_key:
  assumes "node_is n l r ov ps" "i < length ps"
  shows "agfs_btree_key n i = fst (ps ! i)"
proof -
  obtain pad rest where n: "n = node_bytes l r ov ps pad rest" using assms unfolding node_is_def by blast
  define prev where "prev = (if i = 0 then 0 else nd_key_end n (i - 1))"
  have prev: "prev = keys_length (take i ps)"
    using assms node_is_key_end [OF assms(1), of "i - 1"] by (cases i) (auto simp: prev_def)
  have "take (Suc i) ps = take i ps @ [ps ! i]" using assms(2) by (rule take_Suc_conv_app_nth)
  then have e: "nd_key_end n i - prev = length (fst (ps ! i))"
    using node_is_key_end [OF assms] prev by simp
  have "agfs_btree_key n i = mem_get (28 + keys_length (take i ps)) (length (fst (ps ! i))) n"
    using e prev unfolding agfs_btree_key_def prev_def [symmetric] Let_def by simp
  also have "\<dots> = mem_get (keys_length (take i ps)) (length (fst (ps ! i)))
      (concat (map fst ps) @ (pad @ concat (map (le_enc 2) (key_ends 0 (map fst ps))) @ concat (map (le_enc 8 \<circ> snd) ps) @ rest))"
    by (simp add: n node_bytes_def mem_get_shift)
  also have "\<dots> = fst (ps ! i)"
    using mem_get_concat [OF assms(2), of fst] by simp
  finally show ?thesis .
qed

lemma node_is_pairs:
  assumes "node_is n l r ov ps"
  shows "node_pairs n = ps"
proof (rule nth_equalityI)
  show "length (node_pairs n) = length ps" by (simp add: node_pairs_def node_is_fields [OF assms])
  fix i assume "i < length (node_pairs n)"
  then have "i < length ps" by (simp add: node_pairs_def node_is_fields [OF assms])
  then show "node_pairs n ! i = ps ! i"
    by (simp add: node_pairs_def node_is_fields [OF assms] node_is_key [OF assms] node_is_value [OF assms])
qed

lemma node_is_relink:
  assumes "node_is n l r ov ps" "l' < 2 ^ 64"
  shows "node_is (mem_put 0 (le_enc 8 l') n) l' r ov ps"
proof -
  obtain pad rest where n: "n = node_bytes l r ov ps pad rest"
      "length pad = bt_align (28 + keys_length ps) - (28 + keys_length ps)" and len: "length n = 1024"
    using assms unfolding node_is_def by blast
  have "mem_put 0 (le_enc 8 l') n = node_bytes l' r ov ps pad rest" by (simp add: n(1) node_bytes_def mem_put_def)
  moreover have "length (mem_put 0 (le_enc 8 l') n) = 1024" using len by simp
  ultimately show ?thesis using assms n(2) unfolding node_is_def by blast
qed

text \<open>The zeroed node with its fields filled in.\<close>

lemma node_build_is:
  assumes "pairs_size ps \<le> 1024" "l < 2 ^ 64" "r < 2 ^ 64" "ov < 2 ^ 64" "\<forall>p \<in> set ps. snd p < 2 ^ 64"
  shows "node_is (node_build l r ov ps) l r ov ps"
proof -
  have "length (node_build l r ov ps) = 1024"
    using assms(1) bt_align_ge [of "28 + keys_length ps"] unfolding node_build_def pairs_size_def
    by (simp add: length_node_bytes)
  then show ?thesis using assms unfolding node_is_def node_build_def by (auto intro: exI)
qed

lemma agfs_btree_serialize_ok:
  assumes "kmalloc_ok m" "pairs_size ps \<le> 1024"
  shows "agfs_btree_serialize m n ps ov r l = Some (kmalloc_rest m, node_build l r ov ps, None)"
  using assms bt_align_ge [of "28 + keys_length ps"]
  unfolding agfs_btree_serialize_def pairs_size_def by simp

subsection \<open>Removal in place keeps the other pairs\<close>

lemma length_shifted_ends [simp]: "length (concat (map (le_enc 2 \<circ> f) es)) = 2 * length es"
  by (rule length_concat_map_const) simp

lemma mem_move_down:
  assumes "length pre = d" "s = d + length gap" "m = length blk"
  shows "mem_move d s m (pre @ gap @ blk @ post) = pre @ blk @ drop m (gap @ blk) @ post"
proof -
  have "mem_get s m (pre @ gap @ blk @ post) = blk" using assms by (simp add: mem_get_def)
  then show ?thesis using assms by (simp add: mem_move_def mem_put_def)
qed

lemma key_ends_append: "key_ends off (xs @ ys) = key_ends off xs @ key_ends (off + sum_list (map length xs)) ys"
  by (induction xs arbitrary: off) (auto simp: add.assoc)

lemma key_ends_shift: "map (\<lambda>e. e - c) (key_ends (off + c) ks) = key_ends off ks"
proof (induction ks arbitrary: off)
  case (Cons k ks)
  have "key_ends (off + c + length k) ks = key_ends (off + length k + c) ks" by (simp add: ac_simps)
  then show ?case using Cons.IH [of "off + length k"] by simp
qed simp

lemma bt_shift_ends_block:
  assumes "length pre = kl + 2 * i" "\<forall>y \<in> set ys. y < 256 ^ 2"
  shows "bt_shift_ends kl c [i..<i + length ys] (pre @ concat (map (le_enc 2) (x # ys)) @ post)
    = pre @ concat (map (\<lambda>y. le_enc 2 (y - c)) ys) @ le_enc 2 (last (x # ys)) @ post"
  using assms
proof (induction ys arbitrary: pre x i)
  case Nil
  then show ?case by (simp add: bt_shift_ends_def)
next
  case (Cons y ys)
  let ?n = "pre @ concat (map (le_enc 2) (x # y # ys)) @ post"
  let ?m = "(pre @ le_enc 2 (y - c)) @ concat (map (le_enc 2) (y # ys)) @ post"
  have "mem_get (kl + 2 * (i + 1)) 2 ?n = le_enc 2 y"
    using Cons.prems(1) mem_get_append1 [of "pre @ le_enc 2 x" "kl + 2 * (i + 1)" "le_enc 2 y" 2] by simp
  then have "mem_put (kl + 2 * i) (le_enc 2 (le_val (mem_get (kl + 2 * (i + 1)) 2 ?n) - c)) ?n = ?m"
    using Cons.prems mem_put_append1 [of pre "kl + 2 * i" "le_enc 2 x" "le_enc 2 (y - c)"] by simp
  moreover have "[i..<i + length (y # ys)] = i # [Suc i..<Suc i + length ys]"
    using upt_conv_Cons [of i "i + Suc (length ys)"] by simp
  ultimately have "bt_shift_ends kl c [i..<i + length (y # ys)] ?n = bt_shift_ends kl c [Suc i..<Suc i + length ys] ?m"
    by (simp add: bt_shift_ends_def del: upt_Suc)
  also have "\<dots> = (pre @ le_enc 2 (y - c)) @ concat (map (\<lambda>y. le_enc 2 (y - c)) ys) @ le_enc 2 (last (y # ys)) @ post"
    by (rule Cons.IH) (use Cons.prems in auto)
  finally show ?case by simp
qed

lemma key_ends_le: "e \<in> set (key_ends off ks) \<Longrightarrow> e \<le> off + sum_list (map length ks)"
  by (induction ks arbitrary: off) fastforce+

lemma sum_list_keys: "sum_list (map length (map fst ps)) = keys_length ps"
  by (simp add: keys_length_def comp_def)

text \<open>The last two moves bring the index and the values to the place the shorter key area implies.\<close>

lemma remove_at_relocate:
  assumes "length pre = na" "oa = na + length gap" "length e = 2 * c" "length s = 2" "length v = 8 * c"
  shows "\<exists>rest. mem_move (na + 2 * c) (oa + 2 * (c + 1)) (8 * c)
      (if na \<noteq> oa then mem_move na oa (2 * (c + 1)) (pre @ gap @ (e @ s) @ v @ post) else pre @ gap @ (e @ s) @ v @ post)
    = pre @ e @ v @ rest \<and> length rest = length gap + 2 + length post"
proof -
  define gap2 where "gap2 = drop (2 * (c + 1)) (gap @ e @ s)"
  have len: "length gap2 = length gap" using assms by (simp add: gap2_def)
  have "(if na \<noteq> oa then mem_move na oa (2 * (c + 1)) (pre @ gap @ (e @ s) @ v @ post) else pre @ gap @ (e @ s) @ v @ post)
      = (pre @ e) @ (s @ gap2) @ v @ post"
    using assms mem_move_down [of pre na oa gap "2 * (c + 1)" "e @ s" "v @ post"] by (auto simp: gap2_def)
  moreover have "mem_move (na + 2 * c) (oa + 2 * (c + 1)) (8 * c) ((pre @ e) @ (s @ gap2) @ v @ post)
      = (pre @ e) @ v @ drop (8 * c) ((s @ gap2) @ v) @ post"
    by (rule mem_move_down) (use assms len in auto)
  ultimately show ?thesis
    using assms len by (intro exI [of _ "drop (8 * c) ((s @ gap2) @ v) @ post"]) (simp only: append_assoc, simp)
qed

text \<open>The fields as the code reads them when the removal starts.\<close>

lemma remove_at_unfold:
  assumes "nd_count n = Suc c" "nd_key_length n = kA + kp + kB" "nd_key_end n i = kA + kp"
    "(if i = 0 then 0 else nd_key_end n (i - 1)) = kA"
    "oa = bt_align (28 + (kA + kp + kB))" "na = bt_align (28 + (kA + kB))"
    "n1 = mem_move (28 + kA) (28 + (kA + kp)) kB n"
    "n2 = bt_shift_ends oa kp [i..<c] n1"
    "n3 = mem_move (oa + 2 * Suc c + 8 * i) (oa + 2 * Suc c + 8 * (i + 1)) (8 * (Suc c - i - 1)) n2"
    "n4 = mem_put 26 (le_enc 2 (kA + kB)) (mem_put 24 (le_enc 2 c) n3)"
  shows "agfs_btree_remove_at n i =
    mem_move (na + 2 * c) (oa + 2 * Suc c) (8 * c) (if na \<noteq> oa then mem_move na oa (2 * Suc c) n4 else n4)"
proof -
  have "kA + kp + kB - (kA + kp) = kB" "kA + kp - kA = kp" "kA + kp + kB - kp = kA + kB" by simp_all
  then show ?thesis
    unfolding agfs_btree_remove_at_def agfs_btree_values_def agfs_btree_keylen_index_def assms(1-4) assms(5-10) Let_def
    by simp
qed

lemma remove_at_moves:
  assumes h: "length h = 24" and e: "\<forall>y \<in> set eB. y < 256 ^ 2" "length eA = i" "length eB = c - i" "i \<le> c"
    and v: "length vA = 8 * i" "length vp = 8" "length vB = 8 * (c - i)"
    and oa: "oa = 28 + length kA + length kp + length kB + length pad"
    and n: "n = h @ le_enc 2 x @ le_enc 2 y @ kA @ kp @ kB @ pad @ concat (map (le_enc 2) eA)
      @ concat (map (le_enc 2) (ep # eB)) @ vA @ vp @ vB @ rest"
    and n1: "n1 = mem_move (28 + length kA) (28 + (length kA + length kp)) (length kB) n"
    and n2: "n2 = bt_shift_ends oa (length kp) [i..<c] n1"
    and n3: "n3 = mem_move (oa + 2 * Suc c + 8 * i) (oa + 2 * Suc c + 8 * (i + 1)) (8 * (Suc c - i - 1)) n2"
    and n4: "n4 = mem_put 26 (le_enc 2 (length kA + length kB)) (mem_put 24 (le_enc 2 c) n3)"
  shows "\<exists>junk s s8. n4 = h @ le_enc 2 c @ le_enc 2 (length kA + length kB) @ kA @ kB @ junk
      @ (concat (map (le_enc 2) (eA @ map (\<lambda>y. y - length kp) eB)) @ s) @ (vA @ vB) @ s8 @ rest \<and>
    length junk = length kp + length pad \<and> length s = 2 \<and> length s8 = 8"
proof -
  define J where "J = drop (length kB) (kp @ kB) @ pad"
  define E where "E = concat (map (le_enc 2) (eA @ map (\<lambda>y. y - length kp) eB))"
  define s where "s = le_enc 2 (last (ep # eB))"
  define s8 where "s8 = drop (length vB) (vp @ vB)"
  define pre where "pre = h @ le_enc 2 x @ le_enc 2 y @ kA"
  have lens: "length J = length kp + length pad" "length s = 2" "length s8 = 8" "length E = 2 * c" "length pre = 28 + length kA"
    using h e v by (simp_all add: J_def s_def s8_def E_def pre_def)
  have "n1 = pre @ kB @ J @ concat (map (le_enc 2) eA) @ concat (map (le_enc 2) (ep # eB)) @ vA @ vp @ vB @ rest"
    using mem_move_down [of pre "28 + length kA" "28 + (length kA + length kp)" kp "length kB" kB] h
    unfolding n1 n pre_def J_def by simp
  then have "n2 = (pre @ kB @ J @ concat (map (le_enc 2) eA)) @ concat (map (\<lambda>y. le_enc 2 (y - length kp)) eB)
      @ s @ vA @ vp @ vB @ rest"
    using bt_shift_ends_block [of "pre @ kB @ J @ concat (map (le_enc 2) eA)" oa i eB "length kp" ep "vA @ vp @ vB @ rest"]
      e lens oa unfolding n2 s_def by simp
  then have "n2 = (pre @ kB @ J @ E @ s @ vA) @ vp @ vB @ rest" unfolding E_def by (simp add: comp_def)
  then have "n3 = (pre @ kB @ J @ E @ s @ vA) @ vB @ s8 @ rest"
    using mem_move_down [of "pre @ kB @ J @ E @ s @ vA" "oa + 2 * Suc c + 8 * i" "oa + 2 * Suc c + 8 * (i + 1)" vp
        "8 * (Suc c - i - 1)" vB rest] lens v oa unfolding n3 s8_def by simp
  then have "n4 = h @ le_enc 2 c @ le_enc 2 (length kA + length kB) @ kA @ kB @ J @ (E @ s) @ (vA @ vB) @ s8 @ rest"
    using h unfolding n4 pre_def
    by (simp add: mem_put_append1 [of h 24] mem_put_append1 [of "h @ le_enc 2 c" 26, simplified])
  then show ?thesis using lens unfolding E_def by blast
qed

lemma key_ends_remove:
  "key_ends 0 (map fst (A @ p # B)) =
     key_ends 0 (map fst A) @ (keys_length A + length (fst p)) # key_ends (keys_length A + length (fst p)) (map fst B)"
  "key_ends 0 (map fst (A @ B)) =
     key_ends 0 (map fst A) @ map (\<lambda>e. e - length (fst p)) (key_ends (keys_length A + length (fst p)) (map fst B))"
  by (simp_all add: key_ends_append key_ends_shift keys_length_def comp_def)

lemma remove_at_finish:
  assumes "28 + (length kA + length kB) + length junk = oa" "28 + (length kA + length kB) \<le> na" "na \<le> oa" "length h = 24"
    "length e = 2 * c" "length s = 2" "length v = 8 * c"
    "n4 = h @ le_enc 2 c @ le_enc 2 k @ kA @ kB @ junk @ (e @ s) @ v @ post"
  shows "\<exists>pad' rest'. mem_move (na + 2 * c) (oa + 2 * Suc c) (8 * c) (if na \<noteq> oa then mem_move na oa (2 * Suc c) n4 else n4)
      = h @ le_enc 2 c @ le_enc 2 k @ kA @ kB @ pad' @ e @ v @ rest' \<and> length pad' = na - (28 + (length kA + length kB)) \<and>
      length pad' + length rest' = length junk + 2 + length post"
proof -
  define d where "d = na - (28 + (length kA + length kB))"
  define pre where "pre = h @ le_enc 2 c @ le_enc 2 k @ kA @ kB @ take d junk"
  have d: "d \<le> length junk" using assms unfolding d_def by simp
  have n4: "n4 = pre @ drop d junk @ (e @ s) @ v @ post" using assms(8) unfolding pre_def by simp
  have "length pre = na" "oa = na + length (drop d junk)" using assms d unfolding pre_def d_def by auto
  from remove_at_relocate [OF this assms(5-7), of post] n4 obtain rest'
    where "mem_move (na + 2 * c) (oa + 2 * Suc c) (8 * c) (if na \<noteq> oa then mem_move na oa (2 * Suc c) n4 else n4)
      = pre @ e @ v @ rest'" "length rest' = length (drop d junk) + 2 + length post"
    by (metis Suc_eq_plus1)
  then show ?thesis using d unfolding pre_def by (intro exI [of _ "take d junk"] exI [of _ rest']) (simp add: d_def)
qed

lemma remove_at_core:
  assumes h: "length h = 24" and e: "\<forall>y \<in> set eB. y < 256 ^ 2" "length eA = i" "length eB = c - i" "i \<le> c"
    and v: "length vA = 8 * i" "length vp = 8" "length vB = 8 * (c - i)"
    and oa: "oa = 28 + length kA + length kp + length kB + length pad"
    and n: "n = h @ le_enc 2 x @ le_enc 2 y @ kA @ kp @ kB @ pad @ concat (map (le_enc 2) eA)
      @ concat (map (le_enc 2) (ep # eB)) @ vA @ vp @ vB @ rest"
    and ns: "n1 = mem_move (28 + length kA) (28 + (length kA + length kp)) (length kB) n"
      "n2 = bt_shift_ends oa (length kp) [i..<c] n1"
      "n3 = mem_move (oa + 2 * Suc c + 8 * i) (oa + 2 * Suc c + 8 * (i + 1)) (8 * (Suc c - i - 1)) n2"
      "n4 = mem_put 26 (le_enc 2 (length kA + length kB)) (mem_put 24 (le_enc 2 c) n3)"
    and na: "28 + (length kA + length kB) \<le> na" "na \<le> oa"
  shows "\<exists>pad' rest'. mem_move (na + 2 * c) (oa + 2 * Suc c) (8 * c) (if na \<noteq> oa then mem_move na oa (2 * Suc c) n4 else n4)
      = h @ le_enc 2 c @ le_enc 2 (length kA + length kB) @ kA @ kB @ pad'
        @ concat (map (le_enc 2) (eA @ map (\<lambda>y. y - length kp) eB)) @ (vA @ vB) @ rest' \<and>
      length pad' = na - (28 + (length kA + length kB)) \<and> length pad' + length rest' = length kp + length pad + 10 + length rest"
proof -
  obtain junk s s8 where n4: "n4 = h @ le_enc 2 c @ le_enc 2 (length kA + length kB) @ kA @ kB @ junk
      @ (concat (map (le_enc 2) (eA @ map (\<lambda>y. y - length kp) eB)) @ s) @ (vA @ vB) @ s8 @ rest"
      "length junk = length kp + length pad" "length s = 2" "length s8 = 8"
    using remove_at_moves [OF h e v oa n ns] by blast
  have sizes: "28 + (length kA + length kB) + length junk = oa" "length (vA @ vB) = 8 * c"
      "length (concat (map (le_enc 2) (eA @ map (\<lambda>y. y - length kp) eB))) = 2 * c"
    using n4(2) oa e v by simp_all
  have "length junk + 2 + length (s8 @ rest) = length kp + length pad + 10 + length rest" using n4(2,4) by simp
  then show ?thesis using remove_at_finish [OF sizes(1) na h sizes(3) n4(3) sizes(2) n4(1)] by metis
qed

lemma remove_at_bytes:
  assumes n: "n = node_bytes l r ov (A @ p # B) pad rest"
    and pad: "length pad = bt_align (28 + keys_length (A @ p # B)) - (28 + keys_length (A @ p # B))"
    and nd: "node_is n l r ov (A @ p # B)"
  shows "\<exists>pad' rest'. agfs_btree_remove_at n (length A) = node_bytes l r ov (A @ B) pad' rest' \<and>
    length pad' = bt_align (28 + keys_length (A @ B)) - (28 + keys_length (A @ B)) \<and>
    length pad' + length rest' = length (fst p) + length pad + 10 + length rest"
proof -
  define i c where "i = length A" "c = length A + length B"
  define kA kp kB where "kA = concat (map fst A)" "kp = fst p" "kB = concat (map fst B)"
  define h where "h = le_enc 8 l @ le_enc 8 r @ le_enc 8 ov"
  define eA eB where "eA = key_ends 0 (map fst A)" "eB = key_ends (keys_length A + length kp) (map fst B)"
  define vA vp vB where "vA = concat (map (le_enc 8 \<circ> snd) A)" "vp = le_enc 8 (snd p)" "vB = concat (map (le_enc 8 \<circ> snd) B)"
  define oa na where "oa = bt_align (28 + (length kA + length kp + length kB))" "na = bt_align (28 + (length kA + length kB))"
  define n1 where "n1 = mem_move (28 + length kA) (28 + (length kA + length kp)) (length kB) n"
  define n2 where "n2 = bt_shift_ends oa (length kp) [i..<c] n1"
  define n3 where "n3 = mem_move (oa + 2 * Suc c + 8 * i) (oa + 2 * Suc c + 8 * (i + 1)) (8 * (Suc c - i - 1)) n2"
  define n4 where "n4 = mem_put 26 (le_enc 2 (length kA + length kB)) (mem_put 24 (le_enc 2 c) n3)"
  note defs = i_c_def kA_kp_kB_def h_def eA_eB_def vA_vp_vB_def oa_na_def
  have kl: "keys_length A = length kA" "keys_length B = length kB" "length (fst p) = length kp" unfolding defs by simp_all
  have ge: "28 + (length kA + length kp + length kB) \<le> oa" "28 + (length kA + length kB) \<le> na" "na \<le> oa"
    unfolding oa_na_def by (auto intro: bt_align_ge bt_align_mono)
  have bytes: "n = h @ le_enc 2 (Suc c) @ le_enc 2 (length kA + length kp + length kB) @ kA @ kp @ kB @ pad
      @ concat (map (le_enc 2) eA) @ concat (map (le_enc 2) ((keys_length A + length kp) # eB)) @ vA @ vp @ vB @ rest"
    unfolding n node_bytes_def key_ends_remove(1) unfolding defs by (simp add: add.assoc)
  have fits: "\<forall>y \<in> set eB. y < 256 ^ 2"
    using node_isD(7) [OF nd] key_ends_le [of _ "keys_length A + length kp" "map fst B"] unfolding eA_eB_def
    by (fastforce simp: keys_length_def comp_def kA_kp_kB_def)
  have "agfs_btree_remove_at n i =
      mem_move (na + 2 * c) (oa + 2 * Suc c) (8 * c) (if na \<noteq> oa then mem_move na oa (2 * Suc c) n4 else n4)"
    by (rule remove_at_unfold [OF _ _ _ _ oa_na_def n1_def n2_def n3_def n4_def])
      (use node_is_key_end [OF nd, of i] node_is_key_end [OF nd, of "i - 1"] in
        \<open>auto simp: node_is_fields [OF nd] i_c_def kl [symmetric] neq_Nil_conv\<close>)
  moreover have "length h = 24" "length eA = i" "length eB = c - i" "i \<le> c" "length vA = 8 * i" "length vp = 8"
      "length vB = 8 * (c - i)" "oa = 28 + length kA + length kp + length kB + length pad"
    using pad ge(1) by (simp_all add: defs ac_simps)
  note core = remove_at_core [OF this(1) fits this(2-8) bytes n1_def n2_def n3_def n4_def ge(2,3)]
  ultimately obtain pad' rest'
    where "agfs_btree_remove_at n i = h @ le_enc 2 c @ le_enc 2 (length kA + length kB) @ kA @ kB @ pad'
        @ concat (map (le_enc 2) (eA @ map (\<lambda>y. y - length kp) eB)) @ (vA @ vB) @ rest'"
      "length pad' = na - (28 + (length kA + length kB))" "length pad' + length rest' = length kp + length pad + 10 + length rest"
    using core by auto
  then show ?thesis
    unfolding node_bytes_def key_ends_remove(2) [of _ _ p] unfolding defs
    by (intro exI [of _ pad'] exI [of _ rest']) (simp add: add.assoc)
qed

lemma agfs_btree_remove_at_is:
  assumes nd: "node_is n l r ov (A @ p # B)"
  shows "node_is (agfs_btree_remove_at n (length A)) l r ov (A @ B)"
proof -
  obtain pad rest where n: "n = node_bytes l r ov (A @ p # B) pad rest" and
      pad: "length pad = bt_align (28 + keys_length (A @ p # B)) - (28 + keys_length (A @ p # B))"
    using nd unfolding node_is_def by blast
  from remove_at_bytes [OF n pad nd] obtain pad' rest'
    where "agfs_btree_remove_at n (length A) = node_bytes l r ov (A @ B) pad' rest'"
      "length pad' = bt_align (28 + keys_length (A @ B)) - (28 + keys_length (A @ B))"
      "length pad' + length rest' = length (fst p) + length pad + 10 + length rest" by blast
  moreover have "length n = 1024" using node_isD(1) [OF nd] .
  ultimately show ?thesis using nd unfolding node_is_def by (auto simp: length_node_bytes n)
qed

text \<open>
  On a node that holds pairs the removal stays inside the node: the positions it computes are ordered, and the index and the
  values end before the node does.
\<close>

definition remove_in_node :: "byte list \<Rightarrow> nat \<Rightarrow> bool" where
  "remove_in_node n i \<longleftrightarrow>
     i < nd_count n \<and> (i = 0 \<or> nd_key_end n (i - 1) \<le> nd_key_end n i) \<and> nd_key_end n i \<le> nd_key_length n
     \<and> (\<forall>j. i \<le> j \<and> j < nd_count n \<longrightarrow> nd_key_end n i \<le> nd_key_end n j)
     \<and> bt_align (28 + nd_key_length n) + 10 * nd_count n \<le> length n"

lemma remove_stays_in_node:
  assumes nd: "node_is n l r ov (A @ p # B)"
  shows "remove_in_node n (length A)"
proof -
  let ?ps = "A @ p # B"
  note F = node_is_fields [OF nd]
  have e: "nd_key_end n j = keys_length (take (Suc j) ?ps)" if "j < length ?ps" for j using node_is_key_end [OF nd that] .
  have mono: "keys_length (take j ?ps) \<le> keys_length (take k ?ps)" if "j \<le> k" for j k
  proof -
    obtain d where k: "k = j + d" using le_Suc_ex [OF \<open>j \<le> k\<close>] by blast
    have "keys_length (take (j + d) ?ps) = keys_length (take j ?ps) + keys_length (take d (drop j ?ps))"
      unfolding take_add keys_length_def map_append sum_list_append ..
    then show ?thesis unfolding k by simp
  qed
  have all: "take (length ?ps) ?ps = ?ps" by simp
  have "nd_key_end n (length A) \<le> nd_key_length n"
    using e [of "length A"] mono [of "Suc (length A)" "length ?ps"] unfolding all F(5) by simp
  moreover have "nd_key_end n (length A) \<le> nd_key_end n j" if "length A \<le> j" "j < nd_count n" for j
    using e [of "length A"] e [of j] mono [of "Suc (length A)" "Suc j"] that by (simp add: F(4))
  moreover have "A \<noteq> [] \<Longrightarrow> nd_key_end n (length A - 1) \<le> nd_key_end n (length A)"
    using e [of "length A"] e [of "length A - 1"] mono [of "length A" "Suc (length A)"] by (simp del: take_append)
  moreover have "bt_align (28 + nd_key_length n) + 10 * nd_count n \<le> length n"
    using node_isD(1,6) [OF nd] unfolding F(4,5) pairs_size_def by linarith
  ultimately show ?thesis unfolding remove_in_node_def by (auto simp: F(4))
qed

end
