(* ===== verification/Btree_Keys.thy ===== *)
theory Btree_Keys
  imports Btree_Node
begin

text \<open>
  The order of the keys of a B+tree and the searches inside one node, \<^verbatim>\<open>fs/agfs/btree.c\<close>. The locale
  \<open>key_order\<close> states what the tree needs of a key type, that \<open>agfs_btree_key_cmp\<close> is a linear order on its
  keys; in it the binary search and the choice of a child are shown to find the place of a key. The locale
  \<open>tree_keys\<close> adds the bound on key lengths under which splits by count always fit. Both hold for the
  names of directories and for the 64-bit keys of indices.
\<close>

subsection \<open>The order of keys\<close>

definition key_lt :: "fpu \<Rightarrow> nat \<Rightarrow> bkey \<Rightarrow> bkey \<Rightarrow> bool" where
  "key_lt fp dtype a b \<longleftrightarrow> agfs_btree_key_cmp fp dtype a b < 0"

text \<open>What the tree needs of a key type: the comparison is a linear order on the keys that are used.\<close>

definition keys_ok :: "(bkey \<Rightarrow> bool) \<Rightarrow> (bkey \<Rightarrow> bkey \<Rightarrow> bool) \<Rightarrow> bpair list \<Rightarrow> bool" where
  "keys_ok ok_key lt ps \<longleftrightarrow> (\<forall>p \<in> set ps. ok_key (fst p)) \<and> sorted_wrt lt (map fst ps)"

definition found_at :: "(bkey \<Rightarrow> bkey \<Rightarrow> bool) \<Rightarrow> bpair list \<Rightarrow> bkey \<Rightarrow> nat + nat \<Rightarrow> bool" where
  "found_at lt ps key res \<longleftrightarrow>
     (case res of
        Inr i \<Rightarrow> i < length ps \<and> fst (ps ! i) = key
      | Inl j \<Rightarrow> j \<le> length ps \<and> (\<forall>i < j. lt (fst (ps ! i)) key) \<and> (\<forall>i < length ps. j \<le> i \<longrightarrow> lt key (fst (ps ! i))))"

locale key_order =
  fixes fp :: fpu and dtype :: nat and ok_key :: "bkey \<Rightarrow> bool"
  assumes cmp_eq: "ok_key a \<Longrightarrow> ok_key b \<Longrightarrow> agfs_btree_key_cmp fp dtype a b = 0 \<longleftrightarrow> a = b"
    and cmp_flip: "ok_key a \<Longrightarrow> ok_key b \<Longrightarrow> agfs_btree_key_cmp fp dtype a b > 0 \<longleftrightarrow> agfs_btree_key_cmp fp dtype b a < 0"
    and cmp_trans: "ok_key a \<Longrightarrow> ok_key b \<Longrightarrow> ok_key c \<Longrightarrow> agfs_btree_key_cmp fp dtype a b < 0 \<Longrightarrow>
      agfs_btree_key_cmp fp dtype b c < 0 \<Longrightarrow> agfs_btree_key_cmp fp dtype a c < 0"
begin

abbreviation lt :: "bkey \<Rightarrow> bkey \<Rightarrow> bool" where "lt \<equiv> key_lt fp dtype"

lemma lt_trans: "ok_key a \<Longrightarrow> ok_key b \<Longrightarrow> ok_key c \<Longrightarrow> lt a b \<Longrightarrow> lt b c \<Longrightarrow> lt a c"
  unfolding key_lt_def by (rule cmp_trans)

lemma lt_irrefl: "ok_key a \<Longrightarrow> \<not> lt a a"
  unfolding key_lt_def using cmp_eq [of a a] by simp

lemma lt_asym: "ok_key a \<Longrightarrow> ok_key b \<Longrightarrow> lt a b \<Longrightarrow> \<not> lt b a"
  using lt_trans [of a b a] lt_irrefl [of a] by blast

lemma lt_total: "ok_key a \<Longrightarrow> ok_key b \<Longrightarrow> a \<noteq> b \<Longrightarrow> lt a b \<or> lt b a"
  unfolding key_lt_def using cmp_eq [of a b] cmp_flip [of a b] by linarith

lemma cmp_cases:
  assumes "ok_key a" "ok_key b"
  shows "agfs_btree_key_cmp fp dtype a b = 0 \<longleftrightarrow> a = b" "agfs_btree_key_cmp fp dtype a b < 0 \<longleftrightarrow> lt a b"
    "agfs_btree_key_cmp fp dtype a b > 0 \<longleftrightarrow> lt b a" "agfs_btree_key_cmp fp dtype a b \<le> 0 \<longleftrightarrow> \<not> lt b a"
  using cmp_eq [OF assms] cmp_flip [OF assms] unfolding key_lt_def by linarith+

lemma lt_imp_neq: "ok_key a \<Longrightarrow> ok_key b \<Longrightarrow> lt a b \<Longrightarrow> a \<noteq> b"
  using lt_irrefl by blast

subsection \<open>Search in a node of sorted keys\<close>

lemma keys_ok_nth: "keys_ok ok_key lt ps \<Longrightarrow> i < length ps \<Longrightarrow> ok_key (fst (ps ! i))"
  by (simp add: keys_ok_def)

lemma keys_ok_less: "keys_ok ok_key lt ps \<Longrightarrow> i < j \<Longrightarrow> j < length ps \<Longrightarrow> lt (fst (ps ! i)) (fst (ps ! j))"
  by (simp add: keys_ok_def sorted_wrt_iff_nth_less)

lemma bt_search_loop_found:
  assumes "node_is n l r ov ps" "keys_ok ok_key lt ps" "ok_key key"
    and "0 \<le> lo" "lo \<le> hi + 1" "hi < int (length ps)"
    "\<forall>i < nat lo. lt (fst (ps ! i)) key" "\<forall>i < length ps. hi < int i \<longrightarrow> lt key (fst (ps ! i))"
  shows "found_at lt ps key (bt_search_loop fp dtype n key lo hi)"
  using assms(4-)
proof (induction "nat (hi - lo + 1)" arbitrary: lo hi rule: less_induct)
  case (less lo hi)
  note P = less.prems
  show ?case
  proof (cases "lo > hi")
    case True
    then have "bt_search_loop fp dtype n key lo hi = Inl (nat lo)" by (subst bt_search_loop.simps) simp
    then show ?thesis using P True by (auto simp: found_at_def nat_le_iff)
  next
    case False
    define mid where "mid = (lo + hi) div 2"
    define m where "m = nat mid"
    have mid: "lo \<le> mid" "mid \<le> hi" "int m = mid" using False P(1) unfolding mid_def m_def by auto
    have m: "m < length ps" using mid P(3) by linarith
    have ok: "ok_key (fst (ps ! m))" by (rule keys_ok_nth [OF assms(2) m])
    note cmp = cmp_cases [OF assms(3) ok]
    have key: "agfs_btree_key n m = fst (ps ! m)" by (rule node_is_key [OF assms(1) m])
    have step: "bt_search_loop fp dtype n key lo hi =
        (if fst (ps ! m) = key then Inr m else if lt key (fst (ps ! m)) then bt_search_loop fp dtype n key lo (mid - 1)
         else bt_search_loop fp dtype n key (mid + 1) hi)"
      using False key cmp by (subst bt_search_loop.simps) (simp add: mid_def [symmetric] m_def [symmetric] Let_def)
    consider "fst (ps ! m) = key" | "fst (ps ! m) \<noteq> key" "lt key (fst (ps ! m))" | "fst (ps ! m) \<noteq> key" "lt (fst (ps ! m)) key"
        "\<not> lt key (fst (ps ! m))"
      using lt_total [OF assms(3) ok] lt_asym [OF assms(3) ok] by blast
    then show ?thesis
    proof cases
      case 1
      then show ?thesis using step m by (simp add: found_at_def)
    next
      case 2
      have "lt key (fst (ps ! i))" if "i < length ps" "mid - 1 < int i" for i
        using that 2 mid keys_ok_less [OF assms(2), of m i] lt_trans [OF assms(3) ok keys_ok_nth [OF assms(2) that(1)]]
        by (cases "i = m") auto
      then show ?thesis using step 2 P mid False by (auto intro!: less.hyps)
    next
      case 3
      have "lt (fst (ps ! i)) key" if "i < nat (mid + 1)" for i
      proof (cases "i = m")
        case False
        then have im: "i < m" using that mid by linarith
        then have "ok_key (fst (ps ! i))" using m keys_ok_nth [OF assms(2), of i] by simp
        then show ?thesis using 3 im lt_trans [OF _ ok assms(3)] keys_ok_less [OF assms(2) im m] by blast
      qed (use 3 in simp)
      then show ?thesis using step 3 P mid False by (auto intro!: less.hyps)
    qed
  qed
qed

lemma agfs_btree_search_node_found:
  assumes "node_is n l r ov ps" "keys_ok ok_key lt ps" "ok_key key"
  shows "found_at lt ps key (agfs_btree_search_node_t fp dtype n key)"
  unfolding agfs_btree_search_node_t_def node_is_fields(4) [OF assms(1)]
  by (rule bt_search_loop_found [OF assms]) auto

lemma keys_ok_append:
  "keys_ok ok_key lt (ps @ qs) \<longleftrightarrow> keys_ok ok_key lt ps \<and> keys_ok ok_key lt qs \<and> (\<forall>p \<in> set ps. \<forall>q \<in> set qs. lt (fst p) (fst q))"
  by (auto simp: keys_ok_def sorted_wrt_append)

lemma keys_ok_Cons:
  "keys_ok ok_key lt (p # ps) \<longleftrightarrow> ok_key (fst p) \<and> keys_ok ok_key lt ps \<and> (\<forall>q \<in> set ps. lt (fst p) (fst q))"
  by (auto simp: keys_ok_def)

text \<open>The search of a key that is there, and of one that is not.\<close>

lemma agfs_btree_search_node_present:
  assumes "node_is n l r ov (A @ (key, v) # B)" "keys_ok ok_key lt (A @ (key, v) # B)"
  shows "agfs_btree_search_node_t fp dtype n key = Inr (length A)"
proof -
  let ?ps = "A @ (key, v) # B"
  have ok: "ok_key key" using assms(2) by (simp add: keys_ok_def)
  have f: "found_at lt ?ps key (agfs_btree_search_node_t fp dtype n key)"
    by (rule agfs_btree_search_node_found [OF assms ok])
  show ?thesis
  proof (cases "agfs_btree_search_node_t fp dtype n key")
    case (Inl j)
    with f have "(\<forall>i < j. lt (fst (?ps ! i)) key) \<and> (\<forall>i < length ?ps. j \<le> i \<longrightarrow> lt key (fst (?ps ! i)))"
      by (simp add: found_at_def)
    then have "lt key key" by (cases "length A < j") (auto dest: spec [of _ "length A"])
    then show ?thesis using lt_irrefl [OF ok] by simp
  next
    case (Inr i)
    with f have i: "i < length ?ps" "fst (?ps ! i) = key" by (simp_all add: found_at_def)
    have "\<not> i < length A" "\<not> length A < i"
      using i keys_ok_less [OF assms(2), of i "length A"] keys_ok_less [OF assms(2), of "length A" i] lt_irrefl [OF ok] by auto
    then show ?thesis using Inr by simp
  qed
qed

lemma agfs_btree_search_node_absent:
  assumes "node_is n l r ov (A @ B)" "keys_ok ok_key lt (A @ B)" "ok_key key"
    "\<forall>p \<in> set A. lt (fst p) key" "\<forall>p \<in> set B. lt key (fst p)"
  shows "agfs_btree_search_node_t fp dtype n key = Inl (length A)"
proof -
  let ?ps = "A @ B"
  have f: "found_at lt ?ps key (agfs_btree_search_node_t fp dtype n key)"
    by (rule agfs_btree_search_node_found [OF assms(1-3)])
  have A: "lt (fst (?ps ! i)) key" if "i < length A" for i using assms(4) that by (simp add: nth_append)
  have B: "lt key (fst (?ps ! i))" if "i < length ?ps" "length A \<le> i" for i using assms(5) that by (simp add: nth_append)
  have no: "\<not> (lt (fst (?ps ! i)) key \<and> lt key (fst (?ps ! i)))" if "i < length ?ps" for i
    using lt_asym [OF assms(3) keys_ok_nth [OF assms(2) that]] by blast
  show ?thesis
  proof (cases "agfs_btree_search_node_t fp dtype n key")
    case (Inr i)
    with f have "i < length ?ps" "fst (?ps ! i) = key" by (simp_all add: found_at_def)
    then show ?thesis using A [of i] B [of i] lt_irrefl [OF assms(3)] by (cases "i < length A") auto
  next
    case (Inl j)
    with f have j: "j \<le> length ?ps" "\<forall>i < j. lt (fst (?ps ! i)) key" "\<forall>i < length ?ps. j \<le> i \<longrightarrow> lt key (fst (?ps ! i))"
      by (simp_all add: found_at_def)
    have "\<not> j < length A" using j(3) A [of j] no [of j] by auto
    moreover have "\<not> length A < j"
    proof
      assume "length A < j"
      then have "length A < length ?ps" "lt (fst (?ps ! length A)) key" using j(1,2) by auto
      then show False using B no by blast
    qed
    ultimately show ?thesis using Inl by simp
  qed
qed

text \<open>The child for a key: below the first separator that is not smaller, else the overflow link.\<close>

lemma bt_pick_loop_skip:
  assumes "\<forall>i \<in> set is. lt (agfs_btree_key n i) key \<and> ok_key (agfs_btree_key n i)" "ok_key key"
  shows "bt_pick_loop fp dtype n key (is @ js) = bt_pick_loop fp dtype n key js"
  using assms(1) by (induction "is") (auto simp: cmp_cases(4) [OF assms(2)])

lemma agfs_btree_pick_child_pair:
  assumes "node_is n l r ov (A @ (k, v) # B)" "keys_ok ok_key lt (A @ (k, v) # B)" "ok_key key"
    "\<forall>p \<in> set A. lt (fst p) key" "\<not> lt k key"
  shows "agfs_btree_pick_child_t fp dtype n key = v"
proof -
  let ?ps = "A @ (k, v) # B"
  have cnt: "nd_count n = length ?ps" "length ?ps \<le> 99" using node_is_fields(4) node_isD(8) assms(1) by blast+
  have key: "agfs_btree_key n i = fst (?ps ! i)" if "i < length ?ps" for i by (rule node_is_key [OF assms(1) that])
  have okk: "ok_key k" using assms(2) by (simp add: keys_ok_def)
  have lst: "fst (?ps ! (length ?ps - 1)) = (if B = [] then k else fst (last B))"
    by (simp add: last_conv_nth nth_append)
  have "\<not> lt (fst (?ps ! (length ?ps - 1))) key"
  proof (cases "B = []")
    case False
    then have "lt k (fst (last B))" "ok_key (fst (last B))" using assms(2) by (auto simp: keys_ok_append keys_ok_Cons) (simp add: keys_ok_def)
    then show ?thesis using lst False assms(5) lt_trans [OF okk _ assms(3)] by auto
  qed (use lst assms(5) in simp)
  then have "\<not> agfs_btree_key_cmp fp dtype key (agfs_btree_key n (nd_count n - 1)) > 0"
    using key [of "length ?ps - 1"] cnt keys_ok_nth [OF assms(2), of "length ?ps - 1"] cmp_cases(3) [OF assms(3)] by simp
  moreover have "min (nd_count n) (AGFS_BTREE_MAX_PAIRS + 2) = length ?ps" using cnt by simp
  ultimately have "agfs_btree_pick_child_t fp dtype n key = bt_pick_loop fp dtype n key [0..<length ?ps]"
    using cnt(1) unfolding agfs_btree_pick_child_t_def by simp
  also have "[0..<length ?ps] = [0..<length A] @ length A # [Suc (length A)..<length ?ps]"
    using upt_add_eq_append [of 0 "length A" "Suc (length B)"] upt_conv_Cons [of "length A" "length ?ps"] by simp
  also have "bt_pick_loop fp dtype n key \<dots> = bt_pick_loop fp dtype n key (length A # [Suc (length A)..<length ?ps])"
    by (rule bt_pick_loop_skip) (use assms(4) key assms(2,3) in \<open>auto simp: nth_append keys_ok_def\<close>)
  also have "\<dots> = v"
    using key [of "length A"] cmp_cases(4) [OF assms(3) okk] assms(5) node_is_value [OF assms(1), of "length A"] by simp
  finally show ?thesis .
qed

lemma agfs_btree_pick_child_overflow:
  assumes "node_is n l r ov ps" "keys_ok ok_key lt ps" "ok_key key" "\<forall>p \<in> set ps. lt (fst p) key" "ov \<noteq> AGFS_BTREE_NULL"
  shows "agfs_btree_pick_child_t fp dtype n key = ov"
proof (cases "ps = []")
  case True
  then show ?thesis using node_is_fields [OF assms(1)] by (simp add: agfs_btree_pick_child_t_def)
next
  case False
  then have i: "length ps - 1 < length ps" by simp
  have "agfs_btree_key_cmp fp dtype key (agfs_btree_key n (nd_count n - 1)) > 0"
    using node_is_key [OF assms(1) i] node_is_fields(4) [OF assms(1)] keys_ok_nth [OF assms(2) i] assms(4) i
      cmp_cases(3) [OF assms(3)] by simp
  then show ?thesis using node_is_fields [OF assms(1)] assms(5) False by (simp add: agfs_btree_pick_child_t_def)
qed

lemma bt_insert_index_absent:
  assumes "keys_ok ok_key lt (A @ B)" "ok_key key" "\<forall>p \<in> set A. lt (fst p) key" "\<forall>p \<in> set B. lt key (fst p)"
  shows "bt_insert_index fp dtype key i (A @ B) = Some (i + length A)"
  using assms
proof (induction A arbitrary: i)
  case Nil
  show ?case
  proof (cases B)
    case (Cons p ps)
    then show ?thesis using Nil cmp_cases [OF assms(2), of "fst p"] lt_irrefl [OF assms(2)]
      by (cases p) (auto simp: keys_ok_Cons)
  qed simp
next
  case (Cons p A)
  then have "lt (fst p) key" "ok_key (fst p)" by (auto simp: keys_ok_Cons)
  then have "\<not> agfs_btree_key_cmp fp dtype key (fst p) = 0" "\<not> agfs_btree_key_cmp fp dtype key (fst p) < 0"
    using cmp_cases [OF assms(2), of "fst p"] lt_irrefl [OF assms(2)] lt_asym [OF assms(2)] by auto
  moreover have "bt_insert_index fp dtype key (Suc i) (A @ B) = Some (Suc i + length A)"
    using Cons.prems by (intro Cons.IH) (auto simp: keys_ok_Cons)
  ultimately show ?case by (cases p) (simp add: Let_def)
qed

lemma bt_insert_index_present:
  assumes "keys_ok ok_key lt ps" "key \<in> fst ` set ps"
  shows "bt_insert_index fp dtype key i ps = None"
proof -
  have ok: "ok_key key" using assms by (auto simp: keys_ok_def)
  show ?thesis using assms
  proof (induction ps arbitrary: i)
    case (Cons p ps)
    have okp: "ok_key (fst p)" using Cons.prems by (simp add: keys_ok_Cons)
    show ?case
    proof (cases "fst p = key")
      case True
      then show ?thesis using cmp_cases(1) [OF ok ok] by (cases p) (simp add: Let_def)
    next
      case False
      then have "key \<in> fst ` set ps" "lt (fst p) key" using Cons.prems by (auto simp: keys_ok_Cons)
      moreover then have "\<not> agfs_btree_key_cmp fp dtype key (fst p) < 0" using cmp_cases(2) [OF ok okp] lt_asym [OF ok okp] by auto
      ultimately show ?thesis using Cons.IH [of "i + 1"] Cons.prems cmp_cases(1) [OF ok okp] False
        by (cases p) (auto simp: keys_ok_Cons Let_def)
    qed
  qed simp
qed

text \<open>A list of sorted keys splits where a key belongs.\<close>

lemma keys_split:
  assumes "keys_ok ok_key lt ps" "ok_key key"
  obtains (present) A v B where "ps = A @ (key, v) # B"
  | (absent) A B where "ps = A @ B" "\<forall>p \<in> set A. lt (fst p) key" "\<forall>p \<in> set B. lt key (fst p)" "key \<notin> fst ` set ps"
proof (cases "key \<in> fst ` set ps")
  case True
  then obtain v where "(key, v) \<in> set ps" by auto
  then show ?thesis using present by (metis split_list)
next
  case False
  define A B where "A = takeWhile (\<lambda>p. lt (fst p) key) ps" "B = dropWhile (\<lambda>p. lt (fst p) key) ps"
  have ps: "ps = A @ B" by (simp add: A_B_def)
  have B: "lt key (fst p)" if "p \<in> set B" for p
  proof -
    obtain q B' where q: "B = q # B'" using \<open>p \<in> set B\<close> by (cases B) auto
    have "\<not> lt (fst q) key" using q hd_dropWhile [of "\<lambda>p. lt (fst p) key" ps] unfolding A_B_def by auto
    moreover have okq: "ok_key (fst q)" "fst q \<noteq> key" using assms(1) q ps False by (auto simp: keys_ok_def)
    ultimately have "lt key (fst q)" using lt_total [OF assms(2)] by blast
    moreover have "p = q \<or> lt (fst q) (fst p)" "ok_key (fst p)"
      using assms(1) ps q \<open>p \<in> set B\<close> by (auto simp: keys_ok_def sorted_wrt_append)
    ultimately show ?thesis using lt_trans [OF assms(2) okq(1)] by blast
  qed
  show ?thesis by (rule absent [OF ps _ _ False]) (use B in \<open>auto simp: A_B_def dest: set_takeWhileD\<close>)
qed

end

subsection \<open>Names and integers as keys\<close>

text \<open>The order of strings: by the first byte that differs, as a signed character; a prefix comes first.\<close>

fun agfs_key_less :: "byte list \<Rightarrow> byte list \<Rightarrow> bool" where
  "agfs_key_less [] ys = (ys \<noteq> [])"
| "agfs_key_less (x # xs) [] = False"
| "agfs_key_less (x # xs) (y # ys) =
     (if x \<noteq> y then sint x < sint y else agfs_key_less xs ys)"

definition dir_key :: "bkey \<Rightarrow> bool" where
  "dir_key k \<longleftrightarrow> k \<noteq> [] \<and> length k \<le> 88 \<and> 0 \<notin> set k"

definition u64_key :: "bkey \<Rightarrow> bool" where
  "u64_key k \<longleftrightarrow> length k = 8"

lemma agfs_key_less_Nil2 [simp]: "\<not> agfs_key_less a []"
  by (cases a) auto

lemma agfs_btree_key_cmp_string:
  "agfs_btree_key_cmp fp 0 a b = 
     (let cmp = strncmp a b (min (length a) (length b)) in if cmp = 0 then int (length a) - int (length b) else cmp)"
  by (simp add: agfs_btree_key_cmp_def)

lemma string_cmp_Cons:
  assumes "x \<noteq> 0" "y \<noteq> 0"
  shows "agfs_btree_key_cmp fp 0 (x # xs) (y # ys) =
    (if x = y then agfs_btree_key_cmp fp 0 xs ys else if sint x < sint y then -1 else 1)"
  using assms by (simp add: agfs_btree_key_cmp_string ch_def Let_def)

lemma string_cmp_Nil:
  "agfs_btree_key_cmp fp 0 [] b = - int (length b)" "agfs_btree_key_cmp fp 0 a [] = int (length a)"
  by (simp_all add: agfs_btree_key_cmp_string)

lemma sint_neq: "(x :: 8 word) \<noteq> y \<Longrightarrow> sint x < sint y \<or> sint y < sint x"
  by (metis linorder_neqE sint_uint signed_word_eqI)

lemma string_cmp:
  assumes "0 \<notin> set a" "0 \<notin> set b"
  shows "agfs_btree_key_cmp fp 0 a b = 0 \<longleftrightarrow> a = b" "agfs_btree_key_cmp fp 0 a b < 0 \<longleftrightarrow> agfs_key_less a b"
    "agfs_btree_key_cmp fp 0 a b > 0 \<longleftrightarrow> agfs_key_less b a"
  using assms
proof (induction a b rule: agfs_key_less.induct)
  case (3 x xs y ys)
  case 1
  then show ?case using 3 by (auto simp: string_cmp_Cons)
  case 2
  then show ?case using 3 by (auto simp: string_cmp_Cons)
  case 3
  then show ?case using "3.IH" sint_neq [of x y] by (auto simp: string_cmp_Cons)
qed (auto simp: string_cmp_Nil)

lemma agfs_key_less_trans: "agfs_key_less a b \<Longrightarrow> agfs_key_less b c \<Longrightarrow> agfs_key_less a c"
proof (induction a b arbitrary: c rule: agfs_key_less.induct)
  case (3 x xs y ys)
  then show ?case by (cases c) (auto split: if_splits)
qed (auto elim: agfs_key_less.elims)

lemma key_lt_string: "0 \<notin> set a \<Longrightarrow> 0 \<notin> set b \<Longrightarrow> key_lt fp 0 a b = agfs_key_less a b"
  by (simp add: key_lt_def string_cmp)

locale tree_keys = key_order +
  assumes key_len: "ok_key k \<Longrightarrow> k \<noteq> [] \<and> length k \<le> 88"

lemma string_keys:
  assumes "\<And>k. ok_key k \<Longrightarrow> 0 \<notin> set k"
  shows "key_order fp 0 ok_key"
proof
  fix a b c :: bkey
  assume ok: "ok_key a" "ok_key b"
  then have z: "0 \<notin> set a" "0 \<notin> set b" using assms by blast+
  show "(agfs_btree_key_cmp fp 0 a b = 0) = (a = b)" using z by (simp add: string_cmp)
  show "(agfs_btree_key_cmp fp 0 a b > 0) = (agfs_btree_key_cmp fp 0 b a < 0)" using z by (simp add: string_cmp)
  show "agfs_btree_key_cmp fp 0 a c < 0"
    if "ok_key c" "agfs_btree_key_cmp fp 0 a b < 0" "agfs_btree_key_cmp fp 0 b c < 0"
    using z assms [of c] that agfs_key_less_trans by (auto simp: string_cmp)
qed

interpretation dir_keys: tree_keys fp 0 dir_key for fp
  by (intro tree_keys.intro string_keys tree_keys_axioms.intro) (auto simp: dir_key_def)

text \<open>The names the system calls accept may be longer than the ones a split can place.\<close>

definition name_key :: "bkey \<Rightarrow> bool" where
  "name_key k \<longleftrightarrow> k \<noteq> [] \<and> length k \<le> 255 \<and> 0 \<notin> set k"

interpretation name_keys: key_order fp 0 name_key for fp
  by (rule string_keys) (simp add: name_key_def)

lemma u64_cmp:
  assumes "u64_key a" "u64_key b"
  shows "agfs_btree_key_cmp fp 6 a b = cmp3 (le_val a < le_val b) (le_val b < le_val a)"
  using assms by (simp add: agfs_btree_key_cmp_def bt_cmp_num_def u64_key_def)

lemma le_val_inject: "length a = length b \<Longrightarrow> le_val a = le_val b \<Longrightarrow> a = b"
  by (metis le_enc_le_val)

interpretation u64_keys: tree_keys fp 6 u64_key for fp
proof unfold_locales
  fix a b c :: bkey
  assume ok: "u64_key a" "u64_key b"
  show "(agfs_btree_key_cmp fp 6 a b = 0) = (a = b)"
    using ok le_val_inject [of a b] by (auto simp: u64_cmp cmp3_def u64_key_def)
  show "(agfs_btree_key_cmp fp 6 a b > 0) = (agfs_btree_key_cmp fp 6 b a < 0)" using ok by (simp add: u64_cmp cmp3_def)
  show "agfs_btree_key_cmp fp 6 a c < 0"
    if "u64_key c" "agfs_btree_key_cmp fp 6 a b < 0" "agfs_btree_key_cmp fp 6 b c < 0"
    using ok that by (auto simp: u64_cmp cmp3_def split: if_splits)
qed (auto simp: u64_key_def)

text \<open>The keys of the size and time indices: eight bytes that are compared as a signed number.\<close>

definition s64_val :: "bkey \<Rightarrow> int" where
  "s64_val k = sint (of_nat (le_val k) :: 64 word)"

lemma s64_cmp:
  assumes "u64_key a" "u64_key b"
  shows "agfs_btree_key_cmp fp 5 a b = cmp3 (s64_val a < s64_val b) (s64_val b < s64_val a)"
  using assms by (simp add: agfs_btree_key_cmp_def bt_cmp_num_def u64_key_def s64_val_def)

lemma s64_val_inject: "u64_key a \<Longrightarrow> u64_key b \<Longrightarrow> s64_val a = s64_val b \<Longrightarrow> a = b"
proof -
  assume k: "u64_key a" "u64_key b" and e: "s64_val a = s64_val b"
  have "(of_nat (le_val a) :: 64 word) = of_nat (le_val b)" using e unfolding s64_val_def by (simp add: signed_word_eqI)
  from arg_cong [OF this, of unat] have "le_val a mod 2 ^ 64 = le_val b mod 2 ^ 64" by (simp add: unat_of_nat)
  moreover have "le_val a < 2 ^ 64" "le_val b < 2 ^ 64" using le_val_less [of a] le_val_less [of b] k by (simp_all add: u64_key_def)
  ultimately show "a = b" using le_val_inject k by (simp add: u64_key_def)
qed

interpretation s64_keys: tree_keys fp 5 u64_key for fp
proof unfold_locales
  fix a b c :: bkey
  assume ok: "u64_key a" "u64_key b"
  show "(agfs_btree_key_cmp fp 5 a b = 0) = (a = b)" using ok s64_val_inject [of a b] by (auto simp: s64_cmp cmp3_def)
  show "(agfs_btree_key_cmp fp 5 a b > 0) = (agfs_btree_key_cmp fp 5 b a < 0)" using ok by (simp add: s64_cmp cmp3_def)
  show "agfs_btree_key_cmp fp 5 a c < 0"
    if "u64_key c" "agfs_btree_key_cmp fp 5 a b < 0" "agfs_btree_key_cmp fp 5 b c < 0"
    using ok that by (auto simp: s64_cmp cmp3_def split: if_splits)
qed (auto simp: u64_key_def)

end
