(* ===== verification/Btree.thy ===== *)
theory Btree
  imports Btree_Keys
begin

text \<open>
  The B+tree of a directory or an index, \<^verbatim>\<open>fs/agfs/btree.c\<close>, over the data stream of an inode. The
  state is the stream as the buffer cache holds it, one node per kilobyte, with the outcomes of the
  calls that may fail: \<^verbatim>\<open>agfs_bmap\<close> for reading and for writing, \<^verbatim>\<open>bread\<close> and \<^verbatim>\<open>kmalloc\<close>. The
  blocks handed to \<^verbatim>\<open>agfs_log_write_block\<close> are recorded in order. Nothing else runs, so a buffer
  is locked only by the function itself, and each function borrows the buffer it holds.

  An operation returns the new state with its result; it has no result when the code would write
  outside a buffer or free a pointer it has not set, which the lemmas exclude. The two walks along links that a damaged tree could make
  endless are partial functions.
\<close>

subsection \<open>The stream of a tree\<close>

abbreviation (input) AGFS_BTREE_MAGIC :: nat where "AGFS_BTREE_MAGIC \<equiv> 1777779432"

abbreviation (input) AGFS_MAX_BLOCK_SIZE :: nat where "AGFS_MAX_BLOCK_SIZE \<equiv> 4096"

record btree =
  bt_bs :: nat
  bt_node :: "nat \<Rightarrow> byte list"
  bt_map :: "nat \<Rightarrow> bool result"
  bt_rd :: "nat \<Rightarrow> bool"
  bt_size :: nat
  bt_dirty :: bool
  bt_mem :: mem
  bt_grow :: "status list"
  bt_logged :: "nat list"

text \<open>\<^verbatim>\<open>__off_t\<close> has 32 bits: the offset is truncated on its way to \<^verbatim>\<open>agfs_bmap\<close>.\<close>

definition bt_blk :: "btree \<Rightarrow> nat \<Rightarrow> nat" where
  "bt_blk t off = off mod 2 ^ 32 div bt_bs t"

definition get_node :: "btree \<Rightarrow> nat \<Rightarrow> byte list" where
  "get_node t off = bt_node t (off mod 2 ^ 32)"

definition put_node :: "nat \<Rightarrow> byte list \<Rightarrow> btree \<Rightarrow> btree" where
  "put_node off n t = t\<lparr>bt_node := (bt_node t)(off mod 2 ^ 32 := n)\<rparr>"

definition bt_log :: "nat \<Rightarrow> btree \<Rightarrow> btree" where
  "bt_log off t = t\<lparr>bt_logged := bt_logged t @ [bt_blk t off]\<rparr>"

definition agfs_btree_read_node :: "btree \<Rightarrow> nat \<Rightarrow> byte list option" where
  "agfs_btree_read_node t off =
     (if off mod AGFS_BTREE_NODE_SIZE \<noteq> 0 then None
      else case bt_map t (bt_blk t off) of
             Inl e \<Rightarrow> None
           | Inr mapped \<Rightarrow> if \<not> mapped then None else if bt_rd t (bt_blk t off) then Some (get_node t off) else None)"

subsection \<open>The header\<close>

definition hd_magic :: "byte list \<Rightarrow> nat" where
  "hd_magic h = le_val (mem_get 0 4 h)"

definition hd_node_size :: "byte list \<Rightarrow> nat" where
  "hd_node_size h = le_val (mem_get 4 4 h)"

definition hd_depth :: "byte list \<Rightarrow> nat" where
  "hd_depth h = le_val (mem_get 8 4 h)"

definition hd_type :: "byte list \<Rightarrow> nat" where
  "hd_type h = le_val (mem_get 12 4 h)"

definition hd_root :: "byte list \<Rightarrow> nat" where
  "hd_root h = le_val (mem_get 16 8 h)"

definition hd_max_size :: "byte list \<Rightarrow> nat" where
  "hd_max_size h = le_val (mem_get 32 8 h)"

definition agfs_btree_read_header :: "btree \<Rightarrow> byte list result" where
  "agfs_btree_read_header t =
     (case agfs_btree_read_node t 0 of
        None \<Rightarrow> Inl EIO
      | Some h \<Rightarrow>
          if hd_magic h \<noteq> AGFS_BTREE_MAGIC \<or> hd_node_size h \<noteq> AGFS_BTREE_NODE_SIZE then Inl EINVAL
          else Inr (mem_get 0 40 h))"

definition agfs_btree_write_header :: "btree \<Rightarrow> byte list \<Rightarrow> btree \<times> unit result" where
  "agfs_btree_write_header t hdr =
     (case agfs_btree_read_node t 0 of
        None \<Rightarrow> (t, Inl EIO)
      | Some h \<Rightarrow> (bt_log 0 (put_node 0 (mem_put 0 (mem_put 32 (le_enc 8 (bt_size t)) hdr) h) t), Inr ()))"

subsection \<open>Search\<close>

text \<open>The path from the root to the leaf of a key; the first argument counts the levels that are left of sixteen.\<close>

fun agfs_btree_descend_t :: "nat \<Rightarrow> fpu \<Rightarrow> btree \<Rightarrow> nat \<Rightarrow> bkey \<Rightarrow> nat \<Rightarrow> nat list result" where
  "agfs_btree_descend_t 0 fp t dtype key off = Inl EIO"
| "agfs_btree_descend_t (Suc d) fp t dtype key off =
     (case agfs_btree_read_node t off of
        None \<Rightarrow> Inl EIO
      | Some n \<Rightarrow>
          if nd_count n > AGFS_BTREE_MAX_PAIRS + 2 \<or> nd_key_length n > AGFS_BTREE_NODE_SIZE - 28 then Inl EIO
          else if nd_overflow n = AGFS_BTREE_NULL then Inr [off]
          else
            (case agfs_btree_descend_t d fp t dtype key (agfs_btree_pick_child_t fp dtype n key) of
               Inl e \<Rightarrow> Inl e
             | Inr path \<Rightarrow> Inr (off # path)))"

definition agfs_btree_find :: "fpu \<Rightarrow> btree \<Rightarrow> bkey \<Rightarrow> nat result" where
  "agfs_btree_find fp t name =
     (if name = [] then Inl ENOENT
      else
        (case agfs_btree_read_header t of
           Inl e \<Rightarrow> Inl e
         | Inr hdr \<Rightarrow>
             (case agfs_btree_descend_t 16 fp t (hd_type hdr) name (hd_root hdr) of
                Inl e \<Rightarrow> Inl e
              | Inr path \<Rightarrow>
                  (case agfs_btree_read_node t (last path) of
                     None \<Rightarrow> Inl EIO
                   | Some n \<Rightarrow>
                       if nd_count n = 0 \<or> nd_key_length n = 0 then Inl ENOENT
                       else
                         (case agfs_btree_search_node_t fp (hd_type hdr) n name of
                            Inr index \<Rightarrow> Inr (nd_value n index mod 2 ^ 32)
                          | Inl _ \<Rightarrow> Inl ENOENT)))))"

subsection \<open>Iteration\<close>

partial_function (option) bt_leftmost :: "btree \<Rightarrow> nat \<Rightarrow> nat result option" where
  "bt_leftmost t off =
     (case agfs_btree_read_node t off of
        None \<Rightarrow> Some (Inl EIO)
      | Some n \<Rightarrow>
          if nd_overflow n \<noteq> AGFS_BTREE_NULL then bt_leftmost t (if nd_count n \<noteq> 0 then nd_value n 0 else nd_overflow n)
          else Some (Inr off))"

text \<open>The callback gets a key, the inode and its own state, and returns whether to stop.\<close>

fun bt_iter_pairs :: "(bkey \<Rightarrow> nat \<Rightarrow> 's \<Rightarrow> 's \<times> bool) \<Rightarrow> bpair list \<Rightarrow> 's \<Rightarrow> 's \<times> bool result" where
  "bt_iter_pairs fn [] s = (s, Inr False)"
| "bt_iter_pairs fn ((k, v) # ps) s =
     (if length k \<ge> AGFS_BTREE_MAX_KEY_LEN then (s, Inl EIO)
      else case fn k (v mod 2 ^ 32) s of (s', stop) \<Rightarrow> if stop then (s', Inr True) else bt_iter_pairs fn ps s')"

partial_function (option) bt_iter_leaves ::
  "btree \<Rightarrow> (bkey \<Rightarrow> nat \<Rightarrow> 's \<Rightarrow> 's \<times> bool) \<Rightarrow> nat \<Rightarrow> 's \<Rightarrow> ('s \<times> status) option" where
  "bt_iter_leaves t fn off s =
     (case agfs_btree_read_node t off of
        None \<Rightarrow> Some (s, Some EIO)
      | Some n \<Rightarrow>
          if nd_overflow n \<noteq> AGFS_BTREE_NULL then Some (s, Some EIO)
          else
            (case bt_iter_pairs fn (node_pairs n) s of
               (s', res) \<Rightarrow>
                 (case res of
                    Inl e \<Rightarrow> Some (s', Some e)
                  | Inr stop \<Rightarrow>
                      if stop \<or> nd_right n = AGFS_BTREE_NULL then Some (s', None) else bt_iter_leaves t fn (nd_right n) s')))"

definition agfs_btree_iterate :: "btree \<Rightarrow> (bkey \<Rightarrow> nat \<Rightarrow> 's \<Rightarrow> 's \<times> bool) \<Rightarrow> 's \<Rightarrow> ('s \<times> status) option" where
  "agfs_btree_iterate t fn s =
     (case agfs_btree_read_header t of
        Inl e \<Rightarrow> Some (s, Some e)
      | Inr hdr \<Rightarrow>
          (case bt_leftmost t (hd_root hdr) of
             None \<Rightarrow> None
           | Some res \<Rightarrow>
               (case res of
                  Inl e \<Rightarrow> Some (s, Some e)
                | Inr off \<Rightarrow> bt_iter_leaves t fn off s)))"

subsection \<open>Writing nodes\<close>

text \<open>The callers of \<open>agfs_btree_serialize\<close> do not look at its result.\<close>

definition bt_serialize :: "nat \<Rightarrow> bpair list \<Rightarrow> nat \<Rightarrow> nat \<Rightarrow> nat \<Rightarrow> btree \<Rightarrow> btree option" where
  "bt_serialize off ps ov right left t =
     (case agfs_btree_serialize (bt_mem t) (get_node t off) ps ov right left of
        None \<Rightarrow> None
      | Some (m, n, st) \<Rightarrow> Some (put_node off n (t\<lparr>bt_mem := m\<rparr>)))"

definition agfs_btree_write_node ::
  "nat \<Rightarrow> bpair list \<Rightarrow> nat \<Rightarrow> nat \<Rightarrow> nat \<Rightarrow> nat \<Rightarrow> btree \<Rightarrow> (btree \<times> unit result) option" where
  "agfs_btree_write_node off ps ov right left held t =
     (if off div bt_bs t = held div bt_bs t then
        (if off mod AGFS_BTREE_NODE_SIZE \<noteq> 0 then None else map_option (\<lambda>t'. (t', Inr ())) (bt_serialize off ps ov right left t))
      else
        (case agfs_btree_read_node t off of
           None \<Rightarrow> Some (t, Inl EIO)
         | Some _ \<Rightarrow> map_option (\<lambda>t'. (bt_log off t', Inr ())) (bt_serialize off ps ov right left t)))"

definition agfs_btree_relink_left :: "nat \<Rightarrow> nat \<Rightarrow> nat \<Rightarrow> btree \<Rightarrow> (btree \<times> unit result) option" where
  "agfs_btree_relink_left off left held t =
     (if off = AGFS_BTREE_NULL then Some (t, Inr ())
      else if off div bt_bs t = held div bt_bs t then
        (if off mod AGFS_BTREE_NODE_SIZE \<noteq> 0 then None
         else Some (put_node off (mem_put 0 (le_enc 8 left) (get_node t off)) t, Inr ()))
      else
        (case agfs_btree_read_node t off of
           None \<Rightarrow> Some (t, Inl EIO)
         | Some n \<Rightarrow> Some (bt_log off (put_node off (mem_put 0 (le_enc 8 left) n) t), Inr ())))"

text \<open>
  The stream grows by a node. The first outcome in \<open>bt_grow\<close> is that of \<^verbatim>\<open>bmap\<close> for writing; when the
  list is exhausted it succeeds. The header follows the size, in the buffer the caller holds when that
  is the header's block.
\<close>

definition grow_outcome :: "btree \<Rightarrow> status" where
  "grow_outcome t = (case bt_grow t of [] \<Rightarrow> None | s # _ \<Rightarrow> s)"

definition bt_extend :: "btree \<Rightarrow> btree" where
  "bt_extend t = t\<lparr>bt_map := (bt_map t)(bt_blk t (bt_size t) := Inr True),
     bt_size := (bt_size t + AGFS_BTREE_NODE_SIZE) mod 2 ^ 32, bt_dirty := True, bt_grow := tl (bt_grow t)\<rparr>"

definition agfs_btree_grow :: "nat option \<Rightarrow> btree \<Rightarrow> btree \<times> nat result" where
  "agfs_btree_grow held t =
     (case grow_outcome t of
        Some e \<Rightarrow> (t\<lparr>bt_grow := tl (bt_grow t)\<rparr>, Inl e)
      | None \<Rightarrow>
          (let off = bt_size t; t1 = bt_extend t in
           case bt_map t1 0 of
             Inl e \<Rightarrow> (t1, Inl e)
           | Inr _ \<Rightarrow>
               if held \<noteq> None \<and> bt_blk t1 (the held) = 0 then
                 (put_node 0 (mem_put 32 (le_enc 8 (bt_size t1)) (get_node t1 0)) t1, Inr off)
               else
                 (case agfs_btree_read_node t1 0 of
                    None \<Rightarrow> (t1, Inr off)
                  | Some h \<Rightarrow> (bt_log 0 (put_node 0 (mem_put 32 (le_enc 8 (bt_size t1)) h) t1), Inr off))))"

subsection \<open>Splitting\<close>

definition bt_then ::
  "(btree \<times> 'a result) option \<Rightarrow> ('a \<Rightarrow> btree \<Rightarrow> (btree \<times> 'b result) option) \<Rightarrow> (btree \<times> 'b result) option" where
  "bt_then r f = (case r of None \<Rightarrow> None | Some (t, Inl e) \<Rightarrow> Some (t, Inl e) | Some (t, Inr x) \<Rightarrow> f x t)"

text \<open>Both branches of the function begin alike: the right half goes to a new node, the left half stays.\<close>

definition bt_split_halves ::
  "nat \<Rightarrow> bpair list \<Rightarrow> bpair list \<Rightarrow> nat \<Rightarrow> nat \<Rightarrow> bool \<Rightarrow> btree \<Rightarrow> (btree \<times> nat result) option" where
  "bt_split_halves node_off left_pairs right_pairs left_overflow right_overflow is_leaf t =
     (case agfs_btree_read_node t node_off of
        None \<Rightarrow> Some (t, Inl EIO)
      | Some n \<Rightarrow>
          (let old_right = nd_right n; old_left = nd_left n in
           bt_then (Some (agfs_btree_grow (Some node_off) t)) (\<lambda>right_off t.
           bt_then (agfs_btree_write_node right_off right_pairs right_overflow
                      (if is_leaf then old_right else AGFS_BTREE_NULL) (if is_leaf then node_off else AGFS_BTREE_NULL) node_off t) (\<lambda>_ t.
           bt_then (if is_leaf then agfs_btree_relink_left old_right right_off node_off t else Some (t, Inr ())) (\<lambda>_ t.
           map_option (\<lambda>t. (bt_log node_off t, Inr right_off))
             (bt_serialize node_off left_pairs left_overflow (if is_leaf then right_off else AGFS_BTREE_NULL)
                (if is_leaf then old_left else AGFS_BTREE_NULL) t))))))"

definition bt_new_root :: "byte list \<Rightarrow> bkey \<Rightarrow> nat \<Rightarrow> nat \<Rightarrow> nat \<Rightarrow> btree \<Rightarrow> (btree \<times> unit result) option" where
  "bt_new_root hdr sep node_off right_off depth t =
     bt_then (Some (agfs_btree_grow None t)) (\<lambda>root_off t.
     case agfs_btree_read_node t root_off of
       None \<Rightarrow> Some (t, Inl EIO)
     | Some _ \<Rightarrow>
         if pairs_size [(sep, node_off)] > AGFS_BTREE_NODE_SIZE then None
         else
           (let t = bt_log root_off (put_node root_off (node_build AGFS_BTREE_NULL AGFS_BTREE_NULL right_off [(sep, node_off)]) t);
                hdr = mem_put 16 (le_enc 8 root_off) hdr;
                hdr = (if hd_depth hdr < depth + 1 then mem_put 8 (le_enc 4 (depth + 1)) hdr else hdr)
            in Some (fst (agfs_btree_write_header t hdr), Inr ())))"

text \<open>The separator joins the parent's pairs in front of the pair whose child was split, or as the last one.\<close>

fun bt_value_index :: "nat \<Rightarrow> nat \<Rightarrow> bpair list \<Rightarrow> nat option" where
  "bt_value_index off i [] = None"
| "bt_value_index off i ((k, v) # ps) = (if v = off then Some i else bt_value_index off (i + 1) ps)"

definition bt_parent_pairs :: "bpair list \<Rightarrow> nat \<Rightarrow> bkey \<Rightarrow> nat \<Rightarrow> nat \<Rightarrow> (bpair list \<times> nat) option" where
  "bt_parent_pairs pp parent_overflow sep node_off right_off =
     (case bt_value_index node_off 0 pp of
        Some j \<Rightarrow> Some (take j pp @ (sep, node_off) # (fst (pp ! j), right_off) # drop (j + 1) pp, parent_overflow)
      | None \<Rightarrow> if parent_overflow = node_off then Some (pp @ [(sep, node_off)], right_off) else None)"

text \<open>The parent is rebuilt in place, or its new pairs and overflow link are returned when they do not fit.\<close>

definition bt_parent_insert ::
  "nat \<Rightarrow> bkey \<Rightarrow> nat \<Rightarrow> nat \<Rightarrow> btree \<Rightarrow> (btree \<times> (bpair list \<times> nat) option result) option" where
  "bt_parent_insert parent_off sep node_off right_off t =
     (case agfs_btree_read_node t parent_off of
        None \<Rightarrow> Some (t, Inl EIO)
      | Some parent \<Rightarrow>
          if \<not> kmalloc_ok (bt_mem t) then None
          else if \<not> kmalloc_ok (kmalloc_rest (bt_mem t)) then
            Some (t\<lparr>bt_mem := kmalloc_rest (kmalloc_rest (bt_mem t))\<rparr>, Inl ENOMEM)
          else
            (let t = t\<lparr>bt_mem := kmalloc_rest (kmalloc_rest (bt_mem t))\<rparr>; pp = node_pairs parent in
             if length pp > AGFS_BTREE_MAX_PAIRS + 2 then Some (t, Inl ENOSPC)
             else if keys_length pp > AGFS_BTREE_NODE_SIZE then None
             else
               (case bt_parent_pairs pp (nd_overflow parent) sep node_off right_off of
                  None \<Rightarrow> Some (t, Inl EIO)
                | Some (pairs, parent_overflow) \<Rightarrow>
                    if keys_length pp + length sep > AGFS_BTREE_NODE_SIZE \<or> length pairs > AGFS_BTREE_MAX_PAIRS + 2 then None
                    else if pairs_size pairs + 8 \<le> AGFS_BTREE_NODE_SIZE then
                      map_option (\<lambda>t. (bt_log parent_off t, Inr None))
                        (bt_serialize parent_off pairs parent_overflow AGFS_BTREE_NULL AGFS_BTREE_NULL t)
                    else Some (t, Inr (Some (pairs, parent_overflow))))))"

text \<open>The path is given from the node to the root.\<close>

fun agfs_btree_split ::
  "byte list \<Rightarrow> nat list \<Rightarrow> bpair list \<Rightarrow> nat \<Rightarrow> nat \<Rightarrow> nat \<Rightarrow> btree \<Rightarrow> (btree \<times> unit result) option" where
  "agfs_btree_split hdr [] pairs split_at node_overflow depth t = None"
| "agfs_btree_split hdr (node_off # up) pairs split_at node_overflow depth t =
     (if split_at < 1 \<or> split_at \<ge> length pairs then Some (t, Inl EIO)
      else
        (let is_leaf = (node_overflow = AGFS_BTREE_NULL);
             sep = fst (pairs ! (if is_leaf then split_at - 1 else split_at));
             left_overflow = (if is_leaf then AGFS_BTREE_NULL else snd (pairs ! split_at));
             right_overflow = (if is_leaf then AGFS_BTREE_NULL else node_overflow);
             right_pairs = drop (if is_leaf then split_at else split_at + 1) pairs
         in bt_then (bt_split_halves node_off (take split_at pairs) right_pairs left_overflow right_overflow is_leaf t)
              (\<lambda>right_off t.
                case up of
                  [] \<Rightarrow> bt_new_root hdr sep node_off right_off depth t
                | parent_off # _ \<Rightarrow>
                    bt_then (bt_parent_insert parent_off sep node_off right_off t)
                      (\<lambda>rest t.
                        case rest of
                          None \<Rightarrow> Some (t, Inr ())
                        | Some (pp, parent_overflow) \<Rightarrow>
                            agfs_btree_split hdr up pp (length pp div 2) parent_overflow depth t))))"

declare agfs_btree_split.simps [simp del]

subsection \<open>Insertion and deletion\<close>

text \<open>The part of the insertion for a key that is to be new: the leaf is rebuilt, or split when it has no room.\<close>

definition bt_insert_new ::
  "fpu \<Rightarrow> byte list \<Rightarrow> nat list \<Rightarrow> bkey \<Rightarrow> nat \<Rightarrow> nat \<Rightarrow> byte list \<Rightarrow> btree \<Rightarrow> (btree \<times> unit result) option" where
  "bt_insert_new fp hdr path key v dtype n t =
     (if keys_length (node_pairs n) > AGFS_MAX_BLOCK_SIZE then None
      else
        (case agfs_btree_collect_t fp dtype n (AGFS_BTREE_MAX_PAIRS + 2) (Some (key, v)) of
           None \<Rightarrow> Some (t, Inl EEXIST)
         | Some pairs \<Rightarrow>
             if agfs_btree_node_room n (length key) then
               map_option (\<lambda>t. (bt_log (last path) t, Inr ()))
                 (bt_serialize (last path) pairs AGFS_BTREE_NULL (nd_right n) (nd_left n) t)
             else agfs_btree_split hdr (rev path) pairs (length pairs div 2) AGFS_BTREE_NULL (length path) t))"

definition agfs_btree_insert_impl :: "fpu \<Rightarrow> bkey \<Rightarrow> nat \<Rightarrow> nat \<Rightarrow> btree \<Rightarrow> (btree \<times> unit result) option" where
  "agfs_btree_insert_impl fp key v dtype t =
     (if key = [] then Some (t, Inl EINVAL)
      else
        (case agfs_btree_read_header t of
           Inl e \<Rightarrow> Some (t, Inl e)
         | Inr hdr \<Rightarrow>
             (case agfs_btree_descend_t 16 fp t (hd_type hdr) key (hd_root hdr) of
                Inl e \<Rightarrow> Some (t, Inl e)
              | Inr path \<Rightarrow>
                  (case agfs_btree_read_node t (last path) of
                     None \<Rightarrow> Some (t, Inl EIO)
                   | Some n \<Rightarrow> bt_insert_new fp hdr path key v dtype n t))))"

definition agfs_btree_delete_impl :: "fpu \<Rightarrow> bkey \<Rightarrow> btree \<Rightarrow> btree \<times> unit result" where
  "agfs_btree_delete_impl fp name t =
     (if name = [] then (t, Inl EINVAL)
      else
        (case agfs_btree_read_header t of
           Inl e \<Rightarrow> (t, Inl e)
         | Inr hdr \<Rightarrow>
             (case agfs_btree_descend_t 16 fp t (hd_type hdr) name (hd_root hdr) of
                Inl e \<Rightarrow> (t, Inl e)
              | Inr path \<Rightarrow>
                  (case agfs_btree_read_node t (last path) of
                     None \<Rightarrow> (t, Inl EIO)
                   | Some n \<Rightarrow>
                       (case agfs_btree_search_node_t fp (hd_type hdr) n name of
                          Inl _ \<Rightarrow> (t, Inl ENOENT)
                        | Inr index \<Rightarrow>
                            (bt_log (last path) (put_node (last path) (agfs_btree_remove_at n index) (t\<lparr>bt_dirty := True\<rparr>)), Inr ()))))))"

partial_function (option) bt_delete_ino_leaves :: "nat \<Rightarrow> nat \<Rightarrow> btree \<Rightarrow> (btree \<times> unit result) option" where
  "bt_delete_ino_leaves ino off t =
     (case agfs_btree_read_node t off of
        None \<Rightarrow> Some (t, Inl EIO)
      | Some n \<Rightarrow>
          if nd_overflow n \<noteq> AGFS_BTREE_NULL then Some (t, Inl EIO)
          else
            (case bt_value_index ino 0 (node_pairs n) of
               Some i \<Rightarrow> Some (bt_log off (put_node off (agfs_btree_remove_at n i) (t\<lparr>bt_dirty := True\<rparr>)), Inr ())
             | None \<Rightarrow>
                 if nd_right n = AGFS_BTREE_NULL then Some (t, Inl ENOENT) else bt_delete_ino_leaves ino (nd_right n) t))"

definition agfs_btree_delete_ino_impl :: "nat \<Rightarrow> btree \<Rightarrow> (btree \<times> unit result) option" where
  "agfs_btree_delete_ino_impl ino t =
     (case agfs_btree_read_header t of
        Inl e \<Rightarrow> Some (t, Inl e)
      | Inr hdr \<Rightarrow>
          (case bt_leftmost t (hd_root hdr) of
             None \<Rightarrow> None
           | Some res \<Rightarrow>
               (case res of
                  Inl e \<Rightarrow> Some (t, Inl e)
                | Inr off \<Rightarrow> bt_delete_ino_leaves ino off t)))"

declare bt_leftmost.simps [code] bt_iter_leaves.simps [code] bt_delete_ino_leaves.simps [code]

end
