(* ===== verification/Btree_Rep.thy ===== *)
theory Btree_Rep
  imports Btree "HOL-Library.Multiset"
begin

text \<open>
  What a stream of nodes represents. A tree is a datatype of leaves and inner nodes with their places in
  the stream; \<open>btree_tree\<close> says that the stream holds it: every node is at its place and readable, the
  leaves are linked in order, the keys are sorted across the tree. A frame is an inner node with a hole,
  so that a path from the root is a list of frames. The lemmas follow a search down the tree and show
  that it finds exactly the entries.
\<close>

subsection \<open>The tree that the nodes spell out\<close>

text \<open>
  A tree of nodes at offsets of the stream: a leaf with its pairs, or an interior node with its children,
  the separator after each but the last, and the last child, which is the overflow link.
\<close>

datatype bt = BL nat "bpair list" | BN nat "(bt \<times> bkey) list" bt

fun root_off :: "bt \<Rightarrow> nat" where
  "root_off (BL off kvs) = off"
| "root_off (BN off cs l) = off"

lemma bt_child_size [termination_simp]: "x \<in> set cs \<Longrightarrow> size (fst x) < Suc (size_list (size_prod size (\<lambda>_. 0)) cs + n)"
  by (induction cs) (auto simp: less_Suc_eq)

text \<open>The keys in the order of the walk, each entry with its value and each separator without one.\<close>

type_synonym item = "bkey \<times> nat option"

definition kv_items :: "bpair list \<Rightarrow> item list" where
  "kv_items kvs = map (\<lambda>(k, v). (k, Some v)) kvs"

fun bt_flat :: "bt \<Rightarrow> item list" where
  "bt_flat (BL off kvs) = kv_items kvs"
| "bt_flat (BN off cs l) = concat (map (\<lambda>x. bt_flat (fst x) @ [(snd x, None)]) cs) @ bt_flat l"

definition items_entries :: "item list \<Rightarrow> bpair list" where
  "items_entries its = concat (map (\<lambda>(k, v). case v of None \<Rightarrow> [] | Some v' \<Rightarrow> [(k, v')]) its)"

definition bt_entries :: "bt \<Rightarrow> bpair list" where
  "bt_entries tr = items_entries (bt_flat tr)"

text \<open>What is stored at each offset: the overflow link and the pairs.\<close>

type_synonym desc = "nat \<times> nat \<times> bpair list"

definition child_pairs :: "(bt \<times> bkey) list \<Rightarrow> bpair list" where
  "child_pairs cs = map (\<lambda>x. (snd x, root_off (fst x))) cs"

fun bt_descs :: "bt \<Rightarrow> desc set" where
  "bt_descs (BL off kvs) = {(off, AGFS_BTREE_NULL, kvs)}"
| "bt_descs (BN off cs l) = {(off, root_off l, child_pairs cs)} \<union> (\<Union>x \<in> set cs. bt_descs (fst x)) \<union> bt_descs l"

fun bt_offs :: "bt \<Rightarrow> nat list" where
  "bt_offs (BL off kvs) = [off]"
| "bt_offs (BN off cs l) = off # concat (map (\<lambda>x. bt_offs (fst x)) cs) @ bt_offs l"

fun leaf_offs :: "bt \<Rightarrow> nat list" where
  "leaf_offs (BL off kvs) = [off]"
| "leaf_offs (BN off cs l) = concat (map (\<lambda>x. leaf_offs (fst x)) cs) @ leaf_offs l"

fun bt_height :: "bt \<Rightarrow> nat" where
  "bt_height (BL off kvs) = 1"
| "bt_height (BN off cs l) = Suc (foldr (\<lambda>x h. max (bt_height (fst x)) h) cs (bt_height l))"

text \<open>
  All leaves are equally deep; an interior node has at least five separators, and the root has at
  least one (the flag says whether the tree stands at the root).
\<close>

fun bt_bal :: "nat \<Rightarrow> bool \<Rightarrow> bt \<Rightarrow> bool" where
  "bt_bal d r (BL off kvs) = (d = 1)"
| "bt_bal d r (BN off cs l) =
     (0 < d \<and> (if r then 1 else 5) \<le> length cs \<and> (\<forall>x \<in> set cs. bt_bal (d - 1) False (fst x)) \<and> bt_bal (d - 1) False l)"

subsection \<open>A place in the tree\<close>

text \<open>The way from the root to a subtree: at each node the child is followed by a separator, or is the last.\<close>

datatype frame = FC nat "(bt \<times> bkey) list" bkey "(bt \<times> bkey) list" bt | FO nat "(bt \<times> bkey) list"

fun frame_off :: "frame \<Rightarrow> nat" where
  "frame_off (FC off ls k rs l) = off"
| "frame_off (FO off ls) = off"

fun plug1 :: "frame \<Rightarrow> bt \<Rightarrow> bt" where
  "plug1 (FC off ls k rs l) s = BN off (ls @ (s, k) # rs) l"
| "plug1 (FO off ls) s = BN off ls s"

fun plug :: "frame list \<Rightarrow> bt \<Rightarrow> bt" where
  "plug [] s = s"
| "plug (f # fs) s = plug fs (plug1 f s)"

abbreviation flats :: "(bt \<times> bkey) list \<Rightarrow> item list" where
  "flats cs \<equiv> concat (map (\<lambda>x. bt_flat (fst x) @ [(snd x, None)]) cs)"

fun flat_l :: "frame list \<Rightarrow> item list" where
  "flat_l [] = []"
| "flat_l (FC off ls k rs l # fs) = flat_l fs @ flats ls"
| "flat_l (FO off ls # fs) = flat_l fs @ flats ls"

fun flat_r :: "frame list \<Rightarrow> item list" where
  "flat_r [] = []"
| "flat_r (FC off ls k rs l # fs) = ((k, None) # flats rs @ bt_flat l) @ flat_r fs"
| "flat_r (FO off ls # fs) = flat_r fs"

abbreviation leafs :: "(bt \<times> bkey) list \<Rightarrow> nat list" where
  "leafs cs \<equiv> concat (map (\<lambda>x. leaf_offs (fst x)) cs)"

fun leaf_l :: "frame list \<Rightarrow> nat list" where
  "leaf_l [] = []"
| "leaf_l (FC off ls k rs l # fs) = leaf_l fs @ leafs ls"
| "leaf_l (FO off ls # fs) = leaf_l fs @ leafs ls"

fun leaf_r :: "frame list \<Rightarrow> nat list" where
  "leaf_r [] = []"
| "leaf_r (FC off ls k rs l # fs) = (leafs rs @ leaf_offs l) @ leaf_r fs"
| "leaf_r (FO off ls # fs) = leaf_r fs"

abbreviation offss :: "(bt \<times> bkey) list \<Rightarrow> nat list" where
  "offss cs \<equiv> concat (map (\<lambda>x. bt_offs (fst x)) cs)"

fun ctx_offs :: "frame list \<Rightarrow> nat list" where
  "ctx_offs [] = []"
| "ctx_offs (FC off ls k rs l # fs) = off # offss ls @ offss rs @ bt_offs l @ ctx_offs fs"
| "ctx_offs (FO off ls # fs) = off # offss ls @ ctx_offs fs"

abbreviation descss :: "(bt \<times> bkey) list \<Rightarrow> desc set" where
  "descss cs \<equiv> (\<Union>x \<in> set cs. bt_descs (fst x))"

fun frame_rest :: "frame \<Rightarrow> desc set" where
  "frame_rest (FC off ls k rs l) = descss ls \<union> descss rs \<union> bt_descs l"
| "frame_rest (FO off ls) = descss ls"

fun frame_desc :: "frame \<Rightarrow> nat \<Rightarrow> desc" where
  "frame_desc (FC off ls k rs l) r = (off, root_off l, child_pairs ls @ (k, r) # child_pairs rs)"
| "frame_desc (FO off ls) r = (off, r, child_pairs ls)"

fun ctx_descs :: "frame list \<Rightarrow> nat \<Rightarrow> desc set" where
  "ctx_descs [] r = {}"
| "ctx_descs (f # fs) r = {frame_desc f r} \<union> frame_rest f \<union> ctx_descs fs (frame_off f)"

lemma root_off_plug1 [simp]: "root_off (plug1 f s) = frame_off f"
  by (cases f) auto

lemma plug_append: "plug (fs @ gs) s = plug gs (plug fs s)"
  by (induction fs arbitrary: s) auto

lemma flat_plug: "bt_flat (plug fs s) = flat_l fs @ bt_flat s @ flat_r fs"
proof (induction fs arbitrary: s)
  case (Cons f fs)
  then show ?case by (cases f) auto
qed simp

lemma leaf_offs_plug: "leaf_offs (plug fs s) = leaf_l fs @ leaf_offs s @ leaf_r fs"
proof (induction fs arbitrary: s)
  case (Cons f fs)
  then show ?case by (cases f) auto
qed simp

lemma descs_plug: "bt_descs (plug fs s) = ctx_descs fs (root_off s) \<union> bt_descs s"
proof (induction fs arbitrary: s)
  case (Cons f fs)
  then show ?case by (cases f) (auto simp: child_pairs_def)
qed simp

lemma offs_plug: "mset (bt_offs (plug fs s)) = mset (ctx_offs fs) + mset (bt_offs s)"
proof (induction fs arbitrary: s)
  case (Cons f fs)
  then show ?case by (cases f) (auto simp: ac_simps)
qed simp

lemma flat_ctx_append:
  "flat_l (fs @ gs) = flat_l gs @ flat_l fs" "flat_r (fs @ gs) = flat_r fs @ flat_r gs"
proof -
  show "flat_l (fs @ gs) = flat_l gs @ flat_l fs" by (induction fs rule: flat_l.induct) auto
  show "flat_r (fs @ gs) = flat_r fs @ flat_r gs" by (induction fs rule: flat_r.induct) auto
qed

text \<open>Induction on trees with the children as members of the list.\<close>

lemma bt_tree_induct [case_names Leaf Node]:
  assumes "\<And>off kvs. P (BL off kvs)"
    and "\<And>off cs l. (\<And>x. x \<in> set cs \<Longrightarrow> P (fst x)) \<Longrightarrow> P l \<Longrightarrow> P (BN off cs l)"
  shows "P tr"
proof (induction tr)
  case (BN off cs l)
  show ?case by (rule assms(2)) (use BN in \<open>auto simp: fsts.simps\<close>)
qed (rule assms(1))

lemma root_in_descs: "\<exists>ov ps. (root_off tr, ov, ps) \<in> bt_descs tr"
  by (cases tr) auto

lemma descs_offs: "fst ` bt_descs tr = set (bt_offs tr)"
proof (induction tr rule: bt_tree_induct)
  case (Node off cs l)
  have "fst ` bt_descs (BN off cs l) = insert off ((\<Union>x \<in> set cs. fst ` bt_descs (fst x)) \<union> fst ` bt_descs l)" by auto
  then show ?case using Node by auto
qed simp

lemma leaf_offs_subset: "set (leaf_offs tr) \<subseteq> set (bt_offs tr)"
proof (induction tr rule: bt_tree_induct)
  case (Node off cs l)
  have "(\<Union>x \<in> set cs. set (leaf_offs (fst x))) \<subseteq> (\<Union>x \<in> set cs. set (bt_offs (fst x)))" using Node(1) by (rule UN_mono [OF subset_refl])
  then show ?case using Node(2) by auto
qed simp

lemma root_off_in_offs [simp]: "root_off tr \<in> set (bt_offs tr)"
  by (cases tr) auto

lemma bt_height_children: "bt_height (BN off cs l) \<le> Suc d \<longleftrightarrow> (\<forall>x \<in> set cs. bt_height (fst x) \<le> d) \<and> bt_height l \<le> d"
  by (induction cs) auto

lemma bt_bal_height: "bt_bal d r tr \<Longrightarrow> bt_height tr = d"
proof (induction tr arbitrary: d r rule: bt_tree_induct)
  case (Node off cs l)
  obtain e where d: "d = Suc e" using Node.prems by (cases d) auto
  have ch: "\<forall>x \<in> set cs. bt_height (fst x) = e" "bt_height l = e" using Node d by auto
  then have "foldr (\<lambda>x h. max (bt_height (fst x)) h) cs (bt_height l) = e" by (induction cs) auto
  then show ?case by (simp add: d)
qed simp

lemma bt_bal_weaken: "bt_bal d False tr \<Longrightarrow> bt_bal d r tr"
  by (cases tr) auto

subsection \<open>When the stream holds a tree\<close>

text \<open>The leaves are linked both ways, from the left end to the right end.\<close>

fun chain :: "btree \<Rightarrow> nat \<Rightarrow> nat list \<Rightarrow> nat \<Rightarrow> bool" where
  "chain t l [] r = True"
| "chain t l (x # xs) r = (nd_left (get_node t x) = l \<and> nd_right (get_node t x) = hd (xs @ [r]) \<and> chain t x xs r)"

definition desc_ok :: "btree \<Rightarrow> desc \<Rightarrow> bool" where
  "desc_ok t d \<longleftrightarrow> (\<exists>l r. node_is (get_node t (fst d)) l r (fst (snd d)) (snd (snd d))) \<and>
     (fst (snd d) \<noteq> AGFS_BTREE_NULL \<longrightarrow> pairs_size (snd (snd d)) + 8 \<le> AGFS_BTREE_NODE_SIZE)"

definition place_ok :: "btree \<Rightarrow> nat \<Rightarrow> bool" where
  "place_ok t off \<longleftrightarrow>
     0 < off \<and> off mod AGFS_BTREE_NODE_SIZE = 0 \<and> off + AGFS_BTREE_NODE_SIZE \<le> bt_size t \<and> bt_map t (bt_blk t off) = Inr True"

text \<open>The nodes in \<open>X\<close> are about to be rewritten.\<close>

definition shape :: "nat set \<Rightarrow> btree \<Rightarrow> desc set \<Rightarrow> nat list \<Rightarrow> nat list \<Rightarrow> bool" where
  "shape X t D leaves offs \<longleftrightarrow>
     (\<forall>d \<in> D. fst d \<notin> X \<longrightarrow> desc_ok t d) \<and> chain t AGFS_BTREE_NULL leaves AGFS_BTREE_NULL \<and>
     set leaves \<subseteq> set offs \<and> distinct leaves \<and> distinct offs \<and> (\<forall>off \<in> set offs. place_ok t off)"

abbreviation sound :: "nat set \<Rightarrow> btree \<Rightarrow> bt \<Rightarrow> bool" where
  "sound X t tr \<equiv> shape X t (bt_descs tr) (leaf_offs tr) (bt_offs tr)"

text \<open>No call fails, and the header's block is there.\<close>

definition healthy :: "btree \<Rightarrow> bool" where
  "healthy t \<longleftrightarrow> mem_ok (bt_mem t) \<and> (\<forall>s \<in> set (bt_grow t). s = None) \<and> (\<forall>b. bt_rd t b) \<and>
     (\<forall>off. length (bt_node t off) = AGFS_BTREE_NODE_SIZE) \<and> bt_map t 0 = Inr True \<and>
     AGFS_BTREE_NODE_SIZE \<le> bt_size t \<and> bt_size t mod AGFS_BTREE_NODE_SIZE = 0 \<and> bt_size t < 2 ^ 32"

definition header_ok :: "btree \<Rightarrow> nat \<Rightarrow> nat \<Rightarrow> bool" where
  "header_ok t dtype root \<longleftrightarrow> hd_magic (get_node t 0) = AGFS_BTREE_MAGIC \<and> hd_node_size (get_node t 0) = AGFS_BTREE_NODE_SIZE \<and>
     hd_type (get_node t 0) = dtype \<and> hd_root (get_node t 0) = root"

text \<open>The keys in order: a separator may repeat the key of the entry before it.\<close>

definition item_lt :: "(bkey \<Rightarrow> bkey \<Rightarrow> bool) \<Rightarrow> item \<Rightarrow> item \<Rightarrow> bool" where
  "item_lt lt a b \<longleftrightarrow> lt (fst a) (fst b) \<or> (snd a \<noteq> None \<and> snd b = None \<and> fst a = fst b)"

definition items_ok :: "(bkey \<Rightarrow> bool) \<Rightarrow> (bkey \<Rightarrow> bkey \<Rightarrow> bool) \<Rightarrow> item list \<Rightarrow> bool" where
  "items_ok ok_key lt its \<longleftrightarrow> (\<forall>it \<in> set its. ok_key (fst it)) \<and> sorted_wrt (item_lt lt) its"

definition btree_tree :: "(bkey \<Rightarrow> bool) \<Rightarrow> fpu \<Rightarrow> nat \<Rightarrow> btree \<Rightarrow> bt \<Rightarrow> bool" where
  "btree_tree ok_key fp dtype t tr \<longleftrightarrow>
     healthy t \<and> header_ok t dtype (root_off tr) \<and> sound {} t tr \<and> items_ok ok_key (key_lt fp dtype) (bt_flat tr)"

lemma items_ok_append:
  "items_ok ok_key lt (xs @ ys) \<longleftrightarrow> items_ok ok_key lt xs \<and> items_ok ok_key lt ys \<and> (\<forall>x \<in> set xs. \<forall>y \<in> set ys. item_lt lt x y)"
  by (auto simp: items_ok_def sorted_wrt_append)

lemma items_ok_Cons:
  "items_ok ok_key lt (x # xs) \<longleftrightarrow> ok_key (fst x) \<and> items_ok ok_key lt xs \<and> (\<forall>y \<in> set xs. item_lt lt x y)"
  by (auto simp: items_ok_def)

lemma items_ok_Nil [simp]: "items_ok ok_key lt []"
  by (simp add: items_ok_def)

lemma items_ok_kv: "items_ok ok_key lt (kv_items kvs) = keys_ok ok_key lt kvs"
  by (auto simp: items_ok_def keys_ok_def kv_items_def sorted_wrt_map item_lt_def case_prod_unfold)

lemma items_ok_seps: "items_ok ok_key lt (flats cs @ X) \<Longrightarrow> keys_ok ok_key lt (child_pairs cs)"
proof (induction cs)
  case (Cons x cs)
  have "lt (snd x) (snd y)" if "y \<in> set cs" for y
  proof -
    have "(snd y, None) \<in> set (flats cs)" using that by force
    then have "item_lt lt (snd x, None) (snd y, None)" using Cons.prems by (simp add: items_ok_append items_ok_Cons)
    then show ?thesis by (simp add: item_lt_def)
  qed
  moreover have "items_ok ok_key lt (flats cs @ X)" using Cons.prems by (simp add: items_ok_append items_ok_Cons)
  moreover have "ok_key (snd x)" using Cons.prems by (simp add: items_ok_append items_ok_Cons)
  ultimately show ?case using Cons.IH by (auto simp: child_pairs_def keys_ok_def)
qed (simp add: child_pairs_def keys_ok_def)

lemma mod32: "place_ok t off \<Longrightarrow> healthy t \<Longrightarrow> off mod 2 ^ 32 = off"
  by (auto simp: place_ok_def healthy_def)

lemma read_place: "place_ok t off \<Longrightarrow> healthy t \<Longrightarrow> agfs_btree_read_node t off = Some (get_node t off)"
  by (simp add: agfs_btree_read_node_def place_ok_def healthy_def)

lemma read_zero: "healthy t \<Longrightarrow> agfs_btree_read_node t 0 = Some (get_node t 0)"
  by (simp add: agfs_btree_read_node_def healthy_def bt_blk_def)

lemma place_not_null: "place_ok t off \<Longrightarrow> healthy t \<Longrightarrow> off \<noteq> AGFS_BTREE_NULL"
  by (auto simp: place_ok_def healthy_def)

lemma header_fields:
  "hd_type (mem_get 0 40 h) = hd_type h" "hd_root (mem_get 0 40 h) = hd_root h" "hd_depth (mem_get 0 40 h) = hd_depth h"
  by (simp_all add: hd_type_def hd_root_def hd_depth_def mem_get_get)

lemma read_header_ok:
  assumes "healthy t" "header_ok t dtype root"
  shows "agfs_btree_read_header t = Inr (mem_get 0 40 (get_node t 0))"
    "hd_type (mem_get 0 40 (get_node t 0)) = dtype" "hd_root (mem_get 0 40 (get_node t 0)) = root"
  using assms by (simp_all add: agfs_btree_read_header_def read_zero header_ok_def header_fields)

definition fits :: "(bkey \<Rightarrow> bkey \<Rightarrow> bool) \<Rightarrow> bkey \<Rightarrow> item list \<Rightarrow> item list \<Rightarrow> bool" where
  "fits lt key L R \<longleftrightarrow> (L \<noteq> [] \<longrightarrow> snd (last L) = None \<and> lt (fst (last L)) key) \<and>
     (R \<noteq> [] \<longrightarrow> snd (hd R) = None \<and> \<not> lt (fst (hd R)) key)"

lemma fits_outer: "fits lt key L R \<Longrightarrow> fits lt key L' R' \<Longrightarrow> fits lt key (L' @ L) (R @ R')"
  by (cases "L = []"; cases "R = []") (auto simp: fits_def)

lemma last_flats: "cs \<noteq> [] \<Longrightarrow> last (flats cs) = (snd (last cs), None)"
  by (induction cs rule: rev_induct) auto

lemma fits_flats:
  "\<forall>x \<in> set cs. lt (snd x) key \<Longrightarrow> R = [] \<or> (snd (hd R) = None \<and> \<not> lt (fst (hd R)) key) \<Longrightarrow> fits lt key (flats cs) R"
  using last_flats [of cs] by (cases "cs = []") (auto simp: fits_def)

context key_order
begin

lemma fits_before:
  assumes "items_ok ok_key lt L" "fits lt key L R" "ok_key key" "it \<in> set L"
  shows "lt (fst it) key"
proof -
  have L: "L = butlast L @ [last L]" using assms(4) by (metis append_butlast_last_id empty_iff list.set(1))
  have lst: "lt (fst (last L)) key" "snd (last L) = None" using assms(2,4) by (auto simp: fits_def)
  show ?thesis
  proof (cases "it = last L")
    case False
    then have it: "it \<in> set (butlast L)" using assms(4) L by (metis Un_iff set_append set_ConsD empty_iff list.set(1))
    then have "item_lt lt it (last L)" using assms(1) L by (metis items_ok_append list.set_intros(1))
    moreover have "last L \<in> set L" using assms(4) by (cases L) auto
    then have "ok_key (fst it)" "ok_key (fst (last L))" using assms(1,4) by (auto simp: items_ok_def)
    ultimately show ?thesis using lst lt_trans [OF _ _ assms(3)] by (auto simp: item_lt_def)
  qed (use lst in simp)
qed

lemma fits_after:
  assumes "items_ok ok_key lt R" "fits lt key L R" "ok_key key" "it \<in> set R"
  shows "item_lt lt (key, Some v) it"
proof -
  obtain s R' where R: "R = s # R'" using assms(4) by (cases R) auto
  have s: "snd s = None" "\<not> lt (fst s) key" using assms(2) R by (auto simp: fits_def)
  have ok: "ok_key (fst s)" "ok_key (fst it)" using assms(1,4) R by (auto simp: items_ok_def)
  have sk: "fst s = key \<or> lt key (fst s)" using s lt_total [OF ok(1) assms(3)] by blast
  show ?thesis
  proof (cases "it = s")
    case True
    then show ?thesis using s sk by (auto simp: item_lt_def)
  next
    case False
    then have "item_lt lt s it" using assms(1,4) R by (auto simp: items_ok_Cons)
    then have "lt (fst s) (fst it)" using s by (simp add: item_lt_def)
    then show ?thesis using sk lt_trans [OF assms(3) ok] by (auto simp: item_lt_def)
  qed
qed

lemma first_child:
  assumes "keys_ok ok_key lt (child_pairs cs)" "ok_key key"
  obtains (pair) ls c k rs where "cs = ls @ (c, k) # rs" "\<forall>x \<in> set ls. lt (snd x) key" "\<not> lt k key"
  | (overflow) "\<forall>x \<in> set cs. lt (snd x) key"
proof (cases "\<forall>x \<in> set cs. lt (snd x) key")
  case False
  then obtain ls x rs where "cs = ls @ x # rs" "\<not> lt (snd x) key" "\<forall>y \<in> set ls. lt (snd y) key"
    using split_list_first_prop [of cs "\<lambda>x. \<not> lt (snd x) key"] by blast
  then show ?thesis by (cases x) (auto intro: pair)
qed (rule overflow)

end

lemma items_entries_append: "items_entries (xs @ ys) = items_entries xs @ items_entries ys"
  by (simp add: items_entries_def)

lemma items_entries_kv [simp]: "items_entries (kv_items kvs) = kvs"
  by (induction kvs) (auto simp: items_entries_def kv_items_def)

lemma items_entries_keys: "(k, v) \<in> set (items_entries its) \<longleftrightarrow> (k, Some v) \<in> set its"
  by (induction its) (auto simp: items_entries_def split: option.splits)

lemma entries_plug: "bt_entries (plug fs (BL off kvs)) = items_entries (flat_l fs) @ kvs @ items_entries (flat_r fs)"
  by (simp add: bt_entries_def flat_plug items_entries_append)

subsection \<open>Descent and lookup\<close>

lemma soundD:
  assumes "sound {} t tr"
  shows "\<forall>d \<in> bt_descs tr. desc_ok t d" "\<forall>off \<in> set (bt_offs tr). place_ok t off"
  using assms by (auto simp: shape_def)

lemma desc_okD:
  assumes "desc_ok t (off, ov, ps)"
  obtains l r where "node_is (get_node t off) l r ov ps"
  using assms by (auto simp: desc_ok_def)

context key_order
begin

lemma descend_leaf:
  assumes "healthy t" "\<forall>d \<in> bt_descs (BL off kvs). desc_ok t d" "\<forall>o' \<in> set (bt_offs (BL off kvs)). place_ok t o'"
  shows "agfs_btree_descend_t (Suc d) fp t dtype key off = Inr [off]"
proof -
  obtain l r where n: "node_is (get_node t off) l r AGFS_BTREE_NULL kvs"
    using assms(2) desc_okD [of t off AGFS_BTREE_NULL kvs] by auto
  have "agfs_btree_read_node t off = Some (get_node t off)" using assms by (intro read_place) auto
  then show ?thesis using node_is_fields [OF n] node_isD(7,8) [OF n] by simp
qed

text \<open>One level of the descent: the frame is the place of the child in its node.\<close>

lemma descend_node:
  assumes "healthy t" "\<forall>d \<in> bt_descs (BN off cs l). desc_ok t d" "\<forall>o' \<in> set (bt_offs (BN off cs l)). place_ok t o'"
    "items_ok ok_key lt (bt_flat (BN off cs l))" "ok_key key"
  obtains f c where "BN off cs l = plug1 f c" "frame_off f = off" "fits lt key (flat_l [f]) (flat_r [f])"
    "agfs_btree_descend_t (Suc d) fp t dtype key off =
       (case agfs_btree_descend_t d fp t dtype key (root_off c) of Inl e \<Rightarrow> Inl e | Inr path \<Rightarrow> Inr (off # path))"
proof -
  obtain lf r where n: "node_is (get_node t off) lf r (root_off l) (child_pairs cs)"
    using assms(2) desc_okD [of t off "root_off l" "child_pairs cs"] by auto
  have rd: "agfs_btree_read_node t off = Some (get_node t off)" using assms by (intro read_place) auto
  have "place_ok t (root_off l)" using assms(3) by auto
  then have nn: "root_off l \<noteq> AGFS_BTREE_NULL" using place_not_null assms(1) by blast
  have ks: "keys_ok ok_key lt (child_pairs cs)" using assms(4) by (simp add: items_ok_seps)
  have step: "agfs_btree_descend_t (Suc d) fp t dtype key off =
      (case agfs_btree_descend_t d fp t dtype key (agfs_btree_pick_child_t fp dtype (get_node t off) key) of
         Inl e \<Rightarrow> Inl e | Inr path \<Rightarrow> Inr (off # path))"
    using rd nn node_is_fields [OF n] node_isD(7,8) [OF n] by simp
  show thesis
  proof (cases rule: first_child [OF ks assms(5)])
    case (1 ls c k rs)
    have cp: "child_pairs cs = child_pairs ls @ (k, root_off c) # child_pairs rs" by (simp add: 1 child_pairs_def)
    have "agfs_btree_pick_child_t fp dtype (get_node t off) key = root_off c"
      by (rule agfs_btree_pick_child_pair [OF n [unfolded cp] ks [unfolded cp] assms(5)]) (use 1 in \<open>auto simp: child_pairs_def\<close>)
    moreover have "fits lt key (flat_l [FC off ls k rs l]) (flat_r [FC off ls k rs l])"
      using 1 by (simp add: fits_flats)
    ultimately show ?thesis using step 1 by (intro that [of "FC off ls k rs l" c]) simp_all
  next
    case 2
    have "agfs_btree_pick_child_t fp dtype (get_node t off) key = root_off l"
      by (rule agfs_btree_pick_child_overflow [OF n ks assms(5) _ nn]) (use 2 in \<open>auto simp: child_pairs_def\<close>)
    moreover have "fits lt key (flat_l [FO off cs]) (flat_r [FO off cs])"
      using 2 by (simp add: fits_flats)
    ultimately show ?thesis using step by (intro that [of "FO off cs" l]) simp_all
  qed
qed

lemma descend_ctx:
  assumes "healthy t" "\<forall>d \<in> bt_descs tr. desc_ok t d" "\<forall>o' \<in> set (bt_offs tr). place_ok t o'"
    "items_ok ok_key lt (bt_flat tr)" "ok_key key" "bt_height tr \<le> d"
  shows "\<exists>fs off kvs. tr = plug fs (BL off kvs) \<and> fits lt key (flat_l fs) (flat_r fs) \<and>
    agfs_btree_descend_t d fp t dtype key (root_off tr) = Inr (rev (off # map frame_off fs))"
  using assms
proof (induction d arbitrary: tr)
  case 0
  then show ?case by (cases tr) auto
next
  case (Suc d)
  show ?case
  proof (cases tr)
    case (BL off kvs)
    then show ?thesis using descend_leaf [OF Suc.prems(1-3) [unfolded BL], of d key]
      by (intro exI [of _ "[]"] exI [of _ off] exI [of _ kvs]) (simp add: fits_def)
  next
    case (BN off cs l)
    obtain f c where f: "tr = plug1 f c" "frame_off f = off" "fits lt key (flat_l [f]) (flat_r [f])"
      "agfs_btree_descend_t (Suc d) fp t dtype key off =
         (case agfs_btree_descend_t d fp t dtype key (root_off c) of Inl e \<Rightarrow> Inl e | Inr path \<Rightarrow> Inr (off # path))"
      using descend_node [OF Suc.prems(1-5) [unfolded BN], of d] BN by blast
    have tr: "tr = plug [f] c" by (simp add: f(1))
    have "\<exists>fs off kvs. c = plug fs (BL off kvs) \<and> fits lt key (flat_l fs) (flat_r fs) \<and>
        agfs_btree_descend_t d fp t dtype key (root_off c) = Inr (rev (off # map frame_off fs))"
    proof (rule Suc.IH [OF Suc.prems(1) _ _ _ Suc.prems(5)])
      show "\<forall>d \<in> bt_descs c. desc_ok t d" using Suc.prems(2) unfolding tr descs_plug by blast
      show "\<forall>o' \<in> set (bt_offs c). place_ok t o'"
        using Suc.prems(3) offs_plug [of "[f]" c] unfolding tr by (metis UnCI set_mset_mset set_mset_union)
      show "items_ok ok_key lt (bt_flat c)" using Suc.prems(4) unfolding tr flat_plug by (simp add: items_ok_append)
      show "bt_height c \<le> d" using Suc.prems(6) f(1) by (cases f) (auto simp: bt_height_children simp del: bt_height.simps(2))
    qed
    then obtain fs off' kvs where c: "c = plug fs (BL off' kvs)" "fits lt key (flat_l fs) (flat_r fs)"
        "agfs_btree_descend_t d fp t dtype key (root_off c) = Inr (rev (off' # map frame_off fs))" by blast
    show ?thesis
      using f(2-4) c BN fits_outer [OF c(2) f(3)]
      by (intro exI [of _ "fs @ [f]"] exI [of _ off'] exI [of _ kvs]) (simp add: tr plug_append flat_ctx_append del: plug.simps(2))
  qed
qed

text \<open>The leaf the descent reaches is where the key belongs.\<close>

lemma descend_tree:
  assumes "btree_tree ok_key fp dtype t tr" "ok_key key" "bt_height tr \<le> 16"
  obtains fs off kvs l r where "tr = plug fs (BL off kvs)" "fits lt key (flat_l fs) (flat_r fs)"
    "agfs_btree_descend_t 16 fp t dtype key (root_off tr) = Inr (rev (off # map frame_off fs))"
    "node_is (get_node t off) l r AGFS_BTREE_NULL kvs" "agfs_btree_read_node t off = Some (get_node t off)"
    "keys_ok ok_key lt kvs" "place_ok t off"
proof -
  note T = assms(1) [unfolded btree_tree_def]
  have s: "\<forall>d \<in> bt_descs tr. desc_ok t d" "\<forall>off \<in> set (bt_offs tr). place_ok t off" using T soundD by blast+
  obtain fs off kvs where p: "tr = plug fs (BL off kvs)" "fits lt key (flat_l fs) (flat_r fs)"
    "agfs_btree_descend_t 16 fp t dtype key (root_off tr) = Inr (rev (off # map frame_off fs))"
    using descend_ctx [OF _ s _ assms(2,3)] T by blast
  have d: "desc_ok t (off, AGFS_BTREE_NULL, kvs)" using s(1) by (simp add: p(1) descs_plug)
  then obtain l r where n: "node_is (get_node t off) l r AGFS_BTREE_NULL kvs" by (rule desc_okD)
  have "off \<in> set (bt_offs tr)" using offs_plug [of fs "BL off kvs"] unfolding p(1)
    by (metis UnCI bt_offs.simps(1) list.set_intros(1) set_mset_mset set_mset_union)
  then have pl: "place_ok t off" using s(2) by blast
  moreover have "keys_ok ok_key lt kvs" using T by (simp add: p(1) flat_plug items_ok_append items_ok_kv)
  ultimately show thesis using that [OF p n read_place] T by blast
qed

text \<open>The other leaves do not hold the key.\<close>

lemma others_lack:
  assumes "items_ok ok_key lt (L @ M @ R)" "fits lt key L R" "ok_key key"
  shows "key \<notin> fst ` set (items_entries L)" "key \<notin> fst ` set (items_entries R)"
proof -
  have ok: "items_ok ok_key lt L" "items_ok ok_key lt R" using assms(1) by (simp_all add: items_ok_append)
  show "key \<notin> fst ` set (items_entries L)"
    using fits_before [OF ok(1) assms(2,3)] lt_irrefl [OF assms(3)] by (auto simp: items_entries_keys)
  have "\<not> item_lt lt (key, Some v) (key, Some w)" for v w using lt_irrefl [OF assms(3)] by (simp add: item_lt_def)
  then show "key \<notin> fst ` set (items_entries R)"
    using fits_after [OF ok(2) assms(2,3)] by (auto simp: items_entries_keys) blast
qed

lemma lookup_leaf:
  assumes "items_ok ok_key lt (bt_flat (plug fs (BL off kvs)))" "fits lt key (flat_l fs) (flat_r fs)" "ok_key key"
  shows "map_of (bt_entries (plug fs (BL off kvs))) key = map_of kvs key"
  using others_lack [OF assms(1) [unfolded flat_plug] assms(2,3), folded map_of_eq_None_iff]
  by (simp add: entries_plug map_add_def split: option.split)

lemma find_tree:
  assumes "btree_tree ok_key fp dtype t tr" "ok_key key" "key \<noteq> []" "bt_height tr \<le> 16"
  shows "agfs_btree_find fp t key =
    (case map_of (bt_entries tr) key of None \<Rightarrow> Inl ENOENT | Some v \<Rightarrow> Inr (v mod 2 ^ 32))"
proof -
  note T = assms(1) [unfolded btree_tree_def]
  obtain fs off kvs l r where p: "tr = plug fs (BL off kvs)" "fits lt key (flat_l fs) (flat_r fs)"
    "agfs_btree_descend_t 16 fp t dtype key (root_off tr) = Inr (rev (off # map frame_off fs))"
    "node_is (get_node t off) l r AGFS_BTREE_NULL kvs" "agfs_btree_read_node t off = Some (get_node t off)"
    "keys_ok ok_key lt kvs" "place_ok t off" by (rule descend_tree [OF assms(1,2,4)])
  have look: "map_of (bt_entries tr) key = map_of kvs key"
    unfolding p(1) by (rule lookup_leaf) (use T p assms(2) in auto)
  note h = read_header_ok [of t dtype "root_off tr"]
  have run: "agfs_btree_find fp t key =
      (if kvs = [] \<or> keys_length kvs = 0 then Inl ENOENT
       else case agfs_btree_search_node_t fp dtype (get_node t off) key of
              Inr index \<Rightarrow> Inr (nd_value (get_node t off) index mod 2 ^ 32) | Inl _ \<Rightarrow> Inl ENOENT)"
    using h T p(3,5) assms(3) by (simp add: agfs_btree_find_def node_is_fields [OF p(4)])
  show ?thesis
  proof (cases rule: keys_split [OF p(6) assms(2)])
    case (1 A v B)
    have "agfs_btree_search_node_t fp dtype (get_node t off) key = Inr (length A)"
      using p(4,6) unfolding 1 by (rule agfs_btree_search_node_present)
    moreover have "map_of A key = None"
      using p(6) lt_irrefl [OF assms(2)] unfolding 1 by (auto simp: keys_ok_append map_of_eq_None_iff)
    moreover have "keys_length kvs \<noteq> 0" using assms(3) by (simp add: 1)
    ultimately show ?thesis using run look node_is_value [OF p(4), of "length A"]
      by (simp add: 1 map_add_def)
  next
    case (2 A B)
    have "agfs_btree_search_node_t fp dtype (get_node t off) key = Inl (length A)"
      using p(4,6) assms(2) 2(2,3) unfolding 2(1) by (rule agfs_btree_search_node_absent)
    moreover have "map_of kvs key = None" using 2(4) by (simp add: map_of_eq_None_iff)
    ultimately show ?thesis using run look by simp
  qed
qed

end

end
