(* ===== verification/Btree_Write.thy ===== *)
theory Btree_Write
  imports Btree_Rep
begin

text \<open>
  How single writes change a stream: a leaf gets other pairs, the stream grows by a node, a node is
  divided in two halves of which one moves to a new place. \<open>wrote\<close>, \<open>grown\<close> and \<open>halved\<close> say what stays
  as it was, and the lemmas carry the representation of \<open>Btree_Rep\<close> over these steps.
\<close>

subsection \<open>What a write keeps\<close>

lemma get_put_node: "get_node (put_node off n t) x = (if x mod 2 ^ 32 = off mod 2 ^ 32 then n else get_node t x)"
  by (simp add: get_node_def put_node_def)

lemma get_node_frame [simp]:
  "get_node (bt_log off t) x = get_node t x" "get_node (t\<lparr>bt_mem := m\<rparr>) x = get_node t x"
  "get_node (t\<lparr>bt_dirty := d\<rparr>) x = get_node t x" "get_node (t\<lparr>bt_grow := g\<rparr>) x = get_node t x"
  by (simp_all add: get_node_def bt_log_def)

lemma place_ok_frame [simp]:
  "place_ok (bt_log off t) x = place_ok t x" "place_ok (put_node off n t) x = place_ok t x"
  "place_ok (t\<lparr>bt_mem := m\<rparr>) x = place_ok t x" "place_ok (t\<lparr>bt_dirty := d\<rparr>) x = place_ok t x"
  by (simp_all add: place_ok_def bt_blk_def bt_log_def put_node_def)

lemma healthy_frame:
  "healthy t \<Longrightarrow> healthy (bt_log off t)" "healthy t \<Longrightarrow> length n = 1024 \<Longrightarrow> healthy (put_node off n t)"
  "healthy t \<Longrightarrow> healthy (t\<lparr>bt_mem := kmalloc_rest (bt_mem t)\<rparr>)" "healthy t \<Longrightarrow> healthy (t\<lparr>bt_dirty := d\<rparr>)"
  by (auto simp: healthy_def bt_log_def put_node_def)

lemma bt_size_frame [simp]:
  "bt_size (bt_log off t) = bt_size t" "bt_size (put_node off n t) = bt_size t"
  by (simp_all add: bt_log_def put_node_def)

lemma bt_bs_frame [simp]:
  "bt_bs (bt_log off t) = bt_bs t" "bt_bs (put_node off n t) = bt_bs t"
  by (simp_all add: bt_log_def put_node_def)

lemma length_get_node: "healthy t \<Longrightarrow> length (get_node t off) = 1024"
  by (simp add: healthy_def get_node_def)

lemma header_ok_cong: "get_node t' 0 = get_node t 0 \<Longrightarrow> header_ok t' dtype root = header_ok t dtype root"
  by (simp add: header_ok_def)

lemma desc_ok_cong: "get_node t' (fst d) = get_node t (fst d) \<Longrightarrow> desc_ok t' d = desc_ok t d"
  by (simp add: desc_ok_def)

lemma chain_cong:
  "\<forall>x \<in> set xs. nd_left (get_node t' x) = nd_left (get_node t x) \<and> nd_right (get_node t' x) = nd_right (get_node t x) \<Longrightarrow>
     chain t' l xs r = chain t l xs r"
  by (induction t l xs r rule: chain.induct) auto

lemma bt_serialize_ok:
  assumes "healthy t" "pairs_size ps \<le> 1024"
  shows "bt_serialize off ps ov r l t = Some (put_node off (node_build l r ov ps) (t\<lparr>bt_mem := kmalloc_rest (bt_mem t)\<rparr>))"
proof -
  have "kmalloc_ok (bt_mem t)" using assms(1) by (simp add: healthy_def)
  then show ?thesis by (simp add: bt_serialize_def agfs_btree_serialize_ok [OF _ assms(2)])
qed

lemma length_node_build: "pairs_size ps \<le> 1024 \<Longrightarrow> length (node_build l r ov ps) = 1024"
  using bt_align_ge [of "28 + keys_length ps"] unfolding node_build_def pairs_size_def by (simp add: length_node_bytes)

lemma ctx_descs_offs: "fst ` ctx_descs fs r = set (ctx_offs fs)"
proof (induction fs arbitrary: r)
  case (Cons f fs)
  have "fst ` descss cs = set (offss cs)" for cs by (auto simp: descs_offs [symmetric] image_UN)
  then show ?case using Cons.IH by (cases f) (auto simp: image_Un descs_offs)
qed simp

lemma plug_distinct: "distinct (bt_offs (plug fs s)) \<longleftrightarrow> distinct (ctx_offs fs @ bt_offs s)"
  by (rule mset_eq_imp_distinct_iff) (simp add: offs_plug)

lemma set_offs_plug: "set (bt_offs (plug fs s)) = set (ctx_offs fs) \<union> set (bt_offs s)"
  by (metis mset_append offs_plug set_append set_mset_mset)

lemma descs_offs_mem: "d \<in> bt_descs tr \<Longrightarrow> fst d \<in> set (bt_offs tr)"
  using descs_offs [of tr] by blast

lemma ctx_descs_mem: "d \<in> ctx_descs fs r \<Longrightarrow> fst d \<in> set (ctx_offs fs)"
  using ctx_descs_offs [of fs r] by blast

text \<open>A leaf gets other pairs and keeps its links.\<close>

lemma replace_leaf:
  assumes "sound {} t (plug fs (BL off kvs))" "node_is (get_node t off) l r AGFS_BTREE_NULL kvs"
    "node_is (get_node t' off) l r AGFS_BTREE_NULL kvs'"
    "\<forall>x \<in> set (bt_offs (plug fs (BL off kvs))). x \<noteq> off \<longrightarrow> get_node t' x = get_node t x"
    "\<forall>x \<in> set (bt_offs (plug fs (BL off kvs))). place_ok t' x"
  shows "sound {} t' (plug fs (BL off kvs'))"
proof -
  have off: "off \<notin> set (ctx_offs fs)" using assms(1) by (auto simp: shape_def plug_distinct)
  have offs: "set (bt_offs (plug fs (BL off kvs'))) = set (bt_offs (plug fs (BL off kvs)))" by (simp add: set_offs_plug)
  have leaves: "leaf_offs (plug fs (BL off kvs')) = leaf_offs (plug fs (BL off kvs))" by (simp add: leaf_offs_plug)
  have "desc_ok t' d" if "d \<in> ctx_descs fs off" for d
  proof -
    have "desc_ok t d" using assms(1) that by (auto simp: shape_def descs_plug)
    moreover have "fst d \<in> set (ctx_offs fs)" using that by (rule ctx_descs_mem)
    ultimately show ?thesis using desc_ok_cong [of t' d t] assms(4) off by (auto simp: set_offs_plug)
  qed
  moreover have "desc_ok t' (off, AGFS_BTREE_NULL, kvs')" using assms(3) by (auto simp: desc_ok_def)
  moreover have "chain t' AGFS_BTREE_NULL (leaf_offs (plug fs (BL off kvs))) AGFS_BTREE_NULL =
      chain t AGFS_BTREE_NULL (leaf_offs (plug fs (BL off kvs))) AGFS_BTREE_NULL"
  proof (rule chain_cong, intro ballI)
    fix x assume "x \<in> set (leaf_offs (plug fs (BL off kvs)))"
    then have "x \<in> set (bt_offs (plug fs (BL off kvs)))" using leaf_offs_subset by blast
    then show "nd_left (get_node t' x) = nd_left (get_node t x) \<and> nd_right (get_node t' x) = nd_right (get_node t x)"
      using assms(4) node_is_fields [OF assms(2)] node_is_fields [OF assms(3)] by (cases "x = off") auto
  qed
  ultimately show ?thesis
    using assms(1,5) unfolding shape_def leaves plug_distinct by (auto simp: descs_plug set_offs_plug)
qed

subsection \<open>The contents after an insertion\<close>

fun kv_insert :: "(bkey \<Rightarrow> bkey \<Rightarrow> bool) \<Rightarrow> bkey \<Rightarrow> 'v \<Rightarrow> (bkey \<times> 'v) list \<Rightarrow> (bkey \<times> 'v) list" where
  "kv_insert lt k v [] = [(k, v)]"
| "kv_insert lt k v (p # ps) = (if lt k (fst p) then (k, v) # p # ps else p # kv_insert lt k v ps)"

lemma kv_insert_append:
  "\<forall>p \<in> set P. \<not> lt k (fst p) \<Longrightarrow> \<forall>p \<in> set Q. lt k (fst p) \<Longrightarrow> kv_insert lt k v (P @ Q) = P @ (k, v) # Q"
  by (induction P) (auto intro: list.exhaust [of Q])

context key_order
begin

lemma items_ok_insert:
  assumes "items_ok ok_key lt (L @ kv_items (A @ B) @ R)" "fits lt key L R" "ok_key key"
    "\<forall>p \<in> set A. lt (fst p) key" "\<forall>p \<in> set B. lt key (fst p)"
  shows "items_ok ok_key lt (L @ kv_items (A @ (key, v) # B) @ R)"
proof -
  have ok: "items_ok ok_key lt L" "items_ok ok_key lt R" using assms(1) by (simp_all add: items_ok_append)
  have "\<forall>it \<in> set (L @ kv_items A). item_lt lt it (key, Some v)"
    using fits_before [OF ok(1) assms(2,3)] assms(4) by (auto simp: item_lt_def kv_items_def)
  moreover have "\<forall>it \<in> set (kv_items B @ R). item_lt lt (key, Some v) it"
    using fits_after [OF ok(2) assms(2,3)] assms(5) by (auto simp: item_lt_def kv_items_def)
  moreover have "items_ok ok_key lt ((L @ kv_items A) @ kv_items B @ R)" using assms(1) by (simp add: kv_items_def)
  ultimately have "items_ok ok_key lt ((L @ kv_items A) @ (key, Some v) # kv_items B @ R)"
    using assms(3) unfolding items_ok_append [of _ _ "L @ kv_items A"] items_ok_Cons by auto
  then show ?thesis by (simp add: kv_items_def)
qed

lemma entries_insert:
  assumes "items_ok ok_key lt (L @ kv_items (A @ B) @ R)" "fits lt key L R" "ok_key key"
    "\<forall>p \<in> set A. lt (fst p) key" "\<forall>p \<in> set B. lt key (fst p)"
  shows "items_entries L @ (A @ (key, v) # B) @ items_entries R = kv_insert lt key v (items_entries L @ (A @ B) @ items_entries R)"
proof -
  have ok: "items_ok ok_key lt L" "items_ok ok_key lt R" "keys_ok ok_key lt (A @ B)"
    using assms(1) by (simp_all add: items_ok_append items_ok_kv)
  have "\<forall>p \<in> set (items_entries L @ A). \<not> lt key (fst p)"
  proof
    fix p assume p: "p \<in> set (items_entries L @ A)"
    obtain k w where "p = (k, w)" by (cases p)
    then have "lt (fst p) key" "ok_key (fst p)"
      using p fits_before [OF ok(1) assms(2,3)] assms(4) ok by (auto simp: items_entries_keys items_ok_def keys_ok_def ball_Un)
    then show "\<not> lt key (fst p)" using lt_asym [OF _ assms(3)] by blast
  qed
  moreover have "\<forall>p \<in> set (B @ items_entries R). lt key (fst p)"
    using fits_after [OF ok(2) assms(2,3), of _ v] assms(5) by (auto simp: items_entries_keys item_lt_def) fastforce
  ultimately show ?thesis using kv_insert_append [of "items_entries L @ A" lt key "B @ items_entries R" v] by simp
qed

end

subsection \<open>Growth and writes\<close>

definition grown :: "btree \<Rightarrow> btree \<Rightarrow> bool" where
  "grown t t' \<longleftrightarrow> healthy t' \<and> bt_size t' = bt_size t + AGFS_BTREE_NODE_SIZE \<and> (\<forall>x. place_ok t x \<longrightarrow> place_ok t' x) \<and>
     place_ok t' (bt_size t) \<and> (\<forall>x. x mod 2 ^ 32 \<noteq> 0 \<longrightarrow> get_node t' x = get_node t x) \<and>
     mem_get 0 32 (get_node t' 0) = mem_get 0 32 (get_node t 0)"

definition wrote :: "btree \<Rightarrow> btree \<Rightarrow> nat \<Rightarrow> byte list \<Rightarrow> bool" where
  "wrote t t' off n \<longleftrightarrow> healthy t' \<and> bt_size t' = bt_size t \<and> (\<forall>x. place_ok t' x = place_ok t x) \<and>
     (\<forall>x. get_node t' x = (if x mod 2 ^ 32 = off mod 2 ^ 32 then n else get_node t x))"

lemma wrote_put: "healthy t \<Longrightarrow> length n = 1024 \<Longrightarrow> wrote t (put_node off n t) off n"
  by (simp add: wrote_def healthy_frame get_put_node)

lemma wrote_log: "wrote t t' off n \<Longrightarrow> wrote t (bt_log x t') off n"
  by (simp add: wrote_def healthy_frame)

lemma wrote_mem:
  "healthy t \<Longrightarrow> length n = 1024 \<Longrightarrow> wrote t (put_node off n (t\<lparr>bt_mem := kmalloc_rest (bt_mem t)\<rparr>)) off n"
  using wrote_put [of "t\<lparr>bt_mem := kmalloc_rest (bt_mem t)\<rparr>" n off] by (simp add: wrote_def healthy_frame)

lemma bt_serialize_wrote:
  assumes "healthy t" "pairs_size ps \<le> 1024"
  obtains t' where "bt_serialize off ps ov r l t = Some t'" "wrote t t' off (node_build l r ov ps)"
  using bt_serialize_ok [OF assms] wrote_mem [OF assms(1) length_node_build [OF assms(2)]] by blast

lemma write_node_wrote:
  assumes "healthy t" "place_ok t off" "pairs_size ps \<le> 1024"
  obtains t' where "agfs_btree_write_node off ps ov r l held t = Some (t', Inr ())" "wrote t t' off (node_build l r ov ps)"
proof -
  obtain t' where t': "bt_serialize off ps ov r l t = Some t'" "wrote t t' off (node_build l r ov ps)"
    by (rule bt_serialize_wrote [OF assms(1,3)])
  have "off mod 1024 = 0" using assms(2) by (simp add: place_ok_def)
  then show thesis
    using t' wrote_log [OF t'(2), of off] read_place [OF assms(2,1)] that
    by (cases "off div bt_bs t = held div bt_bs t") (auto simp: agfs_btree_write_node_def)
qed

lemma relink_wrote:
  assumes "healthy t" "place_ok t off"
  obtains t' where "agfs_btree_relink_left off left held t = Some (t', Inr ())"
    "wrote t t' off (mem_put 0 (le_enc 8 left) (get_node t off))"
proof -
  have w: "wrote t (put_node off (mem_put 0 (le_enc 8 left) (get_node t off)) t) off (mem_put 0 (le_enc 8 left) (get_node t off))"
    using assms(1) by (intro wrote_put) (simp_all add: length_get_node)
  have "off mod 1024 = 0" "off \<noteq> AGFS_BTREE_NULL" using assms place_not_null by (auto simp: place_ok_def)
  then show thesis
    using w wrote_log [OF w, of off] read_place [OF assms(2,1)] that
    by (cases "off div bt_bs t = held div bt_bs t") (auto simp: agfs_btree_relink_left_def)
qed

lemma healthy_extend:
  assumes "healthy t" "bt_size t + 1024 < 2 ^ 32"
  shows "healthy (bt_extend t)" "bt_size (bt_extend t) = bt_size t + 1024" "place_ok (bt_extend t) (bt_size t)"
    "place_ok t x \<Longrightarrow> place_ok (bt_extend t) x" "get_node (bt_extend t) x = get_node t x"
proof -
  have s: "bt_size (bt_extend t) = bt_size t + 1024" using assms(2) by (simp add: bt_extend_def)
  then show "bt_size (bt_extend t) = bt_size t + 1024" .
  have "\<forall>s \<in> set (tl (bt_grow t)). s = None" using assms(1) by (cases "bt_grow t") (auto simp: healthy_def)
  moreover have "(bt_size t + 1024) mod 1024 = 0" using assms(1) by (auto simp: healthy_def mod_simps)
  ultimately show "healthy (bt_extend t)" using assms s by (auto simp: healthy_def bt_extend_def)
  have blk: "bt_blk (bt_extend t) y = bt_blk t y" for y by (simp add: bt_blk_def bt_extend_def)
  show "place_ok (bt_extend t) (bt_size t)" using assms s by (auto simp: place_ok_def healthy_def blk) (simp add: bt_extend_def)
  show "place_ok t x \<Longrightarrow> place_ok (bt_extend t) x" using assms s by (auto simp: place_ok_def blk) (simp add: bt_extend_def)
  show "get_node (bt_extend t) x = get_node t x" by (simp add: get_node_def bt_extend_def)
qed

lemma grow_ok:
  assumes "healthy t" "bt_size t + 1024 < 2 ^ 32"
  obtains t' where "agfs_btree_grow held t = (t', Inr (bt_size t))" "grown t t'"
proof -
  define t1 where "t1 = bt_extend t"
  note E = healthy_extend [OF assms, folded t1_def]
  define h where "h = mem_put 32 (le_enc 8 (bt_size t1)) (get_node t1 0)"
  have len: "length (get_node t1 0) = 1024" by (rule length_get_node [OF E(1)])
  have lh: "length h = 1024" using len by (simp add: h_def)
  have m: "mem_get 0 32 h = mem_get 0 32 (get_node t 0)" unfolding h_def E(5) [symmetric] by (rule mem_get_put_before) (simp_all add: len)
  have "grow_outcome t = None" using assms(1) by (cases "bt_grow t") (auto simp: grow_outcome_def healthy_def)
  moreover have "bt_map t1 0 = Inr True" using E(1) by (simp add: healthy_def)
  ultimately have run: "agfs_btree_grow held t =
      (if held \<noteq> None \<and> bt_blk t1 (the held) = 0 then put_node 0 h t1 else bt_log 0 (put_node 0 h t1), Inr (bt_size t))"
    using read_zero [OF E(1)] by (simp add: agfs_btree_grow_def Let_def t1_def h_def)
  have g: "grown t (put_node 0 h t1)"
    using E lh m healthy_frame(2) [OF E(1) lh, of 0] by (simp add: grown_def get_put_node)
  moreover have "grown t (bt_log 0 (put_node 0 h t1))" using g by (simp add: grown_def healthy_frame)
  ultimately show thesis using run that by (cases "held \<noteq> None \<and> bt_blk t1 (the held) = 0") auto
qed

subsection \<open>The two halves\<close>

definition halved :: "btree \<Rightarrow> btree \<Rightarrow> nat \<Rightarrow> byte list \<Rightarrow> byte list \<Rightarrow> nat set \<Rightarrow> bool" where
  "halved t t' off nl nr S \<longleftrightarrow> healthy t' \<and> bt_size t' = bt_size t + AGFS_BTREE_NODE_SIZE \<and>
     (\<forall>x. place_ok t x \<longrightarrow> place_ok t' x) \<and> place_ok t' (bt_size t) \<and>
     mem_get 0 32 (get_node t' 0) = mem_get 0 32 (get_node t 0) \<and>
     get_node t' off = nl \<and> get_node t' (bt_size t) = nr \<and>
     (\<forall>x \<in> S. get_node t' x = mem_put 0 (le_enc 8 (bt_size t)) (get_node t x)) \<and>
     (\<forall>x. place_ok t x \<longrightarrow> x \<noteq> off \<longrightarrow> x \<notin> S \<longrightarrow> get_node t' x = get_node t x)"

lemma bt_then_ok [simp]: "bt_then (Some (t, Inr x)) f = f x t"
  by (simp add: bt_then_def)

lemma place_distinct:
  assumes "healthy t" "place_ok t x"
  shows "x mod 2 ^ 32 = x" "x \<noteq> 0" "x \<noteq> bt_size t" "bt_size t mod 2 ^ 32 = bt_size t" "bt_size t \<noteq> 0"
  using assms mod32 [OF assms(2,1)] by (auto simp: place_ok_def healthy_def)

text \<open>What stays of the stream outside a set of places, and the places of a tree that grew out of another.\<close>

definition keeps :: "nat set \<Rightarrow> btree \<Rightarrow> btree \<Rightarrow> bool" where
  "keeps X t t' \<longleftrightarrow> bt_size t \<le> bt_size t' \<and> (\<forall>x. place_ok t x \<longrightarrow> place_ok t' x \<and> (x \<notin> X \<longrightarrow> get_node t' x = get_node t x))"

definition extends :: "btree \<Rightarrow> btree \<Rightarrow> bt \<Rightarrow> bt \<Rightarrow> bool" where
  "extends t t' tr tr' \<longleftrightarrow> keeps (set (bt_offs tr)) t t' \<and> set (bt_offs tr') \<subseteq> set (bt_offs tr) \<union> {bt_size t..}"

lemma keeps_trans:
  assumes "keeps X t t1" "keeps Y t1 t2" "Y \<subseteq> X \<union> {bt_size t..}"
  shows "keeps X t t2"
proof -
  have "x \<notin> Y" if "place_ok t x" "x \<notin> X" for x using that assms(3) by (auto simp: place_ok_def)
  then show ?thesis using assms(1,2) unfolding keeps_def by (metis order_trans)
qed

lemma keeps_mono: "keeps X t t' \<Longrightarrow> X \<subseteq> Y \<Longrightarrow> keeps Y t t'"
  by (auto simp: keeps_def)

lemma wrote_keeps: "healthy t \<Longrightarrow> wrote t t' off n \<Longrightarrow> place_ok t off \<Longrightarrow> off \<in> X \<Longrightarrow> keeps X t t'"
  using place_distinct(1) [of t] by (auto simp: keeps_def wrote_def)

lemma halved_keeps: "halved t t' off nl nr S \<Longrightarrow> insert off S \<subseteq> X \<Longrightarrow> keeps X t t'"
  by (auto simp: halved_def keeps_def)

lemma halved_compose:
  assumes "healthy t" "place_ok t off" "grown t t1" "wrote t1 t2 (bt_size t) nr" "wrote t3 t4 off nl"
    "S = {} \<and> t3 = t2 \<or>
     (\<exists>o2. S = {o2} \<and> place_ok t o2 \<and> o2 \<noteq> off \<and> wrote t2 t3 o2 (mem_put 0 (le_enc 8 (bt_size t)) (get_node t2 o2)))"
  shows "halved t t4 off nl nr S"
proof -
  note o = place_distinct [OF assms(1,2)]
  have g1: "get_node t1 x = get_node t x" if "place_ok t x" for x
    using assms(3) place_distinct [OF assms(1) that] by (simp add: grown_def)
  have g2: "get_node t2 x = (if x mod 2 ^ 32 = bt_size t then nr else get_node t1 x)" for x
    using assms(4) o by (simp add: wrote_def)
  have h3: "healthy t3" "bt_size t3 = bt_size t + 1024" "\<forall>x. place_ok t3 x = place_ok t1 x" "get_node t3 0 = get_node t1 0"
      "get_node t3 (bt_size t) = nr"
    and s3: "\<forall>x \<in> S. get_node t3 x = mem_put 0 (le_enc 8 (bt_size t)) (get_node t x) \<and> x mod 2 ^ 32 \<noteq> off"
    and r3: "place_ok t x \<Longrightarrow> x \<notin> S \<Longrightarrow> get_node t3 x = get_node t x" for x
  proof -
    have t2: "healthy t2" "bt_size t2 = bt_size t + 1024" "\<forall>x. place_ok t2 x = place_ok t1 x" "get_node t2 0 = get_node t1 0"
        "get_node t2 (bt_size t) = nr" "place_ok t x \<Longrightarrow> get_node t2 x = get_node t x" for x
      using assms(3,4) g1 g2 o place_distinct [OF assms(1), of x] by (auto simp: wrote_def grown_def)
    consider "S = {}" "t3 = t2" | o2 where "S = {o2}" "place_ok t o2" "o2 \<noteq> off"
        "wrote t2 t3 o2 (mem_put 0 (le_enc 8 (bt_size t)) (get_node t2 o2))"
      using assms(6) by blast
    then have "(healthy t3 \<and> bt_size t3 = bt_size t + 1024 \<and> (\<forall>x. place_ok t3 x = place_ok t1 x) \<and> get_node t3 0 = get_node t1 0 \<and>
        get_node t3 (bt_size t) = nr) \<and> (\<forall>x \<in> S. get_node t3 x = mem_put 0 (le_enc 8 (bt_size t)) (get_node t x) \<and> x mod 2 ^ 32 \<noteq> off) \<and>
        (place_ok t x \<longrightarrow> x \<notin> S \<longrightarrow> get_node t3 x = get_node t x)" for x
    proof cases
      case (2 o2)
      show ?thesis using 2 t2 place_distinct [OF assms(1) 2(2)] place_distinct [OF assms(1), of x]
        by (auto simp: wrote_def)
    qed (use t2 in simp)
    then show "healthy t3" "bt_size t3 = bt_size t + 1024" "\<forall>x. place_ok t3 x = place_ok t1 x" "get_node t3 0 = get_node t1 0"
      "get_node t3 (bt_size t) = nr" "\<forall>x \<in> S. get_node t3 x = mem_put 0 (le_enc 8 (bt_size t)) (get_node t x) \<and> x mod 2 ^ 32 \<noteq> off"
      "place_ok t x \<Longrightarrow> x \<notin> S \<Longrightarrow> get_node t3 x = get_node t x" for x by blast+
  qed
  have t4: "healthy t4" "bt_size t4 = bt_size t3" "\<forall>x. place_ok t4 x = place_ok t3 x"
      "get_node t4 x = (if x mod 2 ^ 32 = off then nl else get_node t3 x)" for x
    using assms(5) o by (simp_all add: wrote_def)
  show ?thesis
    unfolding halved_def
    using t4 h3 s3 r3 assms(3) o place_distinct [OF assms(1)] by (auto simp: grown_def)
qed

text \<open>An interior node: the halves have no links.\<close>

lemma split_halves_node:
  assumes "healthy t" "bt_size t + 1024 < 2 ^ 32" "place_ok t off" "pairs_size lps \<le> 1024" "pairs_size rps \<le> 1024"
  obtains t' where "bt_split_halves off lps rps lov rov False t = Some (t', Inr (bt_size t))"
    "halved t t' off (node_build AGFS_BTREE_NULL AGFS_BTREE_NULL lov lps) (node_build AGFS_BTREE_NULL AGFS_BTREE_NULL rov rps) {}"
proof -
  obtain t1 where t1: "agfs_btree_grow (Some off) t = (t1, Inr (bt_size t))" "grown t t1" by (rule grow_ok [OF assms(1,2)])
  have p1: "healthy t1" "place_ok t1 (bt_size t)" using t1(2) by (simp_all add: grown_def)
  obtain t2 where t2: "agfs_btree_write_node (bt_size t) rps rov AGFS_BTREE_NULL AGFS_BTREE_NULL off t1 = Some (t2, Inr ())"
      "wrote t1 t2 (bt_size t) (node_build AGFS_BTREE_NULL AGFS_BTREE_NULL rov rps)"
    by (rule write_node_wrote [OF p1 assms(5)])
  have p2: "healthy t2" using t2(2) by (simp add: wrote_def)
  obtain t3 where t3: "bt_serialize off lps lov AGFS_BTREE_NULL AGFS_BTREE_NULL t2 = Some t3"
      "wrote t2 t3 off (node_build AGFS_BTREE_NULL AGFS_BTREE_NULL lov lps)"
    by (rule bt_serialize_wrote [OF p2 assms(4)])
  have "bt_split_halves off lps rps lov rov False t = Some (bt_log off t3, Inr (bt_size t))"
    using t1(1) t2(1) t3(1) by (simp add: bt_split_halves_def read_place [OF assms(3,1)] Let_def)
  moreover have "halved t (bt_log off t3) off (node_build AGFS_BTREE_NULL AGFS_BTREE_NULL lov lps)
      (node_build AGFS_BTREE_NULL AGFS_BTREE_NULL rov rps) {}"
    by (rule halved_compose [OF assms(1,3) t1(2) t2(2) wrote_log [OF t3(2)]]) simp
  ultimately show thesis by (rule that)
qed

text \<open>A leaf: the new node stands between the old one and its right neighbour, which points back to it.\<close>

lemma split_halves_leaf:
  assumes "healthy t" "bt_size t + 1024 < 2 ^ 32" "place_ok t off" "pairs_size lps \<le> 1024" "pairs_size rps \<le> 1024"
    "l = nd_left (get_node t off)" "r = nd_right (get_node t off)" "r \<noteq> AGFS_BTREE_NULL \<Longrightarrow> place_ok t r \<and> r \<noteq> off"
  obtains t' where "bt_split_halves off lps rps lov rov True t = Some (t', Inr (bt_size t))"
    "halved t t' off (node_build l (bt_size t) lov lps) (node_build off r rov rps) (if r = AGFS_BTREE_NULL then {} else {r})"
proof -
  obtain t1 where t1: "agfs_btree_grow (Some off) t = (t1, Inr (bt_size t))" "grown t t1" by (rule grow_ok [OF assms(1,2)])
  have p1: "healthy t1" "place_ok t1 (bt_size t)" using t1(2) by (simp_all add: grown_def)
  obtain t2 where t2: "agfs_btree_write_node (bt_size t) rps rov r off off t1 = Some (t2, Inr ())"
      "wrote t1 t2 (bt_size t) (node_build off r rov rps)"
    by (rule write_node_wrote [OF p1 assms(5)])
  have p2: "healthy t2" "place_ok t x \<Longrightarrow> place_ok t2 x" for x using t1(2) t2(2) by (simp_all add: wrote_def grown_def)
  let ?S = "if r = AGFS_BTREE_NULL then {} else {r}"
  obtain t3 where t3: "agfs_btree_relink_left r (bt_size t) off t2 = Some (t3, Inr ())" "healthy t3"
      "?S = {} \<and> t3 = t2 \<or>
       (\<exists>o2. ?S = {o2} \<and> place_ok t o2 \<and> o2 \<noteq> off \<and> wrote t2 t3 o2 (mem_put 0 (le_enc 8 (bt_size t)) (get_node t2 o2)))"
  proof (cases "r = AGFS_BTREE_NULL")
    case True
    then show thesis using p2(1) by (intro that [of t2]) (simp_all add: agfs_btree_relink_left_def)
  next
    case False
    then have r: "place_ok t r" "r \<noteq> off" using assms(8) by auto
    obtain t3 where "agfs_btree_relink_left r (bt_size t) off t2 = Some (t3, Inr ())"
        "wrote t2 t3 r (mem_put 0 (le_enc 8 (bt_size t)) (get_node t2 r))"
      by (rule relink_wrote [OF p2(1) p2(2) [OF r(1)]])
    then show thesis using False r by (intro that [of t3]) (simp_all add: wrote_def)
  qed
  obtain t4 where t4: "bt_serialize off lps lov (bt_size t) l t3 = Some t4" "wrote t3 t4 off (node_build l (bt_size t) lov lps)"
    by (rule bt_serialize_wrote [OF t3(2) assms(4)])
  have "bt_split_halves off lps rps lov rov True t = Some (bt_log off t4, Inr (bt_size t))"
    using t1(1) t2(1) t3(1) t4(1) assms(6,7) by (simp add: bt_split_halves_def read_place [OF assms(3,1)] Let_def)
  moreover have "halved t (bt_log off t4) off (node_build l (bt_size t) lov lps) (node_build off r rov rps) ?S"
    by (rule halved_compose [OF assms(1,3) t1(2) t2(2) wrote_log [OF t4(2)] t3(3)])
  ultimately show thesis by (rule that)
qed

lemma chain_append: "chain t l (xs @ ys) r \<longleftrightarrow> chain t l xs (hd (ys @ [r])) \<and> chain t (last (l # xs)) ys r"
proof (induction xs arbitrary: l)
  case (Cons x xs)
  then show ?case by (cases xs) auto
qed simp

lemma chain_same: "\<forall>x \<in> set xs. get_node t' x = get_node t x \<Longrightarrow> chain t' l xs r = chain t l xs r"
  by (rule chain_cong) simp

lemma relinked_links:
  assumes "length n = 1024" "l < 2 ^ 64"
  shows "nd_left (mem_put 0 (le_enc 8 l) n) = l" "nd_right (mem_put 0 (le_enc 8 l) n) = nd_right n"
  using assms by (simp_all add: nd_left_def nd_right_def mem_get_put_same mem_get_put_after)

lemma chain_relink:
  assumes "chain t l xs r" "length (get_node t (hd xs)) = 1024" "l' < 2 ^ 64" "distinct xs"
    "xs \<noteq> [] \<Longrightarrow> get_node t' (hd xs) = mem_put 0 (le_enc 8 l') (get_node t (hd xs))"
    "\<forall>x \<in> set (tl xs). get_node t' x = get_node t x"
  shows "chain t' l' xs r"
proof (cases xs)
  case (Cons x ys)
  have "chain t' x ys r = chain t x ys r" using assms(6) Cons by (intro chain_cong) simp
  then show ?thesis using assms relinked_links [of "get_node t x" l'] by (simp add: Cons)
qed simp

lemma node_build_links:
  assumes "pairs_size ps \<le> 1024" "l < 2 ^ 64" "r < 2 ^ 64" "ov < 2 ^ 64" "\<forall>p \<in> set ps. snd p < 2 ^ 64"
  shows "nd_left (node_build l r ov ps) = l" "nd_right (node_build l r ov ps) = r"
  using node_is_fields [OF node_build_is [OF assms]] by simp_all

lemma nd_links_less: "length n = 1024 \<Longrightarrow> nd_left n < 2 ^ 64 \<and> nd_right n < 2 ^ 64"
  using le_val_less [of "mem_get 0 8 n"] le_val_less [of "mem_get 8 8 n"] by (simp add: nd_left_def nd_right_def)

lemma desc_ok_build:
  assumes "get_node t off = node_build l r ov ps" "pairs_size ps \<le> 1024" "ov \<noteq> AGFS_BTREE_NULL \<Longrightarrow> pairs_size ps + 8 \<le> 1024"
    "l < 2 ^ 64" "r < 2 ^ 64" "ov < 2 ^ 64" "\<forall>p \<in> set ps. snd p < 2 ^ 64"
  shows "desc_ok t (off, ov, ps)"
  using assms node_build_is [of ps l r ov] unfolding desc_ok_def by auto

lemma desc_ok_relink:
  assumes "desc_ok t d" "get_node t' (fst d) = mem_put 0 (le_enc 8 l) (get_node t (fst d))" "l < 2 ^ 64"
  shows "desc_ok t' d"
  using assms node_is_relink unfolding desc_ok_def by metis

text \<open>The shape after an interior node was halved.\<close>

lemma halved_node_shape:
  assumes sh: "shape {off} t D leaves offs" and D: "fst ` D \<subseteq> set offs" and "healthy t" "off \<in> set offs" "off \<notin> set leaves"
    and half: "halved t t' off (node_build AGFS_BTREE_NULL AGFS_BTREE_NULL lov lps) (node_build AGFS_BTREE_NULL AGFS_BTREE_NULL rov rps) {}"
    and "pairs_size lps + 8 \<le> 1024" "pairs_size rps + 8 \<le> 1024" "lov < 2 ^ 64" "rov < 2 ^ 64"
      "\<forall>p \<in> set lps. snd p < 2 ^ 64" "\<forall>p \<in> set rps. snd p < 2 ^ 64"
  shows "shape {} t' ({d \<in> D. fst d \<noteq> off} \<union> {(off, lov, lps), (bt_size t, rov, rps)}) leaves (bt_size t # offs)"
proof -
  have pl: "place_ok t x" if "x \<in> set offs" for x using sh that by (simp add: shape_def)
  have same: "get_node t' x = get_node t x" if "x \<in> set offs" "x \<noteq> off" for x
    using half pl that by (simp add: halved_def)
  have "desc_ok t' d" if "d \<in> D" "fst d \<noteq> off" for d
  proof -
    have "fst d \<in> set offs" "desc_ok t d" using D that sh by (auto simp: shape_def)
    then show ?thesis using same that desc_ok_cong [of t' d t] by simp
  qed
  moreover have "desc_ok t' (off, lov, lps)" "desc_ok t' (bt_size t, rov, rps)"
    using half assms(7-12) by (auto intro!: desc_ok_build [of t' _ AGFS_BTREE_NULL AGFS_BTREE_NULL] simp: halved_def)
  moreover have "chain t' AGFS_BTREE_NULL leaves AGFS_BTREE_NULL = chain t AGFS_BTREE_NULL leaves AGFS_BTREE_NULL"
  proof (rule chain_same, intro ballI)
    fix x assume "x \<in> set leaves"
    then have "x \<in> set offs" "x \<noteq> off" using sh assms(5) by (auto simp: shape_def)
    then show "get_node t' x = get_node t x" by (rule same)
  qed
  moreover have "bt_size t \<notin> set offs" using pl place_distinct(3) [OF assms(3)] by blast
  moreover have "place_ok t' x" if "x \<in> set (bt_size t # offs)" for x using half pl that by (auto simp: halved_def)
  ultimately show ?thesis using sh unfolding shape_def by auto
qed

text \<open>The shape after a leaf was halved: the new leaf follows the old one in the chain.\<close>

lemma halved_leaf_chain:
  assumes ch: "chain t AGFS_BTREE_NULL (A @ off # B) AGFS_BTREE_NULL" and "distinct (A @ off # B)" "healthy t"
    "\<forall>x \<in> set (A @ off # B). place_ok t x"
    and lr: "l = nd_left (get_node t off)" "r = nd_right (get_node t off)"
    and half: "halved t t' off (node_build l (bt_size t) AGFS_BTREE_NULL lps) (node_build off r AGFS_BTREE_NULL rps)
      (if r = AGFS_BTREE_NULL then {} else {r})"
    and ok: "pairs_size lps \<le> 1024" "pairs_size rps \<le> 1024" "\<forall>p \<in> set lps. snd p < 2 ^ 64" "\<forall>p \<in> set rps. snd p < 2 ^ 64"
  shows "chain t' AGFS_BTREE_NULL (A @ off # bt_size t # B) AGFS_BTREE_NULL"
proof -
  have ro: "bt_size t < 2 ^ 64" using assms(3) by (simp add: healthy_def)
  have off: "off < 2 ^ 64" using assms(3,4) by (auto simp: place_ok_def healthy_def)
  note small = nd_links_less [OF length_get_node [OF assms(3)], of off, folded lr]
  have r: "r = hd (B @ [AGFS_BTREE_NULL])" and l: "l = last (AGFS_BTREE_NULL # A)"
    and cA: "chain t AGFS_BTREE_NULL A off" and cB: "chain t off B AGFS_BTREE_NULL"
    using ch lr by (auto simp: chain_append)
  have same: "get_node t' x = get_node t x" if "x \<in> set (A @ B)" "x \<noteq> r" for x
    using half that assms(2,4) by (auto simp: halved_def split: if_splits)
  have rA: "r \<notin> set A"
    using assms(2,3,4) place_not_null [of t] unfolding r by (cases B) auto
  have "\<forall>x \<in> set A. get_node t' x = get_node t x" using same rA by auto
  then have A: "chain t' AGFS_BTREE_NULL A off" using cA chain_same by blast
  have B: "chain t' (bt_size t) B AGFS_BTREE_NULL"
  proof (rule chain_relink [OF cB length_get_node [OF assms(3)] ro])
    show "distinct B" using assms(2) by simp
    show "get_node t' (hd B) = mem_put 0 (le_enc 8 (bt_size t)) (get_node t (hd B))" if "B \<noteq> []"
      using half r that assms(3,4) place_not_null [of t "hd B"] by (cases B) (auto simp: halved_def)
    show "\<forall>x \<in> set (tl B). get_node t' x = get_node t x" using same r assms(2) by (cases B) auto
  qed
  have "get_node t' off = node_build l (bt_size t) AGFS_BTREE_NULL lps" "get_node t' (bt_size t) = node_build off r AGFS_BTREE_NULL rps"
    using half by (simp_all add: halved_def)
  then show ?thesis
    using A B l r small ro off node_build_links [OF ok(1), of l "bt_size t" AGFS_BTREE_NULL]
      node_build_links [OF ok(2), of off r AGFS_BTREE_NULL] ok(3,4) by (simp add: chain_append)
qed

lemma halved_leaf_shape:
  assumes sh: "shape {off} t D (A @ off # B) offs" and D: "fst ` D \<subseteq> set offs" and "healthy t"
    and lr: "l = nd_left (get_node t off)" "r = nd_right (get_node t off)"
    and half: "halved t t' off (node_build l (bt_size t) AGFS_BTREE_NULL lps) (node_build off r AGFS_BTREE_NULL rps)
      (if r = AGFS_BTREE_NULL then {} else {r})"
    and ok: "pairs_size lps \<le> 1024" "pairs_size rps \<le> 1024" "\<forall>p \<in> set lps. snd p < 2 ^ 64" "\<forall>p \<in> set rps. snd p < 2 ^ 64"
  shows "shape {} t' ({d \<in> D. fst d \<noteq> off} \<union> {(off, AGFS_BTREE_NULL, lps), (bt_size t, AGFS_BTREE_NULL, rps)})
    (A @ off # bt_size t # B) (bt_size t # offs)"
proof -
  have ro: "bt_size t < 2 ^ 64" using assms(3) by (simp add: healthy_def)
  have pl: "place_ok t x" if "x \<in> set offs" for x using sh that by (simp add: shape_def)
  have inA: "off \<in> set offs" using sh by (auto simp: shape_def)
  have off: "off < 2 ^ 64" using pl [OF inA] assms(3) by (auto simp: place_ok_def healthy_def)
  note small = nd_links_less [OF length_get_node [OF assms(3)], of off, folded lr]
  have "desc_ok t' d" if "d \<in> D" "fst d \<noteq> off" for d
  proof -
    have d: "fst d \<in> set offs" "desc_ok t d" using D that sh by (auto simp: shape_def)
    show ?thesis
    proof (cases "fst d = r")
      case True
      then have "get_node t' (fst d) = mem_put 0 (le_enc 8 (bt_size t)) (get_node t (fst d))"
        using half pl d(1) place_not_null [OF _ assms(3)] by (auto simp: halved_def)
      then show ?thesis using desc_ok_relink [OF d(2)] ro by blast
    next
      case False
      then have "get_node t' (fst d) = get_node t (fst d)" using half pl d(1) that by (auto simp: halved_def split: if_splits)
      then show ?thesis using d(2) desc_ok_cong [of t' d t] by simp
    qed
  qed
  moreover have "desc_ok t' (off, AGFS_BTREE_NULL, lps)"
    using half ok ro small by (intro desc_ok_build [of t' _ l "bt_size t"]) (auto simp: halved_def)
  moreover have "desc_ok t' (bt_size t, AGFS_BTREE_NULL, rps)"
    using half ok off small by (intro desc_ok_build [of t' _ off r]) (auto simp: halved_def)
  moreover have "chain t' AGFS_BTREE_NULL (A @ off # bt_size t # B) AGFS_BTREE_NULL"
    using sh pl by (intro halved_leaf_chain [OF _ _ assms(3) _ lr half ok]) (auto simp: shape_def)
  moreover have "bt_size t \<notin> set offs" using pl place_distinct(3) [OF assms(3)] by blast
  moreover have "place_ok t' x" if "x \<in> set (bt_size t # offs)" for x using half pl that by (auto simp: halved_def)
  ultimately show ?thesis using sh unfolding shape_def by auto
qed

end
