(* ===== verification/Btree_Split.thy ===== *)
theory Btree_Split
  imports Btree_Write
begin

text \<open>
  Splitting, \<^verbatim>\<open>agfs_btree_split\<close>: with keys of at most 88 bytes the halves of a full node fit a node each,
  the separator joins the parent, which may be split in turn, and a new root is made when the old one was
  divided. The split ends, succeeds when the stream can grow, and keeps the entries.
\<close>

subsection \<open>Halves by count fit\<close>

lemma keys_length_bounds:
  "\<forall>p \<in> set ps. 1 \<le> length (fst p) \<and> length (fst p) \<le> 88 \<Longrightarrow> length ps \<le> keys_length ps \<and> keys_length ps \<le> 88 * length ps"
  by (induction ps) (auto simp: keys_length_def)

lemma pairs_size_bounds:
  "28 + keys_length ps + 10 * length ps \<le> pairs_size ps" "pairs_size ps \<le> 35 + keys_length ps + 10 * length ps"
  using bt_align_ge [of "28 + keys_length ps"] bt_align_le [of "28 + keys_length ps"] unfolding pairs_size_def by linarith+

text \<open>
  A leaf that had room before one more pair was added, or an interior node, divides by count into
  parts that fit, when keys have at most 88 bytes.
\<close>

lemma part_fits:
  assumes keys: "\<forall>p \<in> set (xs @ ys). 1 \<le> length (fst p) \<and> length (fst p) \<le> 88"
    and old: "keys_length (xs @ ys) + 10 * length (xs @ ys) \<le> 1094" and half: "length xs \<le> Suc (length ys)"
  shows "pairs_size xs \<le> 1024"
proof -
  have x: "keys_length xs \<le> 88 * length xs" and y: "length ys \<le> keys_length ys"
    using keys keys_length_bounds [of xs] keys_length_bounds [of ys] by auto
  have "keys_length xs + 10 * length xs \<le> 989"
  proof (cases "length xs \<le> 10")
    case False
    then show ?thesis using old half y by simp
  qed (use x in simp)
  then show ?thesis using pairs_size_bounds(2) [of xs] by simp
qed

lemma part_fits_node:
  assumes keys: "\<forall>p \<in> set (xs @ ys). 1 \<le> length (fst p) \<and> length (fst p) \<le> 88"
    and old: "keys_length (xs @ ys) + 10 * length (xs @ ys) \<le> 1086" and half: "length xs \<le> length ys"
  shows "pairs_size xs + 8 \<le> 1024"
proof -
  have x: "keys_length xs \<le> 88 * length xs" and y: "length ys \<le> keys_length ys"
    using keys keys_length_bounds [of xs] keys_length_bounds [of ys] by auto
  have "keys_length xs + 10 * length xs \<le> 981"
  proof (cases "length xs \<le> 10")
    case False
    then show ?thesis using old half y by simp
  qed (use x in simp)
  then show ?thesis using pairs_size_bounds(2) [of xs] by simp
qed

lemma leaf_halves_fit:
  assumes "\<forall>p \<in> set ps. 1 \<le> length (fst p) \<and> length (fst p) \<le> 88" "keys_length ps + 10 * length ps \<le> 1094" "m = length ps div 2"
  shows "pairs_size (take m ps) \<le> 1024" "pairs_size (drop m ps) \<le> 1024"
proof -
  have l: "length (take m ps) = m" "length (drop m ps) = length ps - m" using assms(3) by auto
  show "pairs_size (take m ps) \<le> 1024"
    by (rule part_fits [of _ "drop m ps"]) (use assms l in auto)
  have kl: "keys_length (drop m ps @ take m ps) = keys_length ps"
    using keys_length_simps(3) [of "take m ps" "drop m ps"] by simp
  have "set (drop m ps @ take m ps) = set ps" by (metis append_take_drop_id set_append sup_commute)
  then show "pairs_size (drop m ps) \<le> 1024"
    using kl by (intro part_fits [of _ "take m ps"]) (use assms l in auto)
qed

lemma node_halves_fit:
  assumes "\<forall>p \<in> set ps. 1 \<le> length (fst p) \<and> length (fst p) \<le> 88" "keys_length ps + 10 * length ps \<le> 1086" "ps = xs @ p # ys"
    "length xs = length ps div 2"
  shows "pairs_size xs + 8 \<le> 1024" "pairs_size ys + 8 \<le> 1024"
proof -
  have n: "length xs = Suc (length xs + length ys) div 2" using assms(4) unfolding assms(3) by simp
  show "pairs_size xs + 8 \<le> 1024"
    by (rule part_fits_node [of _ "p # ys"]) (use assms(1,2) n in \<open>simp_all add: assms(3)\<close>)
  show "pairs_size ys + 8 \<le> 1024"
    by (rule part_fits_node [of _ "xs @ [p]"]) (use assms(1,2) n in \<open>auto simp: assms(3)\<close>)
qed

text \<open>The new pairs of a parent that has no room for them still fit the buffers.\<close>

lemma parent_bounds:
  assumes "\<forall>p \<in> set pp. 1 \<le> length (fst p) \<and> length (fst p) \<le> 88" "pairs_size pp + 8 \<le> 1024" "length sep \<le> 88"
  shows "keys_length pp + length sep \<le> 1024" "length pp \<le> 128" "keys_length pp + 10 * length pp \<le> 988"
proof -
  have k: "length pp \<le> keys_length pp" "keys_length pp \<le> 88 * length pp" using keys_length_bounds [OF assms(1)] by auto
  show b: "keys_length pp + 10 * length pp \<le> 988" using pairs_size_bounds(1) [of pp] assms(2) by linarith
  show "length pp \<le> 128" using b k by linarith
  show "keys_length pp + length sep \<le> 1024" using b k assms(3) by (cases "length pp \<le> 5") linarith+
qed

subsection \<open>The separator joins its parent\<close>

fun graft :: "frame \<Rightarrow> bt \<Rightarrow> bkey \<Rightarrow> bt \<Rightarrow> bt" where
  "graft (FC off ls k rs l) s1 sep s2 = BN off (ls @ (s1, sep) # (s2, k) # rs) l"
| "graft (FO off ls) s1 sep s2 = BN off (ls @ [(s1, sep)]) s2"

fun graft_pairs :: "frame \<Rightarrow> nat \<Rightarrow> bkey \<Rightarrow> nat \<Rightarrow> bpair list" where
  "graft_pairs (FC off ls k rs l) r1 sep r2 = child_pairs ls @ (sep, r1) # (k, r2) # child_pairs rs"
| "graft_pairs (FO off ls) r1 sep r2 = child_pairs ls @ [(sep, r1)]"

fun graft_ov :: "frame \<Rightarrow> nat \<Rightarrow> nat" where
  "graft_ov (FC off ls k rs l) r2 = root_off l"
| "graft_ov (FO off ls) r2 = r2"

lemma child_pairs_simps [simp]:
  "child_pairs [] = []" "child_pairs ((c, k) # cs) = (k, root_off c) # child_pairs cs" "child_pairs (cs @ ds) = child_pairs cs @ child_pairs ds"
  by (simp_all add: child_pairs_def)

lemma graft_facts:
  "root_off (graft f s1 sep s2) = frame_off f"
  "bt_flat (plug fs (graft f s1 sep s2)) = flat_l (f # fs) @ (bt_flat s1 @ (sep, None) # bt_flat s2) @ flat_r (f # fs)"
  "leaf_offs (plug fs (graft f s1 sep s2)) = leaf_l (f # fs) @ (leaf_offs s1 @ leaf_offs s2) @ leaf_r (f # fs)"
  "mset (bt_offs (plug fs (graft f s1 sep s2))) = mset (ctx_offs (f # fs)) + mset (bt_offs s1) + mset (bt_offs s2)"
  "bt_descs (graft f s1 sep s2) =
     {(frame_off f, graft_ov f (root_off s2), graft_pairs f (root_off s1) sep (root_off s2))} \<union> frame_rest f \<union> bt_descs s1 \<union> bt_descs s2"
  by (cases f; auto simp: flat_plug leaf_offs_plug offs_plug)+

lemma root_off_plug: "root_off (plug fs s) = (if fs = [] then root_off s else frame_off (last fs))"
  by (induction fs arbitrary: s) auto

lemma bt_value_index_skip: "\<forall>p \<in> set ps. snd p \<noteq> off \<Longrightarrow> bt_value_index off i (ps @ qs) = bt_value_index off (i + length ps) qs"
proof (induction ps arbitrary: i)
  case (Cons p ps)
  then show ?case by (cases p) simp
qed simp

lemma bt_value_index_none: "\<forall>p \<in> set ps. snd p \<noteq> off \<Longrightarrow> bt_value_index off i ps = None"
  using bt_value_index_skip [of ps off i "[]"] by simp

lemma child_pairs_roots: "p \<in> set (child_pairs cs) \<Longrightarrow> snd p \<in> set (offss cs)"
  by (induction cs) (auto simp: child_pairs_def)

lemma parent_pairs_graft:
  assumes "distinct (ctx_offs (f # fs) @ bt_offs s)" "frame_desc f (root_off s) = (poff, ov, pp)"
  shows "bt_parent_pairs pp ov sep (root_off s) ro = Some (graft_pairs f (root_off s) sep ro, graft_ov f ro)"
proof (cases f)
  case (FC off ls k rs l)
  then have "\<forall>p \<in> set (child_pairs ls). snd p \<noteq> root_off s"
    using assms(1) child_pairs_roots root_off_in_offs [of s] by fastforce
  then show ?thesis using assms(2) FC bt_value_index_skip [of "child_pairs ls" "root_off s" 0]
    by (auto simp: bt_parent_pairs_def nth_append)
next
  case (FO off ls)
  then have "\<forall>p \<in> set (child_pairs ls). snd p \<noteq> root_off s"
    using assms(1) child_pairs_roots root_off_in_offs [of s] by fastforce
  then show ?thesis using assms(2) FO bt_value_index_none [of "child_pairs ls" "root_off s" 0]
    by (auto simp: bt_parent_pairs_def)
qed

lemma graft_pairs_size:
  assumes "frame_desc f r = (poff, ov, pp)"
  shows "keys_length (graft_pairs f r sep ro) = keys_length pp + length sep" "length (graft_pairs f r sep ro) = Suc (length pp)"
    "fst ` set (graft_pairs f r sep ro) = insert sep (fst ` set pp)"
  using assms by (cases f; auto)+

subsection \<open>A new root, and a rebuilt parent\<close>

definition hdr_ok :: "byte list \<Rightarrow> nat \<Rightarrow> bool" where
  "hdr_ok hdr dtype \<longleftrightarrow> length hdr = 40 \<and> hd_magic hdr = AGFS_BTREE_MAGIC \<and> hd_node_size hdr = AGFS_BTREE_NODE_SIZE \<and> hd_type hdr = dtype"

lemma hdr_put_low:
  assumes "length hdr = 40" "off + length bs \<le> 40"
  shows "length (mem_put off bs hdr) = 40"
  using assms by simp

lemma header_updates:
  assumes "length hdr = 40" "root < 2 ^ 64"
  shows "hd_magic (mem_put 16 (le_enc 8 root) hdr) = hd_magic hdr" "hd_node_size (mem_put 16 (le_enc 8 root) hdr) = hd_node_size hdr"
    "hd_type (mem_put 16 (le_enc 8 root) hdr) = hd_type hdr" "hd_root (mem_put 16 (le_enc 8 root) hdr) = root"
    "hd_magic (mem_put 8 (le_enc 4 d) hdr) = hd_magic hdr" "hd_node_size (mem_put 8 (le_enc 4 d) hdr) = hd_node_size hdr"
    "hd_type (mem_put 8 (le_enc 4 d) hdr) = hd_type hdr" "hd_root (mem_put 8 (le_enc 4 d) hdr) = hd_root hdr"
    "hd_magic (mem_put 32 (le_enc 8 s) hdr) = hd_magic hdr" "hd_node_size (mem_put 32 (le_enc 8 s) hdr) = hd_node_size hdr"
    "hd_type (mem_put 32 (le_enc 8 s) hdr) = hd_type hdr" "hd_root (mem_put 32 (le_enc 8 s) hdr) = hd_root hdr"
  using assms
  by (simp_all add: hd_magic_def hd_node_size_def hd_type_def hd_root_def mem_get_put_same mem_get_put_after mem_get_put_before)

lemma header_in_node:
  assumes "length hdr = 40" "length n = 1024"
  shows "hd_magic (mem_put 0 hdr n) = hd_magic hdr" "hd_node_size (mem_put 0 hdr n) = hd_node_size hdr"
    "hd_type (mem_put 0 hdr n) = hd_type hdr" "hd_root (mem_put 0 hdr n) = hd_root hdr"
  using assms by (simp_all add: hd_magic_def hd_node_size_def hd_type_def hd_root_def mem_get_def mem_put_def)

lemma header_ok_low:
  assumes "mem_get 0 32 (get_node t' 0) = mem_get 0 32 (get_node t 0)"
  shows "header_ok t' dtype root = header_ok t dtype root"
proof -
  have "mem_get off n (get_node t' 0) = mem_get off n (get_node t 0)" if "off + n \<le> 32" for off n
    using assms mem_get_get [OF that, of 0 "get_node t' 0"] mem_get_get [OF that, of 0 "get_node t 0"] by simp
  then show ?thesis by (simp add: header_ok_def hd_magic_def hd_node_size_def hd_type_def hd_root_def)
qed

lemma write_header_ok:
  assumes "healthy t" "hdr_ok hdr dtype" "hd_root hdr = root"
  obtains t' where "fst (agfs_btree_write_header t hdr) = t'" "healthy t'" "header_ok t' dtype root" "bt_size t' = bt_size t"
    "\<forall>x. place_ok t' x = place_ok t x" "\<forall>x. x mod 2 ^ 32 \<noteq> 0 \<longrightarrow> get_node t' x = get_node t x"
proof -
  define hh where "hh = mem_put 32 (le_enc 8 (bt_size t)) hdr"
  define h where "h = mem_put 0 hh (get_node t 0)"
  have l: "length hdr = 40" "length hh = 40" "length (get_node t 0) = 1024"
    using assms(1,2) by (simp_all add: hdr_ok_def hh_def length_get_node)
  have lh: "length h = 1024" using l by (simp add: h_def)
  have w: "wrote t (bt_log 0 (put_node 0 h t)) 0 h" by (rule wrote_log [OF wrote_put [OF assms(1) lh]])
  have "fst (agfs_btree_write_header t hdr) = bt_log 0 (put_node 0 h t)"
    using read_zero [OF assms(1)] by (simp add: agfs_btree_write_header_def h_def hh_def)
  moreover have "header_ok (bt_log 0 (put_node 0 h t)) dtype root"
    using assms(2,3) header_in_node [OF l(2,3)] header_updates(9-12) [OF l(1), of 0 "bt_size t"]
    by (simp add: header_ok_def get_put_node h_def hh_def hdr_ok_def)
  ultimately show thesis using w that by (auto simp: wrote_def)
qed

lemma new_root_ok:
  assumes "healthy t" "bt_size t + 1024 < 2 ^ 32" "hdr_ok hdr dtype" "length sep \<le> 88"
  obtains t' where "bt_new_root hdr sep off ro depth t = Some (t', Inr ())" "healthy t'" "header_ok t' dtype (bt_size t)"
    "bt_size t' = bt_size t + 1024" "\<forall>x. place_ok t x \<longrightarrow> place_ok t' x \<and> get_node t' x = get_node t x" "place_ok t' (bt_size t)"
    "get_node t' (bt_size t) = node_build AGFS_BTREE_NULL AGFS_BTREE_NULL ro [(sep, off)]"
proof -
  define ps where "ps = [(sep, off)]"
  define n where "n = node_build AGFS_BTREE_NULL AGFS_BTREE_NULL ro ps"
  have sz: "pairs_size ps \<le> 1024" using pairs_size_bounds(2) [of ps] assms(4) by (simp add: ps_def)
  obtain t1 where t1: "agfs_btree_grow None t = (t1, Inr (bt_size t))" "grown t t1" by (rule grow_ok [OF assms(1,2)])
  have h1: "healthy t1" "place_ok t1 (bt_size t)" using t1(2) by (simp_all add: grown_def)
  define t2 where "t2 = bt_log (bt_size t) (put_node (bt_size t) n t1)"
  have w: "wrote t1 t2 (bt_size t) n" unfolding t2_def n_def by (intro wrote_log wrote_put h1 length_node_build sz)
  have r64: "bt_size t < 2 ^ 64" using assms(1) by (simp add: healthy_def)
  define hdr1 where "hdr1 = mem_put 16 (le_enc 8 (bt_size t)) hdr"
  define hdr2 where "hdr2 = (if hd_depth hdr1 < depth + 1 then mem_put 8 (le_enc 4 (depth + 1)) hdr1 else hdr1)"
  have l: "length hdr = 40" "length hdr1 = 40" using assms(3) by (simp_all add: hdr_ok_def hdr1_def)
  have hk: "hdr_ok hdr2 dtype" "hd_root hdr2 = bt_size t"
    using assms(3) l header_updates(1-4) [OF l(1) r64] header_updates(5-8) [OF l(2), of 0 "depth + 1"]
    by (auto simp: hdr2_def hdr_ok_def hdr1_def)
  have h2: "healthy t2" using w by (simp add: wrote_def)
  obtain t3 where t3: "fst (agfs_btree_write_header t2 hdr2) = t3" "healthy t3" "header_ok t3 dtype (bt_size t)" "bt_size t3 = bt_size t2"
      "\<forall>x. place_ok t3 x = place_ok t2 x" "\<forall>x. x mod 2 ^ 32 \<noteq> 0 \<longrightarrow> get_node t3 x = get_node t2 x"
    by (rule write_header_ok [OF h2 hk])
  have "bt_new_root hdr sep off ro depth t = Some (t3, Inr ())"
    using t1(1) t3(1) sz read_place [OF h1(2,1)]
    by (simp add: bt_new_root_def Let_def t2_def n_def ps_def hdr1_def hdr2_def split del: if_split cong: if_cong)
  moreover have "bt_size t mod 2 ^ 32 = bt_size t" "bt_size t \<noteq> 0" using assms(1) by (auto simp: healthy_def)
  moreover have "\<forall>x. place_ok t x \<longrightarrow> place_ok t3 x \<and> get_node t3 x = get_node t x"
    using t1(2) w t3(5,6) place_distinct [OF assms(1)] by (auto simp: grown_def wrote_def)
  ultimately show thesis
    using t1(2) w t3 by (intro that [of t3]) (auto simp: grown_def wrote_def n_def ps_def)
qed

definition kept :: "btree \<Rightarrow> btree \<Rightarrow> bool" where
  "kept t t' \<longleftrightarrow> healthy t' \<and> bt_size t' = bt_size t \<and> (\<forall>x. place_ok t' x = place_ok t x) \<and> (\<forall>x. get_node t' x = get_node t x)"

lemma kept_shape: "kept t t' \<Longrightarrow> shape X t D leaves offs \<Longrightarrow> shape X t' D leaves offs"
  using chain_same [of leaves t' t] by (auto simp: kept_def shape_def desc_ok_def)

lemma parent_insert_run:
  assumes "healthy t" "place_ok t poff" "node_is (get_node t poff) l r ov pp"
    "\<forall>p \<in> set pp. 1 \<le> length (fst p) \<and> length (fst p) \<le> 88" "pairs_size pp + 8 \<le> 1024" "length sep \<le> 88"
    "bt_parent_pairs pp ov sep off ro = Some (pairs, ov')" "length pairs = Suc (length pp)"
  shows "if pairs_size pairs + 8 \<le> 1024
    then \<exists>t'. bt_parent_insert poff sep off ro t = Some (t', Inr None) \<and> wrote t t' poff (node_build AGFS_BTREE_NULL AGFS_BTREE_NULL ov' pairs)
    else \<exists>t'. bt_parent_insert poff sep off ro t = Some (t', Inr (Some (pairs, ov'))) \<and> kept t t'"
proof -
  define m where "m = kmalloc_rest (kmalloc_rest (bt_mem t))"
  have mem: "kmalloc_ok (bt_mem t)" "kmalloc_ok (kmalloc_rest (bt_mem t))" using assms(1) by (simp_all add: healthy_def)
  define tm where "tm = t\<lparr>bt_mem := m\<rparr>"
  have km: "kept t tm" using assms(1) by (auto simp: kept_def tm_def healthy_def m_def)
  note b = parent_bounds [OF assms(4,5,6)]
  have run: "bt_parent_insert poff sep off ro t =
      (if pairs_size pairs + 8 \<le> 1024
       then map_option (\<lambda>t. (bt_log poff t, Inr None)) (bt_serialize poff pairs ov' AGFS_BTREE_NULL AGFS_BTREE_NULL tm)
       else Some (tm, Inr (Some (pairs, ov'))))"
    using read_place [OF assms(2,1)] mem b assms(7,8)
    by (simp add: bt_parent_insert_def node_is_pairs [OF assms(3)] node_is_fields [OF assms(3)] tm_def m_def Let_def)
  show ?thesis
  proof (cases "pairs_size pairs + 8 \<le> 1024")
    case True
    have "healthy tm" "pairs_size pairs \<le> 1024" using km True by (simp_all add: kept_def)
    then obtain t' where t': "bt_serialize poff pairs ov' AGFS_BTREE_NULL AGFS_BTREE_NULL tm = Some t'"
        "wrote tm t' poff (node_build AGFS_BTREE_NULL AGFS_BTREE_NULL ov' pairs)" by (rule bt_serialize_wrote)
    have "wrote t (bt_log poff t') poff (node_build AGFS_BTREE_NULL AGFS_BTREE_NULL ov' pairs)"
      using wrote_log [OF t'(2)] km by (simp add: wrote_def kept_def)
    then show ?thesis using True run t'(1) by simp
  qed (use run km in auto)
qed

subsection \<open>A subtree becomes two\<close>

fun own_pairs :: "bt \<Rightarrow> bpair list" where
  "own_pairs (BL off kvs) = kvs"
| "own_pairs (BN off cs l) = child_pairs cs"

fun own_ov :: "bt \<Rightarrow> nat" where
  "own_ov (BL off kvs) = AGFS_BTREE_NULL"
| "own_ov (BN off cs l) = root_off l"

text \<open>The pairs are too many for the node but their halves are not.\<close>

definition ready :: "bt \<Rightarrow> bool" where
  "ready s \<longleftrightarrow> 2 \<le> length (own_pairs s) \<and>
     (case s of
        BL off kvs \<Rightarrow> keys_length kvs + 10 * length kvs \<le> 1094 \<and> (\<forall>p \<in> set kvs. snd p < 2 ^ 64)
      | BN off cs l \<Rightarrow> keys_length (child_pairs cs) + 10 * length cs \<le> 1086 \<and> 11 \<le> length cs)"

definition split_into :: "(bkey \<Rightarrow> bool) \<Rightarrow> (bkey \<Rightarrow> bkey \<Rightarrow> bool) \<Rightarrow> btree \<Rightarrow> btree \<Rightarrow> frame list \<Rightarrow> bt \<Rightarrow> bt \<Rightarrow> bkey \<Rightarrow> bt \<Rightarrow> bool" where
  "split_into ok_key lt t t' fs s s1 sep s2 \<longleftrightarrow>
     healthy t' \<and> bt_size t' = bt_size t + AGFS_BTREE_NODE_SIZE \<and> mem_get 0 32 (get_node t' 0) = mem_get 0 32 (get_node t 0) \<and>
     root_off s1 = root_off s \<and> root_off s2 = bt_size t \<and> ok_key sep \<and>
     shape {} t' (ctx_descs fs (root_off s) \<union> bt_descs s1 \<union> bt_descs s2)
       (leaf_l fs @ (leaf_offs s1 @ leaf_offs s2) @ leaf_r fs) (bt_size t # bt_offs (plug fs s)) \<and>
     mset (bt_offs s1) + mset (bt_offs s2) = add_mset (bt_size t) (mset (bt_offs s)) \<and>
     items_ok ok_key lt (flat_l fs @ (bt_flat s1 @ (sep, None) # bt_flat s2) @ flat_r fs) \<and>
     items_entries (bt_flat s1 @ (sep, None) # bt_flat s2) = items_entries (bt_flat s) \<and>
     (\<forall>d r. bt_bal d r s \<longrightarrow> bt_bal d False s1 \<and> bt_bal d False s2) \<and> keeps (set (bt_offs (plug fs s))) t t'"

definition split_call :: "bt \<Rightarrow> btree \<Rightarrow> (btree \<times> nat result) option" where
  "split_call s t =
     (let m = length (own_pairs s) div 2 in
      case s of
        BL off kvs \<Rightarrow> bt_split_halves off (take m kvs) (drop m kvs) AGFS_BTREE_NULL AGFS_BTREE_NULL True t
      | BN off cs l \<Rightarrow>
          bt_split_halves off (take m (child_pairs cs)) (drop (m + 1) (child_pairs cs)) (snd (child_pairs cs ! m)) (root_off l) False t)"

definition split_sep :: "bt \<Rightarrow> bkey" where
  "split_sep s = (let m = length (own_pairs s) div 2 in fst (own_pairs s ! (case s of BL _ _ \<Rightarrow> m - 1 | BN _ _ _ \<Rightarrow> m)))"

lemma shape_mono: "shape X t D leaves offs \<Longrightarrow> D' \<subseteq> D \<Longrightarrow> shape X t D' leaves offs"
  by (auto simp: shape_def)

lemma ctx_leaves: "set (leaf_l fs) \<union> set (leaf_r fs) \<subseteq> set (ctx_offs fs)"
proof (induction fs)
  case (Cons f fs)
  have leaves: "set (leafs cs) \<subseteq> set (offss cs)" for cs by (simp add: UN_mono leaf_offs_subset)
  show ?case
  proof (cases f)
    case (FC off ls k rs l)
    then show ?thesis using Cons leaves [of ls] leaves [of rs] leaf_offs_subset [of l] by auto
  next
    case (FO off ls)
    then show ?thesis using Cons leaves [of ls] by auto
  qed
qed simp

lemma distinct_plug_ctx: "distinct (bt_offs (plug fs s)) \<Longrightarrow> x \<in> set (bt_offs s) \<Longrightarrow> x \<notin> set (ctx_offs fs)"
  by (auto simp: plug_distinct)

context key_order
begin

lemma items_ok_separate:
  assumes "items_ok ok_key lt (P @ Q)" "P \<noteq> []" "last P = (s, Some v)" "Q \<noteq> []" "hd Q = (b, Some w)"
  shows "items_ok ok_key lt (P @ (s, None) # Q)"
proof -
  obtain P' where P: "P = P' @ [(s, Some v)]" using assms(2,3) by (metis append_butlast_last_id)
  obtain Q' where Q: "Q = (b, Some w) # Q'" using assms(4,5) by (cases Q) auto
  have ok: "ok_key s" "ok_key b" using assms(1) by (auto simp: P Q items_ok_def)
  have sb: "lt s b" using assms(1) by (auto simp: P Q items_ok_append items_ok_Cons item_lt_def)
  have "\<forall>x \<in> set P. item_lt lt x (s, None)"
  proof
    fix x assume "x \<in> set P"
    then have "x = (s, Some v) \<or> item_lt lt x (s, Some v)" using assms(1) by (auto simp: P items_ok_append)
    then show "item_lt lt x (s, None)" by (auto simp: item_lt_def)
  qed
  moreover have "\<forall>y \<in> set Q. item_lt lt (s, None) y"
  proof
    fix y assume y: "y \<in> set Q"
    have oky: "ok_key (fst y)" using assms(1) y by (auto simp: items_ok_def)
    have "y = (b, Some w) \<or> item_lt lt (b, Some w) y" using y assms(1) by (auto simp: Q items_ok_append items_ok_Cons)
    then have "fst y = b \<or> lt b (fst y)" by (auto simp: item_lt_def)
    then show "item_lt lt (s, None) y" using sb lt_trans [OF ok oky] by (auto simp: item_lt_def)
  qed
  ultimately show ?thesis using assms(1) ok(1) by (auto simp: items_ok_append items_ok_Cons)
qed

end

context tree_keys
begin

lemma keys_bounded: "keys_ok ok_key lt ps \<Longrightarrow> \<forall>p \<in> set ps. 1 \<le> length (fst p) \<and> length (fst p) \<le> 88"
  using key_len by (fastforce simp: keys_ok_def Suc_le_eq)

lemma split_leaf:
  assumes "healthy t" "bt_size t + 1024 < 2 ^ 32" "sound {off} t (plug fs (BL off kvs))"
    "items_ok ok_key lt (bt_flat (plug fs (BL off kvs)))" "ready (BL off kvs)"
  shows "\<exists>t' s1 s2. split_call (BL off kvs) t = Some (t', Inr (bt_size t)) \<and>
    split_into ok_key lt t t' fs (BL off kvs) s1 (split_sep (BL off kvs)) s2"
proof -
  define m where "m = length kvs div 2"
  define A B where "A = take m kvs" "B = drop m kvs"
  have kvs: "kvs = A @ B" by (simp add: A_B_def)
  note R = assms(5) [unfolded ready_def, simplified]
  have m: "1 \<le> m" "m < length kvs" using R by (auto simp: m_def)
  have ne: "A \<noteq> []" "B \<noteq> []" using m by (auto simp: A_B_def)
  have kb: "keys_ok ok_key lt kvs" using assms(4) by (simp add: flat_plug items_ok_append items_ok_kv)
  have fit: "pairs_size A \<le> 1024" "pairs_size B \<le> 1024"
    unfolding A_B_def using leaf_halves_fit [OF keys_bounded [OF kb] _ m_def] R by auto
  have vals: "\<forall>p \<in> set A. snd p < 2 ^ 64" "\<forall>p \<in> set B. snd p < 2 ^ 64" using R by (auto simp: kvs)
  define D where "D = bt_descs (plug fs (BL off kvs))"
  have sh: "shape {off} t D (leaf_l fs @ off # leaf_r fs) (bt_offs (plug fs (BL off kvs)))"
    using assms(3) by (simp add: leaf_offs_plug D_def)
  have offin: "off \<in> set (bt_offs (plug fs (BL off kvs)))" by (simp add: set_offs_plug)
  have pl: "place_ok t x" if "x \<in> set (bt_offs (plug fs (BL off kvs)))" for x using sh that by (simp add: shape_def)
  define l r where "l = nd_left (get_node t off)" "r = nd_right (get_node t off)"
  have "chain t AGFS_BTREE_NULL (leaf_l fs @ off # leaf_r fs) AGFS_BTREE_NULL" "distinct (leaf_l fs @ off # leaf_r fs)"
    using sh by (simp_all add: shape_def)
  then have rin: "r \<noteq> AGFS_BTREE_NULL \<Longrightarrow> r \<in> set (bt_offs (plug fs (BL off kvs))) \<and> r \<noteq> off"
    using ctx_leaves [of fs] by (cases "leaf_r fs") (auto simp: chain_append l_r_def set_offs_plug)
  then have r: "r \<noteq> AGFS_BTREE_NULL \<Longrightarrow> place_ok t r \<and> r \<noteq> off" using pl by blast
  obtain t' where t': "bt_split_halves off A B AGFS_BTREE_NULL AGFS_BTREE_NULL True t = Some (t', Inr (bt_size t))"
      "halved t t' off (node_build l (bt_size t) AGFS_BTREE_NULL A) (node_build off r AGFS_BTREE_NULL B) (if r = AGFS_BTREE_NULL then {} else {r})"
    by (rule split_halves_leaf [OF assms(1,2) pl [OF offin] fit l_r_def r])
  have "keeps (set (bt_offs (plug fs (BL off kvs)))) t t'" by (rule halved_keeps [OF t'(2)]) (use offin rin in auto)
  moreover have Doff: "fst ` D \<subseteq> set (bt_offs (plug fs (BL off kvs)))" by (simp add: D_def descs_offs)
  moreover have "ctx_descs fs off \<subseteq> {d \<in> D. fst d \<noteq> off}"
    using ctx_descs_mem [of _ fs off] distinct_plug_ctx [of fs "BL off kvs" off] sh by (auto simp: D_def descs_plug shape_def)
  then have sh': "shape {} t' (ctx_descs fs off \<union> bt_descs (BL off A) \<union> bt_descs (BL (bt_size t) B))
      (leaf_l fs @ off # bt_size t # leaf_r fs) (bt_size t # bt_offs (plug fs (BL off kvs)))"
    by (intro shape_mono [OF halved_leaf_shape [OF sh Doff assms(1) l_r_def t'(2) fit vals]]) auto
  moreover have "items_ok ok_key lt ((flat_l fs @ kv_items A) @ (fst (last A), None) # kv_items B @ flat_r fs)"
  proof (rule items_ok_separate)
    show "items_ok ok_key lt ((flat_l fs @ kv_items A) @ kv_items B @ flat_r fs)"
      using assms(4) by (simp add: flat_plug kvs kv_items_def)
    show "last (flat_l fs @ kv_items A) = (fst (last A), Some (snd (last A)))" using ne by (simp add: kv_items_def last_map case_prod_unfold)
    show "hd (kv_items B @ flat_r fs) = (fst (hd B), Some (snd (hd B)))" using ne by (simp add: kv_items_def hd_map case_prod_unfold)
  qed (use ne in \<open>auto simp: kv_items_def\<close>)
  moreover have "split_sep (BL off kvs) = fst (last A)"
    using m ne by (simp add: split_sep_def m_def [symmetric] last_conv_nth A_B_def Let_def)
  moreover have "ok_key (fst (last A))" using kb ne last_in_set [of A] by (auto simp: keys_ok_def kvs)
  moreover have "items_entries (kv_items A @ (k, None) # kv_items B) = kvs" for k
    by (simp add: items_entries_append items_entries_kv kvs) (simp add: items_entries_def items_entries_kv [unfolded items_entries_def])
  moreover have "split_call (BL off kvs) t = Some (t', Inr (bt_size t))" using t'(1) by (simp add: split_call_def m_def A_B_def Let_def)
  ultimately show ?thesis
    using t'(2) sh' by (intro exI [of _ t'] exI [of _ "BL off A"] exI [of _ "BL (bt_size t) B"]) (simp add: split_into_def halved_def items_entries_kv)
qed

end

lemma node_leaves_not_root:
  assumes "distinct (bt_offs (plug fs (BN off cs l)))"
  shows "off \<notin> set (leaf_offs (plug fs (BN off cs l)))"
proof -
  have "off \<notin> set (ctx_offs fs)" "off \<notin> set (offss cs)" "off \<notin> set (bt_offs l)"
    using assms by (auto simp: plug_distinct)
  moreover have "set (leafs cs) \<subseteq> set (offss cs)" by (simp add: UN_mono leaf_offs_subset)
  ultimately show ?thesis using ctx_leaves [of fs] leaf_offs_subset [of l] by (auto simp: leaf_offs_plug)
qed

lemma child_pairs_nth: "m < length cs \<Longrightarrow> child_pairs cs ! m = (snd (cs ! m), root_off (fst (cs ! m)))"
  by (simp add: child_pairs_def)

lemma length_child_pairs [simp]: "length (child_pairs cs) = length cs"
  by (simp add: child_pairs_def)

context tree_keys
begin

lemma split_node:
  assumes "healthy t" "bt_size t + 1024 < 2 ^ 32" "sound {off} t (plug fs (BN off cs l))"
    "items_ok ok_key lt (bt_flat (plug fs (BN off cs l)))" "ready (BN off cs l)"
  shows "\<exists>t' s1 s2. split_call (BN off cs l) t = Some (t', Inr (bt_size t)) \<and>
    split_into ok_key lt t t' fs (BN off cs l) s1 (split_sep (BN off cs l)) s2"
proof -
  define m where "m = length cs div 2"
  note R = assms(5) [unfolded ready_def, simplified]
  have m: "1 \<le> m" "m < length cs" using R by (auto simp: m_def)
  define cl c k cr where "cl = take m cs" "c = fst (cs ! m)" "k = snd (cs ! m)" "cr = drop (Suc m) cs"
  have cs: "cs = cl @ (c, k) # cr" using id_take_nth_drop [OF m(2)] by (simp add: cl_c_k_cr_def)
  have parts: "take m (child_pairs cs) = child_pairs cl" "drop (m + 1) (child_pairs cs) = child_pairs cr" "child_pairs cs ! m = (k, root_off c)"
    using m by (simp_all add: cl_c_k_cr_def child_pairs_def take_map drop_map)
  have seps: "keys_ok ok_key lt (child_pairs cs)"
    using assms(4) items_ok_seps [of ok_key lt cs "bt_flat l"] by (simp add: flat_plug items_ok_append)
  have "child_pairs cs = child_pairs cl @ (k, root_off c) # child_pairs cr" by (simp add: cs)
  then have fit: "pairs_size (child_pairs cl) + 8 \<le> 1024" "pairs_size (child_pairs cr) + 8 \<le> 1024"
    using node_halves_fit [OF keys_bounded [OF seps]] R m by (auto simp: cl_c_k_cr_def m_def)
  define D offs where "D = bt_descs (plug fs (BN off cs l))" "offs = bt_offs (plug fs (BN off cs l))"
  have sh: "shape {off} t D (leaf_offs (plug fs (BN off cs l))) offs" using assms(3) by (simp add: D_offs_def)
  have dis: "distinct offs" and pl: "\<And>x. x \<in> set offs \<Longrightarrow> place_ok t x" using sh by (simp_all add: shape_def)
  have small: "x < 2 ^ 64" if "x \<in> set offs" for x using pl [OF that] assms(1) by (auto simp: place_ok_def healthy_def)
  have inn: "off \<in> set offs" "root_off c \<in> set offs" "root_off l \<in> set offs" "set (offss cs) \<subseteq> set offs"
    by (auto simp: D_offs_def set_offs_plug cs)
  have vals: "\<forall>p \<in> set (child_pairs cl). snd p < 2 ^ 64" "\<forall>p \<in> set (child_pairs cr). snd p < 2 ^ 64"
    using child_pairs_roots [of _ cl] child_pairs_roots [of _ cr] small inn(4) unfolding cs by fastforce+
  have fit': "pairs_size (child_pairs cl) \<le> 1024" "pairs_size (child_pairs cr) \<le> 1024" using fit by auto
  obtain t' where t': "bt_split_halves off (child_pairs cl) (child_pairs cr) (root_off c) (root_off l) False t = Some (t', Inr (bt_size t))"
      "halved t t' off (node_build AGFS_BTREE_NULL AGFS_BTREE_NULL (root_off c) (child_pairs cl))
        (node_build AGFS_BTREE_NULL AGFS_BTREE_NULL (root_off l) (child_pairs cr)) {}"
    by (rule split_halves_node [OF assms(1,2) pl [OF inn(1)] fit'])
  have Doff: "fst ` D \<subseteq> set offs" by (simp add: D_offs_def descs_offs)
  have nl: "off \<notin> set (leaf_offs (plug fs (BN off cs l)))" using dis node_leaves_not_root unfolding D_offs_def by blast
  have other: "fst d \<noteq> off" if "d \<in> ctx_descs fs off \<union> descss cs \<union> bt_descs l" for d
    using that dis ctx_descs_mem [of d fs off] descs_offs_mem [of d] unfolding D_offs_def plug_distinct by auto
  have "ctx_descs fs off \<union> descss cs \<union> bt_descs l \<subseteq> {d \<in> D. fst d \<noteq> off}"
    using other by (auto simp: D_offs_def descs_plug)
  then have "shape {} t' (ctx_descs fs off \<union> bt_descs (BN off cl c) \<union> bt_descs (BN (bt_size t) cr l))
      (leaf_offs (plug fs (BN off cs l))) (bt_size t # offs)"
    by (intro shape_mono [OF halved_node_shape [OF sh Doff assms(1) inn(1) nl t'(2) fit small [OF inn(2)] small [OF inn(3)] vals]])
      (unfold cs, auto)
  moreover have "split_sep (BN off cs l) = k" using parts(3) by (simp add: split_sep_def m_def Let_def)
  moreover have "ok_key k" using seps by (simp add: cs keys_ok_def)
  moreover have "split_call (BN off cs l) t = Some (t', Inr (bt_size t))"
    using t'(1) parts by (simp add: split_call_def m_def [symmetric] Let_def)
  moreover have "5 \<le> length cl" "5 \<le> length cr" using R by (auto simp: cl_c_k_cr_def m_def)
  moreover have "keeps (set offs) t t'" by (rule halved_keeps [OF t'(2)]) (use inn(1) in simp)
  ultimately show ?thesis
    using t'(2) assms(4)
    by (intro exI [of _ t'] exI [of _ "BN off cl c"] exI [of _ "BN (bt_size t) cr l"])
      (simp add: split_into_def halved_def leaf_offs_plug flat_plug D_offs_def cs)
qed

lemma split_subtree:
  assumes "healthy t" "bt_size t + 1024 < 2 ^ 32" "sound {root_off s} t (plug fs s)"
    "items_ok ok_key lt (bt_flat (plug fs s))" "ready s"
  shows "\<exists>t' s1 s2. split_call s t = Some (t', Inr (bt_size t)) \<and> split_into ok_key lt t t' fs s s1 (split_sep s) s2"
  using split_leaf split_node assms by (cases s) auto

end

text \<open>The code's choices for a leaf and for an interior node.\<close>

lemma agfs_btree_split_step:
  assumes "ready s" "split_call s t = Some (t', Inr ro)" "own_ov s = AGFS_BTREE_NULL \<longleftrightarrow> (\<exists>off kvs. s = BL off kvs)"
  shows "agfs_btree_split hdr (root_off s # up) (own_pairs s) (length (own_pairs s) div 2) (own_ov s) depth t =
    (case up of
       [] \<Rightarrow> bt_new_root hdr (split_sep s) (root_off s) ro depth t'
     | parent_off # _ \<Rightarrow>
         bt_then (bt_parent_insert parent_off (split_sep s) (root_off s) ro t')
           (\<lambda>rest t. case rest of None \<Rightarrow> Some (t, Inr ())
              | Some (pp, parent_overflow) \<Rightarrow> agfs_btree_split hdr up pp (length pp div 2) parent_overflow depth t))"
proof -
  have m: "\<not> (length (own_pairs s) div 2 < 1 \<or> length (own_pairs s) div 2 \<ge> length (own_pairs s))"
    using assms(1) by (auto simp: ready_def)
  show ?thesis
  proof (cases s)
    case (BL off kvs)
    then show ?thesis using assms(2) m unfolding BL split_sep_def split_call_def Let_def
      by (subst agfs_btree_split.simps) (simp add: Let_def split: list.split)
  next
    case (BN off cs l)
    then have "root_off l \<noteq> AGFS_BTREE_NULL" using assms(3) by simp
    then show ?thesis using assms(2) m unfolding BN split_sep_def split_call_def Let_def
      by (subst agfs_btree_split.simps) (simp add: Let_def split: list.split)
  qed
qed

subsection \<open>The whole split\<close>

lemma shape_mset: "shape X t D leaves offs \<Longrightarrow> mset offs = mset offs' \<Longrightarrow> shape X t D leaves offs'"
  unfolding shape_def by (metis mset_eq_imp_distinct_iff set_mset_mset)

lemma shape_hole:
  "shape X t D leaves offs \<Longrightarrow> \<forall>d \<in> D'. fst d \<notin> X' \<longrightarrow> d \<in> D \<and> fst d \<notin> X \<Longrightarrow> shape X' t D' leaves offs"
  by (auto simp: shape_def)

text \<open>The node that was to be rewritten is written.\<close>

lemma shape_fill:
  assumes "shape {off} t D leaves offs" "wrote t t' off n" "healthy t" "off \<in> set offs" "off \<notin> set leaves" "fst ` D \<subseteq> set offs"
    "\<forall>d \<in> D. fst d = off \<longrightarrow> desc_ok t' d"
  shows "shape {} t' D leaves offs"
proof -
  have pl: "place_ok t x" if "x \<in> set offs" for x using assms(1) that by (simp add: shape_def)
  have same: "get_node t' x = get_node t x" if "x \<in> set offs" "x \<noteq> off" for x
    using assms(2) place_distinct(1) [OF assms(3) pl [OF that(1)]] place_distinct(1) [OF assms(3) pl [OF assms(4)]] that(2)
    by (simp add: wrote_def)
  have "desc_ok t' d" if "d \<in> D" for d
  proof (cases "fst d = off")
    case False
    have d: "fst d \<in> set offs" "desc_ok t d" using assms(1,6) that False by (auto simp: shape_def)
    then show ?thesis using same [OF d(1) False] desc_ok_cong [of t' d t] by simp
  qed (use assms(7) that in blast)
  moreover have "chain t' AGFS_BTREE_NULL leaves AGFS_BTREE_NULL = chain t AGFS_BTREE_NULL leaves AGFS_BTREE_NULL"
  proof (rule chain_same, intro ballI)
    fix x assume "x \<in> set leaves"
    then have "x \<in> set offs" "x \<noteq> off" using assms(1,5) by (auto simp: shape_def)
    then show "get_node t' x = get_node t x" by (rule same)
  qed
  moreover have "\<forall>x. place_ok t' x = place_ok t x" using assms(2) by (simp add: wrote_def)
  ultimately show ?thesis using assms(1) unfolding shape_def by auto
qed

lemma split_intoD:
  assumes "split_into ok_key lt t t' fs s s1 sep s2"
  shows "shape {} t' (ctx_descs fs (root_off s) \<union> bt_descs s1 \<union> bt_descs s2)
      (leaf_l fs @ (leaf_offs s1 @ leaf_offs s2) @ leaf_r fs) (bt_size t # bt_offs (plug fs s))"
    "mset (bt_offs s1) + mset (bt_offs s2) = add_mset (bt_size t) (mset (bt_offs s))"
    "healthy t'" "bt_size t' = bt_size t + 1024" "mem_get 0 32 (get_node t' 0) = mem_get 0 32 (get_node t 0)"
    "root_off s1 = root_off s" "root_off s2 = bt_size t" "ok_key sep"
    "items_ok ok_key lt (flat_l fs @ (bt_flat s1 @ (sep, None) # bt_flat s2) @ flat_r fs)"
    "items_entries (bt_flat s1 @ (sep, None) # bt_flat s2) = items_entries (bt_flat s)"
    "bt_bal d r s \<Longrightarrow> bt_bal d False s1 \<and> bt_bal d False s2" "keeps (set (bt_offs (plug fs s))) t t'"
  using assms unfolding split_into_def by blast+

lemma graft_sound:
  assumes "split_into ok_key lt t t' (f # fs) s s1 sep s2"
  shows "sound {frame_off f} t' (plug fs (graft f s1 sep s2))"
proof -
  note S = split_intoD [OF assms] and m = split_intoD(2) [OF assms]
  have "mset (bt_size t # bt_offs (plug (f # fs) s)) = add_mset (bt_size t) (mset (ctx_offs (f # fs)) + mset (bt_offs s))"
    by (simp only: mset.simps offs_plug)
  also have "\<dots> = mset (ctx_offs (f # fs)) + (mset (bt_offs s1) + mset (bt_offs s2))" unfolding m by simp
  also have "\<dots> = mset (bt_offs (plug fs (graft f s1 sep s2)))" unfolding graft_facts(4) by (simp only: union_assoc)
  finally have "mset (bt_size t # bt_offs (plug (f # fs) s)) = mset (bt_offs (plug fs (graft f s1 sep s2)))" .
  from shape_mset [OF S(1) this]
  have "shape {} t' (ctx_descs (f # fs) (root_off s) \<union> bt_descs s1 \<union> bt_descs s2)
      (leaf_offs (plug fs (graft f s1 sep s2))) (bt_offs (plug fs (graft f s1 sep s2)))"
    unfolding graft_facts(3) .
  then show ?thesis
  proof (rule shape_hole, intro ballI impI)
    fix d assume "d \<in> bt_descs (plug fs (graft f s1 sep s2))" "fst d \<notin> {frame_off f}"
    then show "d \<in> ctx_descs (f # fs) (root_off s) \<union> bt_descs s1 \<union> bt_descs s2 \<and> fst d \<notin> {}"
      unfolding descs_plug graft_facts(1,5) ctx_descs.simps by auto
  qed
qed

lemma graft_offs:
  assumes "split_into ok_key lt t t' (f # fs) s s1 sep s2"
  shows "set (bt_offs (plug fs (graft f s1 sep s2))) = insert (bt_size t) (set (bt_offs (plug (f # fs) s)))"
proof -
  have "set (bt_offs s1) \<union> set (bt_offs s2) = insert (bt_size t) (set (bt_offs s))"
    using arg_cong [OF split_intoD(2) [OF assms], of set_mset] by simp
  moreover have "set (bt_offs (plug fs (graft f s1 sep s2))) = set (ctx_offs (f # fs)) \<union> set (bt_offs s1) \<union> set (bt_offs s2)"
    using arg_cong [OF graft_facts(4), of set_mset fs f s1 sep s2] by (simp del: ctx_offs.simps)
  ultimately show ?thesis unfolding set_offs_plug [of "f # fs"] by blast
qed

lemma frame_in_offs: "frame_off f \<in> set (bt_offs (plug (f # fs) s))"
  by (cases f) (auto simp: set_offs_plug simp del: plug.simps)

lemma bt_bal_plug1: "(\<And>d r. bt_bal d r s \<Longrightarrow> bt_bal d r s') \<Longrightarrow> bt_bal d r (plug1 f s) \<Longrightarrow> bt_bal d r (plug1 f s')"
  by (cases f) auto

lemma bt_bal_plug: "(\<And>d r. bt_bal d r s \<Longrightarrow> bt_bal d r s') \<Longrightarrow> bt_bal d r (plug fs s) \<Longrightarrow> bt_bal d r (plug fs s')"
proof (induction fs arbitrary: s s')
  case (Cons f fs)
  have "bt_bal d r (plug fs (plug1 f s'))"
  proof (rule Cons.IH [of "plug1 f s"])
    show "bt_bal d r (plug1 f s')" if "bt_bal d r (plug1 f s)" for d r using bt_bal_plug1 [OF Cons.prems(1) that] .
    show "bt_bal d r (plug fs (plug1 f s))" using Cons.prems(2) by simp
  qed
  then show ?case by simp
qed simp

lemma bt_bal_graft:
  "(\<And>d r. bt_bal d r s \<Longrightarrow> bt_bal d False s1 \<and> bt_bal d False s2) \<Longrightarrow> bt_bal d r (plug1 f s) \<Longrightarrow> bt_bal d r (graft f s1 sep s2)"
  by (cases f) (force split: if_splits)+

text \<open>The new root above the two halves.\<close>

lemma new_root_sound:
  assumes S: "split_into ok_key lt t t1 [] s s1 sep s2" and "place_ok t (root_off s)" "length sep \<le> 88"
    and t': "healthy t'" "bt_size t' = bt_size t1 + 1024" "\<forall>x. place_ok t1 x \<longrightarrow> place_ok t' x \<and> get_node t' x = get_node t1 x"
      "place_ok t' (bt_size t1)" "get_node t' (bt_size t1) = node_build AGFS_BTREE_NULL AGFS_BTREE_NULL (bt_size t) [(sep, root_off s)]"
  shows "sound {} t' (BN (bt_size t1) [(s1, sep)] s2)"
proof -
  note S = S [unfolded split_into_def, simplified]
  let ?tr = "BN (bt_size t1) [(s1, sep)] s2"
  let ?offs = "bt_size t # bt_offs s"
  have sh: "shape {} t1 (bt_descs s1 \<union> bt_descs s2) (leaf_offs ?tr) ?offs" using S by simp
  have h1: "healthy t1" using S by simp
  have ms: "mset (bt_offs s1 @ bt_offs s2) = mset ?offs" using S by simp
  then have st: "set (bt_offs s1 @ bt_offs s2) = set ?offs" by (metis set_mset_mset)
  have pl: "place_ok t1 x" if "x \<in> set ?offs" for x using sh that unfolding shape_def by blast
  have fresh: "bt_size t1 \<notin> set ?offs" using place_distinct(3) [OF h1 pl] by blast
  have small: "bt_size t < 2 ^ 64" "root_off s < 2 ^ 64"
    using pl [of "bt_size t"] pl [of "root_off s"] h1 by (auto simp: place_ok_def healthy_def)
  have "pairs_size [(sep, root_off s)] + 8 \<le> 1024" using pairs_size_bounds(2) [of "[(sep, root_off s)]"] assms(3) by simp
  then have root: "desc_ok t' (bt_size t1, bt_size t, [(sep, root_off s)])"
    using t'(5) small by (intro desc_ok_build [of t' _ AGFS_BTREE_NULL AGFS_BTREE_NULL]) auto
  have same: "get_node t' x = get_node t1 x" if "x \<in> set ?offs" for x using t'(3) pl [OF that] by blast
  have "desc_ok t' d" if "d \<in> bt_descs s1 \<union> bt_descs s2" for d
  proof -
    have "fst d \<in> set ?offs" using that descs_offs_mem [of d] st by auto
    then show ?thesis using same sh that desc_ok_cong [of t' d t1] by (auto simp: shape_def)
  qed
  moreover have "chain t' AGFS_BTREE_NULL (leaf_offs ?tr) AGFS_BTREE_NULL = chain t1 AGFS_BTREE_NULL (leaf_offs ?tr) AGFS_BTREE_NULL"
    using sh same by (intro chain_same) (auto simp: shape_def)
  moreover have "distinct (bt_offs ?tr)"
    using sh fresh st mset_eq_imp_distinct_iff [OF ms] by (auto simp: shape_def)
  moreover have "\<forall>x \<in> set (bt_offs ?tr). place_ok t' x" using st pl t'(3,4) by auto
  ultimately show ?thesis
    using sh root S st unfolding shape_def by (auto simp: child_pairs_def)
qed

lemma own_graft [simp]:
  "own_pairs (graft f s1 sep s2) = graft_pairs f (root_off s1) sep (root_off s2)" "own_ov (graft f s1 sep s2) = graft_ov f (root_off s2)"
  by (cases f; simp)+

lemma frame_desc_off: "fst (frame_desc f r) = frame_off f"
  by (cases f) auto

lemma frame_keys: "fst ` set (snd (snd (frame_desc f r))) \<subseteq> fst ` set (flat_l [f] @ flat_r [f])"
  by (cases f) (force simp: child_pairs_def)+

lemma keys_in_ctx: "fst ` set (flat_l [f] @ flat_r [f]) \<subseteq> fst ` set (flat_l (f # fs) @ X @ flat_r (f # fs))"
  by (cases f) auto

lemma graft_not_leaf: "graft f s1 sep s2 \<noteq> BL off kvs"
  by (cases f) auto

lemma desc_unique:
  assumes "distinct (bt_offs (plug fs (BN off cs l)))" "d \<in> bt_descs (plug fs (BN off cs l))" "fst d = off"
  shows "d = (off, root_off l, child_pairs cs)"
proof -
  have "off \<notin> set (ctx_offs fs)" "off \<notin> set (offss cs)" "off \<notin> set (bt_offs l)" using assms(1) by (auto simp: plug_distinct)
  moreover have "d \<in> ctx_descs fs off \<Longrightarrow> fst d \<in> set (ctx_offs fs)" by (rule ctx_descs_mem)
  moreover have "d \<in> bt_descs l \<Longrightarrow> fst d \<in> set (bt_offs l)" by (rule descs_offs_mem)
  moreover have "d \<in> descss cs \<Longrightarrow> fst d \<in> set (offss cs)" using descs_offs_mem [of d] by auto
  ultimately show ?thesis using assms(2,3) by (auto simp: descs_plug)
qed

lemma frame_ov_in: "fst (snd (frame_desc f (root_off s))) \<in> set (bt_offs (plug (f # fs) s))"
  by (cases f) (auto simp: set_offs_plug simp del: plug.simps)

text \<open>An interior node is written with the pairs that the tree has for it.\<close>

lemma fill_node:
  assumes "sound {off} t (plug fs (BN off cs l))" "healthy t" "pairs_size (child_pairs cs) + 8 \<le> 1024"
    "wrote t t' off (node_build AGFS_BTREE_NULL AGFS_BTREE_NULL (root_off l) (child_pairs cs))"
  shows "sound {} t' (plug fs (BN off cs l))"
proof -
  let ?offs = "bt_offs (plug fs (BN off cs l))"
  have dis: "distinct ?offs" using assms(1) by (simp add: shape_def)
  have pl: "place_ok t x" if "x \<in> set ?offs" for x using assms(1) that by (simp add: shape_def)
  have small: "x < 2 ^ 64" if "x \<in> set ?offs" for x using pl [OF that] assms(2) by (auto simp: place_ok_def healthy_def)
  have inn: "off \<in> set ?offs" "root_off l \<in> set ?offs" "set (offss cs) \<subseteq> set ?offs" by (auto simp: set_offs_plug)
  have "get_node t' off = node_build AGFS_BTREE_NULL AGFS_BTREE_NULL (root_off l) (child_pairs cs)" using assms(4) by (simp add: wrote_def)
  moreover have "\<forall>p \<in> set (child_pairs cs). snd p < 2 ^ 64" using child_pairs_roots [of _ cs] small inn(3) by blast
  ultimately have "desc_ok t' (off, root_off l, child_pairs cs)"
    using assms(3) small [OF inn(2)] by (intro desc_ok_build [of t' _ AGFS_BTREE_NULL AGFS_BTREE_NULL]) simp_all
  then have own: "\<forall>d \<in> bt_descs (plug fs (BN off cs l)). fst d = off \<longrightarrow> desc_ok t' d"
    using desc_unique [OF dis] by metis
  show ?thesis
    by (rule shape_fill [OF assms(1,4,2) inn(1) node_leaves_not_root [OF dis] _ own]) (simp add: descs_offs)
qed

context tree_keys
begin

lemma bounded_in_items:
  "items_ok ok_key lt its \<Longrightarrow> fst ` set pp \<subseteq> fst ` set its \<Longrightarrow> p \<in> set pp \<Longrightarrow> 1 \<le> length (fst p) \<and> length (fst p) \<le> 88"
  using key_len unfolding items_ok_def by (fastforce simp: Suc_le_eq)

text \<open>The parent takes the separator and the new child, or becomes the next node to be split.\<close>

lemma split_parent:
  assumes S: "split_into ok_key lt t t1 (f # fs) s s1 sep s2" and snd0: "distinct (bt_offs (plug (f # fs) s))"
  defines "g \<equiv> graft f s1 sep s2"
  shows "(\<exists>t'. bt_parent_insert (frame_off f) sep (root_off s) (bt_size t) t1 = Some (t', Inr None) \<and>
      healthy t' \<and> bt_size t' = bt_size t1 \<and> mem_get 0 32 (get_node t' 0) = mem_get 0 32 (get_node t1 0) \<and> sound {} t' (plug fs g) \<and>
      keeps {frame_off f} t1 t') \<or>
    (\<exists>t'. bt_parent_insert (frame_off f) sep (root_off s) (bt_size t) t1 = Some (t', Inr (Some (own_pairs g, own_ov g))) \<and>
      kept t1 t' \<and> sound {frame_off f} t' (plug fs g) \<and> ready g)"
proof -
  note D = split_intoD [OF S]
  obtain ov pp where fd: "frame_desc f (root_off s) = (frame_off f, ov, pp)" using frame_desc_off [of f "root_off s"] by (metis prod.collapse)
  have dok: "desc_ok t1 (frame_off f, ov, pp)" using D(1) by (simp add: shape_def fd)
  have pl: "place_ok t1 x" if "x \<in> set (bt_offs (plug (f # fs) s))" for x using D(1) that by (auto simp: shape_def)
  have poff: "place_ok t1 (frame_off f)" by (rule pl) (cases f; auto simp: set_offs_plug simp del: plug.simps)
  have "place_ok t1 ov" using pl [OF frame_ov_in [of f s fs]] fd by simp
  then have sz: "pairs_size pp + 8 \<le> 1024" using dok place_not_null D(3) by (auto simp: desc_ok_def)
  have "fst ` set pp \<subseteq> fst ` set (flat_l (f # fs) @ (bt_flat s1 @ (sep, None) # bt_flat s2) @ flat_r (f # fs))"
    using order_trans [OF frame_keys [of f "root_off s"] keys_in_ctx [of f fs "bt_flat s1 @ (sep, None) # bt_flat s2"]] unfolding fd by simp
  then have keys: "\<forall>p \<in> set pp. 1 \<le> length (fst p) \<and> length (fst p) \<le> 88"
    using D(9) by (intro ballI bounded_in_items) blast+
  have sep: "length sep \<le> 88" using D(8) key_len by blast
  have own: "own_pairs g = graft_pairs f (root_off s) sep (bt_size t)" "own_ov g = graft_ov f (bt_size t)" using D(6,7) by (simp_all add: g_def)
  have pairs: "bt_parent_pairs pp ov sep (root_off s) (bt_size t) = Some (own_pairs g, own_ov g)"
    unfolding own by (rule parent_pairs_graft [where fs = fs, OF _ fd]) (use snd0 in \<open>simp add: plug_distinct del: plug.simps ctx_offs.simps\<close>)
  have len: "length (own_pairs g) = Suc (length pp)" "keys_length (own_pairs g) = keys_length pp + length sep"
    unfolding own using graft_pairs_size [OF fd] by simp_all
  obtain cs l where g: "g = BN (frame_off f) cs l" unfolding g_def by (cases f) auto
  obtain lf r where nd: "node_is (get_node t1 (frame_off f)) lf r ov pp" using desc_okD [OF dok] by blast
  note run = parent_insert_run [OF D(3) poff nd keys sz sep pairs len(1)]
  have snd1: "sound {frame_off f} t1 (plug fs g)" unfolding g_def by (rule graft_sound [OF S])
  show ?thesis
  proof (cases "pairs_size (own_pairs g) + 8 \<le> 1024")
    case True
    with run obtain t' where t': "bt_parent_insert (frame_off f) sep (root_off s) (bt_size t) t1 = Some (t', Inr None)"
        "wrote t1 t' (frame_off f) (node_build AGFS_BTREE_NULL AGFS_BTREE_NULL (own_ov g) (own_pairs g))" by auto
    have "sound {} t' (plug fs g)" using fill_node [of "frame_off f" t1 fs cs l t'] snd1 D(3) True t'(2) by (simp add: g)
    moreover have "get_node t' 0 = get_node t1 0" using t'(2) place_distinct(1,2) [OF D(3) poff] by (simp add: wrote_def)
    moreover have "keeps {frame_off f} t1 t'" by (rule wrote_keeps [OF D(3) t'(2) poff]) simp
    ultimately show ?thesis using t' by (auto simp: wrote_def)
  next
    case False
    with run obtain t' where t': "bt_parent_insert (frame_off f) sep (root_off s) (bt_size t) t1 = Some (t', Inr (Some (own_pairs g, own_ov g)))"
        "kept t1 t'" by auto
    have "keys_length pp \<le> 88 * length pp" using keys_length_bounds [OF keys] by simp
    then have "10 \<le> length pp" using False len sep pairs_size_bounds(2) [of "own_pairs g"] by simp
    then have "ready g" using len parent_bounds(3) [OF keys sz sep] sep by (auto simp: ready_def g)
    then show ?thesis using t' kept_shape [OF t'(2) snd1] by blast
  qed
qed

end

lemma items_entries_ctx: "items_entries X = items_entries Y \<Longrightarrow> items_entries (L @ X @ R) = items_entries (L @ Y @ R)"
  by (simp add: items_entries_def)

lemma kept_header: "kept t t' \<Longrightarrow> header_ok t' dtype root = header_ok t dtype root"
  by (simp add: kept_def header_ok_def)

lemma own_ov_leaf:
  assumes "\<forall>x \<in> set (bt_offs s). place_ok t x" "healthy t"
  shows "own_ov s = AGFS_BTREE_NULL \<longleftrightarrow> (\<exists>off kvs. s = BL off kvs)"
  using assms place_not_null [of t] by (cases s) auto

context tree_keys
begin

text \<open>The root splits: a new root above the halves.\<close>

lemma split_root:
  assumes "healthy t" "sound {root_off s} t s" "items_ok ok_key lt (bt_flat s)" "ready s" "hdr_ok hdr dtype"
    "header_ok t dtype (root_off s)" "bt_size t + 1024 * 2 < 2 ^ 32"
  shows "\<exists>t' tr'. agfs_btree_split hdr [root_off s] (own_pairs s) (length (own_pairs s) div 2) (own_ov s) depth t
      = Some (t', Inr ()) \<and> btree_tree ok_key fp dtype t' tr' \<and> bt_entries tr' = bt_entries s \<and>
    (\<forall>d. bt_bal d True s \<longrightarrow> bt_bal d True tr' \<or> bt_bal (Suc d) True tr') \<and> bt_size t' \<le> bt_size t + 1024 * 2 \<and> extends t t' s tr'"
proof -
  have room: "bt_size t + 1024 < 2 ^ 32" "bt_size t + 1024 + 1024 < 2 ^ 32" using assms(7) by auto
  obtain t1 s1 s2 where c: "split_call s t = Some (t1, Inr (bt_size t))" and S: "split_into ok_key lt t t1 [] s s1 (split_sep s) s2"
    using split_subtree [where fs = "[]", unfolded plug.simps, OF assms(1) room(1) assms(2,3,4)] by blast
  note D = split_intoD [OF S]
  have pl: "\<forall>x \<in> set (bt_offs s). place_ok t x" using assms(2) by (simp add: shape_def)
  have sep: "length (split_sep s) \<le> 88" using D(8) key_len by blast
  have room1: "bt_size t1 + 1024 < 2 ^ 32" using room D(4) by simp
  obtain t' where t': "bt_new_root hdr (split_sep s) (root_off s) (bt_size t) depth t1 = Some (t', Inr ())" "healthy t'"
      "header_ok t' dtype (bt_size t1)" "bt_size t' = bt_size t1 + 1024"
      "\<forall>x. place_ok t1 x \<longrightarrow> place_ok t' x \<and> get_node t' x = get_node t1 x" "place_ok t' (bt_size t1)"
      "get_node t' (bt_size t1) = node_build AGFS_BTREE_NULL AGFS_BTREE_NULL (bt_size t) [(split_sep s, root_off s)]"
    by (rule new_root_ok [OF D(3) room1 assms(5) sep])
  let ?tr = "BN (bt_size t1) [(s1, split_sep s)] s2"
  have "sound {} t' ?tr" by (rule new_root_sound [OF S _ sep t'(2,4-7)]) (use pl in simp)
  moreover have "items_ok ok_key lt (bt_flat ?tr)" using D(9) by simp
  moreover have "bt_entries ?tr = bt_entries s" using D(10) by (simp add: bt_entries_def)
  moreover have "\<forall>d. bt_bal d True s \<longrightarrow> bt_bal (Suc d) True ?tr" using D(11) by auto
  moreover have "agfs_btree_split hdr [root_off s] (own_pairs s) (length (own_pairs s) div 2) (own_ov s) depth t = Some (t', Inr ())"
    unfolding agfs_btree_split_step [OF assms(4) c own_ov_leaf [OF pl assms(1)], of hdr "[]"] using t'(1) by simp
  moreover have "extends t t' s ?tr"
  proof -
    have "keeps {} t1 t'" using t'(4,5) by (simp add: keeps_def)
    then have "keeps (set (bt_offs s)) t t'" using keeps_trans [OF D(12)] by simp
    moreover have "set (bt_offs s1) \<union> set (bt_offs s2) = insert (bt_size t) (set (bt_offs s))"
      using arg_cong [OF D(2), of set_mset] by simp
    ultimately show ?thesis using D(4) by (auto simp: extends_def)
  qed
  ultimately show ?thesis using t' D(4) by (intro exI [of _ t'] exI [of _ ?tr]) (simp add: btree_tree_def)
qed

text \<open>
  A split succeeds and leaves a tree with the same entries: the halves, and the separator in the parent,
  which may be split in turn, up to a new root.
\<close>

lemma split_tree:
  assumes "healthy t" "sound {root_off s} t (plug fs s)" "items_ok ok_key lt (bt_flat (plug fs s))" "ready s" "hdr_ok hdr dtype"
    "header_ok t dtype (root_off (plug fs s))" "bt_size t + 1024 * (length fs + 2) < 2 ^ 32"
  shows "\<exists>t' tr'. agfs_btree_split hdr (root_off s # map frame_off fs) (own_pairs s) (length (own_pairs s) div 2) (own_ov s) depth t
      = Some (t', Inr ()) \<and> btree_tree ok_key fp dtype t' tr' \<and> bt_entries tr' = bt_entries (plug fs s) \<and>
    (\<forall>d. bt_bal d True (plug fs s) \<longrightarrow> bt_bal d True tr' \<or> bt_bal (Suc d) True tr') \<and> bt_size t' \<le> bt_size t + 1024 * (length fs + 2) \<and>
    extends t t' (plug fs s) tr'"
  using assms
proof (induction fs arbitrary: s t)
  case Nil
  then show ?case using split_root [of t s hdr depth] by simp
next
  case (Cons f fs)
  note P = Cons.prems
  have room: "bt_size t + 1024 < 2 ^ 32" using P(7) by simp
  obtain t1 s1 s2 where c: "split_call s t = Some (t1, Inr (bt_size t))" and S: "split_into ok_key lt t t1 (f # fs) s s1 (split_sep s) s2"
    using split_subtree [OF P(1) room P(2,3,4)] by blast
  note D = split_intoD [OF S]
  define g where "g = graft f s1 (split_sep s) s2"
  have pl: "\<forall>x \<in> set (bt_offs s). place_ok t x" using P(2) by (simp add: shape_def set_offs_plug del: plug.simps)
  note step = agfs_btree_split_step [OF P(4) c own_ov_leaf [OF pl P(1)], of hdr "map frame_off (f # fs)" depth, simplified]
  have flat: "bt_flat (plug fs g) = flat_l (f # fs) @ (bt_flat s1 @ (split_sep s, None) # bt_flat s2) @ flat_r (f # fs)"
    unfolding g_def by (rule graft_facts(2))
  then have io: "items_ok ok_key lt (bt_flat (plug fs g))" using D(9) by simp
  have ent: "bt_entries (plug fs g) = bt_entries (plug (f # fs) s)"
    unfolding bt_entries_def flat flat_plug [of "f # fs" s] by (rule items_entries_ctx [OF D(10)])
  have "bt_bal d r g" if "bt_bal d r (plug1 f s)" for d r unfolding g_def using bt_bal_graft [OF D(11) that] .
  then have ht: "bt_bal d True (plug fs g)" if "bt_bal d True (plug (f # fs) s)" for d using bt_bal_plug [of "plug1 f s" g] that by simp
  have root: "root_off (plug fs g) = root_off (plug (f # fs) s)" by (simp add: root_off_plug g_def graft_facts(1))
  have h1: "header_ok t1 dtype (root_off (plug fs g))" using P(6) header_ok_low [OF D(5)] root by simp
  have dis: "distinct (bt_offs (plug (f # fs) s))" using P(2) by (simp add: shape_def)
  have gs: "set (bt_offs (plug fs g)) = insert (bt_size t) (set (bt_offs (plug (f # fs) s)))" unfolding g_def by (rule graft_offs [OF S])
  from split_parent [OF S dis, folded g_def] show ?case
  proof (elim disjE exE conjE)
    fix t' assume t': "bt_parent_insert (frame_off f) (split_sep s) (root_off s) (bt_size t) t1 = Some (t', Inr None)" "healthy t'"
      "bt_size t' = bt_size t1" "mem_get 0 32 (get_node t' 0) = mem_get 0 32 (get_node t1 0)" "sound {} t' (plug fs g)" "keeps {frame_off f} t1 t'"
    then have "btree_tree ok_key fp dtype t' (plug fs g)" using io h1 header_ok_low [OF t'(4)] by (simp add: btree_tree_def)
    moreover have "extends t t' (plug (f # fs) s) (plug fs g)"
      using keeps_trans [OF D(12) t'(6)] frame_in_offs [of f fs s] gs by (simp add: extends_def del: plug.simps)
    ultimately show ?thesis using step t'(1,3) D(4) ent ht by (intro exI [of _ t'] exI [of _ "plug fs g"]) auto
  next
    fix t' assume t': "bt_parent_insert (frame_off f) (split_sep s) (root_off s) (bt_size t) t1 = Some (t', Inr (Some (own_pairs g, own_ov g)))"
      "kept t1 t'" "sound {frame_off f} t' (plug fs g)" "ready g"
    have k: "healthy t'" "bt_size t' = bt_size t + 1024" using t'(2) D(4) by (simp_all add: kept_def)
    have rg: "root_off g = frame_off f" by (simp add: g_def graft_facts(1))
    have "header_ok t' dtype (root_off (plug fs g))" "bt_size t' + 1024 * (length fs + 2) < 2 ^ 32"
      using h1 kept_header [OF t'(2)] k(2) P(7) by simp_all
    from Cons.IH [OF k(1) _ io t'(4) P(5) this] t'(3) rg obtain t2 tr2 where
      "agfs_btree_split hdr (frame_off f # map frame_off fs) (own_pairs g) (length (own_pairs g) div 2) (own_ov g) depth t' = Some (t2, Inr ())"
      "btree_tree ok_key fp dtype t2 tr2" "bt_entries tr2 = bt_entries (plug fs g)" "\<forall>d. bt_bal d True (plug fs g) \<longrightarrow> bt_bal d True tr2 \<or> bt_bal (Suc d) True tr2"
      "bt_size t2 \<le> bt_size t' + 1024 * (length fs + 2)" and ex: "extends t' t2 (plug fs g) tr2" by auto
    moreover have "keeps {} t1 t'" using t'(2) by (simp add: kept_def keeps_def)
    then have "keeps (set (bt_offs (plug (f # fs) s))) t t'" using keeps_trans [OF D(12)] by simp
    then have "extends t t2 (plug (f # fs) s) tr2"
      using keeps_trans [of _ t t' _ t2] ex gs k(2) by (fastforce simp: extends_def simp del: plug.simps)
    ultimately show ?thesis using step t'(1) k(2) ent ht by (intro exI [of _ t2] exI [of _ tr2]) auto
  qed
qed

end

end
