(* ===== verification/Btree_Ops.thy ===== *)
theory Btree_Ops
  imports Btree_Split
begin

text \<open>
  The operations on a tree that is held as \<open>Btree_Rep\<close> says: insertion, deletion, iteration and deletion
  by inode number give exactly the change of the list of entries, and keep the representation.
\<close>

subsection \<open>Insertion\<close>

lemma bt_height_pos: "1 \<le> bt_height tr"
  by (cases tr) auto

lemma bal_leaf: "bt_bal d r (plug fs (BL off kvs)) = bt_bal d r (plug fs (BL off kvs'))"
  by (rule iffI; rule bt_bal_plug) simp_all

lemma height_plug1: "Suc (bt_height s) \<le> bt_height (plug1 f s)"
proof -
  obtain off cs l where f: "plug1 f s = BN off cs l" "s \<in> insert l (fst ` set cs)" by (cases f) force+
  obtain d where d: "bt_height (BN off cs l) = Suc d" by simp
  then show ?thesis using f bt_height_children [of off cs l d] by auto
qed

lemma height_depth: "length fs + 1 \<le> bt_height (plug fs s)"
proof -
  have "length fs + bt_height s \<le> bt_height (plug fs s)"
  proof (induction fs arbitrary: s)
    case (Cons f fs)
    have "Suc (length fs + bt_height s) \<le> length fs + bt_height (plug1 f s)" using height_plug1 [of s f] by simp
    also have "\<dots> \<le> bt_height (plug fs (plug1 f s))" by (rule Cons.IH)
    finally show ?case by simp
  qed simp
  then show ?thesis using bt_height_pos [of s] by linarith
qed

lemma leaf_room:
  assumes "node_is n l r ov kvs" "kvs' = A @ (key, v) # B" "kvs = A @ B"
  shows "agfs_btree_node_room n (length key) \<longleftrightarrow> pairs_size kvs' \<le> 1024"
proof -
  have "28 + nd_key_length n + length key = 28 + keys_length kvs'" using assms by (simp add: node_is_fields [OF assms(1)])
  moreover have "nd_count n + 1 = length kvs'" "nd_count n \<le> 99" using assms node_isD(8) [OF assms(1)] by (simp_all add: node_is_fields [OF assms(1)])
  ultimately show ?thesis unfolding agfs_btree_node_room_def pairs_size_def Let_def by (simp only:) auto
qed

context key_order
begin

lemma collect_absent:
  assumes "node_is n l r ov (A @ B)" "keys_ok ok_key lt (A @ B)" "ok_key key"
    "\<forall>p \<in> set A. lt (fst p) key" "\<forall>p \<in> set B. lt key (fst p)"
  shows "agfs_btree_collect_t fp dtype n (AGFS_BTREE_MAX_PAIRS + 2) (Some (key, v)) = Some (A @ (key, v) # B)"
  using bt_insert_index_absent [OF assms(2-5), of 0] node_isD(8) [OF assms(1)]
  by (simp add: agfs_btree_collect_t_def node_is_pairs [OF assms(1)] node_is_fields [OF assms(1)])

lemma collect_present:
  assumes "node_is n l r ov ps" "keys_ok ok_key lt ps" "key \<in> fst ` set ps"
  shows "agfs_btree_collect_t fp dtype n (AGFS_BTREE_MAX_PAIRS + 2) (Some (key, v)) = None"
  using bt_insert_index_present [OF assms(2,3), of 0]
  by (simp add: agfs_btree_collect_t_def node_is_pairs [OF assms(1)])

end

context tree_keys
begin

text \<open>The call reaches the leaf where the key belongs.\<close>

lemma insert_run:
  assumes "btree_tree ok_key fp dtype t tr" "ok_key key" "bt_height tr \<le> 16"
  obtains fs off kvs l r where "tr = plug fs (BL off kvs)" "fits lt key (flat_l fs) (flat_r fs)"
    "node_is (get_node t off) l r AGFS_BTREE_NULL kvs" "keys_ok ok_key lt kvs" "place_ok t off"
    "agfs_btree_insert_impl fp key v dtype t =
       bt_insert_new fp (mem_get 0 40 (get_node t 0)) (rev (off # map frame_off fs)) key v dtype (get_node t off) t"
proof -
  note T = assms(1) [unfolded btree_tree_def]
  obtain fs off kvs l r where p: "tr = plug fs (BL off kvs)" "fits lt key (flat_l fs) (flat_r fs)"
    "agfs_btree_descend_t 16 fp t dtype key (root_off tr) = Inr (rev (off # map frame_off fs))"
    "node_is (get_node t off) l r AGFS_BTREE_NULL kvs" "agfs_btree_read_node t off = Some (get_node t off)"
    "keys_ok ok_key lt kvs" "place_ok t off" by (rule descend_tree [OF assms])
  have "agfs_btree_insert_impl fp key v dtype t =
      bt_insert_new fp (mem_get 0 40 (get_node t 0)) (rev (off # map frame_off fs)) key v dtype (get_node t off) t"
    using read_header_ok [of t dtype "root_off tr"] T p(3,5) key_len [OF assms(2)] by (simp add: agfs_btree_insert_impl_def)
  then show thesis using that p by blast
qed

lemma insert_in_place:
  assumes "btree_tree ok_key fp dtype t (plug fs (BL off (A @ B)))" "node_is (get_node t off) l r AGFS_BTREE_NULL (A @ B)"
    "keys_ok ok_key lt (A @ B)" "place_ok t off" "fits lt key (flat_l fs) (flat_r fs)" "ok_key key" "v < 2 ^ 64"
    "\<forall>p \<in> set A. lt (fst p) key" "\<forall>p \<in> set B. lt key (fst p)" "pairs_size (A @ (key, v) # B) \<le> 1024"
  shows "\<exists>t'. bt_insert_new fp hdr (rev (off # map frame_off fs)) key v dtype (get_node t off) t = Some (t', Inr ()) \<and>
    btree_tree ok_key fp dtype t' (plug fs (BL off (A @ (key, v) # B))) \<and> bt_size t' = bt_size t \<and> keeps {off} t t'"
proof -
  note T = assms(1) [unfolded btree_tree_def]
  define kvs' where "kvs' = A @ (key, v) # B"
  have sz: "pairs_size kvs' \<le> 1024" using assms(10) by (simp add: kvs'_def)
  have ht: "healthy t" using T by simp
  obtain t' where t': "bt_serialize off kvs' AGFS_BTREE_NULL r l t = Some t'" "wrote t t' off (node_build l r AGFS_BTREE_NULL kvs')"
    by (rule bt_serialize_wrote [OF ht sz])
  have "agfs_btree_node_room (get_node t off) (length key)" using leaf_room [OF assms(2) refl refl, of key v] assms(10) by simp
  then have run: "bt_insert_new fp hdr (rev (off # map frame_off fs)) key v dtype (get_node t off) t = Some (bt_log off t', Inr ())"
    using collect_absent [OF assms(2,3,6,8,9)] t'(1) node_isD(7) [OF assms(2)]
    by (simp add: bt_insert_new_def node_is_fields [OF assms(2)] node_is_pairs [OF assms(2)] kvs'_def)
  have w: "wrote t (bt_log off t') off (node_build l r AGFS_BTREE_NULL kvs')" by (rule wrote_log [OF t'(2)])
  note o = place_distinct [OF ht assms(4)]
  have "\<forall>p \<in> set kvs'. snd p < 2 ^ 64" using node_isD(5) [OF assms(2)] assms(7) by (auto simp: kvs'_def)
  then have nd: "node_is (get_node (bt_log off t') off) l r AGFS_BTREE_NULL kvs'"
    using w node_build_is [OF sz] node_isD(2,3) [OF assms(2)] by (simp add: wrote_def)
  have sd: "sound {} t (plug fs (BL off (A @ B)))" using T by simp
  have "sound {} (bt_log off t') (plug fs (BL off kvs'))"
    by (rule replace_leaf [OF sd assms(2) nd])
      (use w o place_distinct(1) [OF ht] sd in \<open>auto simp: wrote_def shape_def\<close>)
  moreover have "items_ok ok_key lt (bt_flat (plug fs (BL off kvs')))"
    using items_ok_insert [OF _ assms(5,6,8,9)] T by (simp add: flat_plug kvs'_def)
  moreover have "header_ok (bt_log off t') dtype (root_off (plug fs (BL off kvs')))"
    using T w o header_ok_cong [of "bt_log off t'" t] by (simp add: wrote_def root_off_plug split: if_splits)
  moreover have "keeps {off} t (bt_log off t')" by (rule wrote_keeps [OF ht w assms(4)]) simp
  ultimately show ?thesis using run w by (intro exI [of _ "bt_log off t'"]) (simp add: btree_tree_def wrote_def kvs'_def)
qed

lemma insert_split:
  assumes "btree_tree ok_key fp dtype t (plug fs (BL off (A @ B)))" "node_is (get_node t off) l r AGFS_BTREE_NULL (A @ B)"
    "keys_ok ok_key lt (A @ B)" "place_ok t off" "fits lt key (flat_l fs) (flat_r fs)" "ok_key key" "v < 2 ^ 64"
    "\<forall>p \<in> set A. lt (fst p) key" "\<forall>p \<in> set B. lt key (fst p)" "pairs_size (A @ (key, v) # B) > 1024"
    "bt_size t + 1024 * (length fs + 2) < 2 ^ 32"
  shows "\<exists>t' tr'. bt_insert_new fp (mem_get 0 40 (get_node t 0)) (rev (off # map frame_off fs)) key v dtype (get_node t off) t
      = Some (t', Inr ()) \<and>
    btree_tree ok_key fp dtype t' tr' \<and> bt_entries tr' = bt_entries (plug fs (BL off (A @ (key, v) # B))) \<and>
    (\<forall>d. bt_bal d True (plug fs (BL off (A @ B))) \<longrightarrow> bt_bal d True tr' \<or> bt_bal (Suc d) True tr') \<and>
    bt_size t' \<le> bt_size t + 1024 * (length fs + 2) \<and> extends t t' (plug fs (BL off (A @ B))) tr'"
proof -
  note T = assms(1) [unfolded btree_tree_def]
  define kvs' where "kvs' = A @ (key, v) # B"
  have ht: "healthy t" and sd: "sound {} t (plug fs (BL off (A @ B)))" using T by simp_all
  have "\<not> agfs_btree_node_room (get_node t off) (length key)" using leaf_room [OF assms(2) refl refl, of key v] assms(10) by simp
  then have run: "bt_insert_new fp (mem_get 0 40 (get_node t 0)) (rev (off # map frame_off fs)) key v dtype (get_node t off) t =
      agfs_btree_split (mem_get 0 40 (get_node t 0)) (off # map frame_off fs) kvs' (length kvs' div 2) AGFS_BTREE_NULL (Suc (length fs)) t"
    using collect_absent [OF assms(2,3,6,8,9)] node_isD(7) [OF assms(2)]
    by (simp add: bt_insert_new_def node_is_pairs [OF assms(2)] kvs'_def)
  have io: "items_ok ok_key lt (bt_flat (plug fs (BL off kvs')))"
    using items_ok_insert [OF _ assms(5,6,8,9)] T by (simp add: flat_plug kvs'_def)
  have hole: "sound {root_off (BL off kvs')} t (plug fs (BL off kvs'))"
    using sd by (auto simp: shape_def descs_plug leaf_offs_plug set_offs_plug plug_distinct)
  have len: "length key \<le> 88" using key_len [OF assms(6)] by simp
  have "keys_length kvs' + 10 * length kvs' \<le> 1094"
    using pairs_size_bounds(1) [of "A @ B"] node_isD(6) [OF assms(2)] len by (simp add: kvs'_def)
  moreover have "2 \<le> length kvs'" using assms(10) len pairs_size_bounds(2) [of "A @ (key, v) # B"] by (cases A; cases B) (auto simp: kvs'_def)
  ultimately have rd: "ready (BL off kvs')" using node_isD(5) [OF assms(2)] assms(7) by (auto simp: ready_def kvs'_def)
  have hdr: "hdr_ok (mem_get 0 40 (get_node t 0)) dtype"
    using T length_get_node [OF ht, of 0] by (simp add: hdr_ok_def header_ok_def header_fields hd_magic_def hd_node_size_def mem_get_get)
  have root: "header_ok t dtype (root_off (plug fs (BL off kvs')))" using T by (simp add: root_off_plug split: if_splits)
  have "extends t t' (plug fs (BL off kvs')) tr' = extends t t' (plug fs (BL off (A @ B))) tr'" for t' tr'
    by (simp add: extends_def set_offs_plug)
  with split_tree [OF ht hole io rd hdr root assms(11), of "Suc (length fs)"] run show ?thesis
    unfolding bal_leaf [of _ _ fs off kvs' "A @ B"] by (auto simp: kvs'_def)
qed

lemma insert_tree:
  assumes "btree_tree ok_key fp dtype t tr" "ok_key key" "v < 2 ^ 64" "bt_height tr \<le> 16" "bt_size t + 1024 * (bt_height tr + 1) < 2 ^ 32"
  shows "if key \<in> fst ` set (bt_entries tr) then agfs_btree_insert_impl fp key v dtype t = Some (t, Inl EEXIST)
    else \<exists>t' tr'. agfs_btree_insert_impl fp key v dtype t = Some (t', Inr ()) \<and> btree_tree ok_key fp dtype t' tr' \<and>
      bt_entries tr' = kv_insert lt key v (bt_entries tr) \<and>
      (\<forall>d. bt_bal d True tr \<longrightarrow> bt_bal d True tr' \<or> bt_bal (Suc d) True tr') \<and>
      bt_size t' \<le> bt_size t + 1024 * (bt_height tr + 1) \<and> extends t t' tr tr'"
proof -
  note T = assms(1) [unfolded btree_tree_def]
  obtain fs off kvs l r where p: "tr = plug fs (BL off kvs)" "fits lt key (flat_l fs) (flat_r fs)"
    "node_is (get_node t off) l r AGFS_BTREE_NULL kvs" "keys_ok ok_key lt kvs" "place_ok t off"
    "agfs_btree_insert_impl fp key v dtype t =
       bt_insert_new fp (mem_get 0 40 (get_node t 0)) (rev (off # map frame_off fs)) key v dtype (get_node t off) t"
    by (rule insert_run [OF assms(1,2,4)])
  have io: "items_ok ok_key lt (flat_l fs @ kv_items kvs @ flat_r fs)" using T by (simp add: p(1) flat_plug)
  have ent: "fst ` set (bt_entries tr) = fst ` set (items_entries (flat_l fs)) \<union> fst ` set kvs \<union> fst ` set (items_entries (flat_r fs))"
    unfolding p(1) entries_plug by (auto simp: image_Un)
  have mem: "key \<in> fst ` set (bt_entries tr) \<longleftrightarrow> key \<in> fst ` set kvs"
    unfolding ent using others_lack [OF io p(2) assms(2)] by blast
  show ?thesis
  proof (cases rule: keys_split [OF p(4) assms(2)])
    case (1 A v' B)
    then have "key \<in> fst ` set kvs" by simp
    then show ?thesis using mem p(6) collect_present [OF p(3,4), of key v] node_isD(7) [OF p(3)]
      by (simp add: bt_insert_new_def node_is_pairs [OF p(3)])
  next
    case (2 A B)
    have ent': "bt_entries (plug fs (BL off (A @ (key, v) # B))) = kv_insert lt key v (bt_entries tr)"
      unfolding p(1) entries_plug 2(1) by (rule entries_insert [OF _ p(2) assms(2) 2(2,3)]) (use io 2(1) in simp)
    have dep: "length fs + 1 \<le> bt_height tr" unfolding p(1) by (rule height_depth)
    note P = assms(1) [unfolded p(1) 2(1)] p(3,4) [unfolded 2(1)] p(5,2) assms(2,3) 2(2,3)
    have room: "bt_size t + 1024 * (length fs + 2) < 2 ^ 32" using assms(5) dep by simp
    show ?thesis
    proof (cases "pairs_size (A @ (key, v) # B) \<le> 1024")
      case True
      have "bt_bal d True tr \<Longrightarrow> bt_bal d True (plug fs (BL off (A @ (key, v) # B)))" for d
        unfolding p(1) by (simp add: bal_leaf [of d True fs off "A @ (key, v) # B" kvs])
      moreover have "extends t t' tr (plug fs (BL off (A @ (key, v) # B)))" if "keeps {off} t t'" for t'
        using keeps_mono [OF that] by (auto simp: extends_def p(1) set_offs_plug)
      ultimately show ?thesis using insert_in_place [OF P True, of "mem_get 0 40 (get_node t 0)"] mem 2(4) p(6) ent'
        by (auto intro!: exI [of _ "plug fs (BL off (A @ (key, v) # B))"])
    next
      case False
      then have "pairs_size (A @ (key, v) # B) > 1024" by simp
      from insert_split [OF P this room] show ?thesis using mem 2(4) p(6) ent' dep unfolding p(1) 2(1) by fastforce
    qed
  qed
qed

end

subsection \<open>Deletion\<close>

text \<open>A leaf gives up one pair.\<close>

lemma remove_pair:
  assumes "healthy t" "sound {} t (plug fs (BL off (A @ p # B)))" "node_is (get_node t off) l r AGFS_BTREE_NULL (A @ p # B)" "place_ok t off"
  defines "t' \<equiv> bt_log off (put_node off (agfs_btree_remove_at (get_node t off) (length A)) (t\<lparr>bt_dirty := True\<rparr>))"
  shows "healthy t'" "sound {} t' (plug fs (BL off (A @ B)))" "get_node t' 0 = get_node t 0" "bt_size t' = bt_size t"
proof -
  define n where "n = agfs_btree_remove_at (get_node t off) (length A)"
  have nd: "node_is n l r AGFS_BTREE_NULL (A @ B)" unfolding n_def by (rule agfs_btree_remove_at_is [OF assms(3)])
  have w: "wrote (t\<lparr>bt_dirty := True\<rparr>) t' off n"
    unfolding t'_def n_def [symmetric] using healthy_frame(4) [OF assms(1)] node_isD(1) [OF nd] by (intro wrote_log wrote_put)
  note o = place_distinct [OF assms(1,4)]
  show "healthy t'" "bt_size t' = bt_size t" using w by (simp_all add: wrote_def)
  show "get_node t' 0 = get_node t 0" using w o by (simp add: wrote_def)
  have "node_is (get_node t' off) l r AGFS_BTREE_NULL (A @ B)" using w nd by (simp add: wrote_def)
  then show "sound {} t' (plug fs (BL off (A @ B)))"
    by (rule replace_leaf [OF assms(2,3)]) (use w o place_distinct(1) [OF assms(1)] assms(2) in \<open>auto simp: wrote_def shape_def\<close>)
qed

lemma items_ok_remove: "items_ok ok_key lt (L @ kv_items (A @ p # B) @ R) \<Longrightarrow> items_ok ok_key lt (L @ kv_items (A @ B) @ R)"
  by (auto simp: items_ok_append items_ok_Cons kv_items_def)

lemma filter_absent: "key \<notin> fst ` set ps \<Longrightarrow> filter (\<lambda>p. fst p \<noteq> key) ps = ps"
  by (auto intro!: filter_True)

lemma header_ok_leaf: "header_ok t dtype (root_off (plug fs (BL off kvs))) = header_ok t dtype (root_off (plug fs (BL off kvs')))"
  by (simp add: root_off_plug)

lemma btree_tree_remove:
  assumes "btree_tree ok_key fp dtype t (plug fs (BL off (A @ p # B)))" "node_is (get_node t off) l r AGFS_BTREE_NULL (A @ p # B)" "place_ok t off"
  shows "btree_tree ok_key fp dtype (bt_log off (put_node off (agfs_btree_remove_at (get_node t off) (length A)) (t\<lparr>bt_dirty := True\<rparr>)))
    (plug fs (BL off (A @ B)))"
proof -
  note T = assms(1) [unfolded btree_tree_def]
  have ht: "healthy t" and sd: "sound {} t (plug fs (BL off (A @ p # B)))" using T by simp_all
  note r = remove_pair [OF ht sd assms(2,3)]
  show ?thesis
    unfolding btree_tree_def header_ok_cong [OF r(3)]
    using r T header_ok_leaf [of t dtype fs off "A @ B" "A @ p # B"]
      items_ok_remove [of ok_key "key_lt fp dtype" "flat_l fs" A p B "flat_r fs"] by (simp add: flat_plug)
qed

context tree_keys
begin

lemma delete_tree:
  assumes "btree_tree ok_key fp dtype t tr" "ok_key key" "bt_height tr \<le> 16"
  shows "if key \<in> fst ` set (bt_entries tr)
    then \<exists>t' tr'. agfs_btree_delete_impl fp key t = (t', Inr ()) \<and> btree_tree ok_key fp dtype t' tr' \<and>
      bt_entries tr' = filter (\<lambda>p. fst p \<noteq> key) (bt_entries tr) \<and> (\<forall>d r. bt_bal d r tr' = bt_bal d r tr) \<and> bt_size t' = bt_size t
    else agfs_btree_delete_impl fp key t = (t, Inl ENOENT)"
proof -
  note T = assms(1) [unfolded btree_tree_def]
  obtain fs off kvs l r where p: "tr = plug fs (BL off kvs)" "fits lt key (flat_l fs) (flat_r fs)"
    "agfs_btree_descend_t 16 fp t dtype key (root_off tr) = Inr (rev (off # map frame_off fs))"
    "node_is (get_node t off) l r AGFS_BTREE_NULL kvs" "agfs_btree_read_node t off = Some (get_node t off)"
    "keys_ok ok_key lt kvs" "place_ok t off" by (rule descend_tree [OF assms])
  have io: "items_ok ok_key lt (flat_l fs @ kv_items kvs @ flat_r fs)" using T by (simp add: p(1) flat_plug)
  note lack = others_lack [OF io p(2) assms(2)]
  have ent: "fst ` set (bt_entries tr) = fst ` set (items_entries (flat_l fs)) \<union> fst ` set kvs \<union> fst ` set (items_entries (flat_r fs))"
    unfolding p(1) entries_plug by (auto simp: image_Un)
  then have mem: "key \<in> fst ` set (bt_entries tr) \<longleftrightarrow> key \<in> fst ` set kvs" using lack by blast
  have run: "agfs_btree_delete_impl fp key t =
      (case agfs_btree_search_node_t fp dtype (get_node t off) key of
         Inl _ \<Rightarrow> (t, Inl ENOENT)
       | Inr index \<Rightarrow> (bt_log off (put_node off (agfs_btree_remove_at (get_node t off) index) (t\<lparr>bt_dirty := True\<rparr>)), Inr ()))"
    using read_header_ok [of t dtype "root_off tr"] T p(3,5) key_len [OF assms(2)]
    by (simp add: agfs_btree_delete_impl_def split: sum.split)
  show ?thesis
  proof (cases rule: keys_split [OF p(6) assms(2)])
    case (1 A v B)
    note P = p(4,6) [unfolded 1]
    have "key \<notin> fst ` set A" "key \<notin> fst ` set B" using P(2) lt_irrefl [OF assms(2)] by (auto simp: keys_ok_append keys_ok_Cons)
    then have "filter (\<lambda>p. fst p \<noteq> key) (bt_entries tr) = bt_entries (plug fs (BL off (A @ B)))"
      unfolding p(1) entries_plug 1 using lack by (simp add: filter_absent)
    then show ?thesis
      using run mem agfs_btree_search_node_present [OF P] btree_tree_remove [OF assms(1) [unfolded p(1) 1] P(1) p(7)]
        bal_leaf [of _ _ fs off "A @ B" "A @ (key, v) # B"] by (auto simp: p(1) 1)
  next
    case (2 A B)
    then show ?thesis
      using run mem agfs_btree_search_node_absent [OF p(4,6) [unfolded 2(1)] assms(2) 2(2,3)] by simp
  qed
qed

end

subsection \<open>Iteration\<close>

fun bt_leaves :: "bt \<Rightarrow> (nat \<times> bpair list) list" where
  "bt_leaves (BL off kvs) = [(off, kvs)]"
| "bt_leaves (BN off cs l) = concat (map (\<lambda>x. bt_leaves (fst x)) cs) @ bt_leaves l"

lemma leaf_offs_leaves: "leaf_offs tr = map fst (bt_leaves tr)"
proof (induction tr rule: bt_tree_induct)
  case (Node off cs l)
  have "leafs cs = map fst (concat (map (\<lambda>x. bt_leaves (fst x)) cs))" using Node(1) by (simp add: map_concat cong: map_cong)
  then show ?case using Node(2) by simp
qed simp

lemma items_entries_simps: "items_entries [] = []" "items_entries ((k, None) # its) = items_entries its"
  by (simp_all add: items_entries_def)

lemma bt_entries_leaves: "bt_entries tr = concat (map snd (bt_leaves tr))"
proof (induction tr rule: bt_tree_induct)
  case (Leaf off kvs)
  then show ?case by (simp add: bt_entries_def items_entries_kv)
next
  case (Node off cs l)
  have "items_entries (flats cs) = concat (map snd (concat (map (\<lambda>x. bt_leaves (fst x)) cs)))"
    using Node(1) by (induction cs) (simp_all add: bt_entries_def items_entries_simps items_entries_append)
  then show ?case using Node(2) by (simp add: bt_entries_def items_entries_append)
qed

lemma leaf_ctx: "(off, kvs) \<in> set (bt_leaves tr) \<Longrightarrow> \<exists>fs. tr = plug fs (BL off kvs)"
proof (induction tr rule: bt_tree_induct)
  case (Leaf o2 k2)
  then show ?case by (intro exI [of _ "[]"]) simp
next
  case (Node o2 cs l)
  from Node.prems consider x where "x \<in> set cs" "(off, kvs) \<in> set (bt_leaves (fst x))" | "(off, kvs) \<in> set (bt_leaves l)" by auto
  then show ?case
  proof cases
    case (1 x)
    obtain ls rs where cs: "cs = ls @ x # rs" using 1(1) by (metis split_list)
    obtain fs where "fst x = plug fs (BL off kvs)" using Node.IH(1) 1 by blast
    then have "cs = ls @ (plug fs (BL off kvs), snd x) # rs" using cs by (metis prod.collapse)
    then show ?thesis by (intro exI [of _ "fs @ [FC o2 ls (snd x) rs l]"]) (simp add: plug_append)
  next
    case 2
    then obtain fs where "l = plug fs (BL off kvs)" using Node.IH(2) by blast
    then show ?thesis by (intro exI [of _ "fs @ [FO o2 cs]"]) (simp add: plug_append)
  qed
qed

lemma leaf_descs: "(off, kvs) \<in> set (bt_leaves tr) \<Longrightarrow> (off, AGFS_BTREE_NULL, kvs) \<in> bt_descs tr"
  using leaf_ctx [of off kvs tr] by (auto simp: descs_plug)

lemma leaf_offs_nonempty: "leaf_offs tr \<noteq> []"
  by (induction tr rule: bt_tree_induct) auto

lemma leftmost_tree:
  assumes "healthy t" "\<forall>d \<in> bt_descs tr. desc_ok t d" "\<forall>x \<in> set (bt_offs tr). place_ok t x"
  shows "bt_leftmost t (root_off tr) = Some (Inr (hd (leaf_offs tr)))"
  using assms(2,3)
proof (induction tr rule: bt_tree_induct)
  case (Leaf off kvs)
  obtain l r where "node_is (get_node t off) l r AGFS_BTREE_NULL kvs" using Leaf(1) by (auto elim: desc_okD)
  then show ?case using read_place [OF _ assms(1), of off] Leaf(2) by (subst bt_leftmost.simps) (simp add: node_is_fields)
next
  case (Node off cs l)
  obtain lf r where n: "node_is (get_node t off) lf r (root_off l) (child_pairs cs)" using Node.prems(1) by (auto elim: desc_okD)
  have rd: "agfs_btree_read_node t off = Some (get_node t off)" using read_place [OF _ assms(1), of off] Node.prems(2) by simp
  have nn: "root_off l \<noteq> AGFS_BTREE_NULL" using place_not_null [OF _ assms(1)] Node.prems(2) by auto
  show ?case
  proof (cases cs)
    case Nil
    then show ?thesis using rd nn Node node_is_fields [OF n] by (subst bt_leftmost.simps) simp
  next
    case (Cons x cs')
    have "nd_value (get_node t off) 0 = root_off (fst x)" "nd_count (get_node t off) \<noteq> 0"
      using node_is_value [OF n, of 0] node_is_fields [OF n] by (simp_all add: Cons child_pairs_def)
    then have "bt_leftmost t off = bt_leftmost t (root_off (fst x))"
      using rd nn node_is_fields [OF n] by (subst bt_leftmost.simps) simp
    moreover have "bt_leftmost t (root_off (fst x)) = Some (Inr (hd (leaf_offs (fst x))))"
      using Node.prems Cons by (intro Node.IH(1)) auto
    ultimately show ?thesis using leaf_offs_nonempty [of "fst x"] by (simp add: Cons)
  qed
qed

text \<open>The walk over the entries until the callback stops it.\<close>

fun kv_walk :: "(bkey \<Rightarrow> nat \<Rightarrow> 's \<Rightarrow> 's \<times> bool) \<Rightarrow> bpair list \<Rightarrow> 's \<Rightarrow> 's \<times> bool" where
  "kv_walk fn [] s = (s, False)"
| "kv_walk fn ((k, v) # ps) s = (case fn k (v mod 2 ^ 32) s of (s', stop) \<Rightarrow> if stop then (s', True) else kv_walk fn ps s')"

lemma kv_walk_append:
  "kv_walk fn (ps @ qs) s = (case kv_walk fn ps s of (s', stop) \<Rightarrow> if stop then (s', True) else kv_walk fn qs s')"
  by (induction fn ps s rule: kv_walk.induct) (auto split: prod.split)

lemma bt_iter_pairs_walk:
  "\<forall>p \<in> set ps. length (fst p) < 256 \<Longrightarrow> bt_iter_pairs fn ps s = (fst (kv_walk fn ps s), Inr (snd (kv_walk fn ps s)))"
  by (induction fn ps s rule: kv_walk.induct) (auto split: prod.split)

lemma iter_chain:
  assumes "healthy t" "chain t l (map fst lvs) AGFS_BTREE_NULL" "lvs \<noteq> []"
    "\<forall>x \<in> set lvs. desc_ok t (fst x, AGFS_BTREE_NULL, snd x) \<and> place_ok t (fst x) \<and> (\<forall>p \<in> set (snd x). length (fst p) < 256)"
  shows "bt_iter_leaves t fn (fst (hd lvs)) s = Some (fst (kv_walk fn (concat (map snd lvs)) s), None)"
  using assms(2-)
proof (induction lvs arbitrary: l s)
  case (Cons x lvs)
  obtain off kvs where x: "x = (off, kvs)" by (cases x)
  have d: "desc_ok t (off, AGFS_BTREE_NULL, kvs)" and pl: "place_ok t off" and len: "\<forall>p \<in> set kvs. length (fst p) < 256"
    using Cons.prems(3) by (auto simp: x)
  obtain lf r where n: "node_is (get_node t off) lf r AGFS_BTREE_NULL kvs" by (rule desc_okD [OF d])
  have right: "nd_right (get_node t off) = hd (map fst lvs @ [AGFS_BTREE_NULL])" using Cons.prems(1) by (simp add: x)
  obtain s' stop where w: "kv_walk fn kvs s = (s', stop)" by (cases "kv_walk fn kvs s")
  have step: "bt_iter_leaves t fn off s =
      (if stop \<or> nd_right (get_node t off) = AGFS_BTREE_NULL then Some (s', None) else bt_iter_leaves t fn (nd_right (get_node t off)) s')"
    using read_place [OF pl assms(1)] bt_iter_pairs_walk [OF len, of fn s] w
    by (subst bt_iter_leaves.simps) (simp add: node_is_fields [OF n] node_is_pairs [OF n])
  show ?case
  proof (cases lvs)
    case Nil
    then show ?thesis using step right w by (auto simp: x)
  next
    case (Cons y ys)
    have "place_ok t (fst y)" using Cons.prems(3) by (simp add: Cons)
    then have nn: "fst y \<noteq> AGFS_BTREE_NULL" using place_not_null assms(1) by blast
    have "bt_iter_leaves t fn (fst (hd lvs)) s' = Some (fst (kv_walk fn (concat (map snd lvs)) s'), None)"
      using Cons.prems Cons by (intro Cons.IH [of off]) (auto simp: x)
    then show ?thesis using step right nn w by (simp add: x Cons kv_walk_append)
  qed
qed simp

lemma sound_leaves:
  assumes "sound {} t tr" "x \<in> set (bt_leaves tr)"
  shows "desc_ok t (fst x, AGFS_BTREE_NULL, snd x)" "place_ok t (fst x)"
proof -
  have "(fst x, AGFS_BTREE_NULL, snd x) \<in> bt_descs tr" using assms(2) by (intro leaf_descs) simp
  then show "desc_ok t (fst x, AGFS_BTREE_NULL, snd x)" using assms(1) by (auto simp: shape_def)
  have "fst x \<in> set (leaf_offs tr)" using assms(2) by (simp add: leaf_offs_leaves)
  then show "place_ok t (fst x)" using assms(1) by (auto simp: shape_def)
qed

lemma leftmost_sound:
  assumes "healthy t" "sound {} t tr"
  shows "bt_leftmost t (root_off tr) = Some (Inr (fst (hd (bt_leaves tr))))"
  using leftmost_tree [OF assms(1) soundD [OF assms(2)]] leaf_offs_nonempty [of tr] by (simp add: leaf_offs_leaves hd_map)

context tree_keys
begin

lemma iterate_tree:
  assumes "btree_tree ok_key fp dtype t tr"
  shows "agfs_btree_iterate t fn s = Some (fst (kv_walk fn (bt_entries tr) s), None)"
proof -
  note T = assms [unfolded btree_tree_def]
  have ht: "healthy t" and sd: "sound {} t tr" using T by simp_all
  have ne: "bt_leaves tr \<noteq> []" using leaf_offs_nonempty [of tr] by (simp add: leaf_offs_leaves)
  have len: "length (fst p) < 256" if "p \<in> set (bt_entries tr)" for p
  proof -
    have "(fst p, Some (snd p)) \<in> set (bt_flat tr)" using that items_entries_keys [of "fst p" "snd p"] by (simp add: bt_entries_def)
    then have "ok_key (fst p)" using T by (auto simp: items_ok_def)
    then show ?thesis using key_len by fastforce
  qed
  have len': "\<forall>p \<in> set (snd x). length (fst p) < 256" if "x \<in> set (bt_leaves tr)" for x
    using len that unfolding bt_entries_leaves by fastforce
  have "chain t AGFS_BTREE_NULL (map fst (bt_leaves tr)) AGFS_BTREE_NULL"
    using sd by (simp add: shape_def leaf_offs_leaves)
  then have "bt_iter_leaves t fn (fst (hd (bt_leaves tr))) s = Some (fst (kv_walk fn (concat (map snd (bt_leaves tr))) s), None)"
    using sound_leaves [OF sd] len' by (intro iter_chain [OF ht _ ne]) blast+
  then show ?thesis
    using read_header_ok [of t dtype "root_off tr"] T leftmost_sound [OF ht sd]
    by (simp add: agfs_btree_iterate_def bt_entries_leaves)
qed

end

subsection \<open>Deletion by inode\<close>

fun kv_remove_ino :: "nat \<Rightarrow> bpair list \<Rightarrow> bpair list" where
  "kv_remove_ino ino [] = []"
| "kv_remove_ino ino (p # ps) = (if snd p = ino then ps else p # kv_remove_ino ino ps)"

lemma kv_remove_ino_append:
  "kv_remove_ino ino (ps @ qs) = (if ino \<in> snd ` set ps then kv_remove_ino ino ps @ qs else ps @ kv_remove_ino ino qs)"
  by (induction ps) auto

abbreviation leaf_at :: "btree \<Rightarrow> nat \<times> bpair list \<Rightarrow> bool" where
  "leaf_at t x \<equiv> desc_ok t (fst x, AGFS_BTREE_NULL, snd x) \<and> place_ok t (fst x)"

lemma delete_ino_step:
  assumes "healthy t" "leaf_at t x"
  shows "bt_delete_ino_leaves ino (fst x) t =
    (case bt_value_index ino 0 (snd x) of
       Some i \<Rightarrow> Some (bt_log (fst x) (put_node (fst x) (agfs_btree_remove_at (get_node t (fst x)) i) (t\<lparr>bt_dirty := True\<rparr>)), Inr ())
     | None \<Rightarrow> if nd_right (get_node t (fst x)) = AGFS_BTREE_NULL then Some (t, Inl ENOENT)
         else bt_delete_ino_leaves ino (nd_right (get_node t (fst x))) t)"
proof -
  obtain l r where n: "node_is (get_node t (fst x)) l r AGFS_BTREE_NULL (snd x)" using assms(2) by (auto elim: desc_okD)
  show ?thesis
    using read_place [OF _ assms(1), of "fst x"] assms(2)
    by (subst bt_delete_ino_leaves.simps) (simp add: node_is_fields [OF n] node_is_pairs [OF n])
qed

lemma delete_ino_skip:
  assumes "healthy t" "chain t l (map fst (X @ y # Y)) AGFS_BTREE_NULL" "\<forall>x \<in> set (X @ y # Y). leaf_at t x"
    "ino \<notin> snd ` set (concat (map snd X))"
  shows "bt_delete_ino_leaves ino (fst (hd (X @ y # Y))) t = bt_delete_ino_leaves ino (fst y) t"
  using assms(2-)
proof (induction X arbitrary: l)
  case (Cons x X)
  have "bt_value_index ino 0 (snd x) = None" using Cons.prems(3) by (intro bt_value_index_none) auto
  moreover have "nd_right (get_node t (fst x)) = fst (hd (X @ y # Y))" using Cons.prems(1) by (cases X) auto
  moreover have "hd (X @ y # Y) \<in> set (X @ y # Y)" by (cases X) auto
  then have "fst (hd (X @ y # Y)) \<noteq> AGFS_BTREE_NULL" using Cons.prems(2) place_not_null [OF _ assms(1)] by (metis Cons_eq_appendI list.set_intros(2))
  ultimately have "bt_delete_ino_leaves ino (fst x) t = bt_delete_ino_leaves ino (fst (hd (X @ y # Y))) t"
    using delete_ino_step [OF assms(1), of x] Cons.prems(2) by simp
  also have "\<dots> = bt_delete_ino_leaves ino (fst y) t" using Cons.prems by (intro Cons.IH [of "fst x"]) auto
  finally show ?case by simp
qed simp

lemma delete_ino_absent:
  assumes "healthy t" "chain t l (map fst lvs) AGFS_BTREE_NULL" "lvs \<noteq> []" "\<forall>x \<in> set lvs. leaf_at t x"
    "ino \<notin> snd ` set (concat (map snd lvs))"
  shows "bt_delete_ino_leaves ino (fst (hd lvs)) t = Some (t, Inl ENOENT)"
proof -
  obtain X y where l: "lvs = X @ [y]" using assms(3) by (metis append_butlast_last_id)
  have "bt_delete_ino_leaves ino (fst (hd lvs)) t = bt_delete_ino_leaves ino (fst y) t"
    using delete_ino_skip [OF assms(1), of l X y "[]"] assms(2,4,5) by (simp add: l image_Un)
  moreover have "bt_value_index ino 0 (snd y) = None" using assms(5) by (intro bt_value_index_none) (auto simp: l)
  moreover have "nd_right (get_node t (fst y)) = AGFS_BTREE_NULL" using assms(2) by (simp add: l chain_append)
  ultimately show ?thesis using delete_ino_step [OF assms(1), of y] assms(4) by (simp add: l)
qed

lemma leaves_children: "concat (map snd (concat (map (\<lambda>x. bt_leaves (fst x)) cs))) = items_entries (flats cs)"
  by (induction cs) (simp_all add: items_entries_simps items_entries_append bt_entries_leaves [symmetric] bt_entries_def)

lemma leaves_ctx:
  "\<exists>L R. bt_leaves (plug fs s) = L @ bt_leaves s @ R \<and> items_entries (flat_l fs) = concat (map snd L) \<and>
     items_entries (flat_r fs) = concat (map snd R)"
proof (induction fs arbitrary: s)
  case (Cons f fs)
  obtain L R where IH: "bt_leaves (plug fs (plug1 f s)) = L @ bt_leaves (plug1 f s) @ R" "items_entries (flat_l fs) = concat (map snd L)"
      "items_entries (flat_r fs) = concat (map snd R)" using Cons.IH [of "plug1 f s"] by blast
  show ?case
  proof (cases f)
    case (FC off ls k rs l)
    let ?lv = "\<lambda>cs. concat (map (\<lambda>x. bt_leaves (fst x)) cs)"
    show ?thesis using IH
      by (intro exI [of _ "L @ ?lv ls"] exI [of _ "(?lv rs @ bt_leaves l) @ R"])
        (simp add: FC items_entries_append items_entries_simps leaves_children [symmetric] bt_entries_leaves [unfolded bt_entries_def])
  next
    case (FO off ls)
    let ?lv = "\<lambda>cs. concat (map (\<lambda>x. bt_leaves (fst x)) cs)"
    show ?thesis using IH
      by (intro exI [of _ "L @ ?lv ls"] exI [of _ R]) (simp add: FO items_entries_append leaves_children [symmetric])
  qed
qed (intro exI [of _ "[]"], simp add: items_entries_simps)

lemma leaves_plug:
  assumes "bt_leaves tr = X @ (off, kvs) # Y" "distinct (leaf_offs tr)"
  obtains fs where "tr = plug fs (BL off kvs)" "items_entries (flat_l fs) = concat (map snd X)" "items_entries (flat_r fs) = concat (map snd Y)"
proof -
  obtain fs where fs: "tr = plug fs (BL off kvs)" using leaf_ctx [of off kvs tr] assms(1) by auto
  obtain L R where LR: "bt_leaves tr = L @ (off, kvs) # R" "items_entries (flat_l fs) = concat (map snd L)"
      "items_entries (flat_r fs) = concat (map snd R)"
    using leaves_ctx [of fs "BL off kvs"] fs by auto
  have "(off, kvs) \<notin> set X" "(off, kvs) \<notin> set Y" using assms by (auto simp: leaf_offs_leaves) (metis fst_conv image_eqI)+
  then have "X = L \<and> Y = R" using assms(1) LR(1) append_Cons_eq_iff [of "(off, kvs)" X Y L R] by simp
  then show thesis using that fs LR by simp
qed

context tree_keys
begin

lemma delete_ino_tree:
  assumes "btree_tree ok_key fp dtype t tr"
  shows "if ino \<in> snd ` set (bt_entries tr)
    then \<exists>t' tr'. agfs_btree_delete_ino_impl ino t = Some (t', Inr ()) \<and> btree_tree ok_key fp dtype t' tr' \<and>
      bt_entries tr' = kv_remove_ino ino (bt_entries tr) \<and> (\<forall>d r. bt_bal d r tr' = bt_bal d r tr) \<and> bt_size t' = bt_size t
    else agfs_btree_delete_ino_impl ino t = Some (t, Inl ENOENT)"
proof -
  note T = assms [unfolded btree_tree_def]
  have ht: "healthy t" and sd: "sound {} t tr" using T by simp_all
  have ne: "bt_leaves tr \<noteq> []" using leaf_offs_nonempty [of tr] by (simp add: leaf_offs_leaves)
  have ch: "chain t AGFS_BTREE_NULL (map fst (bt_leaves tr)) AGFS_BTREE_NULL" "distinct (leaf_offs tr)"
    using sd by (simp_all add: shape_def leaf_offs_leaves)
  have run: "agfs_btree_delete_ino_impl ino t = bt_delete_ino_leaves ino (fst (hd (bt_leaves tr))) t"
    using read_header_ok [of t dtype "root_off tr"] T leftmost_sound [OF ht sd] by (simp add: agfs_btree_delete_ino_impl_def)
  have walk: "\<forall>x \<in> set (bt_leaves tr). desc_ok t (fst x, AGFS_BTREE_NULL, snd x) \<and> place_ok t (fst x)"
    using sound_leaves [OF sd] by blast
  show ?thesis
  proof (cases "ino \<in> snd ` set (bt_entries tr)")
    case True
    then have "\<exists>x \<in> set (bt_leaves tr). ino \<in> snd ` set (snd x)" by (auto simp: bt_entries_leaves)
    then obtain X x Y where lvx: "bt_leaves tr = X @ x # Y" "ino \<in> snd ` set (snd x)" "\<forall>y \<in> set X. ino \<notin> snd ` set (snd y)"
      using split_list_first_prop [of "bt_leaves tr" "\<lambda>x. ino \<in> snd ` set (snd x)"] by blast
    then have "\<exists>q \<in> set (snd x). snd q = ino" by auto
    then obtain A p B where k: "snd x = A @ p # B" "snd p = ino" "\<forall>q \<in> set A. snd q \<noteq> ino"
      using split_list_first_prop [of "snd x" "\<lambda>q. snd q = ino"] by blast
    define off where "off = fst x"
    have lv: "bt_leaves tr = X @ (off, A @ p # B) # Y" using lvx(1) k(1) by (metis off_def prod.collapse)
    have "bt_value_index ino 0 (A @ p # B) = Some (length A)" using k(2,3) bt_value_index_skip [of A ino 0 "p # B"] by (cases p) simp
    then have res: "agfs_btree_delete_ino_impl ino t =
        Some (bt_log off (put_node off (agfs_btree_remove_at (get_node t off) (length A)) (t\<lparr>bt_dirty := True\<rparr>)), Inr ())"
      using delete_ino_skip [OF ht, of _ X "(off, A @ p # B)" Y ino] ch(1) walk lvx(3) delete_ino_step [OF ht, of "(off, A @ p # B)" ino]
      unfolding run lv by auto
    obtain fs where fs: "tr = plug fs (BL off (A @ p # B))" "items_entries (flat_l fs) = concat (map snd X)"
        "items_entries (flat_r fs) = concat (map snd Y)" by (rule leaves_plug [OF lv ch(2)])
    have d: "desc_ok t (off, AGFS_BTREE_NULL, A @ p # B)" "place_ok t off" using sound_leaves [OF sd, of "(off, A @ p # B)"] lv by simp_all
    obtain l r where n: "node_is (get_node t off) l r AGFS_BTREE_NULL (A @ p # B)" by (rule desc_okD [OF d(1)])
    have "kv_remove_ino ino (bt_entries tr) = bt_entries (plug fs (BL off (A @ B)))"
      using k(2,3) lvx(3) kv_remove_ino_append [of ino "concat (map snd X) @ A" "p # B @ concat (map snd Y)"]
      unfolding fs(1) entries_plug fs(2,3) by auto
    then show ?thesis
      using True res btree_tree_remove [OF assms [unfolded fs(1)] n d(2)] bal_leaf [of _ _ fs off "A @ B" "A @ p # B"] by (auto simp: fs(1))
  next
    case False
    then show ?thesis using delete_ino_absent [OF ht ch(1) ne walk] run by (simp add: bt_entries_leaves)
  qed
qed

end

end
