(* ===== verification/Btree_Dir.thy ===== *)
theory Btree_Dir
  imports Btree_Ops
begin

text \<open>
  Directories as trees, \<^verbatim>\<open>fs/agfs/btree.c\<close> with the parts of \<^verbatim>\<open>namei.c\<close> and \<^verbatim>\<open>attribute.c\<close> that make a new
  tree. A stream holds a list of entries, \<open>btree_holds\<close>, with a height of at most ten; the functions the
  rest of the file system calls refine insertion into and deletion from that list, for names of up to
  88 bytes and as long as the stream stays below four gigabytes.
\<close>

subsection \<open>The entries of a tree\<close>

text \<open>The stream holds a tree of the given height with the given entries.\<close>

definition btree_holds :: "(bkey \<Rightarrow> bool) \<Rightarrow> fpu \<Rightarrow> nat \<Rightarrow> btree \<Rightarrow> nat \<Rightarrow> bpair list \<Rightarrow> bool" where
  "btree_holds ok_key fp dtype t h es \<longleftrightarrow> (\<exists>tr. btree_tree ok_key fp dtype t tr \<and> bt_entries tr = es \<and> bt_bal h True tr)"

text \<open>A tree on a stream of less than four gigabytes has at most ten levels.\<close>

lemma leaves_many: "bt_bal d False tr \<Longrightarrow> 6 ^ (d - 1) \<le> length (leaf_offs tr)"
proof (induction tr arbitrary: d rule: bt_tree_induct)
  case (Node off cs l)
  obtain e where d: "d = Suc e" using Node.prems by (cases d) auto
  have l: "6 ^ (e - 1) \<le> length (leaf_offs l)" using Node d by auto
  have "\<forall>x \<in> set cs. 6 ^ (e - 1) \<le> length (leaf_offs (fst x))" using Node.IH(1) Node.prems d by auto
  then have "length cs * 6 ^ (e - 1) \<le> length (leafs cs)" by (induction cs) (auto intro!: add_mono)
  moreover have "5 * 6 ^ (e - 1) \<le> length cs * (6 :: nat) ^ (e - 1)" using Node.prems by (intro mult_right_mono) simp_all
  ultimately have "6 * 6 ^ (e - 1) \<le> length (leafs cs) + length (leaf_offs l)" using l by linarith
  moreover have "bt_bal e False l" using Node.prems d by simp
  then have "1 \<le> e" using bt_bal_height [of e False l] bt_height_pos [of l] by simp
  then have "(6 :: nat) ^ (d - 1) = 6 * 6 ^ (e - 1)" by (cases e) (simp_all add: d)
  ultimately show ?case by simp
qed simp

lemma leaves_few:
  assumes "distinct offs" "\<forall>x \<in> set offs. place_ok t x"
  shows "1024 * length offs \<le> bt_size t"
proof -
  have "inj_on (\<lambda>x. x div 1024) (set offs)"
    using assms(2) by (intro inj_onI) (metis div_mult_mod_eq add.right_neutral place_ok_def)
  moreover have "(\<lambda>x. x div 1024) ` set offs \<subseteq> {..<bt_size t div 1024}"
    using assms(2) by (auto simp: place_ok_def)
  ultimately have "card (set offs) \<le> bt_size t div 1024" by (metis card_image card_lessThan card_mono finite_lessThan)
  then have "length offs \<le> bt_size t div 1024" using assms(1) by (simp add: distinct_card)
  then show ?thesis by linarith
qed

lemma tree_height_bound:
  assumes "healthy t" "sound {} t tr" "bt_bal h True tr"
  shows "h \<le> 10"
proof (cases tr)
  case (BN off cs l)
  obtain e where h: "h = Suc e" using assms(3) BN by (cases h) auto
  obtain x where x: "x \<in> set cs" using assms(3) BN by (cases cs) auto
  have b: "bt_bal e False (fst x)" "bt_bal e False l" using assms(3) x by (auto simp: BN h)
  have "length (leaf_offs (fst x)) + length (leaf_offs l) \<le> length (leaf_offs tr)"
    using x by (auto simp: BN length_concat intro!: member_le_sum_list)
  then have "2 * 6 ^ (e - 1) \<le> length (leaf_offs tr)" using leaves_many [OF b(1)] leaves_many [OF b(2)] by simp
  moreover have "1024 * length (leaf_offs tr) \<le> bt_size t" using assms(2) by (intro leaves_few) (auto simp: shape_def)
  moreover have "bt_size t < 2 ^ 32" using assms(1) by (simp add: healthy_def)
  ultimately have lt: "2 * 6 ^ (e - 1) < (2 ^ 22 :: nat)" by simp
  show ?thesis
  proof (rule ccontr)
    assume "\<not> h \<le> 10"
    then have "(6 :: nat) ^ 9 \<le> 6 ^ (e - 1)" by (intro power_increasing) (simp_all add: h)
    then show False using lt by simp
  qed
qed (use assms(3) in simp)

context tree_keys
begin

lemma entries_sorted:
  assumes "btree_tree ok_key fp dtype t tr"
  shows "sorted_wrt lt (map fst (bt_entries tr))" "\<forall>p \<in> set (bt_entries tr). ok_key (fst p)"
proof -
  have io: "items_ok ok_key lt (bt_flat tr)" using assms by (simp add: btree_tree_def)
  have "sorted_wrt lt (map fst (items_entries its)) \<and> (\<forall>p \<in> set (items_entries its). ok_key (fst p))" if "items_ok ok_key lt its" for its
    using that
  proof (induction its)
    case (Cons it its)
    obtain k v where it: "it = (k, v)" by (cases it)
    have "lt k k'" if "(k', w) \<in> set (items_entries its)" "v \<noteq> None" for k' w
    proof -
      have "item_lt lt (k, v) (k', Some w)" using that Cons.prems by (auto simp: it items_ok_Cons items_entries_keys)
      then show ?thesis by (simp add: item_lt_def)
    qed
    then show ?case using Cons by (cases v) (auto simp: it items_ok_Cons items_entries_def)
  qed (simp add: items_entries_def)
  then show "sorted_wrt lt (map fst (bt_entries tr))" "\<forall>p \<in> set (bt_entries tr). ok_key (fst p)" using io by (auto simp: bt_entries_def)
qed

lemma holds_sorted:
  assumes "btree_holds ok_key fp dtype t h es"
  shows "sorted_wrt lt (map fst es)" "\<forall>p \<in> set es. ok_key (fst p)"
proof -
  obtain tr where "btree_tree ok_key fp dtype t tr" "bt_entries tr = es" using assms by (auto simp: btree_holds_def)
  then show "sorted_wrt lt (map fst es)" "\<forall>p \<in> set es. ok_key (fst p)" using entries_sorted by metis+
qed

lemma holds_height:
  assumes "btree_holds ok_key fp dtype t h es"
  shows "1 \<le> h" "h \<le> 10"
proof -
  obtain tr where tr: "btree_tree ok_key fp dtype t tr" "bt_bal h True tr" using assms by (auto simp: btree_holds_def)
  then have "healthy t" "sound {} t tr" by (simp_all add: btree_tree_def)
  then show "h \<le> 10" using tree_height_bound tr(2) by blast
  show "1 \<le> h" using tr(2) bt_bal_height [of h True tr] bt_height_pos [of tr] by simp
qed

lemma holds_find:
  assumes "btree_holds ok_key fp dtype t h es" "ok_key key"
  shows "agfs_btree_find fp t key = (case map_of es key of None \<Rightarrow> Inl ENOENT | Some v \<Rightarrow> Inr (v mod 2 ^ 32))"
proof -
  obtain tr where tr: "btree_tree ok_key fp dtype t tr" "bt_entries tr = es" "bt_bal h True tr" using assms(1) by (auto simp: btree_holds_def)
  have "bt_height tr \<le> 16" using bt_bal_height [OF tr(3)] holds_height(2) [OF assms(1)] by simp
  then show ?thesis using find_tree [OF tr(1) assms(2)] key_len [OF assms(2)] tr(2) by blast
qed

lemma holds_insert:
  assumes "btree_holds ok_key fp dtype t h es" "ok_key key" "v < 2 ^ 64" "bt_size t + 1024 * (h + 1) < 2 ^ 32"
  shows "if key \<in> fst ` set es then agfs_btree_insert_impl fp key v dtype t = Some (t, Inl EEXIST)
    else \<exists>t' h'. agfs_btree_insert_impl fp key v dtype t = Some (t', Inr ()) \<and> btree_holds ok_key fp dtype t' h' (kv_insert lt key v es) \<and>
      h' \<le> h + 1 \<and> bt_size t' \<le> bt_size t + 1024 * (h + 1)"
proof -
  obtain tr where tr: "btree_tree ok_key fp dtype t tr" "bt_entries tr = es" "bt_bal h True tr" using assms(1) by (auto simp: btree_holds_def)
  have ht: "bt_height tr = h" "bt_height tr \<le> 16" using bt_bal_height [OF tr(3)] holds_height(2) [OF assms(1)] by simp_all
  note I = insert_tree [OF tr(1) assms(2,3) ht(2), unfolded tr(2) ht(1), OF assms(4)]
  show ?thesis
  proof (cases "key \<in> fst ` set es")
    case False
    with I obtain t' tr' where t': "agfs_btree_insert_impl fp key v dtype t = Some (t', Inr ())" "btree_tree ok_key fp dtype t' tr'"
      "bt_entries tr' = kv_insert lt key v es" "bt_bal h True tr' \<or> bt_bal (Suc h) True tr'" "bt_size t' \<le> bt_size t + 1024 * (h + 1)"
      using tr(3) by auto
    then obtain h' where "bt_bal h' True tr'" "h' \<le> h + 1" by auto
    then show ?thesis using False t' unfolding btree_holds_def by auto
  qed (use I in simp)
qed

lemma holds_delete:
  assumes "btree_holds ok_key fp dtype t h es" "ok_key key"
  shows "if key \<in> fst ` set es
    then \<exists>t'. agfs_btree_delete_impl fp key t = (t', Inr ()) \<and> btree_holds ok_key fp dtype t' h (filter (\<lambda>p. fst p \<noteq> key) es) \<and> bt_size t' = bt_size t
    else agfs_btree_delete_impl fp key t = (t, Inl ENOENT)"
proof -
  obtain tr where tr: "btree_tree ok_key fp dtype t tr" "bt_entries tr = es" "bt_bal h True tr" using assms(1) by (auto simp: btree_holds_def)
  have "bt_height tr \<le> 16" using bt_bal_height [OF tr(3)] holds_height(2) [OF assms(1)] by simp
  from delete_tree [OF tr(1) assms(2) this] tr(2,3) show ?thesis
    by (auto simp: btree_holds_def split: if_splits)
qed

lemma holds_iterate:
  assumes "btree_holds ok_key fp dtype t h es"
  shows "agfs_btree_iterate t fn s = Some (fst (kv_walk fn es s), None)"
  using assms iterate_tree by (auto simp: btree_holds_def)

lemma holds_delete_ino:
  assumes "btree_holds ok_key fp dtype t h es"
  shows "if ino \<in> snd ` set es
    then \<exists>t'. agfs_btree_delete_ino_impl ino t = Some (t', Inr ()) \<and> btree_holds ok_key fp dtype t' h (kv_remove_ino ino es) \<and> bt_size t' = bt_size t
    else agfs_btree_delete_ino_impl ino t = Some (t, Inl ENOENT)"
proof -
  obtain tr where tr: "btree_tree ok_key fp dtype t tr" "bt_entries tr = es" "bt_bal h True tr" using assms(1) by (auto simp: btree_holds_def)
  from delete_ino_tree [OF tr(1), of ino] tr(2,3) show ?thesis
    by (auto simp: btree_holds_def split: if_splits)
qed

end

subsection \<open>New trees\<close>

text \<open>\<^verbatim>\<open>bmap\<close> for writing at a given offset, without the change of size.\<close>

definition bt_alloc :: "nat \<Rightarrow> btree \<Rightarrow> btree \<times> unit result" where
  "bt_alloc off t =
     (case grow_outcome t of
        Some e \<Rightarrow> (t\<lparr>bt_grow := tl (bt_grow t)\<rparr>, Inl e)
      | None \<Rightarrow> (t\<lparr>bt_map := (bt_map t)(bt_blk t off := Inr True), bt_grow := tl (bt_grow t)\<rparr>, Inr ()))"

definition bt_new_header :: "nat \<Rightarrow> byte list \<Rightarrow> byte list" where
  "bt_new_header mx n =
     mem_put 0 (le_enc 4 AGFS_BTREE_MAGIC @ le_enc 4 AGFS_BTREE_NODE_SIZE @ le_enc 4 1 @ le_enc 4 AGFS_BTREE_STRING_TYPE
       @ le_enc 8 AGFS_BTREE_NODE_SIZE @ le_enc 8 AGFS_BTREE_NULL @ le_enc 8 mx) n"

text \<open>The part of \<^verbatim>\<open>agfs_mkdir_impl\<close> that gives the new directory its tree.\<close>

definition agfs_mkdir_tree :: "nat \<Rightarrow> nat \<Rightarrow> btree \<Rightarrow> btree \<times> unit result" where
  "agfs_mkdir_tree ino parent t =
     (case bt_alloc 0 t of
        (t, Inl e) \<Rightarrow> (t, Inl e)
      | (t, Inr _) \<Rightarrow>
          (case bt_alloc AGFS_BTREE_NODE_SIZE t of
             (t, Inl e) \<Rightarrow> (t, Inl e)
           | (t, Inr _) \<Rightarrow>
               if \<not> bt_rd t 0 then (t, Inl EIO)
               else
                 (let t = put_node 0 (bt_new_header (2 ^ 20) (get_node t 0)) t
                  in if \<not> bt_rd t (bt_blk t AGFS_BTREE_NODE_SIZE) then (t, Inl EIO)
                     else ((put_node AGFS_BTREE_NODE_SIZE
                              (node_build AGFS_BTREE_NULL AGFS_BTREE_NULL AGFS_BTREE_NULL [([46], ino), ([46, 46], parent)]) t)
                             \<lparr>bt_size := 2 * AGFS_BTREE_NODE_SIZE, bt_dirty := True\<rparr>, Inr ()))))"

text \<open>The part of \<^verbatim>\<open>agfs_attr_dir_create\<close> that makes an empty tree; the leaf is not cleared.\<close>

definition agfs_attr_tree :: "btree \<Rightarrow> btree \<times> bool" where
  "agfs_attr_tree t =
     (case bt_alloc 0 t of
        (t, Inl e) \<Rightarrow> (t, False)
      | (t, Inr _) \<Rightarrow>
          (case bt_alloc AGFS_BTREE_NODE_SIZE t of
             (t, Inl e) \<Rightarrow> (t, False)
           | (t, Inr _) \<Rightarrow>
               if \<not> bt_rd t 0 then (t, False)
               else
                 (let t = put_node 0 (bt_new_header (2 * AGFS_BTREE_NODE_SIZE) (get_node t 0)) t
                  in if \<not> bt_rd t (bt_blk t AGFS_BTREE_NODE_SIZE) then (t, False)
                     else ((put_node AGFS_BTREE_NODE_SIZE
                              (mem_put 0 (le_enc 8 AGFS_BTREE_NULL @ le_enc 8 AGFS_BTREE_NULL @ le_enc 8 AGFS_BTREE_NULL
                                 @ le_enc 2 0 @ le_enc 2 0) (get_node t AGFS_BTREE_NODE_SIZE)) t)
                             \<lparr>bt_size := 2 * AGFS_BTREE_NODE_SIZE, bt_dirty := True\<rparr>, True))))"

text \<open>The calls that make a tree find memory, blocks and readable buffers.\<close>

definition fresh_stream :: "btree \<Rightarrow> bool" where
  "fresh_stream t \<longleftrightarrow> mem_ok (bt_mem t) \<and> (\<forall>s \<in> set (bt_grow t). s = None) \<and> (\<forall>b. bt_rd t b) \<and>
     (\<forall>off. length (bt_node t off) = AGFS_BTREE_NODE_SIZE)"

lemma bt_alloc_ok:
  "\<forall>s \<in> set (bt_grow t). s = None \<Longrightarrow>
     bt_alloc off t = (t\<lparr>bt_map := (bt_map t)(bt_blk t off := Inr True), bt_grow := tl (bt_grow t)\<rparr>, Inr ())"
  by (cases "bt_grow t") (auto simp: bt_alloc_def grow_outcome_def)

lemma new_header_fields:
  assumes "length n = 1024"
  shows "hd_magic (bt_new_header mx n) = AGFS_BTREE_MAGIC" "hd_node_size (bt_new_header mx n) = AGFS_BTREE_NODE_SIZE"
    "hd_type (bt_new_header mx n) = AGFS_BTREE_STRING_TYPE" "hd_root (bt_new_header mx n) = AGFS_BTREE_NODE_SIZE"
    "length (bt_new_header mx n) = 1024"
  using assms
  by (simp_all add: bt_new_header_def hd_magic_def hd_node_size_def hd_type_def hd_root_def mem_put_def mem_get_append mem_get_def)

text \<open>A header and one leaf are a tree.\<close>

lemma one_leaf_tree:
  assumes "fresh_stream t" "bt_map t 0 = Inr True" "bt_map t (bt_blk t 1024) = Inr True"
    "2048 \<le> bt_size t" "bt_size t mod 1024 = 0" "bt_size t < 2 ^ 32"
    "header_ok t dtype 1024" "node_is (get_node t 1024) AGFS_BTREE_NULL AGFS_BTREE_NULL AGFS_BTREE_NULL kvs" "keys_ok ok_key (key_lt fp dtype) kvs"
  shows "btree_tree ok_key fp dtype t (BL 1024 kvs)"
proof -
  have "desc_ok t (1024, AGFS_BTREE_NULL, kvs)" using assms(8) by (auto simp: desc_ok_def)
  then show ?thesis using assms node_is_fields [OF assms(8)]
    by (simp add: btree_tree_def healthy_def fresh_stream_def shape_def place_ok_def items_ok_kv)
qed

lemma one_leaf_holds:
  assumes "fresh_stream t" "bt_map t 0 = Inr True" "bt_map t (bt_blk t 1024) = Inr True" "bt_size t = 2048"
    "header_ok t dtype 1024" "node_is (get_node t 1024) AGFS_BTREE_NULL AGFS_BTREE_NULL AGFS_BTREE_NULL kvs" "keys_ok ok_key (key_lt fp dtype) kvs"
  shows "btree_holds ok_key fp dtype t 1 kvs"
  using one_leaf_tree [OF assms(1-3) _ _ _ assms(5-7)] assms(4)
  by (auto simp: btree_holds_def bt_entries_def intro!: exI [of _ "BL 1024 kvs"])

lemma header_new:
  assumes "length n = 1024" "get_node t 0 = bt_new_header mx n"
  shows "header_ok t 0 1024"
  using new_header_fields [OF assms(1), of mx] assms(2) by (simp add: header_ok_def)

text \<open>The stream after its two nodes are allocated and written.\<close>

definition two_nodes :: "byte list \<Rightarrow> byte list \<Rightarrow> btree \<Rightarrow> btree" where
  "two_nodes h n t =
     (put_node 1024 n (put_node 0 h (t\<lparr>bt_map := (bt_map t)(0 := Inr True, bt_blk t 1024 := Inr True), bt_grow := tl (tl (bt_grow t))\<rparr>)))
       \<lparr>bt_size := 2048, bt_dirty := True\<rparr>"

lemma set_tl_subset: "set (tl xs) \<subseteq> set xs"
  by (cases xs) auto

lemma two_nodes_get: "get_node (two_nodes h n t) 1024 = n" "get_node (two_nodes h n t) 0 = h"
  by (simp_all add: two_nodes_def get_node_def put_node_def)

lemma fresh_two_nodes:
  assumes "fresh_stream t" "length h = 1024" "length n = 1024"
  shows "fresh_stream (two_nodes h n t)"
  using assms set_tl_subset [of "bt_grow t"] set_tl_subset [of "tl (bt_grow t)"]
  by (auto simp: fresh_stream_def two_nodes_def put_node_def)

lemma two_allocs:
  assumes "fresh_stream t"
  shows "bt_alloc 0 t = (t\<lparr>bt_map := (bt_map t)(0 := Inr True), bt_grow := tl (bt_grow t)\<rparr>, Inr ())"
    "bt_alloc 1024 (t\<lparr>bt_map := (bt_map t)(0 := Inr True), bt_grow := tl (bt_grow t)\<rparr>) =
       (t\<lparr>bt_map := (bt_map t)(0 := Inr True, bt_blk t 1024 := Inr True), bt_grow := tl (tl (bt_grow t))\<rparr>, Inr ())"
  using assms set_tl_subset [of "bt_grow t"]
  by (subst bt_alloc_ok; auto simp: fresh_stream_def bt_blk_def)+

lemma two_nodes_hold:
  assumes "fresh_stream t" "node_is n AGFS_BTREE_NULL AGFS_BTREE_NULL AGFS_BTREE_NULL kvs" "keys_ok ok_key (key_lt fp 0) kvs"
  shows "btree_holds ok_key fp 0 (two_nodes (bt_new_header mx (get_node t 0)) n t) 1 kvs"
proof -
  let ?h = "bt_new_header mx (get_node t 0)" and ?t = "two_nodes (bt_new_header mx (get_node t 0)) n t"
  have len: "length (get_node t 0) = 1024" using assms(1) by (simp add: fresh_stream_def get_node_def)
  have gn: "get_node ?t 0 = ?h" by (rule two_nodes_get)
  have "fresh_stream ?t" using fresh_two_nodes [OF assms(1)] new_header_fields(5) [OF len] node_isD(1) [OF assms(2)] by blast
  then show ?thesis
  proof (rule one_leaf_holds)
    show "header_ok ?t 0 1024" by (rule header_new [OF len gn])
    show "node_is (get_node ?t 1024) AGFS_BTREE_NULL AGFS_BTREE_NULL AGFS_BTREE_NULL kvs" using assms(2) by (simp only: two_nodes_get)
  qed (use assms(3) in \<open>simp_all add: two_nodes_def put_node_def bt_blk_def\<close>)
qed

lemma dir_keys_dots: "keys_ok dir_key (key_lt fp 0) [([46], ino), ([46, 46], parent)]"
  by (simp add: keys_ok_def dir_key_def key_lt_string)

lemma dots_node:
  assumes "ino < 2 ^ 64" "parent < 2 ^ 64"
  shows "node_is (node_build AGFS_BTREE_NULL AGFS_BTREE_NULL AGFS_BTREE_NULL [([46], ino), ([46, 46], parent)])
    AGFS_BTREE_NULL AGFS_BTREE_NULL AGFS_BTREE_NULL [([46], ino), ([46, 46], parent)]"
  by (rule node_build_is) (use assms in \<open>simp_all add: pairs_size_def bt_align_def\<close>)

text \<open>A new directory holds its two links.\<close>

lemma mkdir_tree_ok:
  assumes "fresh_stream t" "ino < 2 ^ 64" "parent < 2 ^ 64"
  shows "\<exists>t'. agfs_mkdir_tree ino parent t = (t', Inr ()) \<and> btree_holds dir_key fp 0 t' 1 [([46], ino), ([46, 46], parent)] \<and> bt_size t' = 2048"
proof -
  let ?kvs = "[([46], ino), ([46, 46], parent)]"
  let ?t = "two_nodes (bt_new_header (2 ^ 20) (get_node t 0)) (node_build AGFS_BTREE_NULL AGFS_BTREE_NULL AGFS_BTREE_NULL ?kvs) t"
  have "agfs_mkdir_tree ino parent t = (?t, Inr ())"
    using two_allocs [OF assms(1)] assms(1)
    by (simp add: agfs_mkdir_tree_def Let_def two_nodes_def put_node_def get_node_def fresh_stream_def bt_blk_def)
  moreover have "btree_holds dir_key fp 0 ?t 1 ?kvs" by (rule two_nodes_hold [OF assms(1) dots_node [OF assms(2,3)] dir_keys_dots])
  ultimately show ?thesis by (simp add: two_nodes_def)
qed

text \<open>A new attributes directory holds nothing, whatever its leaf contained before.\<close>

lemma empty_node_is:
  assumes "length n = 1024"
  shows "node_is (mem_put 0 (le_enc 8 AGFS_BTREE_NULL @ le_enc 8 AGFS_BTREE_NULL @ le_enc 8 AGFS_BTREE_NULL @ le_enc 2 0 @ le_enc 2 0) n)
    AGFS_BTREE_NULL AGFS_BTREE_NULL AGFS_BTREE_NULL []"
proof -
  let ?m = "mem_put 0 (le_enc 8 AGFS_BTREE_NULL @ le_enc 8 AGFS_BTREE_NULL @ le_enc 8 AGFS_BTREE_NULL @ le_enc 2 0 @ le_enc 2 0) n"
  have "?m = node_bytes AGFS_BTREE_NULL AGFS_BTREE_NULL AGFS_BTREE_NULL [] (take 4 (drop 28 n)) (drop 32 n)"
    using append_take_drop_id [of 4 "drop 28 n"] by (simp add: mem_put_def node_bytes_def)
  moreover have "length ?m = 1024" using assms by (simp add: mem_put_def)
  moreover have "length (take 4 (drop 28 n)) = bt_align (28 + keys_length []) - (28 + keys_length [])" using assms by (simp add: bt_align_def)
  ultimately show ?thesis unfolding node_is_def by (simp only:) auto
qed

lemma attr_tree_ok:
  assumes "fresh_stream t"
  shows "\<exists>t'. agfs_attr_tree t = (t', True) \<and> btree_holds dir_key fp 0 t' 1 [] \<and> bt_size t' = 2048"
proof -
  let ?n = "mem_put 0 (le_enc 8 AGFS_BTREE_NULL @ le_enc 8 AGFS_BTREE_NULL @ le_enc 8 AGFS_BTREE_NULL @ le_enc 2 0 @ le_enc 2 0) (get_node t 1024)"
  let ?t = "two_nodes (bt_new_header 2048 (get_node t 0)) ?n t"
  have "agfs_attr_tree t = (?t, True)"
    using two_allocs [OF assms(1)] assms(1)
    by (simp add: agfs_attr_tree_def Let_def two_nodes_def put_node_def get_node_def fresh_stream_def bt_blk_def)
  moreover have "length (get_node t 1024) = 1024" using assms by (simp add: fresh_stream_def get_node_def)
  then have "btree_holds dir_key fp 0 ?t 1 []" by (intro two_nodes_hold [OF assms empty_node_is]) (simp_all add: keys_ok_def)
  ultimately show ?thesis by (simp add: two_nodes_def)
qed

subsection \<open>The interface\<close>

text \<open>The functions other files call. Each runs inside a transaction of its own, or joins the one that is open.\<close>

definition agfs_btree_insert :: "fpu \<Rightarrow> bkey \<Rightarrow> nat \<Rightarrow> btree \<Rightarrow> (btree \<times> unit result) option" where
  "agfs_btree_insert fp name ino t = agfs_btree_insert_impl fp name ino AGFS_BTREE_STRING_TYPE t"

definition agfs_btree_delete :: "fpu \<Rightarrow> bkey \<Rightarrow> btree \<Rightarrow> (btree \<times> unit result) option" where
  "agfs_btree_delete fp name t = Some (agfs_btree_delete_impl fp name t)"

definition agfs_btree_delete_ino :: "nat \<Rightarrow> btree \<Rightarrow> (btree \<times> unit result) option" where
  "agfs_btree_delete_ino ino t = agfs_btree_delete_ino_impl ino t"

text \<open>A directory as its users see it: the entries in the order of their names.\<close>

definition dir_holds :: "btree \<Rightarrow> bpair list \<Rightarrow> bool" where
  "dir_holds t es \<longleftrightarrow> (\<exists>h. \<forall>fp. btree_holds dir_key fp 0 t h es)"

text \<open>The changes of a directory, and what they mean for its entries.\<close>

datatype dir_op = Dir_insert bkey nat | Dir_delete bkey | Dir_delete_ino nat

fun dir_step :: "fpu \<Rightarrow> dir_op \<Rightarrow> btree \<Rightarrow> (btree \<times> unit result) option" where
  "dir_step fp (Dir_insert name ino) t = agfs_btree_insert fp name ino t"
| "dir_step fp (Dir_delete name) t = agfs_btree_delete fp name t"
| "dir_step fp (Dir_delete_ino ino) t = agfs_btree_delete_ino ino t"

fun dir_spec :: "dir_op \<Rightarrow> bpair list \<Rightarrow> bpair list \<times> unit result" where
  "dir_spec (Dir_insert name ino) es =
     (if name \<in> fst ` set es then (es, Inl EEXIST) else (kv_insert agfs_key_less name ino es, Inr ()))"
| "dir_spec (Dir_delete name) es =
     (if name \<in> fst ` set es then (filter (\<lambda>p. fst p \<noteq> name) es, Inr ()) else (es, Inl ENOENT))"
| "dir_spec (Dir_delete_ino ino) es =
     (if ino \<in> snd ` set es then (kv_remove_ino ino es, Inr ()) else (es, Inl ENOENT))"

fun dir_op_ok :: "dir_op \<Rightarrow> bool" where
  "dir_op_ok (Dir_insert name ino) \<longleftrightarrow> dir_key name \<and> ino < 2 ^ 32"
| "dir_op_ok (Dir_delete name) \<longleftrightarrow> dir_key name"
| "dir_op_ok (Dir_delete_ino ino) \<longleftrightarrow> True"

primrec dir_run :: "fpu \<Rightarrow> dir_op list \<Rightarrow> btree \<Rightarrow> (btree \<times> unit result list) option" where
  "dir_run fp [] t = Some (t, [])"
| "dir_run fp (c # cs) t =
     (case dir_step fp c t of
        None \<Rightarrow> None
      | Some (t', r) \<Rightarrow> (case dir_run fp cs t' of None \<Rightarrow> None | Some (t'', rs) \<Rightarrow> Some (t'', r # rs)))"

primrec dir_spec_run :: "dir_op list \<Rightarrow> bpair list \<Rightarrow> bpair list \<times> unit result list" where
  "dir_spec_run [] es = (es, [])"
| "dir_spec_run (c # cs) es = (case dir_spec c es of (es', r) \<Rightarrow> (case dir_spec_run cs es' of (es'', rs) \<Rightarrow> (es'', r # rs)))"

subsection \<open>Directories\<close>

text \<open>On names without a zero byte the comparison does not depend on floating point.\<close>

lemma kv_insert_cong:
  "\<forall>p \<in> set es. lt k (fst p) = lt' k (fst p) \<Longrightarrow> kv_insert lt k v es = kv_insert lt' k v es"
  by (induction es) auto

lemma btree_tree_cong:
  assumes "btree_tree dir_key fp 0 t tr"
  shows "btree_tree dir_key fp' 0 t tr"
proof -
  have "items_ok dir_key (key_lt fp 0) its = items_ok dir_key (key_lt fp' 0) its" for its
  proof -
    have "item_lt (key_lt fp 0) x y = item_lt (key_lt fp' 0) x y" if "dir_key (fst x)" "dir_key (fst y)" for x y
      using that by (cases x; cases y) (auto simp: item_lt_def dir_key_def key_lt_string)
    then show ?thesis unfolding items_ok_def using sorted_wrt_mono_rel [of its] by metis
  qed
  then show ?thesis using assms by (simp add: btree_tree_def)
qed

lemma dir_holdsI: "btree_holds dir_key fp 0 t h es \<Longrightarrow> dir_holds t es"
  unfolding dir_holds_def btree_holds_def using btree_tree_cong by blast

lemma dir_holdsE:
  assumes "dir_holds t es"
  obtains h where "btree_holds dir_key fp 0 t h es" "h \<le> 10"
  using assms dir_keys.holds_height(2) unfolding dir_holds_def by blast

lemma dir_holds_insert:
  assumes "dir_holds t es" "dir_key name" "ino < 2 ^ 64" "bt_size t + 11264 < 2 ^ 32"
  shows "if name \<in> fst ` set es then agfs_btree_insert fp name ino t = Some (t, Inl EEXIST)
    else \<exists>t'. agfs_btree_insert fp name ino t = Some (t', Inr ()) \<and> dir_holds t' (kv_insert agfs_key_less name ino es) \<and>
      bt_size t' \<le> bt_size t + 11264"
proof -
  obtain h where h: "btree_holds dir_key fp 0 t h es" "h \<le> 10" by (rule dir_holdsE [OF assms(1)])
  have "\<forall>p \<in> set es. 0 \<notin> set (fst p)" using dir_keys.holds_sorted(2) [OF h(1)] by (auto simp: dir_key_def)
  then have k: "kv_insert (key_lt fp 0) name ino es = kv_insert agfs_key_less name ino es"
    using assms(2) by (intro kv_insert_cong) (auto simp: key_lt_string dir_key_def)
  have room: "bt_size t + 1024 * (h + 1) < 2 ^ 32" using assms(4) h(2) by simp
  show ?thesis
  proof (cases "name \<in> fst ` set es")
    case False
    with dir_keys.holds_insert [OF h(1) assms(2,3) room] obtain t' h' where
      "agfs_btree_insert_impl fp name ino 0 t = Some (t', Inr ())"
      "btree_holds dir_key fp 0 t' h' (kv_insert agfs_key_less name ino es)" "bt_size t' \<le> bt_size t + 1024 * (h + 1)"
      unfolding k by auto
    then show ?thesis using False dir_holdsI h(2) by (auto simp: agfs_btree_insert_def)
  qed (use dir_keys.holds_insert [OF h(1) assms(2,3) room] in \<open>simp add: agfs_btree_insert_def\<close>)
qed

lemma dir_holds_delete:
  assumes "dir_holds t es" "dir_key name"
  shows "if name \<in> fst ` set es
    then \<exists>t'. agfs_btree_delete fp name t = Some (t', Inr ()) \<and> dir_holds t' (filter (\<lambda>p. fst p \<noteq> name) es) \<and> bt_size t' = bt_size t
    else agfs_btree_delete fp name t = Some (t, Inl ENOENT)"
proof -
  obtain h where h: "btree_holds dir_key fp 0 t h es" by (rule dir_holdsE [OF assms(1)])
  from dir_keys.holds_delete [OF this assms(2)] show ?thesis
    by (auto simp: agfs_btree_delete_def intro: dir_holdsI split: if_splits)
qed

lemma dir_holds_delete_ino:
  assumes "dir_holds t es"
  shows "if ino \<in> snd ` set es
    then \<exists>t'. agfs_btree_delete_ino ino t = Some (t', Inr ()) \<and> dir_holds t' (kv_remove_ino ino es) \<and> bt_size t' = bt_size t
    else agfs_btree_delete_ino ino t = Some (t, Inl ENOENT)"
proof -
  obtain h where h: "btree_holds dir_key undefined 0 t h es" by (rule dir_holdsE [OF assms(1)])
  from dir_keys.holds_delete_ino [OF this, of ino] show ?thesis
    by (auto simp: agfs_btree_delete_ino_def intro: dir_holdsI split: if_splits)
qed

text \<open>Every call does what the specification says.\<close>

lemma dir_step_refines:
  assumes "dir_holds t es" "dir_op_ok c" "bt_size t + 11264 < 2 ^ 32"
  obtains t' where "dir_step fp c t = Some (t', snd (dir_spec c es))" "dir_holds t' (fst (dir_spec c es))" "bt_size t' \<le> bt_size t + 11264"
proof (cases c)
  case (Dir_insert name ino)
  then show ?thesis using dir_holds_insert [OF assms(1) _ _ assms(3), of name ino fp] assms(1,2) that by (auto split: if_splits)
next
  case (Dir_delete name)
  then show ?thesis using dir_holds_delete [OF assms(1), of name fp] assms(1,2) that by (auto split: if_splits)
next
  case (Dir_delete_ino ino)
  then show ?thesis using dir_holds_delete_ino [OF assms(1), of ino] assms(1) that by (auto split: if_splits)
qed

lemma dir_run_refines:
  assumes "dir_holds t es" "list_all dir_op_ok cs" "bt_size t + 11264 * length cs < 2 ^ 32"
  shows "\<exists>t'. dir_run fp cs t = Some (t', snd (dir_spec_run cs es)) \<and> dir_holds t' (fst (dir_spec_run cs es)) \<and>
    bt_size t' \<le> bt_size t + 11264 * length cs"
  using assms
proof (induction cs arbitrary: t es)
  case (Cons c cs)
  obtain t1 where t1: "dir_step fp c t = Some (t1, snd (dir_spec c es))" "dir_holds t1 (fst (dir_spec c es))" "bt_size t1 \<le> bt_size t + 11264"
    by (rule dir_step_refines [OF Cons.prems(1), of c]) (use Cons.prems in simp_all)
  obtain t' where "dir_run fp cs t1 = Some (t', snd (dir_spec_run cs (fst (dir_spec c es))))"
    "dir_holds t' (fst (dir_spec_run cs (fst (dir_spec c es))))" "bt_size t' \<le> bt_size t1 + 11264 * length cs"
    using Cons.IH [OF t1(2)] Cons.prems(2,3) t1(3) by auto
  then show ?case using t1 by (auto split: prod.split)
qed simp

lemma dir_find:
  assumes "dir_holds t es" "dir_key name"
  shows "agfs_btree_find fp t name = (case map_of es name of None \<Rightarrow> Inl ENOENT | Some ino \<Rightarrow> Inr (ino mod 2 ^ 32))"
  using dir_holdsE [OF assms(1)] dir_keys.holds_find assms(2) by metis

subsection \<open>A stream with one leaf\<close>

definition blank_stream :: btree where
  "blank_stream = \<lparr>bt_bs = 1024, bt_node = \<lambda>_. replicate 1024 0, bt_map = \<lambda>_. Inr False, bt_rd = \<lambda>_. True, bt_size = 0,
     bt_dirty = False, bt_mem = [], bt_grow = [], bt_logged = []\<rparr>"

definition leaf_stream :: "bpair list \<Rightarrow> btree" where
  "leaf_stream kvs = two_nodes (bt_new_header 2048 (get_node blank_stream 0))
     (node_build AGFS_BTREE_NULL AGFS_BTREE_NULL AGFS_BTREE_NULL kvs) blank_stream"

lemma blank_stream_fresh: "fresh_stream blank_stream"
  by (simp add: fresh_stream_def blank_stream_def mem_ok_def)

lemma leaf_stream_holds:
  assumes "keys_ok ok_key (key_lt fp 0) kvs" "pairs_size kvs \<le> 1024" "\<forall>p \<in> set kvs. snd p < 2 ^ 64"
  shows "btree_holds ok_key fp 0 (leaf_stream kvs) 1 kvs"
  unfolding leaf_stream_def
  by (rule two_nodes_hold [OF blank_stream_fresh node_build_is assms(1)]) (use assms(2,3) in simp_all)

lemma leaf_stream_fields [simp]: "bt_size (leaf_stream kvs) = 2048" "bt_bs (leaf_stream kvs) = 1024"
  by (simp_all add: leaf_stream_def two_nodes_def put_node_def blank_stream_def)

lemma sorted_dir_keys:
  "\<forall>p \<in> set es. 0 \<notin> set (fst p) \<Longrightarrow> sorted_wrt (key_lt fp 0) (map fst es) = sorted_wrt agfs_key_less (map fst es)"
  by (induction es) (auto simp: key_lt_string)

lemma leaf_stream_dir:
  assumes "sorted_wrt agfs_key_less (map fst kvs)" "\<forall>p \<in> set kvs. dir_key (fst p) \<and> snd p < 2 ^ 64" "pairs_size kvs \<le> 1024"
  shows "dir_holds (leaf_stream kvs) kvs"
proof -
  have "sorted_wrt (key_lt undefined 0) (map fst kvs)" using sorted_dir_keys [of kvs] assms(1,2) by (auto simp: dir_key_def)
  then show ?thesis using assms by (intro dir_holdsI [OF leaf_stream_holds]) (auto simp: keys_ok_def)
qed

subsection \<open>Properties\<close>

lemma dir_spec_values: "\<forall>p \<in> set es. snd p < 2 ^ 32 \<Longrightarrow> dir_op_ok c \<Longrightarrow> \<forall>p \<in> set (fst (dir_spec c es)). snd p < 2 ^ 32"
proof (cases c)
  case (Dir_insert name ino)
  have "set (kv_insert agfs_key_less name ino es) = insert (name, ino) (set es)" by (induction es) auto
  then show "\<forall>p \<in> set es. snd p < 2 ^ 32 \<Longrightarrow> dir_op_ok c \<Longrightarrow> ?thesis" by (auto simp: Dir_insert)
next
  case (Dir_delete_ino ino)
  have "set (kv_remove_ino ino es) \<subseteq> set es" by (induction es) auto
  then show "\<forall>p \<in> set es. snd p < 2 ^ 32 \<Longrightarrow> dir_op_ok c \<Longrightarrow> ?thesis" by (auto simp: Dir_delete_ino)
qed auto

lemma dir_spec_run_values:
  "\<forall>p \<in> set es. snd p < 2 ^ 32 \<Longrightarrow> list_all dir_op_ok cs \<Longrightarrow> \<forall>p \<in> set (fst (dir_spec_run cs es)). snd p < 2 ^ 32"
proof (induction cs arbitrary: es)
  case (Cons c cs)
  then show ?case using dir_spec_values [of es c] by (auto split: prod.split)
qed simp

text \<open>
  C3. A directory is made by \<^verbatim>\<open>mkdir\<close> and changed by any sequence of insertions, deletions and
  deletions by inode number. Every call returns, with the result the sorted list of entries gives:
  EEXIST for a name that is there, ENOENT for one that is not. A search at the end finds exactly the
  entries of the list. The names have at most 88 bytes, and the bound on the number of calls keeps
  the stream below four gigabytes.
\<close>

theorem directory_calls_refine:
  assumes "fresh_stream t" "ino < 2 ^ 32" "parent < 2 ^ 32" "list_all dir_op_ok cs" "2048 + 11264 * length cs < 2 ^ 32"
  shows "\<exists>t0 t'. agfs_mkdir_tree ino parent t = (t0, Inr ()) \<and>
    dir_run fp cs t0 = Some (t', snd (dir_spec_run cs [([46], ino), ([46, 46], parent)])) \<and>
    (\<forall>name. dir_key name \<longrightarrow>
       agfs_btree_find fp t' name =
         (case map_of (fst (dir_spec_run cs [([46], ino), ([46, 46], parent)])) name of None \<Rightarrow> Inl ENOENT | Some i \<Rightarrow> Inr i))"
proof -
  let ?es = "[([46], ino), ([46, 46], parent)]"
  obtain t0 where t0: "agfs_mkdir_tree ino parent t = (t0, Inr ())" "dir_holds t0 ?es" "bt_size t0 = 2048"
    using mkdir_tree_ok [OF assms(1), of ino parent] assms(2,3) dir_holdsI by fastforce
  obtain t' where t': "dir_run fp cs t0 = Some (t', snd (dir_spec_run cs ?es))" "dir_holds t' (fst (dir_spec_run cs ?es))"
    using dir_run_refines [OF t0(2) assms(4), of fp] assms(5) t0(3) by auto
  have v: "\<forall>p \<in> set (fst (dir_spec_run cs ?es)). snd p < 2 ^ 32" by (rule dir_spec_run_values) (use assms in simp_all)
  have "agfs_btree_find fp t' name = (case map_of (fst (dir_spec_run cs ?es)) name of None \<Rightarrow> Inl ENOENT | Some i \<Rightarrow> Inr i)"
    if "dir_key name" for name
    using dir_find [OF t'(2) that, of fp] v by (auto split: option.split dest!: map_of_SomeD)
  then show ?thesis using t0(1) t'(1) by blast
qed

theorem directory_calls_refine_witness:
  "\<forall>fp. \<exists>t0 t'. agfs_mkdir_tree 9 2 blank_stream = (t0, Inr ()) \<and>
    dir_run fp [Dir_insert [97] 5, Dir_insert [97] 6, Dir_delete_ino 5, Dir_delete [97]] t0 =
      Some (t', [Inr (), Inl EEXIST, Inr (), Inl ENOENT]) \<and> agfs_btree_find fp t' [46, 46] = Inr 2"
proof
  fix fp
  have "list_all dir_op_ok [Dir_insert [97] 5, Dir_insert [97] 6, Dir_delete_ino 5, Dir_delete [97]]" by (simp add: dir_key_def)
  from directory_calls_refine [OF blank_stream_fresh _ _ this, of 9 2 fp]
  show "\<exists>t0 t'. agfs_mkdir_tree 9 2 blank_stream = (t0, Inr ()) \<and>
    dir_run fp [Dir_insert [97] 5, Dir_insert [97] 6, Dir_delete_ino 5, Dir_delete [97]] t0 =
      Some (t', [Inr (), Inl EEXIST, Inr (), Inl ENOENT]) \<and> agfs_btree_find fp t' [46, 46] = Inr 2"
    by (fastforce simp: dir_key_def)
qed

lemma kv_walk_collect:
  "kv_walk (\<lambda>k v s. (s @ [(k, v)], False)) es s = (s @ map (\<lambda>(k, v). (k, v mod 2 ^ 32)) es, False)"
  by (induction es arbitrary: s) auto

text \<open>
  C23. The walk over a directory ends, visits every entry once, in the order of the names, and hands
  the inode number as the 32 bits the caller's type holds.
\<close>

theorem directory_listing_in_order:
  assumes "dir_holds t es"
  shows "agfs_btree_iterate t (\<lambda>k v s. (s @ [(k, v)], False)) [] = Some (map (\<lambda>(k, v). (k, v mod 2 ^ 32)) es, None) \<and>
    sorted_wrt agfs_key_less (map fst es)"
proof -
  obtain h where h: "btree_holds dir_key undefined 0 t h es" by (rule dir_holdsE [OF assms])
  have "sorted_wrt agfs_key_less (map fst es)"
    using sorted_dir_keys [of es undefined] dir_keys.holds_sorted [OF h] by (auto simp: dir_key_def)
  then show ?thesis using dir_keys.holds_iterate [OF h, of "\<lambda>k v s. (s @ [(k, v)], False)" "[]"] by (simp add: kv_walk_collect)
qed

theorem directory_listing_in_order_witness:
  "agfs_btree_iterate (leaf_stream [([46], 9), ([97, 98], 5)]) (\<lambda>k v s. (s @ [(k, v)], False)) [] =
     Some ([([46], 9), ([97, 98], 5)], None)"
proof -
  have "dir_holds (leaf_stream [([46], 9), ([97, 98], 5)]) [([46], 9), ([97, 98], 5)]"
    by (rule leaf_stream_dir) (simp_all add: dir_key_def pairs_size_def bt_align_def)
  from directory_listing_in_order [OF this] show ?thesis by simp
qed

text \<open>
  However many entries a directory has, the path to a name has at most ten nodes, so the limit of
  sixteen levels in the search is never met.
\<close>

theorem directory_depth_bounded:
  assumes "dir_holds t es" "dir_key name"
  shows "\<exists>hdr path. agfs_btree_read_header t = Inr hdr \<and>
    agfs_btree_descend_t 16 fp t (hd_type hdr) name (hd_root hdr) = Inr path \<and> 1 \<le> length path \<and> length path \<le> 10"
proof -
  obtain h where h: "btree_holds dir_key fp 0 t h es" "h \<le> 10" by (rule dir_holdsE [OF assms(1)])
  obtain tr where tr: "btree_tree dir_key fp 0 t tr" "bt_bal h True tr" using h(1) unfolding btree_holds_def by blast
  have ht: "bt_height tr \<le> 10" using bt_bal_height [OF tr(2)] h(2) by simp
  then have "bt_height tr \<le> 16" by simp
  then obtain fs off kvs where d: "tr = plug fs (BL off kvs)"
      "agfs_btree_descend_t 16 fp t 0 name (root_off tr) = Inr (rev (off # map frame_off fs))"
    by (rule dir_keys.descend_tree [OF tr(1) assms(2)])
  have "length fs + 1 \<le> 10" using height_depth [of fs "BL off kvs"] ht d(1) by simp
  then show ?thesis using d(2) read_header_ok [of t 0 "root_off tr"] tr(1) by (auto simp: btree_tree_def)
qed

theorem directory_depth_bounded_witness:
  "\<forall>fp. \<exists>hdr path. agfs_btree_read_header (leaf_stream [([46], 9), ([97, 98], 5)]) = Inr hdr \<and>
    agfs_btree_descend_t 16 fp (leaf_stream [([46], 9), ([97, 98], 5)]) (hd_type hdr) [98] (hd_root hdr) = Inr path \<and>
    1 \<le> length path \<and> length path \<le> 10"
proof -
  have "dir_holds (leaf_stream [([46], 9), ([97, 98], 5)]) [([46], 9), ([97, 98], 5)]"
    by (rule leaf_stream_dir) (simp_all add: dir_key_def pairs_size_def bt_align_def)
  moreover have "dir_key [98]" by (simp add: dir_key_def)
  ultimately show ?thesis using directory_depth_bounded by blast
qed

text \<open>
  A node that is written from a list of pairs and links is read back as the same pairs and links,
  whatever the node held before.
\<close>

theorem node_write_read:
  assumes "kmalloc_ok m" "pairs_size ps \<le> 1024" "left < 2 ^ 64" "right < 2 ^ 64" "ov < 2 ^ 64" "\<forall>p \<in> set ps. snd p < 2 ^ 64"
  shows "\<exists>n'. agfs_btree_serialize m n ps ov right left = Some (kmalloc_rest m, n', None) \<and> length n' = 1024 \<and>
    nd_left n' = left \<and> nd_right n' = right \<and> nd_overflow n' = ov \<and> node_pairs n' = ps"
proof -
  note n = node_build_is [OF assms(2-6)]
  show ?thesis using agfs_btree_serialize_ok [OF assms(1,2)] node_isD(1) [OF n] node_is_fields [OF n] node_is_pairs [OF n] by simp
qed

theorem node_write_read_witness:
  "\<exists>n'. agfs_btree_serialize [] (replicate 1024 7) [([97], 5), ([97, 98], 6)] 18446744073709551615 2048 1024 = Some ([], n', None) \<and>
    nd_right n' = 2048 \<and> node_pairs n' = [([97], 5), ([97, 98], 6)]"
  using node_write_read [of "[]" "[([97], 5), ([97, 98], 6)]" 1024 2048 "18446744073709551615" "replicate 1024 7"]
  by (auto simp: pairs_size_def bt_align_def kmalloc_ok_def kmalloc_rest_def)

text \<open>
  C22. Removing a pair by shifting the rest of the node in place gives what rebuilding the node without
  that pair would: the other pairs in order, and the same links.
\<close>

theorem remove_in_place_is_rebuild:
  assumes "node_is n left right ov ps" "i < length ps"
  shows "node_pairs (agfs_btree_remove_at n i) = take i ps @ drop (Suc i) ps \<and> nd_left (agfs_btree_remove_at n i) = left \<and>
    nd_right (agfs_btree_remove_at n i) = right \<and> nd_overflow (agfs_btree_remove_at n i) = ov"
proof -
  have "ps = take i ps @ ps ! i # drop (Suc i) ps" using assms(2) by (rule id_take_nth_drop)
  then have "node_is n left right ov (take i ps @ ps ! i # drop (Suc i) ps)" using assms(1) by simp
  from agfs_btree_remove_at_is [OF this] have n: "node_is (agfs_btree_remove_at n i) left right ov (take i ps @ drop (Suc i) ps)"
    using assms(2) by simp
  show ?thesis using node_is_fields [OF n] node_is_pairs [OF n] by simp
qed

theorem remove_in_place_is_rebuild_witness:
  "node_pairs (agfs_btree_remove_at (node_build 1024 2048 4096 [([97], 5), ([97, 98], 6), ([99], 7)]) 1) = [([97], 5), ([99], 7)]"
proof -
  have "node_is (node_build 1024 2048 4096 [([97], 5), ([97, 98], 6), ([99], 7)]) 1024 2048 4096 [([97], 5), ([97, 98], 6), ([99], 7)]"
    by (rule node_build_is) (simp_all add: pairs_size_def bt_align_def)
  from remove_in_place_is_rebuild [OF this, of 1] show ?thesis by simp
qed

end
