(* ===== verification/Btree_Dup.thy ===== *)
theory Btree_Dup
  imports Btree_Dir
begin

text \<open>
  The duplicate values of an index tree, the second half of \<^verbatim>\<open>fs/agfs/btree.c\<close>. The value of a key in a
  leaf is an inode number, a link to a slot of up to seven numbers in a fragment node, or a link to a
  chain of nodes with up to 125 numbers each; the top two bits tell which. The functions add a number
  to a key, remove one, and walk over all of them.

  A node is a list of 128 words here. The functions hold the buffer of the leaf; a fragment or chain
  node in the same block is changed in that buffer, any other is read and logged on its own. As in
  \<open>Btree\<close> an operation without a result is one that would leave a node.
\<close>

subsection \<open>Links\<close>

unbundle bit_operations_syntax

abbreviation (input) AGFS_BTREE_DUPLICATE_NODE :: nat where "AGFS_BTREE_DUPLICATE_NODE \<equiv> 2"
abbreviation (input) AGFS_BTREE_DUPLICATE_FRAGMENT :: nat where "AGFS_BTREE_DUPLICATE_FRAGMENT \<equiv> 3"
abbreviation (input) AGFS_BTREE_NUM_FRAGMENT_VALUES :: nat where "AGFS_BTREE_NUM_FRAGMENT_VALUES \<equiv> 7"
abbreviation (input) AGFS_BTREE_NUM_DUPLICATE_VALUES :: nat where "AGFS_BTREE_NUM_DUPLICATE_VALUES \<equiv> 125"
abbreviation (input) AGFS_BTREE_MAX_FRAGMENTS :: nat where "AGFS_BTREE_MAX_FRAGMENTS \<equiv> 16"

definition agfs_dup_make_link :: "nat \<Rightarrow> nat \<Rightarrow> nat \<Rightarrow> nat" where
  "agfs_dup_make_link type off frag = push_bit 62 type OR (off AND 0x3ffffffffffffc00) OR (frag AND 0x3ff)"

definition agfs_dup_link_type :: "nat \<Rightarrow> nat" where
  "agfs_dup_link_type v = drop_bit 62 v"

definition agfs_dup_link_off :: "nat \<Rightarrow> nat" where
  "agfs_dup_link_off v = v AND 0x3ffffffffffffc00"

definition agfs_dup_link_frag :: "nat \<Rightarrow> nat" where
  "agfs_dup_link_frag v = v AND 0x3ff"

subsection \<open>Arrays of values\<close>

text \<open>
  An array is given by the index of its first word, which counts the values behind it. The slots of a
  fragment node have eight words each; the array of a chain node begins at the word of the overflow link.
\<close>

definition dup_word :: "nat \<Rightarrow> byte list \<Rightarrow> nat" where
  "dup_word k n = le_val (mem_get (8 * k) 8 n)"

definition dup_put :: "nat \<Rightarrow> nat \<Rightarrow> byte list \<Rightarrow> byte list" where
  "dup_put k v n = mem_put (8 * k) (le_enc 8 v) n"

definition agfs_dup_array :: "nat \<Rightarrow> nat" where
  "agfs_dup_array slot = slot * (AGFS_BTREE_NUM_FRAGMENT_VALUES + 1)"

abbreviation (input) agfs_dup_node_array :: nat where "agfs_dup_node_array \<equiv> 2"

definition agfs_dup_fragments_used :: "byte list \<Rightarrow> nat" where
  "agfs_dup_fragments_used n = length (filter (\<lambda>s. dup_word (agfs_dup_array s) n \<noteq> 0) [0..<AGFS_BTREE_MAX_FRAGMENTS])"

definition dup_append :: "nat \<Rightarrow> nat \<Rightarrow> byte list \<Rightarrow> byte list" where
  "dup_append arr v n = (let c = dup_word arr n in dup_put arr (c + 1) (dup_put (arr + c + 1) v n))"

text \<open>The search for a value; it leaves the node when the count is out of range.\<close>

fun dup_search :: "nat \<Rightarrow> nat \<Rightarrow> nat list \<Rightarrow> byte list \<Rightarrow> nat option option" where
  "dup_search arr v [] n = Some None"
| "dup_search arr v (i # is) n =
     (if arr + i \<ge> 128 then None else if dup_word (arr + i) n = v then Some (Some i) else dup_search arr v is n)"

text \<open>The count as the \<^verbatim>\<open>int\<close> it is read into; a negative one is like none.\<close>

definition dup_count :: "nat \<Rightarrow> byte list \<Rightarrow> nat" where
  "dup_count arr n = (let c = dup_word arr n mod 2 ^ 32 in if c < 2 ^ 31 then c else 0)"

definition dup_remove :: "nat \<Rightarrow> nat \<Rightarrow> nat \<Rightarrow> byte list \<Rightarrow> byte list" where
  "dup_remove arr cnt i n = dup_put arr (cnt - 1) (mem_move (8 * (arr + i)) (8 * (arr + i + 1)) (8 * (cnt - i)) n)"

subsection \<open>Buffers\<close>

text \<open>A node beside the leaf that is held: in the buffer of the leaf when it shares its block, else read.\<close>

definition dup_shared :: "nat \<Rightarrow> nat \<Rightarrow> btree \<Rightarrow> bool" where
  "dup_shared leaf off t \<longleftrightarrow> off div bt_bs t = leaf div bt_bs t"

definition dup_read :: "nat \<Rightarrow> nat \<Rightarrow> btree \<Rightarrow> byte list option option" where
  "dup_read leaf off t =
     (if dup_shared leaf off t then (if off mod AGFS_BTREE_NODE_SIZE \<noteq> 0 then None else Some (Some (get_node t off)))
      else Some (agfs_btree_read_node t off))"

definition dup_log :: "nat \<Rightarrow> nat \<Rightarrow> btree \<Rightarrow> btree" where
  "dup_log leaf off t = (if dup_shared leaf off t then t else bt_log off t)"

text \<open>A write of the node and of the value of the leaf.\<close>

definition dup_write :: "nat \<Rightarrow> nat \<Rightarrow> byte list \<Rightarrow> btree \<Rightarrow> btree" where
  "dup_write leaf off n t = dup_log leaf off (put_node off n t)"

definition dup_set_value :: "nat \<Rightarrow> nat \<Rightarrow> nat \<Rightarrow> btree \<Rightarrow> btree" where
  "dup_set_value leaf pos v t = put_node leaf (mem_put pos (le_enc 8 v) (get_node t leaf)) t"

text \<open>The stream grows while a second buffer is held; the header is not updated when that is its block.\<close>

definition dup_grow :: "nat \<Rightarrow> nat \<Rightarrow> btree \<Rightarrow> btree \<times> nat result" where
  "dup_grow leaf other t =
     (if bt_blk t other = 0 \<and> bt_blk t leaf \<noteq> 0 then
        (case agfs_btree_grow (Some leaf) (t\<lparr>bt_rd := (bt_rd t)(0 := False)\<rparr>) of (t', r) \<Rightarrow> (t'\<lparr>bt_rd := bt_rd t\<rparr>, r))
      else agfs_btree_grow (Some leaf) t)"

text \<open>The new node of a chain: it may lie in the block of the leaf or in that of the other node.\<close>

definition dup_new_node :: "nat \<Rightarrow> nat \<Rightarrow> nat \<Rightarrow> btree \<Rightarrow> bool option" where
  "dup_new_node leaf other off t =
     (if dup_shared leaf off t \<or> dup_shared other off t then (if off mod AGFS_BTREE_NODE_SIZE \<noteq> 0 then None else Some True)
      else Some (agfs_btree_read_node t off \<noteq> None))"

definition dup_log_new :: "nat \<Rightarrow> nat \<Rightarrow> nat \<Rightarrow> btree \<Rightarrow> btree" where
  "dup_log_new leaf other off t = (if dup_shared leaf off t \<or> dup_shared other off t then t else bt_log off t)"

subsection \<open>Adding a value\<close>

fun dup_find_loop :: "nat \<Rightarrow> btree \<Rightarrow> nat list \<Rightarrow> (nat \<times> nat) option option" where
  "dup_find_loop leaf t [] = Some None"
| "dup_find_loop leaf t (v # vs) =
     (if agfs_dup_link_type v \<noteq> AGFS_BTREE_DUPLICATE_FRAGMENT then dup_find_loop leaf t vs
      else
        (case dup_read leaf (agfs_dup_link_off v) t of
           None \<Rightarrow> None
         | Some None \<Rightarrow> dup_find_loop leaf t vs
         | Some (Some n) \<Rightarrow>
             (case List.find (\<lambda>s. dup_word (agfs_dup_array s) n = 0) [0..<AGFS_BTREE_MAX_FRAGMENTS] of
                Some s \<Rightarrow> Some (Some (agfs_dup_link_off v, s))
              | None \<Rightarrow> dup_find_loop leaf t vs)))"

definition agfs_dup_find_fragment :: "nat \<Rightarrow> btree \<Rightarrow> (btree \<times> (nat \<times> nat) result) option" where
  "agfs_dup_find_fragment leaf t =
     (case dup_find_loop leaf t (map snd (node_pairs (get_node t leaf))) of
        None \<Rightarrow> None
      | Some (Some x) \<Rightarrow> Some (t, Inr x)
      | Some None \<Rightarrow>
          bt_then (Some (agfs_btree_grow (Some leaf) t)) (\<lambda>off t.
            case dup_read leaf off t of
              None \<Rightarrow> None
            | Some None \<Rightarrow> Some (t, Inl EIO)
            | Some (Some _) \<Rightarrow> Some (put_node off (replicate AGFS_BTREE_NODE_SIZE 0) t, Inr (off, 0))))"

text \<open>The functions below return whether the value of the leaf changed.\<close>

definition agfs_btree_dup_promote :: "nat \<Rightarrow> nat \<Rightarrow> nat \<Rightarrow> nat \<Rightarrow> btree \<Rightarrow> (btree \<times> bool result) option" where
  "agfs_btree_dup_promote leaf index old v t =
     (let pos = agfs_btree_values (get_node t leaf) + 8 * index in
      bt_then (agfs_dup_find_fragment leaf t) (\<lambda>(off, slot) t.
        let arr = agfs_dup_array slot;
            t = dup_write leaf off (dup_put (arr + 2) v (dup_put (arr + 1) old (dup_put arr 2 (get_node t off)))) t
        in Some (dup_set_value leaf pos (agfs_dup_make_link AGFS_BTREE_DUPLICATE_FRAGMENT off slot) t, Inr True)))"

text \<open>A full fragment moves to a chain node: the node itself when it has no other slot in use.\<close>

definition dup_convert :: "nat \<Rightarrow> nat \<Rightarrow> byte list \<Rightarrow> byte list" where
  "dup_convert arr v n =
     dup_append agfs_dup_node_array v
       (dup_put 1 AGFS_BTREE_NULL (dup_put 0 AGFS_BTREE_NULL (mem_move 16 (8 * arr) 64 n)))"

definition dup_chain_first :: "byte list \<Rightarrow> nat \<Rightarrow> byte list" where
  "dup_chain_first slot v =
     dup_append agfs_dup_node_array v
       (mem_put 16 slot (dup_put 1 AGFS_BTREE_NULL (dup_put 0 AGFS_BTREE_NULL (replicate AGFS_BTREE_NODE_SIZE 0))))"

definition dup_to_chain :: "nat \<Rightarrow> nat \<Rightarrow> nat \<Rightarrow> nat \<Rightarrow> nat \<Rightarrow> btree \<Rightarrow> (btree \<times> bool result) option" where
  "dup_to_chain leaf pos off arr v t =
     bt_then (Some (if dup_shared leaf off t then agfs_btree_grow (Some leaf) t else dup_grow leaf off t)) (\<lambda>nd t.
       case dup_new_node leaf off nd t of
         None \<Rightarrow> None
       | Some False \<Rightarrow> Some (t, Inl EIO)
       | Some True \<Rightarrow>
           (let t = put_node nd (dup_chain_first (mem_get (8 * arr) 64 (get_node t off)) v) t;
                t = dup_write leaf off (mem_put (8 * arr) (replicate 64 0) (get_node t off)) t;
                t = dup_log_new leaf off nd t
            in Some (dup_set_value leaf pos (agfs_dup_make_link AGFS_BTREE_DUPLICATE_NODE nd 0) t, Inr True)))"

definition agfs_btree_dup_fragment_add :: "nat \<Rightarrow> nat \<Rightarrow> nat \<Rightarrow> btree \<Rightarrow> (btree \<times> bool result) option" where
  "agfs_btree_dup_fragment_add leaf index v t =
     (let n = get_node t leaf; pos = agfs_btree_values n + 8 * index; link = nd_value n index;
          off = agfs_dup_link_off link; frag = agfs_dup_link_frag link; arr = agfs_dup_array frag
      in case dup_read leaf off t of
           None \<Rightarrow> None
         | Some None \<Rightarrow> Some (t, Inl EIO)
         | Some (Some m) \<Rightarrow>
             if frag \<ge> AGFS_BTREE_MAX_FRAGMENTS then None
             else
               (let m = (if dup_word arr m > AGFS_BTREE_NUM_FRAGMENT_VALUES then dup_put arr 0 m else m)
                in if dup_word arr m < AGFS_BTREE_NUM_FRAGMENT_VALUES
                   then Some (dup_write leaf off (dup_append arr v m) t, Inr False)
                   else if agfs_dup_fragments_used m < 2
                   then Some (dup_set_value leaf pos (agfs_dup_make_link AGFS_BTREE_DUPLICATE_NODE off 0)
                                (dup_write leaf off (dup_convert arr v m) t), Inr True)
                   else dup_to_chain leaf pos off arr v t))"

definition dup_chain_next :: "nat \<Rightarrow> nat \<Rightarrow> byte list" where
  "dup_chain_next prev v =
     dup_put 3 v (dup_put 2 1 (dup_put 1 AGFS_BTREE_NULL (dup_put 0 prev (replicate AGFS_BTREE_NODE_SIZE 0))))"

definition dup_extend_chain :: "nat \<Rightarrow> nat \<Rightarrow> nat \<Rightarrow> btree \<Rightarrow> (btree \<times> bool result) option" where
  "dup_extend_chain leaf off v t =
     bt_then (Some (if dup_shared leaf off t then agfs_btree_grow (Some leaf) t else dup_grow leaf off t)) (\<lambda>nd t.
       case dup_new_node leaf off nd t of
         None \<Rightarrow> None
       | Some False \<Rightarrow> Some (t, Inl EIO)
       | Some True \<Rightarrow>
           (let t = put_node nd (dup_chain_next off v) t;
                t = dup_write leaf off (dup_put 1 nd (get_node t off)) t
            in Some (dup_log_new leaf off nd t, Inr False)))"

partial_function (option) dup_node_loop :: "nat \<Rightarrow> nat \<Rightarrow> nat \<Rightarrow> btree \<Rightarrow> (btree \<times> bool result) option" where
  "dup_node_loop leaf v off t =
     (case dup_read leaf off t of
        None \<Rightarrow> None
      | Some None \<Rightarrow> Some (t, Inl EIO)
      | Some (Some n) \<Rightarrow>
          if dup_word agfs_dup_node_array n < AGFS_BTREE_NUM_DUPLICATE_VALUES
          then Some (dup_write leaf off (dup_append agfs_dup_node_array v n) t, Inr False)
          else if nd_right n \<noteq> AGFS_BTREE_NULL then dup_node_loop leaf v (nd_right n) t
          else dup_extend_chain leaf off v t)"

definition agfs_btree_dup_node_add :: "nat \<Rightarrow> nat \<Rightarrow> nat \<Rightarrow> btree \<Rightarrow> (btree \<times> bool result) option" where
  "agfs_btree_dup_node_add leaf index v t = dup_node_loop leaf v (agfs_dup_link_off (nd_value (get_node t leaf) index)) t"

definition agfs_btree_insert_dup :: "nat \<Rightarrow> nat \<Rightarrow> nat \<Rightarrow> btree \<Rightarrow> (btree \<times> unit result) option" where
  "agfs_btree_insert_dup leaf index v t =
     (case agfs_btree_read_node t leaf of
        None \<Rightarrow> Some (t, Inl EIO)
      | Some n \<Rightarrow>
          (let old = nd_value n index in
           bt_then
             (if agfs_dup_link_type old = 0 then agfs_btree_dup_promote leaf index old v t
              else if agfs_dup_link_type old = AGFS_BTREE_DUPLICATE_FRAGMENT then agfs_btree_dup_fragment_add leaf index v t
              else agfs_btree_dup_node_add leaf index v t)
             (\<lambda>_ t. Some (bt_log leaf t, Inr ()))))"

text \<open>The insertion into an index: a key that is there gets one more value.\<close>

definition agfs_btree_insert_value :: "fpu \<Rightarrow> bkey \<Rightarrow> nat \<Rightarrow> nat \<Rightarrow> btree \<Rightarrow> (btree \<times> unit result) option" where
  "agfs_btree_insert_value fp key dtype v t =
     (if key = [] then Some (t, Inl EINVAL)
      else
        (case agfs_btree_read_header t of
           Inl e \<Rightarrow> Some (t, Inl e)
         | Inr hdr \<Rightarrow>
             (case agfs_btree_descend_t 16 fp t (hd_type hdr) key (hd_root hdr) of
                Inl e \<Rightarrow> Some (t, Inl e)
              | Inr path \<Rightarrow>
                  (case agfs_btree_read_node t (last path) of
                     None \<Rightarrow> Some (t, Inl EIO)
                   | Some n \<Rightarrow>
                       (case agfs_btree_search_node_t fp dtype n key of
                          Inr index \<Rightarrow> agfs_btree_insert_dup (last path) index v t
                        | Inl _ \<Rightarrow> bt_insert_new fp hdr path key v dtype n t)))))"

subsection \<open>Removing a value\<close>

text \<open>The value leaves its array; the node is logged unless it is in the buffer of the leaf.\<close>

definition dup_take_out :: "nat \<Rightarrow> nat \<Rightarrow> nat \<Rightarrow> nat \<Rightarrow> nat \<Rightarrow> btree \<Rightarrow> btree option" where
  "dup_take_out leaf off arr cnt i t =
     (if arr + cnt \<ge> 128 then None else Some (dup_write leaf off (dup_remove arr cnt i (get_node t off)) t))"

text \<open>The end of the function: the leaf is logged only when its own node changed.\<close>

definition dup_leaf_done :: "nat \<Rightarrow> bool \<Rightarrow> btree \<Rightarrow> (btree \<times> unit result) option" where
  "dup_leaf_done leaf changed t = Some (if changed then bt_log leaf t else t, Inr ())"

definition dup_remove_key :: "nat \<Rightarrow> nat \<Rightarrow> btree \<Rightarrow> btree" where
  "dup_remove_key leaf index t = put_node leaf (agfs_btree_remove_at (get_node t leaf) index) t"

definition dup_remove_fragment :: "nat \<Rightarrow> nat \<Rightarrow> nat \<Rightarrow> nat \<Rightarrow> btree \<Rightarrow> (btree \<times> unit result) option" where
  "dup_remove_fragment leaf index link v t =
     (let off = agfs_dup_link_off link; frag = agfs_dup_link_frag link; arr = agfs_dup_array frag;
          pos = agfs_btree_values (get_node t leaf) + 8 * index
      in case dup_read leaf off t of
           None \<Rightarrow> None
         | Some None \<Rightarrow> Some (t, Inl EIO)
         | Some (Some n) \<Rightarrow>
             if frag \<ge> AGFS_BTREE_MAX_FRAGMENTS then None
             else
               (let cnt = dup_count arr n in
                case dup_search arr v [1..<cnt + 1] n of
                  None \<Rightarrow> None
                | Some None \<Rightarrow> Some (t, Inl ENOENT)
                | Some (Some i) \<Rightarrow>
                    (case dup_take_out leaf off arr cnt i t of
                       None \<Rightarrow> None
                     | Some t \<Rightarrow>
                         if cnt = 2 then dup_leaf_done leaf True (dup_set_value leaf pos (dup_word (arr + 1) (get_node t off)) t)
                         else if cnt = 1 then dup_leaf_done leaf True (dup_remove_key leaf index t)
                         else dup_leaf_done leaf False t)))"

partial_function (option) dup_chain_find :: "nat \<Rightarrow> nat \<Rightarrow> btree \<Rightarrow> nat \<Rightarrow> (nat \<times> nat) result option" where
  "dup_chain_find leaf v t off =
     (case dup_read leaf off t of
        None \<Rightarrow> None
      | Some None \<Rightarrow> Some (Inl EIO)
      | Some (Some n) \<Rightarrow>
          (case dup_search agfs_dup_node_array v [1..<dup_count agfs_dup_node_array n + 1] n of
             None \<Rightarrow> None
           | Some (Some i) \<Rightarrow> Some (Inr (off, i))
           | Some None \<Rightarrow> if nd_right n = AGFS_BTREE_NULL then Some (Inl ENOENT) else dup_chain_find leaf v t (nd_right n)))"

partial_function (option) dup_chain_total :: "nat \<Rightarrow> btree \<Rightarrow> nat \<Rightarrow> nat \<Rightarrow> nat \<Rightarrow> (nat \<times> nat) result option" where
  "dup_chain_total leaf t off n l =
     (if off = AGFS_BTREE_NULL then Some (Inr (n, l))
      else
        (case dup_read leaf off t of
           None \<Rightarrow> None
         | Some None \<Rightarrow> Some (Inl EIO)
         | Some (Some m) \<Rightarrow>
             (let c = dup_word agfs_dup_node_array m in
              dup_chain_total leaf t (nd_right m) ((n + c) mod 2 ^ 64) (if c = 1 then dup_word (agfs_dup_node_array + 1) m else l))))"

text \<open>The last loop visits the chain and frees nothing, as \<^verbatim>\<open>agfs_dup_free_node\<close> is empty.\<close>

partial_function (option) dup_chain_free :: "nat \<Rightarrow> btree \<Rightarrow> nat \<Rightarrow> unit option" where
  "dup_chain_free leaf t off =
     (if off = AGFS_BTREE_NULL then Some ()
      else
        (case dup_read leaf off t of
           None \<Rightarrow> None
         | Some None \<Rightarrow> Some ()
         | Some (Some m) \<Rightarrow> dup_chain_free leaf t (nd_right m)))"

definition dup_demote :: "nat \<Rightarrow> nat \<Rightarrow> nat \<Rightarrow> nat \<Rightarrow> btree \<Rightarrow> (btree \<times> unit result) option" where
  "dup_demote leaf index pos link_off t =
     (case dup_chain_total leaf t link_off 0 0 of
        None \<Rightarrow> None
      | Some (Inl e) \<Rightarrow> Some (t, Inl e)
      | Some (Inr (n, l)) \<Rightarrow>
          if n > 1 then dup_leaf_done leaf False t
          else
            (let t = (if n = 1 then dup_set_value leaf pos l t else dup_remove_key leaf index t) in
             case dup_chain_free leaf t link_off of
               None \<Rightarrow> None
             | Some _ \<Rightarrow> dup_leaf_done leaf True t))"

definition dup_remove_chain :: "nat \<Rightarrow> nat \<Rightarrow> nat \<Rightarrow> nat \<Rightarrow> btree \<Rightarrow> (btree \<times> unit result) option" where
  "dup_remove_chain leaf index link v t =
     (let pos = agfs_btree_values (get_node t leaf) + 8 * index in
      case dup_chain_find leaf v t (agfs_dup_link_off link) of
        None \<Rightarrow> None
      | Some (Inl e) \<Rightarrow> Some (t, Inl e)
      | Some (Inr (off, i)) \<Rightarrow>
          (case dup_take_out leaf off agfs_dup_node_array (dup_count agfs_dup_node_array (get_node t off)) i t of
             None \<Rightarrow> None
           | Some t \<Rightarrow> dup_demote leaf index pos (agfs_dup_link_off link) t))"

definition agfs_btree_remove_dup :: "nat \<Rightarrow> nat \<Rightarrow> nat \<Rightarrow> btree \<Rightarrow> (btree \<times> unit result) option" where
  "agfs_btree_remove_dup leaf index v t =
     (case agfs_btree_read_node t leaf of
        None \<Rightarrow> Some (t, Inl EIO)
      | Some n \<Rightarrow>
          (let old = nd_value n index in
           if agfs_dup_link_type old = AGFS_BTREE_DUPLICATE_FRAGMENT then dup_remove_fragment leaf index old v t
           else if agfs_dup_link_type old \<noteq> AGFS_BTREE_DUPLICATE_NODE then Some (t, Inl ENOENT)
           else dup_remove_chain leaf index old v t))"

definition agfs_btree_delete_value :: "fpu \<Rightarrow> bkey \<Rightarrow> nat \<Rightarrow> btree \<Rightarrow> (btree \<times> unit result) option" where
  "agfs_btree_delete_value fp key v t =
     (if key = [] then Some (t, Inl ENOENT)
      else
        (case agfs_btree_read_header t of
           Inl e \<Rightarrow> Some (t, Inl e)
         | Inr hdr \<Rightarrow>
             (case agfs_btree_descend_t 16 fp t (hd_type hdr) key (hd_root hdr) of
                Inl e \<Rightarrow> Some (t, Inl e)
              | Inr path \<Rightarrow>
                  (case agfs_btree_read_node t (last path) of
                     None \<Rightarrow> Some (t, Inl EIO)
                   | Some n \<Rightarrow>
                       (case agfs_btree_search_node_t fp (hd_type hdr) n key of
                          Inl _ \<Rightarrow> Some (t, Inl ENOENT)
                        | Inr index \<Rightarrow>
                            if agfs_dup_link_type (nd_value n index) = 0 then
                              (if nd_value n index \<noteq> v then Some (t, Inl ENOENT)
                               else Some (bt_log (last path) (put_node (last path) (agfs_btree_remove_at n index) (t\<lparr>bt_dirty := True\<rparr>)), Inr ()))
                            else agfs_btree_remove_dup (last path) index v t)))))"

subsection \<open>Iteration over values\<close>

fun dup_feed :: "(bkey \<Rightarrow> nat \<Rightarrow> 's \<Rightarrow> 's \<times> bool) \<Rightarrow> bkey \<Rightarrow> nat list \<Rightarrow> 's \<Rightarrow> 's \<times> bool" where
  "dup_feed fn key [] s = (s, False)"
| "dup_feed fn key (v # vs) s = (case fn key (v mod 2 ^ 32) s of (s', stop) \<Rightarrow> if stop then (s', True) else dup_feed fn key vs s')"

definition dup_values :: "nat \<Rightarrow> nat \<Rightarrow> byte list \<Rightarrow> nat list" where
  "dup_values arr cnt n = map (\<lambda>i. dup_word (arr + i) n) [1..<cnt + 1]"

definition dup_iter_array ::
  "(bkey \<Rightarrow> nat \<Rightarrow> 's \<Rightarrow> 's \<times> bool) \<Rightarrow> bkey \<Rightarrow> nat \<Rightarrow> nat \<Rightarrow> byte list \<Rightarrow> 's \<Rightarrow> 's \<times> bool result" where
  "dup_iter_array fn key arr mx n s =
     (if dup_word arr n > mx then (s, Inl EIO)
      else case dup_feed fn key (dup_values arr (dup_word arr n) n) s of (s', stop) \<Rightarrow> (s', Inr stop))"

text \<open>The walk along a chain; the first argument counts the hops that are left of 4096.\<close>

fun dup_iter_chain ::
  "nat \<Rightarrow> btree \<Rightarrow> nat \<Rightarrow> (bkey \<Rightarrow> nat \<Rightarrow> 's \<Rightarrow> 's \<times> bool) \<Rightarrow> bkey \<Rightarrow> nat \<Rightarrow> 's \<Rightarrow> ('s \<times> bool result) option" where
  "dup_iter_chain 0 t leaf fn key off s = Some (s, if off = AGFS_BTREE_NULL then Inr False else Inl EIO)"
| "dup_iter_chain (Suc h) t leaf fn key off s =
     (if off = AGFS_BTREE_NULL then Some (s, Inr False)
      else
        (case dup_read leaf off t of
           None \<Rightarrow> None
         | Some None \<Rightarrow> Some (s, Inl EIO)
         | Some (Some n) \<Rightarrow>
             (case dup_iter_array fn key agfs_dup_node_array AGFS_BTREE_NUM_DUPLICATE_VALUES n s of
                (s', Inr False) \<Rightarrow> dup_iter_chain h t leaf fn key (nd_right n) s'
              | r \<Rightarrow> Some r)))"

definition dup_iter_value ::
  "btree \<Rightarrow> nat \<Rightarrow> (bkey \<Rightarrow> nat \<Rightarrow> 's \<Rightarrow> 's \<times> bool) \<Rightarrow> bkey \<Rightarrow> nat \<Rightarrow> 's \<Rightarrow> ('s \<times> bool result) option" where
  "dup_iter_value t leaf fn key v s =
     (if agfs_dup_link_type v \<le> 1 then (case fn key (v mod 2 ^ 32) s of (s', stop) \<Rightarrow> Some (s', Inr stop))
      else if agfs_dup_link_type v = AGFS_BTREE_DUPLICATE_FRAGMENT then
        (case dup_read leaf (agfs_dup_link_off v) t of
           None \<Rightarrow> None
         | Some None \<Rightarrow> Some (s, Inl EIO)
         | Some (Some n) \<Rightarrow>
             if agfs_dup_link_frag v \<ge> AGFS_BTREE_MAX_FRAGMENTS then None
             else Some (dup_iter_array fn key (agfs_dup_array (agfs_dup_link_frag v)) AGFS_BTREE_NUM_FRAGMENT_VALUES n s))
      else if agfs_dup_link_type v = AGFS_BTREE_DUPLICATE_NODE then dup_iter_chain 4096 t leaf fn key (agfs_dup_link_off v) s
      else Some (s, Inr False))"

fun dup_iter_pairs ::
  "btree \<Rightarrow> nat \<Rightarrow> (bkey \<Rightarrow> nat \<Rightarrow> 's \<Rightarrow> 's \<times> bool) \<Rightarrow> bpair list \<Rightarrow> 's \<Rightarrow> ('s \<times> bool result) option" where
  "dup_iter_pairs t leaf fn [] s = Some (s, Inr False)"
| "dup_iter_pairs t leaf fn ((k, v) # ps) s =
     (if length k \<ge> AGFS_BTREE_MAX_KEY_LEN then Some (s, Inl EIO)
      else
        (case dup_iter_value t leaf fn k v s of
           None \<Rightarrow> None
         | Some (s', Inr False) \<Rightarrow> dup_iter_pairs t leaf fn ps s'
         | Some r \<Rightarrow> Some r))"

partial_function (option) dup_iter_leaves ::
  "btree \<Rightarrow> (bkey \<Rightarrow> nat \<Rightarrow> 's \<Rightarrow> 's \<times> bool) \<Rightarrow> nat \<Rightarrow> 's \<Rightarrow> ('s \<times> status) option" where
  "dup_iter_leaves t fn off s =
     (case agfs_btree_read_node t off of
        None \<Rightarrow> Some (s, Some EIO)
      | Some n \<Rightarrow>
          if nd_overflow n \<noteq> AGFS_BTREE_NULL then Some (s, Some EIO)
          else
            (case dup_iter_pairs t off fn (node_pairs n) s of
               None \<Rightarrow> None
             | Some (s', res) \<Rightarrow>
                 (case res of
                    Inl e \<Rightarrow> Some (s', Some e)
                  | Inr stop \<Rightarrow>
                      if stop \<or> nd_right n = AGFS_BTREE_NULL then Some (s', None) else dup_iter_leaves t fn (nd_right n) s')))"

definition agfs_btree_iterate_values ::
  "btree \<Rightarrow> int \<Rightarrow> (bkey \<Rightarrow> nat \<Rightarrow> 's \<Rightarrow> 's \<times> bool) \<Rightarrow> 's \<Rightarrow> ('s \<times> status) option" where
  "agfs_btree_iterate_values t dtype fn s =
     (case agfs_btree_read_header t of
        Inl e \<Rightarrow> Some (s, Some e)
      | Inr hdr \<Rightarrow>
          if int (hd_type hdr) \<noteq> dtype \<and> dtype \<noteq> 0 \<and> dtype \<noteq> -1 then Some (s, Some EINVAL)
          else
            (case bt_leftmost t (hd_root hdr) of
               None \<Rightarrow> None
             | Some res \<Rightarrow>
                 (case res of
                    Inl e \<Rightarrow> Some (s, Some e)
                  | Inr off \<Rightarrow> dup_iter_leaves t fn off s)))"

declare dup_node_loop.simps [code] dup_chain_find.simps [code] dup_chain_total.simps [code] dup_chain_free.simps [code]
  dup_iter_leaves.simps [code]

end
