(* ===== verification/Btree_Values.thy ===== *)
theory Btree_Values
  imports Btree_Dup
begin

text \<open>
  What the values of an index tree stand for. An array of numbers in a node is a list (\<open>dup_arr\<close>), a value
  is a number, a slot of a fragment node or a chain of nodes (\<open>dupv\<close>), and \<open>index_tree\<close> says that a stream
  holds a tree whose values stand for such lists, each in places of its own. The last lemmas carry this
  over a change of one value: \<open>index_keep\<close> when its link stays, \<open>index_relink\<close> when the leaf gets a new one.
\<close>

subsection \<open>Words of a node\<close>

lemma dup_word_copy:
  assumes "length n = 1024" "length m = 1024" "8 * (d + l) \<le> 1024" "8 * (s + l) \<le> 1024" "j < 128"
  shows "dup_word j (mem_put (8 * d) (mem_get (8 * s) (8 * l) m) n) = (if d \<le> j \<and> j < d + l then dup_word (s + (j - d)) m else dup_word j n)"
proof -
  let ?x = "mem_put (8 * d) (mem_get (8 * s) (8 * l) m) n"
  have len: "length (mem_get (8 * s) (8 * l) m) = 8 * l" using assms by simp
  have "mem_get (8 * j) 8 ?x = (if d \<le> j \<and> j < d + l then mem_get (8 * (s + (j - d))) 8 m else mem_get (8 * j) 8 n)" (is "?l = ?r")
  proof (rule nth_equalityI)
    have "length ?x = 1024" using assms(1,3) len by (subst length_mem_put) auto
    then have "length ?l = 8" using assms(5) by simp
    moreover have "length ?r = 8" using assms by auto
    ultimately show "length ?l = length ?r" by simp
    fix i assume "i < length ?l"
    then have i: "i < 8" by (simp add: mem_get_def)
    consider "j < d" | "d \<le> j" "j < d + l" | "d + l \<le> j" by linarith
    then show "?l ! i = ?r ! i"
    proof cases
      case 2
      then have "8 * j + i - 8 * d = 8 * (j - d) + i" "8 * (j - d) + i < 8 * l" using i by auto
      then show ?thesis using assms 2 i by (simp add: mem_get_def mem_put_def nth_append len algebra_simps)
    qed (use assms i in \<open>auto simp: mem_get_def mem_put_def nth_append len\<close>)
  qed
  then show ?thesis by (simp add: dup_word_def)
qed

lemma length_dup_put [simp]: "length n = 1024 \<Longrightarrow> k < 128 \<Longrightarrow> length (dup_put k v n) = 1024"
  by (simp add: dup_put_def)

lemma dup_word_put [simp]:
  assumes "length n = 1024" "k < 128" "j < 128" "v < 2 ^ 64"
  shows "dup_word j (dup_put k v n) = (if j = k then v else dup_word j n)"
proof -
  let ?m = "le_enc 8 v @ replicate 1016 0"
  have "dup_put k v n = mem_put (8 * k) (mem_get (8 * 0) (8 * 1) ?m) n" by (simp add: dup_put_def mem_get_def)
  moreover have "dup_word 0 ?m = v" using assms(4) by (simp add: dup_word_def mem_get_def)
  ultimately show ?thesis using dup_word_copy [of n ?m k 1 0 j] assms by auto
qed

lemma dup_word_zero [simp]: "j < 128 \<Longrightarrow> dup_word j (replicate 1024 0) = 0"
proof -
  assume "j < 128"
  then have "mem_get (8 * j) 8 (replicate 1024 0 :: byte list) = replicate 8 0" by (simp add: mem_get_def)
  moreover have "le_val (replicate k 0) = 0" for k by (induction k) auto
  ultimately show ?thesis by (simp add: dup_word_def)
qed

lemma dup_word_less: "dup_word k n < 2 ^ 64"
proof -
  have "le_val bs < 2 ^ 64" if "length bs \<le> 8" for bs :: "byte list"
  proof -
    have "le_val bs < 256 ^ length bs" by (rule le_val_less)
    also have "\<dots> \<le> 256 ^ 8" using that by (intro power_increasing) auto
    finally show ?thesis by simp
  qed
  then show ?thesis by (simp add: dup_word_def mem_get_def)
qed

lemma dup_word_move:
  assumes "length n = 1024" "d + l \<le> 128" "s + l \<le> 128" "j < 128"
  shows "dup_word j (mem_move (8 * d) (8 * s) (8 * l) n) = (if d \<le> j \<and> j < d + l then dup_word (s + (j - d)) n else dup_word j n)"
  unfolding mem_move_def by (rule dup_word_copy) (use assms in auto)

lemma nd_right_word: "nd_right n = dup_word 1 n"
  by (simp add: nd_right_def dup_word_def)

subsection \<open>Arrays\<close>

text \<open>The array at a word holds the values, and the words that belong to it.\<close>

definition dup_arr :: "nat \<Rightarrow> nat list \<Rightarrow> byte list \<Rightarrow> bool" where
  "dup_arr arr vs n \<longleftrightarrow> length n = AGFS_BTREE_NODE_SIZE \<and> arr + length vs < 128 \<and> dup_word arr n = length vs \<and>
     (\<forall>i < length vs. dup_word (arr + 1 + i) n = vs ! i) \<and> (\<forall>v \<in> set vs. v < 2 ^ 64)"

lemma dup_arr_cong:
  assumes "dup_arr arr vs n" "length m = 1024" "\<forall>j. arr \<le> j \<and> j \<le> arr + length vs \<longrightarrow> dup_word j m = dup_word j n"
  shows "dup_arr arr vs m"
  using assms by (auto simp: dup_arr_def)

lemma dup_arr_append:
  assumes "dup_arr arr vs n" "arr + length vs < 127" "v < 2 ^ 64"
  shows "dup_arr arr (vs @ [v]) (dup_append arr v n)" "length (dup_append arr v n) = 1024"
    "j < 128 \<Longrightarrow> j < arr \<or> j > arr + length vs + 1 \<Longrightarrow> dup_word j (dup_append arr v n) = dup_word j n"
  using assms by (auto simp: dup_arr_def dup_append_def Let_def nth_append less_Suc_eq)

lemma dup_arr_count: "dup_arr arr vs n \<Longrightarrow> dup_count arr n = length vs"
  by (simp add: dup_arr_def dup_count_def Let_def)

lemma dup_arr_values: "dup_arr arr vs n \<Longrightarrow> dup_values arr (length vs) n = vs"
  by (intro nth_equalityI) (auto simp: dup_arr_def dup_values_def simp del: upt_Suc)

lemma dup_search_from:
  assumes "dup_arr arr vs n" "k \<le> length vs"
  shows "dup_search arr v [Suc k..<Suc (length vs)] n =
    Some (if v \<in> set (drop k vs) then Some (Suc (k + length (takeWhile (\<lambda>x. x \<noteq> v) (drop k vs)))) else None)"
  using assms(2)
proof (induction "length vs - k" arbitrary: k)
  case 0
  then show ?case by simp
next
  case (Suc d)
  then have k: "k < length vs" by simp
  have "[Suc k..<Suc (length vs)] = Suc k # [Suc (Suc k)..<Suc (length vs)]" using k by (simp add: upt_conv_Cons)
  moreover have "drop k vs = vs ! k # drop (Suc k) vs" using k by (simp add: Cons_nth_drop_Suc)
  moreover have "dup_word (arr + Suc k) n = vs ! k" "arr + Suc k < 128" using assms(1) k by (auto simp: dup_arr_def)
  ultimately show ?case using Suc.hyps(1) [of "Suc k"] Suc.hyps(2) k by auto
qed

lemma dup_search_arr:
  assumes "dup_arr arr vs n"
  shows "dup_search arr v [1..<length vs + 1] n =
    Some (if v \<in> set vs then Some (Suc (length (takeWhile (\<lambda>x. x \<noteq> v) vs))) else None)"
  using dup_search_from [OF assms, of 0 v] by simp

lemma remove1_split: "v \<in> set vs \<Longrightarrow> remove1 v vs = takeWhile (\<lambda>x. x \<noteq> v) vs @ tl (dropWhile (\<lambda>x. x \<noteq> v) vs)"
  by (induction vs) auto

lemma dup_arr_remove:
  assumes "dup_arr arr vs n" "v \<in> set vs"
  defines "i \<equiv> Suc (length (takeWhile (\<lambda>x. x \<noteq> v) vs))"
  shows "dup_arr arr (remove1 v vs) (dup_remove arr (length vs) i n)" "length (dup_remove arr (length vs) i n) = 1024"
    "j < 128 \<Longrightarrow> j < arr \<or> j > arr + length vs \<Longrightarrow> dup_word j (dup_remove arr (length vs) i n) = dup_word j n"
proof -
  define a where "a = takeWhile (\<lambda>x. x \<noteq> v) vs"
  define b where "b = tl (dropWhile (\<lambda>x. x \<noteq> v) vs)"
  have "dropWhile (\<lambda>x. x \<noteq> v) vs = v # b"
    using assms(2) by (cases "dropWhile (\<lambda>x. x \<noteq> v) vs") (auto simp: b_def dropWhile_eq_Nil_conv dest: dropWhile_eq_Cons_conv [THEN iffD1])
  then have vs: "vs = a @ v # b" "remove1 v vs = a @ b"
    using takeWhile_dropWhile_id [of "\<lambda>x. x \<noteq> v" vs] remove1_split [OF assms(2)] by (simp_all add: a_def b_def)
  have i: "i = Suc (length a)" by (simp add: i_def a_def)
  define m where "m = mem_move (8 * (arr + i)) (8 * (arr + i + 1)) (8 * (length vs - i)) n"
  have n: "length n = 1024" "arr + length vs < 128" "dup_word arr n = length vs" "\<forall>v \<in> set vs. v < 2 ^ 64"
    "\<And>k. k < length vs \<Longrightarrow> dup_word (arr + Suc k) n = vs ! k" using assms(1) by (auto simp: dup_arr_def)
  have len: "length m = 1024" using n(1,2) i vs by (simp add: m_def mem_move_def)
  have w: "dup_word j m = (if arr + i \<le> j \<and> j < arr + length vs then dup_word (j + 1) n else dup_word j n)" if "j < 128" for j
    unfolding m_def by (subst dup_word_move) (use n(1,2) i vs that in auto)
  have r: "dup_remove arr (length vs) i n = dup_put arr (length vs - 1) m" by (simp add: dup_remove_def m_def)
  have ws: "dup_word j (dup_put arr (length vs - 1) m) = (if j = arr then length vs - 1 else dup_word j m)" if "j < 128" for j
    using that len n(2) by simp
  show "length (dup_remove arr (length vs) i n) = 1024" unfolding r using len n(2) by simp
  moreover have "dup_word (arr + Suc k) (dup_put arr (length vs - 1) m) = (a @ b) ! k" if "k < length (a @ b)" for k
    using that ws [of "arr + Suc k"] w [of "arr + Suc k"] n(2) n(5) [of k] n(5) [of "Suc k"] i
    by (auto simp: vs(1) nth_append)
  ultimately show "dup_arr arr (remove1 v vs) (dup_remove arr (length vs) i n)"
    unfolding vs(2) r using ws [of arr] n(2,4) by (auto simp: dup_arr_def vs(1))
  show "j < 128 \<Longrightarrow> j < arr \<or> j > arr + length vs \<Longrightarrow> dup_word j (dup_remove arr (length vs) i n) = dup_word j n"
    unfolding r using ws [of j] w [of j] i by auto
qed

subsection \<open>Links\<close>

lemma link_masks: "(0x3ffffffffffffc00 :: nat) = push_bit 10 (mask 52)" "(0x3ff :: nat) = mask 10"
  by (simp_all add: mask_eq_exp_minus_1 push_bit_eq_mult)

lemma link_bits:
  fixes frag off :: nat
  assumes "frag < 1024" "off < 2 ^ 62" "off mod 1024 = 0"
  shows "bit frag n \<Longrightarrow> n < 10" "bit off n \<Longrightarrow> 10 \<le> n \<and> n < 62"
proof -
  have "take_bit 10 frag = frag" "take_bit 62 off = off" using assms by (simp_all add: take_bit_nat_eq_self)
  moreover have "take_bit 10 off = 0" using assms(3) by (simp add: take_bit_eq_mod)
  ultimately show "bit frag n \<Longrightarrow> n < 10" "bit off n \<Longrightarrow> 10 \<le> n \<and> n < 62"
    by (metis bit_take_bit_iff bit_0_eq bot_apply bot_bool_def not_less)+
qed

lemma link_decode:
  assumes "frag < 1024" "off < 2 ^ 62" "off mod 1024 = 0"
  shows "agfs_dup_link_type (agfs_dup_make_link ty off frag) = ty" "agfs_dup_link_off (agfs_dup_make_link ty off frag) = off"
    "agfs_dup_link_frag (agfs_dup_make_link ty off frag) = frag"
proof -
  note B = link_bits [OF assms]
  show "agfs_dup_link_type (agfs_dup_make_link ty off frag) = ty"
    unfolding agfs_dup_link_type_def agfs_dup_make_link_def link_masks
    by (rule bit_eqI) (auto simp: bit_simps dest: B)
  show "agfs_dup_link_off (agfs_dup_make_link ty off frag) = off"
    unfolding agfs_dup_link_off_def agfs_dup_make_link_def link_masks
    by (rule bit_eqI) (auto simp: bit_simps dest: B)
  show "agfs_dup_link_frag (agfs_dup_make_link ty off frag) = frag"
    unfolding agfs_dup_link_frag_def agfs_dup_make_link_def link_masks
    by (rule bit_eqI) (auto simp: bit_simps dest: B)
qed

lemma link_type_small: "v < 2 ^ 62 \<Longrightarrow> agfs_dup_link_type v = 0"
  by (simp add: agfs_dup_link_type_def drop_bit_eq_div)

lemma link_less:
  assumes "frag < 1024" "off < 2 ^ 62" "off mod 1024 = 0" "ty < 4"
  shows "agfs_dup_make_link ty off frag < 2 ^ 64"
proof -
  note B = link_bits [OF assms(1-3)]
  have "take_bit 2 ty = ty" using assms(4) by (simp add: take_bit_nat_eq_self)
  then have "bit ty n \<Longrightarrow> n < 2" for n by (metis bit_take_bit_iff)
  then have "take_bit 64 (agfs_dup_make_link ty off frag) = agfs_dup_make_link ty off frag"
    unfolding agfs_dup_make_link_def link_masks by (intro bit_eqI) (fastforce simp: bit_simps dest: B)
  then show ?thesis by (metis take_bit_nat_less_exp)
qed

subsection \<open>What the value of a key stands for\<close>

datatype dupv = DV nat | DF nat nat "nat list" | DC "(nat \<times> nat list) list"

fun dup_vals :: "dupv \<Rightarrow> nat list" where
  "dup_vals (DV v) = [v]"
| "dup_vals (DF off s vs) = vs"
| "dup_vals (DC ns) = concat (map snd ns)"

fun dup_link :: "dupv \<Rightarrow> nat" where
  "dup_link (DV v) = v"
| "dup_link (DF off s vs) = agfs_dup_make_link AGFS_BTREE_DUPLICATE_FRAGMENT off s"
| "dup_link (DC ns) = agfs_dup_make_link AGFS_BTREE_DUPLICATE_NODE (fst (hd ns)) 0"

fun dup_slots :: "dupv \<Rightarrow> (nat \<times> nat) set" where
  "dup_slots (DF off s vs) = {(off, s)}"
| "dup_slots d = {}"

fun dup_nodes :: "dupv \<Rightarrow> nat list" where
  "dup_nodes (DC ns) = map fst ns"
| "dup_nodes d = []"

text \<open>The nodes of a chain, each linked to the next.\<close>

fun dup_chain :: "btree \<Rightarrow> (nat \<times> nat list) list \<Rightarrow> bool" where
  "dup_chain t [] \<longleftrightarrow> True"
| "dup_chain t (x # ns) \<longleftrightarrow> place_ok t (fst x) \<and> dup_arr 2 (snd x) (get_node t (fst x)) \<and>
     dup_word 1 (get_node t (fst x)) = (case ns of [] \<Rightarrow> AGFS_BTREE_NULL | y # _ \<Rightarrow> fst y) \<and> dup_chain t ns"

fun dup_ok :: "btree \<Rightarrow> dupv \<Rightarrow> bool" where
  "dup_ok t (DV v) \<longleftrightarrow> v < 2 ^ 32"
| "dup_ok t (DF off s vs) \<longleftrightarrow> place_ok t off \<and> s < AGFS_BTREE_MAX_FRAGMENTS \<and> dup_arr (agfs_dup_array s) vs (get_node t off) \<and>
     2 \<le> length vs \<and> length vs \<le> AGFS_BTREE_NUM_FRAGMENT_VALUES \<and> (\<forall>v \<in> set vs. v < 2 ^ 32)"
| "dup_ok t (DC ns) \<longleftrightarrow> ns \<noteq> [] \<and> dup_chain t ns \<and> 2 \<le> length (concat (map snd ns)) \<and> (\<forall>x \<in> set ns. \<forall>v \<in> set (snd x). v < 2 ^ 32)"

text \<open>The places that belong to a value: its own, not those of the tree or of another value.\<close>

definition dup_own :: "nat set \<Rightarrow> dupv \<Rightarrow> bool" where
  "dup_own X d \<longleftrightarrow> distinct (dup_nodes d) \<and> set (dup_nodes d) \<inter> X = {} \<and> fst ` dup_slots d \<inter> X = {}"

definition dup_apart :: "dupv \<Rightarrow> dupv \<Rightarrow> bool" where
  "dup_apart d e \<longleftrightarrow> set (dup_nodes d) \<inter> set (dup_nodes e) = {} \<and> dup_slots d \<inter> dup_slots e = {} \<and>
     set (dup_nodes d) \<inter> fst ` dup_slots e = {} \<and> fst ` dup_slots d \<inter> set (dup_nodes e) = {}"

definition dups_sep :: "nat set \<Rightarrow> dupv list \<Rightarrow> bool" where
  "dups_sep X ds \<longleftrightarrow> (\<forall>d \<in> set ds. dup_own X d) \<and> sorted_wrt dup_apart ds"

lemma dup_apart_sym: "dup_apart d e = dup_apart e d"
  by (auto simp: dup_apart_def)

lemma dups_sep_middle: "dups_sep X (ds @ d # es) \<longleftrightarrow> dups_sep X (ds @ es) \<and> dup_own X d \<and> (\<forall>e \<in> set (ds @ es). dup_apart d e)"
  by (auto simp: dups_sep_def sorted_wrt_append dup_apart_sym [of _ d])

text \<open>An index: a tree whose values stand for lists of numbers.\<close>

definition index_tree :: "(bkey \<Rightarrow> bool) \<Rightarrow> fpu \<Rightarrow> nat \<Rightarrow> btree \<Rightarrow> bt \<Rightarrow> (bkey \<times> dupv) list \<Rightarrow> bool" where
  "index_tree ok_key fp dtype t tr ds \<longleftrightarrow> btree_tree ok_key fp dtype t tr \<and> bt_entries tr = map (apsnd dup_link) ds \<and>
     (\<forall>x \<in> set ds. dup_ok t (snd x)) \<and> dups_sep (set (bt_offs tr)) (map snd ds)"

subsection \<open>Facts about single values\<close>

lemma dup_array_eq: "agfs_dup_array s = 8 * s"
  by (simp add: agfs_dup_array_def)

lemma place_bounds: "place_ok t off \<Longrightarrow> healthy t \<Longrightarrow> off < 2 ^ 62 \<and> off mod 1024 = 0 \<and> off < 2 ^ 32"
  by (auto simp: place_ok_def healthy_def)

lemma dup_chain_place: "dup_chain t ns \<Longrightarrow> x \<in> set ns \<Longrightarrow> place_ok t (fst x) \<and> dup_arr 2 (snd x) (get_node t (fst x))"
  by (induction ns) auto

lemma dup_places: "dup_ok t d \<Longrightarrow> x \<in> set (dup_nodes d) \<union> fst ` dup_slots d \<Longrightarrow> place_ok t x"
  using dup_chain_place by (cases d) force+

lemma dup_arr_max: "dup_arr 2 vs n \<Longrightarrow> length vs \<le> 125"
  by (simp add: dup_arr_def)

lemma dup_link_facts:
  assumes "dup_ok t d" "healthy t"
  shows "dup_link d < 2 ^ 64"
    "d = DV v \<Longrightarrow> agfs_dup_link_type (dup_link d) = 0"
    "d = DF off s vs \<Longrightarrow> agfs_dup_link_type (dup_link d) = 3 \<and> agfs_dup_link_off (dup_link d) = off \<and> agfs_dup_link_frag (dup_link d) = s"
    "d = DC ns \<Longrightarrow> agfs_dup_link_type (dup_link d) = 2 \<and> agfs_dup_link_off (dup_link d) = fst (hd ns)"
proof -
  have b: "off < 2 ^ 62 \<and> off mod 1024 = 0 \<and> s < 1024" if "d = DF off s vs" for off s vs
    using assms that place_bounds [of t off] by auto
  have c: "fst (hd ns) < 2 ^ 62 \<and> fst (hd ns) mod 1024 = 0" if "d = DC ns" for ns
    using assms that place_bounds [of t "fst (hd ns)"] by (cases ns) auto
  show "dup_link d < 2 ^ 64"
  proof (cases d)
    case (DF off s vs)
    then show ?thesis using link_less [of s off 3] b by simp
  next
    case (DC ns)
    then show ?thesis using link_less [of 0 "fst (hd ns)" 2] c by simp
  qed (use assms in auto)
  show "d = DV v \<Longrightarrow> agfs_dup_link_type (dup_link d) = 0" using assms by (auto intro: link_type_small)
  show "d = DF off s vs \<Longrightarrow> agfs_dup_link_type (dup_link d) = 3 \<and> agfs_dup_link_off (dup_link d) = off \<and> agfs_dup_link_frag (dup_link d) = s"
    using link_decode [of s off 3] b by simp
  show "d = DC ns \<Longrightarrow> agfs_dup_link_type (dup_link d) = 2 \<and> agfs_dup_link_off (dup_link d) = fst (hd ns)"
    using link_decode [of 0 "fst (hd ns)" 2] c by simp
qed

text \<open>A value is kept when its nodes are, and its slot when it has one.\<close>

definition dup_same :: "btree \<Rightarrow> btree \<Rightarrow> dupv \<Rightarrow> bool" where
  "dup_same t t' d \<longleftrightarrow> (\<forall>x \<in> set (dup_nodes d). place_ok t' x \<and> get_node t' x = get_node t x) \<and>
     (\<forall>(off, s) \<in> dup_slots d. place_ok t' off \<and> length (get_node t' off) = 1024 \<and>
        (\<forall>j. 8 * s \<le> j \<and> j < 8 * s + 8 \<longrightarrow> dup_word j (get_node t' off) = dup_word j (get_node t off)))"

lemma dup_chain_cong:
  "dup_chain t ns \<Longrightarrow> \<forall>x \<in> set ns. place_ok t' (fst x) \<and> get_node t' (fst x) = get_node t (fst x) \<Longrightarrow> dup_chain t' ns"
  by (induction ns) auto

lemma dup_same_ok: "dup_ok t d \<Longrightarrow> dup_same t t' d \<Longrightarrow> dup_ok t' d"
proof (cases d)
  case (DF off s vs)
  assume "dup_ok t d" "dup_same t t' d"
  then have d: "dup_arr (8 * s) vs (get_node t off)" "length vs \<le> 7" "length (get_node t' off) = 1024" "place_ok t' off"
    "\<forall>j. 8 * s \<le> j \<and> j < 8 * s + 8 \<longrightarrow> dup_word j (get_node t' off) = dup_word j (get_node t off)"
    by (simp_all add: DF dup_same_def dup_array_eq)
  have "dup_arr (8 * s) vs (get_node t' off)" by (rule dup_arr_cong [OF d(1,3)]) (use d(2,5) in simp)
  then show ?thesis using \<open>dup_ok t d\<close> d(4) by (simp add: DF dup_array_eq)
next
  case (DC ns)
  assume "dup_ok t d" "dup_same t t' d"
  then show ?thesis using dup_chain_cong [of t ns t'] by (auto simp: DC dup_same_def)
qed auto

subsection \<open>Changes of the stream\<close>

text \<open>The nodes that an operation writes; the stream grows by at most one node.\<close>

definition changed :: "btree \<Rightarrow> btree \<Rightarrow> (nat \<rightharpoonup> byte list) \<Rightarrow> bool" where
  "changed t t' W \<longleftrightarrow> healthy t' \<and> bt_size t \<le> bt_size t' \<and> bt_size t' \<le> bt_size t + AGFS_BTREE_NODE_SIZE \<and>
     mem_get 0 32 (get_node t' 0) = mem_get 0 32 (get_node t 0) \<and>
     (\<forall>x. place_ok t x \<longrightarrow> place_ok t' x) \<and>
     (\<forall>x. place_ok t x \<or> place_ok t' x \<and> x \<in> dom W \<longrightarrow> get_node t' x = (case W x of None \<Rightarrow> get_node t x | Some n \<Rightarrow> n))"

lemma changed_refl: "healthy t \<Longrightarrow> changed t t Map.empty"
  by (simp add: changed_def)

lemma changed_wrote:
  assumes "changed t t1 W" "wrote t1 t2 off n" "place_ok t1 off"
  shows "changed t t2 (W(off \<mapsto> n))"
proof -
  have h: "healthy t1" using assms(1) by (simp add: changed_def)
  have "get_node t2 x = (if x = off then n else get_node t1 x)" if "place_ok t1 x" for x
    using place_distinct(1) [OF h that] place_distinct(1) [OF h assms(3)] assms(2) by (simp add: wrote_def)
  moreover have "get_node t2 0 = get_node t1 0" using place_distinct(1,2) [OF h assms(3)] assms(2) by (simp add: wrote_def)
  moreover have "bt_size t2 = bt_size t1" "healthy t2" "\<And>x. place_ok t2 x = place_ok t1 x" using assms(2) by (simp_all add: wrote_def)
  ultimately show ?thesis using assms(1) unfolding changed_def by auto
qed

lemma changed_grown:
  assumes "healthy t" "grown t t1" shows "changed t t1 Map.empty" "place_ok t1 (bt_size t)"
  using assms place_distinct(1,2) [OF assms(1)] by (auto simp: changed_def grown_def)

lemma changed_log [simp]: "changed t (bt_log x t') W = changed t t' W"
  by (simp add: changed_def healthy_def bt_log_def get_node_def place_ok_def bt_blk_def)

subsection \<open>A change of one value\<close>

lemma node_set_value:
  assumes "node_is n l r ov (A @ (k, v) # B)" "v' < 2 ^ 64"
  shows "node_is (mem_put (agfs_btree_values n + 8 * length A) (le_enc 8 v') n) l r ov (A @ (k, v') # B)"
proof -
  let ?ps = "A @ (k, v) # B" and ?qs = "A @ (k, v') # B"
  obtain pad rest where n: "n = node_bytes l r ov ?ps pad rest"
      "length pad = bt_align (28 + keys_length ?ps) - (28 + keys_length ?ps)" and len: "length n = 1024"
    using assms(1) unfolding node_is_def by blast
  let ?pre = "le_enc 8 l @ le_enc 8 r @ le_enc 8 ov @ le_enc 2 (length ?ps) @ le_enc 2 (keys_length ?ps) @ concat (map fst ?ps) @ pad
      @ concat (map (le_enc 2) (key_ends 0 (map fst ?ps))) @ concat (map (le_enc 8 \<circ> snd) A)"
  let ?post = "concat (map (le_enc 8 \<circ> snd) B) @ rest"
  have n': "n = ?pre @ le_enc 8 v @ ?post" by (simp add: n(1) node_bytes_def)
  have "length ?pre = agfs_btree_values n + 8 * length A"
    using node_is_values [OF assms(1)] n(2) bt_align_ge [of "28 + keys_length ?ps"]
    by (simp only: length_append length_concat_keys length_ends_bytes length_vals_bytes length_key_ends length_le_enc length_map)
  then have "mem_put (agfs_btree_values n + 8 * length A) (le_enc 8 v') n = ?pre @ le_enc 8 v' @ ?post"
    unfolding n' by (rule mem_put_append1) simp
  also have "\<dots> = node_bytes l r ov ?qs pad rest" by (simp add: node_bytes_def)
  finally have "mem_put (agfs_btree_values n + 8 * length A) (le_enc 8 v') n = node_bytes l r ov ?qs pad rest" .
  moreover have "length (node_bytes l r ov ?qs pad rest) = 1024" using len n by (simp add: length_node_bytes)
  moreover have "\<forall>p \<in> set ?qs. snd p < 2 ^ 64" using assms by (auto simp: node_is_def)
  ultimately show ?thesis using n(2) assms(1) unfolding node_is_def by auto
qed


text \<open>The place of a key: its leaf in the tree, and its value among the others.\<close>

definition index_at :: "(bkey \<Rightarrow> bool) \<Rightarrow> fpu \<Rightarrow> nat \<Rightarrow> btree \<Rightarrow> frame list \<Rightarrow> nat \<Rightarrow> bpair list \<Rightarrow> bkey \<Rightarrow> bpair list \<Rightarrow>
    (bkey \<times> dupv) list \<Rightarrow> dupv \<Rightarrow> (bkey \<times> dupv) list \<Rightarrow> bool" where
  "index_at ok_key fp dtype t fs leaf A key B ds d es \<longleftrightarrow>
     index_tree ok_key fp dtype t (plug fs (BL leaf (A @ (key, dup_link d) # B))) (ds @ (key, d) # es) \<and>
     items_entries (flat_l fs) @ A = map (apsnd dup_link) ds \<and> B @ items_entries (flat_r fs) = map (apsnd dup_link) es"

lemma index_atD:
  assumes "index_at ok_key fp dtype t fs leaf A key B ds d es"
  shows "healthy t" "place_ok t leaf" "\<exists>l r. node_is (get_node t leaf) l r AGFS_BTREE_NULL (A @ (key, dup_link d) # B)"
    "dup_ok t d" "x \<in> set (ds @ es) \<Longrightarrow> dup_ok t (snd x)"
    "dup_own (set (bt_offs (plug fs (BL leaf (A @ (key, dup_link d) # B))))) d" "x \<in> set (ds @ es) \<Longrightarrow> dup_apart d (snd x)"
    "x \<in> set (ds @ es) \<Longrightarrow> dup_own (set (bt_offs (plug fs (BL leaf (A @ (key, dup_link d) # B))))) (snd x)"
    "dups_sep (set (bt_offs (plug fs (BL leaf (A @ (key, dup_link d) # B))))) (map snd (ds @ es))"
    "leaf \<in> set (bt_offs (plug fs (BL leaf (A @ (key, dup_link d) # B))))"
proof -
  let ?tr = "plug fs (BL leaf (A @ (key, dup_link d) # B))"
  note I = assms [unfolded index_at_def index_tree_def btree_tree_def]
  show "healthy t" using I by simp
  have "leaf \<in> set (bt_offs ?tr)" by (simp add: set_offs_plug)
  then show "place_ok t leaf" "leaf \<in> set (bt_offs ?tr)" using I by (auto simp: shape_def)
  have "desc_ok t (leaf, AGFS_BTREE_NULL, A @ (key, dup_link d) # B)" using I by (auto simp: shape_def descs_plug)
  then show "\<exists>l r. node_is (get_node t leaf) l r AGFS_BTREE_NULL (A @ (key, dup_link d) # B)" by (auto simp: desc_ok_def)
  show "dup_ok t d" "x \<in> set (ds @ es) \<Longrightarrow> dup_ok t (snd x)" using I by auto
  have "dups_sep (set (bt_offs ?tr)) (map snd ds @ d # map snd es)" using I by simp
  note S = this [unfolded dups_sep_middle]
  then show "dup_own (set (bt_offs ?tr)) d" "x \<in> set (ds @ es) \<Longrightarrow> dup_apart d (snd x)" by auto
  from S show "x \<in> set (ds @ es) \<Longrightarrow> dup_own (set (bt_offs ?tr)) (snd x)" by (auto simp: dups_sep_def)
  from S show "dups_sep (set (bt_offs ?tr)) (map snd (ds @ es))" by simp
qed

lemma index_change:
  assumes I: "index_at ok_key fp dtype t fs leaf A key B ds d es" and C: "changed t t' W"
    and N: "node_is (get_node t leaf) l r AGFS_BTREE_NULL (A @ (key, dup_link d) # B)"
      "node_is (get_node t' leaf) l r AGFS_BTREE_NULL (A @ (key, dup_link d') # B)"
    and W: "dom W \<inter> set (bt_offs (plug fs (BL leaf (A @ (key, dup_link d) # B)))) \<subseteq> {leaf}"
    and O: "dup_ok t' d'" "\<And>x. x \<in> set (ds @ es) \<Longrightarrow> dup_same t t' (snd x)"
    and S: "dup_own (set (bt_offs (plug fs (BL leaf (A @ (key, dup_link d) # B))))) d'" "\<And>x. x \<in> set (ds @ es) \<Longrightarrow> dup_apart d' (snd x)"
  shows "index_at ok_key fp dtype t' fs leaf A key B ds d' es"
proof -
  let ?tr = "plug fs (BL leaf (A @ (key, dup_link d) # B))" and ?tr' = "plug fs (BL leaf (A @ (key, dup_link d') # B))"
  note J = I [unfolded index_at_def index_tree_def btree_tree_def]
  have offs: "set (bt_offs ?tr') = set (bt_offs ?tr)" by (simp add: set_offs_plug)
  have sd: "sound {} t ?tr" using J by simp
  have pl: "place_ok t x" if "x \<in> set (bt_offs ?tr)" for x using sd that by (auto simp: shape_def)
  have "sound {} t' ?tr'"
  proof (rule replace_leaf [OF sd N], intro ballI impI)
    fix x assume "x \<in> set (bt_offs ?tr)" "x \<noteq> leaf"
    then have "W x = None" "place_ok t x" using W pl by blast+
    then show "get_node t' x = get_node t x" using C by (auto simp: changed_def split: option.splits)
  qed (use pl C in \<open>auto simp: changed_def\<close>)
  moreover have "header_ok t' dtype (root_off ?tr')"
    using J C header_ok_low [of t' t] by (simp add: changed_def root_off_plug split: if_splits)
  moreover have "items_ok ok_key (key_lt fp dtype) (bt_flat ?tr')"
    using J unfolding flat_plug bt_flat.simps by (auto simp: items_ok_append items_ok_Cons kv_items_def item_lt_def)
  moreover have "bt_entries ?tr' = map (apsnd dup_link) (ds @ (key, d') # es)" using J by (simp add: entries_plug)
  moreover have "\<forall>x \<in> set (ds @ (key, d') # es). dup_ok t' (snd x)"
    using O(1) dup_same_ok [OF index_atD(5) [OF I] O(2)] by auto
  moreover have "dups_sep (set (bt_offs ?tr)) (map snd ds @ d' # map snd es)"
    unfolding dups_sep_middle using index_atD(9) [OF I] S by auto
  ultimately show ?thesis using J C unfolding index_at_def index_tree_def btree_tree_def offs by (simp add: changed_def)
qed

subsection \<open>Buffers that are there\<close>

lemma dup_read_ok: "healthy t \<Longrightarrow> place_ok t off \<Longrightarrow> dup_read leaf off t = Some (Some (get_node t off))"
  by (auto simp: dup_read_def read_place) (simp add: place_ok_def)

lemma dup_new_node_ok: "healthy t \<Longrightarrow> place_ok t off \<Longrightarrow> dup_new_node leaf other off t = Some True"
  by (auto simp: dup_new_node_def read_place) (simp_all add: place_ok_def)

lemma dup_write_wrote: "healthy t \<Longrightarrow> length n = 1024 \<Longrightarrow> wrote t (dup_write leaf off n t) off n"
  using wrote_put wrote_log by (simp add: dup_write_def dup_log_def)

lemma changed_log_new [simp]: "changed t (dup_log_new leaf other off t') W = changed t t' W"
  by (simp add: dup_log_new_def)

lemma dup_set_value_wrote:
  "healthy t \<Longrightarrow> pos + 8 \<le> 1024 \<Longrightarrow> wrote t (dup_set_value leaf pos v t) leaf (mem_put pos (le_enc 8 v) (get_node t leaf))"
  unfolding dup_set_value_def by (rule wrote_put) (simp_all add: length_get_node)

lemma dup_grow_ok:
  assumes "healthy t" "bt_size t + 1024 < 2 ^ 32"
  obtains t' where "dup_grow leaf other t = (t', Inr (bt_size t))" "grown t t'"
proof (cases "bt_blk t other = 0 \<and> bt_blk t leaf \<noteq> 0")
  case True
  let ?u = "t\<lparr>bt_rd := (bt_rd t)(0 := False)\<rparr>"
  note E = healthy_extend [OF assms]
  have g: "grow_outcome ?u = None" using assms(1) by (cases "bt_grow t") (auto simp: grow_outcome_def healthy_def)
  have e: "bt_extend ?u = (bt_extend t)\<lparr>bt_rd := (bt_rd t)(0 := False)\<rparr>" by (simp add: bt_extend_def bt_blk_def)
  have m: "bt_map (bt_extend t) 0 = Inr True" using E(1) by (simp add: healthy_def)
  have rd: "agfs_btree_read_node (bt_extend ?u) 0 = None" unfolding e using m by (simp add: agfs_btree_read_node_def bt_blk_def)
  have blk: "bt_blk (bt_extend ?u) leaf \<noteq> 0" using True by (simp add: e bt_extend_def bt_blk_def)
  have "agfs_btree_grow (Some leaf) ?u = (bt_extend ?u, Inr (bt_size t))"
    using g m rd blk by (simp add: agfs_btree_grow_def Let_def) (simp add: e)
  moreover have "(bt_extend ?u)\<lparr>bt_rd := bt_rd t\<rparr> = bt_extend t" unfolding e by (simp add: bt_extend_def)
  ultimately have "dup_grow leaf other t = (bt_extend t, Inr (bt_size t))" using True by (simp add: dup_grow_def)
  moreover have "grown t (bt_extend t)" using E by (simp add: grown_def)
  ultimately show thesis by (rule that)
next
  case False
  obtain t' where "agfs_btree_grow (Some leaf) t = (t', Inr (bt_size t))" "grown t t'" by (rule grow_ok [OF assms])
  then show thesis using False by (intro that) (simp_all only: dup_grow_def if_False)
qed

lemma dup_grow_either:
  assumes "healthy t" "bt_size t + 1024 < 2 ^ 32"
  obtains t' where "(if dup_shared leaf off t then agfs_btree_grow (Some leaf) t else dup_grow leaf off t) = (t', Inr (bt_size t))" "grown t t'"
proof (cases "dup_shared leaf off t")
  case True
  obtain t' where "agfs_btree_grow (Some leaf) t = (t', Inr (bt_size t))" "grown t t'" by (rule grow_ok [OF assms])
  then show thesis using True by (intro that) simp_all
next
  case False
  obtain t' where "dup_grow leaf off t = (t', Inr (bt_size t))" "grown t t'" by (rule dup_grow_ok [OF assms])
  then show thesis using False by (intro that) simp_all
qed

subsection \<open>A value that stays at its link, and one that gets a new link\<close>

lemma changed_get: "changed t t' W \<Longrightarrow> place_ok t x \<Longrightarrow> W x = None \<Longrightarrow> get_node t' x = get_node t x"
  by (simp add: changed_def)

lemma changed_new: "changed t t' W \<Longrightarrow> place_ok t' x \<Longrightarrow> W x = Some n \<Longrightarrow> get_node t' x = n"
  by (auto simp: changed_def dom_def)

lemma changed_place: "changed t t' W \<Longrightarrow> place_ok t x \<Longrightarrow> place_ok t' x"
  by (simp add: changed_def)

lemma changed_same:
  assumes "changed t t' W" "dup_ok t d" "set (dup_nodes d) \<inter> dom W = {}" "fst ` dup_slots d \<inter> dom W = {}"
  shows "dup_same t t' d"
proof -
  have h: "healthy t'" using assms(1) by (simp add: changed_def)
  have "place_ok t' x \<and> get_node t' x = get_node t x" if "x \<in> set (dup_nodes d) \<union> fst ` dup_slots d" for x
  proof -
    have "place_ok t x" by (rule dup_places [OF assms(2) that])
    moreover have "W x = None" using that assms(3,4) by (auto simp: dom_def)
    ultimately show ?thesis using changed_get [OF assms(1)] changed_place [OF assms(1)] by blast
  qed
  then show ?thesis using length_get_node [OF h] by (fastforce simp: dup_same_def)
qed

lemma index_keep:
  assumes I: "index_at ok_key fp dtype t fs leaf A key B ds d es" and C: "changed t t' W"
    and W: "dom W \<inter> set (bt_offs (plug fs (BL leaf (A @ (key, dup_link d) # B)))) = {}" and L: "dup_link d' = dup_link d"
    and O: "dup_ok t' d'" "\<And>x. x \<in> set (ds @ es) \<Longrightarrow> dup_same t t' (snd x)"
    and S: "dup_own (set (bt_offs (plug fs (BL leaf (A @ (key, dup_link d) # B))))) d'" "\<And>x. x \<in> set (ds @ es) \<Longrightarrow> dup_apart d' (snd x)"
  shows "index_at ok_key fp dtype t' fs leaf A key B ds d' es"
proof -
  obtain l r where N: "node_is (get_node t leaf) l r AGFS_BTREE_NULL (A @ (key, dup_link d) # B)" using index_atD(3) [OF I] by blast
  have "W leaf = None" using W index_atD(10) [OF I] by blast
  then have "get_node t' leaf = get_node t leaf" using changed_get [OF C index_atD(2) [OF I]] by blast
  then show ?thesis by (intro index_change [OF I C N _ _ O S]) (use N W L in auto)
qed

lemma index_relink:
  assumes I: "index_at ok_key fp dtype t fs leaf A key B ds d es" and C: "changed t t1 W"
    and W: "dom W \<inter> set (bt_offs (plug fs (BL leaf (A @ (key, dup_link d) # B)))) = {}"
    and O: "dup_ok t1 d'" "\<And>x. x \<in> set (ds @ es) \<Longrightarrow> dup_same t t1 (snd x)"
    and S: "dup_own (set (bt_offs (plug fs (BL leaf (A @ (key, dup_link d) # B))))) d'" "\<And>x. x \<in> set (ds @ es) \<Longrightarrow> dup_apart d' (snd x)"
  defines "t' \<equiv> dup_set_value leaf (agfs_btree_values (get_node t leaf) + 8 * length A) (dup_link d') t1"
  shows "index_at ok_key fp dtype t' fs leaf A key B ds d' es" "\<exists>n. changed t t' (W(leaf \<mapsto> n))"
proof -
  let ?X = "set (bt_offs (plug fs (BL leaf (A @ (key, dup_link d) # B))))" and ?p = "agfs_btree_values (get_node t leaf) + 8 * length A"
  obtain l r where N: "node_is (get_node t leaf) l r AGFS_BTREE_NULL (A @ (key, dup_link d) # B)" using index_atD(3) [OF I] by blast
  have h1: "healthy t1" and p1: "place_ok t1 leaf" using C index_atD(2) [OF I] by (simp_all add: changed_def)
  have leafX: "leaf \<in> ?X" by (rule index_atD(10) [OF I])
  then have g: "get_node t1 leaf = get_node t leaf" using W changed_get [OF C index_atD(2) [OF I]] by blast
  have pos: "?p + 8 \<le> 1024" using node_isD(6) [OF N] node_is_values [OF N] by (simp add: pairs_size_def)
  have N': "node_is (mem_put ?p (le_enc 8 (dup_link d')) (get_node t leaf)) l r AGFS_BTREE_NULL (A @ (key, dup_link d') # B)"
    by (rule node_set_value [OF N]) (rule dup_link_facts(1) [OF O(1) h1])
  define n where "n = mem_put ?p (le_enc 8 (dup_link d')) (get_node t1 leaf)"
  have w: "wrote t1 t' leaf n" unfolding t'_def n_def by (rule dup_set_value_wrote [OF h1 pos])
  have c: "changed t t' (W(leaf \<mapsto> n))" by (rule changed_wrote [OF C w p1])
  have own: "dup_same t1 t' e" if "dup_own ?X e" "dup_ok t1 e" for e
    by (rule changed_same [OF changed_wrote [OF changed_refl [OF h1] w p1] that(2)]) (use that(1) leafX in \<open>auto simp: dup_own_def\<close>)
  have same: "dup_same t t' (snd x)" if "x \<in> set (ds @ es)" for x
    using O(2) [OF that] own [OF index_atD(8) [OF I that] dup_same_ok [OF index_atD(5) [OF I that] O(2) [OF that]]]
    by (fastforce simp: dup_same_def)
  have "get_node t' leaf = n" using w by (simp add: wrote_def)
  then show "index_at ok_key fp dtype t' fs leaf A key B ds d' es"
    by (intro index_change [OF I c N _ _ dup_same_ok [OF O(1) own [OF S(1) O(1)]] same S]) (use N' W g in \<open>auto simp: n_def\<close>)
  show "\<exists>n. changed t t' (W(leaf \<mapsto> n))" using c by blast
qed

end
