(* ===== verification/Btree_Index.thy ===== *)
theory Btree_Index
  imports Btree_Values
begin

text \<open>
  Insertion into an index tree, \<^verbatim>\<open>agfs_btree_insert_value\<close>. The value of the key goes from a number to a
  slot of a fragment, from there to a chain, and the chain grows; each step is shown to add exactly the
  new number to the key and to leave the other values alone. \<open>idx_vals\<close> is the multimap of an index.
\<close>

subsection \<open>Places of other values\<close>

lemma index_at_place:
  assumes "index_at ok_key fp dtype t fs leaf A key B ds d es"
  shows "x \<in> set (bt_offs (plug fs (BL leaf (A @ (key, dup_link d) # B)))) \<Longrightarrow> place_ok t x"
  using assms by (auto simp: index_at_def index_tree_def btree_tree_def shape_def)

lemma dups_sep_apart: "dups_sep X xs \<Longrightarrow> d \<in> set xs \<Longrightarrow> e \<in> set xs \<Longrightarrow> d \<noteq> e \<Longrightarrow> dup_apart d e"
proof -
  assume a: "dups_sep X xs" "d \<in> set xs" "e \<in> set xs" "d \<noteq> e"
  obtain ys zs where xs: "xs = ys @ d # zs" using a(2) by (meson split_list)
  then have "e \<in> set (ys @ zs)" using a(3,4) by auto
  then show ?thesis using a(1) unfolding xs dups_sep_middle by blast
qed

text \<open>The values of a leaf are links of values of the index.\<close>

lemma map_append_part:
  assumes "ps @ qs = map f xs"
  obtains ys zs where "ps = map f ys" "qs = map f zs" "xs = ys @ zs"
  using assms by (metis map_eq_append_conv)

lemma leaf_links:
  assumes "index_at ok_key fp dtype t fs leaf A key B ds d es"
  obtains xs where "map snd (A @ (key, dup_link d) # B) = map dup_link xs" "set xs \<subseteq> insert d (snd ` set (ds @ es))"
proof -
  have "items_entries (flat_l fs) @ A = map (apsnd dup_link) ds" "B @ items_entries (flat_r fs) = map (apsnd dup_link) es"
    using assms by (simp_all add: index_at_def)
  then obtain xs ys where "A = map (apsnd dup_link) xs" "set xs \<subseteq> set ds" "B = map (apsnd dup_link) ys" "set ys \<subseteq> set es"
    by (metis map_append_part set_append sup.cobounded1 sup.cobounded2)
  then show thesis by (intro that [of "map snd xs @ d # map snd ys"]) auto
qed

text \<open>A node is rewritten in one slot; fresh nodes may be written as well.\<close>

lemma slot_same:
  assumes "changed t t' W" "W off = Some n" "place_ok t off" "length n = 1024"
    "\<And>j. j < 128 \<Longrightarrow> \<not> (8 * s \<le> j \<and> j < 8 * s + 8) \<Longrightarrow> dup_word j n = dup_word j (get_node t off)"
    "\<And>x. x \<in> dom W \<Longrightarrow> x = off \<or> \<not> place_ok t x" "dup_ok t e" "(off, s) \<notin> dup_slots e" "off \<notin> set (dup_nodes e)"
  shows "dup_same t t' e"
proof (cases "off \<in> fst ` dup_slots e")
  case False
  have "x \<notin> dom W" if "x \<in> set (dup_nodes e) \<union> fst ` dup_slots e" for x
    using dup_places [OF assms(7) that] assms(6,9) that False by blast
  then show ?thesis by (intro changed_same [OF assms(1,7)]) auto
next
  case True
  then obtain s2 vs where e: "e = DF off s2 vs" using assms(9) by (cases e) auto
  then have "s2 \<noteq> s" "s2 < 16" using assms(7,8) by auto
  moreover have "get_node t' off = n" using changed_new [OF assms(1) changed_place [OF assms(1,3)] assms(2)] .
  ultimately show ?thesis using assms(4,5) changed_place [OF assms(1,3)] by (auto simp: e dup_same_def)
qed

subsection \<open>The first duplicate\<close>

lemma find_loop:
  assumes "healthy t" "\<forall>x \<in> set xs. dup_ok t x"
  shows "dup_find_loop leaf t (map dup_link xs) = Some None \<or>
    (\<exists>off s s0 vs. dup_find_loop leaf t (map dup_link xs) = Some (Some (off, s)) \<and> DF off s0 vs \<in> set xs \<and> s < 16 \<and>
       dup_word (8 * s) (get_node t off) = 0)"
  using assms(2)
proof (induction xs)
  case (Cons x xs)
  have ok: "dup_ok t x" using Cons.prems by simp
  note F = dup_link_facts [OF ok assms(1)]
  show ?case
  proof (cases x)
    case (DF off s0 vs)
    let ?P = "\<lambda>s. dup_word (agfs_dup_array s) (get_node t off) = 0"
    have rd: "dup_read leaf off t = Some (Some (get_node t off))" using ok DF by (intro dup_read_ok [OF assms(1)]) simp
    note f = F(3) [OF DF]
    show ?thesis
    proof (cases "List.find ?P [0..<16]")
      case None
      then show ?thesis using Cons rd f by auto
    next
      case (Some s)
      then have "s < 16" "?P s" by (auto simp: find_Some_iff)
      then have "dup_find_loop leaf t (map dup_link (x # xs)) = Some (Some (off, s)) \<and> DF off s0 vs \<in> set (x # xs) \<and> s < 16 \<and>
          dup_word (8 * s) (get_node t off) = 0" using Some rd f DF by (simp add: dup_array_eq)
      then show ?thesis by blast
    qed
  qed (use Cons F(2,4) in auto)
qed simp

lemma dup_arr_two:
  assumes "length n = 1024" "arr < 120" "v < 2 ^ 64" "w < 2 ^ 64"
  shows "dup_arr arr [v, w] (dup_put (arr + 2) w (dup_put (arr + 1) v (dup_put arr 2 n)))"
    "length (dup_put (arr + 2) w (dup_put (arr + 1) v (dup_put arr 2 n))) = 1024"
    "j < 128 \<Longrightarrow> \<not> (arr \<le> j \<and> j < arr + 8) \<Longrightarrow> dup_word j (dup_put (arr + 2) w (dup_put (arr + 1) v (dup_put arr 2 n))) = dup_word j n"
  using assms by (auto simp: dup_arr_def less_Suc_eq)

text \<open>One more number for the key, in a stream that is at most a node longer.\<close>

definition value_added :: "(bkey \<Rightarrow> bool) \<Rightarrow> fpu \<Rightarrow> nat \<Rightarrow> btree \<Rightarrow> frame list \<Rightarrow> nat \<Rightarrow> bpair list \<Rightarrow> bkey \<Rightarrow> bpair list \<Rightarrow>
    (bkey \<times> dupv) list \<Rightarrow> dupv \<Rightarrow> (bkey \<times> dupv) list \<Rightarrow> nat \<Rightarrow> btree \<Rightarrow> bool" where
  "value_added ok_key fp dtype t fs leaf A key B ds d es v t' \<longleftrightarrow>
     (\<exists>d'. index_at ok_key fp dtype t' fs leaf A key B ds d' es \<and> mset (dup_vals d') = add_mset v (mset (dup_vals d)) \<and>
        bt_size t' \<le> bt_size t + AGFS_BTREE_NODE_SIZE)"

lemma fresh_place:
  assumes "index_at ok_key fp dtype t fs leaf A key B ds d es"
  shows "\<not> place_ok t (bt_size t)" "bt_size t \<notin> set (bt_offs (plug fs (BL leaf (A @ (key, dup_link d) # B))))"
    "x \<in> set (ds @ es) \<Longrightarrow> bt_size t \<notin> set (dup_nodes (snd x)) \<union> fst ` dup_slots (snd x)"
    "bt_size t \<notin> set (dup_nodes d) \<union> fst ` dup_slots d"
proof -
  show f: "\<not> place_ok t (bt_size t)" using place_distinct(3) [OF index_atD(1) [OF assms]] by blast
  show "bt_size t \<notin> set (bt_offs (plug fs (BL leaf (A @ (key, dup_link d) # B))))" using index_at_place [OF assms] f by blast
  show "x \<in> set (ds @ es) \<Longrightarrow> bt_size t \<notin> set (dup_nodes (snd x)) \<union> fst ` dup_slots (snd x)"
    using dup_places [OF index_atD(5) [OF assms]] f by blast
  show "bt_size t \<notin> set (dup_nodes d) \<union> fst ` dup_slots d" using dup_places [OF index_atD(4) [OF assms]] f by blast
qed

text \<open>The slot that the first duplicate gets: free in a fragment node of the leaf, or in a new one.\<close>

lemma find_fragment:
  assumes I: "index_at ok_key fp dtype t fs leaf A key B ds d es" and sz: "bt_size t + 1024 < 2 ^ 32"
  obtains (old) off s s0 vs where "agfs_dup_find_fragment leaf t = Some (t, Inr (off, s))" "DF off s0 vs \<in> insert d (snd ` set (ds @ es))"
      "s < 16" "dup_word (8 * s) (get_node t off) = 0"
  | (new) t1 where "agfs_dup_find_fragment leaf t = Some (t1, Inr (bt_size t, 0))" "changed t t1 [bt_size t \<mapsto> replicate 1024 0]"
      "place_ok t1 (bt_size t)"
proof -
  note h = index_atD(1) [OF I]
  obtain l r where N: "node_is (get_node t leaf) l r AGFS_BTREE_NULL (A @ (key, dup_link d) # B)" using index_atD(3) [OF I] by blast
  obtain xs where xs: "map snd (A @ (key, dup_link d) # B) = map dup_link xs" "set xs \<subseteq> insert d (snd ` set (ds @ es))" by (rule leaf_links [OF I])
  have ok: "\<forall>x \<in> set xs. dup_ok t x" using xs(2) index_atD(4,5) [OF I] by blast
  have ps: "map snd (node_pairs (get_node t leaf)) = map dup_link xs" using xs(1) by (simp only: node_is_pairs [OF N])
  consider "dup_find_loop leaf t (map dup_link xs) = Some None"
    | off s s0 vs where "dup_find_loop leaf t (map dup_link xs) = Some (Some (off, s))" "DF off s0 vs \<in> set xs" "s < 16"
      "dup_word (8 * s) (get_node t off) = 0" using find_loop [OF h ok, of leaf] by blast
  then show thesis
  proof cases
    case 1
    obtain t1 where t1: "agfs_btree_grow (Some leaf) t = (t1, Inr (bt_size t))" "grown t t1" by (rule grow_ok [OF h sz])
    note c = changed_grown [OF h t1(2)]
    have h1: "healthy t1" using c(1) by (simp add: changed_def)
    have "agfs_dup_find_fragment leaf t = Some (put_node (bt_size t) (replicate 1024 0) t1, Inr (bt_size t, 0))"
      unfolding agfs_dup_find_fragment_def ps using 1 t1(1) dup_read_ok [OF h1 c(2), of leaf] by simp
    moreover have w: "wrote t1 (put_node (bt_size t) (replicate 1024 0) t1) (bt_size t) (replicate 1024 0)" by (rule wrote_put [OF h1]) simp
    ultimately show thesis using changed_wrote [OF c(1) w c(2)] c(2) w
      by (intro new [of "put_node (bt_size t) (replicate 1024 0) t1"]) (simp_all add: wrote_def)
  next
    case 2
    then show thesis using xs(2) by (intro old [of off s s0 vs]) (auto simp: agfs_dup_find_fragment_def ps)
  qed
qed

lemma promote:
  assumes I: "index_at ok_key fp dtype t fs leaf A key B ds (DV old) es" and sz: "bt_size t + 1024 < 2 ^ 32" and v: "v < 2 ^ 32"
  shows "\<exists>t'. agfs_btree_dup_promote leaf (length A) old v t = Some (t', Inr True) \<and>
    value_added ok_key fp dtype t fs leaf A key B ds (DV old) es v t'"
proof -
  let ?pos = "agfs_btree_values (get_node t leaf) + 8 * length A"
  let ?n = "\<lambda>arr n. dup_put (arr + 2) v (dup_put (arr + 1) old (dup_put arr 2 n))"
  let ?X = "set (bt_offs (plug fs (BL leaf (A @ (key, dup_link (DV old)) # B))))"
  note h = index_atD(1) [OF I]
  have old: "old < 2 ^ 32" using index_atD(4) [OF I] by simp
  have run: "agfs_btree_dup_promote leaf (length A) old v t =
      Some (dup_set_value leaf ?pos (dup_link (DF off s [old, v])) (dup_write leaf off (?n (8 * s) (get_node t1 off)) t1), Inr True)"
    if "agfs_dup_find_fragment leaf t = Some (t1, Inr (off, s))" for t1 off s
    unfolding agfs_btree_dup_promote_def Let_def that by (simp add: dup_array_eq)
  have fin: "\<exists>t'. agfs_btree_dup_promote leaf (length A) old v t = Some (t', Inr True) \<and>
      value_added ok_key fp dtype t fs leaf A key B ds (DV old) es v t'"
    if f: "agfs_dup_find_fragment leaf t = Some (t1, Inr (off, s))" and s: "s < 16" and c: "changed t t1 W" "place_ok t1 off"
      and W: "dom (W(off \<mapsto> m)) \<inter> ?X = {}" and m: "m = ?n (8 * s) (get_node t1 off)"
      and same: "\<And>t2 x. changed t t2 (W(off \<mapsto> m)) \<Longrightarrow> x \<in> set (ds @ es) \<Longrightarrow> dup_same t t2 (snd x)"
      and apart: "\<And>x. x \<in> set (ds @ es) \<Longrightarrow> dup_apart (DF off s [old, v]) (snd x)" for t1 off s W m
  proof -
    have h1: "healthy t1" using c(1) by (simp add: changed_def)
    have len: "length (get_node t1 off) = 1024" by (rule length_get_node [OF h1])
    have s8: "8 * s < 120 \<or> s = 15" using s by auto
    have arr: "dup_arr (8 * s) [old, v] m" "length m = 1024"
      unfolding m using len s old v by (auto simp: dup_arr_def less_Suc_eq)
    define t2 where "t2 = dup_write leaf off m t1"
    have w: "wrote t1 t2 off m" unfolding t2_def by (rule dup_write_wrote [OF h1 arr(2)])
    have c2: "changed t t2 (W(off \<mapsto> m))" by (rule changed_wrote [OF c(1) w c(2)])
    have "place_ok t2 off" "get_node t2 off = m" using w c(2) by (simp_all add: wrote_def)
    then have ok: "dup_ok t2 (DF off s [old, v])" using arr(1) s old v by (simp add: dup_array_eq)
    have "dup_own ?X (DF off s [old, v])" using W by (auto simp: dup_own_def)
    note R = index_relink [OF I c2 W ok same [OF c2] this apart]
    then show ?thesis unfolding run [OF f] m [symmetric] t2_def [symmetric]
      by (auto simp: value_added_def changed_def simp del: dup_link.simps intro!: exI [of _ "DF off s [old, v]"])
  qed
  show ?thesis
  proof (cases rule: find_fragment [OF I sz])
    case (1 off s s0 vs)
    then have x: "DF off s0 vs \<in> snd ` set (ds @ es)" by simp
    then obtain z where z: "z \<in> set (ds @ es)" "DF off s0 vs = snd z" by blast
    have ok: "dup_ok t (DF off s0 vs)" and own: "dup_own ?X (DF off s0 vs)"
      unfolding z(2) by (rule index_atD(5) [OF I z(1)], rule index_atD(8) [OF I z(1)])
    have pl: "place_ok t off" using ok by simp
    have ap: "dup_apart (DF off s [old, v]) (snd y)" if y: "y \<in> set (ds @ es)" for y
    proof -
      have "dup_apart (DF off s0 vs) (snd y)" if "snd y \<noteq> DF off s0 vs"
        by (rule dups_sep_apart [OF index_atD(9) [OF I]]) (use x y that in \<open>auto simp only: set_map imageI\<close>)
      moreover have "(off, s) \<notin> dup_slots (snd y)"
        using index_atD(5) [OF I y] 1(4) by (cases "snd y") (auto simp: dup_array_eq dup_arr_def)
      ultimately show ?thesis by (cases "snd y = DF off s0 vs") (auto simp: dup_apart_def)
    qed
    have len: "length (get_node t off) = 1024" by (rule length_get_node [OF h])
    show ?thesis
    proof (rule fin [OF 1(1,3) changed_refl [OF h] pl _ refl _ ap])
      show "dom (Map.empty(off \<mapsto> ?n (8 * s) (get_node t off))) \<inter> ?X = {}" using own by (simp add: dup_own_def)
      fix t2 x assume t2: "changed t t2 (Map.empty(off \<mapsto> ?n (8 * s) (get_node t off)))" "x \<in> set (ds @ es)"
      show "dup_same t t2 (snd x)"
        by (rule slot_same [OF t2(1) fun_upd_same pl, where s = s])
          (use 1(3) len old v ap [OF t2(2)] index_atD(5) [OF I t2(2)] in \<open>auto simp: dup_apart_def split: if_splits\<close>)
    qed
  next
    case (2 t1)
    have f: "x \<notin> set (dup_nodes (snd y)) \<union> fst ` dup_slots (snd y)" if "y \<in> set (ds @ es)" "x = bt_size t" for x y
      using fresh_place(3) [OF I that(1)] that(2) by simp
    show ?thesis
    proof (rule fin [OF 2(1) _ 2(2,3) _ refl])
      show "dom ([bt_size t \<mapsto> replicate 1024 0](bt_size t \<mapsto> ?n (8 * 0) (get_node t1 (bt_size t)))) \<inter> ?X = {}"
        using fresh_place(2) [OF I] by simp
      fix t2 x assume t2: "changed t t2 ([bt_size t \<mapsto> replicate 1024 0](bt_size t \<mapsto> ?n (8 * 0) (get_node t1 (bt_size t))))" "x \<in> set (ds @ es)"
      show "dup_same t t2 (snd x)"
        by (rule changed_same [OF t2(1) index_atD(5) [OF I t2(2)]]) (use f [OF t2(2)] in auto)
    next
      fix x assume "x \<in> set (ds @ es)"
      then show "dup_apart (DF (bt_size t) 0 [old, v]) (snd x)" using f [of x "bt_size t"] by (force simp: dup_apart_def)
    qed simp
  qed
qed

subsection \<open>More values in a fragment\<close>

lemma moved_arr:
  assumes "dup_arr (8 * s) vs n" "length m = 1024" "s < 16" "length vs \<le> 7" "v < 2 ^ 64"
    "\<And>j. j < 128 \<Longrightarrow> 2 \<le> j \<and> j < 10 \<Longrightarrow> dup_word j m = dup_word (8 * s + (j - 2)) n" "dup_word 1 m = w"
  shows "dup_arr 2 (vs @ [v]) (dup_append 2 v m) \<and> length (dup_append 2 v m) = 1024 \<and> dup_word 1 (dup_append 2 v m) = w"
proof -
  have "dup_arr 2 vs m" using assms by (auto simp: dup_arr_def)
  from dup_arr_append [OF this _ assms(5)] assms(4,7) show ?thesis by auto
qed

lemma convert_arr:
  assumes "dup_arr (8 * s) vs n" "s < 16" "length vs \<le> 7" "v < 2 ^ 64"
  shows "dup_arr 2 (vs @ [v]) (dup_convert (8 * s) v n) \<and> length (dup_convert (8 * s) v n) = 1024 \<and>
    dup_word 1 (dup_convert (8 * s) v n) = AGFS_BTREE_NULL"
proof -
  have n: "length n = 1024" using assms(1) by (simp add: dup_arr_def)
  define m where "m = mem_move (8 * 2) (8 * (8 * s)) (8 * 8) n"
  have m: "length m = 1024" using n assms(2) by (simp add: m_def mem_move_def)
  have w: "dup_word j m = dup_word (8 * s + (j - 2)) n" if "2 \<le> j" "j < 10" for j
    unfolding m_def by (subst dup_word_move) (use n assms(2) that in auto)
  show ?thesis unfolding dup_convert_def
    by (rule moved_arr [OF assms(1) _ assms(2-4)]) (use m w in \<open>auto simp: m_def\<close>)
qed

lemma chain_first_arr:
  assumes "dup_arr (8 * s) vs n" "s < 16" "length vs \<le> 7" "v < 2 ^ 64"
  shows "dup_arr 2 (vs @ [v]) (dup_chain_first (mem_get (8 * (8 * s)) 64 n) v) \<and> length (dup_chain_first (mem_get (8 * (8 * s)) 64 n) v) = 1024 \<and>
    dup_word 1 (dup_chain_first (mem_get (8 * (8 * s)) 64 n) v) = AGFS_BTREE_NULL"
proof -
  have n: "length n = 1024" using assms(1) by (simp add: dup_arr_def)
  define z where "z = dup_put 1 AGFS_BTREE_NULL (dup_put 0 AGFS_BTREE_NULL (replicate 1024 0))"
  have z: "length z = 1024" "dup_word 1 z = AGFS_BTREE_NULL" by (simp_all add: z_def)
  define m where "m = mem_put (8 * 2) (mem_get (8 * (8 * s)) (8 * 8) n) z"
  have m: "length m = 1024" using n z assms(2) by (simp add: m_def)
  have w: "dup_word j m = (if 2 \<le> j \<and> j < 10 then dup_word (8 * s + (j - 2)) n else dup_word j z)" if "j < 128" for j
    unfolding m_def by (subst dup_word_copy) (use n z assms(2) that in auto)
  have e: "dup_chain_first (mem_get (8 * (8 * s)) 64 n) v = dup_append 2 v m" by (simp add: dup_chain_first_def m_def z_def)
  show ?thesis unfolding e by (rule moved_arr [OF assms(1) m assms(2-4)]) (use w [of 1] z(2) in \<open>simp_all add: w\<close>)
qed

lemma clear_slot:
  assumes "length n = 1024" "s < 16"
  shows "length (mem_put (8 * (8 * s)) (replicate 64 0) n) = 1024"
    "j < 128 \<Longrightarrow> \<not> (8 * s \<le> j \<and> j < 8 * s + 8) \<Longrightarrow> dup_word j (mem_put (8 * (8 * s)) (replicate 64 0) n) = dup_word j n"
proof -
  show "length (mem_put (8 * (8 * s)) (replicate 64 0) n) = 1024" using assms by simp
  have "(replicate 64 0 :: byte list) = mem_get (8 * 0) (8 * 8) (replicate 1024 0)" by (simp add: mem_get_def)
  then show "j < 128 \<Longrightarrow> \<not> (8 * s \<le> j \<and> j < 8 * s + 8) \<Longrightarrow> dup_word j (mem_put (8 * (8 * s)) (replicate 64 0) n) = dup_word j n"
    using dup_word_copy [of n "replicate 1024 0" "8 * s" 8 0 j] assms by auto
qed

lemma only_slot:
  assumes "agfs_dup_fragments_used n < 2" "s < 16" "s' < 16" "dup_word (8 * s) n \<noteq> 0" "dup_word (8 * s') n \<noteq> 0"
  shows "s' = s"
proof (rule ccontr)
  assume "s' \<noteq> s"
  then have "card {s, s'} = 2" by simp
  moreover have "{s, s'} \<subseteq> set (filter (\<lambda>s. dup_word (agfs_dup_array s) n \<noteq> 0) [0..<16])" using assms by (auto simp: dup_array_eq)
  then have "card {s, s'} \<le> card (set (filter (\<lambda>s. dup_word (agfs_dup_array s) n \<noteq> 0) [0..<16]))" by (rule card_mono [rotated]) simp
  moreover have "\<dots> \<le> agfs_dup_fragments_used n" unfolding agfs_dup_fragments_used_def by (rule card_length)
  ultimately show False using assms(1) by linarith
qed

text \<open>The value of the leaf, as the functions read it.\<close>

lemma index_at_value:
  assumes "index_at ok_key fp dtype t fs leaf A key B ds d es"
  shows "nd_value (get_node t leaf) (length A) = dup_link d" "agfs_btree_read_node t leaf = Some (get_node t leaf)"
proof -
  obtain l r where N: "node_is (get_node t leaf) l r AGFS_BTREE_NULL (A @ (key, dup_link d) # B)" using index_atD(3) [OF assms] by blast
  show "nd_value (get_node t leaf) (length A) = dup_link d" using node_is_value [OF N, of "length A"] by simp
  show "agfs_btree_read_node t leaf = Some (get_node t leaf)" by (rule read_place [OF index_atD(2) [OF assms] index_atD(1) [OF assms]])
qed

lemma slot_facts:
  assumes I: "index_at ok_key fp dtype t fs leaf A key B ds (DF off s vs) es"
  shows "place_ok t off" "s < 16" "dup_arr (8 * s) vs (get_node t off)" "2 \<le> length vs" "length vs \<le> 7" "v \<in> set vs \<Longrightarrow> v < 2 ^ 32"
    "dup_read leaf off t = Some (Some (get_node t off))" "off \<notin> set (bt_offs (plug fs (BL leaf (A @ (key, dup_link (DF off s vs)) # B))))"
    "x \<in> set (ds @ es) \<Longrightarrow> (off, s) \<notin> dup_slots (snd x)" "x \<in> set (ds @ es) \<Longrightarrow> off \<notin> set (dup_nodes (snd x))"
proof -
  have d: "dup_ok t (DF off s vs)" by (rule index_atD(4) [OF I])
  show "place_ok t off" "s < 16" "dup_arr (8 * s) vs (get_node t off)" "2 \<le> length vs" "length vs \<le> 7" "v \<in> set vs \<Longrightarrow> v < 2 ^ 32"
    using d by (simp_all add: dup_array_eq)
  then show "dup_read leaf off t = Some (Some (get_node t off))" by (intro dup_read_ok [OF index_atD(1) [OF I]])
  show "off \<notin> set (bt_offs (plug fs (BL leaf (A @ (key, dup_link (DF off s vs)) # B))))" using index_atD(6) [OF I] by (simp add: dup_own_def)
  show "x \<in> set (ds @ es) \<Longrightarrow> (off, s) \<notin> dup_slots (snd x)" "x \<in> set (ds @ es) \<Longrightarrow> off \<notin> set (dup_nodes (snd x))"
    using index_atD(7) [OF I, of x] by (auto simp: dup_apart_def)
qed

text \<open>A slot is rewritten and stays a slot.\<close>

lemma slot_rewrite:
  assumes I: "index_at ok_key fp dtype t fs leaf A key B ds (DF off s vs) es"
    and n: "dup_arr (8 * s) ws n" "2 \<le> length ws" "length ws \<le> 7" "\<forall>v \<in> set ws. v < 2 ^ 32"
      "\<And>j. j < 128 \<Longrightarrow> \<not> (8 * s \<le> j \<and> j < 8 * s + 8) \<Longrightarrow> dup_word j n = dup_word j (get_node t off)"
  shows "index_at ok_key fp dtype (dup_write leaf off n t) fs leaf A key B ds (DF off s ws) es" "bt_size (dup_write leaf off n t) = bt_size t"
proof -
  note h = index_atD(1) [OF I] and F = slot_facts [OF I]
  have len: "length n = 1024" using n(1) by (simp add: dup_arr_def)
  have w: "wrote t (dup_write leaf off n t) off n" by (rule dup_write_wrote [OF h len])
  have c: "changed t (dup_write leaf off n t) [off \<mapsto> n]" using changed_wrote [OF changed_refl [OF h] w F(1)] .
  show "bt_size (dup_write leaf off n t) = bt_size t" using w by (simp add: wrote_def)
  show "index_at ok_key fp dtype (dup_write leaf off n t) fs leaf A key B ds (DF off s ws) es"
  proof (rule index_keep [OF I c])
    show "dup_ok (dup_write leaf off n t) (DF off s ws)" using w F(1,2) n(1-4) by (simp add: wrote_def dup_array_eq)
    show "dup_same t (dup_write leaf off n t) (snd x)" if "x \<in> set (ds @ es)" for x
      by (rule slot_same [OF c fun_upd_same F(1) len n(5), where s = s]) (use F(9,10) [OF that] index_atD(5) [OF I that] in \<open>auto split: if_splits\<close>)
  qed (use F(8) index_atD(6,7) [OF I] in \<open>auto simp: dup_own_def dup_apart_def\<close>)
qed

text \<open>The fragment is full and alone in its node: the node becomes the chain.\<close>

lemma slot_convert:
  assumes I: "index_at ok_key fp dtype t fs leaf A key B ds (DF off s vs) es" and v: "v < 2 ^ 32"
    and u: "agfs_dup_fragments_used (get_node t off) < 2"
  defines "t' \<equiv> dup_set_value leaf (agfs_btree_values (get_node t leaf) + 8 * length A) (agfs_dup_make_link 2 off 0)
      (dup_write leaf off (dup_convert (8 * s) v (get_node t off)) t)"
  shows "value_added ok_key fp dtype t fs leaf A key B ds (DF off s vs) es v t'"
proof -
  note h = index_atD(1) [OF I] and F = slot_facts [OF I]
  let ?n = "dup_convert (8 * s) v (get_node t off)" and ?d = "DC [(off, vs @ [v])]"
  have n: "dup_arr 2 (vs @ [v]) ?n" "length ?n = 1024" "dup_word 1 ?n = AGFS_BTREE_NULL"
    using convert_arr [OF F(3,2,5), of v] v by simp_all
  have w: "wrote t (dup_write leaf off ?n t) off ?n" by (rule dup_write_wrote [OF h n(2)])
  have c: "changed t (dup_write leaf off ?n t) [off \<mapsto> ?n]" using changed_wrote [OF changed_refl [OF h] w F(1)] .
  have ns: "off \<notin> fst ` dup_slots (snd x)" if x: "x \<in> set (ds @ es)" for x
  proof
    assume "off \<in> fst ` dup_slots (snd x)"
    then obtain s2 ws where e: "snd x = DF off s2 ws" by (cases "snd x") auto
    then have "s2 < 16" "dup_arr (8 * s2) ws (get_node t off)" "2 \<le> length ws" using index_atD(5) [OF I x] by (simp_all add: dup_array_eq)
    then have "s2 = s" using F(2-4) by (intro only_slot [OF u]) (auto simp: dup_arr_def)
    then show False using F(9) [OF x] e by simp
  qed
  have ok: "dup_ok (dup_write leaf off ?n t) ?d" using w F(1,4,6) n v by (auto simp: wrote_def)
  have same: "dup_same t (dup_write leaf off ?n t) (snd x)" if "x \<in> set (ds @ es)" for x
    by (rule changed_same [OF c index_atD(5) [OF I that]]) (use ns [OF that] F(10) [OF that] in auto)
  have X: "dom [off \<mapsto> ?n] \<inter> set (bt_offs (plug fs (BL leaf (A @ (key, dup_link (DF off s vs)) # B)))) = {}" using F(8) by simp
  have own: "dup_own (set (bt_offs (plug fs (BL leaf (A @ (key, dup_link (DF off s vs)) # B))))) ?d" using F(8) by (simp add: dup_own_def)
  have ap: "dup_apart ?d (snd x)" if "x \<in> set (ds @ es)" for x using ns [OF that] F(10) [OF that] by (auto simp: dup_apart_def)
  note R = index_relink [OF I c X ok same own ap]
  have t': "t' = dup_set_value leaf (agfs_btree_values (get_node t leaf) + 8 * length A) (dup_link ?d) (dup_write leaf off ?n t)" by (simp add: t'_def)
  show ?thesis unfolding value_added_def t' using R by (intro exI [of _ ?d]) (auto simp: changed_def)
qed

text \<open>The fragment is full and shares its node: the values move to a new node.\<close>

lemma to_chain:
  assumes I: "index_at ok_key fp dtype t fs leaf A key B ds (DF off s vs) es" and v: "v < 2 ^ 32" and sz: "bt_size t + 1024 < 2 ^ 32"
  shows "\<exists>t'. dup_to_chain leaf (agfs_btree_values (get_node t leaf) + 8 * length A) off (8 * s) v t = Some (t', Inr True) \<and>
    value_added ok_key fp dtype t fs leaf A key B ds (DF off s vs) es v t'"
proof -
  note h = index_atD(1) [OF I] and F = slot_facts [OF I] and P = fresh_place [OF I]
  let ?nd = "bt_size t" and ?d = "DC [(bt_size t, vs @ [v])]" and ?pos = "agfs_btree_values (get_node t leaf) + 8 * length A"
  let ?first = "dup_chain_first (mem_get (8 * (8 * s)) 64 (get_node t off)) v"
  let ?clear = "mem_put (8 * (8 * s)) (replicate 64 0) (get_node t off)"
  obtain t1 where t1: "(if dup_shared leaf off t then agfs_btree_grow (Some leaf) t else dup_grow leaf off t) = (t1, Inr ?nd)" "grown t t1"
    by (rule dup_grow_either [OF h sz])
  note c1 = changed_grown [OF h t1(2)]
  have h1: "healthy t1" using c1(1) by (simp add: changed_def)
  have off: "get_node t1 off = get_node t off" "place_ok t1 off" "off \<noteq> ?nd"
    using changed_get [OF c1(1) F(1)] changed_place [OF c1(1) F(1)] F(1) P(1) by auto
  have fst: "dup_arr 2 (vs @ [v]) ?first" "length ?first = 1024" "dup_word 1 ?first = AGFS_BTREE_NULL"
    using chain_first_arr [OF F(3,2,5), of v] v by simp_all
  have len: "length (get_node t off) = 1024" by (rule length_get_node [OF h])
  define t2 where "t2 = put_node ?nd ?first t1"
  have w2: "wrote t1 t2 ?nd ?first" unfolding t2_def by (rule wrote_put [OF h1 fst(2)])
  have c2: "changed t t2 [?nd \<mapsto> ?first]" using changed_wrote [OF c1(1) w2 c1(2)] .
  have h2: "healthy t2" and p2: "place_ok t2 off" and g2: "get_node t2 off = get_node t off"
    using c2 changed_place [OF c2 F(1)] changed_get [OF c2 F(1)] off(3) by (simp_all add: changed_def)
  define t3 where "t3 = dup_log_new leaf off ?nd (dup_write leaf off ?clear t2)"
  have w3: "wrote t2 (dup_write leaf off ?clear t2) off ?clear" by (rule dup_write_wrote [OF h2 clear_slot(1) [OF len F(2)]])
  have c3: "changed t t3 ([?nd \<mapsto> ?first](off \<mapsto> ?clear))" unfolding t3_def using changed_wrote [OF c2 w3 p2] by simp
  have run: "dup_to_chain leaf ?pos off (8 * s) v t = Some (dup_set_value leaf ?pos (dup_link ?d) t3, Inr True)"
    unfolding dup_to_chain_def t1(1) bt_then_ok using dup_new_node_ok [OF h1 c1(2), of leaf off] g2 [unfolded t2_def]
    by (simp add: Let_def off(1) t2_def t3_def)
  have "place_ok t3 ?nd" "get_node t3 ?nd = ?first"
  proof -
    have "place_ok (dup_write leaf off ?clear t2) ?nd" using w3 w2 c1(2) by (simp add: wrote_def)
    then show p: "place_ok t3 ?nd" by (simp add: t3_def dup_log_new_def place_ok_def bt_log_def bt_blk_def)
    show "get_node t3 ?nd = ?first" using changed_new [OF c3 p] off(3) by simp
  qed
  then have ok: "dup_ok t3 ?d" using fst F(4,6) v by auto
  have same: "dup_same t t3 (snd x)" if "x \<in> set (ds @ es)" for x
    by (rule slot_same [OF c3 fun_upd_same F(1) clear_slot(1) [OF len F(2)], where s = s])
      (use F(9,10) [OF that] index_atD(5) [OF I that] P(1) clear_slot(2) [OF len F(2)] in \<open>auto split: if_splits\<close>)
  have X: "dom ([?nd \<mapsto> ?first](off \<mapsto> ?clear)) \<inter> set (bt_offs (plug fs (BL leaf (A @ (key, dup_link (DF off s vs)) # B)))) = {}"
    using F(8) P(2) by auto
  have own: "dup_own (set (bt_offs (plug fs (BL leaf (A @ (key, dup_link (DF off s vs)) # B))))) ?d" using P(2) by (simp add: dup_own_def)
  have ap: "dup_apart ?d (snd x)" if "x \<in> set (ds @ es)" for x using P(3) [OF that] by (auto simp: dup_apart_def)
  note R = index_relink [OF I c3 X ok same own ap]
  show ?thesis unfolding run value_added_def using R
    by (intro exI [of _ "dup_set_value leaf ?pos (dup_link ?d) t3"] conjI refl exI [of _ ?d]) (auto simp: changed_def)
qed

lemma fragment_add:
  assumes I: "index_at ok_key fp dtype t fs leaf A key B ds (DF off s vs) es" and v: "v < 2 ^ 32" and sz: "bt_size t + 1024 < 2 ^ 32"
  shows "\<exists>t' b. agfs_btree_dup_fragment_add leaf (length A) v t = Some (t', Inr b) \<and>
    value_added ok_key fp dtype t fs leaf A key B ds (DF off s vs) es v t'"
proof -
  note h = index_atD(1) [OF I] and F = slot_facts [OF I]
  note L = dup_link_facts(3) [OF index_atD(4) [OF I] h refl]
  let ?pos = "agfs_btree_values (get_node t leaf) + 8 * length A" and ?m = "get_node t off"
  have cnt: "dup_word (8 * s) ?m = length vs" using F(3) by (simp add: dup_arr_def)
  have run: "agfs_btree_dup_fragment_add leaf (length A) v t =
      (if length vs < 7 then Some (dup_write leaf off (dup_append (8 * s) v ?m) t, Inr False)
       else if agfs_dup_fragments_used ?m < 2
       then Some (dup_set_value leaf ?pos (agfs_dup_make_link 2 off 0) (dup_write leaf off (dup_convert (8 * s) v ?m) t), Inr True)
       else dup_to_chain leaf ?pos off (8 * s) v t)"
    unfolding agfs_btree_dup_fragment_add_def Let_def index_at_value(1) [OF I] using L F(2,5,7) cnt by (simp add: dup_array_eq)
  show ?thesis
  proof (cases "length vs < 7")
    case True
    have v64: "v < 2 ^ 64" using v by simp
    have lt: "8 * s + length vs < 127" using True F(2) by simp
    note P = dup_arr_append [OF F(3) lt v64]
    have "index_at ok_key fp dtype (dup_write leaf off (dup_append (8 * s) v ?m) t) fs leaf A key B ds (DF off s (vs @ [v])) es"
      "bt_size (dup_write leaf off (dup_append (8 * s) v ?m) t) = bt_size t"
      by (rule slot_rewrite [OF I P(1)]; use True F(4,6) v P(3) in auto)+
    then show ?thesis using True unfolding run value_added_def by (auto intro!: exI [of _ "DF off s (vs @ [v])"])
  next
    case False
    then show ?thesis using slot_convert [OF I v] to_chain [OF I v sz] unfolding run by auto
  qed
qed

subsection \<open>Chains of nodes\<close>

declare dup_node_loop.simps [simp del] dup_chain_find.simps [simp del] dup_chain_total.simps [simp del] dup_chain_free.simps [simp del]

lemma dup_chain_append: "dup_chain t (ns @ ms) \<Longrightarrow> dup_chain t ms"
  by (induction ns) auto

lemma dup_chain_node:
  "dup_chain t (ns @ x # ms) \<Longrightarrow> dup_word 1 (get_node t (fst x)) = (case ms of [] \<Rightarrow> AGFS_BTREE_NULL | y # _ \<Rightarrow> fst y)"
  using dup_chain_append [of t ns "x # ms"] by simp

lemma node_loop:
  assumes "healthy t" "dup_chain t ns" "ns \<noteq> []"
  obtains (room) ys x zs where "ns = ys @ x # zs" "length (snd x) < 125"
      "dup_node_loop leaf v (fst (hd ns)) t = Some (dup_write leaf (fst x) (dup_append 2 v (get_node t (fst x))) t, Inr False)"
  | (full) "dup_node_loop leaf v (fst (hd ns)) t = dup_extend_chain leaf (fst (last ns)) v t"
  using assms(2,3)
proof (induction ns arbitrary: thesis)
  case (Cons x ns)
  have pl: "place_ok t (fst x)" and arr: "dup_arr 2 (snd x) (get_node t (fst x))" and ch: "dup_chain t ns"
    and nx: "nd_right (get_node t (fst x)) = (case ns of [] \<Rightarrow> AGFS_BTREE_NULL | y # _ \<Rightarrow> fst y)"
    using Cons.prems(3) by (simp_all add: nd_right_word)
  have rd: "dup_read leaf (fst x) t = Some (Some (get_node t (fst x)))" by (rule dup_read_ok [OF assms(1) pl])
  have cnt: "dup_word 2 (get_node t (fst x)) = length (snd x)" using arr by (simp add: dup_arr_def)
  show ?case
  proof (cases "length (snd x) < 125")
    case True
    then show ?thesis using rd cnt by (intro Cons.prems(1) [of "[]" x ns]) (simp_all add: dup_node_loop.simps [of leaf v "fst x"])
  next
    case full: False
    show ?thesis
    proof (cases ns)
      case Nil
      then show ?thesis using rd cnt full nx by (intro Cons.prems(2)) (simp add: dup_node_loop.simps [of leaf v "fst x"])
    next
      case (Cons y ms)
      then have "fst y \<noteq> AGFS_BTREE_NULL" using ch place_not_null [OF _ assms(1), of "fst y"] by simp
      then have step: "dup_node_loop leaf v (fst (hd (x # ns))) t = dup_node_loop leaf v (fst (hd ns)) t"
        using rd cnt full nx Cons by (simp add: dup_node_loop.simps [of leaf v "fst x"])
      show ?thesis
      proof (rule Cons.IH [OF _ _ ch])
        fix ys z zs assume "ns = ys @ z # zs" "length (snd z) < 125"
          "dup_node_loop leaf v (fst (hd ns)) t = Some (dup_write leaf (fst z) (dup_append 2 v (get_node t (fst z))) t, Inr False)"
        then show thesis using step by (intro Cons.prems(1) [of "x # ys" z zs]) simp_all
      next
        assume "dup_node_loop leaf v (fst (hd ns)) t = dup_extend_chain leaf (fst (last ns)) v t"
        then show thesis using step Cons by (intro Cons.prems(2)) simp
      qed (simp add: Cons)
    qed
  qed
qed simp

lemma chain_facts:
  assumes I: "index_at ok_key fp dtype t fs leaf A key B ds (DC ns) es"
  shows "ns \<noteq> []" "dup_chain t ns" "2 \<le> length (concat (map snd ns))" "x \<in> set ns \<Longrightarrow> v \<in> set (snd x) \<Longrightarrow> v < 2 ^ 32"
    "distinct (map fst ns)" "x \<in> set ns \<Longrightarrow> place_ok t (fst x)"
    "x \<in> set ns \<Longrightarrow> fst x \<notin> set (bt_offs (plug fs (BL leaf (A @ (key, dup_link (DC ns)) # B))))"
    "y \<in> set (ds @ es) \<Longrightarrow> x \<in> set ns \<Longrightarrow> fst x \<notin> set (dup_nodes (snd y)) \<union> fst ` dup_slots (snd y)"
proof -
  have d: "dup_ok t (DC ns)" by (rule index_atD(4) [OF I])
  show "ns \<noteq> []" "dup_chain t ns" "2 \<le> length (concat (map snd ns))" "x \<in> set ns \<Longrightarrow> v \<in> set (snd x) \<Longrightarrow> v < 2 ^ 32" using d by auto
  then show "x \<in> set ns \<Longrightarrow> place_ok t (fst x)" using dup_chain_place by blast
  show "distinct (map fst ns)" "x \<in> set ns \<Longrightarrow> fst x \<notin> set (bt_offs (plug fs (BL leaf (A @ (key, dup_link (DC ns)) # B))))"
    using index_atD(6) [OF I] by (auto simp: dup_own_def)
  show "y \<in> set (ds @ es) \<Longrightarrow> x \<in> set ns \<Longrightarrow> fst x \<notin> set (dup_nodes (snd y)) \<union> fst ` dup_slots (snd y)"
    using index_atD(7) [OF I, of y] by (auto simp: dup_apart_def)
qed

text \<open>One node of a chain is rewritten and keeps its link.\<close>

lemma dup_chain_update:
  assumes "dup_chain t (ys @ (off, vs) # zs)" "off \<notin> fst ` set ys \<union> fst ` set zs"
    "\<forall>x \<in> fst ` set (ys @ (off, vs) # zs). place_ok t' x" "\<forall>x \<in> fst ` set (ys @ zs). get_node t' x = get_node t x"
    "dup_arr 2 ws (get_node t' off)" "dup_word 1 (get_node t' off) = dup_word 1 (get_node t off)"
  shows "dup_chain t' (ys @ (off, ws) # zs)"
  using assms
proof (induction ys)
  case Nil
  then have "dup_chain t' zs" by (intro dup_chain_cong [of t zs t']) auto
  then show ?case using Nil by auto
next
  case (Cons y ys)
  then show ?case by (cases ys) auto
qed

lemma chain_write:
  assumes I: "index_at ok_key fp dtype t fs leaf A key B ds (DC ns) es" and ns: "ns = ys @ (off, vs) # zs"
    and n: "dup_arr 2 ws n" "dup_word 1 n = dup_word 1 (get_node t off)"
  defines "t' \<equiv> dup_write leaf off n t"
  shows "changed t t' [off \<mapsto> n]" "bt_size t' = bt_size t" "dup_chain t' (ys @ (off, ws) # zs)"
    "dom [off \<mapsto> n] \<inter> set (bt_offs (plug fs (BL leaf (A @ (key, dup_link (DC ns)) # B)))) = {}"
    "y \<in> set (ds @ es) \<Longrightarrow> dup_same t t' (snd y)"
proof -
  note h = index_atD(1) [OF I] and F = chain_facts [OF I]
  have x: "(off, vs) \<in> set ns" by (simp add: ns)
  have len: "length n = 1024" using n(1) by (simp add: dup_arr_def)
  have pl: "place_ok t off" using F(6) [OF x] by simp
  have w: "wrote t t' off n" unfolding t'_def by (rule dup_write_wrote [OF h len])
  show c: "changed t t' [off \<mapsto> n]" using changed_wrote [OF changed_refl [OF h] w pl] .
  show "bt_size t' = bt_size t" using w by (simp add: wrote_def)
  have d: "off \<notin> fst ` set ys \<union> fst ` set zs" using F(5) by (auto simp: ns)
  have g: "get_node t' off = n" using w by (simp add: wrote_def)
  show "dup_chain t' (ys @ (off, ws) # zs)"
  proof (rule dup_chain_update [of t ys off vs zs])
    show "\<forall>x \<in> fst ` set (ys @ (off, vs) # zs). place_ok t' x" using F(6) changed_place [OF c] pl by (auto simp: ns)
    show "\<forall>x \<in> fst ` set (ys @ zs). get_node t' x = get_node t x"
    proof
      fix x assume "x \<in> fst ` set (ys @ zs)"
      then have "place_ok t x" "x \<noteq> off" using F(6) d by (auto simp: ns)
      then show "get_node t' x = get_node t x" using changed_get [OF c] by simp
    qed
  qed (use F(2) d n(1,2) g ns in auto)
  show "dom [off \<mapsto> n] \<inter> set (bt_offs (plug fs (BL leaf (A @ (key, dup_link (DC ns)) # B)))) = {}" using F(7) [OF x] by simp
  show "y \<in> set (ds @ es) \<Longrightarrow> dup_same t t' (snd y)"
    by (rule changed_same [OF c index_atD(5) [OF I]]) (use F(8) [OF _ x] in auto)
qed

lemma chain_rewrite:
  assumes I: "index_at ok_key fp dtype t fs leaf A key B ds (DC ns) es" and ns: "ns = ys @ (off, vs) # zs"
    and n: "dup_arr 2 ws n" "dup_word 1 n = dup_word 1 (get_node t off)" "\<forall>v \<in> set ws. v < 2 ^ 32"
      "2 \<le> length (concat (map snd (ys @ (off, ws) # zs)))"
  shows "index_at ok_key fp dtype (dup_write leaf off n t) fs leaf A key B ds (DC (ys @ (off, ws) # zs)) es"
proof -
  note W = chain_write [OF I ns n(1,2)]
  have "\<forall>x \<in> set (ys @ zs). \<forall>v \<in> set (snd x). v < 2 ^ 32" using chain_facts(4) [OF I] by (auto simp: ns)
  then have ok: "dup_ok (dup_write leaf off n t) (DC (ys @ (off, ws) # zs))" using n(3,4) W(3) by auto
  show ?thesis
  proof (rule index_keep [OF I W(1,4) _ ok W(5)])
    show "dup_link (DC (ys @ (off, ws) # zs)) = dup_link (DC ns)" by (cases ys) (simp_all add: ns)
    show "dup_own (set (bt_offs (plug fs (BL leaf (A @ (key, dup_link (DC ns)) # B))))) (DC (ys @ (off, ws) # zs))"
      using index_atD(6) [OF I] by (auto simp: dup_own_def ns)
    show "dup_apart (DC (ys @ (off, ws) # zs)) (snd y)" if "y \<in> set (ds @ es)" for y
      using index_atD(7) [OF I that] by (auto simp: dup_apart_def ns)
  qed
qed

lemma dup_chain_extend:
  assumes "dup_chain t (ys @ [x])" "distinct (map fst (ys @ [x]))"
    "\<forall>y \<in> fst ` set (ys @ [x]). place_ok t' y" "\<forall>y \<in> fst ` set ys. get_node t' y = get_node t y"
    "dup_arr 2 (snd x) (get_node t' (fst x))" "dup_word 1 (get_node t' (fst x)) = nd"
    "place_ok t' nd" "dup_arr 2 vs (get_node t' nd)" "dup_word 1 (get_node t' nd) = AGFS_BTREE_NULL"
  shows "dup_chain t' (ys @ [x, (nd, vs)])"
  using assms
proof (induction ys)
  case (Cons y ys)
  then show ?case by (cases ys) auto
qed simp

lemma chain_next_arr:
  assumes "v < 2 ^ 64" "prev < 2 ^ 64"
  shows "dup_arr 2 [v] (dup_chain_next prev v)" "length (dup_chain_next prev v) = 1024" "dup_word 1 (dup_chain_next prev v) = AGFS_BTREE_NULL"
  using assms by (simp_all add: dup_chain_next_def dup_arr_def)

lemma extend_chain:
  assumes I: "index_at ok_key fp dtype t fs leaf A key B ds (DC ns) es" and v: "v < 2 ^ 32" and sz: "bt_size t + 1024 < 2 ^ 32"
  shows "\<exists>t' b. dup_extend_chain leaf (fst (last ns)) v t = Some (t', Inr b) \<and>
    value_added ok_key fp dtype t fs leaf A key B ds (DC ns) es v t'"
proof -
  note h = index_atD(1) [OF I] and F = chain_facts [OF I] and P = fresh_place [OF I]
  obtain ys x where ns: "ns = ys @ [x]" using F(1) by (metis rev_exhaust)
  define off where "off = fst x"
  have lst: "fst (last ns) = off" by (simp add: ns off_def)
  have x: "x \<in> set ns" by (simp add: ns)
  have pl: "place_ok t off" using F(6) [OF x] by (simp add: off_def)
  have arr: "dup_arr 2 (snd x) (get_node t off)" using dup_chain_place [OF F(2) x] by (simp add: off_def)
  let ?nd = "bt_size t" and ?next = "dup_chain_next off v" and ?link = "dup_put 1 (bt_size t) (get_node t off)"
  let ?d = "DC (ys @ [x, (bt_size t, [v])])"
  obtain t1 where t1: "(if dup_shared leaf off t then agfs_btree_grow (Some leaf) t else dup_grow leaf off t) = (t1, Inr ?nd)" "grown t t1"
    by (rule dup_grow_either [OF h sz])
  note c1 = changed_grown [OF h t1(2)]
  have h1: "healthy t1" using c1(1) by (simp add: changed_def)
  have ne: "off \<noteq> ?nd" using pl P(1) by auto
  have len: "length (get_node t off) = 1024" by (rule length_get_node [OF h])
  have nx: "dup_arr 2 [v] ?next" "length ?next = 1024" "dup_word 1 ?next = AGFS_BTREE_NULL"
    using chain_next_arr [of v off] v place_bounds [OF pl h] by simp_all
  have nd64: "?nd < 2 ^ 64" using h by (simp add: healthy_def)
  define t2 where "t2 = put_node ?nd ?next t1"
  have w2: "wrote t1 t2 ?nd ?next" unfolding t2_def by (rule wrote_put [OF h1 nx(2)])
  have c2: "changed t t2 [?nd \<mapsto> ?next]" using changed_wrote [OF c1(1) w2 c1(2)] .
  have h2: "healthy t2" and p2: "place_ok t2 off" and g2: "get_node t2 off = get_node t off"
    using c2 changed_place [OF c2 pl] changed_get [OF c2 pl] ne by (simp_all add: changed_def)
  have ll: "length ?link = 1024" using len by simp
  define t3 where "t3 = dup_log_new leaf off ?nd (dup_write leaf off ?link t2)"
  have w3: "wrote t2 (dup_write leaf off ?link t2) off ?link" by (rule dup_write_wrote [OF h2 ll])
  have c3: "changed t t3 ([?nd \<mapsto> ?next](off \<mapsto> ?link))" unfolding t3_def using changed_wrote [OF c2 w3 p2] by simp
  have run: "dup_extend_chain leaf off v t = Some (t3, Inr False)"
    unfolding dup_extend_chain_def t1(1) bt_then_ok using dup_new_node_ok [OF h1 c1(2), of leaf off] g2 [unfolded t2_def]
    by (simp add: Let_def t2_def t3_def)
  have "place_ok (dup_write leaf off ?link t2) ?nd" using w3 w2 c1(2) by (simp add: wrote_def)
  then have p3: "place_ok t3 ?nd" by (simp add: t3_def dup_log_new_def place_ok_def bt_log_def bt_blk_def)
  have g3: "get_node t3 ?nd = ?next" "get_node t3 off = ?link"
    using changed_new [OF c3 p3] changed_new [OF c3 changed_place [OF c3 pl]] ne by simp_all
  have "dup_arr 2 (snd x) ?link" by (rule dup_arr_cong [OF arr ll]) (use len nd64 arr in \<open>auto simp: dup_arr_def\<close>)
  moreover have "\<forall>y \<in> fst ` set ys. get_node t3 y = get_node t y"
  proof
    fix y assume y: "y \<in> fst ` set ys"
    then have "place_ok t y" using F(6) by (auto simp: ns)
    have "off \<notin> fst ` set ys" using F(5) by (simp add: ns off_def)
    then have "y \<noteq> off" using y by metis
    moreover have "y \<noteq> ?nd" using \<open>place_ok t y\<close> P(1) by blast
    ultimately show "get_node t3 y = get_node t y" using changed_get [OF c3 \<open>place_ok t y\<close>] by simp
  qed
  moreover have "\<forall>y \<in> fst ` set (ys @ [x]). place_ok t3 y" using F(6) changed_place [OF c3] by (auto simp: ns)
  ultimately have "dup_chain t3 (ys @ [x, (?nd, [v])])"
    using F(2,5) p3 nx len nd64 by (intro dup_chain_extend [of t]) (simp_all add: ns g3 off_def [symmetric])
  moreover have "\<forall>y \<in> set ys. \<forall>w \<in> set (snd y). w < 2 ^ 32" "\<forall>w \<in> set (snd x). w < 2 ^ 32" using F(4) F(4) [OF x] by (auto simp: ns)
  ultimately have ok: "dup_ok t3 ?d" using F(3) v by (auto simp: ns)
  have "index_at ok_key fp dtype t3 fs leaf A key B ds ?d es"
  proof (rule index_keep [OF I c3 _ _ ok])
    show "dom ([?nd \<mapsto> ?next](off \<mapsto> ?link)) \<inter> set (bt_offs (plug fs (BL leaf (A @ (key, dup_link (DC ns)) # B)))) = {}"
      using F(7) [OF x] P(2) by (auto simp: off_def)
    show "dup_link ?d = dup_link (DC ns)" by (cases ys) (simp_all add: ns)
    show "dup_same t t3 (snd y)" if "y \<in> set (ds @ es)" for y
      by (rule changed_same [OF c3 index_atD(5) [OF I that]]) (use F(8) [OF that x] P(3) [OF that] in \<open>auto simp: off_def\<close>)
    show "dup_own (set (bt_offs (plug fs (BL leaf (A @ (key, dup_link (DC ns)) # B))))) ?d"
      using index_atD(6) [OF I] P(2,4) by (auto simp: dup_own_def ns)
    show "dup_apart ?d (snd y)" if "y \<in> set (ds @ es)" for y
      using index_atD(7) [OF I that] P(3) [OF that] by (auto simp: dup_apart_def ns)
  qed
  then show ?thesis using run c3 unfolding lst value_added_def changed_def by (intro exI [of _ t3] exI [of _ False] conjI exI [of _ ?d]) (simp_all add: ns)
qed

lemma node_add:
  assumes I: "index_at ok_key fp dtype t fs leaf A key B ds (DC ns) es" and v: "v < 2 ^ 32" and sz: "bt_size t + 1024 < 2 ^ 32"
  shows "\<exists>t' b. agfs_btree_dup_node_add leaf (length A) v t = Some (t', Inr b) \<and>
    value_added ok_key fp dtype t fs leaf A key B ds (DC ns) es v t'"
proof -
  note h = index_atD(1) [OF I] and F = chain_facts [OF I]
  have run: "agfs_btree_dup_node_add leaf (length A) v t = dup_node_loop leaf v (fst (hd ns)) t"
    unfolding agfs_btree_dup_node_add_def index_at_value(1) [OF I] using dup_link_facts(4) [OF index_atD(4) [OF I] h refl] by simp
  show ?thesis
  proof (cases rule: node_loop [OF h F(2,1), of leaf v])
    case (1 ys x zs)
    have x: "x \<in> set ns" and ns: "ns = ys @ (fst x, snd x) # zs" using 1(1) by simp_all
    let ?n = "dup_append 2 v (get_node t (fst x))"
    have v64: "v < 2 ^ 64" and lt: "2 + length (snd x) < 127" using v 1(2) by simp_all
    note P = dup_arr_append [OF dup_chain_place [OF F(2) x, THEN conjunct2] lt v64]
    have vals: "\<forall>w \<in> set (snd x @ [v]). w < 2 ^ 32" using F(4) [OF x] v by auto
    have tot: "2 \<le> length (concat (map snd (ys @ (fst x, snd x @ [v]) # zs)))" using F(3) by (simp add: 1(1))
    have wd: "dup_word 1 ?n = dup_word 1 (get_node t (fst x))" using P(3) [of 1] by simp
    note R = chain_rewrite [OF I ns P(1) wd vals tot] chain_write(2) [OF I ns P(1) wd]
    show ?thesis unfolding run 1(3) value_added_def using R
      by (intro exI [of _ "dup_write leaf (fst x) ?n t"] exI [of _ False] conjI exI [of _ "DC (ys @ (fst x, snd x @ [v]) # zs)"])
        (simp_all add: 1(1))
  next
    case 2
    then show ?thesis using extend_chain [OF I v sz] unfolding run by simp
  qed
qed

lemma index_at_log: "index_at ok_key fp dtype (bt_log x t) fs leaf A key B ds d es = index_at ok_key fp dtype t fs leaf A key B ds d es"
proof -
  have "healthy (bt_log x t) = healthy t" "header_ok (bt_log x t) dt r = header_ok t dt r" "place_ok (bt_log x t) = place_ok t"
    "get_node (bt_log x t) = get_node t" for dt r
    by (auto simp: fun_eq_iff healthy_def bt_log_def header_ok_def get_node_def place_ok_def bt_blk_def)
  moreover from this have "dup_chain (bt_log x t) ns = dup_chain t ns" for ns by (induction ns) auto
  moreover from this calculation have "dup_ok (bt_log x t) d = dup_ok t d" for d by (cases d) auto
  moreover from calculation have "chain (bt_log x t) l xs r = chain t l xs r" for l xs r by (induction xs arbitrary: l) auto
  ultimately show ?thesis by (simp add: index_at_def index_tree_def btree_tree_def shape_def desc_ok_def)
qed

lemma insert_dup:
  assumes I: "index_at ok_key fp dtype t fs leaf A key B ds d es" and v: "v < 2 ^ 32" and sz: "bt_size t + 1024 < 2 ^ 32"
  shows "\<exists>t'. agfs_btree_insert_dup leaf (length A) v t = Some (t', Inr ()) \<and> value_added ok_key fp dtype t fs leaf A key B ds d es v t'"
proof -
  note h = index_atD(1) [OF I]
  note L = dup_link_facts [OF index_atD(4) [OF I] h]
  have lg: "value_added ok_key fp dtype t fs leaf A key B ds d es v (bt_log leaf t') = value_added ok_key fp dtype t fs leaf A key B ds d es v t'" for t'
    by (simp add: value_added_def index_at_log)
  have run: "agfs_btree_insert_dup leaf (length A) v t =
     bt_then
       (if agfs_dup_link_type (dup_link d) = 0 then agfs_btree_dup_promote leaf (length A) (dup_link d) v t
        else if agfs_dup_link_type (dup_link d) = 3 then agfs_btree_dup_fragment_add leaf (length A) v t
        else agfs_btree_dup_node_add leaf (length A) v t)
       (\<lambda>_ t. Some (bt_log leaf t, Inr ()))"
    unfolding agfs_btree_insert_dup_def index_at_value(2) [OF I] by (simp add: index_at_value(1) [OF I] Let_def)
  show ?thesis
  proof (cases d)
    case (DV w)
    then show ?thesis using promote [OF I [unfolded DV] sz v] L(2) [OF DV] lg unfolding run by auto
  next
    case (DF off s vs)
    then show ?thesis using fragment_add [OF I [unfolded DF] v sz] L(3) [OF DF] lg unfolding run by auto
  next
    case (DC ns)
    then show ?thesis using node_add [OF I [unfolded DC] v sz] L(4) [OF DC] lg unfolding run by auto
  qed
qed

subsection \<open>The index as a multimap\<close>

definition idx_vals :: "(bkey \<times> dupv) list \<Rightarrow> bkey \<Rightarrow> nat multiset" where
  "idx_vals ds k = (case map_of ds k of None \<Rightarrow> {#} | Some d \<Rightarrow> mset (dup_vals d))"

lemma idx_vals_at: "key \<notin> fst ` set ds \<Longrightarrow> idx_vals (ds @ (key, d) # es) = (idx_vals (ds @ es))(key := mset (dup_vals d))"
proof
  fix k assume a: "key \<notin> fst ` set ds"
  have "map_of ds key = None" using a by (simp add: map_of_eq_None_iff)
  then show "idx_vals (ds @ (key, d) # es) k = ((idx_vals (ds @ es))(key := mset (dup_vals d))) k"
    by (cases "k = key") (auto simp: idx_vals_def map_add_def split: option.splits)
qed

lemma kv_insert_split: "\<exists>P Q. ps = P @ Q \<and> kv_insert lt k v ps = P @ (k, v) # Q"
proof (induction ps)
  case (Cons p ps)
  then obtain P Q where "ps = P @ Q" "kv_insert lt k v ps = P @ (k, v) # Q" by blast
  then have "p # ps = (p # P) @ Q \<and> p # kv_insert lt k v ps = (p # P) @ (k, v) # Q" by simp
  moreover have "p # ps = [] @ (p # ps) \<and> (k, v) # p # ps = [] @ (k, v) # (p # ps)" by simp
  ultimately show ?case unfolding kv_insert.simps(2) by (cases "lt k (fst p)") (simp_all only: if_True if_False, blast+)
qed auto

lemma map_kv_insert: "map (apsnd f) (kv_insert lt k v ps) = kv_insert lt k (f v) (map (apsnd f) ps)"
  by (induction ps) auto

context tree_keys
begin

lemma index_find:
  assumes I: "index_tree ok_key fp dtype t tr ds" and k: "ok_key key" and h: "bt_height tr \<le> 16"
  obtains (present) fs leaf A B ds1 d ds2 where "tr = plug fs (BL leaf (A @ (key, dup_link d) # B))" "ds = ds1 @ (key, d) # ds2"
      "index_at ok_key fp dtype t fs leaf A key B ds1 d ds2" "key \<notin> fst ` set ds1" "key \<notin> fst ` set ds2"
      "\<And>v. agfs_btree_insert_value fp key dtype v t = agfs_btree_insert_dup leaf (length A) v t"
      "\<And>v. agfs_btree_delete_value fp key v t =
         (if agfs_dup_link_type (dup_link d) = 0 then
            (if dup_link d \<noteq> v then Some (t, Inl ENOENT)
             else Some (bt_log leaf (put_node leaf (agfs_btree_remove_at (get_node t leaf) (length A)) (t\<lparr>bt_dirty := True\<rparr>)), Inr ()))
          else agfs_btree_remove_dup leaf (length A) v t)"
  | (absent) "key \<notin> fst ` set ds" "\<And>v. agfs_btree_insert_value fp key dtype v t = agfs_btree_insert_impl fp key v dtype t"
      "\<And>v. agfs_btree_delete_value fp key v t = Some (t, Inl ENOENT)"
proof -
  have T: "btree_tree ok_key fp dtype t tr" and ent: "bt_entries tr = map (apsnd dup_link) ds" using I by (simp_all add: index_tree_def)
  note T' = T [unfolded btree_tree_def]
  obtain fs off kvs l r where p: "tr = plug fs (BL off kvs)" "fits lt key (flat_l fs) (flat_r fs)"
    "agfs_btree_descend_t 16 fp t dtype key (root_off tr) = Inr (rev (off # map frame_off fs))"
    "node_is (get_node t off) l r AGFS_BTREE_NULL kvs" "agfs_btree_read_node t off = Some (get_node t off)"
    "keys_ok ok_key lt kvs" "place_ok t off" by (rule descend_tree [OF T k h])
  note hd = read_header_ok [of t dtype "root_off tr"]
  have io: "items_ok ok_key lt (flat_l fs @ kv_items kvs @ flat_r fs)" using T' by (simp add: p(1) flat_plug)
  note lack = others_lack [OF io p(2) k]
  show thesis
  proof (cases rule: keys_split [OF p(6) k])
    case (1 A w B)
    note P = p(4,6) [unfolded 1]
    have e: "(items_entries (flat_l fs) @ A) @ (key, w) # B @ items_entries (flat_r fs) = map (apsnd dup_link) ds"
      using ent by (simp add: p(1) entries_plug 1)
    obtain ds1 rest where d1: "items_entries (flat_l fs) @ A = map (apsnd dup_link) ds1" "(key, w) # B @ items_entries (flat_r fs) = map (apsnd dup_link) rest"
      "ds = ds1 @ rest" by (rule map_append_part [OF e])
    then obtain d ds2 where d2: "rest = (key, d) # ds2" "w = dup_link d" "B @ items_entries (flat_r fs) = map (apsnd dup_link) ds2"
      by (cases rest) (auto simp: apsnd_def map_prod_def)
    have "key \<notin> fst ` set A" "key \<notin> fst ` set B" using P(2) lt_irrefl [OF k] by (auto simp: keys_ok_append keys_ok_Cons)
    then have "key \<notin> fst ` set (map (apsnd dup_link) ds1)" "key \<notin> fst ` set (map (apsnd dup_link) ds2)"
      unfolding d1(1) [symmetric] d2(3) [symmetric] using lack by auto
    then have n: "key \<notin> fst ` set ds1" "key \<notin> fst ` set ds2" by (auto simp: image_image)
    note s = agfs_btree_search_node_present [OF P]
    have val: "nd_value (get_node t off) (length A) = dup_link d" using node_is_value [OF P(1), of "length A"] d2(2) by simp
    show thesis
    proof (rule present [of fs off A d B ds1 ds2])
      show "index_at ok_key fp dtype t fs off A key B ds1 d ds2" using I d1 d2 by (simp add: index_at_def p(1) 1)
    qed (use hd T' p(3,5) s val n d1(3) d2 key_len [OF k] 1 p(1)
      in \<open>simp_all add: agfs_btree_insert_value_def agfs_btree_delete_value_def\<close>)
  next
    case (2 A B)
    note s = agfs_btree_search_node_absent [OF p(4,6) [unfolded 2(1)] k 2(2,3)]
    have "fst ` set ds = fst ` set (bt_entries tr)" unfolding ent by (auto simp: image_image)
    then have "key \<notin> fst ` set ds" unfolding p(1) entries_plug using lack 2(4) by (auto simp: image_Un)
    then show thesis by (rule absent) (use hd T' p(3,5) s key_len [OF k]
      in \<open>simp_all add: agfs_btree_insert_value_def agfs_btree_insert_impl_def agfs_btree_delete_value_def\<close>)
  qed
qed

lemma insert_absent:
  assumes I: "index_tree ok_key fp dtype t tr ds" and k: "ok_key key" and h: "bt_bal h True tr" "h \<le> 16"
    and v: "v < 2 ^ 32" and sz: "bt_size t + 1024 * (h + 1) < 2 ^ 32" and n: "key \<notin> fst ` set ds"
  shows "\<exists>t' tr' ds'. agfs_btree_insert_impl fp key v dtype t = Some (t', Inr ()) \<and> index_tree ok_key fp dtype t' tr' ds' \<and>
    (bt_bal h True tr' \<or> bt_bal (Suc h) True tr') \<and> bt_size t' \<le> bt_size t + 1024 * (h + 1) \<and>
    idx_vals ds' = (idx_vals ds)(key := add_mset v (idx_vals ds key))"
proof -
  have T: "btree_tree ok_key fp dtype t tr" and ent: "bt_entries tr = map (apsnd dup_link) ds" using I by (simp_all add: index_tree_def)
  have ok: "\<And>x. x \<in> set ds \<Longrightarrow> dup_ok t (snd x)" and sep: "dups_sep (set (bt_offs tr)) (map snd ds)" using I by (simp_all add: index_tree_def)
  have ht: "bt_height tr = h" by (rule bt_bal_height [OF h(1)])
  have v64: "v < 2 ^ 64" using v by simp
  have n': "(key \<in> fst ` set (bt_entries tr)) = False" using n unfolding ent by (auto simp: image_image)
  obtain t' tr' where t': "agfs_btree_insert_impl fp key v dtype t = Some (t', Inr ())"
    "btree_tree ok_key fp dtype t' tr'" "bt_entries tr' = kv_insert lt key v (bt_entries tr)"
    "bt_bal h True tr' \<or> bt_bal (Suc h) True tr'" "bt_size t' \<le> bt_size t + 1024 * (h + 1)" "extends t t' tr tr'"
    using insert_tree [OF T k v64, unfolded ht, OF h(2) sz, unfolded n' if_False] h(1) by blast
  obtain P Q where PQ: "ds = P @ Q" "kv_insert lt key (DV v) ds = P @ (key, DV v) # Q" using kv_insert_split [of ds lt key "DV v"] by blast
  have len: "length (get_node t' x) = 1024" for x using t'(2) by (simp add: btree_tree_def length_get_node)
  have same: "dup_same t t' (snd x)" if x: "x \<in> set ds" for x
  proof -
    have "dup_own (set (bt_offs tr)) (snd x)" using sep x by (auto simp: dups_sep_def)
    then have "place_ok t' y \<and> get_node t' y = get_node t y" if "y \<in> set (dup_nodes (snd x)) \<union> fst ` dup_slots (snd x)" for y
      using dup_places [OF ok [OF x] that] that t'(6) by (auto simp: extends_def keeps_def dup_own_def)
    then show ?thesis using len by (fastforce simp: dup_same_def)
  qed
  have own: "dup_own (set (bt_offs tr')) (snd x)" if x: "x \<in> set ds" for x
  proof -
    have "y \<notin> set (bt_offs tr')" if "y \<in> set (dup_nodes (snd x)) \<union> fst ` dup_slots (snd x)" for y
    proof -
      have "y < bt_size t" using dup_places [OF ok [OF x] that] by (simp add: place_ok_def)
      moreover have "y \<notin> set (bt_offs tr)" using sep x that by (fastforce simp: dups_sep_def dup_own_def)
      ultimately show ?thesis using t'(6) by (force simp: extends_def)
    qed
    then show ?thesis using sep x by (auto simp: dups_sep_def dup_own_def)
  qed
  have "dups_sep (set (bt_offs tr')) (map snd P @ map snd Q)" using own sep by (auto simp: dups_sep_def PQ(1))
  then have "dups_sep (set (bt_offs tr')) (map snd (kv_insert lt key (DV v) ds))"
    unfolding PQ(2) by (simp add: dups_sep_middle) (simp add: dup_own_def dup_apart_def)
  moreover have "\<forall>x \<in> set (kv_insert lt key (DV v) ds). dup_ok t' (snd x)"
    unfolding PQ(2) using dup_same_ok [OF ok same] v by (auto simp: PQ(1))
  ultimately have "index_tree ok_key fp dtype t' tr' (kv_insert lt key (DV v) ds)"
    using t'(2,3) by (simp add: index_tree_def ent map_kv_insert)
  moreover have "idx_vals (kv_insert lt key (DV v) ds) = (idx_vals ds)(key := add_mset v (idx_vals ds key))"
  proof -
    have "idx_vals ds key = {#}" using n by (simp add: idx_vals_def map_of_eq_None_iff [THEN iffD2])
    then show ?thesis unfolding PQ(2) using idx_vals_at [of key P "DV v" Q] n by (simp add: PQ(1) image_Un)
  qed
  ultimately show ?thesis using t'(1,4,5) by blast
qed

lemma insert_value:
  assumes I: "index_tree ok_key fp dtype t tr ds" and k: "ok_key key" and h: "bt_bal h True tr" "h \<le> 16"
    and v: "v < 2 ^ 32" and sz: "bt_size t + 1024 * (h + 1) < 2 ^ 32"
  shows "\<exists>t' tr' ds'. agfs_btree_insert_value fp key dtype v t = Some (t', Inr ()) \<and> index_tree ok_key fp dtype t' tr' ds' \<and>
    (bt_bal h True tr' \<or> bt_bal (Suc h) True tr') \<and> bt_size t' \<le> bt_size t + 1024 * (h + 1) \<and>
    idx_vals ds' = (idx_vals ds)(key := add_mset v (idx_vals ds key))"
proof -
  have ht: "bt_height tr \<le> 16" using bt_bal_height [OF h(1)] h(2) by simp
  show ?thesis
  proof (cases rule: index_find [OF I k ht])
    case (1 fs leaf A B ds1 d ds2)
    have "bt_size t + 1024 < 2 ^ 32" using sz by simp
    from insert_dup [OF 1(3) v this] obtain t' where t': "agfs_btree_insert_dup leaf (length A) v t = Some (t', Inr ())"
      and "value_added ok_key fp dtype t fs leaf A key B ds1 d ds2 v t'" by blast
    then obtain d' where d': "index_at ok_key fp dtype t' fs leaf A key B ds1 d' ds2" "mset (dup_vals d') = add_mset v (mset (dup_vals d))"
      "bt_size t' \<le> bt_size t + 1024" by (auto simp: value_added_def)
    have "idx_vals ds key = mset (dup_vals d)" unfolding 1(2) using idx_vals_at [OF 1(4), of d ds2] by simp
    then have "idx_vals (ds1 @ (key, d') # ds2) = (idx_vals ds)(key := add_mset v (idx_vals ds key))"
      unfolding 1(2) idx_vals_at [OF 1(4)] using d'(2) by simp
    moreover have "bt_bal h True (plug fs (BL leaf (A @ (key, dup_link d') # B)))"
      using h(1) unfolding 1(1) by (simp add: bal_leaf [of h True fs leaf "A @ (key, dup_link d') # B" "A @ (key, dup_link d) # B"])
    ultimately show ?thesis using 1(6) t' d'(1,3) unfolding index_at_def by (intro exI conjI) (auto simp: 1(6))
  next
    case 2
    then show ?thesis using insert_absent [OF I k h v sz] by simp
  qed
qed

end

end
