(* ===== verification/Btree_Multimap.thy ===== *)
theory Btree_Multimap
  imports Btree_Index
begin

text \<open>
  Deletion from an index tree, \<^verbatim>\<open>agfs_btree_delete_value\<close>, and iteration over its values,
  \<^verbatim>\<open>agfs_btree_iterate_values\<close>. A deletion takes exactly one number from the key, or fails when the key
  does not have it; a key whose last duplicate goes gets its number back, and one whose last number goes
  leaves the tree. The iteration visits the numbers of all keys in the order of the keys.
\<close>

subsection \<open>Removal from a fragment\<close>

definition value_removed :: "(bkey \<Rightarrow> bool) \<Rightarrow> fpu \<Rightarrow> nat \<Rightarrow> btree \<Rightarrow> frame list \<Rightarrow> nat \<Rightarrow> bpair list \<Rightarrow> bkey \<Rightarrow> bpair list \<Rightarrow>
    (bkey \<times> dupv) list \<Rightarrow> dupv \<Rightarrow> (bkey \<times> dupv) list \<Rightarrow> nat \<Rightarrow> btree \<Rightarrow> bool" where
  "value_removed ok_key fp dtype t fs leaf A key B ds d es v t' \<longleftrightarrow>
     (\<exists>d'. index_at ok_key fp dtype t' fs leaf A key B ds d' es \<and> mset (dup_vals d') = mset (dup_vals d) - {#v#} \<and> bt_size t' = bt_size t)"

lemma value_removed_log [simp]:
  "value_removed ok_key fp dtype t fs leaf A key B ds d es v (bt_log x t') = value_removed ok_key fp dtype t fs leaf A key B ds d es v t'"
  by (simp add: value_removed_def index_at_log)

lemma dup_own_number: "dup_own X (DV v)" and dup_apart_number: "dup_apart (DV v) e"
  by (simp_all add: dup_own_def dup_apart_def)

lemma size_set_value [simp]: "bt_size (dup_set_value leaf pos v t) = bt_size t"
  by (simp add: dup_set_value_def)

lemma remove_fragment_run:
  fixes v :: nat
  assumes I: "index_at ok_key fp dtype t fs leaf A key B ds (DF off s vs) es"
  defines "n \<equiv> dup_remove (8 * s) (length vs) (Suc (length (takeWhile (\<lambda>x. x \<noteq> v) vs))) (get_node t off)"
  shows "dup_remove_fragment leaf (length A) (dup_link (DF off s vs)) v t =
    (if v \<notin> set vs then Some (t, Inl ENOENT)
     else if length vs = 2
     then dup_leaf_done leaf True (dup_set_value leaf (agfs_btree_values (get_node t leaf) + 8 * length A)
            (dup_word (8 * s + 1) (get_node (dup_write leaf off n t) off)) (dup_write leaf off n t))
     else dup_leaf_done leaf False (dup_write leaf off n t))"
proof -
  note F = slot_facts [OF I] and L = dup_link_facts(3) [OF index_atD(4) [OF I] index_atD(1) [OF I] refl]
  have "8 * s + length vs < 128" using F(3) by (simp add: dup_arr_def)
  then show ?thesis
    unfolding dup_remove_fragment_def Let_def n_def using L F(2,4,7) dup_arr_count [OF F(3)] dup_search_arr [OF F(3), of v]
    by (simp add: dup_array_eq dup_take_out_def)
qed

lemma remove_fragment:
  assumes I: "index_at ok_key fp dtype t fs leaf A key B ds (DF off s vs) es"
  shows "if v \<in> set vs
    then \<exists>t'. dup_remove_fragment leaf (length A) (dup_link (DF off s vs)) v t = Some (t', Inr ()) \<and>
      value_removed ok_key fp dtype t fs leaf A key B ds (DF off s vs) es v t'
    else dup_remove_fragment leaf (length A) (dup_link (DF off s vs)) v t = Some (t, Inl ENOENT)"
proof -
  note h = index_atD(1) [OF I] and F = slot_facts [OF I] and run = remove_fragment_run [OF I, of v]
  let ?pos = "agfs_btree_values (get_node t leaf) + 8 * length A" and ?i = "Suc (length (takeWhile (\<lambda>x. x \<noteq> v) vs))"
  let ?n = "dup_remove (8 * s) (length vs) ?i (get_node t off)"
  let ?t = "dup_write leaf off ?n t"
  show ?thesis
  proof (cases "v \<in> set vs")
    case True
    note R = dup_arr_remove [OF F(3) True]
    have vals: "\<forall>w \<in> set (remove1 v vs). w < 2 ^ 32" using F(6) set_remove1_subset by fastforce
    have frame: "dup_word j ?n = dup_word j (get_node t off)" if "j < 128" "\<not> (8 * s \<le> j \<and> j < 8 * s + 8)" for j
      using R(3) [of j] that F(5) by auto
    show ?thesis
    proof (cases "length vs = 2")
      case two: True
      then obtain u where u: "remove1 v vs = [u]" using True by (metis length_remove1 One_nat_def diff_Suc_1 length_0_conv length_Suc_conv numeral_2_eq_2)
      have w: "wrote t ?t off ?n" by (rule dup_write_wrote [OF h R(2)])
      have c: "changed t ?t [off \<mapsto> ?n]" using changed_wrote [OF changed_refl [OF h] w F(1)] .
      have g: "get_node ?t off = ?n" using w by (simp add: wrote_def)
      have wu: "dup_word (8 * s + 1) ?n = u" using R(1) by (simp add: u dup_arr_def)
      have X: "dom [off \<mapsto> ?n] \<inter> set (bt_offs (plug fs (BL leaf (A @ (key, dup_link (DF off s vs)) # B)))) = {}" using F(8) by simp
      have ok: "dup_ok ?t (DV u)" using vals u by simp
      have same: "dup_same t ?t (snd x)" if "x \<in> set (ds @ es)" for x
        by (rule slot_same [OF c fun_upd_same F(1) R(2) frame, where s = s]) (use F(9,10) [OF that] index_atD(5) [OF I that] in \<open>auto split: if_splits\<close>)
      note Q = index_relink [OF I c X ok same dup_own_number dup_apart_number]
      have "mset (dup_vals (DV u)) = mset vs - {#v#}" using arg_cong [OF u, of mset] by simp
      moreover have "bt_size ?t = bt_size t" using w by (simp add: wrote_def)
      ultimately have "value_removed ok_key fp dtype t fs leaf A key B ds (DF off s vs) es v (dup_set_value leaf ?pos u ?t)"
        unfolding value_removed_def using Q(1) by (intro exI [of _ "DV u"]) simp
      then show ?thesis unfolding run using True two g wu by (simp add: dup_leaf_done_def)
    next
      case False
      have len: "length (remove1 v vs) = length vs - 1" using True by (simp add: length_remove1)
      have "2 \<le> length (remove1 v vs)" "length (remove1 v vs) \<le> 7" using False F(4,5) len by simp_all
      note Q = slot_rewrite [OF I R(1) this vals frame]
      have "value_removed ok_key fp dtype t fs leaf A key B ds (DF off s vs) es v ?t"
        unfolding value_removed_def using Q by (intro exI [of _ "DF off s (remove1 v vs)"]) simp
      then show ?thesis unfolding run using True False by (simp add: dup_leaf_done_def)
    qed
  qed (simp add: run del: dup_link.simps)
qed

subsection \<open>Removal from a chain\<close>

lemma chain_find:
  assumes "healthy t" "dup_chain t ns" "ns \<noteq> []"
  obtains (found) ys x zs where "ns = ys @ x # zs" "v \<in> set (snd x)"
      "dup_chain_find leaf v t (fst (hd ns)) = Some (Inr (fst x, Suc (length (takeWhile (\<lambda>w. w \<noteq> v) (snd x)))))"
  | (missing) "v \<notin> set (concat (map snd ns))" "dup_chain_find leaf v t (fst (hd ns)) = Some (Inl ENOENT)"
  using assms(2,3)
proof (induction ns arbitrary: thesis)
  case (Cons x ns)
  have pl: "place_ok t (fst x)" and arr: "dup_arr 2 (snd x) (get_node t (fst x))" and ch: "dup_chain t ns"
    and nx: "nd_right (get_node t (fst x)) = (case ns of [] \<Rightarrow> AGFS_BTREE_NULL | y # _ \<Rightarrow> fst y)"
    using Cons.prems(3) by (simp_all add: nd_right_word)
  have rd: "dup_read leaf (fst x) t = Some (Some (get_node t (fst x)))" by (rule dup_read_ok [OF assms(1) pl])
  note srch = dup_search_arr [OF arr, of v] dup_arr_count [OF arr]
  show ?case
  proof (cases "v \<in> set (snd x)")
    case True
    then show ?thesis using rd srch by (intro Cons.prems(1) [of "[]" x ns]) (simp_all add: dup_chain_find.simps [of leaf v t "fst x"])
  next
    case no: False
    show ?thesis
    proof (cases ns)
      case Nil
      then show ?thesis using rd srch no nx by (intro Cons.prems(2)) (simp_all add: dup_chain_find.simps [of leaf v t "fst x"])
    next
      case (Cons y ms)
      then have "fst y \<noteq> AGFS_BTREE_NULL" using ch place_not_null [OF _ assms(1), of "fst y"] by simp
      then have step: "dup_chain_find leaf v t (fst (hd (x # ns))) = dup_chain_find leaf v t (fst (hd ns))"
        using rd srch no nx Cons by (simp add: dup_chain_find.simps [of leaf v t "fst x"])
      show ?thesis
      proof (rule Cons.IH [OF _ _ ch])
        fix ys z zs assume "ns = ys @ z # zs" "v \<in> set (snd z)"
          "dup_chain_find leaf v t (fst (hd ns)) = Some (Inr (fst z, Suc (length (takeWhile (\<lambda>w. w \<noteq> v) (snd z)))))"
        then show thesis using step by (intro Cons.prems(1) [of "x # ys" z zs]) simp_all
      next
        assume "v \<notin> set (concat (map snd ns))" "dup_chain_find leaf v t (fst (hd ns)) = Some (Inl ENOENT)"
        then show thesis using step no by (intro Cons.prems(2)) simp_all
      qed (simp add: Cons)
    qed
  qed
qed simp

definition chain_start :: "(nat \<times> nat list) list \<Rightarrow> nat" where
  "chain_start ns = (case ns of [] \<Rightarrow> AGFS_BTREE_NULL | y # _ \<Rightarrow> fst y)"

primrec chain_single :: "nat \<Rightarrow> (nat \<times> nat list) list \<Rightarrow> nat" where
  "chain_single l [] = l"
| "chain_single l (x # ns) = chain_single (if length (snd x) = 1 then hd (snd x) else l) ns"

lemma chain_single_all_empty: "concat (map snd ns) = [] \<Longrightarrow> chain_single l ns = l"
  by (induction ns arbitrary: l) auto

lemma chain_single_one: "concat (map snd ns) = [u] \<Longrightarrow> chain_single l ns = u"
proof (induction ns arbitrary: l)
  case (Cons x ns)
  then show ?case using chain_single_all_empty [of ns] by (cases "snd x") auto
qed simp

lemma chain_total:
  assumes "healthy t" "dup_chain t ns" "n + length (concat (map snd ns)) < 2 ^ 64"
  shows "dup_chain_total leaf t (chain_start ns) n l = Some (Inr (n + length (concat (map snd ns)), chain_single l ns))"
  using assms(2,3)
proof (induction ns arbitrary: n l)
  case Nil
  then show ?case by (simp add: chain_start_def dup_chain_total.simps)
next
  case (Cons x ns)
  have pl: "place_ok t (fst x)" and arr: "dup_arr 2 (snd x) (get_node t (fst x))" and ch: "dup_chain t ns"
    and nx: "nd_right (get_node t (fst x)) = chain_start ns"
    using Cons.prems(1) by (simp_all add: nd_right_word chain_start_def)
  have cnt: "dup_word 2 (get_node t (fst x)) = length (snd x)" using arr by (simp add: dup_arr_def)
  have one: "length (snd x) = 1 \<Longrightarrow> dup_word 3 (get_node t (fst x)) = hd (snd x)" using arr by (cases "snd x") (auto simp: dup_arr_def)
  have "dup_chain_total leaf t (fst x) n l =
      dup_chain_total leaf t (chain_start ns) (n + length (snd x)) (if length (snd x) = 1 then hd (snd x) else l)"
    using dup_read_ok [OF assms(1) pl, of leaf] place_not_null [OF pl assms(1)] Cons.prems(2) nx cnt one
    by (simp add: dup_chain_total.simps [of leaf t "fst x"] Let_def)
  then show ?case using Cons.IH [OF ch] Cons.prems(2) by (simp add: chain_start_def [of "x # ns"] add.assoc)
qed

lemma chain_freed:
  assumes "healthy t" "dup_chain t ns"
  shows "dup_chain_free leaf t (chain_start ns) = Some ()"
  using assms(2)
proof (induction ns)
  case (Cons x ns)
  then have "dup_chain_free leaf t (fst x) = dup_chain_free leaf t (chain_start ns)"
    using dup_read_ok [OF assms(1), of "fst x" leaf] place_not_null [OF _ assms(1), of "fst x"]
    by (simp add: dup_chain_free.simps [of leaf t "fst x"] nd_right_word chain_start_def)
  then show ?case using Cons by (simp add: chain_start_def [of "x # ns"])
qed (simp add: chain_start_def dup_chain_free.simps)

lemma chain_vals_bound:
  assumes I: "index_at ok_key fp dtype t fs leaf A key B ds (DC ns) es"
  shows "length (concat (map snd ns)) < 2 ^ 64" "1024 * length ns \<le> bt_size t"
proof -
  note F = chain_facts [OF I]
  have "1024 * length (map fst ns) \<le> bt_size t" using F(5,6) by (intro leaves_few) auto
  then show b: "1024 * length ns \<le> bt_size t" by simp
  have "\<forall>x \<in> set ns. length (snd x) \<le> 125" using dup_chain_place [OF F(2)] dup_arr_max by blast
  then have "length (concat (map snd ns)) \<le> 125 * length ns" by (induction ns) auto
  moreover have "bt_size t < 2 ^ 32" using index_atD(1) [OF I] by (simp add: healthy_def)
  ultimately show "length (concat (map snd ns)) < 2 ^ 64" using b by simp
qed

lemma dup_demote_run:
  assumes "healthy t" "dup_chain t ns" "ns \<noteq> []" "length (concat (map snd ns)) < 2 ^ 64" "1 \<le> length (concat (map snd ns))"
    "\<And>u. concat (map snd ns) = [u] \<Longrightarrow> healthy (dup_set_value leaf pos u t) \<and> dup_chain (dup_set_value leaf pos u t) ns"
  shows "dup_demote leaf index pos (fst (hd ns)) t =
    (if length (concat (map snd ns)) = 1 then dup_leaf_done leaf True (dup_set_value leaf pos (hd (concat (map snd ns))) t)
     else dup_leaf_done leaf False t)"
proof -
  have s: "chain_start ns = fst (hd ns)" using assms(3) by (cases ns) (simp_all add: chain_start_def)
  note T = chain_total [OF assms(1,2), of 0 leaf 0, unfolded s]
  show ?thesis
  proof (cases "length (concat (map snd ns)) = 1")
    case True
    then obtain u where u: "concat (map snd ns) = [u]" by (cases "concat (map snd ns)") auto
    note f = assms(6) [OF u]
    have "dup_chain_free leaf (dup_set_value leaf pos u t) (fst (hd ns)) = Some ()" using chain_freed [of "dup_set_value leaf pos u t" ns leaf] f s by simp
    then show ?thesis using T u chain_single_one [OF u] by (simp add: dup_demote_def Let_def)
  qed (use T assms(4,5) in \<open>simp add: dup_demote_def\<close>)
qed

lemma remove_chain:
  assumes I: "index_at ok_key fp dtype t fs leaf A key B ds (DC ns) es"
  shows "if v \<in> set (dup_vals (DC ns))
    then \<exists>t'. dup_remove_chain leaf (length A) (dup_link (DC ns)) v t = Some (t', Inr ()) \<and>
      value_removed ok_key fp dtype t fs leaf A key B ds (DC ns) es v t'
    else dup_remove_chain leaf (length A) (dup_link (DC ns)) v t = Some (t, Inl ENOENT)"
proof -
  note h = index_atD(1) [OF I] and F = chain_facts [OF I]
  note L = dup_link_facts(4) [OF index_atD(4) [OF I] h refl]
  let ?pos = "agfs_btree_values (get_node t leaf) + 8 * length A"
  show ?thesis
  proof (cases rule: chain_find [OF h F(2,1), of v leaf])
    case (1 ys x zs)
    let ?i = "Suc (length (takeWhile (\<lambda>w. w \<noteq> v) (snd x)))"
    let ?n = "dup_remove 2 (length (snd x)) ?i (get_node t (fst x))" and ?ns = "ys @ (fst x, remove1 v (snd x)) # zs"
    let ?t = "dup_write leaf (fst x) ?n t"
    have x: "x \<in> set ns" and ns: "ns = ys @ (fst x, snd x) # zs" using 1(1) by simp_all
    have arr: "dup_arr 2 (snd x) (get_node t (fst x))" using dup_chain_place [OF F(2) x] by simp
    note R = dup_arr_remove [OF arr 1(2)]
    have wd: "dup_word 1 ?n = dup_word 1 (get_node t (fst x))" using R(3) [of 1] by simp
    note W = chain_write [OF I ns R(1) wd]
    have h1: "healthy ?t" using W(1) by (simp add: changed_def)
    have ms: "mset (concat (map snd ?ns)) = mset (concat (map snd ns)) - {#v#}" using 1(2) by (simp add: 1(1) ac_simps)
    have "0 < length (snd x)" using 1(2) by (cases "snd x") auto
    then have len: "length (concat (map snd ?ns)) = length (concat (map snd ns)) - 1" using 1(2)
      by (simp only: 1(1) length_remove1 map_append concat_append length_append list.map concat.simps snd_conv if_True)
    have vals: "\<forall>w \<in> set (remove1 v (snd x)). w < 2 ^ 32" using F(4) [OF x] set_remove1_subset by fastforce
    have mem: "v \<in> set (dup_vals (DC ns))" using 1(1,2) by simp
    have hdeq: "fst (hd ?ns) = fst (hd ns)" using 1(1) by (cases ys) simp_all
    have run: "dup_remove_chain leaf (length A) (dup_link (DC ns)) v t = dup_demote leaf (length A) ?pos (fst (hd ?ns)) ?t"
      unfolding dup_remove_chain_def Let_def hdeq using L 1(3) dup_arr_count [OF arr] arr by (simp add: dup_take_out_def dup_arr_def)
    have X: "dup_own (set (bt_offs (plug fs (BL leaf (A @ (key, dup_link (DC ns)) # B))))) (DC ?ns)"
      using index_atD(6) [OF I] by (auto simp: dup_own_def 1(1))
    have relink: "index_at ok_key fp dtype (dup_set_value leaf ?pos u ?t) fs leaf A key B ds (DV u) es \<and>
        healthy (dup_set_value leaf ?pos u ?t) \<and> dup_chain (dup_set_value leaf ?pos u ?t) ?ns" if u: "concat (map snd ?ns) = [u]" for u
    proof -
      have "u \<in> set (concat (map snd ?ns))" using u by simp
      then have "u \<in> set (concat (map snd ns))" using 1(1) set_remove1_subset by fastforce
      then have ok: "dup_ok ?t (DV u)" using F(4) by auto
      note Q = index_relink [OF I W(1,4) ok W(5) dup_own_number dup_apart_number]
      from Q(2) obtain m where c: "changed t (dup_set_value leaf ?pos u ?t) ([fst x \<mapsto> ?n](leaf \<mapsto> m))" by auto
      have "dup_chain (dup_set_value leaf ?pos u ?t) ?ns"
      proof (rule dup_chain_cong [OF W(3)], intro ballI)
        fix y assume "y \<in> set ?ns"
        then have y: "fst y \<in> fst ` set ns" "fst y \<noteq> leaf"
          using X index_atD(10) [OF I] by (auto simp: 1(1) dup_own_def)
        then have pl: "place_ok t (fst y)" using F(6) by auto
        have "get_node (dup_set_value leaf ?pos u ?t) (fst y) = get_node ?t (fst y)"
          using changed_new [OF c changed_place [OF c pl]] changed_new [OF W(1) changed_place [OF W(1) pl]]
            changed_get [OF c pl] changed_get [OF W(1) pl] y(2) by (cases "fst y = fst x") auto
        then show "place_ok (dup_set_value leaf ?pos u ?t) (fst y) \<and> get_node (dup_set_value leaf ?pos u ?t) (fst y) = get_node ?t (fst y)"
          using changed_place [OF c pl] by simp
      qed
      then show ?thesis using Q(1) c by (simp add: changed_def)
    qed
    have bd: "length (concat (map snd ?ns)) < 2 ^ 64" "1 \<le> length (concat (map snd ?ns))" using chain_vals_bound(1) [OF I] F(3) len by linarith+
    note D = dup_demote_run [OF h1 W(3) _ bd, of leaf ?pos "length A", OF _ relink [THEN conjunct2]]
    show ?thesis
    proof (cases "length (concat (map snd ?ns)) = 1")
      case True
      then obtain u where u: "concat (map snd ?ns) = [u]" by (metis One_nat_def length_0_conv length_Suc_conv)
      have "mset (dup_vals (DV u)) = mset (dup_vals (DC ns)) - {#v#}" using ms [unfolded u] by simp
      then have "value_removed ok_key fp dtype t fs leaf A key B ds (DC ns) es v (dup_set_value leaf ?pos u ?t)"
        unfolding value_removed_def using relink [OF u] W(2) by (intro exI [of _ "DV u"]) simp
      then show ?thesis unfolding run using D True u mem by (simp add: dup_leaf_done_def)
    next
      case False
      then have "2 \<le> length (concat (map snd ?ns))" using bd(2) by linarith
      note Q = chain_rewrite [OF I ns R(1) wd vals this]
      have "value_removed ok_key fp dtype t fs leaf A key B ds (DC ns) es v ?t"
        unfolding value_removed_def using Q ms W(2) by (intro exI [of _ "DC ?ns"]) simp
      then show ?thesis unfolding run using D False mem by (simp add: dup_leaf_done_def)
    qed
  next
    case 2
    then show ?thesis using L by (simp add: dup_remove_chain_def)
  qed
qed

lemma remove_dup:
  assumes I: "index_at ok_key fp dtype t fs leaf A key B ds d es" and "agfs_dup_link_type (dup_link d) \<noteq> 0"
  shows "if v \<in> set (dup_vals d)
    then \<exists>t'. agfs_btree_remove_dup leaf (length A) v t = Some (t', Inr ()) \<and> value_removed ok_key fp dtype t fs leaf A key B ds d es v t'
    else agfs_btree_remove_dup leaf (length A) v t = Some (t, Inl ENOENT)"
proof -
  note L = dup_link_facts [OF index_atD(4) [OF I] index_atD(1) [OF I]]
  have run: "agfs_btree_remove_dup leaf (length A) v t =
      (if agfs_dup_link_type (dup_link d) = 3 then dup_remove_fragment leaf (length A) (dup_link d) v t
       else if agfs_dup_link_type (dup_link d) \<noteq> 2 then Some (t, Inl ENOENT)
       else dup_remove_chain leaf (length A) (dup_link d) v t)"
    unfolding agfs_btree_remove_dup_def index_at_value(2) [OF I] by (simp add: index_at_value(1) [OF I] Let_def)
  show ?thesis
  proof (cases d)
    case (DV w)
    then show ?thesis using assms(2) L(2) by simp
  next
    case (DF off s vs)
    then show ?thesis using remove_fragment [OF I [unfolded DF], of v] L(3) [OF DF] unfolding run by (simp del: dup_link.simps)
  next
    case (DC ns)
    then show ?thesis using remove_chain [OF I [unfolded DC], of v] L(4) [OF DC] unfolding run by (simp del: dup_link.simps)
  qed
qed

subsection \<open>Deletion of a value\<close>

lemma idx_vals_none: "key \<notin> fst ` set ds \<Longrightarrow> idx_vals ds key = {#}"
  by (simp add: idx_vals_def map_of_eq_None_iff [THEN iffD2])

context tree_keys
begin

lemma delete_number:
  assumes I: "index_at ok_key fp dtype t fs leaf A key B ds (DV v) es"
  defines "t' \<equiv> bt_log leaf (put_node leaf (agfs_btree_remove_at (get_node t leaf) (length A)) (t\<lparr>bt_dirty := True\<rparr>))"
  shows "index_tree ok_key fp dtype t' (plug fs (BL leaf (A @ B))) (ds @ es)" "bt_size t' = bt_size t"
proof -
  note J = I [unfolded index_at_def index_tree_def]
  obtain l r where N: "node_is (get_node t leaf) l r AGFS_BTREE_NULL (A @ (key, dup_link (DV v)) # B)" using index_atD(3) [OF I] by blast
  have T: "btree_tree ok_key fp dtype t' (plug fs (BL leaf (A @ B)))"
    unfolding t'_def using J by (intro btree_tree_remove [OF _ N index_atD(2) [OF I]]) simp
  show "bt_size t' = bt_size t" by (simp add: t'_def)
  have "get_node t' x = get_node t x \<and> place_ok t' x" if "place_ok t x" "x \<noteq> leaf" for x
    using place_distinct(1) [OF index_atD(1) [OF I] that(1)] place_distinct(1) [OF index_atD(1,2) [OF I]] that
    by (simp add: t'_def get_node_def put_node_def bt_log_def place_ok_def bt_blk_def)
  moreover have "leaf \<notin> set (dup_nodes (snd x)) \<union> fst ` dup_slots (snd x)" if "x \<in> set (ds @ es)" for x
    using index_atD(8) [OF I that] index_atD(10) [OF I] by (auto simp: dup_own_def)
  ultimately have k: "get_node t' y = get_node t y \<and> place_ok t' y"
    if "x \<in> set (ds @ es)" "y \<in> set (dup_nodes (snd x)) \<union> fst ` dup_slots (snd x)" for x y
    using dup_places [OF index_atD(5) [OF I that(1)] that(2)] that by blast
  have len: "length (get_node t' y) = 1024" for y using T by (simp add: btree_tree_def length_get_node)
  have "dup_same t t' (snd x)" if x: "x \<in> set (ds @ es)" for x
    using k [OF x] len by (force simp: dup_same_def)
  then have "\<forall>x \<in> set (ds @ es). dup_ok t' (snd x)" using dup_same_ok [OF index_atD(5) [OF I]] by blast
  moreover have "set (bt_offs (plug fs (BL leaf (A @ (key, dup_link (DV v)) # B)))) = set (bt_offs (plug fs (BL leaf (A @ B))))"
    by (simp add: set_offs_plug)
  then have "dups_sep (set (bt_offs (plug fs (BL leaf (A @ B))))) (map snd (ds @ es))" using index_atD(9) [OF I] by simp
  moreover have "bt_entries (plug fs (BL leaf (A @ B))) = map (apsnd dup_link) (ds @ es)" using J by (simp add: entries_plug)
  ultimately show "index_tree ok_key fp dtype t' (plug fs (BL leaf (A @ B))) (ds @ es)" using T by (simp add: index_tree_def)
qed

lemma delete_value:
  assumes I: "index_tree ok_key fp dtype t tr ds" and k: "ok_key key" and h: "bt_bal h True tr" "h \<le> 16"
  shows "if v \<in># idx_vals ds key
    then \<exists>t' tr' ds'. agfs_btree_delete_value fp key v t = Some (t', Inr ()) \<and> index_tree ok_key fp dtype t' tr' ds' \<and> bt_bal h True tr' \<and>
      bt_size t' = bt_size t \<and> idx_vals ds' = (idx_vals ds)(key := idx_vals ds key - {#v#})
    else agfs_btree_delete_value fp key v t = Some (t, Inl ENOENT)"
proof -
  have ht: "bt_height tr \<le> 16" using bt_bal_height [OF h(1)] h(2) by simp
  show ?thesis
  proof (cases rule: index_find [OF I k ht])
    case (1 fs leaf A B ds1 d ds2)
    have iv: "idx_vals ds key = mset (dup_vals d)" unfolding 1(2) using idx_vals_at [OF 1(4), of d ds2] by simp
    have bal: "bt_bal h True (plug fs (BL leaf kvs))" for kvs
      using h(1) unfolding 1(1) by (simp add: bal_leaf [of h True fs leaf kvs "A @ (key, dup_link d) # B"])
    note L = dup_link_facts [OF index_atD(4) [OF 1(3)] index_atD(1) [OF 1(3)]]
    show ?thesis
    proof (cases d)
      case (DV w)
      show ?thesis
      proof (cases "w = v")
        case True
        note D = delete_number [OF 1(3) [unfolded DV True]]
        have "idx_vals (ds1 @ ds2) = (idx_vals ds)(key := {#})"
          unfolding 1(2) idx_vals_at [OF 1(4)] using idx_vals_none [of key "ds1 @ ds2"] 1(4,5) by (auto simp: fun_upd_idem image_Un)
        then show ?thesis using 1(7) D bal L(2) [OF DV] iv DV True by (auto intro!: exI [of _ "ds1 @ ds2"])
      qed (use 1(7) L(2) [OF DV] iv DV in simp)
    next
      case (DF off s vs)
      then have ty: "agfs_dup_link_type (dup_link d) \<noteq> 0" using L(3) by simp
      then show ?thesis using remove_dup [OF 1(3) ty, of v] 1(7) iv bal unfolding value_removed_def index_at_def 1(2) idx_vals_at [OF 1(4)]
        by (auto split: if_splits) (metis fun_upd_upd idx_vals_at [OF 1(4)])
    next
      case (DC ns)
      then have ty: "agfs_dup_link_type (dup_link d) \<noteq> 0" using L(4) by simp
      then show ?thesis using remove_dup [OF 1(3) ty, of v] 1(7) iv bal unfolding value_removed_def index_at_def 1(2) idx_vals_at [OF 1(4)]
        by (auto split: if_splits) (metis fun_upd_upd idx_vals_at [OF 1(4)])
    qed
  next
    case 2
    then show ?thesis by (simp add: idx_vals_none)
  qed
qed

end

subsection \<open>Iteration over the values\<close>

definition idx_pairs :: "(bkey \<times> dupv) list \<Rightarrow> bpair list" where
  "idx_pairs ds = concat (map (\<lambda>x. map (Pair (fst x)) (dup_vals (snd x))) ds)"

lemma dup_feed_walk: "dup_feed fn key vs s = kv_walk fn (map (Pair key) vs) s"
  by (induction vs arbitrary: s) (auto split: prod.split)

lemma iter_array:
  "dup_arr arr vs n \<Longrightarrow> length vs \<le> mx \<Longrightarrow>
     dup_iter_array fn key arr mx n s = (fst (kv_walk fn (map (Pair key) vs) s), Inr (snd (kv_walk fn (map (Pair key) vs) s)))"
  using dup_arr_values [of arr vs n] by (simp add: dup_iter_array_def dup_feed_walk dup_arr_def split: prod.split)

lemma iter_dup_chain:
  assumes "healthy t" "dup_chain t ns" "length ns \<le> h"
  shows "dup_iter_chain h t leaf fn key (chain_start ns) s =
    Some (fst (kv_walk fn (map (Pair key) (concat (map snd ns))) s), Inr (snd (kv_walk fn (map (Pair key) (concat (map snd ns))) s)))"
  using assms(2,3)
proof (induction ns arbitrary: h s)
  case Nil
  then show ?case by (cases h) (simp_all add: chain_start_def)
next
  case (Cons x ns)
  obtain k where h: "h = Suc k" using Cons.prems(2) by (cases h) auto
  have pl: "place_ok t (fst x)" and arr: "dup_arr 2 (snd x) (get_node t (fst x))" and ch: "dup_chain t ns"
    and nx: "nd_right (get_node t (fst x)) = chain_start ns"
    using Cons.prems(1) by (simp_all add: nd_right_word chain_start_def)
  obtain s' stop where w: "kv_walk fn (map (Pair key) (snd x)) s = (s', stop)" by (cases "kv_walk fn (map (Pair key) (snd x)) s")
  note A = iter_array [OF arr dup_arr_max [OF arr], of fn key s, unfolded w]
  show ?case using dup_read_ok [OF assms(1) pl, of leaf] place_not_null [OF pl assms(1)] nx A w Cons.IH [OF ch, of k s'] Cons.prems(2)
    by (cases stop) (simp_all add: h chain_start_def [of "x # ns"] kv_walk_append)
qed

definition dup_short :: "dupv \<Rightarrow> bool" where
  "dup_short d \<longleftrightarrow> length (dup_nodes d) \<le> 4096"

lemma iter_value:
  assumes "healthy t" "dup_ok t d" "dup_short d"
  shows "dup_iter_value t leaf fn key (dup_link d) s =
    Some (fst (kv_walk fn (map (Pair key) (dup_vals d)) s), Inr (snd (kv_walk fn (map (Pair key) (dup_vals d)) s)))"
proof (cases d)
  case (DV v)
  then show ?thesis using dup_link_facts(2) [OF assms(2,1) DV] by (simp add: dup_iter_value_def split: prod.split)
next
  case (DF off s0 vs)
  then have "place_ok t off" "s0 < 16" "dup_arr (8 * s0) vs (get_node t off)" "length vs \<le> 7" using assms(2) by (simp_all add: dup_array_eq)
  then show ?thesis using dup_link_facts(3) [OF assms(2,1) DF] iter_array [of "8 * s0" vs "get_node t off" 7 fn key s] dup_read_ok [OF assms(1), of off leaf] DF
    by (simp add: dup_iter_value_def dup_array_eq)
next
  case (DC ns)
  then have ns: "dup_chain t ns" "length ns \<le> 4096" "chain_start ns = fst (hd ns)"
    using assms(2,3) by (auto simp: dup_short_def chain_start_def split: list.split)
  then show ?thesis using dup_link_facts(4) [OF assms(2,1) DC] iter_dup_chain [OF assms(1) ns(1,2), of leaf fn key s] DC
    by (simp add: dup_iter_value_def)
qed

lemma iter_pairs:
  assumes "healthy t" "\<forall>x \<in> set ds. dup_ok t (snd x) \<and> dup_short (snd x) \<and> length (fst x) < 256"
  shows "dup_iter_pairs t leaf fn (map (apsnd dup_link) ds) s = Some (fst (kv_walk fn (idx_pairs ds) s), Inr (snd (kv_walk fn (idx_pairs ds) s)))"
  using assms(2)
proof (induction ds arbitrary: s)
  case (Cons x ds)
  obtain k d where x: "x = (k, d)" by (cases x)
  obtain s' stop where w: "kv_walk fn (map (Pair k) (dup_vals d)) s = (s', stop)" by (cases "kv_walk fn (map (Pair k) (dup_vals d)) s")
  have "dup_iter_value t leaf fn k (dup_link d) s = Some (s', Inr stop)" using iter_value [OF assms(1), of d leaf fn k s] w Cons.prems by (simp add: x)
  then show ?case using Cons w by (cases stop) (simp_all add: x idx_pairs_def kv_walk_append)
qed (simp add: idx_pairs_def)

lemma iter_values_chain:
  assumes "healthy t" "chain t l (map fst lvs) AGFS_BTREE_NULL" "lvs \<noteq> []"
    "\<forall>x \<in> set lvs. desc_ok t (fst x, AGFS_BTREE_NULL, snd x) \<and> place_ok t (fst x)"
    "concat (map snd lvs) = map (apsnd dup_link) ds" "\<forall>x \<in> set ds. dup_ok t (snd x) \<and> dup_short (snd x) \<and> length (fst x) < 256"
  shows "dup_iter_leaves t fn (fst (hd lvs)) s = Some (fst (kv_walk fn (idx_pairs ds) s), None)"
  using assms(2-)
proof (induction lvs arbitrary: l s ds)
  case (Cons x lvs)
  obtain off kvs where x: "x = (off, kvs)" by (cases x)
  obtain ds1 ds2 where ds: "kvs = map (apsnd dup_link) ds1" "concat (map snd lvs) = map (apsnd dup_link) ds2" "ds = ds1 @ ds2"
    using Cons.prems(4) by (auto simp: x elim: map_append_part)
  have d: "desc_ok t (off, AGFS_BTREE_NULL, kvs)" and pl: "place_ok t off" using Cons.prems(3) by (auto simp: x)
  obtain lf r where n: "node_is (get_node t off) lf r AGFS_BTREE_NULL kvs" by (rule desc_okD [OF d])
  have right: "nd_right (get_node t off) = hd (map fst lvs @ [AGFS_BTREE_NULL])" using Cons.prems(1) by (simp add: x)
  obtain s' stop where w: "kv_walk fn (idx_pairs ds1) s = (s', stop)" by (cases "kv_walk fn (idx_pairs ds1) s")
  have ok: "\<forall>x \<in> set ds1. dup_ok t (snd x) \<and> dup_short (snd x) \<and> length (fst x) < 256"
    "\<forall>x \<in> set ds2. dup_ok t (snd x) \<and> dup_short (snd x) \<and> length (fst x) < 256" using Cons.prems(5) by (simp_all add: ds(3))
  have wk: "kv_walk fn (idx_pairs ds) s = (if stop then (s', True) else kv_walk fn (idx_pairs ds2) s')"
    using w by (simp add: ds(3) idx_pairs_def kv_walk_append)
  have step: "dup_iter_leaves t fn off s =
      (if stop \<or> nd_right (get_node t off) = AGFS_BTREE_NULL then Some (s', None) else dup_iter_leaves t fn (nd_right (get_node t off)) s')"
    using read_place [OF pl assms(1)] iter_pairs [OF assms(1) ok(1), of off fn s] w
    by (subst dup_iter_leaves.simps) (simp add: node_is_fields [OF n] node_is_pairs [OF n] ds(1))
  show ?case
  proof (cases lvs)
    case Nil
    then have "ds2 = []" using ds(2) by simp
    then show ?thesis using step right wk Nil by (auto simp: x idx_pairs_def)
  next
    case (Cons y ys)
    have "place_ok t (fst y)" using Cons.prems(3) by (simp add: Cons)
    then have nn: "fst y \<noteq> AGFS_BTREE_NULL" using place_not_null assms(1) by blast
    have "dup_iter_leaves t fn (fst (hd lvs)) s' = Some (fst (kv_walk fn (idx_pairs ds2) s'), None)"
      using Cons.prems(1,3) ds(2) ok(2) by (intro Cons.IH) (auto simp: x Cons)
    then show ?thesis using step right wk nn by (simp add: x Cons)
  qed
qed simp

context tree_keys
begin

lemma iterate_values:
  assumes I: "index_tree ok_key fp dtype t tr ds" and sz: "bt_size t \<le> 4096 * 1024" and ty: "a = int dtype \<or> a = 0 \<or> a = -1"
  shows "agfs_btree_iterate_values t a fn s = Some (fst (kv_walk fn (idx_pairs ds) s), None)"
proof -
  have T: "healthy t" "header_ok t dtype (root_off tr)" "sound {} t tr" "items_ok ok_key lt (bt_flat tr)"
    and ent: "bt_entries tr = map (apsnd dup_link) ds" using I by (simp_all add: index_tree_def btree_tree_def)
  have ok: "dup_ok t (snd x) \<and> dup_short (snd x) \<and> length (fst x) < 256" if x: "x \<in> set ds" for x
  proof -
    have d: "dup_ok t (snd x)" "distinct (dup_nodes (snd x))" using I x by (auto simp: index_tree_def dups_sep_def dup_own_def)
    have "1024 * length (dup_nodes (snd x)) \<le> bt_size t" using dup_places [OF d(1)] by (intro leaves_few [OF d(2)]) auto
    then have "dup_short (snd x)" using sz by (simp add: dup_short_def)
    moreover have "apsnd dup_link x \<in> set (bt_entries tr)" unfolding ent using x by simp
    then have "(fst x, dup_link (snd x)) \<in> set (bt_entries tr)" by (simp add: apsnd_def map_prod_def case_prod_unfold)
    then have "ok_key (fst x)" using T(4) by (auto simp: bt_entries_def items_entries_keys items_ok_def)
    ultimately show ?thesis using d(1) key_len [of "fst x"] by auto
  qed
  have lv: "bt_leaves tr \<noteq> []" using leaf_offs_nonempty [of tr] by (simp add: leaf_offs_leaves)
  have "\<forall>x \<in> set (bt_leaves tr). desc_ok t (fst x, AGFS_BTREE_NULL, snd x) \<and> place_ok t (fst x)"
    using leaf_descs T(3) descs_offs_mem by (fastforce simp: shape_def)
  then have "dup_iter_leaves t fn (fst (hd (bt_leaves tr))) s = Some (fst (kv_walk fn (idx_pairs ds) s), None)"
    using T(3) lv ok by (intro iter_values_chain [OF T(1), of AGFS_BTREE_NULL]) (auto simp: shape_def leaf_offs_leaves bt_entries_leaves ent [symmetric])
  moreover have "bt_leftmost t (root_off tr) = Some (Inr (fst (hd (bt_leaves tr))))"
    using leftmost_tree [OF T(1) soundD [OF T(3)]] lv by (simp add: leaf_offs_leaves hd_map)
  ultimately show ?thesis using read_header_ok [OF T(1,2)] ty by (auto simp: agfs_btree_iterate_values_def)
qed

end

end
