(* ===== verification/Agfs_Indices.thy ===== *)
theory Agfs_Indices
  imports Btree_Multimap
begin

text \<open>
  The indices of a volume, \<^verbatim>\<open>fs/agfs/indices.c\<close>, on the index trees of \<^verbatim>\<open>btree.c\<close>. An index tree holds a
  multimap from keys to inode numbers (\<open>index_holds\<close>), and its calls refine the changes of that multimap. The
  volume has three of them, found by name through the indices directory; \<open>agfs_index_add\<close>, \<open>agfs_index_remove\<close>
  and \<open>agfs_index_resize\<close> keep them equal to the names, sizes and times of the files (\<open>volume_indexed\<close>).

  The calls into the journal and the write of the inode are recorded as events. The trees are those of the
  inodes that \<^verbatim>\<open>iget\<close> finds, given by number.
\<close>

subsection \<open>An index and its numbers\<close>

definition index_holds :: "(bkey \<Rightarrow> bool) \<Rightarrow> fpu \<Rightarrow> nat \<Rightarrow> btree \<Rightarrow> (bkey \<Rightarrow> nat multiset) \<Rightarrow> bool" where
  "index_holds ok_key fp dtype t M \<longleftrightarrow> (\<exists>tr ds h. index_tree ok_key fp dtype t tr ds \<and> bt_bal h True tr \<and> idx_vals ds = M)"

datatype index_op = Index_put bkey nat | Index_del bkey nat

fun index_step :: "fpu \<Rightarrow> nat \<Rightarrow> index_op \<Rightarrow> btree \<Rightarrow> (btree \<times> unit result) option" where
  "index_step fp dtype (Index_put key v) t = agfs_btree_insert_value fp key dtype v t"
| "index_step fp dtype (Index_del key v) t = agfs_btree_delete_value fp key v t"

fun index_spec :: "index_op \<Rightarrow> (bkey \<Rightarrow> nat multiset) \<Rightarrow> (bkey \<Rightarrow> nat multiset) \<times> unit result" where
  "index_spec (Index_put key v) M = (M(key := add_mset v (M key)), Inr ())"
| "index_spec (Index_del key v) M = (if v \<in># M key then (M(key := M key - {#v#}), Inr ()) else (M, Inl ENOENT))"

fun index_op_ok :: "(bkey \<Rightarrow> bool) \<Rightarrow> index_op \<Rightarrow> bool" where
  "index_op_ok ok_key (Index_put key v) \<longleftrightarrow> ok_key key \<and> v < 2 ^ 32"
| "index_op_ok ok_key (Index_del key v) \<longleftrightarrow> ok_key key"

primrec index_run :: "fpu \<Rightarrow> nat \<Rightarrow> index_op list \<Rightarrow> btree \<Rightarrow> (btree \<times> unit result list) option" where
  "index_run fp dtype [] t = Some (t, [])"
| "index_run fp dtype (c # cs) t =
     (case index_step fp dtype c t of
        None \<Rightarrow> None
      | Some (t', r) \<Rightarrow> (case index_run fp dtype cs t' of None \<Rightarrow> None | Some (t'', rs) \<Rightarrow> Some (t'', r # rs)))"

primrec index_spec_run :: "index_op list \<Rightarrow> (bkey \<Rightarrow> nat multiset) \<Rightarrow> (bkey \<Rightarrow> nat multiset) \<times> unit result list" where
  "index_spec_run [] M = (M, [])"
| "index_spec_run (c # cs) M = (case index_spec c M of (M', r) \<Rightarrow> (case index_spec_run cs M' of (M'', rs) \<Rightarrow> (M'', r # rs)))"

lemma index_tree_height:
  assumes "index_tree ok_key fp dtype t tr ds" "bt_bal h True tr"
  shows "1 \<le> h" "h \<le> 10"
proof -
  have "healthy t" "sound {} t tr" using assms(1) by (simp_all add: index_tree_def btree_tree_def)
  then show "h \<le> 10" using tree_height_bound assms(2) by blast
  show "1 \<le> h" using assms(2) bt_bal_height [of h True tr] bt_height_pos [of tr] by simp
qed

lemma map_fst_apsnd: "map fst (map (apsnd f) ps) = map fst ps"
  by (induction ps) auto

lemma filter_idx_pairs:
  "distinct (map fst ds) \<Longrightarrow> mset (map snd (filter (\<lambda>p. fst p = k) (idx_pairs ds))) = idx_vals ds k"
proof (induction ds)
  case (Cons x ds)
  obtain k' d where x: "x = (k', d)" by (cases x)
  have h: "filter (\<lambda>p. fst p = k) (map (Pair k') vs) = (if k' = k then map (Pair k') vs else [])" for vs :: "nat list" by (induction vs) auto
  have n: "k \<notin> fst ` set ds \<Longrightarrow> filter (\<lambda>p. fst p = k) (idx_pairs ds) = []" by (auto simp: filter_empty_conv idx_pairs_def)
  show ?case using Cons n by (cases "k' = k") (simp_all add: x idx_pairs_def h idx_vals_def comp_def)
qed (simp add: idx_pairs_def idx_vals_def)

context tree_keys
begin

lemma index_sorted:
  assumes "index_tree ok_key fp dtype t tr ds"
  shows "sorted_wrt lt (map fst ds)" "\<forall>x \<in> set ds. ok_key (fst x)" "distinct (map fst ds)"
proof -
  have T: "btree_tree ok_key fp dtype t tr" and ent: "bt_entries tr = map (apsnd dup_link) ds" using assms by (simp_all add: index_tree_def)
  note S = entries_sorted [OF T, unfolded ent map_fst_apsnd]
  show s: "sorted_wrt lt (map fst ds)" by (rule S(1))
  show o: "\<forall>x \<in> set ds. ok_key (fst x)"
  proof
    fix x assume "x \<in> set ds"
    then have "apsnd dup_link x \<in> set (map (apsnd dup_link) ds)" by simp
    then have "ok_key (fst (apsnd dup_link x))" using S(2) by blast
    then show "ok_key (fst x)" by (simp add: apsnd_def)
  qed
  have "\<forall>k \<in> set (map fst ds). \<not> lt k k" using o lt_irrefl by auto
  with s show "distinct (map fst ds)" by (induction ds) auto
qed

lemma index_step_refines:
  assumes "index_holds ok_key fp dtype t M" "index_op_ok ok_key c" "bt_size t + 12 * 1024 < 2 ^ 32"
  shows "\<exists>t'. index_step fp dtype c t = Some (t', snd (index_spec c M)) \<and> index_holds ok_key fp dtype t' (fst (index_spec c M)) \<and>
    bt_size t' \<le> bt_size t + 11 * 1024"
proof -
  obtain tr ds h where I: "index_tree ok_key fp dtype t tr ds" "bt_bal h True tr" and M: "idx_vals ds = M"
    using assms(1) by (auto simp: index_holds_def)
  have h: "h \<le> 10" "h \<le> 16" using index_tree_height [OF I] by simp_all
  show ?thesis
  proof (cases c)
    case (Index_put key v)
    then have kv: "ok_key key" "v < 2 ^ 32" using assms(2) by simp_all
    have sz: "bt_size t + 1024 * (h + 1) < 2 ^ 32" using assms(3) h(1) by simp
    from insert_value [OF I(1) kv(1) I(2) h(2) kv(2) sz] obtain t' tr' ds' where
      t': "agfs_btree_insert_value fp key dtype v t = Some (t', Inr ())" "index_tree ok_key fp dtype t' tr' ds'"
      "bt_bal h True tr' \<or> bt_bal (Suc h) True tr'" "bt_size t' \<le> bt_size t + 1024 * (h + 1)" "idx_vals ds' = M(key := add_mset v (M key))"
      unfolding M by blast
    then show ?thesis using h(1) by (auto simp: Index_put index_holds_def)
  next
    case (Index_del key v)
    then have k: "ok_key key" using assms(2) by simp
    note D = delete_value [OF I(1) k I(2) h(2), of v, unfolded M]
    show ?thesis
    proof (cases "v \<in># M key")
      case True
      with D obtain t' tr' ds' where t': "agfs_btree_delete_value fp key v t = Some (t', Inr ())" "index_tree ok_key fp dtype t' tr' ds'"
        "bt_bal h True tr'" "bt_size t' = bt_size t" "idx_vals ds' = M(key := M key - {#v#})" by auto
      then have "index_holds ok_key fp dtype t' (M(key := M key - {#v#}))" unfolding index_holds_def by blast
      then show ?thesis using t'(1,4) True by (simp add: Index_del)
    qed (use D assms(1) in \<open>simp add: Index_del\<close>)
  qed
qed

lemma index_run_refines:
  assumes "index_holds ok_key fp dtype t M" "\<forall>c \<in> set cs. index_op_ok ok_key c" "bt_size t + 12 * 1024 * length cs < 2 ^ 32"
  shows "\<exists>t'. index_run fp dtype cs t = Some (t', snd (index_spec_run cs M)) \<and> index_holds ok_key fp dtype t' (fst (index_spec_run cs M))"
  using assms
proof (induction cs arbitrary: t M)
  case (Cons c cs)
  have sz: "bt_size t + 12 * 1024 < 2 ^ 32" using Cons.prems(3) by simp
  obtain t1 where t1: "index_step fp dtype c t = Some (t1, snd (index_spec c M))" "index_holds ok_key fp dtype t1 (fst (index_spec c M))"
    "bt_size t1 \<le> bt_size t + 11 * 1024" using index_step_refines [OF Cons.prems(1) _ sz, of c] Cons.prems(2) by auto
  have "bt_size t1 + 12 * 1024 * length cs < 2 ^ 32" using t1(3) Cons.prems(3) by simp
  from Cons.IH [OF t1(2) _ this] Cons.prems(2) t1(1) show ?case by (auto simp: case_prod_unfold)
qed simp

lemma index_walk:
  assumes "index_holds ok_key fp dtype t M" "bt_size t \<le> 4096 * 1024"
  shows "\<exists>ps. (\<forall>fn s. agfs_btree_iterate_values t (int dtype) fn s = Some (fst (kv_walk fn ps s), None)) \<and>
    sorted_wrt (\<lambda>p q. fst p = fst q \<or> lt (fst p) (fst q)) ps \<and> (\<forall>k. mset (map snd (filter (\<lambda>p. fst p = k) ps)) = M k)"
proof -
  obtain tr ds h where I: "index_tree ok_key fp dtype t tr ds" and M: "idx_vals ds = M"
    using assms(1) by (auto simp: index_holds_def)
  note S = index_sorted [OF I]
  have "sorted_wrt (\<lambda>p q. fst p = fst q \<or> lt (fst p) (fst q)) (idx_pairs ds)" using S(1)
  proof (induction ds)
    case (Cons x ds)
    have "sorted_wrt (\<lambda>p q. fst p = fst q \<or> lt (fst p) (fst q)) (map (Pair (fst x)) vs)" for vs :: "nat list" by (induction vs) auto
    then show ?case using Cons by (auto simp: idx_pairs_def sorted_wrt_append)
  qed (simp add: idx_pairs_def)
  then show ?thesis using filter_idx_pairs [OF S(3)] M
    by (intro exI [of _ "idx_pairs ds"] conjI allI iterate_values [OF I assms(2)] disjI1) auto
qed

end

subsection \<open>The indices of a volume\<close>

text \<open>An inode as \<^verbatim>\<open>indices.c\<close> reads it.\<close>

record index_inode =
  ii_inode :: nat
  ii_size :: nat
  ii_mtime :: nat
  ii_nlink :: nat

text \<open>
  The volume: the number of the inode of the indices directory, the streams that \<^verbatim>\<open>iget\<close> finds, and the
  calls into the journal and the inode table in order.
\<close>

datatype index_event = Log_begin | Log_commit | Inode_written nat

record index_vol =
  iv_indices_inode :: nat
  iv_stream :: "nat \<rightharpoonup> btree"
  iv_events :: "index_event list"

definition vol_event :: "index_event \<Rightarrow> index_vol \<Rightarrow> index_vol" where
  "vol_event e sb = sb\<lparr>iv_events := iv_events sb @ [e]\<rparr>"

definition agfs_index_dir :: "index_vol \<Rightarrow> btree option" where
  "agfs_index_dir sb = (if iv_indices_inode sb = 0 then None else iv_stream sb (iv_indices_inode sb))"

definition agfs_index_put :: "fpu \<Rightarrow> byte list \<Rightarrow> nat \<Rightarrow> bkey \<Rightarrow> nat \<Rightarrow> index_vol \<Rightarrow> (index_vol \<times> unit result) option" where
  "agfs_index_put fp idx dtype key value sb =
     (case agfs_index_dir sb of
        None \<Rightarrow> Some (sb, Inl ENOENT)
      | Some dir \<Rightarrow>
          (case agfs_btree_find fp dir idx of
             Inl e \<Rightarrow> Some (sb, Inl ENOENT)
           | Inr ino \<Rightarrow>
               (case iv_stream sb ino of
                  None \<Rightarrow> Some (sb, Inl ENOENT)
                | Some ti \<Rightarrow>
                    (case agfs_btree_insert_value fp key dtype value ti of
                       None \<Rightarrow> None
                     | Some (ti', res) \<Rightarrow> Some (sb\<lparr>iv_stream := (iv_stream sb)(ino \<mapsto> ti')\<rparr>, res)))))"

definition agfs_index_del :: "fpu \<Rightarrow> byte list \<Rightarrow> bkey \<Rightarrow> nat \<Rightarrow> index_vol \<Rightarrow> (index_vol \<times> unit result) option" where
  "agfs_index_del fp idx key value sb =
     (case agfs_index_dir sb of
        None \<Rightarrow> Some (sb, Inl ENOENT)
      | Some dir \<Rightarrow>
          (case agfs_btree_find fp dir idx of
             Inl e \<Rightarrow> Some (sb, Inl ENOENT)
           | Inr ino \<Rightarrow>
               (case iv_stream sb ino of
                  None \<Rightarrow> Some (sb, Inl ENOENT)
                | Some ti \<Rightarrow>
                    (case agfs_btree_delete_value fp key value ti of
                       None \<Rightarrow> None
                     | Some (ti', res) \<Rightarrow> Some (sb\<lparr>iv_stream := (iv_stream sb)(ino \<mapsto> ti')\<rparr>, res)))))"

text \<open>The calls in a row, whose results the functions below do not look at.\<close>

fun index_calls :: "(index_vol \<Rightarrow> (index_vol \<times> unit result) option) list \<Rightarrow> index_vol \<Rightarrow> index_vol option" where
  "index_calls [] sb = Some sb"
| "index_calls (f # fs) sb = (case f sb of None \<Rightarrow> None | Some (sb', _) \<Rightarrow> index_calls fs sb')"

definition IX_NAME :: "byte list" where "IX_NAME = [110, 97, 109, 101]"
definition IX_SIZE :: "byte list" where "IX_SIZE = [115, 105, 122, 101]"
definition IX_LAST_MODIFIED :: "byte list" where "IX_LAST_MODIFIED = [108, 97, 115, 116, 95, 109, 111, 100, 105, 102, 105, 101, 100]"

abbreviation (input) AGFS_BTREE_INT64_TYPE :: nat where "AGFS_BTREE_INT64_TYPE \<equiv> 5"

definition agfs_index_mtime_key :: "index_inode \<Rightarrow> nat" where
  "agfs_index_mtime_key i = ii_mtime i"

definition agfs_index_add :: "fpu \<Rightarrow> index_inode \<Rightarrow> bkey \<Rightarrow> index_vol \<Rightarrow> index_vol option" where
  "agfs_index_add fp i name sb =
     (let sz = le_enc 8 (ii_size i); mt = le_enc 8 (agfs_index_mtime_key i)
      in if iv_indices_inode sb = 0 then Some sb
         else
           map_option (vol_event Log_commit)
             (index_calls
                [agfs_index_put fp IX_NAME AGFS_BTREE_STRING_TYPE name (ii_inode i),
                 agfs_index_put fp IX_SIZE AGFS_BTREE_INT64_TYPE sz (ii_inode i),
                 agfs_index_put fp IX_LAST_MODIFIED AGFS_BTREE_INT64_TYPE mt (ii_inode i)]
                (vol_event Log_begin sb)))"

definition agfs_index_remove :: "fpu \<Rightarrow> index_inode \<Rightarrow> bkey \<Rightarrow> index_vol \<Rightarrow> index_vol option" where
  "agfs_index_remove fp i name sb =
     (let sz = le_enc 8 (ii_size i); mt = le_enc 8 (agfs_index_mtime_key i)
      in if iv_indices_inode sb = 0 then Some sb
         else
           map_option (vol_event Log_commit)
             (index_calls
                [agfs_index_del fp IX_NAME name (ii_inode i),
                 agfs_index_del fp IX_SIZE sz (ii_inode i),
                 agfs_index_del fp IX_LAST_MODIFIED mt (ii_inode i)]
                (vol_event Log_begin sb)))"

definition agfs_index_resize :: "fpu \<Rightarrow> index_inode \<Rightarrow> nat \<Rightarrow> nat \<Rightarrow> index_vol \<Rightarrow> index_vol option" where
  "agfs_index_resize fp i old_size old_mtime sb =
     (let osz = le_enc 8 old_size; nsz = le_enc 8 (ii_size i); omt = le_enc 8 old_mtime; nmt = le_enc 8 (agfs_index_mtime_key i)
      in if iv_indices_inode sb = 0 then Some sb
         else if ii_nlink i = 0 then Some sb
         else
           map_option (vol_event Log_commit)
             (index_calls
                [agfs_index_del fp IX_SIZE osz (ii_inode i),
                 agfs_index_put fp IX_SIZE AGFS_BTREE_INT64_TYPE nsz (ii_inode i),
                 agfs_index_del fp IX_LAST_MODIFIED omt (ii_inode i),
                 agfs_index_put fp IX_LAST_MODIFIED AGFS_BTREE_INT64_TYPE nmt (ii_inode i)]
                (vol_event (Inode_written (ii_inode i)) (vol_event Log_begin sb))))"

subsection \<open>What the indices hold\<close>

datatype index_id = Ix_name | Ix_size | Ix_modified

fun index_name :: "index_id \<Rightarrow> byte list" where
  "index_name Ix_name = IX_NAME"
| "index_name Ix_size = IX_SIZE"
| "index_name Ix_modified = IX_LAST_MODIFIED"

fun index_dtype :: "index_id \<Rightarrow> nat" where
  "index_dtype Ix_name = AGFS_BTREE_STRING_TYPE"
| "index_dtype x = AGFS_BTREE_INT64_TYPE"

fun index_key :: "index_id \<Rightarrow> bkey \<Rightarrow> bool" where
  "index_key Ix_name = dir_key"
| "index_key x = u64_key"

text \<open>The three trees are found through the indices directory and hold the multimaps; there is room for \<open>n\<close> changes.\<close>

definition index_slot :: "fpu \<Rightarrow> index_vol \<Rightarrow> nat \<Rightarrow> index_id \<Rightarrow> nat \<Rightarrow> (bkey \<Rightarrow> nat multiset) \<Rightarrow> bool" where
  "index_slot fp sb n x ino M \<longleftrightarrow>
     (\<exists>t. iv_stream sb ino = Some t \<and> index_holds (index_key x) fp (index_dtype x) t M \<and> bt_size t + 12 * 1024 * n < 2 ^ 32)"

definition indices_hold :: "fpu \<Rightarrow> index_vol \<Rightarrow> nat \<Rightarrow> (index_id \<Rightarrow> bkey \<Rightarrow> nat multiset) \<Rightarrow> bool" where
  "indices_hold fp sb n M \<longleftrightarrow>
     (\<exists>dir h es inos. iv_indices_inode sb \<noteq> 0 \<and> iv_stream sb (iv_indices_inode sb) = Some dir \<and> btree_holds dir_key fp 0 dir h es \<and> inj inos \<and>
        (\<forall>x. map_of es (index_name x) = Some (inos x) \<and> inos x < 2 ^ 32 \<and> inos x \<notin> {0, iv_indices_inode sb} \<and> index_slot fp sb n x (inos x) (M x)))"

lemma index_keys: "tree_keys fp (index_dtype x) (index_key x)"
  by (cases x) (simp_all add: dir_keys.tree_keys_axioms s64_keys.tree_keys_axioms)

lemma index_name_key: "dir_key (index_name x)"
  by (cases x) (simp_all add: dir_key_def IX_NAME_def IX_SIZE_def IX_LAST_MODIFIED_def)

lemma index_slot_step:
  assumes "index_slot fp sb (Suc n) x ino M" "index_op_ok (index_key x) c"
  shows "\<exists>t t'. iv_stream sb ino = Some t \<and> index_step fp (index_dtype x) c t = Some (t', snd (index_spec c M)) \<and>
    index_slot fp (sb\<lparr>iv_stream := (iv_stream sb)(ino \<mapsto> t')\<rparr>) n x ino (fst (index_spec c M))"
proof -
  obtain t where t: "iv_stream sb ino = Some t" "index_holds (index_key x) fp (index_dtype x) t M" "bt_size t + 12 * 1024 * Suc n < 2 ^ 32"
    using assms(1) by (auto simp: index_slot_def)
  have sz: "bt_size t + 12 * 1024 < 2 ^ 32" using t(3) by simp
  from tree_keys.index_step_refines [OF index_keys t(2) assms(2) sz] t(1,3) show ?thesis by (auto simp: index_slot_def)
qed

lemma index_call:
  assumes "indices_hold fp sb (Suc n) M" "index_op_ok (index_key x) c"
  defines "f \<equiv> (case c of Index_put key v \<Rightarrow> agfs_index_put fp (index_name x) (index_dtype x) key v
                 | Index_del key v \<Rightarrow> agfs_index_del fp (index_name x) key v)"
  shows "\<exists>sb'. f sb = Some (sb', snd (index_spec c (M x))) \<and> indices_hold fp sb' n (M(x := fst (index_spec c (M x)))) \<and> iv_events sb' = iv_events sb"
proof -
  obtain dir h es inos where I: "iv_indices_inode sb \<noteq> 0" "iv_stream sb (iv_indices_inode sb) = Some dir" "btree_holds dir_key fp 0 dir h es" "inj inos"
    "\<forall>x. map_of es (index_name x) = Some (inos x) \<and> inos x < 2 ^ 32 \<and> inos x \<notin> {0, iv_indices_inode sb} \<and> index_slot fp sb (Suc n) x (inos x) (M x)"
    using assms(1) by (auto simp: indices_hold_def)
  have sl: "index_slot fp sb (Suc n) x (inos x) (M x)" and x: "map_of es (index_name x) = Some (inos x)" "inos x < 2 ^ 32" using I(5) by auto
  obtain t t' where t: "iv_stream sb (inos x) = Some t" "index_step fp (index_dtype x) c t = Some (t', snd (index_spec c (M x)))"
    "index_slot fp (sb\<lparr>iv_stream := (iv_stream sb)(inos x \<mapsto> t')\<rparr>) n x (inos x) (fst (index_spec c (M x)))"
    using index_slot_step [OF sl assms(2)] by blast
  let ?sb = "sb\<lparr>iv_stream := (iv_stream sb)(inos x \<mapsto> t')\<rparr>"
  have "agfs_btree_find fp dir (index_name x) = Inr (inos x)"
    using dir_keys.holds_find [OF I(3) index_name_key, of x] x by simp
  then have "f sb = Some (?sb, snd (index_spec c (M x)))"
    using I(1,2) t(1,2) by (cases c) (simp_all add: f_def agfs_index_put_def agfs_index_del_def agfs_index_dir_def)
  moreover have "index_slot fp ?sb n y (inos y) ((M(x := fst (index_spec c (M x)))) y)" for y
  proof (cases "y = x")
    case False
    then have "inos y \<noteq> inos x" using I(4) by (auto dest: injD)
    moreover have "index_slot fp sb (Suc n) y (inos y) (M y)" using I(5) by blast
    ultimately show ?thesis using False by (auto simp: index_slot_def)
  qed (use t(3) in simp)
  then have "indices_hold fp ?sb n (M(x := fst (index_spec c (M x))))"
    unfolding indices_hold_def using I by (intro exI [of _ dir] exI [of _ h] exI [of _ es] exI [of _ inos]) auto
  ultimately show ?thesis by auto
qed

subsection \<open>Files and their index entries\<close>

type_synonym ifile = "index_inode \<times> bkey"

fun file_key :: "index_id \<Rightarrow> ifile \<Rightarrow> bkey" where
  "file_key Ix_name f = snd f"
| "file_key Ix_size f = le_enc 8 (ii_size (fst f))"
| "file_key Ix_modified f = le_enc 8 (ii_mtime (fst f))"

definition files_index :: "(nat \<rightharpoonup> ifile) \<Rightarrow> index_id \<Rightarrow> bkey \<Rightarrow> nat multiset" where
  "files_index F x k = mset_set {ino \<in> dom F. file_key x (the (F ino)) = k}"

definition file_ok :: "ifile \<Rightarrow> bool" where
  "file_ok f \<longleftrightarrow> dir_key (snd f) \<and> ii_inode (fst f) < 2 ^ 32 \<and> ii_size (fst f) < 2 ^ 32 \<and> ii_mtime (fst f) < 2 ^ 64"

definition volume_indexed :: "fpu \<Rightarrow> index_vol \<Rightarrow> nat \<Rightarrow> (nat \<rightharpoonup> ifile) \<Rightarrow> bool" where
  "volume_indexed fp sb n F \<longleftrightarrow> finite (dom F) \<and> (\<forall>ino f. F ino = Some f \<longrightarrow> ii_inode (fst f) = ino \<and> file_ok f) \<and> indices_hold fp sb n (files_index F)"

datatype file_event = File_added index_inode bkey | File_removed index_inode bkey | File_resized index_inode nat nat

fun file_step :: "fpu \<Rightarrow> file_event \<Rightarrow> index_vol \<Rightarrow> index_vol option" where
  "file_step fp (File_added i name) sb = agfs_index_add fp i name sb"
| "file_step fp (File_removed i name) sb = agfs_index_remove fp i name sb"
| "file_step fp (File_resized i old_size old_mtime) sb = agfs_index_resize fp i old_size old_mtime sb"

fun file_spec :: "file_event \<Rightarrow> (nat \<rightharpoonup> ifile) \<Rightarrow> (nat \<rightharpoonup> ifile)" where
  "file_spec (File_added i name) F = F(ii_inode i \<mapsto> (i, name))"
| "file_spec (File_removed i name) F = F(ii_inode i := None)"
| "file_spec (File_resized i old_size old_mtime) F = (if ii_nlink i = 0 then F else F(ii_inode i \<mapsto> (i, snd (the (F (ii_inode i))))))"

fun file_event_ok :: "file_event \<Rightarrow> (nat \<rightharpoonup> ifile) \<Rightarrow> bool" where
  "file_event_ok (File_added i name) F \<longleftrightarrow> F (ii_inode i) = None \<and> file_ok (i, name)"
| "file_event_ok (File_removed i name) F \<longleftrightarrow>
     (\<exists>j. F (ii_inode i) = Some (j, name) \<and> ii_size j = ii_size i \<and> ii_mtime j = ii_mtime i)"
| "file_event_ok (File_resized i old_size old_mtime) F \<longleftrightarrow> ii_nlink i = 0 \<or>
     (\<exists>j name. F (ii_inode i) = Some (j, name) \<and> ii_size j = old_size \<and> ii_mtime j = old_mtime \<and> file_ok (i, name))"

primrec file_run :: "fpu \<Rightarrow> file_event list \<Rightarrow> index_vol \<Rightarrow> index_vol option" where
  "file_run fp [] sb = Some sb"
| "file_run fp (e # es) sb = (case file_step fp e sb of None \<Rightarrow> None | Some sb' \<Rightarrow> file_run fp es sb')"

primrec file_events_ok :: "file_event list \<Rightarrow> (nat \<rightharpoonup> ifile) \<Rightarrow> bool" where
  "file_events_ok [] F \<longleftrightarrow> True"
| "file_events_ok (e # es) F \<longleftrightarrow> file_event_ok e F \<and> file_events_ok es (file_spec e F)"

lemma file_key_ok: "file_ok f \<Longrightarrow> index_key x (file_key x f)"
  by (cases x) (simp_all add: file_ok_def u64_key_def)

lemma files_index_add:
  assumes "finite (dom F)" "F ino = None"
  shows "files_index (F(ino \<mapsto> f)) x = (files_index F x)(file_key x f := add_mset ino (files_index F x (file_key x f)))"
proof
  fix k
  define S where "S = {i \<in> dom F. file_key x (the (F i)) = k}"
  have n: "ino \<notin> S" "finite S" using assms by (auto simp: S_def)
  have e: "{i \<in> dom (F(ino \<mapsto> f)). file_key x (the ((F(ino \<mapsto> f)) i)) = k} = (if file_key x f = k then insert ino S else S)"
    using assms(2) by (auto simp: S_def split: if_splits)
  have "files_index F x k = mset_set S" "files_index (F(ino \<mapsto> f)) x k = mset_set (if file_key x f = k then insert ino S else S)"
    unfolding files_index_def e by (simp_all add: S_def)
  then show "files_index (F(ino \<mapsto> f)) x k = ((files_index F x)(file_key x f := add_mset ino (files_index F x (file_key x f)))) k"
    using n by auto
qed

lemma files_index_remove:
  assumes "finite (dom F)" "F ino = Some f"
  shows "files_index (F(ino := None)) x = (files_index F x)(file_key x f := files_index F x (file_key x f) - {#ino#})"
    "ino \<in># files_index F x (file_key x f)"
proof -
  have fin: "finite (dom (F(ino := None)))" using assms(1) by simp
  have "F(ino := None, ino \<mapsto> f) = F" using assms(2) by (auto simp: fun_eq_iff)
  then have e: "files_index F x = (files_index (F(ino := None)) x)(file_key x f := add_mset ino (files_index (F(ino := None)) x (file_key x f)))"
    using files_index_add [OF fin, of ino f x] by simp
  show "files_index (F(ino := None)) x = (files_index F x)(file_key x f := files_index F x (file_key x f) - {#ino#})"
    unfolding e by (simp add: fun_eq_iff)
  show "ino \<in># files_index F x (file_key x f)" unfolding e by simp
qed

lemma index_slot_less: "index_slot fp sb n x ino M \<Longrightarrow> m \<le> n \<Longrightarrow> index_slot fp sb m x ino M"
  using mult_le_mono2 [of m n "12 * 1024"] by (auto simp: index_slot_def)

lemma indices_hold_less: "indices_hold fp sb n M \<Longrightarrow> m \<le> n \<Longrightarrow> indices_hold fp sb m M"
  unfolding indices_hold_def using index_slot_less by blast

lemma indices_hold_event [simp]: "indices_hold fp (vol_event e sb) n M = indices_hold fp sb n M"
  by (simp add: indices_hold_def index_slot_def vol_event_def)

text \<open>A row of calls on the three indices.\<close>

fun index_call_of :: "fpu \<Rightarrow> index_id \<times> index_op \<Rightarrow> index_vol \<Rightarrow> (index_vol \<times> unit result) option" where
  "index_call_of fp (x, Index_put key v) = agfs_index_put fp (index_name x) (index_dtype x) key v"
| "index_call_of fp (x, Index_del key v) = agfs_index_del fp (index_name x) key v"

definition index_apply :: "(index_id \<times> index_op) list \<Rightarrow> (index_id \<Rightarrow> bkey \<Rightarrow> nat multiset) \<Rightarrow> index_id \<Rightarrow> bkey \<Rightarrow> nat multiset" where
  "index_apply ops M = fold (\<lambda>(x, c) M. M(x := fst (index_spec c (M x)))) ops M"

lemma index_calls_ok:
  assumes "indices_hold fp sb (length ops + n) M" "\<forall>(x, c) \<in> set ops. index_op_ok (index_key x) c"
  shows "\<exists>sb'. index_calls (map (index_call_of fp) ops) sb = Some sb' \<and> indices_hold fp sb' n (index_apply ops M) \<and> iv_events sb' = iv_events sb"
  using assms
proof (induction ops arbitrary: sb M)
  case (Cons op ops)
  obtain x c where op: "op = (x, c)" by (cases op)
  have "indices_hold fp sb (Suc (length ops + n)) M" "index_op_ok (index_key x) c" using Cons.prems by (simp_all add: op)
  from index_call [OF this] obtain sb1 where "index_call_of fp op sb = Some (sb1, snd (index_spec c (M x)))"
    "indices_hold fp sb1 (length ops + n) (M(x := fst (index_spec c (M x))))" "iv_events sb1 = iv_events sb"
    by (cases c) (auto simp: op)
  with Cons.IH [of sb1] Cons.prems(2) show ?case by (auto simp: index_apply_def op)
qed (simp add: index_apply_def)

lemma index_id_eqI: "M Ix_name = N Ix_name \<Longrightarrow> M Ix_size = N Ix_size \<Longrightarrow> M Ix_modified = N Ix_modified \<Longrightarrow> M = N"
  by (rule ext) (metis index_id.exhaust)

text \<open>The three functions as rows of calls inside a transaction.\<close>

lemma index_add_ok:
  assumes V: "volume_indexed fp sb (n + 4) F" and f: "F (ii_inode i) = None" "file_ok (i, name)"
  shows "\<exists>sb'. agfs_index_add fp i name sb = Some sb' \<and> volume_indexed fp sb' n (F(ii_inode i \<mapsto> (i, name))) \<and>
    iv_events sb' = iv_events sb @ [Log_begin, Log_commit]"
proof -
  let ?ops = "map (\<lambda>x. (x, Index_put (file_key x (i, name)) (ii_inode i))) [Ix_name, Ix_size, Ix_modified]"
  note V' = V [unfolded volume_indexed_def]
  have nz: "iv_indices_inode sb \<noteq> 0" using V' by (auto simp: indices_hold_def)
  have "indices_hold fp (vol_event Log_begin sb) (length ?ops + n) (files_index F)" using V' indices_hold_less [of fp sb "n + 4"] by auto
  from index_calls_ok [OF this] obtain s where s: "index_calls (map (index_call_of fp) ?ops) (vol_event Log_begin sb) = Some s"
    "indices_hold fp s n (index_apply ?ops (files_index F))" "iv_events s = iv_events (vol_event Log_begin sb)"
    using f(2) by (fastforce simp: file_ok_def u64_key_def)
  have "index_apply ?ops (files_index F) = files_index (F(ii_inode i \<mapsto> (i, name)))"
    by (rule index_id_eqI) (use V' f(1) in \<open>simp_all add: index_apply_def files_index_add [of F "ii_inode i" "(i, name)"]\<close>)
  then have "volume_indexed fp (vol_event Log_commit s) n (F(ii_inode i \<mapsto> (i, name)))"
    unfolding volume_indexed_def using V' f(2) s(2) by (auto split: if_splits)
  moreover have "agfs_index_add fp i name sb = Some (vol_event Log_commit s)"
    using nz s(1) by (simp add: agfs_index_add_def agfs_index_mtime_key_def Let_def)
  ultimately show ?thesis using s(3) by (simp add: vol_event_def)
qed

lemma index_remove_ok:
  assumes V: "volume_indexed fp sb (n + 4) F" and f: "F (ii_inode i) = Some (j, name)" "ii_size j = ii_size i" "ii_mtime j = ii_mtime i"
  shows "\<exists>sb'. agfs_index_remove fp i name sb = Some sb' \<and> volume_indexed fp sb' n (F(ii_inode i := None)) \<and>
    iv_events sb' = iv_events sb @ [Log_begin, Log_commit]"
proof -
  let ?ops = "map (\<lambda>x. (x, Index_del (file_key x (j, name)) (ii_inode i))) [Ix_name, Ix_size, Ix_modified]"
  note V' = V [unfolded volume_indexed_def]
  have ok: "file_ok (j, name)" using V' f(1) by blast
  have nz: "iv_indices_inode sb \<noteq> 0" using V' by (auto simp: indices_hold_def)
  have "indices_hold fp (vol_event Log_begin sb) (length ?ops + n) (files_index F)" using V' indices_hold_less [of fp sb "n + 4"] by auto
  from index_calls_ok [OF this] obtain s where s: "index_calls (map (index_call_of fp) ?ops) (vol_event Log_begin sb) = Some s"
    "indices_hold fp s n (index_apply ?ops (files_index F))" "iv_events s = iv_events (vol_event Log_begin sb)"
    using ok by (fastforce simp: file_ok_def u64_key_def)
  have "index_apply ?ops (files_index F) = files_index (F(ii_inode i := None))"
    by (rule index_id_eqI) (use V' files_index_remove [OF V' [THEN conjunct1] f(1)] in \<open>simp_all add: index_apply_def\<close>)
  then have "volume_indexed fp (vol_event Log_commit s) n (F(ii_inode i := None))"
    unfolding volume_indexed_def using V' s(2) by (auto split: if_splits)
  moreover have "agfs_index_remove fp i name sb = Some (vol_event Log_commit s)"
    using nz s(1) f(2,3) by (simp add: agfs_index_remove_def agfs_index_mtime_key_def Let_def)
  ultimately show ?thesis using s(3) by (simp add: vol_event_def)
qed

lemma index_resize_ok:
  assumes V: "volume_indexed fp sb (n + 4) F" and f: "F (ii_inode i) = Some (j, name)" "file_ok (i, name)" "ii_nlink i \<noteq> 0"
  shows "\<exists>sb'. agfs_index_resize fp i (ii_size j) (ii_mtime j) sb = Some sb' \<and> volume_indexed fp sb' n (F(ii_inode i \<mapsto> (i, name))) \<and>
    iv_events sb' = iv_events sb @ [Log_begin, Inode_written (ii_inode i), Log_commit]"
proof -
  let ?ops = "concat (map (\<lambda>x. [(x, Index_del (file_key x (j, name)) (ii_inode i)), (x, Index_put (file_key x (i, name)) (ii_inode i))]) [Ix_size, Ix_modified])"
  let ?G = "F(ii_inode i := None)" and ?s0 = "vol_event (Inode_written (ii_inode i)) (vol_event Log_begin sb)"
  note V' = V [unfolded volume_indexed_def]
  have ok: "file_ok (j, name)" using V' f(1) by blast
  have nz: "iv_indices_inode sb \<noteq> 0" using V' by (auto simp: indices_hold_def)
  have "length ?ops + n = n + 4" by simp
  then have "indices_hold fp ?s0 (length ?ops + n) (files_index F)" using V' by (simp only: indices_hold_event)
  from index_calls_ok [OF this] obtain s where s: "index_calls (map (index_call_of fp) ?ops) ?s0 = Some s"
    "indices_hold fp s n (index_apply ?ops (files_index F))" "iv_events s = iv_events ?s0"
    using ok f(2) by (fastforce simp: file_ok_def u64_key_def)
  have G: "finite (dom ?G)" "?G (ii_inode i) = None" "?G(ii_inode i \<mapsto> (i, name)) = F(ii_inode i \<mapsto> (i, name))" using V' by simp_all
  note R = files_index_remove [OF V' [THEN conjunct1] f(1)]
  note A = files_index_add [OF G(1,2), of "(i, name)", unfolded G(3) R(1)]
  have "index_apply ?ops (files_index F) = files_index (F(ii_inode i \<mapsto> (i, name)))"
    unfolding index_apply_def
    by (rule index_id_eqI) (use A [of Ix_name] A [of Ix_size] A [of Ix_modified] R(2) [of Ix_name] R(2) [of Ix_size] R(2) [of Ix_modified] in simp_all)
  then have "volume_indexed fp (vol_event Log_commit s) n (F(ii_inode i \<mapsto> (i, name)))"
    unfolding volume_indexed_def using V' f(2) s(2) by (auto split: if_splits)
  moreover have "agfs_index_resize fp i (ii_size j) (ii_mtime j) sb = Some (vol_event Log_commit s)"
    using nz s(1) f(3) by (simp add: agfs_index_resize_def agfs_index_mtime_key_def Let_def)
  ultimately show ?thesis using s(3) by (simp add: vol_event_def)
qed

lemma file_run_ok:
  assumes "volume_indexed fp sb (4 * length es) F" "file_events_ok es F"
  shows "\<exists>sb'. file_run fp es sb = Some sb' \<and> volume_indexed fp sb' 0 (fold file_spec es F)"
  using assms
proof (induction es arbitrary: sb F)
  case (Cons e es)
  have V: "volume_indexed fp sb (4 * length es + 4) F" using Cons.prems(1) by (simp add: add.commute)
  have "\<exists>sb1. file_step fp e sb = Some sb1 \<and> volume_indexed fp sb1 (4 * length es) (file_spec e F)"
  proof (cases e)
    case (File_added i name)
    then show ?thesis using index_add_ok [OF V, of i name] Cons.prems(2) by auto
  next
    case (File_removed i name)
    then show ?thesis using index_remove_ok [OF V, of i _ name] Cons.prems(2) by auto
  next
    case (File_resized i old_size old_mtime)
    show ?thesis
    proof (cases "ii_nlink i = 0")
      case True
      have "volume_indexed fp sb (4 * length es) F" using V indices_hold_less by (auto simp: volume_indexed_def)
      moreover have "iv_indices_inode sb \<noteq> 0" using V by (auto simp: volume_indexed_def indices_hold_def)
      ultimately show ?thesis using True File_resized by (simp add: agfs_index_resize_def Let_def)
    next
      case False
      then show ?thesis using index_resize_ok [OF V, of i] Cons.prems(2) File_resized by auto
    qed
  qed
  then obtain sb1 where "file_step fp e sb = Some sb1" "volume_indexed fp sb1 (4 * length es) (file_spec e F)" by blast
  then show ?case using Cons.IH [of sb1 "file_spec e F"] Cons.prems(2) by simp
qed simp

subsection \<open>An example\<close>

text \<open>A stream with a tree of one leaf, a volume whose indices are such trees, and one whose indices are empty.\<close>

definition leaf_index :: "nat \<Rightarrow> bpair list \<Rightarrow> btree" where
  "leaf_index dtype kvs = two_nodes (mem_put 12 (le_enc 4 dtype) (bt_new_header 2048 (get_node blank_stream 0)))
     (node_build AGFS_BTREE_NULL AGFS_BTREE_NULL AGFS_BTREE_NULL kvs) blank_stream"

definition example_dir :: "bpair list" where
  "example_dir = [(IX_LAST_MODIFIED, 4), (IX_NAME, 2), (IX_SIZE, 3)]"

definition index_volume :: "(index_id \<Rightarrow> bpair list) \<Rightarrow> index_vol" where
  "index_volume kvs = \<lparr>iv_indices_inode = 1,
     iv_stream = [1 \<mapsto> leaf_stream example_dir, 2 \<mapsto> leaf_index 0 (kvs Ix_name), 3 \<mapsto> leaf_index 5 (kvs Ix_size),
       4 \<mapsto> leaf_index 5 (kvs Ix_modified)], iv_events = []\<rparr>"

definition example_volume :: index_vol where
  "example_volume = index_volume (\<lambda>_. [])"

lemma leaf_header:
  assumes "dtype < 2 ^ 32"
  shows "header_ok (leaf_index dtype kvs) dtype 1024"
proof -
  let ?h = "bt_new_header 2048 (replicate 1024 0)"
  have len: "length ?h = 1024" by (rule new_header_fields(5)) simp
  note F = new_header_fields(1-4) [of "replicate 1024 0" 2048, unfolded hd_magic_def hd_node_size_def hd_type_def hd_root_def]
  have g: "get_node (leaf_index dtype kvs) 0 = mem_put 12 (le_enc 4 dtype) ?h" unfolding leaf_index_def two_nodes_get by (simp add: blank_stream_def get_node_def)
  have k: "mem_get off n (mem_put 12 (le_enc 4 dtype) ?h) = (if off = 12 \<and> n = 4 then le_enc 4 dtype else mem_get off n ?h)"
    if "off + n \<le> 12 \<or> 16 \<le> off \<or> (off = 12 \<and> n = 4)" for off n
    using that len by (auto simp: mem_get_def mem_put_def drop_take min_def)
  show ?thesis using F assms k [of 0 4] k [of 4 4] k [of 12 4] k [of 16 8]
    by (simp add: header_ok_def g hd_magic_def hd_node_size_def hd_type_def hd_root_def)
qed

lemma leaf_index_size [simp]: "bt_size (leaf_index dtype kvs) = 2048"
  by (simp add: leaf_index_def two_nodes_def)

lemma leaf_index_holds:
  assumes "dtype < 2 ^ 32" "keys_ok ok_key (key_lt fp dtype) kvs" "pairs_size kvs \<le> 1024" "\<forall>p \<in> set kvs. snd p < 2 ^ 32"
  shows "index_holds ok_key fp dtype (leaf_index dtype kvs) (idx_vals (map (apsnd DV) kvs))"
proof -
  let ?h = "mem_put 12 (le_enc 4 dtype) (bt_new_header 2048 (get_node blank_stream 0))" and ?t = "leaf_index dtype kvs"
  have "length ?h = 1024" using new_header_fields(5) [of "replicate 1024 0" 2048] by (simp add: blank_stream_def get_node_def)
  moreover have nd: "node_is (node_build AGFS_BTREE_NULL AGFS_BTREE_NULL AGFS_BTREE_NULL kvs) AGFS_BTREE_NULL AGFS_BTREE_NULL AGFS_BTREE_NULL kvs"
    by (rule node_build_is) (use assms(3,4) in fastforce)+
  ultimately have "fresh_stream ?t" unfolding leaf_index_def
    by (intro fresh_two_nodes blank_stream_fresh) (simp_all add: node_isD(1) [OF nd])
  then have "btree_tree ok_key fp dtype ?t (BL 1024 kvs)"
  proof (rule one_leaf_tree [OF _ _ _ _ _ _ leaf_header [OF assms(1)]])
    show "node_is (get_node ?t 1024) AGFS_BTREE_NULL AGFS_BTREE_NULL AGFS_BTREE_NULL kvs"
      using nd by (simp add: leaf_index_def two_nodes_get)
  qed (use assms(2) in \<open>simp_all add: leaf_index_def two_nodes_def put_node_def bt_blk_def blank_stream_def\<close>)
  moreover have "map (apsnd dup_link) (map (apsnd DV) kvs) = kvs" by (induction kvs) auto
  moreover have "dups_sep X (map snd (map (apsnd DV) kvs))" for X by (induction kvs) (auto simp: dups_sep_def dup_own_def dup_apart_def)
  moreover have "\<forall>x \<in> set (map (apsnd DV) kvs). dup_ok ?t (snd x)" using assms(4) by auto
  ultimately have "index_tree ok_key fp dtype ?t (BL 1024 kvs) (map (apsnd DV) kvs)"
    by (simp add: index_tree_def bt_entries_def)
  then show ?thesis
    unfolding index_holds_def by (intro exI [of _ "BL 1024 kvs"] exI [of _ "map (apsnd DV) kvs"] exI [of _ 1]) simp
qed

lemma empty_index_holds: "dtype < 2 ^ 32 \<Longrightarrow> index_holds ok_key fp dtype (leaf_index dtype []) (\<lambda>_. {#})"
  using leaf_index_holds [of dtype ok_key fp "[]"] by (simp add: keys_ok_def pairs_size_def bt_align_def idx_vals_def [abs_def])

lemma example_dir_holds: "\<exists>h. btree_holds dir_key fp 0 (leaf_stream example_dir) h example_dir"
proof -
  have "dir_holds (leaf_stream example_dir) example_dir"
    by (rule leaf_stream_dir) (simp_all add: example_dir_def IX_NAME_def IX_SIZE_def IX_LAST_MODIFIED_def dir_key_def pairs_size_def bt_align_def)
  then show ?thesis unfolding dir_holds_def by blast
qed

lemma index_volume_indexed:
  assumes "\<forall>x. keys_ok (index_key x) (key_lt fp (index_dtype x)) (kvs x) \<and> pairs_size (kvs x) \<le> 1024 \<and> (\<forall>p \<in> set (kvs x). snd p < 2 ^ 32)"
    and "finite (dom F)" "\<forall>ino f. F ino = Some f \<longrightarrow> ii_inode (fst f) = ino \<and> file_ok f"
    and "\<forall>x. files_index F x = idx_vals (map (apsnd DV) (kvs x))"
  shows "volume_indexed fp (index_volume kvs) 300000 F"
proof -
  obtain h where "btree_holds dir_key fp 0 (leaf_stream example_dir) h example_dir" using example_dir_holds by blast
  moreover define inos where "inos = (\<lambda>x. case x of Ix_name \<Rightarrow> 2 | Ix_size \<Rightarrow> 3 | Ix_modified \<Rightarrow> (4 :: nat))"
  have "inj inos" by (auto simp: inj_on_def inos_def split: index_id.splits)
  moreover have "map_of example_dir (index_name x) = Some (inos x) \<and> inos x < 2 ^ 32 \<and> inos x \<notin> {0, iv_indices_inode (index_volume kvs)}" for x
    by (cases x) (simp_all add: inos_def example_dir_def IX_NAME_def IX_SIZE_def IX_LAST_MODIFIED_def index_volume_def)
  moreover have "index_slot fp (index_volume kvs) 300000 x (inos x) (files_index F x)" for x
  proof -
    have "index_dtype x < 2 ^ 32" by (cases x) simp_all
    then have "index_holds (index_key x) fp (index_dtype x) (leaf_index (index_dtype x) (kvs x)) (files_index F x)"
      using assms(1) leaf_index_holds [of "index_dtype x" "index_key x" fp "kvs x"] assms(4) by simp
    moreover have "iv_stream (index_volume kvs) (inos x) = Some (leaf_index (index_dtype x) (kvs x))"
      by (cases x) (simp_all add: inos_def index_volume_def)
    ultimately show ?thesis by (simp add: index_slot_def)
  qed
  ultimately show ?thesis using assms(2,3)
    unfolding volume_indexed_def indices_hold_def
    by (intro conjI exI [of _ "leaf_stream example_dir"] exI [of _ h] exI [of _ example_dir] exI [of _ inos]) (auto simp: index_volume_def)
qed

lemma one_file_indexed:
  assumes "file_ok f"
  shows "volume_indexed fp (index_volume (\<lambda>x. [(file_key x f, ii_inode (fst f))])) 300000 [ii_inode (fst f) \<mapsto> f]"
proof (rule index_volume_indexed)
  have l: "length (file_key x f) \<le> 255" for x using file_key_ok [OF assms, of x] by (cases x) (auto simp: dir_key_def u64_key_def)
  have "pairs_size [(file_key x f, ii_inode (fst f))] \<le> 1024" for x using l [of x] by (simp add: pairs_size_def bt_align_def)
  then show "\<forall>x. keys_ok (index_key x) (key_lt fp (index_dtype x)) [(file_key x f, ii_inode (fst f))] \<and>
      pairs_size [(file_key x f, ii_inode (fst f))] \<le> 1024 \<and> (\<forall>p \<in> set [(file_key x f, ii_inode (fst f))]. snd p < 2 ^ 32)"
    using assms file_key_ok [OF assms] by (auto simp: keys_ok_def file_ok_def)
  show "\<forall>x. files_index [ii_inode (fst f) \<mapsto> f] x = idx_vals (map (apsnd DV) [(file_key x f, ii_inode (fst f))])"
    using files_index_add [of Map.empty "ii_inode (fst f)" f] by (auto simp: files_index_def idx_vals_def fun_eq_iff)
qed (use assms in \<open>auto split: if_splits\<close>)

lemma example_volume_indexed: "volume_indexed fp example_volume 300000 Map.empty"
  unfolding example_volume_def by (rule index_volume_indexed) (simp_all add: keys_ok_def pairs_size_def bt_align_def files_index_def idx_vals_def fun_eq_iff)

lemma name_leaf_holds:
  assumes "\<forall>p \<in> set kvs. dir_key (fst p) \<and> snd p < 2 ^ 32" "sorted_wrt agfs_key_less (map fst kvs)" "pairs_size kvs \<le> 1024"
  shows "index_holds dir_key fp 0 (leaf_index 0 kvs) (idx_vals (map (apsnd DV) kvs))"
proof (rule leaf_index_holds)
  show "keys_ok dir_key (key_lt fp 0) kvs" using assms sorted_dir_keys [of kvs fp] by (auto simp: keys_ok_def dir_key_def)
qed (use assms in auto)
subsection \<open>Properties\<close>

text \<open>
  C4. Insertions and deletions on an index tree refine a multimap from keys to inode numbers. On a tree that stores
  the multimap, every sequence of them returns, each call with the result of the multimap (a deletion reports a
  number that is not there), and the tree then stores the new multimap, whether the numbers of a key are in the
  leaf, in a slot of a fragment node or in a chain. A call takes at most twelve nodes.
\<close>

theorem index_calls_refine:
  assumes "index_holds (index_key x) fp (index_dtype x) t M" "\<forall>c \<in> set cs. index_op_ok (index_key x) c"
    "bt_size t + 12 * 1024 * length cs < 2 ^ 32"
  shows "\<exists>t'. index_run fp (index_dtype x) cs t = Some (t', snd (index_spec_run cs M)) \<and>
    index_holds (index_key x) fp (index_dtype x) t' (fst (index_spec_run cs M))"
  by (rule tree_keys.index_run_refines [OF index_keys assms])

theorem index_calls_refine_witness:
  "\<forall>fp. \<exists>t'. index_run fp 0 [Index_put [97] 5, Index_put [97] 6, Index_put [97] 5, Index_del [97] 5, Index_del [98] 5] (leaf_index 0 []) =
      Some (t', [Inr (), Inr (), Inr (), Inr (), Inl ENOENT]) \<and> index_holds dir_key fp 0 t' ((\<lambda>_. {#})([97] := {#5, 6#}))"
proof
  fix fp
  have "index_holds (index_key Ix_name) fp (index_dtype Ix_name) (leaf_index 0 []) (\<lambda>_. {#})" using empty_index_holds [of 0] by simp
  from index_calls_refine [OF this, of "[Index_put [97] 5, Index_put [97] 6, Index_put [97] 5, Index_del [97] 5, Index_del [98] 5]"]
  show "\<exists>t'. index_run fp 0 [Index_put [97] 5, Index_put [97] 6, Index_put [97] 5, Index_del [97] 5, Index_del [98] 5] (leaf_index 0 []) =
      Some (t', [Inr (), Inr (), Inr (), Inr (), Inl ENOENT]) \<and> index_holds dir_key fp 0 t' ((\<lambda>_. {#})([97] := {#5, 6#}))"
    by (simp add: dir_key_def add_mset_commute)
qed

text \<open>
  C24. The walk over an index ends without an error, in the order of the keys, and calls back with every number of
  every key as often as it is stored, until the callback stops it.
\<close>

theorem index_walk_visits_all:
  assumes "index_holds (index_key x) fp (index_dtype x) t M" "bt_size t \<le> 4096 * 1024"
  shows "\<exists>ps. (\<forall>fn s. agfs_btree_iterate_values t (int (index_dtype x)) fn s = Some (fst (kv_walk fn ps s), None)) \<and>
    sorted_wrt (\<lambda>p q. fst p = fst q \<or> key_lt fp (index_dtype x) (fst p) (fst q)) ps \<and>
    (\<forall>k. mset (map snd (filter (\<lambda>p. fst p = k) ps)) = M k)"
  by (rule tree_keys.index_walk [OF index_keys assms])

theorem index_walk_visits_all_witness:
  "\<exists>ps. agfs_btree_iterate_values (leaf_index 0 [([97], 5), ([98], 6)]) 0 (\<lambda>k v s. (s @ [(k, v)], False)) [] =
      Some (map (\<lambda>(k, v). (k, v mod 2 ^ 32)) ps, None) \<and> mset (map snd (filter (\<lambda>p. fst p = [98]) ps)) = {#6#}"
proof -
  have h: "index_holds (index_key Ix_name) no_fpu (index_dtype Ix_name) (leaf_index 0 [([97], 5), ([98], 6)]) (idx_vals [([97], DV 5), ([98], DV 6)])"
    using name_leaf_holds [of "[([97], 5), ([98], 6)]"] by (simp add: dir_key_def pairs_size_def bt_align_def)
  have "bt_size (leaf_index 0 [([97], 5), ([98], 6)]) \<le> 4096 * 1024" by simp
  from index_walk_visits_all [OF h this] obtain ps where
    "\<forall>(fn :: bkey \<Rightarrow> nat \<Rightarrow> bpair list \<Rightarrow> bpair list \<times> bool) s.
       agfs_btree_iterate_values (leaf_index 0 [([97], 5), ([98], 6)]) (int (index_dtype Ix_name)) fn s = Some (fst (kv_walk fn ps s), None)"
    "\<forall>k. mset (map snd (filter (\<lambda>p. fst p = k) ps)) = idx_vals [([97], DV 5), ([98], DV 6)] k"
    by (elim exE conjE)
  then show ?thesis by (intro exI [of _ ps]) (simp add: kv_walk_collect idx_vals_def)
qed



text \<open>
  C38. A deletion that leaves at least two numbers in a slot changes the fragment node; when the node shares its
  block with the leaf, no buffer is logged, although the call succeeds.
\<close>

theorem index_delete_not_logged:
  assumes I: "index_tree (index_key x) fp (index_dtype x) t tr ds" "bt_height tr \<le> 16" and k: "index_key x key"
    and d: "map_of ds key = Some (DF off s vs)" "3 \<le> length vs" "v \<in> set vs" and sh: "\<forall>leaf \<in> set (leaf_offs tr). dup_shared leaf off t"
  shows "\<exists>t'. agfs_btree_delete_value fp key v t = Some (t', Inr ()) \<and> get_node t' off \<noteq> get_node t off \<and> bt_logged t' = bt_logged t"
proof (cases rule: tree_keys.index_find [OF index_keys I(1) k I(2)])
  case (1 fs leaf A B ds1 e ds2)
  have "map_of ds1 key = None" using 1(4) by (simp add: map_of_eq_None_iff)
  then have e: "e = DF off s vs" using d(1) 1(2) by (simp add: map_add_def)
  note J = 1(3) [unfolded e]
  note h = index_atD(1) [OF J] and F = slot_facts [OF J] and L = dup_link_facts(3) [OF index_atD(4) [OF J] index_atD(1) [OF J] refl]
  let ?n = "dup_remove (8 * s) (length vs) (Suc (length (takeWhile (\<lambda>x. x \<noteq> v) vs))) (get_node t off)"
  have sl: "dup_shared leaf off t" using sh 1(1) by (simp add: leaf_offs_plug)
  then have w: "dup_write leaf off ?n t = put_node off ?n t" by (simp add: dup_write_def dup_log_def dup_shared_def put_node_def)
  have rd: "agfs_btree_remove_dup leaf (length A) v t = dup_remove_fragment leaf (length A) (dup_link e) v t"
    unfolding agfs_btree_remove_dup_def index_at_value(2) [OF J] using L by (simp add: index_at_value(1) [OF J] Let_def e del: dup_link.simps)
  have "agfs_btree_delete_value fp key v t = Some (put_node off ?n t, Inr ())"
    using 1(7) [of v] rd L d(2,3) remove_fragment_run [OF J, of v] w unfolding e by (simp add: dup_leaf_done_def del: dup_link.simps)
  moreover have "dup_word (8 * s) ?n = length vs - 1"
    using dup_arr_remove(1) [OF F(3) d(3)] d(3) by (simp add: dup_arr_def length_remove1)
  then have "?n \<noteq> get_node t off" using F(3) d(2) by (auto simp: dup_arr_def)
  then have "get_node (put_node off ?n t) off \<noteq> get_node t off" by (simp add: get_node_def put_node_def)
  ultimately show ?thesis by (auto simp: put_node_def)
next
  case 2
  then show ?thesis using d(1) by (simp add: map_of_eq_None_iff [THEN iffD2])
qed

text \<open>A block of four nodes with an index of one key and a slot of three numbers.\<close>

definition shared_index :: btree where
  "shared_index = put_node 2048 (dup_put 3 7 (dup_put 2 6 (dup_put 1 5 (dup_put 0 3 (replicate 1024 0)))))
     ((leaf_stream [([97], agfs_dup_make_link AGFS_BTREE_DUPLICATE_FRAGMENT 2048 0)])\<lparr>bt_bs := 4096, bt_size := 3072\<rparr>)"

lemma shared_index_tree: "index_tree dir_key fp 0 shared_index (BL 1024 [([97], dup_link (DF 2048 0 [5, 6, 7]))]) [([97], DF 2048 0 [5, 6, 7])]"
proof -
  let ?n = "dup_put 3 7 (dup_put 2 6 (dup_put 1 5 (dup_put 0 3 (replicate 1024 0))))" and ?v = "dup_link (DF 2048 0 [5, 6, 7])"
  have v: "?v < 2 ^ 64" using link_less [of 0 2048 3] by simp
  have nd: "node_is (node_build AGFS_BTREE_NULL AGFS_BTREE_NULL AGFS_BTREE_NULL [([97], ?v)]) AGFS_BTREE_NULL AGFS_BTREE_NULL AGFS_BTREE_NULL [([97], ?v)]"
    by (rule node_build_is) (use v in \<open>simp_all add: pairs_size_def bt_align_def del: dup_link.simps\<close>)
  have len: "length ?n = 1024" by simp
  have g: "get_node shared_index 0 = bt_new_header 2048 (replicate 1024 0)" "get_node shared_index 2048 = ?n"
    "get_node shared_index 1024 = node_build AGFS_BTREE_NULL AGFS_BTREE_NULL AGFS_BTREE_NULL [([97], ?v)]"
    by (simp_all add: shared_index_def leaf_stream_def get_node_def put_node_def two_nodes_def blank_stream_def)
  have "fresh_stream (leaf_stream [([97], ?v)])" unfolding leaf_stream_def
    by (intro fresh_two_nodes blank_stream_fresh node_isD(1) [OF nd]) (rule new_header_fields(5), simp add: blank_stream_def get_node_def)
  then have fr: "fresh_stream shared_index" using len by (simp add: fresh_stream_def shared_index_def put_node_def)
  have "btree_tree dir_key fp 0 shared_index (BL 1024 [([97], ?v)])"
  proof (rule one_leaf_tree [OF fr])
    show "header_ok shared_index 0 1024" using new_header_fields [of "replicate 1024 0" 2048] by (simp add: header_ok_def g)
    show "node_is (get_node shared_index 1024) AGFS_BTREE_NULL AGFS_BTREE_NULL AGFS_BTREE_NULL [([97], ?v)]" using nd unfolding g .
  qed (simp_all add: shared_index_def put_node_def leaf_stream_def two_nodes_def bt_blk_def blank_stream_def keys_ok_def dir_key_def)
  moreover have "place_ok shared_index 2048"
    by (simp add: place_ok_def shared_index_def put_node_def leaf_stream_def two_nodes_def bt_blk_def blank_stream_def)
  moreover have "dup_arr 0 [5, 6, 7] ?n" by (simp add: dup_arr_def less_Suc_eq all_conj_distrib)
  ultimately show ?thesis
    by (simp add: index_tree_def bt_entries_def g dup_array_eq dups_sep_def dup_own_def del: dup_link.simps)
qed

theorem index_delete_not_logged_witness:
  "\<forall>fp. \<exists>t'. agfs_btree_delete_value fp [97] 6 shared_index = Some (t', Inr ()) \<and> get_node t' 2048 \<noteq> get_node shared_index 2048 \<and>
     bt_logged t' = []"
proof
  fix fp
  have "bt_logged shared_index = []" by (simp add: shared_index_def put_node_def leaf_stream_def two_nodes_def blank_stream_def)
  moreover have "dup_shared 1024 2048 shared_index" by (simp add: dup_shared_def shared_index_def put_node_def)
  ultimately show "\<exists>t'. agfs_btree_delete_value fp [97] 6 shared_index = Some (t', Inr ()) \<and> get_node t' 2048 \<noteq> get_node shared_index 2048 \<and>
      bt_logged t' = []"
    using index_delete_not_logged [of Ix_name fp shared_index _ _ "[97]" 2048 0 "[5, 6, 7]" 6] shared_index_tree [of fp]
    by (fastforce simp: dir_key_def)
qed

end
