(* ===== verification/Query_Index.thy ===== *)
theory Query_Index
  imports Query_Eval Agfs_Indices
begin

text \<open>
  The query engine of \<^verbatim>\<open>src/fs/agfs/query.c\<close> on the trees that \<^verbatim>\<open>src/fs/agfs/indices.c\<close> keeps.
  \<open>Query_Eval\<close> leaves what it reads of a volume as a record of functions; here they are the lookups, headers and
  walks of \<open>Btree_Dir\<close> and \<open>Btree_Dup\<close> on the streams of the index inodes. The result composes the two: a query answers
  with the files of the volume that satisfy it.
\<close>

subsection \<open>The query engine on the index trees\<close>

definition qtype_of :: "nat \<Rightarrow> qtype result" where
  "qtype_of n = (if n \<le> 8 then Inr ([STRING_TYPE, INT8_TYPE, INT16_TYPE, INT32_TYPE, UINT32_TYPE, INT64_TYPE, UINT64_TYPE, FLOAT_TYPE, DOUBLE_TYPE] ! n)
     else Inl EINVAL)"

text \<open>The numbers that a walk over a tree hands to its callback, and how it ends.\<close>

definition walk_entries :: "btree \<Rightarrow> ((byte list \<times> u32) list \<times> status) option" where
  "walk_entries t = agfs_btree_iterate_values t 0 (\<lambda>k v s. (s @ [(k, of_nat v)], False)) []"

definition query_volume :: "fpu \<Rightarrow> index_vol \<Rightarrow> (nat \<Rightarrow> u32) \<Rightarrow> nat qvol" where
  "query_volume fp sb mode =
     \<lparr>qv_indices_inode = of_nat (iv_indices_inode sb),
      qv_iget = (\<lambda>ino. if iv_stream sb (unat ino) = None then None else Some (unat ino)),
      qv_btree_find = (\<lambda>i attr. case iv_stream sb i of None \<Rightarrow> 0
        | Some t \<Rightarrow> (case agfs_btree_find fp t attr of Inl _ \<Rightarrow> 0 | Inr ino \<Rightarrow> of_nat ino)),
      qv_raw_mode = mode,
      qv_header_type = (\<lambda>i. case iv_stream sb i of None \<Rightarrow> Inl EIO
        | Some t \<Rightarrow> (case agfs_btree_read_header t of Inl e \<Rightarrow> Inl e | Inr hdr \<Rightarrow> qtype_of (hd_type hdr))),
      qv_entries = (\<lambda>i. case iv_stream sb i of None \<Rightarrow> [] | Some t \<Rightarrow> (case walk_entries t of None \<Rightarrow> [] | Some (es, _) \<Rightarrow> es)),
      qv_walk_end = (\<lambda>i. case iv_stream sb i of None \<Rightarrow> None | Some t \<Rightarrow> (case walk_entries t of None \<Rightarrow> None | Some (_, st) \<Rightarrow> st))\<rparr>"

fun index_qtype :: "index_id \<Rightarrow> qtype" where
  "index_qtype Ix_name = STRING_TYPE"
| "index_qtype x = INT64_TYPE"

text \<open>The inodes of the three indices have the mode of their type, and their trees are at most four megabytes.\<close>

definition index_inodes_ok :: "fpu \<Rightarrow> index_vol \<Rightarrow> (nat \<Rightarrow> u32) \<Rightarrow> bool" where
  "index_inodes_ok fp sb mode \<longleftrightarrow> iv_indices_inode sb < 2 ^ 32 \<and>
     (\<forall>dir x ino t. agfs_index_dir sb = Some dir \<longrightarrow> agfs_btree_find fp dir (index_name x) = Inr ino \<longrightarrow> iv_stream sb ino = Some t \<longrightarrow>
        agfs_q_index_dtype (mode ino) = Some (index_qtype x) \<and> bt_size t \<le> 4096 * 1024)"

lemma word_of_nat_mod32: "(of_nat (v mod 4294967296) :: u32) = of_nat v"
  by (rule word_unat_eq_iff [THEN iffD2]) (simp add: unat_of_nat)

lemma walk_entries_set:
  assumes "index_holds (index_key x) fp (index_dtype x) t M" "bt_size t \<le> 4096 * 1024"
  shows "\<exists>es. walk_entries t = Some (es, None) \<and> set es = {(k, of_nat v) |k v. v \<in># M k}"
    "\<exists>hdr. agfs_btree_read_header t = Inr hdr \<and> hd_type hdr = index_dtype x"
proof -
  obtain tr ds where I: "index_tree (index_key x) fp (index_dtype x) t tr ds" and M: "idx_vals ds = M" using assms(1) by (auto simp: index_holds_def)
  have T: "healthy t" "header_ok t (index_dtype x) (root_off tr)" using I by (simp_all add: index_tree_def btree_tree_def)
  show "\<exists>hdr. agfs_btree_read_header t = Inr hdr \<and> hd_type hdr = index_dtype x" using read_header_ok [OF T] by blast
  have w: "kv_walk (\<lambda>k v s. (s @ [(k, of_nat v :: u32)], False)) ps s = (s @ map (\<lambda>(k, v). (k, of_nat v)) ps, False)" for ps s
    by (induction ps arbitrary: s) (auto simp: word_of_nat_mod32)
  have "walk_entries t = Some (map (\<lambda>(k, v). (k, of_nat v)) (idx_pairs ds), None)"
    by (simp add: walk_entries_def tree_keys.iterate_values [OF index_keys I assms(2)] w)
  moreover have "v \<in># M k \<longleftrightarrow> (k, v) \<in> set (idx_pairs ds)" for k v
  proof -
    have "M k = mset (map snd (filter (\<lambda>p. fst p = k) (idx_pairs ds)))"
      using filter_idx_pairs [OF tree_keys.index_sorted(3) [OF index_keys I]] M by metis
    then show ?thesis by (auto simp del: mset_map mset_filter simp: image_iff)
  qed
  ultimately show "\<exists>es. walk_entries t = Some (es, None) \<and> set es = {(k, of_nat v) |k v. v \<in># M k}" by auto
qed

lemma files_index_mem: "finite (dom F) \<Longrightarrow> i \<in># files_index F x k \<longleftrightarrow> (\<exists>f. F i = Some f \<and> file_key x f = k)"
  by (auto simp: files_index_def dom_def)

lemma query_index:
  assumes V: "volume_indexed fp sb n F" and Q: "index_inodes_ok fp sb mode"
  shows "\<exists>ino. agfs_q_find_index (query_volume fp sb mode) (index_name x) = Some (ino, index_qtype x) \<and>
    qv_header_type (query_volume fp sb mode) ino = Inr (index_qtype x) \<and> qv_walk_end (query_volume fp sb mode) ino = None \<and>
    set (qv_entries (query_volume fp sb mode) ino) = {(file_key x f, of_nat i) |i f. F i = Some f}"
proof -
  have "indices_hold fp sb n (files_index F)" and fin: "finite (dom F)" using V by (simp_all add: volume_indexed_def)
  then obtain dir h es inos where I: "iv_indices_inode sb \<noteq> 0" "iv_stream sb (iv_indices_inode sb) = Some dir" "btree_holds dir_key fp 0 dir h es"
    "\<forall>x. map_of es (index_name x) = Some (inos x) \<and> inos x < 2 ^ 32 \<and> inos x \<notin> {0, iv_indices_inode sb} \<and> index_slot fp sb n x (inos x) (files_index F x)"
    by (auto simp: indices_hold_def)
  have x: "map_of es (index_name x) = Some (inos x)" "inos x < 2 ^ 32" "inos x \<noteq> 0" using I(4) by auto
  obtain t where t: "iv_stream sb (inos x) = Some t" "index_holds (index_key x) fp (index_dtype x) t (files_index F x)"
    using I(4) unfolding index_slot_def by blast
  have f: "agfs_btree_find fp dir (index_name x) = Inr (inos x)" using dir_keys.holds_find [OF I(3) index_name_key, of x] x by simp
  have d: "agfs_index_dir sb = Some dir" using I(1,2) by (simp add: agfs_index_dir_def)
  have q: "iv_indices_inode sb < 2 ^ 32" "agfs_q_index_dtype (mode (inos x)) = Some (index_qtype x)" "bt_size t \<le> 4096 * 1024"
    using Q d f t(1) by (auto simp: index_inodes_ok_def)
  have u: "unat (of_nat (inos x) :: u32) = inos x" "unat (of_nat (iv_indices_inode sb) :: u32) = iv_indices_inode sb"
    using x(2) q(1) by (simp_all add: unat_of_nat)
  have nz: "(of_nat (inos x) :: u32) \<noteq> 0" "(of_nat (iv_indices_inode sb) :: u32) \<noteq> 0" using u x(3) I(1) by (metis unat_0)+
  obtain ws where ws: "walk_entries t = Some (ws, None)" "set ws = {(k, of_nat v) |k v. v \<in># files_index F x k}"
    using walk_entries_set(1) [OF t(2) q(3)] by blast
  obtain hdr where hdr: "agfs_btree_read_header t = Inr hdr" "hd_type hdr = index_dtype x" using walk_entries_set(2) [OF t(2) q(3)] by blast
  have "qtype_of (index_dtype x) = Inr (index_qtype x)" by (cases x) (simp_all add: qtype_of_def)
  moreover have "set ws = {(file_key x f, of_nat i) |i f. F i = Some f}" unfolding ws(2) files_index_mem [OF fin] by auto
  ultimately show ?thesis using u nz f I(2) t(1) q(2) ws(1) hdr
    by (intro exI [of _ "inos x"]) (simp add: query_volume_def agfs_q_find_index_def Let_def)
qed

text \<open>The files that a query means.\<close>

definition index_of_attr :: "byte list \<Rightarrow> index_id option" where
  "index_of_attr attr = List.find (\<lambda>x. index_name x = attr) [Ix_name, Ix_size, Ix_modified]"

fun file_sem :: "fpu \<Rightarrow> (nat \<rightharpoonup> ifile) \<Rightarrow> agfs_qnode \<Rightarrow> u32 set" where
  "file_sem fp F (BQ_FORMULA op attr v) =
     (case index_of_attr attr of
        None \<Rightarrow> {}
      | Some x \<Rightarrow>
         (case q_formula_ctx fp (index_qtype x) op v of
            Inl e \<Rightarrow> {}
          | Inr c \<Rightarrow> {of_nat i |i f. F i = Some f \<and> agfs_q_key_matches fp c (file_key x f)}))"
| "file_sem fp F (BQ_AND l r) = file_sem fp F l \<inter> file_sem fp F r"
| "file_sem fp F (BQ_OR l r) = file_sem fp F l \<union> file_sem fp F r"

fun known_attrs :: "agfs_qnode \<Rightarrow> bool" where
  "known_attrs (BQ_FORMULA op attr v) = (index_of_attr attr \<noteq> None)"
| "known_attrs (BQ_AND l r) = (known_attrs l \<and> known_attrs r)"
| "known_attrs (BQ_OR l r) = (known_attrs l \<and> known_attrs r)"

lemma index_of_attr_name: "index_of_attr attr = Some x \<Longrightarrow> attr = index_name x"
  by (auto simp: index_of_attr_def split: if_splits)

lemma query_reads_files:
  assumes V: "volume_indexed fp sb n F" and Q: "index_inodes_ok fp sb mode" and F: "F 0 = None"
  shows "known_attrs tree \<Longrightarrow> q_readable (query_volume fp sb mode) tree \<and> q_sem fp (query_volume fp sb mode) tree = file_sem fp F tree"
proof (induction tree)
  case (BQ_FORMULA op attr v)
  then obtain x where x: "index_of_attr attr = Some x" by auto
  then have nm: "attr = index_name x" by (rule index_of_attr_name)
  obtain ino where ino: "agfs_q_find_index (query_volume fp sb mode) attr = Some (ino, index_qtype x)"
    "qv_header_type (query_volume fp sb mode) ino = Inr (index_qtype x)" "qv_walk_end (query_volume fp sb mode) ino = None"
    "set (qv_entries (query_volume fp sb mode) ino) = {(file_key x f, of_nat i) |i f. F i = Some f}"
    using query_index [OF V Q, of x] unfolding nm by blast
  have "(of_nat i :: u32) \<noteq> 0" if "F i = Some f" for i f
  proof -
    have "ii_inode (fst f) = i \<and> file_ok f" using V [unfolded volume_indexed_def] that by blast
    then have "i < 2 ^ 32" by (auto simp: file_ok_def)
    then have "unat (of_nat i :: u32) = i" by (simp add: unat_of_nat)
    moreover have "i \<noteq> 0" using that F by (metis option.distinct(1))
    ultimately show ?thesis by (metis unat_0)
  qed
  then have "snd ` {e \<in> {(file_key x f, of_nat i :: u32) |i f. F i = Some f}. P (fst e)} - {0} = {of_nat i |i f. F i = Some f \<and> P (file_key x f)}" for P
    by force
  then show ?case using ino x by (auto split: sum.split)
qed auto

subsection \<open>An example\<close>

text \<open>A volume with the file \<^verbatim>\<open>a\<close> of 4096 bytes, inode 9, and the query \<^verbatim>\<open>(name="a"&&size>"100")\<close>.\<close>

definition one_file :: ifile where
  "one_file = (\<lparr>ii_inode = 9, ii_size = 4096, ii_mtime = 8, ii_nlink = 1\<rparr>, [97])"

definition one_file_query :: agfs_qnode where
  "one_file_query = BQ_AND (BQ_FORMULA OP_EQUAL IX_NAME [97]) (BQ_FORMULA OP_GREATER_THAN IX_SIZE [49, 48, 48])"

definition one_file_mode :: "nat \<Rightarrow> u32" where
  "one_file_mode ino = (if ino = 2 then 0x01000000 else 0x00200000)"

lemma one_file_sem: "file_sem no_fpu [9 \<mapsto> one_file] one_file_query = {9}"
proof -
  have a: "index_of_attr IX_NAME = Some Ix_name" "index_of_attr IX_SIZE = Some Ix_size" by code_simp+
  have b: "case q_formula_ctx no_fpu STRING_TYPE OP_EQUAL [97] of Inl e \<Rightarrow> False | Inr c \<Rightarrow> agfs_q_key_matches no_fpu c (file_key Ix_name one_file)"
    "case q_formula_ctx no_fpu INT64_TYPE OP_GREATER_THAN [49, 48, 48] of Inl e \<Rightarrow> False | Inr c \<Rightarrow> agfs_q_key_matches no_fpu c (file_key Ix_size one_file)"
    by code_simp+
  show ?thesis using b by (auto simp: one_file_query_def a simp del: split_paired_Ex split: sum.splits if_splits)
qed

subsection \<open>Property\<close>

text \<open>
  C5. A query over the name, size and modification time of the files of a volume returns the files
  that satisfy it. The query engine runs on the trees that the index code keeps: the inode of each index is found in the
  index directory, its key type is read from its tree, and every number of every key is visited.
\<close>

theorem query_finds_files:
  assumes "mem_ok m" "agfs_q_parse_expr m q 0 = Inr (tree, p, m1)" "ch (agfs_q_skip p) = 0" "ch (agfs_q_skip q) \<noteq> 0"
    and "volume_indexed fp sb n F" "F 0 = None" "index_inodes_ok fp sb mode" "known_attrs tree"
  shows "agfs_query fp (query_volume fp sb mode) m (Some q) cap =
    Inr (card (file_sem fp F tree), take cap (sorted_list_of_set (file_sem fp F tree)))"
  using agfs_query_answer [OF assms(1-4), of "query_volume fp sb mode" fp cap] query_reads_files [OF assms(5,7,6,8)] by simp

theorem query_finds_files_witness:
  "agfs_query no_fpu (query_volume no_fpu (index_volume (\<lambda>x. [(file_key x one_file, 9)])) one_file_mode) []
     (Some (q_text one_file_query)) 10 = Inr (1, [9])"
proof -
  let ?sb = "index_volume (\<lambda>x. [(file_key x one_file, 9)])"
  have i: "ii_inode (fst one_file) = 9" "file_ok one_file" by (simp_all add: one_file_def file_ok_def dir_key_def)
  have V: "volume_indexed no_fpu ?sb 300000 [9 \<mapsto> one_file]" using one_file_indexed [OF i(2)] unfolding i(1) .
  obtain h where D: "btree_holds dir_key no_fpu 0 (leaf_stream example_dir) h example_dir" using example_dir_holds by blast
  have "map_of example_dir (index_name x) = Some (case x of Ix_name \<Rightarrow> 2 | Ix_size \<Rightarrow> 3 | Ix_modified \<Rightarrow> 4)" for x
    by (cases x) (simp_all add: example_dir_def IX_NAME_def IX_SIZE_def IX_LAST_MODIFIED_def)
  then have f: "agfs_btree_find no_fpu (leaf_stream example_dir) (index_name x) = Inr (case x of Ix_name \<Rightarrow> 2 | Ix_size \<Rightarrow> 3 | Ix_modified \<Rightarrow> 4)" for x
    by (simp add: dir_keys.holds_find [OF D index_name_key] split: index_id.split)
  have "agfs_q_index_dtype (one_file_mode (case x of Ix_name \<Rightarrow> 2 | Ix_size \<Rightarrow> 3 | Ix_modified \<Rightarrow> 4)) = Some (index_qtype x)" for x
    by (cases x) (simp_all add: agfs_q_index_dtype_def one_file_mode_def)
  then have Q: "index_inodes_ok no_fpu ?sb one_file_mode" using f
    by (auto simp: index_inodes_ok_def index_volume_def agfs_index_dir_def split: if_splits)
  have "agfs_query no_fpu (query_volume no_fpu ?sb one_file_mode) [] (Some (q_text one_file_query)) 10 =
      Inr (card (file_sem no_fpu [9 \<mapsto> one_file] one_file_query), take 10 (sorted_list_of_set (file_sem no_fpu [9 \<mapsto> one_file] one_file_query)))"
  proof (rule query_finds_files [OF _ _ _ _ V _ Q])
    show "mem_ok []" by (simp add: mem_ok_def)
    show "agfs_q_parse_expr [] (q_text one_file_query) 0 = Inr (one_file_query, [], [])" by code_simp
    show "ch (agfs_q_skip []) = 0" by code_simp
    show "ch (agfs_q_skip (q_text one_file_query)) \<noteq> 0" by code_simp
    show "known_attrs one_file_query" by code_simp
  qed simp
  then show ?thesis by (simp add: one_file_sem)
qed

end
