(* ===== verification/Kernel_Types.thy ===== *)
theory Kernel_Types
  imports Prelude
begin

text \<open>
  The kernel structures several components share: the credentials of
  \<^verbatim>\<open>struct proc\<close> (\<^verbatim>\<open>include/fnx/process.h\<close>), the metadata of \<^verbatim>\<open>struct inode\<close>
  (\<^verbatim>\<open>include/fnx/fs.h\<close>) that the permission checks read, the file type tests of
  \<^verbatim>\<open>include/fnx/stat.h\<close>, and the credential tests of \<^verbatim>\<open>kernel/syscalls.c\<close>. The
  running process, \<^verbatim>\<open>current\<close> in the C code, is an argument.
\<close>

subsection \<open>Processes and inodes\<close>

record proc =
  p_flags :: u32
  p_groups :: "u32 list"
  p_uid :: u32
  p_gid :: u32
  p_euid :: u32
  p_egid :: u32
  p_fsuid :: u32
  p_fsgid :: u32

text \<open>
  The inode record is extended by the file systems. \<open>i_rdonly\<close> is the value of
  \<^verbatim>\<open>IS_RDONLY_FS\<close>, a flag of the inode's superblock.
\<close>

record inode =
  i_mode :: u16
  i_uid :: u32
  i_gid :: u32
  i_ctime :: u64
  i_dirty :: bool
  i_rdonly :: bool

abbreviation (input) PF_USEREAL :: u32 where "PF_USEREAL \<equiv> 4"
abbreviation (input) NGROUPS_MAX :: nat where "NGROUPS_MAX \<equiv> 32"

abbreviation (input) S_IFMT :: u16 where "S_IFMT \<equiv> 0xF000"
abbreviation (input) S_IFDIR :: u16 where "S_IFDIR \<equiv> 0x4000"
abbreviation (input) S_IFLNK :: u16 where "S_IFLNK \<equiv> 0xA000"
abbreviation (input) S_ISUID :: u16 where "S_ISUID \<equiv> 0x800"
abbreviation (input) S_ISGID :: u16 where "S_ISGID \<equiv> 0x400"
abbreviation (input) S_IRWXU :: u16 where "S_IRWXU \<equiv> 0x1C0"
abbreviation (input) S_IRWXG :: u16 where "S_IRWXG \<equiv> 0x38"
abbreviation (input) S_IRWXO :: u16 where "S_IRWXO \<equiv> 7"
abbreviation (input) RWX_BITS :: u16 where "RWX_BITS \<equiv> 0x1FF"

abbreviation (input) TO_READ :: u32 where "TO_READ \<equiv> 4"
abbreviation (input) TO_WRITE :: u32 where "TO_WRITE \<equiv> 2"
abbreviation (input) TO_EXEC :: u32 where "TO_EXEC \<equiv> 1"

definition S_ISDIR :: "u16 \<Rightarrow> bool" where
  "S_ISDIR m \<longleftrightarrow> m AND S_IFMT = S_IFDIR"

definition S_ISLNK :: "u16 \<Rightarrow> bool" where
  "S_ISLNK m \<longleftrightarrow> m AND S_IFMT = S_IFLNK"

subsection \<open>Credential tests\<close>

definition is_superuser :: "proc \<Rightarrow> bool" where
  "is_superuser cur \<longleftrightarrow> p_euid cur = 0"

definition use_real :: "proc \<Rightarrow> bool" where
  "use_real cur \<longleftrightarrow> p_flags cur AND PF_USEREAL \<noteq> 0"

text \<open>The scan of the supplementary groups stops at the first unused slot (\<open>-1\<close>).\<close>

fun groups_scan :: "u32 list \<Rightarrow> u32 \<Rightarrow> bool" where
  "groups_scan [] gid = False"
| "groups_scan (g # gs) gid =
     (if g = -1 then False else if g = gid then True else groups_scan gs gid)"

text \<open>\<open>True\<close> stands for the nonzero result of the C tests that report a refusal.\<close>

definition check_user_permission :: "proc \<Rightarrow> ('a) inode_scheme \<Rightarrow> bool" where
  "check_user_permission cur i =
     (if \<not> is_superuser cur then (if p_euid cur \<noteq> i_uid i then True else False) else False)"

definition check_group :: "proc \<Rightarrow> ('a) inode_scheme \<Rightarrow> bool" where
  "check_group cur i =
     (let gid = (if use_real cur then p_gid cur else p_fsgid cur) in
      if i_gid i = gid then False
      else \<not> groups_scan (take NGROUPS_MAX (p_groups cur)) (i_gid i))"

definition in_group :: "proc \<Rightarrow> u32 \<Rightarrow> bool" where
  "in_group cur gid =
     (if p_gid cur = gid \<or> p_egid cur = gid then True
      else groups_scan (take NGROUPS_MAX (p_groups cur)) gid)"

definition check_chown_permission ::
    "proc \<Rightarrow> ('a) inode_scheme \<Rightarrow> u32 \<Rightarrow> u32 \<Rightarrow> ('a) inode_scheme \<times> status" where
  "check_chown_permission cur i owner grp =
     (if is_superuser cur then (i, None)
      else if check_user_permission cur i then (i, Some EPERM)
      else if owner \<noteq> -1 \<and> owner \<noteq> i_uid i then (i, Some EPERM)
      else if grp \<noteq> -1 \<and> grp \<noteq> i_gid i \<and> \<not> in_group cur grp then (i, Some EPERM)
      else if owner \<noteq> -1 \<and> owner \<noteq> i_uid i \<or> grp \<noteq> -1 \<and> grp \<noteq> i_gid i
      then (i\<lparr>i_mode := i_mode i AND NOT (S_ISUID OR S_ISGID)\<rparr>, None)
      else (i, None))"

text \<open>The groups the scan finds: the entries before the first unused slot.\<close>

lemma groups_scan_iff:
  "groups_scan gs gid \<longleftrightarrow> gid \<in> set (takeWhile (\<lambda>g. g \<noteq> -1) gs)"
  by (induction gs) auto

end
