(* ===== verification/Block_Alloc.thy ===== *)
theory Block_Alloc
  imports Kernel_Types
begin

text \<open>
  The free-space manager of AGFS, \<^verbatim>\<open>fs/agfs/balloc.c\<close>: the bitmap cached in page-sized chunks, the
  allocation of a block, of a given block and of a run of blocks, the release of a block with the
  list of pending discards, and the resynchronisation of the counter at mount time.

  Block numbers are natural numbers; the counter of used blocks is the 64-bit integer of the
  superblock. A search over the volume may in principle run forever and is a partial function of
  the option monad; that it returns is part of the theorems. The interface \<open>bitmap\<close> states what
  the allocator needs of the bitmap; its lemmas about sets of used blocks are interpreted on the
  chunked bitmap.
\<close>

subsection \<open>The superblock\<close>

record agfs_sb =
  s_block_size :: nat
  s_blocks_per_ag :: nat
  s_ag_shift :: nat
  s_num_blocks :: nat
  s_flags :: u32
  s_used_blocks :: u64
  s_bitmap :: "byte list list"
  s_next_free :: nat
  s_discards :: "(nat \<times> nat) list"
  s_dirty :: bool

abbreviation (input) PAGE_SIZE :: nat where "PAGE_SIZE \<equiv> 4096"
abbreviation (input) AGFS_NR_PENDING_DISCARD :: nat where "AGFS_NR_PENDING_DISCARD \<equiv> 256"
abbreviation (input) AGFS_SUPER_DIRTY :: u32 where "AGFS_SUPER_DIRTY \<equiv> 0x44495254"

subsection \<open>The bitmap\<close>

definition agfs_group :: "agfs_sb \<Rightarrow> nat \<Rightarrow> nat" where
  "agfs_group sb block = drop_bit (s_ag_shift sb) block"

definition agfs_group_bit :: "agfs_sb \<Rightarrow> nat \<Rightarrow> nat" where
  "agfs_group_bit sb block = take_bit (s_ag_shift sb) block"

definition agfs_bitmap_off :: "agfs_sb \<Rightarrow> nat \<Rightarrow> nat" where
  "agfs_bitmap_off sb block =
     agfs_group sb block * s_blocks_per_ag sb * s_block_size sb + drop_bit 3 (agfs_group_bit sb block)"

text \<open>The chunk and the byte in the chunk.\<close>

definition agfs_bitmap_byte :: "agfs_sb \<Rightarrow> nat \<Rightarrow> nat \<times> nat" where
  "agfs_bitmap_byte sb block = (agfs_bitmap_off sb block div PAGE_SIZE, agfs_bitmap_off sb block mod PAGE_SIZE)"

definition agfs_bitmap_get :: "agfs_sb \<Rightarrow> nat \<Rightarrow> byte" where
  "agfs_bitmap_get sb block = (case agfs_bitmap_byte sb block of (c, b) \<Rightarrow> s_bitmap sb ! c ! b)"

definition agfs_bitmap_put :: "agfs_sb \<Rightarrow> nat \<Rightarrow> byte \<Rightarrow> agfs_sb" where
  "agfs_bitmap_put sb block v =
     (case agfs_bitmap_byte sb block of
        (c, b) \<Rightarrow> sb\<lparr>s_bitmap := (s_bitmap sb)[c := (s_bitmap sb ! c)[b := v]]\<rparr>)"

definition agfs_bitmap_test :: "agfs_sb \<Rightarrow> nat \<Rightarrow> bool" where
  "agfs_bitmap_test sb block \<longleftrightarrow>
     agfs_bitmap_get sb block AND push_bit (agfs_group_bit sb block mod 8) 1 \<noteq> 0"

definition agfs_bitmap_set :: "agfs_sb \<Rightarrow> nat \<Rightarrow> agfs_sb" where
  "agfs_bitmap_set sb block =
     agfs_bitmap_put sb block (agfs_bitmap_get sb block OR push_bit (agfs_group_bit sb block mod 8) 1)"

definition agfs_bitmap_clear :: "agfs_sb \<Rightarrow> nat \<Rightarrow> agfs_sb" where
  "agfs_bitmap_clear sb block =
     agfs_bitmap_put sb block (agfs_bitmap_get sb block AND NOT (push_bit (agfs_group_bit sb block mod 8) 1))"

subsection \<open>Allocation\<close>

definition next_block :: "agfs_sb \<Rightarrow> nat \<Rightarrow> nat" where
  "next_block sb block = (if block + 1 \<ge> s_num_blocks sb then 0 else block + 1)"

partial_function (option) balloc_scan :: "agfs_sb \<Rightarrow> nat \<Rightarrow> nat \<Rightarrow> (nat option) option" where
  "balloc_scan sb hint block =
     (if \<not> agfs_bitmap_test sb block then Some (Some block)
      else if next_block sb block \<noteq> hint then balloc_scan sb hint (next_block sb block)
      else Some None)"

definition alloc_hint :: "agfs_sb \<Rightarrow> nat" where
  "alloc_hint sb = (if s_next_free sb \<ge> s_num_blocks sb then 0 else s_next_free sb)"

definition agfs_balloc :: "agfs_sb \<Rightarrow> (agfs_sb \<times> nat result) option" where
  "agfs_balloc sb =
     (case balloc_scan sb (alloc_hint sb) (alloc_hint sb) of
        None \<Rightarrow> None
      | Some None \<Rightarrow> Some (sb, Inl ENOSPC)
      | Some (Some block) \<Rightarrow>
          Some ((agfs_bitmap_set sb block)\<lparr>s_used_blocks := s_used_blocks sb + 1, s_next_free := block + 1,
                  s_dirty := True\<rparr>, Inr block))"

definition agfs_balloc_specific :: "agfs_sb \<Rightarrow> nat \<Rightarrow> agfs_sb \<times> status" where
  "agfs_balloc_specific sb block =
     (if block \<ge> s_num_blocks sb then (sb, Some EINVAL)
      else if agfs_bitmap_test sb block then (sb, Some EEXIST)
      else ((agfs_bitmap_set sb block)\<lparr>s_used_blocks := s_used_blocks sb + 1, s_dirty := True\<rparr>, None))"

text \<open>The search for the first block of a run, and the extension of the run.\<close>

partial_function (option) contig_scan :: "agfs_sb \<Rightarrow> nat \<Rightarrow> nat \<Rightarrow> (nat option) option" where
  "contig_scan sb hint first =
     (if agfs_bitmap_test sb first then
        (if next_block sb first = hint then Some None else contig_scan sb hint (next_block sb first))
      else Some (Some first))"

function contig_take :: "agfs_sb \<Rightarrow> nat \<Rightarrow> nat \<Rightarrow> nat \<Rightarrow> agfs_sb \<times> nat" where
  "contig_take sb first want got =
     (if got < want then
        (let b = first + got in
         if b \<ge> s_num_blocks sb then (sb, got)
         else if b > first \<and> take_bit (s_ag_shift sb) b = 0 then (sb, got)
         else if agfs_bitmap_test sb b then (sb, got)
         else contig_take (agfs_bitmap_set sb b) first want (got + 1))
      else (sb, got))"
  by pat_completeness auto
termination contig_take
  by (relation "measure (\<lambda>(sb, first, want, got). want - got)") auto

declare contig_take.simps [simp del]

definition agfs_balloc_contig :: "agfs_sb \<Rightarrow> nat \<Rightarrow> (agfs_sb \<times> (nat \<times> nat) result) option" where
  "agfs_balloc_contig sb want =
     (case contig_scan sb (alloc_hint sb) (alloc_hint sb) of
        None \<Rightarrow> None
      | Some None \<Rightarrow> Some (sb, Inl ENOSPC)
      | Some (Some first) \<Rightarrow>
          (case contig_take sb first want 0 of
             (sb1, got) \<Rightarrow>
               Some (sb1\<lparr>s_used_blocks := s_used_blocks sb + of_nat got,
                         s_next_free := (if first + got \<ge> s_num_blocks sb then 0 else first + got),
                         s_dirty := True\<rparr>, Inr (first, got))))"

subsection \<open>Release and discards\<close>

definition agfs_discard_add :: "(nat \<times> nat) list \<Rightarrow> nat \<Rightarrow> (nat \<times> nat) list" where
  "agfs_discard_add ds block =
     (if ds \<noteq> [] \<and> fst (last ds) + snd (last ds) = block
      then butlast ds @ [(fst (last ds), snd (last ds) + 1)]
      else if length ds \<ge> AGFS_NR_PENDING_DISCARD then ds
      else ds @ [(block, 1)])"

definition agfs_bfree :: "agfs_sb \<Rightarrow> nat \<Rightarrow> agfs_sb" where
  "agfs_bfree sb block =
     (if block \<ge> s_num_blocks sb then sb
      else if agfs_bitmap_test sb block then
        (agfs_bitmap_clear sb block)\<lparr>s_used_blocks := s_used_blocks sb - 1, s_dirty := True,
           s_next_free := (if s_next_free sb > block then block else s_next_free sb),
           s_discards := agfs_discard_add (s_discards sb) block\<rparr>
      else sb)"

text \<open>The length of the free run at a block, and the calls of the device's discard operation.\<close>

function free_run :: "agfs_sb \<Rightarrow> nat \<Rightarrow> nat \<Rightarrow> nat \<Rightarrow> nat" where
  "free_run sb b stop run =
     (if b + run < stop \<and> \<not> agfs_bitmap_test sb (b + run) then free_run sb b stop (run + 1) else run)"
  by pat_completeness auto
termination free_run
  by (relation "measure (\<lambda>(sb, b, stop, run). stop - (b + run))") auto

declare free_run.simps [simp del]

function discard_extent :: "agfs_sb \<Rightarrow> nat \<Rightarrow> nat \<Rightarrow> (nat \<times> nat) list" where
  "discard_extent sb b stop =
     (if b < stop then
        (let run = free_run sb b stop 0 in
         if run \<noteq> 0 then (b, run) # discard_extent sb (b + run) stop
         else discard_extent sb (b + 1) stop)
      else [])"
  by pat_completeness auto
termination discard_extent
  by (relation "measure (\<lambda>(sb, b, stop). stop - b)") auto

declare discard_extent.simps [simp del]

text \<open>The device: absent, without discard support, or with it.\<close>

datatype discard_dev = NoDevice | NoDiscard | Discard

definition agfs_flush_discards :: "discard_dev \<Rightarrow> agfs_sb \<Rightarrow> agfs_sb \<times> (nat \<times> nat) list" where
  "agfs_flush_discards dev sb =
     (if s_discards sb = [] then (sb, [])
      else
        (case dev of
           NoDevice \<Rightarrow> (sb, [])
         | NoDiscard \<Rightarrow> (sb\<lparr>s_discards := []\<rparr>, [])
         | Discard \<Rightarrow>
             (sb\<lparr>s_discards := []\<rparr>,
              concat (map (\<lambda>(start, count). discard_extent sb start (start + count)) (s_discards sb)))))"

subsection \<open>The counter\<close>

definition count_used :: "agfs_sb \<Rightarrow> u32" where
  "count_used sb = fold (\<lambda>block c. if agfs_bitmap_test sb block then c + 1 else c) [0..<s_num_blocks sb] 0"

definition agfs_resync_used_blocks :: "agfs_sb \<Rightarrow> agfs_sb" where
  "agfs_resync_used_blocks sb =
     (if ucast (count_used sb) \<noteq> s_used_blocks sb
      then sb\<lparr>s_used_blocks := ucast (count_used sb), s_dirty := True, s_flags := AGFS_SUPER_DIRTY\<rparr>
      else sb)"

subsection \<open>The interface of a bitmap\<close>

text \<open>
  A bitmap over the blocks of a volume: \<open>bm_ok\<close> is its well-formedness, \<open>bm_num\<close> the number of
  blocks. Its lemmas read the bitmap as the set of the used blocks.
\<close>

locale bitmap =
  fixes bm_ok :: "'s \<Rightarrow> bool"
    and bm_num :: "'s \<Rightarrow> nat"
    and bm_test :: "'s \<Rightarrow> nat \<Rightarrow> bool"
    and bm_set :: "'s \<Rightarrow> nat \<Rightarrow> 's"
    and bm_clear :: "'s \<Rightarrow> nat \<Rightarrow> 's"
  assumes ok_set: "bm_ok s \<Longrightarrow> b < bm_num s \<Longrightarrow> bm_ok (bm_set s b)"
    and ok_clear: "bm_ok s \<Longrightarrow> b < bm_num s \<Longrightarrow> bm_ok (bm_clear s b)"
    and num_set: "bm_num (bm_set s b) = bm_num s"
    and num_clear: "bm_num (bm_clear s b) = bm_num s"
    and test_set: "bm_ok s \<Longrightarrow> b < bm_num s \<Longrightarrow> c < bm_num s
                   \<Longrightarrow> bm_test (bm_set s b) c \<longleftrightarrow> c = b \<or> bm_test s c"
    and test_clear: "bm_ok s \<Longrightarrow> b < bm_num s \<Longrightarrow> c < bm_num s
                   \<Longrightarrow> bm_test (bm_clear s b) c \<longleftrightarrow> c \<noteq> b \<and> bm_test s c"
begin

definition used :: "'s \<Rightarrow> nat set" where
  "used s = {b. b < bm_num s \<and> bm_test s b}"

lemma used_iff: "b \<in> used s \<longleftrightarrow> b < bm_num s \<and> bm_test s b"
  by (simp add: used_def)

lemma used_bound: "used s \<subseteq> {0..<bm_num s}"
  by (auto simp: used_def)

lemma finite_used [simp]: "finite (used s)"
  using used_bound finite_subset by blast

lemma card_used_le: "card (used s) \<le> bm_num s"
  using card_mono [OF _ used_bound [of s]] by simp

lemma used_set: "bm_ok s \<Longrightarrow> b < bm_num s \<Longrightarrow> used (bm_set s b) = insert b (used s)"
  by (auto simp: used_def num_set test_set)

lemma used_clear: "bm_ok s \<Longrightarrow> b < bm_num s \<Longrightarrow> used (bm_clear s b) = used s - {b}"
  by (auto simp: used_def num_clear test_clear)

lemma card_used_set:
  "bm_ok s \<Longrightarrow> b < bm_num s \<Longrightarrow> \<not> bm_test s b \<Longrightarrow> card (used (bm_set s b)) = card (used s) + 1"
  by (simp add: used_set used_iff)

lemma card_used_clear:
  "bm_ok s \<Longrightarrow> b < bm_num s \<Longrightarrow> bm_test s b \<Longrightarrow> card (used (bm_clear s b)) + 1 = card (used s)"
  by (metis Suc_eq_plus1 card.remove finite_used used_clear used_iff)

lemma clear_set: "bm_ok s \<Longrightarrow> b < bm_num s \<Longrightarrow> \<not> bm_test s b \<Longrightarrow> used (bm_clear (bm_set s b) b) = used s"
  by (simp add: used_clear used_set ok_set num_set used_iff)

end

subsection \<open>The chunked bitmap implements it\<close>

text \<open>
  A well-formed superblock: the bits of a group fit in its bitmap blocks, the chunks cover the
  groups of the volume (as \<^verbatim>\<open>agfs_read_superblock\<close> allocates them), and block numbers fit in the
  signed 32-bit \<^verbatim>\<open>__blk_t\<close>.
\<close>

definition sb_ok :: "agfs_sb \<Rightarrow> bool" where
  "sb_ok sb \<longleftrightarrow>
     0 < s_num_blocks sb \<and> s_num_blocks sb < 2 ^ 31
     \<and> 2 ^ s_ag_shift sb \<le> 8 * (s_blocks_per_ag sb * s_block_size sb)
     \<and> (agfs_group sb (s_num_blocks sb - 1) + 1) * (s_blocks_per_ag sb * s_block_size sb)
         \<le> PAGE_SIZE * length (s_bitmap sb)
     \<and> (\<forall>c\<in>set (s_bitmap sb). length c = PAGE_SIZE)"

abbreviation ag_bytes :: "agfs_sb \<Rightarrow> nat" where
  "ag_bytes sb \<equiv> s_blocks_per_ag sb * s_block_size sb"

lemma group_bit_less: "agfs_group_bit sb b < 2 ^ s_ag_shift sb"
  by (simp add: agfs_group_bit_def take_bit_eq_mod)

lemma block_split: "b = agfs_group sb b * 2 ^ s_ag_shift sb + agfs_group_bit sb b"
  using div_mult_mod_eq [of b "2 ^ s_ag_shift sb"]
  by (simp only: agfs_group_def agfs_group_bit_def drop_bit_eq_div take_bit_eq_mod)

lemma group_mono: "b \<le> c \<Longrightarrow> agfs_group sb b \<le> agfs_group sb c"
  by (simp add: agfs_group_def drop_bit_eq_div div_le_mono)

lemma group_byte_less: "sb_ok sb \<Longrightarrow> agfs_group_bit sb b div 8 < ag_bytes sb"
  using group_bit_less [of sb b] by (simp add: sb_ok_def less_mult_imp_div_less mult.commute)

lemma bitmap_off_eq: "agfs_bitmap_off sb b = agfs_group sb b * ag_bytes sb + agfs_group_bit sb b div 8"
  by (simp add: agfs_bitmap_off_def drop_bit_eq_div)

lemma bitmap_off_less:
  assumes ok: "sb_ok sb" and b: "b < s_num_blocks sb"
  shows "agfs_bitmap_off sb b < PAGE_SIZE * length (s_bitmap sb)"
proof -
  have "agfs_bitmap_off sb b < (agfs_group sb b + 1) * ag_bytes sb"
    using group_byte_less [OF ok, of b] by (simp add: bitmap_off_eq)
  also have "\<dots> \<le> (agfs_group sb (s_num_blocks sb - 1) + 1) * ag_bytes sb"
    using group_mono [of b "s_num_blocks sb - 1" sb] b by (intro mult_le_mono1) simp
  also have "\<dots> \<le> PAGE_SIZE * length (s_bitmap sb)"
    using ok unfolding sb_ok_def by blast
  finally show ?thesis .
qed

lemma bitmap_off_inject:
  assumes ok: "sb_ok sb" and off: "agfs_bitmap_off sb b = agfs_bitmap_off sb c"
    and bit: "agfs_group_bit sb b mod 8 = agfs_group_bit sb c mod 8"
  shows "b = c"
proof -
  note b = group_byte_less [OF ok, of b] and c = group_byte_less [OF ok, of c]
  have g: "agfs_group sb b = agfs_group sb c"
    using off b c unfolding bitmap_off_eq
    by (metis add.right_neutral div_less div_mult_self3 not_less_zero)
  moreover have "agfs_group_bit sb b div 8 = agfs_group_bit sb c div 8"
    using off g by (simp add: bitmap_off_eq)
  then have "agfs_group_bit sb b = agfs_group_bit sb c"
    using bit by (metis mult_div_mod_eq)
  ultimately show ?thesis by (metis block_split)
qed

lemma chunk_bounds:
  assumes "sb_ok sb" "b < s_num_blocks sb"
  shows "agfs_bitmap_off sb b div PAGE_SIZE < length (s_bitmap sb)"
    and "agfs_bitmap_off sb b mod PAGE_SIZE < length (s_bitmap sb ! (agfs_bitmap_off sb b div PAGE_SIZE))"
proof -
  show c: "agfs_bitmap_off sb b div PAGE_SIZE < length (s_bitmap sb)"
    using bitmap_off_less [OF assms] by (simp add: less_mult_imp_div_less mult.commute)
  show "agfs_bitmap_off sb b mod PAGE_SIZE < length (s_bitmap sb ! (agfs_bitmap_off sb b div PAGE_SIZE))"
    using assms(1) nth_mem [OF c] by (simp add: sb_ok_def)
qed

text \<open>Geometry is not changed by an update of the bitmap or of the counters.\<close>

lemma put_fields [simp]:
  "s_num_blocks (agfs_bitmap_put sb b v) = s_num_blocks sb"
  "s_ag_shift (agfs_bitmap_put sb b v) = s_ag_shift sb"
  "s_blocks_per_ag (agfs_bitmap_put sb b v) = s_blocks_per_ag sb"
  "s_block_size (agfs_bitmap_put sb b v) = s_block_size sb"
  "s_next_free (agfs_bitmap_put sb b v) = s_next_free sb"
  "s_used_blocks (agfs_bitmap_put sb b v) = s_used_blocks sb"
  "s_discards (agfs_bitmap_put sb b v) = s_discards sb"
  "s_flags (agfs_bitmap_put sb b v) = s_flags sb"
  "s_dirty (agfs_bitmap_put sb b v) = s_dirty sb"
  by (simp_all add: agfs_bitmap_put_def agfs_bitmap_byte_def)

lemma geometry_put [simp]:
  "agfs_group (agfs_bitmap_put sb b v) = agfs_group sb"
  "agfs_group_bit (agfs_bitmap_put sb b v) = agfs_group_bit sb"
  "agfs_bitmap_off (agfs_bitmap_put sb b v) = agfs_bitmap_off sb"
  by (simp_all add: fun_eq_iff agfs_group_def agfs_group_bit_def agfs_bitmap_off_def)

lemma get_put:
  assumes "sb_ok sb" "b < s_num_blocks sb" "c < s_num_blocks sb"
  shows "agfs_bitmap_get (agfs_bitmap_put sb b v) c =
    (if agfs_bitmap_off sb c = agfs_bitmap_off sb b then v else agfs_bitmap_get sb c)"
proof -
  have eq: "agfs_bitmap_off sb c = agfs_bitmap_off sb b"
    if "agfs_bitmap_off sb c div PAGE_SIZE = agfs_bitmap_off sb b div PAGE_SIZE"
       "agfs_bitmap_off sb c mod PAGE_SIZE = agfs_bitmap_off sb b mod PAGE_SIZE"
    using that by (metis mult_div_mod_eq)
  note cb = chunk_bounds [OF assms(1,2)]
  have bm: "s_bitmap (agfs_bitmap_put sb b v) =
    (s_bitmap sb)[agfs_bitmap_off sb b div PAGE_SIZE :=
       (s_bitmap sb ! (agfs_bitmap_off sb b div PAGE_SIZE))[agfs_bitmap_off sb b mod PAGE_SIZE := v]]"
    by (simp add: agfs_bitmap_put_def agfs_bitmap_byte_def)
  show ?thesis
    using cb eq by (auto simp: agfs_bitmap_get_def agfs_bitmap_byte_def bm nth_list_update)
qed

lemma sb_ok_put:
  assumes ok: "sb_ok sb" and b: "b < s_num_blocks sb"
  shows "sb_ok (agfs_bitmap_put sb b v)"
proof -
  note cb = chunk_bounds [OF assms]
  let ?c = "agfs_bitmap_off sb b div PAGE_SIZE"
  have bm: "s_bitmap (agfs_bitmap_put sb b v) =
    (s_bitmap sb)[?c := (s_bitmap sb ! ?c)[agfs_bitmap_off sb b mod PAGE_SIZE := v]]"
    by (simp add: agfs_bitmap_put_def agfs_bitmap_byte_def)
  have "length (s_bitmap sb ! ?c) = PAGE_SIZE"
    using ok nth_mem [OF cb(1)] by (simp add: sb_ok_def)
  then show ?thesis
    using ok set_update_subset_insert [of "s_bitmap sb" ?c "(s_bitmap sb ! ?c)[agfs_bitmap_off sb b mod PAGE_SIZE := v]"]
    by (auto simp: sb_ok_def bm)
qed

lemma and_push_bit_iff: "(x::byte) AND push_bit n 1 \<noteq> 0 \<longleftrightarrow> n < 8 \<and> bit x n"
proof -
  have "bit (x AND push_bit n 1) m \<longleftrightarrow> m = n \<and> n < 8 \<and> bit x n" for m
    by (auto simp: bit_simps)
  then show ?thesis
    by (metis bit_0_eq bot_apply bot_bool_def bit_word_eqI)
qed

lemma get_same_off: "agfs_bitmap_off sb c = agfs_bitmap_off sb b \<Longrightarrow> agfs_bitmap_get sb c = agfs_bitmap_get sb b"
  by (simp add: agfs_bitmap_get_def agfs_bitmap_byte_def)

lemma bitmap_test_iff: "agfs_bitmap_test sb b \<longleftrightarrow> bit (agfs_bitmap_get sb b) (agfs_group_bit sb b mod 8)"
  by (simp only: agfs_bitmap_test_def and_push_bit_iff) simp

lemma bitmap_test_set:
  assumes "sb_ok sb" "b < s_num_blocks sb" "c < s_num_blocks sb"
  shows "agfs_bitmap_test (agfs_bitmap_set sb b) c \<longleftrightarrow> c = b \<or> agfs_bitmap_test sb c"
  using bitmap_off_inject [OF assms(1), of c b] get_same_off [of sb c b]
  by (auto simp: bitmap_test_iff agfs_bitmap_set_def get_put [OF assms] bit_simps)

lemma bitmap_test_clear:
  assumes "sb_ok sb" "b < s_num_blocks sb" "c < s_num_blocks sb"
  shows "agfs_bitmap_test (agfs_bitmap_clear sb b) c \<longleftrightarrow> c \<noteq> b \<and> agfs_bitmap_test sb c"
  using bitmap_off_inject [OF assms(1), of c b] get_same_off [of sb c b]
  by (auto simp: bitmap_test_iff agfs_bitmap_clear_def get_put [OF assms] bit_simps)

lemma set_clear_fields [simp]:
  "s_num_blocks (agfs_bitmap_set sb b) = s_num_blocks sb" "s_num_blocks (agfs_bitmap_clear sb b) = s_num_blocks sb"
  "s_ag_shift (agfs_bitmap_set sb b) = s_ag_shift sb" "s_ag_shift (agfs_bitmap_clear sb b) = s_ag_shift sb"
  "s_next_free (agfs_bitmap_set sb b) = s_next_free sb" "s_next_free (agfs_bitmap_clear sb b) = s_next_free sb"
  "s_used_blocks (agfs_bitmap_set sb b) = s_used_blocks sb" "s_used_blocks (agfs_bitmap_clear sb b) = s_used_blocks sb"
  "s_discards (agfs_bitmap_set sb b) = s_discards sb" "s_discards (agfs_bitmap_clear sb b) = s_discards sb"
  by (simp_all add: agfs_bitmap_set_def agfs_bitmap_clear_def)

interpretation bm: bitmap sb_ok s_num_blocks agfs_bitmap_test agfs_bitmap_set agfs_bitmap_clear
  by unfold_locales
     (simp_all add: bitmap_test_set bitmap_test_clear,
      simp_all add: agfs_bitmap_set_def agfs_bitmap_clear_def sb_ok_put)

text \<open>The blocks in use, and their independence of the counters of the superblock.\<close>

abbreviation used_set :: "agfs_sb \<Rightarrow> nat set" where
  "used_set \<equiv> bm.used"

lemma geometry_fields [simp]:
  "agfs_group (sb\<lparr>s_used_blocks := u\<rparr>) = agfs_group sb" "agfs_group (sb\<lparr>s_next_free := n\<rparr>) = agfs_group sb"
  "agfs_group (sb\<lparr>s_dirty := d\<rparr>) = agfs_group sb" "agfs_group (sb\<lparr>s_discards := ds\<rparr>) = agfs_group sb"
  "agfs_group (sb\<lparr>s_flags := fl\<rparr>) = agfs_group sb"
  "agfs_bitmap_test (sb\<lparr>s_used_blocks := u\<rparr>) = agfs_bitmap_test sb"
  "agfs_bitmap_test (sb\<lparr>s_next_free := n\<rparr>) = agfs_bitmap_test sb"
  "agfs_bitmap_test (sb\<lparr>s_dirty := d\<rparr>) = agfs_bitmap_test sb"
  "agfs_bitmap_test (sb\<lparr>s_discards := ds\<rparr>) = agfs_bitmap_test sb"
  "agfs_bitmap_test (sb\<lparr>s_flags := fl\<rparr>) = agfs_bitmap_test sb"
  by (simp_all add: fun_eq_iff agfs_group_def agfs_bitmap_test_def agfs_bitmap_get_def agfs_bitmap_byte_def
      agfs_bitmap_off_def agfs_group_bit_def)

lemma sb_ok_fields [simp]:
  "sb_ok (sb\<lparr>s_used_blocks := u\<rparr>) = sb_ok sb" "sb_ok (sb\<lparr>s_next_free := n\<rparr>) = sb_ok sb"
  "sb_ok (sb\<lparr>s_dirty := d\<rparr>) = sb_ok sb" "sb_ok (sb\<lparr>s_discards := ds\<rparr>) = sb_ok sb"
  "sb_ok (sb\<lparr>s_flags := fl\<rparr>) = sb_ok sb"
  by (simp_all add: sb_ok_def)

lemma used_set_fields [simp]:
  "used_set (sb\<lparr>s_used_blocks := u\<rparr>) = used_set sb" "used_set (sb\<lparr>s_next_free := n\<rparr>) = used_set sb"
  "used_set (sb\<lparr>s_dirty := d\<rparr>) = used_set sb" "used_set (sb\<lparr>s_discards := ds\<rparr>) = used_set sb"
  "used_set (sb\<lparr>s_flags := fl\<rparr>) = used_set sb"
  by (simp_all add: bm.used_def)

subsection \<open>The allocator as a first-fit allocator\<close>

text \<open>
  The specification: a volume is its number of blocks \<open>n\<close> and the set \<open>U\<close> of its used blocks. A
  block is allocated first-fit; a run starts at the first free block and goes on while the blocks
  are free and inside the allocation group of the first.
\<close>

definition first_free :: "nat \<Rightarrow> nat set \<Rightarrow> nat option" where
  "first_free n U = find (\<lambda>b. b \<notin> U) [0..<n]"

definition spec_balloc :: "nat \<Rightarrow> nat set \<Rightarrow> nat set \<times> nat result" where
  "spec_balloc n U = (case first_free n U of None \<Rightarrow> (U, Inl ENOSPC) | Some b \<Rightarrow> (insert b U, Inr b))"

definition free_run_at :: "nat \<Rightarrow> nat \<Rightarrow> nat set \<Rightarrow> nat \<Rightarrow> nat \<Rightarrow> nat list" where
  "free_run_at n sh U want b = takeWhile (\<lambda>c. c \<notin> U \<and> (c = b \<or> c mod 2 ^ sh \<noteq> 0)) (take want [b..<n])"

definition spec_contig :: "nat \<Rightarrow> nat \<Rightarrow> nat set \<Rightarrow> nat \<Rightarrow> nat set \<times> (nat \<times> nat) result" where
  "spec_contig n sh U want =
     (case first_free n U of
        None \<Rightarrow> (U, Inl ENOSPC)
      | Some b \<Rightarrow> (U \<union> set (free_run_at n sh U want b), Inr (b, length (free_run_at n sh U want b))))"

lemma first_free_eqI: "b < n \<Longrightarrow> b \<notin> U \<Longrightarrow> (\<And>c. c < b \<Longrightarrow> c \<in> U) \<Longrightarrow> first_free n U = Some b"
  unfolding first_free_def find_Some_iff by (intro exI [of _ b]) auto

lemma first_free_None: "first_free n U = None \<longleftrightarrow> {0..<n} \<subseteq> U"
  by (auto simp: first_free_def find_None_iff)

text \<open>
  The invariant of a mounted volume: the counter is the number of used blocks, every block below
  the hint is used, and the pending discards are extents of the volume.
\<close>

definition sb_inv :: "agfs_sb \<Rightarrow> bool" where
  "sb_inv sb \<longleftrightarrow>
     sb_ok sb \<and> s_used_blocks sb = of_nat (card (used_set sb))
     \<and> (\<forall>b < min (s_next_free sb) (s_num_blocks sb). b \<in> used_set sb)
     \<and> length (s_discards sb) \<le> AGFS_NR_PENDING_DISCARD
     \<and> (\<forall>(a, c)\<in>set (s_discards sb). 0 < c \<and> a + c \<le> s_num_blocks sb)"

text \<open>
  The two searches are the same function of the hint: they visit the blocks \<open>(h + i) mod n\<close> in
  turn, and return the first that is free.
\<close>

lemma scan_find:
  fixes nx :: "nat \<Rightarrow> nat"
  assumes eq: "\<And>b. f b = (if \<not> t b then Some (Some b) else if nx b \<noteq> h then f (nx b) else Some None)"
    and nx: "\<And>b. nx b = (if b + 1 \<ge> n then 0 else b + 1)"
    and h: "h < n" and i: "i < n"
  shows "f ((h + i) mod n) = Some (map_option (\<lambda>j. (h + j) mod n) (find (\<lambda>j. \<not> t ((h + j) mod n)) [i..<n]))"
  using i
proof (induction "n - i" arbitrary: i rule: less_induct)
  case less
  have lt: "(h + i) mod n < n" using h by simp
  have step: "nx ((h + i) mod n) = (h + (i + 1)) mod n"
    using lt mod_Suc [of "h + i" n] by (auto simp: nx)
  have stop: "(h + (i + 1)) mod n = h \<longleftrightarrow> i + 1 = n"
  proof (cases "h + (i + 1) < n")
    case False
    then have "(h + (i + 1)) mod n = h + (i + 1) - n" using h less.prems by (simp add: mod_if)
    then show ?thesis using False h less.prems by linarith
  qed (use less.prems in simp)
  have up: "[i..<n] = i # [i + 1..<n]" using less.prems by (simp add: upt_conv_Cons)
  show ?case
  proof (cases "t ((h + i) mod n) \<and> i + 1 < n")
    case True
    then have IH: "f ((h + (i + 1)) mod n) =
        Some (map_option (\<lambda>j. (h + j) mod n) (find (\<lambda>j. \<not> t ((h + j) mod n)) [i + 1..<n]))"
      by (intro less.hyps) auto
    then show ?thesis
      using True eq [of "(h + i) mod n"] stop step unfolding up by simp
  next
    case False
    then show ?thesis
      using eq [of "(h + i) mod n"] less.prems stop step by (auto simp: up)
  qed
qed

lemma scan_first_free:
  fixes nx :: "nat \<Rightarrow> nat"
  assumes "\<And>b. f b = (if \<not> t b then Some (Some b) else if nx b \<noteq> h then f (nx b) else Some None)"
    and "\<And>b. nx b = (if b + 1 \<ge> n then 0 else b + 1)"
    and h: "h < n" and below: "\<And>b. b < h \<Longrightarrow> t b"
  shows "f h = Some (first_free n {b. b < n \<and> t b})"
proof -
  have f: "f h = Some (map_option (\<lambda>j. (h + j) mod n) (find (\<lambda>j. \<not> t ((h + j) mod n)) [0..<n]))"
    using scan_find [OF assms(1,2) h, of 0] h by simp
  show ?thesis
  proof (cases "find (\<lambda>j. \<not> t ((h + j) mod n)) [0..<n]")
    case None
    then have all: "t ((h + j) mod n)" if "j < n" for j
      using that by (auto simp: find_None_iff)
    have "t b" if "b < n" for b
      using below [of b] all [of "b - h"] that by (cases "b < h") auto
    then have "first_free n {b. b < n \<and> t b} = None" by (simp add: first_free_None subset_eq)
    then show ?thesis using f None by simp
  next
    case (Some j)
    then have j: "j < n" "\<not> t ((h + j) mod n)" "\<And>k. k < j \<Longrightarrow> t ((h + k) mod n)"
      by (auto simp: find_Some_iff)
    have hj: "h + j < n"
    proof (rule ccontr)
      assume n: "\<not> h + j < n"
      then have "(h + j) mod n = h + j - n" using h j(1) by (simp add: mod_if)
      moreover have "h + j - n < h" using n j(1) by linarith
      ultimately show False using below [of "(h + j) mod n"] j(2) by simp
    qed
    have "t c" if "c < h + j" for c
      using below [of c] j(3) [of "c - h"] that hj by (cases "c < h") auto
    then have "first_free n {b. b < n \<and> t b} = Some (h + j)"
      using hj j(2) by (intro first_free_eqI) auto
    then show ?thesis using f Some hj by simp
  qed
qed

lemma alloc_hint_less: "sb_ok sb \<Longrightarrow> alloc_hint sb < s_num_blocks sb"
  by (simp add: alloc_hint_def sb_ok_def)

lemma below_alloc_hint: "sb_inv sb \<Longrightarrow> b < alloc_hint sb \<Longrightarrow> agfs_bitmap_test sb b"
  by (auto simp: sb_inv_def alloc_hint_def bm.used_def split: if_splits)

lemma sb_inv_ok [simp]: "sb_inv sb \<Longrightarrow> sb_ok sb"
  by (simp add: sb_inv_def)

lemma scans_first_free:
  assumes inv: "sb_inv sb"
  shows "balloc_scan sb (alloc_hint sb) (alloc_hint sb) = Some (first_free (s_num_blocks sb) (used_set sb))"
    and "contig_scan sb (alloc_hint sb) (alloc_hint sb) = Some (first_free (s_num_blocks sb) (used_set sb))"
  unfolding bm.used_def
  using inv below_alloc_hint [OF inv] balloc_scan.simps [of sb "alloc_hint sb"] contig_scan.simps [of sb "alloc_hint sb"]
  by (intro scan_first_free [where nx = "next_block sb"]; simp add: alloc_hint_less next_block_def)+

lemma first_free_Some:
  assumes "first_free n U = Some b"
  shows "b < n" "b \<notin> U" "\<And>c. c < b \<Longrightarrow> c \<in> U"
  using assms by (auto simp: first_free_def find_Some_iff)

lemma balloc_refines:
  assumes inv: "sb_inv sb"
  shows "\<exists>sb' r. agfs_balloc sb = Some (sb', r) \<and> sb_inv sb' \<and> s_num_blocks sb' = s_num_blocks sb
           \<and> s_ag_shift sb' = s_ag_shift sb \<and> (used_set sb', r) = spec_balloc (s_num_blocks sb) (used_set sb)"
proof (cases "first_free (s_num_blocks sb) (used_set sb)")
  case None
  then show ?thesis using inv by (simp add: agfs_balloc_def scans_first_free spec_balloc_def)
next
  case (Some b)
  note b = first_free_Some [OF Some]
  have U: "used_set (agfs_bitmap_set sb b) = insert b (used_set sb)"
    using inv b(1) by (simp add: bm.used_set)
  have "sb_inv ((agfs_bitmap_set sb b)\<lparr>s_used_blocks := s_used_blocks sb + 1, s_next_free := b + 1, s_dirty := True\<rparr>)"
    using inv b by (auto simp: sb_inv_def U bm.ok_set less_Suc_eq add.commute)
  then show ?thesis
    using inv Some by (simp add: agfs_balloc_def scans_first_free spec_balloc_def U)
qed

lemma contig_take_run:
  assumes "sb_ok sb" "first + got \<le> s_num_blocks sb"
  shows "\<exists>sb' run. contig_take sb first want got = (sb', got + length run)
     \<and> run = takeWhile (\<lambda>c. c \<notin> used_set sb \<and> (c = first \<or> c mod 2 ^ s_ag_shift sb \<noteq> 0))
                (take (want - got) [first + got..<s_num_blocks sb])
     \<and> sb_ok sb' \<and> used_set sb' = used_set sb \<union> set run
     \<and> s_num_blocks sb' = s_num_blocks sb \<and> s_ag_shift sb' = s_ag_shift sb \<and> s_discards sb' = s_discards sb"
  using assms
proof (induction sb first want got rule: contig_take.induct)
  case (1 sb first want got)
  let ?b = "first + got"
  let ?n = "s_num_blocks sb"
  have ss: "take_bit (s_ag_shift sb) ?b = ?b mod 2 ^ s_ag_shift sb" by (simp add: take_bit_eq_mod)
  show ?case
  proof (cases "got < want \<and> ?b < ?n \<and> \<not> (?b > first \<and> ?b mod 2 ^ s_ag_shift sb = 0) \<and> \<not> agfs_bitmap_test sb ?b")
    case False
    then have "takeWhile (\<lambda>c. c \<notin> used_set sb \<and> (c = first \<or> c mod 2 ^ s_ag_shift sb \<noteq> 0))
                (take (want - got) [?b..<?n]) = []"
      by (cases "got < want \<and> ?b < ?n")
         (auto simp: upt_conv_Cons bm.used_iff take_Cons' dest!: gr0_implies_Suc)
    moreover have "contig_take sb first want got = (sb, got)"
      using False by (subst contig_take.simps) (auto simp: Let_def ss)
    ultimately show ?thesis using 1(2) by simp
  next
    case True
    let ?sb = "agfs_bitmap_set sb ?b"
    have U: "used_set ?sb = insert ?b (used_set sb)" and ok: "sb_ok ?sb"
      using True 1(2) by (simp_all add: bm.used_set bm.ok_set)
    have IH: "\<exists>sb' run. contig_take ?sb first want (got + 1) = (sb', got + 1 + length run)
       \<and> run = takeWhile (\<lambda>c. c \<notin> used_set ?sb \<and> (c = first \<or> c mod 2 ^ s_ag_shift sb \<noteq> 0))
                  (take (want - (got + 1)) [first + (got + 1)..<?n])
       \<and> sb_ok sb' \<and> used_set sb' = used_set ?sb \<union> set run
       \<and> s_num_blocks sb' = ?n \<and> s_ag_shift sb' = s_ag_shift sb \<and> s_discards sb' = s_discards sb"
      using "1.IH" [of ?b] True ok by (simp add: ss)
    have tw: "takeWhile (\<lambda>c. c \<notin> used_set ?sb \<and> (c = first \<or> c mod 2 ^ s_ag_shift sb \<noteq> 0))
                  (take (want - (got + 1)) [?b + 1..<?n])
       = takeWhile (\<lambda>c. c \<notin> used_set sb \<and> (c = first \<or> c mod 2 ^ s_ag_shift sb \<noteq> 0))
                  (take (want - (got + 1)) [?b + 1..<?n])"
      by (rule takeWhile_cong) (auto simp: U dest!: in_set_takeD)
    have here: "takeWhile (\<lambda>c. c \<notin> used_set sb \<and> (c = first \<or> c mod 2 ^ s_ag_shift sb \<noteq> 0))
                  (take (want - got) [?b..<?n])
       = ?b # takeWhile (\<lambda>c. c \<notin> used_set sb \<and> (c = first \<or> c mod 2 ^ s_ag_shift sb \<noteq> 0))
                  (take (want - (got + 1)) [?b + 1..<?n])"
    proof -
      have "take (want - got) [?b..<?n] = ?b # take (want - (got + 1)) [?b + 1..<?n]"
        using True by (simp add: upt_conv_Cons take_Cons' Suc_diff_Suc)
      then show ?thesis using True by (simp add: bm.used_iff)
    qed
    have "contig_take sb first want got = contig_take ?sb first want (got + 1)"
      using True by (subst contig_take.simps) (auto simp: Let_def ss)
    then show ?thesis
      using IH tw here by (auto simp: U)
  qed
qed

lemma takeWhile_take_upt:
  "\<exists>k. takeWhile P (take want [a..<n]) = [a..<a + k] \<and> k \<le> want \<and> (a \<le> n \<longrightarrow> a + k \<le> n)"
proof -
  let ?k = "length (takeWhile P (take want [a..<n]))"
  have len: "?k \<le> length (take want [a..<n])" by (rule length_takeWhile_le)
  have "takeWhile P (take want [a..<n]) = take ?k [a..<n]"
    by (metis takeWhile_eq_take length_take min.absorb_iff1 min_def take_take len min.bounded_iff)
  also have "\<dots> = [a..<a + ?k]"
  proof (cases "a \<le> n")
    case True
    then have "a + ?k \<le> n" using len by auto
    then show ?thesis by (rule take_upt)
  qed simp
  finally show ?thesis using len by (intro exI [of _ ?k]) auto
qed

lemma free_run_at_upt:
  assumes "b < n"
  shows "free_run_at n sh U want b = [b..<b + length (free_run_at n sh U want b)]"
    and "b + length (free_run_at n sh U want b) \<le> n"
    and "length (free_run_at n sh U want b) \<le> want"
proof -
  obtain k where "free_run_at n sh U want b = [b..<b + k]" "k \<le> want" "b + k \<le> n"
    unfolding free_run_at_def using takeWhile_take_upt assms by (metis less_imp_le)
  then show "free_run_at n sh U want b = [b..<b + length (free_run_at n sh U want b)]"
    "b + length (free_run_at n sh U want b) \<le> n" "length (free_run_at n sh U want b) \<le> want"
    by simp_all
qed

lemma free_run_at_free: "c \<in> set (free_run_at n sh U want b) \<Longrightarrow> c \<notin> U"
  by (auto simp: free_run_at_def dest!: set_takeWhileD)

lemma contig_refines:
  assumes inv: "sb_inv sb"
  shows "\<exists>sb' r. agfs_balloc_contig sb want = Some (sb', r) \<and> sb_inv sb' \<and> s_num_blocks sb' = s_num_blocks sb
           \<and> s_ag_shift sb' = s_ag_shift sb
           \<and> (used_set sb', r) = spec_contig (s_num_blocks sb) (s_ag_shift sb) (used_set sb) want"
proof (cases "first_free (s_num_blocks sb) (used_set sb)")
  case None
  then show ?thesis using inv by (simp add: agfs_balloc_contig_def scans_first_free spec_contig_def)
next
  case (Some b)
  note b = first_free_Some [OF Some]
  let ?n = "s_num_blocks sb"
  let ?run = "free_run_at ?n (s_ag_shift sb) (used_set sb) want b"
  let ?g = "length ?run"
  note run = free_run_at_upt [OF b(1), of "s_ag_shift sb" "used_set sb" want]
  have set_run: "set ?run = {b..<b + ?g}" by (subst run(1)) simp
  obtain sb1 where take: "contig_take sb b want 0 = (sb1, ?g)" and ok: "sb_ok sb1"
    and U: "used_set sb1 = used_set sb \<union> set ?run" and n: "s_num_blocks sb1 = ?n"
    and sh: "s_ag_shift sb1 = s_ag_shift sb" and ds: "s_discards sb1 = s_discards sb"
    using contig_take_run [of sb b 0 want] inv b(1) by (auto simp: free_run_at_def)
  let ?sb = "sb1\<lparr>s_used_blocks := s_used_blocks sb + of_nat ?g,
               s_next_free := (if b + ?g \<ge> ?n then 0 else b + ?g), s_dirty := True\<rparr>"
  have "card (used_set sb \<union> set ?run) = card (used_set sb) + ?g"
  proof -
    have "used_set sb \<inter> set ?run = {}" by (auto dest: free_run_at_free)
    then have "card (used_set sb \<union> set ?run) = card (used_set sb) + card (set ?run)"
      by (rule card_Un_disjoint [OF bm.finite_used List.finite_set])
    then show ?thesis by (simp only: set_run card_atLeastLessThan add_diff_cancel_left')
  qed
  then have cnt: "s_used_blocks sb + of_nat ?g = of_nat (card (used_set sb1))"
    using inv by (simp add: U sb_inv_def)
  have hint: "c \<in> used_set sb1" if "c < b + ?g" for c
    using that b(3) [of c] by (cases "c < b") (auto simp: U set_run)
  have "sb_inv ?sb"
    using inv ok ds n cnt hint by (auto simp: sb_inv_def)
  then show ?thesis
    using inv Some take n sh U by (simp add: agfs_balloc_contig_def scans_first_free spec_contig_def)
qed

lemma specific_refines:
  assumes inv: "sb_inv sb"
  shows "case agfs_balloc_specific sb b of (sb', r) \<Rightarrow>
     sb_inv sb' \<and> s_num_blocks sb' = s_num_blocks sb \<and> s_ag_shift sb' = s_ag_shift sb
     \<and> r = (if b \<ge> s_num_blocks sb then Some EINVAL else if b \<in> used_set sb then Some EEXIST else None)
     \<and> used_set sb' = (if r = None then insert b (used_set sb) else used_set sb)"
proof (cases "b < s_num_blocks sb \<and> \<not> agfs_bitmap_test sb b")
  case True
  have U: "used_set (agfs_bitmap_set sb b) = insert b (used_set sb)"
    using inv True by (simp add: bm.used_set)
  have "b \<notin> used_set sb" using True by (simp add: bm.used_iff)
  then have "sb_inv ((agfs_bitmap_set sb b)\<lparr>s_used_blocks := s_used_blocks sb + 1, s_dirty := True\<rparr>)"
    using inv True by (auto simp: sb_inv_def U bm.ok_set add.commute)
  then show ?thesis
    using True U \<open>b \<notin> used_set sb\<close> by (simp add: agfs_balloc_specific_def)
next
  case False
  then show ?thesis using inv by (auto simp: agfs_balloc_specific_def bm.used_iff)
qed

lemma discard_add_ok:
  assumes "length ds \<le> 256" "\<forall>(a, c)\<in>set ds. 0 < c \<and> a + c \<le> n" "b < n"
  shows "length (agfs_discard_add ds b) \<le> 256 \<and> (\<forall>(a, c)\<in>set (agfs_discard_add ds b). 0 < c \<and> a + c \<le> n)"
  using assms by (cases ds rule: rev_cases) (auto simp: agfs_discard_add_def)

lemma bfree_refines:
  assumes inv: "sb_inv sb"
  shows "sb_inv (agfs_bfree sb b) \<and> s_num_blocks (agfs_bfree sb b) = s_num_blocks sb
     \<and> s_ag_shift (agfs_bfree sb b) = s_ag_shift sb
     \<and> used_set (agfs_bfree sb b) = used_set sb - {b}"
proof (cases "b < s_num_blocks sb \<and> agfs_bitmap_test sb b")
  case True
  have U: "used_set (agfs_bitmap_clear sb b) = used_set sb - {b}"
    using inv True by (simp add: bm.used_clear)
  have b: "b \<in> used_set sb" using True by (simp add: bm.used_iff)
  then have pos: "card (used_set sb) = Suc (card (used_set sb - {b}))"
    by (intro card.remove) simp_all
  have cnt: "s_used_blocks sb - 1 = of_nat (card (used_set sb - {b}))"
    using inv unfolding sb_inv_def pos by simp
  have "sb_inv (agfs_bfree sb b)"
    using inv True discard_add_ok [of "s_discards sb" "s_num_blocks sb" b] cnt
    by (auto simp: agfs_bfree_def sb_inv_def U bm.ok_clear)
  then show ?thesis using True U by (simp add: agfs_bfree_def)
next
  case False
  then show ?thesis using inv by (auto simp: agfs_bfree_def bm.used_iff)
qed

text \<open>Pending and discarded extents as sets of blocks.\<close>

definition extent_blocks :: "(nat \<times> nat) list \<Rightarrow> nat set" where
  "extent_blocks es = (\<Union>(a, c)\<in>set es. {a..<a + c})"

lemma extent_blocks_simps [simp]:
  "extent_blocks [] = {}" "extent_blocks ((a, c) # es) = {a..<a + c} \<union> extent_blocks es"
  "extent_blocks (es @ fs) = extent_blocks es \<union> extent_blocks fs"
  by (auto simp: extent_blocks_def)

lemma free_run_spec:
  assumes "b + run \<le> stop" "\<And>c. b \<le> c \<Longrightarrow> c < b + run \<Longrightarrow> \<not> agfs_bitmap_test sb c"
  shows "run \<le> free_run sb b stop run \<and> b + free_run sb b stop run \<le> stop
     \<and> (\<forall>c. b \<le> c \<and> c < b + free_run sb b stop run \<longrightarrow> \<not> agfs_bitmap_test sb c)
     \<and> (b + free_run sb b stop run < stop \<longrightarrow> agfs_bitmap_test sb (b + free_run sb b stop run))"
  using assms
proof (induction sb b stop run rule: free_run.induct)
  case (1 sb b stop run)
  show ?case
  proof (cases "b + run < stop \<and> \<not> agfs_bitmap_test sb (b + run)")
    case True
    then have eq: "free_run sb b stop run = free_run sb b stop (run + 1)"
      by (subst free_run.simps) simp
    have "\<not> agfs_bitmap_test sb c" if "b \<le> c" "c < b + (run + 1)" for c
      using that True 1(3) [of c] by (cases "c = b + run") auto
    then show ?thesis unfolding eq using 1(1) [OF True] True by auto
  next
    case False
    then have "free_run sb b stop run = run" by (subst free_run.simps) (simp only: if_False)
    then show ?thesis using 1(2,3) False by auto
  qed
qed

lemma discard_extent_blocks:
  "extent_blocks (discard_extent sb b stop) = {c. b \<le> c \<and> c < stop \<and> \<not> agfs_bitmap_test sb c}
   \<and> (\<forall>(a, c)\<in>set (discard_extent sb b stop). 0 < c)"
proof (induction sb b stop rule: discard_extent.induct)
  case (1 sb b stop)
  show ?case
  proof (cases "b < stop")
    case False
    then show ?thesis by (subst (1 2) discard_extent.simps) auto
  next
    case True
    let ?r = "free_run sb b stop 0"
    note fr = free_run_spec [of b 0 stop sb]
    show ?thesis
    proof (cases "?r = 0")
      case z: True
      then have "discard_extent sb b stop = discard_extent sb (b + 1) stop"
        using True by (subst discard_extent.simps) simp
      moreover have t: "agfs_bitmap_test sb b" using z True fr by simp
      moreover have "{c. b \<le> c \<and> c < stop \<and> \<not> agfs_bitmap_test sb c}
          = {c. b + 1 \<le> c \<and> c < stop \<and> \<not> agfs_bitmap_test sb c}"
        using t by (auto simp: Suc_le_eq order.strict_iff_order)
      ultimately show ?thesis using 1(2) [OF True refl] z by simp
    next
      case nz: False
      then have eq: "discard_extent sb b stop = (b, ?r) # discard_extent sb (b + ?r) stop"
        using True by (subst discard_extent.simps) (simp add: Let_def)
      have free: "\<forall>c. b \<le> c \<and> c < b + ?r \<longrightarrow> \<not> agfs_bitmap_test sb c" "b + ?r \<le> stop"
        using fr True by auto
      have "{c. b \<le> c \<and> c < stop \<and> \<not> agfs_bitmap_test sb c}
          = {b..<b + ?r} \<union> {c. b + ?r \<le> c \<and> c < stop \<and> \<not> agfs_bitmap_test sb c}"
        using free by auto
      then show ?thesis
        unfolding eq using 1(1) [OF True refl] nz by auto
    qed
  qed
qed

lemma flush_discards_blocks:
  assumes inv: "sb_inv sb" and fl: "agfs_flush_discards dev sb = (sb', ds)"
  shows "sb_inv sb'" "used_set sb' = used_set sb" "s_num_blocks sb' = s_num_blocks sb" "s_ag_shift sb' = s_ag_shift sb"
    "extent_blocks ds = (if dev = Discard then extent_blocks (s_discards sb) - used_set sb else {})"
    "extent_blocks ds \<subseteq> {0..<s_num_blocks sb}"
    "dev \<noteq> NoDevice \<Longrightarrow> s_discards sb' = []"
proof -
  have in_vol: "extent_blocks (s_discards sb) \<subseteq> {0..<s_num_blocks sb}"
    using inv by (fastforce simp: sb_inv_def extent_blocks_def)
  have all: "extent_blocks (concat (map (\<lambda>(start, count). discard_extent sb start (start + count)) es))
      = extent_blocks es - used_set sb"
    if "extent_blocks es \<subseteq> {0..<s_num_blocks sb}" for es
    using that
  proof (induction es)
    case (Cons e es)
    obtain a c where e: "e = (a, c)" by fastforce
    have "{d. a \<le> d \<and> d < a + c \<and> \<not> agfs_bitmap_test sb d} = {a..<a + c} - used_set sb"
      using Cons.prems by (auto simp: e bm.used_iff)
    then show ?case using Cons discard_extent_blocks [of sb a "a + c"] by (auto simp: e)
  qed simp
  show 5: "extent_blocks ds = (if dev = Discard then extent_blocks (s_discards sb) - used_set sb else {})"
    using fl all [OF in_vol] by (cases dev; cases "s_discards sb = []") (auto simp: agfs_flush_discards_def)
  then show "extent_blocks ds \<subseteq> {0..<s_num_blocks sb}" using in_vol by auto
  have sb': "sb' = sb \<or> sb' = sb\<lparr>s_discards := []\<rparr>"
    using fl by (cases dev) (auto simp: agfs_flush_discards_def split: if_splits)
  then show "sb_inv sb'" "used_set sb' = used_set sb" "s_num_blocks sb' = s_num_blocks sb" "s_ag_shift sb' = s_ag_shift sb"
    using inv by (auto simp: sb_inv_def)
  show "dev \<noteq> NoDevice \<Longrightarrow> s_discards sb' = []"
    using fl by (cases dev) (auto simp: agfs_flush_discards_def split: if_splits)
qed

subsection \<open>The counter at mount time\<close>

lemma fold_count:
  "fold (\<lambda>b c. if P b then c + 1 else c) xs (k::'a::len word) = k + of_nat (length (filter P xs))"
  by (induction xs arbitrary: k) (auto simp: algebra_simps)

lemma card_used_filter: "card (used_set sb) = length (filter (agfs_bitmap_test sb) [0..<s_num_blocks sb])"
proof -
  have "used_set sb = set (filter (agfs_bitmap_test sb) [0..<s_num_blocks sb])"
    by (auto simp: bm.used_iff)
  then show ?thesis by (simp only: distinct_card distinct_filter distinct_upt)
qed

lemma ucast_count_used:
  assumes "sb_ok sb"
  shows "(ucast (count_used sb) :: u64) = of_nat (card (used_set sb))"
proof -
  have lt: "card (used_set sb) < 2 ^ 31"
    using bm.card_used_le [of sb] assms by (simp add: sb_ok_def)
  have "count_used sb = of_nat (card (used_set sb))"
    by (simp only: count_used_def fold_count card_used_filter) simp
  then have "unat (count_used sb) = card (used_set sb)" using lt by (simp add: unat_of_nat)
  then show ?thesis by (metis of_nat_unat)
qed

subsection \<open>Sequences of operations\<close>

datatype alloc_op = Balloc | BallocSpecific nat | BallocContig nat | Bfree nat | FlushDiscards discard_dev

datatype alloc_out = Block "nat result" | Blocks "(nat \<times> nat) result" | Status status | Void

definition alloc_exec :: "alloc_op \<Rightarrow> agfs_sb \<Rightarrow> (agfs_sb \<times> alloc_out) option" where
  "alloc_exec oper sb =
     (case oper of
        Balloc \<Rightarrow> map_option (\<lambda>(sb', r). (sb', Block r)) (agfs_balloc sb)
      | BallocSpecific b \<Rightarrow> (case agfs_balloc_specific sb b of (sb', r) \<Rightarrow> Some (sb', Status r))
      | BallocContig want \<Rightarrow> map_option (\<lambda>(sb', r). (sb', Blocks r)) (agfs_balloc_contig sb want)
      | Bfree b \<Rightarrow> Some (agfs_bfree sb b, Void)
      | FlushDiscards dev \<Rightarrow> Some (fst (agfs_flush_discards dev sb), Void))"

fun alloc_run :: "alloc_op list \<Rightarrow> agfs_sb \<Rightarrow> (agfs_sb \<times> alloc_out list) option" where
  "alloc_run [] sb = Some (sb, [])"
| "alloc_run (oper # opers) sb =
     (case alloc_exec oper sb of
        None \<Rightarrow> None
      | Some (sb1, r) \<Rightarrow> map_option (\<lambda>(sb2, rs). (sb2, r # rs)) (alloc_run opers sb1))"

text \<open>The same operations on the set of the used blocks.\<close>

definition spec_exec :: "nat \<Rightarrow> nat \<Rightarrow> alloc_op \<Rightarrow> nat set \<Rightarrow> nat set \<times> alloc_out" where
  "spec_exec n sh oper U =
     (case oper of
        Balloc \<Rightarrow> (case spec_balloc n U of (U', r) \<Rightarrow> (U', Block r))
      | BallocSpecific b \<Rightarrow>
          (if b \<ge> n then (U, Status (Some EINVAL)) else if b \<in> U then (U, Status (Some EEXIST))
           else (insert b U, Status None))
      | BallocContig want \<Rightarrow> (case spec_contig n sh U want of (U', r) \<Rightarrow> (U', Blocks r))
      | Bfree b \<Rightarrow> (U - {b}, Void)
      | FlushDiscards dev \<Rightarrow> (U, Void))"

fun spec_run :: "nat \<Rightarrow> nat \<Rightarrow> alloc_op list \<Rightarrow> nat set \<Rightarrow> nat set \<times> alloc_out list" where
  "spec_run n sh [] U = (U, [])"
| "spec_run n sh (oper # opers) U =
     (case spec_exec n sh oper U of (U1, r) \<Rightarrow> (case spec_run n sh opers U1 of (U2, rs) \<Rightarrow> (U2, r # rs)))"

lemma alloc_exec_refines:
  assumes inv: "sb_inv sb"
  shows "\<exists>sb' r. alloc_exec oper sb = Some (sb', r) \<and> sb_inv sb' \<and> s_num_blocks sb' = s_num_blocks sb
     \<and> s_ag_shift sb' = s_ag_shift sb
     \<and> spec_exec (s_num_blocks sb) (s_ag_shift sb) oper (used_set sb) = (used_set sb', r)"
proof (cases oper)
  case Balloc
  then show ?thesis using balloc_refines [OF inv] by (fastforce simp: alloc_exec_def spec_exec_def split: prod.splits)
next
  case (BallocSpecific b)
  then show ?thesis
    using specific_refines [OF inv, of b] by (auto simp: alloc_exec_def spec_exec_def split: prod.splits)
next
  case (BallocContig want)
  then show ?thesis
    using contig_refines [OF inv, of want] by (fastforce simp: alloc_exec_def spec_exec_def split: prod.splits)
next
  case (Bfree b)
  then show ?thesis using bfree_refines [OF inv, of b] by (simp add: alloc_exec_def spec_exec_def)
next
  case (FlushDiscards dev)
  obtain sb' ds where "agfs_flush_discards dev sb = (sb', ds)" by fastforce
  then show ?thesis
    using flush_discards_blocks [OF inv, of dev sb' ds] FlushDiscards by (simp add: alloc_exec_def spec_exec_def)
qed

lemma alloc_run_refines:
  "sb_inv sb \<Longrightarrow>
     \<exists>sb' rs. alloc_run opers sb = Some (sb', rs) \<and> sb_inv sb' \<and> s_num_blocks sb' = s_num_blocks sb
     \<and> spec_run (s_num_blocks sb) (s_ag_shift sb) opers (used_set sb) = (used_set sb', rs)"
proof (induction opers arbitrary: sb)
  case (Cons oper opers)
  obtain sb1 r where 1: "alloc_exec oper sb = Some (sb1, r)" "sb_inv sb1" "s_num_blocks sb1 = s_num_blocks sb"
    "s_ag_shift sb1 = s_ag_shift sb"
    "spec_exec (s_num_blocks sb) (s_ag_shift sb) oper (used_set sb) = (used_set sb1, r)"
    using alloc_exec_refines [OF Cons.prems, of oper] by blast
  show ?case using Cons.IH [OF 1(2)] 1 by auto
qed simp

subsection \<open>Properties\<close>

text \<open>An empty volume of a hundred blocks of a kilobyte, its counter out of date.\<close>

definition demo_sb :: "u64 \<Rightarrow> agfs_sb" where
  "demo_sb u = \<lparr>s_block_size = 1024, s_blocks_per_ag = 1, s_ag_shift = 13, s_num_blocks = 100, s_flags = 0,
     s_used_blocks = u, s_bitmap = [replicate 4096 0], s_next_free = 0, s_discards = [], s_dirty = False\<rparr>"

lemma demo_test: "\<not> agfs_bitmap_test (demo_sb u) b" if "b < 100"
proof -
  have "agfs_bitmap_off (demo_sb u) b < 4096"
    using that by (simp add: agfs_bitmap_off_def agfs_group_def agfs_group_bit_def demo_sb_def
        drop_bit_eq_div take_bit_eq_mod)
  then show ?thesis
    by (simp add: agfs_bitmap_test_def agfs_bitmap_get_def agfs_bitmap_byte_def demo_sb_def)
qed

lemma demo_ok: "sb_ok (demo_sb u)" "used_set (demo_sb u) = {}" "s_num_blocks (demo_sb u) = 100"
  "s_next_free (demo_sb u) = 0" "s_discards (demo_sb u) = []" "s_used_blocks (demo_sb u) = u"
  using demo_test [of _ u]
  by (simp_all add: sb_ok_def demo_sb_def agfs_group_def drop_bit_eq_div bm.used_def)

lemma demo_inv: "sb_inv (demo_sb 0)"
  by (simp add: sb_inv_def demo_ok)

text \<open>
  C11. Every sequence of allocator calls returns, keeps the invariant of the volume, and does to the
  set of the used blocks, with the same results, what the first-fit allocator of the specification
  does: a block or a run is taken at the lowest free block, a given block is taken only when it is
  free and on the volume, and a full volume gives \<open>ENOSPC\<close>.
\<close>

theorem allocator_refines_first_fit:
  assumes "sb_inv sb"
  shows "\<exists>sb' rs. alloc_run opers sb = Some (sb', rs) \<and> sb_inv sb' \<and> s_num_blocks sb' = s_num_blocks sb
     \<and> spec_run (s_num_blocks sb) (s_ag_shift sb) opers (used_set sb) = (used_set sb', rs)"
  using assms by (rule alloc_run_refines)

theorem allocator_refines_first_fit_witness:
  "sb_inv (demo_sb 0) \<and>
   (\<exists>sb' rs. alloc_run [Balloc, BallocContig 4, Bfree 0, Balloc] (demo_sb 0) = Some (sb', rs) \<and> sb_inv sb'
     \<and> spec_run 100 13 [Balloc, BallocContig 4, Bfree 0, Balloc] {} = (used_set sb', rs))"
proof -
  have "s_ag_shift (demo_sb 0) = 13" by (simp add: demo_sb_def)
  then show ?thesis
    using allocator_refines_first_fit [OF demo_inv, of "[Balloc, BallocContig 4, Bfree 0, Balloc]"] demo_inv
    by (auto simp: demo_ok simp del: alloc_run.simps spec_run.simps)
qed

lemma same_group:
  assumes "\<And>d. b < d \<Longrightarrow> d \<le> c \<Longrightarrow> d mod 2 ^ s_ag_shift sb \<noteq> 0" "b \<le> c"
  shows "agfs_group sb c = agfs_group sb b"
  using assms(2,1)
proof (induction c rule: dec_induct)
  case (step c)
  have "c div 2 ^ s_ag_shift sb = Suc c div 2 ^ s_ag_shift sb"
    using step.prems [of "Suc c"] step.hyps by (simp add: div_Suc split: if_splits)
  then show ?case using step by (simp add: agfs_group_def drop_bit_eq_div)
qed simp

lemma free_run_at_group:
  assumes "b < s_num_blocks sb" "c \<in> set (free_run_at (s_num_blocks sb) (s_ag_shift sb) U want b)"
  shows "agfs_group sb c = agfs_group sb b"
proof (rule same_group)
  let ?run = "free_run_at (s_num_blocks sb) (s_ag_shift sb) U want b"
  have set_run: "set ?run = {b..<b + length ?run}"
    by (subst free_run_at_upt(1) [OF assms(1)]) simp
  show "b \<le> c" using assms(2) set_run by auto
  fix d assume "b < d" "d \<le> c"
  then have "d \<in> set ?run" using assms(2) set_run by auto
  then show "d mod 2 ^ s_ag_shift sb \<noteq> 0"
    using \<open>b < d\<close> by (auto simp: free_run_at_def dest!: set_takeWhileD)
qed

lemma free_run_at_stop:
  assumes "b < n" "length (free_run_at n sh U want b) < want" "b + length (free_run_at n sh U want b) < n"
  shows "b + length (free_run_at n sh U want b) \<in> U
     \<or> (b + length (free_run_at n sh U want b)) mod 2 ^ sh = 0"
proof -
  let ?P = "\<lambda>c. c \<notin> U \<and> (c = b \<or> c mod 2 ^ sh \<noteq> 0)"
  let ?k = "length (takeWhile ?P (take want [b..<n]))"
  have "?k < length (take want [b..<n])" using assms(2,3) by (simp add: free_run_at_def)
  then have "\<not> ?P (take want [b..<n] ! ?k)" by (rule nth_length_takeWhile)
  moreover have "take want [b..<n] ! ?k = b + ?k"
    using assms(2,3) by (simp add: free_run_at_def)
  ultimately show ?thesis by (auto simp: free_run_at_def)
qed

text \<open>
  Whatever the hint, a call for one block returns: either the volume is full and the call says
  \<open>ENOSPC\<close>, or it gives a free block of the volume and marks it, and no other, as used.
\<close>

theorem balloc_returns:
  assumes ok: "sb_ok sb"
  shows "\<exists>sb' r. agfs_balloc sb = Some (sb', r) \<and> sb_ok sb' \<and>
     (case r of
        Inl e \<Rightarrow> e = ENOSPC \<and> sb' = sb \<and> used_set sb = {0..<s_num_blocks sb}
      | Inr b \<Rightarrow> b < s_num_blocks sb \<and> b \<notin> used_set sb \<and> used_set sb' = insert b (used_set sb))"
proof -
  let ?h = "alloc_hint sb"
  let ?n = "s_num_blocks sb"
  let ?free = "\<lambda>j. \<not> agfs_bitmap_test sb ((?h + j) mod ?n)"
  have h: "?h < ?n" using ok by (rule alloc_hint_less)
  have scan: "balloc_scan sb ?h ?h = Some (map_option (\<lambda>j. (?h + j) mod ?n) (find ?free [0..<?n]))"
    using scan_find [where f = "balloc_scan sb ?h" and nx = "next_block sb" and i = 0,
        OF balloc_scan.simps _ h] h by (simp add: next_block_def)
  show ?thesis
  proof (cases "find ?free [0..<?n]")
    case None
    then have all: "agfs_bitmap_test sb ((?h + j) mod ?n)" if "j < ?n" for j
      using that by (auto simp: find_None_iff)
    have "agfs_bitmap_test sb b" if b: "b < ?n" for b
    proof (cases "?h \<le> b")
      case True
      then show ?thesis using all [of "b - ?h"] b by simp
    next
      case False
      then have "(?h + (?n - ?h + b)) mod ?n = b" using h b by simp
      then show ?thesis using all [of "?n - ?h + b"] False h by simp
    qed
    then show ?thesis
      using scan None ok by (auto simp: agfs_balloc_def bm.used_def)
  next
    case (Some j)
    then have "\<not> agfs_bitmap_test sb ((?h + j) mod ?n)" by (auto simp: find_Some_iff)
    moreover have "(?h + j) mod ?n < ?n" using h by simp
    ultimately show ?thesis
      using scan Some ok by (simp add: agfs_balloc_def bm.ok_set bm.used_set bm.used_iff)
  qed
qed

theorem balloc_returns_witness:
  "sb_ok (demo_sb 7) \<and>
   (\<exists>sb' b. agfs_balloc (demo_sb 7) = Some (sb', Inr b) \<and> used_set sb' = {b})"
proof -
  obtain sb' r where r: "agfs_balloc (demo_sb 7) = Some (sb', r)"
    "case r of Inl e \<Rightarrow> e = ENOSPC \<and> sb' = demo_sb 7 \<and> used_set (demo_sb 7) = {0..<s_num_blocks (demo_sb 7)}
      | Inr b \<Rightarrow> b < s_num_blocks (demo_sb 7) \<and> b \<notin> used_set (demo_sb 7) \<and> used_set sb' = insert b (used_set (demo_sb 7))"
    using balloc_returns [OF demo_ok(1), of 7] by blast
  then show ?thesis by (cases r) (simp_all add: demo_ok)
qed

text \<open>
  A call for a run of blocks on a volume with a free block gives blocks that were all free, lie
  on the volume and in one allocation group, and are exactly the blocks that become used. The run
  has at most the length asked for, at least one block when one is asked for, and is shorter than
  asked only at the end of the volume or before a block that is used or starts a group.
\<close>

theorem balloc_contig_run:
  assumes inv: "sb_inv sb" and call: "agfs_balloc_contig sb want = Some (sb', Inr (b, len))"
  shows "b + len \<le> s_num_blocks sb \<and> len \<le> want \<and> (0 < want \<longrightarrow> 0 < len)
     \<and> {b..<b + len} \<inter> used_set sb = {} \<and> used_set sb' = used_set sb \<union> {b..<b + len}
     \<and> (\<forall>c. b \<le> c \<and> c < b + len \<longrightarrow> agfs_group sb c = agfs_group sb b)
     \<and> (len < want \<longrightarrow> b + len = s_num_blocks sb \<or> b + len \<in> used_set sb \<or> (b + len) mod 2 ^ s_ag_shift sb = 0)"
proof -
  let ?n = "s_num_blocks sb"
  let ?run = "free_run_at ?n (s_ag_shift sb) (used_set sb) want b"
  have spec: "spec_contig ?n (s_ag_shift sb) (used_set sb) want = (used_set sb', Inr (b, len))"
    using contig_refines [OF inv, of want] call by auto
  then have b: "first_free ?n (used_set sb) = Some b" and len: "len = length ?run"
    and U: "used_set sb' = used_set sb \<union> set ?run"
    by (auto simp: spec_contig_def split: option.splits)
  note bn = first_free_Some [OF b] and run = free_run_at_upt [OF first_free_Some(1) [OF b]]
  have set_run: "set ?run = {b..<b + len}" unfolding len by (subst run(1)) simp
  have "0 < len" if "0 < want"
    using that bn(1,2) by (auto simp: len free_run_at_def upt_conv_Cons take_Cons' split: if_splits)
  moreover have "b + len \<le> ?n" "len \<le> want" unfolding len by (rule run)+
  moreover have "{b..<b + len} \<inter> used_set sb = {}"
    using free_run_at_free set_run by blast
  moreover have "agfs_group sb c = agfs_group sb b" if "b \<le> c" "c < b + len" for c
    using free_run_at_group [OF bn(1), of c "used_set sb" want] that set_run by simp
  moreover have "b + len = ?n \<or> b + len \<in> used_set sb \<or> (b + len) mod 2 ^ s_ag_shift sb = 0" if "len < want"
    using free_run_at_stop [OF bn(1), of "s_ag_shift sb" "used_set sb" want] that run(2) unfolding len
    by (metis le_neq_implies_less)
  ultimately show ?thesis using U set_run by blast
qed

lemma demo_contig: "\<exists>sb'. agfs_balloc_contig (demo_sb 0) 4 = Some (sb', Inr (0, 4))"
proof -
  have "first_free 100 {} = Some 0" by (intro first_free_eqI) auto
  moreover have "[0..<100] = [0, 1, 2, 3] @ [4::nat..<100]"
    by (simp add: upt_conv_Cons)
  then have "free_run_at 100 13 {} 4 0 = [0, 1, 2, 3]" by (simp add: free_run_at_def)
  ultimately have "spec_contig 100 13 {} 4 = ({0, 1, 2, 3}, Inr (0, 4))" by (simp add: spec_contig_def)
  moreover have "s_ag_shift (demo_sb 0) = 13" by (simp add: demo_sb_def)
  ultimately show ?thesis using contig_refines [OF demo_inv, of 4] by (auto simp: demo_ok)
qed

theorem balloc_contig_run_witness:
  "sb_inv (demo_sb 0) \<and> (\<exists>sb'. agfs_balloc_contig (demo_sb 0) 4 = Some (sb', Inr (0, 4)) \<and> used_set sb' = {0..<4})"
proof -
  obtain sb' where c: "agfs_balloc_contig (demo_sb 0) 4 = Some (sb', Inr (0, 4))" using demo_contig by blast
  show ?thesis using balloc_contig_run [OF demo_inv c] c demo_inv by (simp add: demo_ok)
qed

text \<open>
  C33. Flushing the pending discards tells the device to drop blocks of the volume that are free in
  the bitmap, and only those: exactly the pending blocks that were not taken again. The bitmap does
  not change, and on a device that is present the list is empty afterwards.
\<close>

theorem flush_discards_free_blocks:
  assumes "sb_inv sb" "agfs_flush_discards dev sb = (sb', ds)"
  shows "extent_blocks ds = (if dev = Discard then extent_blocks (s_discards sb) - used_set sb else {})
     \<and> extent_blocks ds \<inter> used_set sb' = {} \<and> extent_blocks ds \<subseteq> {0..<s_num_blocks sb}
     \<and> used_set sb' = used_set sb \<and> sb_inv sb' \<and> (dev \<noteq> NoDevice \<longrightarrow> s_discards sb' = [])"
  using flush_discards_blocks [OF assms] by auto

theorem flush_discards_free_blocks_witness:
  "\<exists>sb' ds. agfs_flush_discards Discard (demo_sb 0 \<lparr>s_discards := [(3, 2)]\<rparr>) = (sb', ds)
     \<and> extent_blocks ds = {3, 4} \<and> s_discards sb' = []"
proof -
  have inv: "sb_inv (demo_sb 0 \<lparr>s_discards := [(3, 2)]\<rparr>)"
    by (simp add: sb_inv_def demo_ok)
  obtain sb' ds where fl: "agfs_flush_discards Discard (demo_sb 0 \<lparr>s_discards := [(3, 2)]\<rparr>) = (sb', ds)" by fastforce
  have "{3..<5::nat} = {3, 4}" by auto
  then show ?thesis
    using flush_discards_free_blocks [OF inv fl] fl by (simp add: demo_ok)
qed

text \<open>
  The resynchronisation at mount time makes the counter the number of used blocks whatever it
  was, at its 64-bit width, without touching the bitmap; the superblock is marked dirty exactly when
  the counter was wrong. With the hint and the list of discards of a fresh mount the volume then
  satisfies the invariant of the allocator.
\<close>

theorem resync_establishes_invariant:
  assumes ok: "sb_ok sb"
  shows "unat (s_used_blocks (agfs_resync_used_blocks sb)) = card (used_set sb)
     \<and> used_set (agfs_resync_used_blocks sb) = used_set sb
     \<and> (s_used_blocks sb = of_nat (card (used_set sb)) \<longrightarrow> agfs_resync_used_blocks sb = sb)
     \<and> (s_used_blocks sb \<noteq> of_nat (card (used_set sb)) \<longrightarrow> s_dirty (agfs_resync_used_blocks sb))
     \<and> (s_next_free sb = 0 \<and> s_discards sb = [] \<longrightarrow> sb_inv (agfs_resync_used_blocks sb))"
proof -
  have "card (used_set sb) < 2 ^ 31" using bm.card_used_le [of sb] ok by (simp add: sb_ok_def)
  then have "unat (of_nat (card (used_set sb)) :: u64) = card (used_set sb)" by (simp add: unat_of_nat)
  then show ?thesis
    using ok ucast_count_used [OF ok] by (auto simp: agfs_resync_used_blocks_def sb_inv_def)
qed

theorem resync_establishes_invariant_witness:
  "sb_ok (demo_sb 7) \<and> s_used_blocks (agfs_resync_used_blocks (demo_sb 7)) = 0
   \<and> sb_inv (agfs_resync_used_blocks (demo_sb 7))"
  using resync_establishes_invariant [OF demo_ok(1), of 7] by (simp add: demo_ok unat_eq_0)

end
