(* ===== verification/Agfs_Super.thy ===== *)
theory Agfs_Super
  imports Block_Alloc
begin

text \<open>
  The superblock of AGFS, \<^verbatim>\<open>fs/agfs/super.c\<close> and the structures of \<^verbatim>\<open>include/fnx/agfs.h\<close>, at the
  level of bytes: the fields of the on-disk structure, the two stamped copies of it in the first two
  sectors of block 0, the choice of a copy at mount time, and the translation between the structure
  and the mounted volume.

  Disk addresses and counts are natural numbers and are written at the width of their field; the
  sequence number of the copies is the 64-bit integer of the code, and the 32-bit variable the mount
  code compares it through is kept.
\<close>

subsection \<open>Block runs and the on-disk superblock\<close>

record block_run =
  run_ag :: nat
  run_start :: nat
  run_len :: nat

definition enc_run :: "block_run \<Rightarrow> byte list" where
  "enc_run r = le_enc 4 (run_ag r) @ le_enc 2 (run_start r) @ le_enc 2 (run_len r)"

definition dec_run :: "byte list \<Rightarrow> block_run" where
  "dec_run bs = \<lparr>run_ag = le_val (mem_get 0 4 bs), run_start = le_val (mem_get 4 2 bs),
                 run_len = le_val (mem_get 6 2 bs)\<rparr>"

text \<open>\<^verbatim>\<open>agfs_run_encode\<close> sets the group and the start of a run and leaves its length.\<close>

definition agfs_run_encode :: "block_run \<Rightarrow> nat \<Rightarrow> nat \<Rightarrow> block_run" where
  "agfs_run_encode r block ag_shift =
     r\<lparr>run_ag := drop_bit ag_shift block mod 2 ^ 32, run_start := take_bit ag_shift block mod 2 ^ 16\<rparr>"

text \<open>A mounted volume: the allocator's part, the volume's geometry and the state of the journal.\<close>

record agfs_vol =
  v_sb :: agfs_sb
  v_bits :: nat
  v_num_ags :: nat
  v_root_inode :: nat
  v_indices_inode :: nat
  v_log_blocks :: block_run
  v_log_start :: nat
  v_log_end :: nat
  v_since_reset :: nat
  v_log_peak :: nat
  v_log_pending :: bool
  v_pend_blocks :: nat
  v_tx :: "(nat \<times> byte list) list"
  v_tx_depth :: nat
  v_tx_poisoned :: bool
  v_log_draining :: bool
  v_sb_seq :: u64

abbreviation (input) AGFS_SUPER_MAGIC1 :: nat where "AGFS_SUPER_MAGIC1 \<equiv> 0x41474653"
abbreviation (input) AGFS_SUPER_MAGIC2 :: nat where "AGFS_SUPER_MAGIC2 \<equiv> 0xdd121031"
abbreviation (input) AGFS_SUPER_MAGIC3 :: nat where "AGFS_SUPER_MAGIC3 \<equiv> 0x15b6830e"
abbreviation (input) AGFS_SUPER_BYTEORDER :: nat where "AGFS_SUPER_BYTEORDER \<equiv> 0x42494745"
abbreviation (input) AGFS_SB_A_OFF :: nat where "AGFS_SB_A_OFF \<equiv> 512"
abbreviation (input) AGFS_SB_B_OFF :: nat where "AGFS_SB_B_OFF \<equiv> 0"
abbreviation (input) AGFS_SB_SEQ_OFF :: nat where "AGFS_SB_SEQ_OFF \<equiv> 0x84"
abbreviation (input) AGFS_SB_CKSUM_OFF :: nat where "AGFS_SB_CKSUM_OFF \<equiv> 0x8C"

text \<open>The 132 bytes of \<^verbatim>\<open>struct agfs_superblock\<close>, field after field, as the drain rebuilds them.\<close>

definition indices_run :: "agfs_vol \<Rightarrow> block_run" where
  "indices_run v =
     (if v_indices_inode v \<noteq> 0
      then (agfs_run_encode \<lparr>run_ag = 0, run_start = 0, run_len = 0\<rparr> (v_indices_inode v)
              (s_ag_shift (v_sb v)))\<lparr>run_len := 1\<rparr>
      else \<lparr>run_ag = 0, run_start = 0, run_len = 0\<rparr>)"

definition root_run :: "agfs_vol \<Rightarrow> block_run" where
  "root_run v =
     (agfs_run_encode \<lparr>run_ag = 0, run_start = 0, run_len = 0\<rparr> (v_root_inode v)
        (s_ag_shift (v_sb v)))\<lparr>run_len := 1\<rparr>"

definition sb_struct :: "agfs_vol \<Rightarrow> byte list \<Rightarrow> byte list" where
  "sb_struct v name =
     name @ le_enc 4 AGFS_SUPER_MAGIC1 @ le_enc 4 AGFS_SUPER_BYTEORDER @ le_enc 4 (s_block_size (v_sb v))
     @ le_enc 4 (v_bits v) @ le_enc 8 (s_num_blocks (v_sb v)) @ le_enc 8 (unat (s_used_blocks (v_sb v)))
     @ le_enc 4 (s_block_size (v_sb v)) @ le_enc 4 AGFS_SUPER_MAGIC2 @ le_enc 4 (s_blocks_per_ag (v_sb v))
     @ le_enc 4 (s_ag_shift (v_sb v)) @ le_enc 4 (v_num_ags v) @ le_enc 4 (unat (s_flags (v_sb v)))
     @ enc_run (v_log_blocks v) @ le_enc 8 (v_log_start v) @ le_enc 8 (v_log_end v)
     @ le_enc 4 AGFS_SUPER_MAGIC3 @ enc_run (root_run v) @ enc_run (indices_run v)"

definition sb_fill :: "agfs_vol \<Rightarrow> byte list \<Rightarrow> byte list" where
  "sb_fill v data = mem_put AGFS_SB_A_OFF (sb_struct v (mem_get AGFS_SB_A_OFF 32 data)) data"

subsection \<open>The two copies\<close>

definition sb_cksum :: "byte list \<Rightarrow> u32" where
  "sb_cksum area = sum_list (map (\<lambda>j. of_nat (le_val (mem_get (4 * j) 4 area))) [0..<AGFS_SB_SEQ_OFF div 4])"

definition agfs_sb_dual_stamp :: "agfs_vol \<Rightarrow> byte list \<Rightarrow> agfs_vol \<times> byte list" where
  "agfs_sb_dual_stamp v data =
     (let seq = v_sb_seq v + 1;
          d1 = mem_put AGFS_SB_B_OFF (mem_get AGFS_SB_A_OFF 512 data) data;
          d2 = mem_put (AGFS_SB_A_OFF + AGFS_SB_SEQ_OFF) (replicate (512 - AGFS_SB_SEQ_OFF) 0) d1;
          d3 = mem_put (AGFS_SB_B_OFF + AGFS_SB_SEQ_OFF) (replicate (512 - AGFS_SB_SEQ_OFF) 0) d2;
          ck = sb_cksum (mem_get AGFS_SB_A_OFF 512 d3);
          d4 = mem_put (AGFS_SB_A_OFF + AGFS_SB_SEQ_OFF) (le_enc 8 (unat seq)) d3;
          d5 = mem_put (AGFS_SB_B_OFF + AGFS_SB_SEQ_OFF) (le_enc 8 (unat seq)) d4;
          d6 = mem_put (AGFS_SB_A_OFF + AGFS_SB_CKSUM_OFF) (le_enc 4 (unat ck)) d5;
          d7 = mem_put (AGFS_SB_B_OFF + AGFS_SB_CKSUM_OFF) (le_enc 4 (unat ck)) d6
      in (v\<lparr>v_sb_seq := seq\<rparr>, d7))"

text \<open>
  One candidate of the mount code's loop: \<open>best\<close> is \<open>None\<close> before a copy is found; the sequence
  number goes through the 32-bit \<^verbatim>\<open>best_seq\<close>.
\<close>

definition sb_magic_ok :: "byte list \<Rightarrow> bool" where
  "sb_magic_ok area \<longleftrightarrow> le_val (mem_get 32 4 area) = AGFS_SUPER_MAGIC1
     \<and> le_val (mem_get 68 4 area) = AGFS_SUPER_MAGIC2 \<and> le_val (mem_get 112 4 area) = AGFS_SUPER_MAGIC3"

definition sb_seq_of :: "byte list \<Rightarrow> u64" where
  "sb_seq_of area = of_nat (le_val (mem_get AGFS_SB_SEQ_OFF 8 area))"

definition sb_candidate :: "nat \<Rightarrow> byte list \<Rightarrow> nat option \<times> u32 \<Rightarrow> nat option \<times> u32" where
  "sb_candidate i area st =
     (case st of (best, best_seq) \<Rightarrow>
        if \<not> sb_magic_ok area then st
        else if sb_seq_of area = 0 then (if best = None then (Some i, best_seq) else st)
        else if unat (sb_cksum area) \<noteq> le_val (mem_get AGFS_SB_CKSUM_OFF 4 area) then st
        else if sb_seq_of area > ucast best_seq then (Some i, ucast (sb_seq_of area))
        else st)"

definition sb_select :: "byte list \<Rightarrow> nat option \<times> u32" where
  "sb_select data =
     sb_candidate 1 (mem_get AGFS_SB_B_OFF 512 data) (sb_candidate 0 (mem_get AGFS_SB_A_OFF 512 data) (None, 0))"

definition sb_mirror :: "byte list \<Rightarrow> (byte list \<times> u32) option" where
  "sb_mirror data =
     (case sb_select data of
        (None, _) \<Rightarrow> None
      | (Some best, best_seq) \<Rightarrow>
          Some (if best = 1 then mem_put AGFS_SB_A_OFF (mem_get AGFS_SB_B_OFF 512 data) data else data, best_seq))"

subsection \<open>Reading the superblock at mount time\<close>

definition blocksize_ok :: "nat \<Rightarrow> bool" where
  "blocksize_ok n \<longleftrightarrow> \<not> (n < 1024 \<or> n > 4096 \<or> n AND (n - 1) \<noteq> 0)"

function blocksize_bits :: "nat \<Rightarrow> nat \<Rightarrow> nat" where
  "blocksize_bits n bits = (if 2 ^ bits < n \<and> bits < 32 then blocksize_bits n (bits + 1) else bits)"
  by pat_completeness auto
termination blocksize_bits
  by (relation "measure (\<lambda>(n, bits). 32 - bits)") auto

declare blocksize_bits.simps [simp del]

definition run_block32 :: "block_run \<Rightarrow> nat \<Rightarrow> nat" where
  "run_block32 r shift = (push_bit shift (run_ag r) + run_start r) mod 2 ^ 32"

definition sb_parse :: "byte list \<Rightarrow> u32 \<Rightarrow> agfs_vol result" where
  "sb_parse a best_seq =
     (let bs = le_val (mem_get 40 4 a);
          shift = le_val (mem_get 76 4 a);
          indices = dec_run (mem_get 124 8 a)
      in
        if \<not> blocksize_ok bs then Inl EINVAL
        else if le_val (mem_get 64 4 a) \<noteq> bs then Inl EINVAL
        else Inr
          \<lparr>v_sb = \<lparr>s_block_size = bs, s_blocks_per_ag = le_val (mem_get 72 4 a), s_ag_shift = shift,
                    s_num_blocks = le_val (mem_get 48 8 a), s_flags = of_nat (le_val (mem_get 84 4 a)),
                    s_used_blocks = of_nat (le_val (mem_get 56 8 a)), s_bitmap = [], s_next_free = 0,
                    s_discards = [], s_dirty = False\<rparr>,
           v_bits = blocksize_bits bs 10,
           v_num_ags = le_val (mem_get 80 4 a),
           v_root_inode = run_block32 (dec_run (mem_get 116 8 a)) shift,
           v_indices_inode = (if run_len indices \<noteq> 0 then run_block32 indices shift else 0),
           v_log_blocks = dec_run (mem_get 88 8 a),
           v_log_start = le_val (mem_get 96 8 a),
           v_log_end = le_val (mem_get 104 8 a),
           v_since_reset = 0, v_log_peak = 0, v_log_pending = False, v_pend_blocks = 0,
           v_tx = [], v_tx_depth = 0, v_tx_poisoned = False, v_log_draining = False,
           v_sb_seq = ucast best_seq\<rparr>)"

definition sb_load :: "byte list \<Rightarrow> agfs_vol result" where
  "sb_load data =
     (case sb_mirror data of
        None \<Rightarrow> Inl EINVAL
      | Some (data', best_seq) \<Rightarrow> sb_parse (mem_get AGFS_SB_A_OFF 512 data') best_seq)"

subsection \<open>Stamped copies\<close>

text \<open>A copy: the structure, the sequence number, the checksum, and zeros to the end of the sector.\<close>

definition sb_copy :: "byte list \<Rightarrow> u64 \<Rightarrow> byte list" where
  "sb_copy st seq = st @ le_enc 8 (unat seq) @ le_enc 4 (unat (sb_cksum st)) @ replicate 368 0"

lemma length_sb_copy [simp]: "length st = 132 \<Longrightarrow> length (sb_copy st seq) = 512"
  by (simp add: sb_copy_def)

lemma sb_cksum_append: "length st = 132 \<Longrightarrow> sb_cksum (st @ x) = sb_cksum st"
  unfolding sb_cksum_def by (intro arg_cong [where f = sum_list] map_cong) (auto simp: mem_get_append)

lemma block0_split:
  assumes "1024 \<le> length data"
  obtains b st x rest where "data = b @ st @ x @ rest" "length b = 512" "length st = 132" "length x = 380"
    "st = mem_get AGFS_SB_A_OFF 132 data" "rest = drop 1024 data"
proof
  show "data = take 512 data @ take 132 (drop 512 data) @ take 380 (drop 644 data) @ drop 1024 data"
    using append_take_drop_id [of 512 data] append_take_drop_id [of 132 "drop 512 data"]
      append_take_drop_id [of 380 "drop 644 data"] by simp
qed (use assms in \<open>simp_all add: mem_get_def\<close>)

lemma dual_stamp_copies:
  assumes "1024 \<le> length data"
  shows "agfs_sb_dual_stamp v data =
    (v\<lparr>v_sb_seq := v_sb_seq v + 1\<rparr>,
     sb_copy (mem_get AGFS_SB_A_OFF 132 data) (v_sb_seq v + 1)
     @ sb_copy (mem_get AGFS_SB_A_OFF 132 data) (v_sb_seq v + 1) @ drop 1024 data)"
proof -
  obtain b st x rest where d: "data = b @ st @ x @ rest" "length b = 512" "length st = 132" "length x = 380"
    and st: "st = mem_get AGFS_SB_A_OFF 132 data" "rest = drop 1024 data"
    using assms by (rule block0_split)
  let ?z = "replicate 380 (0::byte)"
  let ?seq = "v_sb_seq v + 1"
  have g: "mem_get AGFS_SB_A_OFF 512 data = st @ x"
    using d by (simp add: mem_get_def)
  have d1: "mem_put AGFS_SB_B_OFF (mem_get AGFS_SB_A_OFF 512 data) data = st @ x @ st @ x @ rest"
    unfolding g using d by (simp add: mem_put_def)
  have d2: "mem_put (AGFS_SB_A_OFF + AGFS_SB_SEQ_OFF) (replicate (512 - AGFS_SB_SEQ_OFF) 0) (st @ x @ st @ x @ rest)
      = st @ x @ st @ ?z @ rest"
    using mem_put_append1 [of "st @ x @ st" 644 x ?z rest] d by simp
  have d3: "mem_put (AGFS_SB_B_OFF + AGFS_SB_SEQ_OFF) (replicate (512 - AGFS_SB_SEQ_OFF) 0) (st @ x @ st @ ?z @ rest)
      = st @ ?z @ st @ ?z @ rest"
    using mem_put_append1 [of st 132 x ?z "st @ ?z @ rest"] d by simp
  have ck: "sb_cksum (mem_get AGFS_SB_A_OFF 512 (st @ ?z @ st @ ?z @ rest)) = sb_cksum st"
    using mem_get_append1 [of "st @ ?z" 512 "st @ ?z" 512 rest] d by (simp add: sb_cksum_append)
  let ?ck = "unat (sb_cksum st)"
  have z: "?z = replicate 8 0 @ replicate 4 0 @ replicate 368 0"
    by (simp only: replicate_add [symmetric]) simp
  show ?thesis
    unfolding agfs_sb_dual_stamp_def Let_def d1 d2 d3 ck
    unfolding z st(2) [symmetric] st(1) [symmetric] sb_copy_def
    using d(3) by (simp add: mem_put_def)
qed

lemma sb_copy_fields:
  assumes "length st = 132"
  shows "off + n \<le> 132 \<Longrightarrow> mem_get off n (sb_copy st seq) = mem_get off n st"
    and "sb_seq_of (sb_copy st seq) = seq" "sb_cksum (sb_copy st seq) = sb_cksum st"
    and "le_val (mem_get AGFS_SB_CKSUM_OFF 4 (sb_copy st seq)) = unat (sb_cksum st)"
    and "sb_magic_ok (sb_copy st seq) = sb_magic_ok st"
proof -
  have seq: "unat seq < 256 ^ 8" "unat (sb_cksum st) < 256 ^ 4"
    using unsigned_less [of seq, where ?'a = nat] unsigned_less [of "sb_cksum st", where ?'a = nat] by simp_all
  show "off + n \<le> 132 \<Longrightarrow> mem_get off n (sb_copy st seq) = mem_get off n st"
    using assms by (simp add: sb_copy_def mem_get_append)
  show "sb_seq_of (sb_copy st seq) = seq" "le_val (mem_get AGFS_SB_CKSUM_OFF 4 (sb_copy st seq)) = unat (sb_cksum st)"
    using seq assms by (simp_all add: sb_copy_def sb_seq_of_def mem_get_append) (simp_all add: mem_get_def)
  show "sb_cksum (sb_copy st seq) = sb_cksum st" by (simp add: sb_copy_def sb_cksum_append assms)
  show "sb_magic_ok (sb_copy st seq) = sb_magic_ok st"
    using assms by (simp add: sb_magic_ok_def sb_copy_def mem_get_append)
qed

lemma ucast_u32_u64:
  assumes "unat (q :: u64) < 2 ^ 32"
  shows "(ucast (ucast q :: u32) :: u64) = q"
proof -
  have "unat (ucast (ucast q :: u32) :: u64) = unat q"
    using assms by (simp add: unsigned_ucast_eq) (simp add: unsigned_take_bit_eq take_bit_nat_eq_self)
  then show ?thesis by (simp only: word_unat_eq_iff)
qed

text \<open>The choice between two stamped copies: the one with the higher sequence number.\<close>

lemma sb_select_copies:
  assumes "length sa = 132" "length sb = 132" "sb_magic_ok sa" "sb_magic_ok sb"
    and "0 < unat qa" "unat qa < 2 ^ 32" "0 < unat qb" "unat qb < 2 ^ 32"
  shows "sb_select (sb_copy sb qb @ sb_copy sa qa @ rest) =
     (if qa < qb then (Some 1, ucast qb) else (Some 0, ucast qa))"
proof -
  have a: "mem_get AGFS_SB_A_OFF 512 (sb_copy sb qb @ sb_copy sa qa @ rest) = sb_copy sa qa"
    and b: "mem_get AGFS_SB_B_OFF 512 (sb_copy sb qb @ sb_copy sa qa @ rest) = sb_copy sb qb"
    using assms by (simp_all add: mem_get_def)
  have nz: "qa \<noteq> 0" "qb \<noteq> 0" using assms by (auto simp: unat_eq_0)
  have pos: "0 < qa" "0 < qb" using nz by (simp_all add: word_neq_0_conv)
  have cast: "(ucast (ucast qa :: u32) :: u64) = qa"
    using assms(6) by (rule ucast_u32_u64)
  show ?thesis
    unfolding sb_select_def a b
    using nz pos cast assms(3,4) by (auto simp: sb_candidate_def sb_copy_fields [OF assms(1)] sb_copy_fields [OF assms(2)])
qed

lemma sb_parse_copy: "length st = 132 \<Longrightarrow> sb_parse (sb_copy st seq) q = sb_parse st q"
  by (simp add: sb_parse_def Let_def sb_copy_fields)

lemma sb_load_copies:
  assumes "length sa = 132" "length sb = 132" "sb_magic_ok sa" "sb_magic_ok sb"
    and "0 < unat qa" "unat qa < 2 ^ 32" "0 < unat qb" "unat qb < 2 ^ 32"
  shows "sb_load (sb_copy sb qb @ sb_copy sa qa @ rest) =
     (if qa < qb then sb_parse sb (ucast qb) else sb_parse sa (ucast qa))"
proof -
  have a: "mem_get AGFS_SB_A_OFF 512 (sb_copy sb qb @ sb_copy sa qa @ rest) = sb_copy sa qa"
    and b: "mem_get AGFS_SB_B_OFF 512 (sb_copy sb qb @ sb_copy sa qa @ rest) = sb_copy sb qb"
    using assms by (simp_all add: mem_get_def)
  have "mem_get AGFS_SB_A_OFF 512 (mem_put AGFS_SB_A_OFF (sb_copy sb qb) (sb_copy sb qb @ sb_copy sa qa @ rest))
      = sb_copy sb qb"
    using assms by (intro mem_get_put_same) simp_all
  then show ?thesis
    using assms by (simp add: sb_load_def sb_mirror_def sb_select_copies a b sb_parse_copy)
qed

subsection \<open>The structure and the mounted volume\<close>

text \<open>The volumes whose fields fit in the superblock: the block size is one of the three of the format.\<close>

definition vol_fields_ok :: "agfs_vol \<Rightarrow> bool" where
  "vol_fields_ok v \<longleftrightarrow>
     v_bits v \<in> {10, 11, 12} \<and> s_block_size (v_sb v) = 2 ^ v_bits v
     \<and> s_blocks_per_ag (v_sb v) < 2 ^ 32 \<and> s_ag_shift (v_sb v) \<le> 16 \<and> s_num_blocks (v_sb v) < 2 ^ 64
     \<and> v_num_ags v < 2 ^ 32 \<and> v_root_inode v < 2 ^ 32 \<and> v_indices_inode v < 2 ^ 32
     \<and> run_ag (v_log_blocks v) < 2 ^ 32 \<and> run_start (v_log_blocks v) < 2 ^ 16 \<and> run_len (v_log_blocks v) < 2 ^ 16
     \<and> v_log_start v < 2 ^ 64 \<and> v_log_end v < 2 ^ 64"

lemma length_enc_run [simp]: "length (enc_run r) = 8"
  by (simp add: enc_run_def)

lemma length_sb_struct [simp]: "length name = 32 \<Longrightarrow> length (sb_struct v name) = 132"
  by (simp add: sb_struct_def)

lemma dec_enc_run:
  assumes "run_ag r < 2 ^ 32" "run_start r < 2 ^ 16" "run_len r < 2 ^ 16"
  shows "dec_run (enc_run r) = r"
  using assms by (cases r) (simp add: dec_run_def enc_run_def mem_get_append, simp add: mem_get_def)

lemma mem_get_struct:
  "length xs = off \<Longrightarrow> length ys = n \<Longrightarrow> mem_get off n (xs @ ys) = ys"
  by (simp add: mem_get_def)

lemma sb_struct_fields:
  assumes "length name = 32"
  shows "mem_get 0 32 (sb_struct v name) = name"
    and "mem_get 32 4 (sb_struct v name) = le_enc 4 AGFS_SUPER_MAGIC1"
    and "mem_get 40 4 (sb_struct v name) = le_enc 4 (s_block_size (v_sb v))"
    and "mem_get 48 8 (sb_struct v name) = le_enc 8 (s_num_blocks (v_sb v))"
    and "mem_get 56 8 (sb_struct v name) = le_enc 8 (unat (s_used_blocks (v_sb v)))"
    and "mem_get 64 4 (sb_struct v name) = le_enc 4 (s_block_size (v_sb v))"
    and "mem_get 68 4 (sb_struct v name) = le_enc 4 AGFS_SUPER_MAGIC2"
    and "mem_get 72 4 (sb_struct v name) = le_enc 4 (s_blocks_per_ag (v_sb v))"
    and "mem_get 76 4 (sb_struct v name) = le_enc 4 (s_ag_shift (v_sb v))"
    and "mem_get 80 4 (sb_struct v name) = le_enc 4 (v_num_ags v)"
    and "mem_get 84 4 (sb_struct v name) = le_enc 4 (unat (s_flags (v_sb v)))"
    and "mem_get 88 8 (sb_struct v name) = enc_run (v_log_blocks v)"
    and "mem_get 96 8 (sb_struct v name) = le_enc 8 (v_log_start v)"
    and "mem_get 104 8 (sb_struct v name) = le_enc 8 (v_log_end v)"
    and "mem_get 112 4 (sb_struct v name) = le_enc 4 AGFS_SUPER_MAGIC3"
    and "mem_get 116 8 (sb_struct v name) = enc_run (root_run v)"
    and "mem_get 124 8 (sb_struct v name) = enc_run (indices_run v)"
  unfolding sb_struct_def mem_get_def using assms by simp_all

lemma sb_struct_magic: "length name = 32 \<Longrightarrow> sb_magic_ok (sb_struct v name)"
  by (simp add: sb_magic_ok_def sb_struct_fields)

lemma run_encode_block:
  assumes "b < 2 ^ 32" "shift \<le> 16"
  shows "run_block32 (agfs_run_encode r b shift) shift = b"
    and "run_ag (agfs_run_encode r b shift) < 2 ^ 32" "run_start (agfs_run_encode r b shift) < 2 ^ 16"
proof -
  have p: "(2::nat) ^ shift \<le> 2 ^ 16" using assms(2) by (intro power_increasing) simp_all
  have "b div 2 ^ shift < 2 ^ 32" using assms(1) by (meson div_le_dividend le_less_trans)
  moreover have "b mod 2 ^ shift < 2 ^ 16" using p by (meson less_le_trans mod_less_divisor zero_less_numeral zero_less_power)
  ultimately show "run_block32 (agfs_run_encode r b shift) shift = b"
    "run_ag (agfs_run_encode r b shift) < 2 ^ 32" "run_start (agfs_run_encode r b shift) < 2 ^ 16"
    using assms(1) div_mult_mod_eq [of b "2 ^ shift"] by (simp_all add: run_block32_def agfs_run_encode_def drop_bit_eq_div take_bit_eq_mod push_bit_eq_mult)
qed

lemma blocksize_bits_ok:
  assumes "k \<in> {10, 11, 12::nat}"
  shows "blocksize_bits (2 ^ k) 10 = k" "blocksize_ok (2 ^ k)"
  using assms by (auto simp: blocksize_ok_def blocksize_bits.simps)

text \<open>What a mount makes of the structure of a volume.\<close>

definition fresh_mount :: "agfs_vol \<Rightarrow> u64 \<Rightarrow> agfs_vol" where
  "fresh_mount v seq =
     v\<lparr>v_sb := (v_sb v)\<lparr>s_bitmap := [], s_next_free := 0, s_discards := [], s_dirty := False\<rparr>,
       v_since_reset := 0, v_log_peak := 0, v_log_pending := False, v_pend_blocks := 0, v_tx := [],
       v_tx_depth := 0, v_tx_poisoned := False, v_log_draining := False, v_sb_seq := seq\<rparr>"

lemma sb_parse_struct:
  assumes v: "vol_fields_ok v" and n: "length name = 32"
  shows "sb_parse (sb_struct v name) q = Inr (fresh_mount v (ucast q))"
proof -
  note u = unsigned_less [where ?'a = nat]
  have f: "unat (s_flags (v_sb v)) < 256 ^ 4" "unat (s_used_blocks (v_sb v)) < 256 ^ 8"
    using u [of "s_flags (v_sb v)"] u [of "s_used_blocks (v_sb v)"] by simp_all
  have root: "run_block32 (root_run v) (s_ag_shift (v_sb v)) = v_root_inode v" "dec_run (enc_run (root_run v)) = root_run v"
    using v run_encode_block [of "v_root_inode v" "s_ag_shift (v_sb v)"]
    by (simp_all add: root_run_def vol_fields_ok_def run_block32_def dec_enc_run)
  have ind: "(if run_len (indices_run v) \<noteq> 0 then run_block32 (indices_run v) (s_ag_shift (v_sb v)) else 0) = v_indices_inode v"
    "dec_run (enc_run (indices_run v)) = indices_run v"
    using v run_encode_block [of "v_indices_inode v" "s_ag_shift (v_sb v)"]
    by (simp_all add: indices_run_def vol_fields_ok_def run_block32_def dec_enc_run)
  have "s_ag_shift (v_sb v) < 256 ^ 4" "s_block_size (v_sb v) < 256 ^ 4" using v by (auto simp: vol_fields_ok_def)
  then show ?thesis
    using v f root ind blocksize_bits_ok [of "v_bits v"] n
    by (simp add: sb_parse_def Let_def sb_struct_fields vol_fields_ok_def dec_enc_run fresh_mount_def)
qed

subsection \<open>Properties\<close>

lemma sb_fill_struct:
  assumes "1024 \<le> length data"
  shows "mem_get AGFS_SB_A_OFF 132 (sb_fill v data) = sb_struct v (mem_get AGFS_SB_A_OFF 32 data)"
    and "length (sb_fill v data) = length data" "drop 1024 (sb_fill v data) = drop 1024 data"
proof -
  have l: "length (sb_struct v (mem_get AGFS_SB_A_OFF 32 data)) = 132" using assms by simp
  show "mem_get AGFS_SB_A_OFF 132 (sb_fill v data) = sb_struct v (mem_get AGFS_SB_A_OFF 32 data)"
    unfolding sb_fill_def by (rule mem_get_put_same) (use assms l in simp_all)
  show "length (sb_fill v data) = length data" unfolding sb_fill_def by (rule length_mem_put) (use assms l in simp)
  show "drop 1024 (sb_fill v data) = drop 1024 data"
    using assms l by (simp add: sb_fill_def mem_put_def)
qed

text \<open>
  The superblock survives an unmount: the block the drain writes, with its two stamped copies,
  is read back by the next mount as the same volume, with the sequence number of the stamp and the
  transient state reset. The volume name and everything behind the two copies stay as they were.
\<close>

theorem superblock_write_read:
  assumes v: "vol_fields_ok v" and d: "1024 \<le> length data"
    and seq: "0 < unat (v_sb_seq v + 1)" "unat (v_sb_seq v + 1) < 2 ^ 32"
  shows "case agfs_sb_dual_stamp v (sb_fill v data) of (v', data') \<Rightarrow>
     sb_load data' = Inr (fresh_mount v (v_sb_seq v + 1)) \<and> v_sb_seq v' = v_sb_seq v + 1
     \<and> length data' = length data \<and> mem_get AGFS_SB_A_OFF 32 data' = mem_get AGFS_SB_A_OFF 32 data
     \<and> drop 1024 data' = drop 1024 data"
proof -
  let ?name = "mem_get AGFS_SB_A_OFF 32 data"
  let ?c = "sb_copy (sb_struct v ?name) (v_sb_seq v + 1)"
  note fs = sb_fill_struct [OF d, of v]
  have n: "length ?name = 32" using d by simp
  have st: "agfs_sb_dual_stamp v (sb_fill v data) = (v\<lparr>v_sb_seq := v_sb_seq v + 1\<rparr>, ?c @ ?c @ drop 1024 data)"
    using dual_stamp_copies [of "sb_fill v data" v] fs d by simp
  have "(ucast (ucast (v_sb_seq v + 1) :: u32) :: u64) = v_sb_seq v + 1"
    using seq(2) by (rule ucast_u32_u64)
  then have "sb_load (?c @ ?c @ drop 1024 data) = Inr (fresh_mount v (v_sb_seq v + 1))"
    using seq n v by (simp add: sb_load_copies sb_struct_magic sb_parse_struct)
  moreover have "mem_get AGFS_SB_A_OFF 32 (?c @ ?c @ drop 1024 data) = ?name"
    using n by (simp add: mem_get_append sb_copy_fields sb_struct_fields)
  ultimately show ?thesis using d n by (simp add: st)
qed

text \<open>A volume of four thousand blocks with a log of 64 blocks, and an empty block 0.\<close>

definition demo_vol :: agfs_vol where
  "demo_vol =
     \<lparr>v_sb = (demo_sb 0)\<lparr>s_num_blocks := 4000\<rparr>, v_bits = 10, v_num_ags = 1, v_root_inode = 70, v_indices_inode = 0,
      v_log_blocks = \<lparr>run_ag = 0, run_start = 2, run_len = 64\<rparr>, v_log_start = 0, v_log_end = 0,
      v_since_reset = 0, v_log_peak = 0, v_log_pending = False, v_pend_blocks = 0, v_tx = [],
      v_tx_depth = 0, v_tx_poisoned = False, v_log_draining = False, v_sb_seq = 4\<rparr>"

lemma demo_vol_ok: "vol_fields_ok demo_vol"
  by (simp add: vol_fields_ok_def demo_vol_def demo_sb_def)

theorem superblock_write_read_witness:
  "vol_fields_ok demo_vol \<and>
   sb_load (snd (agfs_sb_dual_stamp demo_vol (sb_fill demo_vol (replicate 1024 0)))) = Inr (fresh_mount demo_vol 5)"
proof -
  have "v_sb_seq demo_vol + 1 = 5" by (simp add: demo_vol_def)
  then show ?thesis
    using superblock_write_read [OF demo_vol_ok, of "replicate 1024 0"] demo_vol_ok by (simp split: prod.splits)
qed

text \<open>
  C13. A crash while block 0 is written leaves each of its sectors old or new, in any combination.
  When the old block was stamped and the new one is its successor, the mount reads the old
  superblock or the new one and nothing in between, and it reads the new one as soon as either of
  the two copies has reached the disk.
\<close>

theorem torn_superblock_is_old_or_new:
  assumes old: "old = sb_copy st q @ sb_copy st q @ rest" "length st = 132" "sb_magic_ok st" "v_sb_seq v = q"
    and data: "length data = length old" "sb_magic_ok (mem_get AGFS_SB_A_OFF 132 data)"
    and new: "new = snd (agfs_sb_dual_stamp v data)"
    and seq: "0 < unat q" "unat q + 1 < 2 ^ 32"
    and torn: "length torn = length old"
      "\<And>i. i < 2 \<Longrightarrow> mem_get (512 * i) 512 torn \<in> {mem_get (512 * i) 512 old, mem_get (512 * i) 512 new}"
  shows "sb_load torn =
     (if mem_get 0 512 torn = mem_get 0 512 new \<or> mem_get 512 512 torn = mem_get 512 512 new
      then sb_load new else sb_load old)"
proof -
  let ?sn = "mem_get AGFS_SB_A_OFF 132 data"
  have len: "1024 \<le> length data" using data(1) old by simp
  then have sn: "length ?sn = 132" by simp
  have n: "new = sb_copy ?sn (q + 1) @ sb_copy ?sn (q + 1) @ drop 1024 data"
    using dual_stamp_copies [OF len, of v] new old(4) by simp
  have q1: "unat (q + 1) = unat q + 1" using seq(2) by (simp add: unat_plus_if')
  have lt: "q < q + 1" using q1 by (simp add: word_less_nat_alt)
  have secs: "mem_get 0 512 old = sb_copy st q" "mem_get 512 512 old = sb_copy st q"
    "mem_get 0 512 new = sb_copy ?sn (q + 1)" "mem_get 512 512 new = sb_copy ?sn (q + 1)"
    using old sn by (simp_all add: n mem_get_def)
  have ne: "sb_copy st q \<noteq> sb_copy ?sn (q + 1)"
    using sb_copy_fields(2) [OF old(2), of q] sb_copy_fields(2) [OF sn, of "q + 1"] lt by auto
  have b: "mem_get 0 512 torn \<in> {sb_copy st q, sb_copy ?sn (q + 1)}"
    and a: "mem_get 512 512 torn \<in> {sb_copy st q, sb_copy ?sn (q + 1)}"
    using torn(2) [of 0] torn(2) [of 1] secs by simp_all
  obtain sb' qb where bb: "(sb', qb) \<in> {(st, q), (?sn, q + 1)}" "mem_get 0 512 torn = sb_copy sb' qb"
    using b by blast
  obtain sa qa where aa: "(sa, qa) \<in> {(st, q), (?sn, q + 1)}" "mem_get 512 512 torn = sb_copy sa qa"
    using a by blast
  have t: "torn = sb_copy sb' qb @ sb_copy sa qa @ drop 1024 torn"
  proof -
    have "drop 512 torn = sb_copy sa qa @ drop 1024 torn"
      using append_take_drop_id [of 512 "drop 512 torn"] aa(2) by (simp add: mem_get_def)
    then show ?thesis using append_take_drop_id [of 512 torn] bb(2) unfolding mem_get_def drop_0 by metis
  qed
  have load: "sb_load torn = (if qa < qb then sb_parse sb' (ucast qb) else sb_parse sa (ucast qa))"
    by (subst t, rule sb_load_copies) (use aa(1) bb(1) old(2,3) sn data(2) seq q1 in auto)
  have "sb_load old = sb_parse st (ucast q)" "sb_load new = sb_parse ?sn (ucast (q + 1))"
    unfolding old(1) n using old(2,3) sn data(2) seq q1 by (simp_all add: sb_load_copies)
  then show ?thesis unfolding load secs aa(2) bb(2) using aa(1) bb(1) lt ne by auto
qed

theorem torn_superblock_is_old_or_new_witness:
  "let name = replicate 32 0;
       old = sb_copy (sb_struct demo_vol name) 4 @ sb_copy (sb_struct demo_vol name) 4;
       new = snd (agfs_sb_dual_stamp demo_vol (sb_fill (demo_vol\<lparr>v_log_end := 9\<rparr>) old))
   in sb_load (take 512 new @ drop 512 old) = sb_load new"
proof -
  let ?name = "replicate 32 (0::byte)"
  let ?st = "sb_struct demo_vol ?name"
  let ?old = "sb_copy ?st 4 @ sb_copy ?st 4"
  let ?data = "sb_fill (demo_vol\<lparr>v_log_end := 9\<rparr>) ?old"
  let ?new = "snd (agfs_sb_dual_stamp demo_vol ?data)"
  let ?torn = "take 512 ?new @ drop 512 ?old"
  have st: "length ?st = 132" "sb_magic_ok ?st" by (simp_all add: sb_struct_magic)
  then have old: "length ?old = 1024" by simp
  have data: "length ?data = length ?old" "mem_get AGFS_SB_A_OFF 132 ?data = sb_struct (demo_vol\<lparr>v_log_end := 9\<rparr>) (mem_get 512 32 ?old)"
    using sb_fill_struct [of ?old "demo_vol\<lparr>v_log_end := 9\<rparr>"] old by simp_all
  have magic: "sb_magic_ok (mem_get AGFS_SB_A_OFF 132 ?data)"
    unfolding data(2) by (rule sb_struct_magic) (use old in simp)
  have new: "length ?new = 1024"
    using dual_stamp_copies [of ?data demo_vol] data(1) old by simp
  have seq: "v_sb_seq demo_vol = 4" by (simp add: demo_vol_def)
  have secs: "mem_get (512 * i) 512 ?torn \<in> {mem_get (512 * i) 512 ?old, mem_get (512 * i) 512 ?new}" if "i < 2" for i
    using that new old by (cases i) (auto simp: mem_get_def)
  have "sb_load ?torn =
     (if mem_get 0 512 ?torn = mem_get 0 512 ?new \<or> mem_get 512 512 ?torn = mem_get 512 512 ?new
      then sb_load ?new else sb_load ?old)"
    by (rule torn_superblock_is_old_or_new [where st = ?st and q = 4 and rest = "[]" and v = demo_vol and data = ?data])
       (use st old data(1) magic new seq secs in simp_all)
  then show ?thesis using new by (simp add: Let_def mem_get_def)
qed

end
