(* ===== verification/Agfs_Stream.thy ===== *)
theory Agfs_Stream
  imports Agfs_Super
begin

text \<open>
  The data streams of AGFS inodes, the block mapping of \<^verbatim>\<open>fs/agfs/inode.c\<close>: twelve direct runs of blocks, a table of
  further runs (the indirect run) and a table of table blocks (the double indirect run). \<open>agfs_bmap\<close> maps an
  offset to a block and allocates when it is to be written; \<open>agfs_trim_prealloc\<close> and \<open>truncate_stream\<close> give blocks back.

  A run of the stream is positional: it covers the part of the file behind the runs before it. Block numbers
  are natural numbers, the fields of a run are cut to their width where they are assigned. The content
  of the blocks is a function, with a second one for the blocks that can be read.
\<close>

subsection \<open>State\<close>

record data_stream =
  ds_direct :: "block_run list"
  ds_max_direct :: nat
  ds_indirect :: block_run
  ds_max_indirect :: nat
  ds_double :: block_run
  ds_max_double :: nat
  ds_size :: nat

record stream_vol =
  sv_sb :: agfs_sb
  sv_blk :: "nat \<Rightarrow> byte list"
  sv_rd :: "nat \<Rightarrow> bool"

abbreviation (input) AGFS_NUM_DIRECT_BLOCKS :: nat where "AGFS_NUM_DIRECT_BLOCKS \<equiv> 12"
abbreviation (input) AGFS_DELALLOC_WINDOW :: nat where "AGFS_DELALLOC_WINDOW \<equiv> 256"

abbreviation sv_bs :: "stream_vol \<Rightarrow> nat" where "sv_bs v \<equiv> s_block_size (sv_sb v)"
abbreviation sv_shift :: "stream_vol \<Rightarrow> nat" where "sv_shift v \<equiv> s_ag_shift (sv_sb v)"

definition sv_bread :: "stream_vol \<Rightarrow> nat \<Rightarrow> byte list option" where
  "sv_bread v b = (if sv_rd v b then Some (sv_blk v b) else None)"

definition sv_bwrite :: "stream_vol \<Rightarrow> nat \<Rightarrow> byte list \<Rightarrow> stream_vol" where
  "sv_bwrite v b d = v\<lparr>sv_blk := (sv_blk v)(b := d)\<rparr>"

text \<open>A run at block 0 of the volume counts as empty.\<close>

definition run_empty :: "block_run \<Rightarrow> bool" where
  "run_empty r \<longleftrightarrow> run_len r = 0 \<or> run_ag r = 0 \<and> run_start r = 0"

definition run_base :: "nat \<Rightarrow> block_run \<Rightarrow> nat" where
  "run_base sh r = push_bit sh (run_ag r) + run_start r"

definition no_run :: block_run where
  "no_run = \<lparr>run_ag = 0, run_start = 0, run_len = 0\<rparr>"

definition new_run :: "nat \<Rightarrow> nat \<Rightarrow> nat \<Rightarrow> block_run" where
  "new_run sh nb len = (agfs_run_encode no_run nb sh)\<lparr>run_len := len mod 2 ^ 16\<rparr>"

definition longer_run :: "block_run \<Rightarrow> block_run" where
  "longer_run r = r\<lparr>run_len := (run_len r + 1) mod 2 ^ 16\<rparr>"

subsection \<open>The indirect tables\<close>

definition agfs_indirect_table_block :: "stream_vol \<Rightarrow> data_stream \<Rightarrow> nat \<Rightarrow> nat" where
  "agfs_indirect_table_block v ds t =
     (if t < run_len (ds_indirect ds) then run_base (sv_shift v) (ds_indirect ds) + t
      else
        (let t = t - run_len (ds_indirect ds); darray = sv_bs v div 4
         in case sv_bread v (run_base (sv_shift v) (ds_double ds) + t div darray) of
              None \<Rightarrow> 0
            | Some d \<Rightarrow> le_val (mem_get (4 * (t mod darray)) 4 d)))"

definition table_len :: "nat \<Rightarrow> data_stream \<Rightarrow> nat" where
  "table_len bs ds =
     (if run_len (ds_indirect ds) = 0 then 0 else run_len (ds_indirect ds) + run_len (ds_double ds) * (bs div 4))"

definition table_runs :: "nat \<Rightarrow> byte list \<Rightarrow> block_run list" where
  "table_runs bs d = map (\<lambda>j. dec_run (mem_get (8 * j) 8 d)) [0..<bs div 8]"

definition put_run :: "nat \<Rightarrow> block_run \<Rightarrow> byte list \<Rightarrow> byte list" where
  "put_run j r d = mem_put (8 * j) (enc_run r) d"

datatype table_pos = Table_found nat | Table_free nat nat | Table_full nat

fun table_scan :: "nat \<Rightarrow> nat \<Rightarrow> nat \<Rightarrow> nat \<Rightarrow> block_run list \<Rightarrow> table_pos" where
  "table_scan sh block j covered [] = Table_full covered"
| "table_scan sh block j covered (r # rs) =
     (if run_empty r then Table_free j covered
      else if block < covered + run_len r then Table_found (run_base sh r + (block - covered))
      else table_scan sh block (j + 1) (covered + run_len r) rs)"

text \<open>The walk over the tables ends at a run, a free slot, the first table that is not there, or behind all.\<close>

datatype table_walk = Walk_error errno | Walk_found nat | Walk_free nat nat nat | Walk_end nat

fun indirect_walk :: "stream_vol \<Rightarrow> data_stream \<Rightarrow> nat \<Rightarrow> nat \<Rightarrow> nat list \<Rightarrow> table_walk" where
  "indirect_walk v ds block covered [] = Walk_end (table_len (sv_bs v) ds)"
| "indirect_walk v ds block covered (t # ts) =
     (let tbl = agfs_indirect_table_block v ds t
      in if tbl = 0 then Walk_end t
         else
           (case sv_bread v tbl of
              None \<Rightarrow> Walk_error EIO
            | Some d \<Rightarrow>
                (case table_scan (sv_shift v) block 0 covered (table_runs (sv_bs v) d) of
                   Table_found b \<Rightarrow> Walk_found b
                 | Table_free j c \<Rightarrow> Walk_free tbl j c
                 | Table_full c \<Rightarrow> indirect_walk v ds block c ts)))"

text \<open>A write into a free slot: the run before it grows, or the slot gets a run of one block.\<close>

definition indirect_fill :: "nat \<Rightarrow> nat \<Rightarrow> nat \<Rightarrow> nat \<Rightarrow> stream_vol \<Rightarrow> (stream_vol \<times> nat result) option" where
  "indirect_fill tbl j covered block v =
     (let runs = table_runs (sv_bs v) (sv_blk v tbl); pr = runs ! (j - 1);
          next = run_base (sv_shift v) pr + run_len pr
      in if block > covered then Some (v, Inl EIO)
         else
           (case (if j > 0 then agfs_balloc_specific (sv_sb v) next else (sv_sb v, Some EEXIST)) of
              (sb, None) \<Rightarrow> Some (sv_bwrite (v\<lparr>sv_sb := sb\<rparr>) tbl (put_run (j - 1) (longer_run pr) (sv_blk v tbl)), Inr next)
            | (_, Some _) \<Rightarrow>
                (case agfs_balloc (sv_sb v) of
                   None \<Rightarrow> None
                 | Some (sb, Inl e) \<Rightarrow> Some (v\<lparr>sv_sb := sb\<rparr>, Inl e)
                 | Some (sb, Inr nb) \<Rightarrow>
                     Some (sv_bwrite (v\<lparr>sv_sb := sb\<rparr>) tbl (put_run j (new_run (sv_shift v) nb 1) (sv_blk v tbl)), Inr nb))))"

text \<open>A block of zeros.\<close>

definition zero_block :: "nat \<Rightarrow> stream_vol \<Rightarrow> (stream_vol \<times> unit result)" where
  "zero_block b v = (case sv_bread v b of None \<Rightarrow> (v, Inl EIO) | Some _ \<Rightarrow> (sv_bwrite v b (replicate (sv_bs v) 0), Inr ()))"

text \<open>The double indirect table gets one more block.\<close>

definition double_grow :: "data_stream \<Rightarrow> stream_vol \<Rightarrow> (data_stream \<times> stream_vol \<times> unit result) option" where
  "double_grow ds v =
     (let dd = ds_double ds; sh = sv_shift v;
          zero = (\<lambda>ds v. Some (ds, zero_block (run_base sh (ds_double ds) + run_len (ds_double ds) - 1) v))
      in if run_len dd = 0 then
           (case agfs_balloc (sv_sb v) of
              None \<Rightarrow> None
            | Some (sb, Inl e) \<Rightarrow> Some (ds, v\<lparr>sv_sb := sb\<rparr>, Inl e)
            | Some (sb, Inr next) \<Rightarrow> zero (ds\<lparr>ds_double := new_run sh next 1\<rparr>) (v\<lparr>sv_sb := sb\<rparr>))
         else
           (case agfs_balloc_specific (sv_sb v) (run_base sh dd + run_len dd) of
              (sb, None) \<Rightarrow> zero (ds\<lparr>ds_double := longer_run dd\<rparr>) (v\<lparr>sv_sb := sb\<rparr>)
            | (_, Some _) \<Rightarrow> Some (ds, v, Inl ENOSPC)))"

text \<open>A new table block whose address goes into the double indirect table.\<close>

definition double_record :: "nat \<Rightarrow> data_stream \<Rightarrow> stream_vol \<Rightarrow> (data_stream \<times> stream_vol \<times> unit result) option" where
  "double_record dslot ds v =
     (let darray = sv_bs v div 4; dblk = run_base (sv_shift v) (ds_double ds) + dslot div darray
      in case agfs_balloc (sv_sb v) of
           None \<Rightarrow> None
         | Some (sb, Inl e) \<Rightarrow> Some (ds, v\<lparr>sv_sb := sb\<rparr>, Inl e)
         | Some (sb, Inr next) \<Rightarrow>
             (case sv_bread v dblk of
                None \<Rightarrow> Some (ds, v\<lparr>sv_sb := sb\<rparr>, Inl EIO)
              | Some d \<Rightarrow>
                  Some (ds, sv_bwrite (v\<lparr>sv_sb := sb\<rparr>) dblk (mem_put (4 * (dslot mod darray)) (le_enc 4 next) d), Inr ())))"

text \<open>The table grows by one block; the result is the slot of the new block.\<close>

definition table_extend :: "nat \<Rightarrow> data_stream \<Rightarrow> stream_vol \<Rightarrow> (data_stream \<times> stream_vol \<times> nat result) option" where
  "table_extend t ds v =
     (let ind = ds_indirect ds; sh = sv_shift v
      in if table_len (sv_bs v) ds = 0 then
           (case agfs_balloc (sv_sb v) of
              None \<Rightarrow> None
            | Some (sb, Inl e) \<Rightarrow> Some (ds, v\<lparr>sv_sb := sb\<rparr>, Inl e)
            | Some (sb, Inr next) \<Rightarrow> Some (ds\<lparr>ds_indirect := new_run sh next 1\<rparr>, v\<lparr>sv_sb := sb\<rparr>, Inr 0))
         else
           (case (if run_len (ds_double ds) = 0 then agfs_balloc_specific (sv_sb v) (run_base sh ind + run_len ind)
                  else (sv_sb v, Some EEXIST)) of
              (sb, None) \<Rightarrow> Some (ds\<lparr>ds_indirect := longer_run ind\<rparr>, v\<lparr>sv_sb := sb\<rparr>, Inr (run_len (longer_run ind) - 1))
            | (_, Some _) \<Rightarrow>
                (let dslot = (t + 2 ^ 32 - run_len ind) mod 2 ^ 32
                 in case (if dslot \<ge> run_len (ds_double ds) * (sv_bs v div 4) then double_grow ds v else Some (ds, v, Inr ())) of
                      None \<Rightarrow> None
                    | Some (ds, v, Inl e) \<Rightarrow> Some (ds, v, Inl e)
                    | Some (ds, v, Inr _) \<Rightarrow>
                        (case double_record dslot ds v of
                           None \<Rightarrow> None
                         | Some (ds, v, Inl e) \<Rightarrow> Some (ds, v, Inl e)
                         | Some (ds, v, Inr _) \<Rightarrow> Some (ds, v, Inr t)))))"

definition indirect_grow :: "nat \<Rightarrow> data_stream \<Rightarrow> stream_vol \<Rightarrow> (data_stream \<times> stream_vol \<times> unit result) option" where
  "indirect_grow t ds v =
     (case table_extend t ds v of
        None \<Rightarrow> None
      | Some (ds, v, Inl e) \<Rightarrow> Some (ds, v, Inl e)
      | Some (ds, v, Inr slot) \<Rightarrow>
          (case zero_block (agfs_indirect_table_block v ds slot) v of
             (v, Inl e) \<Rightarrow> Some (ds, v, Inl e)
           | (v, Inr _) \<Rightarrow>
               (let rng = (run_len (ds_indirect ds) + run_len (ds_double ds) * (sv_bs v div 4)) * (sv_bs v div 8) * sv_bs v
                in Some (ds\<lparr>ds_max_indirect := rng, ds_max_double := rng\<rparr>, v, Inr ()))))"

partial_function (option) agfs_indirect_bmap :: "nat \<Rightarrow> bool \<Rightarrow> data_stream \<Rightarrow> stream_vol \<Rightarrow> (data_stream \<times> stream_vol \<times> nat result) option" where
  "agfs_indirect_bmap offset wr ds v =
     (let bs = sv_bs v; block = (offset div bs + 2 ^ 32 - ds_max_direct ds div bs mod 2 ^ 32) mod 2 ^ 32
      in case indirect_walk v ds block 0 [0..<table_len bs ds] of
           Walk_error e \<Rightarrow> Some (ds, v, Inl e)
         | Walk_found b \<Rightarrow> Some (ds, v, Inr b)
         | Walk_free tbl j covered \<Rightarrow>
             if wr then (case indirect_fill tbl j covered block v of None \<Rightarrow> None | Some (v, r) \<Rightarrow> Some (ds, v, r))
             else Some (ds, v, Inr 0)
         | Walk_end t \<Rightarrow>
             if wr then
               (case indirect_grow t ds v of
                  None \<Rightarrow> None
                | Some (ds, v, r) \<Rightarrow>
                    (case r of Inl e \<Rightarrow> Some (ds, v, Inl e) | Inr _ \<Rightarrow> agfs_indirect_bmap offset wr ds v))
             else Some (ds, v, Inr 0))"

subsection \<open>The direct runs\<close>

text \<open>The block of an offset in the runs, or the first empty run and the number of blocks before it.\<close>

fun direct_scan :: "nat \<Rightarrow> nat \<Rightarrow> nat \<Rightarrow> nat \<Rightarrow> block_run list \<Rightarrow> nat + nat option \<times> nat" where
  "direct_scan sh block run covered [] = Inr (None, covered)"
| "direct_scan sh block run covered (r # rs) =
     (if run_empty r then Inr (Some run, covered)
      else if block < covered + run_len r then Inl (run_base sh r + (block - covered))
      else direct_scan sh block (run + 1) (covered + run_len r) rs)"

text \<open>The next block of the last run, when there is one and it is free.\<close>

definition extend_last :: "nat \<Rightarrow> nat \<Rightarrow> nat \<Rightarrow> nat \<Rightarrow> agfs_sb \<Rightarrow> agfs_sb \<times> nat option" where
  "extend_last nrun last_ag last_start last_len sb =
     (let nb = push_bit (s_ag_shift sb) last_ag + last_start + last_len
      in if nrun > 0 \<and> last_len \<noteq> 0 then (case agfs_balloc_specific sb nb of (sb', None) \<Rightarrow> (sb', Some nb) | (_, Some _) \<Rightarrow> (sb, None))
         else (sb, None))"

definition set_run :: "nat \<Rightarrow> block_run \<Rightarrow> nat \<Rightarrow> data_stream \<Rightarrow> data_stream" where
  "set_run run r rng ds = ds\<lparr>ds_direct := (ds_direct ds)[run := r], ds_max_direct := rng\<rparr>"

partial_function (option) bmap_grow ::
  "nat \<Rightarrow> nat \<Rightarrow> nat \<Rightarrow> nat \<Rightarrow> nat \<Rightarrow> nat \<Rightarrow> nat \<Rightarrow> data_stream \<Rightarrow> stream_vol \<Rightarrow> (data_stream \<times> stream_vol \<times> nat result) option" where
  "bmap_grow offset block last_ag last_start last_len nrun covered ds v =
     (if block < covered then Some (ds, v, Inr 0)
      else
        (case extend_last nrun last_ag last_start last_len (sv_sb v) of
           (sb, Some nb) \<Rightarrow>
             (let ds' = set_run (nrun - 1) (longer_run (ds_direct ds ! (nrun - 1))) ((covered + 1) * sv_bs v) ds
              in if block < covered + 1 then Some (ds', v\<lparr>sv_sb := sb\<rparr>, Inr nb)
                 else bmap_grow offset block last_ag last_start (last_len + 1) nrun (covered + 1) ds' (v\<lparr>sv_sb := sb\<rparr>))
         | (sb, None) \<Rightarrow>
             if nrun \<ge> AGFS_NUM_DIRECT_BLOCKS then agfs_indirect_bmap offset True ds v
             else
               (case agfs_balloc_contig (sv_sb v) AGFS_DELALLOC_WINDOW of
                  None \<Rightarrow> None
                | Some (sb, res) \<Rightarrow>
                    (case res of
                       Inl e \<Rightarrow> Some (ds, v\<lparr>sv_sb := sb\<rparr>, Inl e)
                     | Inr (nb, wlen) \<Rightarrow>
                         (let r = new_run (sv_shift v) nb wlen; ds' = set_run nrun r ((covered + wlen) * sv_bs v) ds
                          in if block < covered + wlen then Some (ds', v\<lparr>sv_sb := sb\<rparr>, Inr nb)
                             else bmap_grow offset block (run_ag r) (run_start r) wlen (nrun + 1) (covered + wlen) ds' (v\<lparr>sv_sb := sb\<rparr>))))))"

definition agfs_bmap :: "nat \<Rightarrow> bool \<Rightarrow> data_stream \<Rightarrow> stream_vol \<Rightarrow> (data_stream \<times> stream_vol \<times> nat result) option" where
  "agfs_bmap offset wr ds v =
     (let block = offset div sv_bs v
      in case direct_scan (sv_shift v) block 0 0 (ds_direct ds) of
           Inl b \<Rightarrow> Some (ds, v, Inr b)
         | Inr (nrun, covered) \<Rightarrow>
             if block < covered then Some (ds, v, if wr then Inl EIO else Inr 0)
             else
               (case nrun of
                  None \<Rightarrow> agfs_indirect_bmap offset wr ds v
                | Some n \<Rightarrow>
                    if \<not> wr then Some (ds, v, Inr 0)
                    else
                      (let last = (if n = 0 then no_run else ds_direct ds ! (n - 1))
                       in bmap_grow offset block (run_ag last) (run_start last) (run_len last) n covered ds v)))"

subsection \<open>Giving blocks back\<close>

definition free_blocks :: "nat \<Rightarrow> nat \<Rightarrow> nat \<Rightarrow> agfs_sb \<Rightarrow> agfs_sb" where
  "free_blocks base from until sb = fold (\<lambda>n sb. agfs_bfree sb (base + n)) [from..<until] sb"

text \<open>The part of the last direct run behind the end of the file.\<close>

definition agfs_trim_prealloc :: "bool \<Rightarrow> nat \<Rightarrow> data_stream \<Rightarrow> stream_vol \<Rightarrow> data_stream \<times> stream_vol" where
  "agfs_trim_prealloc stream_file fsize ds v =
     (if \<not> stream_file \<or> fsize = 0 then (ds, v)
      else
        (let used = (fsize + sv_bs v - 1) div sv_bs v; runs = takeWhile (\<lambda>r. \<not> run_empty r) (ds_direct ds);
             cov = sum_list (map run_len runs); lst = length runs - 1; r = ds_direct ds ! lst
         in if runs = [] \<or> cov \<le> used then (ds, v)
            else
              (let cut = min (cov - used) (run_len r); r' = r\<lparr>run_len := run_len r - cut\<rparr>
               in (ds\<lparr>ds_direct := (ds_direct ds)[lst := (if run_len r' = 0 then no_run else r')]\<rparr>,
                   v\<lparr>sv_sb := free_blocks (run_base (sv_shift v) r) (run_len r - cut) (run_len r) (sv_sb v)\<rparr>))))"

fun truncate_runs :: "nat \<Rightarrow> nat \<Rightarrow> nat \<Rightarrow> nat \<Rightarrow> block_run list \<Rightarrow> agfs_sb \<Rightarrow> block_run list \<times> agfs_sb \<times> nat" where
  "truncate_runs bs sh len covered [] sb = ([], sb, covered)"
| "truncate_runs bs sh len covered (r # rs) sb =
     (if run_empty r then (r # rs, sb, covered)
      else
        (let run_end = covered + run_len r * bs; keep = (len - covered + bs - 1) div bs;
             (r', sb) =
               (if covered \<ge> len then (no_run, free_blocks (run_base sh r) 0 (run_len r) sb)
                else if run_end > len then (r\<lparr>run_len := keep mod 2 ^ 16\<rparr>, free_blocks (run_base sh r) keep (run_len r) sb)
                else (r, sb));
             (rs', sb, c) = truncate_runs bs sh len run_end rs sb
         in (r' # rs', sb, c)))"

fun truncate_tables :: "nat \<Rightarrow> data_stream \<Rightarrow> nat \<Rightarrow> nat list \<Rightarrow> stream_vol \<Rightarrow> stream_vol" where
  "truncate_tables len ds covered [] v = v"
| "truncate_tables len ds covered (t # ts) v =
     (let tbl = agfs_indirect_table_block v ds t
      in case (if tbl = 0 then None else sv_bread v tbl) of
           None \<Rightarrow> v
         | Some d \<Rightarrow>
             (let (runs, sb, c) = truncate_runs (sv_bs v) (sv_shift v) len covered (table_runs (sv_bs v) d) (sv_sb v)
              in truncate_tables len ds c ts
                   (sv_bwrite (v\<lparr>sv_sb := sb\<rparr>) tbl (mem_put 0 (concat (map enc_run runs)) d))))"

text \<open>The tables themselves, when the new end is within the direct range.\<close>

definition free_double_block :: "nat \<Rightarrow> stream_vol \<Rightarrow> stream_vol" where
  "free_double_block b v =
     (let addrs = (case sv_bread v b of None \<Rightarrow> [] | Some d \<Rightarrow> map (\<lambda>s. le_val (mem_get (4 * s) 4 d)) [0..<sv_bs v div 4]);
          sb = fold (\<lambda>a sb. if a \<noteq> 0 \<and> a < s_num_blocks sb then agfs_bfree sb a else sb) addrs (sv_sb v)
      in v\<lparr>sv_sb := agfs_bfree sb b\<rparr>)"

definition release_tables :: "data_stream \<Rightarrow> stream_vol \<Rightarrow> data_stream \<times> stream_vol" where
  "release_tables ds v =
     (let ind = ds_indirect ds; dbl = ds_double ds; sh = sv_shift v;
          v = v\<lparr>sv_sb := free_blocks (run_base sh ind) 0 (run_len ind) (sv_sb v)\<rparr>;
          v = fold (\<lambda>n. free_double_block (run_base sh dbl + n)) [0..<run_len dbl] v
      in (ds\<lparr>ds_indirect := no_run, ds_double := no_run, ds_max_indirect := 0, ds_max_double := 0\<rparr>, v))"

definition truncate_stream :: "nat \<Rightarrow> data_stream \<Rightarrow> stream_vol \<Rightarrow> data_stream \<times> stream_vol" where
  "truncate_stream len ds v =
     (let (runs, sb, _) = truncate_runs (sv_bs v) (sv_shift v) len 0 (ds_direct ds) (sv_sb v);
          ds = ds\<lparr>ds_direct := runs\<rparr>;
          v = truncate_tables len ds (ds_max_direct ds) [0..<table_len (sv_bs v) ds] (v\<lparr>sv_sb := sb\<rparr>)
      in if len \<le> ds_max_direct ds then release_tables ds v else (ds, v))"

declare agfs_indirect_bmap.simps [code] bmap_grow.simps [code]

end
