(* ===== verification/Stream_Direct.thy ===== *)
theory Stream_Direct
  imports Agfs_Stream
begin

text \<open>
  The direct runs of a stream as a list of blocks. The block map extends the list at its end by blocks that were free, the
  trim and the truncate cut it, and every call keeps the invariant \<open>stream_ok\<close>: twelve slots, the empty ones at the end, no block twice,
  and every block in use on the volume.
\<close>

subsection \<open>The block size is not changed by the allocator\<close>

lemma bitmap_block_size [simp]:
  "s_block_size (agfs_bitmap_set sb b) = s_block_size sb" "s_block_size (agfs_bitmap_clear sb b) = s_block_size sb"
  by (simp_all add: agfs_bitmap_set_def agfs_bitmap_clear_def)

lemma contig_take_block_size: "s_block_size (fst (contig_take sb first want got)) = s_block_size sb"
proof (induction sb first want got rule: contig_take.induct)
  case (1 sb first want got)
  then show ?case by (subst contig_take.simps) (auto simp: Let_def)
qed

lemma alloc_block_size:
  "agfs_balloc sb = Some (sb1, r) \<Longrightarrow> s_block_size sb1 = s_block_size sb"
  "agfs_balloc_specific sb b = (sb2, st) \<Longrightarrow> s_block_size sb2 = s_block_size sb"
  "agfs_balloc_contig sb want = Some (sb3, r') \<Longrightarrow> s_block_size sb3 = s_block_size sb"
  "s_block_size (agfs_bfree sb b) = s_block_size sb"
  using contig_take_block_size [of sb _ want 0]
  by (auto simp: agfs_balloc_def agfs_balloc_specific_def agfs_balloc_contig_def agfs_bfree_def
      split: option.splits if_splits prod.splits) (metis fst_conv)+

subsection \<open>A stream as a list of blocks\<close>

definition direct_runs :: "data_stream \<Rightarrow> block_run list" where
  "direct_runs ds = takeWhile (\<lambda>r. \<not> run_empty r) (ds_direct ds)"

definition run_blocks :: "nat \<Rightarrow> block_run \<Rightarrow> nat list" where
  "run_blocks sh r = [run_base sh r..<run_base sh r + run_len r]"

definition runs_blocks :: "nat \<Rightarrow> block_run list \<Rightarrow> nat list" where
  "runs_blocks sh rs = concat (map (run_blocks sh) rs)"

definition stream_blocks :: "nat \<Rightarrow> data_stream \<Rightarrow> nat list" where
  "stream_blocks sh ds = runs_blocks sh (direct_runs ds)"

lemma runs_blocks_simps [simp]:
  "runs_blocks sh [] = []" "runs_blocks sh (r # rs) = run_blocks sh r @ runs_blocks sh rs"
  "runs_blocks sh (rs @ qs) = runs_blocks sh rs @ runs_blocks sh qs"
  by (simp_all add: runs_blocks_def)

lemma length_run_blocks [simp]: "length (run_blocks sh r) = run_len r"
  by (simp add: run_blocks_def)

lemma length_runs_blocks: "length (runs_blocks sh rs) = sum_list (map run_len rs)"
  by (induction rs) auto

definition vol_ok :: "stream_vol \<Rightarrow> bool" where
  "vol_ok v \<longleftrightarrow> sb_inv (sv_sb v) \<and> 0 \<in> used_set (sv_sb v) \<and> sv_shift v \<le> 16 \<and> 0 < sv_bs v"

definition stream_ok :: "stream_vol \<Rightarrow> data_stream \<Rightarrow> bool" where
  "stream_ok v ds \<longleftrightarrow>
     length (ds_direct ds) = AGFS_NUM_DIRECT_BLOCKS \<and> (\<forall>r \<in> set (drop (length (direct_runs ds)) (ds_direct ds)). run_empty r)
     \<and> distinct (stream_blocks (sv_shift v) ds) \<and> set (stream_blocks (sv_shift v) ds) \<subseteq> used_set (sv_sb v)
     \<and> length (stream_blocks (sv_shift v) ds) < 2 ^ 16 \<and> run_len (ds_indirect ds) = 0 \<and> run_len (ds_double ds) = 0"

lemma direct_scan_runs:
  "direct_scan sh block run cov rs =
     (let bs = runs_blocks sh (takeWhile (\<lambda>r. \<not> run_empty r) rs); n = length (takeWhile (\<lambda>r. \<not> run_empty r) rs)
      in if block < cov + length bs then Inl (bs ! (block - cov)) else Inr (if n = length rs then None else Some (run + n), cov + length bs))"
  if "cov \<le> block"
  using that
proof (induction rs arbitrary: run cov)
  case (Cons r rs)
  show ?case
  proof (cases "run_empty r \<or> block < cov + run_len r")
    case True
    then show ?thesis using Cons.prems by (auto simp: Let_def nth_append run_blocks_def)
  next
    case False
    then show ?thesis using Cons.IH [of "cov + run_len r" "run + 1"] Cons.prems
      by (auto simp: Let_def nth_append split: if_splits)
  qed
qed simp

lemma bmap_scan:
  "direct_scan sh block 0 0 (ds_direct ds) =
     (if block < length (stream_blocks sh ds) then Inl (stream_blocks sh ds ! block)
      else Inr (if length (direct_runs ds) = length (ds_direct ds) then None else Some (length (direct_runs ds)), length (stream_blocks sh ds)))"
  by (simp add: direct_scan_runs Let_def stream_blocks_def direct_runs_def)

lemma bmap_mapped:
  "offset div sv_bs v < length (stream_blocks (sv_shift v) ds) \<Longrightarrow>
     agfs_bmap offset wr ds v = Some (ds, v, Inr (stream_blocks (sv_shift v) ds ! (offset div sv_bs v)))"
  by (simp add: agfs_bmap_def bmap_scan)

lemma bmap_unmapped_read:
  "length (stream_blocks (sv_shift v) ds) \<le> offset div sv_bs v \<Longrightarrow> length (direct_runs ds) < length (ds_direct ds) \<Longrightarrow>
     agfs_bmap offset False ds v = Some (ds, v, Inr 0)"
  by (simp add: agfs_bmap_def bmap_scan Let_def)

subsection \<open>Growth\<close>

definition stream_grown :: "stream_vol \<Rightarrow> data_stream \<Rightarrow> stream_vol \<Rightarrow> data_stream \<Rightarrow> nat list \<Rightarrow> bool" where
  "stream_grown v ds v' ds' new \<longleftrightarrow>
     vol_ok v' \<and> stream_ok v' ds' \<and> stream_blocks (sv_shift v) ds' = stream_blocks (sv_shift v) ds @ new
     \<and> set new \<inter> used_set (sv_sb v) = {} \<and> used_set (sv_sb v') = used_set (sv_sb v) \<union> set new
     \<and> sv_blk v' = sv_blk v \<and> sv_rd v' = sv_rd v \<and> sv_shift v' = sv_shift v \<and> sv_bs v' = sv_bs v
     \<and> s_num_blocks (sv_sb v') = s_num_blocks (sv_sb v) \<and> ds_size ds' = ds_size ds
     \<and> length (direct_runs ds) \<le> length (direct_runs ds')"

lemma stream_grown_refl: "vol_ok v \<Longrightarrow> stream_ok v ds \<Longrightarrow> stream_grown v ds v ds []"
  by (simp add: stream_grown_def)

lemma stream_grown_trans: "stream_grown v ds v1 ds1 new1 \<Longrightarrow> stream_grown v1 ds1 v2 ds2 new2 \<Longrightarrow> stream_grown v ds v2 ds2 (new1 @ new2)"
  by (auto simp: stream_grown_def)

lemma run_not_empty_base: "\<not> run_empty r \<Longrightarrow> run_base sh r \<noteq> 0"
  by (auto simp: run_empty_def run_base_def)

lemma new_run_base:
  assumes "nb < 2 ^ 31" "sh \<le> 16"
  shows "run_base sh (new_run sh nb len) = nb" "run_len (new_run sh nb len) = len mod 2 ^ 16"
    "run_empty (new_run sh nb len) \<longleftrightarrow> len mod 2 ^ 16 = 0 \<or> nb = 0"
proof -
  have "nb mod 2 ^ sh < 2 ^ sh" by simp
  also have "\<dots> \<le> (2 ^ 16 :: nat)" using assms(2) by (rule power_increasing) simp
  finally have s: "nb mod 2 ^ sh mod 2 ^ 16 = nb mod 2 ^ sh" by simp
  have "nb div 2 ^ sh < 2 ^ 31" using assms(1) by (rule le_less_trans [OF div_le_dividend])
  then have "nb div 2 ^ sh < 2 ^ 32" by (rule less_trans) simp
  then have a: "nb div 2 ^ sh mod 2 ^ 32 = nb div 2 ^ sh" by simp
  show b: "run_base sh (new_run sh nb len) = nb"
    using s a by (simp add: run_base_def new_run_def agfs_run_encode_def no_run_def drop_bit_eq_div take_bit_eq_mod push_bit_eq_mult div_mult_mod_eq)
  show l: "run_len (new_run sh nb len) = len mod 2 ^ 16" by (simp add: new_run_def)
  have "run_ag (new_run sh nb len) = 0 \<and> run_start (new_run sh nb len) = 0 \<longleftrightarrow> nb = 0"
    using b by (auto simp: run_base_def new_run_def agfs_run_encode_def)
  then show "run_empty (new_run sh nb len) \<longleftrightarrow> len mod 2 ^ 16 = 0 \<or> nb = 0" using l by (simp add: run_empty_def)
qed

lemma runs_upto:
  assumes "stream_ok v ds"
  shows "ds_direct ds = direct_runs ds @ drop (length (direct_runs ds)) (ds_direct ds)" "length (direct_runs ds) \<le> 12"
    "\<forall>r \<in> set (direct_runs ds). \<not> run_empty r"
proof -
  have t: "take (length (direct_runs ds)) (ds_direct ds) = direct_runs ds"
    unfolding direct_runs_def by (rule takeWhile_eq_take [symmetric])
  show "ds_direct ds = direct_runs ds @ drop (length (direct_runs ds)) (ds_direct ds)"
    by (subst t [symmetric]) (rule append_take_drop_id [symmetric])
  have "length (direct_runs ds) \<le> length (ds_direct ds)" unfolding direct_runs_def by (rule length_takeWhile_le)
  moreover have "length (ds_direct ds) = 12" using assms unfolding stream_ok_def by blast
  ultimately show "length (direct_runs ds) \<le> 12" by simp
  show "\<forall>r \<in> set (direct_runs ds). \<not> run_empty r" unfolding direct_runs_def by (blast dest: set_takeWhileD)
qed

lemma direct_runs_append:
  "\<forall>r \<in> set rs. \<not> run_empty r \<Longrightarrow> \<forall>r \<in> set qs. run_empty r \<Longrightarrow> ds_direct ds = rs @ qs \<Longrightarrow> direct_runs ds = rs"
  by (cases qs) (simp_all add: direct_runs_def takeWhile_tail)

lemma stream_okI:
  assumes "ds_direct ds = rs @ qs" "length (rs @ qs) = 12" "\<forall>r \<in> set rs. \<not> run_empty r" "\<forall>r \<in> set qs. run_empty r"
    and "distinct (runs_blocks (sv_shift v) rs)" "set (runs_blocks (sv_shift v) rs) \<subseteq> used_set (sv_sb v)"
    and "length (runs_blocks (sv_shift v) rs) < 2 ^ 16" "run_len (ds_indirect ds) = 0" "run_len (ds_double ds) = 0"
  shows "stream_ok v ds" "stream_blocks sh ds = runs_blocks sh rs" "direct_runs ds = rs"
proof -
  show d: "direct_runs ds = rs" by (rule direct_runs_append [OF assms(3,4,1)])
  show "stream_blocks sh ds = runs_blocks sh rs" by (simp add: stream_blocks_def d)
  show "stream_ok v ds" using assms by (simp add: stream_ok_def d stream_blocks_def)
qed

lemma stream_grown_runs:
  assumes V: "vol_ok v" and S: "stream_ok v ds"
    and sb: "sb_inv sb" "s_num_blocks sb = s_num_blocks (sv_sb v)" "s_ag_shift sb = sv_shift v" "s_block_size sb = sv_bs v"
    and U: "used_set sb = used_set (sv_sb v) \<union> set new" "set new \<inter> used_set (sv_sb v) = {}" "distinct new"
    and R: "ds_direct ds' = rs @ qs" "length (rs @ qs) = 12" "\<forall>r \<in> set rs. \<not> run_empty r" "\<forall>r \<in> set qs. run_empty r"
    and B: "runs_blocks (sv_shift v) rs = stream_blocks (sv_shift v) ds @ new" "length (stream_blocks (sv_shift v) ds @ new) < 2 ^ 16"
    and D: "ds_indirect ds' = ds_indirect ds" "ds_double ds' = ds_double ds" "ds_size ds' = ds_size ds" "length (direct_runs ds) \<le> length rs"
  shows "stream_grown v ds (v\<lparr>sv_sb := sb\<rparr>) ds' new" "direct_runs ds' = rs"
proof -
  let ?v = "v\<lparr>sv_sb := sb\<rparr>"
  have s: "distinct (stream_blocks (sv_shift v) ds)" "set (stream_blocks (sv_shift v) ds) \<subseteq> used_set (sv_sb v)"
    "run_len (ds_indirect ds') = 0" "run_len (ds_double ds') = 0" using S D by (simp_all add: stream_ok_def)
  have "distinct (runs_blocks (sv_shift ?v) rs)" "set (runs_blocks (sv_shift ?v) rs) \<subseteq> used_set (sv_sb ?v)"
    "length (runs_blocks (sv_shift ?v) rs) < 2 ^ 16"
    using s U B by (auto simp: sb)
  note K = stream_okI [OF R this s(3,4)]
  show "direct_runs ds' = rs" by (rule K(3))
  have "vol_ok ?v" using V sb U by (auto simp: vol_ok_def)
  then show "stream_grown v ds ?v ds' new" using K(1) K(2) [of "sv_shift v"] U sb B D K(3) by (simp add: stream_grown_def)
qed

lemma contig_facts:
  assumes V: "vol_ok v" and call: "agfs_balloc_contig (sv_sb v) AGFS_DELALLOC_WINDOW = Some (sb, Inr (nb, wlen))"
  shows "sb_inv sb" "s_num_blocks sb = s_num_blocks (sv_sb v)" "s_ag_shift sb = sv_shift v" "s_block_size sb = sv_bs v"
    "used_set sb = used_set (sv_sb v) \<union> set [nb..<nb + wlen]" "set [nb..<nb + wlen] \<inter> used_set (sv_sb v) = {}"
    "nb < 2 ^ 31" "0 < wlen" "wlen \<le> 256" "nb \<noteq> 0"
proof -
  let ?n = "s_num_blocks (sv_sb v)" and ?U = "used_set (sv_sb v)"
  have inv: "sb_inv (sv_sb v)" "0 \<in> ?U" using V by (simp_all add: vol_ok_def)
  let ?run = "free_run_at ?n (sv_shift v) ?U 256 nb"
  from contig_refines [OF inv(1), of 256] call
  have sp: "sb_inv sb" "s_num_blocks sb = ?n" "s_ag_shift sb = sv_shift v" "spec_contig ?n (sv_shift v) ?U 256 = (used_set sb, Inr (nb, wlen))"
    by auto
  then have b: "first_free ?n ?U = Some nb" and len: "wlen = length ?run" and U: "used_set sb = ?U \<union> set ?run"
    by (auto simp: spec_contig_def split: option.splits)
  note bn = first_free_Some [OF b] and run = free_run_at_upt [OF first_free_Some(1) [OF b]]
  have st: "?run = [nb..<nb + wlen]" unfolding len by (rule run(1))
  show "sb_inv sb" "s_num_blocks sb = ?n" "s_ag_shift sb = sv_shift v" by (rule sp)+
  show "s_block_size sb = sv_bs v" by (rule alloc_block_size(3) [OF call])
  show "used_set sb = ?U \<union> set [nb..<nb + wlen]" using U unfolding st .
  show "set [nb..<nb + wlen] \<inter> ?U = {}" using free_run_at_free [of _ ?n "sv_shift v" ?U 256 nb] unfolding st by blast
  show "nb < 2 ^ 31" using bn(1) inv(1) by (simp add: sb_inv_def sb_ok_def)
  show "nb \<noteq> 0" using bn(2) inv(2) by metis
  show "wlen \<le> 256" unfolding len by (rule run(3))
  show "0 < wlen" using bn(1,2) by (auto simp: len free_run_at_def upt_conv_Cons take_Cons')
qed

lemma append_step:
  assumes V: "vol_ok v" and S: "stream_ok v ds" and n: "length (direct_runs ds) < 12"
    and call: "agfs_balloc_contig (sv_sb v) AGFS_DELALLOC_WINDOW = Some (sb, Inr (nb, wlen))"
    and L: "length (stream_blocks (sv_shift v) ds) + 256 < 2 ^ 16"
  shows "stream_grown v ds (v\<lparr>sv_sb := sb\<rparr>) (set_run (length (direct_runs ds)) (new_run (sv_shift v) nb wlen) rng ds) [nb..<nb + wlen]"
    "direct_runs (set_run (length (direct_runs ds)) (new_run (sv_shift v) nb wlen) rng ds) = direct_runs ds @ [new_run (sv_shift v) nb wlen]"
proof -
  note C = contig_facts [OF V call] and R = runs_upto [OF S]
  have sh: "sv_shift v \<le> 16" using V by (simp add: vol_ok_def)
  note N = new_run_base [OF C(7) sh, of wlen]
  have w: "wlen mod 2 ^ 16 = wlen" using C(9) by simp
  let ?r = "new_run (sv_shift v) nb wlen" and ?qs = "drop (length (direct_runs ds)) (ds_direct ds)"
  have qs: "?qs = ?qs ! 0 # tl ?qs" "\<forall>r \<in> set ?qs. run_empty r" "length (ds_direct ds) = 12"
    using S n by (auto simp: stream_ok_def neq_Nil_conv hd_conv_nth [symmetric])
  have "(ds_direct ds)[length (direct_runs ds) := ?r] = direct_runs ds @ ?r # tl ?qs"
    by (subst R(1), subst list_update_append, subst qs(1)) simp
  then have d: "ds_direct (set_run (length (direct_runs ds)) ?r rng ds) = (direct_runs ds @ [?r]) @ tl ?qs" by (simp add: set_run_def)
  have len: "length ((direct_runs ds @ [?r]) @ tl ?qs) = 12" using qs(3) n by simp
  have ne: "\<forall>r \<in> set (direct_runs ds @ [?r]). \<not> run_empty r" using R(3) N(3) C(8,10) w by simp
  have em: "\<forall>r \<in> set (tl ?qs). run_empty r" using qs(2) by (metis list.set_sel(2) tl_Nil)
  have bl: "runs_blocks (sv_shift v) (direct_runs ds @ [?r]) = stream_blocks (sv_shift v) ds @ [nb..<nb + wlen]"
    using N(1,2) w by (simp add: stream_blocks_def run_blocks_def)
  have l2: "length (stream_blocks (sv_shift v) ds @ [nb..<nb + wlen]) < 2 ^ 16" using L C(9) by simp
  note G = stream_grown_runs [OF V S C(1-6) distinct_upt d len ne em bl l2]
  show "stream_grown v ds (v\<lparr>sv_sb := sb\<rparr>) (set_run (length (direct_runs ds)) ?r rng ds) [nb..<nb + wlen]"
    by (rule G(1)) (simp_all add: set_run_def)
  show "direct_runs (set_run (length (direct_runs ds)) ?r rng ds) = direct_runs ds @ [?r]"
    by (rule G(2)) (simp_all add: set_run_def)
qed

lemma extend_step:
  assumes V: "vol_ok v" and S: "stream_ok v ds" and r: "direct_runs ds = rs @ [r]"
    and call: "extend_last (Suc (length rs)) (run_ag r) (run_start r) (run_len r) (sv_sb v) = (sb, Some nb)"
    and L: "length (stream_blocks (sv_shift v) ds) + 1 < 2 ^ 16"
  shows "stream_grown v ds (v\<lparr>sv_sb := sb\<rparr>) (set_run (length rs) (longer_run (ds_direct ds ! length rs)) rng ds) [nb]"
    "direct_runs (set_run (length rs) (longer_run (ds_direct ds ! length rs)) rng ds) = rs @ [longer_run r]"
    "run_len (longer_run r) = run_len r + 1"
proof -
  note R = runs_upto [OF S]
  let ?qs = "drop (length (direct_runs ds)) (ds_direct ds)" and ?r = "longer_run r"
  have inv: "sb_inv (sv_sb v)" using V by (simp add: vol_ok_def)
  have c: "nb = run_base (sv_shift v) r + run_len r" "agfs_balloc_specific (sv_sb v) nb = (sb, None)"
    using call by (auto simp: extend_last_def run_base_def Let_def split: if_splits prod.splits option.splits)
  have sp: "sb_inv sb" "s_num_blocks sb = s_num_blocks (sv_sb v)" "s_ag_shift sb = sv_shift v"
    "nb \<notin> used_set (sv_sb v)" "used_set sb = used_set (sv_sb v) \<union> set [nb]"
    using specific_refines [OF inv, of nb] c(2) by (auto split: if_splits)
  have bs: "s_block_size sb = sv_bs v" by (rule alloc_block_size(2) [OF c(2)])
  have at: "ds_direct ds ! length rs = r" by (subst R(1)) (simp add: r)
  have "run_len r \<le> length (stream_blocks (sv_shift v) ds)" by (simp add: stream_blocks_def r)
  then show len: "run_len (longer_run r) = run_len r + 1" using L by (simp add: longer_run_def)
  have "(ds_direct ds)[length rs := ?r] = rs @ ?r # ?qs" by (subst R(1)) (simp add: r)
  then have d: "ds_direct (set_run (length rs) (longer_run (ds_direct ds ! length rs)) rng ds) = (rs @ [?r]) @ ?qs" by (simp add: set_run_def at)
  have l12: "length ((rs @ [?r]) @ ?qs) = 12" using S R(2) by (simp add: stream_ok_def r)
  have ne: "\<forall>r \<in> set (rs @ [?r]). \<not> run_empty r" using R(3) len by (auto simp: r run_empty_def longer_run_def)
  have em: "\<forall>r \<in> set ?qs. run_empty r" using S by (simp add: stream_ok_def)
  have base: "run_base (sv_shift v) ?r = run_base (sv_shift v) r" by (simp add: run_base_def longer_run_def)
  have bl: "runs_blocks (sv_shift v) (rs @ [?r]) = stream_blocks (sv_shift v) ds @ [nb]"
    by (simp add: stream_blocks_def r run_blocks_def base len c(1))
  have l2: "length (stream_blocks (sv_shift v) ds @ [nb]) < 2 ^ 16" using L by simp
  have new: "set [nb] \<inter> used_set (sv_sb v) = {}" "distinct [nb]" using sp(4) by simp_all
  note G = stream_grown_runs [OF V S sp(1-3) bs sp(5) new d l12 ne em bl l2]
  show "stream_grown v ds (v\<lparr>sv_sb := sb\<rparr>) (set_run (length rs) (longer_run (ds_direct ds ! length rs)) rng ds) [nb]"
    by (rule G(1)) (simp_all add: set_run_def r)
  show "direct_runs (set_run (length rs) (longer_run (ds_direct ds ! length rs)) rng ds) = rs @ [?r]"
    by (rule G(2)) (simp_all add: set_run_def r)
qed

definition last_run :: "data_stream \<Rightarrow> block_run" where
  "last_run ds = (if direct_runs ds = [] then no_run else last (direct_runs ds))"

text \<open>
  What a write beyond the mapped blocks does. It covers the block, or the volume is full; or the direct runs are used
  up, and the indirect code goes on. The block it returns is the one it covers when that is the next block of the stream.
\<close>

definition grow_answer :: "stream_vol \<Rightarrow> data_stream \<Rightarrow> nat \<Rightarrow> stream_vol \<Rightarrow> data_stream \<Rightarrow> nat result \<Rightarrow> bool" where
  "grow_answer v ds block v' ds' r \<longleftrightarrow>
     (case r of
        Inl e \<Rightarrow> e = ENOSPC \<and> used_set (sv_sb v') = {0..<s_num_blocks (sv_sb v)}
      | Inr b \<Rightarrow>
          block < length (stream_blocks (sv_shift v) ds') \<and> length (stream_blocks (sv_shift v) ds') \<le> block + 256
          \<and> (block = length (stream_blocks (sv_shift v) ds) \<longrightarrow> b = stream_blocks (sv_shift v) ds' ! block))"

definition stream_outcome :: "nat \<Rightarrow> nat \<Rightarrow> stream_vol \<Rightarrow> data_stream \<Rightarrow> (data_stream \<times> stream_vol \<times> nat result) option \<Rightarrow> bool" where
  "stream_outcome offset block v ds res \<longleftrightarrow>
     (\<exists>ds' v' new r. res = Some (ds', v', r) \<and> stream_grown v ds v' ds' new \<and> grow_answer v ds block v' ds' r)
     \<or> (\<exists>ds' v' new. res = agfs_indirect_bmap offset True ds' v' \<and> stream_grown v ds v' ds' new \<and> length (direct_runs ds') = 12
          \<and> length (stream_blocks (sv_shift v) ds') \<le> block
          \<and> (length (direct_runs ds) = 12 \<or> length (stream_blocks (sv_shift v) ds) < block))"

lemma stream_outcome_step:
  assumes g: "stream_grown v ds v1 ds1 new1" and nz: "new1 \<noteq> []" and le: "length (stream_blocks (sv_shift v) ds1) \<le> block"
    and o: "stream_outcome offset block v1 ds1 res"
  shows "stream_outcome offset block v ds res"
proof -
  have sh: "sv_shift v1 = sv_shift v" "s_num_blocks (sv_sb v1) = s_num_blocks (sv_sb v)" using g by (simp_all add: stream_grown_def)
  have lt: "length (stream_blocks (sv_shift v) ds) < block"
    using g nz le by (cases new1) (auto simp: stream_grown_def)
  from o consider (mapped) ds' v' new r where "res = Some (ds', v', r)" "stream_grown v1 ds1 v' ds' new" "grow_answer v1 ds1 block v' ds' r"
    | (table) ds' v' new where "res = agfs_indirect_bmap offset True ds' v'" "stream_grown v1 ds1 v' ds' new" "length (direct_runs ds') = 12"
        "length (stream_blocks (sv_shift v1) ds') \<le> block"
    unfolding stream_outcome_def by blast
  then show ?thesis
  proof cases
    case mapped
    have "grow_answer v ds block v' ds' r" using mapped(3) lt sh by (simp add: grow_answer_def split: sum.splits)
    then show ?thesis unfolding stream_outcome_def using mapped(1) stream_grown_trans [OF g mapped(2)] by blast
  next
    case table
    then have "length (stream_blocks (sv_shift v) ds') \<le> block" using sh(1) by simp
    then show ?thesis unfolding stream_outcome_def
      by (intro disjI2 exI [of _ ds'] exI [of _ v'] exI [of _ "new1 @ new"] conjI table stream_grown_trans [OF g] lt)
  qed
qed

lemma last_run_snoc: "direct_runs ds = rs @ [r] \<Longrightarrow> last_run ds = r"
  by (simp add: last_run_def)

lemma extend_last_some:
  assumes "stream_ok v ds" "extend_last (length (direct_runs ds)) (run_ag (last_run ds)) (run_start (last_run ds)) (run_len (last_run ds)) (sv_sb v) = (sb, Some nb)"
  obtains rs r where "direct_runs ds = rs @ [r]" "last_run ds = r"
proof -
  have "direct_runs ds \<noteq> []" using assms(2) by (auto simp: extend_last_def Let_def)
  then show ?thesis using that [of "butlast (direct_runs ds)" "last (direct_runs ds)"] by (simp add: last_run_def)
qed

lemma last_run_at:
  assumes "stream_ok v ds"
  shows "(if length (direct_runs ds) = 0 then no_run else ds_direct ds ! (length (direct_runs ds) - 1)) = last_run ds"
proof (cases "direct_runs ds = []")
  case False
  have "ds_direct ds ! (length (direct_runs ds) - 1) = direct_runs ds ! (length (direct_runs ds) - 1)"
    by (subst runs_upto(1) [OF assms], subst nth_append) (use False in simp)
  then show ?thesis using False by (simp add: last_run_def last_conv_nth)
qed (simp add: last_run_def)

lemma full_grown:
  assumes V: "vol_ok v" and S: "stream_ok v ds" and call: "agfs_balloc_contig (sv_sb v) want = Some (sb, Inl e)"
    "(used_set sb, Inl e) = spec_contig (s_num_blocks (sv_sb v)) sh (used_set (sv_sb v)) want'"
    "sb_inv sb" "s_num_blocks sb = s_num_blocks (sv_sb v)" "s_ag_shift sb = sv_shift v"
  shows "stream_grown v ds (v\<lparr>sv_sb := sb\<rparr>) ds []" "e = ENOSPC" "used_set sb = {0..<s_num_blocks (sv_sb v)}"
proof -
  have full: "e = ENOSPC" "used_set sb = used_set (sv_sb v)" "{0..<s_num_blocks (sv_sb v)} \<subseteq> used_set (sv_sb v)"
    using call(2) by (auto simp: spec_contig_def first_free_None split: option.splits)
  have bs: "s_block_size sb = sv_bs v" by (rule alloc_block_size(3) [OF call(1)])
  show "stream_grown v ds (v\<lparr>sv_sb := sb\<rparr>) ds []"
    by (rule stream_grown_runs(1) [OF V S call(3,4,5) bs _ _ _ runs_upto(1) [OF S] _ runs_upto(3) [OF S]])
       (use S runs_upto(2) [OF S] full(2) in \<open>simp_all add: stream_ok_def stream_blocks_def\<close>)
  show "e = ENOSPC" "used_set sb = {0..<s_num_blocks (sv_sb v)}" using full bm.used_bound [of "sv_sb v"] by blast+
qed

lemma bmap_grow_outcome:
  assumes "vol_ok v" "stream_ok v ds" "length (stream_blocks (sv_shift v) ds) \<le> block" "block + 256 < 2 ^ 16"
  shows "stream_outcome offset block v ds
    (bmap_grow offset block (run_ag (last_run ds)) (run_start (last_run ds)) (run_len (last_run ds)) (length (direct_runs ds))
       (length (stream_blocks (sv_shift v) ds)) ds v)"
  using assms(1-3)
proof (induction "block - length (stream_blocks (sv_shift v) ds)" arbitrary: v ds rule: less_induct)
  case less
  note V = less.prems(1) and S = less.prems(2)
  let ?c = "length (stream_blocks (sv_shift v) ds)" and ?n = "length (direct_runs ds)" and ?l = "last_run ds"
  let ?go = "\<lambda>ds v. bmap_grow offset block (run_ag (last_run ds)) (run_start (last_run ds)) (run_len (last_run ds)) (length (direct_runs ds))
       (length (stream_blocks (sv_shift v) ds)) ds v"
  have inv: "sb_inv (sv_sb v)" using V by (simp add: vol_ok_def)
  have L: "?c + 256 < 2 ^ 16" using less.prems(3) assms(4) by simp
  obtain sb nbo where ex: "extend_last ?n (run_ag ?l) (run_start ?l) (run_len ?l) (sv_sb v) = (sb, nbo)" by fastforce
  have eq: "?go ds v = (case extend_last ?n (run_ag ?l) (run_start ?l) (run_len ?l) (sv_sb v) of
           (sb, Some nb) \<Rightarrow>
             (let ds' = set_run (?n - 1) (longer_run (ds_direct ds ! (?n - 1))) ((?c + 1) * sv_bs v) ds
              in if block < ?c + 1 then Some (ds', v\<lparr>sv_sb := sb\<rparr>, Inr nb)
                 else bmap_grow offset block (run_ag ?l) (run_start ?l) (run_len ?l + 1) ?n (?c + 1) ds' (v\<lparr>sv_sb := sb\<rparr>))
         | (sb, None) \<Rightarrow>
             if ?n \<ge> AGFS_NUM_DIRECT_BLOCKS then agfs_indirect_bmap offset True ds v
             else
               (case agfs_balloc_contig (sv_sb v) AGFS_DELALLOC_WINDOW of
                  None \<Rightarrow> None
                | Some (sb, res) \<Rightarrow>
                    (case res of
                       Inl e \<Rightarrow> Some (ds, v\<lparr>sv_sb := sb\<rparr>, Inl e)
                     | Inr (nb, wlen) \<Rightarrow>
                         (let r = new_run (sv_shift v) nb wlen; ds' = set_run ?n r ((?c + wlen) * sv_bs v) ds
                          in if block < ?c + wlen then Some (ds', v\<lparr>sv_sb := sb\<rparr>, Inr nb)
                             else bmap_grow offset block (run_ag r) (run_start r) wlen (?n + 1) (?c + wlen) ds' (v\<lparr>sv_sb := sb\<rparr>)))))"
    using less.prems(3) by (subst bmap_grow.simps) simp
  show ?case
  proof (cases nbo)
    case (Some nb)
    note ex = ex [unfolded Some]
    obtain rs where rs: "direct_runs ds = rs @ [?l]" using extend_last_some [OF S ex] by metis
    define ds1 where "ds1 = set_run (length rs) (longer_run (ds_direct ds ! length rs)) ((?c + 1) * sv_bs v) ds"
    define v1 where "v1 = v\<lparr>sv_sb := sb\<rparr>"
    have ex': "extend_last (Suc (length rs)) (run_ag ?l) (run_start ?l) (run_len ?l) (sv_sb v) = (sb, Some nb)" using ex by (simp add: rs)
    have L1: "?c + 1 < 2 ^ 16" using L by simp
    note g = extend_step(1,2) [OF V S rs ex' L1, where rng = "(?c + 1) * sv_bs v", folded ds1_def v1_def] extend_step(3) [OF V S rs ex' L1]
    have bl: "stream_blocks (sv_shift v) ds1 = stream_blocks (sv_shift v) ds @ [nb]" "sv_shift v1 = sv_shift v" "vol_ok v1" "stream_ok v1 ds1"
      using g(1) by (simp_all add: stream_grown_def)
    have args: "run_ag (last_run ds1) = run_ag ?l" "run_start (last_run ds1) = run_start ?l" "run_len (last_run ds1) = run_len ?l + 1"
      "length (direct_runs ds1) = ?n" "length (stream_blocks (sv_shift v1) ds1) = ?c + 1"
      using last_run_snoc [OF g(2)] g(2,3) bl(1,2) by (simp_all add: rs) (simp_all add: longer_run_def)
    have "set_run (?n - 1) (longer_run (ds_direct ds ! (?n - 1))) ((?c + 1) * sv_bs v) ds = ds1" by (simp add: ds1_def rs)
    then have step: "?go ds v = (if block < ?c + 1 then Some (ds1, v1, Inr nb) else ?go ds1 v1)"
      unfolding eq ex by (simp only: prod.case option.case Let_def args v1_def [symmetric])
    show ?thesis
    proof (cases "block < ?c + 1")
      case True
      then have "block = ?c" using less.prems(3) by simp
      then have "grow_answer v ds block v1 ds1 (Inr nb)" by (simp add: grow_answer_def bl(1))
      then show ?thesis using g(1) step True unfolding stream_outcome_def by auto
    next
      case False
      have "stream_outcome offset block v1 ds1 (?go ds1 v1)"
        by (rule less.hyps) (use False bl in simp_all)
      then show ?thesis using stream_outcome_step [OF g(1)] False bl step by simp
    qed
  next
    case None
    note ex = ex [unfolded None]
    show ?thesis
    proof (cases "?n \<ge> 12")
      case True
      then have n: "?n = 12" using runs_upto(2) [OF S] by simp
      have "?go ds v = agfs_indirect_bmap offset True ds v" unfolding eq ex using True by simp
      then show ?thesis unfolding stream_outcome_def
        by (intro disjI2 exI [of _ ds] exI [of _ v] exI [of _ "[]"] conjI disjI1 n stream_grown_refl [OF V S] less.prems(3))
    next
      case False
      then have n: "?n < 12" by simp
      obtain sb1 res where call: "agfs_balloc_contig (sv_sb v) AGFS_DELALLOC_WINDOW = Some (sb1, res)"
        "(used_set sb1, res) = spec_contig (s_num_blocks (sv_sb v)) (sv_shift v) (used_set (sv_sb v)) 256" "sb_inv sb1" "s_num_blocks sb1 = s_num_blocks (sv_sb v)"
        "s_ag_shift sb1 = sv_shift v"
        using contig_refines [OF inv, of 256] by auto
      show ?thesis
      proof (cases res)
        case (Inl e)
        note F = full_grown [OF V S call [unfolded Inl]]
        have "?go ds v = Some (ds, v\<lparr>sv_sb := sb1\<rparr>, Inl e)" unfolding eq ex using n call(1) Inl by simp
        then show ?thesis unfolding stream_outcome_def using F by (auto simp: grow_answer_def)
      next
        case (Inr x)
        obtain nb wlen where x: "x = (nb, wlen)" by fastforce
        note call' = call(1) [unfolded Inr x]
        let ?r = "new_run (sv_shift v) nb wlen"
        define ds1 where "ds1 = set_run ?n ?r ((?c + wlen) * sv_bs v) ds"
        define v1 where "v1 = v\<lparr>sv_sb := sb1\<rparr>"
        note g = append_step [OF V S n call' L, where rng = "(?c + wlen) * sv_bs v", folded ds1_def v1_def] and C = contig_facts [OF V call']
        have bl: "stream_blocks (sv_shift v) ds1 = stream_blocks (sv_shift v) ds @ [nb..<nb + wlen]" "sv_shift v1 = sv_shift v" "vol_ok v1" "stream_ok v1 ds1"
          using g(1) by (simp_all add: stream_grown_def)
        have args: "last_run ds1 = ?r" "run_len ?r = wlen" "length (direct_runs ds1) = ?n + 1" "length (stream_blocks (sv_shift v1) ds1) = ?c + wlen"
          using last_run_snoc [OF g(2)] g(2) bl(1,2) C(9) by simp_all (simp add: new_run_def)
        have "\<not> 12 \<le> ?n" using n by simp
        then have step: "?go ds v = (if block < ?c + wlen then Some (ds1, v1, Inr nb) else ?go ds1 v1)"
          unfolding eq ex call' by (simp only: prod.case option.case sum.case Let_def args if_False ds1_def [symmetric] v1_def [symmetric])
        show ?thesis
        proof (cases "block < ?c + wlen")
          case True
          have "block = ?c \<Longrightarrow> nb = stream_blocks (sv_shift v) ds1 ! block" using C(8) by (simp add: bl(1) nth_append)
          then have "grow_answer v ds block v1 ds1 (Inr nb)" using True C(9) less.prems(3) by (simp add: grow_answer_def bl(1))
          then show ?thesis using g(1) step True unfolding stream_outcome_def by auto
        next
          case False
          have "stream_outcome offset block v1 ds1 (?go ds1 v1)"
            by (rule less.hyps) (use False bl C(8) in simp_all)
          then show ?thesis using stream_outcome_step [OF g(1)] False bl step C(8) by simp
        qed
      qed
    qed
  qed
qed

lemma bmap_write_outcome:
  assumes V: "vol_ok v" and S: "stream_ok v ds" and b: "length (stream_blocks (sv_shift v) ds) \<le> offset div sv_bs v" "offset div sv_bs v + 256 < 2 ^ 16"
    and n: "length (direct_runs ds) < 12"
  shows "stream_outcome offset (offset div sv_bs v) v ds (agfs_bmap offset True ds v)"
proof -
  let ?n = "length (direct_runs ds)"
  have "length (ds_direct ds) = 12" using S by (simp add: stream_ok_def)
  moreover have "(if ?n = 0 then no_run else ds_direct ds ! (?n - 1)) = last_run ds" by (rule last_run_at [OF S])
  ultimately show ?thesis using bmap_grow_outcome [OF V S b] b(1) n by (simp add: agfs_bmap_def bmap_scan Let_def)
qed

subsection \<open>Giving blocks back\<close>

definition shrunk :: "stream_vol \<Rightarrow> data_stream \<Rightarrow> stream_vol \<Rightarrow> data_stream \<Rightarrow> nat \<Rightarrow> bool" where
  "shrunk v ds v' ds' m \<longleftrightarrow>
     vol_ok v' \<and> stream_ok v' ds' \<and> stream_blocks (sv_shift v) ds' = take m (stream_blocks (sv_shift v) ds)
     \<and> used_set (sv_sb v') = used_set (sv_sb v) - set (drop m (stream_blocks (sv_shift v) ds))
     \<and> sv_blk v' = sv_blk v \<and> sv_rd v' = sv_rd v \<and> sv_shift v' = sv_shift v \<and> sv_bs v' = sv_bs v
     \<and> s_num_blocks (sv_sb v') = s_num_blocks (sv_sb v) \<and> ds_size ds' = ds_size ds"

definition same_geometry :: "agfs_sb \<Rightarrow> agfs_sb \<Rightarrow> bool" where
  "same_geometry sb sb' \<longleftrightarrow> s_num_blocks sb' = s_num_blocks sb \<and> s_ag_shift sb' = s_ag_shift sb \<and> s_block_size sb' = s_block_size sb"

lemma free_blocks_ok:
  assumes "sb_inv sb"
  shows "sb_inv (free_blocks base a b sb) \<and> same_geometry sb (free_blocks base a b sb) \<and>
    used_set (free_blocks base a b sb) = used_set sb - {base + a..<base + b}"
proof -
  have "sb_inv (fold (\<lambda>n sb. agfs_bfree sb (base + n)) ns sb) \<and> same_geometry sb (fold (\<lambda>n sb. agfs_bfree sb (base + n)) ns sb) \<and>
      used_set (fold (\<lambda>n sb. agfs_bfree sb (base + n)) ns sb) = used_set sb - (+) base ` set ns" for ns
    using assms
  proof (induction ns arbitrary: sb)
    case (Cons n ns)
    then show ?case using bfree_refines [OF Cons.prems, of "base + n"] Cons.IH [of "agfs_bfree sb (base + n)"]
      by (auto simp: same_geometry_def alloc_block_size(4))
  qed (simp add: same_geometry_def)
  moreover have "(+) base ` set [a..<b] = {base + a..<base + b}" by (simp add: image_add_atLeastLessThan add.commute)
  ultimately show ?thesis unfolding free_blocks_def by metis
qed

lemma no_run_empty [simp]: "run_empty no_run"
  by (simp add: run_empty_def no_run_def)

lemma runs_blocks_Nil: "\<forall>r \<in> set rs. \<not> run_empty r \<Longrightarrow> runs_blocks sh rs = [] \<longleftrightarrow> rs = []"
  by (cases rs) (auto simp: run_blocks_def run_empty_def)

text \<open>The number of blocks of a file of a given length.\<close>

definition blocks_of :: "nat \<Rightarrow> nat \<Rightarrow> nat" where
  "blocks_of bs len = (len + bs - 1) div bs"

lemma blocks_of_le: "0 < bs \<Longrightarrow> blocks_of bs len \<le> k \<longleftrightarrow> len \<le> k * bs"
proof -
  assume bs: "0 < bs"
  have "(len + bs - 1) div bs \<le> k \<longleftrightarrow> len + bs - 1 < (k + 1) * bs"
    using bs by (simp add: div_less_iff_less_mult flip: less_Suc_eq_le)
  also have "\<dots> \<longleftrightarrow> len \<le> k * bs" using bs by auto
  finally show ?thesis by (simp add: blocks_of_def)
qed

lemma blocks_of_ge: "0 < bs \<Longrightarrow> k * bs \<le> len \<Longrightarrow> k \<le> blocks_of bs len"
  using blocks_of_le [of bs len "blocks_of bs len"] by (meson le_refl le_trans mult_le_cancel2)

lemma blocks_of_shift: "0 < bs \<Longrightarrow> k * bs < len \<Longrightarrow> (len - k * bs + bs - 1) div bs = blocks_of bs len - k"
proof -
  assume a: "0 < bs" "k * bs < len"
  then have "len + bs - 1 = (len - k * bs + bs - 1) + k * bs" by simp
  then have "blocks_of bs len = (len - k * bs + bs - 1) div bs + k" using a(1) unfolding blocks_of_def by (metis div_mult_self1 less_not_refl add.commute)
  then show ?thesis by simp
qed

lemma truncate_runs_ok:
  assumes bs: "0 < bs" and "sb_inv sb" "\<forall>r \<in> set rs. \<not> run_empty r \<and> run_len r < 2 ^ 16" "\<forall>r \<in> set qs. run_empty r"
  shows "\<exists>rs' qs' sb' c. truncate_runs bs sh len (k * bs) (rs @ qs) sb = (rs' @ qs', sb', c) \<and> length (rs' @ qs') = length (rs @ qs)
     \<and> (\<forall>r \<in> set rs'. \<not> run_empty r) \<and> (\<forall>r \<in> set qs'. run_empty r)
     \<and> runs_blocks sh rs' = take (blocks_of bs len - k) (runs_blocks sh rs) \<and> sb_inv sb' \<and> same_geometry sb sb'
     \<and> used_set sb' = used_set sb - set (drop (blocks_of bs len - k) (runs_blocks sh rs))"
  using assms(2,3)
proof (induction rs arbitrary: k sb)
  case Nil
  show ?case using Nil.prems(1) assms(4) 
    by (intro exI [of _ "[]"] exI [of _ qs] exI [of _ sb] exI [of _ "k * bs"]) (cases qs; simp add: same_geometry_def)
next
  case (Cons r rs)
  have ne: "\<not> run_empty r" "run_len r < 2 ^ 16" "0 < run_len r" using Cons.prems(2) by (auto simp: run_empty_def)
  let ?m = "blocks_of bs len" and ?F = "\<lambda>a. free_blocks (run_base sh r) a (run_len r) sb"
  define r1 where "r1 = (if len \<le> k * bs then no_run else if len < (k + run_len r) * bs then r\<lparr>run_len := (?m - k) mod 2 ^ 16\<rparr> else r)"
  define sb1 where "sb1 = (if len \<le> k * bs then ?F 0 else if len < (k + run_len r) * bs then ?F (?m - k) else sb)"
  have call: "truncate_runs bs sh len (k * bs) ((r # rs) @ qs) sb =
      (case truncate_runs bs sh len ((k + run_len r) * bs) (rs @ qs) sb1 of (rs', sb, c) \<Rightarrow> (r1 # rs', sb, c))"
    using ne(1) blocks_of_shift [OF bs, of k len] by (simp add: r1_def sb1_def Let_def algebra_simps)
  have mk: "?m \<le> k \<longleftrightarrow> len \<le> k * bs" "?m \<le> k + run_len r \<longleftrightarrow> len \<le> (k + run_len r) * bs" by (simp_all add: blocks_of_le [OF bs])
  have lt: "len < (k + run_len r) * bs \<Longrightarrow> ?m - k \<le> run_len r" using mk(2) by simp
  have ge: "\<not> len < (k + run_len r) * bs \<Longrightarrow> run_len r \<le> ?m - k"
    using blocks_of_ge [OF bs, of "k + run_len r" len] by simp
  have bl: "\<not> len \<le> k * bs \<Longrightarrow> \<not> run_empty r1 \<and> run_blocks sh r1 = take (?m - k) (run_blocks sh r)"
    using lt ge ne mk(1) by (auto simp: r1_def run_blocks_def run_empty_def run_base_def)
  have em: "len \<le> k * bs \<Longrightarrow> run_empty r1" by (simp add: r1_def)
  have S: "sb_inv sb1" "same_geometry sb sb1" "used_set sb1 = used_set sb - set (drop (?m - k) (run_blocks sh r))"
    using free_blocks_ok [OF Cons.prems(1), of "run_base sh r" _ "run_len r"] Cons.prems(1) ge mk(1)
    by (auto simp: sb1_def run_blocks_def same_geometry_def split: if_splits)
  obtain rs' qs' sb' c where IH: "truncate_runs bs sh len ((k + run_len r) * bs) (rs @ qs) sb1 = (rs' @ qs', sb', c)" "length (rs' @ qs') = length (rs @ qs)"
    "\<forall>r \<in> set rs'. \<not> run_empty r" "\<forall>r \<in> set qs'. run_empty r" "runs_blocks sh rs' = take (?m - (k + run_len r)) (runs_blocks sh rs)"
    "sb_inv sb'" "same_geometry sb1 sb'" "used_set sb' = used_set sb1 - set (drop (?m - (k + run_len r)) (runs_blocks sh rs))"
    using Cons.IH [OF S(1)] Cons.prems(2) by (metis list.set_intros(2))
  have U: "used_set sb' = used_set sb - set (drop (?m - k) (runs_blocks sh (r # rs)))" using IH(8) S(3) by auto
  have G: "same_geometry sb sb'" using IH(7) S(2) by (simp add: same_geometry_def)
  show ?case
  proof (cases "len \<le> k * bs")
    case True
    then have "rs' = []" using IH(3,5) mk(1) runs_blocks_Nil [OF IH(3), of sh] by simp
    then show ?thesis using True em mk(1) call IH U G by (intro exI [of _ "[]"] exI [of _ "r1 # qs'"]) simp
  next
    case False
    then show ?thesis using bl call IH U G by (intro exI [of _ "r1 # rs'"] exI [of _ qs']) simp
  qed
qed

lemma stream_pos:
  assumes "stream_ok v ds"
  shows "0 \<notin> set (stream_blocks sh ds)"
proof -
  have "0 \<notin> set (run_blocks sh r)" if "r \<in> set (direct_runs ds)" for r
    using runs_upto(3) [OF assms] run_not_empty_base that by (simp add: run_blocks_def)
  then show ?thesis by (simp add: stream_blocks_def runs_blocks_def)
qed

lemma shrunkI:
  assumes V: "vol_ok v" and S: "stream_ok v ds"
    and sb: "sb_inv sb" "same_geometry (sv_sb v) sb" "used_set sb = used_set (sv_sb v) - set (drop m (stream_blocks (sv_shift v) ds))"
    and R: "ds_direct ds' = rs @ qs" "length (rs @ qs) = 12" "\<forall>r \<in> set rs. \<not> run_empty r" "\<forall>r \<in> set qs. run_empty r"
    and B: "runs_blocks (sv_shift v) rs = take m (stream_blocks (sv_shift v) ds)"
    and D: "run_len (ds_indirect ds') = 0" "run_len (ds_double ds') = 0" "ds_size ds' = ds_size ds"
  shows "shrunk v ds (v\<lparr>sv_sb := sb\<rparr>) ds' m"
proof -
  let ?v = "v\<lparr>sv_sb := sb\<rparr>" and ?b = "stream_blocks (sv_shift v) ds"
  have s: "distinct ?b" "set ?b \<subseteq> used_set (sv_sb v)" "length ?b < 2 ^ 16" using S by (simp_all add: stream_ok_def)
  have g: "s_ag_shift sb = sv_shift v" "s_block_size sb = sv_bs v" "s_num_blocks sb = s_num_blocks (sv_sb v)" using sb(2) by (simp_all add: same_geometry_def)
  have "set (take m ?b) \<inter> set (drop m ?b) = {}" using s(1) by (metis append_take_drop_id distinct_append)
  then have "set (take m ?b) \<subseteq> used_set sb" using s(2) set_take_subset [of m ?b] unfolding sb(3) by blast
  then have "distinct (runs_blocks (sv_shift ?v) rs)" "set (runs_blocks (sv_shift ?v) rs) \<subseteq> used_set (sv_sb ?v)"
    "length (runs_blocks (sv_shift ?v) rs) < 2 ^ 16" using s g B by simp_all
  note K = stream_okI [OF R this D(1,2)]
  have "0 \<notin> set (drop m ?b)" using stream_pos [OF S] by (metis in_set_dropD)
  then have "vol_ok ?v" using V g sb(1,3) by (simp add: vol_ok_def)
  then show ?thesis using K(1) K(2) [of "sv_shift v"] B D(3) g sb(3) by (simp add: shrunk_def)
qed

lemma truncate_stream_ok:
  assumes V: "vol_ok v" and S: "stream_ok v ds" and call: "truncate_stream len ds v = (ds', v')"
  shows "shrunk v ds v' ds' (blocks_of (sv_bs v) len)"
proof -
  note R = runs_upto [OF S]
  let ?qs = "drop (length (direct_runs ds)) (ds_direct ds)"
  have inv: "sb_inv (sv_sb v)" "0 < sv_bs v" using V by (simp_all add: vol_ok_def)
  have l: "length (ds_direct ds) = 12" "\<forall>r \<in> set ?qs. run_empty r" "run_len (ds_indirect ds) = 0" "run_len (ds_double ds) = 0"
    "length (runs_blocks (sv_shift v) (direct_runs ds)) < 2 ^ 16"
    using S by (simp_all add: stream_ok_def stream_blocks_def)
  have "run_len r < 2 ^ 16" if "r \<in> set (direct_runs ds)" for r
    using l(5) member_le_sum_list [of "run_len r" "map run_len (direct_runs ds)"] that by (simp add: length_runs_blocks)
  then have "\<forall>r \<in> set (direct_runs ds). \<not> run_empty r \<and> run_len r < 2 ^ 16" using R(3) by blast
  from truncate_runs_ok [OF inv(2,1) this l(2), of "sv_shift v" len 0]
  obtain rs' qs' sb' c where T: "truncate_runs (sv_bs v) (sv_shift v) len 0 (ds_direct ds) (sv_sb v) = (rs' @ qs', sb', c)"
    "length (rs' @ qs') = length (ds_direct ds)" "\<forall>r \<in> set rs'. \<not> run_empty r" "\<forall>r \<in> set qs'. run_empty r"
    "runs_blocks (sv_shift v) rs' = take (blocks_of (sv_bs v) len) (stream_blocks (sv_shift v) ds)" "sb_inv sb'" "same_geometry (sv_sb v) sb'"
    "used_set sb' = used_set (sv_sb v) - set (drop (blocks_of (sv_bs v) len) (stream_blocks (sv_shift v) ds))"
    unfolding R(1) [symmetric] stream_blocks_def by auto
  have v: "v' = v\<lparr>sv_sb := sb'\<rparr>" "ds_direct ds' = rs' @ qs'" "run_len (ds_indirect ds') = 0" "run_len (ds_double ds') = 0" "ds_size ds' = ds_size ds"
    using call l(3,4) by (auto simp: truncate_stream_def T(1) table_len_def release_tables_def free_blocks_def no_run_def Let_def split: if_splits)
  show ?thesis unfolding v(1) by (rule shrunkI [OF V S T(6-8) v(2) _ T(3-5) v(3-5)]) (use T(2) l(1) in simp)
qed

lemma shrunk_refl: "vol_ok v \<Longrightarrow> stream_ok v ds \<Longrightarrow> length (stream_blocks (sv_shift v) ds) \<le> m \<Longrightarrow> shrunk v ds v ds m"
  by (simp add: shrunk_def)

lemma trim_prealloc_ok:
  assumes V: "vol_ok v" and S: "stream_ok v ds" and call: "agfs_trim_prealloc reg fsize ds v = (ds', v')"
  shows "\<exists>m \<ge> blocks_of (sv_bs v) fsize. shrunk v ds v' ds' m"
proof -
  let ?used = "blocks_of (sv_bs v) fsize" and ?b = "stream_blocks (sv_shift v) ds"
  have runs: "takeWhile (\<lambda>r. \<not> run_empty r) (ds_direct ds) = direct_runs ds" by (simp add: direct_runs_def)
  have cov: "sum_list (map run_len (direct_runs ds)) = length ?b" by (simp add: stream_blocks_def length_runs_blocks)
  show ?thesis
  proof (cases "\<not> reg \<or> fsize = 0 \<or> direct_runs ds = [] \<or> length ?b \<le> ?used")
    case True
    then have "ds' = ds \<and> v' = v" using call unfolding agfs_trim_prealloc_def Let_def runs cov blocks_of_def by (auto split: if_splits)
    then show ?thesis using shrunk_refl [OF V S, of "max ?used (length ?b)"] by (intro exI [of _ "max ?used (length ?b)"]) simp
  next
    case False
    then obtain rs r where rs: "direct_runs ds = rs @ [r]" by (metis rev_exhaust)
    note R = runs_upto [OF S]
    let ?qs = "drop (length (direct_runs ds)) (ds_direct ds)"
    have at: "ds_direct ds ! length rs = r" by (subst R(1)) (simp add: rs)
    define cut where "cut = min (length ?b - ?used) (run_len r)"
    define r' where "r' = r\<lparr>run_len := run_len r - cut\<rparr>"
    define sb where "sb = free_blocks (run_base (sv_shift v) r) (run_len r - cut) (run_len r) (sv_sb v)"
    have res: "ds' = ds\<lparr>ds_direct := (ds_direct ds)[length rs := (if run_len r' = 0 then no_run else r')]\<rparr>" "v' = v\<lparr>sv_sb := sb\<rparr>"
      using call False unfolding agfs_trim_prealloc_def Let_def runs cov
      by (auto simp: rs at sb_def r'_def cut_def blocks_of_def)
    have bl: "?b = runs_blocks (sv_shift v) rs @ run_blocks (sv_shift v) r" by (simp add: stream_blocks_def rs)
    have c: "cut \<le> run_len r" "run_len r \<le> length ?b" by (simp_all add: cut_def bl)
    let ?m = "length ?b - cut"
    have m: "?used \<le> ?m" using False unfolding cut_def by (auto simp: min_def)
    have l: "length (ds_direct ds) = 12" "\<forall>r \<in> set ?qs. run_empty r" "run_len (ds_indirect ds) = 0" "run_len (ds_double ds) = 0"
      using S by (simp_all add: stream_ok_def)
    have inv: "sb_inv (sv_sb v)" using V by (simp add: vol_ok_def)
    note F = free_blocks_ok [OF inv, of "run_base (sv_shift v) r" "run_len r - cut" "run_len r", folded sb_def]
    have dr: "drop ?m ?b = drop (run_len r - cut) (run_blocks (sv_shift v) r)" "take ?m ?b = runs_blocks (sv_shift v) rs @ take (run_len r - cut) (run_blocks (sv_shift v) r)"
      using c by (simp_all add: bl)
    have U: "used_set sb = used_set (sv_sb v) - set (drop ?m ?b)" unfolding dr(1) using F by (simp add: run_blocks_def)
    have d: "ds_direct ds' = (if run_len r' = 0 then rs @ no_run # ?qs else (rs @ [r']) @ ?qs)"
      by (simp add: res(1)) (subst R(1), simp add: rs)+
    have ne: "\<forall>r \<in> set rs. \<not> run_empty r" "\<not> run_empty r" using R(3) by (simp_all add: rs)
    have "shrunk v ds (v\<lparr>sv_sb := sb\<rparr>) ds' ?m"
    proof (cases "run_len r' = 0")
      case True
      have "runs_blocks (sv_shift v) rs = take ?m ?b" unfolding dr(2) using True by (simp add: r'_def)
      then show ?thesis
        by (intro shrunkI [OF V S _ _ U, where rs = rs and qs = "no_run # ?qs"]) (use True F d ne l R(2) in \<open>simp_all add: rs res(1)\<close>)
    next
      case False
      have "run_blocks (sv_shift v) r' = take (run_len r - cut) (run_blocks (sv_shift v) r)"
        using c(1) by (simp add: run_blocks_def r'_def run_base_def)
      then have "runs_blocks (sv_shift v) (rs @ [r']) = take ?m ?b" unfolding dr(2) by simp
      moreover have "\<not> run_empty r'" using False ne(2) by (simp add: run_empty_def r'_def)
      ultimately show ?thesis
        by (intro shrunkI [OF V S _ _ U, where rs = "rs @ [r']" and qs = ?qs]) (use False F d ne l R(2) in \<open>simp_all add: rs res(1)\<close>)
    qed
    then show ?thesis using m res(2) by blast
  qed
qed

subsection \<open>The next block of a stream\<close>

text \<open>The block behind the last run, and space for some more blocks in the direct runs.\<close>

definition stream_end :: "nat \<Rightarrow> data_stream \<Rightarrow> nat" where
  "stream_end sh ds = run_base sh (last_run ds) + run_len (last_run ds)"

definition room :: "stream_vol \<Rightarrow> data_stream \<Rightarrow> nat \<Rightarrow> bool" where
  "room v ds k \<longleftrightarrow>
     length (direct_runs ds) + k \<le> 12
     \<or> direct_runs ds \<noteq> [] \<and> length (direct_runs ds) < 12 \<and> stream_end (sv_shift v) ds + k \<le> s_num_blocks (sv_sb v)
       \<and> {stream_end (sv_shift v) ds..<stream_end (sv_shift v) ds + k} \<inter> used_set (sv_sb v) = {}"

lemma bmap_next:
  assumes V: "vol_ok v" and S: "stream_ok v ds" and b: "offset div sv_bs v = length (stream_blocks (sv_shift v) ds)"
    and L: "length (stream_blocks (sv_shift v) ds) + 256 < 2 ^ 16" and r: "room v ds (Suc k)"
  shows "\<exists>ds' v' res new. agfs_bmap offset True ds v = Some (ds', v', res) \<and> stream_grown v ds v' ds' new \<and>
    (case res of
       Inl e \<Rightarrow> e = ENOSPC \<and> new = [] \<and> used_set (sv_sb v') = {0..<s_num_blocks (sv_sb v)}
     | Inr blk \<Rightarrow> new \<noteq> [] \<and> hd new = blk \<and> length new \<le> 256 \<and> room v' ds' (Suc k - length new))"
proof -
  let ?n = "length (direct_runs ds)" and ?l = "last_run ds" and ?c = "length (stream_blocks (sv_shift v) ds)"
  have inv: "sb_inv (sv_sb v)" using V by (simp add: vol_ok_def)
  have n: "?n < 12" using r by (auto simp: room_def)
  have "length (ds_direct ds) = 12" using S by (simp add: stream_ok_def)
  moreover have "(if ?n = 0 then no_run else ds_direct ds ! (?n - 1)) = ?l" by (rule last_run_at [OF S])
  ultimately have call: "agfs_bmap offset True ds v = bmap_grow offset ?c (run_ag ?l) (run_start ?l) (run_len ?l) ?n ?c ds v"
    using b n by (simp add: agfs_bmap_def bmap_scan Let_def)
  obtain sb nbo where ex: "extend_last ?n (run_ag ?l) (run_start ?l) (run_len ?l) (sv_sb v) = (sb, nbo)" by fastforce
  show ?thesis
  proof (cases nbo)
    case (Some nb)
    note ex = ex [unfolded Some]
    obtain rs where rs: "direct_runs ds = rs @ [?l]" using extend_last_some [OF S ex] by metis
    have ex': "extend_last (Suc (length rs)) (run_ag ?l) (run_start ?l) (run_len ?l) (sv_sb v) = (sb, Some nb)" using ex by (simp add: rs)
    have L1: "?c + 1 < 2 ^ 16" using L by simp
    define ds1 where "ds1 = set_run (length rs) (longer_run (ds_direct ds ! length rs)) ((?c + 1) * sv_bs v) ds"
    define v1 where "v1 = v\<lparr>sv_sb := sb\<rparr>"
    note g = extend_step(1,2) [OF V S rs ex' L1, where rng = "(?c + 1) * sv_bs v", folded ds1_def v1_def] extend_step(3) [OF V S rs ex' L1]
    have got: "agfs_bmap offset True ds v = Some (ds1, v1, Inr nb)"
      unfolding call by (subst bmap_grow.simps) (simp add: ex' Let_def rs v1_def ds1_def)
    have nb: "nb = stream_end (sv_shift v) ds"
      using ex by (auto simp: extend_last_def stream_end_def run_base_def Let_def split: if_splits prod.splits option.splits)
    have "stream_end (sv_shift v) ds1 = stream_end (sv_shift v) ds + 1"
      by (simp add: stream_end_def last_run_snoc [OF g(2)] g(3)) (simp add: run_base_def longer_run_def)
    moreover have "sv_shift v1 = sv_shift v" "used_set (sv_sb v1) = insert nb (used_set (sv_sb v))" "s_num_blocks (sv_sb v1) = s_num_blocks (sv_sb v)"
      using g(1) by (simp_all add: stream_grown_def)
    ultimately have "room v1 ds1 k" using r g(2) nb unfolding room_def by (auto simp: rs disjoint_iff)
    then show ?thesis using got g(1) by (intro exI [of _ ds1] exI [of _ v1] exI [of _ "Inr nb"] exI [of _ "[nb]"]) simp
  next
    case None
    note ex = ex [unfolded None]
    have r1: "?n + Suc k \<le> 12"
    proof (rule ccontr)
      assume "\<not> ?n + Suc k \<le> 12"
      then have f: "direct_runs ds \<noteq> []" "stream_end (sv_shift v) ds < s_num_blocks (sv_sb v)" "stream_end (sv_shift v) ds \<notin> used_set (sv_sb v)"
        using r by (auto simp: room_def disjoint_iff)
      then have "run_len ?l \<noteq> 0" using runs_upto(3) [OF S] by (auto simp: last_run_def run_empty_def)
      then show False using ex f specific_refines [OF inv, of "stream_end (sv_shift v) ds"]
        by (auto simp: extend_last_def stream_end_def run_base_def Let_def split: prod.splits option.splits if_splits)
    qed
    obtain sb1 res where cc: "agfs_balloc_contig (sv_sb v) AGFS_DELALLOC_WINDOW = Some (sb1, res)"
      "(used_set sb1, res) = spec_contig (s_num_blocks (sv_sb v)) (sv_shift v) (used_set (sv_sb v)) 256" "sb_inv sb1" "s_num_blocks sb1 = s_num_blocks (sv_sb v)"
      "s_ag_shift sb1 = sv_shift v"
      using contig_refines [OF inv, of 256] by auto
    show ?thesis
    proof (cases res)
      case (Inl e)
      have "agfs_bmap offset True ds v = Some (ds, v\<lparr>sv_sb := sb1\<rparr>, Inl e)"
        unfolding call using n Inl cc(1) ex by (subst bmap_grow.simps) simp
      then show ?thesis using full_grown [OF V S cc [unfolded Inl]]
        by (intro exI [of _ ds] exI [of _ "v\<lparr>sv_sb := sb1\<rparr>"] exI [of _ "Inl e"] exI [of _ "[]"]) simp
    next
      case (Inr x)
      obtain nb wlen where x: "x = (nb, wlen)" by fastforce
      note cc' = cc(1) [unfolded Inr x] and C = contig_facts [OF V cc(1) [unfolded Inr x]]
      define ds1 where "ds1 = set_run ?n (new_run (sv_shift v) nb wlen) ((?c + wlen) * sv_bs v) ds"
      define v1 where "v1 = v\<lparr>sv_sb := sb1\<rparr>"
      note g = append_step [OF V S n cc' L, where rng = "(?c + wlen) * sv_bs v", folded ds1_def v1_def]
      have "agfs_bmap offset True ds v = Some (ds1, v1, Inr nb)"
        unfolding call using n ex C(8) by (subst bmap_grow.simps) (simp add: cc' Let_def ds1_def v1_def)
      moreover have "length (direct_runs ds1) + (Suc k - wlen) \<le> 12" using r1 C(8) by (simp add: g(2))
      then have "room v1 ds1 (Suc k - wlen)" by (simp add: room_def)
      moreover have "[nb..<nb + wlen] \<noteq> []" "hd [nb..<nb + wlen] = nb" using C(8) by simp_all
      ultimately show ?thesis using g(1) C(9)
        by (intro exI [of _ ds1] exI [of _ v1] exI [of _ "Inr nb"] exI [of _ "[nb..<nb + wlen]"]) simp
    qed
  qed
qed

end
