(* ===== verification/Agfs_File.thy ===== *)
theory Agfs_File
  imports Stream_Direct
begin

text \<open>
  Regular files, \<^verbatim>\<open>fs/agfs/file.c\<close> and \<^verbatim>\<open>agfs_truncate\<close> of \<^verbatim>\<open>fs/agfs/inode.c\<close>: the write of a small file into the tail of its inode, the
  conversion to a stream, the write loop on the stream and the truncate. The content of a file is a list of bytes; the lemmas give
  the content after each call.
\<close>

subsection \<open>Files\<close>

text \<open>
  An inode as \<^verbatim>\<open>file.c\<close> and \<^verbatim>\<open>agfs_truncate\<close> see it. A small file has its content in the tail of the inode block,
  \<open>fi_tail\<close>, which begins \<open>fi_base\<close> bytes behind the inode; \<open>fi_resized\<close> records the calls of \<^verbatim>\<open>agfs_index_resize\<close>.
  The time is an argument.
\<close>

record file_inode =
  fi_reg :: bool
  fi_inline :: bool
  fi_base :: nat
  fi_tail :: "byte list"
  fi_size :: nat
  fi_ds :: data_stream
  fi_blocks :: nat
  fi_mtime :: nat
  fi_ctime :: nat
  fi_dirty :: bool
  fi_resized :: "(nat \<times> nat) list"

abbreviation (input) AGFS_INLINE_MAX :: nat where "AGFS_INLINE_MAX \<equiv> 512"

text \<open>The loop that copies bytes into the blocks of a stream.\<close>

partial_function (option) stream_copy :: "byte list \<Rightarrow> nat \<Rightarrow> data_stream \<Rightarrow> stream_vol \<Rightarrow> (data_stream \<times> stream_vol \<times> status) option" where
  "stream_copy buf off ds v =
     (if buf = [] then Some (ds, v, None)
      else
        (case agfs_bmap (off mod 2 ^ 32) True ds v of
           None \<Rightarrow> None
         | Some (ds, v, res) \<Rightarrow>
             (case res of
                Inl e \<Rightarrow> Some (ds, v, Some e)
              | Inr block \<Rightarrow>
                  (let boff = off mod sv_bs v; bytes = min (sv_bs v - boff) (length buf)
                   in case sv_bread v block of
                        None \<Rightarrow> Some (ds, v, Some EIO)
                      | Some d \<Rightarrow> stream_copy (drop bytes buf) (off + bytes) ds (sv_bwrite v block (mem_put boff (take bytes buf) d))))))"

definition agfs_inline_expand_stream :: "file_inode \<Rightarrow> stream_vol \<Rightarrow> (file_inode \<times> stream_vol \<times> status) option" where
  "agfs_inline_expand_stream i v =
     (case stream_copy (take (fi_size i) (fi_tail i)) 0 (fi_ds i) v of
        None \<Rightarrow> None
      | Some (ds, v, Some e) \<Rightarrow> Some (i\<lparr>fi_ds := ds\<rparr>, v, Some e)
      | Some (ds, v, None) \<Rightarrow>
          Some (i\<lparr>fi_ds := ds, fi_inline := False, fi_blocks := (fi_size i + 511) div 512, fi_dirty := True\<rparr>, v, None))"

definition agfs_inline_write :: "byte list \<Rightarrow> nat \<Rightarrow> nat \<Rightarrow> nat \<Rightarrow> nat \<Rightarrow> file_inode \<Rightarrow> file_inode" where
  "agfs_inline_write buf off old_size old_mtime now i =
     (let newsize = max (off + length buf) (fi_size i);
          t = (if off > fi_size i then mem_put (fi_size i) (replicate (off - fi_size i) 0) (fi_tail i) else fi_tail i);
          t = mem_put off buf t;
          t = (if fi_base i + newsize < AGFS_INLINE_MAX then mem_put newsize (replicate (length t - newsize) 0) t else t)
      in i\<lparr>fi_tail := t, fi_size := newsize, fi_inline := True, fi_blocks := 0, fi_mtime := now, fi_ctime := now, fi_dirty := True,
           fi_resized := fi_resized i @ [(old_size, old_mtime)]\<rparr>)"

text \<open>The part of a write that goes to the stream.\<close>

definition file_write_stream :: "byte list \<Rightarrow> nat \<Rightarrow> nat \<Rightarrow> nat \<Rightarrow> nat \<Rightarrow> file_inode \<Rightarrow> stream_vol \<Rightarrow> (file_inode \<times> stream_vol \<times> nat \<times> nat result) option" where
  "file_write_stream buf off old_size old_mtime now i v =
     (case stream_copy buf off (fi_ds i) v of
        None \<Rightarrow> None
      | Some (ds, v, Some e) \<Rightarrow> Some (i\<lparr>fi_ds := ds\<rparr>, v, off, Inl e)
      | Some (ds, v, None) \<Rightarrow>
          (let newsize = (if off + length buf > fi_size i then off + length buf else fi_size i)
           in Some (i\<lparr>fi_ds := ds, fi_size := newsize, fi_blocks := (newsize + 511) div 512, fi_mtime := now, fi_ctime := now,
                      fi_dirty := True, fi_resized := fi_resized i @ [(old_size, old_mtime)]\<rparr>,
                    v, off + length buf, Inr (length buf))))"

text \<open>The result is the inode, the volume, the new offset of the descriptor, and the number of bytes or an error.\<close>

definition agfs_file_write :: "bool \<Rightarrow> nat \<Rightarrow> byte list \<Rightarrow> nat \<Rightarrow> file_inode \<Rightarrow> stream_vol \<Rightarrow> (file_inode \<times> stream_vol \<times> nat \<times> nat result) option" where
  "agfs_file_write app foff buf now i v =
     (let off = (if app then fi_size i else foff); old_size = fi_size i; old_mtime = fi_mtime i
      in if fi_reg i \<and> buf \<noteq> [] \<and> fi_inline i then
           (if off + length buf \<le> AGFS_INLINE_MAX
            then Some (agfs_inline_write buf off old_size old_mtime now i, v, off + length buf, Inr (length buf))
            else
              (case agfs_inline_expand_stream i v of
                 None \<Rightarrow> None
               | Some (i, v, Some e) \<Rightarrow> Some (i, v, off, Inl e)
               | Some (i, v, None) \<Rightarrow> file_write_stream buf off old_size old_mtime now i v))
         else if fi_reg i \<and> buf \<noteq> [] \<and> fi_size i = 0 \<and> off = 0 \<and> length buf \<le> AGFS_INLINE_MAX
         then Some (agfs_inline_write buf 0 0 old_mtime now i, v, length buf, Inr (length buf))
         else file_write_stream buf off old_size old_mtime now i v)"

definition agfs_truncate :: "nat \<Rightarrow> nat \<Rightarrow> file_inode \<Rightarrow> stream_vol \<Rightarrow> (file_inode \<times> stream_vol \<times> status) option" where
  "agfs_truncate len now i v =
     (let old = (fi_size i, fi_mtime i);
          finish = (\<lambda>i ds. i\<lparr>fi_size := len, fi_ds := ds\<lparr>ds_size := len\<rparr>, fi_mtime := now, fi_dirty := True, fi_resized := fi_resized i @ [old]\<rparr>);
          cut = (\<lambda>i v. case truncate_stream len (fi_ds i) v of (ds, v) \<Rightarrow> Some (finish i ds, v, None))
      in if fi_reg i \<and> fi_inline i then
           (if len \<le> AGFS_INLINE_MAX then
              (let t = (if len < fi_size i then mem_put len (replicate (fi_size i - len) 0) (fi_tail i) else fi_tail i)
               in Some (finish (i\<lparr>fi_tail := t\<rparr>) (fi_ds i), v, None))
            else
              (case agfs_inline_expand_stream i v of
                 None \<Rightarrow> None
               | Some (i, v, Some _) \<Rightarrow> Some (i, v, Some ENOSPC)
               | Some (i, v, None) \<Rightarrow> cut i v))
         else cut i v)"

declare stream_copy.simps [code]

subsection \<open>The bytes of a list of blocks\<close>

definition flat :: "stream_vol \<Rightarrow> nat list \<Rightarrow> byte list" where
  "flat v bl = concat (map (sv_blk v) bl)"

definition disk_ok :: "stream_vol \<Rightarrow> bool" where
  "disk_ok v \<longleftrightarrow> (\<forall>b < s_num_blocks (sv_sb v). sv_rd v b \<and> length (sv_blk v b) = sv_bs v)"

lemma concat_update:
  "i < length xs \<Longrightarrow> \<forall>x \<in> set xs. length x = n \<Longrightarrow> b + length x \<le> n \<Longrightarrow>
     concat (xs[i := mem_put b x (xs ! i)]) = mem_put (i * n + b) x (concat xs)"
proof (induction xs arbitrary: i)
  case (Cons y ys)
  show ?case
  proof (cases i)
    case 0
    then show ?thesis using Cons.prems by (simp add: mem_put_def)
  next
    case (Suc j)
    have "concat (ys[j := mem_put b x (ys ! j)]) = mem_put (j * n + b) x (concat ys)" using Cons Suc by simp
    then show ?thesis using Suc Cons.prems by (simp add: mem_put_def add.assoc)
  qed
qed simp

lemma flat_write:
  assumes "distinct bl" "i < length bl" "\<forall>b \<in> set bl. length (sv_blk v b) = n" "boff + length x \<le> n"
  shows "flat (sv_bwrite v (bl ! i) (mem_put boff x (sv_blk v (bl ! i)))) bl = mem_put (i * n + boff) x (flat v bl)"
proof -
  have "map ((sv_blk v)(bl ! i := y)) bl = (map (sv_blk v) bl)[i := y]" for y
    using assms(1,2) by (auto simp: list_eq_iff_nth_eq nth_list_update nth_eq_iff_index_eq)
  then show ?thesis using concat_update [of i "map (sv_blk v) bl" n boff x] assms by (simp add: flat_def sv_bwrite_def)
qed

lemma length_flat: "\<forall>b \<in> set bl. length (sv_blk v b) = n \<Longrightarrow> length (flat v bl) = length bl * n"
  by (induction bl) (simp_all add: flat_def)

lemma mem_put_mem_put: "off + length x \<le> length X \<Longrightarrow> mem_put (off + length x) y (mem_put off x X) = mem_put off (x @ y) X"
  by (simp add: mem_put_def ac_simps)

lemma mem_put_Nil [simp]: "mem_put off [] X = X"
  by (simp add: mem_put_def)

lemma blk_irrelevant [simp]:
  "vol_ok (v\<lparr>sv_blk := f\<rparr>) = vol_ok v" "stream_ok (v\<lparr>sv_blk := f\<rparr>) = stream_ok v" "room (v\<lparr>sv_blk := f\<rparr>) = room v"
  "vol_ok (sv_bwrite v b d) = vol_ok v" "stream_ok (sv_bwrite v b d) = stream_ok v" "room (sv_bwrite v b d) = room v"
  "sv_sb (sv_bwrite v b d) = sv_sb v" "sv_rd (sv_bwrite v b d) = sv_rd v"
  by (simp_all add: fun_eq_iff vol_ok_def stream_ok_def room_def sv_bwrite_def)

lemma stream_grown_blk:
  "stream_grown (v\<lparr>sv_blk := f\<rparr>) ds (v'\<lparr>sv_blk := f\<rparr>) ds' new = stream_grown v ds (v'\<lparr>sv_blk := sv_blk v\<rparr>) ds' new"
  by (simp add: stream_grown_def)

lemma stream_in_volume: "stream_ok v ds \<Longrightarrow> b \<in> set (stream_blocks (sv_shift v) ds) \<Longrightarrow> b < s_num_blocks (sv_sb v)"
  by (auto simp: stream_ok_def bm.used_iff)

subsection \<open>Copying into a stream\<close>

text \<open>
  The volume and the stream after a copy: new blocks were taken, and only the blocks of the stream have other contents.
\<close>

definition copied :: "stream_vol \<Rightarrow> data_stream \<Rightarrow> stream_vol \<Rightarrow> data_stream \<Rightarrow> nat list \<Rightarrow> bool" where
  "copied v ds v' ds' new \<longleftrightarrow>
     stream_grown v ds (v'\<lparr>sv_blk := sv_blk v\<rparr>) ds' new \<and> disk_ok v'
     \<and> (\<forall>b. b \<notin> set (stream_blocks (sv_shift v) ds @ new) \<longrightarrow> sv_blk v' b = sv_blk v b)"

lemma copied_refl: "vol_ok v \<Longrightarrow> stream_ok v ds \<Longrightarrow> disk_ok v \<Longrightarrow> copied v ds v ds []"
  by (simp add: copied_def stream_grown_refl)

lemma copied_facts:
  assumes "copied v ds v' ds' new"
  shows "vol_ok v'" "stream_ok v' ds'" "stream_blocks (sv_shift v) ds' = stream_blocks (sv_shift v) ds @ new"
    "sv_shift v' = sv_shift v" "sv_bs v' = sv_bs v" "s_num_blocks (sv_sb v') = s_num_blocks (sv_sb v)" "disk_ok v'" "sv_rd v' = sv_rd v"
    "used_set (sv_sb v') = used_set (sv_sb v) \<union> set new" "set new \<inter> used_set (sv_sb v) = {}" "ds_size ds' = ds_size ds"
  using assms by (simp_all add: copied_def stream_grown_def)

lemma copied_trans:
  assumes "copied v ds v1 ds1 new1" "copied v1 ds1 v2 ds2 new2"
  shows "copied v ds v2 ds2 (new1 @ new2)"
  using assms copied_facts [OF assms(1)] by (auto simp: copied_def stream_grown_def)

lemma stream_disk:
  assumes "disk_ok v" "stream_ok v ds"
  shows "\<forall>b \<in> set (stream_blocks (sv_shift v) ds). sv_rd v b \<and> length (sv_blk v b) = sv_bs v"
  using assms stream_in_volume [OF assms(2)] by (auto simp: disk_ok_def)

lemma stream_grown_copied: "stream_grown v ds v1 ds1 new \<Longrightarrow> disk_ok v \<Longrightarrow> copied v ds v1 ds1 new"
  by (simp add: copied_def stream_grown_def disk_ok_def)

lemma one_write_copied:
  assumes "stream_grown v ds v1 ds1 new" "disk_ok v" "b \<in> set (stream_blocks (sv_shift v) ds @ new)" "length d = sv_bs v"
  shows "copied v ds (sv_bwrite v1 b d) ds1 new"
proof -
  have "v1\<lparr>sv_blk := sv_blk v\<rparr> = v1" using assms(1) by (simp add: stream_grown_def)
  moreover have "(sv_bwrite v1 b d)\<lparr>sv_blk := sv_blk v\<rparr> = v1\<lparr>sv_blk := sv_blk v\<rparr>" by (simp add: sv_bwrite_def)
  ultimately show ?thesis using assms by (auto simp: copied_def disk_ok_def stream_grown_def sv_bwrite_def)
qed

lemma stream_copy_ok:
  assumes "vol_ok v" "stream_ok v ds" "disk_ok v" "off \<le> length (stream_blocks (sv_shift v) ds) * sv_bs v"
    "blocks_of (sv_bs v) (off + length buf) \<le> K" "K + 256 < 2 ^ 16" "off + length buf < 2 ^ 32"
    "room v ds (K - length (stream_blocks (sv_shift v) ds))"
  shows "\<exists>ds' v' st new. stream_copy buf off ds v = Some (ds', v', st) \<and> copied v ds v' ds' new \<and>
    (case st of
       None \<Rightarrow> room v' ds' (K - length (stream_blocks (sv_shift v) ds @ new))
         \<and> off + length buf \<le> length (stream_blocks (sv_shift v) ds @ new) * sv_bs v
         \<and> flat v' (stream_blocks (sv_shift v) ds @ new) = mem_put off buf (flat v (stream_blocks (sv_shift v) ds @ new))
     | Some e \<Rightarrow> e = ENOSPC \<and> used_set (sv_sb v') = {0..<s_num_blocks (sv_sb v)})"
  using assms
proof (induction "length buf" arbitrary: buf off ds v rule: less_induct)
  case less
  note V = less.prems(1) and S = less.prems(2) and D = less.prems(3)
  let ?bl = "stream_blocks (sv_shift v) ds" and ?bs = "sv_bs v" and ?q = "off div sv_bs v"
  have bs: "0 < ?bs" using V by (simp add: vol_ok_def)
  show ?case
  proof (cases "buf = []")
    case True
    then have "stream_copy buf off ds v = Some (ds, v, None)" by (subst stream_copy.simps) simp
    then show ?thesis using copied_refl [OF V S D] less.prems(4,8) True
      by (intro exI [of _ ds] exI [of _ v] exI [of _ None] exI [of _ "[]"]) simp
  next
    case False
    have o32: "off mod 2 ^ 32 = off" using less.prems(7) by simp
    have q: "?q \<le> length ?bl" using less.prems(4) bs by (metis div_le_mono nonzero_mult_div_cancel_right less_not_refl)
    have "\<not> off + length buf \<le> ?q * ?bs" using False bs div_times_less_eq_dividend [of off ?bs] by (metis add_lessD1 add_less_same_cancel1 le_trans length_greater_0_conv linorder_not_le not_less_zero less_add_same_cancel1 leD)
    then have qK: "?q < K" using less.prems(5) blocks_of_le [OF bs, of "off + length buf" ?q] by simp
    have "\<exists>ds1 v1 res new1. agfs_bmap off True ds v = Some (ds1, v1, res) \<and> stream_grown v ds v1 ds1 new1 \<and>
      (case res of
         Inl e \<Rightarrow> e = ENOSPC \<and> used_set (sv_sb v1) = {0..<s_num_blocks (sv_sb v)}
       | Inr blk \<Rightarrow> ?q < length (?bl @ new1) \<and> blk = (?bl @ new1) ! ?q \<and> room v1 ds1 (K - length (?bl @ new1)))"
    proof (cases "?q < length ?bl")
      case True
      then show ?thesis using bmap_mapped [OF True, of True] stream_grown_refl [OF V S] less.prems(8)
        by (intro exI [of _ ds] exI [of _ v] exI [of _ "Inr (?bl ! ?q)"] exI [of _ "[]"]) simp
    next
      case False
      then have e: "?q = length ?bl" using q by simp
      obtain k where k: "K - length ?bl = Suc k" using qK e by (metis Suc_diff_Suc)
      have "length ?bl + 256 < 2 ^ 16" using qK e less.prems(6) by simp
      from bmap_next [OF V S e this less.prems(8) [unfolded k]]
      obtain ds1 v1 res new where b: "agfs_bmap off True ds v = Some (ds1, v1, res)" "stream_grown v ds v1 ds1 new"
        "case res of Inl e \<Rightarrow> e = ENOSPC \<and> new = [] \<and> used_set (sv_sb v1) = {0..<s_num_blocks (sv_sb v)}
         | Inr blk \<Rightarrow> new \<noteq> [] \<and> hd new = blk \<and> length new \<le> 256 \<and> room v1 ds1 (Suc k - length new)" by blast
      have "Suc k - length new = K - length (?bl @ new)" using k by simp
      then show ?thesis using b e by (intro exI [of _ ds1] exI [of _ v1] exI [of _ res] exI [of _ new]) (auto simp: nth_append hd_conv_nth split: sum.splits)
    qed
    then obtain ds1 v1 res new1 where b: "agfs_bmap off True ds v = Some (ds1, v1, res)" and g: "stream_grown v ds v1 ds1 new1"
      and res: "case res of Inl e \<Rightarrow> e = ENOSPC \<and> used_set (sv_sb v1) = {0..<s_num_blocks (sv_sb v)}
       | Inr blk \<Rightarrow> ?q < length (?bl @ new1) \<and> blk = (?bl @ new1) ! ?q \<and> room v1 ds1 (K - length (?bl @ new1))" by blast
    have g1: "vol_ok v1" "stream_ok v1 ds1" "sv_shift v1 = sv_shift v" "sv_bs v1 = ?bs" "stream_blocks (sv_shift v) ds1 = ?bl @ new1"
      "sv_blk v1 = sv_blk v" "sv_rd v1 = sv_rd v" "s_num_blocks (sv_sb v1) = s_num_blocks (sv_sb v)"
      using g by (simp_all add: stream_grown_def)
    have D1: "disk_ok v1" using D g1 by (simp add: disk_ok_def)
    show ?thesis
    proof (cases res)
      case (Inl e)
      have "stream_copy buf off ds v = Some (ds1, v1, Some e)" using b Inl False o32 by (subst stream_copy.simps) simp
      then show ?thesis using res Inl stream_grown_copied [OF g D] by (intro exI [of _ ds1] exI [of _ v1] exI [of _ "Some e"] exI [of _ new1]) simp
    next
      case (Inr blk)
      let ?bl1 = "?bl @ new1" and ?x = "take (?bs - off mod ?bs) buf" let ?n = "length ?x"
      have r: "?q < length ?bl1" "blk = ?bl1 ! ?q" "room v1 ds1 (K - length ?bl1)" using res Inr by simp_all
      have dk: "\<forall>b \<in> set ?bl1. sv_rd v1 b \<and> length (sv_blk v1 b) = ?bs" using stream_disk [OF D1 g1(2)] unfolding g1(3-5) .
      have mem: "blk \<in> set ?bl1" unfolding r(2) by (rule nth_mem [OF r(1)])
      then have blk: "sv_rd v1 blk" "length (sv_blk v1 blk) = ?bs" "blk \<in> set ?bl1" using dk by blast+
      have mo: "off mod ?bs < ?bs" using bs by simp
      have fit: "off mod ?bs + ?n \<le> ?bs" "0 < ?n" using mo False by (auto simp: min_def)
      define v2 where "v2 = sv_bwrite v1 blk (mem_put (off mod ?bs) ?x (sv_blk v1 blk))"
      have c2: "copied v ds v2 ds1 new1" unfolding v2_def
        by (rule one_write_copied [OF g D blk(3)]) (use fit blk(2) in simp)
      note f2 = copied_facts [OF c2]
      have tk: "take ?n buf = ?x" "min (?bs - off mod ?bs) (length buf) = ?n" by (simp_all add: min_def)
      have step: "stream_copy buf off ds v = stream_copy (drop ?n buf) (off + ?n) ds1 v2"
        using b Inr False o32 blk(1) g1(4) by (subst stream_copy.simps) (simp add: sv_bread_def Let_def v2_def tk del: length_take)
      have le: "off + ?n \<le> length ?bl1 * ?bs"
      proof -
        have "off + ?n \<le> ?q * ?bs + ?bs" using fit(1) div_mult_mod_eq [of off ?bs] by linarith
        also have "\<dots> = Suc ?q * ?bs" by simp
        also have "\<dots> \<le> length ?bl1 * ?bs" using r(1) by (intro mult_le_mono1) simp
        finally show ?thesis .
      qed
      have len: "off + ?n + length (drop ?n buf) = off + length buf" by simp
      have "\<exists>ds' v' st new. stream_copy (drop ?n buf) (off + ?n) ds1 v2 = Some (ds', v', st) \<and> copied v2 ds1 v' ds' new \<and>
        (case st of
           None \<Rightarrow> room v' ds' (K - length (stream_blocks (sv_shift v2) ds1 @ new))
             \<and> off + ?n + length (drop ?n buf) \<le> length (stream_blocks (sv_shift v2) ds1 @ new) * sv_bs v2
             \<and> flat v' (stream_blocks (sv_shift v2) ds1 @ new) = mem_put (off + ?n) (drop ?n buf) (flat v2 (stream_blocks (sv_shift v2) ds1 @ new))
         | Some e \<Rightarrow> e = ENOSPC \<and> used_set (sv_sb v') = {0..<s_num_blocks (sv_sb v2)})"
        by (rule less.hyps) (use fit(2) False f2 le r(3) less.prems(5-7) len in \<open>simp_all add: v2_def\<close>)
      then obtain ds' v' st new where IH: "stream_copy (drop ?n buf) (off + ?n) ds1 v2 = Some (ds', v', st)" "copied v2 ds1 v' ds' new"
        "case st of
           None \<Rightarrow> room v' ds' (K - length (?bl1 @ new)) \<and> off + length buf \<le> length (?bl1 @ new) * ?bs
             \<and> flat v' (?bl1 @ new) = mem_put (off + ?n) (drop ?n buf) (flat v2 (?bl1 @ new))
         | Some e \<Rightarrow> e = ENOSPC \<and> used_set (sv_sb v') = {0..<s_num_blocks (sv_sb v)}"
        unfolding len f2(3,4,5,6) by blast
      have C: "copied v ds v' ds' (new1 @ new)" by (rule copied_trans [OF c2 IH(2)])
      note fC = copied_facts [OF C]
      have dis: "distinct (?bl1 @ new)" "\<forall>b \<in> set (?bl1 @ new). length (sv_blk v1 b) = ?bs"
      proof -
        have "stream_blocks (sv_shift v') ds' = ?bl1 @ new" using fC(3,4) by simp
        then show "distinct (?bl1 @ new)" using fC(2) by (simp add: stream_ok_def)
        have "\<forall>b \<in> set (?bl1 @ new). b < s_num_blocks (sv_sb v)" using stream_in_volume [OF fC(2)] fC(3,4,6) by auto
        then show "\<forall>b \<in> set (?bl1 @ new). length (sv_blk v1 b) = ?bs" using D g1(6) by (simp add: disk_ok_def)
      qed
      have at: "blk = (?bl1 @ new) ! ?q" "?q < length (?bl1 @ new)" using r(1,2) by (simp_all only: nth_append_left) simp
      have "flat v2 (?bl1 @ new) = mem_put (?q * ?bs + off mod ?bs) ?x (flat v1 (?bl1 @ new))"
        unfolding v2_def at(1) by (rule flat_write [OF dis(1) at(2) dis(2) fit(1)])
      then have fl: "flat v2 (?bl1 @ new) = mem_put off ?x (flat v (?bl1 @ new))" using g1(6) by (simp add: flat_def)
      have "length (flat v (?bl1 @ new)) = length (?bl1 @ new) * ?bs" using dis(2) g1(6) by (intro length_flat) simp
      then have "off + ?n \<le> length (flat v (?bl1 @ new))" using le by (simp add: add_mult_distrib)
      moreover have "?x @ drop ?n buf = buf" using append_take_drop_id [of ?n buf] unfolding tk(1) .
      moreover note mem_put_mem_put [of off ?x "flat v (?bl1 @ new)" "drop ?n buf"]
      ultimately
      have "mem_put (off + ?n) (drop ?n buf) (flat v2 (?bl1 @ new)) = mem_put off buf (flat v (?bl1 @ new))" unfolding fl by metis
      then show ?thesis using IH step C
        by (intro exI [of _ ds'] exI [of _ v'] exI [of _ st] exI [of _ "new1 @ new"]) (simp split: option.splits)
    qed
  qed
qed

subsection \<open>The content of a file\<close>

abbreviation file_blocks :: "stream_vol \<Rightarrow> file_inode \<Rightarrow> nat list" where
  "file_blocks v i \<equiv> stream_blocks (sv_shift v) (fi_ds i)"

definition file_content :: "stream_vol \<Rightarrow> file_inode \<Rightarrow> byte list" where
  "file_content v i = take (fi_size i) (if fi_inline i then fi_tail i else flat v (file_blocks v i))"

definition file_inv :: "stream_vol \<Rightarrow> file_inode \<Rightarrow> bool" where
  "file_inv v i \<longleftrightarrow>
     stream_ok v (fi_ds i) \<and> AGFS_INLINE_MAX \<le> length (fi_tail i)
     \<and> (if fi_inline i then fi_reg i \<and> fi_size i \<le> AGFS_INLINE_MAX else fi_size i \<le> length (file_blocks v i) * sv_bs v)"

lemma flat_cong: "\<forall>b \<in> set bl. sv_blk v' b = sv_blk v b \<Longrightarrow> flat v' bl = flat v bl"
  by (simp add: flat_def cong: map_cong)

lemma flat_append [simp]: "flat v (bl @ cl) = flat v bl @ flat v cl"
  by (simp add: flat_def)

lemma take_mem_put:
  assumes "off \<le> n" "n \<le> length X" "off + length x \<le> length (X @ Y)"
  shows "take (max (off + length x) n) (mem_put off x (X @ Y)) = mem_put off x (take n X)"
  using assms by (auto simp: mem_put_def take_drop max_def min_def)

lemma file_content_length: "file_inv v i \<Longrightarrow> disk_ok v \<Longrightarrow> length (file_content v i) = fi_size i"
  using length_flat [of "file_blocks v i" v "sv_bs v"] stream_disk [of v "fi_ds i"]
  by (auto simp: file_content_def file_inv_def)

lemma inline_write_content:
  assumes "file_inv v i" "off \<le> fi_size i" "off + length buf \<le> AGFS_INLINE_MAX" "fi_reg i" "fi_inline i \<or> fi_size i = 0"
  shows "file_inv v (agfs_inline_write buf off os om now i)" "file_content v (agfs_inline_write buf off os om now i) = mem_put off buf (file_content v i)"
    "fi_ds (agfs_inline_write buf off os om now i) = fi_ds i" "fi_reg (agfs_inline_write buf off os om now i)"
proof -
  let ?j = "agfs_inline_write buf off os om now i" and ?n = "max (off + length buf) (fi_size i)"
  have t: "512 \<le> length (fi_tail i)" "fi_size i \<le> 512" using assms by (auto simp: file_inv_def)
  have n: "fi_size ?j = ?n" "fi_inline ?j" "fi_ds ?j = fi_ds i" "fi_reg ?j = fi_reg i" "?n \<le> 512"
    using t assms(3) by (simp_all add: agfs_inline_write_def Let_def)
  have tl: "length (fi_tail ?j) = length (fi_tail i)" "take ?n (fi_tail ?j) = take ?n (mem_put off buf (fi_tail i))"
    using assms(2) t n(5) by (auto simp: agfs_inline_write_def Let_def mem_put_def)
  show "fi_ds ?j = fi_ds i" "fi_reg ?j" using n assms(4) by simp_all
  show "file_inv v ?j" using assms(1,4) n tl(1) by (simp add: file_inv_def)
  have "take ?n (mem_put off buf (fi_tail i)) = mem_put off buf (take (fi_size i) (fi_tail i))"
    using take_mem_put [of off "fi_size i" "fi_tail i" buf "[]"] assms(2,3) t by simp
  moreover have "take (fi_size i) (fi_tail i) = file_content v i" using assms(5) by (auto simp: file_content_def)
  ultimately show "file_content v ?j = mem_put off buf (file_content v i)" using n(1,2) tl(2) by (simp add: file_content_def)
qed

text \<open>
  The outcome of a call that copies into the stream of a file: the content the caller asked for, or a full volume. Either way the
  blocks that the stream takes were free and no block outside the stream changes.
\<close>

definition file_outcome :: "stream_vol \<Rightarrow> file_inode \<Rightarrow> byte list \<Rightarrow> stream_vol \<Rightarrow> file_inode \<Rightarrow> nat list \<Rightarrow> bool \<Rightarrow> bool" where
  "file_outcome v i content v' i' new fin \<longleftrightarrow>
     copied v (fi_ds i) v' (fi_ds i') new \<and> fi_reg i' = fi_reg i \<and> file_inv v' i'
     \<and> (if fin then file_content v' i' = content else used_set (sv_sb v') = {0..<s_num_blocks (sv_sb v)})"

lemma copied_content:
  assumes c: "copied v ds v' ds' new" and D: "disk_ok v" and n: "off \<le> n" "n \<le> length (stream_blocks (sv_shift v) ds) * sv_bs v"
    and f: "flat v' (stream_blocks (sv_shift v) ds @ new) = mem_put off buf (flat v (stream_blocks (sv_shift v) ds @ new))"
    and l: "off + length buf \<le> length (stream_blocks (sv_shift v) ds @ new) * sv_bs v" and S: "stream_ok v ds"
  shows "take (max (off + length buf) n) (flat v' (stream_blocks (sv_shift v') ds')) = mem_put off buf (take n (flat v (stream_blocks (sv_shift v) ds)))"
proof -
  note C = copied_facts [OF c]
  have dk: "\<forall>b \<in> set (stream_blocks (sv_shift v) ds @ new). length (sv_blk v b) = sv_bs v"
    using stream_in_volume [OF C(2)] C(3,4,6) D by (auto simp: disk_ok_def)
  have "length (flat v (stream_blocks (sv_shift v) ds)) = length (stream_blocks (sv_shift v) ds) * sv_bs v"
    "length (flat v (stream_blocks (sv_shift v) ds @ new)) = length (stream_blocks (sv_shift v) ds @ new) * sv_bs v"
    using dk by (intro length_flat, simp)+
  then show ?thesis unfolding C(3,4) f using n l take_mem_put [of off n "flat v (stream_blocks (sv_shift v) ds)" buf "flat v new"]
    by (simp del: length_append)
qed

lemma file_write_stream_ok:
  assumes V: "vol_ok v" and D: "disk_ok v" and I: "file_inv v i" "\<not> fi_inline i \<or> buf = []" and o: "off \<le> fi_size i"
    and K: "blocks_of (sv_bs v) (off + length buf) \<le> K" "K + 256 < 2 ^ 16" "off + length buf < 2 ^ 32" "room v (fi_ds i) (K - length (file_blocks v i))"
  shows "\<exists>i' v' off' res new. file_write_stream buf off os om now i v = Some (i', v', off', res) \<and>
    file_outcome v i (mem_put off buf (file_content v i)) v' i' new (res = Inr (length buf)) \<and> (res = Inr (length buf) \<and> off' = off + length buf \<or> res = Inl ENOSPC \<and> off' = off)"
proof (cases "buf = []")
  case True
  then have "stream_copy buf off (fi_ds i) v = Some (fi_ds i, v, None)" by (subst stream_copy.simps) simp
  then show ?thesis using True o I(1) copied_refl [OF V _ D, of "fi_ds i"]
    by (auto simp: file_write_stream_def file_outcome_def file_inv_def file_content_def)
next
  case False
  let ?bl = "file_blocks v i"
  have S: "stream_ok v (fi_ds i)" "\<not> fi_inline i" "fi_size i \<le> length ?bl * sv_bs v" "512 \<le> length (fi_tail i)"
    using I False by (auto simp: file_inv_def)
  from stream_copy_ok [OF V S(1) D le_trans [OF o S(3)] K]
  obtain ds' v' st new where c: "stream_copy buf off (fi_ds i) v = Some (ds', v', st)" "copied v (fi_ds i) v' ds' new"
    and st: "case st of None \<Rightarrow> room v' ds' (K - length (?bl @ new)) \<and> off + length buf \<le> length (?bl @ new) * sv_bs v
        \<and> flat v' (?bl @ new) = mem_put off buf (flat v (?bl @ new))
      | Some e \<Rightarrow> e = ENOSPC \<and> used_set (sv_sb v') = {0..<s_num_blocks (sv_sb v)}" by blast
  note C = copied_facts [OF c(2)]
  show ?thesis
  proof (cases st)
    case None
    let ?n = "max (off + length buf) (fi_size i)"
    have s: "off + length buf \<le> length (?bl @ new) * sv_bs v" "flat v' (?bl @ new) = mem_put off buf (flat v (?bl @ new))" using st None by simp_all
    have "?n \<le> length (?bl @ new) * sv_bs v" using s(1) S(3) by (auto simp: add_mult_distrib)
    moreover have "take ?n (flat v' (stream_blocks (sv_shift v') ds')) = mem_put off buf (take (fi_size i) (flat v ?bl))"
      by (rule copied_content [OF c(2) D o S(3) s(2,1) S(1)])
    moreover have "(if off + length buf > fi_size i then off + length buf else fi_size i) = ?n" by simp
    ultimately show ?thesis using c None S C
      by (auto simp: file_write_stream_def file_outcome_def file_inv_def file_content_def Let_def)
  next
    case (Some e)
    have "fi_size i \<le> length (?bl @ new) * sv_bs v" using S(3) by (simp add: add_mult_distrib)
    then show ?thesis using Some c st S C by (auto simp: file_write_stream_def file_outcome_def file_inv_def)
  qed
qed

lemma file_outcome_trans:
  assumes "file_outcome v i c v1 i1 new1 True" "file_outcome v1 i1 c' v2 i2 new2 fin"
  shows "file_outcome v i c' v2 i2 (new1 @ new2) fin"
  using assms copied_trans [of v "fi_ds i" v1 "fi_ds i1" new1 v2 "fi_ds i2" new2] copied_facts(6) [of v "fi_ds i" v1 "fi_ds i1" new1]
  by (auto simp: file_outcome_def split: if_splits)

lemma inline_expand_ok:
  assumes V: "vol_ok v" and D: "disk_ok v" and I: "file_inv v i" "fi_inline i"
    and K: "blocks_of (sv_bs v) (fi_size i) \<le> K" "K + 256 < 2 ^ 16" "room v (fi_ds i) (K - length (file_blocks v i))"
  shows "\<exists>i1 v1 st new. agfs_inline_expand_stream i v = Some (i1, v1, st) \<and> file_outcome v i (file_content v i) v1 i1 new (st = None) \<and>
    (st = None \<and> \<not> fi_inline i1 \<and> fi_size i1 = fi_size i \<and> room v1 (fi_ds i1) (K - length (file_blocks v1 i1)) \<or> st = Some ENOSPC)"
proof -
  let ?x = "take (fi_size i) (fi_tail i)" and ?bl = "file_blocks v i"
  have S: "stream_ok v (fi_ds i)" "fi_size i \<le> 512" "512 \<le> length (fi_tail i)" "fi_reg i" using I by (simp_all add: file_inv_def)
  have lx: "length ?x = fi_size i" using S by simp
  have c0: "file_content v i = ?x" using I(2) by (simp add: file_content_def)
  have "\<exists>ds' v' st new. stream_copy ?x 0 (fi_ds i) v = Some (ds', v', st) \<and> copied v (fi_ds i) v' ds' new \<and>
    (case st of
       None \<Rightarrow> room v' ds' (K - length (?bl @ new)) \<and> 0 + length ?x \<le> length (?bl @ new) * sv_bs v
         \<and> flat v' (?bl @ new) = mem_put 0 ?x (flat v (?bl @ new))
     | Some e \<Rightarrow> e = ENOSPC \<and> used_set (sv_sb v') = {0..<s_num_blocks (sv_sb v)})"
    by (rule stream_copy_ok [OF V S(1) D _ _ K(2) _ K(3)]) (use K(1) S lx in simp_all)
  then obtain ds' v' st new where c: "stream_copy ?x 0 (fi_ds i) v = Some (ds', v', st)" "copied v (fi_ds i) v' ds' new"
    and st: "case st of None \<Rightarrow> room v' ds' (K - length (?bl @ new)) \<and> fi_size i \<le> length (?bl @ new) * sv_bs v
        \<and> flat v' (?bl @ new) = mem_put 0 ?x (flat v (?bl @ new))
      | Some e \<Rightarrow> e = ENOSPC \<and> used_set (sv_sb v') = {0..<s_num_blocks (sv_sb v)}"
    unfolding lx add_0 by blast
  note C = copied_facts [OF c(2)]
  show ?thesis
  proof (cases st)
    case None
    have "take (fi_size i) (mem_put 0 ?x X) = ?x" for X using lx by (simp add: mem_put_def)
    then have t: "take (fi_size i) (flat v' (?bl @ new)) = ?x" using st None by (simp del: flat_append)
    let ?i = "i\<lparr>fi_ds := ds', fi_inline := False, fi_blocks := (fi_size i + 511) div 512, fi_dirty := True\<rparr>"
    have bl: "file_blocks v' ?i = ?bl @ new" using C(3,4) by simp
    have "file_outcome v i (file_content v i) v' ?i new True"
      unfolding file_outcome_def file_inv_def file_content_def [of v' ?i] bl using c(2) C st None S c0 t by (simp del: flat_append)
    then show ?thesis using None st c(1) bl unfolding agfs_inline_expand_stream_def by auto
  next
    case (Some e)
    then show ?thesis using st c C S I(2) by (auto simp: agfs_inline_expand_stream_def file_outcome_def file_inv_def)
  qed
qed

lemma file_write_ok:
  assumes V: "vol_ok v" and D: "disk_ok v" and I: "file_inv v i" "fi_reg i" and o: "off = (if app then fi_size i else foff)" "off \<le> fi_size i"
    and K: "blocks_of (sv_bs v) (max (fi_size i) (off + length buf)) \<le> K" "K + 256 < 2 ^ 16" "off + length buf < 2 ^ 32"
      "room v (fi_ds i) (K - length (file_blocks v i))"
  shows "\<exists>i' v' off' res new. agfs_file_write app foff buf now i v = Some (i', v', off', res) \<and>
    file_outcome v i (mem_put off buf (file_content v i)) v' i' new (res = Inr (length buf)) \<and>
    (res = Inr (length buf) \<and> off' = off + length buf \<or> res = Inl ENOSPC \<and> off' = off)"
proof -
  have bs: "0 < sv_bs v" using V by (simp add: vol_ok_def)
  have K': "blocks_of (sv_bs v) (off + length buf) \<le> K" "blocks_of (sv_bs v) (fi_size i) \<le> K"
    using K(1) by (simp_all add: blocks_of_le [OF bs])
  have nil: "copied v (fi_ds i) v (fi_ds i) []" using copied_refl [OF V _ D] I(1) by (simp add: file_inv_def)
  consider (small) "buf \<noteq> []" "fi_inline i" "off + length buf \<le> 512" | (expand) "buf \<noteq> []" "fi_inline i" "\<not> off + length buf \<le> 512"
    | (fold) "buf \<noteq> []" "\<not> fi_inline i" "fi_size i = 0 \<and> off = 0 \<and> length buf \<le> 512"
    | (stream) "\<not> fi_inline i \<or> buf = []" "\<not> (buf \<noteq> [] \<and> fi_size i = 0 \<and> off = 0 \<and> length buf \<le> 512)"
    by (cases "buf = []"; cases "fi_inline i"; cases "fi_size i = 0 \<and> off = 0 \<and> length buf \<le> 512"; cases "off + length buf \<le> 512"; simp)
  then show ?thesis
  proof cases
    case small
    note W = inline_write_content [OF I(1) o(2) small(3) I(2), of "fi_size i" "fi_mtime i" now]
    have "agfs_file_write app foff buf now i v = Some (agfs_inline_write buf off (fi_size i) (fi_mtime i) now i, v, off + length buf, Inr (length buf))"
      using small I(2) o(1) by (simp add: agfs_file_write_def Let_def)
    then show ?thesis using W small(2) I(2) nil by (auto simp: file_outcome_def)
  next
    case fold
    note W = inline_write_content [OF I(1), of 0 buf 0 "fi_mtime i" now]
    have "agfs_file_write app foff buf now i v = Some (agfs_inline_write buf 0 0 (fi_mtime i) now i, v, length buf, Inr (length buf))"
      using fold I(2) o(1) by (simp add: agfs_file_write_def Let_def)
    then show ?thesis using W fold I(2) nil by (auto simp: file_outcome_def)
  next
    case stream
    have "agfs_file_write app foff buf now i v = file_write_stream buf off (fi_size i) (fi_mtime i) now i v"
      using stream unfolding agfs_file_write_def Let_def o(1) [symmetric] by auto
    then show ?thesis using file_write_stream_ok [OF V D I(1) stream(1) o(2) K'(1) K(2-4)] by simp
  next
    case expand
    obtain i1 v1 st new1 where E: "agfs_inline_expand_stream i v = Some (i1, v1, st)" "file_outcome v i (file_content v i) v1 i1 new1 (st = None)"
      "st = None \<and> \<not> fi_inline i1 \<and> fi_size i1 = fi_size i \<and> room v1 (fi_ds i1) (K - length (file_blocks v1 i1)) \<or> st = Some ENOSPC"
      using inline_expand_ok [OF V D I(1) expand(2) K'(2) K(2,4)] by blast
    have call: "agfs_file_write app foff buf now i v =
        (case st of Some e \<Rightarrow> Some (i1, v1, off, Inl e) | None \<Rightarrow> file_write_stream buf off (fi_size i) (fi_mtime i) now i1 v1)"
      using expand I(2) E(1) unfolding agfs_file_write_def Let_def o(1) [symmetric] by (simp split: option.split)
    show ?thesis
    proof (cases st)
      case (Some e)
      then show ?thesis using E call by (auto simp: file_outcome_def)
    next
      case None
      have c: "copied v (fi_ds i) v1 (fi_ds i1) new1" "file_inv v1 i1" "file_content v1 i1 = file_content v i" using E(2) None by (simp_all add: file_outcome_def)
      note C = copied_facts [OF c(1)]
      have "blocks_of (sv_bs v1) (off + length buf) \<le> K" "off \<le> fi_size i1" "\<not> fi_inline i1 \<or> buf = []" "room v1 (fi_ds i1) (K - length (file_blocks v1 i1))"
        using K'(1) C(5) o(2) E(3) None by auto
      from file_write_stream_ok [OF C(1,7) c(2) this(3,2,1) K(2,3) this(4)]
      obtain i' v' off' res new where W: "file_write_stream buf off (fi_size i) (fi_mtime i) now i1 v1 = Some (i', v', off', res)"
        "file_outcome v1 i1 (mem_put off buf (file_content v1 i1)) v' i' new (res = Inr (length buf))"
        "res = Inr (length buf) \<and> off' = off + length buf \<or> res = Inl ENOSPC \<and> off' = off" by blast
      show ?thesis using W call None file_outcome_trans [of v i "file_content v i" v1 i1 new1] E(2) c(3) by fastforce
    qed
  qed
qed

subsection \<open>Truncation\<close>

lemma stream_cong:
  assumes "ds_direct ds' = ds_direct ds"
  shows "direct_runs ds' = direct_runs ds" "stream_blocks sh ds' = stream_blocks sh ds"
    "ds_indirect ds' = ds_indirect ds \<Longrightarrow> ds_double ds' = ds_double ds \<Longrightarrow> stream_ok v ds' = stream_ok v ds"
proof -
  show d: "direct_runs ds' = direct_runs ds" unfolding direct_runs_def assms ..
  show b: "stream_blocks sh ds' = stream_blocks sh ds" for sh unfolding stream_blocks_def d ..
  show "ds_indirect ds' = ds_indirect ds \<Longrightarrow> ds_double ds' = ds_double ds \<Longrightarrow> stream_ok v ds' = stream_ok v ds"
    unfolding stream_ok_def d b assms by simp
qed

lemma shrunk_content:
  assumes s: "shrunk v ds v' ds' m" and D: "disk_ok v" and S: "stream_ok v ds" and n: "n \<le> m * sv_bs v"
  shows "take n (flat v' (stream_blocks (sv_shift v') ds')) = take n (flat v (stream_blocks (sv_shift v) ds))"
proof -
  let ?bl = "stream_blocks (sv_shift v) ds"
  have f: "flat v' (stream_blocks (sv_shift v') ds') = flat v (take m ?bl)" using s by (simp add: shrunk_def flat_def)
  have "length (flat v (take m ?bl)) = length (take m ?bl) * sv_bs v"
    using stream_disk [OF D S] by (intro length_flat) (auto dest: in_set_takeD)
  then have "n \<le> length (flat v (take m ?bl)) \<or> drop m ?bl = []" using n by (cases "m \<le> length ?bl") (simp_all add: min_absorb2)
  moreover have eq: "flat v ?bl = flat v (take m ?bl) @ flat v (drop m ?bl)" by (metis flat_append append_take_drop_id)
  ultimately show ?thesis unfolding f by (subst eq) (auto simp: flat_def [of v "[]"])
qed

text \<open>The file has given blocks back, at most those behind its end.\<close>

definition file_shrunk :: "stream_vol \<Rightarrow> file_inode \<Rightarrow> stream_vol \<Rightarrow> file_inode \<Rightarrow> bool" where
  "file_shrunk v i v' i' \<longleftrightarrow> fi_reg i' = fi_reg i \<and> file_inv v' i' \<and> disk_ok v' \<and> (\<exists>m ds. shrunk v (fi_ds i) v' ds m \<and> ds_direct (fi_ds i') = ds_direct ds)"

lemma truncate_ok:
  assumes V: "vol_ok v" and D: "disk_ok v" and I: "file_inv v i" and len: "len \<le> fi_size i"
  shows "\<exists>i' v'. agfs_truncate len now i v = Some (i', v', None) \<and> file_shrunk v i v' i' \<and> file_content v' i' = take len (file_content v i)
    \<and> length (file_blocks v' i') = (if fi_inline i then length (file_blocks v i) else blocks_of (sv_bs v) len)"
proof (cases "fi_inline i")
  case True
  have S: "stream_ok v (fi_ds i)" "fi_size i \<le> 512" "512 \<le> length (fi_tail i)" "fi_reg i" using I True by (simp_all add: file_inv_def)
  have sh: "shrunk v (fi_ds i) v (fi_ds i) (length (file_blocks v i))" by (rule shrunk_refl [OF V S(1)]) simp
  let ?t = "if len < fi_size i then mem_put len (replicate (fi_size i - len) 0) (fi_tail i) else fi_tail i"
  let ?i = "i\<lparr>fi_tail := ?t, fi_size := len, fi_ds := (fi_ds i)\<lparr>ds_size := len\<rparr>, fi_mtime := now, fi_dirty := True,
    fi_resized := fi_resized i @ [(fi_size i, fi_mtime i)]\<rparr>"
  have call: "agfs_truncate len now i v = Some (?i, v, None)" using True S len by (simp add: agfs_truncate_def Let_def)
  have t: "length ?t = length (fi_tail i)" "take len ?t = take len (fi_tail i)" using S len by (auto simp: mem_put_def)
  have ds: "stream_ok v (fi_ds ?i)" "file_blocks v ?i = file_blocks v i" "ds_direct (fi_ds ?i) = ds_direct (fi_ds i)"
    using S(1) stream_cong [of "fi_ds ?i" "fi_ds i"] by simp_all
  have "file_inv v ?i" unfolding file_inv_def using ds(1) t(1) S True len by simp
  moreover have "file_content v ?i = take len (file_content v i)" using True t(2) len by (simp add: file_content_def)
  ultimately show ?thesis using call ds(2,3) sh D True unfolding file_shrunk_def by (intro exI [of _ ?i] exI [of _ v]) auto
next
  case False
  have S: "stream_ok v (fi_ds i)" "512 \<le> length (fi_tail i)" "fi_size i \<le> length (file_blocks v i) * sv_bs v" using I False by (simp_all add: file_inv_def)
  have bs: "0 < sv_bs v" using V by (simp add: vol_ok_def)
  obtain ds v' where t: "truncate_stream len (fi_ds i) v = (ds, v')" by fastforce
  note s = truncate_stream_ok [OF V S(1) t]
  let ?m = "blocks_of (sv_bs v) len"
  have m: "?m \<le> length (file_blocks v i)" "len \<le> ?m * sv_bs v"
    using blocks_of_le [OF bs, of len] S(3) len by (auto intro: le_trans)
  have f: "stream_ok v' ds" "stream_blocks (sv_shift v) ds = take ?m (file_blocks v i)" "sv_shift v' = sv_shift v" "sv_bs v' = sv_bs v"
    "sv_blk v' = sv_blk v" "sv_rd v' = sv_rd v" "s_num_blocks (sv_sb v') = s_num_blocks (sv_sb v)" using s by (simp_all add: shrunk_def)
  have D': "disk_ok v'" using D f by (simp add: disk_ok_def)
  have sz: "stream_ok v' (ds\<lparr>ds_size := len\<rparr>)" "stream_blocks sh (ds\<lparr>ds_size := len\<rparr>) = stream_blocks sh ds" for sh
    using f(1) stream_cong [of "ds\<lparr>ds_size := len\<rparr>" ds] by simp_all
  have "take len (flat v' (stream_blocks (sv_shift v') ds)) = take len (flat v (file_blocks v i))" by (rule shrunk_content [OF s D S(1) m(2)])
  then show ?thesis using False t S(2) s D' sz f m len
    by (auto simp: agfs_truncate_def Let_def file_shrunk_def file_inv_def file_content_def min_def)
qed

end
