(* ===== verification/Agfs_Files.thy ===== *)
theory Agfs_Files
  imports Agfs_File
begin

text \<open>
  The files of a volume together: a call on one file leaves the blocks of the others alone, so that a sequence of writes without
  holes, truncates within the blocks of the file and trims returns and refines the same sequence on byte lists. At the end, inputs on which the block map loses or misplaces data.
\<close>

subsection \<open>Several files\<close>

text \<open>What a call on one file means for the rest of the volume.\<close>

definition file_effect :: "stream_vol \<Rightarrow> file_inode \<Rightarrow> stream_vol \<Rightarrow> file_inode \<Rightarrow> bool" where
  "file_effect v i v' i' \<longleftrightarrow>
     vol_ok v' \<and> disk_ok v' \<and> file_inv v' i' \<and> sv_shift v' = sv_shift v \<and> sv_bs v' = sv_bs v
     \<and> used_set (sv_sb v') - set (file_blocks v' i') = used_set (sv_sb v) - set (file_blocks v i)
     \<and> (\<forall>b \<in> used_set (sv_sb v) - set (file_blocks v i). sv_blk v' b = sv_blk v b)"

lemma outcome_effect:
  assumes "file_outcome v i c v' i' new fin" "file_inv v i"
  shows "file_effect v i v' i'"
proof -
  have c: "copied v (fi_ds i) v' (fi_ds i') new" "file_inv v' i'" using assms(1) by (simp_all add: file_outcome_def)
  note C = copied_facts [OF c(1)]
  have "\<forall>b. b \<notin> set (file_blocks v i @ new) \<longrightarrow> sv_blk v' b = sv_blk v b" using c(1) by (simp add: copied_def)
  moreover have "used_set (sv_sb v') - set (file_blocks v' i') = used_set (sv_sb v) - set (file_blocks v i)"
    unfolding C(3,4,9) using C(10) by auto
  ultimately show ?thesis unfolding file_effect_def using C c(2) by auto
qed

lemma shrunk_effect:
  assumes "shrunk v (fi_ds i) v' ds m" "ds_direct (fi_ds i') = ds_direct ds" "file_inv v' i'" "disk_ok v"
  shows "file_effect v i v' i'"
proof -
  let ?b = "file_blocks v i"
  have s: "vol_ok v'" "sv_shift v' = sv_shift v" "sv_bs v' = sv_bs v" "sv_blk v' = sv_blk v" "sv_rd v' = sv_rd v" "s_num_blocks (sv_sb v') = s_num_blocks (sv_sb v)"
    "stream_blocks (sv_shift v) ds = take m ?b" "used_set (sv_sb v') = used_set (sv_sb v) - set (drop m ?b)"
    using assms(1) by (simp_all add: shrunk_def)
  have bl: "file_blocks v' i' = take m ?b" using stream_cong(2) [OF assms(2)] s(2,7) by simp
  have "set ?b = set (take m ?b) \<union> set (drop m ?b)" by (metis append_take_drop_id set_append)
  then have "used_set (sv_sb v') - set (file_blocks v' i') = used_set (sv_sb v) - set ?b" unfolding bl s(8) by blast
  moreover have "disk_ok v'" using assms(4) s by (simp add: disk_ok_def)
  ultimately show ?thesis unfolding file_effect_def using s assms(3) by simp
qed

lemma truncate_effect:
  assumes "vol_ok v" "disk_ok v" "file_inv v i" "len \<le> fi_size i" "agfs_truncate len now i v = Some (i', v', st)"
  shows "file_effect v i v' i'" "st = None" "file_content v' i' = take len (file_content v i)"
proof -
  obtain i1 v1 where t: "agfs_truncate len now i v = Some (i1, v1, None)" "file_shrunk v i v1 i1" "file_content v1 i1 = take len (file_content v i)"
    using truncate_ok [OF assms(1-4), of now] by blast
  then show "file_effect v i v' i'" using shrunk_effect assms(2,5) unfolding file_shrunk_def by auto
  show "st = None" "file_content v' i' = take len (file_content v i)" using t assms(5) by simp_all
qed

lemma trim_effect:
  assumes V: "vol_ok v" and D: "disk_ok v" and I: "file_inv v i"
    and call: "agfs_trim_prealloc (fi_reg i \<and> \<not> fi_inline i) (fi_size i) (fi_ds i) v = (ds', v')"
  shows "file_effect v i v' (i\<lparr>fi_ds := ds'\<rparr>)" "file_content v' (i\<lparr>fi_ds := ds'\<rparr>) = file_content v i"
proof -
  have S: "stream_ok v (fi_ds i)" using I by (simp add: file_inv_def)
  have bs: "0 < sv_bs v" using V by (simp add: vol_ok_def)
  obtain m where m: "blocks_of (sv_bs v) (fi_size i) \<le> m" "shrunk v (fi_ds i) v' ds' m" using trim_prealloc_ok [OF V S call] by blast
  have s: "stream_ok v' ds'" "sv_shift v' = sv_shift v" "sv_bs v' = sv_bs v" "stream_blocks (sv_shift v) ds' = take m (file_blocks v i)"
    using m(2) by (simp_all add: shrunk_def)
  have sz: "fi_size i \<le> m * sv_bs v" using m(1) by (simp add: blocks_of_le [OF bs])
  have "\<not> fi_inline i \<Longrightarrow> fi_size i \<le> length (take m (file_blocks v i)) * sv_bs v"
    using sz I by (simp add: file_inv_def min_def)
  then have "file_inv v' (i\<lparr>fi_ds := ds'\<rparr>)" using I s by (auto simp: file_inv_def)
  from shrunk_effect [OF m(2) _ this D] show "file_effect v i v' (i\<lparr>fi_ds := ds'\<rparr>)" by simp
  show "file_content v' (i\<lparr>fi_ds := ds'\<rparr>) = file_content v i"
    using shrunk_content [OF m(2) D S sz] by (simp add: file_content_def)
qed

text \<open>
  A truncate to any length that the tail of the inode or the blocks of the stream hold: the bytes before both ends stay. When the
  file gets longer the bytes behind the old end are those that the tail or the blocks held.
\<close>

definition file_capacity :: "stream_vol \<Rightarrow> file_inode \<Rightarrow> nat" where
  "file_capacity v i = (if fi_inline i then AGFS_INLINE_MAX else length (file_blocks v i) * sv_bs v)"

lemma truncate_longer:
  assumes V: "vol_ok v" and D: "disk_ok v" and I: "file_inv v i" and len: "fi_size i \<le> len" "len \<le> file_capacity v i"
  shows "\<exists>i' v'. agfs_truncate len now i v = Some (i', v', None) \<and> file_shrunk v i v' i' \<and> fi_size i' = len
    \<and> take (fi_size i) (file_content v' i') = file_content v i"
proof (cases "fi_inline i")
  case True
  have S: "stream_ok v (fi_ds i)" "512 \<le> length (fi_tail i)" "fi_reg i" "len \<le> 512" using I True len(2) by (simp_all add: file_inv_def file_capacity_def)
  have sh: "shrunk v (fi_ds i) v (fi_ds i) (length (file_blocks v i))" by (rule shrunk_refl [OF V S(1)]) simp
  let ?i = "i\<lparr>fi_tail := fi_tail i, fi_size := len, fi_ds := (fi_ds i)\<lparr>ds_size := len\<rparr>, fi_mtime := now, fi_dirty := True,
    fi_resized := fi_resized i @ [(fi_size i, fi_mtime i)]\<rparr>"
  have call: "agfs_truncate len now i v = Some (?i, v, None)" using True S len by (simp add: agfs_truncate_def Let_def)
  have ds: "stream_ok v (fi_ds ?i)" "ds_direct (fi_ds ?i) = ds_direct (fi_ds i)" using S(1) stream_cong [of "fi_ds ?i" "fi_ds i"] by simp_all
  have "file_inv v ?i" unfolding file_inv_def using ds(1) S True by simp
  moreover have "take (fi_size i) (file_content v ?i) = file_content v i" using True len(1) by (simp add: file_content_def min_def)
  ultimately show ?thesis using call ds(2) sh D unfolding file_shrunk_def by (intro exI [of _ ?i] exI [of _ v]) auto
next
  case False
  have S: "stream_ok v (fi_ds i)" "512 \<le> length (fi_tail i)" "len \<le> length (file_blocks v i) * sv_bs v"
    using I False len(2) by (simp_all add: file_inv_def file_capacity_def)
  have bs: "0 < sv_bs v" using V by (simp add: vol_ok_def)
  obtain ds v' where t: "truncate_stream len (fi_ds i) v = (ds, v')" by fastforce
  note s = truncate_stream_ok [OF V S(1) t]
  let ?m = "blocks_of (sv_bs v) len"
  have m: "?m \<le> length (file_blocks v i)" "len \<le> ?m * sv_bs v" using blocks_of_le [OF bs, of len] S(3) by auto
  have f: "stream_ok v' ds" "stream_blocks (sv_shift v) ds = take ?m (file_blocks v i)" "sv_shift v' = sv_shift v" "sv_bs v' = sv_bs v"
    "sv_blk v' = sv_blk v" "sv_rd v' = sv_rd v" "s_num_blocks (sv_sb v') = s_num_blocks (sv_sb v)" using s by (simp_all add: shrunk_def)
  have D': "disk_ok v'" using D f by (simp add: disk_ok_def)
  have sz: "stream_ok v' (ds\<lparr>ds_size := len\<rparr>)" "stream_blocks sh (ds\<lparr>ds_size := len\<rparr>) = stream_blocks sh ds" for sh
    using f(1) stream_cong [of "ds\<lparr>ds_size := len\<rparr>" ds] by simp_all
  have "take len (flat v' (stream_blocks (sv_shift v') ds)) = take len (flat v (file_blocks v i))" by (rule shrunk_content [OF s D S(1) m(2)])
  then have "take (fi_size i) (take len (flat v' (stream_blocks (sv_shift v') ds))) = take (fi_size i) (flat v (file_blocks v i))"
    using len(1) by (simp add: min_def)
  then show ?thesis using False t S(2) s D' sz f m
    by (auto simp: agfs_truncate_def Let_def file_shrunk_def file_inv_def file_content_def min_def)
qed

lemma truncate_result:
  assumes "vol_ok v" "disk_ok v" "file_inv v i" "len \<le> file_capacity v i"
  shows "\<exists>i' v'. agfs_truncate len now i v = Some (i', v', None) \<and> file_effect v i v' i' \<and> length (file_content v' i') = len
    \<and> take (fi_size i) (file_content v' i') = take len (file_content v i)"
proof (cases "len \<le> fi_size i")
  case True
  obtain i' v' where t: "agfs_truncate len now i v = Some (i', v', None)" "file_content v' i' = take len (file_content v i)"
    using truncate_ok [OF assms(1-3) True, of now] by blast
  then show ?thesis using truncate_effect(1) [OF assms(1-3) True t(1)] file_content_length [OF assms(3,2)] True by auto
next
  case False
  obtain i' v' where t: "agfs_truncate len now i v = Some (i', v', None)" "file_shrunk v i v' i'" "fi_size i' = len"
    "take (fi_size i) (file_content v' i') = file_content v i"
    using truncate_longer [OF assms(1-3) _ assms(4), of now] False by auto
  have "file_inv v' i'" "disk_ok v'" using t(2) by (simp_all add: file_shrunk_def)
  moreover have "file_effect v i v' i'" using t(2) shrunk_effect assms(2) unfolding file_shrunk_def by auto
  ultimately show ?thesis using t file_content_length [of v' i'] file_content_length [OF assms(3,2)] False by auto
qed

text \<open>
  The files of a volume: each has its own blocks, and the blocks in use are those of the files and the rest \<open>meta\<close>.
\<close>

definition files_inv :: "nat set \<Rightarrow> stream_vol \<Rightarrow> (nat \<rightharpoonup> file_inode) \<Rightarrow> bool" where
  "files_inv meta v F \<longleftrightarrow>
     vol_ok v \<and> disk_ok v \<and> (\<forall>f i. F f = Some i \<longrightarrow> file_inv v i \<and> set (file_blocks v i) \<inter> meta = {})
     \<and> (\<forall>f g i j. F f = Some i \<longrightarrow> F g = Some j \<longrightarrow> f \<noteq> g \<longrightarrow> set (file_blocks v i) \<inter> set (file_blocks v j) = {})
     \<and> used_set (sv_sb v) = meta \<union> (\<Union>i \<in> ran F. set (file_blocks v i))"

definition contents :: "stream_vol \<Rightarrow> (nat \<rightharpoonup> file_inode) \<Rightarrow> nat \<rightharpoonup> byte list" where
  "contents v F = (\<lambda>f. map_option (file_content v) (F f))"

lemma other_file:
  assumes e: "file_effect v i v' i'" and j: "file_inv v j" "disk_ok v" "set (file_blocks v j) \<subseteq> used_set (sv_sb v) - set (file_blocks v i)"
  shows "file_inv v' j" "file_content v' j = file_content v j" "file_blocks v' j = file_blocks v j"
proof -
  have E: "sv_shift v' = sv_shift v" "sv_bs v' = sv_bs v" "\<forall>b \<in> set (file_blocks v j). sv_blk v' b = sv_blk v b"
    "set (file_blocks v j) \<subseteq> used_set (sv_sb v')"
    using e j(3) unfolding file_effect_def by blast+
  show bl: "file_blocks v' j = file_blocks v j" using E(1) by simp
  have "stream_ok v' (fi_ds j)" using j(1) E(1,4) unfolding stream_ok_def file_inv_def by simp
  then show "file_inv v' j" using j(1) E by (simp add: file_inv_def)
  show "file_content v' j = file_content v j" using flat_cong [OF E(3)] E(1) by (simp add: file_content_def)
qed

lemma files_step:
  assumes I: "files_inv meta v F" and f: "F f = Some i" and e: "file_effect v i v' i'"
  shows "files_inv meta v' (F(f \<mapsto> i'))" "contents v' (F(f \<mapsto> i')) = (contents v F)(f \<mapsto> file_content v' i')"
proof -
  note I' = I [unfolded files_inv_def] and e' = e [unfolded file_effect_def]
  let ?R = "used_set (sv_sb v) - set (file_blocks v i)"
  have U: "used_set (sv_sb v) = meta \<union> (\<Union>i \<in> ran F. set (file_blocks v i))" using I' by blast
  have R: "set (file_blocks v j) \<subseteq> ?R" if "F g = Some j" "g \<noteq> f" for g j
  proof -
    have "set (file_blocks v j) \<inter> set (file_blocks v i) = {}" using I' f that by blast
    moreover have "set (file_blocks v j) \<subseteq> used_set (sv_sb v)" unfolding U using ranI [of F g j] that(1) by blast
    ultimately show ?thesis by blast
  qed
  have o: "file_inv v' j" "file_content v' j = file_content v j" "file_blocks v' j = file_blocks v j" if "F g = Some j" "g \<noteq> f" for g j
  proof -
    have "file_inv v j" "disk_ok v" using I' that(1) by blast+
    from other_file [OF e this R [OF that]]
    show "file_inv v' j" "file_content v' j = file_content v j" "file_blocks v' j = file_blocks v j" by blast+
  qed
  have M: "meta \<subseteq> ?R" using U I' f by blast
  have eq: "used_set (sv_sb v') - set (file_blocks v' i') = ?R" "set (file_blocks v' i') \<subseteq> used_set (sv_sb v')"
    using e' unfolding file_inv_def stream_ok_def by blast+
  have ran: "ran (F(f \<mapsto> i')) = insert i' {j. \<exists>g. g \<noteq> f \<and> F g = Some j}" by (auto simp: ran_def)
  have "?R = meta \<union> (\<Union>j \<in> {j. \<exists>g. g \<noteq> f \<and> F g = Some j}. set (file_blocks v j))"
  proof (rule subset_antisym)
    show "?R \<subseteq> meta \<union> (\<Union>j \<in> {j. \<exists>g. g \<noteq> f \<and> F g = Some j}. set (file_blocks v j))"
      unfolding U using f by (auto simp: ran_def) (metis option.inject)
    show "meta \<union> (\<Union>j \<in> {j. \<exists>g. g \<noteq> f \<and> F g = Some j}. set (file_blocks v j)) \<subseteq> ?R" using M R by blast
  qed
  also have "\<dots> = meta \<union> (\<Union>j \<in> {j. \<exists>g. g \<noteq> f \<and> F g = Some j}. set (file_blocks v' j))" using o(3) by auto
  finally have "used_set (sv_sb v') = meta \<union> (\<Union>i \<in> ran (F(f \<mapsto> i')). set (file_blocks v' i))" unfolding ran using eq by auto
  moreover have "set (file_blocks v' j) \<inter> set (file_blocks v' i') = {}" if "F g = Some j" "g \<noteq> f" for g j
    using R [OF that] o(3) [OF that] eq(1) by auto
  moreover have "set (file_blocks v' i') \<inter> meta = {}" using M eq(1) by blast
  ultimately show "files_inv meta v' (F(f \<mapsto> i'))"
    unfolding files_inv_def using e' I' o by (simp split: if_splits) (metis Int_commute)
  show "contents v' (F(f \<mapsto> i')) = (contents v F)(f \<mapsto> file_content v' i')"
    by (rule ext) (use o(2) in \<open>auto simp: contents_def split: option.split\<close>, metis option.map(2) option.simps(8) not_Some_eq)
qed

subsection \<open>Runs of a system and their abstraction\<close>

text \<open>A sequence of calls, one after the other; it has no result when a call does not return.\<close>

fun run_calls :: "('c \<Rightarrow> 's \<Rightarrow> ('s \<times> 'r) option) \<Rightarrow> 'c list \<Rightarrow> 's \<Rightarrow> ('s \<times> 'r list) option" where
  "run_calls exec [] s = Some (s, [])"
| "run_calls exec (c # cs) s =
     (case exec c s of
        None \<Rightarrow> None
      | Some (s1, r) \<Rightarrow> (case run_calls exec cs s1 of None \<Rightarrow> None | Some (s2, rs) \<Rightarrow> Some (s2, r # rs)))"

text \<open>Every call is made in a state that admits it, as far as the calls before it return.\<close>

fun calls_admitted :: "('c \<Rightarrow> 's \<Rightarrow> ('s \<times> 'r) option) \<Rightarrow> ('c \<Rightarrow> 's \<Rightarrow> bool) \<Rightarrow> 'c list \<Rightarrow> 's \<Rightarrow> bool" where
  "calls_admitted exec adm [] s \<longleftrightarrow> True"
| "calls_admitted exec adm (c # cs) s \<longleftrightarrow> adm c s \<and> (case exec c s of None \<Rightarrow> True | Some (s1, r) \<Rightarrow> calls_admitted exec adm cs s1)"

inductive run_of :: "('s \<Rightarrow> 'e \<Rightarrow> 's \<Rightarrow> bool) \<Rightarrow> 's \<Rightarrow> 'e list \<Rightarrow> 's \<Rightarrow> bool" for step where
  run_nil: "run_of step s [] s"
| run_cons: "step s e s1 \<Longrightarrow> run_of step s1 es s2 \<Longrightarrow> run_of step s (e # es) s2"

text \<open>An admitted call returns, keeps the invariant and is a step of the specification with the same result.\<close>

locale total_simulation =
  fixes exec :: "'c \<Rightarrow> 's \<Rightarrow> ('s \<times> 'r) option" and adm :: "'c \<Rightarrow> 's \<Rightarrow> bool" and spec :: "'a \<Rightarrow> 'c \<times> 'r \<Rightarrow> 'a \<Rightarrow> bool"
    and inv :: "'s \<Rightarrow> bool" and abs_of :: "'s \<Rightarrow> 'a"
  assumes exec_ok: "inv s \<Longrightarrow> adm c s \<Longrightarrow> \<exists>s' r. exec c s = Some (s', r) \<and> inv s' \<and> spec (abs_of s) (c, r) (abs_of s')"
begin

lemma run_ok:
  "inv s \<Longrightarrow> calls_admitted exec adm cs s \<Longrightarrow>
     \<exists>s' rs. run_calls exec cs s = Some (s', rs) \<and> length rs = length cs \<and> inv s' \<and> run_of spec (abs_of s) (zip cs rs) (abs_of s')"
proof (induction cs arbitrary: s)
  case Nil
  then show ?case by (simp add: run_nil)
next
  case (Cons c cs)
  obtain s1 r where c: "exec c s = Some (s1, r)" "inv s1" "spec (abs_of s) (c, r) (abs_of s1)" using exec_ok [OF Cons.prems(1), of c] Cons.prems(2) by auto
  obtain s2 rs where "run_calls exec cs s1 = Some (s2, rs)" "length rs = length cs" "inv s2" "run_of spec (abs_of s1) (zip cs rs) (abs_of s2)"
    using Cons.IH [OF c(2)] Cons.prems(2) c(1) by auto
  then show ?case using c by (auto intro: run_cons)
qed

end

subsection \<open>The calls on the files of a volume\<close>

text \<open>
  A write of \<open>n\<close> bytes in all fits when the direct runs have space: enough empty runs for a run per block, or the blocks behind
  the last run are free; the stream stays below the length that a run can have.
\<close>

definition write_fits :: "stream_vol \<Rightarrow> file_inode \<Rightarrow> nat \<Rightarrow> bool" where
  "write_fits v i n \<longleftrightarrow>
     (let K = blocks_of (sv_bs v) (max (fi_size i) n)
      in K + 256 < 2 ^ 16 \<and> n < 2 ^ 32 \<and> room v (fi_ds i) (K - length (file_blocks v i)))"

text \<open>The calls: a write through a descriptor, a truncate, and the trim at the last close.\<close>

datatype file_call = Call_write nat bool nat "byte list" nat | Call_truncate nat nat nat | Call_trim nat

fun call_exec :: "file_call \<Rightarrow> (nat \<rightharpoonup> file_inode) \<times> stream_vol \<Rightarrow> (((nat \<rightharpoonup> file_inode) \<times> stream_vol) \<times> nat result) option" where
  "call_exec (Call_write f app foff buf now) (F, v) =
     (case F f of
        None \<Rightarrow> None
      | Some i \<Rightarrow>
         (case agfs_file_write app foff buf now i v of
            None \<Rightarrow> None
          | Some (i', v', off', res) \<Rightarrow> Some ((F(f \<mapsto> i'), v'), res)))"
| "call_exec (Call_truncate f len now) (F, v) =
     (case F f of
        None \<Rightarrow> None
      | Some i \<Rightarrow>
         (case agfs_truncate len now i v of
            None \<Rightarrow> None
          | Some (i', v', st) \<Rightarrow> Some ((F(f \<mapsto> i'), v'), case st of None \<Rightarrow> Inr 0 | Some e \<Rightarrow> Inl e)))"
| "call_exec (Call_trim f) (F, v) =
     (case F f of
        None \<Rightarrow> None
      | Some i \<Rightarrow>
         (case agfs_trim_prealloc (fi_reg i \<and> \<not> fi_inline i) (fi_size i) (fi_ds i) v of
            (ds', v') \<Rightarrow> Some ((F(f \<mapsto> i\<lparr>fi_ds := ds'\<rparr>), v'), Inr 0)))"

text \<open>
  The calls that the theorem covers. A write is not behind the end of the file and fits the direct runs; a truncate stays within
  the tail of the inode or the blocks of the stream. Left out are writes behind a hole, which the block map misplaces, and truncates
  beyond the blocks of the stream.
\<close>

fun call_ok :: "file_call \<Rightarrow> (nat \<rightharpoonup> file_inode) \<times> stream_vol \<Rightarrow> bool" where
  "call_ok (Call_write f app foff buf now) (F, v) \<longleftrightarrow>
     (case F f of
        None \<Rightarrow> False
      | Some i \<Rightarrow> fi_reg i \<and> (app \<or> foff \<le> fi_size i) \<and> write_fits v i ((if app then fi_size i else foff) + length buf))"
| "call_ok (Call_truncate f len now) (F, v) \<longleftrightarrow> (case F f of None \<Rightarrow> False | Some i \<Rightarrow> len \<le> file_capacity v i)"
| "call_ok (Call_trim f) (F, v) \<longleftrightarrow> F f \<noteq> None"

text \<open>
  The same calls on a map from files to lists of bytes. A write on a full volume leaves the file with some content, and
  the bytes that a truncate adds are not specified.
\<close>

inductive content_step :: "(nat \<rightharpoonup> byte list) \<Rightarrow> file_call \<times> nat result \<Rightarrow> (nat \<rightharpoonup> byte list) \<Rightarrow> bool" where
  content_write: "C f = Some x \<Longrightarrow> off = (if app then length x else foff) \<Longrightarrow> off \<le> length x \<Longrightarrow>
     content_step C (Call_write f app foff buf now, Inr (length buf)) (C(f \<mapsto> mem_put off buf x))"
| content_full: "C f = Some x \<Longrightarrow> content_step C (Call_write f app foff buf now, Inl ENOSPC) (C(f \<mapsto> y))"
| content_truncate: "C f = Some x \<Longrightarrow> length y = len \<Longrightarrow> take (length x) y = take len x \<Longrightarrow>
     content_step C (Call_truncate f len now, Inr 0) (C(f \<mapsto> y))"
| content_trim: "C f = Some x \<Longrightarrow> content_step C (Call_trim f, Inr 0) C"

lemma write_result:
  assumes "vol_ok v" "disk_ok v" "file_inv v i" "fi_reg i" "off = (if app then fi_size i else foff)" "off \<le> fi_size i" "write_fits v i (off + length buf)"
  shows "\<exists>i' v' off' res new. agfs_file_write app foff buf now i v = Some (i', v', off', res) \<and>
    file_outcome v i (mem_put off buf (file_content v i)) v' i' new (res = Inr (length buf)) \<and>
    (res = Inr (length buf) \<and> off' = off + length buf \<or> res = Inl ENOSPC \<and> off' = off)"
  by (rule file_write_ok [OF assms(1-6) le_refl]) (use assms(7) in \<open>simp_all add: write_fits_def Let_def\<close>)

lemma contents_at: "F f = Some i \<Longrightarrow> contents v F f = Some (file_content v i)"
  by (simp add: contents_def)

lemma files_at:
  "files_inv meta v F \<Longrightarrow> F f = Some i \<Longrightarrow> vol_ok v \<and> disk_ok v \<and> file_inv v i"
  unfolding files_inv_def by blast

lemma write_simulates:
  assumes I: "files_inv meta v F" and ok: "call_ok (Call_write f app foff buf now) (F, v)"
  shows "\<exists>F' v' r. call_exec (Call_write f app foff buf now) (F, v) = Some ((F', v'), r) \<and> files_inv meta v' F' \<and>
    content_step (contents v F) (Call_write f app foff buf now, r) (contents v' F')"
proof -
  obtain i where i: "F f = Some i" using ok by (auto split: option.splits)
  define off where "off = (if app then fi_size i else foff)"
  have o: "fi_reg i" "off \<le> fi_size i" "write_fits v i (off + length buf)" using ok i by (auto simp: off_def)
  have V: "vol_ok v" "disk_ok v" "file_inv v i" using files_at [OF I, of f i] i by blast+
  obtain i' v' off' r new where w: "agfs_file_write app foff buf now i v = Some (i', v', off', r)"
    "file_outcome v i (mem_put off buf (file_content v i)) v' i' new (r = Inr (length buf))" "r = Inr (length buf) \<or> r = Inl ENOSPC"
    using write_result [OF V o(1) off_def o(2,3), of now] by blast
  note S = files_step [of meta v F f i, OF I i outcome_effect [OF w(2) V(3)]]
  have x: "contents v F f = Some (file_content v i)" "length (file_content v i) = fi_size i" using contents_at [of F f i v, OF i] file_content_length [OF V(3,2)] by simp_all
  have "content_step (contents v F) (Call_write f app foff buf now, r) ((contents v F)(f \<mapsto> file_content v' i'))"
  proof (cases "r = Inr (length buf)")
    case True
    then have c: "file_content v' i' = mem_put off buf (file_content v i)" using w(2) by (simp add: file_outcome_def)
    show ?thesis unfolding c True by (rule content_write [of _ f "file_content v i"]) (use x o(2) in \<open>simp_all add: off_def\<close>)
  next
    case False
    then show ?thesis using w(3) x(1) by (auto intro: content_full)
  qed
  then show ?thesis using S w(1) i by simp
qed

lemma truncate_simulates:
  assumes I: "files_inv meta v F" and ok: "call_ok (Call_truncate f len now) (F, v)"
  shows "\<exists>F' v' r. call_exec (Call_truncate f len now) (F, v) = Some ((F', v'), r) \<and> files_inv meta v' F' \<and>
    content_step (contents v F) (Call_truncate f len now, r) (contents v' F')"
proof -
  obtain i where i: "F f = Some i" "len \<le> file_capacity v i" using ok by (auto split: option.splits)
  have V: "vol_ok v" "disk_ok v" "file_inv v i" using files_at [OF I, of f i] i(1) by blast+
  obtain i' v' where t: "agfs_truncate len now i v = Some (i', v', None)" "file_effect v i v' i'" "length (file_content v' i') = len"
    "take (fi_size i) (file_content v' i') = take len (file_content v i)"
    using truncate_result [OF V i(2), of now] by blast
  note S = files_step [of meta v F f i, OF I i(1) t(2)]
  have "content_step (contents v F) (Call_truncate f len now, Inr 0) ((contents v F)(f \<mapsto> file_content v' i'))"
    by (rule content_truncate [of _ f "file_content v i"]) (use t(3,4) contents_at [of F f i v, OF i(1)] file_content_length [OF V(3,2)] in simp_all)
  then show ?thesis using S t(1) i(1) by simp
qed

lemma trim_simulates:
  assumes I: "files_inv meta v F" and ok: "call_ok (Call_trim f) (F, v)"
  shows "\<exists>F' v' r. call_exec (Call_trim f) (F, v) = Some ((F', v'), r) \<and> files_inv meta v' F' \<and>
    content_step (contents v F) (Call_trim f, r) (contents v' F')"
proof -
  obtain i where i: "F f = Some i" using ok by auto
  have V: "vol_ok v" "disk_ok v" "file_inv v i" using files_at [OF I, of f i] i by blast+
  obtain ds' v' where t: "agfs_trim_prealloc (fi_reg i \<and> \<not> fi_inline i) (fi_size i) (fi_ds i) v = (ds', v')" by fastforce
  note T = trim_effect [OF V t]
  note S = files_step [of meta v F f i, OF I i T(1)]
  have x: "contents v F f = Some (file_content v i)" using contents_at [of F f i v, OF i] .
  then have "(contents v F)(f \<mapsto> file_content v i) = contents v F" by (simp add: fun_upd_idem)
  then show ?thesis using S T(2) t i content_trim [of "contents v F" f, OF x] by simp
qed

interpretation files: total_simulation call_exec call_ok content_step "\<lambda>s. files_inv meta (snd s) (fst s)" "\<lambda>s. contents (snd s) (fst s)" for meta
proof (unfold_locales, goal_cases)
  case (1 s c)
  obtain F v where s: "s = (F, v)" by fastforce
  show ?case using 1 write_simulates [of meta v F] truncate_simulates [of meta v F] trim_simulates [of meta v F] unfolding s
    by (cases c) fastforce+
qed

lemma flat_nth:
  "\<forall>b \<in> set bl. length (sv_blk v b) = n \<Longrightarrow> q < length bl \<Longrightarrow> m < n \<Longrightarrow> flat v bl ! (q * n + m) = sv_blk v (bl ! q) ! m"
proof (induction bl arbitrary: q)
  case (Cons b bl)
  then show ?case by (cases q) (simp_all add: flat_def nth_append ac_simps)
qed simp

subsection \<open>A volume for the examples\<close>

text \<open>A volume of 70000 blocks of which the first \<open>k\<close> are in use.\<close>

definition empty_sb :: agfs_sb where
  "empty_sb = \<lparr>s_block_size = 1024, s_blocks_per_ag = 1, s_ag_shift = 13, s_num_blocks = 70000, s_flags = 0,
     s_used_blocks = 0, s_bitmap = replicate 3 (replicate 4096 0), s_next_free = 0, s_discards = [], s_dirty = False\<rparr>"

lemma empty_sb_ok: "sb_inv empty_sb" "used_set empty_sb = {}"
proof -
  have ok: "sb_ok empty_sb" by (simp add: sb_ok_def empty_sb_def agfs_group_def drop_bit_eq_div)
  have "\<not> agfs_bitmap_test empty_sb b" if b: "b < 70000" for b
  proof -
    have "agfs_bitmap_off empty_sb b < 4096 * 3" using bitmap_off_less [OF ok, of b] b by (simp add: empty_sb_def)
    then have "agfs_bitmap_off empty_sb b div 4096 < 3" by (simp add: less_mult_imp_div_less)
    moreover have "agfs_bitmap_off empty_sb b mod 4096 < 4096" by simp
    ultimately have "agfs_bitmap_get empty_sb b = 0"
      unfolding agfs_bitmap_get_def agfs_bitmap_byte_def empty_sb_def by (simp only: agfs_sb.simps prod.case nth_replicate)
    then show ?thesis by (simp add: agfs_bitmap_test_def)
  qed
  then show U: "used_set empty_sb = {}" by (auto simp: bm.used_iff) (simp add: empty_sb_def)
  show "sb_inv empty_sb" using ok by (simp add: sb_inv_def U) (simp add: empty_sb_def)
qed

lemma volume_upto:
  assumes "k \<le> 70000"
  shows "\<exists>sb. sb_inv sb \<and> used_set sb = {0..<k} \<and> s_num_blocks sb = 70000 \<and> s_ag_shift sb = 13 \<and> s_block_size sb = 1024"
  using assms
proof (induction k)
  case 0
  show ?case using empty_sb_ok by (intro exI [of _ empty_sb]) (simp add: empty_sb_def)
next
  case (Suc k)
  then obtain sb where sb: "sb_inv sb" "used_set sb = {0..<k}" "s_num_blocks sb = 70000" "s_ag_shift sb = 13" "s_block_size sb = 1024" by auto
  obtain sb' r where c: "agfs_balloc_specific sb k = (sb', r)" by fastforce
  show ?case using specific_refines [OF sb(1), of k] sb Suc.prems alloc_block_size(2) [OF c] c
    by (intro exI [of _ sb']) (auto simp: atLeast0_lessThan_Suc)
qed

lemma no_run_len: "run_len no_run = 0"
  by (simp add: no_run_def)

definition demo_stream :: "block_run list \<Rightarrow> data_stream" where
  "demo_stream rs = \<lparr>ds_direct = rs @ replicate (12 - length rs) no_run, ds_max_direct = 0, ds_indirect = no_run, ds_max_indirect = 0,
     ds_double = no_run, ds_max_double = 0, ds_size = 0\<rparr>"

definition demo_stream_disk :: "agfs_sb \<Rightarrow> stream_vol" where
  "demo_stream_disk sb = \<lparr>sv_sb = sb, sv_blk = (\<lambda>_. replicate 1024 0), sv_rd = (\<lambda>_. True)\<rparr>"

text \<open>A file of \<open>n\<close> bytes with one run of \<open>k\<close> blocks from block 1 on.\<close>

definition demo_runs :: "nat \<Rightarrow> block_run list" where
  "demo_runs k = (if k = 0 then [] else [\<lparr>run_ag = 0, run_start = 1, run_len = k\<rparr>])"

definition demo_file :: "nat \<Rightarrow> nat \<Rightarrow> file_inode" where
  "demo_file k n = \<lparr>fi_reg = True, fi_inline = False, fi_base = 20, fi_tail = replicate 600 0, fi_size = n, fi_ds = demo_stream (demo_runs k), fi_blocks = 0,
     fi_mtime = 0, fi_ctime = 0, fi_dirty = False, fi_resized = []\<rparr>"

lemma demo_stream_disk_ok:
  assumes "sb_inv sb" "used_set sb = {0..<k}" "0 < k" "s_ag_shift sb = 13" "s_block_size sb = 1024"
  shows "vol_ok (demo_stream_disk sb)" "disk_ok (demo_stream_disk sb)"
  using assms by (simp_all add: vol_ok_def disk_ok_def demo_stream_disk_def)

lemma demo_stream_runs:
  assumes "\<forall>r \<in> set rs. \<not> run_empty r" "length rs \<le> 12"
  shows "direct_runs (demo_stream rs) = rs" "length (ds_direct (demo_stream rs)) = 12"
proof -
  show "direct_runs (demo_stream rs) = rs"
    by (rule direct_runs_append [OF assms(1), of "replicate (12 - length rs) no_run"]) (simp_all add: demo_stream_def)
  show "length (ds_direct (demo_stream rs)) = 12" using assms(2) by (simp add: demo_stream_def)
qed

lemma demo_stream_ok:
  assumes "\<forall>r \<in> set rs. \<not> run_empty r" "length rs \<le> 12" "distinct (runs_blocks (sv_shift v) rs)" "set (runs_blocks (sv_shift v) rs) \<subseteq> used_set (sv_sb v)"
    "length (runs_blocks (sv_shift v) rs) < 2 ^ 16"
  shows "stream_ok v (demo_stream rs)" "stream_blocks (sv_shift v) (demo_stream rs) = runs_blocks (sv_shift v) rs"
proof -
  note R = demo_stream_runs [OF assms(1,2)]
  show b: "stream_blocks (sv_shift v) (demo_stream rs) = runs_blocks (sv_shift v) rs" by (simp add: stream_blocks_def R)
  have "drop (length rs) (ds_direct (demo_stream rs)) = replicate (12 - length rs) no_run" by (simp add: demo_stream_def)
  then show "stream_ok v (demo_stream rs)" unfolding stream_ok_def b R using assms by (simp add: demo_stream_def no_run_len)
qed

lemma demo_runs_ok:
  "\<forall>r \<in> set (demo_runs k). \<not> run_empty r" "length (demo_runs k) \<le> 1" "runs_blocks sh (demo_runs k) = [1..<Suc k]"
  by (auto simp: demo_runs_def run_empty_def run_blocks_def run_base_def)

lemma demo_files:
  assumes "sb_inv sb" "used_set sb = {0..<Suc k}" "s_ag_shift sb = 13" "s_block_size sb = 1024" "k < 2 ^ 16" "n \<le> k * 1024"
  shows "files_inv {0} (demo_stream_disk sb) [7 \<mapsto> demo_file k n]" "file_blocks (demo_stream_disk sb) (demo_file k n) = [1..<Suc k]"
    "m \<le> 3000 \<Longrightarrow> n \<le> 3000 \<Longrightarrow> write_fits (demo_stream_disk sb) (demo_file k n) m"
proof -
  let ?v = "demo_stream_disk sb" and ?f = "demo_file k n"
  note D = demo_stream_disk_ok [OF assms(1,2) zero_less_Suc assms(3,4)] and R = demo_runs_ok(1,2) [of k] demo_runs_ok(3) [of "sv_shift (demo_stream_disk sb)" k]
  have U: "sv_sb ?v = sb" "fi_ds ?f = demo_stream (demo_runs k)" "fi_reg ?f" "\<not> fi_inline ?f" "length (fi_tail ?f) = 600" "fi_size ?f = n"
    by (simp_all add: demo_stream_disk_def demo_file_def)
  have "stream_ok ?v (demo_stream (demo_runs k))" "stream_blocks (sv_shift ?v) (demo_stream (demo_runs k)) = [1..<Suc k]"
    using demo_stream_ok [OF R(1), of ?v] R(2,3) U(1) assms(2,5) by (simp_all del: upt_Suc)
  then have b: "stream_ok ?v (fi_ds ?f)" "file_blocks ?v ?f = [1..<Suc k]" by (simp_all add: U)
  then show bl: "file_blocks ?v ?f = [1..<Suc k]" by simp
  have "file_inv ?v ?f" unfolding file_inv_def bl using b(1) assms(4,6) U by (simp del: upt_Suc)
  moreover have "used_set sb = {0} \<union> set [1..<Suc k]" unfolding assms(2) by (auto simp del: upt_Suc)
  ultimately show "files_inv {0} ?v [7 \<mapsto> ?f]" unfolding files_inv_def using D bl by (simp add: U(1) del: upt_Suc)
  assume n: "m \<le> 3000" "n \<le> 3000"
  have "blocks_of 1024 (max n m) \<le> 3" using n by (simp add: blocks_of_le)
  moreover have "length (direct_runs (fi_ds ?f)) \<le> 1" using demo_stream_runs [OF R(1)] R(2) by (simp add: U)
  ultimately show "write_fits ?v ?f m" unfolding write_fits_def Let_def room_def bl using assms(4) n
    by (auto simp: U simp del: upt_Suc)
qed

subsection \<open>Properties\<close>

text \<open>
  C8. A write of a regular file within its size or at its end, for which the direct runs have space, returns: with the number of bytes
  and the content that has the bytes at the offset, whether they go to the tail of the inode or to the stream, or with \<open>ENOSPC\<close> on a
  full volume. Every other file keeps its content, and no block belongs to two files.
\<close>

theorem file_write_content:
  assumes "files_inv meta v F" "F f = Some i" "fi_reg i" "off = (if app then fi_size i else foff)" "off \<le> fi_size i" "write_fits v i (off + length buf)"
  shows "\<exists>i' v' off' res. agfs_file_write app foff buf now i v = Some (i', v', off', res) \<and> files_inv meta v' (F(f \<mapsto> i'))
    \<and> contents v' (F(f \<mapsto> i')) = (contents v F)(f \<mapsto> file_content v' i')
    \<and> (res = Inr (length buf) \<and> off' = off + length buf \<and> file_content v' i' = mem_put off buf (file_content v i)
       \<or> res = Inl ENOSPC \<and> off' = off \<and> used_set (sv_sb v') = {0..<s_num_blocks (sv_sb v)})"
proof -
  have I: "vol_ok v" "disk_ok v" "file_inv v i" using assms(1,2) unfolding files_inv_def by blast+
  obtain i' v' off' res new where w: "agfs_file_write app foff buf now i v = Some (i', v', off', res)"
    "file_outcome v i (mem_put off buf (file_content v i)) v' i' new (res = Inr (length buf))"
    "res = Inr (length buf) \<and> off' = off + length buf \<or> res = Inl ENOSPC \<and> off' = off"
    using write_result [OF I assms(3-6), of now] by blast
  note S = files_step [OF assms(1,2) outcome_effect [OF w(2) I(3)]]
  show ?thesis using w S by (auto simp: file_outcome_def)
qed

theorem file_write_content_witness:
  "\<exists>v. files_inv {0} v [7 \<mapsto> demo_file 0 0] \<and>
     (\<exists>i' v' off' res. agfs_file_write True 5 (replicate 3000 65) 9 (demo_file 0 0) v = Some (i', v', off', res) \<and>
       (res = Inr 3000 \<and> file_content v' i' = replicate 3000 65 \<or> res = Inl ENOSPC))"
proof -
  obtain sb where sb: "sb_inv sb" "used_set sb = {0..<Suc 0}" "s_ag_shift sb = 13" "s_block_size sb = 1024" using volume_upto [of 1] by auto
  have "files_inv {0} (demo_stream_disk sb) [7 \<mapsto> demo_file 0 0]" by (rule demo_files [OF sb]) simp_all
  moreover have "write_fits (demo_stream_disk sb) (demo_file 0 0) (0 + length (replicate 3000 (65 :: byte)))"
    using demo_files(3) [OF sb, of 0 3000] by simp
  moreover have "fi_reg (demo_file 0 0)" "fi_size (demo_file 0 0) = 0" "file_content (demo_stream_disk sb) (demo_file 0 0) = []"
    by (simp_all add: demo_file_def file_content_def)
  moreover have "mem_put 0 x [] = x" for x :: "byte list" by (simp add: mem_put_def)
  ultimately show ?thesis
    using file_write_content [of "{0}" "demo_stream_disk sb" "[7 \<mapsto> demo_file 0 0]" 7 "demo_file 0 0" 0 True 5 "replicate 3000 65" 9]
    by (intro exI [of _ "demo_stream_disk sb"]) auto
qed

text \<open>
  C25. A truncate that shortens a file returns without an error and leaves the bytes before the new end; the stream keeps
  the blocks that these bytes need and every other block of it is free again. The other files keep their content.
\<close>

theorem truncate_content:
  assumes "files_inv meta v F" "F f = Some i" "len \<le> fi_size i"
  shows "\<exists>i' v'. agfs_truncate len now i v = Some (i', v', None) \<and> files_inv meta v' (F(f \<mapsto> i'))
    \<and> contents v' (F(f \<mapsto> i')) = (contents v F)(f \<mapsto> take len (file_content v i))
    \<and> length (file_blocks v' i') = (if fi_inline i then length (file_blocks v i) else (len + sv_bs v - 1) div sv_bs v)
    \<and> used_set (sv_sb v') = used_set (sv_sb v) - set (drop (length (file_blocks v' i')) (file_blocks v i))"
proof -
  have I: "vol_ok v" "disk_ok v" "file_inv v i" using assms(1,2) unfolding files_inv_def by blast+
  obtain i' v' where t: "agfs_truncate len now i v = Some (i', v', None)" "file_shrunk v i v' i'" "file_content v' i' = take len (file_content v i)"
    "length (file_blocks v' i') = (if fi_inline i then length (file_blocks v i) else blocks_of (sv_bs v) len)"
    using truncate_ok [OF I assms(3), of now] by blast
  note S = files_step [OF assms(1,2) truncate_effect(1) [OF I assms(3) t(1)]]
  obtain m ds where s: "shrunk v (fi_ds i) v' ds m" "ds_direct (fi_ds i') = ds_direct ds" using t(2) by (auto simp: file_shrunk_def)
  have "file_blocks v' i' = take m (file_blocks v i)" using s stream_cong(2) [OF s(2)] by (simp add: shrunk_def)
  then have "drop m (file_blocks v i) = drop (length (file_blocks v' i')) (file_blocks v i)" by (simp add: min_def)
  moreover have "used_set (sv_sb v') = used_set (sv_sb v) - set (drop m (file_blocks v i))" using s(1) by (simp add: shrunk_def)
  ultimately show ?thesis using t S by (simp add: blocks_of_def)
qed

theorem truncate_content_witness:
  "\<exists>v. files_inv {0} v [7 \<mapsto> demo_file 3 3000] \<and>
     (\<exists>i' v'. agfs_truncate 1500 9 (demo_file 3 3000) v = Some (i', v', None) \<and> used_set (sv_sb v') = {0, 1, 2})"
proof -
  obtain sb where sb: "sb_inv sb" "used_set sb = {0..<Suc 3}" "s_ag_shift sb = 13" "s_block_size sb = 1024" using volume_upto [of 4] by auto
  have "[1..<Suc 3] = [1, 2, 3]" by (simp add: upt_rec)
  then have D: "files_inv {0} (demo_stream_disk sb) [7 \<mapsto> demo_file 3 3000]" "file_blocks (demo_stream_disk sb) (demo_file 3 3000) = [1, 2, 3]"
    using demo_files(1,2) [OF sb, of 3000] by (simp_all del: upt_Suc)
  have f: "fi_size (demo_file 3 3000) = 3000" "\<not> fi_inline (demo_file 3 3000)" "sv_bs (demo_stream_disk sb) = 1024" "used_set (sv_sb (demo_stream_disk sb)) = {0, 1, 2, 3}"
    using sb(4) by (auto simp: demo_file_def demo_stream_disk_def sb(2))
  show ?thesis using truncate_content [OF D(1), of 7 "demo_file 3 3000" 1500 9] D f
    by (intro exI [of _ "demo_stream_disk sb"]) auto
qed

text \<open>
  C7. Any sequence of calls on the files of a volume, each of which is a write that begins within the file or at its end and fits the
  direct runs, a truncate within the tail of the inode or the blocks of the stream, or a trim, returns, and does to
  the contents of the files what it does to byte lists: a write puts its bytes at the offset or fails with \<open>ENOSPC\<close>, a truncate
  keeps the bytes before both ends, the trim changes no content. No call changes another file, and no block has two owners.
\<close>

theorem files_refine_contents:
  assumes "files_inv meta v F" "calls_admitted call_exec call_ok cs (F, v)"
  shows "\<exists>F' v' rs. run_calls call_exec cs (F, v) = Some ((F', v'), rs) \<and> length rs = length cs \<and> files_inv meta v' F' \<and>
    run_of content_step (contents v F) (zip cs rs) (contents v' F')"
  using files.run_ok [of meta "(F, v)" cs] assms by auto

theorem files_refine_contents_witness:
  "\<exists>v F' v' rs. run_calls call_exec [Call_write 7 False 0 [65, 66, 67] 9, Call_truncate 7 2 9, Call_truncate 7 5 9, Call_trim 7] ([7 \<mapsto> demo_file 0 0], v) =
       Some ((F', v'), rs) \<and> files_inv {0} v' F' \<and>
     run_of content_step [7 \<mapsto> []] (zip [Call_write 7 False 0 [65, 66, 67] 9, Call_truncate 7 2 9, Call_truncate 7 5 9, Call_trim 7] rs) (contents v' F')"
proof -
  obtain sb where sb: "sb_inv sb" "used_set sb = {0..<Suc 0}" "s_ag_shift sb = 13" "s_block_size sb = 1024" using volume_upto [of 1] by auto
  let ?v = "demo_stream_disk sb" and ?i = "demo_file 0 0"
  let ?i1 = "agfs_inline_write [65, 66, 67] 0 0 0 9 ?i" and ?cs = "[Call_write 7 False 0 [65, 66, 67] 9, Call_truncate 7 2 9, Call_truncate 7 5 9, Call_trim 7]"
  have D: "files_inv {0} ?v [7 \<mapsto> ?i]" "write_fits ?v ?i (0 + length [65 :: byte, 66, 67])" using demo_files(1,3) [OF sb, of 0] by simp_all
  have z: "fi_reg ?i" "fi_size ?i = 0" by (simp_all add: demo_file_def)
  have w: "agfs_file_write False 0 [65, 66, 67] 9 ?i ?v = Some (?i1, ?v, 3, Inr 3)" by (simp add: agfs_file_write_def demo_file_def Let_def)
  have f: "fi_reg ?i1 \<and> fi_inline ?i1 \<and> fi_size ?i1 = 3" by (simp add: agfs_inline_write_def demo_file_def Let_def)
  have t: "\<exists>j'. agfs_truncate len now j v = Some (j', v, None) \<and> fi_reg j' \<and> fi_inline j'" if "fi_reg j \<and> fi_inline j" "len \<le> 512" for j v len now
    using that by (simp add: agfs_truncate_def Let_def)
  obtain i2 where i2: "agfs_truncate 2 9 ?i1 ?v = Some (i2, ?v, None)" "fi_reg i2 \<and> fi_inline i2" using t [of ?i1 2 9 ?v] f by auto
  obtain i3 where i3: "agfs_truncate 5 9 i2 ?v = Some (i3, ?v, None)" using t [OF i2(2), of 5 9 ?v] by auto
  have "calls_admitted call_exec call_ok ?cs ([7 \<mapsto> ?i], ?v)"
    using D(2) z w f i2 i3 by (simp add: file_capacity_def split: prod.split)
  moreover have "contents ?v [7 \<mapsto> ?i] = [7 \<mapsto> []]" by (rule ext) (simp add: contents_def file_content_def demo_file_def)
  ultimately show ?thesis using files_refine_contents [OF D(1), of ?cs] by (intro exI [of _ ?v]) auto
qed

text \<open>
  C27. The content of a stream file is what the block map gives for each offset: every byte before the end of the file is in the
  mapped block, and a read maps no block that the file does not own.
\<close>

theorem bmap_reads_content:
  assumes "vol_ok v" "disk_ok v" "file_inv v i" "\<not> fi_inline i" "n < fi_size i"
  shows "\<exists>b. agfs_bmap n False (fi_ds i) v = Some (fi_ds i, v, Inr b) \<and> b \<in> set (file_blocks v i) \<and> file_content v i ! n = sv_blk v b ! (n mod sv_bs v)"
proof -
  let ?bl = "file_blocks v i" and ?q = "n div sv_bs v"
  have bs: "0 < sv_bs v" using assms(1) by (simp add: vol_ok_def)
  have S: "stream_ok v (fi_ds i)" "fi_size i \<le> length ?bl * sv_bs v" using assms(3,4) by (simp_all add: file_inv_def)
  have q: "?q < length ?bl" using S(2) assms(5) by (simp add: less_mult_imp_div_less)
  have "flat v ?bl ! n = sv_blk v (?bl ! ?q) ! (n mod sv_bs v)"
    using flat_nth [OF _ q, of v "sv_bs v" "n mod sv_bs v"] stream_disk [OF assms(2) S(1)] bs by simp
  then show ?thesis using bmap_mapped [OF q, of False] q assms(4,5) by (auto simp: file_content_def)
qed

theorem bmap_reads_content_witness:
  "\<exists>v. vol_ok v \<and> file_inv v (demo_file 3 3000) \<and> (\<exists>b. agfs_bmap 2500 False (fi_ds (demo_file 3 3000)) v = Some (fi_ds (demo_file 3 3000), v, Inr b) \<and> b \<in> {1, 2, 3})"
proof -
  obtain sb where sb: "sb_inv sb" "used_set sb = {0..<Suc 3}" "s_ag_shift sb = 13" "s_block_size sb = 1024" using volume_upto [of 4] by auto
  have D: "files_inv {0} (demo_stream_disk sb) [7 \<mapsto> demo_file 3 3000]" "set (file_blocks (demo_stream_disk sb) (demo_file 3 3000)) = {1, 2, 3}"
    using demo_files(1,2) [OF sb, of 3000] by auto
  then have "vol_ok (demo_stream_disk sb)" "disk_ok (demo_stream_disk sb)" "file_inv (demo_stream_disk sb) (demo_file 3 3000)" unfolding files_inv_def by simp_all
  then show ?thesis using bmap_reads_content [of "demo_stream_disk sb" "demo_file 3 3000" 2500] D(2)
    by (intro exI [of _ "demo_stream_disk sb"]) (auto simp: demo_file_def)
qed

text \<open>
  C26. A write behind the last block of a stream that has an empty run returns. It takes blocks that were free, adds them behind
  the blocks of the stream and returns the first of them, the one that a read of the offset is mapped to afterwards; it
  fails only on a full volume.
\<close>

theorem bmap_appends:
  assumes "vol_ok v" "stream_ok v ds" "offset div sv_bs v = length (stream_blocks (sv_shift v) ds)" "length (stream_blocks (sv_shift v) ds) + 256 < 2 ^ 16"
    "length (direct_runs ds) < AGFS_NUM_DIRECT_BLOCKS"
  shows "\<exists>ds' v' res new. agfs_bmap offset True ds v = Some (ds', v', res) \<and> vol_ok v' \<and> stream_ok v' ds'
    \<and> stream_blocks (sv_shift v') ds' = stream_blocks (sv_shift v) ds @ new
    \<and> set new \<inter> used_set (sv_sb v) = {} \<and> used_set (sv_sb v') = used_set (sv_sb v) \<union> set new
    \<and> (res = Inl ENOSPC \<and> used_set (sv_sb v') = {0..<s_num_blocks (sv_sb v)}
       \<or> (\<exists>blk. res = Inr blk \<and> new \<noteq> [] \<and> hd new = blk \<and> agfs_bmap offset False ds' v' = Some (ds', v', Inr blk)))"
proof -
  have "room v ds (Suc 0)" using assms(5) by (simp add: room_def)
  from bmap_next [OF assms(1-4) this] obtain ds' v' res new where w: "agfs_bmap offset True ds v = Some (ds', v', res)" "stream_grown v ds v' ds' new"
    and r: "case res of Inl e \<Rightarrow> e = ENOSPC \<and> new = [] \<and> used_set (sv_sb v') = {0..<s_num_blocks (sv_sb v)}
      | Inr blk \<Rightarrow> new \<noteq> [] \<and> hd new = blk \<and> length new \<le> 256 \<and> room v' ds' (Suc 0 - length new)"
    by blast
  have g: "vol_ok v'" "stream_ok v' ds'" "sv_shift v' = sv_shift v" "sv_bs v' = sv_bs v" "stream_blocks (sv_shift v) ds' = stream_blocks (sv_shift v) ds @ new"
    "set new \<inter> used_set (sv_sb v) = {}" "used_set (sv_sb v') = used_set (sv_sb v) \<union> set new" using w(2) by (simp_all add: stream_grown_def)
  have "new \<noteq> [] \<Longrightarrow> agfs_bmap offset False ds' v' = Some (ds', v', Inr (hd new))"
    using bmap_mapped [of offset v' ds' False] assms(3) g(3-5) by (simp add: nth_append hd_conv_nth)
  then have "res = Inl ENOSPC \<and> used_set (sv_sb v') = {0..<s_num_blocks (sv_sb v)}
       \<or> (\<exists>blk. res = Inr blk \<and> new \<noteq> [] \<and> hd new = blk \<and> agfs_bmap offset False ds' v' = Some (ds', v', Inr blk))"
    using r by (auto split: sum.splits)
  then show ?thesis using w(1) g by (intro exI [of _ ds'] exI [of _ v'] exI [of _ res] exI [of _ new] conjI) simp_all
qed

theorem bmap_appends_witness:
  "\<exists>v ds' v' res. vol_ok v \<and> agfs_bmap 700 True (demo_stream []) v = Some (ds', v', res) \<and> stream_ok v' ds' \<and> (\<forall>e. res = Inl e \<longrightarrow> e = ENOSPC)"
proof -
  obtain sb where sb: "sb_inv sb" "used_set sb = {0..<Suc 0}" "s_ag_shift sb = 13" "s_block_size sb = 1024" using volume_upto [of 1] by auto
  let ?v = "demo_stream_disk sb"
  have V: "vol_ok ?v" using demo_stream_disk_ok [OF sb(1,2) zero_less_Suc sb(3,4)] by simp
  have S: "stream_ok ?v (demo_stream [])" "stream_blocks (sv_shift ?v) (demo_stream []) = []" "direct_runs (demo_stream []) = []"
    using demo_stream_ok [of "[]" ?v] demo_stream_runs [of "[]"] by simp_all
  have "700 div sv_bs ?v = 0" using sb(4) by (simp add: demo_stream_disk_def)
  then obtain ds' v' res where "agfs_bmap 700 True (demo_stream []) ?v = Some (ds', v', res)" "stream_ok v' ds'" "res = Inl ENOSPC \<or> (\<exists>blk. res = Inr blk)"
    using bmap_appends [OF V S(1), of 700] S(2,3) by auto
  then show ?thesis using V by (intro exI [of _ ?v] exI [of _ ds'] exI [of _ v'] exI [of _ res]) auto
qed

subsection \<open>Where the block map goes wrong\<close>

text \<open>
  C39. A write into an empty stream behind its first block, within the window that the allocator gives: the block map returns the first
  block of the window, while a read of the same offset is mapped to the block at its place in the window. The data go to
  the block of offset 0.
\<close>

theorem sparse_write_wrong_block:
  assumes "vol_ok v" "stream_ok v ds" "direct_runs ds = []" "agfs_balloc_contig (sv_sb v) AGFS_DELALLOC_WINDOW = Some (sb, Inr (nb, wlen))"
    "0 < block" "block < wlen" "offset div sv_bs v = block"
  shows "\<exists>ds' v'. agfs_bmap offset True ds v = Some (ds', v', Inr nb) \<and> agfs_bmap 0 False ds' v' = Some (ds', v', Inr nb)
    \<and> agfs_bmap offset False ds' v' = Some (ds', v', Inr (nb + block))"
proof -
  have b0: "stream_blocks (sv_shift v) ds = []" by (simp add: stream_blocks_def assms(3))
  define ds1 where "ds1 = set_run (length (direct_runs ds)) (new_run (sv_shift v) nb wlen) (wlen * sv_bs v) ds"
  define v1 where "v1 = v\<lparr>sv_sb := sb\<rparr>"
  have g: "stream_grown v ds v1 ds1 [nb..<nb + wlen]" unfolding ds1_def v1_def by (rule append_step(1) [OF assms(1,2) _ assms(4)]) (simp_all add: assms(3) b0)
  then have b1: "stream_blocks (sv_shift v1) ds1 = [nb..<nb + wlen]" "sv_bs v1 = sv_bs v" by (simp_all add: stream_grown_def b0)
  have "length (ds_direct ds) = 12" using assms(2) by (simp add: stream_ok_def)
  then have "agfs_bmap offset True ds v = bmap_grow offset block 0 0 0 0 0 ds v"
    by (simp add: agfs_bmap_def bmap_scan b0 assms(3,7) Let_def no_run_def)
  also have "\<dots> = Some (ds1, v1, Inr nb)"
    by (subst bmap_grow.simps) (simp add: extend_last_def assms(3,4,6) ds1_def v1_def Let_def)
  finally have w: "agfs_bmap offset True ds v = Some (ds1, v1, Inr nb)" .
  have "offset div sv_bs v1 < length (stream_blocks (sv_shift v1) ds1)" "0 div sv_bs v1 < length (stream_blocks (sv_shift v1) ds1)"
    unfolding b1 using assms(6,7) by simp_all
  from bmap_mapped [OF this(1), of False] bmap_mapped [OF this(2), of False] w show ?thesis
    unfolding b1 assms(7) using assms(6) by (intro exI [of _ ds1] exI [of _ v1]) simp
qed

theorem sparse_write_wrong_block_witness:
  "\<exists>v ds' v' nb. vol_ok v \<and> stream_ok v (demo_stream []) \<and> agfs_bmap 1500 True (demo_stream []) v = Some (ds', v', Inr nb)
     \<and> agfs_bmap 1500 False ds' v' = Some (ds', v', Inr (nb + 1))"
proof -
  obtain sb where sb: "sb_inv sb" "used_set sb = {0..<1}" "s_num_blocks sb = 70000" "s_ag_shift sb = 13" "s_block_size sb = 1024" using volume_upto [of 1] by auto
  let ?v = "demo_stream_disk sb"
  note V = demo_stream_disk_ok [OF sb(1,2) zero_less_one sb(4,5)]
  have U: "sv_sb ?v = sb" by (simp add: demo_stream_disk_def)
  have S: "stream_ok ?v (demo_stream [])" "direct_runs (demo_stream []) = []" using demo_stream_ok [of "[]" ?v] demo_stream_runs [of "[]"] by simp_all
  have "first_free 70000 {0..<1} = Some 1" by (rule first_free_eqI) auto
  moreover have "free_run_at 70000 13 {0..<1} 256 1 = [1..<257]"
    by (simp add: free_run_at_def take_upt del: upt_Suc)
  ultimately obtain sb' where c: "agfs_balloc_contig sb 256 = Some (sb', Inr (1, 256))"
    using contig_refines [OF sb(1), of 256] by (auto simp: spec_contig_def sb(2-4))
  show ?thesis using sparse_write_wrong_block [OF V(1) S, of sb' 1 256 1 1500] c S V(1) sb(5) by (auto simp: U)
qed

text \<open>
  C40. The length of a run has 16 bits and the extension of the last run does not look at them: a stream of one run of 65535 blocks
  loses all of its blocks with the next one. The write succeeds, afterwards every offset is unmapped, and the blocks stay allocated.
\<close>

theorem run_length_wraps:
  assumes "vol_ok v" "stream_ok v ds" "direct_runs ds = [r]" "run_len r = 65535" "offset div sv_bs v = 65535"
    "run_base (sv_shift v) r + 65535 < s_num_blocks (sv_sb v)" "run_base (sv_shift v) r + 65535 \<notin> used_set (sv_sb v)"
  shows "\<exists>ds' v'. agfs_bmap offset True ds v = Some (ds', v', Inr (run_base (sv_shift v) r + 65535))
    \<and> (\<forall>off. agfs_bmap off False ds' v' = Some (ds', v', Inr 0)) \<and> used_set (sv_sb v) \<subseteq> used_set (sv_sb v')"
proof -
  let ?nb = "run_base (sv_shift v) r + 65535"
  have inv: "sb_inv (sv_sb v)" using assms(1) by (simp add: vol_ok_def)
  obtain sb where sp: "agfs_balloc_specific (sv_sb v) ?nb = (sb, None)" "used_set sb = insert ?nb (used_set (sv_sb v))" "s_ag_shift sb = sv_shift v"
    using specific_refines [OF inv, of ?nb] assms(6,7) by (cases "agfs_balloc_specific (sv_sb v) ?nb") auto
  have b: "length (stream_blocks (sv_shift v) ds) = 65535" by (simp add: stream_blocks_def assms(3,4))
  have l: "length (ds_direct ds) = 12" using assms(2) by (simp add: stream_ok_def)
  have at: "ds_direct ds ! 0 = r" by (subst runs_upto(1) [OF assms(2)]) (simp add: assms(3))
  define ds1 where "ds1 = set_run 0 (longer_run r) (65536 * sv_bs v) ds"
  define v1 where "v1 = v\<lparr>sv_sb := sb\<rparr>"
  have "push_bit (sv_shift v) (run_ag r) + run_start r + 65535 = ?nb" by (simp add: run_base_def)
  then have ex: "extend_last 1 (run_ag r) (run_start r) 65535 (sv_sb v) = (sb, Some ?nb)" using sp(1) by (simp add: extend_last_def Let_def)
  have "agfs_bmap offset True ds v = bmap_grow offset 65535 (run_ag r) (run_start r) 65535 1 65535 ds v"
    by (simp add: agfs_bmap_def bmap_scan b assms(3-5) l at Let_def)
  also have "\<dots> = Some (ds1, v1, Inr ?nb)" by (subst bmap_grow.simps) (simp add: ex [simplified] at ds1_def v1_def)
  finally have w: "agfs_bmap offset True ds v = Some (ds1, v1, Inr ?nb)" .
  have "run_len (longer_run r) = 0" by (simp add: longer_run_def assms(4))
  then have e: "run_empty (longer_run r)" by (simp add: run_empty_def)
  have "ds_direct ds1 = longer_run r # tl (ds_direct ds)" using l by (cases "ds_direct ds") (simp_all add: ds1_def set_run_def)
  then have d: "direct_runs ds1 = []" "0 < length (ds_direct ds1)" using e by (simp_all add: direct_runs_def)
  then have "agfs_bmap off False ds1 v1 = Some (ds1, v1, Inr 0)" for off
    by (intro bmap_unmapped_read) (simp_all add: stream_blocks_def)
  moreover have "used_set (sv_sb v) \<subseteq> used_set (sv_sb v1)" by (simp add: v1_def sp(2) subset_insertI)
  ultimately show ?thesis using w by blast
qed

theorem run_length_wraps_witness:
  "\<exists>v ds ds' v' b. vol_ok v \<and> stream_ok v ds \<and> length (stream_blocks (sv_shift v) ds) = 65535 \<and> agfs_bmap (65535 * 1024) True ds v = Some (ds', v', Inr b)
     \<and> agfs_bmap 0 False ds' v' = Some (ds', v', Inr 0)"
proof -
  obtain sb where sb: "sb_inv sb" "used_set sb = {0..<Suc 65535}" "s_num_blocks sb = 70000" "s_ag_shift sb = 13" "s_block_size sb = 1024"
    using volume_upto [of "Suc 65535"] by auto
  let ?v = "demo_stream_disk sb" and ?r = "\<lparr>run_ag = 0, run_start = 1, run_len = 65535\<rparr>"
  note V = demo_stream_disk_ok [OF sb(1,2) zero_less_Suc sb(4,5)]
  have U: "sv_sb ?v = sb" by (simp add: demo_stream_disk_def)
  have rs: "demo_runs 65535 = [?r]" by (simp add: demo_runs_def)
  note R = demo_runs_ok(1,2) [of 65535] demo_runs_ok(3) [of "sv_shift ?v" 65535]
  have S: "stream_ok ?v (demo_stream [?r])" "stream_blocks (sv_shift ?v) (demo_stream [?r]) = [1..<Suc 65535]" "direct_runs (demo_stream [?r]) = [?r]"
    using demo_stream_ok [OF R(1), of ?v] demo_stream_runs(1) [OF R(1)] R(2,3) unfolding rs by (simp_all add: U sb(2) del: upt_Suc)
  have "run_base (sv_shift ?v) ?r = 1" by (simp add: run_base_def)
  then obtain ds' v' b where "agfs_bmap (65535 * 1024) True (demo_stream [?r]) ?v = Some (ds', v', Inr b)" "agfs_bmap 0 False ds' v' = Some (ds', v', Inr 0)"
    using run_length_wraps [OF V(1) S(1,3), of "65535 * 1024"] sb(2,3,5) by (auto simp: U)
  then show ?thesis using V(1) S(1,2)
    by (intro exI [of _ ?v] exI [of _ "demo_stream [?r]"] exI [of _ ds'] exI [of _ v'] exI [of _ b]) (simp del: upt_Suc)
qed

text \<open>The indirect code on a stream whose \<^verbatim>\<open>max_direct_range\<close> is behind the end of its direct runs.\<close>

lemma table_runs_zero:
  assumes "8 \<le> bs"
  shows "\<exists>r rs. table_runs bs (replicate bs 0) = r # rs \<and> run_empty r"
proof -
  have "[0..<bs div 8] = 0 # [1..<bs div 8]" using assms by (simp add: upt_conv_Cons)
  moreover have "run_len (dec_run (mem_get 0 8 (replicate bs 0))) = 0" using assms by (simp add: dec_run_def mem_get_def min_def numeral_2_eq_2)
  ultimately show ?thesis by (simp add: table_runs_def run_empty_def)
qed

lemma indirect_stale:
  assumes V: "vol_ok v" and D: "disk_ok v" and S: "stream_ok v ds" and bs: "8 \<le> sv_bs v"
    and q: "offset div sv_bs v < ds_max_direct ds div sv_bs v" "ds_max_direct ds div sv_bs v < 2 ^ 32" and free: "used_set (sv_sb v) \<noteq> {0..<s_num_blocks (sv_sb v)}"
  shows "\<exists>ds' v'. agfs_indirect_bmap offset True ds v = Some (ds', v', Inl EIO)"
proof -
  have I: "sb_inv (sv_sb v)" "sv_shift v \<le> 16" "0 \<in> used_set (sv_sb v)" using V by (simp_all add: vol_ok_def)
  have len: "run_len (ds_indirect ds) = 0" "run_len (ds_double ds) = 0" using S by (simp_all add: stream_ok_def)
  obtain sb nb where al: "agfs_balloc (sv_sb v) = Some (sb, Inr nb)" "nb < s_num_blocks (sv_sb v)" "nb \<notin> used_set (sv_sb v)" "s_ag_shift sb = sv_shift v"
    using balloc_refines [OF I(1)] free bm.used_bound [of "sv_sb v"]
    by (auto simp: spec_balloc_def first_free_None dest: first_free_Some split: option.splits)
  have nb: "nb < 2 ^ 31" "nb \<noteq> 0" using al(2,3) I(1,3) by (auto simp: sb_inv_def sb_ok_def)
  note N = new_run_base [OF nb(1) I(2), of 1]
  have sbs: "s_block_size sb = sv_bs v" by (rule alloc_block_size(1) [OF al(1)])
  define ds1 where "ds1 = ds\<lparr>ds_indirect := new_run (sv_shift v) nb 1\<rparr>"
  define v1 where "v1 = sv_bwrite (v\<lparr>sv_sb := sb\<rparr>) nb (replicate (sv_bs v) 0)"
  have rd: "sv_rd v nb" using D al(2) by (simp add: disk_ok_def)
  have g: "indirect_grow 0 ds v = Some (ds1\<lparr>ds_max_indirect := sv_bs v div 8 * sv_bs v, ds_max_double := sv_bs v div 8 * sv_bs v\<rparr>, v1, Inr ())"
    using N(1,2) rd by (simp add: indirect_grow_def table_extend_def table_len_def len al(1,4) Let_def zero_block_def agfs_indirect_table_block_def
        sv_bread_def ds1_def v1_def sbs sv_bwrite_def)
  define ds2 where "ds2 = ds1\<lparr>ds_max_indirect := sv_bs v div 8 * sv_bs v, ds_max_double := sv_bs v div 8 * sv_bs v\<rparr>"
  define block where "block = (offset div sv_bs v + 2 ^ 32 - ds_max_direct ds div sv_bs v mod 2 ^ 32) mod 2 ^ 32"
  have "block = offset div sv_bs v + 2 ^ 32 - ds_max_direct ds div sv_bs v" unfolding block_def using q by simp
  then have pos: "0 < block" using q by linarith
  have f: "sv_bs v1 = sv_bs v" "sv_shift v1 = sv_shift v" "ds_max_direct ds2 = ds_max_direct ds" "sv_bread v1 nb = Some (replicate (sv_bs v) 0)"
    "table_len (sv_bs v) ds2 = 1" "agfs_indirect_table_block v1 ds2 0 = nb"
    using rd N(1,2) al(4) sbs by (simp_all add: v1_def ds2_def ds1_def sv_bwrite_def sv_bread_def table_len_def len agfs_indirect_table_block_def)
  obtain r rs where z: "table_runs (sv_bs v) (replicate (sv_bs v) 0) = r # rs" "run_empty r" using table_runs_zero [OF bs] by blast
  have "indirect_walk v1 ds2 block 0 [0..<table_len (sv_bs v1) ds2] = Walk_free nb 0 0"
    using nb(2) by (simp add: f z)
  then have "agfs_indirect_bmap offset True ds2 v1 = Some (ds2, v1, Inl EIO)"
    unfolding agfs_indirect_bmap.simps [of offset True ds2 v1] Let_def f(1,3) block_def [symmetric] using pos by (simp add: indirect_fill_def)
  moreover have "agfs_indirect_bmap offset True ds v = agfs_indirect_bmap offset True ds2 v1"
    by (subst agfs_indirect_bmap.simps) (simp add: table_len_def len g [folded ds2_def] Let_def)
  ultimately show ?thesis by simp
qed

text \<open>
  The trim at the last close shortens the last run and leaves \<^verbatim>\<open>max_direct_range\<close> as it is. When all twelve runs are in use, the next
  write at the end of the stream goes to the indirect code, which takes the old range for the length of the direct runs:
  the write fails with \<open>EIO\<close> although the volume has free blocks.
\<close>

theorem append_after_trim_fails:
  assumes "vol_ok v" "disk_ok v" "stream_ok v ds" "8 \<le> sv_bs v" "ds_max_direct ds = length (stream_blocks (sv_shift v) ds) * sv_bs v"
    "agfs_trim_prealloc True fsize ds v = (ds', v')" "length (direct_runs ds') = AGFS_NUM_DIRECT_BLOCKS"
    "stream_blocks (sv_shift v) ds' \<noteq> stream_blocks (sv_shift v) ds"
    "offset div sv_bs v = length (stream_blocks (sv_shift v) ds')"
  shows "\<exists>ds2 v2. agfs_bmap offset True ds' v' = Some (ds2, v2, Inl EIO)"
proof -
  let ?b = "stream_blocks (sv_shift v) ds"
  obtain m where s: "shrunk v ds v' ds' m" using trim_prealloc_ok [OF assms(1,3,6)] by blast
  then have f: "vol_ok v'" "stream_ok v' ds'" "sv_bs v' = sv_bs v" "sv_shift v' = sv_shift v" "stream_blocks (sv_shift v) ds' = take m ?b"
    "used_set (sv_sb v') = used_set (sv_sb v) - set (drop m ?b)" "s_num_blocks (sv_sb v') = s_num_blocks (sv_sb v)"
    "sv_blk v' = sv_blk v" "sv_rd v' = sv_rd v" by (simp_all add: shrunk_def)
  have D: "disk_ok v'" using assms(2) unfolding disk_ok_def f(3,7-9) .
  have m: "m < length ?b" using assms(8) f(5) by (metis not_le take_all)
  then have "?b ! m \<in> set (drop m ?b)" by (metis Cons_nth_drop_Suc list.set_intros(1))
  then have "?b ! m \<notin> used_set (sv_sb v')" unfolding f(6) by blast
  moreover have "?b ! m \<in> {0..<s_num_blocks (sv_sb v')}" unfolding f(7) using stream_in_volume [OF assms(3)] m by simp
  ultimately have free: "used_set (sv_sb v') \<noteq> {0..<s_num_blocks (sv_sb v')}" by metis
  have l: "length ?b < 2 ^ 16" "length (ds_direct ds') = 12" using assms(3) f(2) by (simp_all add: stream_ok_def)
  have mx: "ds_max_direct ds' = length ?b * sv_bs v"
    using assms(5,6) by (auto simp: agfs_trim_prealloc_def Let_def split: if_splits)
  have "ds_max_direct ds' div sv_bs v' = length ?b" using mx f(3) assms(4) by simp
  moreover have "offset div sv_bs v' = m" using assms(9) f(3,5) m by simp
  ultimately obtain ds2 v2 where "agfs_indirect_bmap offset True ds' v' = Some (ds2, v2, Inl EIO)"
    using indirect_stale [OF f(1) D f(2), of offset] free assms(4) f(3) m l(1) by auto
  moreover have "agfs_bmap offset True ds' v' = agfs_indirect_bmap offset True ds' v'"
    by (simp add: agfs_bmap_def bmap_scan f(3,4) assms(7,9) l(2) Let_def)
  ultimately show ?thesis by simp
qed

theorem append_after_trim_fails_witness:
  "\<exists>v ds ds1 v1 ds2 v2. vol_ok v \<and> stream_ok v ds \<and> agfs_trim_prealloc True (12 * 1024) ds v = (ds1, v1)
     \<and> agfs_bmap (12 * 1024) True ds1 v1 = Some (ds2, v2, Inl EIO)"
proof -
  define r where "r k l = \<lparr>run_ag = 0, run_start = 2 * k + 1, run_len = l\<rparr>" for k l
  define rs where "rs l = map (\<lambda>k. r k 1) [0..<11] @ [r 11 l]" for l
  obtain sb where sb: "sb_inv sb" "used_set sb = {0..<30}" "s_num_blocks sb = 70000" "s_ag_shift sb = 13" "s_block_size sb = 1024"
    using volume_upto [of 30] by auto
  let ?v = "demo_stream_disk sb" and ?ds = "(demo_stream (rs 2))\<lparr>ds_max_direct := 13 * 1024\<rparr>"
  have V: "vol_ok ?v" "disk_ok ?v" "sv_sb ?v = sb" using demo_stream_disk_ok [OF sb(1,2) _ sb(4,5)] by (simp_all add: demo_stream_disk_def)
  have ne: "\<forall>q \<in> set (rs l). \<not> run_empty q" "length (rs l) = 12" if "0 < l" for l
    using that by (auto simp: rs_def r_def run_empty_def)
  have b: "runs_blocks sh (rs 2) = [1,3,5,7,9,11,13,15,17,19,21,23,24]" "runs_blocks sh (rs 1) = [1,3,5,7,9,11,13,15,17,19,21,23]" for sh
    by (simp_all add: rs_def r_def run_blocks_def run_base_def upt_rec)
  have S0: "stream_ok ?v (demo_stream (rs 2))" by (rule demo_stream_ok) (use ne [of 2] in \<open>simp_all add: b V(3) sb(2)\<close>)
  have bl: "stream_blocks sh (demo_stream (rs 2)) = [1,3,5,7,9,11,13,15,17,19,21,23,24]" for sh
    using demo_stream_runs [of "rs 2"] ne [of 2] b(1) [of sh] by (simp add: stream_blocks_def)
  have S: "stream_ok ?v ?ds" "stream_blocks (sv_shift ?v) ?ds = [1,3,5,7,9,11,13,15,17,19,21,23,24]"
    using S0 bl stream_cong [of ?ds "demo_stream (rs 2)"] by simp_all
  obtain ds1 v1 where t: "agfs_trim_prealloc True (12 * 1024) ?ds ?v = (ds1, v1)" by fastforce
  have tw: "ds_direct ?ds = rs 2" "takeWhile (\<lambda>r. \<not> run_empty r) (rs 2) = rs 2" using ne [of 2] by (simp_all add: demo_stream_def)
  have "sum_list (map run_len (rs 2)) = 13" "rs 2 ! 11 = r 11 2" "(rs 2)[11 := r 11 1] = rs 1" "rs 2 \<noteq> []"
    by (simp_all add: rs_def r_def nth_append list_update_append o_def sum_list_triv)
  moreover have "(r 11 2)\<lparr>run_len := 1\<rparr> = r 11 1" "run_len (r 11 2) = 2" "run_len (r 11 1) = 1" by (simp_all add: r_def)
  ultimately have d: "ds_direct ds1 = rs 1"
    using t ne(2) [of 2] sb(5) unfolding agfs_trim_prealloc_def Let_def tw by (auto simp: V(3))
  have d1: "direct_runs ds1 = rs 1" unfolding direct_runs_def d using ne [of 1] by simp
  have b1: "stream_blocks (sv_shift ?v) ds1 = [1,3,5,7,9,11,13,15,17,19,21,23]" unfolding stream_blocks_def d1 by (rule b(2))
  obtain ds2 v2 where "agfs_bmap (12 * 1024) True ds1 v1 = Some (ds2, v2, Inl EIO)"
    using append_after_trim_fails [OF V(1,2) S(1) _ _ t, of "12 * 1024"] d1 ne(2) [of 1] sb(5) S(2) b1 by (auto simp: V(3))
  then show ?thesis using V(1) S(1) t by blast
qed

end
