(* ===== verification/Acl.thy ===== *)
theory Acl
  imports Kernel_Types
begin

text \<open>
  POSIX access control lists, \<^verbatim>\<open>kernel/acl.c\<close>: the validation of an ACL payload, the
  projection between an ACL and the mode bits, \<^verbatim>\<open>chmod\<close> on an inode with a stored ACL,
  the inheritance of a default ACL, and the permission algorithm behind
  \<^verbatim>\<open>check_permission()\<close>.

  A payload is the byte list the C code passes as \<open>(buf, size)\<close>, \<open>None\<close> for a null
  pointer. The extended attribute operations of a file system are the record
  \<open>xattr_ops\<close>: a null function pointer is \<open>None\<close>, an inode without operations has no
  record.
\<close>

subsection \<open>Entries\<close>

record acl_xattr_entry =
  e_tag :: u16
  e_perm :: u16
  e_id :: u32

abbreviation (input) ACL_USER_OBJ :: u16 where "ACL_USER_OBJ \<equiv> 0x01"
abbreviation (input) ACL_USER :: u16 where "ACL_USER \<equiv> 0x02"
abbreviation (input) ACL_GROUP_OBJ :: u16 where "ACL_GROUP_OBJ \<equiv> 0x04"
abbreviation (input) ACL_GROUP :: u16 where "ACL_GROUP \<equiv> 0x08"
abbreviation (input) ACL_MASK :: u16 where "ACL_MASK \<equiv> 0x10"
abbreviation (input) ACL_OTHER :: u16 where "ACL_OTHER \<equiv> 0x20"
abbreviation (input) ACL_UNDEFINED_ID :: u32 where "ACL_UNDEFINED_ID \<equiv> 0xFFFFFFFF"
abbreviation (input) ACL_MAX_ENTRIES :: nat where "ACL_MAX_ENTRIES \<equiv> 32"
abbreviation (input) ACL_ENTRY_SZ :: nat where "ACL_ENTRY_SZ \<equiv> 8"
abbreviation (input) ACL_XATTR_SZ :: nat where "ACL_XATTR_SZ \<equiv> 256"

definition XATTR_ACL_ACCESS :: string where
  "XATTR_ACL_ACCESS = ''system.posix_acl_access''"

definition XATTR_ACL_DEFAULT :: string where
  "XATTR_ACL_DEFAULT = ''system.posix_acl_default''"

text \<open>
  The cast of the payload to an array of \<^verbatim>\<open>struct acl_xattr_entry\<close>: entry \<open>n\<close> is the
  eight bytes at offset \<open>8 * n\<close>.
\<close>

definition acl_entry_dec :: "byte list \<Rightarrow> acl_xattr_entry" where
  "acl_entry_dec bs =
     \<lparr>e_tag = of_nat (le_val (take 2 bs)),
      e_perm = of_nat (le_val (take 2 (drop 2 bs))),
      e_id = of_nat (le_val (take 4 (drop 4 bs)))\<rparr>"

definition acl_entry_enc :: "acl_xattr_entry \<Rightarrow> byte list" where
  "acl_entry_enc e = le_enc 2 (unat (e_tag e)) @ le_enc 2 (unat (e_perm e)) @ le_enc 4 (unat (e_id e))"

definition acl_entries :: "byte list \<Rightarrow> acl_xattr_entry list" where
  "acl_entries buf =
     map (\<lambda>n. acl_entry_dec (drop (ACL_ENTRY_SZ * n) buf)) [0..<length buf div ACL_ENTRY_SZ]"

definition acl_bytes :: "acl_xattr_entry list \<Rightarrow> byte list" where
  "acl_bytes es = concat (map acl_entry_enc es)"

subsection \<open>Validation\<close>

record acl_scan =
  seen_user_obj :: bool
  seen_group_obj :: bool
  seen_mask :: bool
  seen_other :: bool
  named_uid :: bool
  named_gid :: bool
  last_uid :: u32
  last_gid :: u32

definition acl_scan_init :: acl_scan where
  "acl_scan_init = \<lparr>seen_user_obj = False, seen_group_obj = False, seen_mask = False,
     seen_other = False, named_uid = False, named_gid = False, last_uid = 0, last_gid = 0\<rparr>"

text \<open>One turn of the loop of \<^verbatim>\<open>acl_validate\<close>; \<open>None\<close> is its \<^verbatim>\<open>return -EINVAL\<close>.\<close>

definition acl_validate_step :: "nat \<Rightarrow> nat \<Rightarrow> acl_xattr_entry \<Rightarrow> acl_scan \<Rightarrow> acl_scan option" where
  "acl_validate_step nents n e s =
     (if e_perm e AND NOT 7 \<noteq> 0 then None
      else if e_tag e = ACL_USER_OBJ then
        (if seen_user_obj s \<or> n \<noteq> 0 then None else Some (s\<lparr>seen_user_obj := True\<rparr>))
      else if e_tag e = ACL_USER then
        (if \<not> seen_user_obj s \<or> seen_group_obj s then None
         else if e_id e = ACL_UNDEFINED_ID then None
         else if named_uid s \<and> e_id e \<le> last_uid s then None
         else Some (s\<lparr>last_uid := e_id e, named_uid := True\<rparr>))
      else if e_tag e = ACL_GROUP_OBJ then
        (if \<not> seen_user_obj s \<or> seen_group_obj s then None
         else Some (s\<lparr>seen_group_obj := True\<rparr>))
      else if e_tag e = ACL_GROUP then
        (if \<not> seen_group_obj s \<or> seen_mask s then None
         else if e_id e = ACL_UNDEFINED_ID then None
         else if named_gid s \<and> e_id e \<le> last_gid s then None
         else Some (s\<lparr>last_gid := e_id e, named_gid := True\<rparr>))
      else if e_tag e = ACL_MASK then
        (if seen_mask s \<or> \<not> seen_group_obj s then None
         else Some (s\<lparr>seen_mask := True\<rparr>))
      else if e_tag e = ACL_OTHER then
        (if seen_other s \<or> \<not> seen_group_obj s \<or> n \<noteq> nents - 1 then None
         else Some (s\<lparr>seen_other := True\<rparr>))
      else None)"

fun acl_validate_loop :: "nat \<Rightarrow> nat \<Rightarrow> acl_xattr_entry list \<Rightarrow> acl_scan \<Rightarrow> acl_scan option" where
  "acl_validate_loop nents n [] s = Some s"
| "acl_validate_loop nents n (e # es) s =
     (case acl_validate_step nents n e s of
        None \<Rightarrow> None
      | Some s' \<Rightarrow> acl_validate_loop nents (Suc n) es s')"

definition acl_validate :: "byte list option \<Rightarrow> status" where
  "acl_validate b =
     (case b of
        None \<Rightarrow> Some EFAULT
      | Some buf \<Rightarrow>
         (if length buf = 0 \<or> length buf mod ACL_ENTRY_SZ \<noteq> 0 then Some EINVAL
          else
            (let nents = length buf div ACL_ENTRY_SZ in
             if nents < 3 \<or> nents > ACL_MAX_ENTRIES then Some EINVAL
             else
               (case acl_validate_loop nents 0 (acl_entries buf) acl_scan_init of
                  None \<Rightarrow> Some EINVAL
                | Some s \<Rightarrow>
                    (if \<not> seen_user_obj s \<or> \<not> seen_group_obj s \<or> \<not> seen_other s then Some EINVAL
                     else if (named_uid s \<or> named_gid s) \<and> \<not> seen_mask s then Some EINVAL
                     else None)))))"

subsection \<open>The ACL and the mode bits\<close>

text \<open>The class permissions collected by the \<^verbatim>\<open>switch\<close> over the entries: the last entry of a tag wins.\<close>

record acl_class =
  c_owner :: u16
  c_group :: u16
  c_mask :: u16
  c_other :: u16
  c_have_mask :: bool

definition acl_class_init :: acl_class where
  "acl_class_init = \<lparr>c_owner = 0, c_group = 0, c_mask = 0, c_other = 0, c_have_mask = False\<rparr>"

definition acl_class_step :: "acl_xattr_entry \<Rightarrow> acl_class \<Rightarrow> acl_class" where
  "acl_class_step e c =
     (if e_tag e = ACL_USER_OBJ then c\<lparr>c_owner := e_perm e\<rparr>
      else if e_tag e = ACL_GROUP_OBJ then c\<lparr>c_group := e_perm e\<rparr>
      else if e_tag e = ACL_MASK then c\<lparr>c_mask := e_perm e, c_have_mask := True\<rparr>
      else if e_tag e = ACL_OTHER then c\<lparr>c_other := e_perm e\<rparr>
      else c)"

definition acl_sync_mode :: "('a) inode_scheme \<Rightarrow> byte list option \<Rightarrow> ('a) inode_scheme" where
  "acl_sync_mode i b =
     (case b of
        None \<Rightarrow> i
      | Some buf \<Rightarrow>
         (if length buf = 0 \<or> length buf mod ACL_ENTRY_SZ \<noteq> 0 then i
          else
            (let c = fold acl_class_step (acl_entries buf) acl_class_init;
                 gmask = (if c_have_mask c then c_mask c else c_group c)
             in i\<lparr>i_mode := i_mode i AND NOT RWX_BITS OR push_bit 6 (c_owner c)
                   OR push_bit 3 gmask OR c_other c\<rparr>)))"

text \<open>\<^verbatim>\<open>acl_equiv_mode\<close>: \<open>Some\<close> of the projected mode where the C function returns 1.\<close>

fun acl_equiv_loop :: "acl_xattr_entry list \<Rightarrow> acl_class \<Rightarrow> acl_class option" where
  "acl_equiv_loop [] c = Some c"
| "acl_equiv_loop (e # es) c =
     (if e_tag e = ACL_USER_OBJ \<or> e_tag e = ACL_GROUP_OBJ \<or> e_tag e = ACL_MASK
         \<or> e_tag e = ACL_OTHER
      then acl_equiv_loop es (acl_class_step e c)
      else None)"

definition acl_equiv_mode :: "byte list option \<Rightarrow> u16 option" where
  "acl_equiv_mode b =
     (case b of
        None \<Rightarrow> None
      | Some buf \<Rightarrow>
         (if length buf = 0 \<or> length buf mod ACL_ENTRY_SZ \<noteq> 0 \<or> length buf < 3 * ACL_ENTRY_SZ
          then None
          else
            (case acl_equiv_loop (acl_entries buf) acl_class_init of
               None \<Rightarrow> None
             | Some c \<Rightarrow>
                 (if c_have_mask c \<and> c_mask c \<noteq> c_group c then None
                  else Some (push_bit 6 (c_owner c) OR push_bit 3 (c_group c) OR c_other c)))))"

subsection \<open>The extended attribute operations of a file system\<close>

text \<open>
  \<open>getxattr i name size\<close> is the value, which the caller's buffer of \<open>size\<close> bytes
  receives; a call with size 0 is the query of the length. \<open>setxattr\<close> and
  \<open>removexattr\<close> return the changed inode and the status.
\<close>

record 'i xattr_ops =
  op_getxattr :: "('i \<Rightarrow> string \<Rightarrow> nat \<Rightarrow> byte list result) option"
  op_setxattr :: "('i \<Rightarrow> string \<Rightarrow> byte list \<Rightarrow> u32 \<Rightarrow> 'i \<times> status) option"
  op_removexattr :: "('i \<Rightarrow> string \<Rightarrow> 'i \<times> status) option"

subsection \<open>chmod\<close>

definition acl_chmod_entry :: "u16 \<Rightarrow> bool \<Rightarrow> acl_xattr_entry \<Rightarrow> acl_xattr_entry" where
  "acl_chmod_entry mode have_mask e =
     (let uperm = drop_bit 6 mode AND 7; gperm = drop_bit 3 mode AND 7; operm = mode AND 7 in
      if e_tag e = ACL_USER_OBJ then e\<lparr>e_perm := uperm\<rparr>
      else if e_tag e = ACL_GROUP_OBJ then (if \<not> have_mask then e\<lparr>e_perm := gperm\<rparr> else e)
      else if e_tag e = ACL_MASK then e\<lparr>e_perm := gperm\<rparr>
      else if e_tag e = ACL_OTHER then e\<lparr>e_perm := operm\<rparr>
      else e)"

definition acl_chmod_entries :: "u16 \<Rightarrow> acl_xattr_entry list \<Rightarrow> acl_xattr_entry list" where
  "acl_chmod_entries mode es =
     map (acl_chmod_entry mode (list_ex (\<lambda>e. e_tag e = ACL_MASK) es)) es"

definition acl_chmod :: "'i xattr_ops option \<Rightarrow> 'i \<Rightarrow> u16 \<Rightarrow> 'i \<times> status" where
  "acl_chmod fsop i mode =
     (case fsop of
        None \<Rightarrow> (i, None)
      | Some ops \<Rightarrow>
         (case (op_getxattr ops, op_setxattr ops) of
            (Some getx, Some setx) \<Rightarrow>
              (case getx i XATTR_ACL_ACCESS ACL_XATTR_SZ of
                 Inl e \<Rightarrow> (if e = ENODATA \<or> e = EOPNOTSUPP then (i, None) else (i, Some e))
               | Inr buf \<Rightarrow>
                  (if length buf = 0 \<or> length buf mod ACL_ENTRY_SZ \<noteq> 0 then (i, Some EIO)
                   else if length buf div ACL_ENTRY_SZ > ACL_MAX_ENTRIES then (i, Some EIO)
                   else if acl_validate (Some buf) \<noteq> None then (i, Some EIO)
                   else setx i XATTR_ACL_ACCESS
                          (acl_bytes (acl_chmod_entries mode (acl_entries buf))) 0))
          | _ \<Rightarrow> (i, None)))"

subsection \<open>Default ACL inheritance\<close>

text \<open>
  The loop of \<^verbatim>\<open>acl_default_masq\<close>: the running \<open>rwx\<close> bits, the entries with the owner and
  the other class intersected, and whether a named or mask entry was seen. The pointers
  \<^verbatim>\<open>group_obj\<close> and \<^verbatim>\<open>mask_obj\<close> are the positions of the last such entries.
\<close>

record acl_masq =
  m_rwx :: u16
  m_group :: "nat option"
  m_mask :: "nat option"
  m_nontrivial :: bool

fun acl_masq_loop :: "nat \<Rightarrow> acl_xattr_entry list \<Rightarrow> acl_masq \<Rightarrow> acl_xattr_entry list \<times> acl_masq" where
  "acl_masq_loop n [] m = ([], m)"
| "acl_masq_loop n (e # es) m =
     (if e_tag e = ACL_USER_OBJ then
        (let p = e_perm e AND (drop_bit 6 (m_rwx m) AND 7);
             r = acl_masq_loop (Suc n) es
                   (m\<lparr>m_rwx := m_rwx m AND NOT S_IRWXU OR push_bit 6 p\<rparr>)
         in (e\<lparr>e_perm := p\<rparr> # fst r, snd r))
      else if e_tag e = ACL_OTHER then
        (let p = e_perm e AND (m_rwx m AND 7);
             r = acl_masq_loop (Suc n) es (m\<lparr>m_rwx := m_rwx m AND NOT S_IRWXO OR p\<rparr>)
         in (e\<lparr>e_perm := p\<rparr> # fst r, snd r))
      else
        (let m' = (if e_tag e = ACL_GROUP_OBJ then m\<lparr>m_group := Some n\<rparr>
                   else if e_tag e = ACL_MASK then m\<lparr>m_mask := Some n, m_nontrivial := True\<rparr>
                   else if e_tag e = ACL_USER \<or> e_tag e = ACL_GROUP then m\<lparr>m_nontrivial := True\<rparr>
                   else m);
             r = acl_masq_loop (Suc n) es m'
         in (e # fst r, snd r)))"

definition acl_masq_group ::
    "nat \<Rightarrow> acl_xattr_entry list \<Rightarrow> u16 \<Rightarrow> acl_xattr_entry list \<times> u16" where
  "acl_masq_group k es rwx =
     (let p = e_perm (es ! k) AND (drop_bit 3 rwx AND 7)
      in (es[k := (es ! k)\<lparr>e_perm := p\<rparr>], rwx AND NOT S_IRWXG OR push_bit 3 p))"

text \<open>The outcome: the folded mode, the new entries (\<open>[]\<close> when nothing is written) and the flag.\<close>

definition acl_default_masq ::
    "byte list option \<Rightarrow> u16 \<Rightarrow> nat \<Rightarrow> u16 \<times> byte list \<times> bool" where
  "acl_default_masq dfl mode outsz =
     (case dfl of
        None \<Rightarrow> (mode, [], False)
      | Some buf \<Rightarrow>
         (if length buf < 3 * ACL_ENTRY_SZ \<or> length buf mod ACL_ENTRY_SZ \<noteq> 0 \<or> outsz < length buf
          then (mode, [], False)
          else
            (let (es, m) = acl_masq_loop 0 (acl_entries buf)
                   \<lparr>m_rwx = mode AND RWX_BITS, m_group = None, m_mask = None, m_nontrivial = False\<rparr>;
                 (es', rwx) = (case m_mask m of
                     Some k \<Rightarrow> acl_masq_group k es (m_rwx m)
                   | None \<Rightarrow>
                      (case m_group m of
                         Some k \<Rightarrow> acl_masq_group k es (m_rwx m)
                       | None \<Rightarrow> (es, m_rwx m)))
             in (mode AND NOT RWX_BITS OR rwx, acl_bytes es', m_nontrivial m))))"

text \<open>
  \<^verbatim>\<open>acl_inherit_default\<close> on the new inode; \<open>now\<close> is \<^verbatim>\<open>CURRENT_TIME\<close>. The status of the
  two \<^verbatim>\<open>setxattr\<close> calls is dropped, as in the C code. The boolean is the result.
\<close>

definition acl_inherit_default ::
    "('d) inode_scheme xattr_ops option \<Rightarrow> ('d) inode_scheme \<Rightarrow> ('a) inode_scheme xattr_ops option
     \<Rightarrow> ('a) inode_scheme \<Rightarrow> u16 \<Rightarrow> bool \<Rightarrow> u64 \<Rightarrow> ('a) inode_scheme \<times> bool" where
  "acl_inherit_default dfsop dir fsop i mode is_dir now =
     (if S_ISLNK (i_mode i) then (i, False)
      else
        (case dfsop of
           None \<Rightarrow> (i, False)
         | Some dops \<Rightarrow>
            (case op_getxattr dops of
               None \<Rightarrow> (i, False)
             | Some getx \<Rightarrow>
                (case getx dir XATTR_ACL_DEFAULT ACL_XATTR_SZ of
                   Inl e \<Rightarrow> (i, False)
                 | Inr dfl \<Rightarrow>
                    (if length dfl = 0 \<or> length dfl mod ACL_ENTRY_SZ \<noteq> 0 then (i, False)
                     else
                       (let (fmode, acc, non_trivial) = acl_default_masq (Some dfl) mode ACL_XATTR_SZ;
                            i1 = i\<lparr>i_mode := i_mode i AND NOT RWX_BITS OR (fmode AND RWX_BITS),
                                   i_ctime := now, i_dirty := True\<rparr>
                        in (case fsop of
                              None \<Rightarrow> (i1, True)
                            | Some ops \<Rightarrow>
                               (case op_setxattr ops of
                                  None \<Rightarrow> (i1, True)
                                | Some setx \<Rightarrow>
                                   (let i2 = (if non_trivial then fst (setx i1 XATTR_ACL_ACCESS acc 0) else i1);
                                        i3 = (if is_dir then fst (setx i2 XATTR_ACL_DEFAULT dfl 0) else i2)
                                    in (i3, True))))))))))"

subsection \<open>The permission algorithm\<close>

record acl_entry =
  a_tag :: u32
  a_perm :: u32
  a_id :: u32

definition acl_caller_gid :: "proc \<Rightarrow> u32" where
  "acl_caller_gid cur = (if use_real cur then p_gid cur else p_fsgid cur)"

definition acl_caller_uid :: "proc \<Rightarrow> u32" where
  "acl_caller_uid cur = (if use_real cur then p_uid cur else p_fsuid cur)"

definition acl_in_groups :: "proc \<Rightarrow> u32 \<Rightarrow> bool" where
  "acl_in_groups cur gid =
     (if acl_caller_gid cur = gid then True
      else groups_scan (take NGROUPS_MAX (p_groups cur)) gid)"

definition acl_grant :: "u32 \<Rightarrow> u32 \<Rightarrow> status" where
  "acl_grant perm want = (if perm AND want = want then None else Some EACCES)"

definition acl_group_step :: "proc \<Rightarrow> u32 \<Rightarrow> acl_entry \<Rightarrow> bool \<times> u32 \<Rightarrow> bool \<times> u32" where
  "acl_group_step cur gid e r =
     (if a_tag e = 4 \<and> acl_in_groups cur gid then (True, snd r OR a_perm e)
      else if a_tag e = 8 \<and> acl_in_groups cur (a_id e) then (True, snd r OR a_perm e)
      else r)"

definition acl_check_entries :: "proc \<Rightarrow> acl_entry list \<Rightarrow> ('a) inode_scheme \<Rightarrow> u32 \<Rightarrow> status" where
  "acl_check_entries cur e i want =
     (let uid = acl_caller_uid cur;
          mperm = (case find (\<lambda>x. a_tag x = 0x10) e of Some x \<Rightarrow> a_perm x | None \<Rightarrow> 7)
      in
      if i_uid i = uid then
        (case find (\<lambda>x. a_tag x = 1) e of
           Some x \<Rightarrow> acl_grant (a_perm x) want
         | None \<Rightarrow> Some EACCES)
      else
        (case find (\<lambda>x. a_tag x = 2 \<and> a_id x = uid) e of
           Some x \<Rightarrow> acl_grant (mperm AND a_perm x) want
         | None \<Rightarrow>
            (let (matched_groups, gperms) = fold (acl_group_step cur (i_gid i)) e (False, 0) in
             if matched_groups then acl_grant (mperm AND gperms) want
             else
               (case find (\<lambda>x. a_tag x = 0x20) e of
                  Some x \<Rightarrow> acl_grant (a_perm x) want
                | None \<Rightarrow> Some EACCES))))"

definition acl_trivial_entries :: "u16 \<Rightarrow> acl_entry list" where
  "acl_trivial_entries mode =
     [\<lparr>a_tag = 1, a_perm = ucast (drop_bit 6 mode AND 7), a_id = ACL_UNDEFINED_ID\<rparr>,
      \<lparr>a_tag = 4, a_perm = ucast (drop_bit 3 mode AND 7), a_id = ACL_UNDEFINED_ID\<rparr>,
      \<lparr>a_tag = 0x20, a_perm = ucast (mode AND 7), a_id = ACL_UNDEFINED_ID\<rparr>]"

definition acl_trivial_permission :: "proc \<Rightarrow> ('a) inode_scheme \<Rightarrow> u32 \<Rightarrow> status" where
  "acl_trivial_permission cur i want =
     acl_check_entries cur (acl_trivial_entries (i_mode i)) i want"

definition acl_of_wire :: "acl_xattr_entry \<Rightarrow> acl_entry" where
  "acl_of_wire w = \<lparr>a_tag = ucast (e_tag w), a_perm = ucast (e_perm w), a_id = e_id w\<rparr>"

definition acl_permission ::
    "proc \<Rightarrow> ('a) inode_scheme xattr_ops option \<Rightarrow> ('a) inode_scheme \<Rightarrow> u32 \<Rightarrow> status" where
  "acl_permission cur fsop i want =
     (let got = (case fsop of
                   None \<Rightarrow> Inl ENODATA
                 | Some ops \<Rightarrow>
                    (case op_getxattr ops of
                       None \<Rightarrow> Inl ENODATA
                     | Some getx \<Rightarrow> getx i XATTR_ACL_ACCESS ACL_XATTR_SZ))
      in case got of
           Inl e \<Rightarrow>
             (if e = ENODATA \<or> e = EOPNOTSUPP then acl_trivial_permission cur i want else Some e)
         | Inr buf \<Rightarrow>
             (if length buf = 0 \<or> length buf mod ACL_ENTRY_SZ \<noteq> 0 then Some EIO
              else if acl_validate (Some buf) \<noteq> None then Some EIO
              else acl_check_entries cur (map acl_of_wire (acl_entries buf)) i want))"

definition check_permission ::
    "proc \<Rightarrow> ('a) inode_scheme xattr_ops option \<Rightarrow> u32 \<Rightarrow> ('a) inode_scheme \<Rightarrow> status" where
  "check_permission cur fsop want i =
     (let uid = (if use_real cur then p_uid cur else p_fsuid cur) in
      if uid = 0 then None else acl_permission cur fsop i want)"

subsection \<open>The wire format\<close>

lemma acl_entry_dec_enc [simp]: "acl_entry_dec (acl_entry_enc e @ r) = e"
proof -
  have 1: "of_nat (le_val (le_enc 2 (unat (e_tag e)))) = e_tag e"
    by (rule of_nat_unat_mod) simp
  have 2: "of_nat (le_val (le_enc 2 (unat (e_perm e)))) = e_perm e"
    by (rule of_nat_unat_mod) simp
  have 3: "of_nat (le_val (le_enc 4 (unat (e_id e)))) = e_id e"
    by (rule of_nat_unat_mod) simp
  show ?thesis
    by (simp add: acl_entry_dec_def acl_entry_enc_def 1 2 3)
qed

lemma length_acl_entry_enc [simp]: "length (acl_entry_enc e) = 8"
  by (simp add: acl_entry_enc_def)

lemma length_acl_bytes [simp]: "length (acl_bytes es) = 8 * length es"
  by (induction es) (auto simp: acl_bytes_def)

lemma length_acl_entries [simp]: "length (acl_entries buf) = length buf div 8"
  by (simp add: acl_entries_def)

lemma acl_entries_append_enc:
  "acl_entries (acl_entry_enc e @ r) = e # acl_entries r"
proof -
  have "length (acl_entry_enc e @ r) div 8 = Suc (length r div 8)" by simp
  then have "[0..<length (acl_entry_enc e @ r) div 8] = 0 # map Suc [0..<length r div 8]"
    by (simp only: upt_conv_Cons map_Suc_upt zero_less_Suc)
  then show ?thesis by (simp add: acl_entries_def comp_def)
qed

lemma acl_entries_bytes [simp]: "acl_entries (acl_bytes es) = es"
proof (induction es)
  case Nil
  show ?case by (simp add: acl_bytes_def acl_entries_def)
next
  case (Cons e es)
  then show ?case by (simp add: acl_bytes_def acl_entries_append_enc)
qed

lemma acl_entry_enc_dec:
  assumes "length bs = 8"
  shows "acl_entry_enc (acl_entry_dec (bs @ r)) = bs"
proof -
  have u: "unat (of_nat (le_val xs) :: 'a::len word) = le_val xs"
    if "LENGTH('a) = 8 * length xs" for xs
  proof -
    have "(256::nat) ^ length xs = 2 ^ LENGTH('a)" by (simp add: that power_mult)
    then show ?thesis using le_val_less [of xs] by (simp add: unat_of_nat)
  qed
  have 1: "le_enc 2 (unat (of_nat (le_val (take 2 bs)) :: u16)) = take 2 bs"
    by (subst u, simp add: assms, rule le_enc_take, simp add: assms)
  have 2: "le_enc 2 (unat (of_nat (le_val (take 2 (drop 2 bs))) :: u16)) = take 2 (drop 2 bs)"
    by (subst u, simp add: assms, rule le_enc_take, simp add: assms)
  have 3: "le_enc 4 (unat (of_nat (le_val (take 4 (drop 4 bs))) :: u32)) = take 4 (drop 4 bs)"
    by (subst u, simp add: assms, rule le_enc_take, simp add: assms)
  have "take 2 bs @ take 2 (drop 2 bs) @ take 4 (drop 4 bs) = take 8 bs"
    by (metis (no_types, lifting) add.assoc numeral_Bit0 take_add append_assoc drop_drop)
  moreover have "take 4 (drop 4 bs) = drop 4 bs" using assms by simp
  ultimately show ?thesis using assms 3
    by (simp add: acl_entry_enc_def acl_entry_dec_def 1 2)
qed

lemma acl_bytes_entries:
  "length buf mod 8 = 0 \<Longrightarrow> acl_bytes (acl_entries buf) = buf"
proof (induction "length buf div 8" arbitrary: buf)
  case 0
  then have "buf = []" by auto
  then show ?case by (simp add: acl_entries_def acl_bytes_def)
next
  case (Suc n)
  then have len: "8 \<le> length buf" by auto
  let ?a = "take 8 buf" and ?r = "drop 8 buf"
  have a: "acl_entry_enc (acl_entry_dec (?a @ ?r)) = ?a"
    using len by (intro acl_entry_enc_dec) simp
  have "acl_entries buf = acl_entries (acl_entry_enc (acl_entry_dec buf) @ ?r)"
    using a by simp
  then have e: "acl_entries buf = acl_entry_dec buf # acl_entries ?r"
    by (simp add: acl_entries_append_enc)
  have "acl_bytes (acl_entries ?r) = ?r"
  proof (rule Suc.hyps(1))
    show "n = length ?r div 8" using Suc.hyps(2) by simp
    show "length ?r mod 8 = 0" using Suc.prems len by (simp add: le_mod_geq [symmetric])
  qed
  then show ?case using a by (simp add: e acl_bytes_def)
qed

subsection \<open>Validation accepts exactly the canonical ACLs\<close>

definition acl_perm_ok :: "acl_xattr_entry \<Rightarrow> bool" where
  "acl_perm_ok e \<longleftrightarrow> e_perm e AND NOT 7 = 0"

definition acl_named_ok :: "u16 \<Rightarrow> acl_xattr_entry list \<Rightarrow> bool" where
  "acl_named_ok t es \<longleftrightarrow>
     list_all (\<lambda>e. e_tag e = t \<and> e_id e \<noteq> ACL_UNDEFINED_ID) es \<and> sorted_wrt (<) (map e_id es)"

text \<open>The canonical shape: owner, named users, owning group, named groups, mask, other.\<close>

definition acl_shape ::
    "acl_xattr_entry list \<Rightarrow> acl_xattr_entry \<Rightarrow> acl_xattr_entry list \<Rightarrow> acl_xattr_entry
     \<Rightarrow> acl_xattr_entry list \<Rightarrow> acl_xattr_entry list \<Rightarrow> acl_xattr_entry \<Rightarrow> bool" where
  "acl_shape es uo us go gs ms ot \<longleftrightarrow>
     es = uo # us @ go # gs @ ms @ [ot]
     \<and> e_tag uo = ACL_USER_OBJ \<and> acl_named_ok ACL_USER us
     \<and> e_tag go = ACL_GROUP_OBJ \<and> acl_named_ok ACL_GROUP gs
     \<and> length ms \<le> 1 \<and> list_all (\<lambda>m. e_tag m = ACL_MASK) ms
     \<and> (us \<noteq> [] \<or> gs \<noteq> [] \<longrightarrow> ms \<noteq> [])
     \<and> e_tag ot = ACL_OTHER \<and> list_all acl_perm_ok es"

definition acl_canonical :: "acl_xattr_entry list \<Rightarrow> bool" where
  "acl_canonical es \<longleftrightarrow> (\<exists>uo us go gs ms ot. acl_shape es uo us go gs ms ot)"

text \<open>The scanner's remaining language after the mask, after the owning group, after the owner.\<close>

definition acl_accepts :: "nat \<Rightarrow> nat \<Rightarrow> acl_xattr_entry list \<Rightarrow> acl_scan \<Rightarrow> bool" where
  "acl_accepts nents n es s \<longleftrightarrow>
     (\<exists>s'. acl_validate_loop nents n es s = Some s' \<and> seen_user_obj s' \<and> seen_group_obj s'
        \<and> seen_other s' \<and> (named_uid s' \<or> named_gid s' \<longrightarrow> seen_mask s'))"

fun acl_lang_groups :: "bool \<Rightarrow> u32 option \<Rightarrow> acl_xattr_entry list \<Rightarrow> bool" where
  "acl_lang_groups named prev [] = False"
| "acl_lang_groups named prev (e # es) =
     (acl_perm_ok e \<and>
      (if e_tag e = ACL_GROUP then
         e_id e \<noteq> ACL_UNDEFINED_ID \<and> (\<forall>l. prev = Some l \<longrightarrow> l < e_id e)
         \<and> acl_lang_groups True (Some (e_id e)) es
       else if e_tag e = ACL_MASK then
         (\<exists>ot. es = [ot] \<and> e_tag ot = ACL_OTHER \<and> acl_perm_ok ot)
       else e_tag e = ACL_OTHER \<and> es = [] \<and> \<not> named))"

lemma acl_accepts_Nil [simp]: "acl_accepts nents n [] s \<longleftrightarrow>
    seen_user_obj s \<and> seen_group_obj s \<and> seen_other s \<and> (named_uid s \<or> named_gid s \<longrightarrow> seen_mask s)"
  by (simp add: acl_accepts_def)

lemma acl_accepts_Cons: "acl_accepts nents n (e # es) s \<longleftrightarrow>
    (\<exists>s'. acl_validate_step nents n e s = Some s' \<and> acl_accepts nents (Suc n) es s')"
  by (auto simp: acl_accepts_def split: option.splits)

lemma acl_accepts_mask:
  assumes "seen_user_obj s" "seen_group_obj s" "seen_mask s" "\<not> seen_other s"
    and "n + length es = nents"
  shows "acl_accepts nents n es s \<longleftrightarrow> (\<exists>ot. es = [ot] \<and> e_tag ot = ACL_OTHER \<and> acl_perm_ok ot)"
proof (cases es)
  case (Cons e es')
  then show ?thesis using assms
    by (auto simp: acl_accepts_Cons acl_validate_step_def acl_perm_ok_def split: if_splits)
qed (use assms in simp)

lemma acl_accepts_groups:
  assumes "seen_user_obj s" "seen_group_obj s" "\<not> seen_mask s" "\<not> seen_other s"
    and "n + length es = nents"
  shows "acl_accepts nents n es s \<longleftrightarrow>
    acl_lang_groups (named_uid s \<or> named_gid s) (if named_gid s then Some (last_gid s) else None) es"
  using assms
proof (induction es arbitrary: n s)
  case (Cons e es)
  have IH: "acl_accepts nents (Suc n) es (s\<lparr>last_gid := e_id e, named_gid := True\<rparr>) \<longleftrightarrow>
      acl_lang_groups True (Some (e_id e)) es"
    using Cons.IH [of "s\<lparr>last_gid := e_id e, named_gid := True\<rparr>" "Suc n"] Cons.prems by simp
  have M: "acl_accepts nents (Suc n) es (s\<lparr>seen_mask := True\<rparr>) \<longleftrightarrow>
      (\<exists>ot. es = [ot] \<and> e_tag ot = ACL_OTHER \<and> acl_perm_ok ot)"
    using Cons.prems by (intro acl_accepts_mask) auto
  show ?case using Cons.prems IH M
    by (auto simp: acl_accepts_Cons acl_validate_step_def acl_perm_ok_def not_less not_le split: if_splits)
qed simp

definition acl_above :: "u32 option \<Rightarrow> acl_xattr_entry list \<Rightarrow> bool" where
  "acl_above prev es \<longleftrightarrow> (\<forall>l. prev = Some l \<longrightarrow> es \<noteq> [] \<longrightarrow> l < e_id (hd es))"

lemma acl_named_ok_Cons:
  "acl_named_ok t (e # es) \<longleftrightarrow>
     e_tag e = t \<and> e_id e \<noteq> ACL_UNDEFINED_ID \<and> acl_above (Some (e_id e)) es \<and> acl_named_ok t es"
proof -
  have "(\<forall>y\<in>set (map e_id es). e_id e < y) \<longleftrightarrow> acl_above (Some (e_id e)) es"
    if "sorted_wrt (<) (map e_id es)"
    using that by (cases es) (auto simp: acl_above_def)
  then show ?thesis by (auto simp: acl_named_ok_def)
qed

lemma acl_named_ok_Nil [simp]: "acl_named_ok t []"
  by (simp add: acl_named_ok_def)

lemma acl_above_simps [simp]:
  "acl_above None es" "acl_above prev []"
  "acl_above (Some l) (e # es) \<longleftrightarrow> l < e_id e"
  by (auto simp: acl_above_def)

definition acl_groups_shape ::
    "bool \<Rightarrow> u32 option \<Rightarrow> acl_xattr_entry list \<Rightarrow> acl_xattr_entry list \<Rightarrow> acl_xattr_entry list
     \<Rightarrow> acl_xattr_entry \<Rightarrow> bool" where
  "acl_groups_shape named prev es gs ms ot \<longleftrightarrow>
     es = gs @ ms @ [ot] \<and> acl_named_ok ACL_GROUP gs \<and> acl_above prev gs
     \<and> length ms \<le> 1 \<and> list_all (\<lambda>m. e_tag m = ACL_MASK) ms
     \<and> (named \<or> gs \<noteq> [] \<longrightarrow> ms \<noteq> []) \<and> e_tag ot = ACL_OTHER \<and> list_all acl_perm_ok es"

lemma acl_lang_groups_shape:
  "acl_lang_groups named prev es \<Longrightarrow> \<exists>gs ms ot. acl_groups_shape named prev es gs ms ot"
proof (induction named prev es rule: acl_lang_groups.induct)
  case (2 named prev e es)
  consider (g) "e_tag e = ACL_GROUP" | (m) "e_tag e = ACL_MASK"
    | (t) "e_tag e \<noteq> ACL_GROUP" "e_tag e \<noteq> ACL_MASK" by blast
  then show ?case
  proof cases
    case g
    with 2 obtain gs ms ot where "acl_groups_shape True (Some (e_id e)) es gs ms ot" by auto
    with g 2(2) have "acl_groups_shape named prev (e # es) (e # gs) ms ot"
      by (auto simp: acl_groups_shape_def acl_named_ok_Cons acl_above_def)
    then show ?thesis by blast
  next
    case m
    with 2(2) obtain ot where "acl_groups_shape named prev (e # es) [] [e] ot"
      by (auto simp: acl_groups_shape_def)
    then show ?thesis by blast
  next
    case t
    with 2(2) have "acl_groups_shape named prev (e # es) [] [] e"
      by (auto simp: acl_groups_shape_def)
    then show ?thesis by blast
  qed
qed simp

lemma acl_groups_shape_lang:
  "acl_groups_shape named prev es gs ms ot \<Longrightarrow> acl_lang_groups named prev es"
proof (induction gs arbitrary: named prev es)
  case Nil
  then show ?case by (cases ms) (auto simp: acl_groups_shape_def)
next
  case (Cons g gs)
  then have "acl_groups_shape True (Some (e_id g)) (gs @ ms @ [ot]) gs ms ot"
    by (auto simp: acl_groups_shape_def acl_named_ok_Cons)
  from Cons.IH [OF this] Cons.prems show ?case
    by (auto simp: acl_groups_shape_def acl_named_ok_Cons)
qed

lemma acl_lang_groups_iff:
  "acl_lang_groups named prev es \<longleftrightarrow> (\<exists>gs ms ot. acl_groups_shape named prev es gs ms ot)"
  using acl_lang_groups_shape acl_groups_shape_lang by blast

definition acl_users_shape ::
    "bool \<Rightarrow> u32 option \<Rightarrow> acl_xattr_entry list \<Rightarrow> acl_xattr_entry list \<Rightarrow> acl_xattr_entry
     \<Rightarrow> acl_xattr_entry list \<Rightarrow> bool" where
  "acl_users_shape named prev es us go r \<longleftrightarrow>
     es = us @ go # r \<and> acl_named_ok ACL_USER us \<and> acl_above prev us
     \<and> list_all acl_perm_ok (us @ [go]) \<and> e_tag go = ACL_GROUP_OBJ
     \<and> acl_lang_groups (named \<or> us \<noteq> []) None r"

lemma acl_users_shape_Cons:
  "(\<exists>us go r. acl_users_shape named prev (e # es) us go r) \<longleftrightarrow>
     acl_perm_ok e \<and>
     (e_tag e = ACL_USER \<and> e_id e \<noteq> ACL_UNDEFINED_ID \<and> acl_above prev [e]
        \<and> (\<exists>us go r. acl_users_shape True (Some (e_id e)) es us go r)
      \<or> e_tag e = ACL_GROUP_OBJ \<and> acl_lang_groups named None es)"
    (is "?l \<longleftrightarrow> ?r")
proof
  assume ?l
  then obtain us go r where s: "acl_users_shape named prev (e # es) us go r" by blast
  show ?r
  proof (cases us)
    case Nil
    with s show ?thesis by (auto simp: acl_users_shape_def)
  next
    case (Cons u us')
    with s have "acl_users_shape True (Some (e_id e)) es us' go r"
      by (auto simp: acl_users_shape_def acl_named_ok_Cons)
    with s Cons show ?thesis by (auto simp: acl_users_shape_def acl_named_ok_Cons acl_above_def)
  qed
next
  assume r: ?r
  then have p: "acl_perm_ok e" by blast
  from r consider (u) us go r' where "e_tag e = ACL_USER" "e_id e \<noteq> ACL_UNDEFINED_ID"
        "acl_above prev [e]" "acl_users_shape True (Some (e_id e)) es us go r'"
    | (g) "e_tag e = ACL_GROUP_OBJ" "acl_lang_groups named None es" by blast
  then show ?l
  proof cases
    case u
    then have "acl_users_shape named prev (e # es) (e # us) go r'"
      using p by (auto simp: acl_users_shape_def acl_named_ok_Cons acl_above_def)
    then show ?thesis by blast
  next
    case g
    then have "acl_users_shape named prev (e # es) [] e es"
      using p by (auto simp: acl_users_shape_def)
    then show ?thesis by blast
  qed
qed

lemma acl_accepts_users:
  assumes "seen_user_obj s" "\<not> seen_group_obj s" "\<not> seen_mask s" "\<not> seen_other s"
    and "\<not> named_gid s" "n + length es = nents" "n > 0"
  shows "acl_accepts nents n es s \<longleftrightarrow>
    (\<exists>us go r. acl_users_shape (named_uid s) (if named_uid s then Some (last_uid s) else None) es us go r)"
  using assms
proof (induction es arbitrary: n s)
  case Nil
  then show ?case by (simp add: acl_users_shape_def)
next
  case (Cons e es)
  have U: "acl_accepts nents (Suc n) es (s\<lparr>last_uid := e_id e, named_uid := True\<rparr>) \<longleftrightarrow>
      (\<exists>us go r. acl_users_shape True (Some (e_id e)) es us go r)"
    using Cons.IH [of "s\<lparr>last_uid := e_id e, named_uid := True\<rparr>" "Suc n"] Cons.prems by simp
  have G: "acl_accepts nents (Suc n) es (s\<lparr>seen_group_obj := True\<rparr>) \<longleftrightarrow>
      acl_lang_groups (named_uid s) None es"
    using acl_accepts_groups [of "s\<lparr>seen_group_obj := True\<rparr>" "Suc n" es nents] Cons.prems by simp
  show ?case unfolding acl_users_shape_Cons acl_accepts_Cons
    using Cons.prems U G
    by (auto simp: acl_validate_step_def acl_perm_ok_def acl_above_def not_less not_le split: if_splits)
qed

lemma acl_shape_split:
  "acl_shape (e # es) uo us go gs ms ot \<longleftrightarrow>
     uo = e \<and> acl_perm_ok e \<and> e_tag e = ACL_USER_OBJ
     \<and> (\<exists>r. acl_users_shape False None es us go r \<and> acl_groups_shape (us \<noteq> []) None r gs ms ot)"
    (is "?l \<longleftrightarrow> ?r")
proof
  assume l: ?l
  then have g: "acl_groups_shape (us \<noteq> []) None (gs @ ms @ [ot]) gs ms ot"
    by (auto simp: acl_shape_def acl_groups_shape_def)
  from l have "es = us @ go # gs @ ms @ [ot]" by (simp add: acl_shape_def)
  with l have "acl_users_shape False None es us go (gs @ ms @ [ot])"
    using acl_groups_shape_lang [OF g] by (auto simp: acl_shape_def acl_users_shape_def)
  with l g show ?r by (auto simp: acl_shape_def)
next
  assume ?r
  then show ?l by (auto simp: acl_shape_def acl_users_shape_def acl_groups_shape_def)
qed

lemma acl_accepts_init:
  assumes "length es = nents" "0 < nents"
  shows "acl_accepts nents 0 es acl_scan_init \<longleftrightarrow> acl_canonical es"
proof (cases es)
  case (Cons e es')
  let ?s = "acl_scan_init\<lparr>seen_user_obj := True\<rparr>"
  have U: "acl_accepts nents (Suc 0) es' ?s \<longleftrightarrow> (\<exists>us go r. acl_users_shape False None es' us go r)"
    using acl_accepts_users [of ?s "Suc 0" es' nents] assms Cons by (simp add: acl_scan_init_def)
  have "acl_accepts nents 0 es acl_scan_init \<longleftrightarrow>
      acl_perm_ok e \<and> e_tag e = ACL_USER_OBJ \<and> acl_accepts nents (Suc 0) es' ?s"
    unfolding Cons acl_accepts_Cons
    by (auto simp: acl_validate_step_def acl_scan_init_def acl_perm_ok_def split: if_splits)
  also have "\<dots> \<longleftrightarrow> acl_canonical es"
  proof -
    have *: "\<exists>gs ms ot. acl_groups_shape (us \<noteq> []) None r gs ms ot"
      if "acl_users_shape False None es' us go r" for us go r
      using that by (simp add: acl_users_shape_def acl_lang_groups_iff)
    have "(\<exists>us go r. acl_users_shape False None es' us go r) \<longleftrightarrow>
      (\<exists>us go gs ms ot r. acl_users_shape False None es' us go r
         \<and> acl_groups_shape (us \<noteq> []) None r gs ms ot)" (is "?a \<longleftrightarrow> ?b")
    proof
      assume ?a
      then obtain us go r where u: "acl_users_shape False None es' us go r" by blast
      from * [OF u] obtain gs ms ot where "acl_groups_shape (us \<noteq> []) None r gs ms ot" by blast
      with u show ?b by blast
    next
      assume ?b
      then show ?a by blast
    qed
    then show ?thesis unfolding U acl_canonical_def Cons acl_shape_split by simp
  qed
  finally show ?thesis .
qed (use assms in simp)

lemma acl_validate_iff:
  "acl_validate (Some buf) = None \<longleftrightarrow>
     length buf mod 8 = 0 \<and> 3 \<le> length buf div 8 \<and> length buf div 8 \<le> 32
     \<and> acl_canonical (acl_entries buf)"
proof -
  have "acl_accepts (length buf div 8) 0 (acl_entries buf) acl_scan_init
      \<longleftrightarrow> acl_canonical (acl_entries buf)" if "0 < length buf div 8"
    using that by (intro acl_accepts_init) auto
  then show ?thesis
    by (auto simp: acl_validate_def acl_accepts_def Let_def split: option.splits)
qed

lemma rwx_mask: "(0x1FF::u16) = mask 9" "(7::u16) = mask 3" "(0x1C0::u16) = push_bit 6 (mask 3)"
  "(0x38::u16) = push_bit 3 (mask 3)" "(7::u32) = mask 3"
  by (simp_all add: mask_eq_exp_minus_1 push_bit_eq_mult)

lemma perm_bit_iff: "(p::u16) AND NOT 7 = 0 \<longleftrightarrow> (\<forall>n. bit p n \<longrightarrow> n < 3)"
proof
  assume p: "p AND NOT 7 = 0"
  show "\<forall>n. bit p n \<longrightarrow> n < 3"
  proof (intro allI impI)
    fix n assume b: "bit p n"
    have "\<not> bit (p AND NOT 7) n" unfolding p by simp
    with b show "n < 3" by (auto simp: rwx_mask bit_simps dest: bit_imp_le_length)
  qed
next
  assume "\<forall>n. bit p n \<longrightarrow> n < 3"
  then show "p AND NOT 7 = 0"
    by (intro bit_eqI) (auto simp: rwx_mask bit_simps)
qed

definition rwx_join :: "u16 \<Rightarrow> u16 \<Rightarrow> u16 \<Rightarrow> u16" where
  "rwx_join u g t = push_bit 6 u OR push_bit 3 g OR t"

lemma rwx_join_bits:
  assumes "u AND NOT 7 = 0" "g AND NOT 7 = 0" "t AND NOT 7 = 0"
  shows "drop_bit 6 (rwx_join u g t) AND 7 = u" "drop_bit 3 (rwx_join u g t) AND 7 = g"
    "rwx_join u g t AND 7 = t" "rwx_join u g t AND 0x1FF = rwx_join u g t"
proof -
  note b = assms [unfolded perm_bit_iff, rule_format]
  show "drop_bit 6 (rwx_join u g t) AND 7 = u" "drop_bit 3 (rwx_join u g t) AND 7 = g"
    "rwx_join u g t AND 7 = t" "rwx_join u g t AND 0x1FF = rwx_join u g t"
    by (rule bit_eqI; auto simp: rwx_mask rwx_join_def bit_simps; (drule b)+; simp)+
qed

lemma rwx_split: "rwx_join (drop_bit 6 m AND 7) (drop_bit 3 m AND 7) (m AND 7) = m AND 0x1FF"
proof (rule bit_eqI)
  fix n assume "possible_bit TYPE(u16) n"
  then have n: "n < 16" by simp
  then consider "n < 3" | "3 \<le> n" "n < 6" | "6 \<le> n" "n < 9" | "9 \<le> n" by linarith
  then show "bit (rwx_join (drop_bit 6 m AND 7) (drop_bit 3 m AND 7) (m AND 7)) n = bit (m AND 0x1FF) n"
    using n by cases (auto simp: rwx_mask rwx_join_def bit_simps)
qed

subsection \<open>The classes of a canonical ACL\<close>

definition acl_mask_of :: "u16 \<Rightarrow> acl_xattr_entry list \<Rightarrow> u16" where
  "acl_mask_of d ms = (case ms of [] \<Rightarrow> d | m # _ \<Rightarrow> e_perm m)"

lemma acl_class_named:
  "acl_named_ok t es \<Longrightarrow> t = ACL_USER \<or> t = ACL_GROUP \<Longrightarrow> fold acl_class_step es c = c"
  by (induction es arbitrary: c) (auto simp: acl_named_ok_def acl_class_step_def)

lemma acl_shape_class:
  assumes "acl_shape es uo us go gs ms ot"
  shows "fold acl_class_step es acl_class_init =
    \<lparr>c_owner = e_perm uo, c_group = e_perm go, c_mask = acl_mask_of 0 ms,
     c_other = e_perm ot, c_have_mask = ms \<noteq> []\<rparr>"
proof -
  from assms have "ms = [] \<or> (\<exists>m. ms = [m] \<and> e_tag m = ACL_MASK)"
    by (cases ms) (auto simp: acl_shape_def)
  moreover have "fold acl_class_step us c = c" "fold acl_class_step gs c = c" for c
    using assms by (auto simp: acl_shape_def intro: acl_class_named)
  ultimately show ?thesis using assms
    by (auto simp: acl_shape_def acl_class_step_def acl_class_init_def acl_mask_of_def)
qed

lemma acl_valid_shape:
  assumes "acl_validate (Some buf) = None"
  obtains uo us go gs ms ot where "acl_shape (acl_entries buf) uo us go gs ms ot"
    and "buf \<noteq> []" and "length buf mod 8 = 0" and "24 \<le> length buf" and "length buf \<le> 256"
proof -
  from assms have v: "length buf mod 8 = 0" "3 \<le> length buf div 8" "length buf div 8 \<le> 32"
    "acl_canonical (acl_entries buf)"
    by (auto simp: acl_validate_iff)
  from v(1-3) have "24 \<le> length buf" "length buf \<le> 256" "buf \<noteq> []" by auto
  with v that show ?thesis by (auto simp: acl_canonical_def)
qed

lemma acl_shape_perms:
  assumes "acl_shape es uo us go gs ms ot"
  shows "e_perm uo AND NOT 7 = 0" "e_perm go AND NOT 7 = 0" "e_perm ot AND NOT 7 = 0"
    "acl_mask_of (e_perm go) ms AND NOT 7 = 0"
  using assms unfolding acl_shape_def acl_perm_ok_def acl_mask_of_def
  by (auto split: list.splits)

text \<open>The mode the stored ACL stands for: owner, mask (or owning group), other.\<close>

lemma acl_sync_mode_shape:
  assumes "acl_validate (Some buf) = None" "acl_shape (acl_entries buf) uo us go gs ms ot"
  shows "acl_sync_mode i (Some buf) =
    i\<lparr>i_mode := i_mode i AND NOT RWX_BITS
        OR rwx_join (e_perm uo) (acl_mask_of (e_perm go) ms) (e_perm ot)\<rparr>"
proof -
  from assms(1) have "length buf mod 8 = 0" "buf \<noteq> []" by (auto elim: acl_valid_shape)
  then show ?thesis using acl_shape_class [OF assms(2)]
    by (simp add: acl_sync_mode_def Let_def rwx_join_def acl_mask_of_def or.assoc split: list.splits)
qed

lemma mode_rwx_AND:
  "r AND 0x1FF = r \<Longrightarrow> (m AND NOT 0x1FF OR r) AND 0x1FF = (r::u16)"
  "r AND 0x1FF = r \<Longrightarrow> (m AND NOT 0x1FF OR r) AND NOT 0x1FF = m AND NOT 0x1FF"
proof -
  assume r: "r AND 0x1FF = r"
  have b: "n < 9" if "bit r n" for n
  proof -
    have "bit (r AND 0x1FF) n" using that r by simp
    then show ?thesis by (simp add: rwx_mask bit_simps)
  qed
  show "(m AND NOT 0x1FF OR r) AND 0x1FF = (r::u16)"
    "(m AND NOT 0x1FF OR r) AND NOT 0x1FF = m AND NOT 0x1FF"
    by (rule bit_eqI; auto simp: rwx_mask bit_simps dest: b)+
qed

lemma acl_named_ok_map:
  assumes "\<And>e. e_tag (f e) = e_tag e \<and> e_id (f e) = e_id e"
  shows "acl_named_ok t (map f es) \<longleftrightarrow> acl_named_ok t es"
proof -
  have "e_id \<circ> f = e_id" using assms by auto
  then show ?thesis by (simp add: acl_named_ok_def list.pred_map comp_def assms)
qed

lemma acl_shape_map:
  assumes "acl_shape es uo us go gs ms ot"
    and "\<And>e. e_tag (f e) = e_tag e \<and> e_id (f e) = e_id e"
    and "\<And>e. acl_perm_ok e \<Longrightarrow> acl_perm_ok (f e)"
  shows "acl_shape (map f es) (f uo) (map f us) (f go) (map f gs) (map f ms) (f ot)"
  using assms(1,3) unfolding acl_shape_def
  by (auto simp: acl_named_ok_map assms(2) list_all_iff)

lemma perm_AND7: "(m AND 7) AND NOT 7 = (0::u16)"
  by (rule bit_eqI) (auto simp: rwx_mask bit_simps)

lemma acl_chmod_entry_keeps:
  "e_tag (acl_chmod_entry mode hm e) = e_tag e" "e_id (acl_chmod_entry mode hm e) = e_id e"
  by (auto simp: acl_chmod_entry_def Let_def)

lemma acl_chmod_entry_perm: "acl_perm_ok e \<Longrightarrow> acl_perm_ok (acl_chmod_entry mode hm e)"
  using perm_AND7 by (auto simp: acl_chmod_entry_def Let_def acl_perm_ok_def)

lemma acl_has_mask_shape:
  assumes "acl_shape es uo us go gs ms ot"
  shows "list_ex (\<lambda>e. e_tag e = ACL_MASK) es \<longleftrightarrow> ms \<noteq> []"
  using assms unfolding acl_shape_def acl_named_ok_def
  by (cases ms) (auto simp: list_ex_iff list_all_iff)

lemma acl_chmod_shape:
  fixes mode
  assumes "acl_shape es uo us go gs ms ot"
  defines "f \<equiv> acl_chmod_entry mode (ms \<noteq> [])"
  shows "acl_shape (acl_chmod_entries mode es) (f uo) (map f us) (f go) (map f gs) (map f ms) (f ot)"
  using acl_shape_map [OF assms(1), of f] acl_has_mask_shape [OF assms(1)]
  by (simp add: acl_chmod_entries_def f_def acl_chmod_entry_keeps acl_chmod_entry_perm)

lemma acl_chmod_classes:
  fixes mode
  assumes "acl_shape es uo us go gs ms ot"
  defines "f \<equiv> acl_chmod_entry mode (ms \<noteq> [])"
  shows "e_perm (f uo) = drop_bit 6 mode AND 7" "e_perm (f ot) = mode AND 7"
    "acl_mask_of (e_perm (f go)) (map f ms) = drop_bit 3 mode AND 7"
    "ms \<noteq> [] \<Longrightarrow> e_perm (f go) = e_perm go"
  using assms(1) unfolding acl_shape_def f_def
  by (auto simp: acl_chmod_entry_def acl_mask_of_def Let_def split: list.splits)

lemma acl_validate_bytes:
  "acl_validate (Some (acl_bytes es)) = None \<longleftrightarrow> 3 \<le> length es \<and> length es \<le> 32 \<and> acl_canonical es"
  by (simp add: acl_validate_iff)

lemma acl_chmod_entries_valid:
  assumes "acl_validate (Some buf) = None"
  shows "acl_validate (Some (acl_bytes (acl_chmod_entries mode (acl_entries buf)))) = None"
proof -
  from assms obtain uo us go gs ms ot where s: "acl_shape (acl_entries buf) uo us go gs ms ot"
    and l: "24 \<le> length buf" "length buf \<le> 256" by (elim acl_valid_shape)
  from acl_chmod_shape [OF s] have "acl_canonical (acl_chmod_entries mode (acl_entries buf))"
    unfolding acl_canonical_def by blast
  then show ?thesis using l by (auto simp: acl_validate_bytes acl_chmod_entries_def)
qed

lemma acl_chmod_entries_sync:
  assumes "acl_validate (Some buf) = None"
  shows "acl_sync_mode i (Some (acl_bytes (acl_chmod_entries mode (acl_entries buf))))
     = i\<lparr>i_mode := i_mode i AND NOT RWX_BITS OR mode AND RWX_BITS\<rparr>"
proof -
  let ?b = "acl_bytes (acl_chmod_entries mode (acl_entries buf))"
  from assms obtain uo us go gs ms ot where s: "acl_shape (acl_entries buf) uo us go gs ms ot"
    by (elim acl_valid_shape)
  from acl_chmod_shape [OF s]
  have "acl_shape (acl_entries ?b) (acl_chmod_entry mode (ms \<noteq> []) uo)
    (map (acl_chmod_entry mode (ms \<noteq> [])) us) (acl_chmod_entry mode (ms \<noteq> []) go)
    (map (acl_chmod_entry mode (ms \<noteq> [])) gs) (map (acl_chmod_entry mode (ms \<noteq> [])) ms)
    (acl_chmod_entry mode (ms \<noteq> []) ot)" by simp
  from acl_sync_mode_shape [OF acl_chmod_entries_valid [OF assms] this]
  show ?thesis by (simp add: acl_chmod_classes [OF s] rwx_split)
qed

definition covers :: "u32 \<Rightarrow> u32 \<Rightarrow> bool" where
  "covers p want \<longleftrightarrow> (\<forall>n. bit want n \<longrightarrow> bit p n)"

lemma covers_code [code]: "covers p want \<longleftrightarrow> p AND want = want"
  unfolding covers_def bit_eq_iff using bit_imp_le_length [of want]
  by (auto simp: bit_simps)

lemma acl_grant_iff: "acl_grant p want = None \<longleftrightarrow> covers p want"
  by (simp add: acl_grant_def covers_code)

definition acl_matching_groups ::
    "proc \<Rightarrow> u32 \<Rightarrow> acl_xattr_entry \<Rightarrow> acl_xattr_entry list \<Rightarrow> acl_xattr_entry set" where
  "acl_matching_groups cur gid go gs =
     (if acl_in_groups cur gid then {go} else {}) \<union> {g \<in> set gs. acl_in_groups cur (e_id g)}"

definition acl_grants ::
    "proc \<Rightarrow> ('a) inode_scheme \<Rightarrow> u32 \<Rightarrow> acl_xattr_entry \<Rightarrow> acl_xattr_entry list \<Rightarrow> acl_xattr_entry
     \<Rightarrow> acl_xattr_entry list \<Rightarrow> acl_xattr_entry list \<Rightarrow> acl_xattr_entry \<Rightarrow> bool" where
  "acl_grants cur i want uo us go gs ms ot \<longleftrightarrow>
     (let uid = acl_caller_uid cur;
          G = acl_matching_groups cur (i_gid i) go gs;
          mk = ucast (acl_mask_of 7 ms)
      in if i_uid i = uid then covers (ucast (e_perm uo)) want
         else if \<exists>u\<in>set us. e_id u = uid then
           \<exists>u\<in>set us. e_id u = uid \<and> covers (ucast (e_perm u)) want \<and> covers mk want
         else if G \<noteq> {} then
           covers mk want \<and> (\<forall>n<32. bit want n \<longrightarrow> (\<exists>g\<in>G. bit (e_perm g) n))
         else covers (ucast (e_perm ot)) want)"

text \<open>
  \<open>acl_grants\<close> is the decision of the code. The algorithm of POSIX 1003.1e lets one matching group entry decide: an access is
  granted when some entry that matches holds every permission that is asked for. They differ where no entry does and
  the entries do together.
\<close>

definition posix_acl_grants ::
    "proc \<Rightarrow> ('a) inode_scheme \<Rightarrow> u32 \<Rightarrow> acl_xattr_entry \<Rightarrow> acl_xattr_entry list \<Rightarrow> acl_xattr_entry
     \<Rightarrow> acl_xattr_entry list \<Rightarrow> acl_xattr_entry list \<Rightarrow> acl_xattr_entry \<Rightarrow> bool" where
  "posix_acl_grants cur i want uo us go gs ms ot \<longleftrightarrow>
     (let uid = acl_caller_uid cur;
          G = acl_matching_groups cur (i_gid i) go gs;
          mk = ucast (acl_mask_of 7 ms)
      in if i_uid i = uid then covers (ucast (e_perm uo)) want
         else if \<exists>u\<in>set us. e_id u = uid then
           \<exists>u\<in>set us. e_id u = uid \<and> covers (ucast (e_perm u)) want \<and> covers mk want
         else if G \<noteq> {} then \<exists>g\<in>G. covers (ucast (e_perm g)) want \<and> covers mk want
         else covers (ucast (e_perm ot)) want)"

definition acl_groups_add_up ::
    "proc \<Rightarrow> ('a) inode_scheme \<Rightarrow> u32 \<Rightarrow> acl_xattr_entry list \<Rightarrow> acl_xattr_entry
     \<Rightarrow> acl_xattr_entry list \<Rightarrow> acl_xattr_entry list \<Rightarrow> bool" where
  "acl_groups_add_up cur i want us go gs ms \<longleftrightarrow>
     (let G = acl_matching_groups cur (i_gid i) go gs
      in i_uid i \<noteq> acl_caller_uid cur \<and> (\<forall>u\<in>set us. e_id u \<noteq> acl_caller_uid cur) \<and> G \<noteq> {}
         \<and> covers (ucast (acl_mask_of 7 ms)) want \<and> (\<forall>n<32. bit want n \<longrightarrow> (\<exists>g\<in>G. bit (e_perm g) n))
         \<and> \<not> (\<exists>g\<in>G. covers (ucast (e_perm g)) want))"

lemma covers_bits: "covers (ucast (p :: u16)) want \<longleftrightarrow> (\<forall>n<32. bit want n \<longrightarrow> bit p n)"
  unfolding covers_def using bit_imp_le_length [of want] bit_imp_le_length [of p] by (auto simp: bit_simps)

lemma acl_grants_posix:
  "acl_grants cur i want uo us go gs ms ot \<longleftrightarrow>
     posix_acl_grants cur i want uo us go gs ms ot \<or> acl_groups_add_up cur i want us go gs ms"
  unfolding acl_grants_def posix_acl_grants_def acl_groups_add_up_def Let_def covers_bits by auto

lemma acl_one_entry_decides:
  assumes "(\<forall>m n. bit want m \<longrightarrow> bit want n \<longrightarrow> m = n) \<or> (\<exists>g. acl_matching_groups cur (i_gid i) go gs \<subseteq> {g})"
  shows "\<not> acl_groups_add_up cur i want us go gs ms"
  using assms
proof
  assume "\<forall>m n. bit want m \<longrightarrow> bit want n \<longrightarrow> m = n"
  then show ?thesis unfolding acl_groups_add_up_def Let_def covers_bits by (auto; metis)
next
  assume "\<exists>g. acl_matching_groups cur (i_gid i) go gs \<subseteq> {g}"
  then show ?thesis unfolding acl_groups_add_up_def Let_def covers_bits by (auto; blast)
qed

lemma tag_ucast: "(ucast t :: u32) = ucast k \<longleftrightarrow> t = (k::u16)"
proof
  assume e: "(ucast t :: u32) = ucast k"
  show "t = k"
  proof (rule bit_eqI)
    fix n assume "possible_bit TYPE(u16) n"
    moreover have "bit (ucast t :: u32) n = bit (ucast k :: u32) n" using e by simp
    ultimately show "bit t n = bit k n" by (simp add: bit_simps)
  qed
qed simp

lemma a_tag_of_wire [simp]:
  "a_tag (acl_of_wire e) = 1 \<longleftrightarrow> e_tag e = ACL_USER_OBJ"
  "a_tag (acl_of_wire e) = 2 \<longleftrightarrow> e_tag e = ACL_USER"
  "a_tag (acl_of_wire e) = 4 \<longleftrightarrow> e_tag e = ACL_GROUP_OBJ"
  "a_tag (acl_of_wire e) = 8 \<longleftrightarrow> e_tag e = ACL_GROUP"
  "a_tag (acl_of_wire e) = 0x10 \<longleftrightarrow> e_tag e = ACL_MASK"
  "a_tag (acl_of_wire e) = 0x20 \<longleftrightarrow> e_tag e = ACL_OTHER"
  using tag_ucast [of "e_tag e" 1] tag_ucast [of "e_tag e" 2] tag_ucast [of "e_tag e" 4]
    tag_ucast [of "e_tag e" 8] tag_ucast [of "e_tag e" 16] tag_ucast [of "e_tag e" 32]
  by (simp_all add: acl_of_wire_def)

lemma a_of_wire [simp]:
  "a_perm (acl_of_wire e) = ucast (e_perm e)" "a_id (acl_of_wire e) = e_id e"
  by (simp_all add: acl_of_wire_def)


lemma find_append_case:
  "find P (xs @ ys) = (case find P xs of None \<Rightarrow> find P ys | Some x \<Rightarrow> Some x)"
  by (induction xs) auto

lemma find_map_comp: "find P (map f xs) = map_option f (find (P \<circ> f) xs)"
  by (induction xs) auto

lemma find_none: "\<forall>x\<in>set xs. \<not> P x \<Longrightarrow> find P xs = None"
  by (simp add: find_None_iff)

lemma acl_named_find:
  "acl_named_ok t es \<Longrightarrow> find (\<lambda>x. e_tag x = k) es = (if k = t then find (\<lambda>_. True) es else None)"
  "acl_named_ok t es \<Longrightarrow>
     find (\<lambda>x. e_tag x = k \<and> e_id x = uid) es = (if k = t then find (\<lambda>x. e_id x = uid) es else None)"
  by (induction es) (auto simp: acl_named_ok_Cons)

lemma find_shape:
  assumes "acl_shape es uo us go gs ms ot"
  shows "find (\<lambda>x. a_tag x = 0x10) (map acl_of_wire es) = map_option acl_of_wire (find (\<lambda>_. True) ms)"
    "find (\<lambda>x. a_tag x = 1) (map acl_of_wire es) = Some (acl_of_wire uo)"
    "find (\<lambda>x. a_tag x = 0x20) (map acl_of_wire es) = Some (acl_of_wire ot)"
    "find (\<lambda>x. a_tag x = 2 \<and> a_id x = uid) (map acl_of_wire es)
       = map_option acl_of_wire (find (\<lambda>x. e_id x = uid) us)"
proof -
  from assms have ms: "ms = [] \<or> (\<exists>m. ms = [m] \<and> e_tag m = ACL_MASK)"
    by (cases ms) (auto simp: acl_shape_def)
  from assms have us: "acl_named_ok ACL_USER us" and gs: "acl_named_ok ACL_GROUP gs"
    by (simp_all add: acl_shape_def)
  note f = find_map_comp comp_def find_append_case acl_named_find [OF us] acl_named_find [OF gs]
  show "find (\<lambda>x. a_tag x = 0x10) (map acl_of_wire es) = map_option acl_of_wire (find (\<lambda>_. True) ms)"
    "find (\<lambda>x. a_tag x = 1) (map acl_of_wire es) = Some (acl_of_wire uo)"
    "find (\<lambda>x. a_tag x = 0x20) (map acl_of_wire es) = Some (acl_of_wire ot)"
    "find (\<lambda>x. a_tag x = 2 \<and> a_id x = uid) (map acl_of_wire es)
       = map_option acl_of_wire (find (\<lambda>x. e_id x = uid) us)"
    using assms ms by (auto simp: acl_shape_def f split: option.splits)
qed

lemma acl_group_fold:
  "fold (acl_group_step cur gid) (map acl_of_wire es) r =
     (let G = filter (\<lambda>e. e_tag e = ACL_GROUP_OBJ \<and> acl_in_groups cur gid
                 \<or> e_tag e = ACL_GROUP \<and> acl_in_groups cur (e_id e)) es
      in (fst r \<or> G \<noteq> [], fold (\<lambda>e p. p OR ucast (e_perm e)) G (snd r)))"
  by (induction es arbitrary: r) (auto simp: acl_group_step_def Let_def)

lemma bit_fold_or:
  "bit (fold (\<lambda>e p. p OR ucast (e_perm e)) G p0) n \<longleftrightarrow>
     bit (p0::u32) n \<or> (\<exists>g\<in>set G. bit (ucast (e_perm g) :: u32) n)"
  by (induction G arbitrary: p0) (auto simp: bit_or_iff)


lemma acl_shape_groups:
  assumes "acl_shape es uo us go gs ms ot"
  shows "set (filter (\<lambda>e. e_tag e = ACL_GROUP_OBJ \<and> acl_in_groups cur gid
           \<or> e_tag e = ACL_GROUP \<and> acl_in_groups cur (e_id e)) es)
     = acl_matching_groups cur gid go gs"
  using assms unfolding acl_shape_def acl_named_ok_def acl_matching_groups_def
  by (auto simp: list_all_iff)

lemma covers_and: "covers (p AND q) w \<longleftrightarrow> covers p w \<and> covers q w"
  by (auto simp: covers_def bit_and_iff)

lemma acl_named_unique:
  "acl_named_ok t es \<Longrightarrow> u \<in> set es \<Longrightarrow> v \<in> set es \<Longrightarrow> e_id u = e_id v \<Longrightarrow> u = v"
  by (induction es) (auto simp: acl_named_ok_def)

lemma acl_named_find_ex:
  assumes "acl_named_ok t es"
  shows "(case find (\<lambda>x. e_id x = k) es of None \<Rightarrow> R | Some u \<Rightarrow> Q u) \<longleftrightarrow>
    (if \<exists>u\<in>set es. e_id u = k then \<exists>u\<in>set es. e_id u = k \<and> Q u else R)"
proof (cases "find (\<lambda>x. e_id x = k) es")
  case None
  then have "\<not> (\<exists>u\<in>set es. e_id u = k)" by (auto simp: find_None_iff)
  with None show ?thesis by auto
next
  case (Some u)
  then have u: "u \<in> set es" "e_id u = k" by (auto simp: find_Some_iff)
  then have "(\<exists>v\<in>set es. e_id v = k \<and> Q v) \<longleftrightarrow> Q u"
    using acl_named_unique [OF assms] by blast
  with Some u show ?thesis by auto
qed

lemma acl_check_entries_grants:
  assumes "acl_shape es uo us go gs ms ot"
  shows "acl_check_entries cur (map acl_of_wire es) i want = None
    \<longleftrightarrow> acl_grants cur i want uo us go gs ms ot"
proof -
  let ?uid = "acl_caller_uid cur"
  let ?G = "filter (\<lambda>e. e_tag e = ACL_GROUP_OBJ \<and> acl_in_groups cur (i_gid i)
           \<or> e_tag e = ACL_GROUP \<and> acl_in_groups cur (e_id e)) es"
  note G = acl_shape_groups [OF assms, of cur "i_gid i"]
  have ne: "?G \<noteq> [] \<longleftrightarrow> acl_matching_groups cur (i_gid i) go gs \<noteq> {}"
    unfolding G [symmetric] by (simp only: set_empty)
  have cov: "covers (fold (\<lambda>e p. p OR ucast (e_perm e)) ?G 0) want \<longleftrightarrow>
      (\<forall>n<32. bit want n \<longrightarrow> (\<exists>g\<in>acl_matching_groups cur (i_gid i) go gs. bit (e_perm g) n))"
    unfolding covers_def bit_fold_or G using bit_imp_le_length [of want] by (auto simp: bit_simps)
  have us: "acl_named_ok ACL_USER us" using assms by (simp add: acl_shape_def)
  have mk: "(case find (\<lambda>x. a_tag x = 0x10) (map acl_of_wire es) of Some x \<Rightarrow> a_perm x | None \<Rightarrow> 7)
     = ucast (acl_mask_of 7 ms)"
    unfolding find_shape(1) [OF assms] by (cases ms) (auto simp: acl_mask_of_def)
  have "acl_check_entries cur (map acl_of_wire es) i want = None \<longleftrightarrow>
      (if i_uid i = ?uid then covers (ucast (e_perm uo)) want
       else (case find (\<lambda>x. e_id x = ?uid) us of
          Some u \<Rightarrow> covers (ucast (acl_mask_of 7 ms)) want \<and> covers (ucast (e_perm u)) want
        | None \<Rightarrow> (if ?G \<noteq> [] then covers (ucast (acl_mask_of 7 ms)) want
              \<and> covers (fold (\<lambda>e p. p OR ucast (e_perm e)) ?G 0) want
            else covers (ucast (e_perm ot)) want)))"
    unfolding acl_check_entries_def mk find_shape(2-4) [OF assms] acl_group_fold Let_def
    by (simp add: acl_grant_iff covers_and split: option.splits)
  also have "\<dots> \<longleftrightarrow> acl_grants cur i want uo us go gs ms ot"
    unfolding acl_named_find_ex [OF us] acl_grants_def Let_def ne cov by auto
  finally show ?thesis .
qed

subsection \<open>Trivial ACLs\<close>

definition acl_trivial_wire :: "u16 \<Rightarrow> acl_xattr_entry list" where
  "acl_trivial_wire mode =
     [\<lparr>e_tag = ACL_USER_OBJ, e_perm = drop_bit 6 mode AND 7, e_id = ACL_UNDEFINED_ID\<rparr>,
      \<lparr>e_tag = ACL_GROUP_OBJ, e_perm = drop_bit 3 mode AND 7, e_id = ACL_UNDEFINED_ID\<rparr>,
      \<lparr>e_tag = ACL_OTHER, e_perm = mode AND 7, e_id = ACL_UNDEFINED_ID\<rparr>]"

lemma acl_trivial_entries_wire:
  "acl_trivial_entries mode = map acl_of_wire (acl_trivial_wire mode)"
  by (simp add: acl_trivial_entries_def acl_trivial_wire_def acl_of_wire_def)

lemma acl_trivial_shape:
  "acl_shape (acl_trivial_wire mode) (acl_trivial_wire mode ! 0) [] (acl_trivial_wire mode ! 1) [] []
     (acl_trivial_wire mode ! 2)"
  using perm_AND7 by (auto simp: acl_shape_def acl_trivial_wire_def acl_perm_ok_def)

lemma acl_check_entries_codes:
  "acl_check_entries cur es i want \<in> {None, Some EACCES}"
  by (auto simp: acl_check_entries_def acl_grant_def Let_def split: option.splits prod.splits if_splits)

lemma acl_check_entries_cong:
  assumes "acl_check_entries cur es i want = None \<longleftrightarrow> acl_check_entries cur es' i want = None"
  shows "acl_check_entries cur es i want = acl_check_entries cur es' i want"
  using assms acl_check_entries_codes [of cur es i want] acl_check_entries_codes [of cur es' i want]
  by auto

lemma acl_equiv_loop_class:
  "acl_equiv_loop es c = Some d \<longleftrightarrow>
     d = fold acl_class_step es c \<and> list_all (\<lambda>e. e_tag e \<in> {ACL_USER_OBJ, ACL_GROUP_OBJ, ACL_MASK, ACL_OTHER}) es"
  by (induction es arbitrary: c) auto

lemma acl_equiv_mode_shape:
  assumes v: "acl_validate (Some buf) = None" and s: "acl_shape (acl_entries buf) uo us go gs ms ot"
  shows "acl_equiv_mode (Some buf) = Some m \<longleftrightarrow>
    us = [] \<and> gs = [] \<and> acl_mask_of (e_perm go) ms = e_perm go
    \<and> m = rwx_join (e_perm uo) (e_perm go) (e_perm ot)"
proof -
  from v have l: "length buf mod 8 = 0" "buf \<noteq> []" "24 \<le> length buf"
    by (auto elim: acl_valid_shape)
  let ?tags = "list_all (\<lambda>e. e_tag e \<in> {ACL_USER_OBJ, ACL_GROUP_OBJ, ACL_MASK, ACL_OTHER}) (acl_entries buf)"
  let ?c = "fold acl_class_step (acl_entries buf) acl_class_init"
  have t: "?tags \<longleftrightarrow> us = [] \<and> gs = []"
    using s unfolding acl_shape_def by (cases us; cases gs) (auto simp: acl_named_ok_Cons list_all_iff)
  have loop: "acl_equiv_loop (acl_entries buf) acl_class_init = (if ?tags then Some ?c else None)"
  proof (cases "acl_equiv_loop (acl_entries buf) acl_class_init")
    case None
    then show ?thesis using acl_equiv_loop_class [of "acl_entries buf" acl_class_init ?c] by auto
  next
    case (Some d)
    then show ?thesis using acl_equiv_loop_class [of "acl_entries buf" acl_class_init d] by auto
  qed
  have mk: "acl_mask_of (e_perm go) ms = e_perm go \<longleftrightarrow> (ms \<noteq> [] \<longrightarrow> acl_mask_of 0 ms = e_perm go)"
    by (auto simp: acl_mask_of_def split: list.splits)
  show ?thesis
    using l unfolding mk
    by (auto simp: acl_equiv_mode_def loop [unfolded t] acl_shape_class [OF s] rwx_join_def or.assoc)
qed

lemma acl_equiv_mode_sound:
  assumes v: "acl_validate (Some buf) = None" and m: "acl_equiv_mode (Some buf) = Some m"
    and i: "i_mode i AND RWX_BITS = m"
  shows "acl_check_entries cur (map acl_of_wire (acl_entries buf)) i want
    = acl_trivial_permission cur i want"
proof -
  from v obtain uo us go gs ms ot where s: "acl_shape (acl_entries buf) uo us go gs ms ot"
    by (elim acl_valid_shape)
  from m [unfolded acl_equiv_mode_shape [OF v s]] have e: "us = []" "gs = []"
    "acl_mask_of (e_perm go) ms = e_perm go" "m = rwx_join (e_perm uo) (e_perm go) (e_perm ot)"
    by auto
  note p = acl_shape_perms [OF s]
  have b: "drop_bit 6 (i_mode i) AND 7 = e_perm uo" "drop_bit 3 (i_mode i) AND 7 = e_perm go"
    "i_mode i AND 7 = e_perm ot"
    using rwx_join_bits [OF p(1-3)] i e(4) rwx_split [of "i_mode i"] rwx_join_bits
    by (metis perm_AND7)+
  have mk: "bit (acl_mask_of 7 ms) n" if "bit (e_perm go) n" for n
    using that e(3) p(2) [unfolded perm_bit_iff]
    by (auto simp: acl_mask_of_def rwx_mask bit_simps split: list.splits)
  have g: "covers (ucast (acl_mask_of 7 ms)) want \<and> (\<forall>n<32. bit want n \<longrightarrow> bit (e_perm go) n)
      \<longleftrightarrow> covers 7 want \<and> (\<forall>n<32. bit want n \<longrightarrow> bit (e_perm go) n)"
    using p(2) [unfolded perm_bit_iff] mk bit_imp_le_length [of want]
    by (auto simp: covers_def rwx_mask bit_simps)
  show ?thesis
    unfolding acl_trivial_permission_def acl_trivial_entries_wire
  proof (rule acl_check_entries_cong)
    show "acl_check_entries cur (map acl_of_wire (acl_entries buf)) i want = None \<longleftrightarrow>
        acl_check_entries cur (map acl_of_wire (acl_trivial_wire (i_mode i))) i want = None"
      unfolding acl_check_entries_grants [OF s] acl_check_entries_grants [OF acl_trivial_shape]
      using g b by (simp add: acl_grants_def Let_def e(1,2) acl_trivial_wire_def
          acl_matching_groups_def acl_mask_of_def [of 7 "[]"])
  qed
qed


subsection \<open>Default ACLs\<close>

definition acl_and_perm :: "acl_xattr_entry \<Rightarrow> u16 \<Rightarrow> acl_xattr_entry" where
  "acl_and_perm e p = e\<lparr>e_perm := e_perm e AND p\<rparr>"

lemma acl_masq_named:
  assumes "acl_named_ok t us" "t = ACL_USER \<or> t = ACL_GROUP"
  shows "acl_masq_loop n (us @ r) m =
    (us @ fst (acl_masq_loop (n + length us) r (m\<lparr>m_nontrivial := m_nontrivial m \<or> us \<noteq> []\<rparr>)),
     snd (acl_masq_loop (n + length us) r (m\<lparr>m_nontrivial := m_nontrivial m \<or> us \<noteq> []\<rparr>)))"
  using assms
proof (induction us arbitrary: n m)
  case (Cons u us)
  then have "e_tag u = t" "acl_named_ok t us" by (simp_all add: acl_named_ok_Cons)
  with Cons show ?case by (auto simp: Let_def)
qed simp

text \<open>The inherited ACL: the classes the mode bits show are intersected with the creation mode.\<close>

definition acl_masqueraded ::
    "u16 \<Rightarrow> acl_xattr_entry \<Rightarrow> acl_xattr_entry list \<Rightarrow> acl_xattr_entry \<Rightarrow> acl_xattr_entry list
     \<Rightarrow> acl_xattr_entry list \<Rightarrow> acl_xattr_entry \<Rightarrow> acl_xattr_entry list" where
  "acl_masqueraded mode uo us go gs ms ot =
     acl_and_perm uo (drop_bit 6 mode AND 7) # us
     @ (if ms = [] then acl_and_perm go (drop_bit 3 mode AND 7) else go) # gs
     @ map (\<lambda>m. acl_and_perm m (drop_bit 3 mode AND 7)) ms
     @ [acl_and_perm ot (mode AND 7)]"

definition acl_masq_mode ::
    "u16 \<Rightarrow> acl_xattr_entry \<Rightarrow> acl_xattr_entry \<Rightarrow> acl_xattr_entry list \<Rightarrow> acl_xattr_entry \<Rightarrow> u16" where
  "acl_masq_mode mode uo go ms ot =
     mode AND NOT RWX_BITS
       OR rwx_join (e_perm uo AND (drop_bit 6 mode AND 7))
            (acl_mask_of (e_perm go) ms AND (drop_bit 3 mode AND 7)) (e_perm ot AND (mode AND 7))"

lemma masq_rwx:
  fixes mode p q r :: u16
  assumes "p AND NOT 7 = 0" "q AND NOT 7 = 0" "r AND NOT 7 = 0"
  defines "w \<equiv> (mode AND RWX_BITS) AND NOT S_IRWXU OR push_bit 6 p"
  defines "x \<equiv> w AND NOT S_IRWXO OR r"
  shows "drop_bit 6 (mode AND RWX_BITS) AND 7 = drop_bit 6 mode AND 7"
    "w AND 7 = mode AND 7" "drop_bit 3 x AND 7 = drop_bit 3 mode AND 7"
    "x AND NOT S_IRWXG OR push_bit 3 q = rwx_join p q r"
proof -
  note b = assms(1-3) [unfolded perm_bit_iff, rule_format]
  show "drop_bit 6 (mode AND RWX_BITS) AND 7 = drop_bit 6 mode AND 7"
    "w AND 7 = mode AND 7" "drop_bit 3 x AND 7 = drop_bit 3 mode AND 7"
    unfolding w_def x_def
    by (rule bit_eqI; auto simp: rwx_mask bit_simps dest: b)+
  show "x AND NOT S_IRWXG OR push_bit 3 q = rwx_join p q r"
    unfolding w_def x_def rwx_join_def
  proof (rule bit_eqI)
    fix n assume "possible_bit TYPE(u16) n"
    then have n: "n < 16" by simp
    then consider "n < 3" | "3 \<le> n" "n < 6" | "6 \<le> n" "n < 9" | "9 \<le> n" by linarith
    then show "bit ((((mode AND RWX_BITS) AND NOT S_IRWXU OR push_bit 6 p) AND NOT S_IRWXO OR r)
        AND NOT S_IRWXG OR push_bit 3 q) n = bit (push_bit 6 p OR push_bit 3 q OR r) n"
      using n by cases (auto simp: rwx_mask bit_simps dest: b)
  qed
qed

lemma acl_masq_loop_shape:
  assumes "acl_shape es uo us go gs ms ot"
  defines "p \<equiv> \<lambda>m. e_perm uo AND (drop_bit 6 (m_rwx m) AND 7)"
  defines "w \<equiv> \<lambda>m. m_rwx m AND NOT S_IRWXU OR push_bit 6 (p m)"
  shows "acl_masq_loop 0 es m =
    (uo\<lparr>e_perm := p m\<rparr> # us @ go # gs @ ms @ [ot\<lparr>e_perm := e_perm ot AND (w m AND 7)\<rparr>],
     m\<lparr>m_rwx := w m AND NOT S_IRWXO OR (e_perm ot AND (w m AND 7)),
       m_group := Some (1 + length us),
       m_mask := (if ms = [] then m_mask m else Some (2 + length us + length gs)),
       m_nontrivial := m_nontrivial m \<or> us \<noteq> [] \<or> gs \<noteq> [] \<or> ms \<noteq> []\<rparr>)"
proof -
  from assms have us: "acl_named_ok ACL_USER us" and gs: "acl_named_ok ACL_GROUP gs"
    and ms: "ms = [] \<or> (\<exists>m. ms = [m] \<and> e_tag m = ACL_MASK)"
    by (cases ms; auto simp: acl_shape_def)+
  from assms(1) have es: "es = uo # us @ go # gs @ ms @ [ot]" "e_tag uo = ACL_USER_OBJ"
    "e_tag go = ACL_GROUP_OBJ" "e_tag ot = ACL_OTHER"
    by (auto simp: acl_shape_def)
  show ?thesis unfolding es(1) p_def w_def using ms
    by (cases m) (auto simp: Let_def es(2-4) acl_masq_named [OF us] acl_masq_named [OF gs])
qed

lemma perm_AND_ok: "p AND NOT 7 = 0 \<Longrightarrow> (p AND q) AND NOT 7 = (0::u16)"
  unfolding perm_bit_iff by (auto simp: bit_simps)

lemma acl_default_masq_shape:
  assumes v: "acl_validate (Some dfl) = None" and s: "acl_shape (acl_entries dfl) uo us go gs ms ot"
  shows "acl_default_masq (Some dfl) mode ACL_XATTR_SZ =
    (acl_masq_mode mode uo go ms ot, acl_bytes (acl_masqueraded mode uo us go gs ms ot), ms \<noteq> [])"
proof -
  from v have l: "length dfl mod 8 = 0" "24 \<le> length dfl" "length dfl \<le> 256"
    by (auto elim: acl_valid_shape)
  note p = acl_shape_perms [OF s]
  define P where "P = e_perm uo AND (drop_bit 6 mode AND 7)"
  define R where "R = e_perm ot AND (mode AND 7)"
  define Q where "Q = acl_mask_of (e_perm go) ms AND (drop_bit 3 mode AND 7)"
  define m0 where "m0 = \<lparr>m_rwx = mode AND RWX_BITS, m_group = None, m_mask = None, m_nontrivial = False\<rparr>"
  define x where "x = (m_rwx m0 AND NOT S_IRWXU OR push_bit 6 P) AND NOT S_IRWXO OR R"
  note r = masq_rwx [of P Q R mode, unfolded P_def Q_def R_def,
      OF perm_AND_ok [OF p(1)] perm_AND_ok [OF p(4)] perm_AND_ok [OF p(3)], folded P_def Q_def R_def]
  have X: "drop_bit 3 x AND 7 = drop_bit 3 mode AND 7" "x AND NOT S_IRWXG OR push_bit 3 Q = rwx_join P Q R"
    using r(3,4) by (simp_all only: x_def m0_def acl_masq.simps)
  have sh: "ms = [] \<longrightarrow> us = [] \<and> gs = []" "ms = [] \<or> (\<exists>m. ms = [m])"
    using s by (cases ms; auto simp: acl_shape_def)+
  have P': "e_perm uo AND (drop_bit 6 (m_rwx m0) AND 7) = P"
    by (simp only: m0_def acl_masq.simps r(1) P_def)
  have R': "e_perm ot AND ((m_rwx m0 AND NOT S_IRWXU OR push_bit 6 P) AND 7) = R"
    by (simp only: m0_def acl_masq.simps r(2) R_def)
  have loop: "acl_masq_loop 0 (acl_entries dfl) m0 =
    (uo\<lparr>e_perm := P\<rparr> # us @ go # gs @ ms @ [ot\<lparr>e_perm := R\<rparr>],
     m0\<lparr>m_rwx := x, m_group := Some (1 + length us),
       m_mask := (if ms = [] then None else Some (2 + length us + length gs)),
       m_nontrivial := us \<noteq> [] \<or> gs \<noteq> [] \<or> ms \<noteq> []\<rparr>)"
    unfolding acl_masq_loop_shape [OF s] P' R' x_def [symmetric] by (simp add: m0_def)
  have E: "acl_default_masq (Some dfl) mode ACL_XATTR_SZ =
    (let es = uo\<lparr>e_perm := P\<rparr> # us @ go # gs @ ms @ [ot\<lparr>e_perm := R\<rparr>];
         (es', rwx) = acl_masq_group (if ms = [] then 1 + length us else 2 + length us + length gs) es x
     in (mode AND NOT RWX_BITS OR rwx, acl_bytes es', ms \<noteq> []))"
    using l sh unfolding acl_default_masq_def m0_def [symmetric] loop
    by (auto simp: Let_def loop split: prod.splits)
  show ?thesis
  proof (cases ms)
    case Nil
    with sh have n: "us = []" "gs = []" "ms = []" by auto
    then have Q: "e_perm go AND (drop_bit 3 mode AND 7) = Q" by (simp add: Q_def acl_mask_of_def)
    have "acl_masq_group 1 [uo\<lparr>e_perm := P\<rparr>, go, ot\<lparr>e_perm := R\<rparr>] x =
        ([uo\<lparr>e_perm := P\<rparr>, acl_and_perm go (drop_bit 3 mode AND 7), ot\<lparr>e_perm := R\<rparr>], rwx_join P Q R)"
      unfolding acl_masq_group_def Let_def X(1) using X(2) by (simp add: Q acl_and_perm_def)
    then show ?thesis unfolding E
      by (simp add: n acl_and_perm_def acl_masqueraded_def acl_masq_mode_def P_def Q_def R_def)
  next
    case (Cons m ms')
    with sh have ms: "ms = [m]" by auto
    then have Q: "e_perm m AND (drop_bit 3 mode AND 7) = Q" by (simp add: Q_def acl_mask_of_def)
    let ?es = "uo\<lparr>e_perm := P\<rparr> # us @ go # gs @ [m] @ [ot\<lparr>e_perm := R\<rparr>]"
    let ?k = "2 + length us + length gs"
    have k: "?es ! ?k = m" "?es[?k := y] = uo\<lparr>e_perm := P\<rparr> # us @ go # gs @ [y] @ [ot\<lparr>e_perm := R\<rparr>]" for y
      by (simp_all add: nth_append list_update_append)
    have "acl_masq_group ?k ?es x = (uo\<lparr>e_perm := P\<rparr> # us @ go # gs
        @ [acl_and_perm m (drop_bit 3 mode AND 7)] @ [ot\<lparr>e_perm := R\<rparr>], rwx_join P Q R)"
      unfolding acl_masq_group_def Let_def k X(1) Q X(2) by (simp add: acl_and_perm_def Q)
    then show ?thesis unfolding E
      by (simp add: ms acl_and_perm_def acl_masqueraded_def acl_masq_mode_def P_def Q_def R_def)
  qed
qed

lemma acl_masqueraded_shape:
  assumes "acl_shape es uo us go gs ms ot"
  shows "acl_shape (acl_masqueraded mode uo us go gs ms ot)
    (acl_and_perm uo (drop_bit 6 mode AND 7)) us
    (if ms = [] then acl_and_perm go (drop_bit 3 mode AND 7) else go) gs
    (map (\<lambda>m. acl_and_perm m (drop_bit 3 mode AND 7)) ms) (acl_and_perm ot (mode AND 7))"
proof -
  have ok: "acl_perm_ok (acl_and_perm e q)" if "acl_perm_ok e" for e q
    using that perm_AND_ok by (auto simp: acl_perm_ok_def acl_and_perm_def)
  have tag: "e_tag (acl_and_perm e q) = e_tag e" for e q by (simp add: acl_and_perm_def)
  show ?thesis using assms ok unfolding acl_shape_def acl_masqueraded_def
    by (auto simp: tag list_all_iff)
qed

lemma acl_masq_mode_sub:
  "bit (acl_masq_mode mode uo go ms ot) n \<Longrightarrow> bit mode n"
  unfolding acl_masq_mode_def rwx_join_def
  by (auto simp: bit_simps rwx_mask)

lemma acl_masq_join_AND:
  fixes mode :: u16
  assumes "p AND NOT 7 = 0" "q AND NOT 7 = 0" "r AND NOT 7 = 0"
  shows "rwx_join (p AND (drop_bit 6 mode AND 7)) (q AND (drop_bit 3 mode AND 7)) (r AND (mode AND 7))
    = rwx_join p q r AND mode"
proof (rule bit_eqI)
  note b = assms [unfolded perm_bit_iff, rule_format]
  fix n assume "possible_bit TYPE(u16) n"
  then have n: "n < 16" by simp
  then consider "n < 3" | "3 \<le> n" "n < 6" | "6 \<le> n" "n < 9" | "9 \<le> n" by linarith
  then show "bit (rwx_join (p AND (drop_bit 6 mode AND 7)) (q AND (drop_bit 3 mode AND 7)) (r AND (mode AND 7))) n
    = bit (rwx_join p q r AND mode) n"
    using n by cases (auto simp: rwx_join_def bit_simps rwx_mask dest: b)
qed

subsection \<open>Properties\<close>

text \<open>A file with the owner \<open>rwx\<close>, user 1000 \<open>rw-\<close>, the group \<open>r-x\<close>, mask \<open>r--\<close>, other \<open>---\<close>.\<close>

definition acl_example :: "byte list" where
  "acl_example = acl_bytes
     [\<lparr>e_tag = 1, e_perm = 7, e_id = 0xFFFFFFFF\<rparr>, \<lparr>e_tag = 2, e_perm = 6, e_id = 1000\<rparr>,
      \<lparr>e_tag = 4, e_perm = 5, e_id = 0xFFFFFFFF\<rparr>, \<lparr>e_tag = 0x10, e_perm = 4, e_id = 0xFFFFFFFF\<rparr>,
      \<lparr>e_tag = 0x20, e_perm = 0, e_id = 0xFFFFFFFF\<rparr>]"

definition acl_example_ops :: "inode xattr_ops" where
  "acl_example_ops = \<lparr>op_getxattr = Some (\<lambda>i n sz. Inr acl_example),
     op_setxattr = Some (\<lambda>i n v f. (i, None)), op_removexattr = None\<rparr>"

definition acl_example_inode :: inode where
  "acl_example_inode = \<lparr>i_mode = 0x81C0, i_uid = 7, i_gid = 8, i_ctime = 0, i_dirty = False,
     i_rdonly = False\<rparr>"

definition acl_example_proc :: proc where
  "acl_example_proc = \<lparr>p_flags = 0, p_groups = [-1], p_uid = 1000, p_gid = 100, p_euid = 1000,
     p_egid = 100, p_fsuid = 1000, p_fsgid = 100\<rparr>"

lemma acl_example_valid: "acl_validate (Some acl_example) = None"
  by code_simp

lemma acl_example_shape: "acl_shape (acl_entries acl_example)
    \<lparr>e_tag = 1, e_perm = 7, e_id = 0xFFFFFFFF\<rparr> [\<lparr>e_tag = 2, e_perm = 6, e_id = 1000\<rparr>]
    \<lparr>e_tag = 4, e_perm = 5, e_id = 0xFFFFFFFF\<rparr> [] [\<lparr>e_tag = 0x10, e_perm = 4, e_id = 0xFFFFFFFF\<rparr>]
    \<lparr>e_tag = 0x20, e_perm = 0, e_id = 0xFFFFFFFF\<rparr>"
  by code_simp

text \<open>
  C28: \<^verbatim>\<open>acl_validate\<close> accepts a payload exactly when it is the image of 3 to 32 entries
  in canonical order: owner, named users with strictly increasing ids, owning group,
  named groups with strictly increasing ids, at most one mask, other; with permission bits
  inside \<open>rwx\<close>, no undefined id on a named entry, and a mask whenever there is a named
  entry. The grammar \<open>acl_canonical\<close> is stated over whole lists, the code is a one-pass
  scanner with flags.
\<close>

theorem acl_validate_canonical:
  "acl_validate (Some buf) = None \<longleftrightarrow>
     length buf mod ACL_ENTRY_SZ = 0 \<and> 3 \<le> length buf div ACL_ENTRY_SZ
     \<and> length buf div ACL_ENTRY_SZ \<le> ACL_MAX_ENTRIES \<and> acl_canonical (acl_entries buf)"
  by (rule acl_validate_iff)

lemma acl_permission_valid:
  assumes "op_getxattr ops = Some getx" "getx i XATTR_ACL_ACCESS ACL_XATTR_SZ = Inr buf"
    and "acl_validate (Some buf) = None" "acl_shape (acl_entries buf) uo us go gs ms ot"
  shows "acl_permission cur (Some ops) i want =
    (if acl_grants cur i want uo us go gs ms ot then None else Some EACCES)"
proof -
  from assms(3) have "buf \<noteq> []" "length buf mod 8 = 0" by (auto elim: acl_valid_shape)
  then have "acl_permission cur (Some ops) i want =
      acl_check_entries cur (map acl_of_wire (acl_entries buf)) i want"
    using assms(1-3) by (simp add: acl_permission_def)
  then show ?thesis
    using acl_check_entries_grants [OF assms(4), of cur i want]
      acl_check_entries_codes [of cur "map acl_of_wire (acl_entries buf)" i want] by auto
qed

text \<open>
  C2: with a valid stored ACL, \<^verbatim>\<open>acl_permission\<close> grants an access exactly when the algorithm of POSIX 1003.1e grants it, in
  which one entry decides (the owner entry, the caller's named entry within the mask, some matching group entry within the mask,
  the other entry), or when only several matching group entries together hold the permissions, within the mask. For a
  single permission, and for a caller who matches at most one group entry, the decision is the one of POSIX. A refusal
  is \<^verbatim>\<open>EACCES\<close>.
\<close>

theorem acl_permission_posix:
  assumes "op_getxattr ops = Some getx" "getx i XATTR_ACL_ACCESS ACL_XATTR_SZ = Inr buf"
    and "acl_validate (Some buf) = None" "acl_shape (acl_entries buf) uo us go gs ms ot"
  shows "acl_permission cur (Some ops) i want =
      (if posix_acl_grants cur i want uo us go gs ms ot \<or> acl_groups_add_up cur i want us go gs ms then None else Some EACCES)
    \<and> ((\<forall>m n. bit want m \<longrightarrow> bit want n \<longrightarrow> m = n) \<or> (\<exists>g. acl_matching_groups cur (i_gid i) go gs \<subseteq> {g}) \<longrightarrow>
       acl_permission cur (Some ops) i want = (if posix_acl_grants cur i want uo us go gs ms ot then None else Some EACCES))"
  unfolding acl_permission_valid [OF assms] acl_grants_posix using acl_one_entry_decides [of want cur i go gs us ms] by auto

theorem acl_permission_posix_witness:
  "acl_permission acl_example_proc (Some acl_example_ops) acl_example_inode TO_READ = None
   \<and> acl_permission acl_example_proc (Some acl_example_ops) acl_example_inode TO_WRITE = Some EACCES"
proof -
  note w = acl_permission_posix [of acl_example_ops "\<lambda>i n sz. Inr acl_example" acl_example_inode
      acl_example, OF _ _ acl_example_valid acl_example_shape, of acl_example_proc, THEN conjunct1]
  show ?thesis
    by (subst w; (subst w)?; simp add: acl_example_ops_def; code_simp)
qed


text \<open>
  The sum of the group entries grants more than POSIX 1003.1e: a caller in the owning group, which may read, and in a named group,
  which may write, gets both at once although no entry holds both.
\<close>

definition acl_sum_example :: "byte list" where
  "acl_sum_example = acl_bytes
     [\<lparr>e_tag = 1, e_perm = 7, e_id = 0xFFFFFFFF\<rparr>, \<lparr>e_tag = 4, e_perm = 4, e_id = 0xFFFFFFFF\<rparr>,
      \<lparr>e_tag = 8, e_perm = 2, e_id = 200\<rparr>, \<lparr>e_tag = 0x10, e_perm = 7, e_id = 0xFFFFFFFF\<rparr>,
      \<lparr>e_tag = 0x20, e_perm = 0, e_id = 0xFFFFFFFF\<rparr>]"

theorem acl_groups_summed:
  "acl_validate (Some acl_sum_example) = None
   \<and> acl_permission (acl_example_proc\<lparr>p_groups := [8, 200, -1]\<rparr>) (Some (acl_example_ops\<lparr>op_getxattr := Some (\<lambda>i n sz. Inr acl_sum_example)\<rparr>))
       acl_example_inode (TO_READ OR TO_WRITE) = None
   \<and> acl_shape (acl_entries acl_sum_example) \<lparr>e_tag = 1, e_perm = 7, e_id = 0xFFFFFFFF\<rparr> [] \<lparr>e_tag = 4, e_perm = 4, e_id = 0xFFFFFFFF\<rparr>
       [\<lparr>e_tag = 8, e_perm = 2, e_id = 200\<rparr>] [\<lparr>e_tag = 0x10, e_perm = 7, e_id = 0xFFFFFFFF\<rparr>] \<lparr>e_tag = 0x20, e_perm = 0, e_id = 0xFFFFFFFF\<rparr>
   \<and> \<not> posix_acl_grants (acl_example_proc\<lparr>p_groups := [8, 200, -1]\<rparr>) acl_example_inode (TO_READ OR TO_WRITE)
       \<lparr>e_tag = 1, e_perm = 7, e_id = 0xFFFFFFFF\<rparr> [] \<lparr>e_tag = 4, e_perm = 4, e_id = 0xFFFFFFFF\<rparr>
       [\<lparr>e_tag = 8, e_perm = 2, e_id = 200\<rparr>] [\<lparr>e_tag = 0x10, e_perm = 7, e_id = 0xFFFFFFFF\<rparr>] \<lparr>e_tag = 0x20, e_perm = 0, e_id = 0xFFFFFFFF\<rparr>"
proof (intro conjI)
  show "acl_validate (Some acl_sum_example) = None" by code_simp
  show "acl_permission (acl_example_proc\<lparr>p_groups := [8, 200, -1]\<rparr>) (Some (acl_example_ops\<lparr>op_getxattr := Some (\<lambda>i n sz. Inr acl_sum_example)\<rparr>))
       acl_example_inode (TO_READ OR TO_WRITE) = None" by code_simp
qed code_simp+

text \<open>
  The mask cannot be bypassed. When a caller who is not the owner matches a named user
  or some group entry of an ACL with a mask, every access that is granted is within the
  mask, whatever the other entry allows.
\<close>

theorem acl_mask_not_bypassed:
  assumes "op_getxattr ops = Some getx" "getx i XATTR_ACL_ACCESS ACL_XATTR_SZ = Inr buf"
    and "e \<in> set (acl_entries buf)" "e_tag e = ACL_MASK" "i_uid i \<noteq> acl_caller_uid cur"
    and "g \<in> set (acl_entries buf)"
    and "e_tag g = ACL_USER \<and> e_id g = acl_caller_uid cur
      \<or> e_tag g = ACL_GROUP_OBJ \<and> acl_in_groups cur (i_gid i)
      \<or> e_tag g = ACL_GROUP \<and> acl_in_groups cur (e_id g)"
    and "acl_permission cur (Some ops) i want = None"
  shows "covers (ucast (e_perm e)) want"
proof -
  from assms(1,2,8) have v: "acl_validate (Some buf) = None"
    by (simp add: acl_permission_def split: if_splits)
  then obtain uo us go gs ms ot where s: "acl_shape (acl_entries buf) uo us go gs ms ot"
    by (elim acl_valid_shape)
  have gr: "acl_grants cur i want uo us go gs ms ot"
    using acl_permission_valid [OF assms(1,2) v s, of cur want] assms(8) by (auto split: if_splits)
  have e: "ms = [e]" using s assms(3,4)
    by (cases ms) (auto simp: acl_shape_def acl_named_ok_def list_all_iff)
  have "(\<exists>u\<in>set us. e_id u = acl_caller_uid cur) \<or> acl_matching_groups cur (i_gid i) go gs \<noteq> {}"
    using s assms(6,7) by (auto simp: acl_shape_def acl_named_ok_def list_all_iff acl_matching_groups_def)
  then show ?thesis using gr assms(5) by (auto simp: acl_grants_def Let_def e acl_mask_of_def split: if_splits)
qed

theorem acl_mask_not_bypassed_witness:
  "covers 4 TO_READ"
proof -
  let ?m = "\<lparr>e_tag = 0x10, e_perm = 4, e_id = 0xFFFFFFFF\<rparr>" and ?u = "\<lparr>e_tag = 2, e_perm = 6, e_id = 1000\<rparr>"
  have "covers (ucast (e_perm ?m)) TO_READ"
  proof (rule acl_mask_not_bypassed [of acl_example_ops "\<lambda>i n sz. Inr acl_example"])
    show "op_getxattr acl_example_ops = Some (\<lambda>i n sz. Inr acl_example)"
      by (simp add: acl_example_ops_def)
    show "Inr acl_example = (Inr acl_example :: byte list result)" ..
    show "?m \<in> set (acl_entries acl_example)" "?u \<in> set (acl_entries acl_example)" by code_simp+
    show "i_uid acl_example_inode \<noteq> acl_caller_uid acl_example_proc" by code_simp
    show "e_tag ?u = ACL_USER \<and> e_id ?u = acl_caller_uid acl_example_proc
      \<or> e_tag ?u = ACL_GROUP_OBJ \<and> acl_in_groups acl_example_proc (i_gid acl_example_inode)
      \<or> e_tag ?u = ACL_GROUP \<and> acl_in_groups acl_example_proc (e_id ?u)" by code_simp
    show "acl_permission acl_example_proc (Some acl_example_ops) acl_example_inode TO_READ = None"
      by code_simp
  qed simp
  then show ?thesis by simp
qed

text \<open>
  An ACL that \<^verbatim>\<open>acl_equiv_mode\<close> reports as equivalent to mode bits can be dropped:
  with those mode bits on the inode, every permission decision is the same with the ACL
  stored and with none.
\<close>

theorem acl_equiv_mode_same_decisions:
  assumes "acl_validate (Some buf) = None" "acl_equiv_mode (Some buf) = Some m"
    and "i_mode i AND RWX_BITS = m"
    and "op_getxattr ops = Some getx" "getx i XATTR_ACL_ACCESS ACL_XATTR_SZ = Inr buf"
  shows "acl_permission cur (Some ops) i want = acl_permission cur None i want"
proof -
  from assms(1) have "buf \<noteq> []" "length buf mod 8 = 0" by (auto elim: acl_valid_shape)
  then show ?thesis using assms acl_equiv_mode_sound [OF assms(1-3)]
    by (simp add: acl_permission_def)
qed

definition acl_minimal :: "byte list" where
  "acl_minimal = acl_bytes (acl_trivial_wire 0x1C0)"

theorem acl_equiv_mode_same_decisions_witness:
  "acl_permission acl_example_proc (Some (acl_example_ops\<lparr>op_getxattr := Some (\<lambda>i n sz. Inr acl_minimal)\<rparr>))
     acl_example_inode TO_READ = acl_permission acl_example_proc None acl_example_inode TO_READ"
proof (rule acl_equiv_mode_same_decisions)
  show "acl_validate (Some acl_minimal) = None" "acl_equiv_mode (Some acl_minimal) = Some 0x1C0"
    "i_mode acl_example_inode AND RWX_BITS = 0x1C0"
    by code_simp+
qed simp_all

lemma acl_chmod_named:
  "filter (\<lambda>e. e_tag e = ACL_USER \<or> e_tag e = ACL_GROUP) (map (acl_chmod_entry mode hm) es)
     = filter (\<lambda>e. e_tag e = ACL_USER \<or> e_tag e = ACL_GROUP) es"
  by (induction es) (auto simp: acl_chmod_entry_def Let_def)

text \<open>
  C34: \<^verbatim>\<open>acl_chmod\<close> on a stored ACL either reports \<^verbatim>\<open>EIO\<close> because the ACL is corrupt, or
  writes one valid ACL with the same tags and ids whose named entries are untouched and
  whose projection on the mode bits is exactly the new mode.
\<close>

theorem acl_chmod_rewrites:
  assumes "op_getxattr ops = Some getx" "op_setxattr ops = Some setx"
    and "getx i XATTR_ACL_ACCESS ACL_XATTR_SZ = Inr buf"
  shows "acl_validate (Some buf) \<noteq> None \<and> acl_chmod (Some ops) i mode = (i, Some EIO)
    \<or> (\<exists>buf'. acl_chmod (Some ops) i mode = setx i XATTR_ACL_ACCESS buf' 0
         \<and> acl_validate (Some buf') = None
         \<and> acl_sync_mode i (Some buf') = i\<lparr>i_mode := i_mode i AND NOT RWX_BITS OR mode AND RWX_BITS\<rparr>
         \<and> map e_tag (acl_entries buf') = map e_tag (acl_entries buf)
         \<and> map e_id (acl_entries buf') = map e_id (acl_entries buf)
         \<and> filter (\<lambda>e. e_tag e \<in> {ACL_USER, ACL_GROUP}) (acl_entries buf')
           = filter (\<lambda>e. e_tag e \<in> {ACL_USER, ACL_GROUP}) (acl_entries buf))"
proof (cases "acl_validate (Some buf) = None")
  case True
  let ?b = "acl_bytes (acl_chmod_entries mode (acl_entries buf))"
  from True have l: "buf \<noteq> []" "length buf mod 8 = 0" "length buf \<le> 256" by (auto elim: acl_valid_shape)
  then have "length buf div 8 \<le> 32" by simp
  with l True assms have "acl_chmod (Some ops) i mode = setx i XATTR_ACL_ACCESS ?b 0"
    by (simp add: acl_chmod_def)
  moreover have "map e_tag (acl_entries ?b) = map e_tag (acl_entries buf)"
    "map e_id (acl_entries ?b) = map e_id (acl_entries buf)"
    by (simp_all add: acl_chmod_entries_def acl_chmod_entry_keeps)
  moreover have "filter (\<lambda>e. e_tag e \<in> {ACL_USER, ACL_GROUP}) (acl_entries ?b)
      = filter (\<lambda>e. e_tag e \<in> {ACL_USER, ACL_GROUP}) (acl_entries buf)"
    by (simp add: acl_chmod_entries_def acl_chmod_named)
  ultimately show ?thesis
    using acl_chmod_entries_valid [OF True, of mode] acl_chmod_entries_sync [OF True, of i mode] by blast
next
  case False
  then show ?thesis using assms by (auto simp: acl_chmod_def)
qed

theorem acl_chmod_rewrites_witness:
  "acl_chmod (Some acl_example_ops) acl_example_inode 0x1A0 = (acl_example_inode, None)"
proof -
  have "acl_validate (Some acl_example) = None" by (rule acl_example_valid)
  then show ?thesis
    using acl_chmod_rewrites [of acl_example_ops "\<lambda>i n sz. Inr acl_example" "\<lambda>i n v f. (i, None)"
        acl_example_inode acl_example, where mode = "0x1A0"] by (auto simp: acl_example_ops_def)
qed

lemma mode_recompose: "(m AND NOT 0x1FF) OR (m AND 0x1FF) = (m::u16)"
  by (rule bit_eqI) (auto simp: rwx_mask bit_simps)

text \<open>
  \<^verbatim>\<open>acl_default_masq\<close> on a valid default ACL: the inherited ACL is valid, the new
  mode is the creation mode restricted to what the default ACL shows in the mode bits, the
  inherited ACL shows exactly that mode, and when it is not stored (it is trivial) it is
  equivalent to the mode bits.
\<close>

theorem acl_default_masq_folds:
  assumes "acl_validate (Some dfl) = None"
    and "acl_default_masq (Some dfl) mode ACL_XATTR_SZ = (fmode, acc, non_trivial)"
  shows "acl_validate (Some acc) = None
    \<and> fmode = mode AND (NOT RWX_BITS OR i_mode (acl_sync_mode (i\<lparr>i_mode := 0\<rparr>) (Some dfl)))
    \<and> acl_sync_mode (i\<lparr>i_mode := fmode\<rparr>) (Some acc) = i\<lparr>i_mode := fmode\<rparr>
    \<and> (non_trivial \<or> acl_equiv_mode (Some acc) = Some (fmode AND RWX_BITS))"
proof (intro conjI)
  from assms(1) obtain uo us go gs ms ot where s: "acl_shape (acl_entries dfl) uo us go gs ms ot"
    and l: "24 \<le> length dfl" "length dfl \<le> 256" by (elim acl_valid_shape)
  let ?m = "acl_masqueraded mode uo us go gs ms ot" and ?g = "acl_mask_of (e_perm go) ms"
  note p = acl_shape_perms [OF s] and m = acl_masqueraded_shape [OF s, of mode]
  have f: "fmode = acl_masq_mode mode uo go ms ot" "acc = acl_bytes ?m" "non_trivial = (ms \<noteq> [])"
    using assms(2) [unfolded acl_default_masq_shape [OF assms(1) s]] by simp_all
  have "length ?m = length (acl_entries dfl)" using s by (auto simp: acl_shape_def acl_masqueraded_def)
  moreover have "acl_canonical ?m" using m unfolding acl_canonical_def by blast
  ultimately show v: "acl_validate (Some acc) = None" using l by (auto simp: f acl_validate_bytes)
  let ?j = "rwx_join (e_perm uo) ?g (e_perm ot)"
  have fm: "fmode = mode AND NOT RWX_BITS OR ?j AND mode"
    unfolding f(1) acl_masq_mode_def acl_masq_join_AND [OF p(1,4,3)] ..
  show "fmode = mode AND (NOT RWX_BITS OR i_mode (acl_sync_mode (i\<lparr>i_mode := 0\<rparr>) (Some dfl)))"
    unfolding fm acl_sync_mode_shape [OF assms(1) s] by (simp add: bit.conj_disj_distrib ac_simps)
  have g: "acl_mask_of (e_perm (if ms = [] then acl_and_perm go (drop_bit 3 mode AND 7) else go))
       (map (\<lambda>m. acl_and_perm m (drop_bit 3 mode AND 7)) ms) = ?g AND (drop_bit 3 mode AND 7)"
    by (auto simp: acl_mask_of_def acl_and_perm_def split: list.splits)
  have sh: "acl_shape (acl_entries acc) (acl_and_perm uo (drop_bit 6 mode AND 7)) us
    (if ms = [] then acl_and_perm go (drop_bit 3 mode AND 7) else go) gs
    (map (\<lambda>m. acl_and_perm m (drop_bit 3 mode AND 7)) ms) (acl_and_perm ot (mode AND 7))"
    using m by (simp add: f(2))
  note r = rwx_join_bits(4) [OF perm_AND_ok [OF p(1)] perm_AND_ok [OF p(4)] perm_AND_ok [OF p(3)],
      of "drop_bit 6 mode AND 7" "drop_bit 3 mode AND 7" "mode AND 7"]
  have j: "rwx_join (e_perm uo AND (drop_bit 6 mode AND 7)) (?g AND (drop_bit 3 mode AND 7))
      (e_perm ot AND (mode AND 7)) = fmode AND RWX_BITS"
    "fmode AND NOT RWX_BITS OR fmode AND RWX_BITS = fmode"
    using mode_rwx_AND(1) [OF r, of mode] mode_recompose [of fmode]
    unfolding f(1) acl_masq_mode_def by (simp_all only:)
  have e: "e_perm (acl_and_perm x y) = e_perm x AND y" for x y by (simp add: acl_and_perm_def)
  show "acl_sync_mode (i\<lparr>i_mode := fmode\<rparr>) (Some acc) = i\<lparr>i_mode := fmode\<rparr>"
    unfolding acl_sync_mode_shape [OF v sh] g e j(1) using j(2) by simp
  show "non_trivial \<or> acl_equiv_mode (Some acc) = Some (fmode AND RWX_BITS)"
  proof (cases ms)
    case Nil
    then have "us = []" "gs = []" using s by (auto simp: acl_shape_def)
    with Nil show ?thesis unfolding acl_equiv_mode_shape [OF v sh] j(1) [symmetric]
      by (simp add: acl_mask_of_def e)
  qed (simp add: f(3))
qed


theorem acl_default_masq_folds_witness:
  "acl_validate (Some (fst (snd (acl_default_masq (Some acl_example) 0x81FF ACL_XATTR_SZ)))) = None
   \<and> fst (acl_default_masq (Some acl_example) 0x81FF ACL_XATTR_SZ) = 0x81E0"
proof -
  obtain f a n where r: "acl_default_masq (Some acl_example) 0x81FF ACL_XATTR_SZ = (f, a, n)"
    by (cases "acl_default_masq (Some acl_example) 0x81FF ACL_XATTR_SZ")
  have "fst (acl_default_masq (Some acl_example) 0x81FF ACL_XATTR_SZ) = 0x81E0" by code_simp
  then show ?thesis
    using acl_default_masq_folds [OF acl_example_valid r, of acl_example_inode] by (simp add: r)
qed

end
