(* ===== verification/Xattr_Store.thy ===== *)
theory Xattr_Store
  imports Prelude
begin

text \<open>
  The interface between the attribute system calls and a file system that stores attributes:
  the three operations of \<^verbatim>\<open>struct fs_operations\<close> the calls use, with what a lookup returns
  after an update. \<open>val i n\<close> is the value of the attribute \<open>n\<close>, \<open>legal\<close> the names and \<open>fits\<close> the
  values the file system takes, \<open>env_ok\<close> the environments (memory, disk) in which no resource
  fails.
\<close>

abbreviation (input) XATTR_CREATE :: u32 where "XATTR_CREATE \<equiv> 1"
abbreviation (input) XATTR_REPLACE :: u32 where "XATTR_REPLACE \<equiv> 2"

text \<open>The answer of a read of a value: its length, the bytes when the buffer holds them.\<close>

definition xattr_give :: "nat \<Rightarrow> byte list \<Rightarrow> (nat \<times> byte list) result" where
  "xattr_give sz v = (if sz = 0 then Inr (length v, []) else if sz < length v then Inl ERANGE else Inr (length v, v))"

text \<open>The status of a set, from the presence of the attribute and the flags.\<close>

definition xattr_set_status :: "bool \<Rightarrow> u32 \<Rightarrow> status" where
  "xattr_set_status present flags =
     (if present \<and> flags AND XATTR_CREATE \<noteq> 0 then Some EEXIST
      else if \<not> present \<and> flags AND XATTR_REPLACE \<noteq> 0 then Some ENODATA
      else None)"

locale xattr_store =
  fixes env_ok :: "'e \<Rightarrow> bool"
    and ok :: "'i \<Rightarrow> bool"
    and legal :: "byte list \<Rightarrow> bool"
    and fits :: "byte list \<Rightarrow> bool"
    and val :: "'i \<Rightarrow> byte list \<Rightarrow> byte list option"
    and get :: "'e \<Rightarrow> 'i \<Rightarrow> byte list \<Rightarrow> nat \<Rightarrow> (nat \<times> byte list) result"
    and put :: "'e \<Rightarrow> 'i \<Rightarrow> byte list \<Rightarrow> byte list \<Rightarrow> u32 \<Rightarrow> 'i \<times> status"
    and del :: "'e \<Rightarrow> 'i \<Rightarrow> byte list \<Rightarrow> 'i \<times> status"
  assumes get_val: "env_ok e \<Longrightarrow> ok i \<Longrightarrow> legal n \<Longrightarrow>
      get e i n sz = (case val i n of None \<Rightarrow> Inl ENODATA | Some v \<Rightarrow> xattr_give sz v)"
    and put_val: "env_ok e \<Longrightarrow> ok i \<Longrightarrow> legal n \<Longrightarrow> fits v \<Longrightarrow> flags AND NOT (XATTR_CREATE OR XATTR_REPLACE) = 0 \<Longrightarrow>
      put e i n v flags = (i', st) \<Longrightarrow>
      st = xattr_set_status (val i n \<noteq> None) flags \<and> ok i' \<and> val i' = (if st = None then (val i)(n \<mapsto> v) else val i)"
    and del_val: "env_ok e \<Longrightarrow> ok i \<Longrightarrow> legal n \<Longrightarrow> del e i n = (i', st) \<Longrightarrow>
      st = (if val i n = None then Some ENODATA else None) \<and> ok i' \<and> val i' = (val i)(n := None)"
begin

lemma get_put_same:
  assumes "env_ok e" "env_ok e'" "ok i" "legal n" "fits v" "flags AND NOT (XATTR_CREATE OR XATTR_REPLACE) = 0"
    "put e i n v flags = (i', None)"
  shows "get e' i' n sz = xattr_give sz v"
  using get_val [OF assms(2) _ assms(4)] put_val [OF assms(1,3-7)] by simp

lemma get_put_other:
  assumes "env_ok e" "env_ok e'" "ok i" "legal n" "legal k" "k \<noteq> n" "fits v"
    "flags AND NOT (XATTR_CREATE OR XATTR_REPLACE) = 0" "put e i n v flags = (i', st)"
  shows "get e' i' k sz = get e' i k sz"
  using get_val [OF assms(2) _ assms(5)] put_val [OF assms(1,3,4,7-9)] assms(3,6) by (cases st) auto

lemma get_del:
  assumes "env_ok e" "env_ok e'" "ok i" "legal n" "legal k" "del e i n = (i', st)"
  shows "get e' i' k sz = (if k = n then Inl ENODATA else get e' i k sz)"
  using get_val [OF assms(2) _ assms(5)] del_val [OF assms(1,3,4,6)] assms(3) by auto

text \<open>A set that creates fails the second time and leaves the first value; after a removal it succeeds again.\<close>

lemma create_twice:
  assumes "env_ok e" "ok i" "legal n" "fits v" "fits w" "put e i n v XATTR_CREATE = (i', None)"
  shows "snd (put e i' n w XATTR_CREATE) = Some EEXIST" "get e (fst (put e i' n w XATTR_CREATE)) n sz = xattr_give sz v"
proof -
  have i': "ok i'" "val i' = (val i)(n \<mapsto> v)" using put_val [OF assms(1-4) _ assms(6)] by simp_all
  obtain j st where j: "put e i' n w XATTR_CREATE = (j, st)" by (cases "put e i' n w XATTR_CREATE")
  have "st = Some EEXIST" "ok j" "val j = val i'"
    using put_val [OF assms(1) i'(1) assms(3,5) _ j] i'(2) by (auto simp: xattr_set_status_def)
  then show "snd (put e i' n w XATTR_CREATE) = Some EEXIST"
    "get e (fst (put e i' n w XATTR_CREATE)) n sz = xattr_give sz v"
    using get_val [OF assms(1) _ assms(3)] i'(2) by (simp_all add: j)
qed

end

end
