(* ===== verification/Xattr_Syscalls.thy ===== *)
theory Xattr_Syscalls
  imports Acl Xattr_Store
begin

text \<open>
  The attribute system calls of \<^verbatim>\<open>kernel/syscalls/xattr.c\<close> and \<^verbatim>\<open>kernel/syscalls/chmod.c\<close>: the
  checks on names, buffers and permissions, the handling of the two ACL attributes, and the calls
  of the file system's operations. The interface \<open>acl_fs\<close> states what the calls need of a file
  system that stores attributes; the lemmas about access decisions after a change of the ACL are
  proved from it. The instance for AGFS and the properties are in \<open>Acl_On_Agfs\<close>.
\<close>

subsection \<open>Arguments from user space\<close>

text \<open>
  A buffer argument: the null pointer with a size, memory that cannot be accessed, or the bytes.
  A name argument: the null pointer, memory that cannot be read, or the string.
\<close>

datatype ubuf = UNull nat | UFault nat | UBytes "byte list"

datatype uname = NNull | NFault | NString string

abbreviation (input) XATTR_NAME_MAX :: nat where "XATTR_NAME_MAX \<equiv> 255"

definition xattr_name :: "uname \<Rightarrow> string result" where
  "xattr_name u =
     (case u of
        NNull \<Rightarrow> Inl EFAULT
      | NFault \<Rightarrow> Inl EFAULT
      | NString name \<Rightarrow>
          (if length name = 0 then Inl EINVAL
           else if length name > XATTR_NAME_MAX then Inl ERANGE
           else if CHR ''/'' \<in> set name then Inl EACCES
           else Inr name))"

subsection \<open>ACL attributes\<close>

definition is_acl_xattr :: "string \<Rightarrow> nat" where
  "is_acl_xattr name =
     (if name = XATTR_ACL_ACCESS then 1 else if name = XATTR_ACL_DEFAULT then 2 else 0)"

definition acl_xattr_gate :: "proc \<Rightarrow> ('a) inode_scheme \<Rightarrow> string \<Rightarrow> status" where
  "acl_xattr_gate cur i name =
     (if check_user_permission cur i then Some EPERM
      else if is_acl_xattr name = 2 \<and> \<not> S_ISDIR (i_mode i) then Some EINVAL
      else None)"

text \<open>The gate of every change: the ACL gate or write permission.\<close>

definition xattr_write_gate ::
    "proc \<Rightarrow> ('a) inode_scheme xattr_ops \<Rightarrow> ('a) inode_scheme \<Rightarrow> string \<Rightarrow> status" where
  "xattr_write_gate cur ops i name =
     (if is_acl_xattr name \<noteq> 0 then acl_xattr_gate cur i name
      else check_permission cur (Some ops) TO_WRITE i)"

subsection \<open>setxattr\<close>

text \<open>A trivial access ACL: the stored one is removed and the mode bits take over.\<close>

definition set_trivial_acl ::
    "u64 \<Rightarrow> ('a) inode_scheme xattr_ops \<Rightarrow> ('a) inode_scheme \<Rightarrow> string \<Rightarrow> u32 \<Rightarrow> u16 \<Rightarrow> ('a) inode_scheme \<times> status" where
  "set_trivial_acl now ops i name flags amode =
     (let present = (case op_getxattr ops of
                       None \<Rightarrow> False
                     | Some getx \<Rightarrow> (case getx i name 0 of Inl e \<Rightarrow> False | Inr v \<Rightarrow> True));
          err = (if flags AND (XATTR_CREATE OR XATTR_REPLACE) \<noteq> 0 then
                   (if flags AND XATTR_CREATE \<noteq> 0 \<and> present then Some EEXIST
                    else if flags AND XATTR_REPLACE \<noteq> 0 \<and> \<not> present then Some ENODATA
                    else None)
                 else None)
      in case err of
           Some e \<Rightarrow> (i, Some e)
         | None \<Rightarrow>
            (let (i1, st) = (case op_removexattr ops of
                               None \<Rightarrow> (i, None)
                             | Some rem \<Rightarrow>
                                (case rem i name of
                                   (i1, st) \<Rightarrow> (i1, if st = Some ENODATA \<or> st = Some EOPNOTSUPP then None else st)))
             in case st of
                  Some e \<Rightarrow> (i1, Some e)
                | None \<Rightarrow> (i1\<lparr>i_mode := i_mode i1 AND NOT RWX_BITS OR amode, i_ctime := now, i_dirty := True\<rparr>, None)))"

text \<open>The value in kernel memory.\<close>

definition set_kernel_value ::
    "u64 \<Rightarrow> ('a) inode_scheme xattr_ops \<Rightarrow> (('a) inode_scheme \<Rightarrow> string \<Rightarrow> byte list \<Rightarrow> u32 \<Rightarrow> ('a) inode_scheme \<times> status)
     \<Rightarrow> ('a) inode_scheme \<Rightarrow> string \<Rightarrow> byte list \<Rightarrow> u32 \<Rightarrow> ('a) inode_scheme \<times> status" where
  "set_kernel_value now ops setx i name kbuf flags =
     (if is_acl_xattr name \<noteq> 0 \<and> acl_validate (Some kbuf) \<noteq> None then (i, acl_validate (Some kbuf))
      else if is_acl_xattr name = 1 then
        (case acl_equiv_mode (Some kbuf) of
           Some amode \<Rightarrow> set_trivial_acl now ops i name flags amode
         | None \<Rightarrow>
            (case setx i name kbuf flags of
               (i1, None) \<Rightarrow> (acl_sync_mode i1 (Some kbuf), None)
             | (i1, Some e) \<Rightarrow> (i1, Some e)))
      else setx i name kbuf flags)"

definition do_setxattr ::
    "proc \<Rightarrow> mem \<Rightarrow> u64 \<Rightarrow> ('a) inode_scheme xattr_ops option \<Rightarrow> ('a) inode_scheme \<Rightarrow> string \<Rightarrow> ubuf \<Rightarrow> u32
     \<Rightarrow> ('a) inode_scheme \<times> status" where
  "do_setxattr cur m now fsop i name val0 flags =
     (case fsop of
        None \<Rightarrow> (i, Some EOPNOTSUPP)
      | Some ops \<Rightarrow>
         (case op_setxattr ops of
            None \<Rightarrow> (i, Some EOPNOTSUPP)
          | Some setx \<Rightarrow>
             (if i_rdonly i then (i, Some EROFS)
              else
                (case xattr_write_gate cur ops i name of
                   Some e \<Rightarrow> (i, Some e)
                 | None \<Rightarrow>
                    (case val0 of
                       UNull n \<Rightarrow>
                         (if n \<noteq> 0 then (i, Some EFAULT)
                          else if is_acl_xattr name \<noteq> 0 then (i, Some EINVAL) else setx i name [] flags)
                     | UFault n \<Rightarrow>
                         (if n \<noteq> 0 then (if \<not> kmalloc_ok m then (i, Some ENOMEM) else (i, Some EFAULT))
                          else if is_acl_xattr name \<noteq> 0 then (i, Some EINVAL) else setx i name [] flags)
                     | UBytes kbuf \<Rightarrow>
                         (if kbuf \<noteq> [] then
                            (if \<not> kmalloc_ok m then (i, Some ENOMEM)
                             else set_kernel_value now ops setx i name kbuf flags)
                          else if is_acl_xattr name \<noteq> 0 then (i, Some EINVAL) else setx i name [] flags))))))"

subsection \<open>getxattr\<close>

text \<open>
  The user's buffer is known by its size and whether it can be written; \<open>UBytes\<close> stands for a
  buffer that can be. The result is the number returned and the bytes stored in the buffer.
\<close>

definition ubuf_size :: "ubuf \<Rightarrow> nat" where
  "ubuf_size u = (case u of UNull n \<Rightarrow> n | UFault n \<Rightarrow> n | UBytes b \<Rightarrow> length b)"

definition ubuf_fault :: "ubuf \<Rightarrow> bool" where
  "ubuf_fault u = (case u of UFault n \<Rightarrow> n \<noteq> 0 | _ \<Rightarrow> False)"

definition ubuf_query :: "ubuf \<Rightarrow> bool" where
  "ubuf_query u = (case u of UNull n \<Rightarrow> True | UFault n \<Rightarrow> n = 0 | UBytes b \<Rightarrow> b = [])"

text \<open>What a file system's answer means for the caller: a length, with the bytes unless it was a query.\<close>

definition fs_answer :: "ubuf \<Rightarrow> byte list result \<Rightarrow> (nat \<times> byte list) result" where
  "fs_answer u r =
     (case r of Inl e \<Rightarrow> Inl e | Inr v \<Rightarrow> Inr (length v, if ubuf_query u then [] else v))"

definition fs_size :: "ubuf \<Rightarrow> nat" where
  "fs_size u = (if ubuf_query u then 0 else ubuf_size u)"

text \<open>The three-entry ACL of the mode bits.\<close>

definition acl_synthesized :: "u16 \<Rightarrow> byte list" where
  "acl_synthesized mode = acl_bytes
     [\<lparr>e_tag = ACL_USER_OBJ, e_perm = drop_bit 6 mode AND 7, e_id = ACL_UNDEFINED_ID\<rparr>,
      \<lparr>e_tag = ACL_GROUP_OBJ, e_perm = drop_bit 3 mode AND 7, e_id = ACL_UNDEFINED_ID\<rparr>,
      \<lparr>e_tag = ACL_OTHER, e_perm = mode AND 7, e_id = ACL_UNDEFINED_ID\<rparr>]"

definition do_getxattr ::
    "proc \<Rightarrow> ('a) inode_scheme xattr_ops option \<Rightarrow> ('a) inode_scheme \<Rightarrow> string \<Rightarrow> ubuf \<Rightarrow> (nat \<times> byte list) result" where
  "do_getxattr cur fsop i name u =
     (let getx = (case fsop of None \<Rightarrow> None | Some ops \<Rightarrow> op_getxattr ops) in
      if is_acl_xattr name \<noteq> 0 then
        (if ubuf_fault u then Inl EFAULT
         else
           (case (case getx of None \<Rightarrow> Inl ENODATA | Some g \<Rightarrow> g i name (fs_size u)) of
              Inl e \<Rightarrow>
                (if e = ENODATA \<or> e = EOPNOTSUPP then
                   (if is_acl_xattr name \<noteq> 1 then Inl ENODATA
                    else if ubuf_query u then Inr (24, [])
                    else if ubuf_size u < 24 then Inl ERANGE
                    else Inr (24, acl_synthesized (i_mode i)))
                 else Inl e)
            | Inr v \<Rightarrow> fs_answer u (Inr v)))
      else
        (case getx of
           None \<Rightarrow> Inl EOPNOTSUPP
         | Some g \<Rightarrow>
            (case check_permission cur fsop TO_READ i of
               Some e \<Rightarrow> Inl e
             | None \<Rightarrow>
                (if ubuf_fault u then Inl EFAULT else fs_answer u (g i name (fs_size u))))))"

subsection \<open>listxattr and removexattr\<close>

definition do_listxattr ::
    "('i \<Rightarrow> nat \<Rightarrow> (nat \<times> byte list) result) option \<Rightarrow> 'i \<Rightarrow> ubuf \<Rightarrow> (nat \<times> byte list) result" where
  "do_listxattr listx i u =
     (case listx of
        None \<Rightarrow> Inl EOPNOTSUPP
      | Some l \<Rightarrow>
         (case u of
            UNull n \<Rightarrow> l i 0
          | UFault n \<Rightarrow> if n \<noteq> 0 then Inl EFAULT else l i 0
          | UBytes b \<Rightarrow> l i (length b)))"

definition do_removexattr ::
    "proc \<Rightarrow> ('a) inode_scheme xattr_ops option \<Rightarrow> ('a) inode_scheme \<Rightarrow> string \<Rightarrow> ('a) inode_scheme \<times> status" where
  "do_removexattr cur fsop i name =
     (case fsop of
        None \<Rightarrow> (i, Some EOPNOTSUPP)
      | Some ops \<Rightarrow>
         (case op_removexattr ops of
            None \<Rightarrow> (i, Some EOPNOTSUPP)
          | Some rem \<Rightarrow>
             (if i_rdonly i then (i, Some EROFS)
              else
                (case xattr_write_gate cur ops i name of
                   Some e \<Rightarrow> (i, Some e)
                 | None \<Rightarrow> rem i name))))"

subsection \<open>The system calls\<close>

text \<open>
  The inodes by number, and the two ways a call names one: a path, resolved by \<^verbatim>\<open>namei\<close> with or
  without following a last symbolic link, or a file descriptor of the caller.
\<close>

record 'i vfs =
  vfs_inode :: "nat \<Rightarrow> 'i"
  vfs_namei :: "string \<Rightarrow> bool \<Rightarrow> nat result"
  vfs_fd :: "nat \<Rightarrow> nat result"

datatype target = TPath string bool | TFd nat

definition xattr_target :: "'i vfs \<Rightarrow> target \<Rightarrow> nat result" where
  "xattr_target v t = (case t of TPath p follow \<Rightarrow> vfs_namei v p follow | TFd fd \<Rightarrow> vfs_fd v fd)"

definition sys_setxattr ::
    "proc \<Rightarrow> mem \<Rightarrow> u64 \<Rightarrow> ('a) inode_scheme xattr_ops option \<Rightarrow> ('a) inode_scheme vfs \<Rightarrow> target \<Rightarrow> uname \<Rightarrow> ubuf \<Rightarrow> u32
     \<Rightarrow> ('a) inode_scheme vfs \<times> status" where
  "sys_setxattr cur m now fsop v t name val0 flags =
     (case xattr_name name of
        Inl e \<Rightarrow> (v, Some e)
      | Inr kname \<Rightarrow>
         (case xattr_target v t of
            Inl e \<Rightarrow> (v, Some e)
          | Inr ino \<Rightarrow>
             (case do_setxattr cur m now fsop (vfs_inode v ino) kname val0 flags of
                (i, st) \<Rightarrow> (v\<lparr>vfs_inode := (vfs_inode v)(ino := i)\<rparr>, st))))"

definition sys_getxattr ::
    "proc \<Rightarrow> ('a) inode_scheme xattr_ops option \<Rightarrow> ('a) inode_scheme vfs \<Rightarrow> target \<Rightarrow> uname \<Rightarrow> ubuf
     \<Rightarrow> (nat \<times> byte list) result" where
  "sys_getxattr cur fsop v t name u =
     (case xattr_name name of
        Inl e \<Rightarrow> Inl e
      | Inr kname \<Rightarrow>
         (case xattr_target v t of
            Inl e \<Rightarrow> Inl e
          | Inr ino \<Rightarrow> do_getxattr cur fsop (vfs_inode v ino) kname u))"

definition sys_listxattr ::
    "('i \<Rightarrow> nat \<Rightarrow> (nat \<times> byte list) result) option \<Rightarrow> 'i vfs \<Rightarrow> target \<Rightarrow> ubuf \<Rightarrow> (nat \<times> byte list) result" where
  "sys_listxattr listx v t u =
     (case xattr_target v t of
        Inl e \<Rightarrow> Inl e
      | Inr ino \<Rightarrow> do_listxattr listx (vfs_inode v ino) u)"

definition sys_removexattr ::
    "proc \<Rightarrow> ('a) inode_scheme xattr_ops option \<Rightarrow> ('a) inode_scheme vfs \<Rightarrow> target \<Rightarrow> uname
     \<Rightarrow> ('a) inode_scheme vfs \<times> status" where
  "sys_removexattr cur fsop v t name =
     (case xattr_name name of
        Inl e \<Rightarrow> (v, Some e)
      | Inr kname \<Rightarrow>
         (case xattr_target v t of
            Inl e \<Rightarrow> (v, Some e)
          | Inr ino \<Rightarrow>
             (case do_removexattr cur fsop (vfs_inode v ino) kname of
                (i, st) \<Rightarrow> (v\<lparr>vfs_inode := (vfs_inode v)(ino := i)\<rparr>, st))))"

subsection \<open>chmod\<close>

definition chmod_inode ::
    "proc \<Rightarrow> u64 \<Rightarrow> ('a) inode_scheme xattr_ops option \<Rightarrow> ('a) inode_scheme \<Rightarrow> u16 \<Rightarrow> ('a) inode_scheme \<times> status" where
  "chmod_inode cur now fsop i mode =
     (if i_rdonly i then (i, Some EROFS)
      else if check_user_permission cur i then (i, Some EPERM)
      else
        (case acl_chmod fsop i mode of
           (i1, Some e) \<Rightarrow> (i1, Some e)
         | (i1, None) \<Rightarrow>
             (i1\<lparr>i_mode := i_mode i1 AND S_IFMT OR mode AND NOT S_IFMT, i_ctime := now, i_dirty := True\<rparr>, None)))"

definition sys_chmod ::
    "proc \<Rightarrow> u64 \<Rightarrow> ('a) inode_scheme xattr_ops option \<Rightarrow> ('a) inode_scheme vfs \<Rightarrow> string \<Rightarrow> u16
     \<Rightarrow> ('a) inode_scheme vfs \<times> status" where
  "sys_chmod cur now fsop v path mode =
     (case vfs_namei v path True of
        Inl e \<Rightarrow> (v, Some e)
      | Inr ino \<Rightarrow>
         (case chmod_inode cur now fsop (vfs_inode v ino) mode of
            (i, st) \<Rightarrow> (v\<lparr>vfs_inode := (vfs_inode v)(ino := i)\<rparr>, st)))"

subsection \<open>A file system behind the calls\<close>

text \<open>
  The operations the calls see, over a store whose names are byte lists. The value stands for the
  number a read returns: a query of the length yields any bytes of that length.
\<close>

definition name_bytes :: "string \<Rightarrow> byte list" where
  "name_bytes s = map (\<lambda>c. of_nat (of_char c)) s"

definition fs_value :: "nat \<Rightarrow> (nat \<times> byte list) result \<Rightarrow> byte list result" where
  "fs_value sz r = (case r of Inl e \<Rightarrow> Inl e | Inr (n, b) \<Rightarrow> Inr (if sz = 0 then replicate n 0 else b))"

definition xattr_ops_of ::
    "('i \<Rightarrow> byte list \<Rightarrow> nat \<Rightarrow> (nat \<times> byte list) result) \<Rightarrow> ('i \<Rightarrow> byte list \<Rightarrow> byte list \<Rightarrow> u32 \<Rightarrow> 'i \<times> status)
     \<Rightarrow> ('i \<Rightarrow> byte list \<Rightarrow> 'i \<times> status) \<Rightarrow> 'i xattr_ops" where
  "xattr_ops_of g p d =
     \<lparr>op_getxattr = Some (\<lambda>i n sz. fs_value sz (g i (name_bytes n) sz)),
      op_setxattr = Some (\<lambda>i n v f. p i (name_bytes n) v f),
      op_removexattr = Some (\<lambda>i n. d i (name_bytes n))\<rparr>"

lemma xattr_ops_of_sel [simp]:
  "op_getxattr (xattr_ops_of g p d) = Some (\<lambda>i n sz. fs_value sz (g i (name_bytes n) sz))"
  "op_setxattr (xattr_ops_of g p d) = Some (\<lambda>i n v f. p i (name_bytes n) v f)"
  "op_removexattr (xattr_ops_of g p d) = Some (\<lambda>i n. d i (name_bytes n))"
  by (simp_all add: xattr_ops_of_def)

lemma name_bytes_inj: "name_bytes s = name_bytes t \<longleftrightarrow> s = t"
proof -
  have "inj (\<lambda>c. of_nat (of_char c) :: byte)"
  proof (rule injI)
    fix x y :: char
    assume "(of_nat (of_char x) :: byte) = of_nat (of_char y)"
    then have "unat (of_nat (of_char x) :: byte) = unat (of_nat (of_char y) :: byte)" by simp
    then show "x = y" unfolding unat_of_nat_byte of_char_mod_256 by simp
  qed
  then show ?thesis by (simp add: name_bytes_def inj_map_eq_map)
qed

text \<open>The access decision an ACL stands for, with the superuser's exemption.\<close>

definition acl_decides :: "byte list \<Rightarrow> proc \<Rightarrow> ('a) inode_scheme \<Rightarrow> u32 \<Rightarrow> status" where
  "acl_decides buf cur i want =
     (if (if use_real cur then p_uid cur else p_fsuid cur) = 0 then None
      else acl_check_entries cur (map acl_of_wire (acl_entries buf)) i want)"

text \<open>The mode bits are a true view of the ACL.\<close>

definition acl_shown :: "('a) inode_scheme \<Rightarrow> byte list \<Rightarrow> bool" where
  "acl_shown i buf \<longleftrightarrow> acl_validate (Some buf) = None \<and> acl_sync_mode i (Some buf) = i"

definition acl_synced :: "byte list option \<Rightarrow> ('a) inode_scheme \<Rightarrow> bool" where
  "acl_synced acl i \<longleftrightarrow> (case acl of None \<Rightarrow> True | Some buf \<Rightarrow> acl_shown i buf)"

lemma acl_valid_length: "acl_validate (Some buf) = None \<Longrightarrow> 24 \<le> length buf \<and> length buf \<le> 256 \<and> length buf mod 8 = 0"
  by (auto elim: acl_valid_shape)

lemma acl_shown_iff:
  assumes "acl_validate (Some buf) = None" "acl_shape (acl_entries buf) uo us go gs ms ot"
  shows "acl_shown i buf \<longleftrightarrow> i_mode i AND RWX_BITS = rwx_join (e_perm uo) (acl_mask_of (e_perm go) ms) (e_perm ot)"
proof -
  let ?r = "rwx_join (e_perm uo) (acl_mask_of (e_perm go) ms) (e_perm ot)"
  note p = acl_shape_perms [OF assms(2)]
  have r: "?r AND RWX_BITS = ?r" using rwx_join_bits(4) [OF p(1,4,3)] .
  have "acl_sync_mode i (Some buf) = i \<longleftrightarrow> i_mode i AND NOT RWX_BITS OR ?r = i_mode i"
    unfolding acl_sync_mode_shape [OF assms] by (cases i) auto
  also have "\<dots> \<longleftrightarrow> i_mode i AND RWX_BITS = ?r"
    using mode_rwx_AND(1) [OF r, of "i_mode i"] mode_recompose [of "i_mode i"] by auto
  finally show ?thesis using assms(1) by (simp add: acl_shown_def)
qed

lemma acl_shown_sync:
  assumes "acl_validate (Some buf) = None"
  shows "acl_shown (acl_sync_mode i (Some buf)) buf"
proof -
  obtain uo us go gs ms ot where s: "acl_shape (acl_entries buf) uo us go gs ms ot"
    using assms by (elim acl_valid_shape)
  note p = acl_shape_perms [OF s]
  show ?thesis unfolding acl_shown_iff [OF assms s]
    using mode_rwx_AND(1) [OF rwx_join_bits(4) [OF p(1,4,3)], of "i_mode i"]
    by (simp add: acl_sync_mode_shape [OF assms s])
qed

lemma acl_shown_mode_cong:
  assumes "acl_validate (Some buf) = None" "i_mode i' AND RWX_BITS = i_mode i AND RWX_BITS"
  shows "acl_shown i' buf = acl_shown i buf"
proof -
  obtain uo us go gs ms ot where s: "acl_shape (acl_entries buf) uo us go gs ms ot"
    using assms(1) by (elim acl_valid_shape)
  show ?thesis unfolding acl_shown_iff [OF assms(1) s] using assms(2) by simp
qed

lemma acl_chmod_entries_shown:
  assumes "acl_validate (Some buf) = None" "i_mode i AND RWX_BITS = mode AND RWX_BITS"
  shows "acl_shown i (acl_bytes (acl_chmod_entries mode (acl_entries buf)))"
proof -
  have "i\<lparr>i_mode := i_mode i AND NOT RWX_BITS OR mode AND RWX_BITS\<rparr> = i"
    using mode_recompose [of "i_mode i"] assms(2) by (cases i) simp
  then show ?thesis
    using acl_chmod_entries_valid [OF assms(1), of mode] acl_chmod_entries_sync [OF assms(1), of i mode]
    by (simp add: acl_shown_def)
qed

lemma acl_check_entries_meta:
  "i_uid i' = i_uid i \<Longrightarrow> i_gid i' = i_gid i \<Longrightarrow> acl_check_entries cur es i' want = acl_check_entries cur es i want"
  by (simp only: acl_check_entries_def)

subsection \<open>The interface of the file system\<close>

locale acl_fs = xattr_store env_ok ok legal fits val get put del
  for env_ok :: "'e \<Rightarrow> bool" and ok :: "('a) inode_scheme \<Rightarrow> bool" and legal fits val get put del +
  assumes put_meta: "put e i n v flags = (i', st) \<Longrightarrow>
      i_mode i' = i_mode i \<and> i_uid i' = i_uid i \<and> i_gid i' = i_gid i \<and> i_rdonly i' = i_rdonly i"
    and del_meta: "del e i n = (i', st) \<Longrightarrow>
      i_mode i' = i_mode i \<and> i_uid i' = i_uid i \<and> i_gid i' = i_gid i \<and> i_rdonly i' = i_rdonly i"
    and ok_meta: "ok (i\<lparr>i_mode := w\<rparr>) = ok i" "ok (i\<lparr>i_ctime := t\<rparr>) = ok i" "ok (i\<lparr>i_dirty := b\<rparr>) = ok i"
    and val_meta: "val (i\<lparr>i_mode := w\<rparr>) = val i" "val (i\<lparr>i_ctime := t\<rparr>) = val i" "val (i\<lparr>i_dirty := b\<rparr>) = val i"
    and legal_acl: "legal (name_bytes XATTR_ACL_ACCESS)" "legal (name_bytes XATTR_ACL_DEFAULT)"
    and fits_acl: "length v \<le> ACL_XATTR_SZ \<Longrightarrow> fits v"
begin

abbreviation fsops where "fsops e \<equiv> Some (xattr_ops_of (get e) (put e) (del e))"

text \<open>The stored access ACL.\<close>

abbreviation acl_of where "acl_of i \<equiv> val i (name_bytes XATTR_ACL_ACCESS)"

lemma read_acl:
  assumes "env_ok e" "ok i"
  shows "fs_value ACL_XATTR_SZ (get e i (name_bytes XATTR_ACL_ACCESS) ACL_XATTR_SZ) =
    (case acl_of i of None \<Rightarrow> Inl ENODATA | Some v \<Rightarrow> if 256 < length v then Inl ERANGE else Inr v)"
  using get_val [OF assms legal_acl(1)] by (simp add: fs_value_def xattr_give_def split: option.split)

lemma check_permission_stored:
  assumes "env_ok e" "ok i" "acl_of i = Some buf" "acl_validate (Some buf) = None"
  shows "check_permission cur (fsops e) want i = acl_decides buf cur i want"
  using read_acl [OF assms(1,2)] assms(3,4) acl_valid_length [OF assms(4)]
  by (auto simp: check_permission_def acl_permission_def acl_decides_def Let_def)

lemma check_permission_mode:
  assumes "env_ok e" "ok i" "acl_of i = None"
  shows "check_permission cur (fsops e) want i =
    (if (if use_real cur then p_uid cur else p_fsuid cur) = 0 then None else acl_trivial_permission cur i want)"
  using read_acl [OF assms(1,2)] assms(3) by (simp add: check_permission_def acl_permission_def Let_def)

lemma set_trivial:
  assumes "env_ok e" "ok i" "flags AND NOT (XATTR_CREATE OR XATTR_REPLACE) = 0"
    "set_trivial_acl now (the (fsops e)) i XATTR_ACL_ACCESS flags amode = (i', st)" "amode AND RWX_BITS = amode"
  shows "st = xattr_set_status (acl_of i \<noteq> None) flags" "ok i'"
    "st = None \<Longrightarrow> val i' = (val i)(name_bytes XATTR_ACL_ACCESS := None) \<and> i_mode i' AND RWX_BITS = amode \<and> i_uid i' = i_uid i \<and> i_gid i' = i_gid i"
    "st \<noteq> None \<Longrightarrow> i' = i"
proof -
  let ?n = "name_bytes XATTR_ACL_ACCESS"
  obtain i1 st1 where d: "del e i ?n = (i1, st1)" by (cases "del e i ?n")
  note dv = del_val [OF assms(1,2) legal_acl(1) d]
  have st1: "(if st1 = Some ENODATA \<or> st1 = Some EOPNOTSUPP then None else st1) = None" using dv by simp
  have p: "(case fs_value 0 (get e i ?n 0) of Inl e \<Rightarrow> False | Inr v \<Rightarrow> True) = (acl_of i \<noteq> None)"
    using get_val [OF assms(1,2) legal_acl(1)] by (simp add: fs_value_def xattr_give_def split: option.split)
  have f: "flags AND (XATTR_CREATE OR XATTR_REPLACE) = 0 \<Longrightarrow> flags AND XATTR_CREATE = 0 \<and> flags AND XATTR_REPLACE = 0"
    by (metis (no_types) and.assoc and_zero_eq bit.conj_zero_left zero_and_eq and.right_idem or_eq_not_not_and word_bw_comms(1) word_ao_absorbs(3) word_ao_absorbs(7))
  have s: "set_trivial_acl now (the (fsops e)) i XATTR_ACL_ACCESS flags amode =
    (case xattr_set_status (acl_of i \<noteq> None) flags of Some x \<Rightarrow> (i, Some x)
     | None \<Rightarrow> (i1\<lparr>i_mode := i_mode i1 AND NOT RWX_BITS OR amode, i_ctime := now, i_dirty := True\<rparr>, None))"
    using f by (simp add: set_trivial_acl_def p d st1 xattr_set_status_def Let_def)
  show "st = xattr_set_status (acl_of i \<noteq> None) flags" using s assms(4) by (auto split: option.splits)
  show "ok i'" using s assms(2,4) dv by (auto simp: ok_meta split: option.splits)
  show "st \<noteq> None \<Longrightarrow> i' = i" using s assms(4) by (auto split: option.splits)
  show "st = None \<Longrightarrow> val i' = (val i)(?n := None) \<and> i_mode i' AND RWX_BITS = amode \<and> i_uid i' = i_uid i \<and> i_gid i' = i_gid i"
    using s assms(4) dv del_meta [OF d] mode_rwx_AND(1) [OF assms(5), of "i_mode i1"] by (auto simp: val_meta split: option.splits)
qed

end

lemma acl_equiv_mode_rwx:
  assumes "acl_validate (Some buf) = None" "acl_equiv_mode (Some buf) = Some w"
  shows "w AND RWX_BITS = w"
proof -
  obtain uo us go gs ms ot where s: "acl_shape (acl_entries buf) uo us go gs ms ot"
    using assms(1) by (elim acl_valid_shape)
  note p = acl_shape_perms [OF s]
  show ?thesis using assms(2) rwx_join_bits(4) [OF p(1-3)] by (simp add: acl_equiv_mode_shape [OF assms(1) s])
qed

text \<open>What a successful set goes through, and what a failing one leaves.\<close>

lemma do_setxattr_passed:
  assumes "do_setxattr cur m now (Some ops) i name u flags = (i', None)" "is_acl_xattr name \<noteq> 0"
  shows "\<exists>setx buf. op_setxattr ops = Some setx \<and> u = UBytes buf \<and> buf \<noteq> [] \<and> acl_validate (Some buf) = None
    \<and> \<not> i_rdonly i \<and> acl_xattr_gate cur i name = None \<and> set_kernel_value now ops setx i name buf flags = (i', None)"
  using assms
  by (auto simp: do_setxattr_def xattr_write_gate_def set_kernel_value_def
      split: option.splits ubuf.splits if_splits)

lemma name_access [simp]: "is_acl_xattr XATTR_ACL_ACCESS = 1" "is_acl_xattr XATTR_ACL_DEFAULT = 2"
  by (simp_all add: is_acl_xattr_def XATTR_ACL_ACCESS_def XATTR_ACL_DEFAULT_def)

lemma acl_sync_mode_meta:
  "i_uid (acl_sync_mode i b) = i_uid i" "i_gid (acl_sync_mode i b) = i_gid i" "\<exists>w. acl_sync_mode i b = i\<lparr>i_mode := w\<rparr>"
proof -
  show w: "\<exists>w. acl_sync_mode i b = i\<lparr>i_mode := w\<rparr>"
  proof (cases "\<exists>buf. b = Some buf \<and> \<not> (length buf = 0 \<or> length buf mod ACL_ENTRY_SZ \<noteq> 0)")
    case True
    then show ?thesis by (auto simp: acl_sync_mode_def Let_def)
  next
    case False
    then have "acl_sync_mode i b = i" by (auto simp: acl_sync_mode_def split: option.splits)
    moreover have "i = i\<lparr>i_mode := i_mode i\<rparr>" by simp
    ultimately show ?thesis by metis
  qed
  then show "i_uid (acl_sync_mode i b) = i_uid i" "i_gid (acl_sync_mode i b) = i_gid i" by auto
qed

context acl_fs
begin

lemma set_kernel_access:
  assumes "env_ok e" "ok i" "flags AND NOT (XATTR_CREATE OR XATTR_REPLACE) = 0" "acl_validate (Some buf) = None"
    "set_kernel_value now (the (fsops e)) (\<lambda>i n. put e i (name_bytes n)) i XATTR_ACL_ACCESS buf flags = (i', st)"
  shows "ok i'" "st \<noteq> None \<Longrightarrow> val i' = val i \<and> i_mode i' = i_mode i"
    "st = None \<Longrightarrow> (acl_equiv_mode (Some buf) = None \<and> val i' = (val i)(name_bytes XATTR_ACL_ACCESS \<mapsto> buf) \<and> acl_shown i' buf
      \<or> acl_equiv_mode (Some buf) = Some (i_mode i' AND RWX_BITS) \<and> val i' = (val i)(name_bytes XATTR_ACL_ACCESS := None))"
proof -
  have "ok i' \<and> (st \<noteq> None \<longrightarrow> val i' = val i \<and> i_mode i' = i_mode i) \<and>
    (st = None \<longrightarrow> acl_equiv_mode (Some buf) = None \<and> val i' = (val i)(name_bytes XATTR_ACL_ACCESS \<mapsto> buf) \<and> acl_shown i' buf
      \<or> acl_equiv_mode (Some buf) = Some (i_mode i' AND RWX_BITS) \<and> val i' = (val i)(name_bytes XATTR_ACL_ACCESS := None))"
  proof (cases "acl_equiv_mode (Some buf)")
    case (Some w)
    then have "set_trivial_acl now (the (fsops e)) i XATTR_ACL_ACCESS flags w = (i', st)"
      using assms(4,5) by (simp add: set_kernel_value_def)
    note t = set_trivial [OF assms(1-3) this acl_equiv_mode_rwx [OF assms(4) Some]]
    show ?thesis using t Some by auto
  next
    case None
    obtain i1 st1 where p: "put e i (name_bytes XATTR_ACL_ACCESS) buf flags = (i1, st1)"
      by (cases "put e i (name_bytes XATTR_ACL_ACCESS) buf flags")
    have fit: "fits buf" using acl_valid_length [OF assms(4)] by (intro fits_acl) simp
    note pv = put_val [OF assms(1,2) legal_acl(1) fit assms(3) p]
    obtain w where w: "acl_sync_mode i1 (Some buf) = i1\<lparr>i_mode := w\<rparr>" using acl_sync_mode_meta(3) by blast
    have r: "(i', st) = (case st1 of None \<Rightarrow> (acl_sync_mode i1 (Some buf), None) | Some x \<Rightarrow> (i1, Some x))"
      using assms(4,5) None p by (simp add: set_kernel_value_def)
    show ?thesis
    proof (cases st1)
      case N: None
      then have "i' = acl_sync_mode i1 (Some buf)" "st = None" using r by simp_all
      moreover have "acl_shown (acl_sync_mode i1 (Some buf)) buf" by (rule acl_shown_sync [OF assms(4)])
      moreover have "val (i1\<lparr>i_mode := w\<rparr>) = (val i)(name_bytes XATTR_ACL_ACCESS \<mapsto> buf)" "ok (i1\<lparr>i_mode := w\<rparr>)"
        using pv N by (simp_all add: val_meta ok_meta)
      ultimately show ?thesis using None w by simp
    next
      case (Some x)
      then show ?thesis using r pv put_meta [OF p] by simp
    qed
  qed
  then show "ok i'" "st \<noteq> None \<Longrightarrow> val i' = val i \<and> i_mode i' = i_mode i"
    "st = None \<Longrightarrow> (acl_equiv_mode (Some buf) = None \<and> val i' = (val i)(name_bytes XATTR_ACL_ACCESS \<mapsto> buf) \<and> acl_shown i' buf
      \<or> acl_equiv_mode (Some buf) = Some (i_mode i' AND RWX_BITS) \<and> val i' = (val i)(name_bytes XATTR_ACL_ACCESS := None))"
    by simp_all
qed

text \<open>Every later access check decides by the ACL that was set, stored or compressed into the mode.\<close>

lemma set_acl_decides:
  assumes "env_ok e" "env_ok e'" "ok i" "flags AND NOT (XATTR_CREATE OR XATTR_REPLACE) = 0"
    "do_setxattr cur m now (fsops e) i XATTR_ACL_ACCESS (UBytes buf) flags = (i', None)"
  shows "check_permission cur' (fsops e') want i' = acl_decides buf cur' i' want"
    "ok i'" "\<And>n. n \<noteq> name_bytes XATTR_ACL_ACCESS \<Longrightarrow> val i' n = val i n"
proof -
  have v: "acl_validate (Some buf) = None" and k: "set_kernel_value now (the (fsops e)) (\<lambda>i n. put e i (name_bytes n)) i XATTR_ACL_ACCESS buf flags = (i', None)"
    using do_setxattr_passed [OF assms(5)] by auto
  note s = set_kernel_access [OF assms(1,3,4) v k]
  show "ok i'" by (rule s(1))
  show "\<And>n. n \<noteq> name_bytes XATTR_ACL_ACCESS \<Longrightarrow> val i' n = val i n" using s(3) by auto
  from s(3) consider (stored) "val i' = (val i)(name_bytes XATTR_ACL_ACCESS \<mapsto> buf)"
    | (mode) "acl_equiv_mode (Some buf) = Some (i_mode i' AND RWX_BITS)" "val i' = (val i)(name_bytes XATTR_ACL_ACCESS := None)"
    by blast
  then show "check_permission cur' (fsops e') want i' = acl_decides buf cur' i' want"
  proof cases
    case stored
    then show ?thesis using check_permission_stored [OF assms(2) s(1) _ v] by simp
  next
    case mode
    have "acl_check_entries cur' (map acl_of_wire (acl_entries buf)) i' want = acl_trivial_permission cur' i' want"
      by (rule acl_equiv_mode_sound [OF v mode(1) refl])
    then show ?thesis using check_permission_mode [OF assms(2) s(1)] mode(2) by (simp add: acl_decides_def)
  qed
qed

text \<open>The calls keep the mode bits a true view of the stored ACL.\<close>

lemma put_other_synced:
  assumes "env_ok e" "ok i" "acl_synced (acl_of i) i" "legal n" "n \<noteq> name_bytes XATTR_ACL_ACCESS" "fits v"
    "flags AND NOT (XATTR_CREATE OR XATTR_REPLACE) = 0" "put e i n v flags = (i', st)"
  shows "ok i' \<and> acl_synced (acl_of i') i'"
proof -
  note p = put_val [OF assms(1,2,4,6-8)] put_meta [OF assms(8)]
  have "acl_of i' = acl_of i" using p assms(5) by (cases st) auto
  then show ?thesis using p assms(3) acl_shown_mode_cong [of _ i' i]
    by (auto simp: acl_synced_def acl_shown_def split: option.splits)
qed

lemma do_setxattr_synced:
  assumes "env_ok e" "ok i" "acl_synced (acl_of i) i" "legal (name_bytes name)"
    "\<And>b. u = UBytes b \<Longrightarrow> fits b" "fits []"
    "flags AND NOT (XATTR_CREATE OR XATTR_REPLACE) = 0" "do_setxattr cur m now (fsops e) i name u flags = (i', st)"
  shows "ok i' \<and> acl_synced (acl_of i') i'"
proof -
  have same: "ok i \<and> acl_synced (acl_of i) i" using assms(2,3) by simp
  have r: "i' = i \<or> (\<exists>b. (b = [] \<and> is_acl_xattr name = 0 \<and> put e i (name_bytes name) [] flags = (i', st))
    \<or> (u = UBytes b \<and> set_kernel_value now (the (fsops e)) (\<lambda>i n. put e i (name_bytes n)) i name b flags = (i', st)))"
    using assms(8)
    by (auto simp: do_setxattr_def split: option.splits ubuf.splits if_splits)
  then consider "i' = i" | "is_acl_xattr name = 0" "put e i (name_bytes name) [] flags = (i', st)"
    | (val) b where "u = UBytes b" "set_kernel_value now (the (fsops e)) (\<lambda>i n. put e i (name_bytes n)) i name b flags = (i', st)"
    by metis
  then show ?thesis
  proof cases
    case 1
    then show ?thesis using same by simp
  next
    case 2
    have "name_bytes name \<noteq> name_bytes XATTR_ACL_ACCESS" using 2(1) by (auto simp: name_bytes_inj)
    then show ?thesis using put_other_synced [OF assms(1-4) _ assms(6,7) 2(2)] by blast
  next
    case (val b)
    show ?thesis
    proof (cases "is_acl_xattr name \<noteq> 0 \<and> acl_validate (Some b) \<noteq> None")
      case True
      then show ?thesis using val(2) same by (simp add: set_kernel_value_def)
    next
      case valid: False
      show ?thesis
      proof (cases "name = XATTR_ACL_ACCESS")
        case True
        note s = set_kernel_access [OF assms(1,2,7) _ val(2) [unfolded True]]
        have v: "acl_validate (Some b) = None" using valid True by simp
        show ?thesis
        proof (cases st)
          case None
          then show ?thesis using s(1,3) [OF v] by (auto simp: acl_synced_def)
        next
          case (Some x)
          then show ?thesis using s(1,2) [OF v] assms(3) acl_shown_mode_cong [of _ i' i]
            by (auto simp: acl_synced_def acl_shown_def split: option.splits)
        qed
      next
        case False
        then have "name_bytes name \<noteq> name_bytes XATTR_ACL_ACCESS" "is_acl_xattr name \<noteq> 1"
          by (auto simp: name_bytes_inj is_acl_xattr_def)
        moreover have "put e i (name_bytes name) b flags = (i', st)"
          using val(2) valid \<open>is_acl_xattr name \<noteq> 1\<close> unfolding set_kernel_value_def by (auto split: if_splits)
        ultimately show ?thesis using put_other_synced [OF assms(1-4) _ assms(5) [OF val(1)] assms(7)] by blast
      qed
    qed
  qed
qed

lemma do_removexattr_synced:
  assumes "env_ok e" "ok i" "acl_synced (acl_of i) i" "legal (name_bytes name)"
    "do_removexattr cur (fsops e) i name = (i', st)"
  shows "ok i' \<and> acl_synced (acl_of i') i'"
proof -
  have "i' = i \<or> del e i (name_bytes name) = (i', st)"
    using assms(5) by (auto simp: do_removexattr_def split: option.splits if_splits)
  then show ?thesis
  proof
    assume "i' = i"
    then show ?thesis using assms by simp
  next
    assume d: "del e i (name_bytes name) = (i', st)"
    note p = del_val [OF assms(1,2,4) d] del_meta [OF d]
    show ?thesis using p assms(3) acl_shown_mode_cong [of _ i' i]
      by (auto simp: acl_synced_def acl_shown_def split: option.splits)
  qed
qed

lemma chmod_inode_synced:
  assumes "env_ok e" "ok i" "acl_synced (acl_of i) i" "chmod_inode cur now (fsops e) i mode = (i', None)"
  shows "ok i'" "acl_synced (acl_of i') i'" "i_mode i' AND RWX_BITS = mode AND RWX_BITS"
proof -
  obtain i1 where c: "acl_chmod (fsops e) i mode = (i1, None)"
    and i': "i' = i1\<lparr>i_mode := i_mode i1 AND S_IFMT OR mode AND NOT S_IFMT, i_ctime := now, i_dirty := True\<rparr>"
    using assms(4) by (auto simp: chmod_inode_def split: if_splits prod.splits option.splits)
  have bits: "(x AND S_IFMT OR mode AND NOT S_IFMT) AND RWX_BITS = mode AND RWX_BITS" for x :: u16
  proof (rule bit_eqI)
    fix n assume "possible_bit TYPE(u16) n"
    have m: "(0xF000 :: u16) = push_bit 12 (mask 4)" by (simp add: mask_eq_exp_minus_1 push_bit_eq_mult)
    show "bit ((x AND S_IFMT OR mode AND NOT S_IFMT) AND RWX_BITS) n = bit (mode AND RWX_BITS) n"
      by (auto simp: m rwx_mask bit_simps)
  qed
  then show mode: "i_mode i' AND RWX_BITS = mode AND RWX_BITS" by (simp add: i')
  have "ok i1 \<and> (acl_of i1 = None \<or> (\<exists>buf. acl_validate (Some buf) = None
      \<and> acl_of i1 = Some (acl_bytes (acl_chmod_entries mode (acl_entries buf)))))"
  proof (cases "acl_of i")
    case None
    then have "i1 = i" using c read_acl [OF assms(1,2)] by (simp add: acl_chmod_def)
    then show ?thesis using None assms(2) by simp
  next
    case (Some buf)
    then have v: "acl_validate (Some buf) = None" using assms(3) by (simp add: acl_synced_def acl_shown_def)
    note l = acl_valid_length [OF v]
    let ?b = "acl_bytes (acl_chmod_entries mode (acl_entries buf))"
    have "length buf div 8 \<le> 32" using l by linarith
    then have p: "put e i (name_bytes XATTR_ACL_ACCESS) ?b 0 = (i1, None)"
      using c read_acl [OF assms(1,2)] Some v l by (auto simp: acl_chmod_def split: if_splits)
    have "fits ?b" using acl_valid_length [OF acl_chmod_entries_valid [OF v, of mode]] by (intro fits_acl) simp
    from put_val [OF assms(1,2) legal_acl(1) this _ p] v show ?thesis by auto
  qed
  then show "ok i'" "acl_synced (acl_of i') i'"
    using acl_chmod_entries_shown [OF _ mode] by (auto simp: i' ok_meta val_meta acl_synced_def)
qed

end

end
