(* ===== verification/Small_Data.thy ===== *)
theory Small_Data
  imports Kernel_Types Xattr_Store
begin

text \<open>
  The tail of an AGFS inode block, \<^verbatim>\<open>fs/agfs/xattr.c\<close> and \<^verbatim>\<open>fs/agfs/file.c\<close>: the attribute
  records packed behind \<^verbatim>\<open>struct agfs_inode\<close>, the walk over them, the copy that leaves one
  out and the removal of one in place, and the inline file content that shares the tail.

  The in-memory inode keeps the tail of the largest block (\<^verbatim>\<open>AGFS_SMALL_DATA_SIZE\<close> bytes), of
  which the volume's block size makes a prefix meaningful. A pointer into the tail is the list
  of bytes from there on. Names are byte lists without the terminating zero. The lemmas relate
  each loop to the list of records the tail holds, \<open>sd_list\<close>.
\<close>

subsection \<open>The inode and the layout of a record\<close>

text \<open>
  The file system state an attribute operation can reach from the inode: the stream is the
  content of the data blocks, and \<open>ag_attrs\<close> the attributes directory the \<^verbatim>\<open>attributes\<close> run
  points at (\<open>None\<close> when the run is empty), its B+tree as the list of entries in key order, each
  with the attribute file it names. \<open>ag_block_tail\<close> is the tail last recorded in the inode block.
\<close>

record attr_file =
  af_type :: u32
  af_stream :: "byte list"
  af_size :: nat

record agfs_inode = inode +
  ag_flags :: u32
  ag_small_data :: "byte list"
  ag_blkshift :: nat
  ag_size :: nat
  ag_stream :: "byte list"
  ag_attrs :: "(byte list \<times> attr_file) list option"
  ag_block_tail :: "byte list"

text \<open>
  The outcomes of the calls an operation makes into the inode cache, the allocator, the buffer
  cache and the B+tree: whether \<^verbatim>\<open>iget\<close> finds the attributes directory or an attribute file,
  whether the directory or a file can be created, what an insertion or deletion of a key
  returns, the error of \<^verbatim>\<open>bmap\<close> or \<^verbatim>\<open>bread\<close> at an offset, how many entries an iteration
  delivers before an I/O error (\<open>None\<close> for all), and whether the inode block can be read.
\<close>

record agfs_io =
  io_iget_dir :: bool
  io_iget :: "byte list \<Rightarrow> bool"
  io_dir_create :: bool
  io_ialloc :: bool
  io_insert :: status
  io_delete :: status
  io_write :: "nat \<Rightarrow> status"
  io_read :: "nat \<Rightarrow> status"
  io_iterate :: "nat option"
  io_inode_block :: bool

abbreviation (input) AGFS_INODE_INLINE_DATA :: u32 where "AGFS_INODE_INLINE_DATA \<equiv> 0x80"
abbreviation (input) AGFS_INODE_BYTES :: nat where "AGFS_INODE_BYTES \<equiv> 232"
abbreviation (input) AGFS_SMALL_DATA_SIZE :: nat where "AGFS_SMALL_DATA_SIZE \<equiv> 3864"
abbreviation (input) AGFS_SD_HDR :: nat where "AGFS_SD_HDR \<equiv> 8"
abbreviation (input) AGFS_FILE_NAME_TYPE :: u32 where "AGFS_FILE_NAME_TYPE \<equiv> 0x43535452"
abbreviation (input) AGFS_ATTR_NAME_MAX :: nat where "AGFS_ATTR_NAME_MAX \<equiv> 255"

definition ag_inline :: "agfs_inode \<Rightarrow> bool" where
  "ag_inline i \<longleftrightarrow> ag_flags i AND AGFS_INODE_INLINE_DATA \<noteq> 0"

definition ag_blocksize :: "agfs_inode \<Rightarrow> nat" where
  "ag_blocksize i = 2 ^ ag_blkshift i"

definition ag_tail :: "agfs_inode \<Rightarrow> nat" where
  "ag_tail i = ag_blocksize i - AGFS_INODE_BYTES"

definition sd_size :: "nat \<Rightarrow> nat \<Rightarrow> nat" where
  "sd_size n d = AGFS_SD_HDR + n + 3 + d + 1"

definition sd_type :: "byte list \<Rightarrow> u32" where
  "sd_type p = of_nat (le_val (take 4 p))"

definition sd_name_size :: "byte list \<Rightarrow> nat" where
  "sd_name_size p = le_val (take 2 (drop 4 p))"

definition sd_data_size :: "byte list \<Rightarrow> nat" where
  "sd_data_size p = le_val (take 2 (drop 6 p))"

definition sd_need :: "byte list \<Rightarrow> nat" where
  "sd_need p = sd_size (sd_name_size p) (sd_data_size p)"

definition sd_name :: "byte list \<Rightarrow> byte list" where
  "sd_name p = take (sd_name_size p) (drop 8 p)"

definition sd_data :: "byte list \<Rightarrow> byte list" where
  "sd_data p = take (sd_data_size p) (drop (8 + sd_name_size p + 3) p)"

definition sd_is_name :: "byte list \<Rightarrow> bool" where
  "sd_is_name p \<longleftrightarrow> sd_name_size p = 1 \<and> sd_name p = [0x13]"

definition sd_record :: "u32 \<Rightarrow> byte list \<Rightarrow> byte list \<Rightarrow> byte list" where
  "sd_record t name value =
     le_enc 4 (unat t) @ le_enc 2 (length name) @ le_enc 2 (length value) @ name @ [0, 0, 0] @ value @ [0]"

subsection \<open>The walk\<close>

text \<open>The callback gets the record's position and the accumulated argument; \<open>True\<close> stops the walk.\<close>

function agfs_xattr_walk ::
    "(byte list \<Rightarrow> 's \<Rightarrow> 's \<times> bool) \<Rightarrow> byte list \<Rightarrow> nat \<Rightarrow> 's \<Rightarrow> 's \<times> bool" where
  "agfs_xattr_walk cb p left st =
     (if left \<ge> AGFS_SD_HDR then
        (if sd_name_size p = 0 \<or> sd_need p > left then (st, False)
         else
           (case cb p st of
              (st', True) \<Rightarrow> (st', True)
            | (st', False) \<Rightarrow> agfs_xattr_walk cb (drop (sd_need p) p) (left - sd_need p) st'))
      else (st, False))"
  by pat_completeness auto
termination agfs_xattr_walk
  by (relation "measure (\<lambda>(cb, p, left, st). left)") (auto simp: sd_need_def sd_size_def)

declare agfs_xattr_walk.simps [simp del]

definition agfs_xattr_find_cb :: "byte list \<Rightarrow> byte list \<Rightarrow> byte list option \<Rightarrow> byte list option \<times> bool" where
  "agfs_xattr_find_cb name sd found =
     (if sd_is_name sd then (found, False)
      else if sd_name_size sd = length name \<and> sd_name sd = name then (Some sd, True)
      else (found, False))"

definition sd_find :: "agfs_inode \<Rightarrow> byte list \<Rightarrow> byte list option" where
  "sd_find i name = fst (agfs_xattr_walk (agfs_xattr_find_cb name) (ag_small_data i) (ag_tail i) None)"

definition agfs_xattr_refuse_name :: "byte list \<Rightarrow> bool" where
  "agfs_xattr_refuse_name name \<longleftrightarrow> name = [0x13]"

subsection \<open>Replacing and appending a record\<close>

function sd_copy :: "(byte list \<Rightarrow> bool) \<Rightarrow> byte list \<Rightarrow> nat \<Rightarrow> byte list" where
  "sd_copy keep p left =
     (if left \<ge> AGFS_SD_HDR then
        (if sd_name_size p = 0 \<or> sd_need p > left then []
         else (if keep p then take (sd_need p) p else [])
              @ sd_copy keep (drop (sd_need p) p) (left - sd_need p))
      else [])"
  by pat_completeness auto
termination sd_copy
  by (relation "measure (\<lambda>(keep, p, left). left)") (auto simp: sd_need_def sd_size_def)

declare sd_copy.simps [simp del]

text \<open>The whole area is cleared and the new records are copied to its start.\<close>

definition sd_install :: "agfs_inode \<Rightarrow> byte list \<Rightarrow> agfs_inode" where
  "sd_install i area =
     i\<lparr>ag_small_data := area @ replicate (AGFS_SMALL_DATA_SIZE - length area) 0, i_dirty := True\<rparr>"

text \<open>The removal of one record: the rest moves down and the freed bytes are cleared.\<close>

function sd_compact :: "byte list \<Rightarrow> byte list \<Rightarrow> nat \<Rightarrow> byte list" where
  "sd_compact name p left =
     (if left \<ge> AGFS_SD_HDR then
        (if sd_name_size p = 0 \<or> sd_need p > left then p
         else if sd_name_size p = length name \<and> sd_name p = name then
           take (left - sd_need p) (drop (sd_need p) p) @ replicate (sd_need p) 0 @ drop left p
         else take (sd_need p) p @ sd_compact name (drop (sd_need p) p) (left - sd_need p))
      else p)"
  by pat_completeness auto
termination sd_compact
  by (relation "measure (\<lambda>(name, p, left). left)") (auto simp: sd_need_def sd_size_def)

declare sd_compact.simps [simp del]

definition agfs_xattr_remove_cb :: "byte list \<Rightarrow> byte list \<Rightarrow> unit \<Rightarrow> unit \<times> bool" where
  "agfs_xattr_remove_cb name sd u =
     (if sd_is_name sd then (u, False)
      else if sd_name_size sd = length name \<and> sd_name sd = name then (u, True)
      else (u, False))"

definition agfs_xattr_remove_sd :: "agfs_inode \<Rightarrow> byte list \<Rightarrow> agfs_inode \<times> status" where
  "agfs_xattr_remove_sd i name =
     (if agfs_xattr_refuse_name name then (i, None)
      else if \<not> snd (agfs_xattr_walk (agfs_xattr_remove_cb name) (ag_small_data i) (ag_tail i) ())
      then (i, Some ENODATA)
      else (i\<lparr>ag_small_data := sd_compact name (ag_small_data i) AGFS_SMALL_DATA_SIZE, i_dirty := True\<rparr>,
            None))"

subsection \<open>Streams\<close>

text \<open>
  The bytes at an offset of a stream; a stream that is too short is extended with zeros. The
  copy of a buffer into a stream goes block by block, and an error leaves the blocks already
  written. The read does the same; blocks never written read as zeros.
\<close>

definition stream_put :: "byte list \<Rightarrow> nat \<Rightarrow> byte list \<Rightarrow> byte list" where
  "stream_put s off bs =
     take off s @ replicate (off - length s) 0 @ bs @ drop (off + length bs) s"

definition stream_bytes :: "byte list \<Rightarrow> nat \<Rightarrow> nat \<Rightarrow> byte list" where
  "stream_bytes s off n = take n (drop off s) @ replicate (n - (length s - off)) 0"

definition blk_bytes :: "nat \<Rightarrow> nat \<Rightarrow> nat \<Rightarrow> nat" where
  "blk_bytes shift sz tot = min (2 ^ shift - tot mod 2 ^ shift) (sz - tot)"

lemma blk_bytes_bounds:
  "tot < sz \<Longrightarrow> 0 < blk_bytes shift sz tot" "tot < sz \<Longrightarrow> tot + blk_bytes shift sz tot \<le> sz"
  by (simp_all add: blk_bytes_def)

lemma blk_bytes_less: "tot < sz \<Longrightarrow> sz - (tot + blk_bytes shift sz tot) < sz - tot"
  using blk_bytes_bounds [of tot sz shift] by linarith

function stream_write ::
    "(nat \<Rightarrow> status) \<Rightarrow> nat \<Rightarrow> byte list \<Rightarrow> nat \<Rightarrow> nat \<Rightarrow> byte list \<Rightarrow> byte list \<times> status" where
  "stream_write err shift value sz tot s =
     (if tot < sz then
        (case err tot of
           Some e \<Rightarrow> (s, Some e)
         | None \<Rightarrow>
            (let bytes = blk_bytes shift sz tot
             in stream_write err shift value sz (tot + bytes)
                  (stream_put s tot (take bytes (drop tot value)))))
      else (s, None))"
  by pat_completeness auto
termination stream_write
  by (relation "measure (\<lambda>(err, shift, value, sz, tot, s). sz - tot)")
     (auto intro: blk_bytes_less)

declare stream_write.simps [simp del]

function stream_read ::
    "(nat \<Rightarrow> status) \<Rightarrow> nat \<Rightarrow> byte list \<Rightarrow> nat \<Rightarrow> nat \<Rightarrow> byte list \<Rightarrow> byte list result" where
  "stream_read err shift s sz tot buffer =
     (if tot < sz then
        (case err tot of
           Some e \<Rightarrow> Inl e
         | None \<Rightarrow>
            (let bytes = blk_bytes shift sz tot
             in stream_read err shift s sz (tot + bytes) (buffer @ stream_bytes s tot bytes)))
      else Inr buffer)"
  by pat_completeness auto
termination stream_read
  by (relation "measure (\<lambda>(err, shift, s, sz, tot, buffer). sz - tot)")
     (auto intro: blk_bytes_less)

declare stream_read.simps [simp del]

subsection \<open>Inline file content\<close>

text \<open>The offset of the content: behind the records and their terminator.\<close>

function inline_base :: "byte list \<Rightarrow> nat \<Rightarrow> nat \<Rightarrow> nat" where
  "inline_base p left pos =
     (if left \<ge> 8 then
        (if sd_name_size p = 0 \<and> sd_data_size p = 0 then
           (if pos + 12 \<le> left then pos + 12 else left)
         else if sd_name_size p = 0 then left
         else
           (let n = 12 + sd_name_size p + sd_data_size p in
            if pos + n > left then left
            else inline_base (drop n p) (left - n) (pos + n)))
      else left)"
  by pat_completeness auto
termination inline_base
  by (relation "measure (\<lambda>(p, left, pos). left)") auto

declare inline_base.simps [simp del]

definition agfs_inline_base :: "agfs_inode \<Rightarrow> nat" where
  "agfs_inline_base i = inline_base (ag_small_data i) (ag_tail i) 0"

definition agfs_inline_expand :: "agfs_io \<Rightarrow> agfs_inode \<Rightarrow> agfs_inode \<times> status" where
  "agfs_inline_expand io i =
     (case stream_write (io_write io) (ag_blkshift i) (drop (agfs_inline_base i) (ag_small_data i))
             (ag_size i) 0 (ag_stream i) of
        (s, Some e) \<Rightarrow> (i\<lparr>ag_stream := s\<rparr>, Some e)
      | (s, None) \<Rightarrow>
         (i\<lparr>ag_stream := s, ag_flags := ag_flags i AND NOT AGFS_INODE_INLINE_DATA, i_dirty := True\<rparr>, None))"

subsection \<open>The records of an area\<close>

text \<open>A raw record, and the raw records the walk visits.\<close>

definition sd_valid :: "byte list \<Rightarrow> bool" where
  "sd_valid r \<longleftrightarrow> length r = sd_need r \<and> sd_name_size r \<noteq> 0"

definition sd_view :: "byte list \<Rightarrow> u32 \<times> byte list \<times> byte list" where
  "sd_view p = (sd_type p, sd_name p, sd_data p)"

function sd_raws :: "byte list \<Rightarrow> nat \<Rightarrow> byte list list" where
  "sd_raws p left =
     (if left \<ge> AGFS_SD_HDR \<and> sd_name_size p \<noteq> 0 \<and> sd_need p \<le> left
      then take (sd_need p) p # sd_raws (drop (sd_need p) p) (left - sd_need p)
      else [])"
  by pat_completeness auto
termination sd_raws
  by (relation "measure (\<lambda>(p, left). left)") (auto simp: sd_need_def sd_size_def)

declare sd_raws.simps [simp del]

definition sd_stop :: "byte list \<Rightarrow> nat \<Rightarrow> bool" where
  "sd_stop p left \<longleftrightarrow> left < AGFS_SD_HDR \<or> sd_name_size p = 0 \<or> sd_need p > left"

lemma sd_need_ge: "12 \<le> sd_need p" "sd_name_size p \<noteq> 0 \<Longrightarrow> 13 \<le> sd_need p"
  by (simp_all add: sd_need_def sd_size_def)

lemma sd_hdr_append:
  assumes "8 \<le> length r"
  shows "sd_name_size (r @ x) = sd_name_size r" "sd_data_size (r @ x) = sd_data_size r"
    "sd_type (r @ x) = sd_type r" "sd_need (r @ x) = sd_need r"
  using assms by (simp_all add: sd_name_size_def sd_data_size_def sd_type_def sd_need_def)

lemma sd_valid_length: "sd_valid r \<Longrightarrow> 13 \<le> length r"
  using sd_need_ge(2) [of r] by (simp add: sd_valid_def)

lemma sd_valid_append:
  assumes "sd_valid r"
  shows "sd_name_size (r @ x) = sd_name_size r" "sd_data_size (r @ x) = sd_data_size r"
    "sd_type (r @ x) = sd_type r" "sd_need (r @ x) = length r" "sd_name (r @ x) = sd_name r"
    "sd_data (r @ x) = sd_data r" "sd_is_name (r @ x) = sd_is_name r"
proof -
  have l: "8 \<le> length r" using sd_valid_length [OF assms] by simp
  note h = sd_hdr_append [OF l]
  show "sd_name_size (r @ x) = sd_name_size r" "sd_data_size (r @ x) = sd_data_size r"
    "sd_type (r @ x) = sd_type r" by (rule h)+
  show "sd_need (r @ x) = length r" using h(4) assms by (simp add: sd_valid_def)
  have n: "length r = 12 + sd_name_size r + sd_data_size r"
    using assms by (simp add: sd_valid_def sd_need_def sd_size_def)
  show nm: "sd_name (r @ x) = sd_name r" using n by (simp add: sd_name_def h)
  show "sd_data (r @ x) = sd_data r" using n by (simp add: sd_data_def h)
  show "sd_is_name (r @ x) = sd_is_name r" by (simp add: sd_is_name_def h nm)
qed

lemma sd_valid_sizes:
  assumes "sd_valid r"
  shows "length (sd_name r) = sd_name_size r" "length (sd_data r) = sd_data_size r"
  using assms by (simp_all add: sd_valid_def sd_need_def sd_size_def sd_name_def sd_data_def)

lemma sd_valid_match:
  "sd_valid r \<Longrightarrow> (sd_name_size r = length name \<and> sd_name r = name) = (sd_name r = name)"
  using sd_valid_sizes(1) by auto

lemma sd_valid_is_name: "sd_valid r \<Longrightarrow> sd_is_name r = (sd_name r = [0x13])"
  using sd_valid_sizes(1) [of r] by (auto simp: sd_is_name_def)

lemma sd_view_append: "sd_valid r \<Longrightarrow> sd_view (r @ x) = sd_view r"
  by (simp add: sd_view_def sd_valid_append)

lemma sd_stop_append: "sd_valid r \<Longrightarrow> \<not> sd_stop (r @ x) (length r + left)"
  using sd_valid_length [of r] by (simp add: sd_stop_def sd_valid_append) (simp add: sd_valid_def)

lemma sd_take_valid:
  assumes "\<not> sd_stop p left" "left \<le> length p"
  shows "sd_valid (take (sd_need p) p)" "sd_need p \<le> left"
proof -
  have n: "8 \<le> left" "sd_name_size p \<noteq> 0" "sd_need p \<le> left"
    using assms(1) by (simp_all add: sd_stop_def)
  let ?r = "take (sd_need p) p"
  have l: "length ?r = sd_need p" using n(3) assms(2) by simp
  then have "8 \<le> length ?r" using sd_need_ge(1) [of p] by simp
  from sd_hdr_append [OF this, of "drop (sd_need p) p"]
  have "sd_name_size ?r = sd_name_size p" "sd_need ?r = sd_need p" by simp_all
  then show "sd_valid ?r" "sd_need p \<le> left" using l n by (simp_all add: sd_valid_def)
qed

lemma sd_area_induct [consumes 1, case_names stop step]:
  assumes "left \<le> length p"
    and "\<And>p left. left \<le> length p \<Longrightarrow> sd_stop p left \<Longrightarrow> P p left"
    and "\<And>r rest left. sd_valid r \<Longrightarrow> left \<le> length rest \<Longrightarrow> P rest left \<Longrightarrow> P (r @ rest) (length r + left)"
  shows "P p left"
  using assms(1)
proof (induction left arbitrary: p rule: less_induct)
  case (less left)
  show ?case
  proof (cases "sd_stop p left")
    case True
    then show ?thesis using less.prems by (rule assms(2)[rotated])
  next
    case False
    note v = sd_take_valid [OF False less.prems]
    have l: "length (take (sd_need p) p) = sd_need p" using v(2) less.prems by simp
    have "left - sd_need p < left" using v(2) sd_need_ge(1) [of p] by linarith
    moreover have "left - sd_need p \<le> length (drop (sd_need p) p)" using less.prems by simp
    ultimately have "P (drop (sd_need p) p) (left - sd_need p)" by (rule less.IH)
    from assms(3) [OF v(1) _ this] less.prems l v(2) show ?thesis by simp
  qed
qed

subsection \<open>The loops over the records\<close>

lemma agfs_xattr_walk_stop: "sd_stop p left \<Longrightarrow> agfs_xattr_walk cb p left st = (st, False)"
  by (subst agfs_xattr_walk.simps) (auto simp: sd_stop_def)

lemma agfs_xattr_walk_step:
  assumes "sd_valid r"
  shows "agfs_xattr_walk cb (r @ rest) (length r + left) st =
    (case cb (r @ rest) st of (st', True) \<Rightarrow> (st', True) | (st', False) \<Rightarrow> agfs_xattr_walk cb rest left st')"
  using sd_stop_append [OF assms, of rest left]
  by (subst agfs_xattr_walk.simps) (simp add: sd_valid_append [OF assms] sd_stop_def)

lemma sd_raws_stop: "sd_stop p left \<Longrightarrow> sd_raws p left = []"
  by (subst sd_raws.simps) (auto simp: sd_stop_def)

lemma sd_raws_step: "sd_valid r \<Longrightarrow> sd_raws (r @ rest) (length r + left) = r # sd_raws rest left"
  using sd_stop_append [of r rest left]
  by (subst sd_raws.simps) (simp add: sd_valid_append sd_stop_def)

lemma sd_copy_stop: "sd_stop p left \<Longrightarrow> sd_copy keep p left = []"
  by (subst sd_copy.simps) (auto simp: sd_stop_def)

lemma sd_copy_step:
  "sd_valid r \<Longrightarrow> sd_copy keep (r @ rest) (length r + left) = (if keep (r @ rest) then r else []) @ sd_copy keep rest left"
  using sd_stop_append [of r rest left]
  by (subst sd_copy.simps) (simp add: sd_valid_append sd_stop_def)

lemma sd_compact_stop: "sd_stop p left \<Longrightarrow> sd_compact name p left = p"
  by (subst sd_compact.simps) (auto simp: sd_stop_def)

lemma sd_compact_step:
  assumes "sd_valid r"
  shows "sd_compact name (r @ rest) (length r + left) =
    (if sd_name r = name then take left rest @ replicate (length r) 0 @ drop left rest
     else r @ sd_compact name rest left)"
  using sd_stop_append [OF assms, of rest left]
  by (subst sd_compact.simps)
     (simp add: sd_valid_append [OF assms] sd_stop_def sd_valid_match [OF assms] cong: if_cong)

lemmas sd_loop_steps = agfs_xattr_walk_step sd_raws_step sd_copy_step sd_compact_step
lemmas sd_loop_stops = agfs_xattr_walk_stop sd_raws_stop sd_copy_stop sd_compact_stop

lemma sd_raws_area:
  assumes "left \<le> length p"
  shows "list_all sd_valid (sd_raws p left)" "length (concat (sd_raws p left)) \<le> left"
    "concat (sd_raws p left) @ drop (length (concat (sd_raws p left))) p = p"
  using assms
  by (induction p left rule: sd_area_induct) (auto simp: sd_loop_stops sd_loop_steps)

lemma sd_copy_raws:
  assumes "left \<le> length p" "\<And>r x. sd_valid r \<Longrightarrow> keep (r @ x) = keep r"
  shows "sd_copy keep p left = concat (filter keep (sd_raws p left))"
  using assms(1)
  by (induction p left rule: sd_area_induct) (auto simp: sd_loop_stops sd_loop_steps assms(2))

text \<open>An area that ends in a terminator: the walk visits exactly the records before it.\<close>

definition sd_term :: "byte list \<Rightarrow> bool" where
  "sd_term p \<longleftrightarrow> list_all (\<lambda>b. b = 0) (take 8 p)"

lemma le_val_zeros: "list_all (\<lambda>b. b = 0) bs \<Longrightarrow> le_val bs = 0"
  by (induction bs) auto

lemma sd_term_name_size: "sd_term p \<Longrightarrow> sd_name_size p = 0" "sd_term p \<Longrightarrow> sd_data_size p = 0"
proof -
  assume a: "sd_term p"
  have "take 2 (drop 4 p) = take 2 (drop 4 (take 8 p))" "take 2 (drop 6 p) = take 2 (drop 6 (take 8 p))"
    by (simp_all add: drop_take take_take)
  moreover have "list_all (\<lambda>b. b = 0) (take 2 (drop k (take 8 p)))" for k
    using a unfolding sd_term_def list_all_iff by (meson in_set_dropD in_set_takeD)
  ultimately show "sd_name_size p = 0" "sd_data_size p = 0"
    unfolding sd_name_size_def sd_data_size_def by (metis le_val_zeros)+
qed

lemma sd_term_stop: "sd_term p \<Longrightarrow> sd_stop p left"
  by (simp add: sd_stop_def sd_term_name_size)

lemma sd_term_replicate [simp]: "sd_term (replicate n 0)"
  by (simp add: sd_term_def list_all_iff)

lemma sd_raws_concat:
  assumes "list_all sd_valid rs" "sd_term rest" "length (concat rs) \<le> left"
  shows "sd_raws (concat rs @ rest) left = rs"
  using assms
proof (induction rs arbitrary: left)
  case Nil
  then show ?case by (simp add: sd_raws_stop sd_term_stop)
next
  case (Cons r rs)
  have v: "sd_valid r" using Cons.prems(1) by simp
  obtain l where l: "left = length r + l" using Cons.prems(3) by (metis concat.simps(2) le_add_diff_inverse length_append add_leD1)
  have "sd_raws (concat rs @ rest) l = rs" using Cons.prems l by (intro Cons.IH) auto
  then show ?case by (simp add: l sd_raws_step [OF v])
qed

subsection \<open>Search and removal\<close>

definition sd_hit :: "byte list \<Rightarrow> byte list \<Rightarrow> bool" where
  "sd_hit name r \<longleftrightarrow> sd_name r = name \<and> \<not> sd_is_name r"

lemma find_cb_append:
  "sd_valid r \<Longrightarrow> agfs_xattr_find_cb name (r @ x) st = (if sd_hit name r then (Some (r @ x), True) else (st, False))"
  using sd_valid_sizes(1) [of r] by (auto simp: agfs_xattr_find_cb_def sd_hit_def sd_valid_append)

lemma remove_cb_append:
  "sd_valid r \<Longrightarrow> agfs_xattr_remove_cb name (r @ x) u = (u, sd_hit name r)"
  using sd_valid_sizes(1) [of r] by (auto simp: agfs_xattr_remove_cb_def sd_hit_def sd_valid_append)

lemma find_walk_raws:
  assumes "left \<le> length p"
  shows "case List.find (sd_hit name) (sd_raws p left) of
      None \<Rightarrow> fst (agfs_xattr_walk (agfs_xattr_find_cb name) p left None) = None
    | Some r \<Rightarrow> \<exists>x. fst (agfs_xattr_walk (agfs_xattr_find_cb name) p left None) = Some (r @ x)"
  using assms
proof (induction p left rule: sd_area_induct)
  case (step r rest left)
  then show ?case
    by (cases "sd_hit name r"; cases "List.find (sd_hit name) (sd_raws rest left)")
      (auto simp: sd_loop_steps find_cb_append)
qed (simp add: sd_loop_stops)

lemma remove_walk_raws:
  assumes "left \<le> length p"
  shows "snd (agfs_xattr_walk (agfs_xattr_remove_cb name) p left u) = list_ex (sd_hit name) (sd_raws p left)"
  using assms
proof (induction p left rule: sd_area_induct)
  case (step r rest left)
  then show ?case by (cases "sd_hit name r") (simp_all add: sd_loop_steps remove_cb_append)
qed (simp add: sd_loop_stops)

text \<open>The removal: the records without the first that has the name.\<close>

fun rem_first :: "('a \<Rightarrow> bool) \<Rightarrow> 'a list \<Rightarrow> 'a list" where
  "rem_first P [] = []"
| "rem_first P (x # xs) = (if P x then xs else x # rem_first P xs)"

lemma rem_first_filter:
  "distinct (map f xs) \<Longrightarrow> (\<And>x. P x \<longleftrightarrow> f x = a) \<Longrightarrow> rem_first P xs = filter (\<lambda>x. \<not> P x) xs"
proof (induction xs)
  case (Cons x xs)
  show ?case
  proof (cases "P x")
    case True
    then have "f x = a" using Cons.prems(2) by simp
    then have "\<forall>y\<in>set xs. \<not> P y" using Cons.prems by (auto simp: image_iff)
    then show ?thesis using True by (simp add: filter_id_conv)
  next
    case False
    then show ?thesis using Cons by simp
  qed
qed simp

lemma list_all_rem_first: "list_all Q xs \<Longrightarrow> list_all Q (rem_first P xs)"
  by (induction xs) auto

lemma length_concat_rem_first: "length (concat (rem_first P xs)) \<le> length (concat xs)"
  by (induction xs) auto

lemma sd_term_shift:
  assumes "sd_term rest" "8 \<le> n"
  shows "sd_term (take l rest @ replicate n 0 @ drop l rest)"
proof -
  have "take 8 (take l rest @ replicate n 0 @ drop l rest)
    = take l (take 8 rest) @ replicate (8 - min (length rest) l) 0"
    using assms(2) by (auto simp: min_def)
  moreover have "list_all (\<lambda>b. b = 0) (take l (take 8 rest))"
    using assms(1) unfolding sd_term_def list_all_iff by (meson in_set_takeD)
  ultimately show ?thesis by (simp only: sd_term_def) (auto simp: list_all_iff)
qed

lemma sd_compact_concat:
  assumes "list_all sd_valid rs" "sd_term rest" "length (concat rs) \<le> left" "left \<le> length (concat rs @ rest)"
    "list_ex (\<lambda>r. sd_name r = name) rs"
  shows "\<exists>rest'. sd_compact name (concat rs @ rest) left = concat (rem_first (\<lambda>r. sd_name r = name) rs) @ rest'
    \<and> sd_term rest' \<and> length (concat (rem_first (\<lambda>r. sd_name r = name) rs) @ rest') = length (concat rs @ rest)"
  using assms
proof (induction rs arbitrary: left)
  case (Cons r rs)
  have v: "sd_valid r" using Cons.prems(1) by simp
  obtain l where l: "left = length r + l"
    using Cons.prems(3) by (metis concat.simps(2) le_add_diff_inverse length_append add_leD1)
  show ?case
  proof (cases "sd_name r = name")
    case True
    let ?k = "l - length (concat rs)"
    have "take l (concat rs @ rest) @ replicate (length r) 0 @ drop l (concat rs @ rest)
      = concat rs @ (take ?k rest @ replicate (length r) 0 @ drop ?k rest)"
      using Cons.prems(3) l by simp
    moreover have "sd_term (take ?k rest @ replicate (length r) 0 @ drop ?k rest)"
      using Cons.prems l sd_valid_length [OF v] by (intro sd_term_shift) auto
    ultimately show ?thesis
      using Cons.prems(3,4) by (auto simp: l sd_compact_step [OF v] True)
  next
    case False
    have "\<exists>rest'. sd_compact name (concat rs @ rest) l = concat (rem_first (\<lambda>r. sd_name r = name) rs) @ rest'
      \<and> sd_term rest' \<and> length (concat (rem_first (\<lambda>r. sd_name r = name) rs) @ rest') = length (concat rs @ rest)"
      using Cons.prems l False by (intro Cons.IH) auto
    then show ?thesis using False by (auto simp: l sd_compact_step [OF v])
  qed
qed simp

subsection \<open>Records\<close>

lemma sd_record_valid:
  assumes "name \<noteq> []" "length name < 65536" "length value < 65536"
  shows "sd_valid (sd_record t name value)" "sd_view (sd_record t name value) = (t, name, value)"
    "length (sd_record t name value) = sd_size (length name) (length value)"
proof -
  have n: "sd_name_size (sd_record t name value) = length name"
    using assms(2) by (simp add: sd_name_size_def sd_record_def)
  have d: "sd_data_size (sd_record t name value) = length value"
    using assms(3) by (simp add: sd_data_size_def sd_record_def)
  show l: "length (sd_record t name value) = sd_size (length name) (length value)"
    by (simp add: sd_record_def sd_size_def)
  show "sd_valid (sd_record t name value)" using assms(1) l by (simp add: sd_valid_def sd_need_def n d)
  have "sd_name (sd_record t name value) = name" by (simp add: sd_name_def n) (simp add: sd_record_def)
  moreover have "sd_data (sd_record t name value) = value" by (simp add: sd_data_def n d) (simp add: sd_record_def)
  moreover have "sd_type (sd_record t name value) = t"
    by (simp add: sd_type_def sd_record_def of_nat_unat_mod)
  ultimately show "sd_view (sd_record t name value) = (t, name, value)" by (simp add: sd_view_def)
qed

subsection \<open>Streams\<close>

lemma stream_write_ok:
  assumes "\<And>k. k < sz \<Longrightarrow> err k = None" "sz \<le> length val0" "tot \<le> sz"
    "tot \<le> length s" "take tot s = take tot val0"
  shows "\<exists>s'. stream_write err shift val0 sz tot s = (s', None) \<and> sz \<le> length s' \<and> take sz s' = take sz val0"
  using assms
proof (induction err shift val0 sz tot s rule: stream_write.induct)
  case (1 err shift v sz tot s)
  show ?case
  proof (cases "tot < sz")
    case True
    let ?b = "blk_bytes shift sz tot"
    let ?s = "stream_put s tot (take ?b (drop tot v))"
    note b = blk_bytes_bounds [OF True, of shift]
    have e: "err tot = None" using 1(2) True by simp
    have lb: "length (take ?b (drop tot v)) = ?b" using b 1(3) by simp
    have "take (tot + ?b) ?s = take tot s @ take ?b (drop tot v)"
      using 1(5) lb by (simp add: stream_put_def)
    also have "\<dots> = take (tot + ?b) v" by (simp add: 1(6) take_add)
    finally have t: "take (tot + ?b) ?s = take (tot + ?b) v" .
    have "tot + ?b \<le> length ?s" using 1(5) lb by (simp add: stream_put_def)
    from "1.IH" [OF True e refl 1(2,3) b(2) this t]
    show ?thesis by (subst stream_write.simps) (simp add: True e Let_def)
  next
    case False
    then show ?thesis using 1(4-6) by (subst stream_write.simps) simp
  qed
qed

lemma stream_read_ok:
  assumes "\<And>k. k < sz \<Longrightarrow> err k = None" "sz \<le> length s" "tot \<le> sz" "buffer = take tot s"
  shows "stream_read err shift s sz tot buffer = Inr (take sz s)"
  using assms
proof (induction err shift s sz tot buffer rule: stream_read.induct)
  case (1 err shift s sz tot buffer)
  show ?case
  proof (cases "tot < sz")
    case True
    note b = blk_bytes_bounds [OF True, of shift]
    have e: "err tot = None" using 1(2) True by simp
    have "buffer @ stream_bytes s tot (blk_bytes shift sz tot) = take (tot + blk_bytes shift sz tot) s"
      using b 1(3,5) by (simp add: stream_bytes_def take_add)
    from "1.IH" [OF True e refl 1(2,3) b(2) this]
    show ?thesis by (subst stream_read.simps) (simp add: True e Let_def)
  next
    case False
    then show ?thesis using 1(4,5) by (subst stream_read.simps) simp
  qed
qed

subsection \<open>The tail of an inode\<close>

definition sd_recs :: "agfs_inode \<Rightarrow> byte list list" where
  "sd_recs i = sd_raws (ag_small_data i) (ag_tail i)"

text \<open>The tail has its full length, and a terminator follows the records.\<close>

definition sd_ok :: "agfs_inode \<Rightarrow> bool" where
  "sd_ok i \<longleftrightarrow> length (ag_small_data i) = AGFS_SMALL_DATA_SIZE \<and> ag_tail i \<le> AGFS_SMALL_DATA_SIZE
     \<and> sd_term (drop (length (concat (sd_recs i))) (ag_small_data i))"

lemma sd_ok_cases:
  assumes "sd_ok i"
  obtains rest where "ag_small_data i = concat (sd_recs i) @ rest" "sd_term rest"
    "list_all sd_valid (sd_recs i)" "length (concat (sd_recs i)) \<le> ag_tail i"
    "ag_tail i \<le> length (ag_small_data i)" "length (ag_small_data i) = AGFS_SMALL_DATA_SIZE"
proof -
  have l: "ag_tail i \<le> length (ag_small_data i)" using assms by (simp add: sd_ok_def)
  note a = sd_raws_area [OF l, folded sd_recs_def]
  show ?thesis using that [OF a(3) [symmetric] _ a(1,2) l] assms by (simp add: sd_ok_def)
qed

lemma sd_ok_intro:
  assumes "ag_small_data i = concat rs @ rest" "sd_term rest" "list_all sd_valid rs"
    "length (concat rs) \<le> ag_tail i" "ag_tail i \<le> AGFS_SMALL_DATA_SIZE"
    "length (ag_small_data i) = AGFS_SMALL_DATA_SIZE"
  shows "sd_ok i" "sd_recs i = rs"
proof -
  show r: "sd_recs i = rs" using assms by (simp add: sd_recs_def sd_raws_concat)
  show "sd_ok i" using assms by (simp add: sd_ok_def r)
qed

lemma sd_ok_cong:
  assumes "ag_small_data i' = ag_small_data i" "ag_blkshift i' = ag_blkshift i"
  shows "sd_ok i' = sd_ok i" "sd_recs i' = sd_recs i"
  using assms by (simp_all add: sd_ok_def sd_recs_def ag_tail_def ag_blocksize_def)

lemma ag_tail_cong: "ag_blkshift i' = ag_blkshift i \<Longrightarrow> ag_tail i' = ag_tail i"
  by (simp add: ag_tail_def ag_blocksize_def)

lemma sd_ok_install:
  assumes "sd_ok i" "list_all sd_valid rs" "length (concat rs) \<le> ag_tail i"
  shows "sd_ok (sd_install i (concat rs))" "sd_recs (sd_install i (concat rs)) = rs"
proof -
  have "ag_tail i \<le> AGFS_SMALL_DATA_SIZE" using assms(1) by (simp add: sd_ok_def)
  moreover have "ag_tail (sd_install i (concat rs)) = ag_tail i"
    by (rule ag_tail_cong) (simp add: sd_install_def)
  moreover have "ag_small_data (sd_install i (concat rs)) = concat rs @ replicate (AGFS_SMALL_DATA_SIZE - length (concat rs)) 0"
    by (simp add: sd_install_def)
  ultimately show "sd_ok (sd_install i (concat rs))" "sd_recs (sd_install i (concat rs)) = rs"
    using assms by (auto intro!: sd_ok_intro [where rest = "replicate (AGFS_SMALL_DATA_SIZE - length (concat rs)) 0"])
qed

lemma sd_ok_compact:
  assumes "sd_ok i" "list_ex (\<lambda>r. sd_name r = name) (sd_recs i)"
    "ag_tail i \<le> left" "left \<le> AGFS_SMALL_DATA_SIZE"
    "ag_small_data i' = sd_compact name (ag_small_data i) left" "ag_blkshift i' = ag_blkshift i"
  shows "sd_ok i'" "sd_recs i' = rem_first (\<lambda>r. sd_name r = name) (sd_recs i)"
proof -
  obtain rest where r: "ag_small_data i = concat (sd_recs i) @ rest" "sd_term rest"
    "list_all sd_valid (sd_recs i)" "length (concat (sd_recs i)) \<le> ag_tail i"
    "ag_tail i \<le> length (ag_small_data i)" "length (ag_small_data i) = AGFS_SMALL_DATA_SIZE"
    using assms(1) by (rule sd_ok_cases)
  have "length (concat (sd_recs i)) \<le> left" using r(4) assms(3) by simp
  moreover have "left \<le> length (concat (sd_recs i) @ rest)" using assms(4) r(1,6) by simp
  ultimately obtain rest' where c: "ag_small_data i' = concat (rem_first (\<lambda>r. sd_name r = name) (sd_recs i)) @ rest'"
    "sd_term rest'" "length (ag_small_data i') = length (ag_small_data i)"
    using sd_compact_concat [OF r(3,2) _ _ assms(2), of left] assms(5) r(1) by metis
  have "length (concat (rem_first (\<lambda>r. sd_name r = name) (sd_recs i))) \<le> ag_tail i'"
    using order_trans [OF length_concat_rem_first r(4)] ag_tail_cong [OF assms(6)] by simp
  moreover have "ag_tail i' \<le> AGFS_SMALL_DATA_SIZE" using assms(1) ag_tail_cong [OF assms(6)] by (simp add: sd_ok_def)
  moreover have "length (ag_small_data i') = AGFS_SMALL_DATA_SIZE" using c(3) r(6) by simp
  ultimately show "sd_ok i'" "sd_recs i' = rem_first (\<lambda>r. sd_name r = name) (sd_recs i)"
    using sd_ok_intro [OF c(1,2) list_all_rem_first [OF r(3)]] by auto
qed

lemma sd_hit_name: "sd_valid r \<Longrightarrow> name \<noteq> [0x13] \<Longrightarrow> sd_hit name r = (sd_name r = name)"
  by (auto simp: sd_hit_def sd_valid_is_name)

text \<open>What a search finds, as the type and the value.\<close>

definition sd_lookup :: "agfs_inode \<Rightarrow> byte list \<Rightarrow> byte list option" where
  "sd_lookup i name = List.find (\<lambda>r. sd_name r = name) (sd_recs i)"

lemma find_cong_all: "list_all (\<lambda>x. P x = Q x) xs \<Longrightarrow> List.find P xs = List.find Q xs"
  by (induction xs) auto

lemma sd_find_lookup:
  assumes "sd_ok i" "name \<noteq> [0x13]"
  shows "sd_lookup i name = None \<Longrightarrow> sd_find i name = None"
    "sd_lookup i name = Some r \<Longrightarrow> \<exists>x. sd_find i name = Some (r @ x)"
proof -
  obtain rest where r: "list_all sd_valid (sd_recs i)" "ag_tail i \<le> length (ag_small_data i)"
    using assms(1) by (rule sd_ok_cases)
  have "sd_lookup i name = List.find (sd_hit name) (sd_recs i)"
    unfolding sd_lookup_def using r(1) assms(2)
    by (intro find_cong_all) (auto simp: list_all_iff sd_hit_name)
  then show "sd_lookup i name = None \<Longrightarrow> sd_find i name = None"
    "sd_lookup i name = Some r \<Longrightarrow> \<exists>x. sd_find i name = Some (r @ x)"
    using find_walk_raws [OF r(2), of name] by (simp_all add: sd_find_def sd_recs_def)
qed

lemma sd_lookup_valid: "sd_ok i \<Longrightarrow> sd_lookup i name = Some r \<Longrightarrow> sd_valid r \<and> sd_name r = name \<and> r \<in> set (sd_recs i)"
  by (erule sd_ok_cases) (auto simp: sd_lookup_def find_Some_iff list_all_length)

lemma sd_lookup_None: "sd_lookup i name = None \<longleftrightarrow> name \<notin> sd_name ` set (sd_recs i)"
  by (auto simp: sd_lookup_def find_None_iff)

lemma remove_walk_lookup:
  assumes "sd_ok i" "name \<noteq> [0x13]"
  shows "snd (agfs_xattr_walk (agfs_xattr_remove_cb name) (ag_small_data i) (ag_tail i) ()) = (sd_lookup i name \<noteq> None)"
proof -
  obtain rest where r: "list_all sd_valid (sd_recs i)" "ag_tail i \<le> length (ag_small_data i)"
    using assms(1) by (rule sd_ok_cases)
  have "list_ex (sd_hit name) (sd_recs i) = (sd_lookup i name \<noteq> None)"
    unfolding sd_lookup_None [of i name] using r(1) assms(2) by (auto simp: list_ex_iff list_all_iff sd_hit_name)
  then show ?thesis by (simp add: remove_walk_raws [OF r(2)] sd_recs_def)
qed

lemma sd_lookup_list_ex: "sd_lookup i name = Some r \<Longrightarrow> list_ex (\<lambda>r. sd_name r = name) (sd_recs i)"
  by (metis (mono_tags, lifting) find_None_iff list_ex_iff option.distinct(1) sd_lookup_def)

text \<open>The records after the removal of one.\<close>

lemma agfs_xattr_remove_sd_ok:
  assumes "sd_ok i" "name \<noteq> [0x13]" "distinct (map sd_name (sd_recs i))"
  defines "i' \<equiv> fst (agfs_xattr_remove_sd i name)"
  shows "sd_ok i'" "sd_recs i' = filter (\<lambda>r. sd_name r \<noteq> name) (sd_recs i)"
    "ag_attrs i' = ag_attrs i" "ag_blkshift i' = ag_blkshift i" "ag_flags i' = ag_flags i"
proof -
  have e: "agfs_xattr_remove_sd i name =
    (if sd_lookup i name = None then (i, Some ENODATA)
     else (i\<lparr>ag_small_data := sd_compact name (ag_small_data i) AGFS_SMALL_DATA_SIZE, i_dirty := True\<rparr>, None))"
    using assms(2) by (simp add: agfs_xattr_remove_sd_def agfs_xattr_refuse_name_def remove_walk_lookup [OF assms(1,2)])
  show "ag_attrs i' = ag_attrs i" "ag_blkshift i' = ag_blkshift i" "ag_flags i' = ag_flags i"
    by (simp_all add: i'_def e)
  have rf: "rem_first (\<lambda>r. sd_name r = name) (sd_recs i) = filter (\<lambda>r. sd_name r \<noteq> name) (sd_recs i)"
    using rem_first_filter [OF assms(3), of "\<lambda>r. sd_name r = name" name] by simp
  have "sd_ok i' \<and> sd_recs i' = filter (\<lambda>r. sd_name r \<noteq> name) (sd_recs i)"
  proof (cases "sd_lookup i name")
    case None
    then have "i' = i" by (simp add: i'_def e)
    moreover have "filter (\<lambda>r. sd_name r \<noteq> name) (sd_recs i) = sd_recs i"
      using None unfolding sd_lookup_None by (auto simp: filter_id_conv)
    ultimately show ?thesis using assms(1) by simp
  next
    case (Some r)
    then have i': "i' = i\<lparr>ag_small_data := sd_compact name (ag_small_data i) AGFS_SMALL_DATA_SIZE, i_dirty := True\<rparr>"
      by (simp add: i'_def e)
    have t: "ag_tail i \<le> AGFS_SMALL_DATA_SIZE" using assms(1) by (simp add: sd_ok_def)
    from sd_ok_compact [OF assms(1) sd_lookup_list_ex [OF Some] t order_refl, of i'] rf
    show ?thesis by (simp add: i')
  qed
  then show "sd_ok i'" "sd_recs i' = filter (\<lambda>r. sd_name r \<noteq> name) (sd_recs i)" by simp_all
qed

end
