(* ===== verification/Agfs_Attr.thy ===== *)
theory Agfs_Attr
  imports Small_Data Btree_Keys
begin

text \<open>
  The attributes directory of AGFS, \<^verbatim>\<open>fs/agfs/attribute.c\<close>: attributes that do not fit the
  tail of the inode live in files of their own, which a B+tree per file names. The tree is the
  list of its entries in key order, and the calls that may fail take their outcome from
  \<open>agfs_io\<close>. The lemmas give the contents of the directory after each operation.
\<close>

subsection \<open>The attributes tree\<close>

fun attr_tree_insert :: "byte list \<Rightarrow> attr_file \<Rightarrow> (byte list \<times> attr_file) list \<Rightarrow> (byte list \<times> attr_file) list" where
  "attr_tree_insert name f [] = [(name, f)]"
| "attr_tree_insert name f ((k, g) # ts) =
     (if agfs_key_less name k then (name, f) # (k, g) # ts else (k, g) # attr_tree_insert name f ts)"

definition attr_tree_update :: "byte list \<Rightarrow> attr_file \<Rightarrow> (byte list \<times> attr_file) list \<Rightarrow> (byte list \<times> attr_file) list" where
  "attr_tree_update name f ts = map (\<lambda>(k, g). if k = name then (k, f) else (k, g)) ts"

definition attr_tree_delete :: "byte list \<Rightarrow> (byte list \<times> attr_file) list \<Rightarrow> (byte list \<times> attr_file) list" where
  "attr_tree_delete name ts = filter (\<lambda>(k, g). k \<noteq> name) ts"

definition attr_tree_iterate :: "agfs_io \<Rightarrow> (byte list \<times> attr_file) list \<Rightarrow> byte list list" where
  "attr_tree_iterate io ts =
     map fst (case io_iterate io of None \<Rightarrow> ts | Some k \<Rightarrow> take k ts)"

subsection \<open>The operations\<close>

definition agfs_attr_dir :: "agfs_io \<Rightarrow> agfs_inode \<Rightarrow> (byte list \<times> attr_file) list option" where
  "agfs_attr_dir io i = (case ag_attrs i of None \<Rightarrow> None | Some ts \<Rightarrow> if io_iget_dir io then Some ts else None)"

definition agfs_attr_dir_create :: "agfs_io \<Rightarrow> agfs_inode \<Rightarrow> agfs_inode option" where
  "agfs_attr_dir_create io i =
     (if io_dir_create io then Some (i\<lparr>ag_attrs := Some [], i_dirty := True\<rparr>) else None)"

text \<open>The search once the directory is loaded.\<close>

definition attr_lookup :: "agfs_io \<Rightarrow> (byte list \<times> attr_file) list \<Rightarrow> byte list \<Rightarrow> attr_file result" where
  "attr_lookup io ts name =
     (case map_of ts name of
        None \<Rightarrow> Inl ENODATA
      | Some f \<Rightarrow> if io_iget io name then Inr f else Inl EIO)"

definition agfs_attr_find :: "agfs_io \<Rightarrow> agfs_inode \<Rightarrow> byte list \<Rightarrow> attr_file result" where
  "agfs_attr_find io i name =
     (case agfs_attr_dir io i of
        None \<Rightarrow> Inl ENODATA
      | Some ts \<Rightarrow> attr_lookup io ts name)"

definition agfs_attr_write_stream ::
    "agfs_io \<Rightarrow> nat \<Rightarrow> attr_file \<Rightarrow> byte list \<Rightarrow> attr_file \<times> status" where
  "agfs_attr_write_stream io shift f value =
     (case stream_write (io_write io) shift value (length value) 0 (af_stream f) of
        (s, Some e) \<Rightarrow> (f\<lparr>af_stream := s\<rparr>, Some e)
      | (s, None) \<Rightarrow> (f\<lparr>af_stream := s, af_size := length value\<rparr>, None))"

text \<open>The directory with the attribute file present, and the file.\<close>

definition attr_ensure ::
    "agfs_io \<Rightarrow> (byte list \<times> attr_file) list \<Rightarrow> byte list \<Rightarrow> u32 \<Rightarrow> ((byte list \<times> attr_file) list \<times> attr_file) result" where
  "attr_ensure io ts name ty =
     (case attr_lookup io ts name of
        Inr f \<Rightarrow> Inr (ts, f)
      | Inl e \<Rightarrow>
         (if e = ENODATA then
            (if \<not> io_ialloc io then Inl ENOSPC
             else
               (let f = \<lparr>af_type = (if ty \<noteq> 0 then ty else AGFS_FILE_NAME_TYPE), af_stream = [], af_size = 0\<rparr>
                in case io_insert io of
                     Some e' \<Rightarrow> Inl e'
                   | None \<Rightarrow> Inr (attr_tree_insert name f ts, f)))
          else Inl e))"

definition agfs_attr_set ::
    "agfs_io \<Rightarrow> agfs_inode \<Rightarrow> byte list \<Rightarrow> byte list \<Rightarrow> u32 \<Rightarrow> agfs_inode \<times> status" where
  "agfs_attr_set io i0 name value ty =
     (let i1 = fst (agfs_xattr_remove_sd i0 name)
      in case (case agfs_attr_dir io i1 of Some ts \<Rightarrow> Some i1 | None \<Rightarrow> agfs_attr_dir_create io i1) of
           None \<Rightarrow> (i1, Some ENOSPC)
         | Some i \<Rightarrow>
            (case attr_ensure io (the (ag_attrs i)) name ty of
               Inl e \<Rightarrow> (i, Some e)
             | Inr (ts, f) \<Rightarrow>
                (case agfs_attr_write_stream io (ag_blkshift i) f value of
                   (f', st) \<Rightarrow> (i\<lparr>ag_attrs := Some (attr_tree_update name f' ts)\<rparr>, st))))"

text \<open>The number the C function returns, and the bytes it copies.\<close>

definition agfs_attr_get :: "agfs_io \<Rightarrow> agfs_inode \<Rightarrow> byte list \<Rightarrow> nat \<Rightarrow> (nat \<times> byte list) result" where
  "agfs_attr_get io i name sz =
     (case agfs_attr_find io i name of
        Inl e \<Rightarrow> Inl e
      | Inr f \<Rightarrow>
         (if sz = 0 then Inr (af_size f, [])
          else if sz < af_size f then Inl ERANGE
          else
            (case stream_read (io_read io) (ag_blkshift i) (af_stream f) (af_size f) 0 [] of
               Inl e \<Rightarrow> Inl e
             | Inr b \<Rightarrow> Inr (af_size f, b))))"

text \<open>A list under construction: the bytes written and the total, which counts on in a size query.\<close>

record xattr_list =
  xl_list :: "byte list"
  xl_total :: nat
  xl_errno :: status

definition agfs_attr_list_cb :: "nat \<Rightarrow> byte list \<Rightarrow> xattr_list \<Rightarrow> xattr_list \<times> bool" where
  "agfs_attr_list_cb sz name l =
     (if sz = 0 then (l\<lparr>xl_total := xl_total l + length name + 1\<rparr>, False)
      else if xl_total l + length name + 1 \<le> sz then
        (l\<lparr>xl_list := xl_list l @ name @ [0], xl_total := xl_total l + length name + 1\<rparr>, False)
      else (l\<lparr>xl_errno := Some ERANGE\<rparr>, True))"

text \<open>The iteration stops at the entry whose callback asks for it, and then returns zero.\<close>

fun attr_list_loop :: "nat \<Rightarrow> byte list list \<Rightarrow> xattr_list \<Rightarrow> xattr_list" where
  "attr_list_loop sz [] l = l"
| "attr_list_loop sz (n # ns) l =
     (case agfs_attr_list_cb sz n l of
        (l', stop) \<Rightarrow> if stop then l' else attr_list_loop sz ns l')"

text \<open>
  The error of the callback is reported only when the iteration returns nonzero, which it does
  for an I/O error and not when the callback stops it: the result is always a length.
\<close>

definition agfs_attr_list :: "agfs_io \<Rightarrow> agfs_inode \<Rightarrow> nat \<Rightarrow> byte list \<Rightarrow> nat \<Rightarrow> nat \<times> byte list" where
  "agfs_attr_list io i sz list0 start =
     (case agfs_attr_dir io i of
        None \<Rightarrow> (0, list0)
      | Some ts \<Rightarrow>
         (let l = attr_list_loop sz (attr_tree_iterate io ts) \<lparr>xl_list = list0, xl_total = start, xl_errno = None\<rparr>
          in (xl_total l - start, xl_list l)))"

definition agfs_attr_remove :: "agfs_io \<Rightarrow> agfs_inode \<Rightarrow> byte list \<Rightarrow> agfs_inode \<times> status" where
  "agfs_attr_remove io i name =
     (case agfs_attr_dir io i of
        None \<Rightarrow> (i, Some ENODATA)
      | Some ts \<Rightarrow>
         (case attr_lookup io ts name of
            Inl e \<Rightarrow> (i, Some e)
          | Inr f \<Rightarrow>
             (case io_delete io of
                Some e \<Rightarrow> (i, Some e)
              | None \<Rightarrow>
                 (let ts' = attr_tree_delete name ts
                  in if length (attr_tree_iterate io ts') = 0
                     then (i\<lparr>ag_attrs := None, i_dirty := True\<rparr>, None)
                     else (i\<lparr>ag_attrs := Some ts'\<rparr>, None)))))"

definition agfs_attr_free_all :: "agfs_io \<Rightarrow> agfs_inode \<Rightarrow> agfs_inode" where
  "agfs_attr_free_all io i =
     (case agfs_attr_dir io i of
        None \<Rightarrow> i
      | Some ts \<Rightarrow> i\<lparr>ag_attrs := None, i_dirty := True\<rparr>)"

subsection \<open>The contents of the directory\<close>

definition attr_files :: "agfs_inode \<Rightarrow> (byte list \<times> attr_file) list" where
  "attr_files i = (case ag_attrs i of None \<Rightarrow> [] | Some ts \<Rightarrow> ts)"

definition af_value :: "attr_file \<Rightarrow> byte list" where
  "af_value f = take (af_size f) (af_stream f)"

definition af_ok :: "byte list \<times> attr_file \<Rightarrow> bool" where
  "af_ok e \<longleftrightarrow> af_size (snd e) \<le> length (af_stream (snd e))"

text \<open>An environment in which no call fails.\<close>

definition io_good :: "agfs_io \<Rightarrow> bool" where
  "io_good io \<longleftrightarrow> io_iget_dir io \<and> (\<forall>n. io_iget io n) \<and> io_dir_create io \<and> io_ialloc io
     \<and> io_insert io = None \<and> io_delete io = None \<and> (\<forall>k. io_write io k = None)
     \<and> (\<forall>k. io_read io k = None) \<and> io_iterate io = None \<and> io_inode_block io"

lemma attr_tree_insert_props:
  "set (map fst (attr_tree_insert name f ts)) = insert name (set (map fst ts))"
  "name \<notin> set (map fst ts) \<Longrightarrow> distinct (map fst ts) \<Longrightarrow> distinct (map fst (attr_tree_insert name f ts))"
  "name \<notin> set (map fst ts) \<Longrightarrow> map_of (attr_tree_insert name f ts) = (map_of ts)(name \<mapsto> f)"
  "list_all af_ok (attr_tree_insert name f ts) = (af_ok (name, f) \<and> list_all af_ok ts)"
proof -
  show 1: "set (map fst (attr_tree_insert name f ts)) = insert name (set (map fst ts))" for ts
  proof (induction ts)
    case (Cons e ts)
    obtain k g where "e = (k, g)" by (cases e)
    then show ?case using Cons by (simp add: insert_commute)
  qed simp
  show "name \<notin> set (map fst ts) \<Longrightarrow> distinct (map fst ts) \<Longrightarrow> distinct (map fst (attr_tree_insert name f ts))"
  proof (induction ts)
    case (Cons e ts)
    then show ?case using 1 [of ts] by (cases e) auto
  qed simp
  show "name \<notin> set (map fst ts) \<Longrightarrow> map_of (attr_tree_insert name f ts) = (map_of ts)(name \<mapsto> f)"
    by (induction ts) auto
  show "list_all af_ok (attr_tree_insert name f ts) = (af_ok (name, f) \<and> list_all af_ok ts)"
    by (induction ts) (auto split: if_splits)
qed

lemma attr_tree_update_props:
  "map fst (attr_tree_update name f ts) = map fst ts"
  "name \<in> set (map fst ts) \<Longrightarrow> map_of (attr_tree_update name f ts) = (map_of ts)(name \<mapsto> f)"
  "af_ok (name, f) \<Longrightarrow> list_all af_ok ts \<Longrightarrow> list_all af_ok (attr_tree_update name f ts)"
proof -
  show "map fst (attr_tree_update name f ts) = map fst ts"
    by (induction ts) (auto simp: attr_tree_update_def)
  show "af_ok (name, f) \<Longrightarrow> list_all af_ok ts \<Longrightarrow> list_all af_ok (attr_tree_update name f ts)"
    by (induction ts) (auto simp: attr_tree_update_def af_ok_def)
  have gen: "map_of (attr_tree_update name f ts) a =
      (if a = name then (if name \<in> set (map fst ts) then Some f else None) else map_of ts a)" for a
  proof (induction ts)
    case (Cons e ts)
    obtain k g where "e = (k, g)" by (cases e)
    then show ?case using Cons by (cases "a = name") (simp_all add: attr_tree_update_def)
  qed (simp add: attr_tree_update_def)
  assume "name \<in> set (map fst ts)"
  then show "map_of (attr_tree_update name f ts) = (map_of ts)(name \<mapsto> f)"
    by (intro ext) (simp add: gen)
qed

lemma attr_tree_delete_props:
  "map fst (attr_tree_delete name ts) = filter (\<lambda>k. k \<noteq> name) (map fst ts)"
  "map_of (attr_tree_delete name ts) = (map_of ts)(name := None)"
  "list_all af_ok ts \<Longrightarrow> list_all af_ok (attr_tree_delete name ts)"
proof -
  show "map fst (attr_tree_delete name ts) = filter (\<lambda>k. k \<noteq> name) (map fst ts)"
    by (induction ts) (auto simp: attr_tree_delete_def)
  show "map_of (attr_tree_delete name ts) = (map_of ts)(name := None)"
    by (induction ts) (auto simp: attr_tree_delete_def)
  show "list_all af_ok ts \<Longrightarrow> list_all af_ok (attr_tree_delete name ts)"
    by (induction ts) (auto simp: attr_tree_delete_def)
qed

lemma agfs_attr_find_good:
  assumes "io_good io"
  shows "agfs_attr_find io i name =
    (case map_of (attr_files i) name of None \<Rightarrow> Inl ENODATA | Some f \<Rightarrow> Inr f)"
  using assms
  by (auto simp: agfs_attr_find_def agfs_attr_dir_def attr_lookup_def attr_files_def io_good_def
      split: option.splits)

lemma agfs_attr_get_good:
  assumes "io_good io" "list_all af_ok (attr_files i)"
  shows "agfs_attr_get io i name sz =
    (case map_of (attr_files i) name of None \<Rightarrow> Inl ENODATA | Some f \<Rightarrow> xattr_give sz (af_value f))"
proof (cases "map_of (attr_files i) name")
  case None
  then show ?thesis by (simp add: agfs_attr_get_def agfs_attr_find_good [OF assms(1)])
next
  case (Some f)
  then have "(name, f) \<in> set (attr_files i)" by (rule map_of_SomeD)
  then have l: "af_size f \<le> length (af_stream f)" using assms(2) by (auto simp: list_all_iff af_ok_def)
  have "stream_read (io_read io) (ag_blkshift i) (af_stream f) (af_size f) 0 [] = Inr (af_value f)"
    unfolding af_value_def using assms(1) l by (intro stream_read_ok) (auto simp: io_good_def)
  then show ?thesis using Some l
    by (simp add: agfs_attr_get_def agfs_attr_find_good [OF assms(1)] xattr_give_def af_value_def)
qed

lemma agfs_attr_write_stream_good:
  assumes "io_good io"
  obtains f' where "agfs_attr_write_stream io shift f v = (f', None)" "af_value f' = v"
    "af_type f' = af_type f" "af_ok (name, f')"
proof -
  obtain s' where s: "stream_write (io_write io) shift v (length v) 0 (af_stream f) = (s', None)"
    "length v \<le> length s'" "take (length v) s' = take (length v) v"
    using stream_write_ok [of "length v" "io_write io" v 0 "af_stream f" shift] assms
    by (auto simp: io_good_def)
  show ?thesis using s by (intro that [of "f\<lparr>af_stream := s', af_size := length v\<rparr>"])
    (auto simp: agfs_attr_write_stream_def af_value_def af_ok_def)
qed

lemma attr_ensure_good:
  assumes "io_good io" "distinct (map fst ts)" "list_all af_ok ts"
  obtains ts' f where "attr_ensure io ts name ty = Inr (ts', f)" "name \<in> set (map fst ts')"
    "set (map fst ts') = insert name (set (map fst ts))"
    "distinct (map fst ts')" "list_all af_ok ts'" "\<forall>k. k \<noteq> name \<longrightarrow> map_of ts' k = map_of ts k"
    "af_type f = (case map_of ts name of Some g \<Rightarrow> af_type g | None \<Rightarrow> if ty \<noteq> 0 then ty else AGFS_FILE_NAME_TYPE)"
proof (cases "map_of ts name")
  case (Some g)
  then have "name \<in> set (map fst ts)" by (metis map_of_eq_None_iff option.distinct(1) set_map)
  then show ?thesis using assms Some
    by (intro that [of ts g]) (auto simp: attr_ensure_def attr_lookup_def io_good_def insert_absorb)
next
  case None
  let ?f = "\<lparr>af_type = (if ty \<noteq> 0 then ty else AGFS_FILE_NAME_TYPE), af_stream = [], af_size = 0\<rparr>"
  have n: "name \<notin> set (map fst ts)" using None by (simp add: map_of_eq_None_iff)
  obtain f where f: "f = ?f" by simp
  have "attr_ensure io ts name ty = Inr (attr_tree_insert name f ts, f)"
    using assms(1) None by (simp add: attr_ensure_def attr_lookup_def io_good_def Let_def f)
  moreover have "af_ok (name, f)" "af_type f = (if ty \<noteq> 0 then ty else AGFS_FILE_NAME_TYPE)"
    by (simp_all add: f af_ok_def)
  ultimately show ?thesis
    using attr_tree_insert_props(1) [of name f ts] attr_tree_insert_props(2) [OF n assms(2), of f]
      attr_tree_insert_props(3) [OF n, of f] attr_tree_insert_props(4) [of name f ts] assms(3) None
    by (intro that [of "attr_tree_insert name f ts" f]) simp_all
qed

subsection \<open>The attributes of an inode\<close>

text \<open>
  The invariant of the two layers: no name occurs twice, in one layer or across them, and every
  attribute file has the bytes its size promises. The abstraction maps a name to the type and
  the value; the file name is the entry of the hidden name.
\<close>

definition xattr_ok :: "agfs_inode \<Rightarrow> bool" where
  "xattr_ok i \<longleftrightarrow> sd_ok i \<and> distinct (map sd_name (sd_recs i) @ map fst (attr_files i))
     \<and> list_all af_ok (attr_files i)"

definition xattr_abs :: "agfs_inode \<Rightarrow> byte list \<Rightarrow> (u32 \<times> byte list) option" where
  "xattr_abs i name =
     (case sd_lookup i name of
        Some r \<Rightarrow> Some (sd_type r, sd_data r)
      | None \<Rightarrow> map_option (\<lambda>f. (af_type f, af_value f)) (map_of (attr_files i) name))"

lemma find_filter_neq:
  "List.find (\<lambda>r. g r = k) (filter (\<lambda>r. g r \<noteq> n) xs) = (if k = n then None else List.find (\<lambda>r. g r = k) xs)"
  by (induction xs) auto

lemma find_append: "List.find P (xs @ ys) = (case List.find P xs of None \<Rightarrow> List.find P ys | Some x \<Rightarrow> Some x)"
  by (induction xs) auto

lemma xattr_ok_disjoint:
  "xattr_ok i \<Longrightarrow> sd_lookup i name = Some r \<Longrightarrow> map_of (attr_files i) name = None"
proof -
  assume a: "xattr_ok i" "sd_lookup i name = Some r"
  then have "name \<in> sd_name ` set (sd_recs i)"
    using sd_lookup_None [of i name] by auto
  then show ?thesis using a(1) by (auto simp: xattr_ok_def map_of_eq_None_iff)
qed

lemma agfs_attr_set_dir:
  assumes "io_good io"
  obtains i2 where
    "(case agfs_attr_dir io i1 of Some ts \<Rightarrow> Some i1 | None \<Rightarrow> agfs_attr_dir_create io i1) = Some i2"
    "ag_attrs i2 = Some (attr_files i1)" "ag_small_data i2 = ag_small_data i1"
    "ag_blkshift i2 = ag_blkshift i1" "ag_flags i2 = ag_flags i1"
  using assms
  by (cases "ag_attrs i1") (auto simp: agfs_attr_dir_def agfs_attr_dir_create_def io_good_def attr_files_def)

lemma agfs_attr_set_good:
  fixes ty :: u32
  assumes "io_good io" "xattr_ok i" "name \<noteq> [0x13]"
  defines "ty' \<equiv> (case map_of (attr_files i) name of Some g \<Rightarrow> af_type g | None \<Rightarrow> if ty \<noteq> 0 then ty else AGFS_FILE_NAME_TYPE)"
  obtains i' where "agfs_attr_set io i name v ty = (i', None)" "xattr_ok i'"
    "xattr_abs i' = (xattr_abs i)(name \<mapsto> (ty', v))" "ag_flags i' = ag_flags i" "ag_blkshift i' = ag_blkshift i"
proof -
  define i1 where "i1 = fst (agfs_xattr_remove_sd i name)"
  have ok: "sd_ok i" "distinct (map sd_name (sd_recs i))" "distinct (map fst (attr_files i))" "list_all af_ok (attr_files i)"
    using assms(2) by (auto simp: xattr_ok_def)
  note r1 = agfs_xattr_remove_sd_ok [OF ok(1) assms(3) ok(2), folded i1_def]
  have f1: "attr_files i1 = attr_files i" using r1(3) by (simp add: attr_files_def)
  obtain i2 where i2: "(case agfs_attr_dir io i1 of Some ts \<Rightarrow> Some i1 | None \<Rightarrow> agfs_attr_dir_create io i1) = Some i2"
    "ag_attrs i2 = Some (attr_files i1)" "ag_small_data i2 = ag_small_data i1"
    "ag_blkshift i2 = ag_blkshift i1" "ag_flags i2 = ag_flags i1" using agfs_attr_set_dir [OF assms(1)] by blast
  obtain ts f where e: "attr_ensure io (attr_files i) name ty = Inr (ts, f)" "name \<in> set (map fst ts)"
    "set (map fst ts) = insert name (set (map fst (attr_files i)))" "distinct (map fst ts)" "list_all af_ok ts"
    "\<forall>k. k \<noteq> name \<longrightarrow> map_of ts k = map_of (attr_files i) k" "af_type f = ty'"
    unfolding ty'_def using attr_ensure_good [OF assms(1) ok(3,4), of name ty] by blast
  obtain f' where w: "agfs_attr_write_stream io (ag_blkshift i2) f v = (f', None)" "af_value f' = v"
    "af_type f' = af_type f" "af_ok (name, f')" using agfs_attr_write_stream_good [OF assms(1)] by blast
  define i' where "i' = i2\<lparr>ag_attrs := Some (attr_tree_update name f' ts)\<rparr>"
  note u = attr_tree_update_props(1) [of name f' ts] attr_tree_update_props(2) [OF e(2), of f'] attr_tree_update_props(3) [OF w(4) e(5)]
  have set: "agfs_attr_set io i name v ty = (i', None)"
    unfolding agfs_attr_set_def Let_def i1_def [symmetric] i2(1) using i2(2) e(1) w(1) by (simp add: f1 i'_def)
  have files: "attr_files i' = attr_tree_update name f' ts" by (simp add: i'_def attr_files_def)
  have recs: "sd_ok i'" "sd_recs i' = filter (\<lambda>r. sd_name r \<noteq> name) (sd_recs i)"
    using r1(1,2) sd_ok_cong [of i' i1] i2(3,4) by (simp_all add: i'_def)
  have d: "distinct (map sd_name (sd_recs i) @ map fst (attr_files i))" using assms(2) by (simp add: xattr_ok_def)
  have d1: "distinct (map sd_name (filter (\<lambda>r. sd_name r \<noteq> name) (sd_recs i)))"
    using ok(2) by (rule distinct_map_filter)
  have "set (map sd_name (filter (\<lambda>r. sd_name r \<noteq> name) (sd_recs i))) \<inter> set (map fst ts) = {}"
    using d e(3) by auto
  then have ok': "xattr_ok i'"
    using d1 recs e(4) u(1,3) by (simp add: xattr_ok_def files)
  have lk: "sd_lookup i' k = (if k = name then None else sd_lookup i k)" for k
    by (simp add: sd_lookup_def recs find_filter_neq)
  have "xattr_abs i' k = ((xattr_abs i)(name \<mapsto> (ty', v))) k" for k
    using e(6,7) u(2) w(2,3) by (cases "k = name") (simp_all add: xattr_abs_def lk files split: option.split)
  then have "xattr_abs i' = (xattr_abs i)(name \<mapsto> (ty', v))" by blast
  then show ?thesis using that [OF set ok'] i2 r1 by (simp add: i'_def)
qed

lemma agfs_attr_remove_good:
  assumes "io_good io" "sd_ok i"
  shows "map_of (attr_files i) name = None \<Longrightarrow> agfs_attr_remove io i name = (i, Some ENODATA)"
    "map_of (attr_files i) name \<noteq> None \<Longrightarrow> \<exists>i'. agfs_attr_remove io i name = (i', None) \<and> sd_ok i' \<and> sd_recs i' = sd_recs i
       \<and> attr_files i' = attr_tree_delete name (attr_files i) \<and> ag_flags i' = ag_flags i \<and> ag_blkshift i' = ag_blkshift i"
proof -
  show "map_of (attr_files i) name = None \<Longrightarrow> agfs_attr_remove io i name = (i, Some ENODATA)"
    by (auto simp: agfs_attr_remove_def agfs_attr_dir_def attr_files_def attr_lookup_def split: option.splits)
  assume "map_of (attr_files i) name \<noteq> None"
  then obtain f ts where f: "map_of ts name = Some f" "ag_attrs i = Some ts" "attr_files i = ts"
    by (auto simp: attr_files_def split: option.splits)
  define i' where "i' = (if attr_tree_delete name ts = [] then i\<lparr>ag_attrs := None, i_dirty := True\<rparr>
     else i\<lparr>ag_attrs := Some (attr_tree_delete name ts)\<rparr>)"
  have "agfs_attr_remove io i name = (i', None)"
    using assms(1) f by (simp add: agfs_attr_remove_def agfs_attr_dir_def attr_lookup_def io_good_def
        attr_tree_iterate_def i'_def Let_def)
  moreover have "attr_files i' = attr_tree_delete name ts" by (simp add: i'_def attr_files_def)
  moreover have "sd_ok i' = sd_ok i" "sd_recs i' = sd_recs i" by (rule sd_ok_cong; simp add: i'_def)+
  ultimately show "\<exists>i'. agfs_attr_remove io i name = (i', None) \<and> sd_ok i' \<and> sd_recs i' = sd_recs i
       \<and> attr_files i' = attr_tree_delete name (attr_files i) \<and> ag_flags i' = ag_flags i \<and> ag_blkshift i' = ag_blkshift i"
    using assms(2) f(3) by (auto simp: i'_def)
qed

lemma xattr_files_delete:
  assumes "xattr_ok i" "sd_ok i'" "sd_recs i' = sd_recs i" "attr_files i' = attr_tree_delete name (attr_files i)"
    "sd_lookup i name = None"
  shows "xattr_ok i'" "xattr_abs i' = (xattr_abs i)(name := None)"
proof -
  show "xattr_ok i'" using assms(1-4) attr_tree_delete_props(1) [of name "attr_files i"]
      attr_tree_delete_props(3) [of "attr_files i" name]
    by (auto simp: xattr_ok_def)
  have "sd_lookup i' k = sd_lookup i k" for k by (simp add: sd_lookup_def assms(3))
  then show "xattr_abs i' = (xattr_abs i)(name := None)"
    using assms(5) by (intro ext) (simp add: xattr_abs_def assms(4) attr_tree_delete_props(2) split: option.split)
qed

end
