(* ===== verification/Agfs_Xattr.thy ===== *)
theory Agfs_Xattr
  imports Agfs_Attr
begin

text \<open>
  The attribute operations of AGFS, \<^verbatim>\<open>fs/agfs/xattr.c\<close>: reading, setting, listing and removing
  an attribute over the two layers of storage, the records in the tail of the inode
  (\<open>Small_Data\<close>) and the attributes directory (\<open>Agfs_Attr\<close>), and the hidden record of the file
  name. The properties are the round trips of an attribute set and read back, the independence
  of other attributes, the flags of a set, the listing, and the file name.
\<close>

subsection \<open>Reading\<close>

definition agfs_getxattr :: "agfs_io \<Rightarrow> agfs_inode \<Rightarrow> byte list \<Rightarrow> nat \<Rightarrow> (nat \<times> byte list) result" where
  "agfs_getxattr io i name sz =
     (if agfs_xattr_refuse_name name then Inl EACCES
      else if ag_inline i then Inl ENODATA
      else
        (case sd_find i name of
           Some sd \<Rightarrow>
             (if sz = 0 then Inr (sd_data_size sd, [])
              else if sz < sd_data_size sd then Inl ERANGE
              else Inr (sd_data_size sd, sd_data sd))
         | None \<Rightarrow> agfs_attr_get io i name sz))"

subsection \<open>Setting\<close>

text \<open>The existence checks: the type to store, and whether the directory has the attribute.\<close>

definition setxattr_prepare ::
    "agfs_io \<Rightarrow> agfs_inode \<Rightarrow> byte list \<Rightarrow> u32 \<Rightarrow> (u32 \<times> bool) result" where
  "setxattr_prepare io i name flags =
     (case sd_find i name of
        Some sd \<Rightarrow>
          (if flags AND XATTR_CREATE \<noteq> 0 then Inl EEXIST else Inr (sd_type sd, False))
      | None \<Rightarrow>
         (case agfs_attr_find io i name of
            Inr f \<Rightarrow>
              (if flags AND XATTR_CREATE \<noteq> 0 then Inl EEXIST else Inr (af_type f, True))
          | Inl e \<Rightarrow>
              (if flags AND XATTR_REPLACE \<noteq> 0 then Inl ENODATA
               else Inr (AGFS_FILE_NAME_TYPE, False))))"

text \<open>The copy of the other records, and the new record behind them or in the directory.\<close>

definition setxattr_store ::
    "agfs_io \<Rightarrow> agfs_inode \<Rightarrow> byte list \<Rightarrow> byte list \<Rightarrow> u32 \<Rightarrow> bool \<Rightarrow> agfs_inode \<times> status" where
  "setxattr_store io i name value ty tree_found =
     (let found = (sd_find i name \<noteq> None);
          q = sd_copy (\<lambda>sd. \<not> (found \<and> sd_name_size sd = length name \<and> sd_name sd = name))
                (ag_small_data i) (ag_tail i)
      in if length q + sd_size (length name) (length value) > ag_tail i
         then agfs_attr_set io i name value ty
         else
           (let i' = sd_install i (q @ sd_record ty name value)
            in (if tree_found then fst (agfs_attr_remove io i' name) else i', None)))"

definition agfs_setxattr ::
    "agfs_io \<Rightarrow> mem \<Rightarrow> agfs_inode \<Rightarrow> byte list \<Rightarrow> byte list \<Rightarrow> u32 \<Rightarrow> agfs_inode \<times> status" where
  "agfs_setxattr io m i0 name value flags =
     (case (if ag_inline i0 then agfs_inline_expand io i0 else (i0, None)) of
        (i, Some e) \<Rightarrow> (i, Some ENOSPC)
      | (i, None) \<Rightarrow>
         (if length name > AGFS_ATTR_NAME_MAX then (i, Some ENAMETOOLONG)
          else if agfs_xattr_refuse_name name then (i, Some EACCES)
          else if flags AND NOT (XATTR_CREATE OR XATTR_REPLACE) \<noteq> 0 then (i, Some EINVAL)
          else if length value > 0x7FFFFFFF then (i, Some ENOSPC)
          else if \<not> kmalloc_ok m then (i, Some ENOMEM)
          else
            (case setxattr_prepare io i name flags of
               Inl e \<Rightarrow> (i, Some e)
             | Inr (ty, tree_found) \<Rightarrow> setxattr_store io i name value ty tree_found)))"

subsection \<open>Removing\<close>

definition agfs_removexattr :: "agfs_io \<Rightarrow> agfs_inode \<Rightarrow> byte list \<Rightarrow> agfs_inode \<times> status" where
  "agfs_removexattr io i name =
     (if agfs_xattr_refuse_name name then (i, Some EACCES)
      else if ag_inline i then (i, Some ENODATA)
      else if \<not> snd (agfs_xattr_walk (agfs_xattr_remove_cb name) (ag_small_data i) (ag_tail i) ())
      then agfs_attr_remove io i name
      else (i\<lparr>ag_small_data := sd_compact name (ag_small_data i) (ag_tail i), i_dirty := True\<rparr>, None))"

subsection \<open>The file name\<close>

text \<open>What \<^verbatim>\<open>agfs_write_inode\<close> does to the tail: it is recorded in the inode block.\<close>

definition agfs_write_inode_tail :: "agfs_io \<Rightarrow> agfs_inode \<Rightarrow> agfs_inode" where
  "agfs_write_inode_tail io i =
     (if io_inode_block io
      then i\<lparr>ag_block_tail := take (ag_tail i) (ag_small_data i), i_dirty := False\<rparr> else i)"

definition agfs_inode_set_name ::
    "agfs_io \<Rightarrow> mem \<Rightarrow> agfs_inode \<Rightarrow> byte list \<Rightarrow> agfs_inode \<times> status" where
  "agfs_inode_set_name io m i0 name =
     (case (if ag_inline i0 then agfs_inline_expand io i0 else (i0, None)) of
        (i, Some e) \<Rightarrow> (i, Some ENOSPC)
      | (i, None) \<Rightarrow>
         (if \<not> kmalloc_ok m then (i, Some ENOMEM)
          else
            (let q = sd_copy (\<lambda>sd. \<not> sd_is_name sd) (ag_small_data i) (ag_tail i)
             in if length q + sd_size 1 (length name) > ag_tail i then (i, Some ENOSPC)
                else (agfs_write_inode_tail io
                        (sd_install i (q @ sd_record AGFS_FILE_NAME_TYPE [0x13] name)), None))))"

text \<open>The scan for the name tests neither for the end of the records nor for the name byte.\<close>

function sd_get_name :: "byte list \<Rightarrow> nat \<Rightarrow> nat \<Rightarrow> byte list result" where
  "sd_get_name p left sz =
     (if left \<ge> AGFS_SD_HDR then
        (if sd_name_size p = 1 \<and> sd_data_size p \<noteq> 0 \<and> sd_type p = AGFS_FILE_NAME_TYPE then
           Inr (take (if sd_data_size p > sz then sz else sd_data_size p) (drop (AGFS_SD_HDR + 4) p))
         else sd_get_name (drop (sd_need p) p) (left - sd_need p) sz)
      else Inl ENOENT)"
  by pat_completeness auto
termination sd_get_name
  by (relation "measure (\<lambda>(p, left, sz). left)") (auto simp: sd_need_def sd_size_def)

declare sd_get_name.simps [simp del]

definition agfs_inode_get_name :: "agfs_inode \<Rightarrow> nat \<Rightarrow> byte list result" where
  "agfs_inode_get_name i sz = sd_get_name (ag_small_data i) (ag_tail i) sz"

subsection \<open>Listing\<close>

definition agfs_xattr_list_cb :: "nat \<Rightarrow> byte list \<Rightarrow> xattr_list \<Rightarrow> xattr_list \<times> bool" where
  "agfs_xattr_list_cb sz sd l =
     (if sd_is_name sd then (l, False)
      else if sz = 0 then (l\<lparr>xl_total := xl_total l + sd_name_size sd + 1\<rparr>, False)
      else if xl_total l + sd_name_size sd + 1 \<le> sz then
        (l\<lparr>xl_list := xl_list l @ sd_name sd @ [0], xl_total := xl_total l + sd_name_size sd + 1\<rparr>, False)
      else (l\<lparr>xl_errno := Some ERANGE\<rparr>, True))"

text \<open>The result: the total and the bytes written to the list.\<close>

definition agfs_listxattr :: "agfs_io \<Rightarrow> agfs_inode \<Rightarrow> nat \<Rightarrow> (nat \<times> byte list) result" where
  "agfs_listxattr io i sz =
     (if ag_inline i then Inr (0, [])
      else
        (let (l, res) = agfs_xattr_walk (agfs_xattr_list_cb sz) (ag_small_data i) (ag_tail i)
               \<lparr>xl_list = [], xl_total = 0, xl_errno = None\<rparr>
         in case xl_errno l of
              Some e \<Rightarrow> Inl e
            | None \<Rightarrow>
               (let (n, b) = agfs_attr_list io i sz (xl_list l) (xl_total l)
                in Inr (xl_total l + n, b))))"

subsection \<open>Attribute types\<close>

definition agfs_attr_info :: "agfs_io \<Rightarrow> agfs_inode \<Rightarrow> byte list \<Rightarrow> (u32 \<times> nat) result" where
  "agfs_attr_info io i name =
     (case sd_find i name of
        Some sd \<Rightarrow> Inr (sd_type sd, sd_data_size sd)
      | None \<Rightarrow>
         (case agfs_attr_find io i name of
            Inl e \<Rightarrow> Inl e
          | Inr f \<Rightarrow> Inr (af_type f, af_size f)))"

definition agfs_attr_set_type :: "agfs_io \<Rightarrow> agfs_inode \<Rightarrow> byte list \<Rightarrow> u32 \<Rightarrow> agfs_inode \<times> status" where
  "agfs_attr_set_type io i name ty =
     (case sd_find i name of
        Some sd \<Rightarrow>
          (let off = length (ag_small_data i) - length sd in
           (i\<lparr>ag_small_data := take off (ag_small_data i) @ le_enc 4 (unat ty) @ drop (off + 4) (ag_small_data i),
              i_dirty := True\<rparr>, None))
      | None \<Rightarrow>
         (case agfs_attr_find io i name of
            Inl e \<Rightarrow> (i, Some e)
          | Inr f \<Rightarrow>
             (i\<lparr>ag_attrs := map_option (attr_tree_update name (f\<lparr>af_type := ty\<rparr>)) (ag_attrs i)\<rparr>, None)))"

subsection \<open>The operations on the abstract attributes\<close>

lemma agfs_getxattr_good:
  assumes "io_good io" "xattr_ok i" "\<not> ag_inline i" "name \<noteq> [0x13]"
  shows "agfs_getxattr io i name sz =
    (case xattr_abs i name of None \<Rightarrow> Inl ENODATA | Some (t, v) \<Rightarrow> xattr_give sz v)"
proof -
  have ok: "sd_ok i" "list_all af_ok (attr_files i)" using assms(2) by (simp_all add: xattr_ok_def)
  show ?thesis
  proof (cases "sd_lookup i name")
    case None
    then have "sd_find i name = None" by (rule sd_find_lookup(1) [OF ok(1) assms(4)])
    then show ?thesis using assms(3,4) None
      by (simp add: agfs_getxattr_def agfs_xattr_refuse_name_def agfs_attr_get_good [OF assms(1) ok(2)] xattr_abs_def
          split: option.split)
  next
    case (Some r)
    then obtain x where x: "sd_find i name = Some (r @ x)" using sd_find_lookup(2) [OF ok(1) assms(4)] by blast
    have "sd_valid r" using sd_lookup_valid [OF ok(1) Some] by simp
    then show ?thesis using assms(3,4) Some x
      by (simp add: agfs_getxattr_def agfs_xattr_refuse_name_def xattr_abs_def xattr_give_def sd_valid_append sd_valid_sizes)
  qed
qed

lemma xattr_put_inline:
  assumes "xattr_ok i" "sd_ok i'" "sd_recs i' = filter (\<lambda>r. sd_name r \<noteq> name) (sd_recs i) @ [r]"
    "attr_files i' = attr_tree_delete name (attr_files i)" "sd_view r = (ty, name, v)"
  shows "xattr_ok i'" "xattr_abs i' = (xattr_abs i)(name \<mapsto> (ty, v))"
proof -
  have r: "sd_type r = ty" "sd_name r = name" "sd_data r = v" using assms(5) by (auto simp: sd_view_def)
  have "distinct (map sd_name (sd_recs i))" "distinct (map fst (attr_files i))"
    "set (map sd_name (sd_recs i)) \<inter> set (map fst (attr_files i)) = {}" "list_all af_ok (attr_files i)"
    using assms(1) by (simp_all add: xattr_ok_def)
  then show "xattr_ok i'"
    using assms(2) attr_tree_delete_props(1) [of name "attr_files i"] attr_tree_delete_props(3) [of "attr_files i" name]
    unfolding xattr_ok_def assms(3,4) by (auto simp: r distinct_map_filter)
  have lk: "sd_lookup i' k = (if k = name then Some r else sd_lookup i k)" for k
    by (simp add: sd_lookup_def assms(3) find_append find_filter_neq r split: option.split)
  show "xattr_abs i' = (xattr_abs i)(name \<mapsto> (ty, v))"
    by (intro ext) (simp add: xattr_abs_def lk assms(4) attr_tree_delete_props(2) r split: option.split)
qed

lemma sd_copy_recs:
  assumes "sd_ok i" "\<And>r x. sd_valid r \<Longrightarrow> keep (r @ x) = keep r"
  shows "sd_copy keep (ag_small_data i) (ag_tail i) = concat (filter keep (sd_recs i))"
  using assms(1) sd_copy_raws [OF _ assms(2)] by (auto simp: sd_recs_def sd_ok_def)

lemma setxattr_copy:
  assumes "sd_ok i" "name \<noteq> [0x13]"
  shows "sd_copy (\<lambda>sd. \<not> (sd_find i name \<noteq> None \<and> sd_name_size sd = length name \<and> sd_name sd = name))
      (ag_small_data i) (ag_tail i) = concat (filter (\<lambda>r. sd_name r \<noteq> name) (sd_recs i))"
proof -
  have v: "list_all sd_valid (sd_recs i)" using assms(1) by (rule sd_ok_cases)
  have f: "(sd_find i name \<noteq> None) = (sd_lookup i name \<noteq> None)"
    using sd_find_lookup [OF assms] by (cases "sd_lookup i name") auto
  have "filter (\<lambda>sd. \<not> (sd_find i name \<noteq> None \<and> sd_name_size sd = length name \<and> sd_name sd = name)) (sd_recs i)
    = filter (\<lambda>r. sd_name r \<noteq> name) (sd_recs i)"
    using v unfolding f sd_lookup_None by (intro filter_cong) (auto simp: list_all_iff sd_valid_match)
  then show ?thesis by (subst sd_copy_recs [OF assms(1)]) (simp_all add: sd_valid_append)
qed

lemma setxattr_store_good:
  assumes "io_good io" "xattr_ok i" "name \<noteq> [0x13]" "name \<noteq> []" "length name \<le> AGFS_ATTR_NAME_MAX"
    "tree_found = (sd_lookup i name = None \<and> map_of (attr_files i) name \<noteq> None)"
    "\<And>f. map_of (attr_files i) name = Some f \<Longrightarrow> af_type f = ty"
  obtains i' ty' where "setxattr_store io i name v ty tree_found = (i', None)" "xattr_ok i'"
    "xattr_abs i' = (xattr_abs i)(name \<mapsto> (ty', v))" "ty \<noteq> 0 \<longrightarrow> ty' = ty" "ag_flags i' = ag_flags i"
proof -
  let ?rs = "filter (\<lambda>r. sd_name r \<noteq> name) (sd_recs i)"
  have ok: "sd_ok i" using assms(2) by (simp add: xattr_ok_def)
  have v0: "list_all sd_valid (sd_recs i)" using ok by (rule sd_ok_cases)
  have st: "setxattr_store io i name v ty tree_found =
    (if length (concat ?rs) + sd_size (length name) (length v) > ag_tail i then agfs_attr_set io i name v ty
     else (let i' = sd_install i (concat ?rs @ sd_record ty name v)
           in (if tree_found then fst (agfs_attr_remove io i' name) else i', None)))"
    unfolding setxattr_store_def by (simp only: Let_def setxattr_copy [OF ok assms(3)])
  show ?thesis
  proof (cases "length (concat ?rs) + sd_size (length name) (length v) > ag_tail i")
    case True
    define ty' where "ty' = (case map_of (attr_files i) name of Some g \<Rightarrow> af_type g
         | None \<Rightarrow> if ty \<noteq> 0 then ty else AGFS_FILE_NAME_TYPE)"
    obtain i' where "agfs_attr_set io i name v ty = (i', None)" "xattr_ok i'"
      "xattr_abs i' = (xattr_abs i)(name \<mapsto> (ty', v))" "ag_flags i' = ag_flags i"
      using agfs_attr_set_good [OF assms(1-3), of v ty] unfolding ty'_def by blast
    moreover have "ty \<noteq> 0 \<longrightarrow> ty' = ty" using assms(7) by (auto simp: ty'_def split: option.split)
    ultimately show ?thesis using True by (intro that [of i' ty']) (simp_all add: st)
  next
    case False
    let ?rec = "sd_record ty name v"
    let ?i1 = "sd_install i (concat (?rs @ [?rec]))"
    have "ag_tail i \<le> AGFS_SMALL_DATA_SIZE" using ok by (simp add: sd_ok_def)
    then have "length v < 65536" "length name < 65536" using False assms(5) by (simp_all add: sd_size_def)
    note rec = sd_record_valid [OF assms(4) this(2,1), of ty]
    have "list_all sd_valid (?rs @ [?rec])" using v0 rec(1) by (auto simp: list_all_iff)
    moreover have "length (concat (?rs @ [?rec])) \<le> ag_tail i" using False rec(3) by simp
    ultimately have i1: "sd_ok ?i1" "sd_recs ?i1 = ?rs @ [?rec]" by (rule sd_ok_install [OF ok])+
    have fi: "attr_files ?i1 = attr_files i" "ag_flags ?i1 = ag_flags i" by (simp_all add: sd_install_def attr_files_def)
    obtain i' where i': "(if tree_found then fst (agfs_attr_remove io ?i1 name) else ?i1) = i'" "sd_ok i'"
      "sd_recs i' = ?rs @ [?rec]" "attr_files i' = attr_tree_delete name (attr_files i)" "ag_flags i' = ag_flags i"
    proof (cases tree_found)
      case True
      then have "map_of (attr_files ?i1) name \<noteq> None" using assms(6) fi by simp
      from agfs_attr_remove_good(2) [OF assms(1) i1(1) this] i1 fi True show ?thesis by (auto intro: that)
    next
      case False
      then have "map_of (attr_files i) name = None"
        using assms(6) xattr_ok_disjoint [OF assms(2)] by (cases "sd_lookup i name") auto
      then have "attr_tree_delete name (attr_files i) = attr_files i"
        by (auto simp: attr_tree_delete_def filter_id_conv map_of_eq_None_iff image_iff)
      then show ?thesis using False i1 fi by (intro that [of ?i1]) simp_all
    qed
    have "setxattr_store io i name v ty tree_found = (i', None)"
      unfolding st using False i'(1) by (cases tree_found) (simp_all add: Let_def)
    with xattr_put_inline [OF assms(2) i'(2-4) rec(2)] i'(5) show ?thesis by (intro that [of i' ty]) simp_all
  qed
qed

lemma setxattr_prepare_good:
  assumes "io_good io" "xattr_ok i" "name \<noteq> [0x13]"
  shows "setxattr_prepare io i name flags =
    (case xattr_abs i name of
       Some (t, v) \<Rightarrow> if flags AND XATTR_CREATE \<noteq> 0 then Inl EEXIST
         else Inr (t, sd_lookup i name = None \<and> map_of (attr_files i) name \<noteq> None)
     | None \<Rightarrow> if flags AND XATTR_REPLACE \<noteq> 0 then Inl ENODATA else Inr (AGFS_FILE_NAME_TYPE, False))"
proof -
  have ok: "sd_ok i" using assms(2) by (simp add: xattr_ok_def)
  show ?thesis
  proof (cases "sd_lookup i name")
    case None
    then have "sd_find i name = None" by (rule sd_find_lookup(1) [OF ok assms(3)])
    then show ?thesis using None
      by (simp add: setxattr_prepare_def agfs_attr_find_good [OF assms(1)] xattr_abs_def split: option.split)
  next
    case (Some r)
    then obtain x where x: "sd_find i name = Some (r @ x)" using sd_find_lookup(2) [OF ok assms(3)] by blast
    have "sd_valid r" using sd_lookup_valid [OF ok Some] by simp
    then show ?thesis using Some x by (simp add: setxattr_prepare_def xattr_abs_def sd_valid_append)
  qed
qed

lemma agfs_setxattr_good:
  assumes "io_good io" "kmalloc_ok m" "xattr_ok i" "\<not> ag_inline i" "name \<noteq> []" "name \<noteq> [0x13]"
    "length name \<le> AGFS_ATTR_NAME_MAX" "flags AND NOT (XATTR_CREATE OR XATTR_REPLACE) = 0" "length v \<le> 0x7FFFFFFF"
  shows "(xattr_abs i name \<noteq> None \<and> flags AND XATTR_CREATE \<noteq> 0 \<longrightarrow> agfs_setxattr io m i name v flags = (i, Some EEXIST))
    \<and> (xattr_abs i name = None \<and> flags AND XATTR_REPLACE \<noteq> 0 \<longrightarrow> agfs_setxattr io m i name v flags = (i, Some ENODATA))
    \<and> ((xattr_abs i name \<noteq> None \<longrightarrow> flags AND XATTR_CREATE = 0) \<and> (xattr_abs i name = None \<longrightarrow> flags AND XATTR_REPLACE = 0) \<longrightarrow>
       (\<exists>i' ty. agfs_setxattr io m i name v flags = (i', None) \<and> xattr_ok i' \<and> \<not> ag_inline i'
         \<and> xattr_abs i' = (xattr_abs i)(name \<mapsto> (ty, v))
         \<and> (case xattr_abs i name of None \<Rightarrow> ty = AGFS_FILE_NAME_TYPE | Some (t, u) \<Rightarrow> t \<noteq> 0 \<longrightarrow> ty = t)))"
proof -
  have e: "agfs_setxattr io m i name v flags =
    (case setxattr_prepare io i name flags of Inl e \<Rightarrow> (i, Some e)
     | Inr (ty, tree_found) \<Rightarrow> setxattr_store io i name v ty tree_found)"
    using assms(2,4-9) by (simp add: agfs_setxattr_def agfs_xattr_refuse_name_def not_less)
  note p = setxattr_prepare_good [OF assms(1,3,6)]
  show ?thesis
  proof (cases "xattr_abs i name")
    case None
    then have n: "map_of (attr_files i) name = None" by (simp add: xattr_abs_def split: option.splits)
    obtain i' ty' where "setxattr_store io i name v AGFS_FILE_NAME_TYPE False = (i', None)" "xattr_ok i'"
      "xattr_abs i' = (xattr_abs i)(name \<mapsto> (ty', v))" "ty' = AGFS_FILE_NAME_TYPE" "ag_flags i' = ag_flags i"
      using setxattr_store_good [OF assms(1,3,6,5,7), of False AGFS_FILE_NAME_TYPE v] n by auto
    then show ?thesis using None assms(4) by (auto simp: e p ag_inline_def)
  next
    case (Some tv)
    obtain t u where tv: "tv = (t, u)" by (cases tv)
    have "af_type f = t" if "map_of (attr_files i) name = Some f" for f
      using Some that xattr_ok_disjoint [OF assms(3), of name] tv
      by (cases "sd_lookup i name") (auto simp: xattr_abs_def)
    then obtain i' ty' where s: "setxattr_store io i name v t (sd_lookup i name = None \<and> map_of (attr_files i) name \<noteq> None) = (i', None)" "xattr_ok i'"
      "xattr_abs i' = (xattr_abs i)(name \<mapsto> (ty', v))" "t \<noteq> 0 \<longrightarrow> ty' = t" "ag_flags i' = ag_flags i"
      using setxattr_store_good [OF assms(1,3,6,5,7) refl, of t v] by blast
    then have "\<exists>i' ty. agfs_setxattr io m i name v flags = (i', None) \<and> xattr_ok i' \<and> \<not> ag_inline i'
         \<and> xattr_abs i' = (xattr_abs i)(name \<mapsto> (ty, v)) \<and> (t \<noteq> 0 \<longrightarrow> ty = t)" if "flags AND XATTR_CREATE = 0"
      using that Some assms(4) by (intro exI [of _ i'] exI [of _ ty']) (simp add: e p tv ag_inline_def)
    then show ?thesis using Some by (simp add: e p tv)
  qed
qed

lemma agfs_removexattr_good:
  assumes "io_good io" "xattr_ok i" "\<not> ag_inline i" "name \<noteq> [0x13]"
  shows "(xattr_abs i name = None \<longrightarrow> agfs_removexattr io i name = (i, Some ENODATA))
    \<and> (xattr_abs i name \<noteq> None \<longrightarrow> (\<exists>i'. agfs_removexattr io i name = (i', None) \<and> xattr_ok i' \<and> \<not> ag_inline i'
         \<and> xattr_abs i' = (xattr_abs i)(name := None)))"
proof (cases "sd_lookup i name")
  case None
  have ok: "sd_ok i" using assms(2) by (simp add: xattr_ok_def)
  have e: "agfs_removexattr io i name = agfs_attr_remove io i name"
    using None assms(3,4) by (simp add: agfs_removexattr_def agfs_xattr_refuse_name_def remove_walk_lookup [OF ok assms(4)])
  have a: "(xattr_abs i name = None) = (map_of (attr_files i) name = None)" using None by (simp add: xattr_abs_def)
  show ?thesis
    using agfs_attr_remove_good [OF assms(1) ok, of name] xattr_files_delete [OF assms(2) _ _ _ None] assms(3)
    unfolding a e by (auto simp: ag_inline_def)
next
  case (Some r)
  have ok: "sd_ok i" "distinct (map sd_name (sd_recs i))" using assms(2) by (simp_all add: xattr_ok_def)
  define i' where "i' = i\<lparr>ag_small_data := sd_compact name (ag_small_data i) (ag_tail i), i_dirty := True\<rparr>"
  have e: "agfs_removexattr io i name = (i', None)"
    using Some assms(3,4) by (simp add: agfs_removexattr_def agfs_xattr_refuse_name_def remove_walk_lookup [OF ok(1) assms(4)] i'_def)
  have "ag_tail i \<le> AGFS_SMALL_DATA_SIZE" using ok(1) by (simp add: sd_ok_def)
  from sd_ok_compact [OF ok(1) sd_lookup_list_ex [OF Some] order_refl this, of i']
    rem_first_filter [OF ok(2), of "\<lambda>r. sd_name r = name" name]
  have c: "sd_ok i'" "sd_recs i' = filter (\<lambda>r. sd_name r \<noteq> name) (sd_recs i)" by (simp_all add: i'_def)
  have f: "attr_files i' = attr_files i" by (simp add: i'_def attr_files_def)
  have "xattr_ok i'" using assms(2) c unfolding xattr_ok_def f by (auto simp: distinct_map_filter)
  moreover have "sd_lookup i' k = (if k = name then None else sd_lookup i k)" for k
    by (simp add: sd_lookup_def c find_filter_neq)
  then have "xattr_abs i' = (xattr_abs i)(name := None)"
    using xattr_ok_disjoint [OF assms(2) Some] by (intro ext) (simp add: xattr_abs_def f split: option.split)
  moreover have "xattr_abs i name \<noteq> None" using Some by (simp add: xattr_abs_def)
  ultimately show ?thesis using e assms(3) by (simp add: i'_def ag_inline_def)
qed

subsection \<open>Listing\<close>

definition xattr_names_sd :: "agfs_inode \<Rightarrow> byte list list" where
  "xattr_names_sd i = filter (\<lambda>n. n \<noteq> [0x13]) (map sd_name (sd_recs i))"

definition names_len :: "byte list list \<Rightarrow> nat" where
  "names_len ns = sum_list (map (\<lambda>n. length n + 1) ns)"

definition names_text :: "byte list list \<Rightarrow> byte list" where
  "names_text ns = concat (map (\<lambda>n. n @ [0]) ns)"

lemma list_cb_append:
  assumes "sd_valid r"
  shows "agfs_xattr_list_cb sz (r @ x) l =
    (if sd_name r = [0x13] then (l, False) else agfs_attr_list_cb sz (sd_name r) l)"
  using sd_valid_sizes(1) [OF assms]
  by (simp add: agfs_xattr_list_cb_def agfs_attr_list_cb_def sd_valid_append [OF assms] sd_valid_is_name [OF assms])

text \<open>The walk over the records is the loop over their names.\<close>

lemma list_walk_raws:
  assumes "left \<le> length p"
  shows "fst (agfs_xattr_walk (agfs_xattr_list_cb sz) p left l)
    = attr_list_loop sz (filter (\<lambda>n. n \<noteq> [0x13]) (map sd_name (sd_raws p left))) l"
  using assms
proof (induction p left arbitrary: l rule: sd_area_induct)
  case (step r rest left)
  then show ?case
    by (cases "sd_name r = [0x13]") (simp_all add: sd_loop_steps list_cb_append split: prod.split bool.split)
qed (simp add: sd_loop_stops)

lemma attr_list_loop_query: "attr_list_loop 0 ns l = l\<lparr>xl_total := xl_total l + names_len ns\<rparr>"
  by (induction ns arbitrary: l) (simp_all add: agfs_attr_list_cb_def names_len_def add.assoc)

lemma attr_list_loop_fits:
  "0 < sz \<Longrightarrow> xl_total l + names_len ns \<le> sz \<Longrightarrow>
    attr_list_loop sz ns l = l\<lparr>xl_list := xl_list l @ names_text ns, xl_total := xl_total l + names_len ns\<rparr>"
  by (induction ns arbitrary: l) (simp_all add: agfs_attr_list_cb_def names_len_def names_text_def add.assoc)

lemma attr_list_loop_full:
  "0 < sz \<Longrightarrow> xl_total l \<le> sz \<Longrightarrow> sz < xl_total l + names_len ns \<Longrightarrow>
    xl_errno (attr_list_loop sz ns l) = Some ERANGE
    \<and> (\<exists>k. k < length ns \<and> xl_list (attr_list_loop sz ns l) = xl_list l @ names_text (take k ns)
         \<and> xl_total (attr_list_loop sz ns l) = xl_total l + names_len (take k ns))"
proof (induction ns arbitrary: l)
  case (Cons n ns)
  show ?case
  proof (cases "xl_total l + length n + 1 \<le> sz")
    case True
    let ?l = "l\<lparr>xl_list := xl_list l @ n @ [0], xl_total := xl_total l + length n + 1\<rparr>"
    have "xl_errno (attr_list_loop sz ns ?l) = Some ERANGE
      \<and> (\<exists>k. k < length ns \<and> xl_list (attr_list_loop sz ns ?l) = xl_list ?l @ names_text (take k ns)
         \<and> xl_total (attr_list_loop sz ns ?l) = xl_total ?l + names_len (take k ns))"
      using Cons.prems True by (intro Cons.IH) (simp_all add: names_len_def)
    then obtain k where "k < length ns" "xl_errno (attr_list_loop sz ns ?l) = Some ERANGE"
      "xl_list (attr_list_loop sz ns ?l) = xl_list ?l @ names_text (take k ns)"
      "xl_total (attr_list_loop sz ns ?l) = xl_total ?l + names_len (take k ns)" by blast
    moreover have "attr_list_loop sz (n # ns) l = attr_list_loop sz ns ?l"
      using True Cons.prems(1) by (simp add: agfs_attr_list_cb_def)
    ultimately show ?thesis by (intro conjI exI [of _ "Suc k"]) (simp_all add: names_text_def names_len_def)
  next
    case False
    then show ?thesis using Cons.prems(1)
      by (intro conjI exI [of _ 0]) (simp_all add: agfs_attr_list_cb_def names_text_def names_len_def)
  qed
qed (simp add: names_len_def)

lemma names_len_append: "names_len (xs @ ys) = names_len xs + names_len ys"
  by (simp add: names_len_def)

lemma names_text_append: "names_text (xs @ ys) = names_text xs @ names_text ys"
  by (simp add: names_text_def)

lemma agfs_listxattr_loop:
  assumes "io_good io" "sd_ok i" "\<not> ag_inline i"
  shows "agfs_listxattr io i sz =
    (let l = attr_list_loop sz (xattr_names_sd i) \<lparr>xl_list = [], xl_total = 0, xl_errno = None\<rparr>
     in case xl_errno l of
          Some e \<Rightarrow> Inl e
        | None \<Rightarrow>
           (let l' = attr_list_loop sz (map fst (attr_files i)) (l\<lparr>xl_errno := None\<rparr>)
            in Inr (xl_total l + (xl_total l' - xl_total l), xl_list l')))"
proof -
  have t: "ag_tail i \<le> length (ag_small_data i)" using assms(2) by (simp add: sd_ok_def)
  let ?z = "\<lparr>xl_list = [], xl_total = 0, xl_errno = None\<rparr>"
  let ?l = "attr_list_loop sz (xattr_names_sd i) ?z"
  have w: "fst (agfs_xattr_walk (agfs_xattr_list_cb sz) (ag_small_data i) (ag_tail i) ?z) = ?l"
    by (simp add: list_walk_raws [OF t] xattr_names_sd_def sd_recs_def)
  have "agfs_attr_list io i sz (xl_list l) (xl_total l) =
    (let l' = attr_list_loop sz (map fst (attr_files i)) (l\<lparr>xl_errno := None\<rparr>) in (xl_total l' - xl_total l, xl_list l'))"
    for l :: xattr_list
    using assms(1)
    by (cases l; cases "ag_attrs i") (simp_all add: agfs_attr_list_def agfs_attr_dir_def attr_files_def io_good_def
      attr_tree_iterate_def Let_def xattr_list.update_convs)
  then show ?thesis using assms(3) w
    by (simp add: agfs_listxattr_def Let_def split_beta split: option.split)
qed

lemma agfs_listxattr_all:
  assumes "io_good io" "sd_ok i" "\<not> ag_inline i"
  defines "ns \<equiv> xattr_names_sd i @ map fst (attr_files i)"
  shows "agfs_listxattr io i 0 = Inr (names_len ns, [])"
    "0 < sz \<Longrightarrow> names_len ns \<le> sz \<Longrightarrow> agfs_listxattr io i sz = Inr (names_len ns, names_text ns)"
    "0 < sz \<Longrightarrow> sz < names_len (xattr_names_sd i) \<Longrightarrow> agfs_listxattr io i sz = Inl ERANGE"
proof -
  note e = agfs_listxattr_loop [OF assms(1-3)]
  show "agfs_listxattr io i 0 = Inr (names_len ns, [])"
    by (simp add: e attr_list_loop_query Let_def ns_def names_len_append)
  show "0 < sz \<Longrightarrow> names_len ns \<le> sz \<Longrightarrow> agfs_listxattr io i sz = Inr (names_len ns, names_text ns)"
    by (simp add: e attr_list_loop_fits Let_def ns_def names_len_append names_text_append)
  assume a: "0 < sz" "sz < names_len (xattr_names_sd i)"
  let ?z = "\<lparr>xl_list = [], xl_total = 0, xl_errno = None\<rparr>"
  have "xl_errno (attr_list_loop sz (xattr_names_sd i) ?z) = Some ERANGE"
    using attr_list_loop_full [of sz ?z "xattr_names_sd i"] a by simp
  then show "agfs_listxattr io i sz = Inl ERANGE" by (simp add: e Let_def)
qed

lemma agfs_listxattr_cut:
  assumes "io_good io" "sd_ok i" "\<not> ag_inline i" "0 < sz" "names_len (xattr_names_sd i) \<le> sz"
    "sz < names_len (xattr_names_sd i @ map fst (attr_files i))"
  shows "\<exists>k. k < length (attr_files i) \<and>
    agfs_listxattr io i sz = Inr (names_len (xattr_names_sd i @ take k (map fst (attr_files i))),
      names_text (xattr_names_sd i @ take k (map fst (attr_files i))))"
proof -
  let ?z = "\<lparr>xl_list = [], xl_total = 0, xl_errno = None\<rparr>"
  let ?l = "\<lparr>xl_list = names_text (xattr_names_sd i), xl_total = names_len (xattr_names_sd i), xl_errno = None\<rparr>"
  have l: "attr_list_loop sz (xattr_names_sd i) ?z = ?l"
    using attr_list_loop_fits [of sz ?z "xattr_names_sd i"] assms(4,5) by simp
  obtain k where "k < length (attr_files i)"
    "xl_list (attr_list_loop sz (map fst (attr_files i)) ?l) = xl_list ?l @ names_text (take k (map fst (attr_files i)))"
    "xl_total (attr_list_loop sz (map fst (attr_files i)) ?l) = xl_total ?l + names_len (take k (map fst (attr_files i)))"
    using attr_list_loop_full [of sz ?l "map fst (attr_files i)"] assms(4-6) by (auto simp: names_len_append)
  then show ?thesis
    by (intro exI [of _ k]) (simp add: agfs_listxattr_loop [OF assms(1-3)] l Let_def names_len_append names_text_append)
qed

subsection \<open>The file name\<close>

text \<open>The record the scan for the name takes.\<close>

definition sd_namelike :: "byte list \<Rightarrow> bool" where
  "sd_namelike r \<longleftrightarrow> length (sd_name r) = 1 \<and> sd_data r \<noteq> [] \<and> sd_type r = AGFS_FILE_NAME_TYPE"

lemma sd_get_name_step:
  assumes "sd_valid r"
  shows "sd_get_name (r @ rest) (length r + left) sz =
    (if sd_namelike r then Inr (take sz (sd_data r)) else sd_get_name rest left sz)"
proof -
  have l: "length r = 12 + sd_name_size r + sd_data_size r" "8 \<le> length r + left"
    using assms sd_valid_length [OF assms] by (simp_all add: sd_valid_def sd_need_def sd_size_def)
  have n: "sd_namelike r = (sd_name_size r = 1 \<and> sd_data_size r \<noteq> 0 \<and> sd_type r = AGFS_FILE_NAME_TYPE)"
    using sd_valid_sizes [OF assms] by (cases "sd_data r") (auto simp: sd_namelike_def)
  have d: "take (if sz < sd_data_size r then sz else sd_data_size r) (drop (AGFS_SD_HDR + 4) (r @ rest)) = take sz (sd_data r)"
    if "sd_name_size r = 1" using that l(1) by (simp add: sd_data_def min_def)
  show ?thesis
  proof (cases "sd_namelike r")
    case True
    then show ?thesis unfolding sd_get_name.simps [of "r @ rest"]
      using l(2) d n by (simp only: sd_valid_append [OF assms] if_True simp_thms)
  next
    case False
    then show ?thesis unfolding sd_get_name.simps [of "r @ rest"]
      using l(2) n by (simp only: sd_valid_append [OF assms] if_False if_True simp_thms) simp
  qed
qed

lemma sd_get_name_concat:
  assumes "list_all sd_valid rs" "length (concat rs) \<le> left" "List.find sd_namelike rs = Some r"
  shows "sd_get_name (concat rs @ rest) left sz = Inr (take sz (sd_data r))"
  using assms
proof (induction rs arbitrary: left)
  case (Cons q rs)
  obtain l where l: "left = length q + l"
    using Cons.prems(2) by (metis concat.simps(2) le_add_diff_inverse length_append add_leD1)
  show ?case
  proof (cases "sd_namelike q")
    case True
    then show ?thesis using Cons.prems by (simp add: l sd_get_name_step)
  next
    case False
    have "sd_get_name (concat rs @ rest) l sz = Inr (take sz (sd_data r))"
      using Cons.prems l False by (intro Cons.IH) auto
    then show ?thesis using Cons.prems False by (simp add: l sd_get_name_step)
  qed
qed simp

lemma agfs_inode_get_name_find:
  assumes "sd_ok i" "List.find sd_namelike (sd_recs i) = Some r"
  shows "agfs_inode_get_name i sz = Inr (take sz (sd_data r))"
proof -
  obtain rest where r: "ag_small_data i = concat (sd_recs i) @ rest" "list_all sd_valid (sd_recs i)"
    "length (concat (sd_recs i)) \<le> ag_tail i" using assms(1) by (rule sd_ok_cases)
  show ?thesis unfolding agfs_inode_get_name_def r(1) by (rule sd_get_name_concat [OF r(2,3) assms(2)])
qed

text \<open>The records after a successful change of the name.\<close>

lemma agfs_inode_set_name_good:
  assumes "kmalloc_ok m" "sd_ok i" "\<not> ag_inline i"
    "agfs_inode_set_name io m i name = (i', None)"
  shows "sd_ok i'" "sd_recs i' = filter (\<lambda>r. sd_name r \<noteq> [0x13]) (sd_recs i) @ [sd_record AGFS_FILE_NAME_TYPE [0x13] name]"
    "attr_files i' = attr_files i" "sd_view (sd_record AGFS_FILE_NAME_TYPE [0x13] name) = (AGFS_FILE_NAME_TYPE, [0x13], name)"
    "io_good io \<Longrightarrow> ag_block_tail i' = take (ag_tail i') (ag_small_data i')"
proof -
  let ?rs = "filter (\<lambda>r. sd_name r \<noteq> [0x13]) (sd_recs i)" and ?rec = "sd_record AGFS_FILE_NAME_TYPE [0x13] name"
  have v: "list_all sd_valid (sd_recs i)" using assms(2) by (rule sd_ok_cases)
  have "sd_copy (\<lambda>sd. \<not> sd_is_name sd) (ag_small_data i) (ag_tail i) = concat (filter (\<lambda>sd. \<not> sd_is_name sd) (sd_recs i))"
    by (rule sd_copy_recs [OF assms(2)]) (simp add: sd_valid_append)
  moreover have "filter (\<lambda>sd. \<not> sd_is_name sd) (sd_recs i) = ?rs"
    using v by (intro filter_cong) (auto simp: list_all_iff sd_valid_is_name)
  ultimately have fits: "length (concat ?rs) + sd_size 1 (length name) \<le> ag_tail i"
    and i': "i' = agfs_write_inode_tail io (sd_install i (concat ?rs @ ?rec))"
    using assms(1,3,4) by (auto simp: agfs_inode_set_name_def Let_def split: if_splits)
  have "ag_tail i \<le> AGFS_SMALL_DATA_SIZE" using assms(2) by (simp add: sd_ok_def)
  then have "length name < 65536" "length [0x13 :: byte] < 65536" using fits by (simp_all add: sd_size_def)
  note rec = sd_record_valid [OF _ this(2,1), of AGFS_FILE_NAME_TYPE, simplified]
  then show "sd_view ?rec = (AGFS_FILE_NAME_TYPE, [0x13], name)" by simp
  have "list_all sd_valid (?rs @ [?rec])" using v rec(1) by (auto simp: list_all_iff)
  moreover have "length (concat (?rs @ [?rec])) \<le> ag_tail i" using fits rec(3) by simp
  ultimately have i1: "sd_ok (sd_install i (concat (?rs @ [?rec])))" "sd_recs (sd_install i (concat (?rs @ [?rec]))) = ?rs @ [?rec]"
    by (rule sd_ok_install [OF assms(2)])+
  have "sd_ok i' = sd_ok (sd_install i (concat (?rs @ [?rec])))" "sd_recs i' = sd_recs (sd_install i (concat (?rs @ [?rec])))"
    by (rule sd_ok_cong; simp add: i' agfs_write_inode_tail_def)+
  then show "sd_ok i'" "sd_recs i' = ?rs @ [?rec]" using i1 by simp_all
  show "attr_files i' = attr_files i"
    by (simp add: i' agfs_write_inode_tail_def sd_install_def attr_files_def)
  show "io_good io \<Longrightarrow> ag_block_tail i' = take (ag_tail i') (ag_small_data i')"
    by (simp add: i' agfs_write_inode_tail_def io_good_def ag_tail_def ag_blocksize_def)
qed

subsection \<open>AGFS provides the attribute store\<close>

definition agfs_env_ok :: "agfs_io \<times> mem \<Rightarrow> bool" where
  "agfs_env_ok e \<longleftrightarrow> io_good (fst e) \<and> kmalloc_ok (snd e)"

definition agfs_xattr_inv :: "agfs_inode \<Rightarrow> bool" where
  "agfs_xattr_inv i \<longleftrightarrow> xattr_ok i \<and> \<not> ag_inline i"

definition agfs_xattr_legal :: "byte list \<Rightarrow> bool" where
  "agfs_xattr_legal n \<longleftrightarrow> n \<noteq> [] \<and> n \<noteq> [0x13] \<and> length n \<le> AGFS_ATTR_NAME_MAX"

definition agfs_xattr_fits :: "byte list \<Rightarrow> bool" where
  "agfs_xattr_fits v \<longleftrightarrow> length v \<le> 0x7FFFFFFF"

definition agfs_xattr_val :: "agfs_inode \<Rightarrow> byte list \<Rightarrow> byte list option" where
  "agfs_xattr_val i n = map_option snd (xattr_abs i n)"

lemma agfs_xattr_val_upd: "xattr_abs i' = (xattr_abs i)(n := x) \<Longrightarrow> agfs_xattr_val i' = (agfs_xattr_val i)(n := map_option snd x)"
  by (auto simp: agfs_xattr_val_def)

interpretation agfs_store: xattr_store agfs_env_ok agfs_xattr_inv agfs_xattr_legal agfs_xattr_fits agfs_xattr_val
  "\<lambda>e. agfs_getxattr (fst e)" "\<lambda>e. agfs_setxattr (fst e) (snd e)" "\<lambda>e. agfs_removexattr (fst e)"
proof (unfold_locales, goal_cases)
  case (1 e i n sz)
  then show ?case
    using agfs_getxattr_good [of "fst e" i n sz]
    by (auto simp: agfs_env_ok_def agfs_xattr_inv_def agfs_xattr_legal_def agfs_xattr_val_def split: option.split)
next
  case (2 e i n v flags i' st)
  have g: "io_good (fst e)" "kmalloc_ok (snd e)" "xattr_ok i" "\<not> ag_inline i" "n \<noteq> []" "n \<noteq> [0x13]"
    "length n \<le> AGFS_ATTR_NAME_MAX" "length v \<le> 0x7FFFFFFF"
    using 2(1-4) by (simp_all add: agfs_env_ok_def agfs_xattr_inv_def agfs_xattr_legal_def agfs_xattr_fits_def)
  note s = agfs_setxattr_good [OF g(1-7) 2(5) g(8)] 2(6)
  have v: "(agfs_xattr_val i n = None) = (xattr_abs i n = None)" by (simp add: agfs_xattr_val_def)
  consider (create) "xattr_abs i n \<noteq> None" "flags AND XATTR_CREATE \<noteq> 0"
    | (replace) "xattr_abs i n = None" "flags AND XATTR_REPLACE \<noteq> 0"
    | (ok) "xattr_abs i n \<noteq> None \<longrightarrow> flags AND XATTR_CREATE = 0" "xattr_abs i n = None \<longrightarrow> flags AND XATTR_REPLACE = 0"
    by metis
  then show ?case
  proof cases
    case create
    then show ?thesis using s 2(2) by (simp add: v xattr_set_status_def)
  next
    case replace
    then show ?thesis using s 2(2) by (simp add: v xattr_set_status_def)
  next
    case ok
    then obtain ty where "st = None" "agfs_xattr_inv i'" "xattr_abs i' = (xattr_abs i)(n \<mapsto> (ty, v))"
      using s unfolding agfs_xattr_inv_def by auto
    then show ?thesis using ok agfs_xattr_val_upd [of i' i n "Some (ty, v)"] by (auto simp: v xattr_set_status_def)
  qed
next
  case (3 e i n i' st)
  have g: "io_good (fst e)" "xattr_ok i" "\<not> ag_inline i" "n \<noteq> [0x13]"
    using 3(1-3) by (simp_all add: agfs_env_ok_def agfs_xattr_inv_def agfs_xattr_legal_def)
  have v: "(agfs_xattr_val i n = None) = (xattr_abs i n = None)" by (simp add: agfs_xattr_val_def)
  show ?case
  proof (cases "xattr_abs i n")
    case None
    then show ?thesis using agfs_removexattr_good [OF g] 3(2,4) v by auto
  next
    case (Some x)
    then have "st = None" "agfs_xattr_inv i'" "xattr_abs i' = (xattr_abs i)(n := None)"
      using agfs_removexattr_good [OF g] 3(4) unfolding agfs_xattr_inv_def by auto
    then show ?thesis using Some agfs_xattr_val_upd [of i' i n None] by (simp add: v)
  qed
qed

subsection \<open>Failures and inline content\<close>

lemma setxattr_tree_failure:
  assumes "kmalloc_ok m" "xattr_ok i" "\<not> ag_inline i" "ag_attrs i = None" "\<not> io_dir_create io"
    "name \<noteq> [0x13]" "length name \<le> AGFS_ATTR_NAME_MAX" "length v \<le> 0x7FFFFFFF"
    "xattr_abs i name \<noteq> None" "ag_tail i < length v"
  shows "\<exists>i'. agfs_setxattr io m i name v 0 = (i', Some ENOSPC) \<and> xattr_abs i' name = None"
proof -
  have ok: "sd_ok i" "distinct (map sd_name (sd_recs i))" using assms(2) by (simp_all add: xattr_ok_def)
  obtain r where r: "sd_lookup i name = Some r"
    using assms(4,9) by (auto simp: xattr_abs_def attr_files_def split: option.splits)
  obtain x where x: "sd_find i name = Some (r @ x)" using sd_find_lookup(2) [OF ok(1) assms(6) r] by blast
  note i1 = agfs_xattr_remove_sd_ok [OF ok(1) assms(6) ok(2)]
  let ?i = "fst (agfs_xattr_remove_sd i name)"
  have "agfs_attr_set io i name v t = (?i, Some ENOSPC)" for t
    using i1(3) assms(4,5) by (simp add: agfs_attr_set_def agfs_attr_dir_def agfs_attr_dir_create_def Let_def)
  moreover have "setxattr_store io i name v t False = agfs_attr_set io i name v t" for t
    using assms(10) unfolding setxattr_store_def by (simp add: Let_def sd_size_def)
  ultimately have "agfs_setxattr io m i name v 0 = (?i, Some ENOSPC)"
    using assms(1,3,6-8) x by (simp add: agfs_setxattr_def agfs_xattr_refuse_name_def setxattr_prepare_def not_less)
  moreover have "sd_lookup ?i name = None" by (simp add: sd_lookup_def i1(2) find_filter_neq)
  then have "xattr_abs ?i name = None" using i1(3) assms(4) by (simp add: xattr_abs_def attr_files_def)
  ultimately show ?thesis by blast
qed

lemma agfs_inline_expand_good:
  assumes "\<forall>k. io_write io k = None" "agfs_inline_base i + ag_size i \<le> length (ag_small_data i)"
  shows "\<exists>i'. agfs_inline_expand io i = (i', None) \<and> \<not> ag_inline i'
    \<and> take (ag_size i) (ag_stream i') = take (ag_size i) (drop (agfs_inline_base i) (ag_small_data i))
    \<and> ag_size i' = ag_size i \<and> (\<forall>n. xattr_abs i' n = xattr_abs i n) \<and> xattr_ok i' = xattr_ok i"
proof -
  let ?c = "drop (agfs_inline_base i) (ag_small_data i)"
  have l: "ag_size i \<le> length ?c" using assms(2) by simp
  obtain s where s: "stream_write (io_write io) (ag_blkshift i) ?c (ag_size i) 0 (ag_stream i) = (s, None)"
    "take (ag_size i) s = take (ag_size i) ?c"
    using stream_write_ok [OF _ l, of "io_write io" 0 "ag_stream i" "ag_blkshift i"] assms(1) by auto
  define i' where "i' = i\<lparr>ag_stream := s, ag_flags := ag_flags i AND NOT AGFS_INODE_INLINE_DATA, i_dirty := True\<rparr>"
  have "sd_ok i' = sd_ok i" "sd_recs i' = sd_recs i" by (rule sd_ok_cong; simp add: i'_def)+
  moreover have "attr_files i' = attr_files i" by (simp add: attr_files_def i'_def)
  ultimately have "xattr_abs i' n = xattr_abs i n" "xattr_ok i' = xattr_ok i" for n
    by (simp_all add: xattr_abs_def xattr_ok_def sd_lookup_def split: option.split)
  moreover have "\<not> ag_inline i'" by (simp add: i'_def ag_inline_def and.assoc)
  moreover have "agfs_inline_expand io i = (i', None)" by (simp add: agfs_inline_expand_def s(1) i'_def)
  moreover have "ag_stream i' = s" "ag_size i' = ag_size i" by (simp_all add: i'_def)
  ultimately show ?thesis using s(2) by (intro exI [of _ i']) simp
qed

subsection \<open>Properties\<close>

text \<open>An environment without failures, an inode without records, and its attributes.\<close>

definition io_fine :: agfs_io where
  "io_fine = \<lparr>io_iget_dir = True, io_iget = (\<lambda>_. True), io_dir_create = True, io_ialloc = True,
     io_insert = None, io_delete = None, io_write = (\<lambda>_. None), io_read = (\<lambda>_. None),
     io_iterate = None, io_inode_block = True\<rparr>"

definition blank_inode :: agfs_inode where
  "blank_inode = \<lparr>i_mode = 0x81A4, i_uid = 0, i_gid = 0, i_ctime = 0, i_dirty = False, i_rdonly = False,
     ag_flags = 1, ag_small_data = replicate AGFS_SMALL_DATA_SIZE 0, ag_blkshift = 10, ag_size = 0,
     ag_stream = [], ag_attrs = None, ag_block_tail = []\<rparr>"

definition inode_with :: "(u32 \<times> byte list \<times> byte list) list \<Rightarrow> (byte list \<times> attr_file) list option \<Rightarrow> agfs_inode" where
  "inode_with rs ts = sd_install (blank_inode\<lparr>ag_attrs := ts\<rparr>) (concat (map (\<lambda>(t, n, v). sd_record t n v) rs))"

lemma io_fine_good: "io_good io_fine"
  by (simp add: io_good_def io_fine_def)

lemma inode_with_ok:
  assumes "list_all (\<lambda>(t, n, v). n \<noteq> [] \<and> length n < 65536 \<and> length v < 65536) rs"
    "length (concat (map (\<lambda>(t, n, v). sd_record t n v) rs)) \<le> 792"
  shows "sd_ok (inode_with rs ts)" "sd_recs (inode_with rs ts) = map (\<lambda>(t, n, v). sd_record t n v) rs"
    "ag_attrs (inode_with rs ts) = ts" "\<not> ag_inline (inode_with rs ts)" "ag_tail (inode_with rs ts) = 792"
proof -
  let ?b = "blank_inode\<lparr>ag_attrs := ts\<rparr>"
  have t: "ag_tail ?b = 792" by (simp add: blank_inode_def ag_tail_def ag_blocksize_def)
  have "sd_ok ?b"
    by (rule sd_ok_intro [where rs = "[]" and rest = "replicate AGFS_SMALL_DATA_SIZE 0"])
      (simp_all add: t, simp_all add: blank_inode_def)
  moreover have "list_all sd_valid (map (\<lambda>(t, n, v). sd_record t n v) rs)"
    using assms(1) sd_record_valid(1) by (auto simp: list_all_iff)
  moreover have "length (concat (map (\<lambda>(t, n, v). sd_record t n v) rs)) \<le> ag_tail ?b" using assms(2) t by simp
  ultimately show "sd_ok (inode_with rs ts)" "sd_recs (inode_with rs ts) = map (\<lambda>(t, n, v). sd_record t n v) rs"
    unfolding inode_with_def by (rule sd_ok_install)+
  show "ag_attrs (inode_with rs ts) = ts" "\<not> ag_inline (inode_with rs ts)" "ag_tail (inode_with rs ts) = 792"
    by (simp_all add: inode_with_def sd_install_def ag_inline_def blank_inode_def ag_tail_def ag_blocksize_def)
qed

lemma sd_record_name: "n \<noteq> [] \<Longrightarrow> length n < 65536 \<Longrightarrow> length v < 65536 \<Longrightarrow> sd_name (sd_record t n v) = n"
  "n \<noteq> [] \<Longrightarrow> length n < 65536 \<Longrightarrow> length v < 65536 \<Longrightarrow> sd_type (sd_record t n v) = t"
  "n \<noteq> [] \<Longrightarrow> length n < 65536 \<Longrightarrow> length v < 65536 \<Longrightarrow> sd_data (sd_record t n v) = v"
  using sd_record_valid(2) [of n v t] by (simp_all add: sd_view_def)

lemma inode_ab_ok: "xattr_ok (inode_with [(7, [0x61], [1, 2]), (9, [0x62], [3])] None)"
  "\<not> ag_inline (inode_with [(7, [0x61], [1, 2]), (9, [0x62], [3])] None)"
  "xattr_abs (inode_with [(7, [0x61], [1, 2]), (9, [0x62], [3])] None) [0x61] = Some (7, [1, 2])"
proof -
  let ?rs = "[(7, [0x61], [1, 2]), (9, [0x62], [3])]"
  show "xattr_ok (inode_with ?rs None)" "\<not> ag_inline (inode_with ?rs None)"
    "xattr_abs (inode_with ?rs None) [0x61] = Some (7, [1, 2])"
    using inode_with_ok [of ?rs None]
    by (simp_all add: xattr_ok_def attr_files_def sd_record_name xattr_abs_def sd_lookup_def sd_record_valid(3) sd_size_def)
qed

text \<open>
  \<^verbatim>\<open>agfs_listxattr\<close> lists every attribute. A size query returns the length of the list; a buffer
  of that length receives the names of the records, without the hidden file name, and then those
  of the attributes directory, each with its terminating zero; a buffer too small for the names of
  the records is refused with \<^verbatim>\<open>ERANGE\<close>.
\<close>
theorem agfs_listxattr_complete:
  assumes "io_good io" "sd_ok i" "\<not> ag_inline i" "0 < sz"
  shows "agfs_listxattr io i 0 = Inr (names_len (xattr_names_sd i @ map fst (attr_files i)), [])
    \<and> (names_len (xattr_names_sd i @ map fst (attr_files i)) \<le> sz \<longrightarrow> agfs_listxattr io i sz =
         Inr (names_len (xattr_names_sd i @ map fst (attr_files i)), names_text (xattr_names_sd i @ map fst (attr_files i))))
    \<and> (sz < names_len (xattr_names_sd i) \<longrightarrow> agfs_listxattr io i sz = Inl ERANGE)"
  using agfs_listxattr_all [OF assms(1-3)] assms(4) by simp

theorem agfs_listxattr_complete_witness:
  "agfs_listxattr io_fine (inode_with [(7, [0x61], [1, 2]), (9, [0x62], [3])] None) 4 = Inr (4, [0x61, 0, 0x62, 0])"
proof -
  let ?rs = "[(7, [0x61], [1, 2]), (9, [0x62], [3])]"
  have "xattr_names_sd (inode_with ?rs None) = [[0x61], [0x62]]" "attr_files (inode_with ?rs None) = []"
    using inode_with_ok [of ?rs None]
    by (simp_all add: xattr_names_sd_def attr_files_def sd_record_name sd_record_valid(3) sd_size_def)
  moreover have "sd_ok (inode_with ?rs None)" using inode_ab_ok(1) by (simp add: xattr_ok_def)
  ultimately show ?thesis
    using agfs_listxattr_complete [OF io_fine_good _ inode_ab_ok(2), of 4] by (simp add: names_len_def names_text_def)
qed

text \<open>
  A buffer that holds the names of the records but not those of the attributes directory is not
  refused: \<^verbatim>\<open>agfs_attr_list\<close> tests the result of the iteration, which is zero when the callback
  stops it, so the list is cut at the last name that fits and reported as complete.
\<close>
theorem agfs_listxattr_truncates:
  assumes "io_good io" "sd_ok i" "\<not> ag_inline i" "0 < sz" "names_len (xattr_names_sd i) \<le> sz"
    "sz < names_len (xattr_names_sd i @ map fst (attr_files i))"
  shows "\<exists>k. k < length (attr_files i) \<and>
    agfs_listxattr io i sz = Inr (names_len (xattr_names_sd i @ take k (map fst (attr_files i))),
      names_text (xattr_names_sd i @ take k (map fst (attr_files i))))"
  by (rule agfs_listxattr_cut [OF assms])

lemma inode_tree_ok:
  "sd_ok (inode_with [(7, [0x61], [1, 2])] (Some [([0x62, 0x63], \<lparr>af_type = 7, af_stream = [1, 1], af_size = 2\<rparr>)]))"
  "\<not> ag_inline (inode_with [(7, [0x61], [1, 2])] (Some [([0x62, 0x63], \<lparr>af_type = 7, af_stream = [1, 1], af_size = 2\<rparr>)]))"
  "xattr_names_sd (inode_with [(7, [0x61], [1, 2])] (Some [([0x62, 0x63], \<lparr>af_type = 7, af_stream = [1, 1], af_size = 2\<rparr>)])) = [[0x61]]"
  "attr_files (inode_with [(7, [0x61], [1, 2])] (Some [([0x62, 0x63], \<lparr>af_type = 7, af_stream = [1, 1], af_size = 2\<rparr>)])) = [([0x62, 0x63], \<lparr>af_type = 7, af_stream = [1, 1], af_size = 2\<rparr>)]"
  using inode_with_ok [of "[(7, [0x61], [1, 2])]" "Some [([0x62, 0x63], \<lparr>af_type = 7, af_stream = [1, 1], af_size = 2\<rparr>)]"]
  by (simp_all add: xattr_names_sd_def attr_files_def sd_record_name sd_record_valid(3) sd_size_def)

theorem agfs_listxattr_truncates_witness:
  "agfs_listxattr io_fine (inode_with [(7, [0x61], [1, 2])] (Some [([0x62, 0x63], \<lparr>af_type = 7, af_stream = [1, 1], af_size = 2\<rparr>)])) 3
     = Inr (2, [0x61, 0])"
  using agfs_listxattr_truncates [OF io_fine_good inode_tree_ok(1,2), of 3]
  by (simp add: inode_tree_ok(3,4) names_len_def names_text_def)

text \<open>
  The file name reads back after it was set, unless another attribute looks like it. After a
  successful \<^verbatim>\<open>agfs_inode_set_name\<close> the other attributes are unchanged, the tail is recorded in the
  inode block, and \<^verbatim>\<open>agfs_inode_get_name\<close> returns the name, provided no attribute has a
  one-character name, the string type and a value.
\<close>
theorem agfs_inode_name_roundtrip:
  assumes "io_good io" "kmalloc_ok m" "sd_ok i" "\<not> ag_inline i" "name \<noteq> []"
    "agfs_inode_set_name io m i name = (i', None)"
    "\<not> list_ex (\<lambda>r. sd_namelike r \<and> sd_name r \<noteq> [0x13]) (sd_recs i)"
  shows "agfs_inode_get_name i' sz = Inr (take sz name)
    \<and> filter (\<lambda>r. sd_name r \<noteq> [0x13]) (sd_recs i') = filter (\<lambda>r. sd_name r \<noteq> [0x13]) (sd_recs i)
    \<and> attr_files i' = attr_files i \<and> ag_block_tail i' = take (ag_tail i') (ag_small_data i')"
proof -
  let ?rec = "sd_record AGFS_FILE_NAME_TYPE [0x13] name"
  note s = agfs_inode_set_name_good [OF assms(2-4,6)]
  have v: "sd_name ?rec = [0x13]" "sd_type ?rec = AGFS_FILE_NAME_TYPE" "sd_data ?rec = name"
    using s(4) by (simp_all add: sd_view_def)
  have "sd_namelike ?rec" using assms(5) by (simp add: sd_namelike_def v)
  moreover have "List.find sd_namelike (filter (\<lambda>r. sd_name r \<noteq> [0x13]) (sd_recs i)) = None"
    using assms(7) by (auto simp: find_None_iff list_ex_iff)
  ultimately have "List.find sd_namelike (sd_recs i') = Some ?rec" by (simp add: s(2) find_append)
  from agfs_inode_get_name_find [OF s(1) this] show ?thesis using s(2,3,5) assms(1) by (simp add: v)
qed

theorem agfs_inode_name_roundtrip_witness:
  "agfs_inode_get_name (fst (agfs_inode_set_name io_fine [] (inode_with [] None) [0x66, 0x6F, 0x6F])) 255 = Inr [0x66, 0x6F, 0x6F]"
proof -
  have o: "sd_ok (inode_with [] None)" "sd_recs (inode_with [] None) = []" "\<not> ag_inline (inode_with [] None)" "ag_tail (inode_with [] None) = 792"
    using inode_with_ok [of "[]" None] by simp_all
  have "sd_copy (\<lambda>sd. \<not> sd_is_name sd) (ag_small_data (inode_with [] None)) (ag_tail (inode_with [] None)) = []"
    using sd_copy_recs [OF o(1), of "\<lambda>sd. \<not> sd_is_name sd"] o(2) by (simp add: sd_valid_append)
  then obtain i' where "agfs_inode_set_name io_fine [] (inode_with [] None) [0x66, 0x6F, 0x6F] = (i', None)"
    using o by (simp add: agfs_inode_set_name_def kmalloc_ok_def Let_def sd_size_def)
  with agfs_inode_name_roundtrip [OF io_fine_good _ o(1,3) _ this, of 255] show ?thesis
    by (simp add: kmalloc_ok_def o(2))
qed

text \<open>
  The scan for the file name does not test the name byte of a record: an attribute with a
  one-character name, the string type and a value that stands before the name record is returned
  as the name of the file, and a change of the name always puts the name record last.
\<close>
theorem agfs_inode_name_shadowed:
  assumes "kmalloc_ok m" "sd_ok i" "\<not> ag_inline i" "agfs_inode_set_name io m i name = (i', None)"
    "List.find sd_namelike (filter (\<lambda>r. sd_name r \<noteq> [0x13]) (sd_recs i)) = Some r"
  shows "agfs_inode_get_name i' sz = Inr (take sz (sd_data r))"
proof -
  note s = agfs_inode_set_name_good [OF assms(1-4)]
  have "List.find sd_namelike (sd_recs i') = Some r" by (simp add: s(2) find_append assms(5))
  from agfs_inode_get_name_find [OF s(1) this] show ?thesis .
qed

theorem agfs_inode_name_shadowed_witness:
  "agfs_inode_get_name (fst (agfs_inode_set_name io_fine [] (inode_with [(AGFS_FILE_NAME_TYPE, [0x61], [0x62])] None) [0x66, 0x6F, 0x6F])) 255 = Inr [0x62]"
proof -
  let ?rs = "[(AGFS_FILE_NAME_TYPE, [0x61], [0x62])]"
  let ?i = "inode_with ?rs None" and ?r = "sd_record AGFS_FILE_NAME_TYPE [0x61] [0x62]"
  have o: "sd_ok ?i" "sd_recs ?i = [?r]" "\<not> ag_inline ?i" "ag_tail ?i = 792"
    using inode_with_ok [of ?rs None] by (simp_all add: sd_record_valid(3) sd_size_def)
  have "sd_valid ?r" by (simp add: sd_record_valid)
  then have "sd_copy (\<lambda>sd. \<not> sd_is_name sd) (ag_small_data ?i) (ag_tail ?i) = ?r"
    using sd_copy_recs [OF o(1), of "\<lambda>sd. \<not> sd_is_name sd"] o(2) by (simp add: sd_valid_append sd_valid_is_name sd_record_name)
  then obtain i' where "agfs_inode_set_name io_fine [] ?i [0x66, 0x6F, 0x6F] = (i', None)"
    using o by (simp add: agfs_inode_set_name_def kmalloc_ok_def Let_def sd_size_def sd_record_valid(3))
  moreover have "List.find sd_namelike (filter (\<lambda>r. sd_name r \<noteq> [0x13]) (sd_recs ?i)) = Some ?r"
    by (simp add: o(2) sd_namelike_def sd_record_name)
  ultimately show ?thesis
    using agfs_inode_name_shadowed [OF _ o(1,3), of "[]" io_fine "[0x66, 0x6F, 0x6F]" i' ?r 255]
    by (simp add: kmalloc_ok_def sd_record_name)
qed

text \<open>
  A failing set can lose the attribute. When the new value does not fit the inode,
  \<^verbatim>\<open>agfs_attr_set\<close> removes the record first; if the attributes directory then cannot be created the
  set fails with \<^verbatim>\<open>ENOSPC\<close> and the old value is gone.
\<close>
theorem agfs_setxattr_failure_loses:
  assumes "kmalloc_ok m" "xattr_ok i" "\<not> ag_inline i" "ag_attrs i = None" "\<not> io_dir_create io"
    "name \<noteq> [0x13]" "length name \<le> AGFS_ATTR_NAME_MAX" "length v \<le> 0x7FFFFFFF"
    "xattr_abs i name \<noteq> None" "ag_tail i < length v"
  shows "\<exists>i'. agfs_setxattr io m i name v 0 = (i', Some ENOSPC) \<and> xattr_abs i' name = None"
  by (rule setxattr_tree_failure [OF assms])

theorem agfs_setxattr_failure_loses_witness:
  "\<exists>i'. agfs_setxattr (io_fine\<lparr>io_dir_create := False\<rparr>) [] (inode_with [(7, [0x61], [1, 2]), (9, [0x62], [3])] None)
       [0x61] (replicate 800 1) 0 = (i', Some ENOSPC) \<and> xattr_abs i' [0x61] = None"
proof -
  have "ag_tail (inode_with [(7, [0x61], [1, 2]), (9, [0x62], [3])] None) = 792"
    by (simp add: inode_with_def sd_install_def blank_inode_def ag_tail_def ag_blocksize_def)
  moreover have "ag_attrs (inode_with [(7, [0x61], [1, 2]), (9, [0x62], [3])] None) = None"
    by (simp add: inode_with_def sd_install_def blank_inode_def)
  ultimately show ?thesis
    by (intro agfs_setxattr_failure_loses) (simp_all add: kmalloc_ok_def inode_ab_ok)
qed

text \<open>
  The conversion of inline content to a stream keeps the content: the stream then begins with
  the bytes the tail held behind the records, the flag is cleared, and the attributes are the same.
\<close>
theorem agfs_inline_expand_keeps_content:
  assumes "\<forall>k. io_write io k = None" "agfs_inline_base i + ag_size i \<le> length (ag_small_data i)"
  shows "\<exists>i'. agfs_inline_expand io i = (i', None) \<and> \<not> ag_inline i'
    \<and> take (ag_size i) (ag_stream i') = take (ag_size i) (drop (agfs_inline_base i) (ag_small_data i))
    \<and> ag_size i' = ag_size i \<and> (\<forall>n. xattr_abs i' n = xattr_abs i n) \<and> xattr_ok i' = xattr_ok i"
  by (rule agfs_inline_expand_good [OF assms])

theorem agfs_inline_expand_keeps_content_witness:
  "\<exists>i'. agfs_inline_expand io_fine (blank_inode\<lparr>ag_size := 2, ag_flags := 0x81, ag_blkshift := 8,
       ag_small_data := replicate 12 0 @ [5, 6]\<rparr>) = (i', None) \<and> take 2 (ag_stream i') = [5, 6]"
proof -
  let ?i = "blank_inode\<lparr>ag_size := 2, ag_flags := 0x81, ag_blkshift := 8, ag_small_data := replicate 12 0 @ [5, 6]\<rparr>"
  have "agfs_inline_base ?i = 12"
    by (simp add: agfs_inline_base_def ag_tail_def ag_blocksize_def inline_base.simps sd_name_size_def sd_data_size_def numeral_eq_Suc)
  moreover have "\<forall>k. io_write io_fine k = None" by (simp add: io_fine_def)
  ultimately show ?thesis using agfs_inline_expand_keeps_content [of io_fine ?i] by (auto simp: numeral_eq_Suc)
qed

text \<open>
  The content of an inline file can lie on the attribute records: \<^verbatim>\<open>agfs_inline_base\<close> compares the position behind the records
  with the number of bytes that are left. On a volume with blocks of 1024 bytes, where the tail has 792, an attribute whose
  record takes more than half of the tail puts the content of the file inside the record.
\<close>

theorem inline_content_overlaps_records:
  assumes "name \<noteq> []" "396 < sd_size (length name) (length value)" "sd_size (length name) (length value) \<le> 784"
  shows "sd_recs (inode_with [(t, name, value)] None) = [sd_record t name value]
    \<and> agfs_inline_base (inode_with [(t, name, value)] None) = 792 - sd_size (length name) (length value)
    \<and> agfs_inline_base (inode_with [(t, name, value)] None) < length (sd_record t name value)"
proof -
  let ?i = "inode_with [(t, name, value)] None" and ?r = "sd_record t name value" and ?s = "sd_size (length name) (length value)"
  let ?z = "replicate (AGFS_SMALL_DATA_SIZE - length ?r) 0 :: byte list"
  have n: "length name < 65536" "length value < 65536" using assms(3) by (simp_all add: sd_size_def)
  have l: "length ?r = ?s" using sd_record_valid(3) [OF assms(1) n] .
  have R: "sd_recs ?i = [?r]" "ag_tail ?i = 792" using inode_with_ok(2,5) [of "[(t, name, value)]" None] assms(1,3) n l by simp_all
  have d: "ag_small_data ?i = ?r @ ?z" by (simp add: inode_with_def sd_install_def)
  have f: "sd_name_size (?r @ ?z) = length name" "sd_data_size (?r @ ?z) = length value"
    using n by (simp_all add: sd_name_size_def sd_data_size_def sd_record_def)
  have "8 \<le> AGFS_SMALL_DATA_SIZE - length ?r" using l assms(3) by simp
  moreover have "le_val (replicate k 0) = 0" for k by (induction k) auto
  ultimately have z: "sd_name_size ?z = 0" "sd_data_size ?z = 0" by (simp_all only: sd_name_size_def sd_data_size_def drop_replicate take_replicate)
  have s: "12 + length name + length value = ?s" by (simp add: sd_size_def)
  have dr: "drop ?s (?r @ ?z) = ?z" using l by simp
  have "inline_base ?z (792 - ?s) ?s = 792 - ?s" using z assms(2,3) by (subst inline_base.simps) simp
  then have "agfs_inline_base ?i = 792 - ?s"
    unfolding agfs_inline_base_def R(2) d using assms(1,3) by (subst inline_base.simps) (simp add: f s dr Let_def del: drop_append)
  then show ?thesis using R(1) l assms(2) by simp
qed

end
