(* ===== verification/Acl_On_Agfs.thy ===== *)
theory Acl_On_Agfs
  imports Xattr_Syscalls Agfs_Xattr
begin

text \<open>
  AGFS behind the attribute system calls: the operations of \<open>Agfs_Xattr\<close> satisfy the interface
  \<open>acl_fs\<close> of \<open>Xattr_Syscalls\<close>, and with them the properties of the calls hold: access decisions
  after a change of an ACL, the agreement of the mode bits with the stored ACL, and the refusal of
  unauthorised changes.
\<close>

subsection \<open>The attribute operations keep the metadata of the inode\<close>

definition ag_meta :: "agfs_inode \<Rightarrow> u16 \<times> u32 \<times> u32 \<times> u64 \<times> bool" where
  "ag_meta i = (i_mode i, i_uid i, i_gid i, i_ctime i, i_rdonly i)"

lemma ag_meta_simps [simp]:
  "ag_meta (i\<lparr>ag_small_data := a\<rparr>) = ag_meta i" "ag_meta (i\<lparr>i_dirty := b\<rparr>) = ag_meta i"
  "ag_meta (i\<lparr>ag_attrs := c\<rparr>) = ag_meta i" "ag_meta (i\<lparr>ag_stream := d\<rparr>) = ag_meta i"
  "ag_meta (i\<lparr>ag_flags := f\<rparr>) = ag_meta i"
  by (simp_all add: ag_meta_def)

lemma ag_meta_remove_sd [simp]: "ag_meta (fst (agfs_xattr_remove_sd i name)) = ag_meta i"
  by (simp add: agfs_xattr_remove_sd_def)

lemma ag_meta_attr_remove [simp]: "ag_meta (fst (agfs_attr_remove io i name)) = ag_meta i"
  by (simp add: agfs_attr_remove_def Let_def split: option.split sum.split)

lemma ag_meta_attr_set [simp]: "ag_meta (fst (agfs_attr_set io i name v ty)) = ag_meta i"
  by (auto simp: agfs_attr_set_def Let_def agfs_attr_dir_create_def split: option.splits sum.splits prod.splits)

lemma ag_meta_install [simp]: "ag_meta (sd_install i a) = ag_meta i"
  by (simp add: sd_install_def)

lemma ag_meta_store [simp]: "ag_meta (fst (setxattr_store io i name v ty tf)) = ag_meta i"
  by (simp add: setxattr_store_def Let_def)

lemma ag_meta_expand: "ag_meta (fst (agfs_inline_expand io i)) = ag_meta i"
  by (auto simp: agfs_inline_expand_def split: prod.split option.split)

lemma ag_meta_setxattr: "ag_meta (fst (agfs_setxattr io m i name v flags)) = ag_meta i"
proof -
  obtain i1 st where e: "(if ag_inline i then agfs_inline_expand io i else (i, None)) = (i1, st)"
    by (cases "if ag_inline i then agfs_inline_expand io i else (i, None)")
  have "ag_meta i1 = ag_meta i" using e ag_meta_expand [of io i] by (cases "ag_inline i") simp_all
  then show ?thesis
    unfolding agfs_setxattr_def e by (auto split: option.split sum.split)
qed

lemma ag_meta_removexattr: "ag_meta (fst (agfs_removexattr io i name)) = ag_meta i"
  by (simp add: agfs_removexattr_def)

lemma agfs_store_meta:
  assumes "ag_small_data i' = ag_small_data i" "ag_blkshift i' = ag_blkshift i" "ag_attrs i' = ag_attrs i" "ag_flags i' = ag_flags i"
  shows "agfs_xattr_inv i' = agfs_xattr_inv i" "agfs_xattr_val i' = agfs_xattr_val i"
proof -
  have "attr_files i' = attr_files i" using assms(3) by (simp add: attr_files_def)
  with sd_ok_cong [OF assms(1,2)] have "xattr_ok i' = xattr_ok i" "xattr_abs i' = xattr_abs i"
    by (simp_all add: xattr_ok_def xattr_abs_def sd_lookup_def fun_eq_iff split: option.split)
  then show "agfs_xattr_inv i' = agfs_xattr_inv i" "agfs_xattr_val i' = agfs_xattr_val i"
    using assms(4) by (simp_all add: agfs_xattr_inv_def ag_inline_def agfs_xattr_val_def fun_eq_iff)
qed

lemma agfs_store_meta_upd:
  "agfs_xattr_inv (i\<lparr>i_mode := w\<rparr>) = agfs_xattr_inv i" "agfs_xattr_inv (i\<lparr>i_ctime := t\<rparr>) = agfs_xattr_inv i"
  "agfs_xattr_inv (i\<lparr>i_dirty := b\<rparr>) = agfs_xattr_inv i" "agfs_xattr_val (i\<lparr>i_mode := w\<rparr>) = agfs_xattr_val i"
  "agfs_xattr_val (i\<lparr>i_ctime := t\<rparr>) = agfs_xattr_val i" "agfs_xattr_val (i\<lparr>i_dirty := b\<rparr>) = agfs_xattr_val i"
  by (rule agfs_store_meta; simp)+

lemma agfs_acl_names_legal:
  "agfs_xattr_legal (name_bytes XATTR_ACL_ACCESS)" "agfs_xattr_legal (name_bytes XATTR_ACL_DEFAULT)"
proof -
  have "agfs_xattr_legal (name_bytes s)" if "1 < length s" "length s \<le> 255" for s
    using that by (cases s) (auto simp: agfs_xattr_legal_def name_bytes_def)
  moreover have "length XATTR_ACL_ACCESS = 23" "length XATTR_ACL_DEFAULT = 24"
    by (simp_all add: XATTR_ACL_ACCESS_def XATTR_ACL_DEFAULT_def)
  ultimately show "agfs_xattr_legal (name_bytes XATTR_ACL_ACCESS)" "agfs_xattr_legal (name_bytes XATTR_ACL_DEFAULT)"
    by simp_all
qed

interpretation agfs_acl: acl_fs agfs_env_ok agfs_xattr_inv agfs_xattr_legal agfs_xattr_fits agfs_xattr_val
  "\<lambda>e. agfs_getxattr (fst e)" "\<lambda>e. agfs_setxattr (fst e) (snd e)" "\<lambda>e. agfs_removexattr (fst e)"
proof (unfold_locales, goal_cases)
  case (1 e i n v flags i' st)
  then show ?case using ag_meta_setxattr [of "fst e" "snd e" i n v flags] by (simp add: ag_meta_def)
next
  case (2 e i n i' st)
  then show ?case using ag_meta_removexattr [of "fst e" i n] by (simp add: ag_meta_def)
qed (rule agfs_store_meta_upd agfs_acl_names_legal | simp add: agfs_xattr_fits_def)+

text \<open>The operations of AGFS as the calls see them, and the stored access ACL of an inode.\<close>

definition agfs_fsop :: "agfs_io \<Rightarrow> mem \<Rightarrow> agfs_inode xattr_ops option" where
  "agfs_fsop io m = Some (xattr_ops_of (agfs_getxattr io) (agfs_setxattr io m) (agfs_removexattr io))"

definition agfs_acl_of :: "agfs_inode \<Rightarrow> byte list option" where
  "agfs_acl_of i = agfs_xattr_val i (name_bytes XATTR_ACL_ACCESS)"

subsection \<open>Properties\<close>

text \<open>
  C10: An access ACL that \<^verbatim>\<open>setxattr\<close> accepts is the one every later access check decides by. The
  ACL is valid; for every caller and every wanted access, \<^verbatim>\<open>check_permission\<close> on the changed inode
  gives the decision of the ACL's entries, whether the ACL was stored (as a record of the inode or in
  the attributes directory) or, being trivial, was dropped in favour of the mode bits; every other
  attribute keeps its value.
\<close>
theorem set_access_acl_decides:
  assumes "agfs_env_ok (io, m)" "agfs_env_ok (io', m')" "agfs_xattr_inv i"
    "flags AND NOT (XATTR_CREATE OR XATTR_REPLACE) = 0"
    "do_setxattr cur mk now (agfs_fsop io m) i XATTR_ACL_ACCESS (UBytes buf) flags = (i', None)"
  shows "acl_validate (Some buf) = None \<and> agfs_xattr_inv i'
    \<and> (\<forall>cur' want. check_permission cur' (agfs_fsop io' m') want i' = acl_decides buf cur' i' want)
    \<and> (\<forall>n. n \<noteq> name_bytes XATTR_ACL_ACCESS \<longrightarrow> agfs_xattr_val i' n = agfs_xattr_val i n)"
proof -
  have d: "do_setxattr cur mk now (Some (xattr_ops_of (agfs_getxattr (fst (io, m))) (agfs_setxattr (fst (io, m)) (snd (io, m)))
      (agfs_removexattr (fst (io, m))))) i XATTR_ACL_ACCESS (UBytes buf) flags = (i', None)"
    using assms(5) by (simp add: agfs_fsop_def)
  note s = agfs_acl.set_acl_decides [OF assms(1-4) d]
  have "acl_validate (Some buf) = None" using do_setxattr_passed [OF d] by simp
  then show ?thesis using s by (simp add: agfs_fsop_def)
qed


text \<open>
  C18: Nobody but the owner and the superuser changes an ACL or the mode, and nobody without write
  permission changes another attribute: the calls then fail and leave the inode as it was, for every
  file system. The same holds on a read-only file system, and for an ACL that is not valid.
\<close>
theorem unauthorised_calls_change_nothing:
  fixes i :: "('a) inode_scheme"
  shows "(i_rdonly i \<or> is_acl_xattr name \<noteq> 0 \<and> (check_user_permission cur i \<or> acl_validate (Some b) \<noteq> None)
      \<or> is_acl_xattr name = 0 \<and> check_permission cur (Some ops) TO_WRITE i \<noteq> None
    \<longrightarrow> fst (do_setxattr cur mk now (Some ops) i name (UBytes b) flags) = i
      \<and> snd (do_setxattr cur mk now (Some ops) i name (UBytes b) flags) \<noteq> None)
    \<and> (i_rdonly i \<or> is_acl_xattr name \<noteq> 0 \<and> check_user_permission cur i
      \<or> is_acl_xattr name = 0 \<and> check_permission cur (Some ops) TO_WRITE i \<noteq> None
    \<longrightarrow> fst (do_removexattr cur (Some ops) i name) = i \<and> snd (do_removexattr cur (Some ops) i name) \<noteq> None)
    \<and> (i_rdonly i \<or> check_user_permission cur i
    \<longrightarrow> fst (chmod_inode cur now (Some ops) i mode) = i \<and> snd (chmod_inode cur now (Some ops) i mode) \<noteq> None)"
proof (intro conjI impI)
  assume a: "i_rdonly i \<or> is_acl_xattr name \<noteq> 0 \<and> (check_user_permission cur i \<or> acl_validate (Some b) \<noteq> None)
      \<or> is_acl_xattr name = 0 \<and> check_permission cur (Some ops) TO_WRITE i \<noteq> None"
  have "fst (do_setxattr cur mk now (Some ops) i name (UBytes b) flags) = i
      \<and> snd (do_setxattr cur mk now (Some ops) i name (UBytes b) flags) \<noteq> None"
  proof (cases "op_setxattr ops")
    case (Some setx)
    then show ?thesis using a
      by (auto simp: do_setxattr_def xattr_write_gate_def acl_xattr_gate_def set_kernel_value_def split: option.split)
  qed (simp add: do_setxattr_def)
  then show "fst (do_setxattr cur mk now (Some ops) i name (UBytes b) flags) = i"
    "snd (do_setxattr cur mk now (Some ops) i name (UBytes b) flags) \<noteq> None" by simp_all
next
  assume a: "i_rdonly i \<or> is_acl_xattr name \<noteq> 0 \<and> check_user_permission cur i
      \<or> is_acl_xattr name = 0 \<and> check_permission cur (Some ops) TO_WRITE i \<noteq> None"
  then show "fst (do_removexattr cur (Some ops) i name) = i" "snd (do_removexattr cur (Some ops) i name) \<noteq> None"
    by (auto simp: do_removexattr_def xattr_write_gate_def acl_xattr_gate_def split: option.split)
next
  assume "i_rdonly i \<or> check_user_permission cur i"
  then show "fst (chmod_inode cur now (Some ops) i mode) = i" "snd (chmod_inode cur now (Some ops) i mode) \<noteq> None"
    by (auto simp: chmod_inode_def)
qed

text \<open>The witnesses: root sets the example ACL on a file of root.\<close>

definition root_proc :: proc where
  "root_proc = \<lparr>p_flags = 0, p_groups = [], p_uid = 0, p_gid = 0, p_euid = 0, p_egid = 0, p_fsuid = 0, p_fsgid = 0\<rparr>"

definition other_proc :: proc where
  "other_proc = \<lparr>p_flags = 0, p_groups = [], p_uid = 5, p_gid = 5, p_euid = 5, p_egid = 5, p_fsuid = 5, p_fsgid = 5\<rparr>"

lemma blank_ok:
  "agfs_env_ok (io_fine, [])" "agfs_xattr_inv (inode_with [] None)" "agfs_acl_of (inode_with [] None) = None"
  using inode_with_ok [of "[]" None]
  by (simp_all add: agfs_env_ok_def io_fine_good kmalloc_ok_def agfs_xattr_inv_def xattr_ok_def attr_files_def
      agfs_acl_of_def agfs_xattr_val_def xattr_abs_def sd_lookup_def)

lemma acl_example_not_trivial: "acl_equiv_mode (Some acl_example) = None"
  by code_simp

lemma blank_set_acl:
  obtains i' where "do_setxattr root_proc [] 0 (agfs_fsop io_fine []) (inode_with [] None) XATTR_ACL_ACCESS (UBytes acl_example) 0 = (i', None)"
proof -
  let ?i = "inode_with [] None"
  obtain i1 st where p: "agfs_setxattr io_fine [] ?i (name_bytes XATTR_ACL_ACCESS) acl_example 0 = (i1, st)"
    by (cases "agfs_setxattr io_fine [] ?i (name_bytes XATTR_ACL_ACCESS) acl_example 0")
  have f: "agfs_xattr_fits acl_example" using acl_valid_length [OF acl_example_valid] by (simp add: agfs_xattr_fits_def)
  have "st = None"
    using agfs_store.put_val [OF blank_ok(1,2) agfs_acl.legal_acl(1) f, of 0 i1 st] p by (simp add: xattr_set_status_def)
  moreover have "\<not> i_rdonly ?i" "\<not> check_user_permission root_proc ?i" "acl_example \<noteq> []"
    using acl_valid_length [OF acl_example_valid]
    by (auto simp: inode_with_def sd_install_def blank_inode_def check_user_permission_def is_superuser_def root_proc_def)
  ultimately show ?thesis using p
    by (intro that [of "acl_sync_mode i1 (Some acl_example)"])
      (simp add: do_setxattr_def agfs_fsop_def xattr_write_gate_def acl_xattr_gate_def kmalloc_ok_def
        set_kernel_value_def acl_example_valid acl_example_not_trivial)
qed

theorem set_access_acl_decides_witness:
  "\<exists>i'. do_setxattr root_proc [] 0 (agfs_fsop io_fine []) (inode_with [] None) XATTR_ACL_ACCESS (UBytes acl_example) 0 = (i', None)
    \<and> check_permission other_proc (agfs_fsop io_fine []) TO_READ i' = acl_decides acl_example other_proc i' TO_READ"
proof -
  obtain i' where s: "do_setxattr root_proc [] 0 (agfs_fsop io_fine []) (inode_with [] None) XATTR_ACL_ACCESS (UBytes acl_example) 0 = (i', None)"
    by (rule blank_set_acl)
  from set_access_acl_decides [OF blank_ok(1) blank_ok(1,2) _ s] s show ?thesis by auto
qed


theorem unauthorised_calls_change_nothing_witness:
  "fst (do_setxattr other_proc [] 0 (Some acl_example_ops) acl_example_inode XATTR_ACL_ACCESS (UBytes acl_example) 0) = acl_example_inode"
  using unauthorised_calls_change_nothing [of acl_example_inode XATTR_ACL_ACCESS other_proc acl_example acl_example_ops "[]" 0 0 0]
  by (simp add: acl_example_inode_def other_proc_def check_user_permission_def is_superuser_def)

end
