(* ===== verification/Btree_Attr.thy ===== *)
theory Btree_Attr
  imports Btree_Dir Agfs_Attr
begin

text \<open>
  The attributes directory of \<open>Agfs_Attr\<close> keeps its entries as a list in key order. Here that list is
  tied to the B+tree that stores it: the tree maps each name to the inode number of its file, and
  every operation on the list is what the tree functions do.
\<close>

definition attr_dir_rep :: "btree \<Rightarrow> (bkey \<Rightarrow> nat) \<Rightarrow> (byte list \<times> attr_file) list \<Rightarrow> bool" where
  "attr_dir_rep t inum ts \<longleftrightarrow> dir_holds t (map (\<lambda>(k, f). (k, inum k)) ts)"

lemma attr_tree_insert_kv:
  "name \<notin> fst ` set ts \<Longrightarrow>
     map (\<lambda>(k, f). (k, (inum(name := ino)) k)) (attr_tree_insert name f ts) =
       kv_insert agfs_key_less name ino (map (\<lambda>(k, f). (k, inum k)) ts)"
proof (induction ts)
  case (Cons e ts)
  have "map (\<lambda>(k, f). (k, (inum(name := ino)) k)) ts = map (\<lambda>(k, f). (k, inum k)) ts" using Cons.prems by (auto simp: case_prod_beta)
  then show ?case using Cons by (cases e) auto
qed simp

lemma rep_names: "fst ` set (map (\<lambda>(k, f). (k, inum k)) ts) = fst ` set ts"
  by force

lemma rep_lookup: "map_of (map (\<lambda>(k, f). (k, inum k)) ts) name = map_option (\<lambda>_. inum name) (map_of ts name)"
  by (induction ts) auto

lemma attr_new: "fresh_stream t \<Longrightarrow> \<exists>t'. agfs_attr_tree t = (t', True) \<and> attr_dir_rep t' inum [] \<and> bt_size t' = 2048"
  using attr_tree_ok [of t] dir_holdsI unfolding attr_dir_rep_def by fastforce

lemma attr_find:
  "attr_dir_rep t inum ts \<Longrightarrow> dir_key name \<Longrightarrow>
     agfs_btree_find fp t name = (case map_of ts name of None \<Rightarrow> Inl ENOENT | Some f \<Rightarrow> Inr (inum name mod 2 ^ 32))"
  using dir_find [of t "map (\<lambda>(k, f). (k, inum k)) ts" name fp] by (auto simp: attr_dir_rep_def rep_lookup split: option.split)

lemma attr_insert:
  assumes "attr_dir_rep t inum ts" "dir_key name" "name \<notin> fst ` set ts" "ino < 2 ^ 64" "bt_size t + 11264 < 2 ^ 32"
  shows "\<exists>t'. agfs_btree_insert fp name ino t = Some (t', Inr ()) \<and> attr_dir_rep t' (inum(name := ino)) (attr_tree_insert name f ts)"
  using dir_holds_insert [OF assms(1) [unfolded attr_dir_rep_def] assms(2,4,5), of fp] assms(3)
  unfolding attr_dir_rep_def attr_tree_insert_kv [OF assms(3)] rep_names by auto

lemma attr_delete:
  assumes "attr_dir_rep t inum ts" "dir_key name" "name \<in> fst ` set ts"
  shows "\<exists>t'. agfs_btree_delete fp name t = Some (t', Inr ()) \<and> attr_dir_rep t' inum (attr_tree_delete name ts) \<and> bt_size t' = bt_size t"
proof -
  have "map (\<lambda>(k, f). (k, inum k)) (attr_tree_delete name ts) = filter (\<lambda>p. fst p \<noteq> name) (map (\<lambda>(k, f). (k, inum k)) ts)"
    by (induction ts) (auto simp: attr_tree_delete_def)
  then show ?thesis using dir_holds_delete [OF assms(1) [unfolded attr_dir_rep_def] assms(2), of fp] assms(3)
    unfolding attr_dir_rep_def rep_names by auto
qed

lemma attr_list:
  assumes "attr_dir_rep t inum ts" "io_iterate io = None"
  shows "agfs_btree_iterate t (\<lambda>k v l. agfs_attr_list_cb sz k l) l = Some (attr_list_loop sz (attr_tree_iterate io ts) l, None)"
proof -
  obtain h where h: "btree_holds dir_key undefined 0 t h (map (\<lambda>(k, f). (k, inum k)) ts)"
    by (rule dir_holdsE [OF assms(1) [unfolded attr_dir_rep_def]])
  have "fst (kv_walk (\<lambda>k v l. agfs_attr_list_cb sz k l) (map (\<lambda>(k, f). (k, inum k)) ts) l) = attr_list_loop sz (map fst ts) l"
    by (induction ts arbitrary: l) (auto split: prod.split)
  then show ?thesis using dir_keys.holds_iterate [OF h, of "\<lambda>k v l. agfs_attr_list_cb sz k l" l] assms(2) by (simp add: attr_tree_iterate_def)
qed

text \<open>
  C16. The tree functions implement the list of the attributes directory. A new tree represents the
  empty list; a search finds a name exactly when the list has it; insertion of a new name, deletion
  of an old one and the walk that lists the names give what the functions on the list give.
\<close>

theorem attributes_tree_implements_list:
  assumes "attr_dir_rep t inum ts" "dir_key name" "ino < 2 ^ 64" "bt_size t + 11264 < 2 ^ 32" "io_iterate io = None"
  shows "((\<exists>i. agfs_btree_find fp t name = Inr i) \<longleftrightarrow> name \<in> fst ` set ts) \<and>
    (if name \<in> fst ` set ts
     then \<exists>t'. agfs_btree_delete fp name t = Some (t', Inr ()) \<and> attr_dir_rep t' inum (attr_tree_delete name ts)
     else \<exists>t'. agfs_btree_insert fp name ino t = Some (t', Inr ()) \<and> attr_dir_rep t' (inum(name := ino)) (attr_tree_insert name f ts)) \<and>
    agfs_btree_iterate t (\<lambda>k v l. agfs_attr_list_cb sz k l) l = Some (attr_list_loop sz (attr_tree_iterate io ts) l, None)"
proof -
  have "map_of ts name = None \<longleftrightarrow> name \<notin> fst ` set ts" by (rule map_of_eq_None_iff)
  then have "(\<exists>i. agfs_btree_find fp t name = Inr i) \<longleftrightarrow> name \<in> fst ` set ts"
    using attr_find [OF assms(1,2), of fp] by (auto split: option.splits)
  then show ?thesis using attr_insert [OF assms(1,2) _ assms(3,4), of fp f] attr_delete [OF assms(1,2), of fp] attr_list [OF assms(1,5), of sz l] by auto
qed

theorem attributes_tree_implements_list_witness:
  "\<forall>fp. \<exists>t0 t' inum. agfs_attr_tree blank_stream = (t0, True) \<and> agfs_btree_insert fp [97] 5 t0 = Some (t', Inr ()) \<and>
    attr_dir_rep t' inum [([97], \<lparr>af_type = 0, af_stream = [], af_size = 0\<rparr>)]"
proof
  fix fp
  obtain t0 where t0: "agfs_attr_tree blank_stream = (t0, True)" "attr_dir_rep t0 (\<lambda>_. 0) []" "bt_size t0 = 2048"
    using attr_new [OF blank_stream_fresh, of "\<lambda>_. 0"] by blast
  define io where "io = \<lparr>io_iget_dir = True, io_iget = (\<lambda>_. True), io_dir_create = True, io_ialloc = True, io_insert = None, io_delete = None,
     io_write = (\<lambda>_. None), io_read = (\<lambda>_. None), io_iterate = None, io_inode_block = True\<rparr>"
  have "dir_key [97]" "io_iterate io = None" by (simp_all add: dir_key_def io_def)
  then show "\<exists>t0 t' inum. agfs_attr_tree blank_stream = (t0, True) \<and> agfs_btree_insert fp [97] 5 t0 = Some (t', Inr ()) \<and>
    attr_dir_rep t' inum [([97], \<lparr>af_type = 0, af_stream = [], af_size = 0\<rparr>)]"
    using attributes_tree_implements_list [OF t0(2), of "[97]" 5 io fp "\<lparr>af_type = 0, af_stream = [], af_size = 0\<rparr>" 0 "\<lparr>xl_list = [], xl_total = 0, xl_errno = None\<rparr>"] t0 by auto
qed

end
