(* ===== verification/Xattr_On_Tree.thy ===== *)
theory Xattr_On_Tree
  imports Btree_Attr Agfs_Xattr Agfs_File
begin

text \<open>
  The attribute calls of \<^verbatim>\<open>fs/agfs/xattr.c\<close> over the stored structures. \<open>Agfs_Attr\<close> has the attributes directory as a list of names and
  files; here the list is the one that the B+tree of \<^verbatim>\<open>btree.c\<close> holds, and every set and remove makes the call on the tree that
  keeps it so. The values fit the block streams of \<^verbatim>\<open>inode.c\<close>. The bounds are those of the two: names of at most 88
  bytes, a tree below 4 GB, values below the length of a run.
\<close>

unbundle bit_operations_syntax

subsection \<open>What the attribute operations leave alone\<close>

definition ag_shape :: "agfs_inode \<Rightarrow> u16 \<times> nat" where
  "ag_shape i = (i_mode i, ag_blkshift i)"

lemma ag_shape_upd [simp]:
  "ag_shape (i\<lparr>ag_small_data := a\<rparr>) = ag_shape i" "ag_shape (i\<lparr>i_dirty := b\<rparr>) = ag_shape i"
  "ag_shape (i\<lparr>ag_attrs := c\<rparr>) = ag_shape i"
  by (simp_all add: ag_shape_def)

lemma ag_shape_parts [simp]:
  "ag_shape (fst (agfs_xattr_remove_sd i name)) = ag_shape i" "ag_shape (fst (agfs_attr_remove io i name)) = ag_shape i"
  "ag_shape (sd_install i a) = ag_shape i"
  by (simp_all add: agfs_xattr_remove_sd_def agfs_attr_remove_def sd_install_def Let_def split: option.split sum.split)

lemma ag_shape_attr_set [simp]: "ag_shape (fst (agfs_attr_set io i name v ty)) = ag_shape i"
  by (auto simp: agfs_attr_set_def Let_def agfs_attr_dir_create_def split: option.splits sum.splits prod.splits)

lemma ag_shape_calls:
  "\<not> ag_inline i \<Longrightarrow> ag_shape (fst (agfs_setxattr io m i name v flags)) = ag_shape i"
  "ag_shape (fst (agfs_removexattr io i name)) = ag_shape i"
  by (auto simp: agfs_setxattr_def setxattr_store_def agfs_removexattr_def Let_def split: sum.split)

subsection \<open>The names in the directory\<close>

lemma attr_dir_rep_names: "map fst ts' = map fst ts \<Longrightarrow> attr_dir_rep t inum ts' = attr_dir_rep t inum ts"
proof -
  have e: "map (\<lambda>(k, f). (k, inum k)) us = map (\<lambda>k. (k, inum k)) (map fst us)" for us :: "(byte list \<times> attr_file) list"
    by (induction us) auto
  show "map fst ts' = map fst ts \<Longrightarrow> attr_dir_rep t inum ts' = attr_dir_rep t inum ts" unfolding attr_dir_rep_def e by (rule arg_cong)
qed

lemma attr_set_names:
  assumes "io_good io"
  shows "map fst (attr_files (fst (agfs_attr_set io i name v ty))) =
    (if name \<in> fst ` set (attr_files i) then map fst (attr_files i)
     else map fst (attr_tree_insert name f (attr_files i)))"
proof -
  have ins: "map fst (attr_tree_insert name g ts) = map fst (attr_tree_insert name f ts)" for g ts by (induction ts) auto
  have a: "ag_attrs (fst (agfs_xattr_remove_sd i name)) = ag_attrs i" by (simp add: agfs_xattr_remove_sd_def)
  show ?thesis
    using assms ins map_of_eq_None_iff [of "attr_files i" name]
    by (auto simp: agfs_attr_set_def agfs_attr_dir_def agfs_attr_dir_create_def io_good_def a attr_files_def attr_ensure_def attr_lookup_def
        Let_def attr_tree_update_props(1) split: option.splits prod.splits if_splits)
qed

lemma attr_remove_names:
  assumes "io_good io"
  shows "map fst (attr_files (fst (agfs_attr_remove io i name))) = map fst (attr_tree_delete name (attr_files i))"
proof (cases "map_of (attr_files i) name")
  case None
  then have "name \<notin> fst ` set (attr_files i)" by (simp add: map_of_eq_None_iff)
  then have "attr_tree_delete name (attr_files i) = attr_files i" by (auto simp: attr_tree_delete_def filter_id_conv image_iff)
  moreover have "fst (agfs_attr_remove io i name) = i"
    using None by (auto simp: agfs_attr_remove_def agfs_attr_dir_def attr_files_def attr_lookup_def split: option.splits)
  ultimately show ?thesis by simp
next
  case (Some f)
  then show ?thesis using assms
    by (auto simp: agfs_attr_remove_def agfs_attr_dir_def attr_files_def attr_lookup_def io_good_def attr_tree_iterate_def Let_def split: option.splits)
qed

text \<open>The call of the tree function that takes the directory from the names before to the names after.\<close>

definition attr_tree_call :: "fpu \<Rightarrow> bkey \<Rightarrow> nat \<Rightarrow> agfs_inode \<Rightarrow> agfs_inode \<Rightarrow> btree \<Rightarrow> btree \<Rightarrow> bool" where
  "attr_tree_call fp name ino i i' t t' \<longleftrightarrow>
     (if name \<in> fst ` set (attr_files i') \<and> name \<notin> fst ` set (attr_files i) then agfs_btree_insert fp name ino t = Some (t', Inr ())
      else if name \<in> fst ` set (attr_files i) \<and> name \<notin> fst ` set (attr_files i') then agfs_btree_delete fp name t = Some (t', Inr ())
      else t' = t)"

lemma tree_follows:
  assumes rep: "attr_dir_rep t inum (attr_files i)" and k: "dir_key name" "ino < 2 ^ 64" "bt_size t + 11264 < 2 ^ 32"
    and n: "map fst (attr_files i') = map fst (attr_files i)
      \<or> name \<notin> fst ` set (attr_files i) \<and> map fst (attr_files i') = map fst (attr_tree_insert name f (attr_files i))
      \<or> map fst (attr_files i') = map fst (attr_tree_delete name (attr_files i))"
  shows "\<exists>t' inum'. attr_tree_call fp name ino i i' t t' \<and> attr_dir_rep t' inum' (attr_files i')"
proof -
  let ?ts = "attr_files i" and ?ts' = "attr_files i'"
  have names: "fst ` set us = set (map fst us)" for us :: "(byte list \<times> attr_file) list" by simp
  have same: ?thesis if "map fst ?ts' = map fst ?ts"
    using rep attr_dir_rep_names [OF that, of t inum] that unfolding attr_tree_call_def names by auto
  from n consider "map fst ?ts' = map fst ?ts" | (ins) "name \<notin> fst ` set ?ts" "map fst ?ts' = map fst (attr_tree_insert name f ?ts)"
    | (del) "name \<in> fst ` set ?ts" "map fst ?ts' = map fst (attr_tree_delete name ?ts)"
    | "name \<notin> fst ` set ?ts" "map fst ?ts' = map fst (attr_tree_delete name ?ts)" by blast
  then show ?thesis
  proof cases
    case ins
    have "name \<in> fst ` set ?ts'" unfolding names ins(2) attr_tree_insert_props(1) by simp
    then show ?thesis using attr_insert [OF rep k(1) ins(1) k(2,3), of fp f] ins(1) attr_dir_rep_names [OF ins(2)]
      unfolding attr_tree_call_def by auto
  next
    case del
    have "name \<notin> fst ` set ?ts'" unfolding names del(2) attr_tree_delete_props(1) by simp
    then show ?thesis using attr_delete [OF rep k(1) del(1), of fp] del(1) attr_dir_rep_names [OF del(2)]
      unfolding attr_tree_call_def by auto
  next
    case 4
    have "attr_tree_delete name ?ts = ?ts" using 4(1) by (auto simp: attr_tree_delete_def filter_id_conv image_iff)
    then show ?thesis using 4(2) same by simp
  qed (rule same)
qed

lemma setxattr_names:
  assumes "io_good io" "\<not> ag_inline i" "agfs_setxattr io m i name v flags = (i', None)"
  shows "map fst (attr_files i') = map fst (attr_files i)
    \<or> name \<notin> fst ` set (attr_files i) \<and> map fst (attr_files i') = map fst (attr_tree_insert name f (attr_files i))
    \<or> map fst (attr_files i') = map fst (attr_tree_delete name (attr_files i))"
proof -
  obtain ty tf where s: "setxattr_store io i name v ty tf = (i', None)"
    using assms(2,3) by (auto simp: agfs_setxattr_def split: if_splits sum.splits)
  have inst: "attr_files (sd_install i a) = attr_files i" for a by (simp add: sd_install_def attr_files_def)
  consider "fst (agfs_attr_set io i name v ty) = i'" | a where "i' = sd_install i a" | a where "i' = fst (agfs_attr_remove io (sd_install i a) name)"
    using s by (auto simp: setxattr_store_def Let_def split: if_splits)
  then show ?thesis
    by cases (use attr_set_names [OF assms(1), of i name v ty f] attr_remove_names [OF assms(1), of "sd_install i _" name] inst in \<open>auto split: if_splits\<close>)
qed

lemma removexattr_names:
  assumes "io_good io" "agfs_removexattr io i name = (i', st)"
  shows "map fst (attr_files i') = map fst (attr_files i) \<or> map fst (attr_files i') = map fst (attr_tree_delete name (attr_files i))"
  using assms(2) attr_remove_names [OF assms(1), of i name] by (auto simp: agfs_removexattr_def attr_files_def split: if_splits)

subsection \<open>The values on the blocks\<close>

text \<open>
  The loop of \<^verbatim>\<open>agfs_attr_write_stream\<close> on a stream of blocks: when it returns without an error, the stream begins with the bytes
  that \<open>stream_write\<close> gives. It fails only on a full volume. The stream stays in its direct runs, below \<open>2 ^ 16\<close> blocks.
\<close>

lemma attr_value_on_blocks:
  assumes "vol_ok v" "disk_ok v" "stream_ok v ds" "blocks_of (sv_bs v) (length x) + 256 < 2 ^ 16" "length x < 2 ^ 32"
    "room v ds (blocks_of (sv_bs v) (length x) - length (stream_blocks (sv_shift v) ds))" "\<forall>k. err k = None"
  shows "\<exists>ds' v' st. stream_copy x 0 ds v = Some (ds', v', st) \<and>
    (case st of
       Some e \<Rightarrow> e = ENOSPC \<and> used_set (sv_sb v') = {0..<s_num_blocks (sv_sb v)}
     | None \<Rightarrow> \<exists>s'. stream_write err sh x (length x) 0 s = (s', None) \<and>
         take (length x) (flat v' (stream_blocks (sv_shift v') ds')) = take (length x) s')"
proof -
  obtain ds' v' st new where c: "stream_copy x 0 ds v = Some (ds', v', st)" "copied v ds v' ds' new"
    and st: "case st of None \<Rightarrow> room v' ds' (blocks_of (sv_bs v) (length x) - length (stream_blocks (sv_shift v) ds @ new))
        \<and> 0 + length x \<le> length (stream_blocks (sv_shift v) ds @ new) * sv_bs v
        \<and> flat v' (stream_blocks (sv_shift v) ds @ new) = mem_put 0 x (flat v (stream_blocks (sv_shift v) ds @ new))
      | Some e \<Rightarrow> e = ENOSPC \<and> used_set (sv_sb v') = {0..<s_num_blocks (sv_sb v)}"
    using stream_copy_ok [OF assms(1,3,2), of 0 x "blocks_of (sv_bs v) (length x)"] assms(4-6) by auto
  obtain s' where s': "stream_write err sh x (length x) 0 s = (s', None)" "take (length x) s' = take (length x) x"
    using stream_write_ok [of "length x" err x 0 s sh] assms(7) by auto
  have "take (length x) (mem_put 0 x X) = x" for X by (simp add: mem_put_def)
  then have "st = None \<Longrightarrow> take (length x) (flat v' (stream_blocks (sv_shift v') ds')) = take (length x) s'"
    using st copied_facts(3,4) [OF c(2)] s'(2) by simp
  then show ?thesis using c(1) st s'(1) by (cases st) auto
qed

subsection \<open>Attributes over the tree\<close>

text \<open>
  The inodes of the theorems: no symbolic link, the inline records and the attributes directory in order, the directory stored
  in the tree \<open>t\<close>, and no value longer than a stream with one run can be.
\<close>

definition attr_value_max :: "agfs_inode \<Rightarrow> nat" where
  "attr_value_max i = min 0x7FFFFFFF (65279 * ag_blocksize i)"

definition xattr_on_tree :: "btree \<Rightarrow> (bkey \<Rightarrow> nat) \<Rightarrow> agfs_inode \<Rightarrow> bool" where
  "xattr_on_tree t inum i \<longleftrightarrow>
     xattr_ok i \<and> \<not> ag_inline i \<and> \<not> S_ISLNK (i_mode i) \<and> attr_dir_rep t inum (attr_files i)
     \<and> (\<forall>k ty v. xattr_abs i k = Some (ty, v) \<longrightarrow> length v \<le> attr_value_max i)"

lemma xattr_on_treeI:
  assumes "xattr_on_tree t inum i" "ag_shape i' = ag_shape i" "xattr_ok i'" "\<not> ag_inline i'" "attr_dir_rep t' inum' (attr_files i')"
    "xattr_abs i' = (xattr_abs i)(name := x)" "\<And>ty v. x = Some (ty, v) \<Longrightarrow> length v \<le> attr_value_max i"
  shows "xattr_on_tree t' inum' i'"
proof -
  have "i_mode i' = i_mode i" "attr_value_max i' = attr_value_max i"
    using assms(2) by (simp_all add: ag_shape_def attr_value_max_def ag_blocksize_def)
  then show ?thesis using assms unfolding xattr_on_tree_def by auto
qed

lemma demo_on_tree:
  "\<exists>t. bt_size t = 2048 \<and> xattr_on_tree t (\<lambda>_. 0) (inode_with [(7, [0x61], [1, 2]), (9, [0x62], [3])] None)"
proof -
  let ?rs = "[(7, [0x61], [1, 2]), (9, [0x62], [3])]" and ?i = "inode_with [(7, [0x61], [1, 2]), (9, [0x62], [3])] None"
  note R = inode_with_ok [of ?rs None]
  obtain t where t: "attr_dir_rep t (\<lambda>_. 0) []" "bt_size t = 2048" using attr_new [OF blank_stream_fresh, of "\<lambda>_. 0"] by blast
  have f: "attr_files ?i = []" using R by (simp add: attr_files_def sd_record_valid(3) sd_size_def)
  have m: "\<not> S_ISLNK (i_mode ?i)" "attr_value_max ?i = 65279 * 1024"
    by (simp_all add: inode_with_def sd_install_def blank_inode_def S_ISLNK_def attr_value_max_def ag_blocksize_def)
  have "length v \<le> 2" if "xattr_abs ?i k = Some (ty, v)" for k ty v
    using that R by (auto simp: xattr_abs_def f sd_lookup_def sd_record_valid(3) sd_size_def sd_record_name split: if_splits)
  then show ?thesis using t f m inode_ab_ok(1,2) unfolding xattr_on_tree_def by (intro exI [of _ t]) fastforce
qed

subsection \<open>Properties\<close>

text \<open>
  C9: \<^verbatim>\<open>agfs_setxattr\<close> implements the update of a map, with the attributes directory in its B+tree, on an inode that is not a
  symbolic link, for names of at most 88 bytes without a zero byte and for values up to 65279 blocks. When no resource fails, a set
  with \<^verbatim>\<open>XATTR_CREATE\<close> of a present attribute and a set with \<^verbatim>\<open>XATTR_REPLACE\<close> of an absent one fail and change nothing; every other set
  succeeds and updates exactly the entry of the name, wherever the attribute was stored before and whether or not the value
  fits the inode. The call on the tree that goes with it (an insertion, a deletion or none) returns without an error and
  leaves a tree with the names of the new directory. The type of a replaced attribute is kept.
\<close>

theorem agfs_setxattr_refines_update:
  assumes "io_good io" "kmalloc_ok m" "xattr_on_tree t inum i" "dir_key name" "name \<noteq> [0x13]"
    "flags AND NOT (XATTR_CREATE OR XATTR_REPLACE) = 0" "length v \<le> attr_value_max i" "ino < 2 ^ 64" "bt_size t + 11264 < 2 ^ 32"
  shows "(xattr_abs i name \<noteq> None \<and> flags AND XATTR_CREATE \<noteq> 0 \<longrightarrow> agfs_setxattr io m i name v flags = (i, Some EEXIST))
    \<and> (xattr_abs i name = None \<and> flags AND XATTR_REPLACE \<noteq> 0 \<longrightarrow> agfs_setxattr io m i name v flags = (i, Some ENODATA))
    \<and> ((xattr_abs i name \<noteq> None \<longrightarrow> flags AND XATTR_CREATE = 0) \<and> (xattr_abs i name = None \<longrightarrow> flags AND XATTR_REPLACE = 0) \<longrightarrow>
       (\<exists>i' ty t' inum'. agfs_setxattr io m i name v flags = (i', None) \<and> attr_tree_call fp name ino i i' t t' \<and> xattr_on_tree t' inum' i'
         \<and> xattr_abs i' = (xattr_abs i)(name \<mapsto> (ty, v))
         \<and> (case xattr_abs i name of None \<Rightarrow> ty = AGFS_FILE_NAME_TYPE | Some (u, w) \<Rightarrow> u \<noteq> 0 \<longrightarrow> ty = u)))"
proof -
  have I: "xattr_ok i" "\<not> ag_inline i" "attr_dir_rep t inum (attr_files i)" using assms(3) by (simp_all add: xattr_on_tree_def)
  have k: "name \<noteq> []" "length name \<le> 255" "length v \<le> 0x7FFFFFFF" using assms(4,7) by (simp_all add: dir_key_def attr_value_max_def)
  note G = agfs_setxattr_good [OF assms(1,2) I(1,2) k(1) assms(5) k(2) assms(6) k(3)]
  have "\<exists>t' inum'. attr_tree_call fp name ino i i' t t' \<and> xattr_on_tree t' inum' i'"
    if c: "agfs_setxattr io m i name v flags = (i', None)" and i': "xattr_ok i'" "\<not> ag_inline i'" "xattr_abs i' = (xattr_abs i)(name \<mapsto> (ty, v))" for i' ty
  proof -
    have sh: "ag_shape i' = ag_shape i" using ag_shape_calls(1) [OF I(2), of io m name v flags] c by simp
    obtain t' inum' where "attr_tree_call fp name ino i i' t t'" "attr_dir_rep t' inum' (attr_files i')"
      using tree_follows [OF I(3) assms(4,8,9) setxattr_names [OF assms(1) I(2) c]] by blast
    then show ?thesis using xattr_on_treeI [OF assms(3) sh i'(1,2) _ i'(3)] assms(7) by blast
  qed
  note tree = this
  show ?thesis
  proof (intro conjI impI)
    assume "(xattr_abs i name \<noteq> None \<longrightarrow> flags AND XATTR_CREATE = 0) \<and> (xattr_abs i name = None \<longrightarrow> flags AND XATTR_REPLACE = 0)"
    from G [THEN conjunct2, THEN conjunct2, THEN mp, OF this]
    obtain i' ty where "agfs_setxattr io m i name v flags = (i', None)" "xattr_ok i'" "\<not> ag_inline i'"
      "xattr_abs i' = (xattr_abs i)(name \<mapsto> (ty, v))" "case xattr_abs i name of None \<Rightarrow> ty = AGFS_FILE_NAME_TYPE | Some (u, w) \<Rightarrow> u \<noteq> 0 \<longrightarrow> ty = u"
      by (elim exE conjE)
    then show "\<exists>i' ty t' inum'. agfs_setxattr io m i name v flags = (i', None) \<and> attr_tree_call fp name ino i i' t t' \<and> xattr_on_tree t' inum' i'
        \<and> xattr_abs i' = (xattr_abs i)(name \<mapsto> (ty, v))
        \<and> (case xattr_abs i name of None \<Rightarrow> ty = AGFS_FILE_NAME_TYPE | Some (u, w) \<Rightarrow> u \<noteq> 0 \<longrightarrow> ty = u)"
      using tree by blast
  qed (use G in blast)+
qed

theorem agfs_setxattr_refines_update_witness:
  "\<forall>fp. \<exists>t t' inum' i' ty. agfs_setxattr io_fine [] (inode_with [(7, [0x61], [1, 2]), (9, [0x62], [3])] None) [0x61] (replicate 900 5) 2 = (i', None)
     \<and> attr_tree_call fp [0x61] 9 (inode_with [(7, [0x61], [1, 2]), (9, [0x62], [3])] None) i' t t'
     \<and> xattr_on_tree t' inum' i' \<and> xattr_abs i' [0x61] = Some (ty, replicate 900 5)"
proof
  fix fp
  let ?i = "inode_with [(7, [0x61], [1, 2]), (9, [0x62], [3])] None"
  obtain t where t: "bt_size t = 2048" "xattr_on_tree t (\<lambda>_. 0) ?i" using demo_on_tree by blast
  have "attr_value_max ?i = 65279 * 1024" by (simp add: inode_with_def sd_install_def blank_inode_def attr_value_max_def ag_blocksize_def)
  then obtain i' t' inum' ty where "agfs_setxattr io_fine [] ?i [0x61] (replicate 900 5) 2 = (i', None)" "attr_tree_call fp [0x61] 9 ?i i' t t'"
    "xattr_on_tree t' inum' i'" "xattr_abs i' = (xattr_abs ?i)([0x61] \<mapsto> (ty, replicate 900 5))"
    using agfs_setxattr_refines_update [OF io_fine_good _ t(2), of "[]" "[0x61]" 2 "replicate 900 5" 9 fp] t(1)
    by (auto simp: kmalloc_ok_def inode_ab_ok(3) dir_key_def)
  then show "\<exists>t t' inum' i' ty. agfs_setxattr io_fine [] ?i [0x61] (replicate 900 5) 2 = (i', None)
     \<and> attr_tree_call fp [0x61] 9 ?i i' t t' \<and> xattr_on_tree t' inum' i' \<and> xattr_abs i' [0x61] = Some (ty, replicate 900 5)"
    by (intro exI [of _ t] exI [of _ t'] exI [of _ inum'] exI [of _ i'] exI [of _ ty]) simp
qed





end
