(* ===== verification/Btree_Log.thy ===== *)
theory Btree_Log
  imports Btree_Dir
begin

text \<open>
  What the tree functions write and when. \<open>journaled\<close> relates the nodes that changed to the blocks that
  were handed to the journal; the operations on a sound directory log every change. The error
  paths follow: a root that is divided while the second block cannot be allocated, and a leaf with
  long names whose half does not fit a node.
\<close>

subsection \<open>Blocks that change and blocks that are logged\<close>

text \<open>
  From one state to a later one, every node that differs lies in a block that was handed to the
  journal in between, or in a block whose buffer the function still holds.
\<close>

definition journaled :: "nat set \<Rightarrow> btree \<Rightarrow> btree \<Rightarrow> bool" where
  "journaled H t t' \<longleftrightarrow> bt_bs t' = bt_bs t \<and>
     (\<exists>ls. bt_logged t' = bt_logged t @ ls \<and> (\<forall>x. bt_node t' x \<noteq> bt_node t x \<longrightarrow> x div bt_bs t \<in> set ls \<union> H))"

lemma journaled_refl [simp]: "journaled H t t"
  by (simp add: journaled_def)

lemma journaled_trans [trans]:
  assumes "journaled H t t1" "journaled H t1 t2"
  shows "journaled H t t2"
proof -
  obtain ls where ls: "bt_logged t1 = bt_logged t @ ls" "\<forall>x. bt_node t1 x \<noteq> bt_node t x \<longrightarrow> x div bt_bs t \<in> set ls \<union> H"
    using assms(1) by (auto simp: journaled_def)
  obtain ms where ms: "bt_logged t2 = bt_logged t1 @ ms" "\<forall>x. bt_node t2 x \<noteq> bt_node t1 x \<longrightarrow> x div bt_bs t \<in> set ms \<union> H"
    using assms by (auto simp: journaled_def)
  have "\<forall>x. bt_node t2 x \<noteq> bt_node t x \<longrightarrow> x div bt_bs t \<in> set (ls @ ms) \<union> H" using ls(2) ms(2) by (metis Un_iff set_append)
  moreover have "bt_logged t2 = bt_logged t @ (ls @ ms)" using ls(1) ms(1) by simp
  ultimately show ?thesis using assms unfolding journaled_def by metis
qed

lemma journaled_mono: "journaled H t t' \<Longrightarrow> H \<subseteq> H' \<Longrightarrow> journaled H' t t'"
  by (auto simp: journaled_def)

lemma journaled_fields [simp]:
  "journaled H t (t'\<lparr>bt_mem := m\<rparr>) = journaled H t t'" "journaled H t (t'\<lparr>bt_dirty := d\<rparr>) = journaled H t t'"
  "journaled H t (t'\<lparr>bt_grow := g\<rparr>) = journaled H t t'" "journaled H t (bt_extend t') = journaled H t t'"
  "journaled H (t\<lparr>bt_mem := m\<rparr>) t' = journaled H t t'" "journaled H (t\<lparr>bt_dirty := d\<rparr>) t' = journaled H t t'"
  by (simp_all add: journaled_def bt_extend_def)

text \<open>A node is changed in a block that is held; the block is logged.\<close>

lemma journaled_put: "journaled H t t' \<Longrightarrow> bt_blk t off \<in> H \<Longrightarrow> journaled H t (put_node off n t')"
  by (auto simp: journaled_def put_node_def bt_blk_def)

lemma journaled_log:
  assumes "journaled (insert (bt_blk t off) H) t t'"
  shows "journaled H t (bt_log off t')"
proof -
  have "bt_blk t' off = bt_blk t off" using assms by (simp add: journaled_def bt_blk_def)
  then show ?thesis using assms by (fastforce simp: journaled_def bt_log_def)
qed

lemma journaled_put_log: "journaled H t (bt_log off (put_node off n t))"
  by (rule journaled_log [OF journaled_put]) simp_all

text \<open>The functions compare block numbers before the offset is truncated; the block size divides the range of offsets.\<close>

lemma same_block:
  assumes "bt_bs t dvd 2 ^ 32" "off div bt_bs t = held div bt_bs t"
  shows "bt_blk t off = bt_blk t held"
proof -
  obtain k where k: "(2 :: nat) ^ 32 = bt_bs t * k" using assms(1) by (rule dvdE)
  have "x mod (bt_bs t * k) div bt_bs t = (x div bt_bs t) mod k" for x :: nat
    by (cases "bt_bs t = 0") (simp_all add: mod_mult2_eq)
  then show ?thesis unfolding bt_blk_def k using assms(2) by simp
qed

lemma journaled_serialize: "bt_serialize off ps ov r l t = Some t' \<Longrightarrow> bt_blk t off \<in> H \<Longrightarrow> journaled H t t'"
  by (auto simp: bt_serialize_def intro!: journaled_put split: option.splits)

lemma journaled_write_node:
  assumes "bt_bs t dvd 2 ^ 32" "agfs_btree_write_node off ps ov r l held t = Some (t', Inr ())" "bt_blk t held \<in> H"
  shows "journaled H t t'"
proof (cases "off div bt_bs t = held div bt_bs t")
  case True
  then show ?thesis using assms same_block [OF assms(1) True] journaled_serialize
    by (auto simp: agfs_btree_write_node_def split: if_splits)
next
  case False
  then obtain t1 where "bt_serialize off ps ov r l t = Some t1" "t' = bt_log off t1"
    using assms(2) by (auto simp: agfs_btree_write_node_def split: option.splits)
  then show ?thesis using journaled_serialize [of off ps ov r l t t1 "insert (bt_blk t off) H"] journaled_log by auto
qed

lemma journaled_relink:
  assumes "bt_bs t dvd 2 ^ 32" "agfs_btree_relink_left off left held t = Some (t', Inr ())" "bt_blk t held \<in> H"
  shows "journaled H t t'"
  using assms same_block [of t off held]
  by (auto simp: agfs_btree_relink_left_def journaled_put_log intro!: journaled_put split: if_splits option.splits)

lemma journaled_grow:
  assumes "agfs_btree_grow held t = (t', Inr off)" "\<forall>x. held = Some x \<longrightarrow> bt_blk t x \<in> H"
  shows "journaled H t t'"
proof -
  have e: "journaled H t (bt_log 0 (put_node 0 n (bt_extend t)))" for n
    by (rule journaled_log [OF journaled_put]) simp_all
  have "bt_blk (bt_extend t) x = bt_blk t x" for x by (simp add: bt_blk_def bt_extend_def)
  moreover have "bt_blk t 0 = 0" by (simp add: bt_blk_def)
  ultimately show ?thesis using assms e
    by (auto simp: agfs_btree_grow_def Let_def intro!: journaled_put split: option.splits sum.splits if_splits)
qed

lemma journaled_bs: "journaled H t t' \<Longrightarrow> bt_bs t' = bt_bs t" "journaled H t t' \<Longrightarrow> bt_blk t' = bt_blk t"
  by (simp_all add: journaled_def bt_blk_def fun_eq_iff)

lemma bt_then_Some: "bt_then r f = Some (t', Inr y) \<longleftrightarrow> (\<exists>t1 x. r = Some (t1, Inr x) \<and> f x t1 = Some (t', Inr y))"
  by (auto simp: bt_then_def split: option.splits sum.splits)

lemma journaled_split_halves:
  assumes "bt_bs t dvd 2 ^ 32" "bt_split_halves off lp rp lo ro leaf t = Some (t', Inr x)"
  shows "journaled H t t'"
proof -
  let ?H = "insert (bt_blk t off) H"
  obtain l r t1 t2 t3 t4 where t1: "agfs_btree_grow (Some off) t = (t1, Inr x)"
    and t2: "agfs_btree_write_node x rp ro (if leaf then r else AGFS_BTREE_NULL) (if leaf then off else AGFS_BTREE_NULL) off t1 = Some (t2, Inr ())"
    and t3: "(if leaf then agfs_btree_relink_left r x off t2 else Some (t2, Inr ())) = Some (t3, Inr ())"
    and t4: "bt_serialize off lp lo (if leaf then x else AGFS_BTREE_NULL) (if leaf then l else AGFS_BTREE_NULL) t3 = Some t4" "t' = bt_log off t4"
    using assms(2) by (auto simp: bt_split_halves_def Let_def bt_then_Some split: option.splits)
  have c1: "journaled ?H t t1" by (rule journaled_grow [OF t1]) simp
  note b1 = journaled_bs [OF c1]
  have c2: "journaled ?H t1 t2" by (rule journaled_write_node [OF _ t2]) (use assms(1) b1 in simp_all)
  note b2 = journaled_bs [OF c2]
  have c3: "journaled ?H t2 t3"
  proof (cases leaf)
    case True
    then have "agfs_btree_relink_left r x off t2 = Some (t3, Inr ())" using t3 by simp
    then show ?thesis by (rule journaled_relink [rotated]) (use assms(1) b1 b2 in simp_all)
  qed (use t3 in simp)
  have c4: "journaled ?H t3 t4" by (rule journaled_serialize [OF t4(1)]) (use journaled_bs [OF c3] b1 b2 in simp)
  have "journaled ?H t t4" by (rule journaled_trans [OF journaled_trans [OF journaled_trans [OF c1 c2] c3] c4])
  then show ?thesis using t4(2) journaled_log by simp
qed

lemma journaled_write_header: "journaled H t (fst (agfs_btree_write_header t hdr))"
  by (auto simp: agfs_btree_write_header_def journaled_put_log split: option.splits)

lemma journaled_new_root:
  assumes "bt_new_root hdr sep off ro depth t = Some (t', Inr ())"
  shows "journaled H t t'"
proof -
  obtain root t1 n h where t1: "agfs_btree_grow None t = (t1, Inr root)"
    and t': "t' = fst (agfs_btree_write_header (bt_log root (put_node root n t1)) h)"
    using assms by (auto simp: bt_new_root_def bt_then_Some Let_def split: option.splits if_splits)
  have "journaled H t t1" by (rule journaled_grow [OF t1]) simp
  also have "journaled H t1 (bt_log root (put_node root n t1))" by (rule journaled_put_log)
  also have "journaled H (bt_log root (put_node root n t1)) t'" unfolding t' by (rule journaled_write_header)
  finally show ?thesis .
qed

lemma journaled_parent_insert:
  assumes "bt_parent_insert poff sep off ro t = Some (t', Inr x)"
  shows "journaled H t t'"
proof -
  have "journaled H t (bt_log poff t1)" if "bt_serialize poff ps ov r l (t\<lparr>bt_mem := m\<rparr>) = Some t1" for m ps ov r l t1
    using journaled_serialize [OF that, of "insert (bt_blk t poff) H"] by (intro journaled_log) (simp add: bt_blk_def)
  then show ?thesis using assms by (auto simp: bt_parent_insert_def Let_def split: option.splits if_splits prod.splits)
qed

lemma journaled_split:
  assumes "bt_bs t dvd 2 ^ 32" "agfs_btree_split hdr path pairs m ov depth t = Some (t', Inr ())"
  shows "journaled H t t'"
  using assms
proof (induction path arbitrary: pairs m ov t)
  case (Cons off up)
  obtain sep lp rp lo ro leaf t1 x where t1: "bt_split_halves off lp rp lo ro leaf t = Some (t1, Inr x)"
    and rest: "(case up of [] \<Rightarrow> bt_new_root hdr sep off x depth t1
      | poff # _ \<Rightarrow> bt_then (bt_parent_insert poff sep off x t1)
          (\<lambda>rest t. case rest of None \<Rightarrow> Some (t, Inr ()) | Some (pp, po) \<Rightarrow> agfs_btree_split hdr up pp (length pp div 2) po depth t)) = Some (t', Inr ())"
    using Cons.prems(2) by (auto simp: agfs_btree_split.simps Let_def bt_then_Some split: if_splits)
  have c1: "journaled H t t1" by (rule journaled_split_halves [OF Cons.prems(1) t1])
  show ?case
  proof (cases up)
    case Nil
    then show ?thesis using rest journaled_trans [OF c1 journaled_new_root] by simp
  next
    case (Cons poff ups)
    obtain t2 y where t2: "bt_parent_insert poff sep off x t1 = Some (t2, Inr y)"
      and y: "(case y of None \<Rightarrow> Some (t2, Inr ()) | Some (pp, po) \<Rightarrow> agfs_btree_split hdr up pp (length pp div 2) po depth t2) = Some (t', Inr ())"
      using rest by (auto simp: Cons bt_then_Some)
    have c2: "journaled H t t2" by (rule journaled_trans [OF c1 journaled_parent_insert [OF t2]])
    then have "bt_bs t2 dvd 2 ^ 32" using Cons.prems(1) journaled_bs(1) by metis
    then show ?thesis using c2 y journaled_trans [OF c2 Cons.IH] by (auto split: option.splits)
  qed
qed (simp add: agfs_btree_split.simps)

lemma journaled_insert:
  assumes "bt_bs t dvd 2 ^ 32" "agfs_btree_insert_impl fp key v dtype t = Some (t', Inr ())"
  shows "journaled H t t'"
proof -
  have "journaled H t (bt_log off t1)" if "bt_serialize off ps ov r l t = Some t1" for off ps ov r l t1
    using journaled_serialize [OF that, of "insert (bt_blk t off) H"] by (intro journaled_log) simp
  then show ?thesis using assms(2) journaled_split [OF assms(1)]
    by (auto simp: agfs_btree_insert_impl_def bt_insert_new_def split: option.splits sum.splits if_splits)
qed

lemma journaled_delete:
  assumes "agfs_btree_delete_impl fp key t = (t', Inr ())"
  shows "journaled H t t'"
  using assms journaled_put_log [of H "t\<lparr>bt_dirty := True\<rparr>"]
  by (auto simp: agfs_btree_delete_impl_def split: option.splits sum.splits if_splits)

lemma journaled_delete_ino_leaves:
  assumes "bt_delete_ino_leaves ino off t = Some r"
  shows "journaled H t (fst r)"
proof (rule bt_delete_ino_leaves.raw_induct [OF _ assms, where P = "\<lambda>ino off t r. journaled H t (fst r)"])
  fix f ino off t and r :: "btree \<times> unit result"
  assume IH: "\<And>ino off t r. f ino off t = Some r \<Longrightarrow> journaled H t (fst r)"
    and run: "(case agfs_btree_read_node t off of
        None \<Rightarrow> Some (t, Inl EIO)
      | Some n \<Rightarrow>
          if nd_overflow n \<noteq> AGFS_BTREE_NULL then Some (t, Inl EIO)
          else
            (case bt_value_index ino 0 (node_pairs n) of
               Some i \<Rightarrow> Some (bt_log off (put_node off (agfs_btree_remove_at n i) (t\<lparr>bt_dirty := True\<rparr>)), Inr ())
             | None \<Rightarrow> if nd_right n = AGFS_BTREE_NULL then Some (t, Inl ENOENT) else f ino (nd_right n) t)) = Some r"
  show "journaled H t (fst r)"
    using run IH journaled_put_log [of H "t\<lparr>bt_dirty := True\<rparr>"] by (auto split: option.splits if_splits)
qed

lemma journaled_delete_ino:
  assumes "agfs_btree_delete_ino_impl ino t = Some (t', Inr ())"
  shows "journaled H t t'"
  using assms journaled_delete_ino_leaves
  by (fastforce simp: agfs_btree_delete_ino_impl_def split: option.splits sum.splits)

lemma journaled_dir_step:
  assumes "bt_bs t dvd 2 ^ 32" "dir_step fp c t = Some (t', Inr ())"
  shows "journaled H t t'"
  using assms journaled_insert [OF assms(1)] journaled_delete journaled_delete_ino
  by (cases c) (auto simp: agfs_btree_insert_def agfs_btree_delete_def agfs_btree_delete_ino_def)

subsection \<open>A split that runs out of space\<close>

text \<open>Only the growth of the stream looks at the outcomes of the block allocation.\<close>

lemma read_grow [simp]:
  "agfs_btree_read_node (t\<lparr>bt_grow := g\<rparr>) = agfs_btree_read_node t" "agfs_btree_read_header (t\<lparr>bt_grow := g\<rparr>) = agfs_btree_read_header t"
proof -
  show r: "agfs_btree_read_node (t\<lparr>bt_grow := g\<rparr>) = agfs_btree_read_node t"
    by (rule ext) (simp add: agfs_btree_read_node_def bt_blk_def split: sum.split)
  show "agfs_btree_read_header (t\<lparr>bt_grow := g\<rparr>) = agfs_btree_read_header t" by (simp add: agfs_btree_read_header_def r)
qed

lemma descend_grow [simp]: "agfs_btree_descend_t d fp (t\<lparr>bt_grow := g\<rparr>) dtype key off = agfs_btree_descend_t d fp t dtype key off"
  by (induction d arbitrary: off) (simp_all split: option.split)

lemma find_grow: "agfs_btree_find fp (t\<lparr>bt_grow := g\<rparr>) key = agfs_btree_find fp t key"
  by (simp add: agfs_btree_find_def split: sum.split option.split)

lemma put_grow [simp]:
  "put_node off n (t\<lparr>bt_grow := g\<rparr>) = (put_node off n t)\<lparr>bt_grow := g\<rparr>" "bt_log off (t\<lparr>bt_grow := g\<rparr>) = (bt_log off t)\<lparr>bt_grow := g\<rparr>"
  by (simp_all add: put_node_def bt_log_def bt_blk_def)

lemma serialize_grow: "bt_serialize off ps ov r l t = Some t' \<Longrightarrow> bt_serialize off ps ov r l (t\<lparr>bt_grow := g\<rparr>) = Some (t'\<lparr>bt_grow := g\<rparr>)"
  by (auto simp: bt_serialize_def put_node_def split: option.splits)

lemma write_node_grow:
  assumes "agfs_btree_write_node off ps ov r l held t = Some (t', Inr ())"
  shows "agfs_btree_write_node off ps ov r l held (t\<lparr>bt_grow := g\<rparr>) = Some (t'\<lparr>bt_grow := g\<rparr>, Inr ())"
  using assms serialize_grow [of off ps ov r l t _ g]
  by (auto simp: agfs_btree_write_node_def split: option.splits if_splits)

lemma relink_grow:
  assumes "agfs_btree_relink_left off left held t = Some (t', Inr ())"
  shows "agfs_btree_relink_left off left held (t\<lparr>bt_grow := g\<rparr>) = Some (t'\<lparr>bt_grow := g\<rparr>, Inr ())"
  using assms by (auto simp: agfs_btree_relink_left_def split: option.splits if_splits)

lemma grow_grow:
  assumes "agfs_btree_grow held t = (t', Inr off)"
  shows "agfs_btree_grow held (t\<lparr>bt_grow := None # g\<rparr>) = (t'\<lparr>bt_grow := g\<rparr>, Inr off)"
proof -
  have e: "bt_extend (t\<lparr>bt_grow := None # g\<rparr>) = (bt_extend t)\<lparr>bt_grow := g\<rparr>" by (simp add: bt_extend_def bt_blk_def)
  have b: "bt_blk ((bt_extend t)\<lparr>bt_grow := g\<rparr>) = bt_blk (bt_extend t)" by (rule ext) (simp add: bt_blk_def)
  have "grow_outcome t = None" using assms by (auto simp: agfs_btree_grow_def split: option.splits)
  then show ?thesis using assms
    by (auto simp: agfs_btree_grow_def grow_outcome_def e b Let_def split: option.splits sum.splits if_splits)
qed

lemma split_halves_grow:
  assumes "bt_split_halves off lp rp lo ro leaf t = Some (t', Inr x)"
  shows "bt_split_halves off lp rp lo ro leaf (t\<lparr>bt_grow := None # g\<rparr>) = Some (t'\<lparr>bt_grow := g\<rparr>, Inr x)"
proof -
  obtain n where n: "agfs_btree_read_node t off = Some n" using assms by (auto simp: bt_split_halves_def split: option.splits)
  obtain t1 t2 t3 t4 where t1: "agfs_btree_grow (Some off) t = (t1, Inr x)"
    and t2: "agfs_btree_write_node x rp ro (if leaf then nd_right n else AGFS_BTREE_NULL) (if leaf then off else AGFS_BTREE_NULL) off t1 = Some (t2, Inr ())"
    and t3: "(if leaf then agfs_btree_relink_left (nd_right n) x off t2 else Some (t2, Inr ())) = Some (t3, Inr ())"
    and t4: "bt_serialize off lp lo (if leaf then x else AGFS_BTREE_NULL) (if leaf then nd_left n else AGFS_BTREE_NULL) t3 = Some t4" "t' = bt_log off t4"
    using assms n by (auto simp: bt_split_halves_def Let_def bt_then_Some)
  have r: "(if leaf then agfs_btree_relink_left (nd_right n) x off (t2\<lparr>bt_grow := g\<rparr>) else Some (t2\<lparr>bt_grow := g\<rparr>, Inr ())) = Some (t3\<lparr>bt_grow := g\<rparr>, Inr ())"
    using t3 relink_grow by (auto split: if_splits)
  show ?thesis unfolding bt_split_halves_def
    using grow_grow [OF t1] write_node_grow [OF t2] r serialize_grow [OF t4(1)] t4(2) n by (simp add: Let_def)
qed

lemma new_root_fails: "bt_new_root hdr sep off ro depth (t\<lparr>bt_grow := [Some e]\<rparr>) = Some (t\<lparr>bt_grow := []\<rparr>, Inl e)"
  by (simp add: bt_new_root_def agfs_btree_grow_def grow_outcome_def bt_then_def)

context key_order
begin

text \<open>A search in a tree whose root is a leaf does not depend on the links of the leaf.\<close>

lemma descend_leaf:
  assumes "healthy t" "place_ok t off" "node_is (get_node t off) l r AGFS_BTREE_NULL kvs"
  shows "agfs_btree_descend_t 16 fp t dtype key off = Inr [off]"
proof -
  have "nd_count (get_node t off) \<le> 99" "nd_key_length (get_node t off) \<le> 996"
    using node_isD [OF assms(3)] node_is_fields [OF assms(3)] by simp_all
  then have "agfs_btree_descend_t (Suc 15) fp t dtype key off = Inr [off]"
    using read_place [OF assms(2,1)] node_is_fields [OF assms(3)] by (subst agfs_btree_descend_t.simps) simp
  then show ?thesis by simp
qed

lemma find_root_leaf:
  assumes "healthy t" "header_ok t dtype off" "place_ok t off" "node_is (get_node t off) l r AGFS_BTREE_NULL kvs" "keys_ok ok_key lt kvs"
    "ok_key key" "key \<notin> fst ` set kvs"
  shows "agfs_btree_find fp t key = Inl ENOENT"
proof -
  have "\<exists>i. agfs_btree_search_node_t fp dtype (get_node t off) key = Inl i"
  proof (cases rule: keys_split [OF assms(5,6)])
    case (2 A B)
    then show ?thesis using agfs_btree_search_node_absent [of _ l r AGFS_BTREE_NULL A B key] assms(4,5,6) by blast
  qed (use assms(7) in auto)
  then show ?thesis using read_header_ok [OF assms(1,2)] read_place [OF assms(3,1)] descend_leaf [OF assms(1,3,4)]
    by (auto simp: agfs_btree_find_def)
qed

text \<open>A tree of one level.\<close>

lemma holds_one_leaf:
  assumes "btree_holds ok_key fp dtype t 1 es"
  obtains off l where "btree_tree ok_key fp dtype t (BL off es)" "healthy t" "header_ok t dtype off" "place_ok t off"
    "node_is (get_node t off) l AGFS_BTREE_NULL AGFS_BTREE_NULL es" "keys_ok ok_key lt es"
proof -
  obtain tr where tr: "btree_tree ok_key fp dtype t tr" "bt_entries tr = es" "bt_bal 1 True tr" using assms unfolding btree_holds_def by blast
  have "\<not> bt_bal 0 r x" for r x by (cases x) simp_all
  then obtain off where T: "tr = BL off es" using tr(2,3) by (cases tr) (auto simp: bt_entries_def)
  note B = tr(1) [unfolded btree_tree_def T]
  have "desc_ok t (off, AGFS_BTREE_NULL, es)" using B by (simp add: shape_def)
  then obtain l r where n: "node_is (get_node t off) l r AGFS_BTREE_NULL es" by (rule desc_okD)
  moreover have "r = AGFS_BTREE_NULL" using B node_is_fields(2) [OF n] by (simp add: shape_def)
  ultimately show thesis using that tr(1) B by (simp add: T shape_def items_ok_kv)
qed

end

context key_order
begin

lemma keys_ok_insert:
  assumes "keys_ok ok_key lt (A @ B)" "ok_key key" "\<forall>p \<in> set A. lt (fst p) key" "\<forall>p \<in> set B. lt key (fst p)"
  shows "keys_ok ok_key lt (A @ (key, v) # B)" "kv_insert lt key v (A @ B) = A @ (key, v) # B"
proof -
  show "keys_ok ok_key lt (A @ (key, v) # B)" using assms by (auto simp: keys_ok_def sorted_wrt_append)
  have "\<forall>p \<in> set A. \<not> lt key (fst p)" using assms(1,2,3) lt_asym by (auto simp: keys_ok_def ball_Un)
  then show "kv_insert lt key v (A @ B) = A @ (key, v) # B" using assms(4) by (rule kv_insert_append)
qed

lemma keys_ok_disjoint: "keys_ok ok_key lt (P @ Q) \<Longrightarrow> p \<in> set Q \<Longrightarrow> fst p \<notin> fst ` set P \<and> ok_key (fst p)"
  using lt_irrefl by (fastforce simp: keys_ok_def sorted_wrt_append)

lemma insert_full_root:
  assumes "btree_tree ok_key fp dtype t (BL off (A @ B))" "node_is (get_node t off) l AGFS_BTREE_NULL AGFS_BTREE_NULL (A @ B)"
    "keys_ok ok_key lt (A @ B)" "place_ok t off" "ok_key key" "key \<noteq> []"
    "\<forall>p \<in> set A. lt (fst p) key" "\<forall>p \<in> set B. lt key (fst p)" "1024 < pairs_size (A @ (key, v) # B)"
  shows "agfs_btree_insert_impl fp key v dtype (t\<lparr>bt_grow := g\<rparr>) =
    agfs_btree_split (mem_get 0 40 (get_node t 0)) [off] (A @ (key, v) # B) (length (A @ (key, v) # B) div 2) AGFS_BTREE_NULL 1 (t\<lparr>bt_grow := g\<rparr>)"
proof -
  note T = assms(1) [unfolded btree_tree_def]
  have "\<not> agfs_btree_node_room (get_node t off) (length key)" using leaf_room [OF assms(2) refl refl, of key v] assms(9) by simp
  moreover have "agfs_btree_descend_t 16 fp t dtype key off = Inr [off]" by (rule descend_leaf [OF _ assms(4,2)]) (use T in simp)
  ultimately show ?thesis
    using collect_absent [OF assms(2,3,5,7,8)] node_isD(7) [OF assms(2)] read_header_ok [of t dtype off] T read_place [OF assms(4)] assms(6)
    by (simp add: agfs_btree_insert_impl_def bt_insert_new_def node_is_pairs [OF assms(2)])
qed

end

context tree_keys
begin

lemma full_leaf_ready:
  assumes "node_is n l r ov (A @ B)" "keys_ok ok_key lt (A @ B)" "ok_key key" "v < 2 ^ 64" "1024 < pairs_size (A @ (key, v) # B)"
  shows "ready (BL off (A @ (key, v) # B))"
proof -
  have len: "length key \<le> 88" using key_len [OF assms(3)] by simp
  have "keys_length (A @ (key, v) # B) + 10 * length (A @ (key, v) # B) \<le> 1094"
    using pairs_size_bounds(1) [of "A @ B"] node_isD(6) [OF assms(1)] len by simp
  moreover have "2 \<le> length (A @ (key, v) # B)" using assms(5) len pairs_size_bounds(2) [of "A @ (key, v) # B"] by (cases A; cases B) auto
  ultimately show ?thesis using node_isD(5) [OF assms(1)] assms(4) by (auto simp: ready_def)
qed

text \<open>
  The root is a full leaf and the stream can grow by one node but not by two: the half that moved to the
  new node is out of reach of every search.
\<close>

lemma root_split_without_space:
  assumes "btree_holds ok_key fp dtype t 1 es" "ok_key key" "key \<notin> fst ` set es" "v < 2 ^ 64"
    "1024 < pairs_size (kv_insert lt key v es)" "bt_size t + 1024 < 2 ^ 32" "ps = kv_insert lt key v es"
  shows "\<exists>t'. agfs_btree_insert_impl fp key v dtype (t\<lparr>bt_grow := [None, Some e]\<rparr>) = Some (t', Inl e) \<and>
    (\<forall>p \<in> set (drop (length ps div 2) ps). agfs_btree_find fp t' (fst p) = Inl ENOENT)"
proof -
  obtain off l where T: "btree_tree ok_key fp dtype t (BL off es)" "healthy t" "header_ok t dtype off" "place_ok t off"
      "node_is (get_node t off) l AGFS_BTREE_NULL AGFS_BTREE_NULL es" "keys_ok ok_key lt es" by (rule holds_one_leaf [OF assms(1)])
  obtain A B where es: "es = A @ B" and AB: "\<forall>p \<in> set A. lt (fst p) key" "\<forall>p \<in> set B. lt key (fst p)"
    by (cases rule: keys_split [OF T(6) assms(2)]) (use assms(3) in auto)
  note I = keys_ok_insert [OF T(6) [unfolded es] assms(2) AB, of v]
  have ps: "ps = A @ (key, v) # B" using assms(7) I(2) es by simp
  define m where "m = length ps div 2"
  have rd: "ready (BL off ps)" unfolding ps
    by (rule full_leaf_ready [OF T(5) [unfolded es] T(6) [unfolded es] assms(2,4)]) (use assms(5) I(2) es in simp)
  have ko: "keys_ok ok_key lt ps" using I(1) ps by simp
  have R: "keys_length ps + 10 * length ps \<le> 1094" using rd by (simp add: ready_def)
  note fit = leaf_halves_fit [OF keys_bounded [OF ko] R m_def]
  obtain t' where t': "bt_split_halves off (take m ps) (drop m ps) AGFS_BTREE_NULL AGFS_BTREE_NULL True t = Some (t', Inr (bt_size t))"
      "halved t t' off (node_build l (bt_size t) AGFS_BTREE_NULL (take m ps)) (node_build off AGFS_BTREE_NULL AGFS_BTREE_NULL (drop m ps)) {}"
    using split_halves_leaf [OF T(2) assms(6) T(4) fit, of l AGFS_BTREE_NULL] node_is_fields [OF T(5)] by auto
  have "split_call (BL off ps) (t\<lparr>bt_grow := [None, Some e]\<rparr>) = Some (t'\<lparr>bt_grow := [Some e]\<rparr>, Inr (bt_size t))"
    using split_halves_grow [OF t'(1)] by (simp add: split_call_def m_def)
  then have run: "agfs_btree_insert_impl fp key v dtype (t\<lparr>bt_grow := [None, Some e]\<rparr>) = Some (t'\<lparr>bt_grow := []\<rparr>, Inl e)"
    using insert_full_root [OF T(1,5,6) [unfolded es] T(4) assms(2) _ AB, of v] key_len [OF assms(2)] assms(5) es I(2) new_root_fails
      agfs_btree_split_step [OF rd, where up = "[]"] by (simp add: ps [symmetric])
  have "\<forall>p \<in> set (take m ps). snd p < 2 ^ 64" "bt_size t < 2 ^ 64" "get_node t' off = node_build l (bt_size t) AGFS_BTREE_NULL (take m ps)"
    using rd T(2) t'(2) by (auto simp: ready_def healthy_def halved_def dest: in_set_takeD)
  then have "node_is (get_node t' off) l (bt_size t) AGFS_BTREE_NULL (take m ps)"
    using node_build_is [OF fit(1) node_isD(2) [OF T(5)], of "bt_size t" AGFS_BTREE_NULL] by simp
  then have "agfs_btree_find fp t' (fst p) = Inl ENOENT" if "p \<in> set (drop m ps)" for p
    using keys_ok_disjoint [of "take m ps" "drop m ps" p] that ko keys_ok_append [of "take m ps" "drop m ps"]
      find_root_leaf [of t' off l "bt_size t" "take m ps" "fst p"] header_ok_low [of t' t dtype off] T(3,4) t'(2)
    by (simp add: halved_def)
  then show ?thesis using run by (intro exI [of _ "t'\<lparr>bt_grow := []\<rparr>"]) (simp add: find_grow m_def)
qed

end

subsection \<open>Halves that do not fit\<close>

context key_order
begin

text \<open>The split halves a leaf by the number of its pairs; with longer keys a half may be larger than a node.\<close>

lemma split_overruns:
  assumes "btree_holds ok_key fp dtype t 1 es" "ok_key key" "key \<noteq> []" "key \<notin> fst ` set es"
    "1024 < pairs_size (kv_insert lt key v es)" "bt_size t + 1024 < 2 ^ 32" "ps = kv_insert lt key v es"
    "1024 < pairs_size (drop (length ps div 2) ps)" and two: "2 \<le> length ps"
  shows "agfs_btree_insert_impl fp key v dtype t = None"
proof -
  obtain off l where T: "btree_tree ok_key fp dtype t (BL off es)" "healthy t" "header_ok t dtype off" "place_ok t off"
      "node_is (get_node t off) l AGFS_BTREE_NULL AGFS_BTREE_NULL es" "keys_ok ok_key lt es" by (rule holds_one_leaf [OF assms(1)])
  obtain A B where es: "es = A @ B" and AB: "\<forall>p \<in> set A. lt (fst p) key" "\<forall>p \<in> set B. lt key (fst p)"
    by (cases rule: keys_split [OF T(6) assms(2)]) (use assms(4) in auto)
  note I = keys_ok_insert [OF T(6) [unfolded es] assms(2) AB, of v]
  have ps: "ps = A @ (key, v) # B" using assms(7) I(2) es by simp
  let ?m = "length ps div 2"
  have big: "1024 < pairs_size ps" using assms(5,7) by simp
  have run: "agfs_btree_insert_impl fp key v dtype (t\<lparr>bt_grow := bt_grow t\<rparr>) =
      agfs_btree_split (mem_get 0 40 (get_node t 0)) [off] ps ?m AGFS_BTREE_NULL 1 (t\<lparr>bt_grow := bt_grow t\<rparr>)"
    using insert_full_root [OF T(1,5,6) [unfolded es] T(4) assms(2,3) AB, of v "bt_grow t"] big by (simp only: ps)
  obtain t1 where t1: "agfs_btree_grow (Some off) t = (t1, Inr (bt_size t))" "grown t t1" by (rule grow_ok [OF T(2) assms(6)])
  have p1: "healthy t1" "place_ok t1 (bt_size t)" using t1(2) by (simp_all add: grown_def)
  have "bt_serialize (bt_size t) (drop ?m ps) ov r x t1 = None" for ov r x
    using assms(8) p1(1) by (simp add: bt_serialize_def agfs_btree_serialize_def healthy_def)
  then have "agfs_btree_write_node (bt_size t) (drop ?m ps) AGFS_BTREE_NULL AGFS_BTREE_NULL off off t1 = None"
    using read_place [OF p1(2,1)] by (simp add: agfs_btree_write_node_def)
  then have h: "bt_split_halves off (take ?m ps) (drop ?m ps) AGFS_BTREE_NULL AGFS_BTREE_NULL True t = None"
    using t1(1) read_place [OF T(4,2)] node_is_fields [OF T(5)] by (simp add: bt_split_halves_def Let_def bt_then_def)
  have "1 \<le> ?m" "?m < length ps" using two by linarith+
  then have "agfs_btree_split (mem_get 0 40 (get_node t 0)) [off] ps ?m AGFS_BTREE_NULL 1 t = None"
    using h by (subst agfs_btree_split.simps) (simp add: Let_def bt_then_def)
  then show ?thesis using run by simp
qed

end

lemma dir_step_journaled:
  assumes "dir_holds t es" "dir_op_ok c" "bt_size t + 11264 < 2 ^ 32" "bt_bs t dvd 2 ^ 32" "dir_step fp c t = Some (t', r)"
  shows "journaled {} t t'"
proof (cases r)
  case (Inl e)
  have "t' = t"
  proof (cases c)
    case (Dir_insert name ino)
    then show ?thesis using dir_holds_insert [OF assms(1) _ _ assms(3), of name ino fp] assms(2,5) Inl by (auto split: if_splits)
  next
    case (Dir_delete name)
    then show ?thesis using dir_holds_delete [OF assms(1), of name fp] assms(2,5) Inl by (auto split: if_splits)
  next
    case (Dir_delete_ino ino)
    then show ?thesis using dir_holds_delete_ino [OF assms(1), of ino] assms(5) Inl by (auto split: if_splits)
  qed
  then show ?thesis by simp
next
  case (Inr u)
  then show ?thesis using journaled_dir_step [OF assms(4)] assms(5) by simp
qed

lemma dir_run_journaled:
  assumes "dir_holds t es" "list_all dir_op_ok cs" "bt_size t + 11264 * length cs < 2 ^ 32" "bt_bs t dvd 2 ^ 32" "dir_run fp cs t = Some (t', rs)"
  shows "journaled {} t t'"
  using assms
proof (induction cs arbitrary: t es rs)
  case (Cons c cs)
  obtain t1 where t1: "dir_step fp c t = Some (t1, snd (dir_spec c es))" "dir_holds t1 (fst (dir_spec c es))" "bt_size t1 \<le> bt_size t + 11264"
    by (rule dir_step_refines [OF Cons.prems(1), of c]) (use Cons.prems in simp_all)
  have j: "journaled {} t t1" by (rule dir_step_journaled [OF Cons.prems(1) _ _ Cons.prems(4) t1(1)]) (use Cons.prems(2,3) in simp_all)
  then have "bt_bs t1 dvd 2 ^ 32" using Cons.prems(4) by (simp add: journaled_def)
  moreover obtain rs1 where "dir_run fp cs t1 = Some (t', rs1)" using Cons.prems(5) t1(1) by (auto split: option.splits prod.splits)
  ultimately have "journaled {} t1 t'" using Cons.IH [OF t1(2)] Cons.prems(2,3) t1(3) by simp
  with j show ?case by (rule journaled_trans)
qed simp

subsection \<open>Properties of writes\<close>

text \<open>
  C15. Any sequence of insertions and deletions on a sound directory stream returns and hands to the journal each block in which it
  changed a node, with calls that fail among them, and the stream holds the directory of the specification. The block size divides the range of offsets and the stream
  stays below 4 GB.
\<close>

theorem changed_blocks_are_logged:
  assumes "dir_holds t es" "bt_bs t dvd 2 ^ 32" "list_all dir_op_ok cs" "bt_size t + 11264 * length cs < 2 ^ 32"
  shows "\<exists>t' ls. dir_run fp cs t = Some (t', snd (dir_spec_run cs es)) \<and> dir_holds t' (fst (dir_spec_run cs es)) \<and>
    bt_logged t' = bt_logged t @ ls \<and> (\<forall>off. get_node t' off \<noteq> get_node t off \<longrightarrow> bt_blk t off \<in> set ls)"
proof -
  obtain t' where t': "dir_run fp cs t = Some (t', snd (dir_spec_run cs es))" "dir_holds t' (fst (dir_spec_run cs es))"
    using dir_run_refines [OF assms(1,3,4), of fp] by blast
  obtain ls where "bt_logged t' = bt_logged t @ ls" "\<forall>x. bt_node t' x \<noteq> bt_node t x \<longrightarrow> x div bt_bs t \<in> set ls"
    using dir_run_journaled [OF assms(1,3,4,2) t'(1)] by (auto simp: journaled_def)
  then show ?thesis using t' by (auto simp: get_node_def bt_blk_def)
qed

theorem changed_blocks_are_logged_witness:
  "\<forall>fp. \<exists>t' ls. dir_run fp [Dir_delete [97], Dir_insert [98] 7] (leaf_stream [([46], 9), ([97], 5)]) = Some (t', [Inr (), Inr ()]) \<and>
    bt_logged t' = ls \<and> (\<forall>off. get_node t' off \<noteq> get_node (leaf_stream [([46], 9), ([97], 5)]) off \<longrightarrow> off mod 2 ^ 32 div 1024 \<in> set ls)"
proof
  fix fp
  let ?t = "leaf_stream [([46], 9), ([97], 5)]" and ?cs = "[Dir_delete [97], Dir_insert [98] 7]"
  have "dir_holds ?t [([46], 9), ([97], 5)]" by (rule leaf_stream_dir) (simp_all add: dir_key_def pairs_size_def bt_align_def)
  moreover have "list_all dir_op_ok ?cs" by (simp add: dir_key_def)
  moreover have "bt_bs ?t dvd 2 ^ 32" by simp
  moreover have l: "bt_logged ?t = []" "bt_size ?t = 2048" "bt_bs ?t = 1024" by (simp_all add: leaf_stream_def two_nodes_def put_node_def blank_stream_def)
  ultimately show "\<exists>t' ls. dir_run fp ?cs ?t = Some (t', [Inr (), Inr ()]) \<and>
    bt_logged t' = ls \<and> (\<forall>off. get_node t' off \<noteq> get_node ?t off \<longrightarrow> off mod 2 ^ 32 div 1024 \<in> set ls)"
    using changed_blocks_are_logged [of ?t "[([46], 9), ([97], 5)]" ?cs fp] by (auto simp: bt_blk_def)
qed

text \<open>
  C35. When the root is a full leaf and the volume has room for one more block and not for two, an
  insertion fails with ENOSPC after the leaf was divided: every name in the upper half, which could be
  found before, is no longer found.
\<close>

theorem failed_root_split_hides_names:
  assumes "btree_holds dir_key fp 0 t 1 es" "dir_key name" "name \<notin> fst ` set es" "ino < 2 ^ 64"
    "1024 < pairs_size (kv_insert agfs_key_less name ino es)" "bt_size t + 1024 < 2 ^ 32"
  shows "\<exists>t'. agfs_btree_insert fp name ino (t\<lparr>bt_grow := [None, Some ENOSPC]\<rparr>) = Some (t', Inl ENOSPC) \<and>
    (\<forall>p \<in> set es. p \<in> set (drop (Suc (length es) div 2) (kv_insert agfs_key_less name ino es)) \<longrightarrow>
       agfs_btree_find fp t (fst p) = Inr (snd p mod 2 ^ 32) \<and> agfs_btree_find fp t' (fst p) = Inl ENOENT)"
proof -
  let ?ps = "kv_insert agfs_key_less name ino es"
  note ok = dir_keys.holds_sorted [OF assms(1)]
  have k: "kv_insert (key_lt fp 0) name ino es = ?ps" using ok(2) assms(2) by (intro kv_insert_cong) (auto simp: key_lt_string dir_key_def)
  have len: "length ?ps = Suc (length es)" by (induction es) auto
  obtain t' where t': "agfs_btree_insert_impl fp name ino 0 (t\<lparr>bt_grow := [None, Some ENOSPC]\<rparr>) = Some (t', Inl ENOSPC)"
      "\<forall>p \<in> set (drop (length ?ps div 2) ?ps). agfs_btree_find fp t' (fst p) = Inl ENOENT"
    using dir_keys.root_split_without_space [OF assms(1-4) _ assms(6) refl, of ENOSPC] assms(5) unfolding k by blast
  have "distinct (map fst es)" using ok dir_keys.lt_irrefl by (auto simp: sorted_wrt_iff_nth_less distinct_conv_nth) (metis linorder_neqE_nat nth_mem)
  then have "agfs_btree_find fp t (fst p) = Inr (snd p mod 2 ^ 32)" if "p \<in> set es" for p
    using dir_keys.holds_find [OF assms(1), of "fst p"] ok(2) that by (cases p) fastforce
  then show ?thesis using t' unfolding len agfs_btree_insert_def by blast
qed

text \<open>Ten names of 88 bytes fill a leaf; four of 200 bytes and twelve of one byte fill it as well.\<close>

definition full_names :: "bpair list" where
  "full_names = map (\<lambda>i. (replicate 88 (word_of_nat i), i)) [1, 2, 3, 4, 5, 6, 7, 8, 9, 10]"

definition long_names :: "bpair list" where
  "long_names = map (\<lambda>i. ([word_of_nat i], i)) [1, 2, 3, 4, 5, 6, 7, 8, 9, 10, 11, 12] @
     map (\<lambda>i. (replicate 200 (word_of_nat i), i)) [13, 14, 15, 16]"

lemma agfs_key_less_replicate:
  "0 < n \<Longrightarrow> x \<noteq> y \<Longrightarrow> agfs_key_less (replicate n x) (replicate n y) = (sint x < sint y)"
  "0 < n \<Longrightarrow> x \<noteq> y \<Longrightarrow> agfs_key_less [x] (replicate n y) = (sint x < sint y)"
  "0 < n \<Longrightarrow> x \<noteq> y \<Longrightarrow> agfs_key_less (replicate n x) [y] = (sint x < sint y)"
  by (cases n; simp)+

lemma replicate_not_single: "2 \<le> n \<Longrightarrow> replicate n x \<noteq> [y]"
  by (metis length_replicate length_Cons list.size(3) Suc_1 not_less_eq_eq le_refl One_nat_def)

lemma full_names_hold: "btree_holds dir_key fp 0 (leaf_stream full_names) 1 full_names"
proof (rule leaf_stream_holds)
  have k: "\<forall>p \<in> set full_names. dir_key (fst p)" by (simp add: full_names_def dir_key_def)
  moreover have "sorted_wrt agfs_key_less (map fst full_names)" by (simp add: full_names_def agfs_key_less_replicate)
  ultimately show "keys_ok dir_key (key_lt fp 0) full_names" using sorted_dir_keys [of full_names fp] by (simp add: keys_ok_def dir_key_def)
qed (simp_all add: full_names_def pairs_size_def bt_align_def)

lemma full_names_insert: "kv_insert agfs_key_less (replicate 88 11) 11 full_names = full_names @ [(replicate 88 11, 11)]"
  by (simp add: full_names_def agfs_key_less_replicate)

theorem failed_root_split_hides_names_witness:
  "\<forall>fp. \<exists>t'. agfs_btree_insert fp (replicate 88 11) 11 ((leaf_stream full_names)\<lparr>bt_grow := [None, Some ENOSPC]\<rparr>) = Some (t', Inl ENOSPC) \<and>
    agfs_btree_find fp (leaf_stream full_names) (replicate 88 7) = Inr 7 \<and> agfs_btree_find fp t' (replicate 88 7) = Inl ENOENT"
proof
  fix fp
  let ?t = "leaf_stream full_names" and ?p = "(replicate 88 7 :: bkey, 7 :: nat)"
  have "1024 < pairs_size (full_names @ [(replicate 88 11, 11)])" by (simp add: full_names_def pairs_size_def bt_align_def)
  moreover have "(replicate 88 11 :: bkey) \<notin> fst ` set full_names" "dir_key (replicate 88 11)" by (simp_all add: full_names_def dir_key_def)
  moreover have "?p \<in> set full_names" "?p \<in> set (drop (Suc (length full_names) div 2) (full_names @ [(replicate 88 11, 11)]))"
    by (simp_all add: full_names_def)
  ultimately show "\<exists>t'. agfs_btree_insert fp (replicate 88 11) 11 (?t\<lparr>bt_grow := [None, Some ENOSPC]\<rparr>) = Some (t', Inl ENOSPC) \<and>
    agfs_btree_find fp ?t (replicate 88 7) = Inr 7 \<and> agfs_btree_find fp t' (replicate 88 7) = Inl ENOENT"
    using failed_root_split_hides_names [OF full_names_hold, of "replicate 88 11" 11 fp] unfolding full_names_insert by fastforce
qed

text \<open>
  C36. The split divides a leaf by the number of pairs and not by their size. When the names are longer
  than 88 bytes the upper half may be larger than a node, and the insertion writes past it: the model
  has no result.
\<close>

theorem long_names_overrun_the_node:
  assumes "btree_holds name_key fp 0 t 1 es" "name_key name" "name \<notin> fst ` set es" "es \<noteq> []"
    "1024 < pairs_size (kv_insert agfs_key_less name ino es)" "bt_size t + 1024 < 2 ^ 32"
    "1024 < pairs_size (drop (Suc (length es) div 2) (kv_insert agfs_key_less name ino es))"
  shows "agfs_btree_insert fp name ino t = None"
proof -
  have T: "keys_ok name_key (key_lt fp 0) es" by (rule name_keys.holds_one_leaf [OF assms(1)])
  then have k: "kv_insert (key_lt fp 0) name ino es = kv_insert agfs_key_less name ino es"
    using assms(2) by (intro kv_insert_cong) (auto simp: key_lt_string name_key_def keys_ok_def)
  have len: "length (kv_insert agfs_key_less name ino es) = Suc (length es)" by (induction es) auto
  then have two: "2 \<le> length (kv_insert agfs_key_less name ino es)" using assms(4) by (cases es) auto
  have ne: "name \<noteq> []" using assms(2) by (simp add: name_key_def)
  show ?thesis unfolding agfs_btree_insert_def
    by (rule name_keys.split_overruns [OF assms(1,2) ne assms(3) _ assms(6) refl]) (use assms(5,7) len two in \<open>simp_all add: k\<close>)
qed

theorem long_names_overrun_the_node_witness:
  "\<forall>fp. agfs_btree_insert fp (replicate 200 17) 17 (leaf_stream long_names) = None"
proof
  fix fp
  have "\<forall>p \<in> set long_names. name_key (fst p)" by (simp add: long_names_def name_key_def)
  moreover have "sorted_wrt agfs_key_less (map fst long_names)" by (simp add: long_names_def agfs_key_less_replicate)
  ultimately have "keys_ok name_key (key_lt fp 0) long_names" using sorted_dir_keys [of long_names fp] by (simp add: keys_ok_def name_key_def)
  then have h: "btree_holds name_key fp 0 (leaf_stream long_names) 1 long_names"
    by (rule leaf_stream_holds) (simp_all add: long_names_def pairs_size_def bt_align_def)
  have i: "kv_insert agfs_key_less (replicate 200 17) 17 long_names = long_names @ [(replicate 200 17, 17)]"
    by (simp add: long_names_def agfs_key_less_replicate)
  show "agfs_btree_insert fp (replicate 200 17) 17 (leaf_stream long_names) = None"
    by (rule long_names_overrun_the_node [OF h]) (simp_all only: i, simp_all add: long_names_def name_key_def pairs_size_def bt_align_def replicate_not_single)
qed

end
