(* ===== verification/Block_Store.thy ===== *)
theory Block_Store
  imports Agfs_Super
begin

text \<open>
  The buffer cache as the journal sees it, \<^verbatim>\<open>fs/buffer.c\<close>: the buffers of one volume at one block
  size. A buffer of the hash table has a content and a dirty flag; the dirty list is a queue, a
  buffer already on it keeps its place. Every write that reaches the device is recorded, in order,
  so that a crash is a prefix of the recorded writes. Reads of the device can fail; its writes
  succeed, and no buffer is evicted.
\<close>

subsection \<open>Buffers\<close>

record blk_store =
  st_disk :: "nat \<Rightarrow> byte list"
  st_cache :: "nat \<rightharpoonup> byte list"
  st_flag :: "nat \<Rightarrow> bool"
  st_list :: "nat list"
  st_trace :: "(nat \<times> byte list) list"
  st_bad :: "nat \<Rightarrow> bool"
  st_discards :: "(nat \<times> nat) list"

definition insert_on_dirty_list :: "blk_store \<Rightarrow> nat \<Rightarrow> blk_store" where
  "insert_on_dirty_list s b = (if b \<in> set (st_list s) then s else s\<lparr>st_list := st_list s @ [b]\<rparr>)"

text \<open>A read gives the buffer's content; the caller writes into it and releases it with \<open>brelse\<close> or \<open>bwrite\<close>.\<close>

definition bread :: "blk_store \<Rightarrow> nat \<Rightarrow> (blk_store \<times> byte list) option" where
  "bread s b =
     (case st_cache s b of
        Some d \<Rightarrow> Some (s, d)
      | None \<Rightarrow>
          if st_bad s b then None
          else Some (s\<lparr>st_cache := (st_cache s)(b \<mapsto> st_disk s b)\<rparr>, st_disk s b))"

definition brelse :: "blk_store \<Rightarrow> nat \<Rightarrow> byte list \<Rightarrow> blk_store" where
  "brelse s b d =
     (let s1 = s\<lparr>st_cache := (st_cache s)(b \<mapsto> d)\<rparr>
      in if st_flag s1 b then insert_on_dirty_list s1 b else s1)"

definition bwrite :: "blk_store \<Rightarrow> nat \<Rightarrow> byte list \<Rightarrow> blk_store" where
  "bwrite s b d = brelse (s\<lparr>st_flag := (st_flag s)(b := True)\<rparr>) b d"

definition sync_one_buffer :: "blk_store \<Rightarrow> nat \<Rightarrow> blk_store" where
  "sync_one_buffer s b =
     (case st_cache s b of
        None \<Rightarrow> s
      | Some d \<Rightarrow> s\<lparr>st_disk := (st_disk s)(b := d), st_flag := (st_flag s)(b := False),
                    st_trace := st_trace s @ [(b, d)]\<rparr>)"

fun sync_list :: "nat list \<Rightarrow> blk_store \<Rightarrow> blk_store" where
  "sync_list [] s = s"
| "sync_list (b # bs) s = sync_list bs (sync_one_buffer (s\<lparr>st_list := bs\<rparr>) b)"

definition sync_buffers :: "blk_store \<Rightarrow> blk_store" where
  "sync_buffers s = sync_list (st_list s) s"

definition sync_buffers_select :: "blk_store \<Rightarrow> nat \<Rightarrow> nat \<Rightarrow> blk_store" where
  "sync_buffers_select s first count =
     fold (\<lambda>b s. if st_cache s b \<noteq> None \<and> st_flag s b then sync_one_buffer s b else s) [first..<first + count] s"

subsection \<open>The interface of the cache\<close>

text \<open>
  What a user of the cache sees: a read returns the current content of a block, a write changes the
  content of one block. \<open>vw\<close> is the content every reader sees, \<open>usable\<close> the states in which no read
  fails.
\<close>

locale block_cache =
  fixes usable :: "'s \<Rightarrow> bool"
    and vw :: "'s \<Rightarrow> nat \<Rightarrow> byte list"
    and rd :: "'s \<Rightarrow> nat \<Rightarrow> ('s \<times> byte list) option"
    and wr :: "'s \<Rightarrow> nat \<Rightarrow> byte list \<Rightarrow> 's"
  assumes rd_vw: "usable s \<Longrightarrow> \<exists>s'. rd s b = Some (s', vw s b) \<and> vw s' = vw s \<and> usable s'"
    and wr_vw: "vw (wr s b d) = (vw s)(b := d)"
    and wr_usable: "usable s \<Longrightarrow> usable (wr s b d)"
begin

text \<open>Read-modify-write of a block, and the same for a list of blocks.\<close>

definition rmw :: "nat \<times> byte list \<Rightarrow> 's \<Rightarrow> 's" where
  "rmw bd s = (case rd s (fst bd) of None \<Rightarrow> s | Some (s', _) \<Rightarrow> wr s' (fst bd) (snd bd))"

lemma rmw_vw: "usable s \<Longrightarrow> vw (rmw bd s) = (vw s)(fst bd := snd bd) \<and> usable (rmw bd s)"
  using rd_vw [of s "fst bd"] by (auto simp: rmw_def wr_vw wr_usable)

lemma fold_rmw_vw:
  "usable s \<Longrightarrow> vw (fold rmw bds s) = fold (\<lambda>(b, d) f. f(b := d)) bds (vw s) \<and> usable (fold rmw bds s)"
  by (induction bds arbitrary: s) (auto simp: rmw_vw case_prod_beta)

end

definition view :: "blk_store \<Rightarrow> nat \<Rightarrow> byte list" where
  "view s b = (case st_cache s b of Some d \<Rightarrow> d | None \<Rightarrow> st_disk s b)"

definition readable :: "blk_store \<Rightarrow> bool" where
  "readable s \<longleftrightarrow> st_bad s = (\<lambda>_. False)"

lemma brelse_fields [simp]:
  "st_disk (brelse s b d) = st_disk s" "st_flag (brelse s b d) = st_flag s" "st_trace (brelse s b d) = st_trace s"
  "st_bad (brelse s b d) = st_bad s" "st_cache (brelse s b d) = (st_cache s)(b \<mapsto> d)"
  "st_list (brelse s b d) = (if st_flag s b \<and> b \<notin> set (st_list s) then st_list s @ [b] else st_list s)"
  by (simp_all add: brelse_def insert_on_dirty_list_def Let_def)

lemma bwrite_fields [simp]:
  "st_disk (bwrite s b d) = st_disk s" "st_flag (bwrite s b d) = (st_flag s)(b := True)"
  "st_trace (bwrite s b d) = st_trace s" "st_bad (bwrite s b d) = st_bad s"
  "st_cache (bwrite s b d) = (st_cache s)(b \<mapsto> d)"
  "st_list (bwrite s b d) = (if b \<in> set (st_list s) then st_list s else st_list s @ [b])"
  by (simp_all add: bwrite_def)

lemma view_brelse [simp]: "view (brelse s b d) = (view s)(b := d)"
  by (auto simp: view_def fun_eq_iff split: option.split)

lemma view_bwrite [simp]: "view (bwrite s b d) = (view s)(b := d)"
  by (auto simp: view_def fun_eq_iff split: option.split)

lemma bread_readable:
  assumes "readable s"
  shows "\<exists>s'. bread s b = Some (s', view s b) \<and> view s' = view s \<and> readable s' \<and> st_disk s' = st_disk s
     \<and> st_flag s' = st_flag s \<and> st_list s' = st_list s \<and> st_trace s' = st_trace s
     \<and> st_cache s' = (st_cache s)(b \<mapsto> view s b)"
  using assms
  by (cases "st_cache s b") (auto simp: bread_def view_def readable_def fun_eq_iff split: option.splits)

interpretation bc: block_cache readable view bread bwrite
proof
  fix s b assume "readable s"
  then show "\<exists>s'. bread s b = Some (s', view s b) \<and> view s' = view s \<and> readable s'"
    using bread_readable [of s b] by blast
qed (simp_all add: readable_def)

subsection \<open>Writes to the device and crashes\<close>

text \<open>The device after a sequence of writes. After a crash the device has a prefix of them.\<close>

definition apply_writes :: "(nat \<times> byte list) list \<Rightarrow> (nat \<Rightarrow> byte list) \<Rightarrow> nat \<Rightarrow> byte list" where
  "apply_writes W D = fold (\<lambda>(b, d) D. D(b := d)) W D"

lemma apply_writes_simps [simp]:
  "apply_writes [] D = D" "apply_writes ((b, d) # W) D = apply_writes W (D(b := d))"
  "apply_writes (W @ X) D = apply_writes X (apply_writes W D)"
  by (simp_all add: apply_writes_def)

lemma apply_writes_Cons: "apply_writes (w # W) D = apply_writes W (D(fst w := snd w))"
  by (cases w) simp

lemma apply_writes_other: "b \<notin> fst ` set W \<Longrightarrow> apply_writes W D b = D b"
  by (induction W arbitrary: D) auto

lemma apply_writes_cong:
  "D b = E b \<Longrightarrow> apply_writes W D b = apply_writes W E b"
proof (induction W arbitrary: D E)
  case (Cons w W)
  obtain c d where w: "w = (c, d)" by fastforce
  have "(D(c := d)) b = (E(c := d)) b" using Cons.prems by simp
  then show ?case unfolding w apply_writes_simps by (rule Cons.IH)
qed simp

lemma apply_writes_hit: "b \<in> fst ` set W \<Longrightarrow> apply_writes W D b = apply_writes W E b"
proof (induction W arbitrary: D E)
  case (Cons w W)
  obtain c d where w: "w = (c, d)" by fastforce
  show ?case
  proof (cases "b \<in> fst ` set W")
    case False
    then have "c = b" using Cons.prems w by simp
    then have "(D(c := d)) b = (E(c := d)) b" by simp
    then show ?thesis unfolding w apply_writes_simps by (rule apply_writes_cong)
  qed (unfold w apply_writes_simps, rule Cons.IH)
qed simp

lemma apply_writes_view: "apply_writes (map (\<lambda>b. (b, f b)) bs) D b = (if b \<in> set bs then f b else D b)"
  by (induction bs arbitrary: D) auto

lemma sync_one_cached:
  assumes "b \<in> dom (st_cache s)"
  shows "st_cache (sync_one_buffer s b) = st_cache s" "st_bad (sync_one_buffer s b) = st_bad s"
    "st_list (sync_one_buffer s b) = st_list s" "st_disk (sync_one_buffer s b) = (st_disk s)(b := view s b)"
    "st_flag (sync_one_buffer s b) = (st_flag s)(b := False)"
    "st_trace (sync_one_buffer s b) = st_trace s @ [(b, view s b)]"
  using assms by (auto simp: sync_one_buffer_def view_def)

lemma view_list [simp]: "view (s\<lparr>st_list := bs\<rparr>) = view s"
  by (simp add: view_def fun_eq_iff split: option.split)

lemma flag_upd: "(\<lambda>c. ((f :: nat \<Rightarrow> bool)(b := False)) c \<and> c \<notin> X) = (\<lambda>c. f c \<and> c \<notin> insert b X)"
  by auto

lemma view_cached_eq: "st_cache s' = st_cache s \<Longrightarrow> b \<in> dom (st_cache s) \<Longrightarrow> view s' b = view s b"
  by (auto simp: view_def)

lemma sync_list_spec:
  assumes "set bs \<subseteq> dom (st_cache s)"
  shows "st_cache (sync_list bs s) = st_cache s \<and> st_bad (sync_list bs s) = st_bad s
     \<and> st_disk (sync_list bs s) = apply_writes (map (\<lambda>b. (b, view s b)) bs) (st_disk s)
     \<and> st_trace (sync_list bs s) = st_trace s @ map (\<lambda>b. (b, view s b)) bs
     \<and> st_flag (sync_list bs s) = (\<lambda>b. st_flag s b \<and> b \<notin> set bs)
     \<and> st_list (sync_list bs s) = (if bs = [] then st_list s else [])"
  using assms
proof (induction bs arbitrary: s)
  case (Cons b bs)
  let ?s1 = "sync_one_buffer (s\<lparr>st_list := bs\<rparr>) b"
  have b: "b \<in> dom (st_cache (s\<lparr>st_list := bs\<rparr>))" using Cons.prems by simp
  note f = sync_one_cached [OF b, simplified]
  have m: "map (\<lambda>c. (c, view ?s1 c)) bs = map (\<lambda>c. (c, view s c)) bs"
    using Cons.prems by (auto simp: f intro!: view_cached_eq)
  have "set bs \<subseteq> dom (st_cache ?s1)" using Cons.prems by (simp add: f)
  note IH = Cons.IH [OF this, unfolded m f flag_upd]
  show ?case using IH by (cases bs) (simp_all only: sync_list.simps list.map apply_writes_simps list.set
      append.simps append_assoc if_True if_False simp_thms list.distinct)
qed simp

lemma sync_buffers_spec:
  assumes "set (st_list s) \<subseteq> dom (st_cache s)"
  shows "st_cache (sync_buffers s) = st_cache s" "st_bad (sync_buffers s) = st_bad s"
    "st_disk (sync_buffers s) = apply_writes (map (\<lambda>b. (b, view s b)) (st_list s)) (st_disk s)"
    "st_trace (sync_buffers s) = st_trace s @ map (\<lambda>b. (b, view s b)) (st_list s)"
    "st_flag (sync_buffers s) = (\<lambda>b. st_flag s b \<and> b \<notin> set (st_list s))"
    "st_list (sync_buffers s) = []"
  using sync_list_spec [OF assms] by (simp_all add: sync_buffers_def split: if_splits)

lemma view_sync_buffers:
  assumes "set (st_list s) \<subseteq> dom (st_cache s)"
  shows "view (sync_buffers s) = view s"
proof
  fix b
  show "view (sync_buffers s) b = view s b"
    using sync_buffers_spec [OF assms] assms
    by (cases "st_cache s b") (auto simp: view_def apply_writes_view)
qed

lemma select_spec:
  fixes s :: blk_store
  assumes "distinct bs"
  defines "ds \<equiv> filter (\<lambda>b. st_cache s b \<noteq> None \<and> st_flag s b) bs"
  defines "s' \<equiv> fold (\<lambda>b s. if st_cache s b \<noteq> None \<and> st_flag s b then sync_one_buffer s b else s) bs s"
  shows "st_cache s' = st_cache s \<and> st_bad s' = st_bad s \<and> st_list s' = st_list s
     \<and> st_disk s' = apply_writes (map (\<lambda>b. (b, view s b)) ds) (st_disk s)
     \<and> st_trace s' = st_trace s @ map (\<lambda>b. (b, view s b)) ds
     \<and> st_flag s' = (\<lambda>b. st_flag s b \<and> b \<notin> set ds)"
  using assms(1) unfolding ds_def s'_def
proof (induction bs arbitrary: s)
  case (Cons b bs)
  show ?case
  proof (cases "st_cache s b \<noteq> None \<and> st_flag s b")
    case True
    let ?s1 = "sync_one_buffer s b"
    have b: "b \<in> dom (st_cache s)" using True by auto
    note f = sync_one_cached [OF b]
    have ds: "filter (\<lambda>c. st_cache s c \<noteq> None \<and> ((st_flag s)(b := False)) c) bs = filter (\<lambda>c. st_cache s c \<noteq> None \<and> st_flag s c) bs"
      using Cons.prems by (auto intro!: filter_cong)
    have m: "map (\<lambda>c. (c, view ?s1 c)) (filter (\<lambda>c. st_cache s c \<noteq> None \<and> st_flag s c) bs)
        = map (\<lambda>c. (c, view s c)) (filter (\<lambda>c. st_cache s c \<noteq> None \<and> st_flag s c) bs)"
      by (auto simp: f intro!: view_cached_eq)
    have "distinct bs" using Cons.prems by simp
    note IH = Cons.IH [OF this, of ?s1, unfolded f ds m flag_upd]
    show ?thesis using IH True by (simp only: fold_simps filter.simps if_True list.map apply_writes_simps list.set
        append.simps append_assoc simp_thms)
  next
    case False
    then show ?thesis using Cons.IH [of s] Cons.prems by auto
  qed
qed simp

lemma view_disk_agree:
  assumes "st_cache s' = st_cache s" "\<And>b. st_cache s b = None \<Longrightarrow> st_disk s' b = st_disk s b"
  shows "view s' = view s"
  using assms by (auto simp: view_def fun_eq_iff split: option.split)

end
