(* ===== verification/Journal.thy ===== *)
theory Journal
  imports Block_Store
begin

text \<open>
  The journal of AGFS, \<^verbatim>\<open>fs/agfs/journal.c\<close>, with the mount and the drain of the superblock
  (\<^verbatim>\<open>agfs_read_superblock\<close> and \<^verbatim>\<open>agfs_write_superblock\<close> of \<^verbatim>\<open>fs/agfs/super.c\<close>) that use it. The
  journal works on a mounted volume and the buffer cache below it; a transaction is the list of the
  blocks it recorded with their contents. The journal lock and the crash injection are left out, and so is what the
  mount does with the root inode. The mount is read-write, and its first read of block 0, of 1 KB
  in the code, is a read of the whole block.
\<close>

subsection \<open>The log\<close>

abbreviation (input) AGFS_LOG_MAX_BLOCKS :: nat where "AGFS_LOG_MAX_BLOCKS \<equiv> 48"
abbreviation (input) AGFS_LOG_MAX_RUNS :: nat where "AGFS_LOG_MAX_RUNS \<equiv> 127"
abbreviation (input) AGFS_LOG_BATCH_BLOCKS :: nat where "AGFS_LOG_BATCH_BLOCKS \<equiv> 96"
abbreviation (input) AGFS_SUPER_CLEAN :: u32 where "AGFS_SUPER_CLEAN \<equiv> 0x434c454e"

definition agfs_log_run_abs :: "agfs_vol \<Rightarrow> block_run \<Rightarrow> nat" where
  "agfs_log_run_abs v r = run_block32 r (s_ag_shift (v_sb v))"

definition agfs_log_block :: "agfs_vol \<Rightarrow> nat \<Rightarrow> nat" where
  "agfs_log_block v pos = agfs_log_run_abs v (v_log_blocks v) + pos"

definition agfs_log_len :: "agfs_vol \<Rightarrow> nat" where
  "agfs_log_len v = run_len (v_log_blocks v)"

definition bitmap_blocks :: "agfs_vol \<Rightarrow> nat" where
  "bitmap_blocks v = v_num_ags v * s_blocks_per_ag (v_sb v)"

text \<open>The run array: its counts are signed 32-bit integers.\<close>

definition arr_count :: "byte list \<Rightarrow> int" where
  "arr_count arr = sint (of_nat (le_val (mem_get 0 4 arr)) :: u32)"

definition arr_max_runs :: "byte list \<Rightarrow> int" where
  "arr_max_runs arr = sint (of_nat (le_val (mem_get 4 4 arr)) :: u32)"

definition arr_run :: "byte list \<Rightarrow> nat \<Rightarrow> block_run" where
  "arr_run arr i = dec_run (mem_get (8 + 8 * i) 8 arr)"

definition tx_run :: "agfs_vol \<Rightarrow> nat \<Rightarrow> block_run" where
  "tx_run v b = \<lparr>run_ag = drop_bit (s_ag_shift (v_sb v)) b mod 2 ^ 32,
                 run_start = take_bit (s_ag_shift (v_sb v)) b mod 2 ^ 16, run_len = 1\<rparr>"

definition run_array :: "agfs_vol \<Rightarrow> nat list \<Rightarrow> byte list" where
  "run_array v bs =
     mem_put 0 (le_enc 4 (length bs) @ le_enc 4 AGFS_LOG_MAX_RUNS @ concat (map (\<lambda>b. enc_run (tx_run v b)) bs))
       (replicate (s_block_size (v_sb v)) 0)"

subsection \<open>Replay\<close>

text \<open>The data blocks of one entry; a run whose length is not one is skipped.\<close>

fun replay_runs :: "agfs_vol \<Rightarrow> byte list \<Rightarrow> nat \<Rightarrow> nat list \<Rightarrow> blk_store \<Rightarrow> nat \<Rightarrow> blk_store \<times> nat result" where
  "replay_runs v arr pos [] s n = (s, Inr n)"
| "replay_runs v arr pos (i # is) s n =
     (if run_len (arr_run arr i) \<noteq> 1 then replay_runs v arr pos is s n
      else
        (let real = agfs_log_run_abs v (arr_run arr i) in
         if real \<ge> 2 ^ 31 \<or> real \<ge> s_num_blocks (v_sb v) then (s, Inl EIO)
         else
           (case bread s (agfs_log_block v (pos + 1 + i)) of
              None \<Rightarrow> (s, Inl EIO)
            | Some (s1, db) \<Rightarrow>
                (case bread s1 real of
                   None \<Rightarrow> (s1, Inl EIO)
                 | Some (s2, _) \<Rightarrow> replay_runs v arr pos is (bwrite s2 real db) (n + 1)))))"

function replay_loop :: "agfs_vol \<Rightarrow> nat \<Rightarrow> blk_store \<Rightarrow> nat \<Rightarrow> blk_store \<times> nat result" where
  "replay_loop v pos s n =
     (if pos < v_log_end v \<and> pos < agfs_log_len v then
        (case bread s (agfs_log_block v pos) of
           None \<Rightarrow> (s, Inl EIO)
         | Some (s1, arr) \<Rightarrow>
             if arr_count arr = 0 \<and> arr_max_runs arr = 0 then (s1, Inr n)
             else if arr_count arr < 1 \<or> arr_count arr > int AGFS_LOG_MAX_RUNS - 1
                     \<or> arr_max_runs arr \<noteq> int AGFS_LOG_MAX_RUNS
                     \<or> int pos + 1 + arr_count arr > int (agfs_log_len v) then (s1, Inl EIO)
             else
               (case replay_runs v arr pos [0..<nat (arr_count arr)] s1 n of
                  (s2, Inl e) \<Rightarrow> (s2, Inl e)
                | (s2, Inr n') \<Rightarrow> replay_loop v (pos + 1 + nat (arr_count arr)) s2 n'))
      else (s, Inr n))"
  by pat_completeness auto
termination replay_loop
  by (relation "measure (\<lambda>(v, pos, s, n). agfs_log_len v - pos)") auto

declare replay_loop.simps [simp del]

definition set_flags :: "agfs_vol \<Rightarrow> u32 \<Rightarrow> agfs_vol" where
  "set_flags v fl = v\<lparr>v_sb := (v_sb v)\<lparr>s_flags := fl\<rparr>\<rparr>"

definition set_dirty :: "agfs_vol \<Rightarrow> agfs_vol" where
  "set_dirty v = v\<lparr>v_sb := (v_sb v)\<lparr>s_dirty := True\<rparr>\<rparr>"

definition agfs_log_replay :: "agfs_vol \<Rightarrow> blk_store \<Rightarrow> agfs_vol \<times> blk_store \<times> nat result" where
  "agfs_log_replay v s =
     (if agfs_log_len v = 0 \<or> v_log_start v \<ge> agfs_log_len v then (v, s, Inr 0)
      else if v_log_start v = v_log_end v then (v, s, Inr 0)
      else
        (case replay_loop v (v_log_start v) s 0 of
           (s1, Inl e) \<Rightarrow> (v, s1, Inl e)
         | (s1, Inr n) \<Rightarrow>
             (set_dirty (set_flags (v\<lparr>v_log_start := 0, v_log_end := 0\<rparr>) AGFS_SUPER_CLEAN),
              sync_buffers s1, Inr n)))"

subsection \<open>Transactions\<close>

definition agfs_log_begin :: "agfs_vol \<Rightarrow> agfs_vol" where
  "agfs_log_begin v = (if v_tx_depth v = 0 then v\<lparr>v_tx := [], v_tx_depth := 1\<rparr> else v\<lparr>v_tx_depth := v_tx_depth v + 1\<rparr>)"

fun tx_update :: "(nat \<times> byte list) list \<Rightarrow> nat \<Rightarrow> byte list \<Rightarrow> (nat \<times> byte list) list" where
  "tx_update [] blk data = []"
| "tx_update ((b, d) # tx) blk data = (if b = blk then (b, data) # tx else (b, d) # tx_update tx blk data)"

definition agfs_log_record :: "agfs_vol \<Rightarrow> mem \<Rightarrow> nat \<Rightarrow> byte list \<Rightarrow> agfs_vol \<times> mem \<times> status" where
  "agfs_log_record v m blk data =
     (if v_tx_depth v = 0 then (v, m, None)
      else if blk \<in> fst ` set (v_tx v) then (v\<lparr>v_tx := tx_update (v_tx v) blk data\<rparr>, m, None)
      else if length (v_tx v) \<ge> AGFS_LOG_MAX_BLOCKS then (v, m, Some ENOSPC)
      else if \<not> kmalloc_ok m then (v, kmalloc_rest m, Some ENOMEM)
      else (v\<lparr>v_tx := v_tx v @ [(blk, data)]\<rparr>, kmalloc_rest m, None))"

definition agfs_log_free_tx :: "agfs_vol \<Rightarrow> agfs_vol" where
  "agfs_log_free_tx v = v\<lparr>v_tx := []\<rparr>"

text \<open>One block written into its buffer, skipped when the buffer cannot be read.\<close>

definition apply_block :: "nat \<times> byte list \<Rightarrow> blk_store \<Rightarrow> blk_store" where
  "apply_block bd s = (case bread s (fst bd) of None \<Rightarrow> s | Some (s1, _) \<Rightarrow> bwrite s1 (fst bd) (snd bd))"

text \<open>
  \<open>locked\<close> tells which buffers the caller holds. A recorded block is released clean, with its new
  content in the cache.
\<close>

definition agfs_log_write_block ::
  "(nat \<Rightarrow> bool) \<Rightarrow> agfs_vol \<Rightarrow> blk_store \<Rightarrow> mem \<Rightarrow> nat \<Rightarrow> byte list \<Rightarrow> agfs_vol \<times> blk_store \<times> mem" where
  "agfs_log_write_block locked v s m blk data =
     (if v_log_draining v then (v, bwrite s blk data, m)
      else if v_tx_depth v > 0 \<and> \<not> v_tx_poisoned v then
        (case agfs_log_record v m blk data of
           (v1, m1, None) \<Rightarrow> (v1, brelse s blk data, m1)
         | (v1, m1, Some e) \<Rightarrow>
             ((agfs_log_free_tx v1)\<lparr>v_tx_poisoned := True\<rparr>,
              bwrite (fold apply_block (filter (\<lambda>(b, d). b \<noteq> blk \<and> \<not> locked b) (v_tx v1)) s) blk data,
              m1))
      else (v, bwrite s blk data, m))"

subsection \<open>The barrier\<close>

fun write_bitmap_blocks :: "agfs_vol \<Rightarrow> nat list \<Rightarrow> blk_store \<Rightarrow> blk_store \<times> status" where
  "write_bitmap_blocks v [] s = (s, None)"
| "write_bitmap_blocks v (i # is) s =
     (let off = i * s_block_size (v_sb v) in
      case bread s (1 + i) of
        None \<Rightarrow> (s, Some EIO)
      | Some (s1, _) \<Rightarrow>
          write_bitmap_blocks v is
            (bwrite s1 (1 + i) (mem_get (off mod PAGE_SIZE) (s_block_size (v_sb v)) (s_bitmap (v_sb v) ! (off div PAGE_SIZE)))))"

definition agfs_log_write_bitmap :: "agfs_vol \<Rightarrow> blk_store \<Rightarrow> blk_store \<times> status" where
  "agfs_log_write_bitmap v s = write_bitmap_blocks v [0..<bitmap_blocks v] s"

definition sb_put_log :: "agfs_vol \<Rightarrow> byte list \<Rightarrow> byte list" where
  "sb_put_log v data =
     mem_put (AGFS_SB_A_OFF + 84) (le_enc 4 (unat (s_flags (v_sb v))))
       (mem_put (AGFS_SB_A_OFF + 104) (le_enc 8 (v_log_end v))
         (mem_put (AGFS_SB_A_OFF + 96) (le_enc 8 (v_log_start v))
           (mem_put (AGFS_SB_A_OFF + 88) (enc_run (v_log_blocks v)) data)))"

definition agfs_log_write_super :: "agfs_vol \<Rightarrow> blk_store \<Rightarrow> bool \<Rightarrow> agfs_vol \<times> blk_store \<times> status" where
  "agfs_log_write_super v s flush =
     (case bread s 0 of
        None \<Rightarrow> (v, s, Some EIO)
      | Some (s1, data) \<Rightarrow>
          (case agfs_sb_dual_stamp v (sb_put_log v data) of
             (v1, data') \<Rightarrow>
               (set_dirty v1, if flush then sync_buffers (bwrite s1 0 data') else bwrite s1 0 data', None)))"

definition flush_discards :: "discard_dev \<Rightarrow> agfs_vol \<Rightarrow> blk_store \<Rightarrow> agfs_vol \<times> blk_store" where
  "flush_discards dev v s =
     (case agfs_flush_discards dev (v_sb v) of
        (sb', ds) \<Rightarrow> (v\<lparr>v_sb := sb'\<rparr>, s\<lparr>st_discards := st_discards s @ ds\<rparr>))"

definition count_journaled :: "agfs_vol \<Rightarrow> nat \<Rightarrow> agfs_vol" where
  "count_journaled v len =
     v\<lparr>v_since_reset := v_since_reset v + len, v_log_peak := max (v_log_peak v) (v_since_reset v + len)\<rparr>"

definition agfs_log_flush_locked :: "discard_dev \<Rightarrow> agfs_vol \<Rightarrow> blk_store \<Rightarrow> agfs_vol \<times> blk_store" where
  "agfs_log_flush_locked dev v s =
     (if \<not> v_log_pending v then (v, s)
      else
        (let v1 = count_journaled v (v_pend_blocks v);
             s1 = sync_buffers_select s (agfs_log_block v1 (v_log_start v1)) (v_pend_blocks v1);
             v2 = set_flags v1 AGFS_SUPER_DIRTY;
             s2 = fst (agfs_log_write_bitmap v2 s1)
         in case agfs_log_write_super v2 s2 False of
              (v3, s3, _) \<Rightarrow>
                (case flush_discards dev v3 (sync_buffers (sync_buffers_select s3 0 (1 + bitmap_blocks v3))) of
                   (v4, s4) \<Rightarrow> (v4\<lparr>v_log_pending := False, v_pend_blocks := 0\<rparr>, s4))))"

lemma flush_locked_not_pending: "\<not> v_log_pending (fst (agfs_log_flush_locked dev v s))"
  by (simp add: agfs_log_flush_locked_def Let_def split: prod.split)

definition agfs_log_sync :: "discard_dev \<Rightarrow> agfs_vol \<Rightarrow> blk_store \<Rightarrow> agfs_vol \<times> blk_store" where
  "agfs_log_sync dev v s = (case agfs_log_flush_locked dev v s of (v1, s1) \<Rightarrow> (v1, sync_buffers s1))"

subsection \<open>Commit\<close>

text \<open>The log is full of history: publish the empty log before an entry lands over the old blocks.\<close>

definition log_wrap :: "nat \<Rightarrow> agfs_vol \<Rightarrow> blk_store \<Rightarrow> agfs_vol \<times> blk_store" where
  "log_wrap n v s =
     (let v1 = (count_journaled v (n + 1))\<lparr>v_since_reset := 0, v_log_start := 0, v_log_end := 0\<rparr>
      in case agfs_log_write_super v1 s True of (v2, s2, _) \<Rightarrow> (v2, s2))"

function make_room :: "discard_dev \<Rightarrow> nat \<Rightarrow> agfs_vol \<Rightarrow> blk_store \<Rightarrow> agfs_vol \<times> blk_store" where
  "make_room dev n v s =
     (if v_log_end v + n + 1 \<le> agfs_log_len v then (v, s)
      else if v_log_pending v then
        make_room dev n (fst (agfs_log_flush_locked dev v s)) (snd (agfs_log_flush_locked dev v s))
      else log_wrap n v s)"
  by pat_completeness auto
termination make_room
  by (relation "measure (\<lambda>(dev, n, v, s). if v_log_pending v then 1 else 0)")
     (auto split: prod.split, metis flush_locked_not_pending fst_conv)

declare make_room.simps [simp del]

text \<open>The blocks of a log entry, written one after the other; a read that fails ends the commit.\<close>

fun write_log_blocks :: "(nat \<times> byte list) list \<Rightarrow> blk_store \<Rightarrow> blk_store \<times> status" where
  "write_log_blocks [] s = (s, None)"
| "write_log_blocks ((b, d) # bds) s =
     (case bread s b of None \<Rightarrow> (s, Some EIO) | Some (s1, _) \<Rightarrow> write_log_blocks bds (bwrite s1 b d))"

definition log_entry :: "agfs_vol \<Rightarrow> nat \<Rightarrow> (nat \<times> byte list) list \<Rightarrow> (nat \<times> byte list) list" where
  "log_entry v pos tx =
     zip (map (agfs_log_block v) [pos..<pos + length tx + 1]) (run_array v (map fst tx) # map snd tx)"

definition commit_unjournaled :: "discard_dev \<Rightarrow> agfs_vol \<Rightarrow> blk_store \<Rightarrow> agfs_vol \<times> blk_store" where
  "commit_unjournaled dev v s =
     (let v1 = set_flags v AGFS_SUPER_DIRTY;
          s1 = fst (agfs_log_write_bitmap v1 s)
      in case agfs_log_write_super v1 s1 True of
           (v2, s2, _) \<Rightarrow>
             (case flush_discards dev v2 (sync_buffers (fold apply_block (v_tx v2) s2)) of
                (v3, s3) \<Rightarrow> (agfs_log_free_tx v3, s3)))"

definition commit_entry :: "discard_dev \<Rightarrow> agfs_vol \<Rightarrow> blk_store \<Rightarrow> agfs_vol \<times> blk_store \<times> status" where
  "commit_entry dev v s =
     (let n = length (v_tx v);
          pos = v_log_end v;
          v1 = (if v_log_pending v then v else v\<lparr>v_log_start := pos, v_log_pending := True\<rparr>)
      in case write_log_blocks (log_entry v1 pos (v_tx v1)) s of
           (s1, Some e) \<Rightarrow> (agfs_log_free_tx v1, s1, Some e)
         | (s1, None) \<Rightarrow>
             (let s2 = fold apply_block (v_tx v1) s1;
                  v2 = v1\<lparr>v_log_end := pos + n + 1, v_pend_blocks := v_pend_blocks v1 + n + 1\<rparr>
              in case (if v_pend_blocks v2 \<ge> AGFS_LOG_BATCH_BLOCKS then agfs_log_flush_locked dev v2 s2 else (v2, s2)) of
                   (v3, s3) \<Rightarrow> (agfs_log_free_tx v3, s3, None)))"

definition agfs_log_commit :: "discard_dev \<Rightarrow> agfs_vol \<Rightarrow> blk_store \<Rightarrow> agfs_vol \<times> blk_store \<times> status" where
  "agfs_log_commit dev v0 s =
     (if v_tx_depth v0 = 0 then (v0, s, None)
      else
        (let v = v0\<lparr>v_tx_depth := v_tx_depth v0 - 1\<rparr>; n = length (v_tx v) in
         if v_tx_depth v > 0 then (v, s, None)
         else if v_tx_poisoned v then (agfs_log_free_tx (v\<lparr>v_tx_poisoned := False\<rparr>), s, None)
         else if n = 0 then (agfs_log_free_tx v, s, None)
         else if n + 1 > agfs_log_len v then (case commit_unjournaled dev v s of (v1, s1) \<Rightarrow> (v1, s1, None))
         else
           (case make_room dev n v s of
              (v1, s1) \<Rightarrow>
                (case (if v_log_pending v1 \<and> v_pend_blocks v1 + n + 1 > AGFS_LOG_BATCH_BLOCKS
                       then agfs_log_flush_locked dev v1 s1 else (v1, s1)) of
                   (v2, s2) \<Rightarrow> commit_entry dev v2 s2))))"

subsection \<open>Mount and drain\<close>

fun load_bitmap :: "agfs_vol \<Rightarrow> nat list \<Rightarrow> byte list list \<Rightarrow> mem \<Rightarrow> blk_store \<Rightarrow> mem \<times> blk_store \<times> (byte list list) result" where
  "load_bitmap v [] bm m s = (m, s, Inr bm)"
| "load_bitmap v (i # is) bm m s =
     (let off = i * s_block_size (v_sb v);
          chunk = off div PAGE_SIZE;
          fresh = (chunk \<ge> length bm);
          m1 = (if fresh then kmalloc_rest m else m);
          bm1 = (if fresh then bm @ [replicate PAGE_SIZE 0] else bm)
      in if fresh \<and> \<not> kmalloc_ok m then (m1, s, Inl ENOMEM)
         else
           (case bread s (1 + i) of
              None \<Rightarrow> (m1, s, Inl EIO)
            | Some (s1, d) \<Rightarrow> load_bitmap v is (bm1[chunk := mem_put (off mod PAGE_SIZE) d (bm1 ! chunk)]) m1 s1))"

definition agfs_read_superblock :: "mem \<Rightarrow> blk_store \<Rightarrow> blk_store \<times> agfs_vol result" where
  "agfs_read_superblock m s =
     (case bread s 0 of
        None \<Rightarrow> (s, Inl EIO)
      | Some (s1, data) \<Rightarrow>
          (case sb_load data of
             Inl e \<Rightarrow> (s1, Inl e)
           | Inr v \<Rightarrow>
               if \<not> kmalloc_ok m then (s1, Inl ENOMEM)
               else
                 (case load_bitmap v [0..<bitmap_blocks v] [] (kmalloc_rest m) s1 of
                    (m2, s2, Inl e) \<Rightarrow> (s2, Inl e)
                  | (m2, s2, Inr bm) \<Rightarrow>
                      (case agfs_log_replay (v\<lparr>v_sb := (v_sb v)\<lparr>s_bitmap := bm\<rparr>\<rparr>) s2 of
                         (v3, s3, Inl e) \<Rightarrow> (s3, Inl EIO)
                       | (v3, s3, Inr n) \<Rightarrow>
                           (s3, Inr (set_dirty (set_flags (v3\<lparr>v_sb := agfs_resync_used_blocks (v_sb v3)\<rparr>)
                                       AGFS_SUPER_DIRTY)))))))"

definition zero_log :: "agfs_vol \<Rightarrow> blk_store \<Rightarrow> blk_store" where
  "zero_log v s =
     fold apply_block (map (\<lambda>l. (agfs_log_block v l, replicate (s_block_size (v_sb v)) 0)) [0..<agfs_log_len v]) s"

definition agfs_write_superblock :: "discard_dev \<Rightarrow> agfs_vol \<Rightarrow> blk_store \<Rightarrow> agfs_vol \<times> blk_store \<times> status" where
  "agfs_write_superblock dev v s =
     (case agfs_log_flush_locked dev v s of
        (v1, s1) \<Rightarrow>
          (let s2 = zero_log v1 s1;
               v2 = set_flags (v1\<lparr>v_log_start := 0, v_log_end := 0\<rparr>) AGFS_SUPER_CLEAN
           in case (if s_bitmap (v_sb v2) \<noteq> [] then agfs_log_write_bitmap v2 s2 else (s2, None)) of
                (s3, Some e) \<Rightarrow> (v2, s3, Some e)
              | (s3, None) \<Rightarrow>
                  (let v3 = (if v_log_draining v2 then v2\<lparr>v_sb := (v_sb v2)\<lparr>s_bitmap := []\<rparr>\<rparr> else v2)
                   in case bread s3 0 of
                        None \<Rightarrow> (v3, s3, Some EIO)
                      | Some (s4, data) \<Rightarrow>
                          (case agfs_sb_dual_stamp v3 (sb_fill v3 data) of
                             (v4, data') \<Rightarrow>
                               (v4\<lparr>v_sb := (v_sb v4)\<lparr>s_dirty := False\<rparr>\<rparr>, sync_buffers (bwrite s4 0 data'), None)))))"

end
