(* ===== verification/Journal_Replay.thy ===== *)
theory Journal_Replay
  imports Journal
begin

text \<open>
  Recovery: a run array decodes to the blocks it was made of, the replay of a range of the log that
  holds entries restores their blocks in order, and the mount of a volume whose superblock publishes
  such a range does that and nothing else.
\<close>

subsection \<open>Entries of the log\<close>

lemma concat_chunk:
  "\<forall>x\<in>set xs. length x = k \<Longrightarrow> i < length xs \<Longrightarrow> mem_get (k * i) k (concat xs) = xs ! i"
proof (induction xs arbitrary: i)
  case (Cons x xs)
  then show ?case
    by (cases i) (simp_all add: mem_get_def)
qed simp

lemma length_concat_const: "\<forall>x\<in>set xs. length x = k \<Longrightarrow> length (concat xs) = k * length xs"
  by (induction xs) auto

lemma tx_run_abs:
  assumes "b < 2 ^ 32" "s_ag_shift (v_sb v) \<le> 16"
  shows "agfs_log_run_abs v (tx_run v b) = b" "dec_run (enc_run (tx_run v b)) = tx_run v b"
proof -
  have e: "tx_run v b = agfs_run_encode \<lparr>run_ag = 0, run_start = 0, run_len = 1\<rparr> b (s_ag_shift (v_sb v))"
    by (simp add: tx_run_def agfs_run_encode_def)
  show "agfs_log_run_abs v (tx_run v b) = b"
    unfolding agfs_log_run_abs_def e using assms by (rule run_encode_block(1))
  show "dec_run (enc_run (tx_run v b)) = tx_run v b"
    by (rule dec_enc_run) (simp_all add: tx_run_def)
qed

lemma sint_small: "n < 2 ^ 31 \<Longrightarrow> sint (of_nat n :: u32) = int n"
  by (simp add: signed_of_nat signed_take_bit_int_eq_self)

lemma run_array_decode:
  assumes n: "length bs \<le> 126" and bs: "1024 \<le> s_block_size (v_sb v)"
  shows "length (run_array v bs) = s_block_size (v_sb v)"
    and "arr_count (run_array v bs) = int (length bs)" "arr_max_runs (run_array v bs) = int AGFS_LOG_MAX_RUNS"
    and "i < length bs \<Longrightarrow> bs ! i < 2 ^ 32 \<Longrightarrow> s_ag_shift (v_sb v) \<le> 16 \<Longrightarrow> arr_run (run_array v bs) i = tx_run v (bs ! i)"
proof -
  let ?runs = "concat (map (\<lambda>b. enc_run (tx_run v b)) bs)"
  have len: "length ?runs = 8 * length bs"
    by (subst length_concat_const [where k = 8]) auto
  have ra: "run_array v bs = le_enc 4 (length bs) @ le_enc 4 AGFS_LOG_MAX_RUNS @ ?runs
      @ replicate (s_block_size (v_sb v) - (8 + 8 * length bs)) 0"
    by (simp add: run_array_def mem_put_def len)
  show "length (run_array v bs) = s_block_size (v_sb v)" unfolding ra using n bs by (simp add: len)
  have small: "length bs < 256 ^ 4" using n by simp
  show "arr_count (run_array v bs) = int (length bs)"
    unfolding arr_count_def ra using n small by (simp add: mem_get_def sint_small)
  show "arr_max_runs (run_array v bs) = int AGFS_LOG_MAX_RUNS"
    unfolding arr_max_runs_def ra by (simp add: mem_get_append) (simp add: mem_get_def sint_small)
  assume i: "i < length bs" "bs ! i < 2 ^ 32" "s_ag_shift (v_sb v) \<le> 16"
  have "mem_get (8 + 8 * i) 8 (run_array v bs) = mem_get (8 * i) 8 ?runs"
    unfolding ra using i n by (simp add: mem_get_append len)
  also have "\<dots> = enc_run (tx_run v (bs ! i))"
    using concat_chunk [of "map (\<lambda>b. enc_run (tx_run v b)) bs" 8 i] i(1) by simp
  finally show "arr_run (run_array v bs) i = tx_run v (bs ! i)"
    unfolding arr_run_def using tx_run_abs(2) [OF i(2,3)] by simp
qed

text \<open>
  The blocks the journal records: blocks of the volume that belong neither to the superblock and
  the bitmap nor to the log. A transaction that can be an entry has between one and 48 of them.
\<close>

definition in_log :: "agfs_vol \<Rightarrow> nat \<Rightarrow> bool" where
  "in_log v b \<longleftrightarrow> agfs_log_block v 0 \<le> b \<and> b < agfs_log_block v (agfs_log_len v)"

definition meta :: "agfs_vol \<Rightarrow> nat \<Rightarrow> bool" where
  "meta v b \<longleftrightarrow> bitmap_blocks v < b \<and> b < s_num_blocks (v_sb v) \<and> b < 2 ^ 31 \<and> \<not> in_log v b"

type_synonym tx = "(nat \<times> byte list) list"

definition tx_ok :: "agfs_vol \<Rightarrow> tx \<Rightarrow> bool" where
  "tx_ok v tx \<longleftrightarrow> tx \<noteq> [] \<and> length tx \<le> AGFS_LOG_MAX_BLOCKS \<and> (\<forall>b\<in>fst ` set tx. meta v b)"

text \<open>
  The geometry of a volume, and the volumes the journal works on: the block size and the group shift
  are those of the format, the log lies behind the bitmap.
\<close>

definition geo :: "agfs_vol \<Rightarrow> nat \<times> nat \<times> nat \<times> nat \<times> nat \<times> block_run" where
  "geo v = (s_block_size (v_sb v), s_ag_shift (v_sb v), s_num_blocks (v_sb v), s_blocks_per_ag (v_sb v), v_num_ags v,
            v_log_blocks v)"

definition geo_ok :: "agfs_vol \<Rightarrow> bool" where
  "geo_ok v \<longleftrightarrow> 1024 \<le> s_block_size (v_sb v) \<and> s_ag_shift (v_sb v) \<le> 16 \<and> bitmap_blocks v < agfs_log_block v 0
     \<and> run_ag (v_log_blocks v) < 2 ^ 32 \<and> run_start (v_log_blocks v) < 2 ^ 16 \<and> run_len (v_log_blocks v) < 2 ^ 16"

text \<open>A function from block numbers to contents holds the entries \<open>es\<close> from a position of the log on.\<close>

fun holds :: "agfs_vol \<Rightarrow> (nat \<Rightarrow> byte list) \<Rightarrow> nat \<Rightarrow> tx list \<Rightarrow> bool" where
  "holds v F pos [] \<longleftrightarrow> True"
| "holds v F pos (tx # es) \<longleftrightarrow>
     F (agfs_log_block v pos) = run_array v (map fst tx)
     \<and> (\<forall>i<length tx. F (agfs_log_block v (pos + 1 + i)) = snd (tx ! i))
     \<and> holds v F (pos + length tx + 1) es"

fun log_size :: "tx list \<Rightarrow> nat" where
  "log_size [] = 0"
| "log_size (tx # es) = length tx + 1 + log_size es"

lemma log_size_append [simp]: "log_size (es @ fs) = log_size es + log_size fs"
  by (induction es) auto

lemma log_block_plus: "agfs_log_block v (p + q) = agfs_log_block v p + q"
  by (simp add: agfs_log_block_def)

lemma in_log_block: "p < agfs_log_len v \<Longrightarrow> in_log v (agfs_log_block v p)"
  by (simp add: in_log_def agfs_log_block_def)

lemma holds_cong:
  assumes "\<And>p. pos \<le> p \<Longrightarrow> p < pos + log_size es \<Longrightarrow> F (agfs_log_block v p) = G (agfs_log_block v p)"
  shows "holds v F pos es = holds v G pos es"
  using assms
proof (induction es arbitrary: pos)
  case (Cons tx es)
  have "holds v F (pos + length tx + 1) es = holds v G (pos + length tx + 1) es"
    by (rule Cons.IH) (use Cons.prems in auto)
  moreover have "F (agfs_log_block v pos) = G (agfs_log_block v pos)" using Cons.prems [of pos] by simp
  moreover have "F (agfs_log_block v (pos + 1 + i)) = G (agfs_log_block v (pos + 1 + i))" if "i < length tx" for i
    using Cons.prems [of "pos + 1 + i"] that by simp
  ultimately show ?case by simp
qed simp

lemma holds_append: "holds v F pos (es @ fs) \<longleftrightarrow> holds v F pos es \<and> holds v F (pos + log_size es) fs"
  by (induction es arbitrary: pos) (auto simp: add.assoc add.commute add.left_commute)

subsection \<open>Replay restores the entries\<close>

definition wf_store :: "blk_store \<Rightarrow> bool" where
  "wf_store s \<longleftrightarrow> set (st_list s) \<subseteq> dom (st_cache s) \<and> (\<forall>b. b \<notin> set (st_list s) \<longrightarrow> view s b = st_disk s b)"

lemma wf_bread:
  assumes "readable s" "wf_store s" "bread s b = Some (s', d)"
  shows "wf_store s' \<and> readable s' \<and> view s' = view s \<and> d = view s b"
  using bread_readable [OF assms(1), of b] assms(2,3) by (auto simp: wf_store_def)

lemma wf_bwrite: "wf_store s \<Longrightarrow> wf_store (bwrite s b d)"
  by (auto simp: wf_store_def)

lemma readable_bwrite [simp]: "readable (bwrite s b d) = readable s"
  by (simp add: readable_def)

lemma sync_wf:
  assumes "wf_store s"
  shows "st_disk (sync_buffers s) = view s" "view (sync_buffers s) = view s" "wf_store (sync_buffers s)"
    "readable (sync_buffers s) = readable s"
proof -
  have l: "set (st_list s) \<subseteq> dom (st_cache s)" using assms by (simp add: wf_store_def)
  note sp = sync_buffers_spec [OF l]
  show d: "st_disk (sync_buffers s) = view s"
    using assms by (auto simp: sp apply_writes_view fun_eq_iff wf_store_def)
  show v: "view (sync_buffers s) = view s" by (rule view_sync_buffers [OF l])
  show "wf_store (sync_buffers s)" by (simp add: wf_store_def sp(6) d v)
  show "readable (sync_buffers s) = readable s" by (simp add: readable_def sp)
qed

lemma replay_runs_restores:
  assumes geo: "geo_ok v" and tx: "tx_ok v tx" and k: "k \<le> length tx"
    and s: "readable s" "wf_store s"
    and data: "\<forall>i<length tx. view s (agfs_log_block v (pos + 1 + i)) = snd (tx ! i)"
    and len: "pos + 1 + length tx \<le> agfs_log_len v"
  shows "\<exists>s'. replay_runs v (run_array v (map fst tx)) pos [k..<length tx] s n = (s', Inr (n + (length tx - k)))
     \<and> readable s' \<and> wf_store s' \<and> view s' = apply_writes (drop k tx) (view s)"
  using k s data
proof (induction "length tx - k" arbitrary: k s n)
  case 0
  then show ?case by simp
next
  case (Suc m)
  then have klt: "k < length tx" by simp
  have bs: "1024 \<le> s_block_size (v_sb v)" "s_ag_shift (v_sb v) \<le> 16" using geo by (auto simp: geo_ok_def)
  have b: "meta v (fst (tx ! k))" using tx klt by (auto simp: tx_ok_def)
  then have b32: "fst (tx ! k) < 2 ^ 32" by (simp add: meta_def)
  have n48: "length (map fst tx) \<le> 126" using tx by (simp add: tx_ok_def)
  have run: "arr_run (run_array v (map fst tx)) k = tx_run v (fst (tx ! k))"
    using run_array_decode(4) [OF n48 bs(1), of k] klt b32 bs(2) by simp
  have abs: "agfs_log_run_abs v (tx_run v (fst (tx ! k))) = fst (tx ! k)" "run_len (tx_run v (fst (tx ! k))) = 1"
    using tx_run_abs(1) [OF b32 bs(2)] by (simp_all add: tx_run_def)
  obtain s1 where r1: "bread s (agfs_log_block v (pos + 1 + k)) = Some (s1, snd (tx ! k))"
    and s1: "readable s1" "wf_store s1" "view s1 = view s"
    using bread_readable [OF Suc.prems(2), of "agfs_log_block v (pos + 1 + k)"] wf_bread [OF Suc.prems(2,3)]
      Suc.prems(4) klt by metis
  obtain s2 d2 where r2: "bread s1 (fst (tx ! k)) = Some (s2, d2)" and s2: "readable s2" "wf_store s2" "view s2 = view s"
    using bread_readable [OF s1(1), of "fst (tx ! k)"] wf_bread [OF s1(1,2)] s1(3) by metis
  let ?s3 = "bwrite s2 (fst (tx ! k)) (snd (tx ! k))"
  have keep: "view ?s3 (agfs_log_block v (pos + 1 + i)) = snd (tx ! i)" if "i < length tx" for i
  proof -
    have "in_log v (agfs_log_block v (pos + 1 + i))" using that len by (intro in_log_block) simp
    then have "agfs_log_block v (pos + 1 + i) \<noteq> fst (tx ! k)" using b by (auto simp: meta_def)
    then show ?thesis using Suc.prems(4) that s2(3) by simp
  qed
  have IH: "\<exists>s'. replay_runs v (run_array v (map fst tx)) pos [k + 1..<length tx] ?s3 (n + 1) = (s', Inr (n + 1 + (length tx - (k + 1))))
     \<and> readable s' \<and> wf_store s' \<and> view s' = apply_writes (drop (k + 1) tx) (view ?s3)"
    using Suc.hyps(2) klt s2 wf_bwrite keep by (intro Suc.hyps(1)) auto
  have up: "[k..<length tx] = k # [k + 1..<length tx]" using klt by (simp add: upt_conv_Cons)
  have dr: "apply_writes (drop k tx) (view s) = apply_writes (drop (k + 1) tx) (view ?s3)"
    using klt s2(3) by (simp add: Cons_nth_drop_Suc [symmetric] apply_writes_Cons)
  have cnt: "n + 1 + (length tx - (k + 1)) = n + (length tx - k)" using klt by simp
  have "replay_runs v (run_array v (map fst tx)) pos [k..<length tx] s n
      = replay_runs v (run_array v (map fst tx)) pos [k + 1..<length tx] ?s3 (n + 1)"
    using b unfolding up by (simp add: run abs Let_def r1 [simplified] r2 meta_def)
  then show ?case using IH unfolding dr cnt by simp
qed

lemma replay_loop_restores:
  assumes geo: "geo_ok v" and es: "\<forall>tx\<in>set es. tx_ok v tx"
    and s: "readable s" "wf_store s" and h: "holds v (view s) pos es"
    and en: "pos + log_size es = v_log_end v" "v_log_end v \<le> agfs_log_len v"
  shows "\<exists>s'. replay_loop v pos s n = (s', Inr (n + length (concat es)))
     \<and> readable s' \<and> wf_store s' \<and> view s' = apply_writes (concat es) (view s)"
  using es s h en
proof (induction es arbitrary: pos s n)
  case Nil
  then show ?case by (subst replay_loop.simps) simp
next
  case (Cons tx es)
  have tx: "tx_ok v tx" using Cons.prems by simp
  have n48: "length (map fst tx) \<le> 126" and ne: "tx \<noteq> []" using tx by (auto simp: tx_ok_def)
  have bs: "1024 \<le> s_block_size (v_sb v)" using geo by (auto simp: geo_ok_def)
  obtain s1 where r1: "bread s (agfs_log_block v pos) = Some (s1, run_array v (map fst tx))"
    and s1: "readable s1" "wf_store s1" "view s1 = view s"
    using bread_readable [OF Cons.prems(2), of "agfs_log_block v pos"] wf_bread [OF Cons.prems(2,3)] Cons.prems(4)
    by (metis holds.simps(2))
  note dec = run_array_decode(2,3) [OF n48 bs]
  have len: "pos + 1 + length tx \<le> agfs_log_len v" using Cons.prems(5,6) by simp
  obtain s2 where r2: "replay_runs v (run_array v (map fst tx)) pos [0..<length tx] s1 n = (s2, Inr (n + length tx))"
    and s2: "readable s2" "wf_store s2" "view s2 = apply_writes tx (view s)"
    using replay_runs_restores [OF geo tx _ s1(1,2) _ len, of 0 n] Cons.prems(4) s1(3) by auto
  have "holds v (view s2) (pos + length tx + 1) es"
  proof -
    have "view s2 (agfs_log_block v p) = view s (agfs_log_block v p)" if "p < agfs_log_len v" for p
    proof -
      have "agfs_log_block v p \<notin> fst ` set tx"
        using in_log_block [OF that] tx by (auto simp: tx_ok_def meta_def)
      then show ?thesis by (simp add: s2(3) apply_writes_other)
    qed
    then show ?thesis using Cons.prems(4,5,6) holds_cong [of "pos + length tx + 1" es "view s2" v "view s"] by simp
  qed
  then obtain s' where s': "replay_loop v (pos + length tx + 1) s2 (n + length tx) = (s', Inr (n + length tx + length (concat es)))"
     "readable s'" "wf_store s'" "view s' = apply_writes (concat es) (view s2)"
    using Cons.IH [of s2 "pos + length tx + 1" "n + length tx"] Cons.prems s2 by auto
  have "replay_loop v pos s n = replay_loop v (pos + length tx + 1) s2 (n + length tx)"
    using len Cons.prems(5,6) ne n48 r2
    by (subst replay_loop.simps) (simp add: r1 dec)
  then show ?case using s' s2(3) by (simp add: add.assoc)
qed

lemma geo_eq:
  assumes "geo v = geo w"
  shows "agfs_log_block v = agfs_log_block w" "agfs_log_len v = agfs_log_len w" "bitmap_blocks v = bitmap_blocks w"
    "agfs_log_run_abs v = agfs_log_run_abs w" "s_num_blocks (v_sb v) = s_num_blocks (v_sb w)"
    "run_array v = run_array w" "geo_ok v = geo_ok w"
  using assms
  by (simp_all add: geo_def fun_eq_iff agfs_log_block_def agfs_log_run_abs_def agfs_log_len_def bitmap_blocks_def
      run_array_def tx_run_def geo_ok_def)

lemma geo_eq_meta:
  assumes "geo v = geo w"
  shows "meta v = meta w" "tx_ok v = tx_ok w" "holds v F pos es = holds w F pos es"
proof -
  note g = geo_eq [OF assms]
  show m: "meta v = meta w" by (rule ext) (simp only: meta_def in_log_def g)
  show "tx_ok v = tx_ok w" by (rule ext) (simp only: tx_ok_def m)
  show "holds v F pos es = holds w F pos es"
    by (induction es arbitrary: pos) (simp_all only: holds.simps g)
qed

subsection \<open>The published range\<close>

text \<open>Block 0 holds two equal copies of sequence number \<open>q\<close> that publish the range \<open>ps\<close> to \<open>pe\<close> of the log.\<close>

definition published :: "agfs_vol \<Rightarrow> byte list \<Rightarrow> u64 \<Rightarrow> nat \<Rightarrow> nat \<Rightarrow> bool" where
  "published v data q ps pe \<longleftrightarrow>
     (\<exists>st rest w. data = sb_copy st q @ sb_copy st q @ rest \<and> length st = 132 \<and> sb_magic_ok st
        \<and> 0 < unat q \<and> unat q < 2 ^ 32 \<and> sb_parse st (ucast q) = Inr w \<and> geo w = geo v
        \<and> v_log_start w = ps \<and> v_log_end w = pe)"

lemma published_geo: "geo v = geo w \<Longrightarrow> published v = published w"
  by (simp add: fun_eq_iff published_def)

lemma published_load:
  assumes "published v data q ps pe"
  shows "\<exists>w. sb_load data = Inr w \<and> geo w = geo v \<and> v_log_start w = ps \<and> v_log_end w = pe \<and> v_sb_seq w = q
     \<and> \<not> v_log_pending w \<and> v_pend_blocks w = 0 \<and> v_tx_depth w = 0 \<and> \<not> v_tx_poisoned w \<and> \<not> v_log_draining w"
proof -
  obtain st rest w where d: "data = sb_copy st q @ sb_copy st q @ rest" "length st = 132" "sb_magic_ok st"
    "0 < unat q" "unat q < 2 ^ 32" "sb_parse st (ucast q) = Inr w" "geo w = geo v" "v_log_start w = ps" "v_log_end w = pe"
    using assms by (auto simp: published_def)
  have "sb_load data = sb_parse st (ucast q)" unfolding d(1) using d by (simp add: sb_load_copies)
  moreover have "v_sb_seq w = q \<and> \<not> v_log_pending w \<and> v_pend_blocks w = 0 \<and> v_tx_depth w = 0 \<and> \<not> v_tx_poisoned w \<and> \<not> v_log_draining w"
    using d(6) ucast_u32_u64 [OF d(5)] by (auto simp: sb_parse_def Let_def split: if_splits)
  ultimately show ?thesis using d by auto
qed

text \<open>The superblock write of the journal publishes its range.\<close>

lemma mem_get_put_log:
  assumes d: "1024 \<le> length data" and o: "off + n \<le> 132" and dis: "off + n \<le> 84 \<or> 112 \<le> off"
  shows "mem_get off n (mem_get AGFS_SB_A_OFF 132 (sb_put_log v data)) = mem_get off n (mem_get AGFS_SB_A_OFF 132 data)"
proof -
  have "mem_get (512 + off) n (sb_put_log v data) = mem_get (512 + off) n data"
    using dis
  proof
    assume "off + n \<le> 84"
    then show ?thesis unfolding sb_put_log_def using d
      by (subst mem_get_put_before; simp)+
  next
    assume "112 \<le> off"
    then show ?thesis unfolding sb_put_log_def using d
      by (subst mem_get_put_after; simp)+
  qed
  then show ?thesis using o by (simp add: mem_get_get)
qed

lemma put_log_fields:
  assumes d: "1024 \<le> length data"
  shows "mem_get 84 4 (mem_get AGFS_SB_A_OFF 132 (sb_put_log v data)) = le_enc 4 (unat (s_flags (v_sb v)))"
    and "mem_get 88 8 (mem_get AGFS_SB_A_OFF 132 (sb_put_log v data)) = enc_run (v_log_blocks v)"
    and "mem_get 96 8 (mem_get AGFS_SB_A_OFF 132 (sb_put_log v data)) = le_enc 8 (v_log_start v)"
    and "mem_get 104 8 (mem_get AGFS_SB_A_OFF 132 (sb_put_log v data)) = le_enc 8 (v_log_end v)"
    and "length (sb_put_log v data) = length data"
proof -
  let ?d1 = "mem_put (AGFS_SB_A_OFF + 88) (enc_run (v_log_blocks v)) data"
  let ?d2 = "mem_put (AGFS_SB_A_OFF + 96) (le_enc 8 (v_log_start v)) ?d1"
  let ?d3 = "mem_put (AGFS_SB_A_OFF + 104) (le_enc 8 (v_log_end v)) ?d2"
  have l: "length ?d1 = length data" "length ?d2 = length data" "length ?d3 = length data" using d by simp_all
  show "length (sb_put_log v data) = length data" unfolding sb_put_log_def using d by simp
  have e: "mem_get o' n (mem_get AGFS_SB_A_OFF 132 (sb_put_log v data)) = mem_get (512 + o') n (sb_put_log v data)"
    if "o' + n \<le> 132" for o' n using that by (simp add: mem_get_get)
  show "mem_get 84 4 (mem_get AGFS_SB_A_OFF 132 (sb_put_log v data)) = le_enc 4 (unat (s_flags (v_sb v)))"
    unfolding sb_put_log_def using d by (simp add: mem_get_get mem_get_put_same)
  show "mem_get 88 8 (mem_get AGFS_SB_A_OFF 132 (sb_put_log v data)) = enc_run (v_log_blocks v)"
    unfolding sb_put_log_def using d by (simp add: mem_get_get mem_get_put_same mem_get_put_after mem_get_put_before)
  show "mem_get 96 8 (mem_get AGFS_SB_A_OFF 132 (sb_put_log v data)) = le_enc 8 (v_log_start v)"
    unfolding sb_put_log_def using d by (simp add: mem_get_get mem_get_put_same mem_get_put_after mem_get_put_before)
  show "mem_get 104 8 (mem_get AGFS_SB_A_OFF 132 (sb_put_log v data)) = le_enc 8 (v_log_end v)"
    unfolding sb_put_log_def using d by (simp add: mem_get_get mem_get_put_same mem_get_put_after mem_get_put_before)
qed

lemma stamp_publishes:
  assumes pub: "published v data q ps pe" and v: "geo_ok v" "v_sb_seq v = q" "unat q + 1 < 2 ^ 32"
    "v_log_start v < 2 ^ 64" "v_log_end v < 2 ^ 64"
  shows "published v (snd (agfs_sb_dual_stamp v (sb_put_log v data))) (q + 1) (v_log_start v) (v_log_end v)"
    and "fst (agfs_sb_dual_stamp v (sb_put_log v data)) = v\<lparr>v_sb_seq := q + 1\<rparr>"
proof -
  obtain st rest w where d: "data = sb_copy st q @ sb_copy st q @ rest" "length st = 132" "sb_magic_ok st"
    "sb_parse st (ucast q) = Inr w" "geo w = geo v"
    using pub by (auto simp: published_def)
  have len: "1024 \<le> length data" using d by simp
  let ?st = "mem_get AGFS_SB_A_OFF 132 (sb_put_log v data)"
  have st0: "mem_get AGFS_SB_A_OFF 132 data = st" using d by (simp add: mem_get_def sb_copy_def)
  have st: "length ?st = 132" using len put_log_fields(5) [OF len, of v] by simp
  have keep: "mem_get off n ?st = mem_get off n st" if "off + n \<le> 132" "off + n \<le> 84 \<or> 112 \<le> off" for off n
    using mem_get_put_log [OF len that, of v] st0 by simp
  note f = put_log_fields [OF len, of v]
  have fl: "unat (s_flags (v_sb v)) < 256 ^ 4" using unsigned_less [of "s_flags (v_sb v)", where ?'a = nat] by simp
  have run: "dec_run (enc_run (v_log_blocks v)) = v_log_blocks v" using v(1) by (simp add: dec_enc_run geo_ok_def)
  have q1: "unat (q + 1) = unat q + 1" using v(3) by (simp add: unat_plus_if')
  have "\<exists>w'. sb_parse ?st (ucast (q + 1)) = Inr w' \<and> geo w' = geo v \<and> v_log_start w' = v_log_start v \<and> v_log_end w' = v_log_end v"
    using d(4,5) v(4,5) by (auto simp: sb_parse_def Let_def keep f run geo_def split: if_splits)
  moreover have "sb_magic_ok ?st" using d(3) by (simp add: sb_magic_ok_def keep)
  moreover have st: "agfs_sb_dual_stamp v (sb_put_log v data) =
      (v\<lparr>v_sb_seq := q + 1\<rparr>, sb_copy ?st (q + 1) @ sb_copy ?st (q + 1) @ drop 1024 (sb_put_log v data))"
    using dual_stamp_copies [of "sb_put_log v data" v] f(5) len v(2) by simp
  ultimately show "published v (snd (agfs_sb_dual_stamp v (sb_put_log v data))) (q + 1) (v_log_start v) (v_log_end v)"
    and "fst (agfs_sb_dual_stamp v (sb_put_log v data)) = v\<lparr>v_sb_seq := q + 1\<rparr>"
    using \<open>length ?st = 132\<close> q1 v(3) by (simp_all add: published_def) blast
qed

subsection \<open>Mounting after a crash\<close>

text \<open>The machine starts with an empty cache; the device is what the crash left.\<close>

definition fresh_store :: "(nat \<Rightarrow> byte list) \<Rightarrow> blk_store" where
  "fresh_store D = \<lparr>st_disk = D, st_cache = Map.empty, st_flag = (\<lambda>_. False), st_list = [], st_trace = [],
                    st_bad = (\<lambda>_. False), st_discards = []\<rparr>"

definition recovered :: "(nat \<Rightarrow> byte list) \<Rightarrow> (nat \<Rightarrow> byte list) option" where
  "recovered D =
     (case agfs_read_superblock [] (fresh_store D) of (s, Inl e) \<Rightarrow> None | (s, Inr v) \<Rightarrow> Some (st_disk s))"

lemma fresh_store_ok: "readable (fresh_store D)" "wf_store (fresh_store D)" "view (fresh_store D) = D"
  by (simp_all add: fresh_store_def readable_def wf_store_def view_def fun_eq_iff)

lemma load_bitmap_ok:
  assumes "readable s" "wf_store s"
  shows "\<exists>s' bm. load_bitmap v is bm0 [] s = ([], s', Inr bm) \<and> readable s' \<and> wf_store s' \<and> view s' = view s \<and> st_disk s' = st_disk s
     \<and> st_list s' = st_list s \<and> st_flag s' = st_flag s \<and> st_trace s' = st_trace s"
  using assms
proof (induction "is" arbitrary: bm0 s)
  case (Cons i "is")
  obtain s1 d where s1: "bread s (1 + i) = Some (s1, d)" "readable s1" "wf_store s1" "view s1 = view s" "st_disk s1 = st_disk s"
    "st_list s1 = st_list s" "st_flag s1 = st_flag s" "st_trace s1 = st_trace s"
    using bread_readable [OF Cons.prems(1), of "1 + i"] wf_bread [OF Cons.prems] by metis
  have "\<exists>bm1. load_bitmap v (i # is) bm0 [] s = load_bitmap v is bm1 [] s1"
    using s1(1) by (auto simp: Let_def kmalloc_ok_def kmalloc_rest_def)
  then show ?case using Cons.IH [OF s1(2,3)] s1(4-8) by metis
qed simp

text \<open>Replay only fills the cache: the device is written by the sync at its end.\<close>

lemma bread_quiet: "bread s b = Some (s', d) \<Longrightarrow> st_disk s' = st_disk s \<and> st_trace s' = st_trace s"
  by (auto simp: bread_def split: option.splits if_splits)

lemma replay_runs_quiet:
  "st_disk (fst (replay_runs v arr pos is s n)) = st_disk s \<and> st_trace (fst (replay_runs v arr pos is s n)) = st_trace s"
proof (induction "is" arbitrary: s n)
  case (Cons i "is")
  show ?case by (auto simp: Let_def Cons.IH split: option.split dest!: bread_quiet)
qed simp

lemma replay_loop_quiet:
  "st_disk (fst (replay_loop v pos s n)) = st_disk s \<and> st_trace (fst (replay_loop v pos s n)) = st_trace s"
proof (induction v pos s n rule: replay_loop.induct)
  case (1 v pos s n)
  show ?case
  proof (cases "pos < v_log_end v \<and> pos < agfs_log_len v")
    case run: True
    show ?thesis
    proof (cases "bread s (agfs_log_block v pos)")
      case (Some sd)
      obtain s1 arr where sd: "sd = (s1, arr)" by fastforce
      obtain s2 r where rr: "replay_runs v arr pos [0..<nat (arr_count arr)] s1 n = (s2, r)" by fastforce
      have q: "st_disk s2 = st_disk s" "st_trace s2 = st_trace s" "st_disk s1 = st_disk s" "st_trace s1 = st_trace s"
        using bread_quiet [OF Some [unfolded sd]] replay_runs_quiet [of v arr pos "[0..<nat (arr_count arr)]" s1 n] rr by simp_all
      note IH = 1 [OF run Some [unfolded sd] refl]
      show ?thesis
        using run IH [OF _ _ rr [symmetric]] q by (subst (1 2) replay_loop.simps) (auto simp: Some sd rr split: sum.split)
    qed (use run in \<open>simp add: replay_loop.simps\<close>)
  qed (auto simp: replay_loop.simps)
qed

lemma mount_replays:
  assumes pub: "published v (D 0) q ps pe" and geo: "geo_ok v" and es: "\<forall>tx\<in>set es. tx_ok v tx"
    and h: "holds v D ps es" and pe: "pe = ps + log_size es" "pe \<le> agfs_log_len v"
  shows "\<exists>s v'. agfs_read_superblock [] (fresh_store D) = (s, Inr v') \<and> st_disk s = apply_writes (concat es) D
     \<and> apply_writes (st_trace s) D = st_disk s \<and> (\<forall>(b, d)\<in>set (st_trace s). d = st_disk s b)
     \<and> (ps < pe \<longrightarrow> v_log_start v' = 0 \<and> v_log_end v' = 0)"
proof -
  obtain w where w: "sb_load (D 0) = Inr w" "geo w = geo v" "v_log_start w = ps" "v_log_end w = pe"
    using published_load [OF pub] by blast
  note fr = fresh_store_ok [of D]
  obtain s1 where s1: "bread (fresh_store D) 0 = Some (s1, D 0)" "readable s1" "wf_store s1" "view s1 = D" "st_disk s1 = D" "st_trace s1 = []"
    using bread_readable [OF fr(1), of 0] wf_bread [OF fr(1,2)] fr(3) by (simp add: fresh_store_def) metis
  obtain s2 bm where s2: "load_bitmap w [0..<bitmap_blocks w] [] [] s1 = ([], s2, Inr bm)"
    "readable s2" "wf_store s2" "view s2 = D" "st_disk s2 = D" "st_trace s2 = []"
    using load_bitmap_ok [OF s1(2,3)] s1(4-6) by metis
  let ?w = "w\<lparr>v_sb := (v_sb w)\<lparr>s_bitmap := bm\<rparr>\<rparr>"
  have gw: "geo ?w = geo v" using w(2) by (simp add: geo_def)
  note ge = geo_eq [OF gw] geo_eq_meta [OF gw]
  have pos: "v_log_start ?w = ps" "v_log_end ?w = pe" using w by simp_all
  have "\<exists>v3 s3 n. agfs_log_replay ?w s2 = (v3, s3, Inr n) \<and> st_disk s3 = apply_writes (concat es) D
     \<and> apply_writes (st_trace s3) D = st_disk s3 \<and> (\<forall>(b, d)\<in>set (st_trace s3). d = st_disk s3 b)
     \<and> (ps < pe \<longrightarrow> v_log_start v3 = 0 \<and> v_log_end v3 = 0)"
  proof (cases "agfs_log_len ?w = 0 \<or> ps \<ge> agfs_log_len ?w \<or> ps = pe")
    case True
    then have z: "log_size es = 0" using pe ge(2) by auto
    then have "es = []" by (cases es) auto
    then show ?thesis using True s2(5,6) pos pe z by (auto simp: agfs_log_replay_def)
  next
    case False
    have "\<exists>s'. replay_loop ?w ps s2 0 = (s', Inr (0 + length (concat es)))
       \<and> readable s' \<and> wf_store s' \<and> view s' = apply_writes (concat es) (view s2)"
      by (rule replay_loop_restores) (use geo es h pe ge s2 pos in auto)
    then obtain s' where s': "replay_loop ?w ps s2 0 = (s', Inr (length (concat es)))" "wf_store s'" "view s' = apply_writes (concat es) D"
      using s2(4) by auto
    have q: "st_disk s' = D" "st_trace s' = []" using replay_loop_quiet [of ?w ps s2 0] s'(1) s2(5,6) by simp_all
    have l: "set (st_list s') \<subseteq> dom (st_cache s')" using s'(2) by (simp add: wf_store_def)
    note sp = sync_buffers_spec(3,4) [OF l] sync_wf(1) [OF s'(2)]
    show ?thesis using False s'(1,3) pos q sp by (auto simp: agfs_log_replay_def set_dirty_def set_flags_def)
  qed
  then obtain v3 s3 n where r: "agfs_log_replay ?w s2 = (v3, s3, Inr n)" "st_disk s3 = apply_writes (concat es) D"
    "apply_writes (st_trace s3) D = st_disk s3" "\<forall>(b, d)\<in>set (st_trace s3). d = st_disk s3 b"
    "ps < pe \<longrightarrow> v_log_start v3 = 0 \<and> v_log_end v3 = 0" by blast
  then show ?thesis
    using s1(1) s2(1) w(1) by (simp add: agfs_read_superblock_def kmalloc_ok_def kmalloc_rest_def set_dirty_def set_flags_def)
qed

lemma recovered_replays:
  assumes "published v (D 0) q ps pe" "geo_ok v" "\<forall>tx\<in>set es. tx_ok v tx" "holds v D ps es" "pe = ps + log_size es" "pe \<le> agfs_log_len v"
  shows "recovered D = Some (apply_writes (concat es) D)"
  using mount_replays [OF assms] by (auto simp: recovered_def)

end
