(* ===== verification/Journal_Barrier.thy ===== *)
theory Journal_Barrier
  imports Journal_Replay
begin

text \<open>
  The barrier of the journal: the order in which a flush writes the log, the superblock, the bitmap
  and the cache to the device, the invariant that relates the device, the cache and the transactions,
  and the step the barrier makes in it, at every point of which a crash recovers.
\<close>

subsection \<open>The writes of the barrier\<close>

text \<open>
  A consistent cache: the dirty list has exactly the buffers whose flag is set, all with contents.
\<close>

definition cache_ok :: "blk_store \<Rightarrow> bool" where
  "cache_ok s \<longleftrightarrow> readable s \<and> (\<forall>b. st_flag s b \<longleftrightarrow> b \<in> set (st_list s)) \<and> set (st_list s) \<subseteq> dom (st_cache s)"

lemma write_bitmap_spec:
  assumes "readable s" "set (st_list s) \<subseteq> dom (st_cache s)"
  shows "\<exists>s'. write_bitmap_blocks v is s = (s', None) \<and> readable s' \<and> st_disk s' = st_disk s \<and> st_trace s' = st_trace s
     \<and> (\<forall>b. b \<notin> Suc ` set is \<longrightarrow> view s' b = view s b) \<and> set (st_list s') = set (st_list s) \<union> Suc ` set is
     \<and> set (st_list s') \<subseteq> dom (st_cache s') \<and> dom (st_cache s) \<subseteq> dom (st_cache s')
     \<and> (\<forall>b. st_flag s' b \<longleftrightarrow> st_flag s b \<or> b \<in> Suc ` set is)"
  using assms
proof (induction "is" arbitrary: s)
  case (Cons i "is")
  obtain s1 where s1: "bread s (1 + i) = Some (s1, view s (1 + i))" "readable s1" "view s1 = view s" "st_disk s1 = st_disk s"
    "st_flag s1 = st_flag s" "st_list s1 = st_list s" "st_trace s1 = st_trace s"
    "st_cache s1 = (st_cache s)(1 + i \<mapsto> view s (1 + i))"
    using bread_readable [OF Cons.prems(1), of "1 + i"] by blast
  obtain d where eq: "write_bitmap_blocks v (i # is) s = write_bitmap_blocks v is (bwrite s1 (Suc i) d)"
    using s1(1) by (auto simp: Let_def)
  have l: "set (st_list (bwrite s1 (Suc i) d)) \<subseteq> dom (st_cache (bwrite s1 (Suc i) d))"
    using Cons.prems(2) s1 by auto
  have r: "readable (bwrite s1 (Suc i) d)" using s1(2) by simp
  obtain s' where s': "write_bitmap_blocks v is (bwrite s1 (Suc i) d) = (s', None)" "readable s'"
    "st_disk s' = st_disk (bwrite s1 (Suc i) d)" "st_trace s' = st_trace (bwrite s1 (Suc i) d)" "\<forall>b. b \<notin> Suc ` set is \<longrightarrow> view s' b = view (bwrite s1 (Suc i) d) b"
    "set (st_list s') = set (st_list (bwrite s1 (Suc i) d)) \<union> Suc ` set is"
    "set (st_list s') \<subseteq> dom (st_cache s')" "dom (st_cache (bwrite s1 (Suc i) d)) \<subseteq> dom (st_cache s')"
    "\<forall>b. st_flag s' b \<longleftrightarrow> st_flag (bwrite s1 (Suc i) d) b \<or> b \<in> Suc ` set is"
    using Cons.IH [OF r l] by blast
  have "\<forall>b. b \<notin> Suc ` set (i # is) \<longrightarrow> view s' b = view s b" using s'(5) s1(3) by auto
  moreover have "set (st_list s') = set (st_list s) \<union> Suc ` set (i # is)" using s'(6) s1(6) by auto
  moreover have "dom (st_cache s) \<subseteq> dom (st_cache s')" using s'(8) s1(8) by auto
  moreover have "\<forall>b. st_flag s' b \<longleftrightarrow> st_flag s b \<or> b \<in> Suc ` set (i # is)" using s'(9) s1(5) by auto
  ultimately show ?case using s' eq s1(4,7) by simp
qed simp

lemma select_all:
  assumes "\<And>b. first \<le> b \<Longrightarrow> b < first + count \<Longrightarrow> st_flag s b \<and> b \<in> dom (st_cache s)"
  shows "st_cache (sync_buffers_select s first count) = st_cache s"
    "st_bad (sync_buffers_select s first count) = st_bad s"
    "st_list (sync_buffers_select s first count) = st_list s"
    "st_disk (sync_buffers_select s first count) = apply_writes (map (\<lambda>b. (b, view s b)) [first..<first + count]) (st_disk s)"
    "st_trace (sync_buffers_select s first count) = st_trace s @ map (\<lambda>b. (b, view s b)) [first..<first + count]"
    "st_flag (sync_buffers_select s first count) = (\<lambda>b. st_flag s b \<and> \<not> (first \<le> b \<and> b < first + count))"
    "view (sync_buffers_select s first count) = view s"
proof -
  have all: "filter (\<lambda>b. st_cache s b \<noteq> None \<and> st_flag s b) [first..<first + count] = [first..<first + count]"
  proof (rule filter_True, rule ballI)
    fix b assume "b \<in> set [first..<first + count]"
    then show "st_cache s b \<noteq> None \<and> st_flag s b" using assms [of b] by auto
  qed
  note sp = select_spec [where s = s, OF distinct_upt [of first "first + count"], folded sync_buffers_select_def, unfolded all]
  show c: "st_cache (sync_buffers_select s first count) = st_cache s"
    and "st_bad (sync_buffers_select s first count) = st_bad s"
    and "st_list (sync_buffers_select s first count) = st_list s"
    and d: "st_disk (sync_buffers_select s first count) = apply_writes (map (\<lambda>b. (b, view s b)) [first..<first + count]) (st_disk s)"
    and "st_trace (sync_buffers_select s first count) = st_trace s @ map (\<lambda>b. (b, view s b)) [first..<first + count]"
    using sp by blast+
  show "st_flag (sync_buffers_select s first count) = (\<lambda>b. st_flag s b \<and> \<not> (first \<le> b \<and> b < first + count))"
    using sp by (auto simp: fun_eq_iff)
  show "view (sync_buffers_select s first count) = view s"
    by (rule view_disk_agree [OF c]) (use assms in \<open>auto simp: d apply_writes_view view_def\<close>)
qed

lemma write_super_spec:
  assumes s: "readable s" "set (st_list s) \<subseteq> dom (st_cache s)"
    and pub: "published v (view s 0) (v_sb_seq v) ps pe" "geo_ok v" "unat (v_sb_seq v) + 1 < 2 ^ 32"
      "v_log_start v < 2 ^ 64" "v_log_end v < 2 ^ 64"
  shows "\<exists>s1 data. agfs_log_write_super v s fl = (set_dirty (v\<lparr>v_sb_seq := v_sb_seq v + 1\<rparr>), if fl then sync_buffers s1 else s1, None)
     \<and> published v data (v_sb_seq v + 1) (v_log_start v) (v_log_end v)
     \<and> readable s1 \<and> st_disk s1 = st_disk s \<and> st_trace s1 = st_trace s \<and> view s1 = (view s)(0 := data)
     \<and> set (st_list s1) = insert 0 (set (st_list s)) \<and> set (st_list s1) \<subseteq> dom (st_cache s1)
     \<and> dom (st_cache s) \<subseteq> dom (st_cache s1) \<and> (\<forall>b. st_flag s1 b \<longleftrightarrow> st_flag s b \<or> b = 0)"
proof -
  obtain s0 where s0: "bread s 0 = Some (s0, view s 0)" "readable s0" "view s0 = view s" "st_disk s0 = st_disk s"
    "st_flag s0 = st_flag s" "st_list s0 = st_list s" "st_trace s0 = st_trace s" "st_cache s0 = (st_cache s)(0 \<mapsto> view s 0)"
    using bread_readable [OF s(1), of 0] by blast
  let ?st = "agfs_sb_dual_stamp v (sb_put_log v (view s 0))"
  let ?s1 = "bwrite s0 0 (snd ?st)"
  note sp = stamp_publishes [OF pub(1,2) refl pub(3,4,5)]
  have "agfs_log_write_super v s fl = (set_dirty (v\<lparr>v_sb_seq := v_sb_seq v + 1\<rparr>), if fl then sync_buffers ?s1 else ?s1, None)"
    using s0(1) sp(2) by (cases ?st) (simp add: agfs_log_write_super_def)
  moreover have "set (st_list ?s1) = insert 0 (set (st_list s))" using s0 by auto
  moreover have "set (st_list ?s1) \<subseteq> dom (st_cache ?s1)" "dom (st_cache s) \<subseteq> dom (st_cache ?s1)" using s0 s(2) by auto
  moreover have "\<forall>b. st_flag ?s1 b \<longleftrightarrow> st_flag s b \<or> b = 0" using s0 by simp
  ultimately show ?thesis
    using sp(1) s0 by (intro exI [of _ ?s1] exI [of _ "snd ?st"]) simp
qed

text \<open>What the barrier does not change of the volume.\<close>

definition same_log :: "agfs_vol \<Rightarrow> agfs_vol \<Rightarrow> bool" where
  "same_log v w \<longleftrightarrow> geo v = geo w \<and> v_log_start v = v_log_start w \<and> v_log_end v = v_log_end w \<and> v_tx v = v_tx w
     \<and> v_tx_depth v = v_tx_depth w \<and> v_tx_poisoned v = v_tx_poisoned w \<and> v_log_draining v = v_log_draining w"

lemma view_discards [simp]: "view (s\<lparr>st_discards := ds\<rparr>) = view s"
  by (simp add: view_def fun_eq_iff split: option.split)

lemma flush_discards_spec:
  "\<exists>w s'. flush_discards dev v s = (w, s') \<and> same_log v w \<and> v_log_pending w = v_log_pending v
     \<and> v_pend_blocks w = v_pend_blocks v \<and> v_sb_seq w = v_sb_seq v
     \<and> st_disk s' = st_disk s \<and> st_cache s' = st_cache s \<and> st_flag s' = st_flag s \<and> st_list s' = st_list s
     \<and> st_trace s' = st_trace s \<and> readable s' = readable s \<and> view s' = view s"
proof -
  obtain sb ds where e: "agfs_flush_discards dev (v_sb v) = (sb, ds)" by fastforce
  then have "sb = v_sb v \<or> sb = (v_sb v)\<lparr>s_discards := []\<rparr>"
    by (cases dev) (auto simp: agfs_flush_discards_def split: if_splits)
  then show ?thesis by (auto simp: flush_discards_def e same_log_def geo_def readable_def)
qed

lemma flush_shape:
  assumes s: "cache_ok s" and pend: "v_log_pending v" and geo: "geo_ok v"
    and pub: "published v (view s 0) (v_sb_seq v) ps pe" "unat (v_sb_seq v) + 1 < 2 ^ 32"
    and pos: "v_log_start v + v_pend_blocks v \<le> agfs_log_len v" "v_log_end v \<le> agfs_log_len v"
    and dirty: "\<forall>p. v_log_start v \<le> p \<and> p < v_log_start v + v_pend_blocks v \<longrightarrow> agfs_log_block v p \<in> set (st_list s)"
  defines "A \<equiv> map (\<lambda>b. (b, view s b)) [agfs_log_block v (v_log_start v)..<agfs_log_block v (v_log_start v) + v_pend_blocks v]"
  shows "\<exists>v' s' data B C. agfs_log_flush_locked dev v s = (v', s')
     \<and> st_trace s' = st_trace s @ A @ (0, data) # B @ C
     \<and> st_disk s' = apply_writes (A @ (0, data) # B @ C) (st_disk s)
     \<and> published v data (v_sb_seq v + 1) (v_log_start v) (v_log_end v)
     \<and> fst ` set B \<subseteq> {1..bitmap_blocks v}
     \<and> fst ` set C = set (st_list s) \<union> {0..bitmap_blocks v}
     \<and> (\<forall>(b, d)\<in>set C. d = view s' b)
     \<and> view s' 0 = data \<and> (\<forall>b. bitmap_blocks v < b \<longrightarrow> view s' b = view s b)
     \<and> cache_ok s' \<and> st_list s' = []
     \<and> same_log v v' \<and> \<not> v_log_pending v' \<and> v_pend_blocks v' = 0 \<and> v_sb_seq v' = v_sb_seq v + 1"
proof -
  let ?n = "bitmap_blocks v"
  let ?lb = "agfs_log_block v (v_log_start v)"
  define v2 where "v2 = set_flags (count_journaled v (v_pend_blocks v)) AGFS_SUPER_DIRTY"
  have v2: "geo v2 = geo v" "same_log v v2" "v_sb_seq v2 = v_sb_seq v" "v_pend_blocks v2 = v_pend_blocks v"
    by (simp_all add: v2_def set_flags_def count_journaled_def geo_def same_log_def)
  note ge = geo_eq [OF v2(1)]
  have logpos: "v_log_start v < 2 ^ 64" "v_log_end v < 2 ^ 64"
    using pos geo by (simp_all add: geo_ok_def agfs_log_len_def)
  have r: "readable s" and fl: "\<And>b. st_flag s b \<longleftrightarrow> b \<in> set (st_list s)" and l: "set (st_list s) \<subseteq> dom (st_cache s)"
    using s by (auto simp: cache_ok_def)
  define s1 where "s1 = sync_buffers_select s ?lb (v_pend_blocks v)"
  have rng: "st_flag s b \<and> b \<in> dom (st_cache s)" if lb: "?lb \<le> b" "b < ?lb + v_pend_blocks v" for b
  proof -
    obtain i where "b = ?lb + i" "i < v_pend_blocks v" using lb le_Suc_ex [of ?lb b] by auto
    then have "b \<in> set (st_list s)" using dirty [rule_format, of "v_log_start v + i"] by (simp add: log_block_plus)
    then show ?thesis using fl l by auto
  qed
  note sel = select_all [of ?lb "v_pend_blocks v" s, OF rng, folded s1_def]
  have r1: "readable s1" and l1: "set (st_list s1) \<subseteq> dom (st_cache s1)" using r l sel by (simp_all add: readable_def)
  obtain s2 where wb: "write_bitmap_blocks v2 [0..<?n] s1 = (s2, None)" and s2: "readable s2" "st_disk s2 = st_disk s1"
    "st_trace s2 = st_trace s1" "\<forall>b. b \<notin> Suc ` set [0..<?n] \<longrightarrow> view s2 b = view s1 b"
    "set (st_list s2) = set (st_list s1) \<union> Suc ` set [0..<?n]" "set (st_list s2) \<subseteq> dom (st_cache s2)"
    "dom (st_cache s1) \<subseteq> dom (st_cache s2)" "\<forall>b. st_flag s2 b \<longleftrightarrow> st_flag s1 b \<or> b \<in> Suc ` set [0..<?n]"
    using write_bitmap_spec [OF r1 l1, of v2 "[0..<?n]"] by blast
  have suc: "Suc ` set [0..<?n] = {1..?n}" by (auto simp: image_Suc_lessThan atLeast0LessThan)
  have v20: "view s2 0 = view s 0" using s2(4) sel(7) by simp
  obtain s3 data where ws: "agfs_log_write_super v2 s2 False = (set_dirty (v2\<lparr>v_sb_seq := v_sb_seq v2 + 1\<rparr>), s3, None)"
    and pub3: "published v2 data (v_sb_seq v2 + 1) (v_log_start v2) (v_log_end v2)"
    and s3: "readable s3" "st_disk s3 = st_disk s2" "st_trace s3 = st_trace s2" "view s3 = (view s2)(0 := data)"
      "set (st_list s3) = insert 0 (set (st_list s2))" "set (st_list s3) \<subseteq> dom (st_cache s3)"
      "dom (st_cache s2) \<subseteq> dom (st_cache s3)" "\<forall>b. st_flag s3 b \<longleftrightarrow> st_flag s2 b \<or> b = 0"
  proof -
    have "published v2 (view s2 0) (v_sb_seq v2) ps pe" using pub(1) v20 v2 published_geo [OF v2(1)] by simp
    then show ?thesis
      using write_super_spec [OF s2(1,6), of v2 ps pe False] ge(7) geo pub(2) logpos v2(2,3) that
      by (auto simp: same_log_def)
  qed
  have l3: "set (st_list s3) = set (st_list s) \<union> {0..?n}"
    using s3(5) s2(5) sel(3) suc by auto
  define s4 where "s4 = sync_buffers_select s3 0 (1 + ?n)"
  have rng4: "st_flag s3 b \<and> b \<in> dom (st_cache s3)" if "0 \<le> b" "b < 0 + (1 + ?n)" for b
  proof -
    have "b \<in> {0..?n}" using that by simp
    then have "b \<in> dom (st_cache s3)" using s3(6) l3 by blast
    moreover have "b = 0 \<or> b \<in> {1..?n}" using that by auto
    then have "st_flag s3 b" using s3(8) s2(8) unfolding suc by blast
    ultimately show ?thesis by blast
  qed
  note sel4 = select_all [of 0 "1 + ?n" s3, OF rng4, folded s4_def]
  have l4: "set (st_list s4) \<subseteq> dom (st_cache s4)" using s3(6) sel4 by simp
  define s5 where "s5 = sync_buffers s4"
  note sy = sync_buffers_spec [OF l4, folded s5_def]
  note vw5 = view_sync_buffers [OF l4, folded s5_def]
  define v3 where "v3 = set_dirty (v2\<lparr>v_sb_seq := v_sb_seq v2 + 1\<rparr>)"
  have v3: "bitmap_blocks v3 = ?n" "same_log v v3" "v_sb_seq v3 = v_sb_seq v + 1"
    using ge(3) v2 by (simp_all add: v3_def set_dirty_def bitmap_blocks_def same_log_def geo_def)
  obtain v4 s6 where fd: "flush_discards dev v3 s5 = (v4, s6)" and v4: "same_log v3 v4" "v_sb_seq v4 = v_sb_seq v3"
    and s6: "st_disk s6 = st_disk s5" "st_cache s6 = st_cache s5" "st_flag s6 = st_flag s5" "st_list s6 = st_list s5"
      "st_trace s6 = st_trace s5" "readable s6 = readable s5" "view s6 = view s5"
    using flush_discards_spec [of dev v3 s5] by blast
  have eq: "agfs_log_flush_locked dev v s = (v4\<lparr>v_log_pending := False, v_pend_blocks := 0\<rparr>, s6)"
  proof -
    have c: "agfs_log_block (count_journaled v k) = agfs_log_block v" "v_log_start (count_journaled v k) = v_log_start v"
      "v_pend_blocks (count_journaled v k) = v_pend_blocks v" for k
      by (simp_all add: fun_eq_iff count_journaled_def agfs_log_block_def agfs_log_run_abs_def)
    have wb': "agfs_log_write_bitmap v2 s1 = (s2, None)" using wb ge(3) by (simp add: agfs_log_write_bitmap_def)
    show ?thesis
      unfolding agfs_log_flush_locked_def Let_def c v2_def [symmetric] s1_def [symmetric] wb' fst_conv ws v3_def [symmetric]
      using pend v3(1) fd [unfolded s5_def s4_def] by simp
  qed
  let ?B = "map (\<lambda>b. (b, view s3 b)) [1..<1 + ?n]"
  let ?C = "map (\<lambda>b. (b, view s3 b)) (st_list s3)"
  have up: "[0..<0 + (1 + ?n)] = 0 # [1..<1 + ?n]" by (simp add: upt_conv_Cons)
  have d3: "view s3 0 = data" using s3(4) by simp
  have mp: "map (\<lambda>b. (b, view s3 b)) [0..<0 + (1 + ?n)] = (0, data) # ?B" unfolding up using d3 by simp
  have tr: "st_trace s6 = st_trace s @ A @ (0, data) # ?B @ ?C"
  proof -
    have "st_trace s5 = st_trace s4 @ ?C" by (simp only: sy(4) sel4(3) sel4(7))
    moreover have "st_trace s4 = st_trace s3 @ (0, data) # ?B" by (simp only: sel4(5) mp)
    moreover have "st_trace s3 = st_trace s @ A" by (simp only: s3(3) s2(3) sel(5) A_def)
    ultimately show ?thesis using s6(5) by (simp del: upt_Suc)
  qed
  have dk: "st_disk s6 = apply_writes (A @ (0, data) # ?B @ ?C) (st_disk s)"
    by (simp only: s6(1) sy(3) sel4(3) sel4(4) sel4(7) s3(2) s2(2) sel(4) mp A_def apply_writes_simps)
  have vw6: "view s6 = view s3" using s6(7) vw5 sel4(7) by simp
  have vw: "view s6 b = view s b" if "?n < b" for b
    using that s3(4) s2(4) sel(7) suc by (simp add: vw6)
  have nofl: "\<not> st_flag s6 b" for b
    using s6(3) sy(5) sel4(3,6) s3(8) s2(8) sel(6) fl l3 suc by auto
  have "cache_ok s6"
    using nofl s6(4,6) sy(2,6) sel4(2) s3(1) by (simp add: cache_ok_def readable_def)
  moreover have "fst ` set ?C = set (st_list s) \<union> {0..?n}" using l3 by (simp add: image_image)
  moreover have "published v data (v_sb_seq v + 1) (v_log_start v) (v_log_end v)"
    using pub3 published_geo [OF v2(1)] v2 by (simp add: same_log_def)
  moreover have "same_log v (v4\<lparr>v_log_pending := False, v_pend_blocks := 0\<rparr>)"
    using v3(2) v4(1) by (simp add: same_log_def geo_def)
  ultimately show ?thesis
    unfolding eq using tr dk vw d3 vw6 s6(4) sy(6) v4(2) v3(3)
    by (intro exI [of _ "v4\<lparr>v_log_pending := False, v_pend_blocks := 0\<rparr>"] exI [of _ s6] exI [of _ data] exI [of _ ?B] exI [of _ ?C])
       (auto simp: image_image)
qed

subsection \<open>The invariant of the journal\<close>

text \<open>
  The state between two steps, for a volume whose contents were \<open>D0\<close> when the journal started.
  \<open>dn\<close> are the transactions that are durable, \<open>es\<close> those of the pending batch, \<open>es0\<close> the entries of
  the published range. \<open>X\<close> are the blocks written without the journal (file data). The cache holds
  the batch, dirty; the device holds a range that replays to the durable transactions. The blocks
  of \<open>E\<close> may already carry the contents of an open transaction on the device: they are in the
  published range, so a replay restores them.
\<close>

abbreviation tgts :: "tx list \<Rightarrow> nat set" where
  "tgts es \<equiv> fst ` set (concat es)"

definition plog :: "agfs_vol \<Rightarrow> tx list \<Rightarrow> nat set" where
  "plog v es = agfs_log_block v ` {v_log_start v..<v_log_start v + log_size es}"

definition jcache :: "nat set \<Rightarrow> tx list \<Rightarrow> agfs_vol \<Rightarrow> blk_store \<Rightarrow> bool" where
  "jcache X es v s \<longleftrightarrow>
     cache_ok s \<and> geo_ok v \<and> (\<forall>b\<in>X. meta v b)
     \<and> (\<forall>tx\<in>set es. tx_ok v tx \<and> fst ` set tx \<inter> X = {})
     \<and> (v_log_pending v \<longleftrightarrow> es \<noteq> []) \<and> v_pend_blocks v = log_size es
     \<and> (es \<noteq> [] \<longrightarrow> v_log_end v = v_log_start v + log_size es) \<and> v_log_end v \<le> agfs_log_len v
     \<and> holds v (view s) (v_log_start v) es
     \<and> tgts es \<union> plog v es \<subseteq> set (st_list s) \<and> set (st_list s) \<subseteq> tgts es \<union> plog v es \<union> X"

definition jdisk :: "(nat \<Rightarrow> byte list) \<Rightarrow> nat set \<Rightarrow> tx list \<Rightarrow> tx list \<Rightarrow> nat set \<Rightarrow> tx list \<Rightarrow> agfs_vol \<Rightarrow> blk_store \<Rightarrow> bool" where
  "jdisk D0 X dn es0 E es v s \<longleftrightarrow>
     (\<forall>tx\<in>set es0. tx_ok v tx)
     \<and> (\<exists>ps. published v (st_disk s 0) (v_sb_seq v) ps (ps + log_size es0) \<and> holds v (st_disk s) ps es0
          \<and> ps + log_size es0 \<le> (if es = [] then v_log_end v else v_log_start v))
     \<and> view s 0 = st_disk s 0 \<and> E \<subseteq> tgts es0
     \<and> (\<forall>b. meta v b \<and> b \<notin> X \<longrightarrow> apply_writes (concat es0) (st_disk s) b = apply_writes (concat dn) D0 b)
     \<and> (\<forall>b. meta v b \<and> b \<notin> X \<and> b \<notin> E \<longrightarrow> st_disk s b = apply_writes (concat dn) D0 b)"

definition jview :: "(nat \<Rightarrow> byte list) \<Rightarrow> nat set \<Rightarrow> tx list \<Rightarrow> agfs_vol \<Rightarrow> blk_store \<Rightarrow> bool" where
  "jview D0 X txs v s \<longleftrightarrow> (\<forall>b. meta v b \<and> b \<notin> X \<longrightarrow> view s b = apply_writes (concat txs) D0 b)"

text \<open>The mount after a crash that left the device \<open>D\<close> finds exactly the transactions \<open>txs\<close>.\<close>

definition recovers_to :: "(nat \<Rightarrow> byte list) \<Rightarrow> nat set \<Rightarrow> agfs_vol \<Rightarrow> tx list \<Rightarrow> (nat \<Rightarrow> byte list) \<Rightarrow> bool" where
  "recovers_to D0 X v txs D \<longleftrightarrow>
     (\<exists>R. recovered D = Some R \<and> (\<forall>b. meta v b \<and> b \<notin> X \<longrightarrow> R b = apply_writes (concat txs) D0 b))"

lemma meta_not_log: "meta v b \<Longrightarrow> p < agfs_log_len v \<Longrightarrow> agfs_log_block v p \<noteq> b"
  using in_log_block [of p v] by (auto simp: meta_def)

lemma meta_not_plog:
  assumes "meta v b" "v_log_start v + log_size es \<le> agfs_log_len v"
  shows "b \<notin> plog v es"
proof
  assume "b \<in> plog v es"
  then obtain p where "b = agfs_log_block v p" "p < agfs_log_len v" using assms(2) by (auto simp: plog_def)
  then show False using assms(1) in_log_block [of p v] by (simp add: meta_def)
qed

lemma plog_interval:
  "{agfs_log_block v (v_log_start v)..<agfs_log_block v (v_log_start v) + log_size es} = plog v es"
  unfolding plog_def agfs_log_block_def by (simp add: image_add_atLeastLessThan ac_simps)

lemma log_above: "geo_ok v \<Longrightarrow> bitmap_blocks v < agfs_log_block v p"
  by (simp add: geo_ok_def agfs_log_block_def)

lemma not_meta_0 [simp]: "\<not> meta v 0"
  by (simp add: meta_def)

lemma meta_above: "meta v b \<Longrightarrow> bitmap_blocks v < b"
  by (simp add: meta_def)

lemma log_block_inj [simp]: "agfs_log_block v p = agfs_log_block v q \<longleftrightarrow> p = q"
  by (simp add: agfs_log_block_def)

lemma apply_writes_const:
  "D b = x \<Longrightarrow> \<forall>(c, d)\<in>set W. c = b \<longrightarrow> d = x \<Longrightarrow> apply_writes W D b = x"
  by (induction W arbitrary: D) auto

lemma apply_writes_hit_const:
  "b \<in> fst ` set W \<Longrightarrow> \<forall>(c, d)\<in>set W. c = b \<longrightarrow> d = x \<Longrightarrow> apply_writes W D b = x"
proof (induction W arbitrary: D)
  case (Cons w W)
  obtain c d where w: "w = (c, d)" by fastforce
  show ?case
  proof (cases "c = b")
    case True
    then show ?thesis unfolding w apply_writes_simps by (intro apply_writes_const) (use Cons.prems w in auto)
  next
    case False
    then show ?thesis unfolding w apply_writes_simps by (intro Cons.IH) (use Cons.prems w in auto)
  qed
qed simp

text \<open>Before the publish: the published range is untouched, and replays to the durable transactions.\<close>

lemma unpublished_recovers:
  assumes c: "jcache X es v s" and d: "jdisk D0 X dn es0 E es v s"
    and D: "D 0 = st_disk s 0" "\<And>b. meta v b \<Longrightarrow> b \<notin> X \<Longrightarrow> D b = st_disk s b"
      "\<And>p. p < (if es = [] then v_log_end v else v_log_start v) \<Longrightarrow> D (agfs_log_block v p) = st_disk s (agfs_log_block v p)"
  shows "recovers_to D0 X v dn D"
proof -
  obtain ps where ps: "published v (st_disk s 0) (v_sb_seq v) ps (ps + log_size es0)" "holds v (st_disk s) ps es0"
    "ps + log_size es0 \<le> (if es = [] then v_log_end v else v_log_start v)"
    using d by (auto simp: jdisk_def)
  have le: "(if es = [] then v_log_end v else v_log_start v) \<le> agfs_log_len v"
    using c by (auto simp: jcache_def)
  have "holds v D ps es0"
    using ps(2) by (subst holds_cong [where G = "st_disk s"]) (use ps(3) D(3) in auto)
  moreover have "published v (D 0) (v_sb_seq v) ps (ps + log_size es0)" using ps(1) D(1) by simp
  ultimately have "recovered D = Some (apply_writes (concat es0) D)"
    using recovered_replays [of v D "v_sb_seq v" ps "ps + log_size es0" es0] c d ps(3) le
    by (auto simp: jcache_def jdisk_def)
  moreover have "apply_writes (concat es0) D b = apply_writes (concat dn) D0 b" if "meta v b" "b \<notin> X" for b
    using apply_writes_cong [of D b "st_disk s" "concat es0"] D(2) [OF that] that d by (simp add: jdisk_def)
  ultimately show ?thesis by (auto simp: recovers_to_def)
qed

text \<open>After the publish: the entries are in the log, and the other blocks are as before.\<close>

lemma published_writes:
  assumes c: "jcache X es v s" and es: "es \<noteq> []"
    and Z: "\<forall>(b, d)\<in>set Z. (b = 0 \<longrightarrow> d = data) \<and> (bitmap_blocks v < b \<longrightarrow> b \<in> set (st_list s) \<and> d = view s b)"
  defines "A \<equiv> map (\<lambda>b. (b, view s b)) [agfs_log_block v (v_log_start v)..<agfs_log_block v (v_log_start v) + v_pend_blocks v]"
  defines "D \<equiv> apply_writes (A @ (0, data) # Z) (st_disk s)"
  shows "D 0 = data" "holds v D (v_log_start v) es"
    "\<And>b. meta v b \<Longrightarrow> b \<notin> X \<Longrightarrow> b \<notin> tgts es \<Longrightarrow> D b = st_disk s b"
proof -
  have D: "D = apply_writes Z ((apply_writes A (st_disk s))(0 := data))" by (simp add: D_def)
  show "D 0 = data" unfolding D by (rule apply_writes_const) (use Z in auto)
  have geo: "geo_ok v" and pb: "v_pend_blocks v = log_size es"
    and len: "v_log_start v + log_size es \<le> agfs_log_len v" and h: "holds v (view s) (v_log_start v) es"
    and l: "set (st_list s) \<subseteq> tgts es \<union> plog v es \<union> X"
    using c es by (auto simp: jcache_def)
  have Ablk: "fst ` set A = plog v es"
    by (simp add: A_def pb image_image plog_interval)
  have log: "D (agfs_log_block v p) = view s (agfs_log_block v p)" if "v_log_start v \<le> p" "p < v_log_start v + log_size es" for p
    unfolding D
  proof (rule apply_writes_const)
    have "agfs_log_block v p \<in> fst ` set A" unfolding Ablk plog_def using that by simp
    then have "apply_writes A (st_disk s) (agfs_log_block v p) = view s (agfs_log_block v p)"
      unfolding A_def by (simp add: apply_writes_view image_image)
    then show "((apply_writes A (st_disk s))(0 := data)) (agfs_log_block v p) = view s (agfs_log_block v p)"
      using log_above [OF geo, of p] by auto
    show "\<forall>(c, d)\<in>set Z. c = agfs_log_block v p \<longrightarrow> d = view s (agfs_log_block v p)"
      using Z log_above [OF geo, of p] by auto
  qed
  show "holds v D (v_log_start v) es"
    using h by (subst holds_cong [where G = "view s"]) (use log in auto)
  fix b assume b: "meta v b" "b \<notin> X" "b \<notin> tgts es"
  have "b \<notin> plog v es" using meta_not_plog [OF b(1) len] .
  then have bl: "b \<notin> set (st_list s)" "b \<notin> fst ` set A" using l b Ablk by auto
  have "b \<notin> fst ` set Z" using Z bl(1) meta_above [OF b(1)] by auto
  then show "D b = st_disk s b"
    unfolding D using bl(2) meta_above [OF b(1)] by (simp add: apply_writes_other)
qed

lemma published_recovers:
  assumes c: "jcache X es v s" and d: "jdisk D0 X dn es0 E es v s" and E: "E \<subseteq> tgts es" and es: "es \<noteq> []"
    and pub: "published v data q (v_log_start v) (v_log_end v)"
    and D: "D 0 = data" "holds v D (v_log_start v) es"
      "\<And>b. meta v b \<Longrightarrow> b \<notin> X \<Longrightarrow> b \<notin> tgts es \<Longrightarrow> D b = st_disk s b"
  shows "recovers_to D0 X v (dn @ es) D"
    and "\<And>b. meta v b \<Longrightarrow> b \<notin> X \<Longrightarrow> apply_writes (concat es) D b = apply_writes (concat (dn @ es)) D0 b"
proof -
  have en: "v_log_end v = v_log_start v + log_size es" "v_log_end v \<le> agfs_log_len v"
    using c es by (auto simp: jcache_def)
  have "recovered D = Some (apply_writes (concat es) D)"
    using recovered_replays [of v D q "v_log_start v" "v_log_end v" es] c pub D(1,2) en by (auto simp: jcache_def)
  moreover show *: "apply_writes (concat es) D b = apply_writes (concat (dn @ es)) D0 b" if "meta v b" "b \<notin> X" for b
  proof (cases "b \<in> tgts es")
    case True
    then show ?thesis using apply_writes_hit [of b "concat es" D "apply_writes (concat dn) D0"] by simp
  next
    case False
    then have "D b = apply_writes (concat dn) D0 b" using D(3) that E d by (auto simp: jdisk_def)
    then show ?thesis using apply_writes_cong [of D b "apply_writes (concat dn) D0" "concat es"] by simp
  qed
  ultimately show "recovers_to D0 X v (dn @ es) D" by (auto simp: recovers_to_def)
qed

subsection \<open>Steps of the journal and crashes\<close>

text \<open>
  A step from \<open>s\<close> to \<open>s'\<close> that writes \<open>W\<close> to the device, at every point of which a crash recovers
  to the transactions \<open>p\<close> or to a longer list between \<open>p\<close> and \<open>q\<close>.
\<close>

definition crash_step ::
  "(nat \<Rightarrow> byte list) \<Rightarrow> nat set \<Rightarrow> agfs_vol \<Rightarrow> tx list \<Rightarrow> nat \<Rightarrow> blk_store \<Rightarrow> blk_store \<Rightarrow> bool" where
  "crash_step D0 X v txs j s s' \<longleftrightarrow>
     (\<exists>W. st_trace s' = st_trace s @ W \<and> st_disk s' = apply_writes W (st_disk s)
        \<and> (\<forall>k. \<exists>i\<ge>j. recovers_to D0 X v (take i txs) (apply_writes (take k W) (st_disk s))))"

lemma crash_step_trans:
  assumes "crash_step D0 X v txs j s s'" "crash_step D0 X v txs j s' s''"
  shows "crash_step D0 X v txs j s s''"
proof -
  obtain W W' where W: "st_trace s' = st_trace s @ W" "st_disk s' = apply_writes W (st_disk s)"
    "\<And>k. \<exists>i\<ge>j. recovers_to D0 X v (take i txs) (apply_writes (take k W) (st_disk s))"
    and W': "st_trace s'' = st_trace s' @ W'" "st_disk s'' = apply_writes W' (st_disk s')"
    "\<And>k. \<exists>i\<ge>j. recovers_to D0 X v (take i txs) (apply_writes (take k W') (st_disk s'))"
    using assms by (auto simp: crash_step_def)
  have "\<exists>i\<ge>j. recovers_to D0 X v (take i txs) (apply_writes (take k (W @ W')) (st_disk s))" for k
    using W(3) [of k] W'(3) [of "k - length W"] W(2) by (cases "k \<le> length W") auto
  then show ?thesis
    using W(1,2) W'(1,2) by (auto simp: crash_step_def intro!: exI [of _ "W @ W'"])
qed

lemma same_logD:
  assumes "same_log v w"
  shows "geo v = geo w" "v_log_start w = v_log_start v" "v_log_end w = v_log_end v" "v_tx w = v_tx v"
    "v_tx_depth w = v_tx_depth v" "v_tx_poisoned w = v_tx_poisoned v" "v_log_draining w = v_log_draining v"
  using assms by (simp_all add: same_log_def)

text \<open>The barrier makes the pending batch durable.\<close>

lemma flush_step:
  assumes c: "jcache X es v s" and d: "jdisk D0 X dn es0 E es v s" and vw: "jview D0 X (dn @ es @ [t]) v s"
    and E: "E \<subseteq> tgts es" and es: "es \<noteq> []" and seq: "unat (v_sb_seq v) + 1 < 2 ^ 32" and j: "j \<le> length dn"
  shows "\<exists>v' s'. agfs_log_flush_locked dev v s = (v', s')
     \<and> jcache X [] v' s' \<and> jdisk D0 X (dn @ es) es (tgts es \<inter> fst ` set t) [] v' s' \<and> jview D0 X (dn @ es @ [t]) v' s'
     \<and> same_log v v' \<and> v_sb_seq v' = v_sb_seq v + 1
     \<and> crash_step D0 X v (dn @ es @ u) j s s'"
proof -
  have pend: "v_log_pending v" and geo: "geo_ok v" and pb: "v_pend_blocks v = log_size es" and co: "cache_ok s"
    and en: "v_log_end v = v_log_start v + log_size es" "v_log_end v \<le> agfs_log_len v"
    and lst: "tgts es \<union> plog v es \<subseteq> set (st_list s)" "set (st_list s) \<subseteq> tgts es \<union> plog v es \<union> X"
    and Xm: "\<forall>b\<in>X. meta v b"
    using c es by (auto simp: jcache_def)
  obtain ps where ps: "published v (view s 0) (v_sb_seq v) ps (ps + log_size es0)"
    using d by (auto simp: jdisk_def)
  let ?A = "map (\<lambda>b. (b, view s b)) [agfs_log_block v (v_log_start v)..<agfs_log_block v (v_log_start v) + v_pend_blocks v]"
  obtain v' s' data B C where fl: "agfs_log_flush_locked dev v s = (v', s')"
    and tr: "st_trace s' = st_trace s @ ?A @ (0, data) # B @ C"
    and dk: "st_disk s' = apply_writes (?A @ (0, data) # B @ C) (st_disk s)"
    and pub: "published v data (v_sb_seq v + 1) (v_log_start v) (v_log_end v)"
    and B: "fst ` set B \<subseteq> {1..bitmap_blocks v}" and C: "fst ` set C = set (st_list s) \<union> {0..bitmap_blocks v}"
      "\<forall>(b, d)\<in>set C. d = view s' b"
    and vw': "view s' 0 = data" "\<forall>b. bitmap_blocks v < b \<longrightarrow> view s' b = view s b"
    and co': "cache_ok s'" "st_list s' = []"
    and v': "same_log v v'" "\<not> v_log_pending v'" "v_pend_blocks v' = 0" "v_sb_seq v' = v_sb_seq v + 1"
  proof -
    have pos: "v_log_start v + v_pend_blocks v \<le> agfs_log_len v" using en pb by simp
    have dirty: "\<forall>p. v_log_start v \<le> p \<and> p < v_log_start v + v_pend_blocks v \<longrightarrow> agfs_log_block v p \<in> set (st_list s)"
      using lst(1) pb by (auto simp: plog_def)
    show ?thesis
      using flush_shape [OF co pend geo ps seq pos en(2) dirty, of dev] by (elim exE conjE) (rule that)
  qed
  note ge = geo_eq [OF same_logD(1) [OF v'(1)]] geo_eq_meta [OF same_logD(1) [OF v'(1)]]
  have Z: "\<forall>(b, d)\<in>set Z. (b = 0 \<longrightarrow> d = data) \<and> (bitmap_blocks v < b \<longrightarrow> b \<in> set (st_list s) \<and> d = view s b)"
    if "set Z \<subseteq> set (B @ C)" for Z
  proof (rule ballI, rule prod.case_eq_if [THEN iffD2] , goal_cases)
    case (1 bd)
    then have "bd \<in> set B \<or> bd \<in> set C" using that by auto
    then show ?case
    proof
      assume "bd \<in> set B"
      then have "fst bd \<in> {1..bitmap_blocks v}" using B by auto
      then show ?thesis by auto
    next
      assume C1: "bd \<in> set C"
      then have "fst bd \<in> set (st_list s) \<union> {0..bitmap_blocks v}" "snd bd = view s' (fst bd)" using C by auto
      then show ?thesis using vw' by auto
    qed
  qed
  let ?D = "\<lambda>Z. apply_writes (?A @ (0, data) # Z) (st_disk s)"
  note after = published_writes [OF c es Z, folded append.assoc]
  have rec: "recovers_to D0 X v (dn @ es) (?D Z)"
    "\<And>b. meta v b \<Longrightarrow> b \<notin> X \<Longrightarrow> apply_writes (concat es) (?D Z) b = apply_writes (concat (dn @ es)) D0 b"
    if "set Z \<subseteq> set (B @ C)" for Z
    using published_recovers [OF c d E es pub published_writes [OF c es Z [OF that]]] by blast+
  have crash: "crash_step D0 X v (dn @ es @ u) j s s'"
    unfolding crash_step_def
  proof (intro exI [of _ "?A @ (0, data) # B @ C"] conjI allI)
    show "st_trace s' = st_trace s @ ?A @ (0, data) # B @ C" "st_disk s' = apply_writes (?A @ (0, data) # B @ C) (st_disk s)"
      by (rule tr, rule dk)
    fix k
    show "\<exists>i\<ge>j. recovers_to D0 X v (take i (dn @ es @ u)) (apply_writes (take k (?A @ (0, data) # B @ C)) (st_disk s))"
    proof (cases "k \<le> length ?A")
      case True
      let ?D1 = "apply_writes (take k ?A) (st_disk s)"
      have A: "fst ` set (take k ?A) \<subseteq> plog v es"
        using set_take_subset [of k ?A] by (auto simp: pb plog_interval [symmetric])
      have "recovers_to D0 X v dn ?D1"
      proof (rule unpublished_recovers [OF c d])
        have "0 \<notin> plog v es" using log_above [OF geo] by (auto simp: plog_def) (metis less_zeroE)
        then show "?D1 0 = st_disk s 0" using A by (intro apply_writes_other) auto
        show "?D1 b = st_disk s b" if "meta v b" "b \<notin> X" for b
        proof (rule apply_writes_other)
          have "b \<notin> plog v es" using meta_not_plog [OF that(1)] en by simp
          then show "b \<notin> fst ` set (take k ?A)" using A by auto
        qed
        show "?D1 (agfs_log_block v p) = st_disk s (agfs_log_block v p)"
          if "p < (if es = [] then v_log_end v else v_log_start v)" for p
        proof (rule apply_writes_other)
          have "agfs_log_block v p \<notin> plog v es" using that es by (auto simp: plog_def)
          then show "agfs_log_block v p \<notin> fst ` set (take k ?A)" using A by auto
        qed
      qed
      then show ?thesis using True j by (intro exI [of _ "length dn"]) simp
    next
      case False
      then obtain m where k: "k = length ?A + Suc m" by (metis add_Suc_right less_iff_Suc_add not_le)
      have "take k (?A @ (0, data) # B @ C) = ?A @ (0, data) # take m (B @ C)" unfolding k by simp
      moreover have "recovers_to D0 X v (dn @ es) (?D (take m (B @ C)))" by (rule rec(1)) (rule set_take_subset)
      ultimately show ?thesis using j by (intro exI [of _ "length (dn @ es)"]) simp
    qed
  qed
  note full = published_writes [OF c es Z [OF subset_refl], folded dk]
  have "jcache X [] v' s'"
    using co' v' c ge en same_logD [OF v'(1)] Xm by (simp add: jcache_def plog_def)
  moreover have "jview D0 X (dn @ es @ [t]) v' s'"
    using vw vw'(2) meta_above ge by (simp add: jview_def)
  moreover have "jdisk D0 X (dn @ es) es (tgts es \<inter> fst ` set t) [] v' s'"
    unfolding jdisk_def
  proof (intro conjI allI impI)
    show "\<forall>tx\<in>set es. tx_ok v' tx" using c ge by (simp add: jcache_def)
    show "\<exists>ps. published v' (st_disk s' 0) (v_sb_seq v') ps (ps + log_size es) \<and> holds v' (st_disk s') ps es
       \<and> ps + log_size es \<le> (if [] = [] then v_log_end v' else v_log_start v')"
      using pub full(1,2) v' en ge same_logD [OF v'(1)] published_geo [OF same_logD(1) [OF v'(1)]]
      by (intro exI [of _ "v_log_start v"]) simp
    show "view s' 0 = st_disk s' 0" using vw'(1) full(1) by simp
    show "tgts es \<inter> fst ` set t \<subseteq> tgts es" by blast
    show "apply_writes (concat es) (st_disk s') b = apply_writes (concat (dn @ es)) D0 b" if "meta v' b \<and> b \<notin> X" for b
      using rec(2) [OF subset_refl, folded dk] that ge by simp
    show "st_disk s' b = apply_writes (concat (dn @ es)) D0 b" if b: "meta v' b \<and> b \<notin> X \<and> b \<notin> tgts es \<inter> fst ` set t" for b
    proof (cases "b \<in> tgts es")
      case True
      then have bt: "b \<notin> fst ` set t" and bm: "meta v b" using b ge by auto
      have "b \<in> fst ` set C" using True lst(1) C(1) by blast
      then have "apply_writes C D b = view s' b" for D
        using C(2) by (auto simp: image_iff intro!: apply_writes_hit_const)
      then have "st_disk s' b = view s b" using vw'(2) meta_above [OF bm] by (simp add: dk)
      also have "\<dots> = apply_writes (concat (dn @ es) @ t) D0 b" using vw bm b by (simp add: jview_def)
      also have "\<dots> = apply_writes (concat (dn @ es)) D0 b" using bt by (simp add: apply_writes_other)
      finally show ?thesis .
    next
      case False
      then have "apply_writes (concat es) (st_disk s') b = st_disk s' b" by (rule apply_writes_other)
      then show ?thesis using rec(2) [OF subset_refl, folded dk] b ge by simp
    qed
  qed
  ultimately show ?thesis using fl v' crash by blast
qed

end
