(* ===== verification/Journal_Commit.thy ===== *)
theory Journal_Commit
  imports Journal_Barrier
begin

text \<open>
  Transactions: the blocks they record, the wrap of the log, the entry of a commit, and the commit
  as one step of the invariant of the journal.
\<close>

text \<open>A full sync between batches writes only blocks the journal does not protect.\<close>

lemma X_writes:
  assumes c: "jcache X [] v s" and W: "fst ` set W \<subseteq> X"
  shows "apply_writes W D 0 = D 0" "\<And>b. b \<notin> X \<Longrightarrow> apply_writes W D b = D b"
    "\<And>p. p < agfs_log_len v \<Longrightarrow> apply_writes W D (agfs_log_block v p) = D (agfs_log_block v p)"
proof -
  have X: "\<And>b. b \<in> X \<Longrightarrow> meta v b" using c by (simp add: jcache_def)
  have "0 \<notin> X" using X meta_above by blast
  then show "apply_writes W D 0 = D 0" using W by (intro apply_writes_other) auto
  show "\<And>b. b \<notin> X \<Longrightarrow> apply_writes W D b = D b" using W by (intro apply_writes_other) auto
  show "apply_writes W D (agfs_log_block v p) = D (agfs_log_block v p)" if "p < agfs_log_len v" for p
    using W X meta_not_log [OF _ that] by (intro apply_writes_other) blast
qed

lemma sync_step:
  assumes c: "jcache X [] v s" and d: "jdisk D0 X dn es0 E [] v s" and vw: "jview D0 X txs v s" and j: "j \<le> length dn"
  shows "jcache X [] v (sync_buffers s)" "jdisk D0 X dn es0 E [] v (sync_buffers s)" "jview D0 X txs v (sync_buffers s)"
    "crash_step D0 X v (dn @ u) j s (sync_buffers s)"
proof -
  let ?W = "map (\<lambda>b. (b, view s b)) (st_list s)"
  have l: "set (st_list s) \<subseteq> dom (st_cache s)" and fl: "\<And>b. st_flag s b \<longleftrightarrow> b \<in> set (st_list s)" and r: "readable s"
    using c by (auto simp: jcache_def cache_ok_def)
  note sp = sync_buffers_spec [OF l] and vs = view_sync_buffers [OF l]
  have W: "fst ` set ?W \<subseteq> X" using c by (auto simp: jcache_def plog_def)
  note xw = X_writes [OF c W]
  have len: "v_log_end v \<le> agfs_log_len v" using c by (simp add: jcache_def)
  show "jcache X [] v (sync_buffers s)"
    using c sp fl r by (simp add: jcache_def cache_ok_def plog_def readable_def)
  show "jview D0 X txs v (sync_buffers s)" using vw by (simp add: jview_def vs)
  obtain ps where ps: "published v (st_disk s 0) (v_sb_seq v) ps (ps + log_size es0)" "holds v (st_disk s) ps es0"
    "ps + log_size es0 \<le> v_log_end v" using d by (auto simp: jdisk_def)
  have "holds v (st_disk (sync_buffers s)) ps es0"
    using ps(2) by (subst holds_cong [where G = "st_disk s"]) (use ps(3) len xw(3) sp(3) in auto)
  moreover have "apply_writes (concat es0) (st_disk (sync_buffers s)) b = apply_writes (concat es0) (st_disk s) b" if "b \<notin> X" for b
    using xw(2) [OF that] by (intro apply_writes_cong) (simp add: sp)
  moreover have "published v (st_disk (sync_buffers s) 0) (v_sb_seq v) ps (ps + log_size es0)"
    using ps(1) xw(1) sp(3) by simp
  ultimately show "jdisk D0 X dn es0 E [] v (sync_buffers s)"
    using d ps(3) xw(1,2) by (auto simp: jdisk_def vs sp(3))
  show "crash_step D0 X v (dn @ u) j s (sync_buffers s)"
    unfolding crash_step_def
  proof (intro exI [of _ ?W] conjI allI)
    show "st_trace (sync_buffers s) = st_trace s @ ?W" "st_disk (sync_buffers s) = apply_writes ?W (st_disk s)"
      by (simp_all add: sp)
    fix k
    have Wk: "fst ` set (take k ?W) \<subseteq> X" using W set_take_subset [of k ?W] by blast
    note xk = X_writes [OF c Wk]
    have "recovers_to D0 X v dn (apply_writes (take k ?W) (st_disk s))"
      by (rule unpublished_recovers [OF c d]) (use xk len in auto)
    then show "\<exists>i\<ge>j. recovers_to D0 X v (take i (dn @ u)) (apply_writes (take k ?W) (st_disk s))"
      using j by (intro exI [of _ "length dn"]) simp
  qed
qed

text \<open>
  The wrap publishes the empty log. It is safe when no block carries the contents of an open
  transaction on the device.
\<close>

lemma wrap_step:
  assumes c: "jcache X [] v s" and d: "jdisk D0 X dn es0 {} [] v s" and vw: "jview D0 X txs v s"
    and seq: "unat (v_sb_seq v) + 1 < 2 ^ 32" and j: "j \<le> length dn"
  shows "\<exists>v' s'. log_wrap n v s = (v', s') \<and> jcache X [] v' s' \<and> jdisk D0 X dn [] {} [] v' s' \<and> jview D0 X txs v' s'
     \<and> crash_step D0 X v (dn @ u) j s s' \<and> geo v = geo v' \<and> v_sb_seq v' = v_sb_seq v + 1 \<and> v_log_end v' = 0
     \<and> v_tx v' = v_tx v \<and> v_tx_depth v' = v_tx_depth v \<and> v_tx_poisoned v' = v_tx_poisoned v
     \<and> v_log_draining v' = v_log_draining v"
proof -
  define v1 where "v1 = (count_journaled v (n + 1))\<lparr>v_since_reset := 0, v_log_start := 0, v_log_end := 0\<rparr>"
  have v1: "geo v1 = geo v" "v_sb_seq v1 = v_sb_seq v" "v_log_start v1 = 0" "v_log_end v1 = 0"
    by (simp_all add: v1_def count_journaled_def geo_def)
  note ge = geo_eq [OF v1(1)] geo_eq_meta [OF v1(1)] published_geo [OF v1(1)]
  have r: "readable s" and l: "set (st_list s) \<subseteq> dom (st_cache s)" and fl: "\<And>b. st_flag s b \<longleftrightarrow> b \<in> set (st_list s)"
    and lX: "set (st_list s) \<subseteq> X" and geo: "geo_ok v" and X: "\<And>b. b \<in> X \<Longrightarrow> meta v b" and len: "v_log_end v \<le> agfs_log_len v"
    using c by (auto simp: jcache_def cache_ok_def plog_def)
  obtain ps where "published v (st_disk s 0) (v_sb_seq v) ps (ps + log_size es0)" "view s 0 = st_disk s 0"
    using d by (auto simp: jdisk_def)
  then have ps: "published v1 (view s 0) (v_sb_seq v1) ps (ps + log_size es0)" using v1 ge by simp
  obtain s1 data where ws: "agfs_log_write_super v1 s True = (set_dirty (v1\<lparr>v_sb_seq := v_sb_seq v1 + 1\<rparr>), sync_buffers s1, None)"
    and pub: "published v1 data (v_sb_seq v1 + 1) (v_log_start v1) (v_log_end v1)"
    and s1: "readable s1" "st_disk s1 = st_disk s" "st_trace s1 = st_trace s" "view s1 = (view s)(0 := data)"
      "set (st_list s1) = insert 0 (set (st_list s))" "set (st_list s1) \<subseteq> dom (st_cache s1)"
      "\<forall>b. st_flag s1 b \<longleftrightarrow> st_flag s b \<or> b = 0"
    using write_super_spec [OF r l ps, of True] geo ge(7) seq v1 by auto
  let ?W = "map (\<lambda>b. (b, view s1 b)) (st_list s1)"
  let ?v = "set_dirty (v1\<lparr>v_sb_seq := v_sb_seq v1 + 1\<rparr>)"
  note sp = sync_buffers_spec [OF s1(6)] and vs = view_sync_buffers [OF s1(6)]
  have gv: "geo v = geo ?v" using v1(1) by (simp add: set_dirty_def geo_def)
  note gev = geo_eq [OF gv] geo_eq_meta [OF gv] published_geo [OF gv]
  have X0: "0 \<notin> X" using X meta_above by blast
  have Wb: "apply_writes W' D b = D b" if "set W' \<subseteq> set ?W" "b \<notin> X" "b \<noteq> 0" for W' D b
    using that s1(5) lX by (intro apply_writes_other) auto
  have W0: "apply_writes W' D 0 = (if 0 \<in> fst ` set W' then data else D 0)" if "set W' \<subseteq> set ?W" for W' D
  proof (cases "0 \<in> fst ` set W'")
    case True
    then show ?thesis using that s1(4) by (simp, intro apply_writes_hit_const) auto
  qed (simp add: apply_writes_other)
  have log: "agfs_log_block v p \<notin> X" "agfs_log_block v p \<noteq> 0" if "p < agfs_log_len v" for p
    using that meta_not_log X log_above [OF geo, of p] by auto
  have pubd: "published v data (v_sb_seq v + 1) 0 0" using pub ge v1 by simp
  have crash: "crash_step D0 X v (dn @ u) j s (sync_buffers s1)"
    unfolding crash_step_def
  proof (intro exI [of _ ?W] conjI allI)
    show "st_trace (sync_buffers s1) = st_trace s @ ?W" "st_disk (sync_buffers s1) = apply_writes ?W (st_disk s)"
      by (simp_all add: sp s1(2,3))
    fix k
    let ?D = "apply_writes (take k ?W) (st_disk s)"
    have sub: "set (take k ?W) \<subseteq> set ?W" by (rule set_take_subset)
    have mt: "?D b = st_disk s b" if "meta v b" "b \<notin> X" for b
      using Wb [OF sub that(2)] meta_above [OF that(1)] by simp
    have "recovers_to D0 X v dn ?D"
    proof (cases "0 \<in> fst ` set (take k ?W)")
      case True
      then have "published v (?D 0) (v_sb_seq v + 1) 0 0" using pubd W0 [OF sub] by simp
      then have "recovered ?D = Some ?D"
        using recovered_replays [of v ?D "v_sb_seq v + 1" 0 0 "[]"] geo by simp
      then show ?thesis using mt d by (auto simp: recovers_to_def jdisk_def)
    next
      case False
      show ?thesis
        by (rule unpublished_recovers [OF c d]) (use W0 [OF sub] False mt Wb [OF sub] log len in auto)
    qed
    then show "\<exists>i\<ge>j. recovers_to D0 X v (take i (dn @ u)) ?D" using j by (intro exI [of _ "length dn"]) simp
  qed
  have disk0: "st_disk (sync_buffers s1) 0 = data" using W0 [OF subset_refl] s1(5) by (simp add: sp image_image)
  have "jcache X [] ?v (sync_buffers s1)"
    using c sp fl s1 v1 gev by (auto simp: jcache_def cache_ok_def plog_def readable_def set_dirty_def v1_def count_journaled_def)
  moreover have "jdisk D0 X dn [] {} [] ?v (sync_buffers s1)"
  proof -
    have "st_disk (sync_buffers s1) b = apply_writes (concat dn) D0 b" if "meta ?v b" "b \<notin> X" for b
    proof -
      have b: "meta v b" using that gev by simp
      have "st_disk (sync_buffers s1) b = st_disk s b"
        using Wb [OF subset_refl that(2)] meta_above [OF b] by (simp add: sp s1(2))
      then show ?thesis using d b that(2) by (simp add: jdisk_def)
    qed
    moreover have "published ?v (st_disk (sync_buffers s1) 0) (v_sb_seq ?v) 0 0"
      using pubd gev(11) disk0 v1(2) by (simp add: set_dirty_def)
    moreover have "view (sync_buffers s1) 0 = st_disk (sync_buffers s1) 0" using vs s1(4) disk0 by simp
    ultimately show ?thesis unfolding jdisk_def by (auto intro!: exI [of _ 0])
  qed
  moreover have "jview D0 X txs ?v (sync_buffers s1)"
    using vw vs s1(4) gev(8) by (auto simp: jview_def fun_upd_def)
  moreover have "log_wrap n v s = (?v, sync_buffers s1)" unfolding log_wrap_def v1_def [symmetric] Let_def ws by simp
  ultimately show ?thesis
    using crash gv v1 by (auto simp: set_dirty_def v1_def count_journaled_def)
qed

subsection \<open>Recording and committing a transaction\<close>

lemma apply_block_rmw: "apply_block = bc.rmw"
  by (intro ext) (simp add: apply_block_def bc.rmw_def)

lemma apply_block_ok:
  assumes "cache_ok s"
  shows "cache_ok (apply_block bd s)" "st_disk (apply_block bd s) = st_disk s" "st_trace (apply_block bd s) = st_trace s"
    "set (st_list (apply_block bd s)) = insert (fst bd) (set (st_list s))"
proof -
  have r: "readable s" using assms by (simp add: cache_ok_def)
  obtain s1 where s1: "bread s (fst bd) = Some (s1, view s (fst bd))" "readable s1" "st_disk s1 = st_disk s"
    "st_flag s1 = st_flag s" "st_list s1 = st_list s" "st_trace s1 = st_trace s" "st_cache s1 = (st_cache s)(fst bd \<mapsto> view s (fst bd))"
    using bread_readable [OF r, of "fst bd"] by blast
  have eq: "apply_block bd s = bwrite s1 (fst bd) (snd bd)" by (simp add: apply_block_def s1(1))
  show "cache_ok (apply_block bd s)" using assms s1 by (auto simp: eq cache_ok_def)
  show "st_disk (apply_block bd s) = st_disk s" "st_trace (apply_block bd s) = st_trace s"
    "set (st_list (apply_block bd s)) = insert (fst bd) (set (st_list s))"
    using s1 by (auto simp: eq)
qed

lemma fold_apply_block:
  assumes "cache_ok s"
  shows "cache_ok (fold apply_block bds s) \<and> st_disk (fold apply_block bds s) = st_disk s
     \<and> st_trace (fold apply_block bds s) = st_trace s
     \<and> set (st_list (fold apply_block bds s)) = set (st_list s) \<union> fst ` set bds
     \<and> view (fold apply_block bds s) = apply_writes bds (view s)"
proof -
  have "view (fold apply_block bds s) = apply_writes bds (view s)"
    using bc.fold_rmw_vw [of s bds] assms by (simp add: apply_block_rmw apply_writes_def cache_ok_def)
  moreover have "cache_ok (fold apply_block bds s) \<and> st_disk (fold apply_block bds s) = st_disk s
     \<and> st_trace (fold apply_block bds s) = st_trace s
     \<and> set (st_list (fold apply_block bds s)) = set (st_list s) \<union> fst ` set bds"
    using assms
  proof (induction bds arbitrary: s)
    case (Cons bd bds)
    show ?case using Cons.IH [OF apply_block_ok(1) [OF Cons.prems, of bd]] apply_block_ok [OF Cons.prems, of bd] by simp
  qed simp
  ultimately show ?thesis by blast
qed

lemma write_log_blocks_fold: "cache_ok s \<Longrightarrow> write_log_blocks bds s = (fold apply_block bds s, None)"
proof (induction bds arbitrary: s)
  case (Cons bd bds)
  obtain b d where bd: "bd = (b, d)" by fastforce
  have "readable s" using Cons.prems by (simp add: cache_ok_def)
  then obtain s1 where "bread s b = Some (s1, view s b)" using bread_readable [of s b] by blast
  then have "write_log_blocks (bd # bds) s = write_log_blocks bds (apply_block bd s)" by (simp add: bd apply_block_def)
  then show ?case using Cons.IH [OF apply_block_ok(1) [OF Cons.prems, of bd]] by simp
qed simp

lemma apply_writes_keys:
  "distinct (map fst W) \<Longrightarrow> (b, d) \<in> set W \<Longrightarrow> apply_writes W D b = d"
  by (rule apply_writes_hit_const) (force, auto dest: eq_key_imp_eq_value)

lemma log_entry_keys: "map fst (log_entry v pos t) = map (agfs_log_block v) [pos..<pos + length t + 1]"
  by (simp add: log_entry_def del: upt_Suc)

lemma log_entry_blocks:
  "fst ` set (log_entry v pos t) = agfs_log_block v ` {pos..<pos + length t + 1}"
proof -
  have "fst ` set (log_entry v pos t) = set (map fst (log_entry v pos t))" by simp
  then show ?thesis unfolding log_entry_keys by (simp del: upt_Suc)
qed

lemma log_entry_holds: "holds v (apply_writes (log_entry v pos t) F) pos [t]"
proof -
  have di: "distinct (map fst (log_entry v pos t))"
    unfolding log_entry_keys by (simp add: distinct_map inj_on_def del: upt_Suc)
  have mem: "(agfs_log_block v (pos + i), (run_array v (map fst t) # map snd t) ! i) \<in> set (log_entry v pos t)"
    if "i \<le> length t" for i
    unfolding log_entry_def in_set_zip using that
    by (intro exI [of _ i]) (simp add: nth_append del: upt_Suc)
  have "apply_writes (log_entry v pos t) F (agfs_log_block v (pos + i)) = (run_array v (map fst t) # map snd t) ! i"
    if "i \<le> length t" for i
    using apply_writes_keys [OF di mem [OF that]] .
  note at = this
  show ?thesis using at [of 0] at [of "Suc _"] by simp
qed

text \<open>One entry goes into the cache: the device does not change.\<close>

definition entry_vol :: "agfs_vol \<Rightarrow> tx \<Rightarrow> agfs_vol" where
  "entry_vol v t =
     (if v_log_pending v then v else v\<lparr>v_log_start := v_log_end v, v_log_pending := True\<rparr>)
       \<lparr>v_log_end := v_log_end v + length t + 1, v_pend_blocks := v_pend_blocks v + length t + 1\<rparr>"

definition entry_store :: "agfs_vol \<Rightarrow> tx \<Rightarrow> blk_store \<Rightarrow> blk_store" where
  "entry_store v t s = fold apply_block t (fold apply_block (log_entry v (v_log_end v) t) s)"

lemma entry_step:
  assumes c: "jcache X es v s" and d: "jdisk D0 X dn es0 E es v s" and vw: "jview D0 X (dn @ es @ [t]) v s"
    and t: "tx_ok v t" "fst ` set t \<inter> X = {}" and fits: "v_log_end v + length t + 1 \<le> agfs_log_len v"
  shows "jcache X (es @ [t]) (entry_vol v t) (entry_store v t s)"
    "jdisk D0 X dn es0 E (es @ [t]) (entry_vol v t) (entry_store v t s)"
    "jview D0 X (dn @ es @ [t]) (entry_vol v t) (entry_store v t s)"
    "st_disk (entry_store v t s) = st_disk s" "st_trace (entry_store v t s) = st_trace s"
proof -
  let ?le = "log_entry v (v_log_end v) t"
  let ?s1 = "fold apply_block ?le s"
  let ?s = "entry_store v t s"
  let ?v = "entry_vol v t"
  have co: "cache_ok s" and geo: "geo_ok v" and pend: "v_log_pending v \<longleftrightarrow> es \<noteq> []" and pb: "v_pend_blocks v = log_size es"
    and en: "es \<noteq> [] \<Longrightarrow> v_log_end v = v_log_start v + log_size es" and h: "holds v (view s) (v_log_start v) es"
    and lst: "tgts es \<union> plog v es \<subseteq> set (st_list s)" "set (st_list s) \<subseteq> tgts es \<union> plog v es \<union> X"
    and txs: "\<forall>tx\<in>set es. tx_ok v tx \<and> fst ` set tx \<inter> X = {}" and Xm: "\<forall>b\<in>X. meta v b"
    using c by (auto simp: jcache_def)
  note f1 = fold_apply_block [OF co, of ?le]
  have s: "cache_ok ?s" "st_disk ?s = st_disk s" "st_trace ?s = st_trace s"
    "set (st_list ?s) = set (st_list s) \<union> fst ` set ?le \<union> fst ` set t"
    "view ?s = apply_writes t (apply_writes ?le (view s))"
    using f1 fold_apply_block [of ?s1 t] by (simp_all add: entry_store_def)
  show "st_disk ?s = st_disk s" "st_trace ?s = st_trace s" by fact+
  have gv: "geo v = geo ?v" by (simp add: entry_vol_def geo_def)
  note ge = geo_eq [OF gv, symmetric] geo_eq_meta [OF gv, symmetric]
  have v: "v_log_pending ?v" "v_pend_blocks ?v = v_pend_blocks v + length t + 1" "v_log_end ?v = v_log_end v + length t + 1"
    "v_log_start ?v = (if es = [] then v_log_end v else v_log_start v)" "v_sb_seq ?v = v_sb_seq v"
    using pend by (auto simp: entry_vol_def)
  have st: "v_log_start ?v + log_size es = v_log_end v" using v(4) en by auto
  have pl: "plog ?v (es @ [t]) = (if es = [] then {} else plog v es) \<union> fst ` set ?le"
  proof -
    have "{v_log_start ?v..<v_log_start ?v + log_size (es @ [t])}
        = {v_log_start ?v..<v_log_start ?v + log_size es} \<union> {v_log_end v..<v_log_end v + length t + 1}"
      using st by auto
    then show ?thesis unfolding plog_def log_entry_blocks ge(1) using v(4) by (auto simp: image_Un)
  qed
  have notlog: "agfs_log_block v p \<notin> fst ` set t" if "p < agfs_log_len v" for p
    using t(1) meta_not_log [OF _ that] by (auto simp: tx_ok_def)
  have notle: "b \<notin> fst ` set ?le" if "meta v b" for b
  proof
    assume "b \<in> fst ` set ?le"
    then obtain p where "b = agfs_log_block v p" "p < agfs_log_len v" using fits unfolding log_entry_blocks by auto
    then show False using that in_log_block [of p v] by (simp add: meta_def)
  qed
  have vlog: "view ?s (agfs_log_block v p) = apply_writes ?le (view s) (agfs_log_block v p)" if "p < agfs_log_len v" for p
    unfolding s(5) using notlog [OF that] by (rule apply_writes_other)
  have "holds v (view ?s) (v_log_start ?v) es"
  proof -
    have "view ?s (agfs_log_block v p) = view s (agfs_log_block v p)" if "p < v_log_end v" for p
    proof -
      have "agfs_log_block v p \<notin> fst ` set ?le" unfolding log_entry_blocks using that by auto
      then show ?thesis using vlog [of p] that fits by (simp add: apply_writes_other)
    qed
    then have "holds v (view ?s) (v_log_start ?v) es = holds v (view s) (v_log_start ?v) es"
      by (intro holds_cong) (use st in auto)
    then show ?thesis using h v(4) by (cases "es = []") auto
  qed
  moreover have "holds v (view ?s) (v_log_end v) [t]"
  proof -
    have "holds v (view ?s) (v_log_end v) [t] = holds v (apply_writes ?le (view s)) (v_log_end v) [t]"
      by (rule holds_cong) (use vlog fits in auto)
    then show ?thesis using log_entry_holds by blast
  qed
  ultimately have "holds v (view ?s) (v_log_start ?v) (es @ [t])" using st by (simp only: holds_append)
  moreover have "set (st_list ?s) \<subseteq> tgts (es @ [t]) \<union> plog ?v (es @ [t]) \<union> X"
    using lst(2) pl s(4) by (auto simp: plog_def)
  moreover have "tgts (es @ [t]) \<union> plog ?v (es @ [t]) \<subseteq> set (st_list ?s)"
  proof -
    have tg: "tgts (es @ [t]) = tgts es \<union> fst ` set t" by (simp add: image_Un)
    have "plog ?v (es @ [t]) \<subseteq> plog v es \<union> fst ` set ?le" unfolding pl by (simp split: if_split)
    moreover have "tgts es \<subseteq> set (st_list s)" "plog v es \<subseteq> set (st_list s)" using lst(1) by (blast, blast)
    ultimately show ?thesis unfolding tg s(4) by (meson Un_least Un_upper1 Un_upper2 le_supI1 order_trans)
  qed
  ultimately show "jcache X (es @ [t]) ?v ?s"
    using s(1) geo txs t Xm pb st v fits unfolding jcache_def ge by simp
  have v0: "view ?s 0 = view s 0"
  proof -
    have "0 \<notin> fst ` set t" using t(1) by (auto simp: tx_ok_def)
    moreover have "0 \<notin> fst ` set ?le"
      unfolding log_entry_blocks using log_above [OF geo] by (metis imageE less_zeroE)
    ultimately show ?thesis by (simp add: s(5) apply_writes_other)
  qed
  show "jdisk D0 X dn es0 E (es @ [t]) ?v ?s"
    using d v0 s(2) v(4,5) published_geo [OF gv] unfolding jdisk_def ge by (auto split: if_splits)
  show "jview D0 X (dn @ es @ [t]) ?v ?s"
    unfolding jview_def ge
  proof (intro allI impI)
    fix b assume b: "meta v b \<and> b \<notin> X"
    have "view ?s b = apply_writes t (apply_writes ?le (view s)) b" by (simp add: s(5))
    also have "\<dots> = apply_writes t (apply_writes (concat (dn @ es @ [t])) D0) b"
      using vw b notle by (intro apply_writes_cong) (simp add: jview_def apply_writes_other)
    also have "\<dots> = apply_writes (concat (dn @ es @ [t])) D0 b"
      using apply_writes_hit [of b t "apply_writes (concat (dn @ es @ [t])) D0" "apply_writes (concat (dn @ es)) D0"]
      by (cases "b \<in> fst ` set t") (simp_all add: apply_writes_other)
    finally show "view ?s b = apply_writes (concat (dn @ es @ [t])) D0 b" .
  qed
qed

text \<open>The recorded transaction: a block written twice is recorded once, with its last content.\<close>

definition tx_add :: "tx \<Rightarrow> nat \<times> byte list \<Rightarrow> tx" where
  "tx_add t bd = (if fst bd \<in> fst ` set t then tx_update t (fst bd) (snd bd) else t @ [bd])"

definition tx_of :: "tx \<Rightarrow> tx" where
  "tx_of w = foldl tx_add [] w"

lemma apply_writes_upd: "b \<notin> fst ` set W \<Longrightarrow> apply_writes W (D(b := d)) = (apply_writes W D)(b := d)"
proof
  fix c assume b: "b \<notin> fst ` set W"
  show "apply_writes W (D(b := d)) c = ((apply_writes W D)(b := d)) c"
    using apply_writes_other [OF b] apply_writes_cong [of "D(b := d)" c D W] by (cases "c = b") simp_all
qed

lemma map_fst_tx_update [simp]: "map fst (tx_update t b d) = map fst t"
  by (induction t b d rule: tx_update.induct) auto

lemma apply_tx_update:
  "distinct (map fst t) \<Longrightarrow> b \<in> fst ` set t \<Longrightarrow> apply_writes (tx_update t b d) D = apply_writes (t @ [(b, d)]) D"
proof (induction t b d arbitrary: D rule: tx_update.induct)
  case (2 c e t b d)
  show ?case
  proof (cases "c = b")
    case True
    then show ?thesis using 2(2) by (simp add: apply_writes_upd)
  next
    case False
    then show ?thesis using 2 by simp
  qed
qed simp

lemma tx_add_ok:
  assumes "distinct (map fst t)"
  shows "distinct (map fst (tx_add t bd))" "apply_writes (tx_add t bd) D = apply_writes (t @ [bd]) D"
    "fst ` set (tx_add t bd) = insert (fst bd) (fst ` set t)"
proof -
  have "fst ` set (tx_update t b d) = fst ` set t" for b d
    using map_fst_tx_update [of t b d] by (metis list.set_map)
  then show "fst ` set (tx_add t bd) = insert (fst bd) (fst ` set t)" by (auto simp: tx_add_def)
  show "distinct (map fst (tx_add t bd))" using assms by (auto simp: tx_add_def)
  show "apply_writes (tx_add t bd) D = apply_writes (t @ [bd]) D"
    using apply_tx_update [OF assms, of "fst bd" "snd bd"] by (auto simp: tx_add_def)
qed

lemma foldl_tx_add:
  assumes "distinct (map fst t)"
  shows "distinct (map fst (foldl tx_add t w)) \<and> apply_writes (foldl tx_add t w) D = apply_writes (t @ w) D
     \<and> fst ` set (foldl tx_add t w) = fst ` set t \<union> fst ` set w"
  using assms
proof (induction w arbitrary: t)
  case (Cons bd w)
  note a = tx_add_ok [OF Cons.prems, of bd]
  show ?case using Cons.IH [OF a(1)] a(2) [of D] a(3) by (auto simp: apply_writes_Cons)
qed simp

lemma tx_of_ok:
  "distinct (map fst (tx_of w))" "apply_writes (tx_of w) D = apply_writes w D" "fst ` set (tx_of w) = fst ` set w"
  "length (tx_of w) = card (fst ` set w)"
proof -
  show a: "distinct (map fst (tx_of w))" "apply_writes (tx_of w) D = apply_writes w D" "fst ` set (tx_of w) = fst ` set w"
    using foldl_tx_add [of "[]" w D] by (simp_all add: tx_of_def)
  show "length (tx_of w) = card (fst ` set w)" using distinct_card [OF a(1)] a(3) by simp
qed

lemma apply_concat_tx_of: "apply_writes (concat (map tx_of ws)) D = apply_writes (concat ws) D"
  by (induction ws arbitrary: D) (simp_all add: tx_of_ok)

subsection \<open>Whole transactions\<close>

text \<open>The calls of a file system operation: the metadata writes of one transaction.\<close>

fun run_writes :: "(nat \<Rightarrow> bool) \<Rightarrow> agfs_vol \<Rightarrow> blk_store \<Rightarrow> mem \<Rightarrow> tx \<Rightarrow> agfs_vol \<times> blk_store \<times> mem" where
  "run_writes locked v s m [] = (v, s, m)"
| "run_writes locked v s m ((b, d) # w) =
     (case agfs_log_write_block locked v s m b d of (v1, s1, m1) \<Rightarrow> run_writes locked v1 s1 m1 w)"

definition run_tx :: "discard_dev \<Rightarrow> (nat \<Rightarrow> bool) \<Rightarrow> agfs_vol \<Rightarrow> blk_store \<Rightarrow> tx \<Rightarrow> agfs_vol \<times> blk_store \<times> status" where
  "run_tx dev locked v s w =
     (case run_writes locked (agfs_log_begin v) s [] w of (v1, s1, _) \<Rightarrow> agfs_log_commit dev v1 s1)"

abbreviation rel_all :: "tx \<Rightarrow> blk_store \<Rightarrow> blk_store" where
  "rel_all w s \<equiv> fold (\<lambda>(b, d) s. brelse s b d) w s"

lemma run_writes_records:
  assumes "v_tx_depth v > 0" "\<not> v_tx_poisoned v" "\<not> v_log_draining v" "distinct (map fst (v_tx v))"
    and "card (fst ` set (v_tx v) \<union> fst ` set w) \<le> AGFS_LOG_MAX_BLOCKS"
  shows "run_writes locked v s [] w = (v\<lparr>v_tx := foldl tx_add (v_tx v) w\<rparr>, rel_all w s, [])"
  using assms
proof (induction w arbitrary: v s)
  case (Cons bd w)
  obtain b d where bd: "bd = (b, d)" by fastforce
  have fits: "length (v_tx v) < AGFS_LOG_MAX_BLOCKS" if "b \<notin> fst ` set (v_tx v)"
  proof -
    have "Suc (card (fst ` set (v_tx v))) = card (insert b (fst ` set (v_tx v)))" using that by simp
    also have "\<dots> \<le> card (fst ` set (v_tx v) \<union> fst ` set (bd # w))" by (rule card_mono) (auto simp: bd)
    finally show ?thesis using Cons.prems(5) distinct_card [OF Cons.prems(4)] by simp
  qed
  let ?v = "v\<lparr>v_tx := tx_add (v_tx v) bd\<rparr>"
  have "agfs_log_record v [] b d = (?v, [], None)"
    using fits Cons.prems(1)
    by (cases "b \<in> fst ` set (v_tx v)") (simp_all add: agfs_log_record_def tx_add_def bd kmalloc_ok_def kmalloc_rest_def)
  then have "run_writes locked v s [] (bd # w) = run_writes locked ?v (brelse s b d) [] w"
    using Cons.prems(1-3) by (simp add: bd agfs_log_write_block_def)
  also have "\<dots> = (?v\<lparr>v_tx := foldl tx_add (v_tx ?v) w\<rparr>, rel_all w (brelse s b d), [])"
  proof (rule Cons.IH)
    show "card (fst ` set (v_tx ?v) \<union> fst ` set w) \<le> AGFS_LOG_MAX_BLOCKS"
      using Cons.prems(5) tx_add_ok(3) [OF Cons.prems(4), of bd] by simp
  qed (use Cons.prems tx_add_ok(1) in auto)
  finally show ?case by (simp add: bd)
qed simp

lemma rel_all_ok:
  "cache_ok s \<Longrightarrow> cache_ok (rel_all w s) \<and> view (rel_all w s) = apply_writes w (view s) \<and> st_disk (rel_all w s) = st_disk s
     \<and> st_trace (rel_all w s) = st_trace s \<and> st_list (rel_all w s) = st_list s"
proof (induction w arbitrary: s)
  case (Cons bd w)
  obtain b d where bd: "bd = (b, d)" by fastforce
  have co: "cache_ok (brelse s b d)" and l: "st_list (brelse s b d) = st_list s"
    using Cons.prems by (auto simp: cache_ok_def readable_def)
  show ?case using Cons.IH [OF co] unfolding bd fold_simps prod.case apply_writes_simps view_brelse brelse_fields(1,3) l .
qed simp

text \<open>The blocks a transaction records are visible in the cache before it commits, and not dirty because of it.\<close>

lemma record_step:
  assumes c: "jcache X es v s" and d: "jdisk D0 X dn es0 E es v s" and vw: "jview D0 X (dn @ es) v s"
    and w: "\<forall>b\<in>fst ` set w. meta v b" and t: "apply_writes w = apply_writes t"
    and v': "same_log (v\<lparr>v_tx := v_tx v', v_tx_depth := v_tx_depth v'\<rparr>) v'" "v_log_pending v' = v_log_pending v"
      "v_pend_blocks v' = v_pend_blocks v" "v_sb_seq v' = v_sb_seq v"
  shows "jcache X es v' (rel_all w s)" "jdisk D0 X dn es0 E es v' (rel_all w s)" "jview D0 X (dn @ es @ [t]) v' (rel_all w s)"
    "st_disk (rel_all w s) = st_disk s" "st_trace (rel_all w s) = st_trace s"
proof -
  have co: "cache_ok s" and geo: "geo_ok v" using c by (auto simp: jcache_def)
  note r = rel_all_ok [OF co, of w]
  show "st_disk (rel_all w s) = st_disk s" "st_trace (rel_all w s) = st_trace s" using r by auto
  have gv: "geo v = geo v'" using v'(1) by (simp add: same_log_def geo_def)
  note ge = geo_eq [OF gv, symmetric] geo_eq_meta [OF gv, symmetric] published_geo [OF gv, symmetric]
  have lp: "v_log_start v' = v_log_start v" "v_log_end v' = v_log_end v" using v'(1) by (simp_all add: same_log_def)
  have en: "v_log_start v + log_size es \<le> agfs_log_len v" if "es \<noteq> []" using c that by (auto simp: jcache_def)
  have "view (rel_all w s) (agfs_log_block v p) = view s (agfs_log_block v p)" if "p < agfs_log_len v" for p
  proof -
    have "agfs_log_block v p \<notin> fst ` set w" using w meta_not_log [OF _ that] by blast
    then show ?thesis using r by (simp add: apply_writes_other)
  qed
  then have h: "holds v (view (rel_all w s)) (v_log_start v) es = holds v (view s) (v_log_start v) es"
    by (intro holds_cong) (use en in \<open>cases "es = []"; auto\<close>)
  show "jcache X es v' (rel_all w s)"
    using c r lp h v'(2-4) unfolding jcache_def ge plog_def by auto
  have "0 \<notin> fst ` set w" using w not_meta_0 by blast
  then have "view (rel_all w s) 0 = view s 0" using r by (simp add: apply_writes_other)
  then show "jdisk D0 X dn es0 E es v' (rel_all w s)"
    using d r lp v'(4) unfolding jdisk_def ge by auto
  show "jview D0 X (dn @ es @ [t]) v' (rel_all w s)"
    unfolding jview_def ge
  proof (intro allI impI)
    fix b assume b: "meta v b \<and> b \<notin> X"
    have "view (rel_all w s) b = apply_writes t (view s) b" using r t by simp
    also have "\<dots> = apply_writes t (apply_writes (concat (dn @ es)) D0) b"
      using vw b by (intro apply_writes_cong) (simp add: jview_def)
    finally show "view (rel_all w s) b = apply_writes (concat (dn @ es @ [t])) D0 b" by simp
  qed
qed

lemma crash_step_geo: "geo v = geo v' \<Longrightarrow> crash_step D0 X v = crash_step D0 X v'"
  by (simp add: fun_eq_iff crash_step_def recovers_to_def geo_eq_meta(1) [of v v'])

lemma crash_step_refl:
  assumes "jcache X es v s" "jdisk D0 X dn es0 E es v s" "j \<le> length dn" "st_disk s' = st_disk s" "st_trace s' = st_trace s"
  shows "crash_step D0 X v (dn @ u) j s s'"
  unfolding crash_step_def
proof (intro exI [of _ "[]"] conjI allI)
  fix k
  have "recovers_to D0 X v dn (st_disk s)" by (rule unpublished_recovers [OF assms(1,2)]) simp_all
  then show "\<exists>i\<ge>j. recovers_to D0 X v (take i (dn @ u)) (apply_writes (take k []) (st_disk s))"
    using assms(3) by (intro exI [of _ "length dn"]) simp
qed (use assms in simp_all)

text \<open>Keeping what a transaction needs of the volume.\<close>

definition same_tx :: "agfs_vol \<Rightarrow> agfs_vol \<Rightarrow> bool" where
  "same_tx v w \<longleftrightarrow> geo v = geo w \<and> v_tx w = v_tx v \<and> v_tx_depth w = v_tx_depth v \<and> v_tx_poisoned w = v_tx_poisoned v
     \<and> v_log_draining w = v_log_draining v"

lemma unat_seq_Suc: "unat (q :: u64) + 1 < 2 ^ 32 \<Longrightarrow> unat (q + 1) = unat q + 1"
  by (simp add: unat_plus_if')

text \<open>Room for an entry: the log is not full, or it wraps after the pending batch is durable.\<close>

lemma make_room_step:
  assumes c: "jcache X es v s" and d: "jdisk D0 X dn es0 E es v s" and vw: "jview D0 X (dn @ es @ [t]) v s"
    and E: "E \<subseteq> tgts es" and seq: "unat (v_sb_seq v) + 2 < 2 ^ 32" and j: "j \<le> length dn"
    and n: "n + 1 \<le> agfs_log_len v"
    and wrap: "v_log_end v + n + 1 \<le> agfs_log_len v \<or> tgts es \<inter> fst ` set t = {}"
  shows "\<exists>v' s' dn' es' es0' E'. make_room dev n v s = (v', s') \<and> dn' @ es' = dn @ es \<and> length dn \<le> length dn'
     \<and> jcache X es' v' s' \<and> jdisk D0 X dn' es0' E' es' v' s' \<and> E' \<subseteq> tgts es' \<and> jview D0 X (dn @ es @ [t]) v' s'
     \<and> v_log_end v' + n + 1 \<le> agfs_log_len v' \<and> same_tx v v' \<and> crash_step D0 X v (dn @ es @ u) j s s'
     \<and> unat (v_sb_seq v') + (if es' = [] then 0 else 2) \<le> unat (v_sb_seq v) + 2"
proof (cases "v_log_end v + n + 1 \<le> agfs_log_len v")
  case True
  then have "make_room dev n v s = (v, s)" by (subst make_room.simps) simp
  then show ?thesis
    using True c d vw E crash_step_refl [OF c d j refl refl, of "es @ u"]
    by (intro exI [of _ v] exI [of _ s] exI [of _ dn] exI [of _ es] exI [of _ es0] exI [of _ E]) (auto simp: same_tx_def)
next
  case full: False
  show ?thesis
  proof (cases "es = []")
    case True
    then have np: "\<not> v_log_pending v" and E0: "E = {}" using c E by (auto simp: jcache_def)
    have c1: "jcache X [] v s" and d1: "jdisk D0 X dn es0 {} [] v s" using c d True E0 by auto
    have sq: "unat (v_sb_seq v) + 1 < 2 ^ 32" using seq by simp
    obtain v2 s2 where wr: "log_wrap n v s = (v2, s2)" and c2: "jcache X [] v2 s2" and d2: "jdisk D0 X dn [] {} [] v2 s2"
      and vw2: "jview D0 X (dn @ es @ [t]) v2 s2" and cr2: "crash_step D0 X v (dn @ u) j s s2"
      and v2: "geo v = geo v2" "v_sb_seq v2 = v_sb_seq v + 1" "v_log_end v2 = 0" "v_tx v2 = v_tx v" "v_tx_depth v2 = v_tx_depth v"
        "v_tx_poisoned v2 = v_tx_poisoned v" "v_log_draining v2 = v_log_draining v"
      using wrap_step [OF c1 d1 vw sq j, of n u] by blast
    have "make_room dev n v s = (v2, s2)" using full np wr by (subst make_room.simps) simp
    moreover have "same_tx v v2" using v2 by (simp add: same_tx_def)
    moreover have "v_log_end v2 + n + 1 \<le> agfs_log_len v2" using n v2 geo_eq(2) [OF v2(1)] by simp
    moreover have "unat (v_sb_seq v2) \<le> unat (v_sb_seq v) + 2" using v2(2) unat_seq_Suc [OF sq] by simp
    ultimately show ?thesis
      using c2 d2 vw2 cr2 True
      by (intro exI [of _ v2] exI [of _ s2] exI [of _ dn] exI [of _ "[]"] exI [of _ "[]"] exI [of _ "{}"]) simp
  next
    case False
    obtain v1 s1 where fl: "agfs_log_flush_locked dev v s = (v1, s1)" and c1: "jcache X [] v1 s1"
      and d1: "jdisk D0 X (dn @ es) es (tgts es \<inter> fst ` set t) [] v1 s1" and vw1: "jview D0 X (dn @ es @ [t]) v1 s1"
      and same: "same_log v v1" "v_sb_seq v1 = v_sb_seq v + 1" and cr1: "crash_step D0 X v (dn @ es @ u) j s s1"
      using flush_step [OF c d vw E False, of j dev u] seq j by auto
    have p: "v_log_pending v" using c False by (simp add: jcache_def)
    have "tgts es \<inter> fst ` set t = {}" using wrap full by simp
    then have d1': "jdisk D0 X (dn @ es) es {} [] v1 s1" using d1 by simp
    have np: "\<not> v_log_pending v1" using c1 by (simp add: jcache_def)
    have g1: "geo v = geo v1" using same by (simp add: same_log_def)
    have full1: "\<not> v_log_end v1 + n + 1 \<le> agfs_log_len v1" using full same g1 geo_eq(2) [OF g1] by (simp add: same_log_def)
    have s1: "unat (v_sb_seq v1) = unat (v_sb_seq v) + 1" using same(2) seq unat_seq_Suc [of "v_sb_seq v"] by simp
    then have sq: "unat (v_sb_seq v1) + 1 < 2 ^ 32" using seq by simp
    have j1: "j \<le> length (dn @ es)" using j by simp
    obtain v2 s2 where wr: "log_wrap n v1 s1 = (v2, s2)" and c2: "jcache X [] v2 s2" and d2: "jdisk D0 X (dn @ es) [] {} [] v2 s2"
      and vw2: "jview D0 X (dn @ es @ [t]) v2 s2" and cr2: "crash_step D0 X v1 ((dn @ es) @ u) j s1 s2"
      and v2: "geo v1 = geo v2" "v_sb_seq v2 = v_sb_seq v1 + 1" "v_log_end v2 = 0" "v_tx v2 = v_tx v1" "v_tx_depth v2 = v_tx_depth v1"
        "v_tx_poisoned v2 = v_tx_poisoned v1" "v_log_draining v2 = v_log_draining v1"
      using wrap_step [OF c1 d1' vw1 sq j1, of n u] by blast
    have "make_room dev n v s = (v2, s2)"
      using full full1 p np fl wr by (subst make_room.simps, simp, subst make_room.simps, simp)
    moreover have "crash_step D0 X v (dn @ es @ u) j s s2"
      using crash_step_trans [OF cr1] cr2 crash_step_geo [OF g1] by simp
    moreover have "same_tx v v2" using same(1) v2 by (simp add: same_tx_def same_log_def)
    moreover have "v_log_end v2 + n + 1 \<le> agfs_log_len v2" using n v2 geo_eq(2) [OF g1] geo_eq(2) [OF v2(1)] by simp
    moreover have "unat (v_sb_seq v2) = unat (v_sb_seq v) + 2" using s1 v2(2) sq unat_seq_Suc [of "v_sb_seq v1"] by simp
    ultimately show ?thesis
      using c2 d2 vw2
      by (intro exI [of _ v2] exI [of _ s2] exI [of _ "dn @ es"] exI [of _ "[]"] exI [of _ "[]"] exI [of _ "{}"]) simp
  qed
qed

lemma entry_vol_geo: "geo (entry_vol v t) = geo v"
  by (simp add: entry_vol_def geo_def)

lemma commit_entry_eq:
  assumes "cache_ok s"
  shows "commit_entry dev v s =
     (case (if v_pend_blocks (entry_vol v (v_tx v)) \<ge> AGFS_LOG_BATCH_BLOCKS
            then agfs_log_flush_locked dev (entry_vol v (v_tx v)) (entry_store v (v_tx v) s)
            else (entry_vol v (v_tx v), entry_store v (v_tx v) s)) of
        (v3, s3) \<Rightarrow> (agfs_log_free_tx v3, s3, None))"
proof -
  define v1 where "v1 = (if v_log_pending v then v else v\<lparr>v_log_start := v_log_end v, v_log_pending := True\<rparr>)"
  have g: "geo v1 = geo v" by (simp add: v1_def geo_def)
  have le: "log_entry v1 pos t = log_entry v pos t" for pos t
    by (simp only: log_entry_def geo_eq(1) [OF g] geo_eq(6) [OF g])
  have tx: "v_tx v1 = v_tx v" by (simp add: v1_def)
  have ev: "v1\<lparr>v_log_end := v_log_end v + length (v_tx v) + 1, v_pend_blocks := v_pend_blocks v1 + length (v_tx v) + 1\<rparr> = entry_vol v (v_tx v)"
    by (simp add: v1_def entry_vol_def)
  show ?thesis
    unfolding commit_entry_def Let_def v1_def [symmetric] le tx write_log_blocks_fold [OF assms] prod.case option.case ev
      entry_store_def [symmetric] by simp
qed

text \<open>The state between two operations of the journal.\<close>

definition jstate :: "(nat \<Rightarrow> byte list) \<Rightarrow> nat set \<Rightarrow> tx list \<Rightarrow> nat \<Rightarrow> agfs_vol \<Rightarrow> blk_store \<Rightarrow> bool" where
  "jstate D0 X txs j v s \<longleftrightarrow>
     (\<exists>dn es es0 E. txs = dn @ es \<and> j \<le> length dn \<and> jcache X es v s \<and> jdisk D0 X dn es0 E es v s \<and> E \<subseteq> tgts es
        \<and> jview D0 X (dn @ es) v s)
     \<and> v_tx_depth v = 0 \<and> \<not> v_tx_poisoned v \<and> \<not> v_log_draining v"

lemma jstateI:
  "txs = dn @ es \<Longrightarrow> j \<le> length dn \<Longrightarrow> jcache X es v s \<Longrightarrow> jdisk D0 X dn es0 E es v s \<Longrightarrow> E \<subseteq> tgts es
   \<Longrightarrow> jview D0 X (dn @ es) v s \<Longrightarrow> v_tx_depth v = 0 \<Longrightarrow> \<not> v_tx_poisoned v \<Longrightarrow> \<not> v_log_draining v \<Longrightarrow> jstate D0 X txs j v s"
  by (auto simp: jstate_def)

lemma jstate_le: "jstate D0 X txs j v s \<Longrightarrow> j \<le> length txs"
  by (auto simp: jstate_def)

lemma jstate_mono: "jstate D0 X txs k v s \<Longrightarrow> j \<le> k \<Longrightarrow> jstate D0 X txs j v s"
proof -
  assume st: "jstate D0 X txs k v s" and jk: "j \<le> k"
  then obtain dn es es0 E where o: "txs = dn @ es" "k \<le> length dn" "jcache X es v s" "jdisk D0 X dn es0 E es v s"
    "jview D0 X txs v s" "E \<subseteq> tgts es" and v: "v_tx_depth v = 0" "\<not> v_tx_poisoned v" "\<not> v_log_draining v"
    by (auto simp: jstate_def)
  show ?thesis by (rule jstateI [where dn = dn and es = es and es0 = es0 and E = E]) (use o v jk in simp_all)
qed

lemma jinv_cong:
  assumes g: "geo v = geo w" and f: "v_log_start v = v_log_start w" "v_log_end v = v_log_end w"
    "v_log_pending v = v_log_pending w" "v_pend_blocks v = v_pend_blocks w" "v_sb_seq v = v_sb_seq w"
  shows "jcache X es v s = jcache X es w s" "jdisk D0 X dn es0 E es v s = jdisk D0 X dn es0 E es w s"
    "jview D0 X txs v s = jview D0 X txs w s"
  by (simp_all only: jcache_def jdisk_def jview_def plog_def geo_eq [OF g] geo_eq_meta [OF g] published_geo [OF g] f)

lemma jcache_free_tx: "jcache X es (agfs_log_free_tx v) s = jcache X es v s"
  "jdisk D0 X dn es0 E es (agfs_log_free_tx v) s = jdisk D0 X dn es0 E es v s"
  "jview D0 X txs (agfs_log_free_tx v) s = jview D0 X txs v s"
  by (rule jinv_cong; simp add: agfs_log_free_tx_def geo_def)+

text \<open>The entry of a transaction, and the barrier when the batch is full.\<close>

lemma commit_entry_step:
  assumes c: "jcache X es v s" and d: "jdisk D0 X dn es0 E es v s" and vw: "jview D0 X (dn @ es @ [v_tx v]) v s"
    and E: "E \<subseteq> tgts es \<union> fst ` set (v_tx v)" and t: "tx_ok v (v_tx v)" "fst ` set (v_tx v) \<inter> X = {}"
    and fits: "v_log_end v + length (v_tx v) + 1 \<le> agfs_log_len v" and seq: "unat (v_sb_seq v) + 1 < 2 ^ 32" and j: "j \<le> length dn"
    and v: "v_tx_depth v = 0" "\<not> v_tx_poisoned v" "\<not> v_log_draining v"
  shows "\<exists>v' s'. commit_entry dev v s = (v', s', None) \<and> jstate D0 X (dn @ es @ [v_tx v]) j v' s' \<and> geo v' = geo v
     \<and> unat (v_sb_seq v') \<le> unat (v_sb_seq v) + 1 \<and> crash_step D0 X v (dn @ es @ [v_tx v]) j s s'"
proof -
  let ?t = "v_tx v"
  let ?v = "entry_vol v ?t"
  let ?s = "entry_store v ?t s"
  note en = entry_step [OF c d vw t fits]
  have co: "cache_ok s" using c by (simp add: jcache_def)
  have tg: "E \<subseteq> tgts (es @ [?t])" using E by (simp add: image_Un)
  have vv: "v_tx_depth ?v = 0" "\<not> v_tx_poisoned ?v" "\<not> v_log_draining ?v" "v_sb_seq ?v = v_sb_seq v" using v by (simp_all add: entry_vol_def)
  have cr: "crash_step D0 X v (dn @ es @ [?t]) j s ?s" using crash_step_refl [OF c d j en(4,5), of "es @ [?t]"] by simp
  show ?thesis
  proof (cases "v_pend_blocks ?v \<ge> AGFS_LOG_BATCH_BLOCKS")
    case False
    then have "commit_entry dev v s = (agfs_log_free_tx ?v, ?s, None)" by (simp add: commit_entry_eq [OF co])
    moreover have "jstate D0 X (dn @ es @ [?t]) j (agfs_log_free_tx ?v) ?s"
      unfolding jstate_def jcache_free_tx
    proof (intro conjI exI)
      show "dn @ es @ [?t] = dn @ (es @ [?t])" "j \<le> length dn" using j by simp_all
      show "jcache X (es @ [?t]) ?v ?s" "jdisk D0 X dn es0 E (es @ [?t]) ?v ?s" "E \<subseteq> tgts (es @ [?t])"
        "jview D0 X (dn @ (es @ [?t])) ?v ?s" using en(1-3) tg by simp_all
      show "v_tx_depth (agfs_log_free_tx ?v) = 0" "\<not> v_tx_poisoned (agfs_log_free_tx ?v)" "\<not> v_log_draining (agfs_log_free_tx ?v)"
        using vv by (simp_all add: agfs_log_free_tx_def)
    qed
    ultimately show ?thesis using cr vv(4) entry_vol_geo [of v ?t] by (auto simp: agfs_log_free_tx_def geo_def)
  next
    case True
    have vw': "jview D0 X (dn @ (es @ [?t]) @ [[]]) ?v ?s" using en(3) by (simp add: jview_def)
    have sq: "unat (v_sb_seq ?v) + 1 < 2 ^ 32" using seq vv by simp
    obtain v3 s3 where fl: "agfs_log_flush_locked dev ?v ?s = (v3, s3)" and c3: "jcache X [] v3 s3"
      and d3: "jdisk D0 X (dn @ es @ [?t]) (es @ [?t]) {} [] v3 s3" and vw3: "jview D0 X (dn @ (es @ [?t]) @ [[]]) v3 s3"
      and v3: "same_log ?v v3" "v_sb_seq v3 = v_sb_seq ?v + 1" and cr3: "crash_step D0 X ?v (dn @ (es @ [?t]) @ []) j ?s s3"
      using flush_step [OF en(1,2) vw' tg _ sq j, of dev "[]"] by auto
    have "commit_entry dev v s = (agfs_log_free_tx v3, s3, None)" using True fl by (simp add: commit_entry_eq [OF co])
    moreover have "jstate D0 X (dn @ es @ [?t]) j (agfs_log_free_tx v3) s3"
      unfolding jstate_def jcache_free_tx
    proof (intro conjI exI)
      show "dn @ es @ [?t] = (dn @ es @ [?t]) @ []" "j \<le> length (dn @ es @ [?t])" using j by simp_all
      show "jcache X [] v3 s3" "jdisk D0 X (dn @ es @ [?t]) (es @ [?t]) {} [] v3 s3" by fact+
      show "{} \<subseteq> tgts []" by simp
      show "jview D0 X ((dn @ es @ [?t]) @ []) v3 s3" using vw3 by (simp add: jview_def)
      show "v_tx_depth (agfs_log_free_tx v3) = 0" "\<not> v_tx_poisoned (agfs_log_free_tx v3)" "\<not> v_log_draining (agfs_log_free_tx v3)"
        using v3(1) vv by (simp_all add: agfs_log_free_tx_def same_log_def)
    qed
    moreover have "crash_step D0 X v (dn @ es @ [?t]) j s s3"
      using crash_step_trans [OF cr] cr3 crash_step_geo [OF entry_vol_geo [of v ?t]] by simp
    moreover have "geo (agfs_log_free_tx v3) = geo v" "v_sb_seq (agfs_log_free_tx v3) = v_sb_seq v + 1"
      using v3 vv(4) entry_vol_geo [of v ?t] by (simp_all add: agfs_log_free_tx_def same_log_def geo_def)
    ultimately show ?thesis using unat_seq_Suc [OF seq] by auto
  qed
qed

lemma commit_step:
  assumes c: "jcache X es v s" and d: "jdisk D0 X dn es0 E es v s" and vw: "jview D0 X (dn @ es @ [v_tx v]) v s"
    and E: "E \<subseteq> tgts es" and t: "tx_ok v (v_tx v)" "fst ` set (v_tx v) \<inter> X = {}"
    and n: "length (v_tx v) + 1 \<le> agfs_log_len v"
    and wrap: "v_log_end v + length (v_tx v) + 1 \<le> agfs_log_len v \<or> fst ` set (v_tx v) \<inter> set (st_list s) = {}"
    and seq: "unat (v_sb_seq v) + 3 < 2 ^ 32" and j: "j \<le> length dn"
    and v: "v_tx_depth v = 1" "\<not> v_tx_poisoned v" "\<not> v_log_draining v"
  shows "\<exists>v' s'. agfs_log_commit dev v s = (v', s', None) \<and> jstate D0 X (dn @ es @ [v_tx v]) j v' s' \<and> geo v' = geo v
     \<and> unat (v_sb_seq v') \<le> unat (v_sb_seq v) + 3 \<and> crash_step D0 X v (dn @ es @ [v_tx v]) j s s'"
proof -
  let ?t = "v_tx v"
  let ?n = "length ?t"
  let ?v = "v\<lparr>v_tx_depth := 0\<rparr>"
  have gv: "geo ?v = geo v" by (simp add: geo_def)
  note ge = geo_eq [OF gv] geo_eq_meta [OF gv] published_geo [OF gv]
  have c': "jcache X es ?v s" and d': "jdisk D0 X dn es0 E es ?v s" and vw': "jview D0 X (dn @ es @ [?t]) ?v s"
    using c d vw jinv_cong [of ?v v, OF gv] by simp_all
  have ne: "?t \<noteq> []" using t(1) by (simp add: tx_ok_def)
  have "tgts es \<subseteq> set (st_list s)" using c by (simp add: jcache_def)
  then have wr: "v_log_end ?v + ?n + 1 \<le> agfs_log_len ?v \<or> tgts es \<inter> fst ` set ?t = {}"
    using wrap ge(2) by auto
  have n': "?n + 1 \<le> agfs_log_len ?v" and sq: "unat (v_sb_seq ?v) + 2 < 2 ^ 32" using n ge(2) seq by simp_all
  obtain v1 s1 dn1 es1 es01 E1 where mr: "make_room dev ?n ?v s = (v1, s1)" and sp: "dn1 @ es1 = dn @ es" "length dn \<le> length dn1"
    and c1: "jcache X es1 v1 s1" and d1: "jdisk D0 X dn1 es01 E1 es1 v1 s1" and E1: "E1 \<subseteq> tgts es1"
    and vw1: "jview D0 X (dn @ es @ [?t]) v1 s1" and fits: "v_log_end v1 + ?n + 1 \<le> agfs_log_len v1" and st: "same_tx ?v v1"
    and cr1: "crash_step D0 X ?v (dn @ es @ [?t]) j s s1"
    and sq1: "unat (v_sb_seq v1) + (if es1 = [] then 0 else 2) \<le> unat (v_sb_seq ?v) + 2"
    using make_room_step [OF c' d' vw' E sq j n' wr, of dev "[?t]"] by blast
  have j1: "j \<le> length dn1" using j sp(2) by simp
  have tx1: "v_tx v1 = ?t" "v_tx_depth v1 = 0" "\<not> v_tx_poisoned v1" "\<not> v_log_draining v1" and g1: "geo v = geo v1"
    using st v gv by (simp_all add: same_tx_def)
  have vw1': "jview D0 X (dn1 @ es1 @ [?t]) v1 s1" using vw1 sp(1) by (metis append.assoc)
  define cap where "cap = (v_log_pending v1 \<and> v_pend_blocks v1 + ?n + 1 > AGFS_LOG_BATCH_BLOCKS)"
  have "\<exists>v2 s2 dn2 es2 es02 E2. (if cap then agfs_log_flush_locked dev v1 s1 else (v1, s1)) = (v2, s2) \<and> dn2 @ es2 = dn @ es
     \<and> j \<le> length dn2 \<and> jcache X es2 v2 s2 \<and> jdisk D0 X dn2 es02 E2 es2 v2 s2 \<and> E2 \<subseteq> tgts es2 \<union> fst ` set ?t
     \<and> jview D0 X (dn2 @ es2 @ [?t]) v2 s2 \<and> same_log v1 v2 \<and> unat (v_sb_seq v2) + 1 \<le> unat (v_sb_seq v) + 3
     \<and> crash_step D0 X v (dn @ es @ [?t]) j s1 s2"
  proof (cases cap)
    case False
    have "crash_step D0 X v1 (dn1 @ es1 @ [?t]) j s1 s1" by (rule crash_step_refl [OF c1 d1 j1 refl refl])
    then have "crash_step D0 X v (dn @ es @ [?t]) j s1 s1" using sp(1) crash_step_geo [OF g1] by (metis append.assoc)
    then show ?thesis
      using False c1 d1 E1 vw1' sp(1) j1 sq1 same_tx_def
      by (intro exI [of _ v1] exI [of _ s1] exI [of _ dn1] exI [of _ es1] exI [of _ es01] exI [of _ E1]) (auto simp: same_log_def split: if_splits)
  next
    case True
    then have ne1: "es1 \<noteq> []" using c1 by (auto simp: cap_def jcache_def)
    then have sq1': "unat (v_sb_seq v1) \<le> unat (v_sb_seq v)" using sq1 by simp
    then have sq2: "unat (v_sb_seq v1) + 1 < 2 ^ 32" using seq by simp
    obtain v2 s2 where fl: "agfs_log_flush_locked dev v1 s1 = (v2, s2)" and c2: "jcache X [] v2 s2"
      and d2: "jdisk D0 X (dn1 @ es1) es1 (tgts es1 \<inter> fst ` set ?t) [] v2 s2" and vw2: "jview D0 X (dn1 @ es1 @ [?t]) v2 s2"
      and v2: "same_log v1 v2" "v_sb_seq v2 = v_sb_seq v1 + 1" and cr2: "crash_step D0 X v1 (dn1 @ es1 @ [?t]) j s1 s2"
      using flush_step [OF c1 d1 vw1' E1 ne1 sq2 j1, of dev "[?t]"] by blast
    have "crash_step D0 X v (dn @ es @ [?t]) j s1 s2" using cr2 sp(1) crash_step_geo [OF g1] by (metis append.assoc)
    moreover have "unat (v_sb_seq v2) + 1 \<le> unat (v_sb_seq v) + 3" using v2(2) sq1' unat_seq_Suc [OF sq2] by simp
    moreover have "jview D0 X ((dn1 @ es1) @ [] @ [?t]) v2 s2" "j \<le> length (dn1 @ es1)"
      "tgts es1 \<inter> fst ` set ?t \<subseteq> tgts [] \<union> fst ` set ?t" "(if cap then agfs_log_flush_locked dev v1 s1 else (v1, s1)) = (v2, s2)"
      using vw2 j1 True fl by auto
    moreover have "(dn1 @ es1) @ [] = dn @ es" using sp(1) by simp
    ultimately show ?thesis using c2 d2 v2(1) by blast
  qed
  then obtain v2 s2 dn2 es2 es02 E2 where capeq: "(if cap then agfs_log_flush_locked dev v1 s1 else (v1, s1)) = (v2, s2)"
    and sp2: "dn2 @ es2 = dn @ es" and j2: "j \<le> length dn2" and c2: "jcache X es2 v2 s2" and d2: "jdisk D0 X dn2 es02 E2 es2 v2 s2"
    and E2: "E2 \<subseteq> tgts es2 \<union> fst ` set ?t" and vw2: "jview D0 X (dn2 @ es2 @ [?t]) v2 s2" and v2: "same_log v1 v2"
    and sq2: "unat (v_sb_seq v2) + 1 \<le> unat (v_sb_seq v) + 3" and cr2: "crash_step D0 X v (dn @ es @ [?t]) j s1 s2"
    by blast
  have g2: "geo v = geo v2" using g1 v2 by (simp add: same_log_def)
  have tx2: "v_tx v2 = ?t" "v_tx_depth v2 = 0" "\<not> v_tx_poisoned v2" "\<not> v_log_draining v2" using tx1 v2 by (simp_all add: same_log_def)
  have fits2: "v_log_end v2 + length (v_tx v2) + 1 \<le> agfs_log_len v2"
    using fits v2 tx2(1) geo_eq(2) [of v1 v2] by (simp add: same_log_def)
  have ok2: "tx_ok v2 (v_tx v2)" "fst ` set (v_tx v2) \<inter> X = {}" using t tx2(1) geo_eq_meta(2) [OF g2] by simp_all
  have sq3: "unat (v_sb_seq v2) + 1 < 2 ^ 32" using sq2 seq by simp
  obtain v3 s3 where ce: "commit_entry dev v2 s2 = (v3, s3, None)" and js: "jstate D0 X (dn2 @ es2 @ [?t]) j v3 s3" and g3: "geo v3 = geo v2"
    and sq4: "unat (v_sb_seq v3) \<le> unat (v_sb_seq v2) + 1" and cr3: "crash_step D0 X v2 (dn2 @ es2 @ [?t]) j s2 s3"
    using commit_entry_step [OF c2 d2 _ _ ok2 fits2 sq3 j2 tx2(2-4), of dev] vw2 E2 tx2(1) by auto
  have eq: "dn2 @ es2 @ [?t] = dn @ es @ [?t]" using sp2 by (metis append.assoc)
  have "agfs_log_commit dev v s = (v3, s3, None)"
    using v ne n' mr capeq ce unfolding cap_def by (auto simp: agfs_log_commit_def Let_def split: if_splits)
  moreover have "crash_step D0 X v (dn @ es @ [?t]) j s s3"
    using crash_step_trans [OF crash_step_trans [OF _ cr2]] cr1 cr3 crash_step_geo [OF gv] crash_step_geo [OF g2] eq by simp
  ultimately show ?thesis using js g3 g2 sq4 sq2 eq by auto
qed

end
