(* ===== verification/Journal_Crash.thy ===== *)
theory Journal_Crash
  imports Journal_Commit
begin

text \<open>
  Sequences of journal operations and the properties of the whole: crash atomicity and durability,
  the order of bitmap and metadata, and recovery that can be interrupted.
\<close>

subsection \<open>Sequences of operations\<close>

text \<open>
  What the file system does with the journal: a transaction, the write of a block of file data
  into its buffer, and a sync. A transaction touches between one and 48 metadata blocks, never a
  block of file data, and fits in the log; when the log has to wrap for it, none of its blocks is
  dirty in the cache.
\<close>

datatype jop = JTx tx | JData nat "byte list" | JSync

definition jexec :: "discard_dev \<Rightarrow> (nat \<Rightarrow> bool) \<Rightarrow> jop \<Rightarrow> agfs_vol \<Rightarrow> blk_store \<Rightarrow> agfs_vol \<times> blk_store" where
  "jexec dev locked oper v s =
     (case oper of
        JTx w \<Rightarrow> (case run_tx dev locked v s w of (v', s', _) \<Rightarrow> (v', s'))
      | JData b d \<Rightarrow> (v, bwrite s b d)
      | JSync \<Rightarrow> agfs_log_sync dev v s)"

definition jop_ok :: "nat set \<Rightarrow> agfs_vol \<Rightarrow> blk_store \<Rightarrow> jop \<Rightarrow> bool" where
  "jop_ok X v s oper \<longleftrightarrow>
     (case oper of
        JTx w \<Rightarrow>
          (let n = card (fst ` set w) in
           w \<noteq> [] \<and> n \<le> AGFS_LOG_MAX_BLOCKS \<and> n + 1 \<le> agfs_log_len v \<and> (\<forall>b\<in>fst ` set w. meta v b \<and> b \<notin> X)
           \<and> (v_log_end v + n + 1 \<le> agfs_log_len v \<or> fst ` set w \<inter> set (st_list s) = {}))
      | JData b d \<Rightarrow> b \<in> X
      | JSync \<Rightarrow> True)"

inductive jruns :: "discard_dev \<Rightarrow> (nat \<Rightarrow> bool) \<Rightarrow> nat set \<Rightarrow> agfs_vol \<Rightarrow> blk_store \<Rightarrow> jop list \<Rightarrow> agfs_vol \<Rightarrow> blk_store \<Rightarrow> bool"
  for dev locked X where
  jruns_Nil: "jruns dev locked X v s [] v s"
| jruns_Cons: "jop_ok X v s oper \<Longrightarrow> jexec dev locked oper v s = (v1, s1) \<Longrightarrow> jruns dev locked X v1 s1 opers v2 s2
     \<Longrightarrow> jruns dev locked X v s (oper # opers) v2 s2"

inductive_cases jruns_NilE: "jruns dev locked X v s [] v' s'"
inductive_cases jruns_ConsE: "jruns dev locked X v s (oper # opers) v' s'"

fun jtxs :: "jop list \<Rightarrow> tx list" where
  "jtxs [] = []"
| "jtxs (JTx w # opers) = w # jtxs opers"
| "jtxs (_ # opers) = jtxs opers"

lemma crash_step_mono:
  assumes "crash_step D0 X v txs j s s'" "j \<le> length txs"
  shows "crash_step D0 X v (txs @ u) j s s'"
proof -
  have "\<exists>i'\<ge>j. recovers_to D0 X v (take i' (txs @ u)) D" if "i \<ge> j" "recovers_to D0 X v (take i txs) D" for i D
    using that assms(2) by (intro exI [of _ "min i (length txs)"]) (auto simp: min_def)
  then show ?thesis using assms(1) unfolding crash_step_def by metis
qed

lemma tx_step:
  assumes st: "jstate D0 X txs j v s" and ok: "jop_ok X v s (JTx w)" and seq: "unat (v_sb_seq v) + 3 < 2 ^ 32"
  shows "\<exists>v' s'. jexec dev locked (JTx w) v s = (v', s') \<and> jstate D0 X (txs @ [tx_of w]) j v' s' \<and> geo v' = geo v
     \<and> unat (v_sb_seq v') \<le> unat (v_sb_seq v) + 3 \<and> crash_step D0 X v (txs @ [tx_of w]) j s s'"
proof -
  obtain dn es es0 E where sp: "txs = dn @ es" "j \<le> length dn" and c: "jcache X es v s" and d: "jdisk D0 X dn es0 E es v s"
    and E: "E \<subseteq> tgts es" and vw: "jview D0 X (dn @ es) v s" and idle: "v_tx_depth v = 0" "\<not> v_tx_poisoned v" "\<not> v_log_draining v"
    using st by (auto simp: jstate_def)
  have w: "w \<noteq> []" "card (fst ` set w) \<le> AGFS_LOG_MAX_BLOCKS" "card (fst ` set w) + 1 \<le> agfs_log_len v"
    "\<forall>b\<in>fst ` set w. meta v b \<and> b \<notin> X"
    "v_log_end v + card (fst ` set w) + 1 \<le> agfs_log_len v \<or> fst ` set w \<inter> set (st_list s) = {}"
    using ok by (auto simp: jop_ok_def Let_def)
  let ?t = "tx_of w"
  let ?v = "v\<lparr>v_tx := ?t, v_tx_depth := 1\<rparr>"
  have rw: "run_writes locked (agfs_log_begin v) s [] w = (?v, rel_all w s, [])"
    using run_writes_records [of "agfs_log_begin v" w locked s] idle w(2) by (simp add: agfs_log_begin_def tx_of_def)
  have aw: "apply_writes w = apply_writes ?t" by (rule ext) (simp add: tx_of_ok)
  have same: "same_log (v\<lparr>v_tx := v_tx ?v, v_tx_depth := v_tx_depth ?v\<rparr>) ?v" by (simp add: same_log_def geo_def)
  have wm: "\<forall>b\<in>fst ` set w. meta v b" using w(4) by blast
  have fields: "v_log_pending ?v = v_log_pending v" "v_pend_blocks ?v = v_pend_blocks v" "v_sb_seq ?v = v_sb_seq v" by simp_all
  note r = record_step [OF c d vw wm aw same fields]
  have gv: "geo ?v = geo v" by (simp add: geo_def)
  note ge = geo_eq [OF gv] geo_eq_meta [OF gv]
  have len: "length ?t = card (fst ` set w)" by (rule tx_of_ok)
  have "\<exists>v' s'. agfs_log_commit dev ?v (rel_all w s) = (v', s', None) \<and> jstate D0 X (dn @ es @ [v_tx ?v]) j v' s' \<and> geo v' = geo ?v
     \<and> unat (v_sb_seq v') \<le> unat (v_sb_seq ?v) + 3 \<and> crash_step D0 X ?v (dn @ es @ [v_tx ?v]) j (rel_all w s) s'"
  proof (rule commit_step [OF r(1,2) _ E])
    show "jview D0 X (dn @ es @ [v_tx ?v]) ?v (rel_all w s)" using r(3) by simp
    show "tx_ok ?v (v_tx ?v)" "fst ` set (v_tx ?v) \<inter> X = {}"
      unfolding ge using w len by (auto simp: tx_ok_def tx_of_ok(3))
    show "length (v_tx ?v) + 1 \<le> agfs_log_len ?v" using w(3) len ge(2) by simp
    have "cache_ok s" using c by (simp add: jcache_def)
    then have "st_list (rel_all w s) = st_list s" using rel_all_ok [of s w] by simp
    then show "v_log_end ?v + length (v_tx ?v) + 1 \<le> agfs_log_len ?v \<or> fst ` set (v_tx ?v) \<inter> set (st_list (rel_all w s)) = {}"
      using w(5) len ge(2) by (simp add: tx_of_ok(3))
  qed (use seq sp idle in simp_all)
  then obtain v' s' where cm: "agfs_log_commit dev ?v (rel_all w s) = (v', s', None)" "jstate D0 X (dn @ es @ [?t]) j v' s'" "geo v' = geo v"
     "unat (v_sb_seq v') \<le> unat (v_sb_seq v) + 3" "crash_step D0 X v (dn @ es @ [?t]) j (rel_all w s) s'"
    using crash_step_geo [OF gv] gv by auto
  moreover have "crash_step D0 X v (dn @ es @ [?t]) j s s'"
    using cm(5) r(4,5) by (simp add: crash_step_def)
  ultimately show ?thesis using rw sp(1) by (simp add: jexec_def run_tx_def)
qed

lemma data_step:
  assumes st: "jstate D0 X txs j v s" and b: "b \<in> X"
  shows "jstate D0 X txs j v (bwrite s b d)" "crash_step D0 X v txs j s (bwrite s b d)"
proof -
  obtain dn es es0 E where sp: "txs = dn @ es" "j \<le> length dn" and c: "jcache X es v s" and dk: "jdisk D0 X dn es0 E es v s"
    and E: "E \<subseteq> tgts es" and vw: "jview D0 X (dn @ es) v s" and idle: "v_tx_depth v = 0" "\<not> v_tx_poisoned v" "\<not> v_log_draining v"
    using st by (auto simp: jstate_def)
  have bm: "meta v b" using c b by (simp add: jcache_def)
  have en: "v_log_start v + log_size es \<le> agfs_log_len v" if "es \<noteq> []" using c that by (auto simp: jcache_def)
  have "view (bwrite s b d) (agfs_log_block v p) = view s (agfs_log_block v p)" if "p < agfs_log_len v" for p
    using meta_not_log [OF bm that] by auto
  then have "holds v (view (bwrite s b d)) (v_log_start v) es = holds v (view s) (v_log_start v) es"
    by (intro holds_cong) (use en in \<open>cases "es = []"; auto\<close>)
  moreover have "cache_ok (bwrite s b d)" using c by (auto simp: jcache_def cache_ok_def)
  moreover have "set (st_list (bwrite s b d)) = insert b (set (st_list s))" by auto
  ultimately have "jcache X es v (bwrite s b d)" using c b unfolding jcache_def by (simp add: subset_insertI2 insert_subset)
  moreover have "b \<noteq> 0" using bm not_meta_0 by metis
  then have "jdisk D0 X dn es0 E es v (bwrite s b d)" using dk by (simp add: jdisk_def)
  moreover have "jview D0 X (dn @ es) v (bwrite s b d)" using vw b by (auto simp: jview_def)
  ultimately show "jstate D0 X txs j v (bwrite s b d)" using sp E idle by (auto simp: jstate_def)
  show "crash_step D0 X v txs j s (bwrite s b d)" using crash_step_refl [OF c dk sp(2), of _ es] sp(1) by simp
qed

lemma jsync_step:
  assumes st: "jstate D0 X txs j v s" and seq: "unat (v_sb_seq v) + 3 < 2 ^ 32"
  shows "\<exists>v' s'. agfs_log_sync dev v s = (v', s') \<and> jstate D0 X txs (length txs) v' s' \<and> geo v' = geo v
     \<and> unat (v_sb_seq v') \<le> unat (v_sb_seq v) + 3 \<and> crash_step D0 X v txs j s s'"
proof -
  obtain dn es es0 E where sp: "txs = dn @ es" "j \<le> length dn" and c: "jcache X es v s" and d: "jdisk D0 X dn es0 E es v s"
    and E: "E \<subseteq> tgts es" and vw: "jview D0 X (dn @ es) v s" and idle: "v_tx_depth v = 0" "\<not> v_tx_poisoned v" "\<not> v_log_draining v"
    using st by (auto simp: jstate_def)
  have "\<exists>v1 s1 es01. agfs_log_flush_locked dev v s = (v1, s1) \<and> jcache X [] v1 s1 \<and> jdisk D0 X txs es01 {} [] v1 s1
     \<and> jview D0 X txs v1 s1 \<and> same_log v v1 \<and> unat (v_sb_seq v1) \<le> unat (v_sb_seq v) + 3 \<and> crash_step D0 X v txs j s s1"
  proof (cases "es = []")
    case True
    then have "agfs_log_flush_locked dev v s = (v, s)" "E = {}" using c E by (auto simp: agfs_log_flush_locked_def jcache_def)
    then show ?thesis
      using True c d vw sp crash_step_refl [OF c d sp(2) refl refl, of "[]"] by (auto simp: same_log_def)
  next
    case False
    have vw': "jview D0 X (dn @ es @ [[]]) v s" using vw by (simp add: jview_def)
    have sq: "unat (v_sb_seq v) + 1 < 2 ^ 32" using seq by simp
    obtain v1 s1 where f: "agfs_log_flush_locked dev v s = (v1, s1)" "jcache X [] v1 s1" "jdisk D0 X (dn @ es) es {} [] v1 s1"
      "jview D0 X (dn @ es @ [[]]) v1 s1" "same_log v v1" "v_sb_seq v1 = v_sb_seq v + 1" "crash_step D0 X v (dn @ es @ []) j s s1"
      using flush_step [OF c d vw' E False sq sp(2), of dev "[]"] by auto
    moreover have "jview D0 X (dn @ es) v1 s1" using f(4) by (simp add: jview_def)
    ultimately show ?thesis using sp(1) unat_seq_Suc [OF sq] by auto
  qed
  then obtain v1 s1 es01 where fl: "agfs_log_flush_locked dev v s = (v1, s1)" and c1: "jcache X [] v1 s1"
    and d1: "jdisk D0 X txs es01 {} [] v1 s1" and vw1: "jview D0 X txs v1 s1" and same: "same_log v v1"
    and sq: "unat (v_sb_seq v1) \<le> unat (v_sb_seq v) + 3" and cr: "crash_step D0 X v txs j s s1" by blast
  have g: "geo v = geo v1" using same by (simp add: same_log_def)
  have jl: "j \<le> length txs" using sp by simp
  note sy = sync_step [OF c1 d1 vw1 jl]
  have "crash_step D0 X v1 (txs @ []) j s1 (sync_buffers s1)" by (rule sy(4))
  then have "crash_step D0 X v txs j s (sync_buffers s1)" using crash_step_trans [OF cr] crash_step_geo [OF g] by simp
  moreover have "jstate D0 X txs (length txs) v1 (sync_buffers s1)"
    by (rule jstateI [where dn = txs and es = "[]" and es0 = es01 and E = "{}"])
       (use sy(1-3) same idle in \<open>simp_all add: same_log_def\<close>)
  ultimately show ?thesis using fl g sq by (auto simp: agfs_log_sync_def)
qed

lemma jexec_step:
  assumes st: "jstate D0 X txs j v s" and ok: "jop_ok X v s oper" and seq: "unat (v_sb_seq v) + 3 < 2 ^ 32"
    and ex: "jexec dev locked oper v s = (v', s')"
  defines "new \<equiv> map tx_of (jtxs [oper])"
  shows "jstate D0 X (txs @ new) j v' s'" "oper = JSync \<Longrightarrow> jstate D0 X (txs @ new) (length (txs @ new)) v' s'" "geo v' = geo v"
    "unat (v_sb_seq v') \<le> unat (v_sb_seq v) + 3" "crash_step D0 X v (txs @ new) j s s'"
proof -
  have "jstate D0 X (txs @ new) j v' s' \<and> (oper = JSync \<longrightarrow> jstate D0 X (txs @ new) (length (txs @ new)) v' s') \<and> geo v' = geo v
    \<and> unat (v_sb_seq v') \<le> unat (v_sb_seq v) + 3 \<and> crash_step D0 X v (txs @ new) j s s'"
  proof (cases oper)
    case (JTx w)
    then show ?thesis using tx_step [OF st ok [unfolded JTx] seq, of dev locked] ex by (auto simp: new_def)
  next
    case (JData b d)
    then have "v' = v" "s' = bwrite s b d" "b \<in> X" using ex ok by (simp_all add: jexec_def jop_ok_def)
    then show ?thesis using data_step [OF st, of b d] JData by (auto simp: new_def)
  next
    case JSync
    then have n: "txs @ new = txs" by (simp add: new_def)
    have sy: "jstate D0 X txs (length txs) v' s'" "geo v' = geo v" "unat (v_sb_seq v') \<le> unat (v_sb_seq v) + 3" "crash_step D0 X v txs j s s'"
      using jsync_step [OF st seq, of dev] ex JSync by (auto simp: jexec_def)
    have "jstate D0 X txs j v' s'" using jstate_mono [OF sy(1) jstate_le [OF st]] .
    then show ?thesis using sy n by simp
  qed
  then show "jstate D0 X (txs @ new) j v' s'" "oper = JSync \<Longrightarrow> jstate D0 X (txs @ new) (length (txs @ new)) v' s'" "geo v' = geo v"
    "unat (v_sb_seq v') \<le> unat (v_sb_seq v) + 3" "crash_step D0 X v (txs @ new) j s s'" by blast+
qed

lemma jtxs_Cons: "jtxs (oper # opers) = jtxs [oper] @ jtxs opers"
  by (cases oper) simp_all

lemma jruns_crash:
  "jruns dev locked X v s opers v' s' \<Longrightarrow> jstate D0 X txs j v s \<Longrightarrow> unat (v_sb_seq v) + 3 * length opers < 2 ^ 32
   \<Longrightarrow> jstate D0 X (txs @ map tx_of (jtxs opers)) j v' s' \<and> crash_step D0 X v (txs @ map tx_of (jtxs opers)) j s s'
     \<and> (opers \<noteq> [] \<and> last opers = JSync
          \<longrightarrow> jstate D0 X (txs @ map tx_of (jtxs opers)) (length (txs @ map tx_of (jtxs opers))) v' s')"
proof (induction arbitrary: txs j rule: jruns.induct)
  case (jruns_Nil v s)
  then obtain dn es es0 E where "txs = dn @ es" "j \<le> length dn" "jcache X es v s" "jdisk D0 X dn es0 E es v s"
    by (auto simp: jstate_def)
  then have "crash_step D0 X v txs j s s" using crash_step_refl [of X es v s D0 dn es0 E j s es] by simp
  then show ?case using jruns_Nil by simp
next
  case (jruns_Cons v s oper v1 s1 opers v2 s2)
  let ?new = "map tx_of (jtxs [oper])"
  let ?rest = "map tx_of (jtxs opers)"
  have sq: "unat (v_sb_seq v) + 3 < 2 ^ 32" using jruns_Cons.prems(2) by simp
  note st = jexec_step [OF jruns_Cons.prems(1) jruns_Cons.hyps(1) sq jruns_Cons.hyps(2)]
  have sq1: "unat (v_sb_seq v1) + 3 * length opers < 2 ^ 32" using st(4) jruns_Cons.prems(2) by simp
  have all: "txs @ map tx_of (jtxs (oper # opers)) = (txs @ ?new) @ ?rest" by (simp add: jtxs_Cons [of oper opers])
  note IH = jruns_Cons.IH [OF st(1) sq1]
  have jl: "j \<le> length (txs @ ?new)" using st(1) by (rule jstate_le)
  have "crash_step D0 X v ((txs @ ?new) @ ?rest) j s s1" using crash_step_mono [OF st(5) jl] .
  moreover have "crash_step D0 X v ((txs @ ?new) @ ?rest) j s1 s2" using IH crash_step_geo [OF st(3)] by simp
  ultimately have cr: "crash_step D0 X v ((txs @ ?new) @ ?rest) j s s2" by (rule crash_step_trans)
  have "jstate D0 X ((txs @ ?new) @ ?rest) (length ((txs @ ?new) @ ?rest)) v2 s2" if "last (oper # opers) = JSync"
  proof (cases "opers = []")
    case True
    then have "v2 = v1" "s2 = s1" using jruns_Cons.hyps(3) by (auto elim: jruns_NilE)
    then show ?thesis using st(2) that True by simp
  next
    case False
    then show ?thesis using IH that by simp
  qed
  then show ?case unfolding all using IH cr by simp
qed

text \<open>Mounting a volume whose published range is empty.\<close>

lemma mount_clean:
  assumes pub: "published v0 (D 0) q 0 0" and geo: "geo_ok v0" and X: "\<forall>b\<in>X. meta v0 b"
  shows "\<exists>s v. agfs_read_superblock [] (fresh_store D) = (s, Inr v) \<and> geo v = geo v0 \<and> jstate D X [] 0 v s
     \<and> st_disk s = D \<and> st_trace s = [] \<and> v_sb_seq v = q \<and> v_log_end v = 0"
proof -
  obtain w where w: "sb_load (D 0) = Inr w" "geo w = geo v0" "v_log_start w = 0" "v_log_end w = 0" "v_sb_seq w = q"
    "\<not> v_log_pending w" "v_pend_blocks w = 0" "v_tx_depth w = 0" "\<not> v_tx_poisoned w" "\<not> v_log_draining w"
    using published_load [OF pub] by blast
  note fr = fresh_store_ok [of D]
  obtain s1 where s1: "bread (fresh_store D) 0 = Some (s1, D 0)" "readable s1" "wf_store s1" "view s1 = D" "st_disk s1 = D"
    "st_list s1 = []" "st_flag s1 = (\<lambda>_. False)" "st_trace s1 = []"
    using bread_readable [OF fr(1), of 0] wf_bread [OF fr(1,2)] fr(3) by (simp add: fresh_store_def) metis
  obtain s2 bm where s2: "load_bitmap w [0..<bitmap_blocks w] [] [] s1 = ([], s2, Inr bm)"
    "readable s2" "wf_store s2" "view s2 = D" "st_disk s2 = D" "st_list s2 = []" "st_flag s2 = (\<lambda>_. False)" "st_trace s2 = []"
    using load_bitmap_ok [OF s1(2,3), of w "[0..<bitmap_blocks w]" "[]"] s1(4-8) by auto
  let ?w = "w\<lparr>v_sb := (v_sb w)\<lparr>s_bitmap := bm\<rparr>\<rparr>"
  define v where "v = set_dirty (set_flags (?w\<lparr>v_sb := agfs_resync_used_blocks (v_sb ?w)\<rparr>) AGFS_SUPER_DIRTY)"
  have "agfs_log_replay ?w s2 = (?w, s2, Inr 0)" using w by (simp add: agfs_log_replay_def)
  then have rd: "agfs_read_superblock [] (fresh_store D) = (s2, Inr v)"
    using s1(1) s2(1) w(1) by (simp add: agfs_read_superblock_def kmalloc_ok_def kmalloc_rest_def v_def)
  have v: "geo v = geo v0" "v_log_start v = 0" "v_log_end v = 0" "v_sb_seq v = q" "\<not> v_log_pending v" "v_pend_blocks v = 0"
    "v_tx_depth v = 0" "\<not> v_tx_poisoned v" "\<not> v_log_draining v"
    using w by (simp_all add: v_def set_dirty_def set_flags_def agfs_resync_used_blocks_def geo_def)
  note ge = geo_eq [OF v(1)] geo_eq_meta [OF v(1)] published_geo [OF v(1)]
  have "jcache X [] v s2"
    using s2 v X geo by (simp add: jcache_def cache_ok_def plog_def ge)
  moreover have "jdisk D X [] [] {} [] v s2"
    using s2 v pub by (simp add: jdisk_def ge)
  moreover have "jview D X [] v s2" using s2(4) by (simp add: jview_def)
  ultimately have "jstate D X [] 0 v s2"
    by (intro jstateI [where dn = "[]" and es = "[]" and es0 = "[]" and E = "{}"]) (use v in simp_all)
  then show ?thesis using rd v s2(5,8) by blast
qed

lemma recovers_tx_of:
  "recovers_to D0 X v (map tx_of ws) D \<longleftrightarrow> recovers_to D0 X v ws D"
  by (simp add: recovers_to_def apply_concat_tx_of)

lemma jruns_append:
  "jruns dev locked X v s opers v1 s1 \<Longrightarrow> jruns dev locked X v1 s1 opers' v2 s2 \<Longrightarrow> jruns dev locked X v s (opers @ opers') v2 s2"
  by (induction rule: jruns.induct) (auto intro: jruns.intros)

lemma jtxs_append [simp]: "jtxs (opers @ opers') = jtxs opers @ jtxs opers'"
  by (induction opers rule: jtxs.induct) simp_all

lemma jruns_geo:
  "jruns dev locked X v s opers v' s' \<Longrightarrow> jstate D0 X txs j v s \<Longrightarrow> unat (v_sb_seq v) + 3 * length opers < 2 ^ 32
   \<Longrightarrow> geo v' = geo v \<and> unat (v_sb_seq v') \<le> unat (v_sb_seq v) + 3 * length opers"
proof (induction arbitrary: txs j rule: jruns.induct)
  case (jruns_Cons v s oper v1 s1 opers v2 s2)
  have sq: "unat (v_sb_seq v) + 3 < 2 ^ 32" using jruns_Cons.prems(2) by simp
  note st = jexec_step [OF jruns_Cons.prems(1) jruns_Cons.hyps(1) sq jruns_Cons.hyps(2)]
  have "unat (v_sb_seq v1) + 3 * length opers < 2 ^ 32" using st(4) jruns_Cons.prems(2) by simp
  from jruns_Cons.IH [OF st(1) this] st(3,4) show ?case by simp
qed simp

lemma jruns_tx_sync:
  assumes st: "jstate D0 X txs j v s" and ok: "jop_ok X v s (JTx w)" and seq: "unat (v_sb_seq v) + 6 < 2 ^ 32"
  shows "\<exists>v' s' txs'. jruns dev locked X v s [JTx w, JSync] v' s' \<and> geo v' = geo v \<and> jstate D0 X txs' (length txs') v' s'
     \<and> unat (v_sb_seq v') \<le> unat (v_sb_seq v) + 6"
proof -
  obtain v1 s1 where e1: "jexec dev locked (JTx w) v s = (v1, s1)" by fastforce
  have sq: "unat (v_sb_seq v) + 3 < 2 ^ 32" using seq by simp
  note x1 = jexec_step [OF st ok sq e1]
  obtain v2 s2 where e2: "jexec dev locked JSync v1 s1 = (v2, s2)" by fastforce
  have ok2: "jop_ok X v1 s1 JSync" by (simp add: jop_ok_def)
  have sq2: "unat (v_sb_seq v1) + 3 < 2 ^ 32" using x1(4) seq by simp
  note x2 = jexec_step [OF x1(1) ok2 sq2 e2]
  have "jruns dev locked X v s [JTx w, JSync] v2 s2" using ok e1 ok2 e2 by (blast intro: jruns.intros)
  then show ?thesis using x2(2-4) x1(3,4) by fastforce
qed

text \<open>
  C1. Crash atomicity and durability of the journal. A clean volume is mounted and runs any sequence
  of operations \<open>opers1\<close> that is empty or ends in a sync, then any sequence \<open>opers2\<close>. Wherever the
  machine stops among the block writes the second part sends to the device, the next mount succeeds,
  and it finds every metadata block as some prefix of the transactions left it, a prefix that
  contains all the transactions before the sync. No transaction is split, and none is reordered. The
  operations are those \<open>jop_ok\<close> admits: a transaction that has to wrap the log touches no block
  that is dirty in the cache.
\<close>

theorem journal_crash_atomic:
  assumes pub: "published v0 (D0 0) q 0 0" and geo: "geo_ok v0" and X: "\<forall>b\<in>X. meta v0 b"
    and mount: "agfs_read_superblock [] (fresh_store D0) = (s, Inr v)"
    and synced: "jruns dev locked X v s opers1 v1 s1" "opers1 = [] \<or> last opers1 = JSync"
    and run: "jruns dev locked X v1 s1 opers2 v2 s2"
    and seq: "unat q + 3 * length (opers1 @ opers2) < 2 ^ 32"
  shows "\<exists>W. st_trace s2 = st_trace s1 @ W \<and> st_disk s2 = apply_writes W (st_disk s1) \<and>
     (\<forall>k. \<exists>i\<ge>length (jtxs opers1). \<exists>R. recovered (apply_writes (take k W) (st_disk s1)) = Some R
        \<and> (\<forall>b. meta v0 b \<and> b \<notin> X \<longrightarrow> R b = apply_writes (concat (take i (jtxs (opers1 @ opers2)))) D0 b))"
proof -
  have v: "geo v = geo v0" "jstate D0 X [] 0 v s" "v_sb_seq v = q"
    using mount_clean [where D = D0, OF pub geo X] mount by auto
  let ?t1 = "map tx_of (jtxs opers1)" and ?t2 = "map tx_of (jtxs opers2)"
  have sq1: "unat (v_sb_seq v) + 3 * length opers1 < 2 ^ 32" using seq v(3) by simp
  have st1: "jstate D0 X ?t1 (length ?t1) v1 s1"
  proof (cases "opers1 = []")
    case True
    then have "v1 = v" "s1 = s" using synced(1) by (auto elim: jruns_NilE)
    then show ?thesis using v(2) True by simp
  next
    case False
    then show ?thesis using jruns_crash [OF synced(1) v(2) sq1] synced(2) by simp
  qed
  note g1 = jruns_geo [OF synced(1) v(2) sq1]
  have sq2: "unat (v_sb_seq v1) + 3 * length opers2 < 2 ^ 32" using g1 seq v(3) by simp
  have "crash_step D0 X v1 (?t1 @ ?t2) (length ?t1) s1 s2" using jruns_crash [OF run st1 sq2] by simp
  then have "crash_step D0 X v0 (map tx_of (jtxs (opers1 @ opers2))) (length (jtxs opers1)) s1 s2"
    using crash_step_geo [of v1 v0] g1 v(1) by simp
  then show ?thesis unfolding crash_step_def take_map recovers_tx_of unfolding recovers_to_def .
qed


text \<open>A volume of one group with a log of 64 blocks behind the bitmap.\<close>

definition demo_disk :: "nat \<Rightarrow> byte list" where
  "demo_disk b =
     (let st = sb_struct demo_vol (replicate 32 0) in if b = 0 then sb_copy st 4 @ sb_copy st 4 else replicate 1024 0)"

lemma demo_vol_geo: "geo_ok demo_vol" "meta demo_vol 70" "meta demo_vol 71" "agfs_log_len demo_vol = 64"
  by (simp_all add: geo_ok_def meta_def in_log_def agfs_log_block_def agfs_log_run_abs_def agfs_log_len_def bitmap_blocks_def
      demo_vol_def demo_sb_def run_block32_def)

lemma demo_published:
  assumes "vol_fields_ok (demo_vol\<lparr>v_log_end := e\<rparr>)"
  defines "st \<equiv> sb_struct (demo_vol\<lparr>v_log_end := e\<rparr>) (replicate 32 0)"
  shows "published demo_vol (sb_copy st 4 @ sb_copy st 4) 4 0 e"
proof -
  have "length st = 132" "sb_magic_ok st" by (simp_all add: sb_struct_magic st_def)
  moreover have "\<exists>w. sb_parse st (ucast (4 :: u64)) = Inr w \<and> geo w = geo demo_vol \<and> v_log_start w = 0 \<and> v_log_end w = e"
    using sb_parse_struct [OF assms(1), of "replicate 32 0" "ucast (4 :: u64)"] unfolding st_def
    by (simp add: fresh_mount_def geo_def) (simp add: demo_vol_def)
  ultimately have "sb_copy st 4 @ sb_copy st 4 = sb_copy st 4 @ sb_copy st 4 @ [] \<and> length st = 132 \<and> sb_magic_ok st
      \<and> 0 < unat (4 :: u64) \<and> unat (4 :: u64) < 2 ^ 32
      \<and> (\<exists>w. sb_parse st (ucast (4 :: u64)) = Inr w \<and> geo w = geo demo_vol \<and> v_log_start w = 0 \<and> v_log_end w = e)" by simp
  then show ?thesis unfolding published_def by blast
qed

lemma demo_disk_published: "published demo_vol (demo_disk 0) 4 0 0"
proof -
  have "demo_vol\<lparr>v_log_end := 0\<rparr> = demo_vol" by (simp add: demo_vol_def)
  then show ?thesis using demo_published [of 0] demo_vol_ok by (simp add: demo_disk_def Let_def)
qed

theorem journal_crash_atomic_witness:
  "\<exists>s v v1 s1 v2 s2 W.
     agfs_read_superblock [] (fresh_store demo_disk) = (s, Inr v)
     \<and> jruns Discard (\<lambda>_. False) {} v s [JTx [(70, replicate 1024 1)], JSync] v1 s1
     \<and> jruns Discard (\<lambda>_. False) {} v1 s1 [JTx [(70, replicate 1024 2), (71, replicate 1024 3)], JSync] v2 s2
     \<and> st_trace s2 = st_trace s1 @ W
     \<and> (\<forall>k. \<exists>R. recovered (apply_writes (take k W) (st_disk s1)) = Some R
          \<and> ((R 70, R 71) = (replicate 1024 1, replicate 1024 0) \<or> (R 70, R 71) = (replicate 1024 2, replicate 1024 3)))"
proof -
  let ?lk = "\<lambda>_ :: nat. False"
  let ?w1 = "[(70, replicate 1024 1)] :: tx" and ?w2 = "[(70, replicate 1024 2), (71, replicate 1024 3)] :: tx"
  obtain s v where m: "agfs_read_superblock [] (fresh_store demo_disk) = (s, Inr v)" "geo v = geo demo_vol"
    "jstate demo_disk {} [] 0 v s" "v_sb_seq v = 4"
    using mount_clean [where D = demo_disk and X = "{}", OF demo_disk_published demo_vol_geo(1)] by auto
  have ready: "jop_ok {} v' s' (JTx ?w1) \<and> jop_ok {} v' s' (JTx ?w2)"
    if "geo v' = geo demo_vol" "jstate demo_disk {} txs (length txs) v' s'" for v' s' txs
  proof -
    have "set (st_list s') \<subseteq> {}" using that(2) by (auto simp: jstate_def jcache_def plog_def)
    then show ?thesis
      using demo_vol_geo geo_eq(2) [OF that(1)] geo_eq_meta(1) [OF that(1)] by (simp add: jop_ok_def Let_def)
  qed
  obtain v1 s1 txs where r1: "jruns Discard ?lk {} v s [JTx ?w1, JSync] v1 s1" "geo v1 = geo demo_vol"
    "jstate demo_disk {} txs (length txs) v1 s1" "unat (v_sb_seq v1) \<le> 10"
    using jruns_tx_sync [OF m(3), of ?w1 Discard ?lk] ready [OF m(2), of "[]"] m(2-4) by force
  obtain v2 s2 where r2: "jruns Discard ?lk {} v1 s1 [JTx ?w2, JSync] v2 s2"
    using jruns_tx_sync [OF r1(3), of ?w2 Discard ?lk] ready [OF r1(2,3)] r1(4) by force
  have "\<exists>W. st_trace s2 = st_trace s1 @ W \<and> st_disk s2 = apply_writes W (st_disk s1) \<and>
     (\<forall>k. \<exists>i\<ge>length (jtxs [JTx ?w1, JSync]). \<exists>R. recovered (apply_writes (take k W) (st_disk s1)) = Some R
        \<and> (\<forall>b. meta demo_vol b \<and> b \<notin> {} \<longrightarrow>
              R b = apply_writes (concat (take i (jtxs ([JTx ?w1, JSync] @ [JTx ?w2, JSync])))) demo_disk b))"
    by (rule journal_crash_atomic [where ?D0.0 = demo_disk, OF demo_disk_published demo_vol_geo(1) _ m(1) r1(1) _ r2]) simp_all
  then obtain W where W: "st_trace s2 = st_trace s1 @ W"
    "\<And>k. \<exists>i\<ge>1. \<exists>R. recovered (apply_writes (take k W) (st_disk s1)) = Some R
        \<and> (\<forall>b. meta demo_vol b \<longrightarrow> R b = apply_writes (concat (take i [?w1, ?w2])) demo_disk b)" by auto
  have "\<exists>R. recovered (apply_writes (take k W) (st_disk s1)) = Some R
     \<and> ((R 70, R 71) = (replicate 1024 1, replicate 1024 0) \<or> (R 70, R 71) = (replicate 1024 2, replicate 1024 3))" for k
  proof -
    obtain i R where R: "i \<ge> 1" "recovered (apply_writes (take k W) (st_disk s1)) = Some R"
      "\<forall>b. meta demo_vol b \<longrightarrow> R b = apply_writes (concat (take i [?w1, ?w2])) demo_disk b" using W(2) by blast
    have "take i [?w1, ?w2] = [?w1] \<or> take i [?w1, ?w2] = [?w1, ?w2]" using R(1) by (cases "i = 1") (auto simp: take_Cons')
    then show ?thesis using R(2,3) demo_vol_geo(2,3) by (auto simp: demo_disk_def)
  qed
  then show ?thesis using m(1) r1(1) r2 W(1) by blast
qed

lemma jstate_cong:
  assumes "geo v = geo w" "v_log_start v = v_log_start w" "v_log_end v = v_log_end w" "v_log_pending v = v_log_pending w"
    "v_pend_blocks v = v_pend_blocks w" "v_sb_seq v = v_sb_seq w" "v_tx_depth v = v_tx_depth w"
    "v_tx_poisoned v = v_tx_poisoned w" "v_log_draining v = v_log_draining w"
  shows "jstate D0 X txs j v s = jstate D0 X txs j w s"
  unfolding jstate_def using jinv_cong [OF assms(1-6)] assms(7-9) by simp

text \<open>The barrier publishes the batch before it writes any block of the bitmap.\<close>

lemma flush_publishes_first:
  assumes st: "jstate D0 X txs j v s" and pend: "v_log_pending v" and seq: "unat (v_sb_seq v) + 1 < 2 ^ 32"
  shows "\<exists>W k R. st_trace (snd (agfs_log_flush_locked dev v s)) = st_trace s @ W
     \<and> recovered (apply_writes (take k W) (st_disk s)) = Some R
     \<and> (\<forall>b. meta v b \<and> b \<notin> X \<longrightarrow> R b = apply_writes (concat txs) D0 b)
     \<and> (\<forall>b\<in>{1..bitmap_blocks v}. R b = st_disk s b)"
proof -
  obtain dn es es0 E where sp: "txs = dn @ es" and c: "jcache X es v s" and d: "jdisk D0 X dn es0 E es v s" and E: "E \<subseteq> tgts es"
    using st by (auto simp: jstate_def)
  have es: "es \<noteq> []" and geo: "geo_ok v" and pb: "v_pend_blocks v = log_size es" and co: "cache_ok s"
    and en: "v_log_end v = v_log_start v + log_size es" "v_log_end v \<le> agfs_log_len v"
    and tok: "\<forall>tx\<in>set es. tx_ok v tx" and lst: "plog v es \<subseteq> set (st_list s)"
    using c pend by (auto simp: jcache_def)
  obtain ps where ps: "published v (view s 0) (v_sb_seq v) ps (ps + log_size es0)" using d by (auto simp: jdisk_def)
  let ?A = "map (\<lambda>b. (b, view s b)) [agfs_log_block v (v_log_start v)..<agfs_log_block v (v_log_start v) + v_pend_blocks v]"
  have pos: "v_log_start v + v_pend_blocks v \<le> agfs_log_len v" using en pb by simp
  have dirty: "\<forall>p. v_log_start v \<le> p \<and> p < v_log_start v + v_pend_blocks v \<longrightarrow> agfs_log_block v p \<in> set (st_list s)"
    using lst pb by (auto simp: plog_def)
  obtain data B C where tr: "st_trace (snd (agfs_log_flush_locked dev v s)) = st_trace s @ ?A @ (0, data) # B @ C"
    and pub: "published v data (v_sb_seq v + 1) (v_log_start v) (v_log_end v)"
  proof -
    obtain v' s' data B C where "agfs_log_flush_locked dev v s = (v', s')"
      "st_trace s' = st_trace s @ ?A @ (0, data) # B @ C" "published v data (v_sb_seq v + 1) (v_log_start v) (v_log_end v)"
      using flush_shape [OF co pend geo ps seq pos en(2) dirty, of dev] by (elim exE conjE) (rule that)
    then show ?thesis using that [of data B C] by simp
  qed
  let ?D = "apply_writes (?A @ (0, data) # []) (st_disk s)"
  have "\<forall>(b, d)\<in>set []. (b = 0 \<longrightarrow> d = data) \<and> (bitmap_blocks v < b \<longrightarrow> b \<in> set (st_list s) \<and> d = view s b)" by simp
  note pw = published_writes [OF c es this]
  have "published v (?D 0) (v_sb_seq v + 1) (v_log_start v) (v_log_end v)" using pub pw(1) by simp
  then have rec: "recovered ?D = Some (apply_writes (concat es) ?D)"
    by (rule recovered_replays [OF _ geo tok pw(2) en])
  have low: "apply_writes (concat es) ?D b = st_disk s b" if "b \<in> {1..bitmap_blocks v}" for b
  proof -
    have "b \<notin> fst ` set (concat es)" using tok that by (fastforce simp: tx_ok_def meta_def)
    moreover have "b \<notin> fst ` set ?A" using that log_above [OF geo, of "v_log_start v"] by auto
    ultimately show ?thesis using that by (simp add: apply_writes_other)
  qed
  have all: "apply_writes (concat es) ?D b = apply_writes (concat txs) D0 b" if "meta v b" "b \<notin> X" for b
    unfolding sp by (rule published_recovers(2) [OF c d E es pub pw that])
  show ?thesis
    by (rule exI [of _ "?A @ (0, data) # B @ C"], rule exI [of _ "length ?A + 1"], rule exI [of _ "apply_writes (concat es) ?D"])
       (use tr rec low all in simp)
qed

text \<open>
  C37. The bitmap can be behind the metadata after a crash. With a pending batch and whatever bitmap
  \<open>bm\<close> in memory, the barrier has a crash point from which the mount replays the whole batch while
  every bitmap block still has its contents from before the barrier: the selective sync writes the
  blocks from 0 upwards, so the publishing superblock reaches the device before the bitmap does.
\<close>

theorem bitmap_behind_metadata:
  assumes pub: "published v0 (D0 0) q 0 0" and geo: "geo_ok v0" and X: "\<forall>b\<in>X. meta v0 b"
    and mount: "agfs_read_superblock [] (fresh_store D0) = (s, Inr v)"
    and run: "jruns dev locked X v s opers v1 s1" and pend: "v_log_pending v1"
    and seq: "unat q + 3 * length opers + 1 < 2 ^ 32"
  shows "\<exists>W k R. st_trace (snd (agfs_log_flush_locked dev (v1\<lparr>v_sb := (v_sb v1)\<lparr>s_bitmap := bm\<rparr>\<rparr>) s1)) = st_trace s1 @ W
     \<and> recovered (apply_writes (take k W) (st_disk s1)) = Some R
     \<and> (\<forall>b. meta v0 b \<and> b \<notin> X \<longrightarrow> R b = apply_writes (concat (jtxs opers)) D0 b)
     \<and> (\<forall>b\<in>{1..bitmap_blocks v0}. R b = st_disk s1 b)"
proof -
  have v: "geo v = geo v0" "jstate D0 X [] 0 v s" "v_sb_seq v = q"
    using mount_clean [where D = D0, OF pub geo X] mount by auto
  have sq: "unat (v_sb_seq v) + 3 * length opers < 2 ^ 32" using seq v(3) by simp
  let ?v = "v1\<lparr>v_sb := (v_sb v1)\<lparr>s_bitmap := bm\<rparr>\<rparr>"
  have "jstate D0 X (map tx_of (jtxs opers)) 0 v1 s1" using jruns_crash [OF run v(2) sq] by simp
  then have st: "jstate D0 X (map tx_of (jtxs opers)) 0 ?v s1" by (subst jstate_cong [where w = v1]) (simp_all add: geo_def)
  note g = jruns_geo [OF run v(2) sq]
  have "geo ?v = geo v0" using g v(1) by (simp add: geo_def)
  note ge = geo_eq(3) [OF this] geo_eq_meta(1) [OF this]
  have "v_log_pending ?v" "unat (v_sb_seq ?v) + 1 < 2 ^ 32" using g seq v(3) pend by simp_all
  from flush_publishes_first [OF st this, of dev] show ?thesis unfolding ge apply_concat_tx_of .
qed


theorem bitmap_behind_metadata_witness:
  "\<exists>s v v1 s1 W k R.
     agfs_read_superblock [] (fresh_store demo_disk) = (s, Inr v)
     \<and> jruns Discard (\<lambda>_. False) {} v s [JTx [(70, replicate 1024 1)]] v1 s1 \<and> v_log_pending v1
     \<and> st_trace (snd (agfs_log_flush_locked Discard (v1\<lparr>v_sb := (v_sb v1)\<lparr>s_bitmap := [replicate 4096 255]\<rparr>\<rparr>) s1)) = st_trace s1 @ W
     \<and> recovered (apply_writes (take k W) (st_disk s1)) = Some R \<and> R 70 = replicate 1024 1 \<and> R 1 = st_disk s1 1"
proof -
  let ?lk = "\<lambda>_ :: nat. False" and ?w = "[(70, replicate 1024 1)] :: tx"
  obtain s v where m: "agfs_read_superblock [] (fresh_store demo_disk) = (s, Inr v)" "geo v = geo demo_vol"
    "jstate demo_disk {} [] 0 v s" "v_sb_seq v = 4" "v_log_end v = 0"
    using mount_clean [where D = demo_disk and X = "{}", OF demo_disk_published demo_vol_geo(1)] by auto
  have idle: "v_tx_depth v = 0" "\<not> v_tx_poisoned v" "\<not> v_log_draining v" "\<not> v_log_pending v" "v_pend_blocks v = 0"
    using m(3) by (auto simp: jstate_def jcache_def)
  have len: "agfs_log_len v = 64" "meta v 70" "bitmap_blocks v = 1"
    using demo_vol_geo geo_eq(2,3) [OF m(2)] geo_eq_meta(1) [OF m(2)] by (simp_all add: bitmap_blocks_def demo_vol_def demo_sb_def)
  have ok: "jop_ok {} v s (JTx ?w)" using len m(5) by (simp add: jop_ok_def Let_def)
  obtain v1 s1 where e: "jexec Discard ?lk (JTx ?w) v s = (v1, s1)" by fastforce
  have run: "jruns Discard ?lk {} v s [JTx ?w] v1 s1" using ok e by (blast intro: jruns.intros)
  have pend: "v_log_pending v1"
    using e idle len(1) [unfolded agfs_log_len_def] m(5)
    by (auto simp: agfs_log_len_def jexec_def run_tx_def agfs_log_begin_def agfs_log_write_block_def agfs_log_record_def kmalloc_ok_def
        agfs_log_commit_def Let_def make_room.simps commit_entry_def agfs_log_free_tx_def split: prod.splits option.splits if_splits)
  have "\<exists>W k R. st_trace (snd (agfs_log_flush_locked Discard (v1\<lparr>v_sb := (v_sb v1)\<lparr>s_bitmap := [replicate 4096 255]\<rparr>\<rparr>) s1)) = st_trace s1 @ W
     \<and> recovered (apply_writes (take k W) (st_disk s1)) = Some R
     \<and> (\<forall>b. meta demo_vol b \<and> b \<notin> {} \<longrightarrow> R b = apply_writes (concat (jtxs [JTx ?w])) demo_disk b)
     \<and> (\<forall>b\<in>{1..bitmap_blocks demo_vol}. R b = st_disk s1 b)"
    by (rule bitmap_behind_metadata [where ?D0.0 = demo_disk, OF demo_disk_published demo_vol_geo(1) _ m(1) run pend]) simp_all
  then obtain W k R where R: "st_trace (snd (agfs_log_flush_locked Discard (v1\<lparr>v_sb := (v_sb v1)\<lparr>s_bitmap := [replicate 4096 255]\<rparr>\<rparr>) s1)) = st_trace s1 @ W"
     "recovered (apply_writes (take k W) (st_disk s1)) = Some R"
     "\<forall>b. meta demo_vol b \<longrightarrow> R b = apply_writes (concat (jtxs [JTx ?w])) demo_disk b"
     "\<forall>b\<in>{1..bitmap_blocks demo_vol}. R b = st_disk s1 b" by blast
  have "R 70 = replicate 1024 1" using R(3) demo_vol_geo(2) by simp
  moreover have "R 1 = st_disk s1 1" using R(4) len(3) geo_eq(3) [OF m(2)] by simp
  ultimately show ?thesis using m(1) run pend R(1,2) by blast
qed

lemma apply_writes_mix:
  "\<forall>(b, d)\<in>set W. d = G b \<Longrightarrow> apply_writes W D c = D c \<or> apply_writes W D c = G c"
proof (induction W arbitrary: D)
  case (Cons w W)
  obtain b d where w: "w = (b, d)" by fastforce
  have "apply_writes W (D(b := d)) c = (D(b := d)) c \<or> apply_writes W (D(b := d)) c = G c" by (rule Cons.IH) (use Cons.prems in simp)
  then show ?case using Cons.prems w by (auto simp: apply_writes_simps)
qed simp

text \<open>
  C19. Recovery can be interrupted. On a device that publishes the entries \<open>es\<close>, the mount succeeds,
  writes exactly the blocks of the entries, and starts an empty log in memory; a crash at any point
  of its own writes, and the mount after that, give the same device. Block 0 is not written: until
  the next superblock write it still publishes the old range, although the log restarts at 0.
\<close>

theorem recovery_restarts:
  assumes pub: "published v0 (D 0) q ps pe" and geo: "geo_ok v0" and es: "\<forall>tx\<in>set es. tx_ok v0 tx"
    and h: "holds v0 D ps es" and pe: "pe = ps + log_size es" "pe \<le> agfs_log_len v0"
  shows "\<exists>s v. agfs_read_superblock [] (fresh_store D) = (s, Inr v) \<and> st_disk s = apply_writes (concat es) D
     \<and> st_disk s 0 = D 0 \<and> (ps < pe \<longrightarrow> v_log_start v = 0 \<and> v_log_end v = 0)
     \<and> (\<forall>k. recovered (apply_writes (take k (st_trace s)) D) = Some (st_disk s))"
proof -
  obtain s v where m: "agfs_read_superblock [] (fresh_store D) = (s, Inr v)" "st_disk s = apply_writes (concat es) D"
    "\<forall>(b, d)\<in>set (st_trace s). d = st_disk s b" "ps < pe \<longrightarrow> v_log_start v = 0 \<and> v_log_end v = 0"
    using mount_replays [where D = D, OF pub geo es h pe] by blast
  have keep: "st_disk s b = D b" if "\<not> meta v0 b" for b
    using that es unfolding m(2) by (intro apply_writes_other) (fastforce simp: tx_ok_def)
  have "recovered (apply_writes (take k (st_trace s)) D) = Some (st_disk s)" for k
  proof -
    let ?D = "apply_writes (take k (st_trace s)) D"
    have mix: "?D b = D b \<or> ?D b = st_disk s b" for b
      by (rule apply_writes_mix) (use m(3) in \<open>auto dest: in_set_takeD\<close>)
    have "published v0 (?D 0) q ps pe" using pub mix [of 0] keep [of 0] by auto
    moreover have "holds v0 ?D ps es"
    proof (subst holds_cong [where G = D])
      fix p assume "p < ps + log_size es"
      then have "\<not> meta v0 (agfs_log_block v0 p)" using pe in_log_block [of p v0] by (simp add: meta_def)
      then show "?D (agfs_log_block v0 p) = D (agfs_log_block v0 p)" using mix keep by metis
    qed (rule h)
    ultimately have "recovered ?D = Some (apply_writes (concat es) ?D)" using recovered_replays [of v0 ?D q ps pe es] geo es pe by blast
    moreover have "apply_writes (concat es) ?D b = apply_writes (concat es) D b" for b
    proof (cases "b \<in> tgts es")
      case True
      then show ?thesis using apply_writes_hit [of b "concat es"] by simp
    next
      case False
      then show ?thesis using mix [of b] by (simp add: m(2) apply_writes_other)
    qed
    ultimately show ?thesis unfolding m(2) by (simp add: fun_eq_iff)
  qed
  then show ?thesis using m keep [of 0] by auto
qed


text \<open>The volume after a crash: one published entry for block 70.\<close>

definition demo_crashed :: "nat \<Rightarrow> byte list" where
  "demo_crashed =
     (let st = sb_struct (demo_vol\<lparr>v_log_end := 2\<rparr>) (replicate 32 0)
      in (\<lambda>_. replicate 1024 0)(0 := sb_copy st 4 @ sb_copy st 4, 2 := run_array demo_vol [70], 3 := replicate 1024 7))"

theorem recovery_restarts_witness:
  "\<exists>s v. agfs_read_superblock [] (fresh_store demo_crashed) = (s, Inr v) \<and> st_disk s 70 = replicate 1024 7
     \<and> st_disk s 0 = demo_crashed 0 \<and> v_log_end v = 0
     \<and> (\<forall>k. recovered (apply_writes (take k (st_trace s)) demo_crashed) = Some (st_disk s))"
proof -
  let ?es = "[[(70, replicate 1024 7)]] :: tx list"
  have "vol_fields_ok (demo_vol\<lparr>v_log_end := 2\<rparr>)" by (simp add: vol_fields_ok_def demo_vol_def demo_sb_def)
  then have pub: "published demo_vol (demo_crashed 0) 4 0 2" using demo_published [of 2] by (simp add: demo_crashed_def Let_def)
  have blk: "agfs_log_block demo_vol p = 2 + p" for p
    by (simp add: agfs_log_block_def agfs_log_run_abs_def run_block32_def demo_vol_def demo_sb_def)
  have es: "\<forall>tx\<in>set ?es. tx_ok demo_vol tx" "holds demo_vol demo_crashed 0 ?es"
    using demo_vol_geo(2) by (simp_all add: tx_ok_def demo_crashed_def Let_def blk)
  have len: "2 = 0 + log_size ?es" "2 \<le> agfs_log_len demo_vol" using demo_vol_geo(4) by simp_all
  show ?thesis
    using recovery_restarts [where D = demo_crashed, OF pub demo_vol_geo(1) es len] by auto
qed

end
