(* ===== verification/File_Locks.thy ===== *)
theory File_Locks
  imports Prelude
begin

text \<open>
  Advisory file locks, \<^verbatim>\<open>fs/locks.c\<close>: the table of locks, the scan that decides a request, the
  BSD and POSIX entry points, and the processes that sleep until a lock is released. The doubly
  linked table is the list of its records; the address of a record, on which processes sleep, is a
  number that no other record of the table has. One pass of the loop of \<^verbatim>\<open>flock_inode\<close> is one step: the
  kernel does not switch processes between the scan and the sleep or the update that follow it.
\<close>

abbreviation (input) LOCK_SH :: u32 where "LOCK_SH \<equiv> 1"
abbreviation (input) LOCK_EX :: u32 where "LOCK_EX \<equiv> 2"
abbreviation (input) LOCK_NB :: u32 where "LOCK_NB \<equiv> 4"
abbreviation (input) LOCK_UN :: u32 where "LOCK_UN \<equiv> 8"
abbreviation (input) NR_FLOCKS :: nat where "NR_FLOCKS \<equiv> 5120"

type_synonym pid = nat

record flock_file =
  ff_id :: nat
  ff_inode :: nat
  ff_type :: byte
  ff_proc :: "pid option"

text \<open>What a process is doing: nothing, sleeping on a record, or woken and about to look again.\<close>

datatype fl_call = FlIdle | FlAsleep nat nat u32 | FlWoken nat u32

record flocks =
  fl_table :: "flock_file list"
  fl_nr :: nat
  fl_proc :: "pid \<Rightarrow> fl_call"

subsection \<open>The table\<close>

definition get_new_flock :: "nat option \<Rightarrow> flocks \<Rightarrow> nat \<Rightarrow> (flocks \<times> nat) option" where
  "get_new_flock mem s i =
     (if fl_nr s + 1 > NR_FLOCKS then None
      else
        (case mem of
           None \<Rightarrow> None
         | Some a \<Rightarrow>
             Some (s\<lparr>fl_table := fl_table s @ [\<lparr>ff_id = a, ff_inode = i, ff_type = 0, ff_proc = None\<rparr>], fl_nr := fl_nr s + 1\<rparr>, a)))"

definition release_flock :: "flocks \<Rightarrow> nat \<Rightarrow> flocks" where
  "release_flock s d =
     (if d \<in> ff_id ` set (fl_table s) then s\<lparr>fl_table := filter (\<lambda>f. ff_id f \<noteq> d) (fl_table s), fl_nr := fl_nr s - 1\<rparr> else s)"

definition get_flock_file :: "flocks \<Rightarrow> nat \<Rightarrow> pid \<Rightarrow> flock_file option" where
  "get_flock_file s i p = find (\<lambda>f. ff_inode f = i \<and> ff_proc f = Some p) (fl_table s)"

definition wakeup :: "nat \<Rightarrow> flocks \<Rightarrow> flocks" where
  "wakeup d s =
     s\<lparr>fl_proc := (\<lambda>p. case fl_proc s p of
                         FlAsleep e i oper \<Rightarrow> if e = d then FlWoken i oper else FlAsleep e i oper
                       | c \<Rightarrow> c)\<rparr>"

subsection \<open>Requests\<close>

text \<open>The scan: a conflicting record, or the caller's record to take over and the record to wake.\<close>

datatype fl_scan = FlConflict nat | FlPass "nat option" "nat option"

fun flock_scan :: "pid \<Rightarrow> nat \<Rightarrow> u32 \<Rightarrow> nat option \<Rightarrow> flock_file list \<Rightarrow> fl_scan" where
  "flock_scan p i oper new [] = FlPass new None"
| "flock_scan p i oper new (f # fs) =
     (if ff_inode f \<noteq> i then flock_scan p i oper new fs
      else if oper AND LOCK_SH \<noteq> 0 \<and> ff_type f AND 2 \<noteq> 0 then
        (if ff_proc f = Some p then FlPass (Some (ff_id f)) (Some (ff_id f)) else FlConflict (ff_id f))
      else if oper AND LOCK_EX \<noteq> 0 then
        (if ff_proc f = Some p then flock_scan p i oper (Some (ff_id f)) fs else FlConflict (ff_id f))
      else flock_scan p i oper new fs)"

definition set_flock :: "flocks \<Rightarrow> nat \<Rightarrow> nat \<Rightarrow> u32 \<Rightarrow> pid \<Rightarrow> flocks" where
  "set_flock s d i oper p =
     s\<lparr>fl_table := map (\<lambda>f. if ff_id f = d then f\<lparr>ff_inode := i, ff_type := ucast oper, ff_proc := Some p\<rparr> else f) (fl_table s)\<rparr>"

definition fl_return :: "pid \<Rightarrow> flocks \<Rightarrow> flocks" where
  "fl_return p s = s\<lparr>fl_proc := (fl_proc s)(p := FlIdle)\<rparr>"

text \<open>One pass of the loop: the new state and the result, \<open>None\<close> when the process sleeps.\<close>

definition flock_inode :: "nat option \<Rightarrow> pid \<Rightarrow> flocks \<Rightarrow> nat \<Rightarrow> u32 \<Rightarrow> flocks \<times> status option" where
  "flock_inode mem p s i oper =
     (if oper AND LOCK_UN \<noteq> 0 then
        (case get_flock_file s i p of
           Some f \<Rightarrow> (fl_return p (release_flock (wakeup (ff_id f) s) (ff_id f)), Some None)
         | None \<Rightarrow> (fl_return p s, Some None))
      else
        (case flock_scan p i oper None (fl_table s) of
           FlConflict d \<Rightarrow>
             if oper AND LOCK_NB \<noteq> 0 then (fl_return p s, Some (Some EAGAIN))
             else (s\<lparr>fl_proc := (fl_proc s)(p := FlAsleep d i oper)\<rparr>, None)
         | FlPass new woken \<Rightarrow>
             (let s1 = (case woken of None \<Rightarrow> s | Some d \<Rightarrow> wakeup d s)
              in case new of
                   Some d \<Rightarrow> (fl_return p (set_flock s1 d i oper p), Some None)
                 | None \<Rightarrow>
                     (case get_new_flock mem s1 i of
                        None \<Rightarrow> (fl_return p s1, Some (Some ENOLCK))
                      | Some (s2, d) \<Rightarrow> (fl_return p (set_flock s2 d i oper p), Some None)))))"

text \<open>
  The release at the last close of a descriptor. The loop of the code reads the link of the record it
  has just freed; the model takes the link to be intact.
\<close>

fun release_loop :: "pid \<Rightarrow> nat \<Rightarrow> flock_file list \<Rightarrow> flocks \<Rightarrow> flocks" where
  "release_loop p i [] s = s"
| "release_loop p i (f # fs) s =
     release_loop p i fs
       (if ff_inode f = i \<and> ff_proc f = Some p then release_flock (wakeup (ff_id f) s) (ff_id f) else s)"

definition flock_release_inode :: "pid \<Rightarrow> nat \<Rightarrow> flocks \<Rightarrow> flocks" where
  "flock_release_inode p i s = release_loop p i (fl_table s) s"

subsection \<open>POSIX locks\<close>

datatype fcntl_cmd = F_GETLK | F_SETLK | F_SETLKW

abbreviation (input) F_RDLCK :: int where "F_RDLCK \<equiv> 0"
abbreviation (input) F_WRLCK :: int where "F_WRLCK \<equiv> 1"
abbreviation (input) F_UNLCK :: int where "F_UNLCK \<equiv> 2"

record flock =
  l_type :: int
  l_whence :: int
  l_start :: int
  l_len :: int
  l_pid :: pid

definition posix_getlk :: "flocks \<Rightarrow> nat \<Rightarrow> flock \<Rightarrow> flock" where
  "posix_getlk s i fl =
     (case find (\<lambda>f. ff_inode f = i) (fl_table s) of
        Some f \<Rightarrow> fl\<lparr>l_type := if ff_type f AND 1 \<noteq> 0 then F_RDLCK else F_WRLCK, l_whence := 0, l_start := 0, l_len := 0,
                     l_pid := the (ff_proc f)\<rparr>
      | None \<Rightarrow> fl\<lparr>l_type := F_UNLCK\<rparr>)"

definition posix_type :: "flock \<Rightarrow> u32 option" where
  "posix_type fl =
     (if l_type fl = F_RDLCK then Some LOCK_SH
      else if l_type fl = F_WRLCK then Some LOCK_EX
      else if l_type fl = F_UNLCK then Some LOCK_UN
      else None)"

definition posix_lock ::
  "nat option \<Rightarrow> pid \<Rightarrow> flocks \<Rightarrow> nat \<Rightarrow> fcntl_cmd \<Rightarrow> flock \<Rightarrow> flocks \<times> flock \<times> status option" where
  "posix_lock mem p s i cmd fl =
     (let fl' = (if cmd = F_GETLK then posix_getlk s i fl else fl)
      in case posix_type fl' of
           None \<Rightarrow> (s, fl', Some (Some EINVAL))
         | Some ty \<Rightarrow>
             (case cmd of
                F_GETLK \<Rightarrow> (s, fl', Some None)
              | F_SETLK \<Rightarrow> (case flock_inode mem p s i ty of (s', r) \<Rightarrow> (s', fl', r))
              | F_SETLKW \<Rightarrow> (case flock_inode mem p s i (ty OR LOCK_NB) of (s', r) \<Rightarrow> (s', fl', r))))"

subsection \<open>Processes\<close>

text \<open>
  The calls of the processes in any order: a request, the next pass of a woken process, a signal
  that interrupts a sleep, and the last close of a descriptor. \<open>kmalloc\<close> returns an address that
  no record in use has, or fails.
\<close>

definition fresh_addr :: "nat option \<Rightarrow> flocks \<Rightarrow> bool" where
  "fresh_addr mem s \<longleftrightarrow> (\<forall>a. mem = Some a \<longrightarrow> a \<notin> ff_id ` set (fl_table s))"

definition no_flocks :: flocks where
  "no_flocks = \<lparr>fl_table = [], fl_nr = 0, fl_proc = (\<lambda>_. FlIdle)\<rparr>"

inductive flock_reach :: "flocks \<Rightarrow> bool" where
  fl_init: "flock_reach no_flocks"
| fl_flock: "flock_reach s \<Longrightarrow> fl_proc s p = FlIdle \<Longrightarrow> fresh_addr mem s \<Longrightarrow> flock_inode mem p s i oper = (s', r) \<Longrightarrow> flock_reach s'"
| fl_fcntl: "flock_reach s \<Longrightarrow> fl_proc s p = FlIdle \<Longrightarrow> fresh_addr mem s \<Longrightarrow> posix_lock mem p s i cmd fl = (s', fl', r) \<Longrightarrow> flock_reach s'"
| fl_retry: "flock_reach s \<Longrightarrow> fl_proc s p = FlWoken i oper \<Longrightarrow> fresh_addr mem s \<Longrightarrow> flock_inode mem p s i oper = (s', r) \<Longrightarrow> flock_reach s'"
| fl_signal: "flock_reach s \<Longrightarrow> flock_reach (fl_return p s)"
| fl_close: "flock_reach s \<Longrightarrow> fl_proc s p = FlIdle \<Longrightarrow> flock_reach (flock_release_inode p i s)"

subsection \<open>The invariant\<close>

abbreviation fl_exclusive :: "flock_file \<Rightarrow> bool" where
  "fl_exclusive f \<equiv> ff_type f AND 2 \<noteq> 0"

abbreviation fl_held :: "flock_file \<Rightarrow> bool" where
  "fl_held f \<equiv> ff_type f AND 3 \<noteq> 0"

definition fl_excl :: "flock_file list \<Rightarrow> bool" where
  "fl_excl fs \<longleftrightarrow>
     (\<forall>f\<in>set fs. \<forall>g\<in>set fs. ff_inode f = ff_inode g \<and> fl_exclusive f \<and> ff_proc f \<noteq> ff_proc g \<longrightarrow> \<not> fl_held g)"

text \<open>The record \<open>f\<close> is the one process \<open>q\<close> sleeps on, and it still stands against the request.\<close>

definition fl_blocks :: "pid \<Rightarrow> nat \<Rightarrow> nat \<Rightarrow> u32 \<Rightarrow> flock_file \<Rightarrow> bool" where
  "fl_blocks q d i oper f \<longleftrightarrow>
     ff_id f = d \<and> ff_inode f = i \<and> ff_proc f \<noteq> Some q
     \<and> (oper AND LOCK_EX \<noteq> 0 \<or> oper AND LOCK_SH \<noteq> 0 \<and> fl_exclusive f)"

definition fl_table_ok :: "flocks \<Rightarrow> bool" where
  "fl_table_ok s \<longleftrightarrow>
     distinct (map ff_id (fl_table s)) \<and> fl_nr s = length (fl_table s) \<and> length (fl_table s) \<le> NR_FLOCKS
     \<and> (\<forall>f\<in>set (fl_table s). ff_proc f \<noteq> None) \<and> fl_excl (fl_table s)"

definition fl_sleep_ok :: "flocks \<Rightarrow> bool" where
  "fl_sleep_ok s \<longleftrightarrow> (\<forall>q d i oper. fl_proc s q = FlAsleep d i oper \<longrightarrow> (\<exists>f\<in>set (fl_table s). fl_blocks q d i oper f))"

lemma lock_bits:
  "((x :: 'a :: len word) AND 1 = 0) = (\<not> bit x 0)" "(x AND 2 = 0) = (\<not> bit x 1)" "(x AND 3 = 0) = (\<not> bit x 0 \<and> \<not> bit x 1)"
proof -
  show 1: "(x AND 1 = 0) = (\<not> bit x 0)" using and_exp_eq_0_iff_not_bit [of x 0] by simp
  show 2: "(x AND 2 = 0) = (\<not> bit x 1)" using and_exp_eq_0_iff_not_bit [of x 1] by simp
  have "x AND (1 OR 2) = (x AND 1) OR (x AND 2)" by (rule bit.conj_disj_distrib)
  then have "x AND 3 = (x AND 1) OR (x AND 2)" unfolding or_numerals(1) by simp
  then show "(x AND 3 = 0) = (\<not> bit x 0 \<and> \<not> bit x 1)" using 1 2 by (simp add: or_eq_0_iff)
qed

lemma ucast_lock_bit [simp]: "n < 8 \<Longrightarrow> bit (ucast (oper :: u32) :: byte) n = bit oper n"
  by (simp add: bit_ucast_iff)


lemma fl_table_okD:
  assumes "fl_table_ok s" "f \<in> set (fl_table s)" "g \<in> set (fl_table s)"
  shows "ff_id f = ff_id g \<Longrightarrow> f = g"
    and "ff_inode f = ff_inode g \<Longrightarrow> fl_exclusive f \<Longrightarrow> ff_proc f \<noteq> ff_proc g \<Longrightarrow> \<not> fl_held g"
  using assms by (simp_all add: fl_table_ok_def distinct_map inj_on_def fl_excl_def)

text \<open>What the scan of the table decides.\<close>

lemma flock_scan_conflict:
  "flock_scan p i oper new fs = FlConflict d \<Longrightarrow> \<exists>f\<in>set fs. fl_blocks p d i oper f"
  by (induction p i oper new fs rule: flock_scan.induct) (auto simp: fl_blocks_def split: if_splits)

lemma flock_scan_woken:
  "flock_scan p i oper new fs = FlPass n (Some d) \<Longrightarrow>
     n = Some d \<and> (\<exists>f\<in>set fs. ff_id f = d \<and> ff_inode f = i \<and> ff_proc f = Some p \<and> fl_exclusive f)"
  by (induction p i oper new fs rule: flock_scan.induct) (auto split: if_splits)

lemma flock_scan_quiet:
  "flock_scan p i oper new fs = FlPass n None \<Longrightarrow>
     (n = new \<or> (\<exists>f\<in>set fs. n = Some (ff_id f) \<and> ff_inode f = i \<and> ff_proc f = Some p) \<and> oper AND LOCK_EX \<noteq> 0)
     \<and> (\<forall>f\<in>set fs. ff_inode f = i \<longrightarrow>
          (oper AND LOCK_SH \<noteq> 0 \<longrightarrow> \<not> fl_exclusive f) \<and> (oper AND LOCK_EX \<noteq> 0 \<longrightarrow> ff_proc f = Some p))"
proof (induction fs arbitrary: new)
  case (Cons f fs)
  show ?case
  proof (cases "ff_inode f = i")
    case True
    have c: "\<not> (oper AND LOCK_SH \<noteq> 0 \<and> fl_exclusive f)" using Cons.prems True by (auto split: if_splits)
    show ?thesis
    proof (cases "oper AND LOCK_EX = 0")
      case False
      then have own: "ff_proc f = Some p" and sc: "flock_scan p i oper (Some (ff_id f)) fs = FlPass n None"
        using Cons.prems True c by (auto split: if_splits)
      show ?thesis using Cons.IH [OF sc] own True c False by auto
    next
      case ex: True
      then have sc: "flock_scan p i oper new fs = FlPass n None" using Cons.prems True c by (auto split: if_splits)
      show ?thesis using Cons.IH [OF sc] True c ex by auto
    qed
  next
    case False
    then have sc: "flock_scan p i oper new fs = FlPass n None" using Cons.prems by simp
    show ?thesis using Cons.IH [OF sc] False by auto
  qed
qed simp

text \<open>A request is granted against the records of other processes on the same file.\<close>

definition fl_grantable :: "flocks \<Rightarrow> nat \<Rightarrow> nat \<Rightarrow> u32 \<Rightarrow> pid \<Rightarrow> bool" where
  "fl_grantable s d i oper p \<longleftrightarrow>
     (\<forall>g\<in>set (fl_table s). ff_inode g = i \<and> ff_id g \<noteq> d \<and> ff_proc g \<noteq> Some p \<longrightarrow>
        (oper AND LOCK_EX \<noteq> 0 \<longrightarrow> \<not> fl_held g) \<and> (oper AND 3 \<noteq> 0 \<longrightarrow> \<not> fl_exclusive g))"

lemma set_flock_table_ok:
  assumes ok: "fl_table_ok s" and g: "fl_grantable s d i oper p"
  shows "fl_table_ok (set_flock s d i oper p)"
proof -
  define u :: "flock_file \<Rightarrow> flock_file" where "u = (\<lambda>f. if ff_id f = d then f\<lparr>ff_inode := i, ff_type := ucast oper, ff_proc := Some p\<rparr> else f)"
  have ids: "map ff_id (map u (fl_table s)) = map ff_id (fl_table s)" by (simp add: u_def)
  have "\<not> fl_held (u g')" if "f \<in> set (fl_table s)" "g' \<in> set (fl_table s)" "ff_inode (u f) = ff_inode (u g')"
    "fl_exclusive (u f)" "ff_proc (u f) \<noteq> ff_proc (u g')" for f g'
  proof -
    note ex = ok [unfolded fl_table_ok_def fl_excl_def, THEN conjunct2, THEN conjunct2, THEN conjunct2, THEN conjunct2, rule_format]
    note gr = g [unfolded fl_grantable_def, rule_format]
    consider "ff_id f = d" "ff_id g' = d" | "ff_id f = d" "ff_id g' \<noteq> d" | "ff_id f \<noteq> d" "ff_id g' = d" | "ff_id f \<noteq> d" "ff_id g' \<noteq> d" by blast
    then show ?thesis
    proof cases
      case 1 then show ?thesis using that(5) by (simp add: u_def)
    next
      case 2 then show ?thesis using that gr [of g'] by (simp add: u_def lock_bits)
    next
      case 3 then show ?thesis using that gr [of f] by (simp add: u_def lock_bits)
    next
      case 4 then show ?thesis using that ex [of f g'] by (simp add: u_def)
    qed
  qed
  then have "fl_excl (map u (fl_table s))" unfolding fl_excl_def by auto
  moreover have "\<forall>f\<in>set (map u (fl_table s)). ff_proc f \<noteq> None" using ok by (auto simp: fl_table_ok_def u_def)
  moreover have sf: "fl_table (set_flock s d i oper p) = map u (fl_table s)" "fl_nr (set_flock s d i oper p) = fl_nr s"
    by (simp_all add: set_flock_def u_def)
  ultimately show ?thesis unfolding fl_table_ok_def sf ids length_map using ok [unfolded fl_table_ok_def] by blast
qed

lemma set_flock_sleep_ok:
  assumes "fl_sleep_ok s" "\<forall>f\<in>set (fl_table s). ff_id f = d \<longrightarrow> ff_inode f = i \<and> ff_proc f = Some p"
    and "oper AND LOCK_EX \<noteq> 0 \<or> (\<forall>q j o'. fl_proc s q \<noteq> FlAsleep d j o')"
  shows "fl_sleep_ok (set_flock s d i oper p)"
proof -
  let ?u = "\<lambda>f. if ff_id f = d then f\<lparr>ff_inode := i, ff_type := ucast oper, ff_proc := Some p\<rparr> else f"
  have "\<exists>f\<in>set (map ?u (fl_table s)). fl_blocks q e j o' f" if a: "fl_proc s q = FlAsleep e j o'" for q e j o'
  proof -
    obtain f where f: "f \<in> set (fl_table s)" "fl_blocks q e j o' f" using assms(1) [unfolded fl_sleep_ok_def, rule_format, OF a] by blast
    have "fl_blocks q e j o' (?u f)" using f assms(2,3) a by (auto simp: fl_blocks_def lock_bits)
    then show ?thesis using f(1) unfolding set_map by (rule bexI [OF _ imageI])
  qed
  then show ?thesis by (simp add: fl_sleep_ok_def set_flock_def)
qed

lemma wakeup_ok:
  "fl_table_ok (wakeup d s) = fl_table_ok s" "fl_sleep_ok s \<Longrightarrow> fl_sleep_ok (wakeup d s)"
  "fl_table (wakeup d s) = fl_table s" "fl_proc (wakeup d s) q \<noteq> FlAsleep d j oper"
  by (auto simp: wakeup_def fl_table_ok_def fl_sleep_ok_def split: fl_call.splits if_splits)

lemma fl_return_ok:
  "fl_table_ok (fl_return p s) = fl_table_ok s" "fl_sleep_ok s \<Longrightarrow> fl_sleep_ok (fl_return p s)"
  by (auto simp: fl_return_def fl_table_ok_def fl_sleep_ok_def)

lemma release_ok:
  assumes t: "fl_table_ok s" and sl: "fl_sleep_ok s"
  shows "fl_table_ok (release_flock (wakeup d s) d)" "fl_sleep_ok (release_flock (wakeup d s) d)"
proof -
  have "length (filter (\<lambda>f. ff_id f \<noteq> d) fs) = length fs - 1" if "distinct (map ff_id fs)" "d \<in> ff_id ` set fs" for fs
    using that
  proof (induction fs)
    case (Cons f fs)
    show ?case
    proof (cases "ff_id f = d")
      case True
      then have "filter (\<lambda>f. ff_id f \<noteq> d) fs = fs" using Cons.prems(1) by (intro filter_True) (metis distinct.simps(2) image_eqI list.set_map list.simps(9))
      then show ?thesis using True by simp
    next
      case False
      then show ?thesis using Cons by (cases fs) auto
    qed
  qed simp
  then show "fl_table_ok (release_flock (wakeup d s) d)"
    using t by (auto simp: release_flock_def wakeup_ok fl_table_ok_def fl_excl_def wakeup_def distinct_map_filter)
  have "\<exists>f\<in>set (filter (\<lambda>f. ff_id f \<noteq> d) (fl_table s)). fl_blocks q e i oper f" if a: "fl_proc (wakeup d s) q = FlAsleep e i oper" for q e i oper
  proof -
    have "e \<noteq> d" using a wakeup_ok(4) [of d s q] by metis
    moreover obtain f where "f \<in> set (fl_table s)" "fl_blocks q e i oper f"
      using wakeup_ok(2) [OF sl, of d, unfolded fl_sleep_ok_def wakeup_ok(3), rule_format, OF a] by blast
    ultimately show ?thesis by (auto simp: fl_blocks_def)
  qed
  then show "fl_sleep_ok (release_flock (wakeup d s) d)"
    using wakeup_ok(2) [OF sl, of d] by (auto simp: release_flock_def fl_sleep_ok_def wakeup_ok(3))
qed

subsection \<open>Every call keeps the invariant\<close>

lemma get_flock_file_own:
  "get_flock_file s i p = Some f \<Longrightarrow> f \<in> set (fl_table s)"
  by (auto simp: get_flock_file_def find_Some_iff)

lemma fl_new_ok:
  assumes t: "fl_table_ok s" and sl: "fl_sleep_ok s" and fr: "fresh_addr mem s" and new: "get_new_flock mem s i = Some (s1, d)"
    and sh: "oper AND LOCK_SH \<noteq> 0 \<longrightarrow> (\<forall>f\<in>set (fl_table s). ff_inode f = i \<longrightarrow> \<not> fl_exclusive f)"
    and ex: "oper AND LOCK_EX \<noteq> 0 \<longrightarrow> (\<forall>f\<in>set (fl_table s). ff_inode f = i \<longrightarrow> ff_proc f = Some p)"
  shows "fl_table_ok (set_flock s1 d i oper p)" "fl_sleep_ok (set_flock s1 d i oper p)"
proof -
  let ?n = "\<lparr>ff_id = d, ff_inode = i, ff_type = 0, ff_proc = None\<rparr>"
  let ?f = "\<lparr>ff_id = d, ff_inode = i, ff_type = ucast oper, ff_proc = Some p\<rparr>"
  have s1: "fl_table s1 = fl_table s @ [?n]" "fl_nr s1 = fl_nr s + 1" "fl_proc s1 = fl_proc s" "fl_nr s + 1 \<le> NR_FLOCKS"
    and d: "mem = Some d" using new by (auto simp: get_new_flock_def split: if_splits option.splits)
  have nd: "d \<notin> ff_id ` set (fl_table s)" using fr d by (simp add: fresh_addr_def)
  then have "map (\<lambda>f. if ff_id f = d then f\<lparr>ff_inode := i, ff_type := ucast oper, ff_proc := Some p\<rparr> else f) (fl_table s) = fl_table s"
    by (intro map_idI) auto
  then have tb: "fl_table (set_flock s1 d i oper p) = fl_table s @ [?f]" by (simp add: set_flock_def s1)
  have nr: "fl_nr (set_flock s1 d i oper p) = fl_nr s + 1" "fl_proc (set_flock s1 d i oper p) = fl_proc s" by (simp_all add: set_flock_def s1)
  have exc: "fl_excl (fl_table s)" using t by (simp add: fl_table_ok_def)
  have "\<not> fl_held g" if "g \<in> set (fl_table s)" "ff_inode g = i" "fl_exclusive ?f" "ff_proc g \<noteq> Some p" for g
    using that ex by (auto simp: lock_bits)
  moreover have "\<not> fl_held ?f" if "g \<in> set (fl_table s)" "ff_inode g = i" "fl_exclusive g" "ff_proc g \<noteq> Some p" for g
    using that ex sh by (auto simp: lock_bits)
  ultimately have "fl_excl (fl_table s @ [?f])" using exc unfolding fl_excl_def by auto
  then show "fl_table_ok (set_flock s1 d i oper p)"
    unfolding fl_table_ok_def tb nr using t nd s1(4) by (auto simp: fl_table_ok_def)
  show "fl_sleep_ok (set_flock s1 d i oper p)" unfolding fl_sleep_ok_def tb nr using sl by (auto simp: fl_sleep_ok_def)
qed

lemma fl_take_over_ok:
  assumes t: "fl_table_ok s" and sl: "fl_sleep_ok s" and g: "fl_grantable s d i oper p"
    and f: "f \<in> set (fl_table s)" "ff_id f = d" "ff_inode f = i" "ff_proc f = Some p"
    and w: "oper AND LOCK_EX \<noteq> 0 \<or> (\<forall>q j o'. fl_proc s q \<noteq> FlAsleep d j o')"
  shows "fl_table_ok (set_flock s d i oper p)" "fl_sleep_ok (set_flock s d i oper p)"
proof -
  show "fl_table_ok (set_flock s d i oper p)" by (rule set_flock_table_ok [OF t g])
  have "g = f" if "g \<in> set (fl_table s)" "ff_id g = d" for g
    using fl_table_okD(1) [OF t that(1) f(1)] that(2) f(2) by simp
  then have "\<forall>g\<in>set (fl_table s). ff_id g = d \<longrightarrow> ff_inode g = i \<and> ff_proc g = Some p" using f(3,4) by blast
  then show "fl_sleep_ok (set_flock s d i oper p)" by (rule set_flock_sleep_ok [OF sl _ w])
qed

lemma fl_downgrade_ok:
  assumes t: "fl_table_ok s" and sl: "fl_sleep_ok s"
    and f: "f \<in> set (fl_table s)" "ff_id f = d" "ff_inode f = i" "ff_proc f = Some p" "fl_exclusive f"
  shows "fl_table_ok (set_flock (wakeup d s) d i oper p)" "fl_sleep_ok (set_flock (wakeup d s) d i oper p)"
proof -
  have "fl_grantable (wakeup d s) d i oper p"
    unfolding fl_grantable_def wakeup_ok(3)
  proof (intro ballI impI)
    fix g assume g: "g \<in> set (fl_table s)" "ff_inode g = i \<and> ff_id g \<noteq> d \<and> ff_proc g \<noteq> Some p"
    then have "\<not> fl_held g" using fl_table_okD(2) [OF t f(1) g(1)] f(3-5) g(2) by auto
    then show "(oper AND LOCK_EX \<noteq> 0 \<longrightarrow> \<not> fl_held g) \<and> (oper AND 3 \<noteq> 0 \<longrightarrow> \<not> fl_exclusive g)" by (simp add: lock_bits)
  qed
  note ok = fl_take_over_ok [OF _ wakeup_ok(2) [OF sl] this, of f, unfolded wakeup_ok(1,3), OF t f(1-4)]
  show "fl_table_ok (set_flock (wakeup d s) d i oper p)" "fl_sleep_ok (set_flock (wakeup d s) d i oper p)"
    by (rule ok; simp add: wakeup_ok(4))+
qed

text \<open>The granted request, with the record the scan chose.\<close>

lemma flock_pass_ok:
  assumes t: "fl_table_ok s" and sl: "fl_sleep_ok s" and fr: "fresh_addr mem s" and un: "oper AND LOCK_UN = 0"
    and sc: "flock_scan p i oper None (fl_table s) = FlPass new woken" and r: "flock_inode mem p s i oper = (s', r)"
  shows "fl_table_ok s' \<and> fl_sleep_ok s'"
proof (cases woken)
  case (Some d)
  note w = flock_scan_woken [OF sc [unfolded Some]]
  obtain f where f: "f \<in> set (fl_table s)" "ff_id f = d" "ff_inode f = i" "ff_proc f = Some p" "fl_exclusive f" using w by blast
  have "s' = fl_return p (set_flock (wakeup d s) d i oper p)" using r un sc Some w by (simp add: flock_inode_def)
  then show ?thesis using fl_downgrade_ok [OF t sl f] by (simp add: fl_return_ok)
next
  case None
  note q = flock_scan_quiet [OF sc [unfolded None]]
  show ?thesis
  proof (cases new)
    case (Some d)
    obtain f where f: "f \<in> set (fl_table s)" "ff_id f = d" "ff_inode f = i" "ff_proc f = Some p" and ex: "oper AND LOCK_EX \<noteq> 0"
      using q Some by auto
    have s': "s' = fl_return p (set_flock s d i oper p)" using r un sc None Some by (simp add: flock_inode_def)
    have "fl_grantable s d i oper p" using q ex by (auto simp: fl_grantable_def)
    from fl_take_over_ok [OF t sl this f] ex show ?thesis unfolding s' by (simp add: fl_return_ok)
  next
    case n: None
    show ?thesis
    proof (cases "get_new_flock mem s i")
      case gn: None
      then have "s' = fl_return p s" using r un sc None n by (simp add: flock_inode_def)
      then show ?thesis using t sl by (simp add: fl_return_ok)
    next
      case (Some sd)
      obtain s1 d where sd: "sd = (s1, d)" by fastforce
      have s': "s' = fl_return p (set_flock s1 d i oper p)" using r un sc None n Some sd by (simp add: flock_inode_def)
      have "fl_table_ok (set_flock s1 d i oper p)" "fl_sleep_ok (set_flock s1 d i oper p)"
        by (rule fl_new_ok [OF t sl fr Some [unfolded sd]]; use q in auto)+
      then show ?thesis unfolding s' by (simp add: fl_return_ok)
    qed
  qed
qed

lemma flock_inode_ok:
  assumes t: "fl_table_ok s" and sl: "fl_sleep_ok s" and fr: "fresh_addr mem s" and r: "flock_inode mem p s i oper = (s', r)"
  shows "fl_table_ok s' \<and> fl_sleep_ok s'"
proof (cases "oper AND LOCK_UN = 0")
  case False
  then show ?thesis
    using r t sl by (auto simp: flock_inode_def fl_return_ok release_ok split: option.splits)
next
  case un: True
  show ?thesis
  proof (cases "flock_scan p i oper None (fl_table s)")
    case (FlConflict d)
    obtain f where f: "f \<in> set (fl_table s)" "fl_blocks p d i oper f" using flock_scan_conflict [OF FlConflict] by blast
    have "fl_sleep_ok (s\<lparr>fl_proc := (fl_proc s)(p := FlAsleep d i oper)\<rparr>)" using f sl by (auto simp: fl_sleep_ok_def)
    moreover have "fl_table_ok (s\<lparr>fl_proc := (fl_proc s)(p := FlAsleep d i oper)\<rparr>)" using t by (simp add: fl_table_ok_def)
    ultimately show ?thesis using r un FlConflict t sl by (auto simp: flock_inode_def fl_return_ok split: if_splits)
  next
    case (FlPass new woken)
    then show ?thesis by (rule flock_pass_ok [OF t sl fr un _ r])
  qed
qed

lemma release_loop_ok:
  "fl_table_ok s \<Longrightarrow> fl_sleep_ok s \<Longrightarrow> fl_table_ok (release_loop p i fs s) \<and> fl_sleep_ok (release_loop p i fs s)"
  by (induction p i fs s rule: release_loop.induct) (auto simp: release_ok)

lemma flock_reach_ok: "flock_reach s \<Longrightarrow> fl_table_ok s \<and> fl_sleep_ok s"
proof (induction rule: flock_reach.induct)
  case fl_init
  then show ?case by (simp add: no_flocks_def fl_table_ok_def fl_excl_def fl_sleep_ok_def)
next
  case (fl_fcntl s p mem i cmd fl s' fl' r)
  have "s' = s \<or> (\<exists>oper r'. flock_inode mem p s i oper = (s', r'))"
    using fl_fcntl.hyps(4) by (auto simp: posix_lock_def Let_def split: option.splits fcntl_cmd.splits prod.splits if_splits)
  then show ?case using fl_fcntl flock_inode_ok [of s mem p i] by blast
next
  case (fl_flock s p mem i oper s' r)
  then show ?case using flock_inode_ok by blast
next
  case (fl_retry s p i oper mem s' r)
  then show ?case using flock_inode_ok by blast
next
  case (fl_signal s p)
  then show ?case by (simp add: fl_return_ok)
next
  case (fl_close s p i)
  then show ?case using release_loop_ok [of s p i "fl_table s"] by (simp add: flock_release_inode_def)
qed


text \<open>
  The commands that set a POSIX lock have their waiting exchanged: \<open>F_SETLK\<close> sleeps on a conflict and
  \<open>F_SETLKW\<close> returns at once.
\<close>

lemma posix_lock_waits_inverted:
  assumes "l_type fl = F_WRLCK" "flock_scan p i LOCK_EX None (fl_table s) = FlConflict d"
  shows "posix_lock mem p s i F_SETLK fl = (s\<lparr>fl_proc := (fl_proc s)(p := FlAsleep d i LOCK_EX)\<rparr>, fl, None)"
    and "posix_lock mem p s i F_SETLKW fl = (fl_return p s, fl, Some (Some EAGAIN))"
proof -
  have "flock_scan p i (LOCK_EX OR LOCK_NB) new fs = flock_scan p i LOCK_EX new fs" for new fs
    by (induction fs arbitrary: new) auto
  then show "posix_lock mem p s i F_SETLK fl = (s\<lparr>fl_proc := (fl_proc s)(p := FlAsleep d i LOCK_EX)\<rparr>, fl, None)"
    "posix_lock mem p s i F_SETLKW fl = (fl_return p s, fl, Some (Some EAGAIN))"
    using assms by (simp_all add: posix_lock_def posix_type_def flock_inode_def)
qed

text \<open>
  C14. File locks exclude each other and wake up their waiters. Whatever calls the processes make
  and in whatever order they run, when a process holds an exclusive lock no other process holds a lock
  on the file, every sleeping process sleeps on a record of the table that belongs to another process
  and still conflicts with its request (so the release of that record wakes it), and the table has as
  many records as are counted, at most the limit.
\<close>

theorem flock_excludes_and_wakes:
  assumes "flock_reach s"
  shows "(\<forall>f\<in>set (fl_table s). \<forall>g\<in>set (fl_table s).
            ff_inode f = ff_inode g \<and> ff_type f AND 2 \<noteq> 0 \<and> ff_proc f \<noteq> ff_proc g \<longrightarrow> ff_type g AND 3 = 0)
     \<and> (\<forall>q d i oper. fl_proc s q = FlAsleep d i oper \<longrightarrow>
          (\<exists>f\<in>set (fl_table s). ff_id f = d \<and> ff_inode f = i \<and> ff_proc f \<noteq> Some q
             \<and> (oper AND LOCK_EX \<noteq> 0 \<or> oper AND LOCK_SH \<noteq> 0 \<and> ff_type f AND 2 \<noteq> 0)))
     \<and> fl_nr s = length (fl_table s) \<and> length (fl_table s) \<le> NR_FLOCKS"
proof -
  have t: "fl_table_ok s" and sl: "fl_sleep_ok s" using flock_reach_ok [OF assms] by simp_all
  have "fl_excl (fl_table s)" "fl_nr s = length (fl_table s)" "length (fl_table s) \<le> NR_FLOCKS" using t by (simp_all add: fl_table_ok_def)
  then show ?thesis using sl unfolding fl_excl_def fl_sleep_ok_def fl_blocks_def by blast
qed

text \<open>Process 1 holds an exclusive lock on file 7 and process 2 sleeps on it.\<close>

theorem flock_excludes_and_wakes_witness:
  "\<exists>s. flock_reach s \<and> fl_proc s 2 = FlAsleep 100 7 1
     \<and> (\<exists>f\<in>set (fl_table s). ff_id f = 100 \<and> ff_proc f \<noteq> Some 2 \<and> ff_type f AND 2 \<noteq> 0)"
proof -
  let ?s1 = "fst (flock_inode (Some 100) 1 no_flocks 7 2)"
  let ?s2 = "fst (flock_inode None 2 ?s1 7 1)"
  have r1: "flock_reach ?s1"
    by (rule fl_flock [OF fl_init, of 1 "Some 100" 7 2 _ "snd (flock_inode (Some 100) 1 no_flocks 7 2)"])
       (simp_all add: no_flocks_def fresh_addr_def)
  have i1: "fl_proc ?s1 2 = FlIdle"
    by (simp add: flock_inode_def no_flocks_def get_new_flock_def fl_return_def set_flock_def)
  have r2: "flock_reach ?s2"
    by (rule fl_flock [OF r1 i1, of None 7 1 _ "snd (flock_inode None 2 ?s1 7 1)"]) (simp_all add: fresh_addr_def)
  have a: "fl_proc ?s2 2 = FlAsleep 100 7 1"
    by (simp add: flock_inode_def no_flocks_def get_new_flock_def fl_return_def set_flock_def)
  then show ?thesis using flock_excludes_and_wakes [OF r2] r2 by fastforce
qed

end
