(* ===== verification/Spec2Isabelle.thy ===== *)
theory Spec2Isabelle
  imports Query_Index Agfs_Files Acl_On_Agfs Xattr_On_Tree Btree_Log Journal_Crash File_Locks
begin

text \<open>
  Verification library for FNX, the kernel of ArgentumOS.

  \<^bold>\<open>The program.\<close> FNX is a Unix-like kernel in C. Its own file system, AGFS (\<^verbatim>\<open>fs/agfs\<close>), stores files
  with typed attributes, indices over the attributes and a query language, on a volume with a
  free-space bitmap, a superblock in two copies and a metadata journal with group commit. Above it,
  the kernel decides accesses by POSIX access control lists (\<^verbatim>\<open>kernel/acl.c\<close>), which it stores as
  attributes through the attribute system calls (\<^verbatim>\<open>kernel/syscalls/xattr.c\<close>), and keeps advisory file
  locks (\<^verbatim>\<open>fs/locks.c\<close>). Below it, the buffer cache (\<^verbatim>\<open>fs/buffer.c\<close>) holds the blocks of the volume. These
  parts are modelled; each definition has the name of the C function it translates, or the name of
  the piece of it that the manifest gives.

  \<^bold>\<open>Conventions\<close> (\<open>Prelude\<close>, \<open>Kernel_Types\<close>). Error numbers are the datatype \<open>errno\<close>; a function that
  returns 0 or a negative error has a \<open>status\<close>, one that returns a value or an error a \<open>result\<close>.
  Integers whose wrap-around matters are words of their width; block numbers, sizes and counts are
  natural numbers that are written at the width of their field. Memory on the disk and in packed
  structures is a list of bytes, little-endian. \<open>kmalloc\<close> is a list of outcomes the caller consumes.
  Kernel locks, sleeping and interrupts are left out, except where they are the subject (file locks).

  \<^bold>\<open>Access control\<close> (\<open>Acl\<close>, for \<^verbatim>\<open>kernel/acl.c\<close> and the permission helpers of \<^verbatim>\<open>kernel/syscalls.c\<close>): the
  validation of an ACL payload as the loop with its flags, the permission check, \<open>chmod\<close> on an ACL,
  the inheritance of default ACLs, over a record of attribute operations as in
  \<^verbatim>\<open>struct fs_operations\<close>. Shown: validation accepts exactly the canonical ACLs, the check is the
  algorithm of POSIX 1003.1e except that it adds up the matching group entries (and so can grant several permissions at once that no
  entry holds alone), it never grants a group-class access beyond the mask, dropping a trivial
  ACL changes no decision, \<open>chmod\<close> and inheritance keep mode and ACL in step.

  \<^bold>\<open>Attributes\<close> (\<open>Xattr_Store\<close>, \<open>Small_Data\<close>, \<open>Agfs_Attr\<close>, \<open>Agfs_Xattr\<close>, \<open>Xattr_On_Tree\<close>, \<open>Xattr_Syscalls\<close>, \<open>Acl_On_Agfs\<close>).
  \<open>Small_Data\<close> is the byte-level area of records in the tail of an inode block, \<open>Agfs_Attr\<close> the
  attributes directory for values that do not fit, \<open>Agfs_Xattr\<close> the operations over both. \<open>Agfs_Attr\<close> has the directory as a sorted list
  of names and files with outcomes for its failures; \<open>Xattr_On_Tree\<close> puts the B+tree under the list, for names of at most 88 bytes, values
  up to 65279 blocks and inodes that are no symbolic links (the comment in \<^verbatim>\<open>xattr.c\<close> says these are refused, the code does not test it). The locale
  \<open>xattr_store\<close> states what the system calls rely on; AGFS interprets it in \<open>Acl_On_Agfs\<close>, which
  transfers the theorems on the calls to the file system. Shown: set, remove and get implement a
  map from names to values, with the errors of the flags, and every set and remove makes the call on the tree that keeps it in step; the calls keep the mode bits a true view of
  the stored ACL; a set access ACL is the one every later check uses; calls without permission change
  nothing. Three theorems state behaviours that lose data or information on error paths.

  \<^bold>\<open>Queries\<close> (\<open>Query_Match\<close>, \<open>Query_Set\<close>, \<open>Query_Parse\<close>, \<open>Query_Eval\<close>, for \<^verbatim>\<open>fs/agfs/query.c\<close>): number texts,
  wildcard patterns and key comparison; sets of inode numbers in chunks of fixed capacity with
  insertion, intersection in place and union; the recursive descent parser; evaluation over the pairs an
  index walk visits, as a record of functions. Shown: the matcher decides the language of the pattern, the set operations are those
  of finite sets, parsing inverts printing, negation is complement, and \<open>agfs_query\<close> returns the matching
  inodes in order. Loops over chunks have termination measures; the parser is a group of
  mutually recursive functions that ends because the rest of the text gets shorter.

  \<^bold>\<open>Directory trees\<close> (for \<^verbatim>\<open>fs/agfs/btree.c\<close>). \<open>Btree_Node\<close> has the byte layout of a node and the functions that
  read, build and patch one; \<open>Btree_Keys\<close> the order of keys, with the locales \<open>key_order\<close> and \<open>tree_keys\<close>
  that the tree proofs use and their instances for names and 64-bit keys; \<open>Btree\<close> the operations on the
  stream of an inode. \<open>Btree_Rep\<close> says what a stream represents, \<open>Btree_Write\<close>, \<open>Btree_Split\<close> and \<open>Btree_Ops\<close>
  carry that over writes, splits and whole operations. Shown, in \<open>Btree_Dir\<close>: a new directory under any
  sequence of insertions and deletions is the sorted list of its entries, listings end and are in order,
  paths stay far below sixteen levels; in \<open>Btree_Attr\<close>: the list that \<open>Agfs_Attr\<close> works on is what the tree
  stores; in \<open>Btree_Log\<close>: sequences of operations on a sound directory log every block they change. A removal from a damaged leaf, whose
  lengths the code does not check, can move bytes outside the node; \<open>remove_stays_in_node\<close> shows that it does not on a sound one.
  The names have at most 88 bytes, since with longer ones a split can overrun a node, which \<open>Btree_Log\<close>
  shows, together with the loss of names in a split that runs out of space. The walks along links are
  partial functions, shown to return on the streams that represent a tree.

  \<^bold>\<open>Indices\<close> (the duplicate values of \<^verbatim>\<open>fs/agfs/btree.c\<close> and \<^verbatim>\<open>fs/agfs/indices.c\<close>). An index is a tree in which a key has
  several inode numbers: one in the leaf, up to seven in a slot of a fragment node, more in a chain of nodes.
  \<open>Btree_Dup\<close> has the functions that add a number, remove one and walk over all; \<open>Btree_Values\<close> says what the
  links, slots and chains of a stream represent and when they are apart; \<open>Btree_Index\<close> and \<open>Btree_Multimap\<close> carry that
  over insertion and deletion. \<open>Agfs_Indices\<close> has the code that keeps the indices over name, size and
  modification time. Shown: an index tree under any sequence of insertions and deletions is a multimap from keys
  to numbers with the same results; its walk ends and visits every number; and after any sequence of added,
  removed and resized files the three indices list exactly the files. \<open>Query_Index\<close> runs the query engine on
  these trees: a query returns the files of the volume that satisfy it. Keys have at most 88 bytes and streams stay
  below 4 GB; the walk is for streams of at most 4 MB, since it gives up after 4096 nodes of a chain. A
  deletion that changes only a fragment node in the block of the leaf is not logged, which \<open>Agfs_Indices\<close> shows.

  \<^bold>\<open>Space and superblock\<close> (\<open>Block_Alloc\<close> for \<^verbatim>\<open>fs/agfs/balloc.c\<close>, \<open>Agfs_Super\<close> for \<^verbatim>\<open>fs/agfs/super.c\<close>). The
  allocator refines a first-fit allocator on the set of used blocks, through the locale \<open>bitmap\<close>; its
  search returns for every hint, its runs stay inside a group, and only free blocks are discarded. The
  superblock is read back as it was written, and a torn write of block 0 is read as the old one or the
  new one.

  \<^bold>\<open>Files\<close> (\<open>Agfs_Stream\<close> for the block map of \<^verbatim>\<open>fs/agfs/inode.c\<close>, \<open>Agfs_File\<close> for \<^verbatim>\<open>fs/agfs/file.c\<close> and \<^verbatim>\<open>agfs_truncate\<close>). A stream
  has twelve runs of blocks, an indirect table of runs and a double indirect table; \<open>Stream_Direct\<close> reads the direct runs as the list
  of the blocks of the file and shows that growth appends free blocks to it and that trim and truncate cut it. \<open>Agfs_File\<close> has the
  write, in the tail of the inode or on the stream, and the truncate. Shown, in \<open>Agfs_Files\<close>: a sequence of writes, truncates and trims on
  the files of a volume returns and does to their contents what it does to byte lists, through the locale \<open>total_simulation\<close>, and no block has
  two owners. The writes begin within a file or at its end and stay in the direct runs, below \<open>2 ^ 16\<close> blocks, and the truncates stay within
  the tail of the inode or the blocks of the stream; the same theory shows the misplaced block of
  a sparse write, the wrap of the length of a run, and the write that fails behind a trimmed run. The indirect tables are
  modelled and used in that last theorem only. The loops of the block map are partial functions, shown to return in this range.

  \<^bold>\<open>Journal\<close> (\<open>Block_Store\<close> for \<^verbatim>\<open>fs/buffer.c\<close>, \<open>Journal\<close> for \<^verbatim>\<open>fs/agfs/journal.c\<close> with the mount and the drain of
  \<^verbatim>\<open>super.c\<close>; proofs in \<open>Journal_Replay\<close>, \<open>Journal_Barrier\<close>, \<open>Journal_Commit\<close>, \<open>Journal_Crash\<close>). The device records
  its writes in order, so a crash is a prefix of them. The invariant relates the device, the cache and
  the list of transactions; every operation is a step of it, at each point of which the mount recovers
  a prefix of the transactions. Shown: crash atomicity and durability for sequences of transactions,
  data writes and syncs; recovery that may itself be interrupted; and the window in which the bitmap on
  the device is older than the replayed metadata. The sequence number of the superblock stays below
  \<open>2 ^ 32\<close>, as the mount needs; a transaction for which the log must wrap touches no dirty block,
  because the code does not keep such a transaction atomic.

  \<^bold>\<open>File locks\<close> (\<open>File_Locks\<close> for \<^verbatim>\<open>fs/locks.c\<close>): the lock table and the sleeping processes as a step
  relation. Shown: mutual exclusion and the absence of lost wake-ups in every reachable state.

  \<^bold>\<open>Not modelled.\<close> The inode and directory operations of AGFS, the page cache between files and blocks, the virtual file system (paths, descriptors and mounts are functions of
  the state where the calls use them), the eviction of buffers, memory management, scheduling, signals,
  networking, drivers and the other file systems: they are interwoven with hardware, concurrency and
  user memory. Floating point comparison of query values is a parameter. User programs and vendored
  code are outside the kernel.
\<close>

end
